(* ===== verification/Prelude.thy ===== *)
theory Prelude
  imports Main "HOL-Library.Word"
begin

text \<open>
  Shared vocabulary of the development: the machine integer types of the code, byte strings,
  the reading of a list of machine words as a number (least significant word first, which is
  how the code lays out both its big integers and, on the little-endian machines it supports,
  its serialized integers), and the generic lemmas on lists and words the components share.
\<close>

unbundle bit_operations_syntax

subsection \<open>Names of the machine types\<close>

type_synonym byte = "8 word"
type_synonym u16 = "16 word"
type_synonym u32 = "32 word"
type_synonym u64 = "64 word"

text \<open>The casts between 32 and 64 bits: truncation and zero extension.\<close>

abbreviation lo32 :: "u64 \<Rightarrow> u32" where "lo32 \<equiv> ucast"
abbreviation zext64 :: "u32 \<Rightarrow> u64" where "zext64 \<equiv> ucast"

text \<open>Rewriting collections the component theories extend.\<close>

named_theorems wval_simps \<open>how operations on word lists act on the number they denote\<close>
named_theorems codec_simps \<open>unfolding rules of serializers\<close>

subsection \<open>Lists of words as numbers\<close>

fun wval :: "'a::len word list \<Rightarrow> nat" where
  "wval [] = 0"
| "wval (x # xs) = unat x + 2 ^ LENGTH('a) * wval xs"

fun words_of :: "nat \<Rightarrow> nat \<Rightarrow> 'a::len word list" where
  "words_of 0 n = []"
| "words_of (Suc k) n = word_of_nat n # words_of k (n div 2 ^ LENGTH('a))"

lemma length_words_of [simp]: "length (words_of k n) = k"
  by (induction k arbitrary: n) auto

lemma unat_lt_2p: "unat (x :: 'a::len word) < 2 ^ LENGTH('a)"
  by (rule unsigned_less)

lemma wval_bound: "wval (xs :: 'a::len word list) < 2 ^ (LENGTH('a) * length xs)"
proof (induction xs)
  case Nil
  then show ?case by simp
next
  case (Cons x xs)
  have x: "unat x < 2 ^ LENGTH('a)" by (rule unat_lt_2p)
  have "wval xs + 1 \<le> 2 ^ (LENGTH('a) * length xs)" using Cons by simp
  then have "2 ^ LENGTH('a) * (wval xs + 1) \<le> 2 ^ LENGTH('a) * 2 ^ (LENGTH('a) * length xs)"
    by (rule mult_le_mono2)
  with x have "unat x + 2 ^ LENGTH('a) * wval xs < 2 ^ LENGTH('a) * 2 ^ (LENGTH('a) * length xs)"
    by (simp only: distrib_left)
  then show ?case by (simp add: power_add)
qed

lemma wval_append: "wval (xs @ ys) = wval xs + 2 ^ (LENGTH('a) * length xs) * wval ys"
  for xs :: "'a::len word list"
  by (induction xs) (simp_all add: power_add algebra_simps)

lemma wval_replicate_0 [simp]: "wval (replicate k 0) = 0"
  by (induction k) auto

lemma wval_words_of: "wval (words_of k n :: 'a::len word list) = n mod 2 ^ (LENGTH('a) * k)"
proof (induction k arbitrary: n)
  case 0
  then show ?case by simp
next
  case (Suc k)
  show ?case
    by (simp add: Suc unat_of_nat power_add mod_mult2_eq algebra_simps)
qed

lemma words_of_wval: "words_of (length xs) (wval xs) = xs"
proof (induction xs)
  case Nil
  then show ?case by simp
next
  case (Cons x xs)
  have "(unat x + 2 ^ LENGTH('a) * wval xs) div 2 ^ LENGTH('a) = wval xs"
    using unat_lt_2p [of x] by simp
  moreover have "word_of_nat (unat x + 2 ^ LENGTH('a) * wval xs) = x"
    by simp
  ultimately show ?case by (simp add: Cons)
qed

lemma wval_inj: "length xs = length ys \<Longrightarrow> wval xs = wval ys \<Longrightarrow> xs = ys"
  by (metis words_of_wval)

lemma wval_eq_iff: "length xs = length ys \<Longrightarrow> wval xs = wval ys \<longleftrightarrow> xs = ys"
  using wval_inj by blast

lemma words_of_append:
  "words_of (j + k) n = (words_of j n @ words_of k (n div 2 ^ (LENGTH('a) * j)) :: 'a::len word list)"
proof (induction j arbitrary: n)
  case 0
  then show ?case by simp
next
  case (Suc j)
  have "n div 2 ^ LENGTH('a) div 2 ^ (LENGTH('a) * j) = n div 2 ^ (LENGTH('a) * Suc j)"
    by (simp add: power_add div_mult2_eq)
  then show ?case by (simp add: Suc)
qed

text \<open>Single bits of the number are single bits of the words.\<close>

lemma bit_wval:
  fixes xs :: "'a::len word list"
  shows "bit (wval xs) n \<longleftrightarrow> n div LENGTH('a) < length xs \<and> bit (xs ! (n div LENGTH('a))) (n mod LENGTH('a))"
proof (induction xs arbitrary: n)
  case Nil
  then show ?case by simp
next
  case (Cons x xs)
  let ?L = "LENGTH('a)"
  have split: "unat x + 2 ^ ?L * wval xs = (unat x) OR push_bit ?L (wval xs)"
  proof -
    have "unat x + push_bit ?L (wval xs) = unat x OR push_bit ?L (wval xs)"
      by (rule disjunctive_add_eq_or, rule bit_eqI)
        (auto simp: bit_simps dest: bit_imp_le_length)
    then show ?thesis by (simp add: push_bit_eq_mult algebra_simps)
  qed
  show ?case
  proof (cases "n < ?L")
    case True
    then show ?thesis by (auto simp: split bit_simps)
  next
    case False
    then have "n div ?L = Suc ((n - ?L) div ?L)" and "n mod ?L = (n - ?L) mod ?L"
      by (simp_all add: le_div_geq le_mod_geq)
    with False show ?thesis
      by (auto simp: split bit_simps Cons dest: bit_imp_le_length)
  qed
qed

subsection \<open>Machine words as natural numbers\<close>

lemma unat_drop: "unat (drop_bit k w) = unat (w :: 'a::len word) div 2 ^ k"
  by (subst unat_drop_bit_eq) (rule drop_bit_eq_div)

lemma unat_neg_1: "unat (- 1 :: 'a::len word) = 2 ^ LENGTH('a) - 1"
  by (simp add: unsigned_minus_1_eq_mask mask_eq_exp_minus_1)

lemma unat_NOT: "unat (NOT x) = 2 ^ LENGTH('a) - 1 - unat (x :: 'a::len word)"
proof -
  have "unat (NOT x) + unat x = unat (- 1 :: 'a word)"
  proof -
    have "unat (NOT x) + unat x = unat (NOT x) OR unat x"
      by (rule disjunctive_add_eq_or, rule bit_eqI) (simp add: bit_simps)
    also have "\<dots> = unat (NOT x OR x)"
      by (simp only: unsigned_or_eq)
    finally show ?thesis by simp
  qed
  then show ?thesis unfolding unat_neg_1 by linarith
qed

lemma unat_lo32: "unat (lo32 n) = unat n mod 2 ^ 32"
  by (simp add: unsigned_ucast_eq take_bit_eq_mod)

lemma unat_zext64 [simp]: "unat (zext64 x) = unat x"
  using unat_lt_2p [of x] by (simp add: unsigned_ucast_eq take_bit_nat_eq_self)

lemma and_mask32: "n AND 0xffffffff = take_bit 32 (n :: u64)"
  by (simp add: take_bit_eq_mask mask_numeral)

lemma unat_and_mask32: "unat (n AND 0xffffffff :: u64) = unat n mod 2 ^ 32"
  unfolding and_mask32 by (subst unsigned_take_bit_eq) (rule take_bit_eq_mod)

lemma limb_step:
  "(n::nat) mod B + B * ((n div B + A) mod M) = (n + B * A) mod (B * M)"
  by (cases "B = 0") (simp_all add: mod_mult2_eq add.commute)

lemma unat_plus_1: "x + 1 \<noteq> 0 \<Longrightarrow> unat (x + 1) = unat x + 1"
  by (simp add: unatSuc add.commute)

lemma unat_minus_1: "x \<noteq> 0 \<Longrightarrow> unat (x - 1) = unat x - 1"
  by (rule unat_minus_one)

lemma sint_nonneg: "0 \<le> sint x \<Longrightarrow> sint x = int (unat x)" for x :: "'a::len word"
proof -
  assume "0 \<le> sint x"
  moreover have "sint x < 2 ^ LENGTH('a)"
    using sint_lt [of x] by (meson diff_le_self less_le_trans one_le_numeral power_increasing)
  ultimately have "take_bit LENGTH('a) (sint x) = sint x" by (simp add: take_bit_int_eq_self)
  then show ?thesis using uint_sint [of x] by simp
qed

lemma unat_uminus_neg: "sint x < 0 \<Longrightarrow> int (unat (- x)) = - sint x" for x :: "'a::len word"
proof -
  assume n: "sint x < 0"
  have "sint x \<ge> - (2 ^ (LENGTH('a) - 1))" by (rule sint_ge)
  moreover have "(2::int) ^ (LENGTH('a) - 1) < 2 ^ LENGTH('a)" by (rule power_strict_increasing) simp_all
  ultimately have "- sint x < 2 ^ LENGTH('a)" by linarith
  with n have "take_bit LENGTH('a) (- sint x) = - sint x" by (simp add: take_bit_int_eq_self)
  moreover have "uint (- x) = take_bit LENGTH('a) (- sint x)"
    by (metis take_bit_minus uint_sint uint_word_ariths(4) take_bit_eq_mod)
  ultimately show ?thesis by simp
qed

lemma word_of_nat_neq_0: "0 < n \<Longrightarrow> n < 2 ^ LENGTH('a) \<Longrightarrow> (word_of_nat n :: 'a::len word) \<noteq> 0"
  by (simp add: word_of_nat_eq_0_iff nat_dvd_not_less)

lemma uint_zext64 [simp]: "uint (zext64 x) = uint x"
  by (simp only: uint_nat unat_zext64)

lemma words_of_1: "words_of (Suc 0) n = [word_of_nat n]"
  by simp

lemma words_of_2: "words_of 2 n = [word_of_nat n, word_of_nat (n div 2 ^ 8) :: byte]"
proof -
  have "words_of (Suc (Suc 0)) n = [word_of_nat n, word_of_nat (n div 2 ^ 8) :: byte]" by simp
  then show ?thesis by (simp only: Suc_1 One_nat_def [symmetric])
qed

lemma words_of_4: "words_of 4 n =
    [word_of_nat n, word_of_nat (n div 2 ^ 8), word_of_nat (n div 2 ^ 16), word_of_nat (n div 2 ^ 24) :: byte]"
proof -
  have "(4 :: nat) = Suc (Suc (Suc (Suc 0)))" by simp
  then show ?thesis by (simp only: words_of.simps) (simp add: div_mult2_eq [symmetric])
qed

lemma sint_small: "unat x < 2 ^ (LENGTH('a) - 1) \<Longrightarrow> sint x = int (unat x)" for x :: "'a::len word"
proof -
  assume "unat x < 2 ^ (LENGTH('a) - 1)"
  then have "uint x < 2 ^ (LENGTH('a) - 1)" by (metis of_nat_less_iff of_nat_numeral of_nat_power uint_nat)
  then have "signed_take_bit (LENGTH('a) - 1) (uint x) = uint x"
    by (intro signed_take_bit_int_eq_self) (simp_all add: order.trans [of _ 0])
  then show ?thesis by (simp add: sint_uint)
qed

lemma sint_le_iff: "0 \<le> sint x \<Longrightarrow> sint x \<le> int n \<longleftrightarrow> unat x \<le> n" for x :: "'a::len word"
  by (simp only: sint_nonneg of_nat_le_iff)

lemma le_sint_iff: "0 \<le> sint x \<Longrightarrow> int n \<le> sint x \<longleftrightarrow> n \<le> unat x" for x :: "'a::len word"
  by (simp only: sint_nonneg of_nat_le_iff)

end
