(* ===== verification/Uint256.thy ===== *)
theory Uint256
  imports Prelude
begin

text \<open>
  The fixed-width big integers of src/uint256.h: the template class base_uint, whose value is
  the array pn of WIDTH = BITS / 32 unsigned 32-bit words (least significant first), and the
  classes uint160, uint256 and uint512 over it. A base_uint is the list pn; WIDTH is its
  length. Every operator is the loop of the header, word by word. The lemmas show that the
  operators implement arithmetic modulo 2 ^ BITS, shifts and comparison of the number
  \<open>wval pn\<close>, and the locale \<open>modular_uint\<close> derives the laws the clients rely on from that,
  interpreted at the three widths the program uses.
\<close>

subsection \<open>The operators of base_uint\<close>

type_synonym base_uint = "u32 list"

fun u_not :: "base_uint \<Rightarrow> bool" where \<comment> \<open>operator!\<close>
  "u_not [] = True"
| "u_not (x # pn) = (if x \<noteq> 0 then False else u_not pn)"

definition u_compl :: "base_uint \<Rightarrow> base_uint" where \<comment> \<open>operator~\<close>
  "u_compl pn = map NOT pn"

text \<open>Prefix increment: stops at the first word that does not wrap, or at the last word.\<close>

fun u_inc :: "base_uint \<Rightarrow> base_uint" where
  "u_inc [] = []"
| "u_inc (x # pn) = (if x + 1 = 0 \<and> pn \<noteq> [] then (x + 1) # u_inc pn else (x + 1) # pn)"

fun u_dec :: "base_uint \<Rightarrow> base_uint" where
  "u_dec [] = []"
| "u_dec (x # pn) = (if x - 1 = - 1 \<and> pn \<noteq> [] then (x - 1) # u_dec pn else (x - 1) # pn)"

definition u_neg :: "base_uint \<Rightarrow> base_uint" where \<comment> \<open>unary operator-\<close>
  "u_neg pn = u_inc (map NOT pn)"

definition u_of_uint64 :: "nat \<Rightarrow> u64 \<Rightarrow> base_uint" where \<comment> \<open>operator=(uint64), at a given WIDTH\<close>
  "u_of_uint64 W b = (lo32 b) # (lo32 (drop_bit 32 b)) # replicate (W - 2) 0"

definition u_xor :: "base_uint \<Rightarrow> base_uint \<Rightarrow> base_uint" where
  "u_xor a b = map2 (XOR) a b"

definition u_and :: "base_uint \<Rightarrow> base_uint \<Rightarrow> base_uint" where
  "u_and a b = map2 (AND) a b"

definition u_or :: "base_uint \<Rightarrow> base_uint \<Rightarrow> base_uint" where
  "u_or a b = map2 (OR) a b"

text \<open>One iteration of the two shift loops, and the loops.\<close>

definition u_shl_step :: "base_uint \<Rightarrow> nat \<Rightarrow> nat \<Rightarrow> base_uint \<Rightarrow> nat \<Rightarrow> base_uint" where
  "u_shl_step a k s pn i =
     (let W = length a;
          pn1 = (if i + k + 1 < W \<and> s \<noteq> 0
                 then pn[i + k + 1 := (pn ! (i + k + 1)) OR drop_bit (32 - s) (a ! i)] else pn)
      in (if i + k < W then pn1[i + k := (pn1 ! (i + k)) OR push_bit s (a ! i)] else pn1))"

definition u_shl :: "base_uint \<Rightarrow> u32 \<Rightarrow> base_uint" where \<comment> \<open>operator<<=\<close>
  "u_shl a shift =
     (let k = unat shift div 32; s = unat shift mod 32
      in foldl (u_shl_step a k s) (replicate (length a) 0) [0..<length a])"

definition u_shr_step :: "base_uint \<Rightarrow> nat \<Rightarrow> nat \<Rightarrow> base_uint \<Rightarrow> nat \<Rightarrow> base_uint" where
  "u_shr_step a k s pn i =
     (let pn1 = (if k + 1 \<le> i \<and> s \<noteq> 0
                 then pn[i - k - 1 := (pn ! (i - k - 1)) OR push_bit (32 - s) (a ! i)] else pn)
      in (if k \<le> i then pn1[i - k := (pn1 ! (i - k)) OR drop_bit s (a ! i)] else pn1))"

definition u_shr :: "base_uint \<Rightarrow> u32 \<Rightarrow> base_uint" where \<comment> \<open>operator>>=\<close>
  "u_shr a shift =
     (let k = unat shift div 32; s = unat shift mod 32
      in foldl (u_shr_step a k s) (replicate (length a) 0) [0..<length a])"

text \<open>The addition loop: the carry is a uint64.\<close>

fun u_add_loop :: "u64 \<Rightarrow> base_uint \<Rightarrow> base_uint \<Rightarrow> base_uint" where
  "u_add_loop carry (x # a) (y # b) =
     (let n = carry + zext64 x + zext64 y
      in lo32 (n AND 0xffffffff) # u_add_loop (drop_bit 32 n) a b)"
| "u_add_loop carry a b = a"

definition u_add :: "base_uint \<Rightarrow> base_uint \<Rightarrow> base_uint" where \<comment> \<open>operator+=\<close>
  "u_add a b = u_add_loop 0 a b"

definition u_sub :: "base_uint \<Rightarrow> base_uint \<Rightarrow> base_uint" where \<comment> \<open>operator-=\<close>
  "u_sub a b = u_add a (u_neg b)"

definition u_add64 :: "base_uint \<Rightarrow> u64 \<Rightarrow> base_uint" where
  "u_add64 a b64 = u_add a (u_of_uint64 (length a) b64)"

definition u_sub64 :: "base_uint \<Rightarrow> u64 \<Rightarrow> base_uint" where
  "u_sub64 a b64 = u_add a (u_neg (u_of_uint64 (length a) b64))"

text \<open>
  The four comparison loops walk the words from the most significant one (index \<open>i - 1\<close> of the
  remaining \<open>i\<close> words) and differ in the value they return when every word is equal.
\<close>

fun u_less_from :: "bool \<Rightarrow> base_uint \<Rightarrow> base_uint \<Rightarrow> nat \<Rightarrow> bool" where
  "u_less_from eq a b 0 = eq"
| "u_less_from eq a b (Suc i) =
     (if a ! i < b ! i then True else if a ! i > b ! i then False else u_less_from eq a b i)"

definition u_lt :: "base_uint \<Rightarrow> base_uint \<Rightarrow> bool" where
  "u_lt a b = u_less_from False a b (length a)"

definition u_le :: "base_uint \<Rightarrow> base_uint \<Rightarrow> bool" where
  "u_le a b = u_less_from True a b (length a)"

fun u_greater_from :: "bool \<Rightarrow> base_uint \<Rightarrow> base_uint \<Rightarrow> nat \<Rightarrow> bool" where
  "u_greater_from eq a b 0 = eq"
| "u_greater_from eq a b (Suc i) =
     (if a ! i > b ! i then True else if a ! i < b ! i then False else u_greater_from eq a b i)"

definition u_gt :: "base_uint \<Rightarrow> base_uint \<Rightarrow> bool" where
  "u_gt a b = u_greater_from False a b (length a)"

definition u_ge :: "base_uint \<Rightarrow> base_uint \<Rightarrow> bool" where
  "u_ge a b = u_greater_from True a b (length a)"

fun u_eq :: "base_uint \<Rightarrow> base_uint \<Rightarrow> bool" where \<comment> \<open>operator==\<close>
  "u_eq (x # a) (y # b) = (if x \<noteq> y then False else u_eq a b)"
| "u_eq a b = True"

definition u_eq64 :: "base_uint \<Rightarrow> u64 \<Rightarrow> bool" where \<comment> \<open>operator==(uint64)\<close>
  "u_eq64 a b =
     (if a ! 0 \<noteq> lo32 b then False
      else if a ! 1 \<noteq> lo32 (drop_bit 32 b) then False
      else list_all (\<lambda>x. x = 0) (drop 2 a))"

subsection \<open>Bytes and hexadecimal text\<close>

text \<open>The object representation of pn on a little-endian machine, and back.\<close>

definition u_bytes :: "base_uint \<Rightarrow> byte list" where
  "u_bytes pn = concat (map (\<lambda>x. words_of 4 (unat x)) pn)"

fun u_of_bytes :: "byte list \<Rightarrow> base_uint" where
  "u_of_bytes (b0 # b1 # b2 # b3 # bs) = word_of_nat (wval [b0, b1, b2, b3]) # u_of_bytes bs"
| "u_of_bytes _ = []"

definition hex_char :: "nat \<Rightarrow> char" where \<comment> \<open>one digit of printf's %x\<close>
  "hex_char d = ''0123456789abcdef'' ! d"

definition hex_byte :: "byte \<Rightarrow> string" where \<comment> \<open>printf's %02x\<close>
  "hex_byte b = [hex_char (unat b div 16), hex_char (unat b mod 16)]"

definition u_GetHex :: "base_uint \<Rightarrow> string" where
  "u_GetHex pn = concat (map hex_byte (rev (u_bytes pn)))"

definition phexdigit :: "char \<Rightarrow> byte" where \<comment> \<open>the 256-entry table\<close>
  "phexdigit c =
     (let n = of_char c :: nat
      in if 0x30 \<le> n \<and> n \<le> 0x39 then word_of_nat (n - 0x30)
         else if 0x41 \<le> n \<and> n \<le> 0x46 then word_of_nat (n - 0x41 + 10)
         else if 0x61 \<le> n \<and> n \<le> 0x66 then word_of_nat (n - 0x61 + 10)
         else 0)"

definition c_isspace :: "char \<Rightarrow> bool" where \<comment> \<open>isspace of the C locale\<close>
  "c_isspace c = (let n = of_char c :: nat in n = 32 \<or> (9 \<le> n \<and> n \<le> 13))"

definition skip_0x :: "string \<Rightarrow> string" where
  "skip_0x s = (case s of
       c # d # r \<Rightarrow> (if c = CHR ''0'' \<and> (d = CHR ''x'' \<or> d = CHR ''X'') then r else s)
     | _ \<Rightarrow> s)"

text \<open>
  The filling loop: it reads the digits backwards (the argument is the reversed digit run), two
  per byte, and stops at the end of the digits or of the \<open>n\<close> bytes of pn, which were zeroed.
\<close>

fun u_fill :: "string \<Rightarrow> nat \<Rightarrow> byte list" where
  "u_fill cs 0 = []"
| "u_fill [] n = replicate n 0"
| "u_fill [c] (Suc n) = phexdigit c # replicate n 0"
| "u_fill (c # d # cs) (Suc n) = (phexdigit c OR push_bit 4 (phexdigit d)) # u_fill cs n"

definition u_SetHex :: "nat \<Rightarrow> string \<Rightarrow> base_uint" where
  "u_SetHex W psz =
     (let s = skip_0x (dropWhile c_isspace psz);
          digits = takeWhile (\<lambda>c. phexdigit c \<noteq> 0 \<or> c = CHR ''0'') s
      in u_of_bytes (u_fill (rev digits) (4 * W)))"

definition u_Get64 :: "base_uint \<Rightarrow> nat \<Rightarrow> u64" where
  "u_Get64 pn n = zext64 (pn ! (2 * n)) OR push_bit 32 (zext64 (pn ! (2 * n + 1)))"

text \<open>The constructors from a byte vector, and uint512's truncation to uint256.\<close>

definition uint160_of_vch :: "byte list \<Rightarrow> base_uint" where
  "uint160_of_vch vch = (if length vch = 20 then u_of_bytes vch else u_of_uint64 5 0)"

definition uint256_of_vch :: "byte list \<Rightarrow> base_uint" where
  "uint256_of_vch vch = (if length vch = 32 then u_of_bytes vch else u_of_uint64 8 0)"

definition uint512_of_vch :: "byte list \<Rightarrow> base_uint" where
  "uint512_of_vch vch = (if length vch = 64 then u_of_bytes vch else u_of_uint64 16 0)"

definition trim256 :: "base_uint \<Rightarrow> base_uint" where
  "trim256 pn = map (\<lambda>i. pn ! i) [0..<8]"

subsection \<open>Addition, increment, negation, subtraction\<close>

lemma length_u_add_loop [simp]: "length (u_add_loop c a b) = length a"
  by (induction c a b rule: u_add_loop.induct) (auto simp: Let_def)

lemma length_u_add [simp]: "length (u_add a b) = length a"
  by (simp add: u_add_def)

lemma length_u_inc [simp]: "length (u_inc a) = length a"
  by (induction a rule: u_inc.induct) auto

lemma length_u_dec [simp]: "length (u_dec a) = length a"
  by (induction a rule: u_dec.induct) auto

lemma length_u_neg [simp]: "length (u_neg a) = length a"
  by (simp add: u_neg_def)

lemma length_u_sub [simp]: "length (u_sub a b) = length a"
  by (simp add: u_sub_def)

lemma u_add_loop_word:
  fixes c :: u64 and x y :: u32
  assumes "unat c \<le> 1"
  shows "unat (c + zext64 x + zext64 y) = unat c + unat x + unat y"
proof -
  have "unat x < 2 ^ 32" "unat y < 2 ^ 32"
    using unat_lt_2p [of x] unat_lt_2p [of y] by simp_all
  with assms show ?thesis
    by (simp add: unat_word_ariths unsigned_ucast_eq take_bit_eq_mod)
qed

lemma wval_u_add_loop:
  "length a = length b \<Longrightarrow> unat c \<le> 1 \<Longrightarrow>
   wval (u_add_loop c a b) = (unat c + wval a + wval b) mod 2 ^ (32 * length a)"
proof (induction c a b rule: u_add_loop.induct)
  case (1 c x a y b)
  define n where "n = c + zext64 x + zext64 y"
  have n: "unat n = unat c + unat x + unat y"
    unfolding n_def using 1 by (intro u_add_loop_word) simp
  have "unat n div 2 ^ 32 \<le> 1"
    using n 1 unat_lt_2p [of x] unat_lt_2p [of y] by simp
  then have IH: "wval (u_add_loop (drop_bit 32 n) a b) =
      (unat n div 2 ^ 32 + (wval a + wval b)) mod 2 ^ (32 * length a)"
    using 1 n_def by (simp only: unat_drop) (simp add: add.assoc)
  have "wval (u_add_loop c (x # a) (y # b)) =
      unat n mod 2 ^ 32 + 2 ^ 32 * ((unat n div 2 ^ 32 + (wval a + wval b)) mod 2 ^ (32 * length a))"
    by (simp only: u_add_loop.simps Let_def n_def [symmetric] wval.simps IH unat_lo32 unat_and_mask32) simp
  also have "\<dots> = (unat n + 2 ^ 32 * (wval a + wval b)) mod (2 ^ 32 * 2 ^ (32 * length a))"
    by (rule limb_step)
  also have "unat n + 2 ^ 32 * (wval a + wval b) = unat c + wval (x # a) + wval (y # b)"
    by (simp add: n distrib_left)
  finally show ?case by (simp add: power_add)
qed auto

lemma wval_u_add:
  "length a = length b \<Longrightarrow> wval (u_add a b) = (wval a + wval b) mod 2 ^ (32 * length a)"
  by (simp add: u_add_def wval_u_add_loop)

lemma compl_step:
  assumes "x < B" "w < M"
  shows "(B - 1 - x) + B * (M - 1 - w) = B * M - 1 - (x + B * (w::nat))"
proof -
  obtain a where a: "B = x + 1 + a" using assms(1) less_imp_Suc_add by fastforce
  obtain b where b: "M = w + 1 + b" using assms(2) less_imp_Suc_add by fastforce
  show ?thesis unfolding a b by (simp add: algebra_simps)
qed

lemma wval_compl: "wval (map NOT pn) = 2 ^ (32 * length pn) - 1 - wval (pn :: base_uint)"
proof (induction pn)
  case Nil
  then show ?case by simp
next
  case (Cons x pn)
  have "unat x < 2 ^ 32" "wval pn < 2 ^ (32 * length pn)"
    using unat_lt_2p [of x] wval_bound [of pn] by simp_all
  then have "(2 ^ 32 - 1 - unat x) + 2 ^ 32 * (2 ^ (32 * length pn) - 1 - wval pn)
      = 2 ^ 32 * 2 ^ (32 * length pn) - 1 - (unat x + 2 ^ 32 * wval pn)"
    by (rule compl_step)
  then show ?case by (simp add: unat_NOT Cons power_add)
qed

lemma wval_u_inc: "pn \<noteq> [] \<Longrightarrow> wval (u_inc pn) = (wval pn + 1) mod 2 ^ (32 * length pn)"
proof (induction pn rule: u_inc.induct)
  case (2 x pn)
  show ?case
  proof (cases "x + 1 = 0")
    case True
    then have "x = - 1" by (simp add: eq_neg_iff_add_eq_0)
    then have x: "unat x + 1 = 2 ^ 32" by (simp add: unat_neg_1)
    then show ?thesis using 2 True by (cases "pn = []") (simp_all add: power_add mult_mod_right)
  next
    case False
    then have "unat (x + 1) = unat x + 1"  by (rule unat_plus_1)
    moreover have "unat x + 1 < 2 ^ 32" using unat_lt_2p[of "x+1"] calculation by simp
    ultimately show ?thesis using False wval_bound[of "(x + 1) # pn"] by simp
  qed
qed simp

lemma dec_mod: "w + 1 = v \<Longrightarrow> v < (M::nat) \<Longrightarrow> (v + M - 1) mod M = w"
  by auto

lemma wval_u_dec: "pn \<noteq> [] \<Longrightarrow> wval (u_dec pn) = (wval pn + 2 ^ (32 * length pn) - 1) mod 2 ^ (32 * length pn)"
proof (induction pn rule: u_dec.induct)
  case (2 x pn)
  let ?M = "2 ^ (32 * length pn) :: nat"
  show ?case
  proof (cases "x = 0")
    case True
    then have x: "unat (x - 1) = 2 ^ 32 - 1" by (simp add: unat_neg_1)
    show ?thesis
    proof (cases "pn = []")
      case True
      with x \<open>x = 0\<close> show ?thesis by (simp add: unat_neg_1)
    next
      case False
      define q where "q = wval pn + ?M - 1"
      have q: "wval pn + ?M = q + 1" by (simp add: q_def)
      have "wval (u_dec (x # pn)) = (2 ^ 32 - 1) + 2 ^ 32 * (q mod ?M)"
        using 2 False x \<open>x = 0\<close> by (simp add: q_def)
      also have "\<dots> = ((2 ^ 32 - 1) + 2 ^ 32 * q) mod (2 ^ 32 * ?M)"
        using limb_step [of "2 ^ 32 - 1" "2 ^ 32" q ?M] by simp
      also have "(2 ^ 32 - 1) + 2 ^ 32 * q = wval (x # pn) + 2 ^ 32 * ?M - 1"
      proof -
        have "wval (x # pn) + 2 ^ 32 * ?M = 2 ^ 32 * (wval pn + ?M)"
          by (simp only: True wval.simps unat_0 distrib_left) simp
        then show ?thesis by (simp add: q)
      qed
      finally show ?thesis by (simp add: power_add)
    qed
  next
    case False
    then have nw: "x - 1 \<noteq> - 1" by auto
    have "0 < unat x" using False by (simp add: unat_gt_0)
    moreover have "unat (x - 1) = unat x - 1" using False by (rule unat_minus_1)
    ultimately have "wval ((x - 1) # pn) + 1 = wval (x # pn)" by simp
    moreover have "wval (x # pn) < 2 ^ (32 * length (x # pn))"
      using wval_bound [of "x # pn"] by simp
    ultimately have "(wval (x # pn) + 2 ^ (32 * length (x # pn)) - 1) mod 2 ^ (32 * length (x # pn))
        = wval ((x - 1) # pn)"
      by (intro dec_mod)
    with nw show ?thesis by simp
  qed
qed simp

lemma wval_u_neg: "pn \<noteq> [] \<Longrightarrow> wval (u_neg pn) = (2 ^ (32 * length pn) - wval pn) mod 2 ^ (32 * length pn)"
  using wval_bound [of pn] by (simp add: u_neg_def wval_u_inc wval_compl Suc_diff_Suc)

lemma wval_u_sub:
  assumes "length a = length b"
  shows "wval (u_sub a b) = (wval a + 2 ^ (32 * length a) - wval b) mod 2 ^ (32 * length a)"
proof (cases "b = []")
  case True
  with assms show ?thesis by (simp add: u_sub_def u_add_def)
next
  case False
  have "wval b < 2 ^ (32 * length a)" using wval_bound [of b] assms by simp
  with False assms show ?thesis
    by (simp add: u_sub_def wval_u_add wval_u_neg mod_add_right_eq)
qed

lemma wval_u_of_uint64: "2 \<le> W \<Longrightarrow> wval (u_of_uint64 W b) = unat b"
proof -
  have "unat b div 2 ^ 32 < 2 ^ 32" using unat_lt_2p [of b] by simp
  then show ?thesis
    by (simp only: u_of_uint64_def wval.simps unat_lo32 unat_drop wval_replicate_0) simp
qed

lemma length_u_of_uint64 [simp]: "2 \<le> W \<Longrightarrow> length (u_of_uint64 W b) = W"
  by (simp add: u_of_uint64_def)

subsection \<open>Comparison\<close>

lemma wval_less_top:
  assumes "length a = length b" "x < y"
  shows "wval (a @ [x]) < wval (b @ [y :: u32])"
proof -
  have "wval a < 2 ^ (32 * length a)" using wval_bound [of a] by simp
  moreover have "unat x + 1 \<le> unat y" using assms(2) by (simp add: word_less_nat_alt)
  then have "2 ^ (32 * length a) * (unat x + 1) \<le> 2 ^ (32 * length a) * unat y"
    by (rule mult_le_mono2)
  ultimately show ?thesis using assms(1) by (simp add: wval_append)
qed

lemma u_less_from_take:
  "i \<le> length a \<Longrightarrow> length a = length b \<Longrightarrow>
   u_less_from eq a b i = (wval (take i a) < wval (take i b) \<or> (eq \<and> wval (take i a) = wval (take i b)))"
proof (induction i)
  case 0
  then show ?case by simp
next
  case (Suc i)
  then have ta: "take (Suc i) a = take i a @ [a ! i]" and tb: "take (Suc i) b = take i b @ [b ! i]"
    by (simp_all add: take_Suc_conv_app_nth)
  have len: "length (take i a) = length (take i b)" using Suc by simp
  consider "a ! i < b ! i" | "b ! i < a ! i" | "a ! i = b ! i" by fastforce
  then show ?case
  proof cases
    case 1
    with wval_less_top [OF len 1] show ?thesis by (simp add: ta tb)
  next
    case 2
    with wval_less_top [OF len [symmetric] 2] show ?thesis by (simp add: ta tb)
  next
    case 3
    with Suc len show ?thesis by (simp add: ta tb wval_append)
  qed
qed

lemma u_greater_from_flip: "u_greater_from eq a b i = u_less_from eq b a i"
  by (induction i) auto

lemma u_compare:
  assumes "length a = length b"
  shows "u_lt a b \<longleftrightarrow> wval a < wval b" "u_le a b \<longleftrightarrow> wval a \<le> wval b"
    "u_gt a b \<longleftrightarrow> wval a > wval b" "u_ge a b \<longleftrightarrow> wval a \<ge> wval b"
  using assms
  by (auto simp: u_lt_def u_le_def u_gt_def u_ge_def u_greater_from_flip u_less_from_take)

lemma u_eq_iff: "length a = length b \<Longrightarrow> u_eq a b \<longleftrightarrow> a = b"
  by (induction a b rule: u_eq.induct) auto

lemma u_not_iff: "u_not a \<longleftrightarrow> wval a = 0"
  by (induction a) (auto simp: unat_eq_0)


subsection \<open>Shifts\<close>

lemma u_shl_step_nth:
  "length pn = length a \<Longrightarrow> j < length a \<Longrightarrow> u_shl_step a k s pn i ! j =
     (pn ! j OR (if j = i + k then push_bit s (a ! i) else 0))
       OR (if j = i + k + 1 \<and> s \<noteq> 0 then drop_bit (32 - s) (a ! i) else 0)"
  by (simp add: u_shl_step_def Let_def nth_list_update)

lemma length_u_shl_step [simp]: "length (u_shl_step a k s pn i) = length pn"
  by (simp add: u_shl_step_def Let_def)

lemma length_u_shl_fold [simp]: "length (foldl (u_shl_step a k s) pn is) = length pn"
  by (induction "is" arbitrary: pn) auto

lemma u_shl_fold_nth:
  "j < length a \<Longrightarrow>
   foldl (u_shl_step a k s) (replicate (length a) 0) [0..<n] ! j =
     (if k \<le> j \<and> j - k < n then push_bit s (a ! (j - k)) else 0)
       OR (if k + 1 \<le> j \<and> j - k - 1 < n \<and> s \<noteq> 0 then drop_bit (32 - s) (a ! (j - k - 1)) else 0)"
proof (induction n)
  case 0
  then show ?case by simp
next
  case (Suc n)
  consider "j = n + k" | "j = n + k + 1" | "j \<noteq> n + k" "j \<noteq> n + k + 1" by blast
  then show ?case
    by cases (use Suc in \<open>auto simp: u_shl_step_nth or.assoc or.commute less_Suc_eq\<close>)
qed

lemma u_shl_nth:
  assumes "j < length a" "k = unat shift div 32" "s = unat shift mod 32"
  shows "u_shl a shift ! j =
     (if k \<le> j then push_bit s (a ! (j - k)) else 0)
       OR (if k + 1 \<le> j \<and> s \<noteq> 0 then drop_bit (32 - s) (a ! (j - k - 1)) else 0)"
  using assms by (auto simp: u_shl_def Let_def u_shl_fold_nth)

lemma length_u_shl [simp]: "length (u_shl a s) = length a"
  by (simp add: u_shl_def Let_def)

lemma bit_wval_at:
  "m < 32 \<Longrightarrow> n = 32 * q + m \<Longrightarrow> bit (wval (a :: u32 list)) n \<longleftrightarrow> q < length a \<and> bit (a ! q) m"
  by (simp add: bit_wval)

lemma wval_u_shl: "wval (u_shl a shift) = (wval a * 2 ^ unat shift) mod 2 ^ (32 * length a)"
proof -
  define k where "k = unat shift div 32"
  define s where "s = unat shift mod 32"
  have s: "s < 32" "unat shift = 32 * k + s" by (simp_all add: s_def k_def)
  have "wval (u_shl a shift) = take_bit (32 * length a) (push_bit (unat shift) (wval a))"
  proof (rule bit_eqI)
    fix n :: nat
    define j where "j = n div 32"
    define m where "m = n mod 32"
    have n: "n = 32 * j + m" "m < 32" by (simp_all add: j_def m_def)
    show "bit (wval (u_shl a shift)) n = bit (take_bit (32 * length a) (push_bit (unat shift) (wval a))) n"
    proof (cases "j < length a")
      case True
      then have "bit (wval (u_shl a shift)) n \<longleftrightarrow>
          (k \<le> j \<and> s \<le> m \<and> bit (a ! (j - k)) (m - s)) \<or>
          (k + 1 \<le> j \<and> s \<noteq> 0 \<and> bit (a ! (j - k - 1)) (m + (32 - s)))"
        using n by (auto simp: bit_wval u_shl_nth [OF True k_def s_def] bit_simps add.commute)
      also have "\<dots> \<longleftrightarrow> 32 * k + s \<le> n \<and> bit (wval a) (n - (32 * k + s))"
      proof (cases "s \<le> m")
        case sm: True
        have "\<not> bit (a ! (j - k - 1)) (m + (32 - s))"
          using sm by (auto dest: bit_imp_le_length)
        moreover have "32 * k + s \<le> n \<longleftrightarrow> k \<le> j" using n sm s by arith
        moreover have "k \<le> j \<Longrightarrow> n - (32 * k + s) = 32 * (j - k) + (m - s)" using n sm by arith
        moreover have "k \<le> j \<Longrightarrow> bit (wval a) (n - (32 * k + s)) = bit (a ! (j - k)) (m - s)"
          using True n(2) calculation(3) by (subst bit_wval_at [of "m - s" _ "j - k"]) auto
        ultimately show ?thesis using sm n True by auto
      next
        case sm: False
        have "32 * k + s \<le> n \<longleftrightarrow> k + 1 \<le> j" using n sm s by arith
        moreover have "k + 1 \<le> j \<Longrightarrow> n - (32 * k + s) = 32 * (j - k - 1) + (m + (32 - s))"
          using n sm s by arith
        moreover have "k + 1 \<le> j \<Longrightarrow> bit (wval a) (n - (32 * k + s)) = bit (a ! (j - k - 1)) (m + (32 - s))"
          using True n(2) s sm calculation(2) by (subst bit_wval_at [of "m + (32 - s)" _ "j - k - 1"]) auto
        ultimately show ?thesis using sm n True s by auto
      qed
      finally show ?thesis
        using True n by (auto simp: bit_take_bit_iff bit_push_bit_iff s(2))
    next
      case False
      then have "32 * length a \<le> n" using n by simp
      with False show ?thesis by (simp add: bit_wval bit_take_bit_iff flip: j_def)
    qed
  qed
  then show ?thesis by (simp add: take_bit_eq_mod push_bit_eq_mult)
qed

lemma u_shr_step_nth:
  "length pn = length a \<Longrightarrow> i < length a \<Longrightarrow> j < length a \<Longrightarrow> u_shr_step a k s pn i ! j =
     (pn ! j OR (if j + k + 1 = i \<and> s \<noteq> 0 then push_bit (32 - s) (a ! i) else 0))
       OR (if j + k = i then drop_bit s (a ! i) else 0)"
  by (auto simp: u_shr_step_def Let_def nth_list_update)

lemma length_u_shr_step [simp]: "length (u_shr_step a k s pn i) = length pn"
  by (simp add: u_shr_step_def Let_def)

lemma length_u_shr_fold [simp]: "length (foldl (u_shr_step a k s) pn is) = length pn"
  by (induction "is" arbitrary: pn) auto

lemma u_shr_fold_nth:
  "j < length a \<Longrightarrow> n \<le> length a \<Longrightarrow>
   foldl (u_shr_step a k s) (replicate (length a) 0) [0..<n] ! j =
     (if j + k < n then drop_bit s (a ! (j + k)) else 0)
       OR (if j + k + 1 < n \<and> s \<noteq> 0 then push_bit (32 - s) (a ! (j + k + 1)) else 0)"
proof (induction n)
  case 0
  then show ?case by simp
next
  case (Suc n)
  consider "n = j + k" | "n = j + k + 1" | "n \<noteq> j + k" "n \<noteq> j + k + 1" by blast
  then show ?case
    by cases (use Suc in \<open>auto simp: u_shr_step_nth or.assoc or.commute less_Suc_eq\<close>)
qed

lemma u_shr_nth:
  assumes "j < length a" "k = unat shift div 32" "s = unat shift mod 32"
  shows "u_shr a shift ! j =
     (if j + k < length a then drop_bit s (a ! (j + k)) else 0)
       OR (if j + k + 1 < length a \<and> s \<noteq> 0 then push_bit (32 - s) (a ! (j + k + 1)) else 0)"
  using assms by (auto simp: u_shr_def Let_def u_shr_fold_nth)

lemma length_u_shr [simp]: "length (u_shr a s) = length a"
  by (simp add: u_shr_def Let_def)

lemma wval_u_shr: "wval (u_shr a shift) = wval a div 2 ^ unat shift"
proof -
  define k where "k = unat shift div 32"
  define s where "s = unat shift mod 32"
  have s: "s < 32" "unat shift = 32 * k + s" by (simp_all add: s_def k_def)
  have "wval (u_shr a shift) = drop_bit (unat shift) (wval a)"
  proof (rule bit_eqI)
    fix n :: nat
    define j where "j = n div 32"
    define m where "m = n mod 32"
    have n: "n = 32 * j + m" "m < 32" by (simp_all add: j_def m_def)
    have rhs: "bit (drop_bit (unat shift) (wval a)) n = bit (wval a) (32 * k + s + n)"
      by (simp add: bit_drop_bit_eq s(2))
    show "bit (wval (u_shr a shift)) n = bit (drop_bit (unat shift) (wval a)) n"
    proof (cases "j < length a")
      case True
      have lhs: "bit (wval (u_shr a shift)) n \<longleftrightarrow>
          (j + k < length a \<and> bit (a ! (j + k)) (m + s)) \<or>
          (j + k + 1 < length a \<and> s \<noteq> 0 \<and> 32 - s \<le> m \<and> bit (a ! (j + k + 1)) (m - (32 - s)))"
        using n True by (auto simp: bit_wval u_shr_nth [OF True k_def s_def] bit_simps add.commute)
      show ?thesis
      proof (cases "m + s < 32")
        case sm: True
        then have "bit (wval a) (32 * k + s + n) \<longleftrightarrow> j + k < length a \<and> bit (a ! (j + k)) (m + s)"
          using n by (intro bit_wval_at) auto
        with sm show ?thesis unfolding lhs rhs by auto
      next
        case sm: False
        then have "bit (wval a) (32 * k + s + n) \<longleftrightarrow>
            j + k + 1 < length a \<and> bit (a ! (j + k + 1)) (m - (32 - s))"
          using n s by (intro bit_wval_at) auto
        moreover have "\<not> bit (a ! (j + k)) (m + s)" using sm by (auto dest: bit_imp_le_length)
        ultimately show ?thesis using sm s(1) n(2) unfolding lhs rhs by auto
      qed
    next
      case False
      then have "length a \<le> (32 * k + s + n) div 32" using n by arith
      then have "\<not> bit (wval a) (32 * k + s + n)" by (simp add: bit_wval)
      with False show ?thesis unfolding rhs by (simp add: bit_wval flip: j_def)
    qed
  qed
  then show ?thesis by (simp add: drop_bit_eq_div)
qed
subsection \<open>Bitwise operators\<close>

lemma wval_bitwise:
  assumes "length a = length b"
  shows "wval (u_xor a b) = wval a XOR wval b" "wval (u_and a b) = wval a AND wval b"
    "wval (u_or a b) = wval a OR wval b"
  using assms
  by (auto intro!: bit_eqI simp: bit_wval u_xor_def u_and_def u_or_def bit_simps)

subsection \<open>Bytes and hexadecimal text\<close>

lemma length_u_bytes [simp]: "length (u_bytes pn) = 4 * length pn"
  by (induction pn) (simp_all add: u_bytes_def)

lemma wval_u_bytes: "wval (u_bytes pn) = wval pn"
proof (induction pn)
  case Nil
  then show ?case by (simp add: u_bytes_def)
next
  case (Cons x pn)
  have "unat x mod 2 ^ 32 = unat x" using unat_lt_2p [of x] by simp
  moreover have "wval (words_of 4 (unat x) :: byte list) = unat x mod 2 ^ 32"
    by (simp add: wval_words_of)
  ultimately show ?case using Cons by (simp add: u_bytes_def wval_append)
qed

lemma u_of_bytes_append:
  "length bs = 4 \<Longrightarrow> u_of_bytes (bs @ cs) = word_of_nat (wval bs) # u_of_bytes cs"
  by (cases bs rule: u_of_bytes.cases) auto

lemma u_of_bytes_bytes: "u_of_bytes (u_bytes pn) = pn"
proof (induction pn)
  case Nil
  then show ?case by (simp add: u_bytes_def)
next
  case (Cons x pn)
  have "u_bytes (x # pn) = words_of 4 (unat x) @ u_bytes pn" by (simp add: u_bytes_def)
  moreover have "wval (words_of 4 (unat x) :: byte list) = unat x"
    using unat_lt_2p [of x] by (simp add: wval_words_of)
  ultimately show ?case using Cons by (simp add: u_of_bytes_append)
qed

lemma length_u_of_bytes [simp]: "length (u_of_bytes bs) = length bs div 4"
  by (induction bs rule: u_of_bytes.induct) auto

lemma u_bytes_of_bytes: "length bs mod 4 = 0 \<Longrightarrow> u_bytes (u_of_bytes bs) = bs"
proof (induction bs rule: u_of_bytes.induct)
  case (1 b0 b1 b2 b3 bs)
  let ?q = "[b0, b1, b2, b3]"
  have len: "length ?q = 4" by simp
  have "wval ?q < 2 ^ 32" using wval_bound [of ?q] by simp
  then have "unat (word_of_nat (wval ?q) :: u32) = wval ?q"
    by (simp add: unat_of_nat del: wval.simps)
  moreover have "words_of 4 (wval ?q) = ?q" by (rule words_of_wval [of ?q, unfolded len])
  ultimately have "words_of 4 (unat (word_of_nat (wval ?q) :: u32)) = ?q" by (simp only:)
  with 1 show ?case by (simp add: u_bytes_def del: wval.simps words_of.simps)
qed (auto simp: u_bytes_def)

lemma wval_u_of_bytes: "length bs mod 4 = 0 \<Longrightarrow> wval (u_of_bytes bs) = wval bs"
  by (metis u_bytes_of_bytes wval_u_bytes)

lemma all_nibbles: "(\<forall>d<16. P d) = (P 0 \<and> P 1 \<and> P 2 \<and> P 3 \<and> P 4 \<and> P 5 \<and> P 6 \<and> P 7 \<and> P 8 \<and> P 9
    \<and> P 10 \<and> P 11 \<and> P 12 \<and> P 13 \<and> P 14 \<and> P (15::nat))"
  by (simp add: numeral_eq_Suc All_less_Suc)  blast

lemma phexdigit_hex_char: "d < 16 \<Longrightarrow> phexdigit (hex_char d) = word_of_nat d"
proof -
  have "\<forall>d<16. phexdigit (hex_char d) = word_of_nat d"
    unfolding all_nibbles by (simp add: phexdigit_def hex_char_def Let_def)
  then show "d < 16 \<Longrightarrow> phexdigit (hex_char d) = word_of_nat d" by blast
qed

lemma hex_char_digit: "d < 16 \<Longrightarrow> phexdigit (hex_char d) \<noteq> 0 \<or> hex_char d = CHR ''0''"
proof -
  have "\<forall>d<16. phexdigit (hex_char d) \<noteq> 0 \<or> hex_char d = CHR ''0''"
    unfolding all_nibbles by (simp add: phexdigit_def hex_char_def Let_def)
  then show "d < 16 \<Longrightarrow> phexdigit (hex_char d) \<noteq> 0 \<or> hex_char d = CHR ''0''" by blast
qed

lemma hex_char_plain: "d < 16 \<Longrightarrow> \<not> c_isspace (hex_char d) \<and> hex_char d \<noteq> CHR ''x'' \<and> hex_char d \<noteq> CHR ''X''"
proof -
  have "\<forall>d<16. \<not> c_isspace (hex_char d) \<and> hex_char d \<noteq> CHR ''x'' \<and> hex_char d \<noteq> CHR ''X''"
    unfolding all_nibbles by (simp add: c_isspace_def hex_char_def Let_def)
  then show "d < 16 \<Longrightarrow> \<not> c_isspace (hex_char d) \<and> hex_char d \<noteq> CHR ''x'' \<and> hex_char d \<noteq> CHR ''X''" by blast
qed

lemma set_hex_byte: "c \<in> set (hex_byte b) \<Longrightarrow> \<exists>d<16. c = hex_char d"
proof -
  assume "c \<in> set (hex_byte b)"
  moreover have "unat b div 16 < 16" using unat_lt_2p [of b] by simp
  moreover have "unat b mod 16 < 16" by simp
  ultimately show "\<exists>d<16. c = hex_char d" by (simp only: hex_byte_def list.set insert_iff empty_iff) blast
qed

lemma set_GetHex: "c \<in> set (u_GetHex pn) \<Longrightarrow> \<exists>d<16. c = hex_char d"
  by (auto simp: u_GetHex_def dest: set_hex_byte)

lemma rev_GetHex: "rev (u_GetHex pn) = concat (map (\<lambda>b. rev (hex_byte b)) (u_bytes pn))"
  by (simp add: u_GetHex_def rev_concat rev_map comp_def)

lemma byte_of_nibbles:
  "(word_of_nat (unat b mod 16) OR push_bit 4 (word_of_nat (unat b div 16))) = (b :: byte)"
proof -
  have "unat b mod 16 = take_bit 4 (unat b)" "unat b div 16 = drop_bit 4 (unat b)"
    by (simp_all add: take_bit_eq_mod drop_bit_eq_div)
  then show ?thesis
    by (auto intro!: bit_eqI simp: bit_simps dest: bit_imp_le_length)
qed

lemma u_fill_hex: "u_fill (concat (map (\<lambda>b. rev (hex_byte b)) bs)) (length bs) = bs"
proof (induction bs)
  case Nil
  then show ?case by simp
next
  case (Cons b bs)
  have "unat b div 16 < 16" "unat b mod 16 < 16" using unat_lt_2p [of b] by simp_all
  then show ?case using Cons by (simp add: hex_byte_def phexdigit_hex_char byte_of_nibbles)
qed

lemma u_GetHex_start:
  assumes "pn \<noteq> []"
  obtains c d r where "u_GetHex pn = c # d # r"
proof -
  have "u_bytes pn \<noteq> []" using assms by (metis length_u_bytes length_0_conv mult_is_0 zero_neq_numeral)
  then obtain b bs where "rev (u_bytes pn) = b # bs" by (metis list.exhaust rev_is_Nil_conv)
  then have "u_GetHex pn = hex_char (unat b div 16) # hex_char (unat b mod 16) # concat (map hex_byte bs)"
    by (simp add: u_GetHex_def hex_byte_def)
  then show thesis by (rule that)
qed

lemma u_SetHex_GetHex: "u_SetHex (length pn) (u_GetHex pn) = pn"
proof (cases "pn = []")
  case True
  then show ?thesis by (simp add: u_SetHex_def u_GetHex_def u_bytes_def skip_0x_def)
next
  case False
  then obtain c d r where e: "u_GetHex pn = c # d # r" by (rule u_GetHex_start)
  have digits: "\<exists>k<16. x = hex_char k" if "x \<in> set (u_GetHex pn)" for x
    using that by (rule set_GetHex)
  have nospace: "dropWhile c_isspace (u_GetHex pn) = u_GetHex pn"
    using digits [of c] hex_char_plain by (auto simp: e)
  have no0x: "skip_0x (u_GetHex pn) = u_GetHex pn"
    using digits [of d] hex_char_plain by (auto simp: e skip_0x_def)
  have all: "takeWhile (\<lambda>c. phexdigit c \<noteq> 0 \<or> c = CHR ''0'') (u_GetHex pn) = u_GetHex pn"
    using digits hex_char_digit by (auto simp: takeWhile_eq_all_conv)
  have "u_fill (rev (u_GetHex pn)) (4 * length pn) = u_bytes pn"
    using u_fill_hex [of "u_bytes pn"] by (simp add: rev_GetHex)
  then show ?thesis
    unfolding u_SetHex_def Let_def nospace no0x all by (simp add: u_of_bytes_bytes)
qed

lemma wval_u_SetHex_bound: "wval (u_SetHex W s) < 2 ^ (32 * W)"
proof -
  have "length (u_fill cs n) = n" for cs n by (induction cs n rule: u_fill.induct) auto
  then have "length (u_SetHex W s) = W" by (simp add: u_SetHex_def Let_def)
  then show ?thesis using wval_bound [of "u_SetHex W s"] by simp
qed

subsection \<open>Truncation of a 512-bit value\<close>

lemma wval_take: "wval (take k xs) = wval xs mod 2 ^ (LENGTH('a) * k)" for xs :: "'a::len word list"
proof (cases "k \<le> length xs")
  case True
  have "wval xs = wval (take k xs) + 2 ^ (LENGTH('a) * k) * wval (drop k xs)"
    using wval_append [of "take k xs" "drop k xs"] True by simp
  moreover have "wval (take k xs) < 2 ^ (LENGTH('a) * k)"
    using wval_bound [of "take k xs"] True by simp
  ultimately show ?thesis by simp
next
  case False
  then have "wval xs < 2 ^ (LENGTH('a) * k)"
    using wval_bound [of xs] by (meson less_le_trans linorder_le_cases mult_le_mono2 one_le_numeral power_increasing)
  with False show ?thesis by simp
qed

lemma trim256_take: "8 \<le> length pn \<Longrightarrow> trim256 pn = take 8 pn"
  by (intro nth_equalityI) (simp_all add: trim256_def)

lemma wval_trim256: "8 \<le> length pn \<Longrightarrow> wval (trim256 pn) = wval pn mod 2 ^ 256"
  using wval_take [of 8 pn] by (simp add: trim256_take)

subsection \<open>The interface the clients use\<close>

text \<open>
  What the rest of the program relies on: a type of values read as numbers below a modulus, with
  addition and subtraction modulo it and a comparison that is the order of the numbers.
\<close>

locale modular_uint =
  fixes wf :: "'a \<Rightarrow> bool" and val :: "'a \<Rightarrow> nat" and M :: nat
    and add :: "'a \<Rightarrow> 'a \<Rightarrow> 'a" and sub :: "'a \<Rightarrow> 'a \<Rightarrow> 'a" and lt :: "'a \<Rightarrow> 'a \<Rightarrow> bool"
  assumes val_bound: "wf x \<Longrightarrow> val x < M"
    and val_inj: "wf x \<Longrightarrow> wf y \<Longrightarrow> val x = val y \<Longrightarrow> x = y"
    and wf_add: "wf x \<Longrightarrow> wf y \<Longrightarrow> wf (add x y)"
    and wf_sub: "wf x \<Longrightarrow> wf y \<Longrightarrow> wf (sub x y)"
    and val_add: "wf x \<Longrightarrow> wf y \<Longrightarrow> val (add x y) = (val x + val y) mod M"
    and val_sub: "wf x \<Longrightarrow> wf y \<Longrightarrow> val (sub x y) = (val x + M - val y) mod M"
    and lt_val: "wf x \<Longrightarrow> wf y \<Longrightarrow> lt x y \<longleftrightarrow> val x < val y"
begin

lemma add_commute: "wf x \<Longrightarrow> wf y \<Longrightarrow> add x y = add y x"
  by (rule val_inj) (simp_all add: wf_add val_add add.commute)

lemma add_assoc: "wf x \<Longrightarrow> wf y \<Longrightarrow> wf z \<Longrightarrow> add (add x y) z = add x (add y z)"
  by (rule val_inj) (simp_all add: wf_add val_add mod_add_left_eq mod_add_right_eq add.assoc)

lemma sub_add_cancel: "wf x \<Longrightarrow> wf y \<Longrightarrow> sub (add x y) y = x"
proof (rule val_inj)
  assume w: "wf x" "wf y"
  have "((val x + val y) mod M + M - val y) mod M = val x"
  proof (cases "val x + val y < M")
    case True
    then show ?thesis using val_bound [OF w(1)] by simp
  next
    case False
    moreover have "val x + val y < 2 * M" using val_bound [OF w(1)] val_bound [OF w(2)] by simp
    ultimately have "(val x + val y) mod M = val x + val y - M" by (simp add: le_mod_geq)
    then show ?thesis using False val_bound [OF w(1)] by simp
  qed
  with w show "val (sub (add x y) y) = val x" by (simp add: val_sub val_add wf_add)
qed (simp_all add: wf_sub wf_add)

lemma add_sub_cancel: "wf x \<Longrightarrow> wf y \<Longrightarrow> add (sub x y) y = x"
proof (rule val_inj)
  assume w: "wf x" "wf y"
  have "((val x + M - val y) mod M + val y) mod M = (val x + M - val y + val y) mod M"
    by (rule mod_add_left_eq)
  also have "\<dots> = val x" using val_bound [OF w(1)] val_bound [OF w(2)] by simp
  finally show "val (add (sub x y) y) = val x" using w by (simp add: val_sub val_add wf_sub)
qed (simp_all add: wf_sub wf_add)

lemma lt_irrefl: "wf x \<Longrightarrow> \<not> lt x x"
  by (simp add: lt_val)

lemma lt_trans: "wf x \<Longrightarrow> wf y \<Longrightarrow> wf z \<Longrightarrow> lt x y \<Longrightarrow> lt y z \<Longrightarrow> lt x z"
  by (simp add: lt_val)

lemma lt_total: "wf x \<Longrightarrow> wf y \<Longrightarrow> x = y \<or> lt x y \<or> lt y x"
  using val_inj lt_val by (metis nat_neq_iff)

end

lemma modular_base_uint:
  "modular_uint (\<lambda>pn. length pn = W) wval (2 ^ (32 * W)) u_add u_sub u_lt"
proof unfold_locales
  show "wval x < 2 ^ (32 * W)" if "length x = W" for x :: base_uint
    using wval_bound [of x] that by simp
qed (auto simp: wval_u_add wval_u_sub u_compare dest: wval_inj)

interpretation u160: modular_uint "\<lambda>pn. length pn = 5" wval "2 ^ (32 * 5)" u_add u_sub u_lt
  by (rule modular_base_uint)

interpretation u256: modular_uint "\<lambda>pn. length pn = 8" wval "2 ^ (32 * 8)" u_add u_sub u_lt
  by (rule modular_base_uint)

interpretation u512: modular_uint "\<lambda>pn. length pn = 16" wval "2 ^ (32 * 16)" u_add u_sub u_lt
  by (rule modular_base_uint)

subsection \<open>Properties\<close>

text \<open>Addition and subtraction of two big integers of the same width are arithmetic modulo
  2 ^ BITS, and the comparison operators compare the numbers.\<close>

theorem uint_arith_modular:
  assumes "length a = W" "length b = W"
  shows "wval (u_add a b) = (wval a + wval b) mod 2 ^ (32 * W) \<and>
    wval (u_sub a b) = (wval a + 2 ^ (32 * W) - wval b) mod 2 ^ (32 * W) \<and>
    (u_lt a b \<longleftrightarrow> wval a < wval b) \<and> (u_le a b \<longleftrightarrow> wval a \<le> wval b) \<and>
    (u_eq a b \<longleftrightarrow> wval a = wval b)"
  using assms by (simp_all add: wval_u_add wval_u_sub u_compare u_eq_iff wval_eq_iff)

theorem uint_arith_modular_witness:
  "wval (u_sub [0, 0, 0, 0, 0] [1, 0, 0, 0, 0]) = 2 ^ 160 - 1"
  using uint_arith_modular [of "[0, 0, 0, 0, 0]" 5 "[1, 0, 0, 0, 0]"] by simp

text \<open>The shift loops multiply modulo 2 ^ BITS and divide by the power of two, for every
  shift count.\<close>

theorem uint_shifts:
  "wval (u_shl a shift) = wval a * 2 ^ unat shift mod 2 ^ (32 * length a) \<and>
   wval (u_shr a shift) = wval a div 2 ^ unat shift"
  by (simp add: wval_u_shl wval_u_shr)

text \<open>Parsing the hexadecimal text of a big integer gives the integer back.\<close>

theorem uint_hex_roundtrip: "u_SetHex (length pn) (u_GetHex pn) = pn"
  by (rule u_SetHex_GetHex)

end
