(* ===== verification/Serialize.thy ===== *)
theory Serialize
  imports Prelude "HOL-Library.Monad_Syntax"
begin

text \<open>
  src/serialize.h: the byte buffer CDataStream, the file wrapper CAutoFile, and the Serialize,
  Unserialize and GetSerializeSize templates for integers, compact sizes, strings, vectors, pairs,
  tuples, maps and sets. A Serialize function is the list of bytes it writes (write only appends);
  an Unserialize function takes the stream's \<open>read\<close> member as its first argument, as the template
  takes the stream type, and passes the stream state on; a thrown std::ios_base::failure (and a
  failed assert) is None. The locale \<open>istream\<close> states what the templates need of a stream; both
  stream classes are interpretations, and the round trips are proved once inside it.
\<close>

subsection \<open>CDataStream\<close>

record cds =
  ds_vch :: "byte list"
  ds_nReadPos :: u32
  ds_state :: u16
  ds_exceptmask :: u16
  ds_nType :: int
  ds_nVersion :: int

definition badbit :: u16 where "badbit = 1" \<comment> \<open>std::ios::badbit and failbit of libstdc++\<close>
definition failbit :: u16 where "failbit = 4"

definition ds_Init :: "byte list \<Rightarrow> int \<Rightarrow> int \<Rightarrow> cds" where \<comment> \<open>the constructors\<close>
  "ds_Init bs nTypeIn nVersionIn =
     \<lparr> ds_vch = bs, ds_nReadPos = 0, ds_state = 0, ds_exceptmask = badbit OR failbit,
       ds_nType = nTypeIn, ds_nVersion = nVersionIn \<rparr>"

definition ds_rest :: "cds \<Rightarrow> byte list" where \<comment> \<open>the range begin() .. end(), and str()\<close>
  "ds_rest s = drop (unat (ds_nReadPos s)) (ds_vch s)"

definition ds_append :: "cds \<Rightarrow> cds \<Rightarrow> cds" where \<comment> \<open>operator+=\<close>
  "ds_append s b = s\<lparr>ds_vch := ds_vch s @ ds_rest b\<rparr>"

definition ds_size :: "cds \<Rightarrow> nat" where
  "ds_size s = length (ds_vch s) - unat (ds_nReadPos s)"

definition ds_empty :: "cds \<Rightarrow> bool" where
  "ds_empty s \<longleftrightarrow> length (ds_vch s) = unat (ds_nReadPos s)"

definition ds_resize :: "cds \<Rightarrow> nat \<Rightarrow> byte \<Rightarrow> cds" where
  "ds_resize s n c =
     (let m = n + unat (ds_nReadPos s)
      in s\<lparr>ds_vch := take m (ds_vch s) @ replicate (m - length (ds_vch s)) c\<rparr>)"

definition ds_clear :: "cds \<Rightarrow> cds" where
  "ds_clear s = s\<lparr>ds_vch := [], ds_nReadPos := 0\<rparr>"

text \<open>Iterators are offsets into vch.\<close>

definition ds_insert :: "cds \<Rightarrow> nat \<Rightarrow> byte list \<Rightarrow> cds" where
  "ds_insert s it xs =
     (if it = unat (ds_nReadPos s) \<and> word_of_nat (length xs) \<le> ds_nReadPos s
      then let r = ds_nReadPos s - word_of_nat (length xs)
           in s\<lparr>ds_nReadPos := r,
                ds_vch := take (unat r) (ds_vch s) @ xs @ drop (unat r + length xs) (ds_vch s)\<rparr>
      else s\<lparr>ds_vch := take it (ds_vch s) @ xs @ drop it (ds_vch s)\<rparr>)"

definition ds_erase1 :: "cds \<Rightarrow> nat \<Rightarrow> cds" where
  "ds_erase1 s it =
     (if it = unat (ds_nReadPos s)
      then let r = ds_nReadPos s + 1
           in if length (ds_vch s) \<le> unat r then s\<lparr>ds_nReadPos := 0, ds_vch := []\<rparr> else s\<lparr>ds_nReadPos := r\<rparr>
      else s\<lparr>ds_vch := take it (ds_vch s) @ drop (it + 1) (ds_vch s)\<rparr>)"

definition ds_erase :: "cds \<Rightarrow> nat \<Rightarrow> nat \<Rightarrow> cds" where
  "ds_erase s it1 it2 =
     (if it1 = unat (ds_nReadPos s)
      then if it2 = length (ds_vch s) then s\<lparr>ds_nReadPos := 0, ds_vch := []\<rparr>
           else s\<lparr>ds_nReadPos := word_of_nat it2\<rparr>
      else s\<lparr>ds_vch := take it1 (ds_vch s) @ drop it2 (ds_vch s)\<rparr>)"

definition ds_Compact :: "cds \<Rightarrow> cds" where
  "ds_Compact s = s\<lparr>ds_vch := drop (unat (ds_nReadPos s)) (ds_vch s), ds_nReadPos := 0\<rparr>"

definition ds_Rewind :: "cds \<Rightarrow> nat \<Rightarrow> bool \<times> cds" where
  "ds_Rewind s n =
     (if n > unat (ds_nReadPos s) then (False, s)
      else (True, s\<lparr>ds_nReadPos := ds_nReadPos s - word_of_nat n\<rparr>))"

definition ds_setstate :: "cds \<Rightarrow> u16 \<Rightarrow> cds option" where
  "ds_setstate s bits =
     (let s' = s\<lparr>ds_state := ds_state s OR bits\<rparr>
      in if ds_state s' AND ds_exceptmask s' \<noteq> 0 then None else Some s')"

definition ds_exceptions :: "cds \<Rightarrow> u16 \<Rightarrow> (u16 \<times> cds) option" where
  "ds_exceptions s newmask =
     do { s' \<leftarrow> ds_setstate (s\<lparr>ds_exceptmask := newmask\<rparr>) 0; Some (ds_exceptmask s, s') }"

definition ds_eof :: "cds \<Rightarrow> bool" where "ds_eof s \<longleftrightarrow> ds_size s = 0"
definition ds_fail :: "cds \<Rightarrow> bool" where "ds_fail s \<longleftrightarrow> ds_state s AND (badbit OR failbit) \<noteq> 0"
definition ds_good :: "cds \<Rightarrow> bool" where "ds_good s \<longleftrightarrow> \<not> ds_eof s \<and> ds_state s = 0"

text \<open>
  The int argument nSize is a natural number; one of 2^31 or more is a negative int, which the
  assert rejects. nReadPosNext wraps at 32 bits.
\<close>

definition ds_read :: "cds \<Rightarrow> nat \<Rightarrow> (byte list \<times> cds) option" where
  "ds_read s nSize =
     (if nSize \<ge> 2 ^ 31 then None
      else let nReadPosNext = ds_nReadPos s + word_of_nat nSize
           in if unat nReadPosNext \<ge> length (ds_vch s)
              then if unat nReadPosNext > length (ds_vch s)
                   then do { s' \<leftarrow> ds_setstate s failbit;
                             let pch = ds_rest s';
                             Some (pch @ replicate (nSize - length pch) 0,
                                   s'\<lparr>ds_nReadPos := 0, ds_vch := []\<rparr>) }
                   else Some (take nSize (ds_rest s), s\<lparr>ds_nReadPos := 0, ds_vch := []\<rparr>)
              else Some (take nSize (ds_rest s), s\<lparr>ds_nReadPos := nReadPosNext\<rparr>))"

definition ds_ignore :: "cds \<Rightarrow> nat \<Rightarrow> cds option" where
  "ds_ignore s nSize =
     (if nSize \<ge> 2 ^ 31 then None
      else let nReadPosNext = ds_nReadPos s + word_of_nat nSize
           in if unat nReadPosNext \<ge> length (ds_vch s)
              then do { s' \<leftarrow> (if unat nReadPosNext > length (ds_vch s) then ds_setstate s failbit else Some s);
                        Some (s'\<lparr>ds_nReadPos := 0, ds_vch := []\<rparr>) }
              else Some (s\<lparr>ds_nReadPos := nReadPosNext\<rparr>))"

definition ds_write :: "cds \<Rightarrow> byte list \<Rightarrow> cds option" where
  "ds_write s pch = (if length pch \<ge> 2 ^ 31 then None else Some (s\<lparr>ds_vch := ds_vch s @ pch\<rparr>))"

definition ds_Serialize :: "cds \<Rightarrow> byte list" where \<comment> \<open>stream << stream writes ds_vch from its start\<close>
  "ds_Serialize s = ds_vch s"

subsection \<open>CAutoFile\<close>

text \<open>
  A FILE is its contents and its position; fread and fwrite are the C library's on a regular file,
  whose writes may come up short when the file may not grow beyond \<open>f_limit\<close>.
\<close>

record cfile =
  f_data :: "byte list"
  f_pos :: nat
  f_limit :: nat

definition c_fread :: "nat \<Rightarrow> cfile \<Rightarrow> byte list \<times> cfile" where
  "c_fread n f = (let bs = take n (drop (f_pos f) (f_data f)) in (bs, f\<lparr>f_pos := f_pos f + length bs\<rparr>))"

definition c_fwrite :: "byte list \<Rightarrow> cfile \<Rightarrow> nat \<times> cfile" where
  "c_fwrite bs f =
     (let bs' = take (f_limit f - f_pos f) bs
      in (length bs', f\<lparr>f_data := take (f_pos f) (f_data f) @ replicate (f_pos f - length (f_data f)) 0 @
              bs' @ drop (f_pos f + length bs') (f_data f), f_pos := f_pos f + length bs'\<rparr>))"

record cautofile =
  af_file :: "cfile option"
  af_state :: u16
  af_exceptmask :: u16

definition af_init :: "cfile option \<Rightarrow> cautofile" where
  "af_init filenew = \<lparr> af_file = filenew, af_state = 0, af_exceptmask = badbit OR failbit \<rparr>"

definition af_setstate :: "cautofile \<Rightarrow> u16 \<Rightarrow> cautofile option" where
  "af_setstate s bits =
     (let s' = s\<lparr>af_state := af_state s OR bits\<rparr>
      in if af_state s' AND af_exceptmask s' \<noteq> 0 then None else Some s')"

definition af_read :: "cautofile \<Rightarrow> nat \<Rightarrow> (byte list \<times> cautofile) option" where
  "af_read s nSize =
     (case af_file s of
        None \<Rightarrow> None
      | Some f \<Rightarrow>
          let (bs, f') = c_fread nSize f; s' = s\<lparr>af_file := Some f'\<rparr>
          in do { s'' \<leftarrow> (if length bs \<noteq> nSize then af_setstate s' failbit else Some s');
                  Some (bs, s'') })"

definition af_write :: "cautofile \<Rightarrow> byte list \<Rightarrow> cautofile option" where
  "af_write s pch =
     (case af_file s of
        None \<Rightarrow> None
      | Some f \<Rightarrow>
          let (n, f') = c_fwrite pch f; s' = s\<lparr>af_file := Some f'\<rparr>
          in if n \<noteq> length pch then af_setstate s' failbit else Some s')"

subsection \<open>The templates\<close>

type_synonym 's rd = "'s \<Rightarrow> nat \<Rightarrow> (byte list \<times> 's) option"

definition MAX_SIZE :: u64 where "MAX_SIZE = 0x02000000"

definition WRITEDATA :: "'a::len word \<Rightarrow> byte list" where
  "WRITEDATA x = words_of (LENGTH('a) div 8) (unat x)"

definition READDATA :: "'s rd \<Rightarrow> 's \<Rightarrow> ('a::len word \<times> 's) option" where
  "READDATA rd s = do { (bs, s') \<leftarrow> rd s (LENGTH('a) div 8); Some (word_of_nat (wval bs), s') }"

definition ser_bool :: "bool \<Rightarrow> byte list" where
  "ser_bool a = WRITEDATA (if a then 1 else 0 :: byte)"

definition unser_bool :: "'s rd \<Rightarrow> 's \<Rightarrow> (bool \<times> 's) option" where
  "unser_bool rd s = do { (f :: byte, s') \<leftarrow> READDATA rd s; Some (f \<noteq> 0, s') }"

definition GetSizeOfCompactSize :: "u64 \<Rightarrow> u32" where
  "GetSizeOfCompactSize nSize =
     (if nSize < 253 then 1 else if nSize \<le> 0xffff then 1 + 2
      else if nSize \<le> 0xffffffff then 1 + 4 else 1 + 8)"

definition WriteCompactSize :: "u64 \<Rightarrow> byte list" where
  "WriteCompactSize nSize =
     (if nSize < 253 then WRITEDATA (ucast nSize :: byte)
      else if nSize \<le> 0xffff then WRITEDATA (253 :: byte) @ WRITEDATA (ucast nSize :: u16)
      else if nSize \<le> 0xffffffff then WRITEDATA (254 :: byte) @ WRITEDATA (ucast nSize :: u32)
      else WRITEDATA (255 :: byte) @ WRITEDATA nSize)"

definition ReadCompactSize :: "'s rd \<Rightarrow> 's \<Rightarrow> (u64 \<times> 's) option" where
  "ReadCompactSize rd is =
     do { (chSize :: byte, is) \<leftarrow> READDATA rd is;
          (nSizeRet, is) \<leftarrow>
            (if chSize < 253 then Some (ucast chSize, is)
             else if chSize = 253 then do { (xSize :: u16, is) \<leftarrow> READDATA rd is; Some (ucast xSize, is) }
             else if chSize = 254 then do { (xSize :: u32, is) \<leftarrow> READDATA rd is; Some (ucast xSize, is) }
             else do { (xSize :: u64, is) \<leftarrow> READDATA rd is; Some (xSize, is) });
          if nSizeRet > MAX_SIZE then None else Some (nSizeRet, is) }"

text \<open>Strings, and vectors of fundamental type with one-byte elements.\<close>

definition ser_string :: "byte list \<Rightarrow> byte list" where
  "ser_string str = WriteCompactSize (word_of_nat (length str)) @ (if str \<noteq> [] then str else [])"

definition unser_string :: "'s rd \<Rightarrow> 's \<Rightarrow> (byte list \<times> 's) option" where
  "unser_string rd is =
     do { (n, is) \<leftarrow> ReadCompactSize rd is;
          let nSize = lo32 n
          in if nSize \<noteq> 0 then rd is (unat nSize) else Some ([], is) }"

definition ser_vch :: "byte list \<Rightarrow> byte list" where
  "ser_vch v = WriteCompactSize (word_of_nat (length v)) @ (if v \<noteq> [] then v else [])"

text \<open>The block-wise read of a byte vector, at most 5,000,000 bytes a time.\<close>

function unser_vch_loop :: "'s rd \<Rightarrow> nat \<Rightarrow> nat \<Rightarrow> byte list \<Rightarrow> 's \<Rightarrow> (byte list \<times> 's) option" where
  "unser_vch_loop rd nSize i v is =
     (if i < nSize
      then let blk = min (nSize - i) (1 + 4999999 div 1)
           in do { (bs, is') \<leftarrow> rd is blk; unser_vch_loop rd nSize (i + blk) (v @ bs) is' }
      else Some (v, is))"
  by pat_completeness auto
termination by (relation "measure (\<lambda>(rd, nSize, i, v, is). nSize - i)") (auto simp: min_def)

declare unser_vch_loop.simps [simp del]

definition unser_vch :: "'s rd \<Rightarrow> 's \<Rightarrow> (byte list \<times> 's) option" where
  "unser_vch rd is = do { (n, is) \<leftarrow> ReadCompactSize rd is; unser_vch_loop rd (unat (lo32 n)) 0 [] is }"

text \<open>Vectors of any other type; \<open>sz\<close> is sizeof(T).\<close>

definition ser_vector :: "('a \<Rightarrow> byte list) \<Rightarrow> 'a list \<Rightarrow> byte list" where
  "ser_vector ser v = WriteCompactSize (word_of_nat (length v)) @ concat (map ser v)"

fun unser_n :: "('s \<Rightarrow> ('a \<times> 's) option) \<Rightarrow> nat \<Rightarrow> 's \<Rightarrow> ('a list \<times> 's) option" where
  "unser_n un 0 is = Some ([], is)"
| "unser_n un (Suc k) is = do { (x, is) \<leftarrow> un is; (xs, is) \<leftarrow> unser_n un k is; Some (x # xs, is) }"

partial_function (option) unser_vector_loop ::
  "('s \<Rightarrow> ('a \<times> 's) option) \<Rightarrow> nat \<Rightarrow> nat \<Rightarrow> nat \<Rightarrow> 'a list \<Rightarrow> 's \<Rightarrow> ('a list \<times> 's) option" where
  "unser_vector_loop un sz nSize nMid v is =
     (if nMid < nSize
      then let nMid' = min nSize (nMid + 5000000 div sz)
           in Option.bind (unser_n un (nMid' - length v) is)
                (\<lambda>r. unser_vector_loop un sz nSize nMid' (v @ fst r) (snd r))
      else Some (v, is))"

definition unser_vector :: "'s rd \<Rightarrow> ('s \<Rightarrow> ('a \<times> 's) option) \<Rightarrow> nat \<Rightarrow> 's \<Rightarrow> ('a list \<times> 's) option" where
  "unser_vector rd un sz is =
     do { (n, is) \<leftarrow> ReadCompactSize rd is; unser_vector_loop un sz (unat (lo32 n)) 0 [] is }"

text \<open>Pairs and tuples.\<close>

definition ser_pair :: "('a \<Rightarrow> byte list) \<Rightarrow> ('b \<Rightarrow> byte list) \<Rightarrow> 'a \<times> 'b \<Rightarrow> byte list" where
  "ser_pair sa sb p = sa (fst p) @ sb (snd p)"

definition unser_pair ::
  "('s \<Rightarrow> ('a \<times> 's) option) \<Rightarrow> ('s \<Rightarrow> ('b \<times> 's) option) \<Rightarrow> 's \<Rightarrow> (('a \<times> 'b) \<times> 's) option" where
  "unser_pair ua ub is = do { (a, is) \<leftarrow> ua is; (b, is) \<leftarrow> ub is; Some ((a, b), is) }"

definition ser_tuple3 ::
  "('a \<Rightarrow> byte list) \<Rightarrow> ('b \<Rightarrow> byte list) \<Rightarrow> ('c \<Rightarrow> byte list) \<Rightarrow> 'a \<times> 'b \<times> 'c \<Rightarrow> byte list" where
  "ser_tuple3 sa sb sc t = (case t of (a, b, c) \<Rightarrow> sa a @ sb b @ sc c)"

definition unser_tuple3 ::
  "('s \<Rightarrow> ('a \<times> 's) option) \<Rightarrow> ('s \<Rightarrow> ('b \<times> 's) option) \<Rightarrow> ('s \<Rightarrow> ('c \<times> 's) option) \<Rightarrow>
   's \<Rightarrow> (('a \<times> 'b \<times> 'c) \<times> 's) option" where
  "unser_tuple3 ua ub uc is =
     do { (a, is) \<leftarrow> ua is; (b, is) \<leftarrow> ub is; (c, is) \<leftarrow> uc is; Some ((a, b, c), is) }"

definition ser_tuple4 ::
  "('a \<Rightarrow> byte list) \<Rightarrow> ('b \<Rightarrow> byte list) \<Rightarrow> ('c \<Rightarrow> byte list) \<Rightarrow> ('d \<Rightarrow> byte list) \<Rightarrow>
   'a \<times> 'b \<times> 'c \<times> 'd \<Rightarrow> byte list" where
  "ser_tuple4 sa sb sc sd t = (case t of (a, b, c, d) \<Rightarrow> sa a @ sb b @ sc c @ sd d)"

definition unser_tuple4 ::
  "('s \<Rightarrow> ('a \<times> 's) option) \<Rightarrow> ('s \<Rightarrow> ('b \<times> 's) option) \<Rightarrow> ('s \<Rightarrow> ('c \<times> 's) option) \<Rightarrow>
   ('s \<Rightarrow> ('d \<times> 's) option) \<Rightarrow> 's \<Rightarrow> (('a \<times> 'b \<times> 'c \<times> 'd) \<times> 's) option" where
  "unser_tuple4 ua ub uc ud is =
     do { (a, is) \<leftarrow> ua is; (b, is) \<leftarrow> ub is; (c, is) \<leftarrow> uc is; (d, is) \<leftarrow> ud is;
          Some ((a, b, c, d), is) }"

text \<open>
  Maps and sets are their elements in iteration order, which is ascending; insert keeps the order
  and leaves an existing key alone.
\<close>

fun std_map_insert :: "'k::linorder \<times> 'v \<Rightarrow> ('k \<times> 'v) list \<Rightarrow> ('k \<times> 'v) list" where
  "std_map_insert p [] = [p]"
| "std_map_insert p (q # m) =
     (if fst p < fst q then p # q # m else if fst p = fst q then q # m else q # std_map_insert p m)"

fun std_set_insert :: "'k::linorder \<Rightarrow> 'k list \<Rightarrow> 'k list" where
  "std_set_insert k [] = [k]"
| "std_set_insert k (q # m) =
     (if k < q then k # q # m else if k = q then q # m else q # std_set_insert k m)"

definition ser_map :: "('k \<Rightarrow> byte list) \<Rightarrow> ('v \<Rightarrow> byte list) \<Rightarrow> ('k \<times> 'v) list \<Rightarrow> byte list" where
  "ser_map sk sv m = WriteCompactSize (word_of_nat (length m)) @ concat (map (ser_pair sk sv) m)"

fun unser_map_loop ::
  "('s \<Rightarrow> ('k::linorder \<times> 's) option) \<Rightarrow> ('s \<Rightarrow> ('v \<times> 's) option) \<Rightarrow> nat \<Rightarrow> ('k \<times> 'v) list \<Rightarrow> 's \<Rightarrow>
   (('k \<times> 'v) list \<times> 's) option" where
  "unser_map_loop uk uv 0 m is = Some (m, is)"
| "unser_map_loop uk uv (Suc n) m is =
     do { (item, is) \<leftarrow> unser_pair uk uv is; unser_map_loop uk uv n (std_map_insert item m) is }"

definition unser_map ::
  "'s rd \<Rightarrow> ('s \<Rightarrow> ('k::linorder \<times> 's) option) \<Rightarrow> ('s \<Rightarrow> ('v \<times> 's) option) \<Rightarrow> 's \<Rightarrow>
   (('k \<times> 'v) list \<times> 's) option" where
  "unser_map rd uk uv is =
     do { (n, is) \<leftarrow> ReadCompactSize rd is; unser_map_loop uk uv (unat (lo32 n)) [] is }"

definition ser_set :: "('k \<Rightarrow> byte list) \<Rightarrow> 'k list \<Rightarrow> byte list" where
  "ser_set sk m = WriteCompactSize (word_of_nat (length m)) @ concat (map sk m)"

fun unser_set_loop ::
  "('s \<Rightarrow> ('k::linorder \<times> 's) option) \<Rightarrow> nat \<Rightarrow> 'k list \<Rightarrow> 's \<Rightarrow> ('k list \<times> 's) option" where
  "unser_set_loop uk 0 m is = Some (m, is)"
| "unser_set_loop uk (Suc n) m is =
     do { (key, is) \<leftarrow> uk is; unser_set_loop uk n (std_set_insert key m) is }"

definition unser_set :: "'s rd \<Rightarrow> ('s \<Rightarrow> ('k::linorder \<times> 's) option) \<Rightarrow> 's \<Rightarrow> ('k list \<times> 's) option" where
  "unser_set rd uk is =
     do { (n, is) \<leftarrow> ReadCompactSize rd is; unser_set_loop uk (unat (lo32 n)) [] is }"

subsection \<open>GetSerializeSize\<close>

text \<open>The size in an unsigned int, computed without serializing.\<close>

definition GetSerializeSize_uint :: "'a::len word \<Rightarrow> u32" where
  "GetSerializeSize_uint a = word_of_nat (LENGTH('a) div 8)"

definition GetSerializeSize_string :: "byte list \<Rightarrow> u32" where
  "GetSerializeSize_string str = word_of_nat (unat (GetSizeOfCompactSize (word_of_nat (length str))) + length str * 1)"

definition GetSerializeSize_vch :: "byte list \<Rightarrow> u32" where
  "GetSerializeSize_vch v = word_of_nat (unat (GetSizeOfCompactSize (word_of_nat (length v))) + length v * 1)"

definition GetSerializeSize_vector :: "('a \<Rightarrow> u32) \<Rightarrow> 'a list \<Rightarrow> u32" where
  "GetSerializeSize_vector gss v =
     foldl (\<lambda>nSize x. nSize + gss x) (GetSizeOfCompactSize (word_of_nat (length v))) v"

definition GetSerializeSize_pair :: "('a \<Rightarrow> u32) \<Rightarrow> ('b \<Rightarrow> u32) \<Rightarrow> 'a \<times> 'b \<Rightarrow> u32" where
  "GetSerializeSize_pair ga gb item = ga (fst item) + gb (snd item)"

definition GetSerializeSize_tuple3 ::
  "('a \<Rightarrow> u32) \<Rightarrow> ('b \<Rightarrow> u32) \<Rightarrow> ('c \<Rightarrow> u32) \<Rightarrow> 'a \<times> 'b \<times> 'c \<Rightarrow> u32" where
  "GetSerializeSize_tuple3 ga gb gc item = (case item of (a, b, c) \<Rightarrow> 0 + ga a + gb b + gc c)"

definition GetSerializeSize_tuple4 ::
  "('a \<Rightarrow> u32) \<Rightarrow> ('b \<Rightarrow> u32) \<Rightarrow> ('c \<Rightarrow> u32) \<Rightarrow> ('d \<Rightarrow> u32) \<Rightarrow> 'a \<times> 'b \<times> 'c \<times> 'd \<Rightarrow> u32" where
  "GetSerializeSize_tuple4 ga gb gc gd item = (case item of (a, b, c, d) \<Rightarrow> 0 + ga a + gb b + gc c + gd d)"

definition GetSerializeSize_map :: "('k \<Rightarrow> u32) \<Rightarrow> ('v \<Rightarrow> u32) \<Rightarrow> ('k \<times> 'v) list \<Rightarrow> u32" where
  "GetSerializeSize_map gk gv m =
     foldl (\<lambda>nSize mi. nSize + GetSerializeSize_pair gk gv mi) (GetSizeOfCompactSize (word_of_nat (length m))) m"

definition GetSerializeSize_set :: "('k \<Rightarrow> u32) \<Rightarrow> 'k list \<Rightarrow> u32" where
  "GetSerializeSize_set gk m =
     foldl (\<lambda>nSize x. nSize + gk x) (GetSizeOfCompactSize (word_of_nat (length m))) m"

subsection \<open>CDataStream as a queue of bytes\<close>

text \<open>
  The buffer's contents as its users see them are the bytes not read yet. The invariant bounds
  the buffer so that the 32-bit read position cannot wrap.
\<close>

definition ds_inv :: "cds \<Rightarrow> bool" where
  "ds_inv s \<longleftrightarrow> unat (ds_nReadPos s) \<le> length (ds_vch s) \<and> length (ds_vch s) < 2 ^ 31 \<and>
     ds_state s = 0 \<and> ds_exceptmask s = badbit OR failbit"

lemma ds_inv_Init: "length bs < 2 ^ 31 \<Longrightarrow> ds_inv (ds_Init bs t v) \<and> ds_rest (ds_Init bs t v) = bs"
  by (simp add: ds_inv_def ds_Init_def ds_rest_def)

lemma unat_plus_of_nat32: "unat (p :: u32) + n < 2 ^ 32 \<Longrightarrow> unat (p + word_of_nat n) = unat p + n"
  by (simp add: unat_word_ariths unat_of_nat)

lemma ds_read_ok:
  assumes "ds_inv s" "n \<le> length (ds_rest s)"
  shows "\<exists>s'. ds_read s n = Some (take n (ds_rest s), s') \<and> ds_inv s' \<and> ds_rest s' = drop n (ds_rest s)
    \<and> ds_nType s' = ds_nType s \<and> ds_nVersion s' = ds_nVersion s"
proof -
  have n: "n + unat (ds_nReadPos s) \<le> length (ds_vch s)" "length (ds_vch s) < 2 ^ 31"
    using assms unfolding ds_inv_def ds_rest_def length_drop by linarith+
  then have p: "unat (ds_nReadPos s + word_of_nat n) = unat (ds_nReadPos s) + n"
    by (intro unat_plus_of_nat32) simp
  show ?thesis using n assms p
    by (auto simp: ds_read_def Let_def ds_inv_def ds_rest_def add.commute)
qed

lemma ds_read_short:
  assumes "ds_inv s" "n > length (ds_rest s)"
  shows "ds_read s n = None"
proof (cases "n \<ge> 2 ^ 31")
  case False
  then have "unat (ds_nReadPos s + word_of_nat n) = unat (ds_nReadPos s) + n"
    using assms by (intro unat_plus_of_nat32) (simp add: ds_inv_def)
  moreover have "failbit AND (badbit OR failbit) \<noteq> 0" by (simp add: failbit_def badbit_def)
  ultimately show ?thesis using assms False
    by (simp add: ds_read_def Let_def ds_inv_def ds_rest_def ds_setstate_def)
qed (simp add: ds_read_def)

lemma ds_write_ok:
  assumes "ds_inv s" "length (ds_vch s) + length bs < 2 ^ 31"
  shows "\<exists>s'. ds_write s bs = Some s' \<and> ds_inv s' \<and> ds_rest s' = ds_rest s @ bs"
  using assms by (simp add: ds_write_def ds_inv_def ds_rest_def)

lemma ds_rest_append: "ds_inv s \<Longrightarrow> ds_rest (ds_append s b) = ds_rest s @ ds_rest b"
  by (simp add: ds_append_def ds_rest_def ds_inv_def)

lemma ds_size_rest: "ds_size s = length (ds_rest s)"
  by (simp add: ds_size_def ds_rest_def)

lemma ds_empty_rest: "ds_inv s \<Longrightarrow> ds_empty s \<longleftrightarrow> ds_rest s = []"
  by (auto simp: ds_empty_def ds_rest_def ds_inv_def)

lemma ds_rest_Compact: "ds_rest (ds_Compact s) = ds_rest s"
  by (simp add: ds_Compact_def ds_rest_def)

lemma ds_rest_Rewind:
  assumes "n \<le> unat (ds_nReadPos s)" "unat (ds_nReadPos s) \<le> length (ds_vch s)"
  shows "ds_rest (snd (ds_Rewind s n)) = take n (drop (unat (ds_nReadPos s) - n) (ds_vch s)) @ ds_rest s"
proof -
  have "word_of_nat n \<le> ds_nReadPos s" using assms(1) by (simp add: word_le_nat_alt unat_of_nat le_trans [OF mod_less_eq_dividend])
  moreover have "unat (word_of_nat n :: u32) = n" using assms(1) unat_lt_2p [of "ds_nReadPos s"] by (simp add: unat_of_nat)
  ultimately have "unat (ds_nReadPos s - word_of_nat n) = unat (ds_nReadPos s) - n"
    by (simp add: unat_sub)
  moreover have "drop (unat (ds_nReadPos s) - n) (ds_vch s) =
      take n (drop (unat (ds_nReadPos s) - n) (ds_vch s)) @ drop n (drop (unat (ds_nReadPos s) - n) (ds_vch s))"
    by (rule append_take_drop_id [symmetric])
  ultimately show ?thesis using assms
    by (simp add: ds_Rewind_def ds_rest_def del: append_take_drop_id)
qed

lemma ds_rest_insert:
  assumes "ds_inv s" "unat (ds_nReadPos s) \<le> it" "it \<le> length (ds_vch s)" "length xs < 2 ^ 31"
  shows "ds_rest (ds_insert s it xs) =
     take (it - unat (ds_nReadPos s)) (ds_rest s) @ xs @ drop (it - unat (ds_nReadPos s)) (ds_rest s)"
proof (cases "it = unat (ds_nReadPos s) \<and> word_of_nat (length xs) \<le> ds_nReadPos s")
  case True
  have u: "unat (word_of_nat (length xs) :: u32) = length xs"
    using assms(4) by (simp add: unat_of_nat)
  then have "unat (ds_nReadPos s - word_of_nat (length xs)) = unat (ds_nReadPos s) - length xs"
    "length xs \<le> unat (ds_nReadPos s)"
    using True by (simp_all add: unat_sub word_le_nat_alt)
  then show ?thesis using assms True
    by (simp add: ds_insert_def ds_rest_def Let_def ds_inv_def)
next
  case False
  then show ?thesis using assms by (auto simp: ds_insert_def ds_rest_def drop_take)
qed

lemma ds_rest_erase:
  assumes "ds_inv s" "unat (ds_nReadPos s) \<le> it1" "it1 \<le> it2" "it2 \<le> length (ds_vch s)"
  shows "ds_rest (ds_erase s it1 it2) =
     take (it1 - unat (ds_nReadPos s)) (ds_rest s) @ drop (it2 - unat (ds_nReadPos s)) (ds_rest s)"
  using assms by (auto simp: ds_erase_def ds_rest_def ds_inv_def unat_of_nat drop_take)

lemma ds_rest_erase1:
  assumes "ds_inv s" "unat (ds_nReadPos s) \<le> it" "it < length (ds_vch s)"
  shows "ds_rest (ds_erase1 s it) =
     take (it - unat (ds_nReadPos s)) (ds_rest s) @ drop (it + 1 - unat (ds_nReadPos s)) (ds_rest s)"
proof -
  have "unat (ds_nReadPos s + 1) = unat (ds_nReadPos s) + 1"
    using assms unat_plus_of_nat32 [of "ds_nReadPos s" 1] by (simp add: ds_inv_def)
  then show ?thesis using assms by (auto simp: ds_erase1_def ds_rest_def ds_inv_def Let_def Suc_diff_le drop_take)
qed

lemma ds_rest_resize:
  "unat (ds_nReadPos s) \<le> length (ds_vch s) \<Longrightarrow>
   ds_rest (ds_resize s n c) = take n (ds_rest s) @ replicate (n - length (ds_rest s)) c"
  by (auto simp: ds_resize_def ds_rest_def Let_def drop_take)

subsection \<open>What the templates need of a stream\<close>

text \<open>
  \<open>reads ok rest un bs x\<close>: on every stream whose contents start with the bytes \<open>bs\<close>, the reader
  \<open>un\<close> consumes exactly them and returns \<open>x\<close>.
\<close>

definition reads :: "('s \<Rightarrow> bool) \<Rightarrow> ('s \<Rightarrow> byte list) \<Rightarrow> ('s \<Rightarrow> ('a \<times> 's) option) \<Rightarrow> byte list \<Rightarrow> 'a \<Rightarrow> bool" where
  "reads ok rest un bs x \<longleftrightarrow>
     (\<forall>s r. ok s \<longrightarrow> rest s = bs @ r \<longrightarrow> (\<exists>s'. un s = Some (x, s') \<and> ok s' \<and> rest s' = r))"

lemma readsI:
  "(\<And>s r. ok s \<Longrightarrow> rest s = bs @ r \<Longrightarrow> \<exists>s'. un s = Some (x, s') \<and> ok s' \<and> rest s' = r) \<Longrightarrow>
   reads ok rest un bs x"
  by (simp add: reads_def)

lemma readsE:
  assumes "reads ok rest un bs x" "ok s" "rest s = bs @ r"
  obtains s' where "un s = Some (x, s')" "ok s'" "rest s' = r"
  using assms by (auto simp: reads_def)

lemma reads_return: "reads ok rest (\<lambda>s. Some (x, s)) [] x"
  by (rule readsI) auto

lemma reads_bind:
  assumes "reads ok rest un bs x" "reads ok rest (k x) cs y"
  shows "reads ok rest (\<lambda>s. do { (x, s) \<leftarrow> un s; k x s }) (bs @ cs) y"
proof (rule readsI)
  fix s r assume "ok s" "rest s = (bs @ cs) @ r"
  then obtain s1 where s1: "un s = Some (x, s1)" "ok s1" "rest s1 = cs @ r"
    using assms(1) by (auto elim!: readsE)
  then obtain s2 where "k x s1 = Some (y, s2)" "ok s2" "rest s2 = r"
    using assms(2) by (auto elim!: readsE)
  with s1 show "\<exists>s'. do { (x, s) \<leftarrow> un s; k x s } = Some (y, s') \<and> ok s' \<and> rest s' = r" by simp
qed

lemma reads_map:
  "reads ok rest un bs x \<Longrightarrow> reads ok rest (\<lambda>s. do { (x, s) \<leftarrow> un s; Some (f x, s) }) bs (f x)"
  by (rule readsI) (auto elim!: readsE)

locale istream =
  fixes rd :: "'s rd" and ok :: "'s \<Rightarrow> bool" and rest :: "'s \<Rightarrow> byte list"
  assumes rd_ok: "ok s \<Longrightarrow> n \<le> length (rest s) \<Longrightarrow>
      \<exists>s'. rd s n = Some (take n (rest s), s') \<and> ok s' \<and> rest s' = drop n (rest s)"
    and rd_short: "ok s \<Longrightarrow> length (rest s) < n \<Longrightarrow> rd s n = None"
begin

lemma reads_rd: "reads ok rest (\<lambda>s. rd s (length bs)) bs bs"
  using rd_ok by (intro readsI) (metis append_eq_conv_conj length_append le_add1)

lemma reads_READDATA:
  fixes x :: "'a::len word"
  assumes "8 * (LENGTH('a) div 8) = LENGTH('a)"
  shows "reads ok rest (READDATA rd) (WRITEDATA x) x"
proof -
  have "wval (WRITEDATA x) = unat x"
    using unat_lt_2p [of x] assms by (simp add: WRITEDATA_def wval_words_of)
  moreover have "length (WRITEDATA x) = LENGTH('a) div 8" by (simp add: WRITEDATA_def)
  ultimately show ?thesis
    using reads_map [OF reads_rd [of "WRITEDATA x"], of "\<lambda>bs. word_of_nat (wval bs) :: 'a word"]
    by (simp add: READDATA_def [abs_def])
qed

lemma reads_bool: "reads ok rest (unser_bool rd) (ser_bool a) a"
  using reads_map [OF reads_READDATA [of "if a then 1 else 0 :: byte"], of "\<lambda>f. f \<noteq> 0"]
  unfolding unser_bool_def [abs_def] ser_bool_def by (simp split: if_splits)

lemma READDATA_short:
  "ok s \<Longrightarrow> length (rest s) < LENGTH('a) div 8 \<Longrightarrow> (READDATA rd s :: ('a::len word \<times> 's) option) = None"
  by (simp add: READDATA_def rd_short)

end

subsection \<open>Round trips\<close>

lemma unat_ucast_eq: "unat x < 2 ^ LENGTH('b) \<Longrightarrow> unat (ucast x :: 'b::len word) = unat x"
  by (simp add: unsigned_ucast_eq take_bit_nat_eq_self)

lemma ucast_ucast_id: "unat (x :: 'a::len word) < 2 ^ LENGTH('b) \<Longrightarrow> ucast (ucast x :: 'b::len word) = x"
  by (metis unat_ucast_eq unat_lt_2p word_unat_eq_iff)

text \<open>The number of bytes a compact size takes is what GetSizeOfCompactSize says.\<close>

lemma length_WriteCompactSize: "length (WriteCompactSize n) = unat (GetSizeOfCompactSize n)"
  by (simp add: WriteCompactSize_def GetSizeOfCompactSize_def WRITEDATA_def)

context istream begin

lemma ReadCompactSize_written:
  assumes "ok s" "rest s = WriteCompactSize n @ r"
  shows "if n \<le> MAX_SIZE then \<exists>s'. ReadCompactSize rd s = Some (n, s') \<and> ok s' \<and> rest s' = r
    else ReadCompactSize rd s = None"
proof -
  have b: "reads ok rest (READDATA rd) (WRITEDATA x) x" for x :: byte by (rule reads_READDATA) simp
  have h: "reads ok rest (READDATA rd) (WRITEDATA x) x" for x :: u16 by (rule reads_READDATA) simp
  have w: "reads ok rest (READDATA rd) (WRITEDATA x) x" for x :: u32 by (rule reads_READDATA) simp
  have d: "reads ok rest (READDATA rd) (WRITEDATA x) x" for x :: u64 by (rule reads_READDATA) simp
  consider "n < 253" | "\<not> n < 253" "n \<le> 0xffff" | "\<not> n < 253" "\<not> n \<le> 0xffff" "n \<le> 0xffffffff"
    | "\<not> n < 253" "\<not> n \<le> 0xffff" "\<not> n \<le> 0xffffffff" by blast
  then show ?thesis
  proof cases
    case 1
    then have "rest s = WRITEDATA (ucast n :: byte) @ r" using assms(2) by (simp add: WriteCompactSize_def)
    then obtain s1 where s1: "READDATA rd s = Some (ucast n :: byte, s1)" "ok s1" "rest s1 = r"
      by (rule readsE [OF b assms(1)])
    have u: "unat n < 2 ^ LENGTH(8)" using 1 by (simp add: word_less_nat_alt)
    have c: "(ucast n :: byte) < 253" using 1 by (simp add: word_less_nat_alt unat_ucast_eq [OF u])
    have m: "n \<le> MAX_SIZE" using 1 by (simp add: MAX_SIZE_def word_less_nat_alt word_le_nat_alt)
    show ?thesis using s1 c m ucast_ucast_id [OF u] by (simp add: ReadCompactSize_def)
  next
    case 2
    then have "rest s = WRITEDATA (253 :: byte) @ WRITEDATA (ucast n :: u16) @ r"
      using assms(2) by (simp add: WriteCompactSize_def)
    then obtain s1 where s1: "READDATA rd s = Some (253 :: byte, s1)" "ok s1" "rest s1 = WRITEDATA (ucast n :: u16) @ r"
      by (rule readsE [OF b assms(1)])
    obtain s2 where s2: "READDATA rd s1 = Some (ucast n :: u16, s2)" "ok s2" "rest s2 = r"
      by (rule readsE [OF h s1(2,3)])
    have u: "unat n < 2 ^ LENGTH(16)" using 2 by (simp add: word_le_nat_alt)
    have m: "n \<le> MAX_SIZE" using 2 by (simp add: MAX_SIZE_def word_le_nat_alt)
    show ?thesis using s1 s2 m ucast_ucast_id [OF u] by (simp add: ReadCompactSize_def)
  next
    case 3
    then have "rest s = WRITEDATA (254 :: byte) @ WRITEDATA (ucast n :: u32) @ r"
      using assms(2) by (simp add: WriteCompactSize_def)
    then obtain s1 where s1: "READDATA rd s = Some (254 :: byte, s1)" "ok s1" "rest s1 = WRITEDATA (ucast n :: u32) @ r"
      by (rule readsE [OF b assms(1)])
    obtain s2 where s2: "READDATA rd s1 = Some (ucast n :: u32, s2)" "ok s2" "rest s2 = r"
      by (rule readsE [OF w s1(2,3)])
    have u: "unat n < 2 ^ LENGTH(32)" using 3 by (simp add: word_le_nat_alt)
    show ?thesis using s1 s2 ucast_ucast_id [OF u] by (auto simp: ReadCompactSize_def not_less)
  next
    case 4
    then have "rest s = WRITEDATA (255 :: byte) @ WRITEDATA n @ r"
      using assms(2) by (simp add: WriteCompactSize_def)
    then obtain s1 where s1: "READDATA rd s = Some (255 :: byte, s1)" "ok s1" "rest s1 = WRITEDATA n @ r"
      by (rule readsE [OF b assms(1)])
    obtain s2 where s2: "READDATA rd s1 = Some (n, s2)" "ok s2" "rest s2 = r"
      by (rule readsE [OF d s1(2,3)])
    have m: "\<not> n \<le> MAX_SIZE" using 4 by (simp add: MAX_SIZE_def word_le_nat_alt)
    show ?thesis using s1 s2 m by (simp add: ReadCompactSize_def)
  qed
qed

lemma reads_CompactSize: "n \<le> MAX_SIZE \<Longrightarrow> reads ok rest (ReadCompactSize rd) (WriteCompactSize n) n"
  by (rule readsI) (use ReadCompactSize_written in \<open>auto split: if_splits\<close>)

lemma reads_size:
  assumes "k \<le> unat MAX_SIZE"
  shows "reads ok rest (ReadCompactSize rd) (WriteCompactSize (word_of_nat k)) (word_of_nat k)"
    and "unat (lo32 (word_of_nat k)) = k"
proof -
  have "unat (word_of_nat k :: u64) = k" using assms by (simp add: unat_of_nat MAX_SIZE_def)
  then show "reads ok rest (ReadCompactSize rd) (WriteCompactSize (word_of_nat k)) (word_of_nat k)"
    using assms by (intro reads_CompactSize) (simp add: word_le_nat_alt)
  show "unat (lo32 (word_of_nat k)) = k"
    using assms by (simp add: unat_lo32 unat_of_nat MAX_SIZE_def)
qed

lemma reads_string:
  assumes "length v \<le> unat MAX_SIZE"
  shows "reads ok rest (unser_string rd) (ser_string v) v"
proof -
  have "reads ok rest (\<lambda>s. if lo32 (word_of_nat (length v)) \<noteq> 0
      then rd s (unat (lo32 (word_of_nat (length v)))) else Some ([], s)) v v"
    using reads_rd [of v] reads_return [of ok rest "[]"] reads_size(2) [OF assms]
    by (cases "v = []") (auto simp: unat_eq_0 [symmetric])
  from reads_bind [OF reads_size(1) [OF assms], of "\<lambda>n s. if lo32 n \<noteq> 0 then rd s (unat (lo32 n)) else Some ([], s)", OF this]
  show ?thesis by (cases "v = []") (simp_all add: unser_string_def [abs_def] ser_string_def Let_def)
qed

lemma reads_vch_loop:
  "nSize = i + length bs \<Longrightarrow> reads ok rest (unser_vch_loop rd nSize i v) bs (v @ bs)"
proof (induction "length bs" arbitrary: i v bs rule: less_induct)
  case less
  show ?case
  proof (cases "bs = []")
    case True
    then show ?thesis using less.prems by (subst unser_vch_loop.simps [abs_def]) (simp add: reads_return)
  next
    case False
    define k where "k = min (nSize - i) 5000000"
    have k: "0 < k" "k \<le> length bs" "i < nSize" using False less.prems by (auto simp: k_def)
    have ih: "reads ok rest (unser_vch_loop rd nSize (i + k) (v @ take k bs)) (drop k bs) (v @ bs)"
      using less.hyps [of "drop k bs" "i + k" "v @ take k bs"] k less.prems by simp
    have "reads ok rest (\<lambda>s. rd s k) (take k bs) (take k bs)"
      using reads_rd [of "take k bs"] k by simp
    from reads_bind [OF this, of "\<lambda>b. unser_vch_loop rd nSize (i + k) (v @ b)", OF ih]
    show ?thesis using k by (subst unser_vch_loop.simps [abs_def]) (simp add: Let_def k_def)
  qed
qed

lemma reads_vch:
  assumes "length v \<le> unat MAX_SIZE"
  shows "reads ok rest (unser_vch rd) (ser_vch v) v"
  using reads_bind [OF reads_size(1) [OF assms], of "\<lambda>n. unser_vch_loop rd (unat (lo32 n)) 0 []" v v]
    reads_vch_loop [of "length v" 0 v "[]"] reads_size(2) [OF assms]
  by (cases "v = []") (simp_all add: unser_vch_def [abs_def] ser_vch_def)

lemma reads_n:
  "(\<And>x. x \<in> set xs \<Longrightarrow> reads ok rest un (ser x) (f x)) \<Longrightarrow>
   reads ok rest (unser_n un (length xs)) (concat (map ser xs)) (map f xs)"
proof (induction xs)
  case Nil
  then show ?case by (simp add: reads_return [of ok rest "[]", simplified] reads_def)
next
  case (Cons x xs)
  then have 1: "reads ok rest un (ser x) (f x)"
    and 2: "reads ok rest (unser_n un (length xs)) (concat (map ser xs)) (map f xs)"
    by simp_all
  show ?case
    using reads_bind [OF 1, of "\<lambda>x s. do { (xs, s) \<leftarrow> unser_n un (length xs) s; Some (x # xs, s) }",
        OF reads_map [OF 2, of "Cons (f x)"]]
    by (simp add: reads_def)
qed

lemma reads_pair:
  "reads ok rest ua (sa a) a \<Longrightarrow> reads ok rest ub (sb b) b \<Longrightarrow>
   reads ok rest (unser_pair ua ub) (ser_pair sa sb (a, b)) (a, b)"
  using reads_bind [of ok rest ua "sa a" a "\<lambda>a s. do { (b, s) \<leftarrow> ub s; Some ((a, b), s) }" "sb b" "(a, b)"]
    reads_map [of ok rest ub "sb b" b "\<lambda>b. (a, b)"]
  by (simp add: unser_pair_def [abs_def] ser_pair_def)

lemma reads_tuple3:
  "reads ok rest ua (sa a) a \<Longrightarrow> reads ok rest ub (sb b) b \<Longrightarrow> reads ok rest uc (sc c) c \<Longrightarrow>
   reads ok rest (unser_tuple3 ua ub uc) (ser_tuple3 sa sb sc (a, b, c)) (a, b, c)"
  unfolding unser_tuple3_def [abs_def] ser_tuple3_def prod.case
  by (rule reads_bind, assumption, rule reads_bind, assumption, erule reads_map)

lemma reads_tuple4:
  "reads ok rest ua (sa a) a \<Longrightarrow> reads ok rest ub (sb b) b \<Longrightarrow> reads ok rest uc (sc c) c \<Longrightarrow>
   reads ok rest ud (sd d) d \<Longrightarrow>
   reads ok rest (unser_tuple4 ua ub uc ud) (ser_tuple4 sa sb sc sd (a, b, c, d)) (a, b, c, d)"
  unfolding unser_tuple4_def [abs_def] ser_tuple4_def prod.case
  by (rule reads_bind, assumption, rule reads_bind, assumption, rule reads_bind, assumption, erule reads_map)

text \<open>The block structure of the vector loop does not matter: it reads the elements in order.\<close>

lemma reads_vector_loop:
  assumes z: "0 < 5000000 div sz"
    and un: "\<And>x. x \<in> set xs \<Longrightarrow> reads ok rest un (ser x) (f x)"
    and n: "nSize = length v + length xs" "nMid = length v"
  shows "reads ok rest (unser_vector_loop un sz nSize nMid v) (concat (map ser xs)) (v @ map f xs)"
  using un n
proof (induction "length xs" arbitrary: nMid v xs rule: less_induct)
  case less
  show ?case
  proof (cases "xs = []")
    case True
    then show ?thesis using less.prems by (subst unser_vector_loop.simps [abs_def]) (simp add: reads_return)
  next
    case False
    define m where "m = min nSize (nMid + 5000000 div sz)"
    define k where "k = m - length v"
    have k: "0 < k" "k \<le> length xs" "nMid < nSize" "m = length v + k"
      using False less.prems(2,3) z by (auto simp: k_def m_def)
    have ih: "reads ok rest (unser_vector_loop un sz nSize m (v @ map f (take k xs))) (concat (map ser (drop k xs)))
        ((v @ map f (take k xs)) @ map f (drop k xs))"
      using less.prems k by (intro less.hyps) (auto dest: in_set_dropD)
    have "reads ok rest (unser_n un (length (take k xs))) (concat (map ser (take k xs))) (map f (take k xs))"
      using less.prems(1) by (intro reads_n) (auto dest: in_set_takeD)
    from reads_bind [OF this, of "\<lambda>b. unser_vector_loop un sz nSize m (v @ b)", OF ih]
    have "reads ok rest (\<lambda>s. Option.bind (unser_n un k s) (\<lambda>r. unser_vector_loop un sz nSize m (v @ fst r) (snd r)))
        (concat (map ser (take k xs)) @ concat (map ser (drop k xs))) (v @ map f xs)"
      using k by (simp add: case_prod_beta' flip: map_append)
    moreover have "concat (map ser (take k xs)) @ concat (map ser (drop k xs)) = concat (map ser xs)"
      by (metis append_take_drop_id concat_append map_append)
    ultimately show ?thesis using k by (subst unser_vector_loop.simps [abs_def]) (simp add: Let_def m_def k_def)
  qed
qed

lemma reads_vector_map:
  assumes "length v \<le> unat MAX_SIZE" "0 < 5000000 div sz"
    and "\<And>x. x \<in> set v \<Longrightarrow> reads ok rest un (ser x) (f x)"
  shows "reads ok rest (unser_vector rd un sz) (ser_vector ser v) (map f v)"
  using reads_bind [OF reads_size(1) [OF assms(1)], of "\<lambda>n. unser_vector_loop un sz (unat (lo32 n)) 0 []"]
    reads_vector_loop [of sz v un ser f "length v" "[]" 0, OF assms(2,3)] reads_size(2) [OF assms(1)]
  by (simp add: unser_vector_def [abs_def] ser_vector_def)

lemma reads_vector:
  assumes "length v \<le> unat MAX_SIZE" "0 < 5000000 div sz"
    and "\<And>x. x \<in> set v \<Longrightarrow> reads ok rest un (ser x) x"
  shows "reads ok rest (unser_vector rd un sz) (ser_vector ser v) v"
  using reads_vector_map [of v sz un ser "\<lambda>x. x"] assms by simp

lemma std_map_insert_last:
  "\<forall>q\<in>set m. fst q < fst p \<Longrightarrow> std_map_insert p m = m @ [p]"
  by (induction m) auto

lemma std_set_insert_last: "\<forall>q\<in>set m. q < k \<Longrightarrow> std_set_insert k m = m @ [k]"
  by (induction m) auto

lemma reads_map_loop:
  "sorted_wrt (<) (map fst (m @ xs)) \<Longrightarrow>
   (\<And>k v. (k, v) \<in> set xs \<Longrightarrow> reads ok rest uk (sk k) k \<and> reads ok rest uv (sv v) v) \<Longrightarrow>
   reads ok rest (unser_map_loop uk uv (length xs) m) (concat (map (ser_pair sk sv) xs)) (m @ xs)"
proof (induction xs arbitrary: m)
  case Nil
  then show ?case by (simp add: reads_def)
next
  case (Cons p xs)
  obtain k v where p: "p = (k, v)" by (cases p)
  have 1: "reads ok rest (unser_pair uk uv) (ser_pair sk sv p) p"
    using Cons.prems(2) [of k v] by (simp add: p reads_pair)
  have "std_map_insert p m = m @ [p]"
    using Cons.prems(1) by (intro std_map_insert_last) (auto simp: sorted_wrt_append)
  moreover have "reads ok rest (unser_map_loop uk uv (length xs) (m @ [p])) (concat (map (ser_pair sk sv) xs)) ((m @ [p]) @ xs)"
    using Cons.prems by (intro Cons.IH) auto
  ultimately have 2: "reads ok rest (unser_map_loop uk uv (length xs) (std_map_insert p m)) (concat (map (ser_pair sk sv) xs)) (m @ p # xs)"
    by simp
  show ?case
    using reads_bind [OF 1, of "\<lambda>p. unser_map_loop uk uv (length xs) (std_map_insert p m)", OF 2]
    by (simp add: reads_def)
qed

lemma reads_set_loop:
  "sorted_wrt (<) (m @ xs) \<Longrightarrow> (\<And>k. k \<in> set xs \<Longrightarrow> reads ok rest uk (sk k) k) \<Longrightarrow>
   reads ok rest (unser_set_loop uk (length xs) m) (concat (map sk xs)) (m @ xs)"
proof (induction xs arbitrary: m)
  case Nil
  then show ?case by (simp add: reads_def)
next
  case (Cons p xs)
  have "std_set_insert p m = m @ [p]"
    using Cons.prems(1) by (intro std_set_insert_last) (auto simp: sorted_wrt_append)
  moreover have "reads ok rest (unser_set_loop uk (length xs) (m @ [p])) (concat (map sk xs)) ((m @ [p]) @ xs)"
    using Cons.prems by (intro Cons.IH) auto
  ultimately have 2: "reads ok rest (unser_set_loop uk (length xs) (std_set_insert p m)) (concat (map sk xs)) (m @ p # xs)"
    by simp
  show ?case
    using reads_bind [of ok rest uk "sk p" p "\<lambda>k. unser_set_loop uk (length xs) (std_set_insert k m)", OF _ 2]
      Cons.prems(2) [of p] by (simp add: reads_def)
qed

lemma reads_std_map:
  assumes "length m \<le> unat MAX_SIZE" "sorted_wrt (<) (map fst m)"
    and "\<And>k v. (k, v) \<in> set m \<Longrightarrow> reads ok rest uk (sk k) k \<and> reads ok rest uv (sv v) v"
  shows "reads ok rest (unser_map rd uk uv) (ser_map sk sv m) m"
  using reads_bind [OF reads_size(1) [OF assms(1)], of "\<lambda>n. unser_map_loop uk uv (unat (lo32 n)) []"]
    reads_map_loop [of "[]" m uk sk uv sv] assms(2,3) reads_size(2) [OF assms(1)]
  by (simp add: unser_map_def [abs_def] ser_map_def)

lemma reads_std_set:
  assumes "length m \<le> unat MAX_SIZE" "sorted_wrt (<) m"
    and "\<And>k. k \<in> set m \<Longrightarrow> reads ok rest uk (sk k) k"
  shows "reads ok rest (unser_set rd uk) (ser_set sk m) m"
  using reads_bind [OF reads_size(1) [OF assms(1)], of "\<lambda>n. unser_set_loop uk (unat (lo32 n)) []"]
    reads_set_loop [of "[]" m uk sk] assms(2,3) reads_size(2) [OF assms(1)]
  by (simp add: unser_set_def [abs_def] ser_set_def)

end

interpretation ds: istream ds_read ds_inv ds_rest
proof unfold_locales
  show "\<exists>s'. ds_read s n = Some (take n (ds_rest s), s') \<and> ds_inv s' \<and> ds_rest s' = drop n (ds_rest s)"
    if "ds_inv s" "n \<le> length (ds_rest s)" for s n
    using ds_read_ok [OF that] by blast
qed (rule ds_read_short)

definition af_rest :: "cautofile \<Rightarrow> byte list" where
  "af_rest s = (case af_file s of None \<Rightarrow> [] | Some f \<Rightarrow> drop (f_pos f) (f_data f))"

definition af_inv :: "cautofile \<Rightarrow> bool" where
  "af_inv s \<longleftrightarrow> af_file s \<noteq> None \<and> af_state s = 0 \<and> af_exceptmask s = badbit OR failbit"

interpretation af: istream af_read af_inv af_rest
proof unfold_locales
  show "\<exists>s'. af_read s n = Some (take n (af_rest s), s') \<and> af_inv s' \<and> af_rest s' = drop n (af_rest s)"
    if "af_inv s" "n \<le> length (af_rest s)" for s n
    using that by (auto simp: af_inv_def af_rest_def af_read_def c_fread_def Let_def add.commute)
  show "af_read s n = None" if "af_inv s" "length (af_rest s) < n" for s n
  proof -
    have "failbit AND (badbit OR failbit) \<noteq> 0" by (simp add: failbit_def badbit_def)
    then show ?thesis
      using that by (auto simp: af_inv_def af_rest_def af_read_def c_fread_def Let_def af_setstate_def)
  qed
qed

text \<open>\<open>sized gss ser x\<close>: the announced size of \<open>x\<close> is the number of bytes written, modulo 2 ^ 32.\<close>

definition sized :: "('a \<Rightarrow> u32) \<Rightarrow> ('a \<Rightarrow> byte list) \<Rightarrow> 'a \<Rightarrow> bool" where
  "sized gss ser x \<longleftrightarrow> gss x = word_of_nat (length (ser x))"

lemma sized_foldl:
  "\<forall>x\<in>set v. sized gss ser x \<Longrightarrow>
   foldl (\<lambda>nSize x. nSize + gss x) n v = n + word_of_nat (length (concat (map ser v)))"
  by (induction v arbitrary: n) (simp_all add: sized_def)

lemma sized_uint: "sized GetSerializeSize_uint WRITEDATA x"
  by (simp add: sized_def GetSerializeSize_uint_def WRITEDATA_def)

lemma sized_vch: "sized GetSerializeSize_vch ser_vch v" "sized GetSerializeSize_string ser_string v"
  by (simp_all add: sized_def GetSerializeSize_vch_def ser_vch_def GetSerializeSize_string_def ser_string_def
      length_WriteCompactSize)

lemma sized_vector: "\<forall>x\<in>set v. sized gss ser x \<Longrightarrow> sized (GetSerializeSize_vector gss) (ser_vector ser) v"
  by (simp add: sized_def [of "GetSerializeSize_vector gss"] GetSerializeSize_vector_def ser_vector_def
      sized_foldl length_WriteCompactSize)

lemma sized_set: "\<forall>x\<in>set v. sized gss ser x \<Longrightarrow> sized (GetSerializeSize_set gss) (ser_set ser) v"
  by (simp add: sized_def [of "GetSerializeSize_set gss"] GetSerializeSize_set_def ser_set_def
      sized_foldl length_WriteCompactSize)

lemma sized_pair:
  "sized ga sa (fst p) \<Longrightarrow> sized gb sb (snd p) \<Longrightarrow> sized (GetSerializeSize_pair ga gb) (ser_pair sa sb) p"
  by (simp add: sized_def GetSerializeSize_pair_def ser_pair_def)

lemma sized_tuple3:
  "sized ga sa a \<Longrightarrow> sized gb sb b \<Longrightarrow> sized gc sc c \<Longrightarrow>
   sized (GetSerializeSize_tuple3 ga gb gc) (ser_tuple3 sa sb sc) (a, b, c)"
  by (simp add: sized_def GetSerializeSize_tuple3_def ser_tuple3_def)

lemma sized_tuple4:
  "sized ga sa a \<Longrightarrow> sized gb sb b \<Longrightarrow> sized gc sc c \<Longrightarrow> sized gd sd d \<Longrightarrow>
   sized (GetSerializeSize_tuple4 ga gb gc gd) (ser_tuple4 sa sb sc sd) (a, b, c, d)"
  by (simp add: sized_def GetSerializeSize_tuple4_def ser_tuple4_def)

lemma sized_map:
  assumes "\<forall>(k, w)\<in>set m. sized gk sk k \<and> sized gv sv w"
  shows "sized (GetSerializeSize_map gk gv) (ser_map sk sv) m"
proof -
  have "\<forall>p\<in>set m. sized (GetSerializeSize_pair gk gv) (ser_pair sk sv) p"
    using assms by (fastforce intro!: sized_pair)
  then show ?thesis
    by (simp add: sized_def [of "GetSerializeSize_map gk gv"] GetSerializeSize_map_def ser_map_def
        sized_foldl length_WriteCompactSize)
qed

subsection \<open>Properties\<close>

text \<open>CDataStream is a queue of the bytes not read yet: reading takes them from the front and
  throws when there are too few, writing appends, and the offset bookkeeping of insert, erase,
  Compact and Rewind, with its special cases at the read position, is insertion, deletion and
  nothing on that queue.\<close>

theorem cdatastream_is_byte_queue:
  assumes "ds_inv s" "unat (ds_nReadPos s) \<le> it1" "it1 \<le> it2" "it2 \<le> length (ds_vch s)" "length xs < 2 ^ 31"
  shows "(if n \<le> length (ds_rest s)
          then \<exists>s'. ds_read s n = Some (take n (ds_rest s), s') \<and> ds_inv s' \<and> ds_rest s' = drop n (ds_rest s)
          else ds_read s n = None) \<and>
    ds_rest (ds_insert s it1 xs) =
      take (it1 - unat (ds_nReadPos s)) (ds_rest s) @ xs @ drop (it1 - unat (ds_nReadPos s)) (ds_rest s) \<and>
    ds_rest (ds_erase s it1 it2) =
      take (it1 - unat (ds_nReadPos s)) (ds_rest s) @ drop (it2 - unat (ds_nReadPos s)) (ds_rest s) \<and>
    ds_rest (ds_Compact s) = ds_rest s \<and> ds_rest (ds_append s b) = ds_rest s @ ds_rest b"
  using assms ds_read_ok [OF assms(1), of n] ds_read_short [OF assms(1), of n]
  by (auto simp: ds_rest_insert ds_rest_erase ds_rest_Compact ds_rest_append)

theorem cdatastream_is_byte_queue_witness:
  "ds_rest (ds_insert (ds_Init [1, 2, 3] 0 0) 1 [7, 8]) = [1, 7, 8, 2, 3]"
  using cdatastream_is_byte_queue [of "ds_Init [1, 2, 3] 0 0" 1 1 "[7, 8]"] ds_inv_Init [of "[1, 2, 3]" 0 0]
  by (simp add: ds_Init_def ds_rest_def)

text \<open>A compact size is read back from either stream class as written when it is at most
  MAX_SIZE and is rejected when it is larger, and it occupies the number of bytes
  GetSizeOfCompactSize announces.\<close>

theorem compact_size_roundtrip:
  assumes "ds_inv s" "ds_rest s = WriteCompactSize n @ r" "af_inv f" "af_rest f = WriteCompactSize n @ r"
  shows "(if n \<le> MAX_SIZE
          then (\<exists>s'. ReadCompactSize ds_read s = Some (n, s') \<and> ds_inv s' \<and> ds_rest s' = r) \<and>
               (\<exists>f'. ReadCompactSize af_read f = Some (n, f') \<and> af_inv f' \<and> af_rest f' = r)
          else ReadCompactSize ds_read s = None \<and> ReadCompactSize af_read f = None) \<and>
    length (WriteCompactSize n) = unat (GetSizeOfCompactSize n)"
  using ds.ReadCompactSize_written [OF assms(1,2)] af.ReadCompactSize_written [OF assms(3,4)]
  by (simp add: length_WriteCompactSize)

theorem compact_size_roundtrip_witness:
  "\<exists>s'. ReadCompactSize ds_read (ds_Init [253, 0, 1, 9] 0 0) = Some (256, s') \<and> ds_rest s' = [9]"
proof -
  have w: "WriteCompactSize 256 = [253, 0, 1]"
    by (simp add: WriteCompactSize_def WRITEDATA_def words_of_2)
  let ?s = "ds_Init [253, 0, 1, 9] 0 0"
  let ?f = "af_init (Some \<lparr>f_data = [253, 0, 1, 9], f_pos = 0, f_limit = 9\<rparr>)"
  have "ds_inv ?s" "ds_rest ?s = WriteCompactSize 256 @ [9]"
    using ds_inv_Init [of "[253, 0, 1, 9]" 0 0] by (simp_all add: w)
  moreover have "af_inv ?f" "af_rest ?f = WriteCompactSize 256 @ [9]"
    by (simp_all add: w af_inv_def af_rest_def af_init_def)
  moreover have "256 \<le> MAX_SIZE" by (simp add: MAX_SIZE_def)
  ultimately show ?thesis
    using compact_size_roundtrip [of ?s 256 "[9]" ?f] by (simp only: if_True) blast
qed

text \<open>Vectors, byte strings, maps and sets of at most MAX_SIZE elements are read back from a
  CDataStream as written, whatever follows them, given that their elements are; the block-wise
  loops of the vector readers return every element in order and end.\<close>

theorem containers_roundtrip:
  assumes "length v \<le> unat MAX_SIZE" "length bs \<le> unat MAX_SIZE" "length m \<le> unat MAX_SIZE"
    and "0 < sz" "sz \<le> 5000000" "sorted_wrt (<) (map fst m)"
    and "\<forall>x\<in>set v. reads ds_inv ds_rest un (ser x) x"
    and "\<forall>(k, w)\<in>set m. reads ds_inv ds_rest uk (sk k) k \<and> reads ds_inv ds_rest un (ser w) w"
  shows "reads ds_inv ds_rest (unser_vector ds_read un sz) (ser_vector ser v) v \<and>
    reads ds_inv ds_rest (unser_vch ds_read) (ser_vch bs) bs \<and>
    reads ds_inv ds_rest (unser_string ds_read) (ser_string bs) bs \<and>
    reads ds_inv ds_rest (unser_map ds_read uk un) (ser_map sk ser m) m"
proof (intro conjI)
  show "reads ds_inv ds_rest (unser_vector ds_read un sz) (ser_vector ser v) v"
    using assms by (intro ds.reads_vector) (simp_all add: div_greater_zero_iff)
  show "reads ds_inv ds_rest (unser_map ds_read uk un) (ser_map sk ser m) m"
    using assms by (intro ds.reads_std_map) auto
qed (use assms in \<open>simp_all add: ds.reads_vch ds.reads_string\<close>)

theorem containers_roundtrip_witness:
  "reads ds_inv ds_rest (unser_vector ds_read (READDATA ds_read) 4) (ser_vector WRITEDATA [1, 2 :: u32]) [1, 2 :: u32] \<and>
   reads ds_inv ds_rest (unser_map ds_read (unser_bool ds_read) (READDATA ds_read))
     (ser_map ser_bool WRITEDATA [(False, 1 :: u32), (True, 7)]) [(False, 1), (True, 7 :: u32)]"
  using containers_roundtrip [of "[1, 2 :: u32]" "[]" "[(False, 1 :: u32), (True, 7)]" 4 "READDATA ds_read" WRITEDATA
      "unser_bool ds_read" ser_bool]
  by (simp add: ds.reads_READDATA ds.reads_bool MAX_SIZE_def)

end
