(* ===== verification/Transaction.thy ===== *)
theory Transaction
  imports Uint256 Serialize
begin

text \<open>
  The transaction types of src/main.h (CDiskTxPos, COutPoint, CTxIn, CTxOut, CTransaction,
  CTxIndex), their serialization, hash and predicates, and CheckTransaction, GetMinFee and
  CalculateRequiredConfirmations of src/main.cpp. An int64 is its 64-bit pattern, compared and
  read as signed; money is checked with the wrap-around of the machine addition. SHA-256 is
  OpenSSL's: an argument \<open>sha\<close> of the hashing functions.
\<close>

subsection \<open>Hashing\<close>

type_synonym sha256 = "byte list \<Rightarrow> byte list"

definition Hash :: "sha256 \<Rightarrow> byte list \<Rightarrow> base_uint" where
  "Hash sha p = (let hash1 = sha p; hash2 = sha hash1 in u_of_bytes hash2)"

definition Hash2 :: "sha256 \<Rightarrow> byte list \<Rightarrow> byte list \<Rightarrow> base_uint" where \<comment> \<open>the two-range overload\<close>
  "Hash2 sha p1 p2 = (let hash1 = sha (p1 @ p2); hash2 = sha hash1 in u_of_bytes hash2)"

definition SER_NETWORK :: u32 where "SER_NETWORK = 1"
definition SER_DISK :: u32 where "SER_DISK = 2"
definition SER_GETHASH :: u32 where "SER_GETHASH = 4"
definition SER_BLOCKHEADERONLY :: u32 where "SER_BLOCKHEADERONLY = push_bit 17 1"

definition SerializeHash :: "sha256 \<Rightarrow> (u32 \<Rightarrow> 'a \<Rightarrow> byte list) \<Rightarrow> 'a \<Rightarrow> base_uint" where
  "SerializeHash sha ser obj = Hash sha (ser SER_GETHASH obj)"

subsection \<open>Money\<close>

definition COIN :: u64 where "COIN = 1000000"
definition CENT :: u64 where "CENT = 10000"
definition MIN_TX_FEE :: u64 where "MIN_TX_FEE = CENT div 10"
definition MIN_RELAY_TX_FEE :: u64 where "MIN_RELAY_TX_FEE = MIN_TX_FEE"
definition MAX_MONEY :: u64 where "MAX_MONEY = 476918 * COIN"
definition MIN_TXOUT_AMOUNT :: u64 where "MIN_TXOUT_AMOUNT = MIN_TX_FEE"
definition MAX_BLOCK_SIZE :: u32 where "MAX_BLOCK_SIZE = 2 * 1024 * 1024"
definition MAX_BLOCK_SIZE_GEN :: u32 where "MAX_BLOCK_SIZE_GEN = MAX_BLOCK_SIZE div 2"

definition MoneyRange :: "u64 \<Rightarrow> bool" where
  "MoneyRange nValue \<longleftrightarrow> 0 \<le>s nValue \<and> nValue \<le>s MAX_MONEY"

subsection \<open>Positions and outpoints\<close>

record CDiskTxPos =
  nFile :: u32
  nBlockPos :: u32
  nTxPos :: u32

definition DiskTxPos_null :: CDiskTxPos where
  "DiskTxPos_null = \<lparr> nFile = - 1, nBlockPos = 0, nTxPos = 0 \<rparr>"

definition DiskTxPos_IsNull :: "CDiskTxPos \<Rightarrow> bool" where
  "DiskTxPos_IsNull p \<longleftrightarrow> nFile p = - 1"

definition ser_CDiskTxPos :: "CDiskTxPos \<Rightarrow> byte list" where \<comment> \<open>FLATDATA\<close>
  "ser_CDiskTxPos p = WRITEDATA (nFile p) @ WRITEDATA (nBlockPos p) @ WRITEDATA (nTxPos p)"

definition unser_CDiskTxPos :: "'s rd \<Rightarrow> 's \<Rightarrow> (CDiskTxPos \<times> 's) option" where
  "unser_CDiskTxPos rd s =
     do { (bs, s) \<leftarrow> rd s 12;
          Some (\<lparr> nFile = word_of_nat (wval (take 4 bs)),
                  nBlockPos = word_of_nat (wval (take 4 (drop 4 bs))),
                  nTxPos = word_of_nat (wval (drop 8 bs)) \<rparr>, s) }"

datatype COutPoint = COutPoint (o_hash: base_uint) (o_n: u32)

definition OutPoint_null :: COutPoint where "OutPoint_null = COutPoint (u_of_uint64 8 0) (- 1)"

definition OutPoint_IsNull :: "COutPoint \<Rightarrow> bool" where
  "OutPoint_IsNull p \<longleftrightarrow> u_eq64 (o_hash p) 0 \<and> o_n p = - 1"

definition OutPoint_lt :: "COutPoint \<Rightarrow> COutPoint \<Rightarrow> bool" where \<comment> \<open>operator<\<close>
  "OutPoint_lt a b \<longleftrightarrow> u_lt (o_hash a) (o_hash b) \<or> (u_eq (o_hash a) (o_hash b) \<and> o_n a < o_n b)"

definition OutPoint_eq :: "COutPoint \<Rightarrow> COutPoint \<Rightarrow> bool" where \<comment> \<open>operator==\<close>
  "OutPoint_eq a b \<longleftrightarrow> u_eq (o_hash a) (o_hash b) \<and> o_n a = o_n b"

definition ser_COutPoint :: "COutPoint \<Rightarrow> byte list" where \<comment> \<open>FLATDATA\<close>
  "ser_COutPoint p = u_bytes (o_hash p) @ WRITEDATA (o_n p)"

definition unser_COutPoint :: "'s rd \<Rightarrow> 's \<Rightarrow> (COutPoint \<times> 's) option" where
  "unser_COutPoint rd s =
     do { (bs, s) \<leftarrow> rd s 36;
          Some (COutPoint (u_of_bytes (take 32 bs)) (word_of_nat (wval (drop 32 bs))), s) }"

subsection \<open>Inputs and outputs\<close>

type_synonym CScript = "byte list"

record CTxIn =
  prevout :: COutPoint
  scriptSig :: CScript
  nSequence :: u32

definition TxIn_default :: CTxIn where
  "TxIn_default = \<lparr> prevout = OutPoint_null, scriptSig = [], nSequence = 0xffffffff \<rparr>"

definition ser_CTxIn :: "CTxIn \<Rightarrow> byte list" where
  "ser_CTxIn i = ser_COutPoint (prevout i) @ ser_vch (scriptSig i) @ WRITEDATA (nSequence i)"

definition unser_CTxIn :: "'s rd \<Rightarrow> 's \<Rightarrow> (CTxIn \<times> 's) option" where
  "unser_CTxIn rd s =
     do { (p, s) \<leftarrow> unser_COutPoint rd s;
          (sc, s) \<leftarrow> unser_vch rd s;
          (q, s) \<leftarrow> READDATA rd s;
          Some (\<lparr> prevout = p, scriptSig = sc, nSequence = q \<rparr>, s) }"

definition TxIn_IsFinal :: "CTxIn \<Rightarrow> bool" where
  "TxIn_IsFinal i \<longleftrightarrow> nSequence i = 0xffffffff"

definition TxIn_eq :: "CTxIn \<Rightarrow> CTxIn \<Rightarrow> bool" where
  "TxIn_eq a b \<longleftrightarrow> OutPoint_eq (prevout a) (prevout b) \<and> scriptSig a = scriptSig b \<and> nSequence a = nSequence b"

record CTxOut =
  nValue :: u64
  scriptPubKey :: CScript

definition TxOut_null :: CTxOut where "TxOut_null = \<lparr> nValue = - 1, scriptPubKey = [] \<rparr>"
definition TxOut_IsNull :: "CTxOut \<Rightarrow> bool" where "TxOut_IsNull t \<longleftrightarrow> nValue t = - 1"
definition TxOut_empty :: CTxOut where "TxOut_empty = \<lparr> nValue = 0, scriptPubKey = [] \<rparr>"

definition TxOut_IsEmpty :: "CTxOut \<Rightarrow> bool" where
  "TxOut_IsEmpty t \<longleftrightarrow> nValue t = 0 \<and> scriptPubKey t = []"

definition TxOut_eq :: "CTxOut \<Rightarrow> CTxOut \<Rightarrow> bool" where
  "TxOut_eq a b \<longleftrightarrow> nValue a = nValue b \<and> scriptPubKey a = scriptPubKey b"

definition ser_CTxOut :: "CTxOut \<Rightarrow> byte list" where
  "ser_CTxOut t = WRITEDATA (nValue t) @ ser_vch (scriptPubKey t)"

definition unser_CTxOut :: "'s rd \<Rightarrow> 's \<Rightarrow> (CTxOut \<times> 's) option" where
  "unser_CTxOut rd s =
     do { (v, s) \<leftarrow> READDATA rd s; (sc, s) \<leftarrow> unser_vch rd s;
          Some (\<lparr> nValue = v, scriptPubKey = sc \<rparr>, s) }"

definition TxOut_GetHash :: "sha256 \<Rightarrow> CTxOut \<Rightarrow> base_uint" where
  "TxOut_GetHash sha t = SerializeHash sha (\<lambda>_. ser_CTxOut) t"

subsection \<open>Transactions\<close>

record CTransaction =
  tx_nVersion :: u32
  tx_nVersionCompat :: u32
  tx_nTime :: u32
  vin :: "CTxIn list"
  vout :: "CTxOut list"
  tx_nLockTime :: u32
  tx_message :: "byte list"
  tx_nDoS :: int

definition Tx_DoS :: "CTransaction \<Rightarrow> int \<Rightarrow> bool \<Rightarrow> bool \<times> CTransaction" where
  "Tx_DoS tx nDoSIn fIn = (fIn, tx\<lparr>tx_nDoS := tx_nDoS tx + nDoSIn\<rparr>)"

text \<open>
  The IMPLEMENT_SERIALIZE body of CTransaction, written out for its two directions. \<open>nVersion\<close> is
  the argument the body overwrites with this->nVersion unless the type has SER_GETHASH; the reader
  starts from the object it fills in and leaves the fields it does not read.
\<close>

definition ser_CTransaction :: "u32 \<Rightarrow> u32 \<Rightarrow> CTransaction \<Rightarrow> byte list" where
  "ser_CTransaction nType nVersion tx =
     (let gethash = (nType AND SER_GETHASH \<noteq> 0);
          nVersion = (if \<not> gethash then tx_nVersion tx else nVersion)
      in (if \<not> gethash then WRITEDATA (tx_nVersion tx) else WRITEDATA (tx_nVersionCompat tx)) @
         WRITEDATA (tx_nTime tx) @
         ser_vector ser_CTxIn (vin tx) @
         ser_vector ser_CTxOut (vout tx) @
         WRITEDATA (tx_nLockTime tx) @
         (if 2 \<le>s nVersion then (if \<not> gethash then ser_string (tx_message tx) else []) else []))"

text \<open>sizeof(CTxIn) and sizeof(CTxOut), which only size the blocks of the vector reads, are 72 and 32.\<close>

definition unser_CTransaction :: "'s rd \<Rightarrow> u32 \<Rightarrow> u32 \<Rightarrow> CTransaction \<Rightarrow> 's \<Rightarrow> (CTransaction \<times> 's) option" where
  "unser_CTransaction rd nType nVersion tx s =
     (let gethash = (nType AND SER_GETHASH \<noteq> 0)
      in do { (ver, s) \<leftarrow> READDATA rd s;
              let tx = (if \<not> gethash then tx\<lparr>tx_nVersion := ver\<rparr> else tx\<lparr>tx_nVersionCompat := ver\<rparr>);
                  nVersion = (if \<not> gethash then tx_nVersion tx else nVersion)
              in do { (t, s) \<leftarrow> READDATA rd s;
                      (i, s) \<leftarrow> unser_vector rd (unser_CTxIn rd) 72 s;
                      (out, s) \<leftarrow> unser_vector rd (unser_CTxOut rd) 32 s;
                      (l, s) \<leftarrow> READDATA rd s;
                      let tx = tx\<lparr>tx_nTime := t, vin := i, vout := out, tx_nLockTime := l\<rparr>
                      in if 2 \<le>s nVersion
                         then if \<not> gethash
                              then do { (m, s) \<leftarrow> unser_string rd s; Some (tx\<lparr>tx_message := m\<rparr>, s) }
                              else Some (tx, s)
                         else Some (tx\<lparr>tx_message := []\<rparr>, s) } })"

definition Tx_SetNull :: "u32 \<Rightarrow> CTransaction" where \<comment> \<open>the argument is GetAdjustedTime()\<close>
  "Tx_SetNull now =
     \<lparr> tx_nVersion = 1, tx_nVersionCompat = 1, tx_nTime = now, vin = [], vout = [], tx_nLockTime = 0,
       tx_message = [], tx_nDoS = 0 \<rparr>"

definition Tx_IsNull :: "CTransaction \<Rightarrow> bool" where "Tx_IsNull tx \<longleftrightarrow> vin tx = [] \<and> vout tx = []"

definition Tx_HasMessage :: "CTransaction \<Rightarrow> bool" where "Tx_HasMessage tx \<longleftrightarrow> length (tx_message tx) > 0"

definition Tx_SetMessage :: "byte list \<Rightarrow> CTransaction \<Rightarrow> CTransaction" where
  "Tx_SetMessage msg tx = tx\<lparr>tx_message := msg, tx_nVersion := 2\<rparr>"

definition PROTOCOL_VERSION :: u32 where "PROTOCOL_VERSION = 72400"

definition Tx_GetHash :: "sha256 \<Rightarrow> CTransaction \<Rightarrow> base_uint" where
  "Tx_GetHash sha tx = SerializeHash sha (\<lambda>nType. ser_CTransaction nType PROTOCOL_VERSION) tx"

text \<open>IsFinal; \<open>best\<close> is the global nBestHeight and \<open>now\<close> the value of GetAdjustedTime().\<close>

definition LOCKTIME_THRESHOLD :: u32 where "LOCKTIME_THRESHOLD = 500000000"

definition Tx_IsFinal :: "u32 \<Rightarrow> u64 \<Rightarrow> CTransaction \<Rightarrow> u32 \<Rightarrow> u64 \<Rightarrow> bool" where
  "Tx_IsFinal best now tx nBlockHeight nBlockTime =
     (if tx_nLockTime tx = 0 then True
      else let nBlockHeight = (if nBlockHeight = 0 then best else nBlockHeight);
               nBlockTime = (if nBlockTime = 0 then now else nBlockTime);
               l = ucast (tx_nLockTime tx) :: u64
           in if l <s (if l <s ucast LOCKTIME_THRESHOLD then scast nBlockHeight else nBlockTime) then True
              else list_all TxIn_IsFinal (vin tx))"

fun IsNewerThan_loop :: "bool \<Rightarrow> u32 \<Rightarrow> CTxIn list \<Rightarrow> CTxIn list \<Rightarrow> bool" where
  "IsNewerThan_loop fNewer nLowest (i # is) (j # js) =
     (if nSequence i \<noteq> nSequence j
      then let (fNewer, nLowest) = (if nSequence i \<le> nLowest then (False, nSequence i) else (fNewer, nLowest));
               (fNewer, nLowest) = (if nSequence j < nLowest then (True, nSequence j) else (fNewer, nLowest))
           in IsNewerThan_loop fNewer nLowest is js
      else IsNewerThan_loop fNewer nLowest is js)"
| "IsNewerThan_loop fNewer nLowest _ _ = fNewer"

definition Tx_IsNewerThan :: "CTransaction \<Rightarrow> CTransaction \<Rightarrow> bool" where
  "Tx_IsNewerThan tx old =
     (if length (vin tx) \<noteq> length (vin old) then False
      else if \<not> list_all2 (\<lambda>i j. OutPoint_eq (prevout i) (prevout j)) (vin tx) (vin old) then False
      else IsNewerThan_loop False 0xffffffff (vin tx) (vin old))"

definition Tx_IsCoinBase :: "CTransaction \<Rightarrow> bool" where
  "Tx_IsCoinBase tx \<longleftrightarrow>
     length (vin tx) = 1 \<and> OutPoint_IsNull (prevout (vin tx ! 0)) \<and> length (vout tx) \<ge> 1"

definition Tx_IsCoinStake :: "CTransaction \<Rightarrow> bool" where
  "Tx_IsCoinStake tx \<longleftrightarrow>
     length (vin tx) > 0 \<and> \<not> OutPoint_IsNull (prevout (vin tx ! 0)) \<and> length (vout tx) \<ge> 2 \<and>
     TxOut_IsEmpty (vout tx ! 0)"

text \<open>The sum of the outputs; None is the thrown runtime_error.\<close>

fun GetValueOut_loop :: "u64 \<Rightarrow> CTxOut list \<Rightarrow> u64 option" where
  "GetValueOut_loop nValueOut [] = Some nValueOut"
| "GetValueOut_loop nValueOut (txout # ts) =
     (let nValueOut = nValueOut + nValue txout
      in if \<not> MoneyRange (nValue txout) \<or> \<not> MoneyRange nValueOut then None
         else GetValueOut_loop nValueOut ts)"

definition Tx_GetValueOut :: "CTransaction \<Rightarrow> u64 option" where
  "Tx_GetValueOut tx = GetValueOut_loop 0 (vout tx)"

definition Tx_eq :: "CTransaction \<Rightarrow> CTransaction \<Rightarrow> bool" where
  "Tx_eq a b \<longleftrightarrow> tx_nVersion a = tx_nVersion b \<and> tx_nTime a = tx_nTime b \<and>
     list_all2 TxIn_eq (vin a) (vin b) \<and> list_all2 TxOut_eq (vout a) (vout b) \<and>
     tx_nLockTime a = tx_nLockTime b"

text \<open>The GetSerializeSize direction of the same bodies.\<close>

definition GetSerializeSize_COutPoint :: "COutPoint \<Rightarrow> u32" where "GetSerializeSize_COutPoint p = 36"

definition GetSerializeSize_CTxIn :: "CTxIn \<Rightarrow> u32" where
  "GetSerializeSize_CTxIn i =
     0 + GetSerializeSize_COutPoint (prevout i) + GetSerializeSize_vch (scriptSig i) + GetSerializeSize_uint (nSequence i)"

definition GetSerializeSize_CTxOut :: "CTxOut \<Rightarrow> u32" where
  "GetSerializeSize_CTxOut t = 0 + GetSerializeSize_uint (nValue t) + GetSerializeSize_vch (scriptPubKey t)"

definition GetSerializeSize_CTransaction :: "u32 \<Rightarrow> u32 \<Rightarrow> CTransaction \<Rightarrow> u32" where
  "GetSerializeSize_CTransaction nType nVersion tx =
     (let gethash = (nType AND SER_GETHASH \<noteq> 0);
          nVersion = (if \<not> gethash then tx_nVersion tx else nVersion)
      in (if \<not> gethash then GetSerializeSize_uint (tx_nVersion tx) else GetSerializeSize_uint (tx_nVersionCompat tx)) +
         GetSerializeSize_uint (tx_nTime tx) +
         GetSerializeSize_vector GetSerializeSize_CTxIn (vin tx) +
         GetSerializeSize_vector GetSerializeSize_CTxOut (vout tx) +
         GetSerializeSize_uint (tx_nLockTime tx) +
         (if 2 \<le>s nVersion then (if \<not> gethash then GetSerializeSize_string (tx_message tx) else 0) else 0))"

subsection \<open>Context-free validation\<close>

fun CheckTransaction_outputs :: "CTransaction \<Rightarrow> u64 \<Rightarrow> CTxOut list \<Rightarrow> bool \<times> int" where
  "CheckTransaction_outputs tx nValueOut [] = (True, 0)"
| "CheckTransaction_outputs tx nValueOut (txout # ts) =
     (if TxOut_IsEmpty txout \<and> \<not> Tx_IsCoinBase tx \<and> \<not> Tx_IsCoinStake tx then (False, 100)
      else if \<not> TxOut_IsEmpty txout \<and> nValue txout <s MIN_TXOUT_AMOUNT then (False, 100)
      else if MAX_MONEY <s nValue txout then (False, 100)
      else let nValueOut = nValueOut + nValue txout
           in if \<not> MoneyRange nValueOut then (False, 100) else CheckTransaction_outputs tx nValueOut ts)"

text \<open>A std::set of outpoints: membership up to the order's equivalence.\<close>

definition OutPoint_count :: "COutPoint list \<Rightarrow> COutPoint \<Rightarrow> bool" where
  "OutPoint_count s p \<longleftrightarrow> list_ex (\<lambda>q. \<not> OutPoint_lt p q \<and> \<not> OutPoint_lt q p) s"

fun CheckTransaction_inputs :: "COutPoint list \<Rightarrow> CTxIn list \<Rightarrow> bool" where
  "CheckTransaction_inputs vInOutPoints [] = True"
| "CheckTransaction_inputs vInOutPoints (txin # is) =
     (if OutPoint_count vInOutPoints (prevout txin) then False
      else CheckTransaction_inputs (prevout txin # vInOutPoints) is)"

definition CheckTransaction :: "CTransaction \<Rightarrow> bool \<times> CTransaction" where
  "CheckTransaction tx =
     (if vin tx = [] then Tx_DoS tx 10 False
      else if vout tx = [] then Tx_DoS tx 10 False
      else if GetSerializeSize_CTransaction SER_NETWORK PROTOCOL_VERSION tx > MAX_BLOCK_SIZE then Tx_DoS tx 100 False
      else let (ok, d) = CheckTransaction_outputs tx 0 (vout tx)
           in if \<not> ok then Tx_DoS tx d False
              else if \<not> CheckTransaction_inputs [] (vin tx) then (False, tx)
              else if Tx_IsCoinBase tx
              then (if length (scriptSig (vin tx ! 0)) < 2 \<or> length (scriptSig (vin tx ! 0)) > 100
                    then Tx_DoS tx 100 False else (True, tx))
              else if list_ex (\<lambda>i. OutPoint_IsNull (prevout i)) (vin tx) then Tx_DoS tx 10 False
              else (True, tx))"

subsection \<open>Fees and confirmations\<close>

definition CalculateRequiredConfirmations :: "u64 \<Rightarrow> int" where
  "CalculateRequiredConfirmations amount =
     (if amount <s COIN div 2 then 3
      else if amount <s COIN * 5 then 4
      else if amount <s COIN * 50 then 5
      else 7)"

datatype GetMinFee_mode = GMF_BLOCK | GMF_RELAY | GMF_SEND

text \<open>
  The fee, as an integer: no intermediate value exceeds 63 bits. SendMessageCostPerChar is the
  double 1, and the products of it here are integers below 2 ^ 53, which doubles represent exactly.
\<close>

definition Tx_GetMinFee :: "CTransaction \<Rightarrow> u32 \<Rightarrow> GetMinFee_mode \<Rightarrow> u32 \<Rightarrow> u32 \<Rightarrow> int" where
  "Tx_GetMinFee tx nBlockSize mode nBytes messageBytes =
     (let nBaseFee = (if mode = GMF_RELAY then sint MIN_RELAY_TX_FEE else sint MIN_TX_FEE);
          nNewBlockSize = nBlockSize + nBytes;
          nMinFee = (1 + uint nBytes div 1000) * nBaseFee;
          nMinFee = (if nMinFee < nBaseFee
                     then (if list_ex (\<lambda>t. nValue t <s CENT) (vout tx) then nBaseFee else nMinFee)
                     else nMinFee);
          nMinFee = (if messageBytes > 0 then nMinFee + uint messageBytes * 1 else nMinFee)
      in if nBlockSize \<noteq> 1 \<and> nNewBlockSize \<ge> MAX_BLOCK_SIZE_GEN div 2 \<and> nNewBlockSize \<ge> MAX_BLOCK_SIZE_GEN
         then sint MAX_MONEY
         else let nMinFee = (if nBlockSize \<noteq> 1 \<and> nNewBlockSize \<ge> MAX_BLOCK_SIZE_GEN div 2
                             then nMinFee * uint (MAX_BLOCK_SIZE_GEN div (MAX_BLOCK_SIZE_GEN - nNewBlockSize))
                             else nMinFee)
              in if \<not> (0 \<le> nMinFee \<and> nMinFee \<le> sint MAX_MONEY) then sint MAX_MONEY else nMinFee)"

subsection \<open>Outpoints as an ordered type\<close>

instantiation COutPoint :: linorder begin

definition less_eq_COutPoint :: "COutPoint \<Rightarrow> COutPoint \<Rightarrow> bool" where
  "less_eq_COutPoint a b \<longleftrightarrow>
     length (o_hash a) < length (o_hash b) \<or>
     (length (o_hash a) = length (o_hash b) \<and>
        (wval (o_hash a) < wval (o_hash b) \<or> (wval (o_hash a) = wval (o_hash b) \<and> o_n a \<le> o_n b)))"

definition less_COutPoint :: "COutPoint \<Rightarrow> COutPoint \<Rightarrow> bool" where
  "less_COutPoint a b \<longleftrightarrow> a \<le> b \<and> \<not> b \<le> a"

instance
  by standard
    (auto simp: less_eq_COutPoint_def less_COutPoint_def wval_eq_iff intro: COutPoint.expand dest: wval_inj)

end

definition wf_outpoint :: "COutPoint \<Rightarrow> bool" where
  "wf_outpoint p \<longleftrightarrow> length (o_hash p) = 8"

lemma OutPoint_lt_less: "wf_outpoint a \<Longrightarrow> wf_outpoint b \<Longrightarrow> OutPoint_lt a b \<longleftrightarrow> a < b"
proof -
  assume "wf_outpoint a" "wf_outpoint b"
  then have l: "length (o_hash a) = length (o_hash b)" by (simp add: wf_outpoint_def)
  have "OutPoint_lt a b \<longleftrightarrow> wval (o_hash a) < wval (o_hash b) \<or> (wval (o_hash a) = wval (o_hash b) \<and> o_n a < o_n b)"
    unfolding OutPoint_lt_def u_compare(1) [OF l] u_eq_iff [OF l] wval_eq_iff [OF l] ..
  then show ?thesis unfolding less_COutPoint_def less_eq_COutPoint_def l by (auto simp: not_le)
qed

lemma OutPoint_eq_eq: "wf_outpoint a \<Longrightarrow> wf_outpoint b \<Longrightarrow> OutPoint_eq a b \<longleftrightarrow> a = b"
  by (cases a; cases b) (simp add: OutPoint_eq_def wf_outpoint_def u_eq_iff)

lemma OutPoint_count_set:
  "wf_outpoint p \<Longrightarrow> list_all wf_outpoint s \<Longrightarrow> OutPoint_count s p \<longleftrightarrow> p \<in> set s"
  by (auto simp: OutPoint_count_def list_ex_iff list_all_iff OutPoint_lt_less)

lemma OutPoint_IsNull_iff: "wf_outpoint p \<Longrightarrow> OutPoint_IsNull p \<longleftrightarrow> p = OutPoint_null"
proof -
  assume wf: "wf_outpoint p"
  obtain h n where p: "p = COutPoint h n" by (cases p)
  obtain a b r where h: "h = a # b # r" "length r = 6"
    using wf by (cases h; cases "tl h") (auto simp: wf_outpoint_def p)
  have r: "list_all (\<lambda>x. x = 0) r \<longleftrightarrow> r = replicate 6 0"
    using h(2) replicate_length_same [of r 0] by (auto simp: list_all_iff)
  have "OutPoint_IsNull p \<longleftrightarrow> a = 0 \<and> b = 0 \<and> r = replicate 6 0 \<and> n = - 1"
    unfolding r [symmetric] by (auto simp: OutPoint_IsNull_def p h(1) u_eq64_def)
  also have "\<dots> \<longleftrightarrow> p = COutPoint (0 # 0 # replicate 6 0) (- 1)"
    unfolding p h(1) COutPoint.inject list.inject by blast
  also have "COutPoint (0 # 0 # replicate 6 0) (- 1) = OutPoint_null"
    by (simp add: OutPoint_null_def u_of_uint64_def)
  finally show ?thesis .
qed

subsection \<open>Round trips\<close>

definition wf_txin :: "CTxIn \<Rightarrow> bool" where
  "wf_txin i \<longleftrightarrow> wf_outpoint (prevout i) \<and> length (scriptSig i) \<le> unat MAX_SIZE"

definition wf_txout :: "CTxOut \<Rightarrow> bool" where
  "wf_txout t \<longleftrightarrow> length (scriptPubKey t) \<le> unat MAX_SIZE"

definition wf_tx :: "CTransaction \<Rightarrow> bool" where
  "wf_tx tx \<longleftrightarrow> list_all wf_txin (vin tx) \<and> list_all wf_txout (vout tx) \<and> length (vin tx) \<le> unat MAX_SIZE \<and>
     length (vout tx) \<le> unat MAX_SIZE \<and> length (tx_message tx) \<le> unat MAX_SIZE"

lemma wval_WRITEDATA: "wval (WRITEDATA (x :: u32)) = unat x" "wval (WRITEDATA (y :: u64)) = unat y"
  using unat_lt_2p [of x] unat_lt_2p [of y] by (simp_all add: WRITEDATA_def wval_words_of)

lemma length_WRITEDATA [simp]: "length (WRITEDATA (x :: 'a::len word)) = LENGTH('a) div 8"
  by (simp add: WRITEDATA_def)

context istream begin

lemma reads_u32: "reads ok rest (READDATA rd) (WRITEDATA x) (x :: u32)"
  by (rule reads_READDATA) simp

lemma reads_u64: "reads ok rest (READDATA rd) (WRITEDATA x) (x :: u64)"
  by (rule reads_READDATA) simp

lemma reads_CDiskTxPos: "reads ok rest (unser_CDiskTxPos rd) (ser_CDiskTxPos p) p"
  using reads_map [OF reads_rd [of "ser_CDiskTxPos p"], of "\<lambda>bs. \<lparr> nFile = word_of_nat (wval (take 4 bs)),
      nBlockPos = word_of_nat (wval (take 4 (drop 4 bs))), nTxPos = word_of_nat (wval (drop 8 bs)) \<rparr>"]
  by (cases p) (simp add: unser_CDiskTxPos_def [abs_def] ser_CDiskTxPos_def wval_WRITEDATA)

lemma reads_COutPoint:
  assumes "wf_outpoint p"
  shows "reads ok rest (unser_COutPoint rd) (ser_COutPoint p) p"
  using assms reads_map [OF reads_rd [of "ser_COutPoint p"],
      of "\<lambda>bs. COutPoint (u_of_bytes (take 32 bs)) (word_of_nat (wval (drop 32 bs)))"]
  by (simp add: unser_COutPoint_def [abs_def] ser_COutPoint_def wval_WRITEDATA wf_outpoint_def u_of_bytes_bytes)

lemma reads_CTxIn:
  assumes "wf_txin i"
  shows "reads ok rest (unser_CTxIn rd) (ser_CTxIn i) i"
proof -
  have "reads ok rest (unser_CTxIn rd) (ser_CTxIn i)
      \<lparr> prevout = prevout i, scriptSig = scriptSig i, nSequence = nSequence i \<rparr>"
    unfolding unser_CTxIn_def [abs_def] ser_CTxIn_def
    by (rule reads_bind, rule reads_COutPoint, use assms in \<open>simp add: wf_txin_def\<close>,
        rule reads_bind, rule reads_vch, use assms in \<open>simp add: wf_txin_def\<close>,
        rule reads_map, rule reads_u32)
  then show ?thesis by (cases i) simp
qed

lemma reads_CTxOut:
  assumes "wf_txout t"
  shows "reads ok rest (unser_CTxOut rd) (ser_CTxOut t) t"
proof -
  have "reads ok rest (unser_CTxOut rd) (ser_CTxOut t) \<lparr> nValue = nValue t, scriptPubKey = scriptPubKey t \<rparr>"
    unfolding unser_CTxOut_def [abs_def] ser_CTxOut_def
    by (rule reads_bind, rule reads_u64, rule reads_map, rule reads_vch, use assms in \<open>simp add: wf_txout_def\<close>)
  then show ?thesis by (cases t) simp
qed

text \<open>Reading a transaction into \<open>tx0\<close>: the fields that are not on the wire keep their values.\<close>

lemma reads_CTransaction:
  assumes wf: "wf_tx tx" and g: "nType AND SER_GETHASH = 0"
  shows "reads ok rest (unser_CTransaction rd nType v tx0) (ser_CTransaction nType v' tx)
    (tx\<lparr>tx_nVersionCompat := tx_nVersionCompat tx0, tx_nDoS := tx_nDoS tx0,
        tx_message := if 2 \<le>s tx_nVersion tx then tx_message tx else []\<rparr>)"
proof -
  have ins: "reads ok rest (unser_vector rd (unser_CTxIn rd) 72) (ser_vector ser_CTxIn (vin tx)) (vin tx)"
    using wf by (intro reads_vector) (auto simp: wf_tx_def list_all_iff intro: reads_CTxIn)
  have outs: "reads ok rest (unser_vector rd (unser_CTxOut rd) 32) (ser_vector ser_CTxOut (vout tx)) (vout tx)"
    using wf by (intro reads_vector) (auto simp: wf_tx_def list_all_iff intro: reads_CTxOut)
  have msg: "reads ok rest (unser_string rd) (ser_string (tx_message tx)) (tx_message tx)"
    using wf by (intro reads_string) (simp add: wf_tx_def)
  show ?thesis
  proof (rule readsI)
    fix s r assume s: "ok s" "rest s = ser_CTransaction nType v' tx @ r"
    define m where "m = (if 2 \<le>s tx_nVersion tx then ser_string (tx_message tx) else [])"
    have "rest s = WRITEDATA (tx_nVersion tx) @ WRITEDATA (tx_nTime tx) @ ser_vector ser_CTxIn (vin tx) @
        ser_vector ser_CTxOut (vout tx) @ WRITEDATA (tx_nLockTime tx) @ m @ r"
      using s(2) g by (simp add: ser_CTransaction_def m_def Let_def)
    then obtain s1 where 1: "READDATA rd s = Some (tx_nVersion tx, s1)" "ok s1"
        "rest s1 = WRITEDATA (tx_nTime tx) @ ser_vector ser_CTxIn (vin tx) @
          ser_vector ser_CTxOut (vout tx) @ WRITEDATA (tx_nLockTime tx) @ m @ r"
      by (rule readsE [OF reads_u32 s(1)])
    obtain s2 where 2: "READDATA rd s1 = Some (tx_nTime tx, s2)" "ok s2"
        "rest s2 = ser_vector ser_CTxIn (vin tx) @ ser_vector ser_CTxOut (vout tx) @ WRITEDATA (tx_nLockTime tx) @ m @ r"
      by (rule readsE [OF reads_u32 1(2,3)])
    obtain s3 where 3: "unser_vector rd (unser_CTxIn rd) 72 s2 = Some (vin tx, s3)" "ok s3"
        "rest s3 = ser_vector ser_CTxOut (vout tx) @ WRITEDATA (tx_nLockTime tx) @ m @ r"
      by (rule readsE [OF ins 2(2,3)])
    obtain s4 where 4: "unser_vector rd (unser_CTxOut rd) 32 s3 = Some (vout tx, s4)" "ok s4"
        "rest s4 = WRITEDATA (tx_nLockTime tx) @ m @ r"
      by (rule readsE [OF outs 3(2,3)])
    obtain s5 where 5: "READDATA rd s4 = Some (tx_nLockTime tx, s5)" "ok s5" "rest s5 = m @ r"
      by (rule readsE [OF reads_u32 4(2,3)])
    show "\<exists>s'. unser_CTransaction rd nType v tx0 s = Some (tx\<lparr>tx_nVersionCompat := tx_nVersionCompat tx0,
        tx_nDoS := tx_nDoS tx0, tx_message := if 2 \<le>s tx_nVersion tx then tx_message tx else []\<rparr>, s') \<and> ok s' \<and> rest s' = r"
    proof (cases "2 \<le>s tx_nVersion tx")
      case True
      then obtain s6 where "unser_string rd s5 = Some (tx_message tx, s6)" "ok s6" "rest s6 = r"
        using readsE [OF msg 5(2)] 5(3) by (auto simp: m_def)
      then show ?thesis using 1 2 3 4 5 g True by (simp add: unser_CTransaction_def Let_def)
    next
      case False
      then show ?thesis using 1 2 3 4 5 g by (simp add: unser_CTransaction_def Let_def m_def)
    qed
  qed
qed

end

subsection \<open>Output values\<close>

definition money_max :: nat where "money_max = 476918000000"

lemma unat_MAX_MONEY: "unat MAX_MONEY = money_max" "sint MAX_MONEY = int money_max"
  by (simp_all add: MAX_MONEY_def COIN_def money_max_def)

lemma MoneyRange_iff: "MoneyRange v \<longleftrightarrow> unat v \<le> money_max"
proof
  assume "MoneyRange v"
  then have "0 \<le> sint v" "sint v \<le> int money_max"
    by (simp_all add: MoneyRange_def word_sle_eq unat_MAX_MONEY)
  then show "unat v \<le> money_max" by (simp add: sint_le_iff)
next
  assume v: "unat v \<le> money_max"
  then have "0 \<le> sint v" by (subst sint_small) (simp_all add: money_max_def)
  with v show "MoneyRange v" by (simp add: MoneyRange_def word_sle_eq unat_MAX_MONEY sint_le_iff)
qed

lemma unat_add_money:
  "unat a \<le> money_max \<Longrightarrow> unat b \<le> money_max \<Longrightarrow> unat (a + b :: u64) = unat a + unat b"
  by (simp add: unat_word_ariths money_max_def)

definition value_sum :: "CTxOut list \<Rightarrow> nat" where
  "value_sum ts = sum_list (map (\<lambda>t. unat (nValue t)) ts)"

lemma GetValueOut_loop_spec:
  "unat acc \<le> money_max \<Longrightarrow>
   GetValueOut_loop acc ts =
     (if list_all (\<lambda>t. unat (nValue t) \<le> money_max) ts \<and> unat acc + value_sum ts \<le> money_max
      then Some (word_of_nat (unat acc + value_sum ts)) else None)"
proof (induction ts arbitrary: acc)
  case Nil
  then show ?case by (simp add: value_sum_def)
next
  case (Cons t ts)
  show ?case
  proof (cases "unat (nValue t) \<le> money_max")
    case True
    note s = unat_add_money [OF Cons.prems True]
    show ?thesis
    proof (cases "unat (acc + nValue t) \<le> money_max")
      case m: True
      then show ?thesis using True Cons.IH [OF m]
        by (simp add: MoneyRange_iff Let_def value_sum_def s add.assoc del: of_nat_add)
    qed (use True s in \<open>auto simp: MoneyRange_iff Let_def value_sum_def\<close>)
  qed (auto simp: MoneyRange_iff Let_def)
qed

lemma Tx_GetValueOut_spec:
  "Tx_GetValueOut tx =
     (if list_all (\<lambda>t. unat (nValue t) \<le> money_max) (vout tx) \<and> value_sum (vout tx) \<le> money_max
      then Some (word_of_nat (value_sum (vout tx))) else None)"
  using GetValueOut_loop_spec [of 0 "vout tx"] by (simp add: Tx_GetValueOut_def money_max_def)

subsection \<open>What CheckTransaction accepts\<close>

definition output_ok :: "CTransaction \<Rightarrow> CTxOut \<Rightarrow> bool" where
  "output_ok tx t \<longleftrightarrow>
     (if TxOut_IsEmpty t then Tx_IsCoinBase tx \<or> Tx_IsCoinStake tx
      else 1000 \<le> unat (nValue t) \<and> unat (nValue t) \<le> money_max)"

lemma output_guards:
  "(\<not> TxOut_IsEmpty t \<and> nValue t <s MIN_TXOUT_AMOUNT) = False \<and> (MAX_MONEY <s nValue t) = False \<longleftrightarrow>
   (if TxOut_IsEmpty t then True else 1000 \<le> unat (nValue t) \<and> unat (nValue t) \<le> money_max)"
proof (cases "TxOut_IsEmpty t")
  case True
  then have "sint (nValue t) = 0" by (simp add: TxOut_IsEmpty_def)
  with True show ?thesis by (simp add: word_sless_alt unat_MAX_MONEY)
next
  case False
  have m: "sint MIN_TXOUT_AMOUNT = 1000" by (simp add: MIN_TXOUT_AMOUNT_def MIN_TX_FEE_def CENT_def)
  show ?thesis
  proof
    assume "(\<not> TxOut_IsEmpty t \<and> nValue t <s MIN_TXOUT_AMOUNT) = False \<and> (MAX_MONEY <s nValue t) = False"
    then have "1000 \<le> sint (nValue t)" "sint (nValue t) \<le> int money_max"
      using False by (simp_all add: word_sless_alt m unat_MAX_MONEY)
    then show "if TxOut_IsEmpty t then True else 1000 \<le> unat (nValue t) \<and> unat (nValue t) \<le> money_max"
      using sint_le_iff [of "nValue t" money_max] le_sint_iff [of "nValue t" 1000] False by simp
  next
    assume "if TxOut_IsEmpty t then True else 1000 \<le> unat (nValue t) \<and> unat (nValue t) \<le> money_max"
    then have "1000 \<le> unat (nValue t)" "unat (nValue t) \<le> money_max" using False by auto
    moreover from this have "0 \<le> sint (nValue t)"
      by (subst sint_small) (simp_all add: money_max_def)
    ultimately show "(\<not> TxOut_IsEmpty t \<and> nValue t <s MIN_TXOUT_AMOUNT) = False \<and> (MAX_MONEY <s nValue t) = False"
      using le_sint_iff [of "nValue t" 1000]
      by (simp add: word_sless_alt m unat_MAX_MONEY not_less sint_le_iff)
  qed
qed

lemma output_ok_bound: "output_ok tx t \<Longrightarrow> unat (nValue t) \<le> money_max"
  by (auto simp: output_ok_def TxOut_IsEmpty_def split: if_splits)

lemma CheckTransaction_outputs_spec:
  "unat acc \<le> money_max \<Longrightarrow>
   fst (CheckTransaction_outputs tx acc ts) \<longleftrightarrow>
     list_all (output_ok tx) ts \<and> unat acc + value_sum ts \<le> money_max"
proof (induction ts arbitrary: acc)
  case Nil
  then show ?case by (simp add: value_sum_def)
next
  case (Cons t ts)
  show ?case
  proof (cases "output_ok tx t")
    case True
    note s = unat_add_money [OF Cons.prems output_ok_bound [OF True]]
    have g: "\<not> (\<not> TxOut_IsEmpty t \<and> nValue t <s MIN_TXOUT_AMOUNT)" "\<not> MAX_MONEY <s nValue t"
      using True output_guards [of t] by (auto simp: output_ok_def split: if_splits)
    have e: "\<not> (TxOut_IsEmpty t \<and> \<not> Tx_IsCoinBase tx \<and> \<not> Tx_IsCoinStake tx)"
      using True by (auto simp: output_ok_def split: if_splits)
    show ?thesis
    proof (cases "unat (acc + nValue t) \<le> money_max")
      case m: True
      then show ?thesis using True Cons.IH [OF m] g e
        by (auto simp: MoneyRange_iff Let_def value_sum_def s add.assoc)
    next
      case False
      then show ?thesis using True g e by (auto simp: MoneyRange_iff Let_def value_sum_def s)
    qed
  next
    case False
    then have "(TxOut_IsEmpty t \<and> \<not> Tx_IsCoinBase tx \<and> \<not> Tx_IsCoinStake tx) \<or>
        (\<not> TxOut_IsEmpty t \<and> nValue t <s MIN_TXOUT_AMOUNT) \<or> MAX_MONEY <s nValue t"
      using output_guards [of t] by (auto simp: output_ok_def split: if_splits)
    with False show ?thesis by auto
  qed
qed

lemma CheckTransaction_inputs_distinct:
  "list_all wf_txin is \<Longrightarrow> list_all wf_outpoint s \<Longrightarrow>
   CheckTransaction_inputs s is \<longleftrightarrow> distinct (map prevout is) \<and> set (map prevout is) \<inter> set s = {}"
proof (induction "is" arbitrary: s)
  case (Cons i "is")
  then have "wf_outpoint (prevout i)" by (simp add: wf_txin_def)
  with Cons show ?case by (auto simp: OutPoint_count_set)
qed simp

text \<open>The contract: what an accepted transaction satisfies, and everything that satisfies it is accepted.\<close>

definition tx_valid :: "CTransaction \<Rightarrow> bool" where
  "tx_valid tx \<longleftrightarrow>
     vin tx \<noteq> [] \<and> vout tx \<noteq> [] \<and>
     GetSerializeSize_CTransaction SER_NETWORK PROTOCOL_VERSION tx \<le> MAX_BLOCK_SIZE \<and>
     list_all (output_ok tx) (vout tx) \<and> value_sum (vout tx) \<le> money_max \<and>
     distinct (map prevout (vin tx)) \<and>
     (if Tx_IsCoinBase tx then 2 \<le> length (scriptSig (hd (vin tx))) \<and> length (scriptSig (hd (vin tx))) \<le> 100
      else OutPoint_null \<notin> set (map prevout (vin tx)))"

lemma CheckTransaction_valid:
  assumes "wf_tx tx"
  shows "fst (CheckTransaction tx) \<longleftrightarrow> tx_valid tx"
proof -
  have o: "fst (CheckTransaction_outputs tx 0 (vout tx)) \<longleftrightarrow>
      list_all (output_ok tx) (vout tx) \<and> value_sum (vout tx) \<le> money_max"
    using CheckTransaction_outputs_spec [of 0 tx "vout tx"] by (simp add: money_max_def)
  have i: "CheckTransaction_inputs [] (vin tx) \<longleftrightarrow> distinct (map prevout (vin tx))"
    using CheckTransaction_inputs_distinct [of "vin tx" "[]"] assms by (simp add: wf_tx_def)
  have n: "list_ex (\<lambda>i. OutPoint_IsNull (prevout i)) (vin tx) \<longleftrightarrow> OutPoint_null \<in> set (map prevout (vin tx))"
    using assms OutPoint_IsNull_iff by (force simp: wf_tx_def list_all_iff list_ex_iff wf_txin_def)
  obtain b d where bd: "CheckTransaction_outputs tx 0 (vout tx) = (b, d)" by (cases "CheckTransaction_outputs tx 0 (vout tx)")
  show ?thesis
  proof (cases "vin tx = [] \<or> vout tx = []")
    case True
    then show ?thesis by (auto simp: CheckTransaction_def Tx_DoS_def tx_valid_def)
  next
    case False
    then have h: "vin tx ! 0 = hd (vin tx)" by (simp add: hd_conv_nth)
    show ?thesis using False o bd
      by (auto simp: CheckTransaction_def Let_def Tx_DoS_def tx_valid_def i n h not_less not_le)
  qed
qed

lemma sized_CTxIn: "wf_txin i \<Longrightarrow> sized GetSerializeSize_CTxIn ser_CTxIn i"
  using sized_vch(1) [of "scriptSig i"]
  by (simp add: sized_def GetSerializeSize_CTxIn_def ser_CTxIn_def GetSerializeSize_COutPoint_def ser_COutPoint_def
      GetSerializeSize_uint_def wf_txin_def wf_outpoint_def)

lemma sized_CTxOut: "sized GetSerializeSize_CTxOut ser_CTxOut t"
  using sized_vch(1) [of "scriptPubKey t"]
  by (simp add: sized_def GetSerializeSize_CTxOut_def ser_CTxOut_def GetSerializeSize_uint_def)

lemma sized_CTransaction:
  assumes "wf_tx tx"
  shows "GetSerializeSize_CTransaction nType v tx = word_of_nat (length (ser_CTransaction nType v tx))"
proof -
  have "sized (GetSerializeSize_vector GetSerializeSize_CTxIn) (ser_vector ser_CTxIn) (vin tx)"
    using assms by (intro sized_vector) (auto simp: wf_tx_def list_all_iff sized_CTxIn)
  moreover have "sized (GetSerializeSize_vector GetSerializeSize_CTxOut) (ser_vector ser_CTxOut) (vout tx)"
    by (intro sized_vector) (simp add: sized_CTxOut)
  moreover have "sized GetSerializeSize_string ser_string (tx_message tx)" by (rule sized_vch)
  ultimately show ?thesis
    by (simp add: sized_def GetSerializeSize_CTransaction_def ser_CTransaction_def Let_def GetSerializeSize_uint_def)
qed

lemma GetMinFee_no_dust_rule:
  "0 < base \<Longrightarrow> \<not> (1 + uint (nBytes :: u32) div 1000) * base < (base :: int)"
  by (simp add: not_less algebra_simps pos_imp_zdiv_nonneg_iff)

subsection \<open>Properties\<close>

text \<open>A well-formed transaction is read back from a stream as it was written in every form but
  the hashing one: the fields that are not on the wire (the compatibility version, the
  denial-of-service score and, below version 2, the message) come from the object read into.\<close>

theorem transaction_roundtrip:
  assumes "wf_tx tx" "nType AND SER_GETHASH = 0" "ds_inv s" "ds_rest s = ser_CTransaction nType v' tx @ r"
  shows "\<exists>s'. unser_CTransaction ds_read nType v tx0 s =
      Some (tx\<lparr>tx_nVersionCompat := tx_nVersionCompat tx0, tx_nDoS := tx_nDoS tx0,
               tx_message := if 2 \<le>s tx_nVersion tx then tx_message tx else []\<rparr>, s') \<and> ds_rest s' = r"
  by (rule readsE [OF ds.reads_CTransaction [OF assms(1,2)] assms(3,4)]) (intro exI conjI)

theorem transaction_roundtrip_witness:
  "\<exists>s'. unser_CTransaction ds_read SER_NETWORK 0 (Tx_SetNull 5) (ds_Init (ser_CTransaction SER_NETWORK 0 (Tx_SetNull 7) @ [9]) 0 0) =
     Some (Tx_SetNull 7, s') \<and> ds_rest s' = [9]"
proof -
  have "length (ser_CTransaction SER_NETWORK 0 (Tx_SetNull 7) @ [9]) < 2 ^ 31"
    by (simp add: ser_CTransaction_def Tx_SetNull_def Let_def SER_NETWORK_def SER_GETHASH_def ser_vector_def
        length_WriteCompactSize GetSizeOfCompactSize_def word_sle_eq)
  from ds_inv_Init [OF this, of 0 0] show ?thesis
    using transaction_roundtrip [of "Tx_SetNull 7" SER_NETWORK
        "ds_Init (ser_CTransaction SER_NETWORK 0 (Tx_SetNull 7) @ [9]) 0 0" 0 "[9]" 0 "Tx_SetNull 5"]
    by (simp add: wf_tx_def Tx_SetNull_def SER_NETWORK_def SER_GETHASH_def word_sle_eq)
qed

text \<open>The size GetSerializeSize announces for a transaction, which CheckTransaction compares with
  the block size limit, is the number of bytes Serialize writes, modulo 2 ^ 32.\<close>

theorem transaction_size:
  assumes "wf_tx tx"
  shows "GetSerializeSize_CTransaction nType v tx = word_of_nat (length (ser_CTransaction nType v tx))"
  using assms by (rule sized_CTransaction)

theorem transaction_size_witness:
  "GetSerializeSize_CTransaction SER_DISK 0 (Tx_SetNull 7) = word_of_nat (length (ser_CTransaction SER_DISK 0 (Tx_SetNull 7)))"
  by (rule transaction_size) (simp add: wf_tx_def Tx_SetNull_def)

text \<open>The transaction hash covers the compatibility version, the time, the inputs, the outputs and
  the lock time, and nothing else: two transactions that differ in the version, in the message or in
  the denial-of-service score have the same hash.\<close>

theorem transaction_hash_ignores_message:
  "Tx_GetHash sha (tx\<lparr>tx_nVersion := v, tx_message := m, tx_nDoS := d\<rparr>) = Tx_GetHash sha tx"
  by (simp add: Tx_GetHash_def SerializeHash_def ser_CTransaction_def Let_def SER_GETHASH_def)

text \<open>GetValueOut returns the exact sum of the outputs when every output and the sum are within
  the money range, and throws in every other case: no wrap-around of the 64-bit addition can make
  it return anything else.\<close>

theorem value_out_exact:
  "Tx_GetValueOut tx =
     (if list_all (\<lambda>t. unat (nValue t) \<le> money_max) (vout tx) \<and> value_sum (vout tx) \<le> money_max
      then Some (word_of_nat (value_sum (vout tx))) else None)"
  by (rule Tx_GetValueOut_spec)

text \<open>CheckTransaction accepts exactly the transactions of the contract: non-empty, of bounded
  size, with outputs that are empty markers (coinbase or coinstake only) or lie between the minimum
  and the maximum, a total within the money range, no input spent twice, and a coinbase script of 2
  to 100 bytes or no null input; in particular an accepted transaction's GetValueOut never throws.\<close>

theorem check_transaction_contract:
  assumes "wf_tx tx"
  shows "(fst (CheckTransaction tx) \<longleftrightarrow> tx_valid tx) \<and>
    (fst (CheckTransaction tx) \<longrightarrow> Tx_GetValueOut tx = Some (word_of_nat (value_sum (vout tx))))"
proof -
  have "list_all (output_ok tx) (vout tx) \<Longrightarrow> list_all (\<lambda>t. unat (nValue t) \<le> money_max) (vout tx)"
    by (auto simp: list_all_iff dest: output_ok_bound)
  then show ?thesis
    using CheckTransaction_valid [OF assms] by (auto simp: tx_valid_def Tx_GetValueOut_spec)
qed

definition sample_tx :: CTransaction where
  "sample_tx = (Tx_SetNull 7)\<lparr>vin := [\<lparr> prevout = COutPoint (u_of_uint64 8 5) 0, scriptSig = [], nSequence = 0 \<rparr>],
     vout := [\<lparr> nValue = 5000, scriptPubKey = [] \<rparr>]\<rparr>"

theorem check_transaction_contract_witness:
  "fst (CheckTransaction sample_tx) \<and> Tx_GetValueOut sample_tx = Some 5000"
proof -
  have wf: "wf_tx sample_tx"
    by (simp add: wf_tx_def sample_tx_def Tx_SetNull_def wf_txin_def wf_txout_def wf_outpoint_def u_of_uint64_def MAX_SIZE_def)
  have size: "GetSerializeSize_CTransaction SER_NETWORK PROTOCOL_VERSION sample_tx \<le> MAX_BLOCK_SIZE"
    by (simp add: GetSerializeSize_CTransaction_def sample_tx_def Tx_SetNull_def SER_NETWORK_def SER_GETHASH_def Let_def
        GetSerializeSize_uint_def GetSerializeSize_vector_def GetSerializeSize_CTxIn_def GetSerializeSize_CTxOut_def
        GetSerializeSize_COutPoint_def GetSerializeSize_vch_def GetSizeOfCompactSize_def MAX_BLOCK_SIZE_def word_sle_eq)
  have "tx_valid sample_tx"
    using size by (simp add: tx_valid_def sample_tx_def Tx_SetNull_def output_ok_def TxOut_IsEmpty_def value_sum_def money_max_def
        Tx_IsCoinBase_def OutPoint_IsNull_def u_eq64_def u_of_uint64_def OutPoint_null_def)
  moreover have "value_sum (vout sample_tx) = 5000"
    by (simp add: sample_tx_def value_sum_def)
  ultimately show ?thesis using check_transaction_contract [OF wf] by simp
qed

text \<open>The minimum fee is within the money range, and it does not depend on the transaction's
  outputs: the rule that is to raise the fee of a transaction with an output below a cent never
  applies, since the computed fee is never below the base fee it is compared with.\<close>

theorem min_fee_ignores_dust:
  "Tx_GetMinFee (tx\<lparr>vout := ts\<rparr>) nBlockSize mode nBytes mb = Tx_GetMinFee tx nBlockSize mode nBytes mb \<and>
   0 \<le> Tx_GetMinFee tx nBlockSize mode nBytes mb \<and> Tx_GetMinFee tx nBlockSize mode nBytes mb \<le> sint MAX_MONEY"
proof -
  have b: "0 < (if mode = GMF_RELAY then sint MIN_RELAY_TX_FEE else sint MIN_TX_FEE)"
    by (simp add: MIN_RELAY_TX_FEE_def MIN_TX_FEE_def CENT_def)
  show ?thesis unfolding Tx_GetMinFee_def Let_def
    using GetMinFee_no_dust_rule [OF b, of nBytes] by (simp add: unat_MAX_MONEY)
qed

end
