(* ===== verification/Block.thy ===== *)
theory Block
  imports Transaction
begin

text \<open>
  The class CBlock of src/main.h: the block header and its hash, serialization, the proof-of-stake
  predicates, and the Merkle tree (BuildMerkleTree, GetMerkleBranch, CheckMerkleBranch). The
  proof-of-work hash Hash9 is an argument \<open>hash9\<close> of the definitions here; its stages are the
  subject of other theories.
\<close>

record CBlock =
  b_nVersion :: u32
  hashPrevBlock :: base_uint
  hashMerkleRoot :: base_uint
  b_nTime :: u32
  b_nBits :: u32
  b_nNonce :: u32
  vtx :: "CTransaction list"
  vchBlockSig :: "byte list"
  vMerkleTree :: "base_uint list"
  b_nDoS :: int
  msha3 :: "byte list"
  b_message :: "byte list"
  nBitsMSHA :: u32

definition Block_SetNull :: CBlock where
  "Block_SetNull =
     \<lparr> b_nVersion = 4, hashPrevBlock = u_of_uint64 8 0, hashMerkleRoot = u_of_uint64 8 0, b_nTime = 0,
       b_nBits = 0, b_nNonce = 0, vtx = [], vchBlockSig = [], vMerkleTree = [], b_nDoS = 0, msha3 = [],
       b_message = [], nBitsMSHA = 0 \<rparr>"

definition Block_IsNull :: "CBlock \<Rightarrow> bool" where "Block_IsNull b \<longleftrightarrow> b_nBits b = 0"

definition Block_SetMessage :: "byte list \<Rightarrow> CBlock \<Rightarrow> CBlock" where
  "Block_SetMessage msg b = b\<lparr>b_message := msg, b_nVersion := 5\<rparr>"

definition Block_DoS :: "CBlock \<Rightarrow> int \<Rightarrow> bool \<Rightarrow> bool \<times> CBlock" where
  "Block_DoS b nDoSIn fIn = (fIn, b\<lparr>b_nDoS := b_nDoS b + nDoSIn\<rparr>)"

subsection \<open>Serialization\<close>

definition ser_uint256 :: "base_uint \<Rightarrow> byte list" where "ser_uint256 pn = u_bytes pn"

definition unser_uint256 :: "'s rd \<Rightarrow> 's \<Rightarrow> (base_uint \<times> 's) option" where
  "unser_uint256 rd s = do { (bs, s) \<leftarrow> rd s 32; Some (u_of_bytes bs, s) }"

definition ser_CBlock_header :: "CBlock \<Rightarrow> byte list" where
  "ser_CBlock_header b =
     WRITEDATA (b_nVersion b) @ ser_uint256 (hashPrevBlock b) @ ser_uint256 (hashMerkleRoot b) @
     WRITEDATA (b_nTime b) @ WRITEDATA (b_nBits b) @ WRITEDATA (b_nNonce b)"

definition ser_CBlock :: "u32 \<Rightarrow> CBlock \<Rightarrow> byte list" where
  "ser_CBlock nType b =
     (let hdr = (nType AND (SER_GETHASH OR SER_BLOCKHEADERONLY) \<noteq> 0); nVersion = b_nVersion b
      in ser_CBlock_header b @
         (if \<not> hdr then ser_vector (ser_CTransaction nType nVersion) (vtx b) @ ser_vch (vchBlockSig b) else []) @
         (if 5 \<le>s nVersion
          then (if \<not> hdr then WRITEDATA (nBitsMSHA b) @ ser_string (msha3 b) @ ser_string (b_message b) else [])
          else []))"

text \<open>sizeof(CTransaction) is 112 on the 64-bit ABI; it only sizes the blocks of the vector read.\<close>

definition unser_CBlock :: "'s rd \<Rightarrow> u32 \<Rightarrow> u32 \<Rightarrow> CBlock \<Rightarrow> 's \<Rightarrow> (CBlock \<times> 's) option" where
  "unser_CBlock rd nType now b s =
     (let hdr = (nType AND (SER_GETHASH OR SER_BLOCKHEADERONLY) \<noteq> 0)
      in do { (ver, s) \<leftarrow> READDATA rd s;
              (prev, s) \<leftarrow> unser_uint256 rd s;
              (root, s) \<leftarrow> unser_uint256 rd s;
              (t, s) \<leftarrow> READDATA rd s;
              (bits, s) \<leftarrow> READDATA rd s;
              (nonce, s) \<leftarrow> READDATA rd s;
              let b = b\<lparr>b_nVersion := ver, hashPrevBlock := prev, hashMerkleRoot := root, b_nTime := t,
                        b_nBits := bits, b_nNonce := nonce\<rparr>
              in do { (b, s) \<leftarrow>
                        (if \<not> hdr
                         then do { (txs, s) \<leftarrow> unser_vector rd (unser_CTransaction rd nType ver (Tx_SetNull now)) 112 s;
                                   (sig, s) \<leftarrow> unser_vch rd s;
                                   Some (b\<lparr>vtx := txs, vchBlockSig := sig\<rparr>, s) }
                         else Some (b\<lparr>vtx := [], vchBlockSig := []\<rparr>, s));
                      if 5 \<le>s ver
                      then if \<not> hdr
                           then do { (bm, s) \<leftarrow> READDATA rd s; (ms, s) \<leftarrow> unser_string rd s; (m, s) \<leftarrow> unser_string rd s;
                                     Some (b\<lparr>nBitsMSHA := bm, msha3 := ms, b_message := m\<rparr>, s) }
                           else Some (b, s)
                      else Some (b, s) } })"

subsection \<open>Hash and predicates\<close>

text \<open>GetHash hashes the 80 bytes of memory from nVersion to the end of nNonce.\<close>

definition Block_GetHash :: "(byte list \<Rightarrow> base_uint) \<Rightarrow> CBlock \<Rightarrow> base_uint" where
  "Block_GetHash hash9 b =
     hash9 (WRITEDATA (b_nVersion b) @ u_bytes (hashPrevBlock b) @ u_bytes (hashMerkleRoot b) @
            WRITEDATA (b_nTime b) @ WRITEDATA (b_nBits b) @ WRITEDATA (b_nNonce b))"

definition Block_GetBlockTime :: "CBlock \<Rightarrow> u64" where "Block_GetBlockTime b = ucast (b_nTime b)"

definition GetStakeEntropyBit :: "(byte list \<Rightarrow> base_uint) \<Rightarrow> CBlock \<Rightarrow> u32" where
  "GetStakeEntropyBit hash9 b = ucast (u_Get64 (Block_GetHash hash9 b) 0 AND 1)"

definition Block_IsProofOfStake :: "CBlock \<Rightarrow> bool" where
  "Block_IsProofOfStake b \<longleftrightarrow> length (vtx b) > 1 \<and> Tx_IsCoinStake (vtx b ! 1)"

definition Block_IsProofOfWork :: "CBlock \<Rightarrow> bool" where
  "Block_IsProofOfWork b \<longleftrightarrow> \<not> Block_IsProofOfStake b"

definition Block_GetProofOfStake :: "CBlock \<Rightarrow> COutPoint \<times> u32" where
  "Block_GetProofOfStake b =
     (if Block_IsProofOfStake b then (prevout (vin (vtx b ! 1) ! 0), tx_nTime (vtx b ! 1)) else (OutPoint_null, 0))"

fun GetMaxTransactionTime_loop :: "u64 \<Rightarrow> CTransaction list \<Rightarrow> u64" where
  "GetMaxTransactionTime_loop m [] = m"
| "GetMaxTransactionTime_loop m (tx # txs) =
     (let t = ucast (tx_nTime tx) in GetMaxTransactionTime_loop (if m <s t then t else m) txs)"

definition GetMaxTransactionTime :: "CBlock \<Rightarrow> u64" where
  "GetMaxTransactionTime b = GetMaxTransactionTime_loop 0 (vtx b)"

subsection \<open>The Merkle tree\<close>

text \<open>\<open>H a b\<close> is the hash of two nodes. Positions are natural numbers.\<close>

type_synonym 'h node_hash = "'h \<Rightarrow> 'h \<Rightarrow> 'h"

function merkle_row :: "'h node_hash \<Rightarrow> nat \<Rightarrow> nat \<Rightarrow> nat \<Rightarrow> 'h list \<Rightarrow> 'h list" where
  "merkle_row H j nSize i tree =
     (if i < nSize
      then let i2 = min (i + 1) (nSize - 1)
           in merkle_row H j nSize (i + 2) (tree @ [H (tree ! (j + i)) (tree ! (j + i2))])
      else tree)"
  by pat_completeness auto
termination by (relation "measure (\<lambda>(H, j, nSize, i, tree). nSize - i)") auto

function merkle_rows :: "'h node_hash \<Rightarrow> nat \<Rightarrow> nat \<Rightarrow> 'h list \<Rightarrow> 'h list" where
  "merkle_rows H j nSize tree =
     (if nSize > 1 then merkle_rows H (j + nSize) ((nSize + 1) div 2) (merkle_row H j nSize 0 tree) else tree)"
  by pat_completeness auto
termination by (relation "measure (\<lambda>(H, j, nSize, tree). nSize)") auto

declare merkle_row.simps [simp del] merkle_rows.simps [simp del]

definition merkle_node :: "sha256 \<Rightarrow> base_uint node_hash" where
  "merkle_node sha a b = Hash2 sha (u_bytes a) (u_bytes b)"

text \<open>BuildMerkleTree returns the root and leaves the tree in the block.\<close>

definition BuildMerkleTree :: "sha256 \<Rightarrow> CBlock \<Rightarrow> base_uint \<times> CBlock" where
  "BuildMerkleTree sha b =
     (let tree = merkle_rows (merkle_node sha) 0 (length (vtx b)) (map (Tx_GetHash sha) (vtx b))
      in (if tree = [] then u_of_uint64 8 0 else last tree, b\<lparr>vMerkleTree := tree\<rparr>))"

function merkle_branch_loop :: "'h list \<Rightarrow> nat \<Rightarrow> nat \<Rightarrow> nat \<Rightarrow> 'h list" where
  "merkle_branch_loop tree j nSize nIndex =
     (if nSize > 1
      then let i = min (nIndex XOR 1) (nSize - 1)
           in (tree ! (j + i)) # merkle_branch_loop tree (j + nSize) ((nSize + 1) div 2) (nIndex div 2)
      else [])"
  by pat_completeness auto
termination by (relation "measure (\<lambda>(tree, j, nSize, nIndex). nSize)") auto

declare merkle_branch_loop.simps [simp del]

definition GetMerkleBranch :: "sha256 \<Rightarrow> CBlock \<Rightarrow> nat \<Rightarrow> base_uint list \<times> CBlock" where
  "GetMerkleBranch sha b nIndex =
     (let b = (if vMerkleTree b = [] then snd (BuildMerkleTree sha b) else b)
      in (merkle_branch_loop (vMerkleTree b) 0 (length (vtx b)) nIndex, b))"

fun merkle_check_loop :: "'h node_hash \<Rightarrow> 'h \<Rightarrow> 'h list \<Rightarrow> int \<Rightarrow> 'h" where
  "merkle_check_loop H h [] nIndex = h"
| "merkle_check_loop H h (otherside # branch) nIndex =
     merkle_check_loop H (if odd nIndex then H otherside h else H h otherside) branch (nIndex div 2)"

definition CheckMerkleBranch :: "sha256 \<Rightarrow> base_uint \<Rightarrow> base_uint list \<Rightarrow> int \<Rightarrow> base_uint" where
  "CheckMerkleBranch sha hash vMerkleBranch nIndex =
     (if nIndex = - 1 then u_of_uint64 8 0 else merkle_check_loop (merkle_node sha) hash vMerkleBranch nIndex)"

subsection \<open>The rows of the tree\<close>

text \<open>The reference: a row of nodes, the row above it, and the rows up to the root.\<close>

definition next_row :: "'h node_hash \<Rightarrow> 'h list \<Rightarrow> 'h list" where
  "next_row H L = map (\<lambda>k. H (L ! (2 * k)) (L ! min (2 * k + 1) (length L - 1))) [0..<(length L + 1) div 2]"

function rows :: "'h node_hash \<Rightarrow> 'h list \<Rightarrow> 'h list" where
  "rows H L = (if length L > 1 then L @ rows H (next_row H L) else L)"
  by pat_completeness auto
termination by (relation "measure (\<lambda>(H, L). length L)") (auto simp: next_row_def)

declare rows.simps [simp del]

lemma length_next_row [simp]: "length (next_row H L) = (length L + 1) div 2"
  by (simp add: next_row_def)

lemma merkle_row_step:
  assumes "k \<le> (length L + 1) div 2"
  shows "merkle_row H (length pre) (length L) (2 * k) (pre @ L @ take k (next_row H L)) = pre @ L @ next_row H L"
  using assms
proof (induction "(length L + 1) div 2 - k" arbitrary: k)
  case 0
  then have "\<not> 2 * k < length L" by arith
  then show ?case using 0 by (subst merkle_row.simps) simp
next
  case (Suc d)
  then have k: "k < (length L + 1) div 2" "2 * k < length L" "min (2 * k + 1) (length L - 1) < length L" by arith+
  let ?t = "pre @ L @ take k (next_row H L)"
  have 1: "?t ! (length pre + 2 * k) = L ! (2 * k)" using k by (simp add: nth_append)
  have 2: "?t ! (length pre + min (2 * k + 1) (length L - 1)) = L ! min (2 * k + 1) (length L - 1)"
    using k by (simp add: nth_append)
  have "take (Suc k) (next_row H L) = take k (next_row H L) @ [H (L ! (2 * k)) (L ! min (2 * k + 1) (length L - 1))]"
    using k by (simp add: take_Suc_conv_app_nth) (simp add: next_row_def)
  then have "merkle_row H (length pre) (length L) (2 * k) ?t =
      merkle_row H (length pre) (length L) (2 * Suc k) (pre @ L @ take (Suc k) (next_row H L))"
    using k 1 2 by (subst merkle_row.simps) (simp add: Let_def)
  also have "\<dots> = pre @ L @ next_row H L" using Suc by (intro Suc.hyps) auto
  finally show ?case .
qed

lemma merkle_rows_rows: "merkle_rows H (length pre) (length L) (pre @ L) = pre @ rows H L"
proof (induction "length L" arbitrary: pre L rule: less_induct)
  case less
  show ?case
  proof (cases "length L > 1")
    case True
    have r: "merkle_row H (length pre) (length L) 0 (pre @ L) = (pre @ L) @ next_row H L"
      using merkle_row_step [of 0 L H pre] by simp
    have "length (next_row H L) < length L" using True by simp
    from less [OF this, of "pre @ L"] True show ?thesis
      by (subst merkle_rows.simps, subst rows.simps) (simp add: r)
  next
    case False
    then show ?thesis by (subst merkle_rows.simps, subst rows.simps) simp
  qed
qed

lemma rows_Nil_iff: "rows H L = [] \<longleftrightarrow> L = []"
  by (subst rows.simps) auto

lemma xor_1_nat: "n XOR 1 = (if even n then n + 1 else n - 1)" for n :: nat
  by (auto simp: xor_nat_unfold elim!: evenE oddE)

lemmas xor_1_Suc = xor_1_nat [unfolded One_nat_def]

text \<open>Checking the branch of a node of the bottom row climbs the rows to the root.\<close>

lemma branch_climbs:
  assumes "i < length L" "tree = pre @ rows H L"
  shows "merkle_check_loop H (L ! i) (merkle_branch_loop tree (length pre) (length L) i) (int i) = last (rows H L)"
  using assms
proof (induction "length L" arbitrary: pre L i rule: less_induct)
  case less
  show ?case
  proof (cases "length L > 1")
    case True
    let ?o = "min (i XOR 1) (length L - 1)"
    let ?N = "next_row H L"
    have rw: "rows H L = L @ rows H ?N" using True by (subst rows.simps) simp
    have ne: "rows H ?N \<noteq> []" using True by (auto simp: rows_Nil_iff next_row_def)
    have "?o < length L" using True by simp
    then have sib: "tree ! (length pre + ?o) = L ! ?o" using less.prems rw by (simp add: nth_append)
    have i2: "i div 2 < length ?N" using less.prems(1) by simp
    have up: "(if odd (int i) then H (L ! ?o) (L ! i) else H (L ! i) (L ! ?o)) = ?N ! (i div 2)"
    proof -
      have "?N ! (i div 2) = H (L ! (2 * (i div 2))) (L ! min (2 * (i div 2) + 1) (length L - 1))"
        using i2 by (simp add: next_row_def)
      moreover have "even i \<Longrightarrow> 2 * (i div 2) = i" "odd i \<Longrightarrow> 2 * (i div 2) = i - 1 \<and> 0 < i" by presburger+
      ultimately show ?thesis using less.prems(1) by (auto simp: xor_1_Suc min_def)
    qed
    have "length ?N < length L" using True by simp
    from less.hyps [OF this i2, of "pre @ L"] less.prems(2) rw
    have "merkle_check_loop H (?N ! (i div 2)) (merkle_branch_loop tree (length pre + length L) ((length L + 1) div 2) (i div 2))
        (int (i div 2)) = last (rows H ?N)"
      by simp
    then show ?thesis using True sib up ne
      by (cases "odd i"; subst merkle_branch_loop.simps) (simp_all add: Let_def rw zdiv_int)
  next
    case False
    then have "length L = 1" using less.prems(1) by simp
    then obtain x where "L = [x]" by (cases L) auto
    then show ?thesis using less.prems(1)
      by (subst merkle_branch_loop.simps) (simp add: rows.simps)
  qed
qed

subsection \<open>Round trip of blocks\<close>

definition wf_block :: "CBlock \<Rightarrow> bool" where
  "wf_block b \<longleftrightarrow> length (hashPrevBlock b) = 8 \<and> length (hashMerkleRoot b) = 8 \<and>
     list_all wf_tx (vtx b) \<and> length (vtx b) \<le> unat MAX_SIZE \<and> length (vchBlockSig b) \<le> unat MAX_SIZE \<and>
     length (msha3 b) \<le> unat MAX_SIZE \<and> length (b_message b) \<le> unat MAX_SIZE"

text \<open>What a reader of the written transaction obtains (see \<open>reads_CTransaction\<close>).\<close>

definition tx_on_wire :: "CTransaction \<Rightarrow> CTransaction" where
  "tx_on_wire tx = tx\<lparr>tx_nVersionCompat := 1, tx_nDoS := 0,
     tx_message := if 2 \<le>s tx_nVersion tx then tx_message tx else []\<rparr>"

context istream begin

lemma reads_uint256: "length h = 8 \<Longrightarrow> reads ok rest (unser_uint256 rd) (ser_uint256 h) h"
  using reads_map [OF reads_rd [of "u_bytes h"], of u_of_bytes]
  by (simp add: unser_uint256_def [abs_def] ser_uint256_def u_of_bytes_bytes)

end

lemma BuildMerkleTree_rows:
  "vMerkleTree (snd (BuildMerkleTree sha b)) = rows (merkle_node sha) (map (Tx_GetHash sha) (vtx b))"
  "vtx b \<noteq> [] \<Longrightarrow> fst (BuildMerkleTree sha b) = last (rows (merkle_node sha) (map (Tx_GetHash sha) (vtx b)))"
  using merkle_rows_rows [of "merkle_node sha" "[]" "map (Tx_GetHash sha) (vtx b)"]
  by (simp_all add: BuildMerkleTree_def Let_def rows_Nil_iff)

lemma GetMerkleBranch_fresh:
  assumes "vMerkleTree b = [] \<or> vMerkleTree b = vMerkleTree (snd (BuildMerkleTree sha b))" "vtx b \<noteq> []"
  shows "fst (GetMerkleBranch sha b i) =
    merkle_branch_loop (rows (merkle_node sha) (map (Tx_GetHash sha) (vtx b))) 0 (length (vtx b)) i"
  using assms BuildMerkleTree_rows(1) [of sha b]
  by (auto simp: GetMerkleBranch_def Let_def BuildMerkleTree_def)

lemma ser_vector_cong: "(\<And>x. x \<in> set v \<Longrightarrow> f x = g x) \<Longrightarrow> ser_vector f v = ser_vector g v"
  by (simp add: ser_vector_def cong: map_cong)

context istream begin

lemma reads_txs:
  assumes "list_all wf_tx txs" "length txs \<le> unat MAX_SIZE" "nType AND SER_GETHASH = 0"
  shows "reads ok rest (unser_vector rd (unser_CTransaction rd nType v (Tx_SetNull now)) 112)
    (ser_vector (ser_CTransaction nType v') txs) (map tx_on_wire txs)"
proof (rule reads_vector_map [OF assms(2)])
  fix tx assume "tx \<in> set txs"
  then have "wf_tx tx" using assms(1) by (simp add: list_all_iff)
  from reads_CTransaction [OF this assms(3), of v "Tx_SetNull now" v']
  show "reads ok rest (unser_CTransaction rd nType v (Tx_SetNull now)) (ser_CTransaction nType v' tx) (tx_on_wire tx)"
    by (simp add: tx_on_wire_def Tx_SetNull_def)
qed simp

lemma reads_CBlock:
  assumes wf: "wf_block b" and g: "nType AND (SER_GETHASH OR SER_BLOCKHEADERONLY) = 0"
  shows "reads ok rest (unser_CBlock rd nType now b0) (ser_CBlock nType b)
    (b\<lparr>vtx := map tx_on_wire (vtx b), vMerkleTree := vMerkleTree b0, b_nDoS := b_nDoS b0,
       msha3 := if 5 \<le>s b_nVersion b then msha3 b else msha3 b0,
       b_message := if 5 \<le>s b_nVersion b then b_message b else b_message b0,
       nBitsMSHA := if 5 \<le>s b_nVersion b then nBitsMSHA b else nBitsMSHA b0\<rparr>)"
proof (rule readsI)
  fix s r assume s: "ok s" "rest s = ser_CBlock nType b @ r"
  have g': "nType AND SER_GETHASH = 0"
    using g by (metis and.left_commute and.right_idem and_zero_eq bit.conj_disj_distrib or_eq_0_iff)
  define m where "m = (if 5 \<le>s b_nVersion b then WRITEDATA (nBitsMSHA b) @ ser_string (msha3 b) @ ser_string (b_message b) else [])"
  have sz: "length (vtx b) \<le> unat MAX_SIZE" "list_all wf_tx (vtx b)" "length (vchBlockSig b) \<le> unat MAX_SIZE"
    "length (msha3 b) \<le> unat MAX_SIZE" "length (b_message b) \<le> unat MAX_SIZE"
    "length (hashPrevBlock b) = 8" "length (hashMerkleRoot b) = 8"
    using wf by (simp_all add: wf_block_def)
  let ?ver = "b_nVersion b"
  have "rest s = WRITEDATA ?ver @ ser_uint256 (hashPrevBlock b) @ ser_uint256 (hashMerkleRoot b) @
      WRITEDATA (b_nTime b) @ WRITEDATA (b_nBits b) @ WRITEDATA (b_nNonce b) @
      ser_vector (ser_CTransaction nType ?ver) (vtx b) @ ser_vch (vchBlockSig b) @ m @ r"
    using s(2) g by (simp add: ser_CBlock_def ser_CBlock_header_def m_def Let_def)
  then obtain s1 where 1: "READDATA rd s = Some (?ver, s1)" "ok s1" "rest s1 = ser_uint256 (hashPrevBlock b) @
      ser_uint256 (hashMerkleRoot b) @ WRITEDATA (b_nTime b) @ WRITEDATA (b_nBits b) @ WRITEDATA (b_nNonce b) @
      ser_vector (ser_CTransaction nType ?ver) (vtx b) @ ser_vch (vchBlockSig b) @ m @ r"
    by (rule readsE [OF reads_u32 s(1)])
  obtain s2 where 2: "unser_uint256 rd s1 = Some (hashPrevBlock b, s2)" "ok s2" "rest s2 =
      ser_uint256 (hashMerkleRoot b) @ WRITEDATA (b_nTime b) @ WRITEDATA (b_nBits b) @ WRITEDATA (b_nNonce b) @
      ser_vector (ser_CTransaction nType ?ver) (vtx b) @ ser_vch (vchBlockSig b) @ m @ r"
    by (rule readsE [OF reads_uint256 [OF sz(6)] 1(2,3)])
  obtain s3 where 3: "unser_uint256 rd s2 = Some (hashMerkleRoot b, s3)" "ok s3" "rest s3 =
      WRITEDATA (b_nTime b) @ WRITEDATA (b_nBits b) @ WRITEDATA (b_nNonce b) @
      ser_vector (ser_CTransaction nType ?ver) (vtx b) @ ser_vch (vchBlockSig b) @ m @ r"
    by (rule readsE [OF reads_uint256 [OF sz(7)] 2(2,3)])
  obtain s4 where 4: "READDATA rd s3 = Some (b_nTime b, s4)" "ok s4" "rest s4 =
      WRITEDATA (b_nBits b) @ WRITEDATA (b_nNonce b) @
      ser_vector (ser_CTransaction nType ?ver) (vtx b) @ ser_vch (vchBlockSig b) @ m @ r"
    by (rule readsE [OF reads_u32 3(2,3)])
  obtain s5 where 5: "READDATA rd s4 = Some (b_nBits b, s5)" "ok s5" "rest s5 = WRITEDATA (b_nNonce b) @
      ser_vector (ser_CTransaction nType ?ver) (vtx b) @ ser_vch (vchBlockSig b) @ m @ r"
    by (rule readsE [OF reads_u32 4(2,3)])
  obtain s6 where 6: "READDATA rd s5 = Some (b_nNonce b, s6)" "ok s6" "rest s6 =
      ser_vector (ser_CTransaction nType ?ver) (vtx b) @ ser_vch (vchBlockSig b) @ m @ r"
    by (rule readsE [OF reads_u32 5(2,3)])
  obtain s7 where 7: "unser_vector rd (unser_CTransaction rd nType ?ver (Tx_SetNull now)) 112 s6 = Some (map tx_on_wire (vtx b), s7)"
      "ok s7" "rest s7 = ser_vch (vchBlockSig b) @ m @ r"
    by (rule readsE [OF reads_txs [OF sz(2,1) g'] 6(2,3)])
  obtain s8 where 8: "unser_vch rd s7 = Some (vchBlockSig b, s8)" "ok s8" "rest s8 = m @ r"
    by (rule readsE [OF reads_vch [OF sz(3)] 7(2,3)])
  note steps = 1 2 3 4 5 6 7 8
  show "\<exists>s'. unser_CBlock rd nType now b0 s = Some (b\<lparr>vtx := map tx_on_wire (vtx b), vMerkleTree := vMerkleTree b0,
      b_nDoS := b_nDoS b0, msha3 := if 5 \<le>s ?ver then msha3 b else msha3 b0,
      b_message := if 5 \<le>s ?ver then b_message b else b_message b0,
      nBitsMSHA := if 5 \<le>s ?ver then nBitsMSHA b else nBitsMSHA b0\<rparr>, s') \<and> ok s' \<and> rest s' = r"
  proof (cases "5 \<le>s ?ver")
    case True
    then have m8: "rest s8 = WRITEDATA (nBitsMSHA b) @ ser_string (msha3 b) @ ser_string (b_message b) @ r"
      using 8(3) by (simp add: m_def)
    obtain s9 where 9: "READDATA rd s8 = Some (nBitsMSHA b, s9)" "ok s9"
        "rest s9 = ser_string (msha3 b) @ ser_string (b_message b) @ r"
      by (rule readsE [OF reads_u32 8(2) m8])
    obtain t where t: "unser_string rd s9 = Some (msha3 b, t)" "ok t" "rest t = ser_string (b_message b) @ r"
      by (rule readsE [OF reads_string [OF sz(4)] 9(2,3)])
    obtain u where u: "unser_string rd t = Some (b_message b, u)" "ok u" "rest u = r"
      by (rule readsE [OF reads_string [OF sz(5)] t(2,3)])
    show ?thesis using steps 9 t u g True by (simp add: unser_CBlock_def Let_def)
  next
    case False
    then show ?thesis using steps g by (simp add: unser_CBlock_def Let_def m_def)
  qed
qed

end

subsection \<open>Properties\<close>

text \<open>A block is read back from a stream as it was written, transactions, signature and, from
  version 5 on, the extended fields included; the memory-only fields come from the object read into.\<close>

theorem block_roundtrip:
  assumes "wf_block b" "nType AND (SER_GETHASH OR SER_BLOCKHEADERONLY) = 0"
    and "ds_inv s" "ds_rest s = ser_CBlock nType b @ r"
  shows "\<exists>s'. unser_CBlock ds_read nType now b0 s =
      Some (b\<lparr>vtx := map tx_on_wire (vtx b), vMerkleTree := vMerkleTree b0, b_nDoS := b_nDoS b0,
              msha3 := if 5 \<le>s b_nVersion b then msha3 b else msha3 b0,
              b_message := if 5 \<le>s b_nVersion b then b_message b else b_message b0,
              nBitsMSHA := if 5 \<le>s b_nVersion b then nBitsMSHA b else nBitsMSHA b0\<rparr>, s') \<and>
    ds_rest s' = r"
  by (rule readsE [OF ds.reads_CBlock [OF assms(1,2)] assms(3,4)]) (intro exI conjI)

theorem block_roundtrip_witness:
  "\<exists>s'. unser_CBlock ds_read SER_DISK 0 Block_SetNull (ds_Init (ser_CBlock SER_DISK (Block_SetNull\<lparr>b_nTime := 5\<rparr>)) 0 0)
     = Some (Block_SetNull\<lparr>b_nTime := 5\<rparr>, s') \<and> ds_rest s' = []"
proof -
  let ?b = "Block_SetNull\<lparr>b_nTime := 5\<rparr>"
  have wf: "wf_block ?b" by (simp add: wf_block_def Block_SetNull_def u_of_uint64_def)
  have ty: "SER_DISK AND (SER_GETHASH OR SER_BLOCKHEADERONLY) = 0"
    by (simp add: SER_DISK_def SER_GETHASH_def SER_BLOCKHEADERONLY_def)
  have "length (ser_CBlock SER_DISK ?b) < 2 ^ 31"
    using ty by (simp add: ser_CBlock_def Block_SetNull_def ser_CBlock_header_def ser_uint256_def u_of_uint64_def
        ser_vector_def ser_vch_def length_WriteCompactSize GetSizeOfCompactSize_def word_sle_eq)
  from ds_inv_Init [OF this, of 0 0] show ?thesis
    using block_roundtrip [OF wf ty, of "ds_Init (ser_CBlock SER_DISK ?b) 0 0" "[]" 0 Block_SetNull]
    by (simp add: Block_SetNull_def word_sle_eq)
qed

text \<open>For every transaction of a block, checking the Merkle branch GetMerkleBranch returns for its
  position against the transaction's hash yields the root BuildMerkleTree computes.\<close>

theorem merkle_branch_verifies:
  assumes "i < length (vtx b)"
    and "vMerkleTree b = [] \<or> vMerkleTree b = vMerkleTree (snd (BuildMerkleTree sha b))"
  shows "CheckMerkleBranch sha (Tx_GetHash sha (vtx b ! i)) (fst (GetMerkleBranch sha b i)) (int i) =
    fst (BuildMerkleTree sha b)"
proof -
  let ?L = "map (Tx_GetHash sha) (vtx b)"
  have ne: "vtx b \<noteq> []" using assms(1) by auto
  show ?thesis
    using branch_climbs [of i ?L "rows (merkle_node sha) ?L" "[]" "merkle_node sha"] assms(1)
    by (simp add: CheckMerkleBranch_def GetMerkleBranch_fresh [OF assms(2) ne] BuildMerkleTree_rows(2) [OF ne])
qed

theorem merkle_branch_verifies_witness:
  "CheckMerkleBranch (\<lambda>bs. take 32 (bs @ replicate 32 0)) (Tx_GetHash (\<lambda>bs. take 32 (bs @ replicate 32 0)) (Tx_SetNull 3))
     (fst (GetMerkleBranch (\<lambda>bs. take 32 (bs @ replicate 32 0)) (Block_SetNull\<lparr>vtx := [Tx_SetNull 1, Tx_SetNull 2, Tx_SetNull 3]\<rparr>) 2)) 2 =
   fst (BuildMerkleTree (\<lambda>bs. take 32 (bs @ replicate 32 0)) (Block_SetNull\<lparr>vtx := [Tx_SetNull 1, Tx_SetNull 2, Tx_SetNull 3]\<rparr>))"
  using merkle_branch_verifies [of 2 "Block_SetNull\<lparr>vtx := [Tx_SetNull 1, Tx_SetNull 2, Tx_SetNull 3]\<rparr>"
      "\<lambda>bs. take 32 (bs @ replicate 32 0)"]
  by (simp add: Block_SetNull_def)

end
