(* ===== verification/BlockIndex.thy ===== *)
theory BlockIndex
  imports Block
begin

text \<open>
  The block tree of src/main.h and src/main.cpp: CBlockIndex and CDiskBlockIndex, the walks along
  pprev and pnext (median time, super-majority, last block of a kind, block locators, lookup by
  height) and the depth of a CMerkleTx. A CBlockIndex pointer is a number; the heap maps it to the
  object, and a null pointer is None. Heights are the integers of their int fields, block times
  the non-negative integers GetBlockTime returns, and bnChainTrust is the integer its CBigNum
  denotes. A loop along a pointer chain is a partial function, whose termination on well-formed
  heaps is proved; None is also a null dereference.
\<close>

record CBlockIndex =
  phashBlock :: base_uint
  pprev :: "nat option"
  pnext :: "nat option"
  bi_nFile :: u32
  bi_nBlockPos :: u32
  bnChainTrust :: int
  nHeight :: int
  nMint :: u64
  nMoneySupply :: u64
  nFlags :: u32
  nStakeModifier :: u64
  nStakeModifierChecksum :: u32
  prevoutStake :: COutPoint
  nStakeTime :: u32
  hashProofOfStake :: base_uint
  bi_nVersion :: u32
  bi_hashMerkleRoot :: base_uint
  bi_nTime :: u32
  bi_nBits :: u32
  bi_nNonce :: u32

type_synonym bheap = "nat \<Rightarrow> CBlockIndex"

definition BLOCK_PROOF_OF_STAKE :: u32 where "BLOCK_PROOF_OF_STAKE = 1"
definition BLOCK_STAKE_ENTROPY :: u32 where "BLOCK_STAKE_ENTROPY = 2"
definition BLOCK_STAKE_MODIFIER :: u32 where "BLOCK_STAKE_MODIFIER = 4"

definition BlockIndex_default :: CBlockIndex where
  "BlockIndex_default =
     \<lparr> phashBlock = [], pprev = None, pnext = None, bi_nFile = 0, bi_nBlockPos = 0, bnChainTrust = 0,
       nHeight = 0, nMint = 0, nMoneySupply = 0, nFlags = 0, nStakeModifier = 0, nStakeModifierChecksum = 0,
       prevoutStake = OutPoint_null, nStakeTime = 0, hashProofOfStake = u_of_uint64 8 0, bi_nVersion = 0,
       bi_hashMerkleRoot = u_of_uint64 8 0, bi_nTime = 0, bi_nBits = 0, bi_nNonce = 0 \<rparr>"

definition SetProofOfStake :: "CBlockIndex \<Rightarrow> CBlockIndex" where
  "SetProofOfStake p = p\<lparr>nFlags := nFlags p OR BLOCK_PROOF_OF_STAKE\<rparr>"

definition BlockIndex_of_block :: "u32 \<Rightarrow> u32 \<Rightarrow> CBlock \<Rightarrow> CBlockIndex" where
  "BlockIndex_of_block nFileIn nBlockPosIn block =
     (let p = BlockIndex_default\<lparr>bi_nFile := nFileIn, bi_nBlockPos := nBlockPosIn\<rparr>;
          p = (if Block_IsProofOfStake block
               then (SetProofOfStake p)\<lparr>prevoutStake := prevout (vin (vtx block ! 1) ! 0), nStakeTime := tx_nTime (vtx block ! 1)\<rparr>
               else p\<lparr>prevoutStake := OutPoint_null, nStakeTime := 0\<rparr>)
      in p\<lparr>bi_nVersion := b_nVersion block, bi_hashMerkleRoot := hashMerkleRoot block, bi_nTime := b_nTime block,
           bi_nBits := b_nBits block, bi_nNonce := b_nNonce block\<rparr>)"

definition GetBlockHeader :: "bheap \<Rightarrow> CBlockIndex \<Rightarrow> CBlock" where
  "GetBlockHeader h p =
     (let block = Block_SetNull\<lparr>b_nVersion := bi_nVersion p\<rparr>;
          block = (case pprev p of None \<Rightarrow> block | Some q \<Rightarrow> block\<lparr>hashPrevBlock := phashBlock (h q)\<rparr>)
      in block\<lparr>hashMerkleRoot := bi_hashMerkleRoot p, b_nTime := bi_nTime p, b_nBits := bi_nBits p, b_nNonce := bi_nNonce p\<rparr>)"

definition GetBlockTime :: "CBlockIndex \<Rightarrow> int" where "GetBlockTime p = uint (bi_nTime p)"

definition IsInMainChain :: "bheap \<Rightarrow> nat option \<Rightarrow> nat \<Rightarrow> bool" where
  "IsInMainChain h pindexBest p \<longleftrightarrow> pnext (h p) \<noteq> None \<or> pindexBest = Some p"

definition IsProofOfStake :: "CBlockIndex \<Rightarrow> bool" where
  "IsProofOfStake p \<longleftrightarrow> nFlags p AND BLOCK_PROOF_OF_STAKE \<noteq> 0"

definition IsProofOfWork :: "CBlockIndex \<Rightarrow> bool" where "IsProofOfWork p \<longleftrightarrow> \<not> nFlags p AND BLOCK_PROOF_OF_STAKE \<noteq> 0"

definition StakeEntropyBit :: "CBlockIndex \<Rightarrow> u32" where \<comment> \<open>CBlockIndex::GetStakeEntropyBit\<close>
  "StakeEntropyBit p = drop_bit 1 (nFlags p AND BLOCK_STAKE_ENTROPY)"

definition SetStakeEntropyBit :: "u32 \<Rightarrow> CBlockIndex \<Rightarrow> bool \<times> CBlockIndex" where
  "SetStakeEntropyBit nEntropyBit p =
     (if nEntropyBit > 1 then (False, p)
      else (True, p\<lparr>nFlags := nFlags p OR (if nEntropyBit \<noteq> 0 then BLOCK_STAKE_ENTROPY else 0)\<rparr>))"

definition GeneratedStakeModifier :: "CBlockIndex \<Rightarrow> bool" where
  "GeneratedStakeModifier p \<longleftrightarrow> nFlags p AND BLOCK_STAKE_MODIFIER \<noteq> 0"

definition SetStakeModifier :: "u64 \<Rightarrow> bool \<Rightarrow> CBlockIndex \<Rightarrow> CBlockIndex" where
  "SetStakeModifier nModifier fGenerated p =
     (let p = p\<lparr>nStakeModifier := nModifier\<rparr>
      in if fGenerated then p\<lparr>nFlags := nFlags p OR BLOCK_STAKE_MODIFIER\<rparr> else p)"

subsection \<open>Median time and super-majority\<close>

text \<open>The times collected by at most n steps back, oldest first, as the loop fills the array.\<close>

primrec collect_times :: "bheap \<Rightarrow> nat \<Rightarrow> nat option \<Rightarrow> int list \<Rightarrow> int list" where
  "collect_times h 0 pindex acc = acc"
| "collect_times h (Suc n) pindex acc =
     (case pindex of None \<Rightarrow> acc | Some p \<Rightarrow> collect_times h n (pprev (h p)) (GetBlockTime (h p) # acc))"

definition nMedianTimeSpan :: nat where "nMedianTimeSpan = 11"

definition GetMedianTimePast :: "bheap \<Rightarrow> nat \<Rightarrow> int" where
  "GetMedianTimePast h p =
     (let pmedian = sort (collect_times h nMedianTimeSpan (Some p) []) in pmedian ! (length pmedian div 2))"

fun GetMedianTime_loop :: "bheap \<Rightarrow> nat \<Rightarrow> nat \<Rightarrow> nat \<Rightarrow> int" where
  "GetMedianTime_loop h this 0 p = GetMedianTimePast h p"
| "GetMedianTime_loop h this (Suc n) p =
     (case pnext (h p) of None \<Rightarrow> GetBlockTime (h this) | Some q \<Rightarrow> GetMedianTime_loop h this n q)"

definition GetMedianTime :: "bheap \<Rightarrow> nat \<Rightarrow> int" where
  "GetMedianTime h p = GetMedianTime_loop h p (nMedianTimeSpan div 2) p"

text \<open>IsSuperMajority: i counts the blocks left to check.\<close>

fun IsSuperMajority_loop :: "bheap \<Rightarrow> u32 \<Rightarrow> nat \<Rightarrow> nat \<Rightarrow> nat option \<Rightarrow> nat \<Rightarrow> nat" where
  "IsSuperMajority_loop h minVersion nRequired 0 pstart nFound = nFound"
| "IsSuperMajority_loop h minVersion nRequired (Suc i) pstart nFound =
     (if nFound < nRequired
      then case pstart of None \<Rightarrow> nFound
         | Some p \<Rightarrow> IsSuperMajority_loop h minVersion nRequired i (pprev (h p))
                      (if minVersion \<le>s bi_nVersion (h p) then nFound + 1 else nFound)
      else nFound)"

definition IsSuperMajority :: "bheap \<Rightarrow> u32 \<Rightarrow> nat option \<Rightarrow> nat \<Rightarrow> nat \<Rightarrow> bool" where
  "IsSuperMajority h minVersion pstart nRequired nToCheck \<longleftrightarrow>
     IsSuperMajority_loop h minVersion nRequired nToCheck pstart 0 \<ge> nRequired"

subsection \<open>Walks of unbounded length\<close>

partial_function (option) GetLastBlockIndex :: "bheap \<Rightarrow> nat \<Rightarrow> bool \<Rightarrow> nat option" where
  "GetLastBlockIndex h p fProofOfStake =
     (case pprev (h p) of None \<Rightarrow> Some p
      | Some q \<Rightarrow> if IsProofOfStake (h p) \<noteq> fProofOfStake then GetLastBlockIndex h q fProofOfStake else Some p)"

partial_function (option) walk_back :: "bheap \<Rightarrow> int \<Rightarrow> nat \<Rightarrow> nat option" where
  "walk_back h height p =
     (if nHeight (h p) > height
      then (case pprev (h p) of None \<Rightarrow> None | Some q \<Rightarrow> walk_back h height q) else Some p)"

partial_function (option) walk_forward :: "bheap \<Rightarrow> int \<Rightarrow> nat \<Rightarrow> nat option" where
  "walk_forward h height p =
     (if nHeight (h p) < height
      then (case pnext (h p) of None \<Rightarrow> None | Some q \<Rightarrow> walk_forward h height q) else Some p)"

text \<open>FindBlockByHeight, with the static cursor pblockindexFBBHLast passed in and out.\<close>

definition FindBlockByHeight :: "bheap \<Rightarrow> nat \<Rightarrow> nat \<Rightarrow> int \<Rightarrow> nat option \<Rightarrow> int \<Rightarrow> (nat \<times> nat option) option" where
  "FindBlockByHeight h pindexGenesisBlock pindexBest nBestHeight cursor height =
     (let half = (if nBestHeight < 0 then - (- nBestHeight div 2) else nBestHeight div 2);
          p = (if height < half then pindexGenesisBlock else pindexBest);
          p = (case cursor of None \<Rightarrow> p
               | Some c \<Rightarrow> if \<bar>height - nHeight (h p)\<bar> > \<bar>height - nHeight (h c)\<bar> then c else p)
      in do { p \<leftarrow> walk_back h height p; p \<leftarrow> walk_forward h height p; Some (p, Some p) })"

subsection \<open>Block locators\<close>

primrec step_back :: "bheap \<Rightarrow> nat \<Rightarrow> nat option \<Rightarrow> nat option" where
  "step_back h 0 pindex = pindex"
| "step_back h (Suc i) pindex = (case pindex of None \<Rightarrow> None | Some p \<Rightarrow> step_back h i (pprev (h p)))"

partial_function (option) locator_loop :: "bheap \<Rightarrow> nat \<Rightarrow> base_uint list \<Rightarrow> nat option \<Rightarrow> base_uint list option" where
  "locator_loop h nStep vHave pindex =
     (case pindex of None \<Rightarrow> Some vHave
      | Some p \<Rightarrow>
          let vHave' = vHave @ [phashBlock (h p)]
          in locator_loop h (if length vHave' > 10 then nStep * 2 else nStep) vHave' (step_back h nStep pindex))"

definition Locator_Set :: "bheap \<Rightarrow> base_uint \<Rightarrow> nat option \<Rightarrow> base_uint list option" where
  "Locator_Set h hashGenesis pindex = do { v \<leftarrow> locator_loop h 1 [] pindex; Some (v @ [hashGenesis]) }"

fun GetDistanceBack_loop :: "bheap \<Rightarrow> nat option \<Rightarrow> (base_uint \<Rightarrow> nat option) \<Rightarrow> nat \<Rightarrow> nat \<Rightarrow> base_uint list \<Rightarrow> nat" where
  "GetDistanceBack_loop h best mapBlockIndex nDistance nStep [] = nDistance"
| "GetDistanceBack_loop h best mapBlockIndex nDistance nStep (hash # vHave) =
     (case mapBlockIndex hash of
        Some p \<Rightarrow> if IsInMainChain h best p then nDistance
                  else let d = nDistance + nStep
                       in GetDistanceBack_loop h best mapBlockIndex d (if d > 10 then nStep * 2 else nStep) vHave
      | None \<Rightarrow> let d = nDistance + nStep
                in GetDistanceBack_loop h best mapBlockIndex d (if d > 10 then nStep * 2 else nStep) vHave)"

definition GetDistanceBack :: "bheap \<Rightarrow> nat option \<Rightarrow> (base_uint \<Rightarrow> nat option) \<Rightarrow> base_uint list \<Rightarrow> nat" where
  "GetDistanceBack h best mapBlockIndex vHave = GetDistanceBack_loop h best mapBlockIndex 0 1 vHave"

fun Locator_GetBlockIndex ::
  "bheap \<Rightarrow> nat option \<Rightarrow> (base_uint \<Rightarrow> nat option) \<Rightarrow> nat option \<Rightarrow> base_uint list \<Rightarrow> nat option" where
  "Locator_GetBlockIndex h best mapBlockIndex genesis [] = genesis"
| "Locator_GetBlockIndex h best mapBlockIndex genesis (hash # vHave) =
     (case mapBlockIndex hash of
        Some p \<Rightarrow> if IsInMainChain h best p then Some p else Locator_GetBlockIndex h best mapBlockIndex genesis vHave
      | None \<Rightarrow> Locator_GetBlockIndex h best mapBlockIndex genesis vHave)"

fun Locator_GetBlockHash ::
  "bheap \<Rightarrow> nat option \<Rightarrow> (base_uint \<Rightarrow> nat option) \<Rightarrow> base_uint \<Rightarrow> base_uint list \<Rightarrow> base_uint" where
  "Locator_GetBlockHash h best mapBlockIndex hashGenesis [] = hashGenesis"
| "Locator_GetBlockHash h best mapBlockIndex hashGenesis (hash # vHave) =
     (case mapBlockIndex hash of
        Some p \<Rightarrow> if IsInMainChain h best p then hash else Locator_GetBlockHash h best mapBlockIndex hashGenesis vHave
      | None \<Rightarrow> Locator_GetBlockHash h best mapBlockIndex hashGenesis vHave)"

definition Locator_GetHeight :: "bheap \<Rightarrow> nat option \<Rightarrow> (base_uint \<Rightarrow> nat option) \<Rightarrow> nat option \<Rightarrow> base_uint list \<Rightarrow> int" where
  "Locator_GetHeight h best mapBlockIndex genesis vHave =
     (case Locator_GetBlockIndex h best mapBlockIndex genesis vHave of None \<Rightarrow> 0 | Some p \<Rightarrow> nHeight (h p))"

subsection \<open>Block index records on disk\<close>

record CDiskBlockIndex =
  di_index :: CBlockIndex
  hashPrev :: base_uint
  hashNext :: base_uint

definition DiskBlockIndex_of :: "bheap \<Rightarrow> nat \<Rightarrow> CDiskBlockIndex" where
  "DiskBlockIndex_of h p =
     \<lparr> di_index = h p,
       hashPrev = (case pprev (h p) of Some q \<Rightarrow> phashBlock (h q) | None \<Rightarrow> u_of_uint64 8 0),
       hashNext = (case pnext (h p) of Some q \<Rightarrow> phashBlock (h q) | None \<Rightarrow> u_of_uint64 8 0) \<rparr>"

definition ser_CDiskBlockIndex :: "u32 \<Rightarrow> u32 \<Rightarrow> CDiskBlockIndex \<Rightarrow> byte list" where
  "ser_CDiskBlockIndex nType nVersion d =
     (let p = di_index d
      in (if nType AND SER_GETHASH = 0 then WRITEDATA nVersion else []) @
         ser_uint256 (hashNext d) @ WRITEDATA (bi_nFile p) @ WRITEDATA (bi_nBlockPos p) @
         WRITEDATA (word_of_int (nHeight p) :: u32) @ WRITEDATA (nMint p) @ WRITEDATA (nMoneySupply p) @
         WRITEDATA (nFlags p) @ WRITEDATA (nStakeModifier p) @
         (if IsProofOfStake p
          then ser_COutPoint (prevoutStake p) @ WRITEDATA (nStakeTime p) @ ser_uint256 (hashProofOfStake p) else []) @
         WRITEDATA (bi_nVersion p) @ ser_uint256 (hashPrev d) @ ser_uint256 (bi_hashMerkleRoot p) @
         WRITEDATA (bi_nTime p) @ WRITEDATA (bi_nBits p) @ WRITEDATA (bi_nNonce p))"

definition unser_stake_fields :: "'s rd \<Rightarrow> CBlockIndex \<Rightarrow> 's \<Rightarrow> (CBlockIndex \<times> 's) option" where
  "unser_stake_fields rd p s =
     (if IsProofOfStake p
      then do { (out, s) \<leftarrow> unser_COutPoint rd s; (t, s) \<leftarrow> READDATA rd s; (hp, s) \<leftarrow> unser_uint256 rd s;
                Some (p\<lparr>prevoutStake := out, nStakeTime := t, hashProofOfStake := hp\<rparr>, s) }
      else Some (p\<lparr>prevoutStake := OutPoint_null, nStakeTime := 0, hashProofOfStake := u_of_uint64 8 0\<rparr>, s))"

definition unser_CDiskBlockIndex :: "'s rd \<Rightarrow> u32 \<Rightarrow> CDiskBlockIndex \<Rightarrow> 's \<Rightarrow> (CDiskBlockIndex \<times> 's) option" where
  "unser_CDiskBlockIndex rd nType d s =
     do { (v :: u32, s) \<leftarrow> (if nType AND SER_GETHASH = 0 then READDATA rd s else Some (0, s));
          (next, s) \<leftarrow> unser_uint256 rd s;
          (file, s) \<leftarrow> READDATA rd s;
          (pos, s) \<leftarrow> READDATA rd s;
          (height :: u32, s) \<leftarrow> READDATA rd s;
          (mint, s) \<leftarrow> READDATA rd s;
          (supply, s) \<leftarrow> READDATA rd s;
          (flags, s) \<leftarrow> READDATA rd s;
          (mod', s) \<leftarrow> READDATA rd s;
          let p = (di_index d)\<lparr>bi_nFile := file, bi_nBlockPos := pos, nHeight := sint height, nMint := mint,
                      nMoneySupply := supply, nFlags := flags, nStakeModifier := mod'\<rparr>
          in do { (p, s) \<leftarrow> unser_stake_fields rd p s;
                  (ver, s) \<leftarrow> READDATA rd s;
                  (prev, s) \<leftarrow> unser_uint256 rd s;
                  (root, s) \<leftarrow> unser_uint256 rd s;
                  (t, s) \<leftarrow> READDATA rd s;
                  (bits, s) \<leftarrow> READDATA rd s;
                  (nonce, s) \<leftarrow> READDATA rd s;
                  Some (\<lparr> di_index = p\<lparr>bi_nVersion := ver, bi_hashMerkleRoot := root, bi_nTime := t, bi_nBits := bits,
                            bi_nNonce := nonce\<rparr>, hashPrev = prev, hashNext = next \<rparr>, s) } }"

definition DiskBlockIndex_GetBlockHash :: "(byte list \<Rightarrow> base_uint) \<Rightarrow> CDiskBlockIndex \<Rightarrow> base_uint" where
  "DiskBlockIndex_GetBlockHash hash9 d =
     (let p = di_index d
      in Block_GetHash hash9 (Block_SetNull\<lparr>b_nVersion := bi_nVersion p, hashPrevBlock := hashPrev d,
           hashMerkleRoot := bi_hashMerkleRoot p, b_nTime := bi_nTime p, b_nBits := bi_nBits p, b_nNonce := bi_nNonce p\<rparr>))"

subsection \<open>Transactions with a Merkle branch\<close>

record CMerkleTx =
  mt_tx :: CTransaction
  mt_hashBlock :: base_uint
  vMerkleBranch :: "base_uint list"
  mt_nIndex :: int
  fMerkleVerified :: bool

definition MerkleTx_Init :: "CTransaction \<Rightarrow> CMerkleTx" where
  "MerkleTx_Init txIn =
     \<lparr> mt_tx = txIn, mt_hashBlock = u_of_uint64 8 0, vMerkleBranch = [], mt_nIndex = - 1, fMerkleVerified = False \<rparr>"

fun find_tx :: "CTransaction \<Rightarrow> nat \<Rightarrow> CTransaction list \<Rightarrow> nat" where
  "find_tx tx i [] = i"
| "find_tx tx i (t # ts) = (if Tx_eq t tx then i else find_tx tx (i + 1) ts)"

text \<open>
  SetMerkleBranch outside client mode; \<open>disk\<close> is the block the database lookup and the block file
  yield when no block is passed, None if either fails.
\<close>

definition SetMerkleBranch ::
  "sha256 \<Rightarrow> (byte list \<Rightarrow> base_uint) \<Rightarrow> bheap \<Rightarrow> nat option \<Rightarrow> (base_uint \<Rightarrow> nat option) \<Rightarrow> CBlock option \<Rightarrow>
   CBlock option \<Rightarrow> CMerkleTx \<Rightarrow> int \<times> CMerkleTx" where
  "SetMerkleBranch sha hash9 h best mapBlockIndex disk pblock m =
     (case (case pblock of Some b \<Rightarrow> Some b | None \<Rightarrow> disk) of
        None \<Rightarrow> (0, m)
      | Some b \<Rightarrow>
          let m = m\<lparr>mt_hashBlock := Block_GetHash hash9 b\<rparr>;
              i = find_tx (mt_tx m) 0 (vtx b)
          in if i = length (vtx b) then (0, m\<lparr>vMerkleBranch := [], mt_nIndex := - 1\<rparr>)
             else let m = m\<lparr>mt_nIndex := int i, vMerkleBranch := fst (GetMerkleBranch sha b i)\<rparr>
                  in case mapBlockIndex (mt_hashBlock m) of
                       None \<Rightarrow> (0, m)
                     | Some p \<Rightarrow> if \<not> IsInMainChain h best p then (0, m)
                                 else case best of None \<Rightarrow> (0, m) \<comment> \<open>not reached: a null dereference\<close>
                                      | Some q \<Rightarrow> (nHeight (h q) - nHeight (h p) + 1, m))"

text \<open>GetDepthInMainChain also returns pindexRet, when it is set.\<close>

definition MerkleTx_GetDepth ::
  "sha256 \<Rightarrow> bheap \<Rightarrow> nat option \<Rightarrow> (base_uint \<Rightarrow> nat option) \<Rightarrow> CMerkleTx \<Rightarrow> int \<times> nat option \<times> CMerkleTx" where
  "MerkleTx_GetDepth sha h best mapBlockIndex m =
     (if u_eq64 (mt_hashBlock m) 0 \<or> mt_nIndex m = - 1 then (0, None, m)
      else case mapBlockIndex (mt_hashBlock m) of
             None \<Rightarrow> (0, None, m)
           | Some p \<Rightarrow>
               if \<not> IsInMainChain h best p then (0, None, m)
               else if \<not> fMerkleVerified m \<and>
                       \<not> u_eq (CheckMerkleBranch sha (Tx_GetHash sha (mt_tx m)) (vMerkleBranch m) (mt_nIndex m))
                              (bi_hashMerkleRoot (h p))
               then (0, None, m)
               else case best of None \<Rightarrow> (0, None, m) \<comment> \<open>not reached: a null dereference\<close>
                    | Some q \<Rightarrow> (nHeight (h q) - nHeight (h p) + 1, Some p, m\<lparr>fMerkleVerified := True\<rparr>))"

definition nCoinbaseMaturity :: int where "nCoinbaseMaturity = 40"
definition COINBASE_MATURITY_SAFE_GAP :: int where "COINBASE_MATURITY_SAFE_GAP = 20"

definition MerkleTx_GetBlocksToMaturity ::
  "sha256 \<Rightarrow> bheap \<Rightarrow> nat option \<Rightarrow> (base_uint \<Rightarrow> nat option) \<Rightarrow> CMerkleTx \<Rightarrow> int" where
  "MerkleTx_GetBlocksToMaturity sha h best mapBlockIndex m =
     (if \<not> (Tx_IsCoinBase (mt_tx m) \<or> Tx_IsCoinStake (mt_tx m)) then 0
      else max 0 (nCoinbaseMaturity + COINBASE_MATURITY_SAFE_GAP - fst (MerkleTx_GetDepth sha h best mapBlockIndex m)))"

subsection \<open>Well-formed block trees\<close>

definition tree_ok :: "bheap \<Rightarrow> bool" where
  "tree_ok h \<longleftrightarrow>
     (\<forall>p. 0 \<le> nHeight (h p) \<and>
          (case pprev (h p) of None \<Rightarrow> nHeight (h p) = 0 | Some q \<Rightarrow> nHeight (h p) = nHeight (h q) + 1))"

primrec anc :: "bheap \<Rightarrow> nat \<Rightarrow> nat \<Rightarrow> nat option" where \<comment> \<open>the n-th ancestor\<close>
  "anc h 0 p = Some p"
| "anc h (Suc n) p = (case pprev (h p) of None \<Rightarrow> None | Some q \<Rightarrow> anc h n q)"

lemma tree_okD:
  assumes "tree_ok h"
  shows "0 \<le> nHeight (h p)" "pprev (h p) = None \<Longrightarrow> nHeight (h p) = 0"
    "pprev (h p) = Some q \<Longrightarrow> nHeight (h p) = nHeight (h q) + 1"
    "nHeight (h p) = 0 \<Longrightarrow> pprev (h p) = None"
proof -
  have p: "0 \<le> nHeight (h p)" "case pprev (h p) of None \<Rightarrow> nHeight (h p) = 0 | Some q \<Rightarrow> nHeight (h p) = nHeight (h q) + 1" for p
    using assms unfolding tree_ok_def by blast+
  show "0 \<le> nHeight (h p)" by (rule p(1))
  show "pprev (h p) = None \<Longrightarrow> nHeight (h p) = 0" using p(2) [of p] by simp
  show 3: "pprev (h p) = Some q \<Longrightarrow> nHeight (h p) = nHeight (h q) + 1" for q using p(2) [of p] by simp
  show "nHeight (h p) = 0 \<Longrightarrow> pprev (h p) = None"
  proof (cases "pprev (h p)")
    case (Some q)
    then show "nHeight (h p) = 0 \<Longrightarrow> pprev (h p) = None" using 3 [OF Some] p(1) [of q] by simp
  qed simp
qed

lemma anc_height: "tree_ok h \<Longrightarrow> anc h n p = Some q \<Longrightarrow> nHeight (h q) = nHeight (h p) - int n"
  by (induction n arbitrary: p) (auto split: option.splits dest: tree_okD(3))

lemma anc_exists: "tree_ok h \<Longrightarrow> int n \<le> nHeight (h p) \<Longrightarrow> \<exists>q. anc h n p = Some q"
proof (induction n arbitrary: p)
  case (Suc n)
  then obtain q where "pprev (h p) = Some q" using tree_okD(2) [of h p] by (cases "pprev (h p)") auto
  with Suc tree_okD(3) [of h p q] show ?case by simp
qed simp

lemma anc_add: "anc h n p = Some q \<Longrightarrow> anc h m q = r \<Longrightarrow> anc h (n + m) p = r"
  by (induction n arbitrary: p) (auto split: option.splits)

text \<open>An induction rule for walks towards the root.\<close>

lemma tree_induct:
  assumes "tree_ok h" "\<And>p. (\<And>q. pprev (h p) = Some q \<Longrightarrow> P q) \<Longrightarrow> P p"
  shows "P p"
proof (induction "nat (nHeight (h p))" arbitrary: p rule: less_induct)
  case less
  show ?case
  proof (rule assms(2))
    fix q assume "pprev (h p) = Some q"
    then have "nHeight (h p) = nHeight (h q) + 1" by (rule tree_okD(3) [OF assms(1)])
    moreover have "0 \<le> nHeight (h q)" by (rule tree_okD(1) [OF assms(1)])
    ultimately show "P q" by (intro less) simp
  qed
qed

lemma GetLastBlockIndex_spec:
  assumes "tree_ok h"
  shows "\<exists>q n. GetLastBlockIndex h p f = Some q \<and> anc h n p = Some q \<and>
    (IsProofOfStake (h q) = f \<or> pprev (h q) = None) \<and>
    (\<forall>m<n. \<exists>r. anc h m p = Some r \<and> IsProofOfStake (h r) \<noteq> f)"
proof (induction p rule: tree_induct [OF assms])
  case (1 p)
  show ?case
  proof (cases "pprev (h p) = None \<or> IsProofOfStake (h p) = f")
    case True
    then have "GetLastBlockIndex h p f = Some p" by (subst GetLastBlockIndex.simps) (auto split: option.splits)
    then show ?thesis using True by (intro exI [of _ p] exI [of _ 0]) auto
  next
    case False
    then obtain q where q: "pprev (h p) = Some q" by auto
    from 1 [OF q] obtain r n where r: "GetLastBlockIndex h q f = Some r" "anc h n q = Some r"
      "IsProofOfStake (h r) = f \<or> pprev (h r) = None" "\<forall>m<n. \<exists>r. anc h m q = Some r \<and> IsProofOfStake (h r) \<noteq> f"
      by blast
    have "GetLastBlockIndex h p f = Some r" using False q r(1) by (subst GetLastBlockIndex.simps) auto
    moreover have "\<exists>r. anc h m p = Some r \<and> IsProofOfStake (h r) \<noteq> f" if "m < Suc n" for m
      using that False q r(4) by (cases m) auto
    ultimately show ?thesis using q r(2,3) by (intro exI [of _ r] exI [of _ "Suc n"]) auto
  qed
qed

lemma walk_back_spec:
  assumes "tree_ok h" "0 \<le> k" "k \<le> nHeight (h p)"
  shows "\<exists>q. walk_back h k p = Some q \<and> anc h (nat (nHeight (h p) - k)) p = Some q \<and> nHeight (h q) = k"
  using assms(3)
proof (induction p rule: tree_induct [OF assms(1)])
  case (1 p)
  show ?case
  proof (cases "nHeight (h p) = k")
    case True
    then show ?thesis by (subst walk_back.simps) simp
  next
    case False
    then obtain q where q: "pprev (h p) = Some q" using 1(2) assms(2) tree_okD(2) [OF assms(1), of p] by fastforce
    then have hq: "nHeight (h p) = nHeight (h q) + 1" by (rule tree_okD(3) [OF assms(1)])
    then have "nat (nHeight (h p) - k) = Suc (nat (nHeight (h q) - k))" using False 1(2) by linarith
    then show ?thesis using 1(1) [OF q] q hq False 1(2) by (subst walk_back.simps) auto
  qed
qed

subsection \<open>Median time\<close>

lemma collect_times_length: "length (collect_times h n pq acc) \<le> n + length acc"
proof (induction n arbitrary: pq acc)
  case (Suc n)
  then show ?case by (cases pq) (simp_all add: order.trans [OF Suc])
qed simp

lemma collect_times_nonempty: "length acc < length (collect_times h (Suc n) (Some p) acc)"
proof -
  have "length acc' \<le> length (collect_times h n pq acc')" for acc' pq
  proof (induction n arbitrary: acc' pq)
    case (Suc n)
    show ?case
    proof (cases pq)
      case (Some q)
      then show ?thesis using Suc [of "GetBlockTime (h q) # acc'" "pprev (h q)"] by simp
    qed simp
  qed simp
  from this [of "GetBlockTime (h p) # acc"] show ?thesis by (simp add: Suc_le_eq)
qed

lemma collect_times_anc:
  "collect_times h n (Some p) acc =
     rev (map (\<lambda>k. GetBlockTime (h (the (anc h k p)))) (takeWhile (\<lambda>k. anc h k p \<noteq> None) [0..<n])) @ acc"
proof (induction n arbitrary: p acc)
  case (Suc n)
  have up: "[0..<Suc n] = 0 # map Suc [0..<n]" by (simp add: upt_conv_Cons map_Suc_upt del: upt_Suc)
  show ?case
  proof (cases "pprev (h p)")
    case None
    have "collect_times h n None acc' = acc'" for acc' by (cases n) auto
    moreover have "takeWhile (\<lambda>k. anc h k p \<noteq> None) (map Suc [0..<n]) = []"
      using None by (cases n) (simp_all add: upt_conv_Cons del: upt_Suc)
    ultimately show ?thesis using None unfolding up by simp
  next
    case (Some q)
    then show ?thesis using Suc [of q "GetBlockTime (h p) # acc"]
      unfolding up by (simp add: takeWhile_map comp_def rev_map)
  qed
qed simp

lemma median_of_sorted:
  assumes "sorted xs" "xs \<noteq> []"
  defines "m \<equiv> xs ! (length xs div 2)"
  shows "length xs div 2 < length (filter (\<lambda>t. t \<le> m) xs)"
    and "length xs - length xs div 2 \<le> length (filter (\<lambda>t. m \<le> t) xs)"
proof -
  let ?k = "length xs div 2"
  have k: "?k < length xs" using assms(2) by simp
  have "\<forall>t\<in>set (take (Suc ?k) xs). t \<le> m"
    using assms(1) k by (auto simp: in_set_conv_nth m_def intro!: sorted_nth_mono)
  then have "length (filter (\<lambda>t. t \<le> m) (take (Suc ?k) xs)) = Suc ?k" using k by (simp add: filter_id_conv)
  moreover have "length (filter (\<lambda>t. t \<le> m) (take (Suc ?k) xs)) \<le> length (filter (\<lambda>t. t \<le> m) xs)"
    by (metis append_take_drop_id filter_append le_add1 length_append)
  ultimately show "?k < length (filter (\<lambda>t. t \<le> m) xs)" by simp
  have "\<forall>t\<in>set (drop ?k xs). m \<le> t"
    using assms(1) k by (auto simp: in_set_conv_nth m_def intro!: sorted_nth_mono)
  then have "length (filter (\<lambda>t. m \<le> t) (drop ?k xs)) = length xs - ?k" by (simp add: filter_id_conv)
  moreover have "length (filter (\<lambda>t. m \<le> t) (drop ?k xs)) \<le> length (filter (\<lambda>t. m \<le> t) xs)"
    by (metis append_take_drop_id filter_append le_add2 length_append)
  ultimately show "length xs - ?k \<le> length (filter (\<lambda>t. m \<le> t) xs)" by simp
qed

lemma length_filter_sort: "length (filter P (sort xs)) = length (filter P (xs :: int list))"
  by (metis filter_sort length_sort)

lemma GetMedianTimePast_median:
  defines "ts h p \<equiv> collect_times h nMedianTimeSpan (Some p) []"
  shows "length (ts h p) div 2 < length (filter (\<lambda>t. t \<le> GetMedianTimePast h p) (ts h p)) \<and>
    length (ts h p) - length (ts h p) div 2 \<le> length (filter (\<lambda>t. GetMedianTimePast h p \<le> t) (ts h p)) \<and>
    GetMedianTimePast h p \<in> set (ts h p)"
proof -
  let ?s = "sort (ts h p)"
  have "nMedianTimeSpan = Suc 10" by (simp add: nMedianTimeSpan_def)
  then have "0 < length (ts h p)" using collect_times_nonempty [of "[]" h 10 p] by (simp only: ts_def)
  then have ne: "?s \<noteq> []" by (metis length_greater_0_conv length_sort)
  have m: "GetMedianTimePast h p = ?s ! (length ?s div 2)" by (simp add: GetMedianTimePast_def ts_def Let_def)
  have "GetMedianTimePast h p \<in> set ?s" unfolding m
  proof (rule nth_mem)
    have "0 < length ?s" using ne by blast
    then show "length ?s div 2 < length ?s" by (rule div_less_dividend [rotated]) simp
  qed
  then show ?thesis
    using median_of_sorted [of ?s] ne unfolding m [symmetric] length_filter_sort by simp
qed

subsection \<open>Super-majority\<close>

lemma IsSuperMajority_count:
  "nFound \<le> nRequired \<Longrightarrow>
   IsSuperMajority_loop h v nRequired n (Some p) nFound =
     min nRequired (nFound + length (filter (\<lambda>k. v \<le>s bi_nVersion (h (the (anc h k p)))) (takeWhile (\<lambda>k. anc h k p \<noteq> None) [0..<n])))"
proof (induction n arbitrary: p nFound)
  case (Suc n)
  have up: "[0..<Suc n] = 0 # map Suc [0..<n]" by (simp add: upt_conv_Cons map_Suc_upt del: upt_Suc)
  have stop: "IsSuperMajority_loop h v nRequired n pq nRequired = nRequired" for pq by (cases n) auto
  show ?case
  proof (cases "nFound < nRequired")
    case True
    define f' where "f' = (if v \<le>s bi_nVersion (h p) then nFound + 1 else nFound)"
    have f': "f' \<le> nRequired" using True by (simp add: f'_def)
    show ?thesis
    proof (cases "pprev (h p)")
      case None
      have "IsSuperMajority_loop h v nRequired n None f' = f'" by (cases n) auto
      moreover have "takeWhile (\<lambda>k. anc h k p \<noteq> None) (map Suc [0..<n]) = []"
        using None by (cases n) (simp_all add: upt_conv_Cons del: upt_Suc)
      ultimately show ?thesis using None True f' unfolding up by (simp add: f'_def)
    next
      case (Some q)
      then show ?thesis using Suc.IH [OF f', of q] True
        unfolding up by (simp add: takeWhile_map comp_def filter_map f'_def)
    qed
  qed (use Suc.prems in simp)
qed simp

subsection \<open>Locators\<close>

lemma step_back_None [simp]: "step_back h n None = None"
  by (cases n) auto

lemma step_back_anc: "step_back h n (Some p) = anc h n p"
  by (induction n arbitrary: p) (auto split: option.splits)

text \<open>The sampled heights: the locator's entries are the ancestors at the offsets of this list.\<close>

function locator_offsets :: "nat \<Rightarrow> nat \<Rightarrow> nat \<Rightarrow> nat \<Rightarrow> nat list" where
  "locator_offsets L s off H =
     (if s = 0 then []
      else off # (if H < off + s then [] else locator_offsets (L + 1) (if L + 1 > 10 then s * 2 else s) (off + s) H))"
  by pat_completeness auto
termination by (relation "measure (\<lambda>(L, s, off, H). Suc H - off)") auto

declare locator_offsets.simps [simp del]

lemma locator_loop_offsets:
  assumes "tree_ok h"
  shows "anc h off p = Some q \<Longrightarrow> 0 < s \<Longrightarrow>
     locator_loop h s vHave (Some q) =
       Some (vHave @ map (\<lambda>k. phashBlock (h (the (anc h k p)))) (locator_offsets (length vHave) s off (nat (nHeight (h p)))))"
proof (induction "nat (nHeight (h p)) - off" arbitrary: off q s vHave rule: less_induct)
  case less
  let ?H = "nat (nHeight (h p))"
  let ?s' = "if length vHave + 1 > 10 then s * 2 else s"
  let ?v = "vHave @ [phashBlock (h q)]"
  have hq: "nHeight (h q) = nHeight (h p) - int off" by (rule anc_height [OF assms less.prems(1)])
  then have off: "off \<le> ?H" using tree_okD(1) [OF assms, of q] by linarith
  show ?case
  proof (cases "?H < off + s")
    case True
    have "anc h s q = None"
    proof (cases "anc h s q")
      case (Some r)
      then have "nHeight (h r) = nHeight (h p) - int off - int s" using anc_height [OF assms Some] hq by simp
      then show ?thesis using tree_okD(1) [OF assms, of r] True by linarith
    qed
    moreover have "locator_loop h n v None = Some v" for n v by (subst locator_loop.simps) simp
    ultimately show ?thesis using True less.prems
      by (subst locator_loop.simps, subst locator_offsets.simps) (simp add: Let_def step_back_anc)
  next
    case False
    then have "int s \<le> nHeight (h q)" using hq tree_okD(1) [OF assms, of p] by linarith
    then obtain r where r: "anc h s q = Some r" using anc_exists [OF assms] by blast
    then have r': "anc h (off + s) p = Some r" using anc_add [OF less.prems(1)] by simp
    have "?H - (off + s) < ?H - off" using off less.prems(2) False by simp
    from less.hyps [OF this r', of ?s' ?v] less.prems(2)
    have "locator_loop h ?s' ?v (Some r) =
        Some (?v @ map (\<lambda>k. phashBlock (h (the (anc h k p)))) (locator_offsets (length vHave + 1) ?s' (off + s) ?H))"
      by simp
    then show ?thesis using False less.prems r
      by (subst locator_loop.simps, subst locator_offsets.simps) (simp add: Let_def step_back_anc)
  qed
qed

lemma locator_offsets_bound: "k \<in> set (locator_offsets L s off H) \<Longrightarrow> off \<le> H \<Longrightarrow> k \<le> H"
proof (induction L s off H rule: locator_offsets.induct)
  case (1 L s off H)
  have "k = off \<or> (s \<noteq> 0 \<and> \<not> H < off + s \<and> k \<in> set (locator_offsets (L + 1) (if 10 < L + 1 then s * 2 else s) (off + s) H))"
    using 1(2) by (simp add: locator_offsets.simps [of L s off H] split: if_splits)
  then show ?case using 1(1,3) by auto
qed

lemma locator_offsets_length:
  "0 < s \<Longrightarrow> 10 \<le> L \<Longrightarrow> off \<le> H \<Longrightarrow> s * (2 ^ (length (locator_offsets L s off H) - 1) - 1) \<le> H - off"
proof (induction L s off H rule: locator_offsets.induct)
  case (1 L s off H)
  show ?case
  proof (cases "H < off + s")
    case True
    then show ?thesis by (subst locator_offsets.simps) (use 1 in simp)
  next
    case False
    let ?l = "locator_offsets (L + 1) (s * 2) (off + s) H"
    have ne: "?l \<noteq> []" using 1(2) by (subst locator_offsets.simps) simp
    have "(s * 2) * (2 ^ (length ?l - 1) - 1) \<le> H - (off + s)"
      using 1 False by simp
    then have "s * (2 * 2 ^ (length ?l - 1) - 2) \<le> H - (off + s)" by (simp add: algebra_simps)
    moreover have "2 * 2 ^ (length ?l - 1) = (2 :: nat) ^ length ?l" using ne by (cases ?l) simp_all
    ultimately have "s * (2 ^ length ?l - 2) + s \<le> H - off" using False by simp
    moreover have "s * (2 ^ length ?l - 1) = s * (2 ^ length ?l - 2) + s"
    proof -
      have "(2 :: nat) \<le> 2 ^ length ?l" using ne by (cases ?l) simp_all
      then have "(2 :: nat) ^ length ?l - 1 = (2 ^ length ?l - 2) + 1" by simp
      then show ?thesis by simp
    qed
    ultimately show ?thesis using False 1 by (subst locator_offsets.simps) simp
  qed
qed

lemma locator_offsets_small:
  "L + k = 10 \<Longrightarrow> off \<le> H \<Longrightarrow>
   length (locator_offsets L 1 off H) \<le> k \<or>
   (\<exists>off'. off' \<le> H \<and> off' = off + k \<and> locator_offsets L 1 off H = [off..<off + k] @ locator_offsets 10 1 off' H)"
proof (induction k arbitrary: L off)
  case 0
  then show ?case by simp
next
  case (Suc k)
  show ?case
  proof (cases "H < off + 1")
    case True
    then show ?thesis by (subst locator_offsets.simps) simp
  next
    case False
    then have e: "locator_offsets L 1 off H = off # locator_offsets (L + 1) 1 (off + 1) H"
      using Suc.prems by (subst locator_offsets.simps) simp
    have "length (locator_offsets (L + 1) 1 (off + 1) H) \<le> k \<or>
       (\<exists>off'. off' \<le> H \<and> off' = (off + 1) + k \<and>
          locator_offsets (L + 1) 1 (off + 1) H = [off + 1..<(off + 1) + k] @ locator_offsets 10 1 off' H)"
      using Suc.prems False by (intro Suc.IH) auto
    then show ?thesis unfolding e by (auto simp: upt_conv_Cons)
  qed
qed

lemma locator_length:
  "length (locator_offsets 0 1 0 H) \<le> 10 \<or>
   (10 \<le> H \<and> 2 ^ (length (locator_offsets 0 1 0 H) - 11) \<le> H - 9)"
proof (cases "length (locator_offsets 0 1 0 H) \<le> 10")
  case False
  then have e: "10 \<le> H" "locator_offsets 0 1 0 H = [0..<10] @ locator_offsets 10 1 10 H"
    using locator_offsets_small [of 0 10 0 H] by auto
  have "2 ^ (length (locator_offsets 10 1 10 H) - 1) - 1 \<le> H - 10"
    using locator_offsets_length [of 1 10 10 H] e(1) by simp
  then have "(2 :: nat) ^ (length (locator_offsets 10 1 10 H) - 1) \<le> H - 9" using e(1) by linarith
  then show ?thesis using e by simp
qed simp

lemma Locator_GetBlockIndex_hit:
  assumes "Locator_GetBlockIndex h best m genesis vHave = Some p"
  shows "genesis = Some p \<or> (IsInMainChain h best p \<and> (\<exists>hash\<in>set vHave. m hash = Some p))"
  using assms by (induction vHave) (auto split: option.splits if_splits)

subsection \<open>Round trip of block index records\<close>

definition wf_disk_index :: "CDiskBlockIndex \<Rightarrow> bool" where
  "wf_disk_index d \<longleftrightarrow> length (hashPrev d) = 8 \<and> length (hashNext d) = 8 \<and>
     length (bi_hashMerkleRoot (di_index d)) = 8 \<and> - (2 ^ 31) \<le> nHeight (di_index d) \<and> nHeight (di_index d) < 2 ^ 31 \<and>
     (if IsProofOfStake (di_index d)
      then wf_outpoint (prevoutStake (di_index d)) \<and> length (hashProofOfStake (di_index d)) = 8
      else prevoutStake (di_index d) = OutPoint_null \<and> nStakeTime (di_index d) = 0 \<and>
           hashProofOfStake (di_index d) = u_of_uint64 8 0)"

text \<open>The memory-only fields a reader keeps from the object it fills.\<close>

definition keep_memory_fields :: "CBlockIndex \<Rightarrow> CBlockIndex \<Rightarrow> CBlockIndex" where
  "keep_memory_fields p p0 = p\<lparr>phashBlock := phashBlock p0, pprev := pprev p0, pnext := pnext p0,
     bnChainTrust := bnChainTrust p0, nStakeModifierChecksum := nStakeModifierChecksum p0\<rparr>"

lemma sint_word_of_int32: "- (2 ^ 31) \<le> k \<Longrightarrow> k < 2 ^ 31 \<Longrightarrow> sint (word_of_int k :: u32) = k"
  by (simp add: signed_of_int signed_take_bit_int_eq_self)

context istream begin

lemma reads_CDiskBlockIndex:
  assumes wf: "wf_disk_index d"
  shows "reads ok rest (unser_CDiskBlockIndex rd nType d0) (ser_CDiskBlockIndex nType v d)
    (d\<lparr>di_index := keep_memory_fields (di_index d) (di_index d0)\<rparr>)"
proof (rule readsI)
  fix s r assume s: "ok s" "rest s = ser_CDiskBlockIndex nType v d @ r"
  let ?p = "di_index d"
  have sz: "length (hashPrev d) = 8" "length (hashNext d) = 8" "length (bi_hashMerkleRoot ?p) = 8"
    and h: "sint (word_of_int (nHeight ?p) :: u32) = nHeight ?p"
    using wf by (auto simp: wf_disk_index_def intro: sint_word_of_int32)
  define stake where "stake = (if IsProofOfStake ?p
      then ser_COutPoint (prevoutStake ?p) @ WRITEDATA (nStakeTime ?p) @ ser_uint256 (hashProofOfStake ?p) else [])"
  define tl where "tl = WRITEDATA (bi_nVersion ?p) @ ser_uint256 (hashPrev d) @ ser_uint256 (bi_hashMerkleRoot ?p) @
      WRITEDATA (bi_nTime ?p) @ WRITEDATA (bi_nBits ?p) @ WRITEDATA (bi_nNonce ?p) @ r"
  define b8 where "b8 = stake @ tl"
  define b7 where "b7 = WRITEDATA (nStakeModifier ?p) @ b8"
  define b6 where "b6 = WRITEDATA (nFlags ?p) @ b7"
  define b5 where "b5 = WRITEDATA (nMoneySupply ?p) @ b6"
  define b4 where "b4 = WRITEDATA (nMint ?p) @ b5"
  define b3 where "b3 = WRITEDATA (word_of_int (nHeight ?p) :: u32) @ b4"
  define b2 where "b2 = WRITEDATA (bi_nBlockPos ?p) @ b3"
  define b1 where "b1 = WRITEDATA (bi_nFile ?p) @ b2"
  have split: "rest s = (if nType AND SER_GETHASH = 0 then WRITEDATA v else []) @ ser_uint256 (hashNext d) @ b1"
    using s(2) by (simp add: ser_CDiskBlockIndex_def Let_def b1_def b2_def b3_def b4_def b5_def b6_def b7_def b8_def stake_def tl_def)
  obtain x s0 where 0: "(if nType AND SER_GETHASH = 0 then READDATA rd s else Some (0, s)) = Some (x :: u32, s0)"
      "ok s0" "rest s0 = ser_uint256 (hashNext d) @ b1"
  proof (cases "nType AND SER_GETHASH = 0")
    case True
    then show thesis using readsE [OF reads_u32 s(1), of v "ser_uint256 (hashNext d) @ b1"] split that by auto
  qed (use s split that in auto)
  obtain s1 where 1: "unser_uint256 rd s0 = Some (hashNext d, s1)" "ok s1" "rest s1 = b1"
    by (rule readsE [OF reads_uint256 [OF sz(2)] 0(2,3)])
  obtain s2 where 2: "READDATA rd s1 = Some (bi_nFile ?p, s2)" "ok s2" "rest s2 = b2"
    by (rule readsE [OF reads_u32 1(2) 1(3) [unfolded b1_def]])
  obtain s3 where 3: "READDATA rd s2 = Some (bi_nBlockPos ?p, s3)" "ok s3" "rest s3 = b3"
    by (rule readsE [OF reads_u32 2(2) 2(3) [unfolded b2_def]])
  obtain s4 where 4: "READDATA rd s3 = Some (word_of_int (nHeight ?p) :: u32, s4)" "ok s4" "rest s4 = b4"
    by (rule readsE [OF reads_u32 3(2) 3(3) [unfolded b3_def]])
  obtain s5 where 5: "READDATA rd s4 = Some (nMint ?p, s5)" "ok s5" "rest s5 = b5"
    by (rule readsE [OF reads_u64 4(2) 4(3) [unfolded b4_def]])
  obtain s6 where 6: "READDATA rd s5 = Some (nMoneySupply ?p, s6)" "ok s6" "rest s6 = b6"
    by (rule readsE [OF reads_u64 5(2) 5(3) [unfolded b5_def]])
  obtain s7 where 7: "READDATA rd s6 = Some (nFlags ?p, s7)" "ok s7" "rest s7 = b7"
    by (rule readsE [OF reads_u32 6(2) 6(3) [unfolded b6_def]])
  obtain s8 where 8: "READDATA rd s7 = Some (nStakeModifier ?p, s8)" "ok s8" "rest s8 = stake @ tl"
    by (rule readsE [OF reads_u64 7(2) 7(3) [unfolded b7_def b8_def]])
  define q where "q = (di_index d0)\<lparr>bi_nFile := bi_nFile ?p, bi_nBlockPos := bi_nBlockPos ?p, nHeight := nHeight ?p,
      nMint := nMint ?p, nMoneySupply := nMoneySupply ?p, nFlags := nFlags ?p, nStakeModifier := nStakeModifier ?p\<rparr>"
  have pos: "IsProofOfStake q = IsProofOfStake ?p" by (simp add: IsProofOfStake_def q_def)
  obtain s9 where 9: "unser_stake_fields rd q s8 =
      Some (q\<lparr>prevoutStake := prevoutStake ?p, nStakeTime := nStakeTime ?p, hashProofOfStake := hashProofOfStake ?p\<rparr>, s9)"
      "ok s9" "rest s9 = tl"
  proof (cases "IsProofOfStake ?p")
    case True
    then have w: "wf_outpoint (prevoutStake ?p)" "length (hashProofOfStake ?p) = 8"
      using wf by (simp_all add: wf_disk_index_def)
    have "rest s8 = ser_COutPoint (prevoutStake ?p) @ WRITEDATA (nStakeTime ?p) @ ser_uint256 (hashProofOfStake ?p) @ tl"
      using 8(3) True by (simp add: stake_def)
    then obtain t1 where t1: "unser_COutPoint rd s8 = Some (prevoutStake ?p, t1)" "ok t1"
        "rest t1 = WRITEDATA (nStakeTime ?p) @ ser_uint256 (hashProofOfStake ?p) @ tl"
      by (rule readsE [OF reads_COutPoint [OF w(1)] 8(2)])
    obtain t2 where t2: "READDATA rd t1 = Some (nStakeTime ?p, t2)" "ok t2" "rest t2 = ser_uint256 (hashProofOfStake ?p) @ tl"
      by (rule readsE [OF reads_u32 t1(2,3)])
    obtain t3 where "unser_uint256 rd t2 = Some (hashProofOfStake ?p, t3)" "ok t3" "rest t3 = tl"
      by (rule readsE [OF reads_uint256 [OF w(2)] t2(2,3)])
    with t1 t2 True show thesis by (intro that [of t3]) (simp_all add: pos unser_stake_fields_def)
  next
    case False
    then show thesis using wf 8 by (intro that [of s8]) (simp_all add: pos wf_disk_index_def stake_def unser_stake_fields_def)
  qed
  obtain u1 where u1: "READDATA rd s9 = Some (bi_nVersion ?p, u1)" "ok u1" "rest u1 = ser_uint256 (hashPrev d) @
      ser_uint256 (bi_hashMerkleRoot ?p) @ WRITEDATA (bi_nTime ?p) @ WRITEDATA (bi_nBits ?p) @ WRITEDATA (bi_nNonce ?p) @ r"
    by (rule readsE [OF reads_u32 9(2) 9(3) [unfolded tl_def]])
  obtain u2 where u2: "unser_uint256 rd u1 = Some (hashPrev d, u2)" "ok u2" "rest u2 =
      ser_uint256 (bi_hashMerkleRoot ?p) @ WRITEDATA (bi_nTime ?p) @ WRITEDATA (bi_nBits ?p) @ WRITEDATA (bi_nNonce ?p) @ r"
    by (rule readsE [OF reads_uint256 [OF sz(1)] u1(2,3)])
  obtain u3 where u3: "unser_uint256 rd u2 = Some (bi_hashMerkleRoot ?p, u3)" "ok u3" "rest u3 =
      WRITEDATA (bi_nTime ?p) @ WRITEDATA (bi_nBits ?p) @ WRITEDATA (bi_nNonce ?p) @ r"
    by (rule readsE [OF reads_uint256 [OF sz(3)] u2(2,3)])
  obtain u4 where u4: "READDATA rd u3 = Some (bi_nTime ?p, u4)" "ok u4" "rest u4 = WRITEDATA (bi_nBits ?p) @ WRITEDATA (bi_nNonce ?p) @ r"
    by (rule readsE [OF reads_u32 u3(2,3)])
  obtain u5 where u5: "READDATA rd u4 = Some (bi_nBits ?p, u5)" "ok u5" "rest u5 = WRITEDATA (bi_nNonce ?p) @ r"
    by (rule readsE [OF reads_u32 u4(2,3)])
  obtain u6 where u6: "READDATA rd u5 = Some (bi_nNonce ?p, u6)" "ok u6" "rest u6 = r"
    by (rule readsE [OF reads_u32 u5(2,3)])
  have "unser_CDiskBlockIndex rd nType d0 s =
      Some (\<lparr> di_index = q\<lparr>prevoutStake := prevoutStake ?p, nStakeTime := nStakeTime ?p, hashProofOfStake := hashProofOfStake ?p,
        bi_nVersion := bi_nVersion ?p, bi_hashMerkleRoot := bi_hashMerkleRoot ?p, bi_nTime := bi_nTime ?p,
        bi_nBits := bi_nBits ?p, bi_nNonce := bi_nNonce ?p\<rparr>, hashPrev = hashPrev d, hashNext = hashNext d \<rparr>, u6)"
    unfolding unser_CDiskBlockIndex_def 0(1)
    using 1 2 3 4 5 6 7 8 9(1) u1 u2 u3 u4 u5 u6 by (simp add: h Let_def flip: q_def)
  then show "\<exists>s'. unser_CDiskBlockIndex rd nType d0 s = Some (d\<lparr>di_index := keep_memory_fields ?p (di_index d0)\<rparr>, s') \<and> ok s' \<and> rest s' = r"
    using u6 by (simp add: q_def keep_memory_fields_def)
qed

end

subsection \<open>Properties of the block tree\<close>

text \<open>On a well-formed block tree, CBlockLocator::Set returns: the hashes of the ancestors of the given
  block at the distances of a list that starts at 0 and never passes the root, followed by the
  genesis hash. The list has at most ten entries, or its length beyond eleven is at most the base-2
  logarithm of the height less nine, so a locator is logarithmic in the height of the chain.\<close>

theorem locator_is_logarithmic:
  assumes "tree_ok h"
  shows "\<exists>ks. Locator_Set h g (Some p) = Some (map (\<lambda>k. phashBlock (h (the (anc h k p)))) ks @ [g]) \<and>
    ks \<noteq> [] \<and> hd ks = 0 \<and> (\<forall>k\<in>set ks. anc h k p \<noteq> None) \<and>
    (length ks \<le> 10 \<or> 2 ^ (length ks - 11) \<le> nHeight (h p) - 9)"
proof -
  let ?H = "nat (nHeight (h p))" and ?ks = "locator_offsets 0 1 0 (nat (nHeight (h p)))"
  have pos: "0 \<le> nHeight (h p)" by (rule tree_okD(1) [OF assms])
  have 1: "locator_loop h 1 [] (Some p) = Some (map (\<lambda>k. phashBlock (h (the (anc h k p)))) ?ks)"
    using locator_loop_offsets [OF assms, of 0 p p 1 "[]"] by simp
  have 2: "?ks \<noteq> []" "hd ?ks = 0" by (subst locator_offsets.simps, simp)+
  have 3: "anc h k p \<noteq> None" if "k \<in> set ?ks" for k
    using anc_exists [OF assms, of k p] locator_offsets_bound [OF that] pos by auto
  have "2 ^ (length ?ks - 11) \<le> nHeight (h p) - 9" if "\<not> length ?ks \<le> 10"
  proof -
    have "10 \<le> ?H" "2 ^ (length ?ks - 11) \<le> ?H - 9" using locator_length [of ?H] that by blast+
    then have "int (2 ^ (length ?ks - 11)) \<le> int (?H - 9)" by (simp only: of_nat_le_iff)
    then show ?thesis using \<open>10 \<le> ?H\<close> pos by simp
  qed
  then show ?thesis using 1 2 3 by (intro exI [of _ ?ks]) (auto simp: Locator_Set_def)
qed

definition sample_chain :: bheap where
  "sample_chain p = (if p = 0 \<or> 5 < p then BlockIndex_default
     else BlockIndex_default\<lparr>pprev := Some (p - 1), nHeight := int p, bi_nTime := 10 * of_nat (p mod 3), phashBlock := [of_nat p]\<rparr>)"

lemma sample_chain_ok: "tree_ok sample_chain"
  unfolding tree_ok_def sample_chain_def by (auto simp: BlockIndex_default_def)

theorem locator_is_logarithmic_witness:
  "\<exists>ks. Locator_Set sample_chain [7] (Some 5) = Some (map (\<lambda>k. phashBlock (sample_chain (the (anc sample_chain k 5)))) ks @ [[7]]) \<and>
    ks \<noteq> [] \<and> hd ks = 0 \<and> (\<forall>k\<in>set ks. anc sample_chain k 5 \<noteq> None) \<and>
    (length ks \<le> 10 \<or> 2 ^ (length ks - 11) \<le> nHeight (sample_chain 5) - 9)"
  by (rule locator_is_logarithmic [OF sample_chain_ok])

text \<open>GetMedianTimePast is the median of the times of the block and its ancestors, eleven blocks at
  most: it is one of these times, more than half (rounded down) of them are not later and at least
  half are not earlier.\<close>

theorem median_time_is_median:
  fixes h p
  defines "ts \<equiv> map (\<lambda>k. GetBlockTime (h (the (anc h k p)))) (takeWhile (\<lambda>k. anc h k p \<noteq> None) [0..<11])"
  shows "GetMedianTimePast h p \<in> set ts \<and>
    length ts div 2 < length (filter (\<lambda>t. t \<le> GetMedianTimePast h p) ts) \<and>
    length ts - length ts div 2 \<le> length (filter (\<lambda>t. GetMedianTimePast h p \<le> t) ts)"
proof -
  have e: "collect_times h nMedianTimeSpan (Some p) [] = rev ts"
    by (simp only: collect_times_anc ts_def nMedianTimeSpan_def append_Nil2)
  show ?thesis using GetMedianTimePast_median [of h p] by (simp only: e length_rev set_rev rev_filter [symmetric] length_rev)
qed

text \<open>GetLastBlockIndex returns, on a well-formed block tree, the nearest ancestor (the block itself
  included) of the requested kind, or the root when there is none.\<close>

theorem last_block_index_nearest:
  assumes "tree_ok h"
  shows "\<exists>q n. GetLastBlockIndex h p f = Some q \<and> anc h n p = Some q \<and>
    (IsProofOfStake (h q) = f \<or> pprev (h q) = None) \<and>
    (\<forall>m<n. \<exists>r. anc h m p = Some r \<and> IsProofOfStake (h r) \<noteq> f)"
  by (rule GetLastBlockIndex_spec [OF assms])

theorem last_block_index_nearest_witness:
  "\<exists>q n. GetLastBlockIndex sample_chain 5 True = Some q \<and> anc sample_chain n 5 = Some q \<and>
    (IsProofOfStake (sample_chain q) = True \<or> pprev (sample_chain q) = None) \<and>
    (\<forall>m<n. \<exists>r. anc sample_chain m 5 = Some r \<and> IsProofOfStake (sample_chain r) \<noteq> True)"
  by (rule last_block_index_nearest [OF sample_chain_ok])

text \<open>A block index record read from a byte stream holding its serialized form is the record written,
  with the in-memory links of the object read into, and the stream is left at the following byte.\<close>

theorem disk_index_roundtrip:
  assumes "wf_disk_index d" "ds_inv s" "ds_rest s = ser_CDiskBlockIndex nType v d @ r"
  shows "\<exists>s'. unser_CDiskBlockIndex ds_read nType d0 s = Some (d\<lparr>di_index := keep_memory_fields (di_index d) (di_index d0)\<rparr>, s') \<and>
    ds_rest s' = r"
  by (rule readsE [OF ds.reads_CDiskBlockIndex [OF assms(1)] assms(2,3)]) (intro exI conjI)

definition sample_disk_index :: CDiskBlockIndex where
  "sample_disk_index = \<lparr> di_index = SetProofOfStake (BlockIndex_default\<lparr>nHeight := 3, nMint := 7\<rparr>),
     hashPrev = u_of_uint64 8 1, hashNext = u_of_uint64 8 2 \<rparr>"

theorem disk_index_roundtrip_witness:
  "\<exists>s'. unser_CDiskBlockIndex ds_read SER_DISK (DiskBlockIndex_of (\<lambda>_. BlockIndex_default) 0)
        (ds_Init (ser_CDiskBlockIndex SER_DISK 0 sample_disk_index) 0 0) =
      Some (sample_disk_index\<lparr>di_index := keep_memory_fields (di_index sample_disk_index) BlockIndex_default\<rparr>, s') \<and>
    ds_rest s' = []"
proof -
  have wf: "wf_disk_index sample_disk_index"
    by (simp add: wf_disk_index_def sample_disk_index_def BlockIndex_default_def SetProofOfStake_def IsProofOfStake_def
        wf_outpoint_def OutPoint_null_def BLOCK_PROOF_OF_STAKE_def)
  have "length (ser_CDiskBlockIndex SER_DISK 0 sample_disk_index) < 2 ^ 31"
    by (simp add: ser_CDiskBlockIndex_def Let_def sample_disk_index_def BlockIndex_default_def SetProofOfStake_def
        ser_uint256_def ser_COutPoint_def OutPoint_null_def length_WRITEDATA)
  from ds_inv_Init [OF this, of 0 0] show ?thesis
    using disk_index_roundtrip [OF wf, of "ds_Init (ser_CDiskBlockIndex SER_DISK 0 sample_disk_index) 0 0" SER_DISK 0 "[]"
        "DiskBlockIndex_of (\<lambda>_. BlockIndex_default) 0"]
    by (simp add: DiskBlockIndex_of_def)
qed

end
