(* ===== verification/BigNum.thy ===== *)
theory BigNum
  imports Uint256 "HOL-Library.Monad_Syntax"
begin

text \<open>
  The class CBigNum of src/bignum.h, a wrapper of OpenSSL's BIGNUM. OpenSSL is not part of the
  repository: its functions are the fields of the record \<open>openssl\<close>, an argument of every
  definition here, and \<open>openssl_ok B val\<close> states what OpenSSL documents of them, for the integer
  \<open>val b\<close> a BIGNUM \<open>b\<close> stands for: the arithmetic functions compute and do not fail (they fail
  when memory is exhausted), and the mpi format is a 4-byte big-endian length followed by the
  minimal big-endian magnitude whose first bit is the sign. A thrown bignum_error is the value
  None. An \<open>unsigned long\<close> has 64 bits. \<open>int_openssl\<close> is a concrete instance over the integers.
\<close>

subsection \<open>OpenSSL's interface\<close>

record 'bn openssl =
  BN_init :: 'bn
  BN_value_one :: 'bn
  BN_is_zero :: "'bn \<Rightarrow> bool"
  BN_set_word :: "u64 \<Rightarrow> 'bn option"
  BN_get_word :: "'bn \<Rightarrow> u64"
  BN_is_negative :: "'bn \<Rightarrow> bool"
  BN_set_negative :: "'bn \<Rightarrow> bool \<Rightarrow> 'bn"
  BN_mpi2bn :: "byte list \<Rightarrow> 'bn"
  BN_bn2mpi :: "'bn \<Rightarrow> byte list"
  BN_add :: "'bn \<Rightarrow> 'bn \<Rightarrow> 'bn option"
  BN_sub :: "'bn \<Rightarrow> 'bn \<Rightarrow> 'bn option"
  BN_mul :: "'bn \<Rightarrow> 'bn \<Rightarrow> 'bn option"
  BN_div :: "'bn \<Rightarrow> 'bn \<Rightarrow> ('bn \<times> 'bn) option" \<comment> \<open>quotient and remainder\<close>
  BN_mod :: "'bn \<Rightarrow> 'bn \<Rightarrow> 'bn option"
  BN_lshift :: "'bn \<Rightarrow> nat \<Rightarrow> 'bn option"
  BN_rshift :: "'bn \<Rightarrow> nat \<Rightarrow> 'bn option"
  BN_cmp :: "'bn \<Rightarrow> 'bn \<Rightarrow> int"

subsection \<open>Conversions from machine integers\<close>

text \<open>The four length bytes every conversion writes at the front of its mpi buffer.\<close>

definition mpi_header :: "u32 \<Rightarrow> byte list" where
  "mpi_header nSize =
     [ucast (drop_bit 24 nSize AND 0xff), ucast (drop_bit 16 nSize AND 0xff),
      ucast (drop_bit 8 nSize AND 0xff), ucast (nSize AND 0xff)]"

text \<open>The eight-iteration loop of setint64 and (with fNegative false) of setuint64.\<close>

fun setint64_loop :: "nat \<Rightarrow> bool \<Rightarrow> u64 \<Rightarrow> bool \<Rightarrow> byte list" where
  "setint64_loop 0 fNegative n fLeadingZeroes = []"
| "setint64_loop (Suc i) fNegative n fLeadingZeroes =
     (let c = ucast (drop_bit 56 n AND 0xff) :: byte; n' = push_bit 8 n
      in if fLeadingZeroes
         then if c = 0 then setint64_loop i fNegative n' True
              else if c AND 0x80 \<noteq> 0
              then (if fNegative then 0x80 else 0) # c # setint64_loop i fNegative n' False
              else (if fNegative then c OR 0x80 else c) # setint64_loop i fNegative n' False
         else c # setint64_loop i fNegative n' False)"

definition setint64 :: "'bn openssl \<Rightarrow> u64 \<Rightarrow> 'bn" where \<comment> \<open>sn is the int64's bit pattern\<close>
  "setint64 B sn =
     (let fNegative = sn <s 0;
          n = (if fNegative then - (sn + 1) + 1 else sn);
          p = setint64_loop 8 fNegative n True
      in BN_mpi2bn B (mpi_header (word_of_nat (length p)) @ p))"

definition setuint64 :: "'bn openssl \<Rightarrow> u64 \<Rightarrow> 'bn" where
  "setuint64 B n =
     (let p = setint64_loop 8 False n True
      in BN_mpi2bn B (mpi_header (word_of_nat (length p)) @ p))"

text \<open>The loop of setuint256, over the bytes from the most significant one.\<close>

fun setuint256_loop :: "bool \<Rightarrow> byte list \<Rightarrow> byte list" where
  "setuint256_loop fLeadingZeroes [] = []"
| "setuint256_loop fLeadingZeroes (c # cs) =
     (if fLeadingZeroes
      then if c = 0 then setuint256_loop True cs
           else if c AND 0x80 \<noteq> 0 then 0 # c # setuint256_loop False cs
           else c # setuint256_loop False cs
      else c # setuint256_loop False cs)"

definition setuint256 :: "'bn openssl \<Rightarrow> base_uint \<Rightarrow> 'bn" where
  "setuint256 B n =
     (let p = setuint256_loop True (rev (u_bytes n))
      in BN_mpi2bn B (mpi_header (word_of_nat (length p)) @ p))"

definition setulong :: "'bn openssl \<Rightarrow> u64 \<Rightarrow> 'bn option" where
  "setulong B n = BN_set_word B n"

text \<open>CBigNum(int n): through setulong when it is not negative.\<close>

definition bn_of_int32 :: "'bn openssl \<Rightarrow> u32 \<Rightarrow> 'bn option" where
  "bn_of_int32 B n = (if 0 \<le>s n then setulong B (ucast n) else Some (setint64 B (scast n)))"

subsection \<open>Conversions to machine integers\<close>

definition getint :: "'bn openssl \<Rightarrow> 'bn \<Rightarrow> int" where
  "getint B b =
     (let n = BN_get_word B b
      in if \<not> BN_is_negative B b then (if n > 0x7fffffff then 0x7fffffff else uint n)
         else (if n > 0x7fffffff then - 2147483648 else - uint n))"

text \<open>
  The copying loop of getuint64 and getuint256: bytes vch[j], j from the last one down to index 4,
  into a zeroed little-endian integer of \<open>w\<close> bytes.
\<close>

definition mpi_magnitude :: "nat \<Rightarrow> byte list \<Rightarrow> byte list" where
  "mpi_magnitude w vch =
     (let vch' = (if 4 < length vch then vch[4 := vch ! 4 AND 0x7f] else vch);
          src = take w (rev (drop 4 vch'))
      in src @ replicate (w - length src) 0)"

definition getuint64 :: "'bn openssl \<Rightarrow> 'bn \<Rightarrow> u64" where
  "getuint64 B b =
     (let vch = BN_bn2mpi B b
      in if length vch < 4 then 0 else word_of_nat (wval (mpi_magnitude 8 vch)))"

definition getuint256 :: "'bn openssl \<Rightarrow> 'bn \<Rightarrow> base_uint" where
  "getuint256 B b =
     (let vch = BN_bn2mpi B b
      in if length vch < 4 then u_of_uint64 8 0 else u_of_bytes (mpi_magnitude 32 vch))"

subsection \<open>Byte vectors\<close>

definition setvch :: "'bn openssl \<Rightarrow> byte list \<Rightarrow> 'bn" where
  "setvch B vch = BN_mpi2bn B (mpi_header (word_of_nat (length vch)) @ rev vch)"

definition getvch :: "'bn openssl \<Rightarrow> 'bn \<Rightarrow> byte list" where
  "getvch B b =
     (let vch = BN_bn2mpi B b in if length vch \<le> 4 then [] else rev (drop 4 vch))"

subsection \<open>The compact form of difficulty targets\<close>

definition SetCompact :: "'bn openssl \<Rightarrow> u32 \<Rightarrow> 'bn" where
  "SetCompact B nCompact =
     (let nSize = drop_bit 24 nCompact;
          v0 = (replicate (4 + unat nSize) 0)[3 := ucast nSize];
          v1 = (if 1 \<le> nSize then v0[4 := ucast (drop_bit 16 nCompact AND 0xff)] else v0);
          v2 = (if 2 \<le> nSize then v1[5 := ucast (drop_bit 8 nCompact AND 0xff)] else v1);
          v3 = (if 3 \<le> nSize then v2[6 := ucast (nCompact AND 0xff)] else v2)
      in BN_mpi2bn B v3)"

definition GetCompact :: "'bn openssl \<Rightarrow> 'bn \<Rightarrow> u32" where
  "GetCompact B b =
     (let vch = BN_bn2mpi B b;
          nSize = word_of_nat (length vch) - 4 :: u32;
          c0 = push_bit 24 nSize;
          c1 = (if 1 \<le> nSize then c0 OR push_bit 16 (ucast (vch ! 4)) else c0);
          c2 = (if 2 \<le> nSize then c1 OR push_bit 8 (ucast (vch ! 5)) else c1);
          c3 = (if 3 \<le> nSize then c2 OR ucast (vch ! 6) else c2)
      in c3)"

subsection \<open>Operators\<close>

definition bn_is_zero :: "'bn openssl \<Rightarrow> 'bn \<Rightarrow> bool" where \<comment> \<open>operator!\<close>
  "bn_is_zero B b \<longleftrightarrow> BN_is_zero B b"

definition bn_plus :: "'bn openssl \<Rightarrow> 'bn \<Rightarrow> 'bn \<Rightarrow> 'bn option" where
  "bn_plus B a b = BN_add B a b"

definition bn_minus :: "'bn openssl \<Rightarrow> 'bn \<Rightarrow> 'bn \<Rightarrow> 'bn option" where
  "bn_minus B a b = BN_sub B a b"

definition bn_incr :: "'bn openssl \<Rightarrow> 'bn \<Rightarrow> 'bn option" where \<comment> \<open>prefix operator++\<close>
  "bn_incr B b = BN_add B b (BN_value_one B)"

definition bn_decr :: "'bn openssl \<Rightarrow> 'bn \<Rightarrow> 'bn option" where \<comment> \<open>prefix operator--\<close>
  "bn_decr B b = BN_sub B b (BN_value_one B)"

definition bn_uminus :: "'bn openssl \<Rightarrow> 'bn \<Rightarrow> 'bn" where
  "bn_uminus B a = BN_set_negative B a (\<not> BN_is_negative B a)"

definition bn_times :: "'bn openssl \<Rightarrow> 'bn \<Rightarrow> 'bn \<Rightarrow> 'bn option" where
  "bn_times B a b = BN_mul B a b"

definition bn_divide :: "'bn openssl \<Rightarrow> 'bn \<Rightarrow> 'bn \<Rightarrow> 'bn option" where
  "bn_divide B a b = map_option fst (BN_div B a b)"

definition bn_modulo :: "'bn openssl \<Rightarrow> 'bn \<Rightarrow> 'bn \<Rightarrow> 'bn option" where
  "bn_modulo B a b = BN_mod B a b"

definition bn_shl :: "'bn openssl \<Rightarrow> 'bn \<Rightarrow> nat \<Rightarrow> 'bn option" where
  "bn_shl B a shift = BN_lshift B a shift"

definition bn_shr :: "'bn openssl \<Rightarrow> 'bn \<Rightarrow> nat \<Rightarrow> 'bn option" where
  "bn_shr B b shift =
     do { a0 \<leftarrow> bn_of_int32 B 1;
          a \<leftarrow> bn_shl B a0 shift;
          if BN_cmp B a b > 0 then bn_of_int32 B 0 else BN_rshift B b shift }"

definition bn_lt :: "'bn openssl \<Rightarrow> 'bn \<Rightarrow> 'bn \<Rightarrow> bool" where "bn_lt B a b \<longleftrightarrow> BN_cmp B a b < 0"
definition bn_le :: "'bn openssl \<Rightarrow> 'bn \<Rightarrow> 'bn \<Rightarrow> bool" where "bn_le B a b \<longleftrightarrow> BN_cmp B a b \<le> 0"
definition bn_gt :: "'bn openssl \<Rightarrow> 'bn \<Rightarrow> 'bn \<Rightarrow> bool" where "bn_gt B a b \<longleftrightarrow> BN_cmp B a b > 0"

subsection \<open>The documented behaviour of OpenSSL\<close>

text \<open>
  The mpi format: after a 4-byte big-endian length comes the big-endian magnitude, whose first
  bit is the sign; bn2mpi writes the shortest such body.
\<close>

fun le_bytes :: "nat \<Rightarrow> byte list" where
  "le_bytes n = (if n = 0 then [] else word_of_nat n # le_bytes (n div 256))"

declare le_bytes.simps [simp del]

definition mpi_body :: "int \<Rightarrow> byte list" where
  "mpi_body v =
     (let m = rev (le_bytes (nat \<bar>v\<bar>));
          m' = (if m \<noteq> [] \<and> bit (hd m) 7 then 0 # m else m)
      in if v < 0 then (hd m' OR 0x80) # tl m' else m')"

definition mpi_enc :: "int \<Rightarrow> byte list" where
  "mpi_enc v = rev (words_of 4 (length (mpi_body v))) @ mpi_body v"

fun body_val :: "byte list \<Rightarrow> int" where
  "body_val [] = 0"
| "body_val (h # t) =
     (let m = int (wval (rev ((h AND 0x7f) # t))) in if bit h 7 then - m else m)"

definition mpi_wf :: "byte list \<Rightarrow> bool" where
  "mpi_wf bs \<longleftrightarrow> 4 \<le> length bs \<and> wval (rev (take 4 bs)) = length bs - 4"

definition trunc_div :: "int \<Rightarrow> int \<Rightarrow> int" where \<comment> \<open>division rounding towards 0\<close>
  "trunc_div a b = sgn a * sgn b * (\<bar>a\<bar> div \<bar>b\<bar>)"

definition openssl_ok :: "'bn openssl \<Rightarrow> ('bn \<Rightarrow> int) \<Rightarrow> bool" where
  "openssl_ok B val \<longleftrightarrow>
     val (BN_init B) = 0 \<and> val (BN_value_one B) = 1 \<and>
     (\<forall>b. BN_is_zero B b \<longleftrightarrow> val b = 0) \<and>
     (\<forall>n. \<exists>b. BN_set_word B n = Some b \<and> val b = uint n) \<and>
     (\<forall>b. BN_get_word B b = (if \<bar>val b\<bar> < 2 ^ 64 then word_of_int \<bar>val b\<bar> else - 1)) \<and>
     (\<forall>b. BN_is_negative B b \<longleftrightarrow> val b < 0) \<and>
     (\<forall>b s. val (BN_set_negative B b s) = (if s then - \<bar>val b\<bar> else \<bar>val b\<bar>)) \<and>
     (\<forall>bs. mpi_wf bs \<longrightarrow> val (BN_mpi2bn B bs) = body_val (drop 4 bs)) \<and>
     (\<forall>b. BN_bn2mpi B b = mpi_enc (val b)) \<and>
     (\<forall>a b. \<exists>c. BN_add B a b = Some c \<and> val c = val a + val b) \<and>
     (\<forall>a b. \<exists>c. BN_sub B a b = Some c \<and> val c = val a - val b) \<and>
     (\<forall>a b. \<exists>c. BN_mul B a b = Some c \<and> val c = val a * val b) \<and>
     (\<forall>a b. if val b = 0 then BN_div B a b = None
        else \<exists>q r. BN_div B a b = Some (q, r) \<and> val q = trunc_div (val a) (val b) \<and>
               val r = val a - val b * trunc_div (val a) (val b)) \<and>
     (\<forall>a b. if val b = 0 then BN_mod B a b = None
        else \<exists>r. BN_mod B a b = Some r \<and> val r = val a - val b * trunc_div (val a) (val b)) \<and>
     (\<forall>a k. \<exists>c. BN_lshift B a k = Some c \<and> val c = val a * 2 ^ k) \<and>
     (\<forall>a k. \<exists>c. BN_rshift B a k = Some c \<and> val c = trunc_div (val a) (2 ^ k)) \<and>
     (\<forall>a b. BN_cmp B a b = sgn (val a - val b))"

definition int_openssl :: "int openssl" where
  "int_openssl =
     \<lparr> BN_init = 0,
       BN_value_one = 1,
       BN_is_zero = (\<lambda>b. b = 0),
       BN_set_word = (\<lambda>n. Some (uint n)),
       BN_get_word = (\<lambda>b. if \<bar>b\<bar> < 2 ^ 64 then word_of_int \<bar>b\<bar> else - 1),
       BN_is_negative = (\<lambda>b. b < 0),
       BN_set_negative = (\<lambda>b s. if s then - \<bar>b\<bar> else \<bar>b\<bar>),
       BN_mpi2bn = (\<lambda>bs. body_val (drop 4 bs)),
       BN_bn2mpi = mpi_enc,
       BN_add = (\<lambda>a b. Some (a + b)),
       BN_sub = (\<lambda>a b. Some (a - b)),
       BN_mul = (\<lambda>a b. Some (a * b)),
       BN_div = (\<lambda>a b. if b = 0 then None else Some (trunc_div a b, a - b * trunc_div a b)),
       BN_mod = (\<lambda>a b. if b = 0 then None else Some (a - b * trunc_div a b)),
       BN_lshift = (\<lambda>a k. Some (a * 2 ^ k)),
       BN_rshift = (\<lambda>a k. Some (trunc_div a (2 ^ k))),
       BN_cmp = (\<lambda>a b. sgn (a - b)) \<rparr>"

lemma int_openssl_ok: "openssl_ok int_openssl (\<lambda>b. b)"
  by (simp add: openssl_ok_def int_openssl_def)

lemma openssl_okD:
  assumes "openssl_ok B val"
  shows "val (BN_init B) = 0"
    and "mpi_wf bs \<Longrightarrow> val (BN_mpi2bn B bs) = body_val (drop 4 bs)"
    and "BN_bn2mpi B b = mpi_enc (val b)"
    and "BN_is_negative B b \<longleftrightarrow> val b < 0"
    and "val (BN_set_negative B b s) = (if s then - \<bar>val b\<bar> else \<bar>val b\<bar>)"
    and "BN_get_word B b = (if \<bar>val b\<bar> < 2 ^ 64 then word_of_int \<bar>val b\<bar> else - 1)"
    and "BN_cmp B a b = sgn (val a - val b)"
    and "BN_is_zero B b \<longleftrightarrow> val b = 0"
    and "val (BN_value_one B) = 1"
  using assms by (simp_all add: openssl_ok_def)

lemma openssl_okE:
  assumes "openssl_ok B val"
  shows "\<exists>b. BN_set_word B n = Some b \<and> val b = uint n"
    and "\<exists>c. BN_add B x y = Some c \<and> val c = val x + val y"
    and "\<exists>c. BN_sub B x y = Some c \<and> val c = val x - val y"
    and "\<exists>c. BN_mul B x y = Some c \<and> val c = val x * val y"
    and "val y \<noteq> 0 \<Longrightarrow> \<exists>q r. BN_div B x y = Some (q, r) \<and> val q = trunc_div (val x) (val y)"
    and "val y = 0 \<Longrightarrow> BN_div B x y = None"
    and "\<exists>c. BN_lshift B x k = Some c \<and> val c = val x * 2 ^ k"
    and "\<exists>c. BN_rshift B x k = Some c \<and> val c = trunc_div (val x) (2 ^ k)"
  using assms by (simp_all add: openssl_ok_def) (metis+)

subsection \<open>Writing an mpi\<close>

lemma byte_of_word: "ucast (x AND 0xff) = (word_of_nat (unat x) :: byte)" for x :: "'a::len word"
proof -
  have m: "(0xff :: 'a word) = mask 8" by (simp add: mask_numeral)
  show ?thesis unfolding m by (intro bit_eqI) (auto simp: bit_simps dest: bit_imp_le_length)
qed

lemma mpi_header_words: "rev (mpi_header n) = words_of 4 (unat n)"
  by (simp add: mpi_header_def byte_of_word unat_drop words_of_4)

lemma wval_mpi_header: "wval (rev (mpi_header n)) = unat n"
  using unat_lt_2p [of n] by (simp add: mpi_header_words wval_words_of)

lemma length_mpi_header [simp]: "length (mpi_header n) = 4"
  by (simp add: mpi_header_def)

lemma mpi_wf_header: "length p < 2 ^ 32 \<Longrightarrow> mpi_wf (mpi_header (word_of_nat (length p)) @ p)"
  by (simp add: mpi_wf_def wval_mpi_header unat_of_nat)

text \<open>The two copying loops are one: drop leading zero bytes, then make room for the sign bit.\<close>

fun body_of :: "bool \<Rightarrow> bool \<Rightarrow> byte list \<Rightarrow> byte list" where
  "body_of neg lead [] = []"
| "body_of neg lead (c # cs) =
     (if lead
      then if c = 0 then body_of neg True cs
           else if c AND 0x80 \<noteq> 0 then (if neg then 0x80 else 0) # c # body_of neg False cs
           else (if neg then c OR 0x80 else c) # body_of neg False cs
      else c # body_of neg False cs)"

fun be_bytes64 :: "nat \<Rightarrow> u64 \<Rightarrow> byte list" where
  "be_bytes64 0 n = []"
| "be_bytes64 (Suc k) n = ucast (drop_bit 56 n AND 0xff) # be_bytes64 k (push_bit 8 n)"

lemma setint64_loop_body: "setint64_loop k neg n lead = body_of neg lead (be_bytes64 k n)"
  by (induction k arbitrary: n lead) (simp_all add: Let_def)

lemma setuint256_loop_body: "setuint256_loop lead cs = body_of False lead cs"
  by (induction cs arbitrary: lead) simp_all

lemma body_of_False [simp]: "body_of neg False cs = cs"
  by (induction cs) simp_all

lemma length_body_of: "length (body_of neg True cs) \<le> length cs + 1"
  by (induction cs) auto

lemma and_80_iff: "c AND 0x80 \<noteq> 0 \<longleftrightarrow> bit c 7" for c :: byte
proof -
  have p: "(0x80 :: byte) = 2 ^ 7" by simp
  have "bit (0x80 :: byte) n \<longleftrightarrow> n = 7" for n
    unfolding p bit_exp_iff by auto
  then have "bit (c AND 0x80) n \<longleftrightarrow> bit (if bit c 7 then 0x80 else (0::byte)) n" for n
    unfolding bit_and_iff by (cases "bit c 7"; cases "n = 7") simp_all
  then have "c AND 0x80 = (if bit c 7 then 0x80 else 0)"
    by (intro bit_eqI) blast
  then show ?thesis by simp
qed

lemma and_7f: "c AND 0x7f = take_bit 7 c" for c :: byte
  by (simp add: take_bit_eq_mask mask_numeral)

lemma or_80: "c OR 0x80 = set_bit 7 c" for c :: byte
  by (simp add: set_bit_eq_or)

lemma take7_id: "\<not> bit c 7 \<Longrightarrow> take_bit 7 c = c" for c :: byte
  by (rule bit_eqI) (auto simp: bit_simps less_Suc_eq numeral_eq_Suc)

lemma take7_set7: "take_bit 7 (set_bit 7 c) = take_bit 7 c" for c :: byte
  by (rule bit_eqI) (auto simp: bit_simps)

lemma body_val_body_of:
  "body_val (body_of neg True cs) = (if neg then - 1 else 1) * int (wval (rev cs))"
proof (induction cs)
  case Nil
  then show ?case by simp
next
  case (Cons c cs)
  consider "c = 0" | "c \<noteq> 0" "bit c 7" | "c \<noteq> 0" "\<not> bit c 7" by blast
  then show ?case
  proof cases
    case 1
    then show ?thesis using Cons by (simp add: wval_append)
  next
    case 2
    then have "c AND 0x80 \<noteq> 0" by (simp add: and_80_iff)
    with 2 show ?thesis by (simp add: Let_def and_7f wval_append)
  next
    case 3
    then have "c AND 0x80 = 0" using and_80_iff by blast
    with 3 show ?thesis
      by (simp add: Let_def and_7f or_80 take7_set7 take7_id bit_simps wval_append)
  qed
qed

lemma wval_be_bytes64: "k \<le> 8 \<Longrightarrow> wval (rev (be_bytes64 k n)) = unat n div 2 ^ (64 - 8 * k)"
proof (induction k arbitrary: n)
  case 0
  then show ?case using unat_lt_2p [of n] by simp
next
  case (Suc k)
  let ?n = "unat n"
  have len: "length (be_bytes64 j m) = j" for j m by (induction j arbitrary: m) simp_all
  have hi: "unat (ucast (drop_bit 56 n AND 0xff) :: byte) = ?n div 2 ^ 56"
    using unat_lt_2p [of n] by (simp add: byte_of_word unat_drop unat_of_nat)
  have lo: "unat (push_bit 8 n) = 2 ^ 8 * (?n mod 2 ^ 56)"
  proof -
    have "unat (push_bit 8 n) = (?n * 2 ^ 8) mod 2 ^ 64"
      by (simp add: push_bit_eq_mult unat_word_ariths)
    also have "\<dots> = 2 ^ 8 * (?n mod 2 ^ 56)"
      using mult_mod_right [of "2 ^ 8" ?n "2 ^ 56"] by (simp add: mult.commute)
    finally show ?thesis .
  qed
  have e: "2 ^ (64 - 8 * k) = 2 ^ 8 * (2 ^ (64 - 8 * Suc k) :: nat)"
    using Suc.prems by (simp only: power_add [symmetric]) simp
  have f: "(2 :: nat) ^ 56 = 2 ^ (64 - 8 * Suc k) * 2 ^ (8 * k)"
    using Suc.prems by (simp only: power_add [symmetric]) simp
  have "unat (push_bit 8 n) div 2 ^ (64 - 8 * k) = ?n mod 2 ^ 56 div 2 ^ (64 - 8 * Suc k)"
    unfolding lo e by (rule div_mult_mult1) simp
  then have "wval (rev (be_bytes64 (Suc k) n)) =
      ?n mod 2 ^ 56 div 2 ^ (64 - 8 * Suc k) + 2 ^ (8 * k) * (?n div 2 ^ 56)"
    using Suc by (simp add: wval_append len hi del: One_nat_def)
  also have "\<dots> = (?n mod 2 ^ 56 + 2 ^ 56 * (?n div 2 ^ 56)) div 2 ^ (64 - 8 * Suc k)"
    by (subst (3) f) (simp add: mult.assoc)
  finally show ?case by simp
qed



lemma val_written:
  assumes "openssl_ok B val" "length cs \<le> 32"
  shows "val (BN_mpi2bn B (mpi_header (word_of_nat (length (body_of neg True cs))) @ body_of neg True cs))
    = (if neg then - 1 else 1) * int (wval (rev cs))"
proof -
  have "length (body_of neg True cs) < 2 ^ 32" using length_body_of [of neg cs] assms(2) by simp
  then show ?thesis using openssl_okD(2) [OF assms(1) mpi_wf_header] by (simp add: body_val_body_of)
qed

lemma length_be_bytes64 [simp]: "length (be_bytes64 k n) = k"
  by (induction k arbitrary: n) simp_all

lemma val_setuint64: "openssl_ok B val \<Longrightarrow> val (setuint64 B n) = uint n"
  by (simp add: setuint64_def Let_def setint64_loop_body val_written wval_be_bytes64)

lemma val_setint64: 
  assumes "openssl_ok B val"
  shows "val (setint64 B sn) = sint sn"
proof (cases "sn <s 0")
  case False
  then have "sint sn = uint sn" by (simp add: word_sless_alt sint_nonneg)
  with False assms show ?thesis
    by (simp add: setint64_def Let_def setint64_loop_body val_written wval_be_bytes64)
next
  case True
  then have neg: "sint sn < 0" by (simp add: word_sless_alt)
  have "- (sn + 1) + 1 = - sn" by simp
  moreover have "int (unat (- sn)) = - sint sn" using neg by (rule unat_uminus_neg)
  ultimately show ?thesis using True assms
    by (simp add: setint64_def Let_def setint64_loop_body val_written wval_be_bytes64)
qed

lemma val_setuint256: "openssl_ok B val \<Longrightarrow> length n = 8 \<Longrightarrow> val (setuint256 B n) = int (wval n)"
  by (simp add: setuint256_def Let_def setuint256_loop_body val_written wval_u_bytes)

lemma val_bn_of_int32:
  assumes "openssl_ok B val"
  shows "\<exists>b. bn_of_int32 B n = Some b \<and> val b = sint n"
proof (cases "0 \<le>s n")
  case True
  then have "sint n = uint n" by (simp add: word_sle_eq sint_nonneg)
  with True show ?thesis using openssl_okE(1) [OF assms, of "ucast n"]
    by (auto simp: bn_of_int32_def setulong_def)
next
  case False
  have "- (2 ^ 63) \<le> sint n" "sint n < 2 ^ 63" using sint_ge [of n] sint_lt [of n] by simp_all
  then have "sint (scast n :: u64) = sint n"
    by (simp add: signed_scast_eq signed_take_bit_int_eq_self)
  with False show ?thesis by (simp add: bn_of_int32_def val_setint64 [OF assms])
qed

subsection \<open>Reading an mpi\<close>

lemma wval_le_bytes: "wval (le_bytes n) = n"
proof (induction n rule: le_bytes.induct)
  case (1 n)
  show ?case
  proof (cases "n = 0")
    case False
    then have "wval (le_bytes n) = n mod 256 + 256 * (n div 256)"
      using 1 by (subst le_bytes.simps) (simp add: unat_of_nat)
    then show ?thesis by simp
  qed (simp add: le_bytes.simps)
qed

lemma length_le_bytes: "length (le_bytes n) \<le> k \<longleftrightarrow> n < 256 ^ k"
proof (induction k arbitrary: n)
  case 0
  then show ?case by (subst le_bytes.simps) simp
next
  case (Suc k)
  have "n div 256 < 256 ^ k \<longleftrightarrow> n < 256 ^ Suc k" by (simp add: div_less_iff_less_mult mult.commute)
  then show ?case using Suc [of "n div 256"] by (subst le_bytes.simps) simp
qed

lemma last_le_bytes: "0 < n \<Longrightarrow> le_bytes n \<noteq> [] \<and> last (le_bytes n) \<noteq> 0"
proof (induction n rule: le_bytes.induct)
  case (1 n)
  show ?case
  proof (cases "n div 256 = 0")
    case True
    then have "n < 256" by (simp add: div_eq_0_iff)
    then have "(word_of_nat n :: byte) \<noteq> 0" using 1(2) by (intro word_of_nat_neq_0) simp_all
    then show ?thesis using True 1(2) by (subst (1 2) le_bytes.simps) (simp add: le_bytes.simps [of 0])
  next
    case False
    then show ?thesis using 1 by (subst (1 2) le_bytes.simps) simp
  qed
qed


lemma wval_mpi_magnitude_body: "mpi_body v = h # t \<Longrightarrow> wval (rev ((h AND 0x7f) # t)) = nat \<bar>v\<bar>"
  and bit_mpi_body: "mpi_body v = h # t \<Longrightarrow> bit h 7 \<longleftrightarrow> v < 0"
  and mpi_body_Nil: "mpi_body v = [] \<longleftrightarrow> v = 0"
proof -
  obtain m where m: "m = rev (le_bytes (nat \<bar>v\<bar>))" by simp
  have w: "wval (rev m) = nat \<bar>v\<bar>" by (simp add: m wval_le_bytes)
  have e: "m = [] \<longleftrightarrow> v = 0" unfolding m using last_le_bytes [of "nat \<bar>v\<bar>"]
    by (cases "v = 0") (simp_all add: le_bytes.simps [of 0])
  show "mpi_body v = [] \<longleftrightarrow> v = 0"
    using e unfolding mpi_body_def Let_def m [symmetric] by auto
  assume a: "mpi_body v = h # t"
  obtain h' t' where m': "(if m \<noteq> [] \<and> bit (hd m) 7 then 0 # m else m) = h' # t'"
    using e a unfolding mpi_body_def Let_def m [symmetric] by (cases m) (auto split: if_splits)
  have nb: "\<not> bit h' 7" using m' by (cases m) (auto split: if_splits)
  have w': "wval (rev (h' # t')) = nat \<bar>v\<bar>"
    using w unfolding m' [symmetric] by (simp add: wval_append)
  have ht: "h = (if v < 0 then h' OR 0x80 else h')" "t = t'"
    using a unfolding mpi_body_def Let_def m [symmetric] m' by (auto split: if_splits)
  show "bit h 7 \<longleftrightarrow> v < 0" using nb unfolding ht(1) or_80 by (simp add: bit_simps)
  have "h AND 0x7f = h'" using nb unfolding ht(1) and_7f or_80 by (simp add: take7_set7 take7_id)
  with w' ht(2) show "wval (rev ((h AND 0x7f) # t)) = nat \<bar>v\<bar>" by simp
qed

lemma body_val_mpi_body: "body_val (mpi_body v) = v"
  using wval_mpi_magnitude_body [of v] bit_mpi_body [of v] mpi_body_Nil [of v]
  by (cases "mpi_body v") (auto simp: Let_def)

lemma length_mpi_body: "\<bar>v\<bar> < 256 ^ k \<Longrightarrow> length (mpi_body v) \<le> Suc k"
proof -
  assume "\<bar>v\<bar> < 256 ^ k"
  then have "nat \<bar>v\<bar> < 256 ^ k" by (simp add: nat_less_iff)
  then show ?thesis using length_le_bytes [of "nat \<bar>v\<bar>" k]
    unfolding mpi_body_def Let_def by (cases "rev (le_bytes (nat \<bar>v\<bar>))") auto
qed

lemma mpi_wf_enc: "length (mpi_body v) < 2 ^ 32 \<Longrightarrow> mpi_wf (mpi_enc v)"
  by (simp add: mpi_wf_def mpi_enc_def wval_words_of)

lemma wval_mpi_magnitude: "wval (mpi_magnitude w (mpi_enc v)) = nat \<bar>v\<bar> mod 256 ^ w"
  and length_mpi_magnitude [simp]: "length (mpi_magnitude w bs) = w"
proof -
  let ?e = "mpi_enc v"
  let ?r = "rev (drop 4 (if 4 < length ?e then ?e[4 := ?e ! 4 AND 0x7f] else ?e))"
  have r: "wval ?r = nat \<bar>v\<bar>"
  proof (cases "mpi_body v")
    case Nil
    then show ?thesis using mpi_body_Nil [of v] by (simp add: mpi_enc_def)
  next
    case (Cons h t)
    have "drop 4 (?e[4 := ?e ! 4 AND 0x7f]) = (h AND 0x7f) # t"
      by (simp add: mpi_enc_def Cons list_update_append nth_append)
    moreover have "4 < length ?e" by (simp add: mpi_enc_def Cons)
    ultimately show ?thesis using wval_mpi_magnitude_body [OF Cons] by (simp only: if_True)
  qed
  have "(256 :: nat) ^ w = 2 ^ (LENGTH(8) * w)" by (simp add: power_mult)
  then show "wval (mpi_magnitude w ?e) = nat \<bar>v\<bar> mod 256 ^ w"
    using wval_take [of w ?r] unfolding r mpi_magnitude_def Let_def by (simp add: wval_append)
  show "length (mpi_magnitude w bs) = w" by (simp add: mpi_magnitude_def Let_def)
qed

lemma length_mpi_enc: "4 \<le> length (mpi_enc v)"
  by (simp add: mpi_enc_def)

lemma wval_getuint256:
  assumes "openssl_ok B val"
  shows "wval (getuint256 B b) = nat \<bar>val b\<bar> mod 2 ^ 256" and "length (getuint256 B b) = 8"
  using length_mpi_enc [of "val b"] wval_mpi_magnitude [of 32 "val b"]
  by (simp_all add: getuint256_def Let_def openssl_okD(3) [OF assms] wval_u_of_bytes)

lemma unat_getuint64:
  assumes "openssl_ok B val"
  shows "unat (getuint64 B b) = nat \<bar>val b\<bar> mod 2 ^ 64"
  using length_mpi_enc [of "val b"] wval_mpi_magnitude [of 8 "val b"]
  by (simp add: getuint64_def Let_def openssl_okD(3) [OF assms] unat_of_nat)

lemma getuint256_setuint256:
  assumes "openssl_ok B val" "length n = 8"
  shows "getuint256 B (setuint256 B n) = n"
proof (rule wval_inj)
  show "wval (getuint256 B (setuint256 B n)) = wval n"
    using wval_bound [of n] assms by (simp add: wval_getuint256 val_setuint256)
qed (simp add: wval_getuint256(2) [OF assms(1)] assms(2))

lemma val_setvch:
  assumes "openssl_ok B val" "length vch < 2 ^ 32"
  shows "val (setvch B vch) = body_val (rev vch)"
  using openssl_okD(2) [OF assms(1) mpi_wf_header [of "rev vch"]] assms(2)
  by (simp add: setvch_def)

lemma getvch_body: "openssl_ok B val \<Longrightarrow> getvch B b = rev (mpi_body (val b))"
  by (simp add: getvch_def openssl_okD(3) Let_def mpi_enc_def)

lemma setvch_getvch:
  assumes "openssl_ok B val" "\<bar>val b\<bar> < 256 ^ k" "k < 2 ^ 32 - 1"
  shows "val (setvch B (getvch B b)) = val b"
proof -
  have "length (mpi_body (val b)) < 2 ^ 32" using length_mpi_body [OF assms(2)] assms(3) by simp
  then show ?thesis using assms(1) by (simp add: getvch_body val_setvch body_val_mpi_body)
qed



subsection \<open>Compact targets\<close>

text \<open>The number a compact target denotes: a byte count, a sign bit and a 23-bit mantissa.\<close>

definition compact_val :: "u32 \<Rightarrow> int" where
  "compact_val c =
     (let s = unat c div 2 ^ 24; m = unat c mod 2 ^ 23;
          mag = (if s \<le> 3 then m div 256 ^ (3 - s) else m * 256 ^ (s - 3))
      in if s \<noteq> 0 \<and> bit c 23 then - int mag else int mag)"

lemma mantissa_bytes: "n mod 2 ^ 23 = n mod 256 + 256 * (n div 2 ^ 8 mod 256) + 65536 * (n div 2 ^ 16 mod 128)"
  for n :: nat
proof -
  have "n mod (256 * (256 * 128)) = 256 * (n div 256 mod (256 * 128)) + n mod 256" by (rule mod_mult2_eq)
  moreover have "n div 256 mod (256 * 128) = 256 * (n div 256 div 256 mod 128) + n div 256 mod 256"
    by (rule mod_mult2_eq)
  ultimately show ?thesis by (simp add: div_mult2_eq [symmetric])
qed

lemma unat_and_7f: "unat (c AND 0x7f) = unat c mod 128" for c :: byte
  using take_bit_eq_mod [of 7 "unat c"] unfolding and_7f by (subst unsigned_take_bit_eq) simp

lemma wval_zero_prefix: "wval (replicate k 0 @ xs) = 2 ^ (LENGTH('a) * k) * wval (xs :: 'a::len word list)"
  by (simp add: wval_append)

definition SetCompact_buf :: "u32 \<Rightarrow> byte list" where
  "SetCompact_buf c = take (unat c div 2 ^ 24)
     ([word_of_nat (unat c div 2 ^ 16), word_of_nat (unat c div 2 ^ 8), word_of_nat (unat c)]
        @ replicate (unat c div 2 ^ 24 - 3) 0)"

lemma SetCompact_body:
  "SetCompact B c = BN_mpi2bn B ([0, 0, 0, word_of_nat (unat c div 2 ^ 24)] @ SetCompact_buf c)"
proof -
  define k where "k = unat (drop_bit 24 c)"
  have k: "k = unat c div 2 ^ 24" by (simp add: k_def unat_drop)
  have le: "n \<le> drop_bit 24 c \<longleftrightarrow> unat n \<le> k" for n by (simp add: word_le_nat_alt k_def)
  have uc: "(ucast (drop_bit 24 c) :: byte) = word_of_nat k"
    by (simp add: k_def)
  have r: "replicate 4 x = [x, x, x, x]" "replicate 5 x = [x, x, x, x, x]"
    "replicate 6 x = [x, x, x, x, x, x]" "replicate (7 + j) x = x # x # x # x # x # x # x # replicate j x"
    for x :: byte and j
    by (simp_all add: numeral_eq_Suc)
  have "k = 0 \<or> k = 1 \<or> k = 2 \<or> (\<exists>j. k = 3 + j)" by presburger
  then show ?thesis
    unfolding SetCompact_def Let_def le k_def [symmetric] uc byte_of_word unat_drop SetCompact_buf_def k [symmetric]
    by (elim disjE exE) (simp_all add: r)
qed

lemma mpi_wf_SetCompact: "mpi_wf ([0, 0, 0, word_of_nat (unat c div 2 ^ 24)] @ SetCompact_buf c)"
  and body_val_SetCompact: "body_val (SetCompact_buf c) = compact_val c"
proof -
  define n where "n = unat c"
  define s where "s = n div 2 ^ 24"
  define b2 where "b2 = (word_of_nat (n div 2 ^ 16) :: byte)"
  define b1 where "b1 = (word_of_nat (n div 2 ^ 8) :: byte)"
  define b0 where "b0 = (word_of_nat n :: byte)"
  have s: "s < 256" using unat_lt_2p [of c] by (simp add: s_def n_def)
  have buf: "SetCompact_buf c = take s ([b2, b1, b0] @ replicate (s - 3) 0)"
    by (simp add: SetCompact_buf_def n_def s_def b2_def b1_def b0_def)
  have wf: "mpi_wf ([0, 0, 0, word_of_nat s] @ SetCompact_buf c)"
    using s unfolding buf by (simp add: mpi_wf_def unat_of_nat)
  then show "mpi_wf ([0, 0, 0, word_of_nat (unat c div 2 ^ 24)] @ SetCompact_buf c)"
    by (simp add: s_def n_def)
  have sign: "bit b2 7 \<longleftrightarrow> bit c 23"
  proof -
    have "b2 = ucast (drop_bit 16 c)" unfolding b2_def n_def unat_drop [symmetric] by simp
    then show ?thesis by (simp add: bit_simps)
  qed
  have v: "unat (b2 AND 0x7f) = n div 2 ^ 16 mod 128" "unat b1 = n div 2 ^ 8 mod 256" "unat b0 = n mod 256"
    by (simp_all add: b2_def b1_def b0_def unat_and_7f unat_of_nat mod_mod_cancel)
  have m: "n mod 2 ^ 23 = unat b0 + 256 * unat b1 + 65536 * unat (b2 AND 0x7f)"
    unfolding v by (rule mantissa_bytes)
  have "unat b0 < 256" "unat b1 < 256" using unat_lt_2p [of b0] unat_lt_2p [of b1] by simp_all
  then have d: "n mod 2 ^ 23 div 256 = unat b1 + 256 * unat (b2 AND 0x7f)"
      "n mod 2 ^ 23 div 65536 = unat (b2 AND 0x7f)"
    unfolding m by linarith+
  have mag: "compact_val c = (if s \<noteq> 0 \<and> bit b2 7 then - int mag else int mag)"
    if "mag = (if s \<le> 3 then n mod 2 ^ 23 div 256 ^ (3 - s) else n mod 2 ^ 23 * 256 ^ (s - 3))" for mag
    unfolding compact_val_def Let_def sign n_def [symmetric] s_def [symmetric] that ..
  have "s = 0 \<or> s = 1 \<or> s = 2 \<or> (\<exists>j. s = 3 + j)" by presburger
  then show "body_val (SetCompact_buf c) = compact_val c"
  proof (elim disjE exE)
    fix j assume j: "s = 3 + j"
    then have "SetCompact_buf c = b2 # b1 # b0 # replicate j 0" by (simp add: buf)
    moreover have "wval (rev ((b2 AND 0x7f) # b1 # b0 # replicate j 0)) = n mod 2 ^ 23 * 256 ^ j"
      unfolding m by (simp only: rev.simps rev_replicate append_assoc wval_zero_prefix) (simp add: power_mult)
    ultimately have "body_val (SetCompact_buf c) =
        (if bit b2 7 then - int (n mod 2 ^ 23 * 256 ^ j) else int (n mod 2 ^ 23 * 256 ^ j))"
      by (simp only: body_val.simps Let_def)
    moreover have "(if s \<le> 3 then n mod 2 ^ 23 div 256 ^ (3 - s) else n mod 2 ^ 23 * 256 ^ (s - 3)) =
        n mod 2 ^ 23 * 256 ^ j" "s \<noteq> 0"
      unfolding j by simp_all
    ultimately show ?thesis unfolding mag [OF refl] by (simp only: simp_thms)
  next
    assume "s = 0"
    moreover from this have "n mod 2 ^ 23 div 256 ^ 3 = 0" by simp
    ultimately show ?thesis by (simp add: mag [OF refl] buf)
  next
    assume "s = 1"
    then show ?thesis using d by (simp add: mag [OF refl] buf)
  next
    assume "s = 2"
    then show ?thesis using d by (simp add: mag [OF refl] buf)
  qed
qed

lemma val_SetCompact: "openssl_ok B val \<Longrightarrow> val (SetCompact B c) = compact_val c"
  using openssl_okD(2) [OF _ mpi_wf_SetCompact]
  by (simp add: SetCompact_body body_val_SetCompact)

lemma compact_bytes:
  "(push_bit 24 (ucast s) OR push_bit 16 (ucast x) OR push_bit 8 (ucast y) OR ucast z :: u32)
     = word_of_nat (wval [z, y, x, s])" for s x y z :: byte
proof (rule bit_eqI)
  fix k assume "possible_bit TYPE(u32) k"
  then have "k < 32" by simp
  then have "k div 8 = 0 \<or> k div 8 = 1 \<or> k div 8 = 2 \<or> k div 8 = 3" by arith
  moreover have "k div 8 = 0 \<Longrightarrow> k mod 8 = k" "k div 8 = 1 \<Longrightarrow> k mod 8 = k - 8"
    "k div 8 = 2 \<Longrightarrow> k mod 8 = k - 16" "k div 8 = 3 \<Longrightarrow> k mod 8 = k - 24" by arith+
  moreover have "k div 8 = 0 \<longleftrightarrow> k < 8" "k div 8 = 1 \<longleftrightarrow> 8 \<le> k \<and> k < 16" "k div 8 = 2 \<longleftrightarrow> 16 \<le> k \<and> k < 24"
    "k div 8 = 3 \<longleftrightarrow> 24 \<le> k \<and> k < 32" by arith+
  ultimately show "bit (push_bit 24 (ucast s) OR push_bit 16 (ucast x) OR push_bit 8 (ucast y) OR ucast z :: u32) k
      = bit (word_of_nat (wval [z, y, x, s]) :: u32) k"
    using \<open>k < 32\<close>
    by (elim disjE) (auto simp: bit_of_nat_iff bit_wval bit_simps dest: bit_imp_le_length simp del: wval.simps)
qed

lemma unat_GetCompact:
  assumes "openssl_ok B val" and s: "s = length (mpi_body (val b))" "s < 256"
    and q: "q = take 3 (mpi_body (val b)) @ [0, 0, 0]"
  shows "unat (GetCompact B b) = wval [q ! 2, q ! 1, q ! 0, word_of_nat s]"
proof -
  let ?m = "mpi_body (val b)"
  have sz: "word_of_nat (length (mpi_enc (val b))) - 4 = (ucast (word_of_nat s :: byte) :: u32)"
  proof -
    have "word_of_nat (length (mpi_enc (val b))) - 4 = (word_of_nat s :: u32)"
      using s(1) by (simp add: mpi_enc_def)
    moreover have "(word_of_nat s :: u32) = ucast (word_of_nat s :: byte)"
      using s(2) by (simp add: word_unat_eq_iff unat_of_nat unsigned_ucast_eq take_bit_nat_eq_self)
    ultimately show ?thesis by simp
  qed
  have us: "unat (ucast (word_of_nat s :: byte) :: u32) = s"
    using s(2) by (simp add: unat_of_nat unsigned_ucast_eq take_bit_nat_eq_self)
  have le: "n \<le> (ucast (word_of_nat s :: byte) :: u32) \<longleftrightarrow> unat n \<le> s" for n
    unfolding word_le_nat_alt us ..
  have nth: "mpi_enc (val b) ! (4 + i) = ?m ! i" for i
    by (simp add: mpi_enc_def nth_append)
  have nths: "mpi_enc (val b) ! 4 = ?m ! 0" "mpi_enc (val b) ! 5 = ?m ! 1" "mpi_enc (val b) ! 6 = ?m ! 2"
    using nth [of 0] nth [of 1] nth [of 2] by simp_all
  have "GetCompact B b = push_bit 24 (ucast (word_of_nat s :: byte)) OR push_bit 16 (ucast (q ! 0))
      OR push_bit 8 (ucast (q ! 1)) OR ucast (q ! 2)"
  proof -
    have "s = 0 \<or> s = 1 \<or> s = 2 \<or> 3 \<le> s" by arith
    then show ?thesis
      unfolding GetCompact_def Let_def openssl_okD(3) [OF assms(1)] sz le nths
      by (elim disjE) (use s(1) in \<open>auto simp: q nth_append or.assoc\<close>)
  qed
  then have "GetCompact B b = word_of_nat (wval [q ! 2, q ! 1, q ! 0, word_of_nat s])"
    unfolding compact_bytes .
  moreover have "wval [q ! 2, q ! 1, q ! 0, word_of_nat s] < 2 ^ 32"
    using wval_bound [of "[q ! 2, q ! 1, q ! 0, word_of_nat s]"] by (simp only: list.size) simp
  ultimately show ?thesis by (simp add: unat_of_nat del: wval.simps)
qed


lemma unat_of_nat_len8: "k < 256 \<Longrightarrow> unat (word_of_nat k :: byte) = k"
  by (simp add: unat_of_nat)

text \<open>GetCompact keeps the three leading bytes of the mpi body and drops the rest.\<close>

definition compact_trunc :: "int \<Rightarrow> int" where
  "compact_trunc v =
     (let k = length (mpi_body v) - 3 in sgn v * (\<bar>v\<bar> div 256 ^ k * 256 ^ k))"

lemma SetCompact_buf_GetCompact:
  assumes "openssl_ok B val" and s: "s = length (mpi_body (val b))" "s < 256"
  shows "SetCompact_buf (GetCompact B b) = take 3 (mpi_body (val b)) @ replicate (s - 3) 0"
proof -
  define q where "q = take 3 (mpi_body (val b)) @ [0, 0, 0]"
  let ?n = "unat (GetCompact B b)"
  have n: "?n = wval [q ! 2, q ! 1, q ! 0, word_of_nat s]"
    by (rule unat_GetCompact [OF assms q_def])
  have w: "words_of 4 ?n = [q ! 2, q ! 1, q ! 0, word_of_nat s]"
  proof -
    have "length [q ! 2, q ! 1, q ! 0, word_of_nat s] = 4" by simp
    with words_of_wval [of "[q ! 2, q ! 1, q ! 0, word_of_nat s]"] show ?thesis by (simp only: n)
  qed
  have n24: "?n div 2 ^ 24 = s"
  proof -
    have "word_of_nat (?n div 2 ^ 24) = (word_of_nat s :: byte)"
      using w unfolding words_of_4 by simp
    moreover have "?n div 2 ^ 24 < 256" using unat_lt_2p [of "GetCompact B b"] by simp
    ultimately show ?thesis using s(2)
      by (metis unat_of_nat_len8)
  qed
  have "word_of_nat ?n = q ! 2" "word_of_nat (?n div 2 ^ 8) = q ! 1" "word_of_nat (?n div 2 ^ 16) = q ! 0"
    using w unfolding words_of_4 by simp_all
  then have "SetCompact_buf (GetCompact B b) = take s ([q ! 0, q ! 1, q ! 2] @ replicate (s - 3) 0)"
    unfolding SetCompact_buf_def n24 by (simp only:)
  also have "\<dots> = take 3 (mpi_body (val b)) @ replicate (s - 3) 0"
  proof (cases "mpi_body (val b)")
    case (Cons a r)
    then show ?thesis unfolding s(1) q_def
      by (cases r; cases "tl r") simp_all
  qed (simp add: s(1))
  finally show ?thesis .
qed

lemma compact_val_GetCompact:
  assumes "openssl_ok B val" "length (mpi_body (val b)) < 256"
  shows "compact_val (GetCompact B b) = compact_trunc (val b)"
proof -
  define v where "v = val b"
  define k where "k = length (mpi_body v) - 3"
  have e: "compact_val (GetCompact B b) = body_val (take 3 (mpi_body v) @ replicate k 0)"
    unfolding v_def k_def body_val_SetCompact [symmetric]
    using SetCompact_buf_GetCompact [OF assms(1) refl assms(2)] by simp
  show ?thesis
  proof (cases "mpi_body v")
    case Nil
    then show ?thesis using e mpi_body_Nil [of v] by (simp add: compact_trunc_def k_def v_def)
  next
    case (Cons h t)
    have sg: "bit h 7 \<longleftrightarrow> v < 0" and mag: "wval (rev ((h AND 0x7f) # t)) = nat \<bar>v\<bar>"
      using bit_mpi_body [OF Cons] wval_mpi_magnitude_body [OF Cons] by simp_all
    have p: "(2 :: nat) ^ (8 * k) = 256 ^ k" using power_mult [of "2 :: nat" 8 k] by simp
    let ?top = "(h AND 0x7f) # take 2 t"
    have "rev ((h AND 0x7f) # t) = rev (drop 2 t) @ rev ?top"
      by (simp flip: rev_append)
    then have "nat \<bar>v\<bar> = wval (rev (drop 2 t)) + 2 ^ (8 * k) * wval (rev ?top)"
      using mag Cons by (simp add: wval_append k_def)
    moreover have "wval (rev (drop 2 t)) < 2 ^ (8 * k)"
      using wval_bound [of "rev (drop 2 t)"] Cons by (simp add: k_def)
    ultimately have "nat \<bar>v\<bar> div 256 ^ k = wval (rev ?top)" unfolding p by simp
    moreover have "wval (rev (?top @ replicate k 0)) = wval (rev ?top) * 256 ^ k"
      by (simp only: rev_append rev_replicate wval_zero_prefix) (simp add: p del: rev.simps wval.simps)
    ultimately have "wval (rev (?top @ replicate k 0)) = nat \<bar>v\<bar> div 256 ^ k * 256 ^ k"
      by (simp only:)
    then have "int (wval (rev (?top @ replicate k 0))) = \<bar>v\<bar> div 256 ^ k * 256 ^ k"
      by (simp only:) (simp add: zdiv_int)
    moreover have "sgn v = (if bit h 7 then - 1 else 1)" using sg Cons mpi_body_Nil [of v] by (auto simp: sgn_if)
    moreover have "take 3 (mpi_body v) = h # take 2 t" unfolding Cons by simp
    ultimately show ?thesis unfolding e compact_trunc_def v_def [symmetric] k_def [symmetric] Let_def
      by (simp add: Let_def)
  qed
qed

text \<open>The size of the shortest body, and the numbers the compact form represents exactly.\<close>

lemma bit7_unat: "unat (b :: byte) < 128 \<Longrightarrow> \<not> bit b 7"
proof
  assume l: "unat b < 128" and "bit b 7"
  then have "bit (unat b) 7" by (simp add: bit_unsigned_iff)
  then have "odd (unat b div 128)" by (simp add: bit_iff_odd)
  with l show False by simp
qed

lemma length_mpi_body_bits:
  assumes "\<bar>v\<bar> < 2 ^ (8 * n - 1)" "0 < n"
  shows "length (mpi_body v) \<le> n"
proof -
  define N where "N = nat \<bar>v\<bar>"
  define m where "m = rev (le_bytes N)"
  have N: "N < 2 ^ (8 * n - 1)" using assms(1) unfolding N_def by (simp add: nat_less_iff)
  have "(2 :: nat) ^ (8 * n - 1) \<le> 2 ^ (8 * n)" by (rule power_increasing) simp_all
  also have "(2 :: nat) ^ (8 * n) = 256 ^ n" using power_mult [of "2 :: nat" 8 n] by simp
  finally have "N < 256 ^ n" using N by simp
  then have len: "length m \<le> n" unfolding m_def using length_le_bytes [of N n] by simp
  have top: "\<not> bit (hd m) 7" if ln: "length m = n"
  proof -
    obtain a r where m: "m = a # r" using ln assms(2) by (cases m) auto
    have "N = wval (rev m)" by (simp add: m_def wval_le_bytes)
    also have "\<dots> = wval (rev r) + 256 ^ (n - 1) * unat a"
    proof -
      have "n - 1 = length (rev r)" using ln m by simp
      moreover have "(2 :: nat) ^ (8 * length (rev r)) = 256 ^ length (rev r)" using power_mult [of "2 :: nat" 8 "length (rev r)"] by simp
      ultimately show ?thesis unfolding m rev.simps wval_append by simp
    qed
    finally have "256 ^ (n - 1) * unat a \<le> N" by simp
    moreover have "(2 :: nat) ^ (8 * n - 1) = 256 ^ (n - 1) * 128"
    proof -
      have "8 * n - 1 = 8 * (n - 1) + 7" using assms(2) by simp
      then show ?thesis using power_mult [of "2 :: nat" 8 "n - 1"] by (simp add: power_add)
    qed
    ultimately have "256 ^ (n - 1) * unat a < 256 ^ (n - 1) * 128" using N by linarith
    then show ?thesis using m bit7_unat [of a] by simp
  qed
  have "length (mpi_body v) = length (if m \<noteq> [] \<and> bit (hd m) 7 then 0 # m else m)" if "v \<noteq> 0"
  proof -
    have "m \<noteq> []" using last_le_bytes [of N] that by (simp add: m_def N_def)
    then show ?thesis unfolding mpi_body_def N_def [symmetric] m_def [symmetric] Let_def by auto
  qed
  moreover have "mpi_body 0 = []" by (simp add: mpi_body_def le_bytes.simps)
  ultimately show ?thesis using len top assms(2) by (cases "v = 0"; cases "length m = n") auto
qed

lemma compact_trunc_id:
  assumes "\<bar>v\<bar> < 2 ^ (8 * n - 1)" "3 \<le> n" "256 ^ (n - 3) dvd v"
  shows "compact_trunc v = v"
proof -
  let ?k = "length (mpi_body v) - 3"
  have "length (mpi_body v) \<le> n" using assms by (intro length_mpi_body_bits) simp_all
  then have "(256 :: int) ^ ?k dvd 256 ^ (n - 3)" by (intro le_imp_power_dvd) simp
  then have "256 ^ ?k dvd \<bar>v\<bar>" using assms(3) by (metis dvd_abs_iff dvd_trans)
  then have "\<bar>v\<bar> div 256 ^ ?k * 256 ^ ?k = \<bar>v\<bar>" by simp
  then show ?thesis unfolding compact_trunc_def Let_def by (simp add: mult_sgn_abs)
qed

lemma compact_trunc_compact_val: "compact_trunc (compact_val c) = compact_val c"
proof -
  let ?s = "unat c div 2 ^ 24" and ?m = "unat c mod 2 ^ 23"
  have m: "?m < 2 ^ 23" by simp
  show ?thesis
  proof (cases "?s \<le> 3")
    case True
    have "?m div 256 ^ (3 - ?s) < 2 ^ 23" using m by (meson div_le_dividend order.strict_trans1)
    then have "int (?m div 256 ^ (3 - ?s)) < 2 ^ 23" by (metis of_nat_less_iff of_nat_numeral of_nat_power)
    moreover have "\<bar>compact_val c\<bar> = int (?m div 256 ^ (3 - ?s))"
      unfolding compact_val_def Let_def using True by (simp only: if_True abs_minus abs_of_nat split: if_split) simp
    ultimately have "\<bar>compact_val c\<bar> < 2 ^ (8 * 3 - 1)" by simp
    then show ?thesis by (rule compact_trunc_id) simp_all
  next
    case False
    have "?m * 256 ^ (?s - 3) < 2 ^ 23 * 256 ^ (?s - 3)" using m by simp
    also have "(2 :: nat) ^ 23 * 256 ^ (?s - 3) = 2 ^ (8 * ?s - 1)"
    proof -
      have "8 * ?s - 1 = 23 + 8 * (?s - 3)" using False by simp
      then show ?thesis using power_mult [of "2 :: nat" 8 "?s - 3"] by (simp only: power_add) simp
    qed
    finally have "int (?m * 256 ^ (?s - 3)) < 2 ^ (8 * ?s - 1)" by (metis of_nat_less_iff of_nat_numeral of_nat_power)
    moreover have "\<bar>compact_val c\<bar> = int (?m * 256 ^ (?s - 3))"
      unfolding compact_val_def Let_def using False by (simp only: if_False abs_minus abs_of_nat split: if_split) simp
    ultimately have "\<bar>compact_val c\<bar> < 2 ^ (8 * ?s - 1)" by (simp only:)
    moreover have "256 ^ (?s - 3) dvd compact_val c" using False by (simp add: compact_val_def Let_def)
    ultimately show ?thesis using False by (intro compact_trunc_id [of _ ?s]) simp_all
  qed
qed

subsection \<open>Text\<close>

definition getulong :: "'bn openssl \<Rightarrow> 'bn \<Rightarrow> u64" where
  "getulong B b = BN_get_word B b"

definition c_isxdigit :: "char \<Rightarrow> bool" where \<comment> \<open>isxdigit of the C locale\<close>
  "c_isxdigit c =
     (let n = of_char c :: nat
      in 0x30 \<le> n \<and> n \<le> 0x39 \<or> 0x41 \<le> n \<and> n \<le> 0x46 \<or> 0x61 \<le> n \<and> n \<le> 0x66)"

fun bn_SetHex_digits :: "'bn openssl \<Rightarrow> 'bn \<Rightarrow> string \<Rightarrow> 'bn option" where
  "bn_SetHex_digits B this [] = Some this"
| "bn_SetHex_digits B this (c # psz) =
     (if c_isxdigit c
      then do { this1 \<leftarrow> bn_shl B this 4;
                n \<leftarrow> bn_of_int32 B (ucast (phexdigit c));
                this2 \<leftarrow> BN_add B this1 n;
                bn_SetHex_digits B this2 psz }
      else Some this)"

definition bn_SetHex :: "'bn openssl \<Rightarrow> string \<Rightarrow> 'bn option" where
  "bn_SetHex B str =
     (let psz = dropWhile c_isspace str;
          fNegative = (psz \<noteq> [] \<and> hd psz = CHR ''-'');
          psz = (if fNegative then tl psz else psz);
          psz = dropWhile c_isspace (skip_0x psz)
      in do { zero \<leftarrow> bn_of_int32 B 0;
              this \<leftarrow> bn_SetHex_digits B zero psz;
              if fNegative then do { z \<leftarrow> bn_of_int32 B 0; bn_minus B z this } else Some this })"

text \<open>
  The loop of ToString ends when the quotient reaches 0. The source indexes the 16 digits with
  the remainder; an index past them (a base over 16) is undefined behaviour and has no result.
\<close>

partial_function (option) bn_ToString_loop :: "'bn openssl \<Rightarrow> 'bn \<Rightarrow> 'bn \<Rightarrow> 'bn \<Rightarrow> string \<Rightarrow> string option" where
  "bn_ToString_loop B bnBase bn0 bn str =
     (if BN_cmp B bn bn0 > 0
      then Option.bind (BN_div B bn bnBase) (\<lambda>dr.
             let c = lo32 (getulong B (snd dr))
             in if unat c < 16
                then bn_ToString_loop B bnBase bn0 (fst dr) (str @ [''0123456789abcdef'' ! unat c])
                else None)
      else Some str)"

definition bn_ToString :: "'bn openssl \<Rightarrow> 'bn \<Rightarrow> u32 \<Rightarrow> string option" where
  "bn_ToString B this nBase =
     do { bnBase \<leftarrow> bn_of_int32 B nBase;
          bn0 \<leftarrow> bn_of_int32 B 0;
          let bn = BN_set_negative B this False
          in if BN_cmp B bn bn0 = 0 then Some ''0''
             else do { str \<leftarrow> bn_ToString_loop B bnBase bn0 bn [];
                       Some (rev (if BN_is_negative B this then str @ ''-'' else str)) } }"

definition bn_GetHex :: "'bn openssl \<Rightarrow> 'bn \<Rightarrow> string option" where
  "bn_GetHex B this = bn_ToString B this 16"

fun digits :: "nat \<Rightarrow> nat \<Rightarrow> string" where \<comment> \<open>least significant digit first\<close>
  "digits b n = (if n = 0 \<or> b < 2 then [] else hex_char (n mod b) # digits b (n div b))"

declare digits.simps [simp del]

lemma trunc_div_nonneg: "0 \<le> a \<Longrightarrow> 0 < b \<Longrightarrow> trunc_div a b = a div b"
  by (auto simp: trunc_div_def sgn_if)

lemma bn_ToString_loop_digits:
  assumes "openssl_ok B val" "val bn0 = 0" "val bnBase = int b" "2 \<le> b" "b \<le> 16" "val bn = int n"
  shows "bn_ToString_loop B bnBase bn0 bn str = Some (str @ digits b n)"
  using assms(6)
proof (induction n arbitrary: bn str rule: less_induct)
  case (less n)
  show ?case
  proof (cases "n = 0")
    case True
    then show ?thesis using less.prems assms(2)
      by (subst bn_ToString_loop.simps) (simp add: openssl_okD(7) [OF assms(1)] digits.simps [of b 0])
  next
    case False
    have d: "trunc_div (int n) (int b) = int (n div b)" using assms(4) by (simp add: trunc_div_nonneg zdiv_int)
    obtain q r where qr: "BN_div B bn bnBase = Some (q, r)" "val q = int (n div b)"
        "val r = int n - int b * int (n div b)"
    proof -
      have "val bnBase \<noteq> 0" using assms(3,4) by simp
      then show thesis using assms(1) that less.prems d assms(3) unfolding openssl_ok_def by metis
    qed
    have r: "val r = int (n mod b)" using qr(3) by (simp add: zmod_int minus_mult_div_eq_mod [symmetric])
    have m: "n mod b < 16" using assms(4,5) by (meson less_le_trans mod_less_divisor zero_less_numeral order_less_le_trans)
    then have "getulong B r = word_of_nat (n mod b)"
      by (simp add: getulong_def openssl_okD(6) [OF assms(1)] r)
    then have c: "unat (lo32 (getulong B r)) = n mod b" using m by (simp add: unat_lo32 unat_of_nat)
    have "n div b < n" using False assms(4) by simp
    then have "bn_ToString_loop B bnBase bn0 q (str @ [hex_char (n mod b)]) =
        Some ((str @ [hex_char (n mod b)]) @ digits b (n div b))"
      by (rule less.IH) (rule qr(2))
    moreover have "digits b n = hex_char (n mod b) # digits b (n div b)"
      using False assms(4) by (subst digits.simps) simp
    ultimately show ?thesis using False less.prems assms(2) m
      by (subst bn_ToString_loop.simps)
        (simp add: openssl_okD(7) [OF assms(1)] qr(1) c hex_char_def)
  qed
qed

lemma bn_of_int32_0: "openssl_ok B val \<Longrightarrow> \<exists>b. bn_of_int32 B 0 = Some b \<and> val b = 0"
  using val_bn_of_int32 [of B val 0] by simp

lemma bn_ToString_digits:
  assumes "openssl_ok B val" "2 \<le> sint nBase" "sint nBase \<le> 16"
  shows "bn_ToString B this nBase =
     Some ((if val this < 0 then ''-'' else '''') @
           (if val this = 0 then ''0'' else rev (digits (nat (sint nBase)) (nat \<bar>val this\<bar>))))"
proof -
  obtain bb where bb: "bn_of_int32 B nBase = Some bb" "val bb = int (nat (sint nBase))"
    using val_bn_of_int32 [OF assms(1), of nBase] assms(2) by auto
  obtain b0 where b0: "bn_of_int32 B 0 = Some b0" "val b0 = 0"
    using bn_of_int32_0 [OF assms(1)] by blast
  let ?a = "BN_set_negative B this False"
  have a: "val ?a = int (nat \<bar>val this\<bar>)" by (simp add: openssl_okD(5) [OF assms(1)])
  show ?thesis
    using bn_ToString_loop_digits [OF assms(1) b0(2) bb(2) _ _ a, of "[]"] assms(2,3)
    by (simp add: bn_ToString_def bb b0 openssl_okD(4,7) [OF assms(1)] a sgn_if split: if_splits)
qed

lemma hex_char_props: "d < 16 \<Longrightarrow> c_isxdigit (hex_char d) \<and> hex_char d \<noteq> CHR ''-''"
proof -
  have "\<forall>d<16. c_isxdigit (hex_char d) \<and> hex_char d \<noteq> CHR ''-''"
    unfolding all_nibbles by (simp add: c_isxdigit_def hex_char_def Let_def)
  then show "d < 16 \<Longrightarrow> c_isxdigit (hex_char d) \<and> hex_char d \<noteq> CHR ''-''" by blast
qed

lemma bn_SetHex_digit:
  assumes "openssl_ok B val" "d < 16"
  shows "\<exists>t'. val t' = val t * 16 + int d \<and>
     (\<forall>rest. bn_SetHex_digits B t (hex_char d # rest) = bn_SetHex_digits B t' rest)"
proof -
  obtain t1 where t1: "BN_lshift B t 4 = Some t1" "val t1 = val t * 16"
    using openssl_okE(7) [OF assms(1), of t 4] by auto
  have "sint (ucast (word_of_nat d :: byte) :: u32) = int d"
  proof -
    have "(ucast (word_of_nat d :: byte) :: u32) = word_of_nat d"
      using assms(2) by (simp add: word_unat_eq_iff unat_of_nat unsigned_ucast_eq take_bit_nat_eq_self)
    then show ?thesis using assms(2) by (simp add: signed_of_nat signed_take_bit_int_eq_self)
  qed
  then obtain n where n: "bn_of_int32 B (ucast (phexdigit (hex_char d))) = Some n" "val n = int d"
    using val_bn_of_int32 [OF assms(1)] phexdigit_hex_char [OF assms(2)] by metis
  obtain t2 where "BN_add B t1 n = Some t2" "val t2 = val t1 + val n"
    using openssl_okE(2) [OF assms(1), of t1 n] by auto
  then show ?thesis using t1 n hex_char_props [OF assms(2)] by (auto simp: bn_shl_def)
qed

lemma bn_SetHex_digits_digits:
  assumes "openssl_ok B val" "val t = 0"
  shows "\<exists>t'. val t' = int n \<and>
     (\<forall>rest. bn_SetHex_digits B t (rev (digits 16 n) @ rest) = bn_SetHex_digits B t' rest)"
proof (induction n rule: less_induct)
  case (less n)
  show ?case
  proof (cases "n = 0")
    case True
    then show ?thesis using assms(2) by (auto simp: digits.simps [of 16 0])
  next
    case False
    then obtain t1 where t1: "val t1 = int (n div 16)"
      "\<And>rest. bn_SetHex_digits B t (rev (digits 16 (n div 16)) @ rest) = bn_SetHex_digits B t1 rest"
      using less.IH [of "n div 16"] by auto
    have e: "digits 16 n = hex_char (n mod 16) # digits 16 (n div 16)"
      using False by (subst digits.simps) simp
    obtain t2 where t2: "val t2 = val t1 * 16 + int (n mod 16)"
      "\<And>rest. bn_SetHex_digits B t1 (hex_char (n mod 16) # rest) = bn_SetHex_digits B t2 rest"
      using bn_SetHex_digit [OF assms(1), of "n mod 16" t1] by auto
    have "val t2 = int n" unfolding t2(1) t1(1)
      by (simp add: zmod_int zdiv_int)
    then show ?thesis unfolding e using t1(2) t2(2) by auto
  qed
qed

lemma set_digits: "c \<in> set (digits b n) \<Longrightarrow> b \<le> 16 \<Longrightarrow> \<exists>d<16. c = hex_char d"
proof (induction b n rule: digits.induct)
  case (1 b n)
  show ?case
  proof (cases "n = 0 \<or> b < 2")
    case False
    then have "n mod b < b" by simp
    then have "n mod b < 16" using 1(3) by linarith
    moreover have "c = hex_char (n mod b) \<or> c \<in> set (digits b (n div b))"
      using 1(2) False by (simp add: digits.simps [of b n])
    ultimately show ?thesis using 1(1) [OF False _ 1(3)] by blast
  qed (use 1 in \<open>simp add: digits.simps [of b n]\<close>)
qed

lemma bn_SetHex_of_digits:
  assumes xs: "xs \<noteq> []" "\<And>c. c \<in> set xs \<Longrightarrow> \<exists>d<16. c = hex_char d"
  shows "bn_SetHex B ((if neg then ''-'' else '''') @ xs) =
     do { zero \<leftarrow> bn_of_int32 B 0;
          this \<leftarrow> bn_SetHex_digits B zero xs;
          if neg then do { z \<leftarrow> bn_of_int32 B 0; bn_minus B z this } else Some this }"
proof -
  obtain c r where cr: "xs = c # r" using xs(1) by (cases xs) auto
  have c: "\<not> c_isspace c" "c \<noteq> CHR ''-''" using xs(2) [of c] hex_char_plain hex_char_props by (auto simp: cr)
  have nosp: "\<not> c_isspace CHR ''-''" by (simp add: c_isspace_def Let_def)
  have no0x: "skip_0x xs = xs"
  proof (cases r)
    case (Cons d r')
    have "d \<in> set xs" by (simp add: cr Cons)
    then obtain k where "k < 16" "d = hex_char k" using xs(2) by blast
    then have "d \<noteq> CHR ''x''" "d \<noteq> CHR ''X''" using hex_char_plain [of k] by simp_all
    then show ?thesis by (simp add: cr Cons skip_0x_def)
  qed (simp add: cr skip_0x_def)
  show ?thesis using c nosp no0x unfolding bn_SetHex_def Let_def by (cases neg) (simp_all add: cr)
qed

lemma bn_SetHex_GetHex:
  assumes "openssl_ok B val"
  shows "\<exists>s b'. bn_GetHex B b = Some s \<and> bn_SetHex B s = Some b' \<and> val b' = val b"
proof -
  define xs where "xs = (if val b = 0 then ''0'' else rev (digits 16 (nat \<bar>val b\<bar>)))"
  define neg where "neg \<longleftrightarrow> val b < 0"
  have g: "bn_GetHex B b = Some ((if neg then ''-'' else '''') @ xs)"
    unfolding bn_GetHex_def xs_def neg_def by (subst bn_ToString_digits [OF assms]) simp_all
  have h0: "CHR ''0'' = hex_char 0" by (simp add: hex_char_def)
  have "xs \<noteq> []" by (simp add: xs_def digits.simps [of _ "nat \<bar>val b\<bar>"])
  moreover have "\<exists>d<16. c = hex_char d" if "c \<in> set xs" for c
    using that set_digits [of c 16] h0 exI [of "\<lambda>d. d < 16 \<and> c = hex_char d" 0]
    by (auto simp: xs_def split: if_splits)
  ultimately have s: "bn_SetHex B ((if neg then ''-'' else '''') @ xs) =
     do { zero \<leftarrow> bn_of_int32 B 0;
          this \<leftarrow> bn_SetHex_digits B zero xs;
          if neg then do { z \<leftarrow> bn_of_int32 B 0; bn_minus B z this } else Some this }"
    by (rule bn_SetHex_of_digits)
  obtain z where z: "bn_of_int32 B 0 = Some z" "val z = 0" using bn_of_int32_0 [OF assms] by blast
  have "\<exists>t. bn_SetHex_digits B z xs = Some t \<and> val t = \<bar>val b\<bar>"
  proof (cases "val b = 0")
    case True
    obtain t where "val t = val z * 16 + int 0"
        "\<forall>rest. bn_SetHex_digits B z (hex_char 0 # rest) = bn_SetHex_digits B t rest"
      using bn_SetHex_digit [OF assms, of 0 z] by auto
    then show ?thesis using True z(2) h0 by (simp add: xs_def)
  next
    case False
    obtain t where "val t = int (nat \<bar>val b\<bar>)"
        "\<forall>rest. bn_SetHex_digits B z (rev (digits 16 (nat \<bar>val b\<bar>)) @ rest) = bn_SetHex_digits B t rest"
      using bn_SetHex_digits_digits [OF assms z(2)] by blast
    moreover from this(2) have "bn_SetHex_digits B z (rev (digits 16 (nat \<bar>val b\<bar>)) @ []) = Some t"
      by (simp only:) simp
    ultimately show ?thesis using False by (simp add: xs_def)
  qed
  then obtain t where t: "bn_SetHex_digits B z xs = Some t" "val t = \<bar>val b\<bar>" by blast
  obtain m where "BN_sub B z t = Some m" "val m = val z - val t"
    using openssl_okE(3) [OF assms, of z t] by auto
  then show ?thesis unfolding g using s z t by (cases neg) (auto simp: neg_def bn_minus_def)
qed

subsection \<open>Shifts\<close>

lemma val_bn_shr:
  assumes "openssl_ok B val"
  shows "\<exists>c. bn_shr B b k = Some c \<and> val c = (if val b < 0 then 0 else val b div 2 ^ k)"
proof -
  obtain one where one: "bn_of_int32 B 1 = Some one" "val one = 1"
    using val_bn_of_int32 [OF assms, of 1] by auto
  obtain a where a: "BN_lshift B one k = Some a" "val a = 2 ^ k"
    using openssl_okE(7) [OF assms, of one k] one(2) by auto
  obtain z where z: "bn_of_int32 B 0 = Some z" "val z = 0" using bn_of_int32_0 [OF assms] by blast
  obtain r where r: "BN_rshift B b k = Some r" "val r = trunc_div (val b) (2 ^ k)"
    using openssl_okE(8) [OF assms, of b k] by auto
  have p: "(0::int) < 2 ^ k" by simp
  show ?thesis
  proof (cases "2 ^ k > val b")
    case True
    then show ?thesis using z a one p
      by (auto simp: bn_shr_def bn_shl_def openssl_okD(7) [OF assms] div_pos_pos_trivial)
  next
    case False
    then have "0 \<le> val b" using p by linarith
    with False show ?thesis using r a one trunc_div_nonneg [OF \<open>0 \<le> val b\<close> p]
      by (auto simp: bn_shr_def bn_shl_def openssl_okD(7) [OF assms] sgn_if)
  qed
qed

subsection \<open>Properties\<close>

text \<open>A 64-bit integer written to an OpenSSL number through the hand-made mpi buffer has the
  value of the machine integer, the most negative one included, and reading an unsigned one back
  returns it.\<close>

theorem bn_machine_integers:
  assumes "openssl_ok B val"
  shows "val (setint64 B n) = sint n \<and> val (setuint64 B m) = uint m \<and>
    getuint64 B (setuint64 B m) = m"
proof (intro conjI)
  have "unat (getuint64 B (setuint64 B m)) = unat m"
    using unat_lt_2p [of m] by (simp add: unat_getuint64 [OF assms] val_setuint64 [OF assms])
  then show "getuint64 B (setuint64 B m) = m" by (simp only: word_unat_eq_iff)
qed (use assms in \<open>simp_all add: val_setint64 val_setuint64\<close>)

theorem bn_machine_integers_witness:
  "setint64 int_openssl (- 9223372036854775808) = - 9223372036854775808 \<and>
   getuint64 int_openssl (setuint64 int_openssl 0x80) = 0x80"
  using bn_machine_integers [OF int_openssl_ok, of "- 9223372036854775808" "0x80"]
  by (elim conjE, intro conjI) (simp, simp only:)

text \<open>Conversion of a uint256 to an OpenSSL number and back is the identity, and converting any
  OpenSSL number gives its magnitude modulo 2 ^ 256.\<close>

theorem bn_uint256_roundtrip:
  assumes "openssl_ok B val" "length n = 8"
  shows "val (setuint256 B n) = int (wval n) \<and> getuint256 B (setuint256 B n) = n \<and>
    wval (getuint256 B b) = nat \<bar>val b\<bar> mod 2 ^ 256"
  using assms by (simp add: val_setuint256 getuint256_setuint256 wval_getuint256)

theorem bn_uint256_roundtrip_witness:
  "getuint256 int_openssl (setuint256 int_openssl [1, 0, 0, 0, 0, 0, 0, 0xffffffff])
     = [1, 0, 0, 0, 0, 0, 0, 0xffffffff]"
proof -
  have "length [1, 0, 0, 0, 0, 0, 0, 0xffffffff :: u32] = 8" by simp
  then show ?thesis by (rule bn_uint256_roundtrip [OF int_openssl_ok, THEN conjunct2, THEN conjunct1])
qed

lemma compact_trunc_le: "\<bar>compact_trunc v\<bar> \<le> \<bar>v\<bar>"
proof -
  define p :: int where "p = 256 ^ (length (mpi_body v) - 3)"
  have p: "0 < p" by (simp add: p_def)
  have "\<bar>v\<bar> div p * p + \<bar>v\<bar> mod p = \<bar>v\<bar>" by simp
  moreover have "0 \<le> \<bar>v\<bar> mod p" "0 \<le> \<bar>v\<bar> div p * p" using p by (simp_all add: pos_imp_zdiv_nonneg_iff)
  ultimately have "\<bar>\<bar>v\<bar> div p * p\<bar> \<le> \<bar>v\<bar>" by linarith
  then have "\<bar>sgn v * (\<bar>v\<bar> div p * p)\<bar> \<le> \<bar>v\<bar>" by (cases "v = 0") (simp_all add: abs_mult)
  then show ?thesis by (simp add: compact_trunc_def Let_def p_def)
qed

text \<open>SetCompact decodes the compact encoding of a difficulty target (byte count, sign,
  23-bit mantissa), and encoding a number with GetCompact loses exactly the bytes below its three
  leading ones, so that an encoded target never exceeds the target.\<close>

theorem bn_compact_codec:
  assumes "openssl_ok B val" "length (mpi_body (val b)) < 256"
  shows "val (SetCompact B c) = compact_val c \<and>
    val (SetCompact B (GetCompact B b)) = compact_trunc (val b) \<and>
    \<bar>compact_trunc (val b)\<bar> \<le> \<bar>val b\<bar>"
  using assms by (simp add: val_SetCompact compact_val_GetCompact compact_trunc_le)

theorem bn_compact_codec_witness:
  "SetCompact int_openssl 0x1d00ffff = 0xffff * 2 ^ 208 \<and>
   SetCompact int_openssl (GetCompact int_openssl 0x12345678) = 0x12345600"
proof -
  have b: "length (mpi_body 0x12345678) = 4" by (simp add: mpi_body_def le_bytes.simps Let_def)
  have "compact_val 0x1d00ffff = 0xffff * 2 ^ 208" by (simp add: compact_val_def Let_def)
  moreover have "compact_trunc 0x12345678 = 0x12345600" by (simp add: compact_trunc_def b)
  ultimately show ?thesis
    using bn_compact_codec [OF int_openssl_ok, of "0x12345678" "0x1d00ffff"] b by simp
qed

text \<open>The hexadecimal text GetHex prints for any number, sign included, is read back by SetHex
  as that number: the printing loop ends and no operation fails.\<close>

theorem bn_hex_roundtrip:
  assumes "openssl_ok B val"
  shows "\<exists>s b'. bn_GetHex B b = Some s \<and> bn_SetHex B s = Some b' \<and> val b' = val b"
  using assms by (rule bn_SetHex_GetHex)

theorem bn_hex_roundtrip_witness:
  "\<exists>s. bn_GetHex int_openssl (- 255) = Some s \<and> bn_SetHex int_openssl s = Some (- 255)"
  using bn_hex_roundtrip [OF int_openssl_ok, of "- 255"] by simp

end
