(* ===== verification/Kernel.thy ===== *)
theory Kernel
  imports BlockIndex BigNum
begin

text \<open>
  The proof-of-stake kernel of src/kernel.cpp: stake modifiers (the selection of 64 blocks whose
  entropy bits form the next modifier), the kernel hash check and the modifier checksum. The
  values the code reads from global variables that differ between the two networks are the fields
  of a record. A signed time is the integer it holds; the quantities the code computes modulo 2^32
  are words. CBigNum values are the integers they denote, which BigNum justifies operation by
  operation. Debug output is not modelled.
\<close>

record stake_params =
  nStakeMinAge :: u32
  nStakeMaxAge :: int
  nStakeTargetSpacing :: int
  nModifierInterval :: u32

definition MODIFIER_INTERVAL :: u32 where "MODIFIER_INTERVAL = 5 * 60"
definition MODIFIER_INTERVAL_RATIO :: u32 where "MODIFIER_INTERVAL_RATIO = 3"

definition main_params :: stake_params where
  "main_params = \<lparr> nStakeMinAge = 60 * 60 * 1 * 1, nStakeMaxAge = 60 * 60 * 4 * 1, nStakeTargetSpacing = 40,
     nModifierInterval = MODIFIER_INTERVAL \<rparr>"

definition test_params :: stake_params where \<comment> \<open>the assignments of LoadBlockIndex under fTestNet\<close>
  "test_params = main_params\<lparr>nStakeMinAge := 15 * 60, nStakeMaxAge := 60 * 60, nModifierInterval := 60,
     nStakeTargetSpacing := 3 * 60\<rparr>"

definition GetWeight :: "stake_params \<Rightarrow> int \<Rightarrow> int \<Rightarrow> int" where
  "GetWeight P nIntervalBeginning nIntervalEnd =
     min (nIntervalEnd - nIntervalBeginning - uint (nStakeMinAge P)) (nStakeMaxAge P)"

subsection \<open>Stake modifiers\<close>

partial_function (option) LastStakeModifier_walk :: "bheap \<Rightarrow> nat \<Rightarrow> nat option" where
  "LastStakeModifier_walk h p =
     (case pprev (h p) of None \<Rightarrow> Some p
      | Some q \<Rightarrow> if \<not> GeneratedStakeModifier (h p) then LastStakeModifier_walk h q else Some p)"

text \<open>The outer option is the walk's return; the inner one is None on the error branches.\<close>

definition GetLastStakeModifier :: "bheap \<Rightarrow> nat option \<Rightarrow> (u64 \<times> int) option option" where
  "GetLastStakeModifier h pindex =
     (case pindex of None \<Rightarrow> Some None
      | Some p \<Rightarrow>
          do { q \<leftarrow> LastStakeModifier_walk h p;
               Some (if \<not> GeneratedStakeModifier (h q) then None
                     else Some (nStakeModifier (h q), GetBlockTime (h q))) })"

definition SelectionIntervalSection :: "stake_params \<Rightarrow> nat \<Rightarrow> int option" where
  \<comment> \<open>GetStakeModifierSelectionIntervalSection, None when the assertion fails\<close>
  "SelectionIntervalSection P nSection =
     (if nSection < 64
      then Some (uint (nModifierInterval P * 63 div (63 + (63 - of_nat nSection) * (MODIFIER_INTERVAL_RATIO - 1))))
      else None)"

fun SelectionInterval_from :: "stake_params \<Rightarrow> int \<Rightarrow> nat list \<Rightarrow> int option" where
  "SelectionInterval_from P nSelectionInterval [] = Some nSelectionInterval"
| "SelectionInterval_from P nSelectionInterval (nSection # is) =
     do { s \<leftarrow> SelectionIntervalSection P nSection; SelectionInterval_from P (nSelectionInterval + s) is }"

definition SelectionInterval :: "stake_params \<Rightarrow> int option" where \<comment> \<open>GetStakeModifierSelectionInterval\<close>
  "SelectionInterval P = SelectionInterval_from P 0 [0..<64]"

text \<open>The hash a candidate is ranked by: proof-of-stake blocks are divided by 2^32.\<close>

definition SelectionHash :: "sha256 \<Rightarrow> CBlockIndex \<Rightarrow> u64 \<Rightarrow> base_uint" where
  "SelectionHash sha p nStakeModifierPrev =
     (let hashProof = (if IsProofOfStake p then hashProofOfStake p else phashBlock p);
          hashSelection = Hash sha (ser_uint256 hashProof @ WRITEDATA nStakeModifierPrev)
      in if IsProofOfStake p then u_shr hashSelection 32 else hashSelection)"

fun SelectBlock_loop ::
  "sha256 \<Rightarrow> bheap \<Rightarrow> (base_uint \<Rightarrow> nat option) \<Rightarrow> (base_uint \<Rightarrow> nat option) \<Rightarrow> int \<Rightarrow> u64 \<Rightarrow>
   bool \<Rightarrow> base_uint \<Rightarrow> nat option \<Rightarrow> (int \<times> base_uint) list \<Rightarrow> bool \<times> nat option" where
  "SelectBlock_loop sha h mapBlockIndex mapSelected stop prev fSelected hashBest pindexSelected [] = (fSelected, pindexSelected)"
| "SelectBlock_loop sha h mapBlockIndex mapSelected stop prev fSelected hashBest pindexSelected (item # items) =
     (case mapBlockIndex (snd item) of
        None \<Rightarrow> (False, pindexSelected)
      | Some p \<Rightarrow>
          if fSelected \<and> GetBlockTime (h p) > stop then (fSelected, pindexSelected)
          else if mapSelected (phashBlock (h p)) \<noteq> None
          then SelectBlock_loop sha h mapBlockIndex mapSelected stop prev fSelected hashBest pindexSelected items
          else let hashSelection = SelectionHash sha (h p) prev
               in if fSelected \<and> u_lt hashSelection hashBest
                  then SelectBlock_loop sha h mapBlockIndex mapSelected stop prev fSelected hashSelection (Some p) items
                  else if \<not> fSelected
                  then SelectBlock_loop sha h mapBlockIndex mapSelected stop prev True hashSelection (Some p) items
                  else SelectBlock_loop sha h mapBlockIndex mapSelected stop prev fSelected hashBest pindexSelected items)"

definition SelectBlockFromCandidates ::
  "sha256 \<Rightarrow> bheap \<Rightarrow> (base_uint \<Rightarrow> nat option) \<Rightarrow> (int \<times> base_uint) list \<Rightarrow> (base_uint \<Rightarrow> nat option) \<Rightarrow>
   int \<Rightarrow> u64 \<Rightarrow> bool \<times> nat option" where
  "SelectBlockFromCandidates sha h mapBlockIndex vSortedByTimestamp mapSelected nSelectionIntervalStop nStakeModifierPrev =
     SelectBlock_loop sha h mapBlockIndex mapSelected nSelectionIntervalStop nStakeModifierPrev
       False (u_of_uint64 8 0) None vSortedByTimestamp"

text \<open>The walk that collects the candidates of the selection interval, nearest first.\<close>

partial_function (option) candidates :: "bheap \<Rightarrow> int \<Rightarrow> (int \<times> base_uint) list \<Rightarrow> nat option \<Rightarrow> (int \<times> base_uint) list option" where
  "candidates h start v pindex =
     (if pindex = None then Some v
      else let p = the pindex
           in if GetBlockTime (h p) \<ge> start
              then candidates h start (v @ [(GetBlockTime (h p), phashBlock (h p))]) (pprev (h p))
              else Some v)"

text \<open>
  std::sort on the pairs orders by time first and then by the hash as a number. Written as two stable
  sorts, the less significant key first.
\<close>

definition sort_candidates :: "(int \<times> base_uint) list \<Rightarrow> (int \<times> base_uint) list" where
  "sort_candidates v = sort_key fst (sort_key (\<lambda>x. wval (snd x)) v)"

text \<open>
  The rounds: the state is the new modifier, the end of the selection interval and the selected
  blocks. The outer option is an assertion or a null dereference, the inner one the error branch.
\<close>

fun modifier_rounds ::
  "stake_params \<Rightarrow> sha256 \<Rightarrow> bheap \<Rightarrow> (base_uint \<Rightarrow> nat option) \<Rightarrow> (int \<times> base_uint) list \<Rightarrow> u64 \<Rightarrow>
   u64 \<Rightarrow> int \<Rightarrow> (base_uint \<Rightarrow> nat option) \<Rightarrow> nat list \<Rightarrow> u64 option option" where
  "modifier_rounds P sha h m vSorted prev nNew stop sel [] = Some (Some nNew)"
| "modifier_rounds P sha h m vSorted prev nNew stop sel (nRound # rs) =
     do { s \<leftarrow> SelectionIntervalSection P nRound;
          let stop' = stop + s;
              (ok, pindex) = SelectBlockFromCandidates sha h m vSorted sel stop' prev
          in if \<not> ok then Some None
             else do { p \<leftarrow> pindex;
                       modifier_rounds P sha h m vSorted prev
                         (nNew OR push_bit nRound (zext64 (StakeEntropyBit (h p)))) stop'
                         (sel(phashBlock (h p) \<mapsto> (case sel (phashBlock (h p)) of Some q \<Rightarrow> q | None \<Rightarrow> p))) rs } }"

text \<open>
  ComputeNextStakeModifier: the result is the return value with nStakeModifier and
  fGeneratedStakeModifier as they are left; None is an assertion, a division by 0 or a null dereference.
\<close>

definition ComputeNextStakeModifier ::
  "stake_params \<Rightarrow> sha256 \<Rightarrow> bheap \<Rightarrow> (base_uint \<Rightarrow> nat option) \<Rightarrow> nat option \<Rightarrow> (bool \<times> u64 \<times> bool) option" where
  "ComputeNextStakeModifier P sha h mapBlockIndex pindexPrev =
     (case pindexPrev of None \<Rightarrow> Some (True, 0, True)
      | Some prev \<Rightarrow>
          do { r \<leftarrow> GetLastStakeModifier h (Some prev);
               case r of None \<Rightarrow> Some (False, 0, False)
               | Some (nModifier, nModifierTime) \<Rightarrow>
                   let nI = uint (nModifierInterval P); t = GetBlockTime (h prev)
                   in if nI = 0 then None
                      else if nModifierTime div nI \<ge> t div nI then Some (True, nModifier, False)
                      else do { nSelectionInterval \<leftarrow> SelectionInterval P;
                                let start = t div nI * nI - nSelectionInterval
                                in do { v \<leftarrow> candidates h start [] (Some prev);
                                        let vSorted = sort_candidates (rev v)
                                        in do { new \<leftarrow> modifier_rounds P sha h mapBlockIndex vSorted nModifier
                                                        0 start Map.empty [0..<min 64 (length vSorted)];
                                                Some (case new of None \<Rightarrow> (False, nModifier, False)
                                                      | Some n \<Rightarrow> (True, n, True)) } } } })"

subsection \<open>The kernel check\<close>

text \<open>
  The walk along pnext from the block that holds the staked output. Its state is the block, the
  height and time of the last generated modifier. The inner option is the failure at the best block,
  where the code's two branches differ in what they print only.
\<close>

partial_function (option) KernelModifier_walk ::
  "bheap \<Rightarrow> int \<Rightarrow> int \<Rightarrow> int \<Rightarrow> nat \<Rightarrow> (nat \<times> int \<times> int) option option" where
  "KernelModifier_walk h stop nHeight' nTime' p =
     (if nTime' < stop
      then case pnext (h p) of None \<Rightarrow> Some None
         | Some q \<Rightarrow>
             if GeneratedStakeModifier (h q) then KernelModifier_walk h stop (nHeight (h q)) (GetBlockTime (h q)) q
             else KernelModifier_walk h stop nHeight' nTime' q
      else Some (Some (p, nHeight', nTime')))"

text \<open>GetKernelStakeModifier: the modifier, its height and its time.\<close>

definition GetKernelStakeModifier ::
  "stake_params \<Rightarrow> bheap \<Rightarrow> (base_uint \<Rightarrow> nat option) \<Rightarrow> base_uint \<Rightarrow> (u64 \<times> int \<times> int) option option" where
  "GetKernelStakeModifier P h mapBlockIndex hashBlockFrom =
     (case mapBlockIndex hashBlockFrom of
        None \<Rightarrow> Some None
      | Some from \<Rightarrow>
          do { nInterval \<leftarrow> SelectionInterval P;
               r \<leftarrow> KernelModifier_walk h (GetBlockTime (h from) + nInterval) (nHeight (h from)) (GetBlockTime (h from)) from;
               Some (case r of None \<Rightarrow> None | Some (p, ht, t) \<Rightarrow> Some (nStakeModifier (h p), ht, t)) })"

definition kernel_hash :: "sha256 \<Rightarrow> u64 \<Rightarrow> u32 \<Rightarrow> u32 \<Rightarrow> u32 \<Rightarrow> u32 \<Rightarrow> u32 \<Rightarrow> base_uint" where
  "kernel_hash sha modifier nTimeBlockFrom nTxPrevOffset nTimeTxPrev n nTimeTx =
     Hash sha (WRITEDATA modifier @ WRITEDATA nTimeBlockFrom @ WRITEDATA nTxPrevOffset @ WRITEDATA nTimeTxPrev @
       WRITEDATA n @ WRITEDATA nTimeTx)"

text \<open>
  CheckStakeKernelHash: the verdict and hashProofOfStake when it is set. The outer option is an output
  number out of range, a walk that does not return or an assertion.
\<close>

definition CheckStakeKernelHash ::
  "stake_params \<Rightarrow> sha256 \<Rightarrow> (byte list \<Rightarrow> base_uint) \<Rightarrow> bheap \<Rightarrow> (base_uint \<Rightarrow> nat option) \<Rightarrow>
   u32 \<Rightarrow> CBlock \<Rightarrow> u32 \<Rightarrow> CTransaction \<Rightarrow> COutPoint \<Rightarrow> u32 \<Rightarrow> (bool \<times> base_uint option) option" where
  "CheckStakeKernelHash P sha hash9 h mapBlockIndex nBits blockFrom nTxPrevOffset txPrev out nTimeTx =
     (if nTimeTx < tx_nTime txPrev then Some (False, None)
      else let nTimeBlockFrom = b_nTime blockFrom
      in if nTimeBlockFrom + nStakeMinAge P > nTimeTx then Some (False, None)
      else if \<not> unat (o_n out) < length (vout txPrev) then None
      else let bnTargetPerCoinDay = compact_val nBits;
               nValueIn = sint (nValue (vout txPrev ! unat (o_n out)));
               nTimeWeight = min (uint nTimeTx - uint (tx_nTime txPrev)) (nStakeMaxAge P) - uint (nStakeMinAge P);
               bnCoinDayWeight = trunc_div (trunc_div (nValueIn * nTimeWeight) (uint COIN)) (24 * 60 * 60)
           in do { r \<leftarrow> GetKernelStakeModifier P h mapBlockIndex (Block_GetHash hash9 blockFrom);
                   case r of None \<Rightarrow> Some (False, None)
                   | Some (modifier, _, _) \<Rightarrow>
                       let hashProof = kernel_hash sha modifier nTimeBlockFrom nTxPrevOffset (tx_nTime txPrev)
                                         (o_n out) nTimeTx
                       in if int (wval hashProof) > bnCoinDayWeight * bnTargetPerCoinDay then Some (False, Some hashProof)
                          else Some (True, Some hashProof) })"

definition CheckCoinStakeTimestamp :: "int \<Rightarrow> int \<Rightarrow> bool" where
  "CheckCoinStakeTimestamp nTimeBlock nTimeTx \<longleftrightarrow> nTimeBlock = nTimeTx"

definition GetStakeModifierChecksum :: "sha256 \<Rightarrow> bheap \<Rightarrow> base_uint \<Rightarrow> nat \<Rightarrow> u32 option" where
  "GetStakeModifierChecksum sha h hashGenesis p =
     (if pprev (h p) = None \<and> \<not> u_eq (phashBlock (h p)) hashGenesis then None
      else let ss = (case pprev (h p) of Some q \<Rightarrow> WRITEDATA (nStakeModifierChecksum (h q)) | None \<Rightarrow> []) @
                    WRITEDATA (nFlags (h p)) @ ser_uint256 (hashProofOfStake (h p)) @ WRITEDATA (nStakeModifier (h p))
           in Some (lo32 (u_Get64 (u_shr (Hash sha ss) (256 - 32)) 0)))"

definition mapStakeModifierCheckpoints :: "int \<Rightarrow> u32 option" where
  "mapStakeModifierCheckpoints = [0 \<mapsto> 0xfd11f4e7]"

definition CheckStakeModifierCheckpoints :: "bool \<Rightarrow> int \<Rightarrow> u32 \<Rightarrow> bool" where
  "CheckStakeModifierCheckpoints fTestNet ht checksum =
     (if fTestNet then True
      else case mapStakeModifierCheckpoints ht of Some c \<Rightarrow> checksum = c | None \<Rightarrow> True)"

subsection \<open>Selection intervals\<close>

lemma SelectionIntervalSection_some: "n < 64 \<Longrightarrow> \<exists>s. SelectionIntervalSection P n = Some s \<and> 0 \<le> s"
  by (simp add: SelectionIntervalSection_def)

lemma SelectionInterval_from_some: "\<forall>n\<in>set ns. n < 64 \<Longrightarrow> \<exists>s. SelectionInterval_from P a ns = Some s \<and> a \<le> s"
proof (induction ns arbitrary: a)
  case (Cons n ns)
  then obtain s where s: "SelectionIntervalSection P n = Some s" "0 \<le> s" using SelectionIntervalSection_some [of n P] by auto
  obtain r where "SelectionInterval_from P (a + s) ns = Some r" "a + s \<le> r" using Cons by fastforce
  then show ?case using s by simp
qed simp

lemma SelectionInterval_some: "\<exists>s. SelectionInterval P = Some s \<and> 0 \<le> s"
  unfolding SelectionInterval_def by (rule SelectionInterval_from_some) simp

subsection \<open>Selecting a block\<close>

definition sha_ok :: "sha256 \<Rightarrow> bool" where "sha_ok sha \<longleftrightarrow> (\<forall>bs. length (sha bs) = 32)"

lemma length_Hash: "sha_ok sha \<Longrightarrow> length (Hash sha bs) = 8"
  by (simp add: Hash_def sha_ok_def)

lemma length_SelectionHash: "sha_ok sha \<Longrightarrow> length (SelectionHash sha p v) = 8"
  by (simp add: SelectionHash_def Let_def length_Hash)

text \<open>The blocks a round ranks, after the first one: unselected and not later than the interval's end.\<close>

definition ranked :: "bheap \<Rightarrow> (base_uint \<Rightarrow> nat option) \<Rightarrow> (base_uint \<Rightarrow> nat option) \<Rightarrow> int \<Rightarrow> (int \<times> base_uint) list \<Rightarrow> nat set" where
  "ranked h m sel stop items =
     {q. \<exists>x\<in>set items. m (snd x) = Some q \<and> sel (phashBlock (h q)) = None \<and> GetBlockTime (h q) \<le> stop}"

lemma SelectBlock_loop_started:
  assumes sha: "sha_ok sha"
  shows "\<forall>x\<in>set items. \<exists>q. m (snd x) = Some q \<Longrightarrow>
    sorted (map (\<lambda>x. GetBlockTime (h (the (m (snd x))))) items) \<Longrightarrow>
    best = SelectionHash sha (h p0) prev \<Longrightarrow>
    \<exists>p. SelectBlock_loop sha h m sel stop prev True best (Some p0) items = (True, Some p) \<and>
      p \<in> insert p0 (ranked h m sel stop items) \<and>
      (\<forall>q\<in>insert p0 (ranked h m sel stop items). wval (SelectionHash sha (h p) prev) \<le> wval (SelectionHash sha (h q) prev))"
proof (induction items arbitrary: best p0)
  case Nil
  then show ?case by (simp add: ranked_def)
next
  case (Cons x items)
  let ?H = "\<lambda>q. SelectionHash sha (h q) prev"
  from Cons.prems(1) obtain q where q: "m (snd x) = Some q" by auto
  have rest: "\<forall>x\<in>set items. \<exists>q. m (snd x) = Some q" "sorted (map (\<lambda>x. GetBlockTime (h (the (m (snd x))))) items)"
    using Cons.prems(1,2) by auto
  have later: "GetBlockTime (h q) \<le> GetBlockTime (h q')" if "y \<in> set items" "m (snd y) = Some q'" for y q'
    using Cons.prems(2) that q by fastforce
  have lt: "u_lt (?H q) best \<longleftrightarrow> wval (?H q) < wval (?H p0)"
    using Cons.prems(3) u_compare(1) [of "?H q" "?H p0"] length_SelectionHash [OF sha] by simp
  have split: "ranked h m sel stop (x # items) =
      (if sel (phashBlock (h q)) = None \<and> GetBlockTime (h q) \<le> stop then insert q (ranked h m sel stop items)
       else ranked h m sel stop items)"
    using q by (auto simp: ranked_def)
  show ?case
  proof (cases "GetBlockTime (h q) > stop")
    case True
    then have "ranked h m sel stop (x # items) = {}" unfolding split using later by (fastforce simp: ranked_def)
    then show ?thesis using True q by simp
  next
    case False
    show ?thesis
    proof (cases "sel (phashBlock (h q)) = None")
      case unsel: True
      show ?thesis
      proof (cases "wval (?H q) < wval (?H p0)")
        case True
        from Cons.IH [OF rest refl, of q] obtain p where
          "SelectBlock_loop sha h m sel stop prev True (?H q) (Some q) items = (True, Some p)"
          "p \<in> insert q (ranked h m sel stop items)" "\<forall>q\<in>insert q (ranked h m sel stop items). wval (?H p) \<le> wval (?H q)"
          by blast
        then show ?thesis using True False unsel q lt unfolding split by (intro exI [of _ p]) (auto simp: Let_def)
      next
        case ge: False
        from Cons.IH [OF rest Cons.prems(3)] obtain p where
          "SelectBlock_loop sha h m sel stop prev True best (Some p0) items = (True, Some p)"
          "p \<in> insert p0 (ranked h m sel stop items)" "\<forall>q\<in>insert p0 (ranked h m sel stop items). wval (?H p) \<le> wval (?H q)"
          by blast
        then show ?thesis using ge False unsel q lt unfolding split by (intro exI [of _ p]) (auto simp: Let_def)
      qed
    next
      case sel: False
      show ?thesis using Cons.IH [OF rest Cons.prems(3)] False sel q unfolding split by auto
    qed
  qed
qed

text \<open>The unselected blocks of a candidate list.\<close>

definition unselected :: "bheap \<Rightarrow> (base_uint \<Rightarrow> nat option) \<Rightarrow> (base_uint \<Rightarrow> nat option) \<Rightarrow> (int \<times> base_uint) list \<Rightarrow> nat set" where
  "unselected h m sel items = {q. \<exists>x\<in>set items. m (snd x) = Some q \<and> sel (phashBlock (h q)) = None}"

lemma SelectBlockFromCandidates_spec:
  assumes sha: "sha_ok sha"
  shows "\<forall>x\<in>set items. \<exists>q. m (snd x) = Some q \<Longrightarrow>
    sorted (map (\<lambda>x. GetBlockTime (h (the (m (snd x))))) items) \<Longrightarrow>
    if unselected h m sel items = {} then SelectBlockFromCandidates sha h m items sel stop prev = (False, None)
    else \<exists>f p. SelectBlockFromCandidates sha h m items sel stop prev = (True, Some p) \<and>
      f \<in> unselected h m sel items \<and> (\<forall>q\<in>unselected h m sel items. GetBlockTime (h f) \<le> GetBlockTime (h q)) \<and>
      p \<in> insert f (ranked h m sel stop items) \<and>
      (\<forall>q\<in>insert f (ranked h m sel stop items). wval (SelectionHash sha (h p) prev) \<le> wval (SelectionHash sha (h q) prev))"
proof (induction items)
  case Nil
  then show ?case by (simp add: unselected_def SelectBlockFromCandidates_def)
next
  case (Cons x items)
  from Cons.prems(1) obtain q where q: "m (snd x) = Some q" by auto
  have rest: "\<forall>x\<in>set items. \<exists>q. m (snd x) = Some q" "sorted (map (\<lambda>x. GetBlockTime (h (the (m (snd x))))) items)"
    using Cons.prems(1,2) by auto
  have later: "GetBlockTime (h q) \<le> GetBlockTime (h q')" if "y \<in> set items" "m (snd y) = Some q'" for y q'
    using Cons.prems(2) that q by fastforce
  show ?case
  proof (cases "sel (phashBlock (h q)) = None")
    case True
    obtain p where p: "SelectBlock_loop sha h m sel stop prev True (SelectionHash sha (h q) prev) (Some q) items = (True, Some p)"
      "p \<in> insert q (ranked h m sel stop items)"
      "\<forall>q\<in>insert q (ranked h m sel stop items). wval (SelectionHash sha (h p) prev) \<le> wval (SelectionHash sha (h q) prev)"
      using SelectBlock_loop_started [OF sha rest refl, where ?p0.0 = q and sel = sel and stop = stop and prev = prev] by blast
    have same: "insert q (ranked h m sel stop (x # items)) = insert q (ranked h m sel stop items)"
      using q by (auto simp: ranked_def)
    have u: "q \<in> unselected h m sel (x # items)" using q True by (auto simp: unselected_def)
    have e: "\<forall>q'\<in>unselected h m sel (x # items). GetBlockTime (h q) \<le> GetBlockTime (h q')"
      using later q by (auto simp: unselected_def)
    have "SelectBlockFromCandidates sha h m (x # items) sel stop prev = (True, Some p)"
      using p(1) q True by (simp add: SelectBlockFromCandidates_def Let_def)
    then show ?thesis using u e p(2,3) unfolding same [symmetric] by auto
  next
    case False
    have "SelectBlockFromCandidates sha h m (x # items) sel stop prev = SelectBlockFromCandidates sha h m items sel stop prev"
      using False q by (simp add: SelectBlockFromCandidates_def)
    moreover have "unselected h m sel (x # items) = unselected h m sel items" "ranked h m sel stop (x # items) = ranked h m sel stop items"
      using False q by (auto simp: unselected_def ranked_def)
    ultimately show ?thesis using Cons.IH [OF rest] by (simp only:)
  qed
qed

subsection \<open>The rounds\<close>

lemma sort_candidates_sorted: "sorted (map fst (sort_candidates v))"
  by (simp add: sort_candidates_def)

lemma sort_candidates_set [simp]: "set (sort_candidates v) = set v" "length (sort_candidates v) = length v"
  by (simp_all add: sort_candidates_def)

lemma distinct_sort_candidates [simp]: "distinct (sort_candidates v) = distinct v"
  by (simp add: sort_candidates_def)

text \<open>A candidate list whose entries are the times and hashes of indexed blocks.\<close>

definition good_items :: "bheap \<Rightarrow> (base_uint \<Rightarrow> nat option) \<Rightarrow> (int \<times> base_uint) list \<Rightarrow> bool" where
  "good_items h m items \<longleftrightarrow> distinct items \<and> sorted (map fst items) \<and>
     (\<forall>x\<in>set items. \<exists>q. x = (GetBlockTime (h q), phashBlock (h q)) \<and> m (phashBlock (h q)) = Some q)"

lemma good_items_sorted:
  assumes "good_items h m items"
  shows "\<forall>x\<in>set items. \<exists>q. m (snd x) = Some q" "sorted (map (\<lambda>x. GetBlockTime (h (the (m (snd x))))) items)"
proof -
  show "\<forall>x\<in>set items. \<exists>q. m (snd x) = Some q" using assms by (fastforce simp: good_items_def)
  have "map (\<lambda>x. GetBlockTime (h (the (m (snd x))))) items = map fst items"
    using assms by (intro map_cong refl) (fastforce simp: good_items_def)
  then show "sorted (map (\<lambda>x. GetBlockTime (h (the (m (snd x))))) items)" using assms by (simp only: good_items_def)
qed

definition block_of :: "(base_uint \<Rightarrow> nat option) \<Rightarrow> (int \<times> base_uint) \<Rightarrow> nat" where
  "block_of m x = the (m (snd x))"

lemma good_items_blocks:
  assumes "good_items h m items"
  shows "distinct (map (block_of m) items)" "\<And>q. q \<in> set (map (block_of m) items) \<Longrightarrow> m (phashBlock (h q)) = Some q"
    "unselected h m sel items = {q \<in> set (map (block_of m) items). sel (phashBlock (h q)) = None}"
proof -
  have x: "\<exists>q. x = (GetBlockTime (h q), phashBlock (h q)) \<and> m (phashBlock (h q)) = Some q \<and> block_of m x = q" if "x \<in> set items" for x
    using assms that by (fastforce simp: good_items_def block_of_def)
  have "inj_on (block_of m) (set items)"
  proof (rule inj_onI)
    fix a b assume "a \<in> set items" "b \<in> set items" "block_of m a = block_of m b"
    then show "a = b" using x [of a] x [of b] by auto
  qed
  then show "distinct (map (block_of m) items)" using assms by (simp add: distinct_map good_items_def)
  show "m (phashBlock (h q)) = Some q" if "q \<in> set (map (block_of m) items)" for q
    using that x by auto
  show "unselected h m sel items = {q \<in> set (map (block_of m) items). sel (phashBlock (h q)) = None}"
  proof (intro set_eqI iffI)
    fix q assume "q \<in> unselected h m sel items"
    then obtain y where y: "y \<in> set items" "m (snd y) = Some q" "sel (phashBlock (h q)) = None" by (auto simp: unselected_def)
    then have "block_of m y = q" by (simp add: block_of_def)
    then show "q \<in> {q \<in> set (map (block_of m) items). sel (phashBlock (h q)) = None}" using y by auto
  next
    fix q assume "q \<in> {q \<in> set (map (block_of m) items). sel (phashBlock (h q)) = None}"
    then obtain y where y: "y \<in> set items" "block_of m y = q" "sel (phashBlock (h q)) = None" by auto
    then have "m (snd y) = Some q" using x [OF y(1)] by (auto simp: block_of_def)
    then show "q \<in> unselected h m sel items" using y by (auto simp: unselected_def)
  qed
qed

lemma bit_entropy: "bit (zext64 (StakeEntropyBit p)) j \<longleftrightarrow> j = 0 \<and> bit (nFlags p) 1"
proof -
  have two: "bit (2 :: u32) n \<longleftrightarrow> n = 1" for n
    using bit_exp_iff [where ?'a = u32 and m = 1 and n = n] by (auto simp: power_one_right)
  show ?thesis
    by (auto simp: StakeEntropyBit_def BLOCK_STAKE_ENTROPY_def bit_simps two)
qed

lemma bit_push_entropy: "i < 64 \<Longrightarrow> bit (push_bit k (zext64 (StakeEntropyBit p)) :: u64) i \<longleftrightarrow> i = k \<and> bit (nFlags p) 1"
  by (auto simp: bit_push_bit_iff bit_entropy)

lemma SelectBlock_selects:
  assumes sha: "sha_ok sha" and good: "good_items h m items" and ne: "unselected h m sel items \<noteq> {}"
  obtains p where "SelectBlockFromCandidates sha h m items sel stop prev = (True, Some p)" "p \<in> unselected h m sel items"
proof -
  have sub: "ranked h m sel stop items \<subseteq> unselected h m sel items"
    unfolding ranked_def unselected_def by blast
  obtain f p where "SelectBlockFromCandidates sha h m items sel stop prev = (True, Some p)"
      "f \<in> unselected h m sel items" "p \<in> insert f (ranked h m sel stop items)"
    using SelectBlockFromCandidates_spec [OF sha good_items_sorted [OF good], of sel stop prev] ne by (simp only: if_False) blast
  then show thesis using sub that by blast
qed

lemma modifier_rounds_spec:
  assumes sha: "sha_ok sha" and good: "good_items h m items"
  shows "length ps + length rs \<le> length items \<Longrightarrow> rs = [length ps..<length ps + length rs] \<Longrightarrow> length ps + length rs \<le> 64 \<Longrightarrow>
    distinct ps \<Longrightarrow> set ps \<subseteq> set (map (block_of m) items) \<Longrightarrow>
    (\<And>q. q \<in> set (map (block_of m) items) \<Longrightarrow> sel (phashBlock (h q)) = None \<longleftrightarrow> q \<notin> set ps) \<Longrightarrow>
    \<exists>qs r. modifier_rounds P sha h m items prev n stop sel rs = Some (Some r) \<and> length qs = length rs \<and>
      distinct (ps @ qs) \<and> set qs \<subseteq> set (map (block_of m) items) \<and>
      (\<forall>i<64. bit r i \<longleftrightarrow> bit n i \<or> (length ps \<le> i \<and> i < length ps + length rs \<and> bit (nFlags (h (qs ! (i - length ps)))) 1))"
proof (induction rs arbitrary: ps n stop sel)
  case Nil
  then show ?case by auto
next
  case (Cons k rs)
  let ?B = "set (map (block_of m) items)"
  have rs: "k = length ps" "rs = [length ps + 1..<length ps + 1 + length rs]"
    using Cons.prems(2) by (simp_all add: upt_conv_Cons del: upt_Suc)
  obtain s where s: "SelectionIntervalSection P k = Some s"
    using SelectionIntervalSection_some [of k P] Cons.prems(3) rs(1) by auto
  have "card ?B = length items" using good_items_blocks(1) [OF good] by (metis distinct_card length_map)
  moreover have "card (set ps) = length ps" using Cons.prems(4) by (rule distinct_card)
  ultimately have "card (set ps) < card ?B" using Cons.prems(1) by simp
  then have "\<not> ?B \<subseteq> set ps" by (metis List.finite_set card_mono leD)
  then obtain q0 where q0: "q0 \<in> ?B" "q0 \<notin> set ps" by blast
  have uns: "unselected h m sel items = {q \<in> ?B. q \<notin> set ps}"
    using good_items_blocks(3) [OF good, of sel] Cons.prems(6) by auto
  have ne: "unselected h m sel items \<noteq> {}" using q0 unfolding uns by blast
  obtain p where p: "SelectBlockFromCandidates sha h m items sel (stop + s) prev = (True, Some p)" "p \<in> unselected h m sel items"
    by (rule SelectBlock_selects [OF sha good ne])
  let ?sel = "sel(phashBlock (h p) \<mapsto> (case sel (phashBlock (h p)) of Some q \<Rightarrow> q | None \<Rightarrow> p))"
  let ?n = "n OR push_bit k (zext64 (StakeEntropyBit (h p)))"
  have inj: "q = p" if "q \<in> ?B" "phashBlock (h q) = phashBlock (h p)" for q
    using good_items_blocks(2) [OF good that(1)] good_items_blocks(2) [OF good, of p] p(2) uns that(2) by auto
  have pB: "p \<in> ?B" "p \<notin> set ps" using p(2) uns by auto
  have "\<exists>qs r. modifier_rounds P sha h m items prev ?n (stop + s) ?sel rs = Some (Some r) \<and> length qs = length rs \<and>
      distinct ((ps @ [p]) @ qs) \<and> set qs \<subseteq> ?B \<and>
      (\<forall>i<64. bit r i \<longleftrightarrow> bit ?n i \<or>
        (length (ps @ [p]) \<le> i \<and> i < length (ps @ [p]) + length rs \<and> bit (nFlags (h (qs ! (i - length (ps @ [p]))))) 1))"
  proof (rule Cons.IH)
    show "?sel (phashBlock (h q)) = None \<longleftrightarrow> q \<notin> set (ps @ [p])" if "q \<in> ?B" for q
      using Cons.prems(6) [OF that] inj [OF that] by auto
  qed (use Cons.prems rs pB in auto)
  then obtain qs r where r: "modifier_rounds P sha h m items prev ?n (stop + s) ?sel rs = Some (Some r)" "length qs = length rs"
      "distinct (ps @ p # qs)" "set qs \<subseteq> ?B"
      "\<And>i. i < 64 \<Longrightarrow> bit r i \<longleftrightarrow> bit ?n i \<or> (length ps + 1 \<le> i \<and> i < length ps + 1 + length rs \<and> bit (nFlags (h (qs ! (i - (length ps + 1))))) 1)"
    by auto
  show ?case
  proof (intro exI conjI)
    show "modifier_rounds P sha h m items prev n stop sel (k # rs) = Some (Some r)" using s p(1) r(1) by simp
    show "length (p # qs) = length (k # rs)" using r(2) by simp
    show "distinct (ps @ p # qs)" by (rule r(3))
    show "set (p # qs) \<subseteq> ?B" using r(4) pB by simp
    show "\<forall>i<64. bit r i \<longleftrightarrow> bit n i \<or> (length ps \<le> i \<and> i < length ps + length (k # rs) \<and> bit (nFlags (h ((p # qs) ! (i - length ps)))) 1)"
    proof (intro allI impI)
      fix i :: nat assume i: "i < 64"
      have "(p # qs) ! (i - length ps) = (if i = length ps then p else qs ! (i - (length ps + 1)))" if "length ps \<le> i"
        using that by (auto simp: nth_Cons' intro: arg_cong [of _ _ "(!) qs"])
      then show "bit r i \<longleftrightarrow> bit n i \<or> (length ps \<le> i \<and> i < length ps + length (k # rs) \<and> bit (nFlags (h ((p # qs) ! (i - length ps)))) 1)"
        using r(5) [OF i] i by (cases "i = length ps") (auto simp: bit_or_iff bit_push_entropy rs(1))
    qed
  qed
qed

subsection \<open>The walks of ComputeNextStakeModifier\<close>

lemma LastStakeModifier_walk_spec:
  assumes "tree_ok h"
  shows "\<exists>q n. LastStakeModifier_walk h p = Some q \<and> anc h n p = Some q \<and>
    (GeneratedStakeModifier (h q) \<or> pprev (h q) = None) \<and>
    (\<forall>m<n. \<exists>r. anc h m p = Some r \<and> \<not> GeneratedStakeModifier (h r))"
proof (induction p rule: tree_induct [OF assms])
  case (1 p)
  show ?case
  proof (cases "pprev (h p) = None \<or> GeneratedStakeModifier (h p)")
    case True
    then have "LastStakeModifier_walk h p = Some p" by (subst LastStakeModifier_walk.simps) (auto split: option.splits)
    then show ?thesis using True by (intro exI [of _ p] exI [of _ 0]) auto
  next
    case False
    then obtain p' where p': "pprev (h p) = Some p'" "\<not> GeneratedStakeModifier (h p)" by auto
    from 1 [OF p'(1)] obtain q n where q: "LastStakeModifier_walk h p' = Some q" "anc h n p' = Some q"
      "GeneratedStakeModifier (h q) \<or> pprev (h q) = None" "\<forall>m<n. \<exists>r. anc h m p' = Some r \<and> \<not> GeneratedStakeModifier (h r)"
      by blast
    have "LastStakeModifier_walk h p = Some q" using p' q(1) by (subst LastStakeModifier_walk.simps) simp
    moreover have "\<exists>r. anc h m p = Some r \<and> \<not> GeneratedStakeModifier (h r)" if "m < Suc n" for m
      using that p' q(4) by (cases m) auto
    ultimately show ?thesis using p' q by (intro exI [of _ q] exI [of _ "Suc n"]) auto
  qed
qed

lemma candidates_spec:
  assumes "tree_ok h"
  shows "\<exists>n. candidates h start v (Some p) =
      Some (v @ map (\<lambda>k. (GetBlockTime (h (the (anc h k p))), phashBlock (h (the (anc h k p))))) [0..<n]) \<and>
    (\<forall>k<n. \<exists>a. anc h k p = Some a \<and> start \<le> GetBlockTime (h a)) \<and>
    (\<forall>a. anc h n p = Some a \<longrightarrow> GetBlockTime (h a) < start)"
proof (induction p arbitrary: v rule: tree_induct [OF assms])
  case (1 p)
  let ?x = "(GetBlockTime (h p), phashBlock (h p))"
  show ?case
  proof (cases "start \<le> GetBlockTime (h p)")
    case False
    then have "candidates h start v (Some p) = Some v" by (subst candidates.simps) (simp add: Let_def)
    then show ?thesis using False by (intro exI [of _ 0]) auto
  next
    case True
    have step: "candidates h start v (Some p) = candidates h start (v @ [?x]) (pprev (h p))"
      using True by (subst candidates.simps) (simp add: Let_def)
    show ?thesis
    proof (cases "pprev (h p)")
      case None
      have "candidates h start v (Some p) = Some (v @ [?x])" unfolding step None by (subst candidates.simps) simp
      then show ?thesis using None True by (intro exI [of _ 1]) auto
    next
      case (Some p')
      from 1 [OF Some, of "v @ [?x]"] obtain n where n: "candidates h start (v @ [?x]) (Some p') = Some ((v @ [?x]) @
          map (\<lambda>k. (GetBlockTime (h (the (anc h k p'))), phashBlock (h (the (anc h k p'))))) [0..<n])"
        "\<forall>k<n. \<exists>a. anc h k p' = Some a \<and> start \<le> GetBlockTime (h a)" "\<forall>a. anc h n p' = Some a \<longrightarrow> GetBlockTime (h a) < start"
        by blast
      have up: "[0..<Suc n] = 0 # map Suc [0..<n]" by (simp add: upt_conv_Cons map_Suc_upt del: upt_Suc)
      have "candidates h start v (Some p) = Some (v @ map (\<lambda>k. (GetBlockTime (h (the (anc h k p))), phashBlock (h (the (anc h k p))))) [0..<Suc n])"
        unfolding step unfolding up using n(1) Some by (simp del: upt_Suc)
      moreover have "\<exists>a. anc h k p = Some a \<and> start \<le> GetBlockTime (h a)" if "k < Suc n" for k
        using that True n(2) Some by (cases k) auto
      ultimately show ?thesis using n(3) Some by (intro exI [of _ "Suc n"]) auto
    qed
  qed
qed

text \<open>The block map finds every ancestor under its hash.\<close>

definition indexed_chain :: "bheap \<Rightarrow> (base_uint \<Rightarrow> nat option) \<Rightarrow> nat \<Rightarrow> bool" where
  "indexed_chain h m p \<longleftrightarrow> (\<forall>k q. anc h k p = Some q \<longrightarrow> m (phashBlock (h q)) = Some q)"

lemma anc_inj:
  assumes "tree_ok h" "anc h i p = Some q" "anc h j p = Some q"
  shows "i = j"
  using anc_height [OF assms(1,2)] anc_height [OF assms(1,3)] by simp

lemma good_items_candidates:
  fixes h p n
  defines "v \<equiv> map (\<lambda>k. (GetBlockTime (h (the (anc h k p))), phashBlock (h (the (anc h k p))))) [0..<n]"
  assumes t: "tree_ok h" and ix: "indexed_chain h m p" and n: "\<forall>k<n. \<exists>a. anc h k p = Some a"
  shows "good_items h m (sort_candidates (rev v))"
    and "set (map (block_of m) (sort_candidates (rev v))) = {a. \<exists>k<n. anc h k p = Some a}"
proof -
  have m: "m (phashBlock (h (the (anc h k p)))) = Some (the (anc h k p))" if k: "k < n" for k
  proof -
    obtain a where "anc h k p = Some a" using n k by blast
    then show ?thesis using ix unfolding indexed_chain_def by (metis option.sel)
  qed
  have "inj_on (\<lambda>k. (GetBlockTime (h (the (anc h k p))), phashBlock (h (the (anc h k p))))) {0..<n}"
  proof (rule inj_onI)
    fix i j assume ij: "i \<in> {0..<n}" "j \<in> {0..<n}" "(GetBlockTime (h (the (anc h i p))), phashBlock (h (the (anc h i p)))) =
        (GetBlockTime (h (the (anc h j p))), phashBlock (h (the (anc h j p))))"
    have l: "i < n" "j < n" using ij(1,2) by simp_all
    have "phashBlock (h (the (anc h i p))) = phashBlock (h (the (anc h j p)))" using ij(3) by (simp only: prod.inject)
    then have "Some (the (anc h i p)) = Some (the (anc h j p))" using m [OF l(1)] m [OF l(2)] by (simp only:)
    then have e: "the (anc h i p) = the (anc h j p)" by (rule option.inject [THEN iffD1])
    obtain a where a: "anc h i p = Some a" using n l(1) by blast
    obtain b where b: "anc h j p = Some b" using n l(2) by blast
    have "a = b" using e unfolding a b by simp
    then show "i = j" using anc_inj [OF t a, of j] b by simp
  qed
  then have "distinct v" by (simp add: v_def distinct_map)
  moreover have "\<exists>q. x = (GetBlockTime (h q), phashBlock (h q)) \<and> m (phashBlock (h q)) = Some q" if "x \<in> set v" for x
    using that m by (auto simp: v_def)
  ultimately show "good_items h m (sort_candidates (rev v))"
    by (simp add: good_items_def sort_candidates_sorted)
  have "block_of m ` set v = (\<lambda>k. the (anc h k p)) ` {0..<n}"
    unfolding v_def set_map image_image by (intro image_cong) (auto simp: block_of_def m)
  also have "\<dots> = {a. \<exists>k<n. anc h k p = Some a}"
  proof (intro set_eqI iffI)
    fix a assume "a \<in> (\<lambda>k. the (anc h k p)) ` {0..<n}"
    then obtain k where "k < n" "a = the (anc h k p)" by auto
    then show "a \<in> {a. \<exists>k<n. anc h k p = Some a}" using n by fastforce
  next
    fix a assume "a \<in> {a. \<exists>k<n. anc h k p = Some a}"
    then obtain k where "k < n" "anc h k p = Some a" by auto
    then show "a \<in> (\<lambda>k. the (anc h k p)) ` {0..<n}" by (intro image_eqI [of _ _ k]) auto
  qed
  finally show "set (map (block_of m) (sort_candidates (rev v))) = {a. \<exists>k<n. anc h k p = Some a}" by simp
qed

subsection \<open>Properties of stake modifiers\<close>

text \<open>On candidates sorted by time whose hashes are all indexed, SelectBlockFromCandidates fails exactly
  when every candidate is already selected. Otherwise it returns the candidate with the least
  selection hash among the earliest unselected one and the unselected ones not later than the end of
  the selection interval.\<close>

theorem select_block_least_hash:
  assumes "sha_ok sha" "good_items h m items"
  shows "if unselected h m sel items = {} then SelectBlockFromCandidates sha h m items sel stop prev = (False, None)
    else \<exists>f p. SelectBlockFromCandidates sha h m items sel stop prev = (True, Some p) \<and>
      f \<in> unselected h m sel items \<and> (\<forall>q\<in>unselected h m sel items. GetBlockTime (h f) \<le> GetBlockTime (h q)) \<and>
      p \<in> insert f (ranked h m sel stop items) \<and>
      (\<forall>q\<in>insert f (ranked h m sel stop items). wval (SelectionHash sha (h p) prev) \<le> wval (SelectionHash sha (h q) prev))"
  by (rule SelectBlockFromCandidates_spec [OF assms(1) good_items_sorted [OF assms(2)]])

definition toy_sha :: sha256 where "toy_sha bs = take 32 (bs @ replicate 32 0)"

lemma toy_sha_ok: "sha_ok toy_sha"
  by (auto simp: sha_ok_def toy_sha_def min_def)

theorem select_block_least_hash_witness:
  "SelectBlockFromCandidates toy_sha (\<lambda>_. BlockIndex_default\<lparr>phashBlock := [3]\<rparr>) [[3] \<mapsto> 0] [(0, [3])] Map.empty 5 9 = (True, Some 0)"
proof -
  let ?h = "\<lambda>_. BlockIndex_default\<lparr>phashBlock := [3]\<rparr>"
  have good: "good_items ?h [[3] \<mapsto> 0] [(0, [3])]"
    by (simp add: good_items_def GetBlockTime_def BlockIndex_default_def)
  have uns: "unselected ?h [[3] \<mapsto> 0] Map.empty [(0, [3])] = {0}"
    by (simp add: unselected_def)
  have "ranked ?h [[3] \<mapsto> 0] Map.empty 5 [(0, [3])] \<subseteq> {0}"
    by (auto simp: ranked_def)
  then show ?thesis
    using select_block_least_hash [OF toy_sha_ok good, of Map.empty 5 9] unfolding uns by auto
qed

text \<open>C40. Once some ancestor of a block carries a generated modifier, ComputeNextStakeModifier succeeds on a
  well-formed, indexed chain. Let q be the nearest such ancestor. If q's time and the block's are in
  the same modifier interval (or q's is later), q's modifier is kept. Otherwise the result is a new
  modifier: n is the number of consecutive ancestors whose time is in the selection interval, and the
  i-th bit of the modifier is the entropy bit of the i-th block of a list of min(64, n) distinct
  blocks among these ancestors; the bits past the list are 0. So no round fails to find a block.\<close>

theorem next_stake_modifier:
  assumes "sha_ok sha" "tree_ok h" "indexed_chain h m p" "nModifierInterval P \<noteq> 0"
    and "anc h k0 p = Some q0" "GeneratedStakeModifier (h q0)"
  shows "\<exists>k q. anc h k p = Some q \<and> GeneratedStakeModifier (h q) \<and>
      (\<forall>j<k. \<exists>a. anc h j p = Some a \<and> \<not> GeneratedStakeModifier (h a)) \<and>
      (if GetBlockTime (h p) div uint (nModifierInterval P) \<le> GetBlockTime (h q) div uint (nModifierInterval P)
       then ComputeNextStakeModifier P sha h m (Some p) = Some (True, nStakeModifier (h q), False)
       else \<exists>s start n qs r. SelectionInterval P = Some s \<and>
         start = GetBlockTime (h p) div uint (nModifierInterval P) * uint (nModifierInterval P) - s \<and>
         (\<forall>j<n. \<exists>a. anc h j p = Some a \<and> start \<le> GetBlockTime (h a)) \<and>
         (\<forall>a. anc h n p = Some a \<longrightarrow> GetBlockTime (h a) < start) \<and>
         ComputeNextStakeModifier P sha h m (Some p) = Some (True, r, True) \<and>
         length qs = min 64 n \<and> distinct qs \<and> set qs \<subseteq> {a. \<exists>j<n. anc h j p = Some a} \<and>
         (\<forall>i<64. bit r i \<longleftrightarrow> i < length qs \<and> bit (nFlags (h (qs ! i))) 1))"
proof -
  let ?I = "uint (nModifierInterval P)" and ?t = "GetBlockTime (h p)"
  obtain q k where q: "LastStakeModifier_walk h p = Some q" "anc h k p = Some q"
      "GeneratedStakeModifier (h q) \<or> pprev (h q) = None" "\<forall>j<k. \<exists>a. anc h j p = Some a \<and> \<not> GeneratedStakeModifier (h a)"
    using LastStakeModifier_walk_spec [OF assms(2)] by blast
  have "\<not> k0 < k" using q(4) assms(5,6) by force
  moreover have "pprev (h q) \<noteq> None" if "k < k0"
  proof
    assume "pprev (h q) = None"
    then have "anc h (k + Suc (k0 - k - 1)) p = None" using anc_add [OF q(2), of "Suc (k0 - k - 1)"] by simp
    then show False using that assms(5) by simp
  qed
  ultimately have gen: "GeneratedStakeModifier (h q)" using q(2,3) assms(5,6) by (cases "k = k0") auto
  obtain s where s: "SelectionInterval P = Some s" using SelectionInterval_some by blast
  define start where "start = ?t div ?I * ?I - s"
  let ?v = "\<lambda>n. map (\<lambda>k. (GetBlockTime (h (the (anc h k p))), phashBlock (h (the (anc h k p))))) [0..<n]"
  obtain n where n: "candidates h start [] (Some p) = Some (?v n)"
      "\<forall>k<n. \<exists>a. anc h k p = Some a \<and> start \<le> GetBlockTime (h a)" "\<forall>a. anc h n p = Some a \<longrightarrow> GetBlockTime (h a) < start"
    using candidates_spec [OF assms(2), of start "[]" p] by auto
  have n': "\<forall>k<n. \<exists>a. anc h k p = Some a" using n(2) by blast
  let ?items = "sort_candidates (rev (?v n))"
  have len: "length ?items = n" by simp
  obtain qs r where r: "modifier_rounds P sha h m ?items (nStakeModifier (h q)) 0 start Map.empty [0..<min 64 n] = Some (Some r)"
      "length qs = min 64 n" "distinct qs" "set qs \<subseteq> {a. \<exists>j<n. anc h j p = Some a}"
      "\<forall>i<64. bit r i \<longleftrightarrow> i < min 64 n \<and> bit (nFlags (h (qs ! i))) 1"
    using modifier_rounds_spec [OF assms(1) good_items_candidates(1) [OF assms(2,3) n'], of "[]" "[0..<min 64 n]" Map.empty P
        "nStakeModifier (h q)" 0 start]
    unfolding good_items_candidates(2) [OF assms(2,3) n'] len by auto
  have I: "?I \<noteq> 0" using assms(4) by (simp add: uint_0_iff)
  have last: "GetLastStakeModifier h (Some p) = Some (Some (nStakeModifier (h q), GetBlockTime (h q)))"
    using q(1) gen by (simp add: GetLastStakeModifier_def)
  have comp: "ComputeNextStakeModifier P sha h m (Some p) =
      (if ?t div ?I \<le> GetBlockTime (h q) div ?I then Some (True, nStakeModifier (h q), False) else Some (True, r, True))"
    using r(1) n(1) s I unfolding start_def
    by (simp add: ComputeNextStakeModifier_def last Let_def)
  show ?thesis
    by (intro exI [of _ k] exI [of _ q] conjI q(2) gen q(4))
       (use comp s n r start_def in \<open>auto intro!: exI [of _ n] exI [of _ qs]\<close>)
qed

definition two_blocks :: bheap where
  "two_blocks p = (if p = 1 then BlockIndex_default\<lparr>phashBlock := [5], pprev := Some 0, nHeight := 1, bi_nTime := 400, nFlags := 2\<rparr>
     else BlockIndex_default\<lparr>nFlags := BLOCK_STAKE_MODIFIER\<rparr>)"

theorem next_stake_modifier_witness:
  "\<exists>r. ComputeNextStakeModifier main_params toy_sha two_blocks [[] \<mapsto> 0, [5] \<mapsto> 1] (Some 1) = Some (True, r, True)"
proof -
  have t: "tree_ok two_blocks" by (auto simp: tree_ok_def two_blocks_def BlockIndex_default_def)
  have a: "anc two_blocks k 1 = (if k = 0 then Some 1 else if k = 1 then Some 0 else None)" for k
    by (cases k; cases "k - 1") (auto simp: two_blocks_def BlockIndex_default_def)
  have i: "indexed_chain two_blocks [[] \<mapsto> 0, [5] \<mapsto> 1] 1"
    unfolding indexed_chain_def a by (auto simp: two_blocks_def BlockIndex_default_def split: if_splits)
  have P: "nModifierInterval main_params = 300" by (simp add: main_params_def MODIFIER_INTERVAL_def)
  have g: "GeneratedStakeModifier (two_blocks p) \<longleftrightarrow> p \<noteq> 1" for p
    by (simp add: GeneratedStakeModifier_def two_blocks_def BlockIndex_default_def BLOCK_STAKE_MODIFIER_def)
  have tm: "GetBlockTime (two_blocks p) = (if p = 1 then 400 else 0)" for p
    by (simp add: GetBlockTime_def two_blocks_def BlockIndex_default_def)
  have "anc two_blocks 1 1 = Some 0" "GeneratedStakeModifier (two_blocks 0)" unfolding a g by simp_all
  from next_stake_modifier [OF toy_sha_ok t i _ this, of main_params] show ?thesis
    unfolding a g tm P by (auto split: if_splits)
qed

subsection \<open>The kernel's modifier\<close>

primrec succ_block :: "bheap \<Rightarrow> nat \<Rightarrow> nat \<Rightarrow> nat option" where \<comment> \<open>the n-th successor on the main chain\<close>
  "succ_block h 0 p = Some p"
| "succ_block h (Suc n) p = (case pnext (h p) of None \<Rightarrow> None | Some q \<Rightarrow> succ_block h n q)"

text \<open>A block from which the kernel's modifier may be taken.\<close>

definition modifier_block :: "bheap \<Rightarrow> int \<Rightarrow> nat \<Rightarrow> bool" where
  "modifier_block h stop q \<longleftrightarrow> GeneratedStakeModifier (h q) \<and> stop \<le> GetBlockTime (h q)"

lemma KernelModifier_walk_found:
  "t < stop \<Longrightarrow> succ_block h (Suc k) p = Some q \<Longrightarrow> modifier_block h stop q \<Longrightarrow>
   \<forall>j\<le>k. \<forall>a. succ_block h j p = Some a \<longrightarrow> j \<noteq> 0 \<longrightarrow> \<not> modifier_block h stop a \<Longrightarrow>
   KernelModifier_walk h stop ht t p = Some (Some (q, nHeight (h q), GetBlockTime (h q)))"
proof (induction k arbitrary: p ht t)
  case 0
  then have n: "pnext (h p) = Some q" by (auto split: option.splits)
  have "KernelModifier_walk h stop ht t p = KernelModifier_walk h stop (nHeight (h q)) (GetBlockTime (h q)) q"
    using 0 n by (subst KernelModifier_walk.simps) (simp add: modifier_block_def)
  also have "\<dots> = Some (Some (q, nHeight (h q), GetBlockTime (h q)))"
    using 0 by (subst KernelModifier_walk.simps) (simp add: modifier_block_def)
  finally show ?case .
next
  case (Suc k)
  then obtain p' where p': "pnext (h p) = Some p'" "succ_block h (Suc k) p' = Some q"
    by (auto split: option.splits)
  have "\<not> modifier_block h stop p'" using Suc.prems(4) p'(1) by (auto dest: spec [of _ 1])
  moreover have "\<forall>j\<le>k. \<forall>a. succ_block h j p' = Some a \<longrightarrow> j \<noteq> 0 \<longrightarrow> \<not> modifier_block h stop a"
    using Suc.prems(4) p'(1) by (auto dest: spec [of _ "Suc _"])
  ultimately show ?case
    using Suc.prems p' Suc.IH [of "GetBlockTime (h p')" p' "nHeight (h p')"] Suc.IH [of t p' ht]
    by (subst KernelModifier_walk.simps) (auto simp: modifier_block_def)
qed

lemma KernelModifier_walk_end:
  "t < stop \<Longrightarrow> succ_block h k p = Some q \<Longrightarrow> pnext (h q) = None \<Longrightarrow>
   \<forall>j\<le>k. \<forall>a. succ_block h j p = Some a \<longrightarrow> j \<noteq> 0 \<longrightarrow> \<not> modifier_block h stop a \<Longrightarrow>
   KernelModifier_walk h stop ht t p = Some None"
proof (induction k arbitrary: p ht t)
  case 0
  then show ?case by (subst KernelModifier_walk.simps) simp
next
  case (Suc k)
  then obtain p' where p': "pnext (h p) = Some p'" "succ_block h k p' = Some q"
    by (auto split: option.splits)
  have "\<not> modifier_block h stop p'" using Suc.prems(4) p'(1) by (auto dest: spec [of _ 1])
  moreover have "\<forall>j\<le>k. \<forall>a. succ_block h j p' = Some a \<longrightarrow> j \<noteq> 0 \<longrightarrow> \<not> modifier_block h stop a"
    using Suc.prems(4) p'(1) by (auto dest: spec [of _ "Suc _"])
  ultimately show ?case
    using Suc.prems p' Suc.IH [of "GetBlockTime (h p')" p' "nHeight (h p')"] Suc.IH [of t p' ht]
    by (subst KernelModifier_walk.simps) (auto simp: modifier_block_def)
qed

lemma SelectionInterval_values:
  "SelectionInterval main_params = Some 10554" "SelectionInterval test_params = Some 2087"
  by code_simp+

text \<open>The stake modifier of a kernel is that of the first block after the one holding the staked output,
  along the main chain, that generated a modifier and is later by a selection interval at least
  (10554 seconds on the main network). If the main chain ends before such a block the lookup fails;
  on a finite chain it always returns.\<close>

theorem kernel_modifier_lookup:
  assumes "m hashFrom = Some from" "succ_block h (Suc k) from = Some q"
    and "\<forall>j\<le>k. \<forall>a. succ_block h j from = Some a \<longrightarrow> j \<noteq> 0 \<longrightarrow> \<not> modifier_block h (GetBlockTime (h from) + 10554) a"
  shows "(modifier_block h (GetBlockTime (h from) + 10554) q \<longrightarrow>
      GetKernelStakeModifier main_params h m hashFrom = Some (Some (nStakeModifier (h q), nHeight (h q), GetBlockTime (h q)))) \<and>
    (\<not> modifier_block h (GetBlockTime (h from) + 10554) q \<longrightarrow> pnext (h q) = None \<longrightarrow>
      GetKernelStakeModifier main_params h m hashFrom = Some None)"
proof (intro conjI impI)
  let ?stop = "GetBlockTime (h from) + 10554"
  have lt: "GetBlockTime (h from) < ?stop" by simp
  show "GetKernelStakeModifier main_params h m hashFrom = Some (Some (nStakeModifier (h q), nHeight (h q), GetBlockTime (h q)))"
    if "modifier_block h ?stop q"
    using KernelModifier_walk_found [OF lt assms(2) that assms(3)] assms(1)
    by (simp add: GetKernelStakeModifier_def SelectionInterval_values)
  show "GetKernelStakeModifier main_params h m hashFrom = Some None" if "\<not> modifier_block h ?stop q" "pnext (h q) = None"
  proof -
    have "\<forall>j\<le>Suc k. \<forall>a. succ_block h j from = Some a \<longrightarrow> j \<noteq> 0 \<longrightarrow> \<not> modifier_block h ?stop a"
      using assms(2,3) that(1) by (auto simp: le_Suc_eq)
    from KernelModifier_walk_end [OF lt assms(2) that(2) this] assms(1) show ?thesis
      by (simp add: GetKernelStakeModifier_def SelectionInterval_values)
  qed
qed

definition two_linked :: bheap where
  "two_linked p = (if p = 0 then BlockIndex_default\<lparr>pnext := Some 1\<rparr>
     else BlockIndex_default\<lparr>bi_nTime := 20000, nHeight := 1, nFlags := 4, nStakeModifier := 77\<rparr>)"

lemma kernel_lookup_two_linked:
  "GetKernelStakeModifier main_params two_linked [[] \<mapsto> 0] [] = Some (Some (77, 1, 20000))"
  by (simp add: GetKernelStakeModifier_def SelectionInterval_values KernelModifier_walk.simps two_linked_def
      BlockIndex_default_def GetBlockTime_def GeneratedStakeModifier_def BLOCK_STAKE_MODIFIER_def)

theorem kernel_modifier_lookup_witness:
  "GetKernelStakeModifier main_params two_linked [[] \<mapsto> 0] [] = Some (Some (77, 1, 20000))"
proof -
  have "modifier_block two_linked (GetBlockTime (two_linked 0) + 10554) 1"
    by (simp add: modifier_block_def two_linked_def GetBlockTime_def BlockIndex_default_def GeneratedStakeModifier_def BLOCK_STAKE_MODIFIER_def)
  then show ?thesis
    using kernel_modifier_lookup [of "[[] \<mapsto> 0]" "[]" 0 two_linked 0 1]
    by (simp add: two_linked_def BlockIndex_default_def GetBlockTime_def)
qed

subsection \<open>The kernel check\<close>

lemma trunc_div_neg: "a \<le> 0 \<Longrightarrow> 0 < b \<Longrightarrow> trunc_div a b \<le> 0"
  by (cases "a = 0") (simp_all add: trunc_div_def pos_imp_zdiv_nonneg_iff)

lemma uint_COIN: "uint COIN = 1000000"
  by (simp add: COIN_def)

text \<open>The kernel check accepts exactly if the coinstake is not earlier than the previous transaction, the
  minimum age has passed since the block (no wrap of the 32-bit sum assumed) and the kernel hash, as a
  number, is at most the compact target times the coin-day weight: the value times the age, cut off at
  the maximum age and reduced by the minimum age, over one coin times one day, rounded down.\<close>

theorem kernel_check_contract:
  assumes n: "unat (o_n out) < length (vout txPrev)"
    and v: "nValueIn = sint (nValue (vout txPrev ! unat (o_n out)))" "0 \<le> nValueIn"
    and m: "GetKernelStakeModifier P h m (Block_GetHash hash9 blk) = Some (Some (modifier, ht, t))"
    and w: "uint (b_nTime blk) + uint (nStakeMinAge P) < 2 ^ 32"
    and age: "age = uint nTimeTx - uint (tx_nTime txPrev)"
      "uint (nStakeMinAge P) \<le> age" "uint (nStakeMinAge P) \<le> nStakeMaxAge P"
  shows "(\<exists>hp. CheckStakeKernelHash P sha hash9 h m nBits blk off txPrev out nTimeTx = Some (True, hp)) \<longleftrightarrow>
    uint (b_nTime blk) + uint (nStakeMinAge P) \<le> uint nTimeTx \<and>
    int (wval (kernel_hash sha modifier (b_nTime blk) off (tx_nTime txPrev) (o_n out) nTimeTx)) \<le>
      nValueIn * (min age (nStakeMaxAge P) - uint (nStakeMinAge P)) div (1000000 * 86400) * compact_val nBits"
proof -
  have minage: "b_nTime blk + nStakeMinAge P > nTimeTx \<longleftrightarrow> \<not> uint (b_nTime blk) + uint (nStakeMinAge P) \<le> uint nTimeTx"
    using w by (simp add: word_less_def uint_plus_if' not_le)
  have past: "\<not> nTimeTx < tx_nTime txPrev"
  proof -
    have "uint (tx_nTime txPrev) \<le> uint nTimeTx" using age(1,2) uint_ge_0 [of "nStakeMinAge P"] by linarith
    then show ?thesis by (simp add: word_less_def)
  qed
  let ?a = "nValueIn * (min age (nStakeMaxAge P) - uint (nStakeMinAge P))"
  have "0 \<le> ?a" using v(2) age by simp
  then have "trunc_div (trunc_div ?a (uint COIN)) (24 * 60 * 60) = ?a div 1000000 div 86400"
    by (simp add: trunc_div_nonneg uint_COIN pos_imp_zdiv_nonneg_iff)
  also have "\<dots> = ?a div (1000000 * 86400)" by (rule zdiv_zmult2_eq [symmetric]) simp
  finally have W: "trunc_div (trunc_div ?a (uint COIN)) 86400 = ?a div 86400000000" by simp
  have e: "min (uint nTimeTx - uint (tx_nTime txPrev)) (nStakeMaxAge P) = min age (nStakeMaxAge P)"
    by (simp only: age(1))
  show ?thesis
    unfolding CheckStakeKernelHash_def Let_def if_not_P [OF past] minage
    using n m by (simp add: e W flip: v(1))
qed


lemma main_values: "nStakeMinAge main_params = 3600" "nStakeMaxAge main_params = 14400"
  by (simp_all add: main_params_def)

theorem kernel_check_contract_witness:
  "(\<exists>hp. CheckStakeKernelHash main_params toy_sha (\<lambda>_. []) two_linked [[] \<mapsto> 0] 0 Block_SetNull 0
      ((Tx_SetNull 0)\<lparr>vout := [TxOut_empty]\<rparr>) (COutPoint [] 0) 3600 = Some (True, hp)) \<longleftrightarrow>
    int (wval (kernel_hash toy_sha 77 0 0 0 0 3600)) \<le> 0"
proof -
  let ?tx = "(Tx_SetNull 0)\<lparr>vout := [TxOut_empty]\<rparr>" and ?o = "COutPoint [] 0"
  have n: "unat (o_n ?o) < length (vout ?tx)" by simp
  have v: "0 = sint (nValue (vout ?tx ! unat (o_n ?o)))" by (simp add: TxOut_empty_def)
  have m: "GetKernelStakeModifier main_params two_linked [[] \<mapsto> 0] (Block_GetHash (\<lambda>_. []) Block_SetNull) = Some (Some (77, 1, 20000))"
    by (simp add: Block_GetHash_def kernel_lookup_two_linked)
  have bt: "b_nTime Block_SetNull = 0" "tx_nTime ?tx = 0" by (simp_all add: Block_SetNull_def Tx_SetNull_def)
  have w: "uint (b_nTime Block_SetNull) + uint (nStakeMinAge main_params) < 2 ^ 32" by (simp add: bt main_values)
  have age: "3600 = uint (3600 :: u32) - uint (tx_nTime ?tx)" "uint (nStakeMinAge main_params) \<le> 3600"
    "uint (nStakeMinAge main_params) \<le> nStakeMaxAge main_params" by (simp_all add: bt main_values)
  from kernel_check_contract [OF n v order.refl m w age, of toy_sha 0 0] show ?thesis
    unfolding bt by (simp add: main_values)
qed

text \<open>No coin below 8 coins can stake on the main network: with a non-zero kernel hash the check accepts
  an output only if its value is at least 8 COIN (32 COIN on the test network), because the coin-day
  weight is rounded down and the age is cut off.\<close>

theorem kernel_minimum_stake:
  assumes "CheckStakeKernelHash P sha hash9 h m nBits blk off txPrev out nTimeTx = Some (True, Some hp)"
    and "P = main_params \<or> P = test_params" "0 < wval hp" "0 \<le> compact_val nBits"
    and "0 \<le> sint (nValue (vout txPrev ! unat (o_n out)))"
  shows "(if P = main_params then 8 else 32) * uint COIN \<le> sint (nValue (vout txPrev ! unat (o_n out)))"
proof (rule ccontr)
  let ?v = "sint (nValue (vout txPrev ! unat (o_n out)))"
  let ?w = "min (uint nTimeTx - uint (tx_nTime txPrev)) (nStakeMaxAge P) - uint (nStakeMinAge P)"
  assume "\<not> (if P = main_params then 8 else 32) * uint COIN \<le> ?v"
  then have lt: "?v < (if P = main_params then 8 else 32) * 1000000" by (simp add: uint_COIN)
  have params: "main_params \<noteq> test_params" "nStakeMaxAge main_params - uint (nStakeMinAge main_params) = 10800"
    "nStakeMaxAge test_params - uint (nStakeMinAge test_params) = 2700"
    by (simp_all add: main_params_def test_params_def)
  have w: "?w \<le> (if P = main_params then 10800 else 2700)" using assms(2) params by auto
  have acc: "int (wval hp) \<le> trunc_div (trunc_div (?v * ?w) (uint COIN)) (24 * 60 * 60) * compact_val nBits"
    using assms(1) by (simp add: CheckStakeKernelHash_def Let_def split: if_splits bind_splits option.splits prod.splits)
  have top: "?v * ?w < 86400000000"
  proof (cases "0 \<le> ?w")
    case True
    then have "?v * ?w \<le> ?v * (if P = main_params then 10800 else 2700)" using w assms(5) by (intro mult_left_mono)
    also have "\<dots> < 86400000000" using lt by (auto split: if_splits)
    finally show ?thesis .
  next
    case False
    then have "?v * ?w \<le> 0" by (intro mult_nonneg_nonpos) (use assms(5) False in linarith)+
    then show ?thesis by simp
  qed
  have "trunc_div (trunc_div (?v * ?w) (uint COIN)) (24 * 60 * 60) \<le> 0"
  proof (cases "0 \<le> ?v * ?w")
    case True
    then have "trunc_div (trunc_div (?v * ?w) (uint COIN)) (24 * 60 * 60) = ?v * ?w div 1000000 div 86400"
      by (simp add: trunc_div_nonneg uint_COIN pos_imp_zdiv_nonneg_iff)
    also have "\<dots> = ?v * ?w div (1000000 * 86400)" by (rule zdiv_zmult2_eq [symmetric]) simp
    also have "\<dots> = 0" using True top by (intro div_pos_pos_trivial) simp_all
    finally show ?thesis by simp
  next
    case False
    then show ?thesis by (intro trunc_div_neg) (simp_all add: uint_COIN)
  qed
  then have "trunc_div (trunc_div (?v * ?w) (uint COIN)) (24 * 60 * 60) * compact_val nBits \<le> 0"
    using assms(4) by (rule mult_nonpos_nonneg)
  with acc assms(3) show False by simp
qed

theorem kernel_minimum_stake_witness:
  "\<not> (\<exists>hp. 0 < wval hp \<and> CheckStakeKernelHash main_params toy_sha (\<lambda>_. []) two_linked [[] \<mapsto> 0] 0 Block_SetNull 0
      ((Tx_SetNull 0)\<lparr>vout := [TxOut_empty]\<rparr>) (COutPoint [] 0) 3600 = Some (True, Some hp))"
proof
  assume "\<exists>hp. 0 < wval hp \<and> CheckStakeKernelHash main_params toy_sha (\<lambda>_. []) two_linked [[] \<mapsto> 0] 0 Block_SetNull 0
      ((Tx_SetNull 0)\<lparr>vout := [TxOut_empty]\<rparr>) (COutPoint [] 0) 3600 = Some (True, Some hp)"
  then obtain hp where hp: "0 < wval hp" "CheckStakeKernelHash main_params toy_sha (\<lambda>_. []) two_linked [[] \<mapsto> 0] 0 Block_SetNull 0
      ((Tx_SetNull 0)\<lparr>vout := [TxOut_empty]\<rparr>) (COutPoint [] 0) 3600 = Some (True, Some hp)" by blast
  have c: "0 \<le> compact_val 0" by (simp add: compact_val_def)
  have v: "sint (nValue (vout ((Tx_SetNull 0)\<lparr>vout := [TxOut_empty]\<rparr>) ! unat (o_n (COutPoint [] 0)))) = 0"
    by (simp add: TxOut_empty_def)
  show False using kernel_minimum_stake [OF hp(2) _ hp(1) c] unfolding v by (simp add: uint_COIN)
qed

text \<open>GetWeight, by which the wallet reports its stake weight, is not the time weight of the kernel check:
  for ages of at least the minimum age it exceeds it by the time past the maximum age, up to the
  minimum age.\<close>

lemma weight_overstated:
  assumes "uint (nStakeMinAge P) \<le> e - b"
  shows "GetWeight P b e = min (e - b) (nStakeMaxAge P) - uint (nStakeMinAge P) +
    (if e - b \<le> nStakeMaxAge P then 0 else min (uint (nStakeMinAge P)) (e - b - nStakeMaxAge P))"
proof -
  define A where "A = uint (nStakeMinAge P)"
  have "0 \<le> A" by (simp add: A_def)
  then show ?thesis using assms unfolding GetWeight_def A_def [symmetric] by (auto simp: min_def)
qed

end
