(* ===== verification/Consensus.thy ===== *)
theory Consensus
  imports Kernel
begin

text \<open>
  The consensus arithmetic of src/main.cpp: reward schedules and their tables (the series generators
  of src/util.h run by InitializeConstants), the target adjustment of every block, the bounds on a
  target some time after another, the proof-of-work check, the trust score of a block and coin age.
  As in Kernel, a CBigNum is the integer it denotes; its GetCompact is BigNum's, run on integers.
  Overflow of a signed int, which C++ leaves undefined, is None.
\<close>

subsection \<open>Series generators and reward tables\<close>

definition int32_ok :: "int \<Rightarrow> int option" where
  "int32_ok x = (if - (2 ^ 31) \<le> x \<and> x < 2 ^ 31 then Some x else None)"

text \<open>A generator call returns the value and the updated member; std::generate calls it n times.\<close>

definition ExpMulGenerator :: "int \<Rightarrow> int \<Rightarrow> (int \<times> int) option" where
  "ExpMulGenerator m_factor m_value = do { v \<leftarrow> int32_ok (m_value * m_factor); Some (m_value, v) }"

definition ExpDivGenerator :: "int \<Rightarrow> int \<Rightarrow> (int \<times> int) option" where
  "ExpDivGenerator m_factor m_value = (if m_factor = 0 then None else Some (m_value, trunc_div m_value m_factor))"

definition IncGenerator :: "int \<Rightarrow> int \<Rightarrow> (int \<times> int) option" where
  "IncGenerator m_addition m_value = do { v \<leftarrow> int32_ok (m_value + m_addition); Some (m_value, v) }"

primrec std_generate :: "(int \<Rightarrow> (int \<times> int) option) \<Rightarrow> nat \<Rightarrow> int \<Rightarrow> int list option" where
  "std_generate g 0 m = Some []"
| "std_generate g (Suc n) m = do { (res, m') \<leftarrow> g m; xs \<leftarrow> std_generate g n m'; Some (res # xs) }"

definition cutoffSeriesLength :: nat where "cutoffSeriesLength = 5"

record constants =
  x13CutoffHeight :: "int list"
  x13CutoffReward :: "int list"
  mSHACutoffHeight :: "int list"
  mSHACutoffReward :: "int list"

definition InitializeConstants :: "constants option" where
  "InitializeConstants =
     do { xh \<leftarrow> std_generate (ExpMulGenerator 4) cutoffSeriesLength 40000;
          xr \<leftarrow> std_generate (ExpDivGenerator 4) cutoffSeriesLength (32 * uint COIN);
          mh \<leftarrow> std_generate (ExpMulGenerator 4) cutoffSeriesLength 40000;
          mr \<leftarrow> std_generate (IncGenerator (uint COIN)) cutoffSeriesLength 0;
          Some \<lparr> x13CutoffHeight = xh, x13CutoffReward = xr, mSHACutoffHeight = mh, mSHACutoffReward = mr \<rparr> }"

text \<open>The loop that adds the reward of the first cutoff above the height; rewards are read at the same index.\<close>

fun cutoff_reward :: "int \<Rightarrow> int list \<Rightarrow> int list \<Rightarrow> int \<Rightarrow> int option" where
  "cutoff_reward height (c # cs) (r # rs) result =
     (if height < c then int32_ok (result + r) else cutoff_reward height cs rs result)"
| "cutoff_reward height [] rs result = Some result"
| "cutoff_reward height (c # cs) [] result = (if height < c then None else cutoff_reward height cs [] result)"

definition GetProofOfWorkReward :: "constants \<Rightarrow> int \<Rightarrow> u64 \<Rightarrow> bool \<Rightarrow> u64 option" where
  "GetProofOfWorkReward C height nFees mSHAGenerated =
     do { result \<leftarrow> cutoff_reward height (x13CutoffHeight C) (x13CutoffReward C) 0;
          result \<leftarrow> (if mSHAGenerated then cutoff_reward height (mSHACutoffHeight C) (mSHACutoffReward C) result
                    else Some result);
          Some (word_of_int result + nFees) }"

definition MAX_CLOAK_PROOF_OF_STAKE :: u64 where "MAX_CLOAK_PROOF_OF_STAKE = 80000" \<comment> \<open>0.08 * COIN\<close>

definition GetProofOfStakeReward :: "u64 \<Rightarrow> u64" where
  "GetProofOfStakeReward nCoinAge = word_of_int (trunc_div (sint (nCoinAge * MAX_CLOAK_PROOF_OF_STAKE)) 365)"

subsection \<open>Targets\<close>

record limits =
  bnProofOfWorkLimit :: int
  bnProofOfStakeLimit :: int

definition main_limits :: limits where
  "main_limits = \<lparr> bnProofOfWorkLimit = int (wval (u_shr (u_compl (u_of_uint64 8 0)) 0)),
     bnProofOfStakeLimit = int (wval (u_shr (u_compl (u_of_uint64 8 0)) 2)) \<rparr>"

definition test_limits :: limits where
  "test_limits = \<lparr> bnProofOfWorkLimit = int (wval (u_shr (u_compl (u_of_uint64 8 0)) 0)),
     bnProofOfStakeLimit = int (wval (u_shr (u_compl (u_of_uint64 8 0)) 30)) \<rparr>"

text \<open>The two spans are initialised once, from the spacing of the main network.\<close>

definition nTargetTimespan :: int where "nTargetTimespan = 30 * nStakeTargetSpacing main_params"
definition nTargetSpacingWorkMax :: int where "nTargetSpacingWorkMax = 3 * nStakeTargetSpacing main_params"

definition bnGetCompact :: "int \<Rightarrow> u32" where "bnGetCompact v = GetCompact int_openssl v"

function ComputeMaxBits_loop :: "int \<Rightarrow> int \<Rightarrow> int \<Rightarrow> int" where
  "ComputeMaxBits_loop bnTargetLimit bnResult nTime =
     (if nTime > 0 \<and> bnResult < bnTargetLimit
      then ComputeMaxBits_loop bnTargetLimit (bnResult * 2) (nTime - 24 * 60 * 60) else bnResult)"
  by pat_completeness auto
termination by (relation "measure (\<lambda>(l, b, t). nat t)") auto

declare ComputeMaxBits_loop.simps [simp del]

definition ComputeMaxBits :: "int \<Rightarrow> u32 \<Rightarrow> int \<Rightarrow> u32" where
  "ComputeMaxBits bnTargetLimit nBase nTime =
     (let bnResult = ComputeMaxBits_loop bnTargetLimit (compact_val nBase * 2) nTime
      in bnGetCompact (if bnResult > bnTargetLimit then bnTargetLimit else bnResult))"

definition ComputeMinWork :: "limits \<Rightarrow> u32 \<Rightarrow> int \<Rightarrow> u32" where
  "ComputeMinWork L nBase nTime = ComputeMaxBits (bnProofOfWorkLimit L) nBase nTime"

definition ComputeMinStake :: "limits \<Rightarrow> u32 \<Rightarrow> int \<Rightarrow> u32" where
  "ComputeMinStake L nBase nTime = ComputeMaxBits (bnProofOfStakeLimit L) nBase nTime"

definition GetNextTargetRequired :: "stake_params \<Rightarrow> limits \<Rightarrow> bheap \<Rightarrow> nat option \<Rightarrow> bool \<Rightarrow> u32 option" where
  "GetNextTargetRequired P L h pindexLast fProofOfStake =
     (let bnTargetLimit = (if fProofOfStake then bnProofOfStakeLimit L else bnProofOfWorkLimit L)
      in case pindexLast of None \<Rightarrow> Some (bnGetCompact bnTargetLimit)
         | Some lastp \<Rightarrow>
             do { prev \<leftarrow> GetLastBlockIndex h lastp fProofOfStake;
                  case pprev (h prev) of None \<Rightarrow> Some (bnGetCompact bnTargetLimit)
                  | Some prev1 \<Rightarrow>
                      do { prevprev \<leftarrow> GetLastBlockIndex h prev1 fProofOfStake;
                           if pprev (h prevprev) = None then Some (bnGetCompact bnTargetLimit)
                           else let a = GetBlockTime (h prev) - GetBlockTime (h prevprev);
                                    nActualSpacing = (if a < 0 then 1 else if a > nTargetTimespan then nTargetTimespan else a);
                                    nTargetSpacing = (if fProofOfStake then nStakeTargetSpacing P
                                      else min nTargetSpacingWorkMax
                                             (nStakeTargetSpacing P * (1 + nHeight (h lastp) - nHeight (h prev))))
                                in if nTargetSpacing = 0 then None
                                   else let nInterval = trunc_div nTargetTimespan nTargetSpacing;
                                            bnNew = compact_val (bi_nBits (h prev)) *
                                                      ((nInterval - 1) * nTargetSpacing + nActualSpacing + nActualSpacing);
                                            bnNew = trunc_div bnNew ((nInterval + 1) * nTargetSpacing)
                                        in Some (bnGetCompact (if bnNew > bnTargetLimit then bnTargetLimit else bnNew)) } })"

definition CheckProofOfWork :: "limits \<Rightarrow> base_uint \<Rightarrow> u32 \<Rightarrow> bool" where
  "CheckProofOfWork L hsh nBits =
     (let bnTarget = compact_val nBits
      in if bnTarget \<le> 0 \<or> bnTarget > bnProofOfWorkLimit L then False
         else if u_gt hsh (getuint256 int_openssl bnTarget) then False else True)"

definition GetBlockTrust :: "limits \<Rightarrow> CBlockIndex \<Rightarrow> int" where
  "GetBlockTrust L p =
     (let bnTarget = compact_val (bi_nBits p)
      in if bnTarget \<le> 0 then 0
         else if IsProofOfStake p then trunc_div (1 * 2 ^ 256) (bnTarget + 1)
         else let bnPoWTrust = trunc_div (bnProofOfWorkLimit L) (bnTarget + 1)
              in if bnPoWTrust > 1 then bnPoWTrust else 1)"

subsection \<open>Coin age\<close>

text \<open>
  \<open>readPrev\<close> is what the database and the block files yield for an output: the previous transaction and the
  header of its block, if they can be read. The outer option is an output number out of range.
\<close>

fun coin_age_loop ::
  "stake_params \<Rightarrow> (COutPoint \<Rightarrow> (CTransaction \<times> CBlock option) option) \<Rightarrow> u32 \<Rightarrow> int \<Rightarrow> CTxIn list \<Rightarrow> int option option" where
  "coin_age_loop P readPrev nTime bnCentSecond [] = Some (Some bnCentSecond)"
| "coin_age_loop P readPrev nTime bnCentSecond (txin # ins) =
     (case readPrev (prevout txin) of
        None \<Rightarrow> coin_age_loop P readPrev nTime bnCentSecond ins
      | Some (txPrev, blk) \<Rightarrow>
          if nTime < tx_nTime txPrev then Some None
          else case blk of None \<Rightarrow> Some None
               | Some block \<Rightarrow>
                   if uint (b_nTime block) + uint (nStakeMinAge P) > uint nTime
                   then coin_age_loop P readPrev nTime bnCentSecond ins
                   else if \<not> unat (o_n (prevout txin)) < length (vout txPrev) then None
                   else let nValueIn = sint (nValue (vout txPrev ! unat (o_n (prevout txin))))
                        in coin_age_loop P readPrev nTime
                             (bnCentSecond + trunc_div (nValueIn * uint (nTime - tx_nTime txPrev)) (uint CENT)) ins)"

definition GetCoinAge ::
  "stake_params \<Rightarrow> (COutPoint \<Rightarrow> (CTransaction \<times> CBlock option) option) \<Rightarrow> CTransaction \<Rightarrow> u64 option option" where
  "GetCoinAge P readPrev tx =
     (if Tx_IsCoinBase tx then Some (Some 0)
      else do { r \<leftarrow> coin_age_loop P readPrev (tx_nTime tx) 0 (vin tx);
                Some (case r of None \<Rightarrow> None
                      | Some bnCentSecond \<Rightarrow>
                          Some (getuint64 int_openssl (trunc_div (trunc_div (bnCentSecond * uint CENT) (uint COIN)) (24 * 60 * 60)))) })"

fun block_coin_age_loop ::
  "stake_params \<Rightarrow> (COutPoint \<Rightarrow> (CTransaction \<times> CBlock option) option) \<Rightarrow> u64 \<Rightarrow> CTransaction list \<Rightarrow> u64 option option" where
  "block_coin_age_loop P readPrev nCoinAge [] = Some (Some nCoinAge)"
| "block_coin_age_loop P readPrev nCoinAge (tx # txs) =
     do { r \<leftarrow> GetCoinAge P readPrev tx;
          case r of None \<Rightarrow> Some None | Some n \<Rightarrow> block_coin_age_loop P readPrev (nCoinAge + n) txs }"

definition Block_GetCoinAge ::
  "stake_params \<Rightarrow> (COutPoint \<Rightarrow> (CTransaction \<times> CBlock option) option) \<Rightarrow> CBlock \<Rightarrow> u64 option option" where
  "Block_GetCoinAge P readPrev b =
     do { r \<leftarrow> block_coin_age_loop P readPrev 0 (vtx b);
          Some (case r of None \<Rightarrow> None | Some n \<Rightarrow> Some (if n = 0 then 1 else n)) }"

subsection \<open>Compact targets\<close>

lemma bnGetCompact_val:
  assumes "0 \<le> v" "v < 2 ^ 2039"
  shows "compact_val (bnGetCompact v) = compact_trunc v" "0 \<le> compact_trunc v" "compact_trunc v \<le> v"
proof -
  have "length (mpi_body v) \<le> 255" using assms by (intro length_mpi_body_bits) simp_all
  then show "compact_val (bnGetCompact v) = compact_trunc v"
    unfolding bnGetCompact_def by (intro compact_val_GetCompact [OF int_openssl_ok]) simp
  show "0 \<le> compact_trunc v" using assms(1) by (simp add: compact_trunc_def Let_def sgn_if pos_imp_zdiv_nonneg_iff)
  then show "compact_trunc v \<le> v" using compact_trunc_le [of v] assms(1) by simp
qed

subsection \<open>The reward schedule\<close>

definition pow_subsidy :: "nat \<Rightarrow> int" where
  "pow_subsidy h = (if h < 40000 then 32000000 else if h < 160000 then 8000000 else if h < 640000 then 2000000
     else if h < 2560000 then 500000 else if h < 10240000 then 125000 else 0)"

lemma InitializeConstants_value:
  "InitializeConstants = Some \<lparr> x13CutoffHeight = [40000, 160000, 640000, 2560000, 10240000],
     x13CutoffReward = [32000000, 8000000, 2000000, 500000, 125000],
     mSHACutoffHeight = [40000, 160000, 640000, 2560000, 10240000],
     mSHACutoffReward = [0, 1000000, 2000000, 3000000, 4000000] \<rparr>"
  by code_simp

lemma sum_const_range: "(\<And>h. a \<le> h \<Longrightarrow> h < b \<Longrightarrow> f h = (c :: int)) \<Longrightarrow> (\<Sum>h = a..<b. f h) = int (b - a) * c"
  by (simp add: sum.cong [of "{a..<b}" "{a..<b}" f "\<lambda>_. c"])

lemma sum_append_range: "a \<le> b \<Longrightarrow> b \<le> c \<Longrightarrow> (\<Sum>h = a..<c. f h) = (\<Sum>h = a..<b. f h) + (\<Sum>h = b..<c. (f h :: int))" for a b c :: nat
  by (simp add: sum.atLeastLessThan_concat)

text \<open>The proof-of-work reward of a height is the subsidy of the schedule plus the fees: 32 coins, divided by
  four at 40000 and at every fourfold of that height, four times, then nothing. The subsidies add up to
  5120000 coins, and those of the first 14904 heights alone exceed MAX_MONEY.\<close>

theorem pow_emission:
  assumes "InitializeConstants = Some C"
  shows "(\<forall>h fees. GetProofOfWorkReward C (int h) fees False = Some (word_of_int (pow_subsidy h) + fees)) \<and>
    (\<Sum>h = 0..<10240000. pow_subsidy h) = 5120000 * uint COIN \<and>
    (\<forall>h\<ge>10240000. pow_subsidy h = 0) \<and>
    uint MAX_MONEY < (\<Sum>h = 0..<14904. pow_subsidy h)"
proof (intro conjI allI)
  show "GetProofOfWorkReward C (int h) fees False = Some (word_of_int (pow_subsidy h) + fees)" for h fees
    using assms unfolding InitializeConstants_value
    by (auto simp: GetProofOfWorkReward_def pow_subsidy_def int32_ok_def)
  have 1: "(\<Sum>h = 0..<40000. pow_subsidy h) = int (40000 - 0) * 32000000"
    by (rule sum_const_range) (simp add: pow_subsidy_def)
  have 2: "(\<Sum>h = 40000..<160000. pow_subsidy h) = int (160000 - 40000) * 8000000"
    by (rule sum_const_range) (simp add: pow_subsidy_def)
  have 3: "(\<Sum>h = 160000..<640000. pow_subsidy h) = int (640000 - 160000) * 2000000"
    by (rule sum_const_range) (simp add: pow_subsidy_def)
  have 4: "(\<Sum>h = 640000..<2560000. pow_subsidy h) = int (2560000 - 640000) * 500000"
    by (rule sum_const_range) (simp add: pow_subsidy_def)
  have 5: "(\<Sum>h = 2560000..<10240000. pow_subsidy h) = int (10240000 - 2560000) * 125000"
    by (rule sum_const_range) (simp add: pow_subsidy_def)
  have "(\<Sum>h = 0..<10240000. pow_subsidy h) = (\<Sum>h = 0..<40000. pow_subsidy h) + (\<Sum>h = 40000..<160000. pow_subsidy h) +
      (\<Sum>h = 160000..<640000. pow_subsidy h) + (\<Sum>h = 640000..<2560000. pow_subsidy h) + (\<Sum>h = 2560000..<10240000. pow_subsidy h)"
    by (simp only: sum_append_range [of 0 40000 160000, symmetric] sum_append_range [of 0 160000 640000, symmetric]
        sum_append_range [of 0 640000 2560000, symmetric] sum_append_range [of 0 2560000 10240000, symmetric]
        zero_le numeral_le_iff semiring_norm)
  then show "(\<Sum>h = 0..<10240000. pow_subsidy h) = 5120000 * uint COIN" unfolding 1 2 3 4 5 by (simp add: uint_COIN)
  show "10240000 \<le> h \<longrightarrow> pow_subsidy h = 0" for h by (simp add: pow_subsidy_def)
  have "(\<Sum>h = 0..<14904. pow_subsidy h) = int (14904 - 0) * 32000000"
    by (rule sum_const_range) (simp add: pow_subsidy_def)
  then show "uint MAX_MONEY < (\<Sum>h = 0..<14904. pow_subsidy h)" by (simp add: MAX_MONEY_def COIN_def)
qed

theorem pow_emission_witness:
  "\<exists>C. InitializeConstants = Some C \<and> GetProofOfWorkReward C 50000 7 False = Some 8000007"
proof -
  obtain C where C: "InitializeConstants = Some C" unfolding InitializeConstants_value by blast
  have "GetProofOfWorkReward C (int 50000) 7 False = Some (word_of_int (pow_subsidy 50000) + 7)"
    using pow_emission [OF C] by blast
  then show ?thesis using C by (auto simp: pow_subsidy_def)
qed

subsection \<open>The target rules\<close>

lemma main_limits_values: "bnProofOfWorkLimit main_limits = 2 ^ 256 - 1" "bnProofOfStakeLimit main_limits = 2 ^ 254 - 1"
proof -
  have "wval (u_compl (u_of_uint64 8 0)) = 2 ^ 256 - 1"
    unfolding u_compl_def wval_compl by (simp add: wval_u_of_uint64)
  then show "bnProofOfWorkLimit main_limits = 2 ^ 256 - 1" "bnProofOfStakeLimit main_limits = 2 ^ 254 - 1"
    by (simp_all add: main_limits_def wval_u_shr)
qed

lemma test_limits_values: "bnProofOfWorkLimit test_limits = 2 ^ 256 - 1" "bnProofOfStakeLimit test_limits = 2 ^ 226 - 1"
proof -
  have "wval (u_compl (u_of_uint64 8 0)) = 2 ^ 256 - 1"
    unfolding u_compl_def wval_compl by (simp add: wval_u_of_uint64)
  then show "bnProofOfWorkLimit test_limits = 2 ^ 256 - 1" "bnProofOfStakeLimit test_limits = 2 ^ 226 - 1"
    by (simp_all add: test_limits_def wval_u_shr)
qed

text \<open>The proof-of-work check accepts a hash exactly if the target the compact form denotes is positive and
  within the limit and the hash, as a number, is at most the target.\<close>

theorem check_proof_of_work:
  assumes "length hsh = 8" "L = main_limits \<or> L = test_limits"
  shows "CheckProofOfWork L hsh nBits \<longleftrightarrow> 0 < compact_val nBits \<and> compact_val nBits < 2 ^ 256 \<and>
    int (wval hsh) \<le> compact_val nBits"
proof -
  have L: "bnProofOfWorkLimit L = 2 ^ 256 - 1" using assms(2) by (auto simp: main_limits_values test_limits_values)
  have gt: "u_gt hsh (getuint256 int_openssl (compact_val nBits)) \<longleftrightarrow> nat (compact_val nBits) < wval hsh"
    if "0 < compact_val nBits" "compact_val nBits < 2 ^ 256"
  proof -
    have "nat \<bar>compact_val nBits\<bar> mod 2 ^ 256 = nat (compact_val nBits)" using that by (simp add: nat_less_iff)
    then show ?thesis
      using u_compare(3) [of hsh "getuint256 int_openssl (compact_val nBits)"] assms(1) wval_getuint256 [OF int_openssl_ok]
      by simp
  qed
  show ?thesis unfolding CheckProofOfWork_def Let_def L using gt by auto
qed

theorem check_proof_of_work_witness:
  "CheckProofOfWork main_limits [3, 0, 0, 0, 0, 0, 0, 0] 0x03000004"
proof -
  have "compact_val 0x03000004 = 4" by (simp add: compact_val_def Let_def)
  then show ?thesis using check_proof_of_work [of "[3, 0, 0, 0, 0, 0, 0, 0]" main_limits "0x03000004"] by simp
qed

text \<open>The loop doubles once per started day until it reaches the limit.\<close>

lemma ComputeMaxBits_loop_min:
  "0 \<le> b \<Longrightarrow> 0 \<le> lim \<Longrightarrow>
   min lim (ComputeMaxBits_loop lim b t) = min lim (b * 2 ^ nat ((t + 86399) div 86400))"
proof (induction lim b t rule: ComputeMaxBits_loop.induct)
  case (1 lim b t)
  show ?case
  proof (cases "t > 0 \<and> b < lim")
    case True
    have e: "(t + 86399) div 86400 = (t - 86400 + 86399) div 86400 + 1" using div_add_self2 [of 86400 "t - 86400 + 86399"] by simp
    have "0 \<le> (t - 86400 + 86399) div 86400" using True by (simp add: pos_imp_zdiv_nonneg_iff)
    then have "(2 :: int) ^ nat ((t + 86399) div 86400) = 2 * 2 ^ nat ((t - 86400 + 86399) div 86400)"
      unfolding e by (subst nat_add_distrib) simp_all
    then show ?thesis using True 1 by (subst ComputeMaxBits_loop.simps) (simp add: ac_simps)
  next
    case False
    then have "ComputeMaxBits_loop lim b t = b" by (subst ComputeMaxBits_loop.simps) auto
    moreover have "min lim b = min lim (b * 2 ^ nat ((t + 86399) div 86400))"
    proof (cases "t > 0")
      case True
      then have "lim \<le> b" using False by simp
      also have "b * 1 \<le> b * 2 ^ nat ((t + 86399) div 86400)" using 1(2) by (intro mult_left_mono) simp_all
      finally have "lim \<le> b * 2 ^ nat ((t + 86399) div 86400)" by simp
      then show ?thesis using \<open>lim \<le> b\<close> by simp
    next
      case False
      then have "(t + 86399) div 86400 \<le> 0" by simp
      then show ?thesis by simp
    qed
    ultimately show ?thesis by simp
  qed
qed

text \<open>The bound ComputeMaxBits puts on a target some time after another: the loop ends, and the result is the
  compact form of twice the target, doubled once more for every started day, cut off at the limit.\<close>

theorem compute_max_bits:
  assumes "0 \<le> compact_val nBase" "0 \<le> lim" "lim < 2 ^ 256"
  shows "compact_val (ComputeMaxBits lim nBase t) =
      compact_trunc (min lim (compact_val nBase * 2 * 2 ^ nat ((t + 86399) div 86400))) \<and>
    compact_val (ComputeMaxBits lim nBase t) \<le> lim"
proof -
  let ?r = "ComputeMaxBits_loop lim (compact_val nBase * 2) t"
  let ?m = "min lim (compact_val nBase * 2 * 2 ^ nat ((t + 86399) div 86400))"
  have "(if ?r > lim then lim else ?r) = min lim ?r" by simp
  also have "\<dots> = ?m" using assms by (intro ComputeMaxBits_loop_min) simp_all
  finally have e: "ComputeMaxBits lim nBase t = bnGetCompact ?m" by (simp add: ComputeMaxBits_def Let_def)
  have "0 \<le> ?m" "?m < 2 ^ 2039" using assms by (simp_all add: min_less_iff_disj)
  from bnGetCompact_val [OF this] show ?thesis unfolding e using assms by auto
qed

theorem compute_max_bits_witness:
  "compact_val (ComputeMaxBits (2 ^ 254 - 1) 0x03000004 90000) = 32"
proof -
  have c: "compact_val 0x03000004 = 4" by (simp add: compact_val_def Let_def)
  have "compact_trunc 32 = 32" by (rule compact_trunc_id [of _ 3]) simp_all
  then show ?thesis using compute_max_bits [of "0x03000004" "2 ^ 254 - 1" 90000] by (simp add: c)
qed

text \<open>The clamped spacing of the last two blocks of a kind.\<close>

definition clamp_spacing :: "int \<Rightarrow> int" where
  "clamp_spacing a = (if a < 0 then 1 else min a 1200)"

text \<open>The target required after a block, main network, past the first two blocks of the kind. Let t be the
  last target of the kind, s the target spacing (40 seconds for proof of stake; for proof of work 40 more
  for every block since the last of the kind, up to 120), n = 1200 div s and a the clamped actual spacing. The new
  target is t * ((n - 1) s + 2 a) / ((n + 1) s) rounded down, cut off at the limit and rounded to its compact
  form. So it never passes the limit, does not rise when a is at most s, stays exactly t when a = s and t is
  within the limit, and is bounded by t times (n + 59) / (n + 1).\<close>

theorem retarget_rule:
  assumes "tree_ok h"
    and "GetLastBlockIndex h lastp pos = Some prev" "pprev (h prev) = Some prev1"
    and "GetLastBlockIndex h prev1 pos = Some prevprev" "pprev (h prevprev) \<noteq> None"
    and "0 \<le> compact_val (bi_nBits (h prev))"
  defines "t \<equiv> compact_val (bi_nBits (h prev))"
    and "s \<equiv> (if pos then 40 else min 120 (40 * (1 + nHeight (h lastp) - nHeight (h prev))))"
    and "lim \<equiv> (if pos then 2 ^ 254 - 1 else 2 ^ 256 - 1) :: int"
    and "a \<equiv> clamp_spacing (GetBlockTime (h prev) - GetBlockTime (h prevprev))"
  shows "\<exists>c n. GetNextTargetRequired main_params main_limits h (Some lastp) pos = Some c \<and> n = 1200 div s \<and>
    40 \<le> s \<and> s \<le> 120 \<and> 0 \<le> a \<and> a \<le> 1200 \<and>
    compact_val c = compact_trunc (min lim (t * ((n - 1) * s + 2 * a) div ((n + 1) * s))) \<and>
    compact_val c \<le> lim \<and> (a \<le> s \<longrightarrow> compact_val c \<le> t) \<and> (a = s \<and> t \<le> lim \<longrightarrow> compact_val c = t) \<and>
    compact_val c * (n + 1) \<le> t * (n + 59)"
proof -
  define n where "n = 1200 div s"
  have hh: "nHeight (h prev) \<le> nHeight (h lastp)"
  proof -
    obtain q k where "GetLastBlockIndex h lastp pos = Some q" "anc h k lastp = Some q"
      using GetLastBlockIndex_spec [OF assms(1), of lastp pos] by blast
    then have "anc h k lastp = Some prev" using assms(2) by simp
    from anc_height [OF assms(1) this] show ?thesis by simp
  qed
  have s: "40 \<le> s" "s \<le> 120" using hh by (auto simp: s_def)
  have a: "0 \<le> a" "a \<le> 1200" by (auto simp: a_def clamp_spacing_def)
  have n: "1 \<le> n" "n * s \<le> 1200" "1200 < (n + 1) * s"
  proof -
    show "1 \<le> n" using pos_imp_zdiv_pos_iff [of s 1200] s unfolding n_def by linarith
    have "1200 = n * s + 1200 mod s" unfolding n_def by simp
    moreover have "0 \<le> 1200 mod s" "1200 mod s < s" using s by simp_all
    ultimately show "n * s \<le> 1200" "1200 < (n + 1) * s" by (simp_all add: distrib_right)
  qed
  let ?num = "t * ((n - 1) * s + 2 * a)" and ?den = "(n + 1) * s"
  have t: "0 \<le> t" using assms(6) by (simp add: t_def)
  have num: "0 \<le> ?num" using t n s a by simp
  have den: "0 < ?den" using n s by simp
  define v where "v = ?num div ?den"
  have v: "0 \<le> v" unfolding v_def using num den by (simp add: pos_imp_zdiv_nonneg_iff)
  have vden: "v * ?den \<le> ?num"
  proof -
    have "?num = v * ?den + ?num mod ?den" unfolding v_def by (rule div_mult_mod_eq [symmetric])
    moreover have "0 \<le> ?num mod ?den" using den by simp
    ultimately show ?thesis by linarith
  qed
  have P: "nStakeTargetSpacing main_params = 40" "nTargetTimespan = 1200" "nTargetSpacingWorkMax = 120"
    by (simp_all add: main_params_def nTargetTimespan_def nTargetSpacingWorkMax_def)
  have L: "(if pos then bnProofOfStakeLimit main_limits else bnProofOfWorkLimit main_limits) = lim"
    by (simp add: main_limits_values lim_def)
  have lim: "0 \<le> lim" "lim < 2 ^ 256" by (simp_all add: lim_def)
  have nx: "GetNextTargetRequired main_params main_limits h (Some lastp) pos = Some (bnGetCompact (min lim v))"
  proof -
    have aa: "(if x < 0 then 1 else if x > nTargetTimespan then nTargetTimespan else x) = clamp_spacing x" for x
      by (simp add: clamp_spacing_def P)
    have td1: "trunc_div nTargetTimespan s = n" using s by (simp add: trunc_div_nonneg P n_def)
    have td2: "trunc_div (t * (2 * a + (n - 1) * s)) ((n + 1) * s) = v"
      unfolding v_def using num den trunc_div_nonneg [OF num den] by (simp add: add.commute)
    have sp: "(if pos then nStakeTargetSpacing main_params
        else min nTargetSpacingWorkMax (nStakeTargetSpacing main_params * (1 + nHeight (h lastp) - nHeight (h prev)))) = s"
      by (simp add: s_def P)
    have mn: "(if lim < v then lim else v) = min lim v" by simp
    show ?thesis
      unfolding GetNextTargetRequired_def Let_def L option.case(2) assms(2) bind.bind_lunit assms(3) assms(4) sp aa
      using assms(5) s by (auto simp: td1 td2 min_def simp flip: a_def t_def)
  qed
  let ?c = "bnGetCompact (min lim v)"
  have m: "0 \<le> min lim v" "min lim v < 2 ^ 2039" using lim v by (simp_all add: min_less_iff_disj)
  note cv = bnGetCompact_val [OF m]
  have low: "v \<le> t" if "a \<le> s"
  proof -
    have "(n - 1) * s + 2 * a \<le> ?den" using that by (simp add: algebra_simps)
    then have "?num \<le> t * ?den" using t by (rule mult_left_mono)
    then have "v * ?den \<le> t * ?den" using vden by linarith
    then show ?thesis using den by (rule mult_right_le_imp_le)
  qed
  have same: "compact_val ?c = t" if "a = s" "t \<le> lim"
  proof -
    have "(n - 1) * s + 2 * a = ?den" using that by (simp add: algebra_simps)
    then have "v = t * ?den div ?den" by (simp only: v_def)
    also have "\<dots> = t" using den by (intro nonzero_mult_div_cancel_right) linarith
    finally have "v = t" .
    then show ?thesis using that cv(1) compact_trunc_compact_val [of "bi_nBits (h prev)"] by (simp add: min_absorb2 t_def)
  qed
  have "v * (n + 1) \<le> t * (n + 59)"
  proof -
    have "2 * a \<le> 60 * s" using a s by linarith
    then have "(n - 1) * s + 2 * a \<le> (n + 59) * s" by (simp add: algebra_simps)
    then have "?num \<le> t * ((n + 59) * s)" using t by (rule mult_left_mono)
    then have "v * (n + 1) * s \<le> t * (n + 59) * s" using vden by (simp add: ac_simps)
    moreover have "0 < s" using s by simp
    ultimately show ?thesis by (rule mult_right_le_imp_le)
  qed
  moreover have "compact_val ?c * (n + 1) \<le> v * (n + 1)" using cv n by (intro mult_right_mono) auto
  ultimately have up: "compact_val ?c * (n + 1) \<le> t * (n + 59)" by linarith
  show ?thesis
  proof (intro exI conjI impI)
    show "GetNextTargetRequired main_params main_limits h (Some lastp) pos = Some ?c" by (rule nx)
    show "compact_val ?c = compact_trunc (min lim (?num div ?den))" using cv(1) by (simp only: v_def)
    show "compact_val ?c \<le> lim" using cv by simp
    show "compact_val ?c \<le> t" if "a \<le> s" using low [OF that] cv by simp
    show "compact_val ?c = t" if "a = s \<and> t \<le> lim" using same that by blast
  qed (fact n_def s a up)+
qed

definition four_blocks :: bheap where
  "four_blocks p = (if p = 0 \<or> 3 < p then BlockIndex_default
     else BlockIndex_default\<lparr>pprev := Some (p - 1), nHeight := int p, bi_nTime := 40 * of_nat p, bi_nBits := 0x03000004\<rparr>)"

theorem retarget_rule_witness:
  "\<exists>c. GetNextTargetRequired main_params main_limits four_blocks (Some 3) False = Some c \<and> compact_val c = 4"
proof -
  have t: "tree_ok four_blocks" unfolding tree_ok_def four_blocks_def by (auto simp: BlockIndex_default_def)
  have w: "\<not> IsProofOfStake (four_blocks p)" for p
    by (simp add: four_blocks_def BlockIndex_default_def IsProofOfStake_def)
  have pp: "pprev (four_blocks 3) = Some 2" "pprev (four_blocks 2) = Some 1" "nHeight (four_blocks 3) = 3"
    "bi_nBits (four_blocks 3) = 0x03000004" "GetBlockTime (four_blocks 3) = 120" "GetBlockTime (four_blocks 2) = 80"
    by (simp_all add: four_blocks_def GetBlockTime_def)
  have l: "GetLastBlockIndex four_blocks 3 False = Some 3" "GetLastBlockIndex four_blocks 2 False = Some 2"
    by (subst GetLastBlockIndex.simps, simp add: pp w)+
  have c: "compact_val 0x03000004 = 4" by (simp add: compact_val_def Let_def)
  have ne: "pprev (four_blocks 2) \<noteq> None" and nn: "0 \<le> compact_val (bi_nBits (four_blocks 3))" by (simp_all add: pp c)
  from retarget_rule [OF t l(1) pp(1) l(2) ne nn] show ?thesis
    unfolding pp c by (auto simp: clamp_spacing_def)
qed

text \<open>On targets below 2^256 the trust score of a block is positive exactly if the target is, is at most 2^256,
  and never falls when the target gets smaller.\<close>

theorem block_trust_monotone:
  assumes "compact_val (bi_nBits p) < 2 ^ 256" "compact_val (bi_nBits q) < 2 ^ 256"
  shows "(0 < GetBlockTrust main_limits p \<longleftrightarrow> 0 < compact_val (bi_nBits p)) \<and> GetBlockTrust main_limits p \<le> 2 ^ 256 \<and>
    (IsProofOfStake p = IsProofOfStake q \<and> 0 < compact_val (bi_nBits p) \<and> compact_val (bi_nBits p) \<le> compact_val (bi_nBits q) \<longrightarrow>
      GetBlockTrust main_limits q \<le> GetBlockTrust main_limits p)"
proof -
  let ?M = "\<lambda>p. if IsProofOfStake p then 2 ^ 256 else (2 ^ 256 - 1 :: int)"
  have tr: "GetBlockTrust main_limits p = (if compact_val (bi_nBits p) \<le> 0 then 0 else
      if IsProofOfStake p then 2 ^ 256 div (compact_val (bi_nBits p) + 1)
      else max 1 ((2 ^ 256 - 1) div (compact_val (bi_nBits p) + 1)))" for p
    by (auto simp: GetBlockTrust_def Let_def trunc_div_nonneg main_limits_values)
  have pos: "0 < 2 ^ 256 div (compact_val (bi_nBits p) + 1)" if "0 < compact_val (bi_nBits p)"
    using that assms(1) by (subst pos_imp_zdiv_pos_iff) simp_all
  have le: "m div (compact_val (bi_nBits p) + 1) \<le> m" if "0 < compact_val (bi_nBits p)" "0 \<le> m" for m
    using that zdiv_mono2 [of m 1 "compact_val (bi_nBits p) + 1"] by simp
  have mono: "m div (compact_val (bi_nBits q) + 1) \<le> m div (compact_val (bi_nBits p) + 1)"
    if "0 < compact_val (bi_nBits p)" "compact_val (bi_nBits p) \<le> compact_val (bi_nBits q)" "0 \<le> m" for m
    using that by (intro zdiv_mono2) simp_all
  show ?thesis unfolding tr using pos le [of "2 ^ 256"] le [of "2 ^ 256 - 1"] mono [of "2 ^ 256"] mono [of "2 ^ 256 - 1"]
    by (auto intro: max.mono)
qed

theorem block_trust_monotone_witness:
  "GetBlockTrust main_limits (BlockIndex_default\<lparr>bi_nBits := 0x03000004\<rparr>) > 0"
proof -
  have c: "compact_val 0x03000004 = 4" by (simp add: compact_val_def Let_def)
  show ?thesis
    using block_trust_monotone [of "BlockIndex_default\<lparr>bi_nBits := 0x03000004\<rparr>" "BlockIndex_default\<lparr>bi_nBits := 0x03000004\<rparr>"]
    by (simp add: c)
qed

subsection \<open>Coin age\<close>

text \<open>The value an input spends times its age, where the code can read the previous output.\<close>

definition input_value :: "(COutPoint \<Rightarrow> (CTransaction \<times> CBlock option) option) \<Rightarrow> CTxIn \<Rightarrow> int" where
  "input_value readPrev txin =
     (case readPrev (prevout txin) of None \<Rightarrow> 0
      | Some (txPrev, _) \<Rightarrow> sint (nValue (vout txPrev ! unat (o_n (prevout txin)))))"

definition value_seconds :: "(COutPoint \<Rightarrow> (CTransaction \<times> CBlock option) option) \<Rightarrow> u32 \<Rightarrow> CTxIn \<Rightarrow> int" where
  "value_seconds readPrev t txin =
     (case readPrev (prevout txin) of None \<Rightarrow> 0
      | Some (txPrev, _) \<Rightarrow> input_value readPrev txin * max 0 (uint t - uint (tx_nTime txPrev)))"

lemma value_seconds_nonneg: "0 \<le> input_value readPrev i \<Longrightarrow> 0 \<le> value_seconds readPrev t i"
  by (simp add: value_seconds_def split: option.splits prod.splits)

lemma uint_CENT: "uint CENT = 10000"
  by (simp add: CENT_def)

lemma coin_age_loop_bound:
  "coin_age_loop P readPrev t acc ins = Some (Some r) \<Longrightarrow> \<forall>i\<in>set ins. 0 \<le> input_value readPrev i \<Longrightarrow> 0 \<le> acc \<Longrightarrow>
   0 \<le> r \<and> r * 10000 \<le> acc * 10000 + (\<Sum>i\<leftarrow>ins. value_seconds readPrev t i)"
proof (induction ins arbitrary: acc)
  case (Cons i ins)
  have nn: "0 \<le> value_seconds readPrev t i" using Cons.prems(2) value_seconds_nonneg by simp
  have skip: ?case if "coin_age_loop P readPrev t acc ins = Some (Some r)"
    using Cons.IH [OF that] Cons.prems nn by fastforce
  show ?case
  proof (cases "readPrev (prevout i)")
    case None
    then show ?thesis using Cons.prems(1) skip by simp
  next
    case (Some x)
    obtain txPrev blk where x: "x = (txPrev, blk)" by (cases x)
    obtain block where blk: "\<not> t < tx_nTime txPrev" "blk = Some block"
      using Cons.prems(1) Some x by (auto split: if_splits option.splits)
    show ?thesis
    proof (cases "uint (b_nTime block) + uint (nStakeMinAge P) > uint t")
      case True
      then show ?thesis using Cons.prems(1) Some x blk skip by simp
    next
      case False
      let ?v = "input_value readPrev i * uint (t - tx_nTime txPrev)"
      have age: "uint (t - tx_nTime txPrev) = uint t - uint (tx_nTime txPrev)"
        using blk(1) by (simp add: uint_sub_if' word_less_def)
      have vs: "value_seconds readPrev t i = ?v"
        using Some x age blk(1) by (simp add: value_seconds_def word_less_def)
      have v: "0 \<le> ?v" using nn vs by simp
      have td: "trunc_div ?v (uint CENT) = ?v div 10000" using v by (simp add: trunc_div_nonneg uint_CENT)
      have c: "coin_age_loop P readPrev t (acc + ?v div 10000) ins = Some (Some r)"
        using Cons.prems(1) Some x blk False td by (simp add: Let_def input_value_def split: if_splits)
      have a: "0 \<le> acc + ?v div 10000" using Cons.prems(3) v by (simp add: pos_imp_zdiv_nonneg_iff)
      have p: "\<forall>i\<in>set ins. 0 \<le> input_value readPrev i" using Cons.prems(2) by simp
      note Cons.IH [OF c p a]
      moreover have "?v div 10000 * 10000 \<le> ?v" by simp
      ultimately show ?thesis unfolding vs list.map sum_list.Cons by (simp add: distrib_right)
    qed
  qed
qed simp

text \<open>The coin age of a transaction, in coin-days, never exceeds the sum over its inputs of the value spent
  times the time since the previous transaction, whatever the roundings and the 64-bit result.\<close>

theorem coin_age_bound:
  assumes "GetCoinAge P readPrev tx = Some (Some n)" "\<forall>i\<in>set (vin tx). 0 \<le> input_value readPrev i"
  shows "uint n * (1000000 * 86400) \<le> (\<Sum>i\<leftarrow>vin tx. value_seconds readPrev (tx_nTime tx) i)"
proof (cases "Tx_IsCoinBase tx")
  case True
  have "0 \<le> (\<Sum>i\<leftarrow>vin tx. value_seconds readPrev (tx_nTime tx) i)"
    using assms(2) by (intro sum_list_nonneg) (auto intro: value_seconds_nonneg)
  then show ?thesis using assms(1) True by (simp add: GetCoinAge_def)
next
  case False
  then obtain r where r: "coin_age_loop P readPrev (tx_nTime tx) 0 (vin tx) = Some (Some r)"
      "n = getuint64 int_openssl (trunc_div (trunc_div (r * uint CENT) (uint COIN)) (24 * 60 * 60))"
    using assms(1) by (auto simp: GetCoinAge_def split: bind_splits option.splits)
  have b: "0 \<le> r" "r * 10000 \<le> (\<Sum>i\<leftarrow>vin tx. value_seconds readPrev (tx_nTime tx) i)"
    using coin_age_loop_bound [OF r(1) assms(2)] by simp_all
  let ?d = "r * 10000 div 1000000 div 86400"
  have d: "0 \<le> ?d" using b(1) by (simp add: pos_imp_zdiv_nonneg_iff)
  have "trunc_div (trunc_div (r * uint CENT) (uint COIN)) (24 * 60 * 60) = ?d"
    using b(1) by (simp add: trunc_div_nonneg uint_COIN uint_CENT pos_imp_zdiv_nonneg_iff)
  then have "n = getuint64 int_openssl ?d" using r(2) by (simp only:)
  then have "unat n = nat \<bar>?d\<bar> mod 2 ^ 64" using unat_getuint64 [OF int_openssl_ok, of ?d] by (simp only:)
  also have "\<dots> \<le> nat \<bar>?d\<bar>" by (rule mod_less_eq_dividend)
  finally have "int (unat n) \<le> int (nat \<bar>?d\<bar>)" by (simp only: of_nat_le_iff)
  then have "uint n \<le> ?d" using d by (simp only: int_nat_eq abs_of_nonneg uint_nat if_True)
  then have "uint n * (1000000 * 86400) \<le> ?d * (1000000 * 86400)" by simp
  also have "?d = r * 10000 div (1000000 * 86400)" by (rule zdiv_zmult2_eq [symmetric]) simp
  also have "r * 10000 div (1000000 * 86400) * (1000000 * 86400) \<le> r * 10000"
  proof -
    have "r * 10000 = r * 10000 div (1000000 * 86400) * (1000000 * 86400) + r * 10000 mod (1000000 * 86400)"
      by (rule div_mult_mod_eq [symmetric])
    moreover have "0 \<le> r * 10000 mod (1000000 * 86400)" by simp
    ultimately show ?thesis by linarith
  qed
  finally show ?thesis using b(2) by linarith
qed

theorem coin_age_bound_witness:
  "\<exists>n. GetCoinAge main_params (\<lambda>_. None) ((Tx_SetNull 5)\<lparr>vin := [TxIn_default]\<rparr>) = Some (Some n) \<and> uint n * (1000000 * 86400) \<le> 0"
proof -
  let ?tx = "(Tx_SetNull 5)\<lparr>vin := [TxIn_default]\<rparr>"
  obtain n where n: "GetCoinAge main_params (\<lambda>_. None) ?tx = Some (Some n)"
    by (cases "Tx_IsCoinBase ?tx") (simp_all add: GetCoinAge_def)
  show ?thesis using coin_age_bound [OF n] n by (auto simp: value_seconds_def input_value_def)
qed

end
