(* ===== verification/Script.thy ===== *)
theory Script
  imports BigNum Transaction
begin

text \<open>
  Scripts, from src/script.h and the helpers of src/script.cpp: opcodes, the push operators, reading
  an instruction, deleting a subscript, counting signature operations and the shape tests. A script is
  its list of bytes; an iterator into it is the list of the bytes still to read. A failing GetOp leaves
  its outputs unused by every caller, so it is None.
\<close>

subsection \<open>Opcodes\<close>

abbreviation OP_0 :: byte where "OP_0 \<equiv> 0x00"
abbreviation OP_PUSHDATA1 :: byte where "OP_PUSHDATA1 \<equiv> 0x4c"
abbreviation OP_PUSHDATA2 :: byte where "OP_PUSHDATA2 \<equiv> 0x4d"
abbreviation OP_PUSHDATA4 :: byte where "OP_PUSHDATA4 \<equiv> 0x4e"
abbreviation OP_1NEGATE :: byte where "OP_1NEGATE \<equiv> 0x4f"
abbreviation OP_1 :: byte where "OP_1 \<equiv> 0x51"
abbreviation OP_16 :: byte where "OP_16 \<equiv> 0x60"
abbreviation OP_NOP :: byte where "OP_NOP \<equiv> 0x61"
abbreviation OP_IF :: byte where "OP_IF \<equiv> 0x63"
abbreviation OP_NOTIF :: byte where "OP_NOTIF \<equiv> 0x64"
abbreviation OP_ELSE :: byte where "OP_ELSE \<equiv> 0x67"
abbreviation OP_ENDIF :: byte where "OP_ENDIF \<equiv> 0x68"
abbreviation OP_VERIFY :: byte where "OP_VERIFY \<equiv> 0x69"
abbreviation OP_RETURN :: byte where "OP_RETURN \<equiv> 0x6a"
abbreviation OP_TOALTSTACK :: byte where "OP_TOALTSTACK \<equiv> 0x6b"
abbreviation OP_FROMALTSTACK :: byte where "OP_FROMALTSTACK \<equiv> 0x6c"
abbreviation OP_2DROP :: byte where "OP_2DROP \<equiv> 0x6d"
abbreviation OP_2DUP :: byte where "OP_2DUP \<equiv> 0x6e"
abbreviation OP_3DUP :: byte where "OP_3DUP \<equiv> 0x6f"
abbreviation OP_2OVER :: byte where "OP_2OVER \<equiv> 0x70"
abbreviation OP_2ROT :: byte where "OP_2ROT \<equiv> 0x71"
abbreviation OP_2SWAP :: byte where "OP_2SWAP \<equiv> 0x72"
abbreviation OP_IFDUP :: byte where "OP_IFDUP \<equiv> 0x73"
abbreviation OP_DEPTH :: byte where "OP_DEPTH \<equiv> 0x74"
abbreviation OP_DROP :: byte where "OP_DROP \<equiv> 0x75"
abbreviation OP_DUP :: byte where "OP_DUP \<equiv> 0x76"
abbreviation OP_NIP :: byte where "OP_NIP \<equiv> 0x77"
abbreviation OP_OVER :: byte where "OP_OVER \<equiv> 0x78"
abbreviation OP_PICK :: byte where "OP_PICK \<equiv> 0x79"
abbreviation OP_ROLL :: byte where "OP_ROLL \<equiv> 0x7a"
abbreviation OP_ROT :: byte where "OP_ROT \<equiv> 0x7b"
abbreviation OP_SWAP :: byte where "OP_SWAP \<equiv> 0x7c"
abbreviation OP_TUCK :: byte where "OP_TUCK \<equiv> 0x7d"
abbreviation OP_CAT :: byte where "OP_CAT \<equiv> 0x7e"
abbreviation OP_SUBSTR :: byte where "OP_SUBSTR \<equiv> 0x7f"
abbreviation OP_LEFT :: byte where "OP_LEFT \<equiv> 0x80"
abbreviation OP_RIGHT :: byte where "OP_RIGHT \<equiv> 0x81"
abbreviation OP_SIZE :: byte where "OP_SIZE \<equiv> 0x82"
abbreviation OP_INVERT :: byte where "OP_INVERT \<equiv> 0x83"
abbreviation OP_AND :: byte where "OP_AND \<equiv> 0x84"
abbreviation OP_OR :: byte where "OP_OR \<equiv> 0x85"
abbreviation OP_XOR :: byte where "OP_XOR \<equiv> 0x86"
abbreviation OP_EQUAL :: byte where "OP_EQUAL \<equiv> 0x87"
abbreviation OP_EQUALVERIFY :: byte where "OP_EQUALVERIFY \<equiv> 0x88"
abbreviation OP_1ADD :: byte where "OP_1ADD \<equiv> 0x8b"
abbreviation OP_1SUB :: byte where "OP_1SUB \<equiv> 0x8c"
abbreviation OP_2MUL :: byte where "OP_2MUL \<equiv> 0x8d"
abbreviation OP_2DIV :: byte where "OP_2DIV \<equiv> 0x8e"
abbreviation OP_NEGATE :: byte where "OP_NEGATE \<equiv> 0x8f"
abbreviation OP_ABS :: byte where "OP_ABS \<equiv> 0x90"
abbreviation OP_NOT :: byte where "OP_NOT \<equiv> 0x91"
abbreviation OP_0NOTEQUAL :: byte where "OP_0NOTEQUAL \<equiv> 0x92"
abbreviation OP_ADD :: byte where "OP_ADD \<equiv> 0x93"
abbreviation OP_SUB :: byte where "OP_SUB \<equiv> 0x94"
abbreviation OP_MUL :: byte where "OP_MUL \<equiv> 0x95"
abbreviation OP_DIV :: byte where "OP_DIV \<equiv> 0x96"
abbreviation OP_MOD :: byte where "OP_MOD \<equiv> 0x97"
abbreviation OP_LSHIFT :: byte where "OP_LSHIFT \<equiv> 0x98"
abbreviation OP_RSHIFT :: byte where "OP_RSHIFT \<equiv> 0x99"
abbreviation OP_BOOLAND :: byte where "OP_BOOLAND \<equiv> 0x9a"
abbreviation OP_BOOLOR :: byte where "OP_BOOLOR \<equiv> 0x9b"
abbreviation OP_NUMEQUAL :: byte where "OP_NUMEQUAL \<equiv> 0x9c"
abbreviation OP_NUMEQUALVERIFY :: byte where "OP_NUMEQUALVERIFY \<equiv> 0x9d"
abbreviation OP_NUMNOTEQUAL :: byte where "OP_NUMNOTEQUAL \<equiv> 0x9e"
abbreviation OP_LESSTHAN :: byte where "OP_LESSTHAN \<equiv> 0x9f"
abbreviation OP_GREATERTHAN :: byte where "OP_GREATERTHAN \<equiv> 0xa0"
abbreviation OP_LESSTHANOREQUAL :: byte where "OP_LESSTHANOREQUAL \<equiv> 0xa1"
abbreviation OP_GREATERTHANOREQUAL :: byte where "OP_GREATERTHANOREQUAL \<equiv> 0xa2"
abbreviation OP_MIN :: byte where "OP_MIN \<equiv> 0xa3"
abbreviation OP_MAX :: byte where "OP_MAX \<equiv> 0xa4"
abbreviation OP_WITHIN :: byte where "OP_WITHIN \<equiv> 0xa5"
abbreviation OP_RIPEMD160 :: byte where "OP_RIPEMD160 \<equiv> 0xa6"
abbreviation OP_SHA1 :: byte where "OP_SHA1 \<equiv> 0xa7"
abbreviation OP_SHA256 :: byte where "OP_SHA256 \<equiv> 0xa8"
abbreviation OP_HASH160 :: byte where "OP_HASH160 \<equiv> 0xa9"
abbreviation OP_HASH256 :: byte where "OP_HASH256 \<equiv> 0xaa"
abbreviation OP_CODESEPARATOR :: byte where "OP_CODESEPARATOR \<equiv> 0xab"
abbreviation OP_CHECKSIG :: byte where "OP_CHECKSIG \<equiv> 0xac"
abbreviation OP_CHECKSIGVERIFY :: byte where "OP_CHECKSIGVERIFY \<equiv> 0xad"
abbreviation OP_CHECKMULTISIG :: byte where "OP_CHECKMULTISIG \<equiv> 0xae"
abbreviation OP_CHECKMULTISIGVERIFY :: byte where "OP_CHECKMULTISIGVERIFY \<equiv> 0xaf"
abbreviation OP_NOP1 :: byte where "OP_NOP1 \<equiv> 0xb0"
abbreviation OP_NOP10 :: byte where "OP_NOP10 \<equiv> 0xb9"
abbreviation OP_SMALLINTEGER :: byte where "OP_SMALLINTEGER \<equiv> 0xfa"
abbreviation OP_PUBKEYS :: byte where "OP_PUBKEYS \<equiv> 0xfb"
abbreviation OP_PUBKEYHASH :: byte where "OP_PUBKEYHASH \<equiv> 0xfd"
abbreviation OP_PUBKEY :: byte where "OP_PUBKEY \<equiv> 0xfe"
abbreviation OP_INVALIDOPCODE :: byte where "OP_INVALIDOPCODE \<equiv> 0xff"

subsection \<open>Building scripts\<close>

definition push_vch :: "CScript \<Rightarrow> byte list \<Rightarrow> CScript" where \<comment> \<open>operator<<(vector)\<close>
  "push_vch s b =
     (if length b < 0x4c then s @ [word_of_nat (length b)]
      else if length b \<le> 0xff then s @ [OP_PUSHDATA1, word_of_nat (length b)]
      else if length b \<le> 0xffff then s @ [OP_PUSHDATA2] @ WRITEDATA (word_of_nat (length b) :: u16)
      else s @ [OP_PUSHDATA4] @ WRITEDATA (word_of_nat (length b) :: u32)) @ b"

definition push_opcode :: "CScript \<Rightarrow> byte \<Rightarrow> CScript" where "push_opcode s opcode = s @ [opcode]"

definition push_bignum :: "CScript \<Rightarrow> int \<Rightarrow> CScript" where "push_bignum s b = push_vch s (getvch int_openssl b)"

definition push_int64 :: "CScript \<Rightarrow> u64 \<Rightarrow> CScript" where \<comment> \<open>n is the int64's bit pattern\<close>
  "push_int64 s n =
     (if n = - 1 \<or> (1 \<le>s n \<and> n \<le>s 16) then s @ [ucast (n + (ucast OP_1 - 1))]
      else push_bignum s (setint64 int_openssl n))"

definition push_uint64 :: "CScript \<Rightarrow> u64 \<Rightarrow> CScript" where
  "push_uint64 s n =
     (if 1 \<le> n \<and> n \<le> 16 then s @ [ucast (n + (ucast OP_1 - 1))] else push_bignum s (setuint64 int_openssl n))"

definition push_uint :: "CScript \<Rightarrow> base_uint \<Rightarrow> CScript" where \<comment> \<open>operator<< of uint160 and uint256\<close>
  "push_uint s b = s @ [word_of_nat (4 * length b)] @ u_bytes b"

definition DecodeOP_N :: "byte \<Rightarrow> int option" where
  "DecodeOP_N opcode =
     (if opcode = OP_0 then Some 0
      else if OP_1 \<le> opcode \<and> opcode \<le> OP_16 then Some (uint opcode - (uint OP_1 - 1)) else None)"

definition EncodeOP_N :: "int \<Rightarrow> byte option" where
  "EncodeOP_N n =
     (if \<not> (0 \<le> n \<and> n \<le> 16) then None
      else if n = 0 then Some OP_0 else Some (word_of_int (uint OP_1 + n - 1)))"

subsection \<open>Reading scripts\<close>

definition GetOp2 :: "byte list \<Rightarrow> (byte \<times> byte list \<times> byte list) option" where
  "GetOp2 pc =
     (case pc of [] \<Rightarrow> None
      | opcode # pc \<Rightarrow>
          if opcode \<le> OP_PUSHDATA4
          then do { (nSize :: u32, pc) \<leftarrow>
                      (if opcode < OP_PUSHDATA1 then Some (ucast opcode, pc)
                       else if opcode = OP_PUSHDATA1
                       then (if length pc < 1 then None else Some (ucast (hd pc), tl pc))
                       else if opcode = OP_PUSHDATA2
                       then (if length pc < 2 then None else Some (word_of_nat (wval (take 2 pc)), drop 2 pc))
                       else (if length pc < 4 then None else Some (word_of_nat (wval (take 4 pc)), drop 4 pc)));
                    if word_of_nat (length pc) < nSize then None
                    else Some (opcode, take (unat nSize) pc, drop (unat nSize) pc) }
          else Some (opcode, [], pc))"

lemma GetOp2_shorter: "GetOp2 pc = Some (opcode, vch, rest) \<Longrightarrow> length rest < length pc"
  by (auto simp: GetOp2_def split: list.splits if_splits bind_splits)

function strip_prefix :: "byte list \<Rightarrow> byte list \<Rightarrow> nat \<Rightarrow> byte list \<times> nat" where
  "strip_prefix b pc nFound =
     (if b \<noteq> [] \<and> length b \<le> length pc \<and> take (length b) pc = b
      then strip_prefix b (drop (length b) pc) (nFound + 1) else (pc, nFound))"
  by pat_completeness auto
termination by (relation "measure (\<lambda>(b, pc, n). length pc)") (auto intro!: diff_less)

declare strip_prefix.simps [simp del]

lemma strip_prefix_length: "length (fst (strip_prefix b pc n)) \<le> length pc"
  by (induction b pc n rule: strip_prefix.induct) (subst strip_prefix.simps, auto)

text \<open>The do-while loop of FindAndDelete: the bytes kept so far, the bytes from pc on, the count.\<close>

function FindAndDelete_loop :: "byte list \<Rightarrow> byte list \<Rightarrow> byte list \<Rightarrow> nat \<Rightarrow> nat \<times> byte list" where
  "FindAndDelete_loop b kept pc nFound =
     (let (pc', n) = strip_prefix b pc nFound
      in case GetOp2 pc' of
           None \<Rightarrow> (n, kept @ pc')
         | Some (_, _, rest) \<Rightarrow> FindAndDelete_loop b (kept @ take (length pc' - length rest) pc') rest n)"
  by pat_completeness auto
termination
proof (relation "measure (\<lambda>(b, kept, pc, n). length pc)", goal_cases)
  case (2 b kept pc nFound x pc' n y opcode q vch rest)
  then have "length rest < length pc'" "length pc' \<le> length pc"
    using GetOp2_shorter [of pc' opcode vch rest] strip_prefix_length [of b pc nFound] by (auto dest: sym)
  then show ?case by simp
qed simp

declare FindAndDelete_loop.simps [simp del]

definition FindAndDelete :: "CScript \<Rightarrow> CScript \<Rightarrow> nat \<times> CScript" where
  "FindAndDelete s b = (if b = [] then (0, s) else FindAndDelete_loop b [] s 0)"

function Find_loop :: "byte \<Rightarrow> byte list \<Rightarrow> nat \<Rightarrow> nat" where
  "Find_loop opr pc nFound =
     (case GetOp2 pc of None \<Rightarrow> nFound
      | Some (opcode, _, rest) \<Rightarrow> Find_loop opr rest (if opcode = opr then nFound + 1 else nFound))"
  by pat_completeness auto
termination by (relation "measure (\<lambda>(opr, pc, n). length pc)") (auto dest: GetOp2_shorter)

declare Find_loop.simps [simp del]

function IsPushOnly :: "byte list \<Rightarrow> bool" where
  "IsPushOnly pc =
     (if pc = [] then True
      else case GetOp2 pc of None \<Rightarrow> False
           | Some (opcode, _, rest) \<Rightarrow> if opcode > OP_16 then False else IsPushOnly rest)"
  by pat_completeness auto
termination by (relation "measure length") (auto dest: GetOp2_shorter)

declare IsPushOnly.simps [simp del]

text \<open>GetSigOpCount(fAccurate). DecodeOP_N's assertion cannot fail where it is called.\<close>

function GetSigOpCount_loop :: "bool \<Rightarrow> byte list \<Rightarrow> byte \<Rightarrow> u32 \<Rightarrow> u32" where
  "GetSigOpCount_loop fAccurate pc lastOpcode n =
     (case GetOp2 pc of None \<Rightarrow> n
      | Some (opcode, _, rest) \<Rightarrow>
          GetSigOpCount_loop fAccurate rest opcode
            (if opcode = OP_CHECKSIG \<or> opcode = OP_CHECKSIGVERIFY then n + 1
             else if opcode = OP_CHECKMULTISIG \<or> opcode = OP_CHECKMULTISIGVERIFY
             then (if fAccurate \<and> lastOpcode \<ge> OP_1 \<and> lastOpcode \<le> OP_16
                   then n + word_of_int (the (DecodeOP_N lastOpcode)) else n + 20)
             else n))"
  by pat_completeness auto
termination by (relation "measure (\<lambda>(f, pc, l, n). length pc)") (auto dest: GetOp2_shorter)

declare GetSigOpCount_loop.simps [simp del]

definition GetSigOpCount :: "bool \<Rightarrow> CScript \<Rightarrow> u32" where
  "GetSigOpCount fAccurate s = GetSigOpCount_loop fAccurate s OP_INVALIDOPCODE 0"

definition IsPayToScriptHash :: "CScript \<Rightarrow> bool" where
  "IsPayToScriptHash s \<longleftrightarrow> length s = 23 \<and> s ! 0 = OP_HASH160 \<and> s ! 1 = 0x14 \<and> s ! 22 = OP_EQUAL"

function last_push :: "byte list \<Rightarrow> byte list \<Rightarrow> byte list option" where
  "last_push pc data =
     (if pc = [] then Some data
      else case GetOp2 pc of None \<Rightarrow> None
           | Some (opcode, vch, rest) \<Rightarrow> if opcode > OP_16 then None else last_push rest vch)"
  by pat_completeness auto
termination by (relation "measure (\<lambda>(pc, d). length pc)") (auto dest: GetOp2_shorter)

declare last_push.simps [simp del]

definition GetSigOpCount_P2SH :: "CScript \<Rightarrow> CScript \<Rightarrow> u32" where \<comment> \<open>GetSigOpCount(scriptSig)\<close>
  "GetSigOpCount_P2SH s sig =
     (if \<not> IsPayToScriptHash s then GetSigOpCount True s
      else case last_push sig [] of None \<Rightarrow> 0 | Some data \<Rightarrow> GetSigOpCount True data)"

subsection \<open>Destinations\<close>

text \<open>CTxDestination and the script CScriptVisitor makes of it; the ids are 160-bit hashes.\<close>

datatype CTxDestination = CNoDestination | CKeyID base_uint | CScriptID base_uint

fun SetDestination :: "CTxDestination \<Rightarrow> CScript" where
  "SetDestination CNoDestination = []"
| "SetDestination (CKeyID keyID) =
     push_opcode (push_opcode (push_uint (push_opcode (push_opcode [] OP_DUP) OP_HASH160) keyID) OP_EQUALVERIFY) OP_CHECKSIG"
| "SetDestination (CScriptID scriptID) =
     push_opcode (push_uint (push_opcode [] OP_HASH160) scriptID) OP_EQUAL"

end
