(* ===== verification/Eval.thy ===== *)
theory Eval
  imports Script "HOL-Library.Sublist"
begin

text \<open>
  The script interpreter of src/script.cpp: EvalScript with its stack machine, VerifyScript and
  VerifySignature, the hash that signatures commit to, the signature check and its cache.
  The stack vector is a list whose head is its top, so stacktop(-1) is the head; vfExec likewise. An
  exception inside EvalScript makes it return false, as does every early return; both are None, and no
  caller reads the stack after a failure. Numbers are integers: CBigNum's operations on operands of at
  most four bytes and its byte form (setvch, getvch) come from BigNum. The disabled opcodes are refused
  before the switch, so their cases in it are dead code and are left out.
\<close>

subsection \<open>Stack values\<close>

definition CastToBigNum :: "byte list \<Rightarrow> int option" where
  "CastToBigNum vch =
     (if length vch > 4 then None
      else Some (setvch int_openssl (getvch int_openssl (setvch int_openssl vch))))"

fun CastToBool :: "byte list \<Rightarrow> bool" where
  "CastToBool [] = False"
| "CastToBool (v # vch) = (if v \<noteq> 0 then \<not> (vch = [] \<and> v = 0x80) else CastToBool vch)"

definition vchFalse :: "byte list" where "vchFalse = []"
definition vchTrue :: "byte list" where "vchTrue = [1]"

definition bool_vch :: "bool \<Rightarrow> byte list" where "bool_vch b = (if b then vchTrue else vchFalse)"

definition num_vch :: "int \<Rightarrow> byte list" where "num_vch n = getvch int_openssl n" \<comment> \<open>bn.getvch()\<close>

subsection \<open>The machine\<close>

text \<open>
  The hash functions of OpenSSL and the signature check (signature, public key, script code; the
  transaction, the input and the hash type are fixed during an evaluation).
\<close>

record script_env =
  se_ripemd160 :: "byte list \<Rightarrow> byte list"
  se_sha1 :: "byte list \<Rightarrow> byte list"
  se_sha256 :: sha256
  se_checksig :: "byte list \<Rightarrow> byte list \<Rightarrow> CScript \<Rightarrow> bool"

record eval_state =
  stack :: "byte list list"
  altstack :: "byte list list"
  vfExec :: "bool list"
  nOpCount :: int
  codehash :: "byte list" \<comment> \<open>the script from pbegincodehash on\<close>

definition Hash160 :: "script_env \<Rightarrow> byte list \<Rightarrow> base_uint" where
  "Hash160 E vch = u_of_bytes (se_ripemd160 E (se_sha256 E vch))"

definition disabled :: "byte \<Rightarrow> bool" where
  "disabled opcode \<longleftrightarrow>
     opcode = OP_CAT \<or> opcode = OP_SUBSTR \<or> opcode = OP_LEFT \<or> opcode = OP_RIGHT \<or> opcode = OP_INVERT \<or>
     opcode = OP_AND \<or> opcode = OP_OR \<or> opcode = OP_XOR \<or> opcode = OP_2MUL \<or> opcode = OP_2DIV \<or>
     opcode = OP_MUL \<or> opcode = OP_DIV \<or> opcode = OP_MOD \<or> opcode = OP_LSHIFT \<or> opcode = OP_RSHIFT"

text \<open>Conditionals; fExec is whether the current branch is executed.\<close>

definition eval_if :: "byte \<Rightarrow> bool \<Rightarrow> eval_state \<Rightarrow> eval_state option" where
  "eval_if opcode fExec s =
     (if fExec
      then case stack s of [] \<Rightarrow> None
         | vch # st \<Rightarrow>
             let fValue = CastToBool vch
             in Some (s\<lparr>stack := st, vfExec := (if opcode = OP_NOTIF then \<not> fValue else fValue) # vfExec s\<rparr>)
      else Some (s\<lparr>vfExec := False # vfExec s\<rparr>))"

definition eval_else :: "eval_state \<Rightarrow> eval_state option" where
  "eval_else s = (case vfExec s of [] \<Rightarrow> None | b # bs \<Rightarrow> Some (s\<lparr>vfExec := (\<not> b) # bs\<rparr>))"

definition eval_endif :: "eval_state \<Rightarrow> eval_state option" where
  "eval_endif s = (case vfExec s of [] \<Rightarrow> None | b # bs \<Rightarrow> Some (s\<lparr>vfExec := bs\<rparr>))"

definition eval_verify :: "byte list list \<Rightarrow> byte list list option" where
  "eval_verify st = (case st of [] \<Rightarrow> None | vch # st' \<Rightarrow> if CastToBool vch then Some st' else None)"

text \<open>The opcodes that rearrange the stack.\<close>

definition eval_pick_roll :: "byte \<Rightarrow> byte list list \<Rightarrow> byte list list option" where
  "eval_pick_roll opcode st =
     (if length st < 2 then None
      else do { b \<leftarrow> CastToBigNum (hd st);
                let n = getint int_openssl b; st = tl st
                in if n < 0 \<or> n \<ge> int (length st) then None
                   else let vch = st ! nat n
                        in Some (vch # (if opcode = OP_ROLL then take (nat n) st @ drop (nat n + 1) st else st)) })"

definition eval_stack_op :: "byte \<Rightarrow> byte list list \<Rightarrow> byte list list option" where
  "eval_stack_op opcode st =
     (if opcode = OP_2DROP then case st of _ # _ # r \<Rightarrow> Some r | _ \<Rightarrow> None
      else if opcode = OP_2DUP then case st of x2 # x1 # r \<Rightarrow> Some (x2 # x1 # st) | _ \<Rightarrow> None
      else if opcode = OP_3DUP then case st of x3 # x2 # x1 # r \<Rightarrow> Some (x3 # x2 # x1 # st) | _ \<Rightarrow> None
      else if opcode = OP_2OVER then case st of x4 # x3 # x2 # x1 # r \<Rightarrow> Some (x2 # x1 # st) | _ \<Rightarrow> None
      else if opcode = OP_2ROT
      then case st of x6 # x5 # x4 # x3 # x2 # x1 # r \<Rightarrow> Some (x2 # x1 # x6 # x5 # x4 # x3 # r) | _ \<Rightarrow> None
      else if opcode = OP_2SWAP then case st of x4 # x3 # x2 # x1 # r \<Rightarrow> Some (x2 # x1 # x4 # x3 # r) | _ \<Rightarrow> None
      else if opcode = OP_IFDUP then case st of vch # r \<Rightarrow> Some (if CastToBool vch then vch # st else st) | _ \<Rightarrow> None
      else if opcode = OP_DEPTH then Some (num_vch (int (length st)) # st)
      else if opcode = OP_DROP then case st of _ # r \<Rightarrow> Some r | _ \<Rightarrow> None
      else if opcode = OP_DUP then case st of vch # r \<Rightarrow> Some (vch # st) | _ \<Rightarrow> None
      else if opcode = OP_NIP then case st of x2 # x1 # r \<Rightarrow> Some (x2 # r) | _ \<Rightarrow> None
      else if opcode = OP_OVER then case st of x2 # x1 # r \<Rightarrow> Some (x1 # st) | _ \<Rightarrow> None
      else if opcode = OP_PICK \<or> opcode = OP_ROLL then eval_pick_roll opcode st
      else if opcode = OP_ROT then case st of x3 # x2 # x1 # r \<Rightarrow> Some (x1 # x3 # x2 # r) | _ \<Rightarrow> None
      else if opcode = OP_SWAP then case st of x2 # x1 # r \<Rightarrow> Some (x1 # x2 # r) | _ \<Rightarrow> None
      else if opcode = OP_TUCK then case st of x2 # x1 # r \<Rightarrow> Some (x2 # x1 # x2 # r) | _ \<Rightarrow> None
      else if opcode = OP_SIZE then case st of vch # r \<Rightarrow> Some (num_vch (int (length vch)) # st) | _ \<Rightarrow> None
      else None)"

definition eval_equal :: "byte \<Rightarrow> byte list list \<Rightarrow> byte list list option" where
  "eval_equal opcode st =
     (case st of vch2 # vch1 # r \<Rightarrow>
        let fEqual = (vch1 = vch2)
        in if opcode = OP_EQUALVERIFY then (if fEqual then Some r else None) else Some (bool_vch fEqual # r)
      | _ \<Rightarrow> None)"

subsection \<open>Numbers\<close>

definition unary_num :: "byte \<Rightarrow> int \<Rightarrow> int" where
  "unary_num opcode bn =
     (if opcode = OP_1ADD then bn + 1 else if opcode = OP_1SUB then bn - 1
      else if opcode = OP_NEGATE then - bn else if opcode = OP_ABS then (if bn < 0 then - bn else bn)
      else if opcode = OP_NOT then of_bool (bn = 0) else of_bool (bn \<noteq> 0))"

definition eval_unary :: "byte \<Rightarrow> byte list list \<Rightarrow> byte list list option" where
  "eval_unary opcode st =
     (case st of vch # r \<Rightarrow> do { bn \<leftarrow> CastToBigNum vch; Some (num_vch (unary_num opcode bn) # r) } | _ \<Rightarrow> None)"

definition binary_num :: "byte \<Rightarrow> int \<Rightarrow> int \<Rightarrow> int" where
  "binary_num opcode bn1 bn2 =
     (if opcode = OP_ADD then bn1 + bn2 else if opcode = OP_SUB then bn1 - bn2
      else if opcode = OP_BOOLAND then of_bool (bn1 \<noteq> 0 \<and> bn2 \<noteq> 0)
      else if opcode = OP_BOOLOR then of_bool (bn1 \<noteq> 0 \<or> bn2 \<noteq> 0)
      else if opcode = OP_NUMEQUAL \<or> opcode = OP_NUMEQUALVERIFY then of_bool (bn1 = bn2)
      else if opcode = OP_NUMNOTEQUAL then of_bool (bn1 \<noteq> bn2)
      else if opcode = OP_LESSTHAN then of_bool (bn1 < bn2)
      else if opcode = OP_GREATERTHAN then of_bool (bn1 > bn2)
      else if opcode = OP_LESSTHANOREQUAL then of_bool (bn1 \<le> bn2)
      else if opcode = OP_GREATERTHANOREQUAL then of_bool (bn1 \<ge> bn2)
      else if opcode = OP_MIN then (if bn1 < bn2 then bn1 else bn2)
      else (if bn1 > bn2 then bn1 else bn2))"

definition eval_binary :: "byte \<Rightarrow> byte list list \<Rightarrow> byte list list option" where
  "eval_binary opcode st =
     (case st of vch2 # vch1 # r \<Rightarrow>
        do { bn1 \<leftarrow> CastToBigNum vch1;
             bn2 \<leftarrow> CastToBigNum vch2;
             let v = num_vch (binary_num opcode bn1 bn2)
             in if opcode = OP_NUMEQUALVERIFY then (if CastToBool v then Some r else None) else Some (v # r) }
      | _ \<Rightarrow> None)"

definition eval_within :: "byte list list \<Rightarrow> byte list list option" where
  "eval_within st =
     (case st of vch3 # vch2 # vch1 # r \<Rightarrow>
        do { bn1 \<leftarrow> CastToBigNum vch1; bn2 \<leftarrow> CastToBigNum vch2; bn3 \<leftarrow> CastToBigNum vch3;
             Some (bool_vch (bn2 \<le> bn1 \<and> bn1 < bn3) # r) }
      | _ \<Rightarrow> None)"

subsection \<open>Hashes and signatures\<close>

definition eval_hash :: "script_env \<Rightarrow> byte \<Rightarrow> byte list list \<Rightarrow> byte list list option" where
  "eval_hash E opcode st =
     (case st of vch # r \<Rightarrow>
        Some ((if opcode = OP_RIPEMD160 then se_ripemd160 E vch
               else if opcode = OP_SHA1 then se_sha1 E vch
               else if opcode = OP_SHA256 then se_sha256 E vch
               else if opcode = OP_HASH160 then u_bytes (Hash160 E vch)
               else u_bytes (Hash (se_sha256 E) vch)) # r)
      | _ \<Rightarrow> None)"

definition eval_checksig :: "script_env \<Rightarrow> byte \<Rightarrow> byte list \<Rightarrow> byte list list \<Rightarrow> byte list list option" where
  "eval_checksig E opcode code st =
     (case st of vchPubKey # vchSig # r \<Rightarrow>
        let scriptCode = snd (FindAndDelete code (push_vch [] vchSig));
            fSuccess = se_checksig E vchSig vchPubKey scriptCode
        in if opcode = OP_CHECKSIGVERIFY then (if fSuccess then Some r else None) else Some (bool_vch fSuccess # r)
      | _ \<Rightarrow> None)"

text \<open>
  The loop of OP_CHECKMULTISIG, over the signatures and the keys still to be used. It is entered with
  at least as many keys as signatures, so the third equation is not reached.
\<close>

fun multisig_loop :: "(byte list \<Rightarrow> byte list \<Rightarrow> bool) \<Rightarrow> byte list list \<Rightarrow> byte list list \<Rightarrow> bool" where
  "multisig_loop check [] keys = True"
| "multisig_loop check (sg # sigs) (key # keys) =
     (let sigs' = (if check sg key then sigs else sg # sigs)
      in if length sigs' > length keys then False else multisig_loop check sigs' keys)"
| "multisig_loop check (sg # sigs) [] = False"

text \<open>OP_CHECKMULTISIG: the new stack and operation count. One more element than it uses is popped.\<close>

definition eval_multisig ::
  "script_env \<Rightarrow> byte \<Rightarrow> byte list \<Rightarrow> int \<Rightarrow> byte list list \<Rightarrow> (byte list list \<times> int) option" where
  "eval_multisig E opcode code ops st =
     (if length st < 1 then None
      else do { b \<leftarrow> CastToBigNum (st ! 0);
        let nKeysCount = getint int_openssl b
        in if nKeysCount < 0 \<or> nKeysCount > 20 then None
           else let ops = ops + nKeysCount; nk = nat nKeysCount
           in if ops > 201 then None
           else if length st < nk + 2 then None
           else do { c \<leftarrow> CastToBigNum (st ! (nk + 1));
             let nSigsCount = getint int_openssl c
             in if nSigsCount < 0 \<or> nSigsCount > nKeysCount then None
                else let ns = nat nSigsCount
                in if length st < nk + ns + 3 then None
                else let keys = take nk (drop 1 st); sigs = take ns (drop (nk + 2) st);
                         scriptCode = foldl (\<lambda>sc vchSig. snd (FindAndDelete sc (push_vch [] vchSig))) code sigs;
                         fSuccess = multisig_loop (\<lambda>sg key. se_checksig E sg key scriptCode) sigs keys;
                         r = drop (nk + ns + 3) st
                     in if opcode = OP_CHECKMULTISIGVERIFY then (if fSuccess then Some (r, ops) else None)
                        else Some (bool_vch fSuccess # r, ops) } })"

subsection \<open>Evaluation\<close>

definition on_stack :: "(byte list list \<Rightarrow> byte list list option) \<Rightarrow> eval_state \<Rightarrow> eval_state option" where
  "on_stack f s = do { st \<leftarrow> f (stack s); Some (s\<lparr>stack := st\<rparr>) }"

text \<open>The switch; \<open>pc\<close> is the script after the instruction.\<close>

definition eval_op :: "script_env \<Rightarrow> byte \<Rightarrow> bool \<Rightarrow> byte list \<Rightarrow> eval_state \<Rightarrow> eval_state option" where
  "eval_op E opcode fExec pc s =
     (if opcode = OP_1NEGATE \<or> (OP_1 \<le> opcode \<and> opcode \<le> OP_16)
      then Some (s\<lparr>stack := num_vch (uint opcode - (uint OP_1 - 1)) # stack s\<rparr>)
      else if opcode = OP_NOP \<or> (OP_NOP1 \<le> opcode \<and> opcode \<le> OP_NOP10) then Some s
      else if opcode = OP_IF \<or> opcode = OP_NOTIF then eval_if opcode fExec s
      else if opcode = OP_ELSE then eval_else s
      else if opcode = OP_ENDIF then eval_endif s
      else if opcode = OP_VERIFY then on_stack eval_verify s
      else if opcode = OP_RETURN then None
      else if opcode = OP_TOALTSTACK
      then (case stack s of vch # st \<Rightarrow> Some (s\<lparr>stack := st, altstack := vch # altstack s\<rparr>) | [] \<Rightarrow> None)
      else if opcode = OP_FROMALTSTACK
      then (case altstack s of vch # st \<Rightarrow> Some (s\<lparr>stack := vch # stack s, altstack := st\<rparr>) | [] \<Rightarrow> None)
      else if (OP_2DROP \<le> opcode \<and> opcode \<le> OP_TUCK) \<or> opcode = OP_SIZE then on_stack (eval_stack_op opcode) s
      else if opcode = OP_EQUAL \<or> opcode = OP_EQUALVERIFY then on_stack (eval_equal opcode) s
      else if opcode = OP_1ADD \<or> opcode = OP_1SUB \<or> (OP_NEGATE \<le> opcode \<and> opcode \<le> OP_0NOTEQUAL)
      then on_stack (eval_unary opcode) s
      else if opcode = OP_ADD \<or> opcode = OP_SUB \<or> (OP_BOOLAND \<le> opcode \<and> opcode \<le> OP_MAX)
      then on_stack (eval_binary opcode) s
      else if opcode = OP_WITHIN then on_stack eval_within s
      else if OP_RIPEMD160 \<le> opcode \<and> opcode \<le> OP_HASH256 then on_stack (eval_hash E opcode) s
      else if opcode = OP_CODESEPARATOR then Some (s\<lparr>codehash := pc\<rparr>)
      else if opcode = OP_CHECKSIG \<or> opcode = OP_CHECKSIGVERIFY then on_stack (eval_checksig E opcode (codehash s)) s
      else if opcode = OP_CHECKMULTISIG \<or> opcode = OP_CHECKMULTISIGVERIFY
      then do { (st, ops) \<leftarrow> eval_multisig E opcode (codehash s) (nOpCount s) (stack s); Some (s\<lparr>stack := st, nOpCount := ops\<rparr>) }
      else None)"

definition eval_step :: "script_env \<Rightarrow> byte \<Rightarrow> byte list \<Rightarrow> byte list \<Rightarrow> eval_state \<Rightarrow> eval_state option" where
  "eval_step E opcode vchPushValue pc s =
     (let fExec = (False \<notin> set (vfExec s))
      in if length vchPushValue > 520 then None
         else let s = (if opcode > OP_16 then s\<lparr>nOpCount := nOpCount s + 1\<rparr> else s)
         in if opcode > OP_16 \<and> nOpCount s > 201 then None
         else if disabled opcode then None
         else do { s \<leftarrow> (if fExec \<and> opcode \<le> OP_PUSHDATA4 then Some (s\<lparr>stack := vchPushValue # stack s\<rparr>)
                         else if fExec \<or> (OP_IF \<le> opcode \<and> opcode \<le> OP_ENDIF) then eval_op E opcode fExec pc s
                         else Some s);
                   if length (stack s) + length (altstack s) > 1000 then None else Some s })"

function EvalScript_loop :: "script_env \<Rightarrow> byte list \<Rightarrow> eval_state \<Rightarrow> eval_state option" where
  "EvalScript_loop E pc s =
     (if pc = [] then Some s
      else case GetOp2 pc of None \<Rightarrow> None
           | Some (opcode, vch, pc') \<Rightarrow>
               (case eval_step E opcode vch pc' s of None \<Rightarrow> None | Some s' \<Rightarrow> EvalScript_loop E pc' s'))"
  by pat_completeness auto
termination by (relation "measure (\<lambda>(E, pc, s). length pc)") (auto dest: GetOp2_shorter)

declare EvalScript_loop.simps [simp del]

definition EvalScript :: "script_env \<Rightarrow> byte list list \<Rightarrow> CScript \<Rightarrow> byte list list option" where
  "EvalScript E st script =
     (if length script > 10000 then None
      else do { s \<leftarrow> EvalScript_loop E script
                      \<lparr> stack = st, altstack = [], vfExec = [], nOpCount = 0, codehash = script \<rparr>;
                if vfExec s \<noteq> [] then None else Some (stack s) })"

subsection \<open>Verification\<close>

definition VerifyScript :: "script_env \<Rightarrow> CScript \<Rightarrow> CScript \<Rightarrow> bool \<Rightarrow> bool" where
  "VerifyScript E sig pubKey fValidatePayToScriptHash =
     (case EvalScript E [] sig of None \<Rightarrow> False
      | Some stackCopy \<Rightarrow>
          (case EvalScript E stackCopy pubKey of None \<Rightarrow> False
           | Some st \<Rightarrow>
               if st = [] then False
               else if CastToBool (hd st) = False then False
               else if fValidatePayToScriptHash \<and> IsPayToScriptHash pubKey
               then (if \<not> IsPushOnly sig then False
                     else case stackCopy of [] \<Rightarrow> False \<comment> \<open>not reached: OP_HASH160 has failed\<close>
                          | pubKeySerialized # stackCopy \<Rightarrow>
                              (case EvalScript E stackCopy pubKeySerialized of None \<Rightarrow> False
                               | Some st2 \<Rightarrow> if st2 = [] then False else if CastToBool (hd st2) = False then False else True))
               else True))"

subsection \<open>Signature hashes\<close>

definition SIGHASH_ALL :: u32 where "SIGHASH_ALL = 1"
definition SIGHASH_NONE :: u32 where "SIGHASH_NONE = 2"
definition SIGHASH_SINGLE :: u32 where "SIGHASH_SINGLE = 3"
definition SIGHASH_ANYONECANPAY :: u32 where "SIGHASH_ANYONECANPAY = 0x80"

text \<open>The copy of the transaction a signature commits to; None is the error that hashes to 1.\<close>

definition signature_tx :: "CScript \<Rightarrow> CTransaction \<Rightarrow> nat \<Rightarrow> u32 \<Rightarrow> CTransaction option" where
  "signature_tx scriptCode txTo nIn nHashType =
     (if nIn \<ge> length (vin txTo) then None
      else let code = snd (FindAndDelete scriptCode [OP_CODESEPARATOR]);
               ins = map (\<lambda>i. i\<lparr>scriptSig := []\<rparr>) (vin txTo);
               ins = ins[nIn := (ins ! nIn)\<lparr>scriptSig := code\<rparr>];
               others0 = map (\<lambda>i. if i \<noteq> nIn then (ins ! i)\<lparr>nSequence := 0\<rparr> else ins ! i) [0..<length ins];
               one = (\<lambda>ins. if nHashType AND SIGHASH_ANYONECANPAY \<noteq> 0 then [ins ! nIn] else ins)
           in if nHashType AND 0x1f = SIGHASH_NONE then Some (txTo\<lparr>vin := one others0, vout := []\<rparr>)
              else if nHashType AND 0x1f = SIGHASH_SINGLE
              then if nIn \<ge> length (vout txTo) then None
                   else Some (txTo\<lparr>vin := one others0, vout := replicate nIn TxOut_null @ [vout txTo ! nIn]\<rparr>)
              else Some (txTo\<lparr>vin := one ins\<rparr>))"

definition SignatureHash :: "sha256 \<Rightarrow> CScript \<Rightarrow> CTransaction \<Rightarrow> nat \<Rightarrow> u32 \<Rightarrow> base_uint" where
  "SignatureHash sha scriptCode txTo nIn nHashType =
     (case signature_tx scriptCode txTo nIn nHashType of
        None \<Rightarrow> u_of_uint64 8 1
      | Some txTmp \<Rightarrow> Hash sha (ser_CTransaction SER_GETHASH 0 txTmp @ WRITEDATA nHashType))"

text \<open>
  CheckSig. \<open>verify\<close> is whether the key library accepts the public key and the signature over the hash; the
  cache holds the triples it has accepted. \<open>keep\<close> is the cache after the eviction of random entries, which
  happens when it is over its size, and \<open>room\<close> whether the size setting is positive.
\<close>

type_synonym sigdata = "base_uint \<times> byte list \<times> byte list"

definition SignatureCache_Get :: "sigdata set \<Rightarrow> sigdata \<Rightarrow> bool" where "SignatureCache_Get setValid k \<longleftrightarrow> k \<in> setValid"

definition SignatureCache_Set :: "bool \<Rightarrow> (sigdata set \<Rightarrow> sigdata set) \<Rightarrow> sigdata set \<Rightarrow> sigdata \<Rightarrow> sigdata set" where
  "SignatureCache_Set room keep setValid k = (if \<not> room then setValid else insert k (setValid \<inter> keep setValid))"

definition CheckSig ::
  "sha256 \<Rightarrow> (byte list \<Rightarrow> base_uint \<Rightarrow> byte list \<Rightarrow> bool) \<Rightarrow> bool \<Rightarrow> (sigdata set \<Rightarrow> sigdata set) \<Rightarrow>
   CTransaction \<Rightarrow> nat \<Rightarrow> u32 \<Rightarrow> sigdata set \<Rightarrow> byte list \<Rightarrow> byte list \<Rightarrow> CScript \<Rightarrow> bool \<times> sigdata set" where
  "CheckSig sha verify room keep txTo nIn nHashType cache vchSig vchPubKey scriptCode =
     (if vchSig = [] then (False, cache)
      else if nHashType \<noteq> 0 \<and> nHashType \<noteq> ucast (last vchSig) then (False, cache)
      else let nHashType = (if nHashType = 0 then ucast (last vchSig) else nHashType);
               vchSig = butlast vchSig;
               sighash = SignatureHash sha scriptCode txTo nIn nHashType
           in if SignatureCache_Get cache (sighash, vchSig, vchPubKey) then (True, cache)
              else if \<not> verify vchPubKey sighash vchSig then (False, cache)
              else (True, SignatureCache_Set room keep cache (sighash, vchSig, vchPubKey)))"

text \<open>The environment of an evaluation, with the cache left out (it does not change any verdict).\<close>

record crypto =
  cr_ripemd160 :: "byte list \<Rightarrow> byte list"
  cr_sha1 :: "byte list \<Rightarrow> byte list"
  cr_sha256 :: sha256
  cr_verify :: "byte list \<Rightarrow> base_uint \<Rightarrow> byte list \<Rightarrow> bool"

definition env_of :: "crypto \<Rightarrow> CTransaction \<Rightarrow> nat \<Rightarrow> u32 \<Rightarrow> script_env" where
  "env_of K txTo nIn nHashType =
     \<lparr> se_ripemd160 = cr_ripemd160 K, se_sha1 = cr_sha1 K, se_sha256 = cr_sha256 K,
       se_checksig = (\<lambda>sg key code. fst (CheckSig (cr_sha256 K) (cr_verify K) False id txTo nIn nHashType {} sg key code)) \<rparr>"

definition VerifySignature :: "crypto \<Rightarrow> CTransaction \<Rightarrow> CTransaction \<Rightarrow> nat \<Rightarrow> bool \<Rightarrow> u32 \<Rightarrow> bool option" where
  "VerifySignature K txFrom txTo nIn fValidatePayToScriptHash nHashType =
     (if \<not> nIn < length (vin txTo) then None
      else let txin = vin txTo ! nIn
           in if unat (o_n (prevout txin)) \<ge> length (vout txFrom) then Some False
              else if o_hash (prevout txin) \<noteq> Tx_GetHash (cr_sha256 K) txFrom then Some False
              else Some (VerifyScript (env_of K txTo nIn nHashType) (scriptSig txin)
                     (scriptPubKey (vout txFrom ! unat (o_n (prevout txin)))) fValidatePayToScriptHash))"

subsection \<open>Numbers on the stack\<close>

lemma getvch_int: "getvch int_openssl n = rev (mpi_body n)"
  using getvch_body [OF int_openssl_ok] by simp

lemma setvch_int: "length vch < 2 ^ 32 \<Longrightarrow> setvch int_openssl vch = body_val (rev vch)"
  using val_setvch [OF int_openssl_ok] by simp

lemma body_val_bound: "bs \<noteq> [] \<Longrightarrow> \<bar>body_val bs\<bar> < 2 ^ (8 * length bs - 1)"
proof (cases bs)
  case (Cons x xs)
  have 1: "unat (x AND 0x7f) < 128" unfolding unat_and_7f by simp
  have p: "(256 :: nat) ^ length xs = 2 ^ (8 * length xs)" using power_mult [of "2 :: nat" 8 "length xs"] by simp
  have 2: "wval (rev xs) < 2 ^ (8 * length xs)" using wval_bound [of "rev xs"] by simp
  have "wval (rev ((x AND 0x7f) # xs)) = wval (rev xs) + 2 ^ (8 * length xs) * unat (x AND 0x7f)"
    by (simp add: wval_append)
  also have "\<dots> < 2 ^ (8 * length xs) * (1 + unat (x AND 0x7f))" using 2 by (simp add: distrib_left)
  also have "\<dots> \<le> 2 ^ (8 * length xs) * 128" using 1 by (intro mult_le_mono2) simp
  also have "\<dots> = 2 ^ (8 * length bs - 1)" by (simp add: Cons power_add)
  finally have "int (wval (rev ((x AND 0x7f) # xs))) < 2 ^ (8 * length bs - 1)"
    by (metis of_nat_less_iff of_nat_numeral of_nat_power)
  then show ?thesis unfolding Cons by (simp add: Let_def del: rev.simps wval.simps)
qed simp


lemma CastToBigNum_val: "CastToBigNum vch = (if length vch > 4 then None else Some (body_val (rev vch)))"
proof (cases "length vch > 4")
  case False
  have e: "setvch int_openssl vch = body_val (rev vch)" using False by (intro setvch_int) simp
  have "\<bar>body_val (rev vch)\<bar> < 256 ^ 4"
  proof (cases "vch = []")
    case False
    have "\<bar>body_val (rev vch)\<bar> < 2 ^ (8 * length vch - 1)" using body_val_bound [of "rev vch"] False by simp
    also have "(2 :: int) ^ (8 * length vch - 1) \<le> 2 ^ 32" using \<open>\<not> length vch > 4\<close> by (intro power_increasing) simp_all
    finally show ?thesis by simp
  qed simp
  then have "length (mpi_body (body_val (rev vch))) \<le> 5" using length_mpi_body [of _ 4] by simp
  then show ?thesis using False unfolding CastToBigNum_def e getvch_int by (simp add: setvch_int body_val_mpi_body)
qed (simp add: CastToBigNum_def)

lemma CastToBigNum_num_vch: "\<bar>n\<bar> < 2 ^ 31 \<Longrightarrow> CastToBigNum (num_vch n) = Some n"
  using length_mpi_body_bits [of n 4] by (simp add: CastToBigNum_val num_vch_def getvch_int body_val_mpi_body)

lemma CastToBigNum_bound: "CastToBigNum vch = Some n \<Longrightarrow> \<bar>n\<bar> < 2 ^ 31"
proof -
  assume "CastToBigNum vch = Some n"
  then have n: "n = body_val (rev vch)" "length vch \<le> 4" by (auto simp: CastToBigNum_val split: if_splits)
  show ?thesis
  proof (cases "vch = []")
    case False
    have "\<bar>n\<bar> < 2 ^ (8 * length vch - 1)" using body_val_bound [of "rev vch"] False n(1) by simp
    also have "(2 :: int) ^ (8 * length vch - 1) \<le> 2 ^ 31" using n(2) by (intro power_increasing) simp_all
    finally show ?thesis .
  qed (simp add: n(1))
qed

lemma length_num_vch: "\<bar>n\<bar> < 2 ^ (8 * k - 1) \<Longrightarrow> 0 < k \<Longrightarrow> length (num_vch n) \<le> k"
  using length_mpi_body_bits [of n k] by (simp add: num_vch_def getvch_int)

lemma length_num_vch_too_long: "2 ^ 31 \<le> \<bar>n\<bar> \<Longrightarrow> CastToBigNum (num_vch n) = None"
proof -
  assume a: "2 ^ 31 \<le> \<bar>n\<bar>"
  have "4 < length (mpi_body n)"
  proof (rule ccontr)
    assume "\<not> 4 < length (mpi_body n)"
    moreover have "mpi_body n \<noteq> []" using a mpi_body_Nil [of n] by auto
    ultimately have "\<bar>body_val (mpi_body n)\<bar> < 2 ^ (8 * length (mpi_body n) - 1)" by (intro body_val_bound)
    also have "(2 :: int) ^ (8 * length (mpi_body n) - 1) \<le> 2 ^ 31"
      using \<open>\<not> 4 < length (mpi_body n)\<close> by (intro power_increasing) simp_all
    finally show False using a by (simp add: body_val_mpi_body)
  qed
  then show ?thesis by (simp add: CastToBigNum_val num_vch_def getvch_int)
qed

text \<open>Script numbers: the byte form of a number is read back as that number if its magnitude is below 2^31, and
  refused otherwise. So the sum, difference or other result of two operands, exact and at most five bytes
  long, may be compared or hashed but not used as an operand again once it has overflowed.\<close>

theorem script_numbers:
  assumes "CastToBigNum a = Some m" "CastToBigNum b = Some n"
  shows "eval_binary OP_ADD (b # a # st) = Some (num_vch (m + n) # st) \<and>
    eval_binary OP_SUB (b # a # st) = Some (num_vch (m - n) # st) \<and>
    length (num_vch (m + n)) \<le> 5 \<and>
    CastToBigNum (num_vch (m + n)) = (if \<bar>m + n\<bar> < 2 ^ 31 then Some (m + n) else None)"
proof -
  have "\<bar>m + n\<bar> < 2 ^ (8 * 5 - 1)" using CastToBigNum_bound [OF assms(1)] CastToBigNum_bound [OF assms(2)] by simp
  then have "length (num_vch (m + n)) \<le> 5" by (rule length_num_vch) simp
  then show ?thesis using assms CastToBigNum_num_vch [of "m + n"] length_num_vch_too_long [of "m + n"]
    by (simp add: eval_binary_def binary_num_def)
qed

theorem script_numbers_witness:
  "eval_binary OP_ADD [num_vch 2147483647, num_vch 1] = Some [num_vch 2147483648] \<and> CastToBigNum (num_vch 2147483648) = None"
  using script_numbers [OF CastToBigNum_num_vch CastToBigNum_num_vch, of 1 2147483647 "[]"] by simp

subsection \<open>Resource limits\<close>

definition env_ok :: "script_env \<Rightarrow> bool" where
  "env_ok E \<longleftrightarrow> (\<forall>bs. length (se_ripemd160 E bs) = 20 \<and> length (se_sha1 E bs) = 20 \<and> length (se_sha256 E bs) = 32)"

definition small :: "byte list list \<Rightarrow> bool" where "small st \<longleftrightarrow> (\<forall>v\<in>set st. length v \<le> 520)"

lemma small_simps [simp]:
  "small []" "small (v # st) \<longleftrightarrow> length v \<le> 520 \<and> small st" "small (s @ t) \<longleftrightarrow> small s \<and> small t"
  by (auto simp: small_def)

lemma small_take_drop: "small st \<Longrightarrow> small (take k st)" "small st \<Longrightarrow> small (drop k st)"
  by (auto simp: small_def dest: in_set_takeD in_set_dropD)

lemma small_bool [simp]: "length (bool_vch b) \<le> 520"
  by (simp add: bool_vch_def vchTrue_def vchFalse_def)

lemma small_num [simp]: "\<bar>n\<bar> < 2 ^ 39 \<Longrightarrow> length (num_vch n) \<le> 520"
  using length_num_vch [of n 5] by simp

lemma small_nth: "small st \<Longrightarrow> \<not> n < 0 \<Longrightarrow> \<not> int (length st) \<le> n \<Longrightarrow> length (st ! nat n) \<le> 520"
  by (simp add: small_def)

lemma small_eval_stack_op:
  assumes "eval_stack_op opcode st = Some st'" "small st" "length st \<le> 1000"
  shows "small st'"
proof (cases "opcode = OP_PICK \<or> opcode = OP_ROLL")
  case True
  then have "eval_pick_roll opcode st = Some st'" using assms(1) by (auto simp: eval_stack_op_def)
  then show ?thesis using assms(2) small_take_drop [OF assms(2)]
    by (cases st) (auto simp: eval_pick_roll_def Let_def small_take_drop small_nth split: if_splits bind_splits)
next
  case False
  then show ?thesis using assms
    by (auto simp: eval_stack_op_def split: if_splits list.splits)
qed

lemma small_tail: "small st \<Longrightarrow> st = v # r \<Longrightarrow> small r \<and> length v \<le> 520"
  by simp

lemma unary_num_bound: "\<bar>n\<bar> < 2 ^ 31 \<Longrightarrow> \<bar>unary_num opcode n\<bar> < 2 ^ 39"
  by (auto simp: unary_num_def)

lemma binary_num_bound: "\<bar>m\<bar> < 2 ^ 31 \<Longrightarrow> \<bar>n\<bar> < 2 ^ 31 \<Longrightarrow> \<bar>binary_num opcode m n\<bar> < 2 ^ 39"
  by (auto simp: binary_num_def)

lemma small_eval_numeric:
  "eval_unary opcode st = Some st' \<Longrightarrow> small st \<Longrightarrow> small st'"
  "eval_binary opcode st = Some st' \<Longrightarrow> small st \<Longrightarrow> small st'"
  "eval_within st = Some st' \<Longrightarrow> small st \<Longrightarrow> small st'"
  "eval_equal opcode st = Some st' \<Longrightarrow> small st \<Longrightarrow> small st'"
  "eval_verify st = Some st' \<Longrightarrow> small st \<Longrightarrow> small st'"
proof -
  show "eval_unary opcode st = Some st' \<Longrightarrow> small st \<Longrightarrow> small st'"
    by (auto simp: eval_unary_def split: list.splits bind_splits intro!: small_num unary_num_bound dest: CastToBigNum_bound)
  show "eval_binary opcode st = Some st' \<Longrightarrow> small st \<Longrightarrow> small st'"
    by (auto simp: eval_binary_def Let_def split: list.splits bind_splits if_splits intro!: small_num binary_num_bound dest: CastToBigNum_bound)
  show "eval_within st = Some st' \<Longrightarrow> small st \<Longrightarrow> small st'"
    by (auto simp: eval_within_def split: list.splits bind_splits)
  show "eval_equal opcode st = Some st' \<Longrightarrow> small st \<Longrightarrow> small st'"
    by (auto simp: eval_equal_def Let_def split: list.splits if_splits)
  show "eval_verify st = Some st' \<Longrightarrow> small st \<Longrightarrow> small st'"
    by (auto simp: eval_verify_def split: list.splits if_splits)
qed

lemma small_eval_crypto:
  assumes "env_ok E"
  shows "eval_hash E opcode st = Some st' \<Longrightarrow> small st \<Longrightarrow> small st'"
    and "eval_checksig E opcode code st = Some st' \<Longrightarrow> small st \<Longrightarrow> small st'"
    and "eval_multisig E opcode code ops st = Some (st', ops') \<Longrightarrow> small st \<Longrightarrow> small st' \<and> ops \<le> ops' \<and> ops' \<le> 201"
proof -
  have [simp]: "length (se_ripemd160 E v) = 20" "length (se_sha1 E v) = 20" "length (se_sha256 E v) = 32" for v
    using assms by (simp_all add: env_ok_def)
  show "eval_hash E opcode st = Some st' \<Longrightarrow> small st \<Longrightarrow> small st'"
    by (auto simp: eval_hash_def Hash160_def Hash_def Let_def split: list.splits if_splits)
  show "eval_checksig E opcode code st = Some st' \<Longrightarrow> small st \<Longrightarrow> small st'"
    by (auto simp: eval_checksig_def Let_def split: list.splits if_splits)
  show "eval_multisig E opcode code ops st = Some (st', ops') \<Longrightarrow> small st \<Longrightarrow> small st' \<and> ops \<le> ops' \<and> ops' \<le> 201"
    by (auto simp: eval_multisig_def Let_def small_take_drop split: list.splits if_splits bind_splits)
qed

text \<open>The invariant of the machine between two instructions.\<close>

definition eval_inv :: "eval_state \<Rightarrow> bool" where
  "eval_inv s \<longleftrightarrow> small (stack s) \<and> small (altstack s) \<and> length (stack s) + length (altstack s) \<le> 1000 \<and>
     0 \<le> nOpCount s \<and> nOpCount s \<le> 201"

lemma if_SomeE: "(if c then a else b) = Some s' \<Longrightarrow> (a = Some s' \<Longrightarrow> P) \<Longrightarrow> (b = Some s' \<Longrightarrow> P) \<Longrightarrow> P"
  by (simp split: if_splits)

text \<open>The outcomes of the switch.\<close>

lemma eval_op_elim:
  assumes e: "eval_op E opcode fExec pc s = Some s'"
    and "s' = s\<lparr>stack := num_vch (uint opcode - (uint OP_1 - 1)) # stack s\<rparr> \<Longrightarrow> P"
    and "s' = s \<Longrightarrow> P" "eval_if opcode fExec s = Some s' \<Longrightarrow> P" "eval_else s = Some s' \<Longrightarrow> P" "eval_endif s = Some s' \<Longrightarrow> P"
    and "\<And>vch st. stack s = vch # st \<Longrightarrow> s' = s\<lparr>stack := st, altstack := vch # altstack s\<rparr> \<Longrightarrow> P"
    and "\<And>vch st. altstack s = vch # st \<Longrightarrow> s' = s\<lparr>stack := vch # stack s, altstack := st\<rparr> \<Longrightarrow> P"
    and "\<And>f. f \<in> {eval_verify, eval_stack_op opcode, eval_equal opcode, eval_unary opcode, eval_binary opcode, eval_within,
            eval_hash E opcode, eval_checksig E opcode (codehash s)} \<Longrightarrow> on_stack f s = Some s' \<Longrightarrow> P"
    and "s' = s\<lparr>codehash := pc\<rparr> \<Longrightarrow> P"
    and "\<And>st ops. eval_multisig E opcode (codehash s) (nOpCount s) (stack s) = Some (st, ops) \<Longrightarrow>
           s' = s\<lparr>stack := st, nOpCount := ops\<rparr> \<Longrightarrow> P"
  shows P
proof -
  have toalt: P if "(case stack s of vch # st \<Rightarrow> Some (s\<lparr>stack := st, altstack := vch # altstack s\<rparr>) | [] \<Rightarrow> None) = Some s'"
    using that assms(7) by (auto split: list.splits)
  have fromalt: P if "(case altstack s of vch # st \<Rightarrow> Some (s\<lparr>stack := vch # stack s, altstack := st\<rparr>) | [] \<Rightarrow> None) = Some s'"
    using that assms(8) by (auto split: list.splits)
  have multi: P if "do { (st, ops) \<leftarrow> eval_multisig E opcode (codehash s) (nOpCount s) (stack s); Some (s\<lparr>stack := st, nOpCount := ops\<rparr>) } = Some s'"
    using that assms(11) by (auto split: bind_splits)
  have on: P if "on_stack f s = Some s'" "f \<in> {eval_verify, eval_stack_op opcode, eval_equal opcode, eval_unary opcode,
      eval_binary opcode, eval_within, eval_hash E opcode, eval_checksig E opcode (codehash s)}" for f
    using assms(9) that by blast
  have none: P if "None = Some s'" using that by simp
  have const: P if "Some (s\<lparr>stack := num_vch (uint opcode - (uint OP_1 - 1)) # stack s\<rparr>) = Some s'"
    using that assms(2) by simp
  have same: P if "Some s = Some s'" using that assms(3) by simp
  have sep: P if "Some (s\<lparr>codehash := pc\<rparr>) = Some s'" using that assms(10) by simp
  show P
    using e unfolding eval_op_def
    by (elim if_SomeE) (erule none const same sep assms(4-6) toalt fromalt multi | (erule on, simp; fail))+
qed

lemma eval_op_small:
  assumes E: "env_ok E" and e: "eval_op E opcode fExec pc s = Some s'"
    and s: "small (stack s)" "small (altstack s)" "length (stack s) + length (altstack s) \<le> 1000" "nOpCount s \<le> 201"
  shows "small (stack s') \<and> small (altstack s') \<and> nOpCount s \<le> nOpCount s' \<and> nOpCount s' \<le> 201"
proof -
  have num: "\<bar>uint opcode - (uint OP_1 - 1)\<bar> < 2 ^ 39"
  proof -
    have "uint opcode < 256" using uint_bounded [of opcode] by simp
    moreover have "- 549755813888 < uint opcode - 80" using uint_ge_0 [of opcode] by linarith
    ultimately show ?thesis by (simp add: abs_less_iff)
  qed
  have len: "length (stack s) \<le> 1000" using s(3) by simp
  show ?thesis
  proof (rule eval_op_elim [OF e])
    fix f assume f: "f \<in> {eval_verify, eval_stack_op opcode, eval_equal opcode, eval_unary opcode,
        eval_binary opcode, eval_within, eval_hash E opcode, eval_checksig E opcode (codehash s)}" "on_stack f s = Some s'"
    then obtain st' where st': "f (stack s) = Some st'" "s' = s\<lparr>stack := st'\<rparr>" by (auto simp: on_stack_def split: bind_splits)
    have "small st'"
      using f(1) st'(1) small_eval_stack_op [OF _ s(1) len] small_eval_numeric [OF _ s(1)] small_eval_crypto(1,2) [OF E _ s(1)]
      by blast
    then show ?thesis using st'(2) s by simp
  next
    fix st ops assume "eval_multisig E opcode (codehash s) (nOpCount s) (stack s) = Some (st, ops)" "s' = s\<lparr>stack := st, nOpCount := ops\<rparr>"
    then show ?thesis using small_eval_crypto(3) [OF E _ s(1)] s by auto
  next
    assume "eval_if opcode fExec s = Some s'"
    then show ?thesis using s by (auto simp: eval_if_def Let_def split: if_splits list.splits)
  qed (use s num in \<open>auto simp: eval_else_def eval_endif_def split: list.splits\<close>)
qed

lemma eval_step_inv:
  assumes E: "env_ok E" and e: "eval_step E opcode vch pc s = Some s'" and s: "eval_inv s"
  shows "eval_inv s'"
proof -
  define s1 where "s1 = (if opcode > OP_16 then s\<lparr>nOpCount := nOpCount s + 1\<rparr> else s)"
  have s1: "small (stack s1)" "small (altstack s1)" "length (stack s1) + length (altstack s1) \<le> 1000" "0 \<le> nOpCount s1"
    using s by (auto simp: s1_def eval_inv_def)
  have 1: "length vch \<le> 520" "nOpCount s1 \<le> 201"
    using e s by (auto simp: eval_step_def Let_def s1_def eval_inv_def split: if_splits)
  let ?fExec = "False \<notin> set (vfExec s)"
  have 2: "(if ?fExec \<and> opcode \<le> OP_PUSHDATA4 then Some (s1\<lparr>stack := vch # stack s1\<rparr>)
       else if ?fExec \<or> (OP_IF \<le> opcode \<and> opcode \<le> OP_ENDIF) then eval_op E opcode ?fExec pc s1 else Some s1) = Some s'"
    and 3: "length (stack s') + length (altstack s') \<le> 1000"
    using e 1 unfolding eval_step_def Let_def s1_def [symmetric] by (auto split: if_split_asm bind_split_asm)
  have "small (stack s') \<and> small (altstack s') \<and> nOpCount s1 \<le> nOpCount s' \<and> nOpCount s' \<le> 201"
    using 2 1 s1(1,2) eval_op_small [OF E _ s1(1-3) 1(2), of opcode ?fExec pc s'] by (auto split: if_split_asm)
  then show ?thesis using 3 s1(4) by (simp add: eval_inv_def)
qed

lemma EvalScript_loop_inv:
  "env_ok E \<Longrightarrow> EvalScript_loop E pc s = Some s' \<Longrightarrow> eval_inv s \<Longrightarrow> eval_inv s'"
proof (induction E pc s rule: EvalScript_loop.induct)
  case (1 E pc s)
  show ?case
  proof (cases "pc = []")
    case False
    then obtain opcode vch rest s1 where 2: "GetOp2 pc = Some (opcode, vch, rest)" "eval_step E opcode vch rest s = Some s1"
        "EvalScript_loop E rest s1 = Some s'"
      using 1(3) by (subst (asm) EvalScript_loop.simps) (auto split: option.splits prod.splits)
    show ?thesis using 1(1) [OF False 2(1) refl refl 2(2) 1(2) 2(3)] eval_step_inv [OF 1(2) 2(2) 1(4)] by blast
  qed (use 1 in \<open>simp add: EvalScript_loop.simps\<close>)
qed

text \<open>The operations of a script, executed or not, as the interpreter reads them.\<close>

function script_ops :: "byte list \<Rightarrow> byte list" where
  "script_ops pc = (if pc = [] then [] else case GetOp2 pc of None \<Rightarrow> [] | Some (opcode, vch, rest) \<Rightarrow> opcode # script_ops rest)"
  by pat_completeness auto
termination by (relation "measure length") (auto dest: GetOp2_shorter)

declare script_ops.simps [simp del]

lemma script_ops_Nil: "script_ops [] = []"
  by (subst script_ops.simps) simp

definition counted_ops :: "byte list \<Rightarrow> nat" where \<comment> \<open>all but the pushes\<close>
  "counted_ops pc = length (filter (\<lambda>opcode. opcode > OP_16) (script_ops pc))"

lemma eval_step_counts:
  assumes E: "env_ok E" and e: "eval_step E opcode vch pc s = Some s'" and s: "eval_inv s"
  shows "nOpCount s + (if opcode > OP_16 then 1 else 0) \<le> nOpCount s' \<and> \<not> disabled opcode"
proof -
  define s1 where "s1 = (if opcode > OP_16 then s\<lparr>nOpCount := nOpCount s + 1\<rparr> else s)"
  have s1: "small (stack s1)" "small (altstack s1)" "length (stack s1) + length (altstack s1) \<le> 1000"
    using s by (auto simp: s1_def eval_inv_def)
  have 1: "nOpCount s1 \<le> 201" "\<not> disabled opcode"
    using e s by (auto simp: eval_step_def Let_def s1_def eval_inv_def split: if_splits)
  let ?fExec = "False \<notin> set (vfExec s)"
  have 2: "(if ?fExec \<and> opcode \<le> OP_PUSHDATA4 then Some (s1\<lparr>stack := vch # stack s1\<rparr>)
       else if ?fExec \<or> (OP_IF \<le> opcode \<and> opcode \<le> OP_ENDIF) then eval_op E opcode ?fExec pc s1 else Some s1) = Some s'"
    using e 1 unfolding eval_step_def Let_def s1_def [symmetric] by (auto split: if_split_asm bind_split_asm)
  have "nOpCount s1 \<le> nOpCount s'"
    using 2 eval_op_small [OF E _ s1 1(1), of opcode ?fExec pc s'] by (auto split: if_split_asm)
  then show ?thesis using 1(2) by (simp add: s1_def split: if_splits)
qed

lemma EvalScript_loop_counts:
  "env_ok E \<Longrightarrow> EvalScript_loop E pc s = Some s' \<Longrightarrow> eval_inv s \<Longrightarrow>
   nOpCount s + int (counted_ops pc) \<le> nOpCount s' \<and> (\<forall>opcode\<in>set (script_ops pc). \<not> disabled opcode)"
proof (induction E pc s rule: EvalScript_loop.induct)
  case (1 E pc s)
  show ?case
  proof (cases "pc = []")
    case False
    then obtain opcode vch rest s1 where 2: "GetOp2 pc = Some (opcode, vch, rest)" "eval_step E opcode vch rest s = Some s1"
        "EvalScript_loop E rest s1 = Some s'"
      using 1(3) by (subst (asm) EvalScript_loop.simps) (auto split: option.splits prod.splits)
    have ops: "script_ops pc = opcode # script_ops rest" using False 2(1) by (subst script_ops.simps) simp
    have "nOpCount s1 + int (counted_ops rest) \<le> nOpCount s'" "\<forall>opcode\<in>set (script_ops rest). \<not> disabled opcode"
      using 1(1) [OF False 2(1) refl refl 2(2) 1(2) 2(3)] eval_step_inv [OF 1(2) 2(2) 1(4)] by blast+
    then show ?thesis using eval_step_counts [OF 1(2) 2(2) 1(4)] unfolding ops counted_ops_def by (auto split: if_splits)
  qed (use 1 in \<open>simp add: EvalScript_loop.simps counted_ops_def script_ops_Nil\<close>)
qed

text \<open>C26. The limits of the interpreter: started with at most 1000 stack elements of at most 520 bytes, a script
  that succeeds is at most 10000 bytes long, holds no disabled operation and at most 201 operations that are not
  pushes, whether executed or not, and leaves at most 1000 elements of at most 520 bytes. The hash functions are
  assumed to return digests of their lengths.\<close>

theorem eval_script_limits:
  assumes "env_ok E" "small st" "length st \<le> 1000" "EvalScript E st script = Some st'"
  shows "small st' \<and> length st' \<le> 1000 \<and> length script \<le> 10000 \<and>
    counted_ops script \<le> 201 \<and> (\<forall>opcode\<in>set (script_ops script). \<not> disabled opcode)"
proof -
  let ?s = "\<lparr>stack = st, altstack = [], vfExec = [], nOpCount = 0, codehash = script\<rparr>"
  obtain s' where s': "EvalScript_loop E script ?s = Some s'" "st' = stack s'" "length script \<le> 10000"
    using assms(4) by (auto simp: EvalScript_def split: if_splits bind_splits)
  have i: "eval_inv ?s" using assms(2,3) by (simp add: eval_inv_def)
  show ?thesis using EvalScript_loop_inv [OF assms(1) s'(1) i] EvalScript_loop_counts [OF assms(1) s'(1) i] s'
    by (simp add: eval_inv_def)
qed

definition toy_env :: script_env where
  "toy_env = \<lparr> se_ripemd160 = (\<lambda>bs. take 20 (bs @ replicate 20 0)), se_sha1 = (\<lambda>bs. take 20 (bs @ replicate 20 0)),
     se_sha256 = (\<lambda>bs. take 32 (bs @ replicate 32 0)), se_checksig = (\<lambda>sg key code. sg = key) \<rparr>"

lemma toy_env_ok: "env_ok toy_env"
  by (auto simp: env_ok_def toy_env_def min_def)

theorem eval_script_limits_witness:
  "\<exists>st'. EvalScript toy_env [[7]] [OP_DUP, OP_EQUAL] = Some st' \<and> small st' \<and> length st' \<le> 1000 \<and>
    counted_ops [OP_DUP, OP_EQUAL] = 2 \<and> counted_ops [OP_DUP, OP_EQUAL] \<le> 201"
proof -
  have "EvalScript toy_env [[7]] [OP_DUP, OP_EQUAL] = Some [vchTrue]"
    by (simp add: EvalScript_def EvalScript_loop.simps GetOp2_def eval_step_def eval_op_def on_stack_def eval_stack_op_def
        eval_equal_def disabled_def bool_vch_def)
  moreover have "counted_ops [OP_DUP, OP_EQUAL] = 2" by (simp add: counted_ops_def script_ops.simps GetOp2_def)
  ultimately show ?thesis using eval_script_limits [OF toy_env_ok, of "[[7]]" "[OP_DUP, OP_EQUAL]"] by simp
qed

subsection \<open>Pushes\<close>

lemma GetOp2_push:
  assumes "length b + length r < 2 ^ 32"
  shows "\<exists>opcode. GetOp2 (push_vch [] b @ r) = Some (opcode, b, r) \<and> opcode \<le> OP_PUSHDATA4"
proof -
  have n32: "unat (word_of_nat (length b) :: u32) = length b" using assms by (simp add: unat_of_nat)
  have lt: "\<not> word_of_nat (length (b @ r)) < (word_of_nat (length b) :: u32)"
  proof -
    have "unat (word_of_nat (length (b @ r)) :: u32) = length (b @ r)"
      using assms by (simp add: unat_of_nat del: length_append) simp
    then show ?thesis using n32 unfolding word_less_nat_alt by simp
  qed
  consider (a) "length b < 0x4c" | (b) "0x4c \<le> length b" "length b \<le> 0xff" | (c) "0xff < length b" "length b \<le> 0xffff" | (d) "0xffff < length b"
    by linarith
  then show ?thesis
  proof cases
    case a
    have a0: "length b < 2 ^ 8" using a by simp
    have u: "unat (word_of_nat (length b) :: byte) = length b" using a by (simp add: unat_of_nat)
    have "(word_of_nat (length b) :: byte) < OP_PUSHDATA1" "(word_of_nat (length b) :: byte) \<le> OP_PUSHDATA4"
      using a by (simp_all add: word_less_nat_alt word_le_nat_alt u)
    moreover have "(ucast (word_of_nat (length b) :: byte) :: u32) = word_of_nat (length b)"
      using a0 by (simp add: unsigned_of_nat take_bit_nat_eq_self)
    ultimately show ?thesis using a lt n32 by (simp add: GetOp2_def push_vch_def)
  next
    case b
    have a0: "length b < 2 ^ 8" using b by simp
    have u: "unat (word_of_nat (length b) :: byte) = length b" using b by (simp add: unat_of_nat)
    have "(ucast (word_of_nat (length b) :: byte) :: u32) = word_of_nat (length b)"
      using a0 by (simp add: unsigned_of_nat take_bit_nat_eq_self)
    then show ?thesis using b lt n32 by (simp add: GetOp2_def push_vch_def)
  next
    case c
    have u: "unat (word_of_nat (length b) :: u16) = length b" using c by (simp add: unat_of_nat)
    have l: "length (WRITEDATA (word_of_nat (length b) :: u16)) = 2" by (simp add: WRITEDATA_def)
    have w: "wval (WRITEDATA (word_of_nat (length b) :: u16)) = length b" using u c by (simp add: WRITEDATA_def wval_words_of)
    show ?thesis using c lt n32 l w by (simp add: GetOp2_def push_vch_def)
  next
    case d
    have l: "length (WRITEDATA (word_of_nat (length b) :: u32)) = 4" by (simp add: WRITEDATA_def)
    have w: "wval (WRITEDATA (word_of_nat (length b) :: u32)) = length b" using n32 assms by (simp add: WRITEDATA_def wval_words_of)
    show ?thesis using d lt n32 l w by (simp add: GetOp2_def push_vch_def)
  qed
qed

subsection \<open>Multisignature checks\<close>

text \<open>The greedy loop finds a match exactly if the signatures can be matched, in order, by some of the keys.\<close>

lemma list_all2_subseq_weaken:
  "list_all2 check (sg # sigs) ks \<Longrightarrow> \<exists>k ks'. ks = k # ks' \<and> check sg k \<and> list_all2 check sigs ks'"
  by (cases ks) auto

lemma multisig_loop_subseq:
  "length sigs \<le> length keys \<Longrightarrow>
   multisig_loop check sigs keys \<longleftrightarrow> (\<exists>ks. subseq ks keys \<and> list_all2 check sigs ks)"
proof (induction check sigs keys rule: multisig_loop.induct)
  case (1 check keys)
  then show ?case by auto
next
  case (2 check sg sigs key keys)
  show ?case
  proof (cases "check sg key")
    case True
    have len: "length sigs \<le> length keys" using 2(2) by simp
    have "(\<exists>ks. subseq ks (key # keys) \<and> list_all2 check (sg # sigs) ks) \<longleftrightarrow> (\<exists>ks. subseq ks keys \<and> list_all2 check sigs ks)"
    proof
      assume "\<exists>ks. subseq ks (key # keys) \<and> list_all2 check (sg # sigs) ks"
      then obtain k ks where "subseq (k # ks) (key # keys)" "list_all2 check sigs ks"
        by (metis list_all2_subseq_weaken)
      then show "\<exists>ks. subseq ks keys \<and> list_all2 check sigs ks"
        by (metis subseq_Cons' subseq_Cons2_iff)
    next
      assume "\<exists>ks. subseq ks keys \<and> list_all2 check sigs ks"
      then obtain ks where "subseq ks keys" "list_all2 check sigs ks" by blast
      then have "subseq (key # ks) (key # keys)" "list_all2 check (sg # sigs) (key # ks)" using True by simp_all
      then show "\<exists>ks. subseq ks (key # keys) \<and> list_all2 check (sg # sigs) ks" by blast
    qed
    then show ?thesis using 2(1) [OF refl] True len by (simp add: Let_def)
  next
    case False
    have eq: "(\<exists>ks. subseq ks (key # keys) \<and> list_all2 check (sg # sigs) ks) \<longleftrightarrow> (\<exists>ks. subseq ks keys \<and> list_all2 check (sg # sigs) ks)"
    proof
      assume "\<exists>ks. subseq ks (key # keys) \<and> list_all2 check (sg # sigs) ks"
      then obtain k ks where k: "subseq (k # ks) (key # keys)" "check sg k" "list_all2 check sigs ks"
        by (metis list_all2_subseq_weaken)
      then have "subseq (k # ks) keys" using False by (metis subseq_Cons2_neq)
      then show "\<exists>ks. subseq ks keys \<and> list_all2 check (sg # sigs) ks" using k by (intro exI [of _ "k # ks"]) simp
    qed (blast intro: list_emb_Cons)
    show ?thesis
    proof (cases "length (sg # sigs) > length keys")
      case True
      have "\<not> (subseq ks keys \<and> list_all2 check (sg # sigs) ks)" for ks
        using True list_all2_lengthD list_emb_length by (metis leD)
      then show ?thesis using True False eq by (simp add: Let_def)
    next
      case len: False
      then show ?thesis using 2(1) [OF refl] False eq by (simp add: Let_def)
    qed
  qed
next
  case (3 check sg sigs)
  then show ?case by simp
qed

lemma push_vch_append: "push_vch s b = s @ push_vch [] b"
  by (simp add: push_vch_def)

lemma length_push_vch: "length b < length (push_vch [] b)" "length (push_vch [] b) \<le> length b + 5"
  by (auto simp: push_vch_def)

lemma opcode_push_only: "opcode \<le> OP_PUSHDATA4 \<Longrightarrow> \<not> opcode > OP_16 \<and> \<not> disabled opcode"
  by (auto simp: disabled_def word_less_nat_alt word_le_nat_alt)

lemma eval_step_push:
  "opcode \<le> OP_PUSHDATA4 \<Longrightarrow> length vch \<le> 520 \<Longrightarrow> vfExec s = [] \<Longrightarrow> length (stack s) + length (altstack s) < 1000 \<Longrightarrow>
   eval_step E opcode vch pc s = Some (s\<lparr>stack := vch # stack s\<rparr>)"
  using opcode_push_only [of opcode] by (auto simp: eval_step_def Let_def)

lemma EvalScript_loop_push:
  assumes "length vch \<le> 520" "length vch + length pc < 2 ^ 32" "vfExec s = []" "length (stack s) + length (altstack s) < 1000"
  shows "EvalScript_loop E (push_vch [] vch @ pc) s = EvalScript_loop E pc (s\<lparr>stack := vch # stack s\<rparr>)"
proof -
  obtain opcode where "GetOp2 (push_vch [] vch @ pc) = Some (opcode, vch, pc)" "opcode \<le> OP_PUSHDATA4"
    using GetOp2_push [OF assms(2)] by blast
  moreover have "push_vch [] vch \<noteq> []" using length_push_vch(1) [of vch] by auto
  ultimately show ?thesis using assms eval_step_push [of opcode vch s E pc]
    by (subst EvalScript_loop.simps) simp
qed

definition PushAll :: "byte list list \<Rightarrow> CScript" where "PushAll values = foldl push_vch [] values"

lemma PushAll_simps [simp]: "PushAll [] = []" "PushAll (v # vs) = push_vch [] v @ PushAll vs"
proof -
  have f: "foldl push_vch s vs = s @ PushAll vs" for s vs
  proof (induction vs arbitrary: s)
    case (Cons v vs)
    have "foldl push_vch s (v # vs) = push_vch s v @ PushAll vs" using Cons [of "push_vch s v"] by simp
    also have "\<dots> = s @ push_vch [] v @ PushAll vs" by (subst push_vch_append) simp
    also have "push_vch [] v @ PushAll vs = PushAll (v # vs)"
      using Cons [of "push_vch [] v"] by (simp add: PushAll_def)
    finally show ?case .
  qed (simp add: PushAll_def)
  show "PushAll (v # vs) = push_vch [] v @ PushAll vs" using f [of "push_vch [] v" vs] by (simp add: PushAll_def)
qed (simp add: PushAll_def)

lemma length_PushAll_Cons: "length v < length (PushAll (v # vs))"
  using length_push_vch(1) [of v] by simp

lemma EvalScript_loop_PushAll:
  assumes "\<forall>v\<in>set vs. length v \<le> 520" "length (PushAll vs @ pc) < 2 ^ 32" "vfExec s = []"
    "length vs + length (stack s) + length (altstack s) \<le> 1000"
  shows "EvalScript_loop E (PushAll vs @ pc) s = EvalScript_loop E pc (s\<lparr>stack := rev vs @ stack s\<rparr>)"
  using assms
proof (induction vs arbitrary: s)
  case (Cons v vs)
  have "length v + length (PushAll vs @ pc) < 2 ^ 32" using Cons.prems(2) length_push_vch(1) [of v] by simp
  moreover have "length (PushAll vs @ pc) < 2 ^ 32" using Cons.prems(2) by simp
  ultimately show ?case using Cons.IH [of "s\<lparr>stack := v # stack s\<rparr>"] Cons.prems
      EvalScript_loop_push [of v "PushAll vs @ pc" s E] by simp
qed simp

lemma IsPushOnly_PushAll: "length (PushAll vs) < 2 ^ 32 \<Longrightarrow> IsPushOnly (PushAll vs)"
proof (induction vs)
  case (Cons v vs)
  have "length v + length (PushAll vs) < 2 ^ 32" using Cons.prems length_push_vch(1) [of v] by simp
  from GetOp2_push [OF this] obtain opcode where "GetOp2 (push_vch [] v @ PushAll vs) = Some (opcode, v, PushAll vs)"
      "opcode \<le> OP_PUSHDATA4" by blast
  then show ?case using Cons opcode_push_only [of opcode] by (subst IsPushOnly.simps) simp
qed (simp add: IsPushOnly.simps)

lemma pushes_sig:
  assumes "\<forall>v\<in>set vs. length v \<le> 520" "length (PushAll vs) \<le> 10000" "length vs + length st \<le> 1000"
  shows "EvalScript E st (PushAll vs) = Some (rev vs @ st)"
proof -
  let ?s = "\<lparr>stack = st, altstack = [], vfExec = [], nOpCount = 0, codehash = PushAll vs\<rparr>"
  have "EvalScript_loop E (PushAll vs) ?s = Some (?s\<lparr>stack := rev vs @ st\<rparr>)"
    using EvalScript_loop_PushAll [of vs "[]" ?s E] assms by (simp add: EvalScript_loop.simps)
  then show ?thesis using assms by (simp add: EvalScript_def)
qed

text \<open>What the push operators write, the interpreter pushes: a script built from pushes of at most 520 bytes is
  push-only and evaluates to the stack with the values on top, last value first.\<close>

theorem pushes_evaluate:
  assumes "\<forall>v\<in>set vs. length v \<le> 520" "length (PushAll vs) \<le> 10000" "length vs + length st \<le> 1000"
  shows "EvalScript E st (PushAll vs) = Some (rev vs @ st) \<and> IsPushOnly (PushAll vs)"
  using pushes_sig [OF assms] IsPushOnly_PushAll [of vs] assms(2) by simp

theorem pushes_evaluate_witness:
  "EvalScript toy_env [] (PushAll [[1, 2], replicate 300 7]) = Some [replicate 300 7, [1, 2]]"
  using pushes_evaluate [of "[[1, 2], replicate 300 7]" "[]" toy_env] by (simp add: push_vch_def WRITEDATA_def)

subsection \<open>Payment to a public key hash\<close>

lemma SetDestination_vch:
  assumes "length h = 5"
  shows "SetDestination (CKeyID h) = [OP_DUP, OP_HASH160] @ push_vch [] (u_bytes h) @ [OP_EQUALVERIFY, OP_CHECKSIG]"
    and "SetDestination (CScriptID h) = [OP_HASH160] @ push_vch [] (u_bytes h) @ [OP_EQUAL]"
  using assms by (simp_all add: push_opcode_def push_uint_def push_vch_def)

lemma EvalScript_loop_op:
  assumes "opcode > OP_16" "eval_step E opcode [] pc s = s'"
  shows "EvalScript_loop E (opcode # pc) s = (case s' of None \<Rightarrow> None | Some s'' \<Rightarrow> EvalScript_loop E pc s'')"
proof -
  have "\<not> opcode \<le> OP_PUSHDATA4" using assms(1) by (auto simp: word_less_nat_alt word_le_nat_alt)
  then have "GetOp2 (opcode # pc) = Some (opcode, [], pc)" by (simp add: GetOp2_def)
  then show ?thesis using assms(2) by (subst EvalScript_loop.simps) simp
qed

lemma EvalScript_p2pkh:
  assumes "length h = 5" "length st \<le> 990"
  shows "EvalScript E (key # sg # st) (SetDestination (CKeyID h)) =
    (if Hash160 E key = h
     then Some (bool_vch (se_checksig E sg key (snd (FindAndDelete (SetDestination (CKeyID h)) (push_vch [] sg)))) # st) else None)"
proof -
  let ?code = "SetDestination (CKeyID h)"
  let ?s = "\<lparr>stack = key # sg # st, altstack = [], vfExec = [], nOpCount = 0, codehash = ?code\<rparr>"
  let ?r = "push_vch [] (u_bytes h) @ [OP_EQUALVERIFY, OP_CHECKSIG]"
  let ?h = "u_bytes (Hash160 E key)"
  have u: "?h = u_bytes h \<longleftrightarrow> Hash160 E key = h" by (metis u_of_bytes_bytes)
  have dup: "eval_step E OP_DUP [] (OP_HASH160 # ?r) ?s = Some (?s\<lparr>stack := key # key # sg # st, nOpCount := 1\<rparr>)"
    using assms by (simp add: eval_step_def disabled_def eval_op_def on_stack_def eval_stack_op_def)
  have hash: "eval_step E OP_HASH160 [] ?r (?s\<lparr>stack := key # key # sg # st, nOpCount := 1\<rparr>) = Some (?s\<lparr>stack := ?h # key # sg # st, nOpCount := 2\<rparr>)"
    using assms by (simp add: eval_step_def disabled_def eval_op_def on_stack_def eval_hash_def)
  have eq: "eval_step E OP_EQUALVERIFY [] [OP_CHECKSIG] (?s\<lparr>stack := u_bytes h # ?h # key # sg # st, nOpCount := 2\<rparr>) =
      (if ?h = u_bytes h then Some (?s\<lparr>stack := key # sg # st, nOpCount := 3\<rparr>) else None)"
    using assms by (simp add: eval_step_def disabled_def eval_op_def on_stack_def eval_equal_def)
  have check: "eval_step E OP_CHECKSIG [] [] (?s\<lparr>stack := key # sg # st, nOpCount := 3\<rparr>) =
      Some (?s\<lparr>stack := bool_vch (se_checksig E sg key (snd (FindAndDelete ?code (push_vch [] sg)))) # st, nOpCount := 4\<rparr>)"
    using assms by (simp add: eval_step_def disabled_def eval_op_def on_stack_def eval_checksig_def Let_def)
  have code: "?code = OP_DUP # OP_HASH160 # ?r" using SetDestination_vch(1) [OF assms(1)] by (simp del: SetDestination.simps)
  have len: "length ?code \<le> 10000" using assms by (simp add: push_opcode_def push_uint_def)
  have "EvalScript_loop E ?code ?s = EvalScript_loop E ?r (?s\<lparr>stack := ?h # key # sg # st, nOpCount := 2\<rparr>)"
    unfolding code by (subst EvalScript_loop_op [OF _ dup [unfolded code]], simp, subst option.case, subst EvalScript_loop_op [OF _ hash [unfolded code]]) simp_all
  also have "\<dots> = EvalScript_loop E [OP_EQUALVERIFY, OP_CHECKSIG] (?s\<lparr>stack := u_bytes h # ?h # key # sg # st, nOpCount := 2\<rparr>)"
    using assms by (subst EvalScript_loop_push) simp_all
  also have "\<dots> = (if ?h = u_bytes h then EvalScript_loop E [OP_CHECKSIG] (?s\<lparr>stack := key # sg # st, nOpCount := 3\<rparr>) else None)"
    by (subst EvalScript_loop_op [OF _ eq]) simp_all
  also have "\<dots> = (if ?h = u_bytes h then Some (?s\<lparr>stack := bool_vch (se_checksig E sg key (snd (FindAndDelete ?code (push_vch [] sg)))) # st, nOpCount := 4\<rparr>) else None)"
    by (subst EvalScript_loop_op [OF _ check]) (simp_all add: EvalScript_loop.simps)
  finally show ?thesis using len u by (simp add: EvalScript_def)
qed

lemma CastToBool_bool_vch [simp]: "CastToBool (bool_vch b) = b"
  by (simp add: bool_vch_def vchTrue_def vchFalse_def)

lemma toy_hash: "Hash160 toy_env [b] = [word_of_nat (unat b), 0, 0, 0, 0]"
proof -
  have "replicate 19 (0 :: byte) = [0, 0, 0, 0, 0, 0, 0, 0, 0, 0, 0, 0, 0, 0, 0, 0, 0, 0, 0]" by (simp add: numeral_eq_Suc)
  then show ?thesis by (simp add: Hash160_def toy_env_def)
qed

lemma p2pkh_verify:
  assumes "length h = 5" "length sg \<le> 520" "length key \<le> 520"
  shows "VerifyScript E (push_vch (push_vch [] sg) key) (SetDestination (CKeyID h)) b \<longleftrightarrow>
    Hash160 E key = h \<and> se_checksig E sg key (snd (FindAndDelete (SetDestination (CKeyID h)) (push_vch [] sg)))"
proof -
  have "length (PushAll [sg, key]) \<le> 10000"
    using assms length_push_vch(2) [of sg] length_push_vch(2) [of key] push_vch_append [of "push_vch [] sg" key] by simp
  then have "EvalScript E [] (PushAll [sg, key]) = Some (rev [sg, key] @ [])"
    using pushes_sig [of "[sg, key]" "[]" E] assms by simp
  then have "EvalScript E [] (push_vch (push_vch [] sg) key) = Some [key, sg]"
    using push_vch_append [of "push_vch [] sg" key] by simp
  moreover have "\<not> IsPayToScriptHash (SetDestination (CKeyID h))" using assms by (simp add: IsPayToScriptHash_def push_opcode_def push_uint_def)
  ultimately show ?thesis using EvalScript_p2pkh [OF assms(1), of "[]" E key sg] by (simp add: VerifyScript_def)
qed

text \<open>Payment to a public key hash: the pushes of a signature and a key unlock the standard script exactly if
  the key has the hash and the signature verifies for the key over that script with the signature
  itself removed.\<close>

theorem p2pkh_unlocks:
  assumes "length h = 5" "length sg \<le> 520" "length key \<le> 520"
  shows "VerifyScript E (push_vch (push_vch [] sg) key) (SetDestination (CKeyID h)) b \<longleftrightarrow>
    Hash160 E key = h \<and> se_checksig E sg key (snd (FindAndDelete (SetDestination (CKeyID h)) (push_vch [] sg)))"
  using assms by (rule p2pkh_verify)

theorem p2pkh_unlocks_witness:
  "VerifyScript toy_env (push_vch (push_vch [] [5]) [5]) (SetDestination (CKeyID [5, 0, 0, 0, 0])) True"
proof -
  have "Hash160 toy_env [5] = [5, 0, 0, 0, 0]"
    by (simp add: toy_hash)
  then show ?thesis using p2pkh_unlocks [of "[5, 0, 0, 0, 0]" "[5]" "[5]" toy_env True] by (simp add: toy_env_def)
qed

lemma getint_small: "\<bar>n\<bar> < 2 ^ 31 \<Longrightarrow> getint int_openssl n = n"
proof -
  assume n: "\<bar>n\<bar> < 2 ^ 31"
  have u: "uint (word_of_int \<bar>n\<bar> :: u64) = \<bar>n\<bar>" using n by (simp add: uint_word_of_int_eq take_bit_int_eq_self)
  then show ?thesis using n by (auto simp: getint_def int_openssl_def Let_def word_less_def)
qed

text \<open>C27. The greedy loop of OP_CHECKMULTISIG is complete: with n keys and m signatures on the stack it pushes true
  exactly if some subsequence of the keys verifies the signatures one by one, in the same order. It also
  consumes one element below the signatures, and counts the keys as operations.\<close>

theorem multisig_complete:
  assumes "length keys \<le> 20" "length sigs \<le> length keys" "ops + int (length keys) \<le> 201"
  shows "eval_multisig E OP_CHECKMULTISIG code ops
      (num_vch (int (length keys)) # keys @ num_vch (int (length sigs)) # sigs @ dummy # st) =
    Some (bool_vch (\<exists>ks. subseq ks keys \<and>
            list_all2 (\<lambda>sg key. se_checksig E sg key (foldl (\<lambda>sc vchSig. snd (FindAndDelete sc (push_vch [] vchSig))) code sigs)) sigs ks) # st,
          ops + int (length keys))"
proof -
  have k: "CastToBigNum (num_vch (int (length keys))) = Some (int (length keys))"
    and s: "CastToBigNum (num_vch (int (length sigs))) = Some (int (length sigs))"
    using assms by (auto intro!: CastToBigNum_num_vch)
  have g: "getint int_openssl (int (length keys)) = int (length keys)" "getint int_openssl (int (length sigs)) = int (length sigs)"
    using assms by (auto intro!: getint_small)
  have d: "drop (length keys + length sigs + 3)
      (num_vch (int (length keys)) # keys @ num_vch (int (length sigs)) # sigs @ dummy # st) = st"
    by (simp add: eval_nat_numeral)
  show ?thesis
    using assms(1,2,3) unfolding eval_multisig_def by (simp add: k s g d nth_append Let_def multisig_loop_subseq [OF assms(2)])
qed

theorem multisig_complete_witness:
  "eval_multisig toy_env OP_CHECKMULTISIG [] 0 (num_vch 2 # [[3], [4]] @ num_vch 1 # [[4]] @ [] # []) = Some ([vchTrue], 2)"
proof -
  have "\<exists>ks. subseq ks [[3], [4]] \<and> list_all2 (\<lambda>sg key. se_checksig toy_env sg key
      (foldl (\<lambda>sc vchSig. snd (FindAndDelete sc (push_vch [] vchSig))) [] [[4]])) [[4]] ks"
    by (intro exI [of _ "[[4]]"]) (simp add: toy_env_def)
  then show ?thesis using multisig_complete [of "[[3], [4]]" "[[4]]" 0 toy_env "[]" "[]" "[]"]
    by (simp add: bool_vch_def)
qed

subsection \<open>The signature cache\<close>

definition cache_sound :: "(byte list \<Rightarrow> base_uint \<Rightarrow> byte list \<Rightarrow> bool) \<Rightarrow> sigdata set \<Rightarrow> bool" where
  "cache_sound verify cache \<longleftrightarrow> (\<forall>(sighash, vchSig, vchPubKey) \<in> cache. verify vchPubKey sighash vchSig)"

text \<open>C29. The signature cache is transparent: it keeps only accepted triples, whatever is evicted, and with such a
  cache the verdict of CheckSig is the verdict without a cache.\<close>

theorem signature_cache_transparent:
  assumes "cache_sound verify cache"
  shows "fst (CheckSig sha verify room keep txTo nIn nHashType cache vchSig vchPubKey scriptCode) =
      fst (CheckSig sha verify False id txTo nIn nHashType {} vchSig vchPubKey scriptCode) \<and>
    cache_sound verify (snd (CheckSig sha verify room keep txTo nIn nHashType cache vchSig vchPubKey scriptCode))"
  using assms
  by (auto simp: CheckSig_def Let_def SignatureCache_Get_def SignatureCache_Set_def cache_sound_def)

theorem signature_cache_transparent_witness:
  "cache_sound (\<lambda>k h s. s = k) (snd (CheckSig (\<lambda>b. take 32 (b @ replicate 32 0)) (\<lambda>k h s. s = k) True id
     \<lparr>tx_nVersion = 1, tx_nVersionCompat = 1, tx_nTime = 0, vin = [], vout = [], tx_nLockTime = 0, tx_message = [], tx_nDoS = 0\<rparr>
     0 1 {([], [9], [9])} [9, 1] [9] []))"
  by (rule signature_cache_transparent [THEN conjunct2]) (simp add: cache_sound_def)

subsection \<open>Payment to a script hash\<close>

lemma EvalScript_p2sh:
  assumes "length h = 5" "length st \<le> 990"
  shows "EvalScript E (redeem # st) (SetDestination (CScriptID h)) = Some (bool_vch (Hash160 E redeem = h) # st)"
proof -
  let ?code = "SetDestination (CScriptID h)"
  let ?s = "\<lparr>stack = redeem # st, altstack = [], vfExec = [], nOpCount = 0, codehash = ?code\<rparr>"
  let ?r = "push_vch [] (u_bytes h) @ [OP_EQUAL]"
  let ?h = "u_bytes (Hash160 E redeem)"
  have u: "?h = u_bytes h \<longleftrightarrow> Hash160 E redeem = h" by (metis u_of_bytes_bytes)
  have hash: "eval_step E OP_HASH160 [] ?r ?s = Some (?s\<lparr>stack := ?h # st, nOpCount := 1\<rparr>)"
    using assms by (simp add: eval_step_def disabled_def eval_op_def on_stack_def eval_hash_def)
  have eq: "eval_step E OP_EQUAL [] [] (?s\<lparr>stack := u_bytes h # ?h # st, nOpCount := 1\<rparr>) =
      Some (?s\<lparr>stack := bool_vch (?h = u_bytes h) # st, nOpCount := 2\<rparr>)"
    using assms by (simp add: eval_step_def disabled_def eval_op_def on_stack_def eval_equal_def)
  have code: "?code = OP_HASH160 # ?r" using SetDestination_vch(2) [OF assms(1)] by (simp del: SetDestination.simps)
  have len: "length ?code \<le> 10000" using assms by (simp add: push_opcode_def push_uint_def)
  have "EvalScript_loop E ?code ?s = EvalScript_loop E ?r (?s\<lparr>stack := ?h # st, nOpCount := 1\<rparr>)"
    unfolding code by (subst EvalScript_loop_op [OF _ hash [unfolded code]]) simp_all
  also have "\<dots> = EvalScript_loop E [OP_EQUAL] (?s\<lparr>stack := u_bytes h # ?h # st, nOpCount := 1\<rparr>)"
    using assms by (subst EvalScript_loop_push) simp_all
  also have "\<dots> = Some (?s\<lparr>stack := bool_vch (?h = u_bytes h) # st, nOpCount := 2\<rparr>)"
    by (subst EvalScript_loop_op [OF _ eq]) (simp_all add: EvalScript_loop.simps)
  finally show ?thesis using len u by (simp add: EvalScript_def)
qed

text \<open>C28. Payment to a script hash: the pushes of some arguments and of a script unlock the standard script exactly
  if the pushed script has the hash and, run on the arguments, succeeds with a true value on top.\<close>

theorem p2sh_unlocks:
  assumes "length h = 5" "\<forall>v\<in>set (args @ [redeem]). length v \<le> 520" "length (PushAll (args @ [redeem])) \<le> 10000" "length args \<le> 990"
  shows "VerifyScript E (PushAll (args @ [redeem])) (SetDestination (CScriptID h)) True \<longleftrightarrow>
    Hash160 E redeem = h \<and> (\<exists>vch st. EvalScript E (rev args) redeem = Some (vch # st) \<and> CastToBool vch)"
proof -
  have e: "EvalScript E [] (PushAll (args @ [redeem])) = Some (redeem # rev args)"
    using pushes_sig [of "args @ [redeem]" "[]" E] assms by simp
  have p: "IsPushOnly (PushAll (args @ [redeem]))" using IsPushOnly_PushAll assms(3) by simp
  have "IsPayToScriptHash (SetDestination (CScriptID h))"
    using assms(1) by (simp add: IsPayToScriptHash_def push_opcode_def push_uint_def nth_append)
  then show ?thesis using e p EvalScript_p2sh [OF assms(1), of "rev args" E redeem] assms(4)
    by (auto simp: VerifyScript_def neq_Nil_conv split: option.splits if_splits)
qed

theorem p2sh_unlocks_witness:
  "VerifyScript toy_env (PushAll ([[7]] @ [[OP_NOP]])) (SetDestination (CScriptID [0x61, 0, 0, 0, 0])) True"
proof -
  have "Hash160 toy_env [OP_NOP] = [0x61, 0, 0, 0, 0]" by (simp add: toy_hash)
  moreover have "EvalScript toy_env (rev [[7]]) [OP_NOP] = Some [[7]]"
    by (simp add: EvalScript_def EvalScript_loop.simps GetOp2_def eval_step_def eval_op_def disabled_def)
  ultimately show ?thesis using p2sh_unlocks [of "[0x61, 0, 0, 0, 0]" "[[7]]" "[OP_NOP]" toy_env]
    by (simp add: push_vch_def)
qed

end
