(* ===== verification/Standard.thy ===== *)
theory Standard
  imports Eval "HOL-Library.List_Lexorder"
begin

text \<open>
  Standard scripts, from src/script.cpp: the template matcher Solver and what is built on it
  (ScriptSigArgsExpected, IsStandard, IsMine, ExtractDestination), signing with a key store, and the
  combination of partial signatures. The key store is given by its virtual functions, a key by its secret
  and compression flag; the key library's signing function is a parameter.
\<close>

datatype txnouttype = TX_NONSTANDARD | TX_PUBKEY | TX_PUBKEYHASH | TX_SCRIPTHASH | TX_MULTISIG

subsection \<open>The template matcher\<close>

definition mTemplates :: "(txnouttype \<times> CScript) list" where
  "mTemplates =
     [(TX_PUBKEY, push_opcode (push_opcode [] OP_PUBKEY) OP_CHECKSIG),
      (TX_PUBKEYHASH, push_opcode (push_opcode (push_opcode (push_opcode (push_opcode [] OP_DUP) OP_HASH160) OP_PUBKEYHASH)
                        OP_EQUALVERIFY) OP_CHECKSIG),
      (TX_MULTISIG, push_opcode (push_opcode (push_opcode (push_opcode [] OP_SMALLINTEGER) OP_PUBKEYS) OP_SMALLINTEGER)
                      OP_CHECKMULTISIG)]"

text \<open>
  The loop over the public keys. When the script ends inside it, the invalid opcode that GetOp leaves
  matches nothing that can follow OP_PUBKEYS in the templates, so it is a mismatch.
\<close>

function pubkeys_loop ::
  "byte \<Rightarrow> byte list \<Rightarrow> byte list \<Rightarrow> byte list list \<Rightarrow> (byte \<times> byte list \<times> byte list \<times> byte list list) option" where
  "pubkeys_loop opcode1 vch1 pc1 sols =
     (if 33 \<le> length vch1 \<and> length vch1 \<le> 120
      then case GetOp2 pc1 of None \<Rightarrow> None
           | Some (opcode, vch, rest) \<Rightarrow> pubkeys_loop opcode vch rest (sols @ [vch1])
      else Some (opcode1, vch1, pc1, sols))"
  by pat_completeness auto
termination by (relation "measure (\<lambda>(o1, v, pc, s). length pc)") (auto dest: GetOp2_shorter)

declare pubkeys_loop.simps [simp del]

text \<open>Reads the next instruction of the script and of the template, past the keys of OP_PUBKEYS.\<close>

definition match_fetch ::
  "byte list \<Rightarrow> byte list \<Rightarrow> byte list list \<Rightarrow>
   ((byte \<times> byte list \<times> byte list) \<times> (byte \<times> byte list \<times> byte list) \<times> byte list list) option" where
  "match_fetch pc1 pc2 sols =
     do { (opcode1, vch1, pc1) \<leftarrow> GetOp2 pc1;
          (opcode2, vch2, pc2) \<leftarrow> GetOp2 pc2;
          if opcode2 = OP_PUBKEYS
          then do { (opcode1, vch1, pc1, sols) \<leftarrow> pubkeys_loop opcode1 vch1 pc1 sols;
                    (opcode2, vch2, pc2) \<leftarrow> GetOp2 pc2;
                    Some ((opcode1, vch1, pc1), (opcode2, vch2, pc2), sols) }
          else Some ((opcode1, vch1, pc1), (opcode2, vch2, pc2), sols) }"

lemma match_fetch_shorter:
  "match_fetch pc1 pc2 sols = Some (i1, (opcode2, vch2, rest), sols') \<Longrightarrow> length rest < length pc2"
  by (auto simp: match_fetch_def split: bind_splits if_splits dest!: GetOp2_shorter)

function match_loop :: "byte list \<Rightarrow> byte list \<Rightarrow> byte list list \<Rightarrow> byte list list option" where
  "match_loop pc1 pc2 sols =
     (if pc1 = [] \<and> pc2 = [] then Some sols
      else case match_fetch pc1 pc2 sols of None \<Rightarrow> None
           | Some ((opcode1, vch1, pc1'), (opcode2, vch2, pc2'), sols) \<Rightarrow>
               if opcode2 = OP_PUBKEY
               then (if length vch1 < 33 \<or> length vch1 > 120 then None else match_loop pc1' pc2' (sols @ [vch1]))
               else if opcode2 = OP_PUBKEYHASH
               then (if length vch1 \<noteq> 20 then None else match_loop pc1' pc2' (sols @ [vch1]))
               else if opcode2 = OP_SMALLINTEGER
               then (case (if opcode1 = OP_0 \<or> (opcode1 \<ge> OP_1 \<and> opcode1 \<le> OP_16) then DecodeOP_N opcode1 else None) of
                       None \<Rightarrow> None | Some n \<Rightarrow> match_loop pc1' pc2' (sols @ [[word_of_int n]]))
               else if opcode1 \<noteq> opcode2 \<or> vch1 \<noteq> vch2 then None
               else match_loop pc1' pc2' sols)"
  by pat_completeness auto
termination by (relation "measure (\<lambda>(pc1, pc2, s). length pc2)") (auto dest: match_fetch_shorter)

declare match_loop.simps [simp del]

fun scan_templates :: "CScript \<Rightarrow> (txnouttype \<times> CScript) list \<Rightarrow> bool \<times> txnouttype \<times> byte list list" where
  "scan_templates script1 [] = (False, TX_NONSTANDARD, [])"
| "scan_templates script1 ((t, script2) # ts) =
     (case match_loop script1 script2 [] of
        None \<Rightarrow> scan_templates script1 ts
      | Some sols \<Rightarrow>
          if t = TX_MULTISIG
          then let m = hd (hd sols); n = hd (last sols)
               in if m < 1 \<or> n < 1 \<or> m > n \<or> length sols - 2 \<noteq> unat n then (False, t, sols) else (True, t, sols)
          else (True, t, sols))"

definition Solver :: "CScript \<Rightarrow> bool \<times> txnouttype \<times> byte list list" where
  "Solver s =
     (if IsPayToScriptHash s then (True, TX_SCRIPTHASH, [take 20 (drop 2 s)]) else scan_templates s mTemplates)"

definition ScriptSigArgsExpected :: "txnouttype \<Rightarrow> byte list list \<Rightarrow> int" where
  "ScriptSigArgsExpected t vSolutions =
     (case t of TX_NONSTANDARD \<Rightarrow> - 1 | TX_PUBKEY \<Rightarrow> 1 | TX_PUBKEYHASH \<Rightarrow> 2
      | TX_MULTISIG \<Rightarrow> (if length vSolutions < 1 \<or> length (hd vSolutions) < 1 then - 1 else uint (hd (hd vSolutions)) + 1)
      | TX_SCRIPTHASH \<Rightarrow> 1)"

definition IsStandard :: "CScript \<Rightarrow> bool" where
  "IsStandard s =
     (case Solver s of (ok, whichType, vSolutions) \<Rightarrow>
        if \<not> ok then False
        else if whichType = TX_MULTISIG \<and>
                (let n = hd (last vSolutions) in n < 1 \<or> n > 3) then False
        else if whichType = TX_MULTISIG \<and>
                (let m = hd (hd vSolutions); n = hd (last vSolutions) in m < 1 \<or> m > n) then False
        else whichType \<noteq> TX_NONSTANDARD)"

definition SetMultisig :: "int \<Rightarrow> byte list list \<Rightarrow> CScript option" where \<comment> \<open>None: EncodeOP_N asserts\<close>
  "SetMultisig nRequired keys =
     do { m \<leftarrow> EncodeOP_N nRequired;
          n \<leftarrow> EncodeOP_N (int (length keys));
          Some (push_opcode (push_opcode (foldl push_vch (push_opcode [] m) keys) n) OP_CHECKMULTISIG) }"

subsection \<open>Keys and key stores\<close>

type_synonym CKey = "byte list \<times> bool"

text \<open>The virtual functions of CKeyStore; GetKey and the like are None when they return false.\<close>

record keystore =
  ks_HaveKey :: "base_uint \<Rightarrow> bool"
  ks_GetKey :: "base_uint \<Rightarrow> CKey option"
  ks_GetPubKey :: "base_uint \<Rightarrow> byte list option"
  ks_HaveCScript :: "base_uint \<Rightarrow> bool"
  ks_GetCScript :: "base_uint \<Rightarrow> CScript option"

definition CPubKey_GetID :: "crypto \<Rightarrow> byte list \<Rightarrow> base_uint" where
  "CPubKey_GetID K vch = Hash160 (env_of K (Tx_SetNull 0) 0 0) vch"

definition CScript_GetID :: "crypto \<Rightarrow> CScript \<Rightarrow> base_uint" where
  "CScript_GetID K s = Hash160 (env_of K (Tx_SetNull 0) 0 0) s"

definition HaveKeys :: "crypto \<Rightarrow> byte list list \<Rightarrow> keystore \<Rightarrow> nat" where
  "HaveKeys K pubkeys keys = length (filter (\<lambda>pubkey. ks_HaveKey keys (CPubKey_GetID K pubkey)) pubkeys)"

fun IsMine_dest :: "keystore \<Rightarrow> CTxDestination \<Rightarrow> bool" where
  "IsMine_dest ks CNoDestination = False"
| "IsMine_dest ks (CKeyID keyID) = ks_HaveKey ks keyID"
| "IsMine_dest ks (CScriptID scriptID) = ks_HaveCScript ks scriptID"

text \<open>IsMine follows pay-to-script-hash scripts into the key store; None would be an endless chain of them.\<close>

definition IsMine_plain :: "crypto \<Rightarrow> keystore \<Rightarrow> txnouttype \<Rightarrow> byte list list \<Rightarrow> bool" where
  "IsMine_plain K ks whichType vSolutions =
     (if whichType = TX_PUBKEY then ks_HaveKey ks (CPubKey_GetID K (vSolutions ! 0))
      else if whichType = TX_PUBKEYHASH then ks_HaveKey ks (uint160_of_vch (vSolutions ! 0))
      else if whichType = TX_MULTISIG
      then let keys = butlast (tl vSolutions) in HaveKeys K keys ks = length keys
      else False)"

partial_function (option) IsMine :: "crypto \<Rightarrow> keystore \<Rightarrow> CScript \<Rightarrow> bool option" where
  "IsMine K ks s =
     (if \<not> fst (Solver s) then Some False
      else if fst (snd (Solver s)) = TX_SCRIPTHASH
      then (if ks_GetCScript ks (uint160_of_vch (snd (snd (Solver s)) ! 0)) = None then Some False
            else IsMine K ks (the (ks_GetCScript ks (uint160_of_vch (snd (snd (Solver s)) ! 0)))))
      else Some (IsMine_plain K ks (fst (snd (Solver s))) (snd (snd (Solver s)))))"

definition ExtractDestination :: "crypto \<Rightarrow> CScript \<Rightarrow> CTxDestination option" where
  "ExtractDestination K s =
     (case Solver s of (ok, whichType, vSolutions) \<Rightarrow>
        if \<not> ok then None
        else if whichType = TX_PUBKEY then Some (CKeyID (CPubKey_GetID K (vSolutions ! 0)))
        else if whichType = TX_PUBKEYHASH then Some (CKeyID (uint160_of_vch (vSolutions ! 0)))
        else if whichType = TX_SCRIPTHASH then Some (CScriptID (uint160_of_vch (vSolutions ! 0)))
        else None)"

definition ExtractDestinations :: "crypto \<Rightarrow> CScript \<Rightarrow> (txnouttype \<times> CTxDestination list \<times> int) option" where
  "ExtractDestinations K s =
     (case Solver s of (ok, typeRet, vSolutions) \<Rightarrow>
        if \<not> ok then None
        else if typeRet = TX_MULTISIG
        then Some (typeRet, map (\<lambda>v. CKeyID (CPubKey_GetID K v)) (butlast (tl vSolutions)), uint (hd (hd vSolutions)))
        else do { address \<leftarrow> ExtractDestination K s; Some (typeRet, [address], 1) })"

subsection \<open>Signing\<close>

text \<open>\<open>sign\<close> is CKey::Sign on a secret and a hash. Every function returns its success and the script built so far.\<close>

type_synonym sign_fun = "CKey \<Rightarrow> base_uint \<Rightarrow> byte list option"

definition Sign1 :: "sign_fun \<Rightarrow> base_uint \<Rightarrow> keystore \<Rightarrow> base_uint \<Rightarrow> u32 \<Rightarrow> CScript \<Rightarrow> bool \<times> CScript" where
  "Sign1 sign address ks hsh nHashType sigRet =
     (case ks_GetKey ks address of None \<Rightarrow> (False, sigRet)
      | Some key \<Rightarrow>
          (case sign key hsh of None \<Rightarrow> (False, sigRet)
           | Some vchSig \<Rightarrow> (True, push_vch sigRet (vchSig @ [ucast nHashType]))))"

fun SignN_loop ::
  "crypto \<Rightarrow> sign_fun \<Rightarrow> keystore \<Rightarrow> base_uint \<Rightarrow> u32 \<Rightarrow> int \<Rightarrow> byte list list \<Rightarrow> int \<Rightarrow> CScript \<Rightarrow> int \<times> CScript" where
  "SignN_loop K sign ks hsh nHashType nRequired [] nSigned sigRet = (nSigned, sigRet)"
| "SignN_loop K sign ks hsh nHashType nRequired (pubkey # pubkeys) nSigned sigRet =
     (if \<not> nSigned < nRequired then (nSigned, sigRet)
      else case Sign1 sign (CPubKey_GetID K pubkey) ks hsh nHashType sigRet of (ok, sigRet) \<Rightarrow>
             SignN_loop K sign ks hsh nHashType nRequired pubkeys (if ok then nSigned + 1 else nSigned) sigRet)"

definition SignN ::
  "crypto \<Rightarrow> sign_fun \<Rightarrow> byte list list \<Rightarrow> keystore \<Rightarrow> base_uint \<Rightarrow> u32 \<Rightarrow> CScript \<Rightarrow> bool \<times> CScript" where
  "SignN K sign multisigdata ks hsh nHashType sigRet =
     (let nRequired = uint (hd (hd multisigdata));
          (nSigned, sigRet) = SignN_loop K sign ks hsh nHashType nRequired (butlast (tl multisigdata)) 0 sigRet
      in (nSigned = nRequired, sigRet))"

definition Solver_sign ::
  "crypto \<Rightarrow> sign_fun \<Rightarrow> keystore \<Rightarrow> CScript \<Rightarrow> base_uint \<Rightarrow> u32 \<Rightarrow> bool \<times> CScript \<times> txnouttype" where
  "Solver_sign K sign ks s hsh nHashType =
     (case Solver s of (ok, whichType, vSolutions) \<Rightarrow>
        if \<not> ok then (False, [], whichType)
        else case whichType of
          TX_NONSTANDARD \<Rightarrow> (False, [], whichType)
        | TX_PUBKEY \<Rightarrow>
            (case Sign1 sign (CPubKey_GetID K (vSolutions ! 0)) ks hsh nHashType [] of (b, sg) \<Rightarrow> (b, sg, whichType))
        | TX_PUBKEYHASH \<Rightarrow>
            let keyID = uint160_of_vch (vSolutions ! 0)
            in (case Sign1 sign keyID ks hsh nHashType [] of (b, sg) \<Rightarrow>
                  if \<not> b then (False, sg, whichType)
                  else (True, push_vch sg (case ks_GetPubKey ks keyID of None \<Rightarrow> [] | Some vch \<Rightarrow> vch), whichType))
        | TX_SCRIPTHASH \<Rightarrow>
            (case ks_GetCScript ks (uint160_of_vch (vSolutions ! 0)) of
               None \<Rightarrow> (False, [], whichType) | Some script \<Rightarrow> (True, script, whichType))
        | TX_MULTISIG \<Rightarrow>
            (case SignN K sign vSolutions ks hsh nHashType (push_opcode [] OP_0) of (b, sg) \<Rightarrow> (b, sg, whichType)))"

definition set_scriptSig :: "CTransaction \<Rightarrow> nat \<Rightarrow> CScript \<Rightarrow> CTransaction" where
  "set_scriptSig tx nIn s = tx\<lparr>vin := (vin tx)[nIn := (vin tx ! nIn)\<lparr>scriptSig := s\<rparr>]\<rparr>"

text \<open>The success and the transaction with its new input; None if the assertion on nIn fails.\<close>

definition SignSignature ::
  "crypto \<Rightarrow> sign_fun \<Rightarrow> keystore \<Rightarrow> CScript \<Rightarrow> CTransaction \<Rightarrow> nat \<Rightarrow> u32 \<Rightarrow> (bool \<times> CTransaction) option" where
  "SignSignature K sign ks fromPubKey txTo nIn nHashType =
     (if \<not> nIn < length (vin txTo) then None
      else let hsh = SignatureHash (cr_sha256 K) fromPubKey txTo nIn nHashType;
               (ok, sg, whichType) = Solver_sign K sign ks fromPubKey hsh nHashType;
               txTo = set_scriptSig txTo nIn sg
           in if \<not> ok then Some (False, txTo)
              else if whichType = TX_SCRIPTHASH
              then let subscript = sg;
                       hash2 = SignatureHash (cr_sha256 K) subscript txTo nIn nHashType;
                       (solved, sg2, subType) = Solver_sign K sign ks subscript hash2 nHashType;
                       sg3 = push_vch sg2 subscript;
                       txTo = set_scriptSig txTo nIn sg3
                   in if \<not> (solved \<and> subType \<noteq> TX_SCRIPTHASH) then Some (False, txTo)
                      else Some (VerifyScript (env_of K txTo nIn 0) sg3 fromPubKey True, txTo)
              else Some (VerifyScript (env_of K txTo nIn 0) sg fromPubKey True, txTo))"

subsection \<open>Combining signatures\<close>

fun find_pubkey :: "(byte list \<Rightarrow> bool) \<Rightarrow> (byte list \<rightharpoonup> byte list) \<Rightarrow> byte list list \<Rightarrow> byte list option" where
  "find_pubkey check sigs [] = None"
| "find_pubkey check sigs (pubkey # pubkeys) =
     (if sigs pubkey \<noteq> None then find_pubkey check sigs pubkeys
      else if check pubkey then Some pubkey else find_pubkey check sigs pubkeys)"

fun assign_sigs ::
  "(byte list \<Rightarrow> byte list \<Rightarrow> bool) \<Rightarrow> byte list list \<Rightarrow> byte list list \<Rightarrow> (byte list \<rightharpoonup> byte list) \<Rightarrow> (byte list \<rightharpoonup> byte list)" where
  "assign_sigs check pubkeys [] sigs = sigs"
| "assign_sigs check pubkeys (sg # allsigs) sigs =
     assign_sigs check pubkeys allsigs
       (case find_pubkey (check sg) sigs pubkeys of None \<Rightarrow> sigs | Some pubkey \<Rightarrow> sigs(pubkey \<mapsto> sg))"

fun merge_sigs :: "(byte list \<rightharpoonup> byte list) \<Rightarrow> nat \<Rightarrow> byte list list \<Rightarrow> nat \<Rightarrow> CScript \<Rightarrow> nat \<times> CScript" where
  "merge_sigs sigs nSigsRequired [] nSigsHave result = (nSigsHave, result)"
| "merge_sigs sigs nSigsRequired (pubkey # pubkeys) nSigsHave result =
     (if \<not> nSigsHave < nSigsRequired then (nSigsHave, result)
      else case sigs pubkey of
             None \<Rightarrow> merge_sigs sigs nSigsRequired pubkeys nSigsHave result
           | Some sg \<Rightarrow> merge_sigs sigs nSigsRequired pubkeys (nSigsHave + 1) (push_vch result sg))"

text \<open>The set of signatures is traversed in its order. \<open>checksig\<close> is CheckSig with hash type 0.\<close>

definition CombineMultisig ::
  "(byte list \<Rightarrow> byte list \<Rightarrow> CScript \<Rightarrow> bool) \<Rightarrow> CScript \<Rightarrow> byte list list \<Rightarrow> byte list list \<Rightarrow> byte list list \<Rightarrow> CScript" where
  "CombineMultisig checksig s vSolutions sigs1 sigs2 =
     (let allsigs = remdups_adj (sort (filter (\<lambda>v. v \<noteq> []) sigs1 @ filter (\<lambda>v. v \<noteq> []) sigs2));
          nSigsRequired = unat (hd (hd vSolutions));
          pubkeys = take (length vSolutions - 2) (tl vSolutions);
          sigs = assign_sigs (\<lambda>sg key. checksig sg key s) pubkeys allsigs Map.empty;
          (nSigsHave, result) = merge_sigs sigs nSigsRequired pubkeys 0 (push_opcode [] OP_0)
      in foldl push_opcode result (replicate (nSigsRequired - nSigsHave) OP_0))"

text \<open>The stacks are lists with the bottom first, as the vectors are.\<close>

function CombineSignatures ::
  "(byte list \<Rightarrow> byte list \<Rightarrow> CScript \<Rightarrow> bool) \<Rightarrow> CScript \<Rightarrow> txnouttype \<Rightarrow> byte list list \<Rightarrow> byte list list \<Rightarrow> byte list list \<Rightarrow> CScript" where
  "CombineSignatures checksig s txType vSolutions sigs1 sigs2 =
     (case txType of
        TX_NONSTANDARD \<Rightarrow> if length sigs1 \<ge> length sigs2 then PushAll sigs1 else PushAll sigs2
      | TX_PUBKEY \<Rightarrow> if sigs1 = [] \<or> hd sigs1 = [] then PushAll sigs2 else PushAll sigs1
      | TX_PUBKEYHASH \<Rightarrow> if sigs1 = [] \<or> hd sigs1 = [] then PushAll sigs2 else PushAll sigs1
      | TX_SCRIPTHASH \<Rightarrow>
          if sigs1 = [] \<or> last sigs1 = [] then PushAll sigs2
          else if sigs2 = [] \<or> last sigs2 = [] then PushAll sigs1
          else let spk = last sigs1
               in push_vch (CombineSignatures checksig spk (fst (snd (Solver spk))) (snd (snd (Solver spk)))
                              (butlast sigs1) (butlast sigs2)) spk
      | TX_MULTISIG \<Rightarrow> CombineMultisig checksig s vSolutions sigs1 sigs2)"
  by pat_completeness auto
termination by (relation "measure (\<lambda>(c, s, t, v, sigs1, sigs2). length sigs1)") auto

declare CombineSignatures.simps [simp del]

subsection \<open>Scripts the code builds are recognised\<close>

lemma GetOp2_op: "opcode > OP_PUSHDATA4 \<Longrightarrow> GetOp2 (opcode # pc) = Some (opcode, [], pc)"
proof -
  assume "opcode > OP_PUSHDATA4"
  then have "\<not> opcode \<le> OP_PUSHDATA4" by simp
  then show ?thesis by (simp add: GetOp2_def)
qed

lemma match_templates [simp]:
  "match_fetch pc1 (OP_PUBKEY # t) sols = map_option (\<lambda>i. (i, (OP_PUBKEY, [], t), sols)) (GetOp2 pc1)"
  "match_fetch pc1 (OP_CHECKSIG # t) sols = map_option (\<lambda>i. (i, (OP_CHECKSIG, [], t), sols)) (GetOp2 pc1)"
  "match_fetch pc1 (OP_DUP # t) sols = map_option (\<lambda>i. (i, (OP_DUP, [], t), sols)) (GetOp2 pc1)"
  "match_fetch pc1 (OP_HASH160 # t) sols = map_option (\<lambda>i. (i, (OP_HASH160, [], t), sols)) (GetOp2 pc1)"
  "match_fetch pc1 (OP_PUBKEYHASH # t) sols = map_option (\<lambda>i. (i, (OP_PUBKEYHASH, [], t), sols)) (GetOp2 pc1)"
  "match_fetch pc1 (OP_EQUALVERIFY # t) sols = map_option (\<lambda>i. (i, (OP_EQUALVERIFY, [], t), sols)) (GetOp2 pc1)"
  "match_fetch pc1 (OP_SMALLINTEGER # t) sols = map_option (\<lambda>i. (i, (OP_SMALLINTEGER, [], t), sols)) (GetOp2 pc1)"
  "match_fetch pc1 (OP_CHECKMULTISIG # t) sols = map_option (\<lambda>i. (i, (OP_CHECKMULTISIG, [], t), sols)) (GetOp2 pc1)"
  by (cases "GetOp2 pc1"; simp add: match_fetch_def GetOp2_op split: prod.splits)+

lemma match_op:
  assumes "opcode > OP_PUSHDATA4" "opcode2 \<in> {OP_CHECKSIG, OP_DUP, OP_HASH160, OP_EQUALVERIFY, OP_CHECKMULTISIG}"
  shows "match_loop (opcode # pc) (opcode2 # t) sols = (if opcode = opcode2 then match_loop pc t sols else None)"
  using assms by (subst match_loop.simps) (auto simp: GetOp2_op)

lemma Solver_keyhash:
  assumes "length h = 5"
  shows "Solver (SetDestination (CKeyID h)) = (True, TX_PUBKEYHASH, [u_bytes h])"
proof -
  let ?s = "SetDestination (CKeyID h)"
  have s: "?s = OP_DUP # OP_HASH160 # push_vch [] (u_bytes h) @ [OP_EQUALVERIFY, OP_CHECKSIG]"
    using SetDestination_vch(1) [OF assms] by (simp del: SetDestination.simps)
  obtain opcode where g: "GetOp2 (push_vch [] (u_bytes h) @ [OP_EQUALVERIFY, OP_CHECKSIG]) =
      Some (opcode, u_bytes h, [OP_EQUALVERIFY, OP_CHECKSIG])"
    using GetOp2_push [of "u_bytes h" "[OP_EQUALVERIFY, OP_CHECKSIG]"] assms by auto
  have "\<not> IsPayToScriptHash ?s" using assms by (simp add: IsPayToScriptHash_def push_opcode_def push_uint_def)
  moreover have "match_loop ?s [OP_PUBKEY, OP_CHECKSIG] [] = None"
    unfolding s by (subst match_loop.simps) (simp add: GetOp2_op)
  moreover have "match_loop ?s [OP_DUP, OP_HASH160, OP_PUBKEYHASH, OP_EQUALVERIFY, OP_CHECKSIG] [] = Some [u_bytes h]"
  proof -
    have "match_loop (push_vch [] (u_bytes h) @ [OP_EQUALVERIFY, OP_CHECKSIG]) [OP_PUBKEYHASH, OP_EQUALVERIFY, OP_CHECKSIG] [] =
        match_loop [OP_EQUALVERIFY, OP_CHECKSIG] [OP_EQUALVERIFY, OP_CHECKSIG] [u_bytes h]"
      using assms by (subst match_loop.simps) (simp add: g)
    then show ?thesis unfolding s by (simp add: match_op match_loop.simps [of "[]"])
  qed
  ultimately show ?thesis by (simp add: Solver_def mTemplates_def push_opcode_def del: SetDestination.simps)
qed

lemma Solver_scripthash:
  assumes "length h = 5"
  shows "Solver (SetDestination (CScriptID h)) = (True, TX_SCRIPTHASH, [u_bytes h])"
  using assms by (simp add: Solver_def IsPayToScriptHash_def push_opcode_def push_uint_def nth_append)

lemma Solver_pubkey:
  assumes "33 \<le> length key" "length key \<le> 120"
  shows "Solver (push_opcode (push_vch [] key) OP_CHECKSIG) = (True, TX_PUBKEY, [key])"
proof -
  let ?s = "push_vch [] key @ [OP_CHECKSIG]"
  obtain opcode where g: "GetOp2 ?s = Some (opcode, key, [OP_CHECKSIG])"
    using GetOp2_push [of key "[OP_CHECKSIG]"] assms by auto
  have ne: "?s \<noteq> []" by simp
  have "\<not> IsPayToScriptHash ?s" using assms length_push_vch(1) [of key] by (simp add: IsPayToScriptHash_def)
  moreover have "match_loop ?s [OP_PUBKEY, OP_CHECKSIG] [] = match_loop [OP_CHECKSIG] [OP_CHECKSIG] [key]"
    using assms by (subst match_loop.simps) (simp add: g)
  ultimately show ?thesis by (simp add: Solver_def mTemplates_def push_opcode_def match_op match_loop.simps [of "[]"])
qed

lemma pubkeys_loop_pushes:
  assumes "\<forall>key\<in>set keys. 33 \<le> length key \<and> length key \<le> 120" "33 \<le> length v" "length v \<le> 120" "opcode > OP_PUSHDATA4"
    "length (PushAll keys @ opcode # pc) < 2 ^ 32"
  shows "pubkeys_loop o1 v (PushAll keys @ opcode # pc) sols = Some (opcode, [], pc, sols @ v # keys)"
  using assms
proof (induction keys arbitrary: o1 v sols)
  case Nil
  then show ?case by (simp add: pubkeys_loop.simps [of _ v] pubkeys_loop.simps [of opcode "[]"] GetOp2_op)
next
  case (Cons key keys)
  have l: "length key + length (PushAll keys @ opcode # pc) < 2 ^ 32" using Cons.prems(5) length_push_vch(1) [of key] by simp
  obtain opk where g: "GetOp2 (push_vch [] key @ PushAll keys @ opcode # pc) = Some (opk, key, PushAll keys @ opcode # pc)"
    using GetOp2_push [OF l] by blast
  then show ?case using Cons by (subst pubkeys_loop.simps) (simp add: g)
qed

lemma EncodeOP_N_op:
  assumes "1 \<le> n" "n \<le> 16"
  shows "\<exists>opcode. EncodeOP_N n = Some opcode \<and> opcode \<ge> OP_1 \<and> opcode \<le> OP_16 \<and> DecodeOP_N opcode = Some n"
proof -
  define opcode where "opcode = (word_of_int (80 + n) :: byte)"
  have u: "uint opcode = 80 + n" unfolding opcode_def uint_word_of_int_eq using assms by (simp add: take_bit_int_eq_self)
  have "uint OP_1 + n - 1 = 80 + n" by simp
  then have "EncodeOP_N n = Some opcode" unfolding EncodeOP_N_def opcode_def using assms by auto
  moreover have "opcode \<ge> OP_1" "opcode \<le> OP_16" unfolding word_le_def u using assms by simp_all
  moreover from this have "DecodeOP_N opcode = Some n" using u by (auto simp: DecodeOP_N_def)
  ultimately show ?thesis by blast
qed

lemma OP_N_less: "opcode \<ge> OP_1 \<Longrightarrow> opcode > OP_PUSHDATA4"
  by (auto simp: word_le_def word_less_def)

lemma match_small:
  assumes "opcode \<ge> OP_1" "opcode \<le> OP_16" "DecodeOP_N opcode = Some n"
  shows "match_loop (opcode # pc) (OP_SMALLINTEGER # t) sols = match_loop pc t (sols @ [[word_of_int n]])"
  using assms OP_N_less [OF assms(1)] by (subst match_loop.simps) (simp add: GetOp2_op)

lemma foldl_push_vch: "foldl push_vch s vs = s @ PushAll vs"
proof (induction vs arbitrary: s)
  case (Cons v vs)
  show ?case using Cons [of "push_vch s v"] push_vch_append [of s v] by simp
qed simp

lemma Solver_multisig:
  assumes "1 \<le> m" "m \<le> int (length keys)" "length keys \<le> 16" "\<forall>key\<in>set keys. 33 \<le> length key \<and> length key \<le> 120"
  shows "\<exists>s. SetMultisig m keys = Some s \<and>
    Solver s = (True, TX_MULTISIG, [word_of_int m] # keys @ [[word_of_nat (length keys)]])"
proof -
  obtain om where om: "EncodeOP_N m = Some om" "om \<ge> OP_1" "om \<le> OP_16" "DecodeOP_N om = Some m"
    using EncodeOP_N_op [of m] assms by auto
  obtain on where on: "EncodeOP_N (int (length keys)) = Some on" "on \<ge> OP_1" "on \<le> OP_16" "DecodeOP_N on = Some (int (length keys))"
    using EncodeOP_N_op [of "int (length keys)"] assms by auto
  obtain key keys' where k: "keys = key # keys'" using assms(1,2) by (cases keys) auto
  let ?s = "om # PushAll keys @ [on, OP_CHECKMULTISIG]"
  have sm: "SetMultisig m keys = Some ?s" using om on by (simp add: SetMultisig_def foldl_push_vch push_opcode_def)
  note less = OP_N_less [OF om(2)] OP_N_less [OF on(2)]
  have len: "length (PushAll vs) \<le> 125 * length vs" if "\<forall>key\<in>set vs. length key \<le> 120" for vs
    using that
  proof (induction vs)
    case (Cons v vs)
    then show ?case using length_push_vch(2) [of v] by simp
  qed simp
  have lk: "length (PushAll keys) \<le> 125 * 16" using len [of keys] assms(3,4) by auto
  have g: "\<exists>o1. GetOp2 (push_vch [] key @ PushAll keys' @ [on, OP_CHECKMULTISIG]) = Some (o1, key, PushAll keys' @ [on, OP_CHECKMULTISIG])"
    using GetOp2_push [of key "PushAll keys' @ [on, OP_CHECKMULTISIG]"] lk k length_push_vch(1) [of key] by fastforce
  have ne: "om \<noteq> OP_DUP" "om \<noteq> OP_HASH160" using om(3) by auto
  have p2sh: "\<not> IsPayToScriptHash ?s" using ne by (simp add: IsPayToScriptHash_def)
  have t1: "match_loop ?s [OP_PUBKEY, OP_CHECKSIG] [] = None"
    by (subst match_loop.simps) (simp add: GetOp2_op less)
  have t2: "match_loop ?s [OP_DUP, OP_HASH160, OP_PUBKEYHASH, OP_EQUALVERIFY, OP_CHECKSIG] [] = None"
    using ne less by (simp add: match_op)
  have fetch: "match_fetch (PushAll keys @ [on, OP_CHECKMULTISIG]) [OP_PUBKEYS, OP_SMALLINTEGER, OP_CHECKMULTISIG] sols =
      Some ((on, [], [OP_CHECKMULTISIG]), (OP_SMALLINTEGER, [], [OP_CHECKMULTISIG]), sols @ keys)" for sols
  proof -
    obtain o1 where o1: "GetOp2 (push_vch [] key @ PushAll keys' @ [on, OP_CHECKMULTISIG]) = Some (o1, key, PushAll keys' @ [on, OP_CHECKMULTISIG])"
      using g by blast
    have "pubkeys_loop o1 key (PushAll keys' @ on # [OP_CHECKMULTISIG]) sols = Some (on, [], [OP_CHECKMULTISIG], sols @ key # keys')"
      using assms(4) k lk less by (intro pubkeys_loop_pushes) auto
    then show ?thesis by (simp add: match_fetch_def k o1 GetOp2_op)
  qed
  have t3: "match_loop ?s [OP_SMALLINTEGER, OP_PUBKEYS, OP_SMALLINTEGER, OP_CHECKMULTISIG] [] =
      Some ([word_of_int m] # keys @ [[word_of_nat (length keys)]])"
  proof -
    have "match_loop (PushAll keys @ [on, OP_CHECKMULTISIG]) [OP_PUBKEYS, OP_SMALLINTEGER, OP_CHECKMULTISIG] sols =
        match_loop [OP_CHECKMULTISIG] [OP_CHECKMULTISIG] (sols @ keys @ [[word_of_nat (length keys)]])" for sols
      using on by (subst match_loop.simps) (simp add: fetch)
    then show ?thesis using om by (simp add: match_small match_op match_loop.simps [of "[]"])
  qed
  have um: "uint (word_of_int m :: byte) = m" "uint (word_of_nat (length keys) :: byte) = int (length keys)"
    using assms by (simp_all add: uint_word_of_int_eq take_bit_int_eq_self unsigned_of_nat take_bit_nat_eq_self)
  have "\<not> (word_of_int m :: byte) < 1" "\<not> (word_of_nat (length keys) :: byte) < 1" "\<not> (word_of_int m :: byte) > word_of_nat (length keys)"
    "unat (word_of_nat (length keys) :: byte) = length keys"
    using um assms k unat_of_nat [where 'a = 8, of "length keys"] by (simp_all add: word_less_def)
  then have "Solver ?s = (True, TX_MULTISIG, [word_of_int m] # keys @ [[word_of_nat (length keys)]])"
    using p2sh t1 t2 t3 by (simp add: Solver_def mTemplates_def push_opcode_def)
  then show ?thesis using sm by blast
qed

lemma GetOp2_suffix: "GetOp2 pc = Some (opcode, vch, rest) \<Longrightarrow> take (length pc - length rest) pc @ rest = pc"
proof -
  assume g: "GetOp2 pc = Some (opcode, vch, rest)"
  have "\<exists>k. rest = drop k pc"
    using g by (auto simp: GetOp2_def simp flip: drop_Suc split: list.splits if_splits bind_splits) (metis drop_Suc_Cons drop0 drop_drop)+
  then obtain k where "rest = drop k pc" by blast
  then show ?thesis by (cases "k \<le> length pc") auto
qed

text \<open>C39. The template matcher inverts the script builders: the destination of a script built for a key or
  script id is that id, and the destinations of a multisignature script are the ids of its keys with the
  required number; such a script is standard exactly if it has at most three keys.\<close>

theorem standard_scripts_roundtrip:
  assumes "length h = 5" "1 \<le> m" "m \<le> int (length keys)" "length keys \<le> 16"
    "\<forall>key\<in>set keys. 33 \<le> length key \<and> length key \<le> 120"
  shows "ExtractDestination K (SetDestination (CKeyID h)) = Some (CKeyID h) \<and>
    ExtractDestination K (SetDestination (CScriptID h)) = Some (CScriptID h) \<and>
    (\<exists>s. SetMultisig m keys = Some s \<and>
       ExtractDestinations K s = Some (TX_MULTISIG, map (\<lambda>key. CKeyID (CPubKey_GetID K key)) keys, m) \<and>
       (IsStandard s \<longleftrightarrow> length keys \<le> 3))"
proof -
  have u: "uint160_of_vch (u_bytes h) = h" using assms(1) by (simp add: uint160_of_vch_def u_of_bytes_bytes)
  have ne: "keys \<noteq> []" using assms(2,3) by auto
  obtain s where s: "SetMultisig m keys = Some s" "Solver s = (True, TX_MULTISIG, [word_of_int m] # keys @ [[word_of_nat (length keys)]])"
    using Solver_multisig [OF assms(2-5)] by blast
  have um: "uint (word_of_int m :: byte) = m" "uint (word_of_nat (length keys) :: byte) = int (length keys)"
    using assms by (simp_all add: uint_word_of_int_eq take_bit_int_eq_self unsigned_of_nat take_bit_nat_eq_self)
  have "ExtractDestinations K s = Some (TX_MULTISIG, map (\<lambda>key. CKeyID (CPubKey_GetID K key)) keys, m)"
    using s(2) um ne by (simp add: ExtractDestinations_def butlast_append)
  moreover have "IsStandard s \<longleftrightarrow> length keys \<le> 3"
    using s(2) um ne assms(2-4) by (simp add: IsStandard_def word_less_def Let_def)
  ultimately show ?thesis
    using s(1) Solver_keyhash [OF assms(1)] Solver_scripthash [OF assms(1)] u
    by (simp add: ExtractDestination_def del: SetDestination.simps)
qed

definition toy_crypto :: crypto where
  "toy_crypto = \<lparr> cr_ripemd160 = (\<lambda>bs. take 20 (bs @ replicate 20 0)), cr_sha1 = (\<lambda>bs. take 20 (bs @ replicate 20 0)),
     cr_sha256 = (\<lambda>bs. take 32 (bs @ replicate 32 0)), cr_verify = (\<lambda>key hsh sg. tl sg = key) \<rparr>"

theorem standard_scripts_roundtrip_witness:
  "\<exists>s. SetMultisig 2 [replicate 33 2, replicate 33 3, replicate 65 4] = Some s \<and> IsStandard s"
  using standard_scripts_roundtrip [of "[1, 2, 3, 4, 5]" 2 "[replicate 33 2, replicate 33 3, replicate 65 4]" toy_crypto] by auto

subsection \<open>Signing\<close>

text \<open>FindAndDelete leaves a script alone that does not hold the bytes at any of its instructions.\<close>

lemma FindAndDelete_loop_skip:
  assumes "GetOp2 pc = Some (opcode, vch, rest)" "take (length b) pc \<noteq> b"
  shows "FindAndDelete_loop b kept pc n = FindAndDelete_loop b (kept @ take (length pc - length rest) pc) rest n"
proof -
  have "strip_prefix b pc n = (pc, n)" using assms(2) by (subst strip_prefix.simps) simp
  then show ?thesis using assms(1) by (subst FindAndDelete_loop.simps) simp
qed

lemma FindAndDelete_loop_ops:
  assumes "\<forall>opcode\<in>set ops. opcode > OP_PUSHDATA4 \<and> opcode \<noteq> hd b" "b \<noteq> []"
  shows "FindAndDelete_loop b kept (ops @ pc) n = FindAndDelete_loop b (kept @ ops) pc n"
  using assms(1)
proof (induction ops arbitrary: kept)
  case (Cons opcode ops)
  have "GetOp2 (opcode # ops @ pc) = Some (opcode, [], ops @ pc)" using Cons.prems by (simp add: GetOp2_op)
  moreover have "take (length b) (opcode # ops @ pc) \<noteq> b" using Cons.prems assms(2) by (cases b) auto
  ultimately show ?case using Cons FindAndDelete_loop_skip [of "opcode # ops @ pc" opcode "[]" "ops @ pc" b kept n] by simp
qed simp

lemma FindAndDelete_loop_Nil: "b \<noteq> [] \<Longrightarrow> FindAndDelete_loop b kept [] n = (n, kept)"
  by (subst FindAndDelete_loop.simps, subst strip_prefix.simps) (simp add: GetOp2_def)

lemma FindAndDelete_miss:
  assumes "0 < length v" "length v < 0x4c" "0 < length d" "length d < 0x4c" "v \<noteq> d"
    and "\<forall>opcode\<in>set (ops @ ops'). opcode > OP_PUSHDATA4" "length ops' < 1000"
  shows "FindAndDelete (ops @ push_vch [] d @ ops') (push_vch [] v) = (0, ops @ push_vch [] d @ ops')"
proof -
  let ?b = "push_vch [] v"
  have b: "?b = word_of_nat (length v) # v" "push_vch [] d = word_of_nat (length d) # d" using assms by (simp_all add: push_vch_def)
  have l: "(word_of_nat (length v) :: byte) \<le> OP_PUSHDATA4" using assms(2) by (simp add: word_le_nat_alt unat_of_nat)
  have neq: "\<forall>opcode\<in>set ops. opcode > OP_PUSHDATA4 \<and> opcode \<noteq> hd ?b" "\<forall>opcode\<in>set ops'. opcode > OP_PUSHDATA4 \<and> opcode \<noteq> hd ?b"
    using assms(6) l unfolding b list.sel by (auto dest: leD)
  obtain opcode where g: "GetOp2 (push_vch [] d @ ops') = Some (opcode, d, ops')"
    using GetOp2_push [of d ops'] assms(4,7) by auto
  have "take (length ?b) (push_vch [] d @ ops') \<noteq> ?b"
  proof
    assume t: "take (length ?b) (push_vch [] d @ ops') = ?b"
    then have "(word_of_nat (length d) :: byte) = word_of_nat (length v)" by (simp add: b)
    then have "unat (word_of_nat (length d) :: byte) = unat (word_of_nat (length v) :: byte)" by (simp only:)
    then have "length d = length v" using assms(2,4) by (simp add: unat_of_nat)
    then show False using t assms(5) by (simp add: b)
  qed
  from FindAndDelete_loop_skip [OF g this]
  have "FindAndDelete_loop ?b ops (push_vch [] d @ ops') 0 = FindAndDelete_loop ?b (ops @ push_vch [] d) ops' 0" by simp
  then have "FindAndDelete_loop ?b [] (ops @ push_vch [] d @ ops') 0 = (0, ops @ push_vch [] d @ ops')"
    using FindAndDelete_loop_ops [OF neq(1), of "[]" "push_vch [] d @ ops'" 0] FindAndDelete_loop_ops [OF neq(2), of "ops @ push_vch [] d" "[]" 0]
      FindAndDelete_loop_Nil [of ?b] by (simp add: b)
  then show ?thesis by (simp add: FindAndDelete_def b)
qed


lemma SignatureHash_scriptSig:
  "nIn < length (vin tx) \<Longrightarrow>
   SignatureHash sha code (set_scriptSig tx nIn s) nIn nHashType = SignatureHash sha code tx nIn nHashType"
proof -
  assume n: "nIn < length (vin tx)"
  have blank: "map (\<lambda>i. i\<lparr>scriptSig := []\<rparr>) ((vin tx)[nIn := (vin tx ! nIn)\<lparr>scriptSig := s\<rparr>]) = map (\<lambda>i. i\<lparr>scriptSig := []\<rparr>) (vin tx)"
    using n by (simp add: map_update list_update_same_conv)
  have "signature_tx code (set_scriptSig tx nIn s) nIn nHashType = signature_tx code tx nIn nHashType"
    using n by (simp add: signature_tx_def set_scriptSig_def blank Let_def)
  then show ?thesis by (simp add: SignatureHash_def)
qed

lemma checksig_signed:
  assumes "nIn < length (vin tx)" "cr_verify K key (SignatureHash (cr_sha256 K) code tx nIn (ucast b)) sg" "nHashType = 0"
  shows "se_checksig (env_of K (set_scriptSig tx nIn s) nIn nHashType) (sg @ [b]) key code"
  using assms SignatureHash_scriptSig [OF assms(1)]
  by (simp add: env_of_def CheckSig_def Let_def SignatureCache_Get_def)

lemma Hash160_GetID: "Hash160 (env_of K tx nIn nHashType) vch = CPubKey_GetID K vch"
  by (simp add: CPubKey_GetID_def Hash160_def env_of_def)

text \<open>Pay to public key.\<close>

lemma p2pk_verify:
  assumes "length sg \<le> 520" "length key \<le> 120"
  shows "VerifyScript E (push_vch [] sg) (push_opcode (push_vch [] key) OP_CHECKSIG) b \<longleftrightarrow>
    se_checksig E sg key (snd (FindAndDelete (push_opcode (push_vch [] key) OP_CHECKSIG) (push_vch [] sg)))"
proof -
  let ?code = "push_opcode (push_vch [] key) OP_CHECKSIG"
  let ?s = "\<lparr>stack = [sg], altstack = [], vfExec = [], nOpCount = 0, codehash = ?code\<rparr>"
  let ?v = "se_checksig E sg key (snd (FindAndDelete ?code (push_vch [] sg)))"
  have "length (PushAll [sg]) \<le> 10000" using assms length_push_vch(2) [of sg] by simp
  then have e: "EvalScript E [] (push_vch [] sg) = Some [sg]" using pushes_sig [of "[sg]" "[]" E] assms by simp
  have check: "eval_step E OP_CHECKSIG [] [] (?s\<lparr>stack := [key, sg]\<rparr>) = Some (?s\<lparr>stack := [bool_vch ?v], nOpCount := 1\<rparr>)"
    by (simp add: eval_step_def disabled_def eval_op_def on_stack_def eval_checksig_def Let_def)
  have "EvalScript_loop E ?code ?s = EvalScript_loop E [OP_CHECKSIG] (?s\<lparr>stack := [key, sg]\<rparr>)"
    unfolding push_opcode_def using assms by (subst EvalScript_loop_push) simp_all
  also have "\<dots> = Some (?s\<lparr>stack := [bool_vch ?v], nOpCount := 1\<rparr>)"
    by (subst EvalScript_loop_op [OF _ check]) (simp_all add: EvalScript_loop.simps)
  finally have "EvalScript E [sg] ?code = Some [bool_vch ?v]"
    using assms length_push_vch(2) [of key] by (simp add: EvalScript_def push_opcode_def)
  moreover have "\<not> IsPayToScriptHash ?code"
  proof
    assume a: "IsPayToScriptHash ?code"
    then have "?code ! 22 = OP_EQUAL" "length ?code = 23" by (auto simp: IsPayToScriptHash_def)
    then show False by (simp add: push_opcode_def nth_append split: if_splits)
  qed
  ultimately show ?thesis using e by (simp add: VerifyScript_def)
qed

text \<open>What signing with a key needs: the store yields the key and its public key, which has a format of the key library,
  and every signature of the key is in DER format and verifies under the public key.\<close>

definition pubkey_format :: "byte list \<Rightarrow> bool" where
  "pubkey_format pk \<longleftrightarrow> 33 \<le> length pk \<and> length pk \<le> 65 \<and> hd pk \<in> {2, 3, 4}"

definition signature_format :: "byte list \<Rightarrow> bool" where \<comment> \<open>a DER sequence of at most 72 bytes\<close>
  "signature_format sg \<longleftrightarrow> sg \<noteq> [] \<and> hd sg = 0x30 \<and> length sg \<le> 72"

definition signs :: "crypto \<Rightarrow> sign_fun \<Rightarrow> keystore \<Rightarrow> CKey \<Rightarrow> byte list \<Rightarrow> bool" where
  "signs K sign ks key pk \<longleftrightarrow>
     ks_GetKey ks (CPubKey_GetID K pk) = Some key \<and> ks_GetPubKey ks (CPubKey_GetID K pk) = Some pk \<and>
     pubkey_format pk \<and> length (CPubKey_GetID K pk) = 5 \<and>
     (\<forall>hsh. \<exists>sg. sign key hsh = Some sg \<and> cr_verify K pk hsh sg \<and> signature_format sg)"

lemma sign_keyhash:
  assumes "signs K sign ks key pk" "nIn < length (vin tx)"
  shows "(\<exists>tx'. SignSignature K sign ks (SetDestination (CKeyID (CPubKey_GetID K pk))) tx nIn (ucast (b :: byte)) = Some (True, tx')) \<or>
    (\<exists>sg. sign key (SignatureHash (cr_sha256 K) (SetDestination (CKeyID (CPubKey_GetID K pk))) tx nIn (ucast b)) = Some sg \<and>
       sg @ [b] = u_bytes (CPubKey_GetID K pk))"
proof -
  let ?h = "CPubKey_GetID K pk"
  let ?code = "SetDestination (CKeyID ?h)"
  have bb: "ucast (ucast b :: u32) = b" using unat_lt_2p [of b] by (intro ucast_ucast_id) simp
  let ?hsh = "SignatureHash (cr_sha256 K) ?code tx nIn (ucast b)"
  obtain sg where sg: "sign key ?hsh = Some sg" "cr_verify K pk ?hsh sg" "length sg \<le> 72"
    using assms(1) by (auto simp: signs_def signature_format_def)
  have len: "length ?h = 5" "33 \<le> length pk" "length pk \<le> 65" using assms(1) by (auto simp: signs_def pubkey_format_def)
  have u: "uint160_of_vch (u_bytes ?h) = ?h" using len(1) by (simp add: uint160_of_vch_def u_of_bytes_bytes)
  let ?sig = "push_vch (push_vch [] (sg @ [b])) pk"
  have sol: "Solver_sign K sign ks ?code ?hsh (ucast b) = (True, ?sig, TX_PUBKEYHASH)"
    using assms(1) sg(1) u Solver_keyhash [OF len(1)]
    by (simp add: Solver_sign_def Sign1_def signs_def Let_def bb del: SetDestination.simps)
  show ?thesis
  proof (cases "sg @ [b] = u_bytes ?h")
    case False
    have "?code = [OP_DUP, OP_HASH160] @ push_vch [] (u_bytes ?h) @ [OP_EQUALVERIFY, OP_CHECKSIG]"
      using SetDestination_vch(1) [OF len(1)] by (simp del: SetDestination.simps)
    then have f: "FindAndDelete ?code (push_vch [] (sg @ [b])) = (0, ?code)"
      using FindAndDelete_miss [of "sg @ [b]" "u_bytes ?h" "[OP_DUP, OP_HASH160]" "[OP_EQUALVERIFY, OP_CHECKSIG]"] sg(3) len(1) False
      by (simp add: length_u_bytes del: SetDestination.simps)
    have "VerifyScript (env_of K (set_scriptSig tx nIn ?sig) nIn 0) ?sig ?code True"
      using p2pkh_verify [of ?h "sg @ [b]" pk] len sg f checksig_signed [OF assms(2) sg(2) refl]
      by (simp add: Hash160_GetID del: SetDestination.simps)
    then show ?thesis using assms(2) sol by (simp add: SignSignature_def del: SetDestination.simps)
  qed (use sg(1) in blast)
qed

lemma sign_pubkey:
  assumes "signs K sign ks key pk" "nIn < length (vin tx)"
  shows "\<exists>tx'. SignSignature K sign ks (push_opcode (push_vch [] pk) OP_CHECKSIG) tx nIn (ucast (b :: byte)) = Some (True, tx')"
proof -
  let ?code = "push_opcode (push_vch [] pk) OP_CHECKSIG"
  have bb: "ucast (ucast b :: u32) = b" using unat_lt_2p [of b] by (intro ucast_ucast_id) simp
  let ?hsh = "SignatureHash (cr_sha256 K) ?code tx nIn (ucast b)"
  obtain sg where sg: "sign key ?hsh = Some sg" "cr_verify K pk ?hsh sg" "length sg \<le> 72" "sg \<noteq> []" "hd sg = 0x30"
    using assms(1) by (auto simp: signs_def signature_format_def)
  have len: "33 \<le> length pk" "length pk \<le> 65" "hd pk \<in> {2, 3, 4}" using assms(1) by (auto simp: signs_def pubkey_format_def)
  let ?sig = "push_vch [] (sg @ [b])"
  have sol: "Solver_sign K sign ks ?code ?hsh (ucast b) = (True, ?sig, TX_PUBKEY)"
    using assms(1) sg(1) Solver_pubkey [of pk] len by (simp add: Solver_sign_def Sign1_def signs_def bb)
  have "hd (sg @ [b]) \<noteq> hd pk" using sg(4,5) len(3) by auto
  then have "sg @ [b] \<noteq> pk" "pk \<noteq> []" using len(1) by auto
  then have f: "FindAndDelete ?code ?sig = (0, ?code)"
    using FindAndDelete_miss [of "sg @ [b]" pk "[]" "[OP_CHECKSIG]"] sg(3) len(1,2) by (auto simp: push_opcode_def)
  have "VerifyScript (env_of K (set_scriptSig tx nIn ?sig) nIn 0) ?sig ?code True"
    using p2pk_verify [of "sg @ [b]" pk] len sg f checksig_signed [OF assms(2) sg(2) refl] by simp
  then show ?thesis using assms(2) sol by (simp add: SignSignature_def)
qed

end
