(* ===== verification/CheckBlock.thy ===== *)
theory CheckBlock
  imports Consensus Standard
begin

text \<open>
  The checks of a block and of a coinstake before the chain is touched, from src/main.cpp and
  src/kernel.cpp: CheckBlockSignature, CheckBlock, SignBlock and CheckProofOfStake. A failing check
  is an error value: a plain false, a false with a misbehaviour score, an exception, a failed assertion,
  or an undefined step (a walk along the block tree that does not end, an access out of range).
\<close>

datatype reject = Refused | DoS int | Thrown | Asserted | Stuck

definition nMaxClockDrift :: int where "nMaxClockDrift = 90 * 60"
definition CLIENT_VERSION :: u32 where "CLIENT_VERSION = 1000000 * 1 + 10000 * 2 + 100 * 3 + 1 * 0"
definition MAX_BLOCK_SIGOPS :: u32 where "MAX_BLOCK_SIGOPS = MAX_BLOCK_SIZE div 50"

text \<open>
  The environment of the block checks: the key library and the hash functions, the hash of a block header,
  the target limits, and the hash of the genesis block of the network.
\<close>

record block_env =
  be_crypto :: crypto
  be_hash9 :: "byte list \<Rightarrow> base_uint"
  be_limits :: limits
  be_genesis :: base_uint

abbreviation be_sha :: "block_env \<Rightarrow> sha256" where "be_sha N \<equiv> cr_sha256 (be_crypto N)"

subsection \<open>Signature operations\<close>

definition GetLegacySigOpCount :: "CTransaction \<Rightarrow> u32" where
  "GetLegacySigOpCount tx =
     foldl (\<lambda>n txout. n + GetSigOpCount False (scriptPubKey txout))
       (foldl (\<lambda>n txin. n + GetSigOpCount False (scriptSig txin)) 0 (vin tx)) (vout tx)"

subsection \<open>Block signatures\<close>

text \<open>The loop over the outputs of the coinbase: the result, once there is one.\<close>

fun signature_loop :: "crypto \<Rightarrow> base_uint \<Rightarrow> byte list \<Rightarrow> CTxOut list \<Rightarrow> bool" where
  "signature_loop K hsh blockSig [] = False"
| "signature_loop K hsh blockSig (txout # txouts) =
     (case Solver (scriptPubKey txout) of (ok, whichType, vSolutions) \<Rightarrow>
        if \<not> ok then False
        else if whichType = TX_PUBKEY \<and> blockSig \<noteq> [] \<and> cr_verify K (vSolutions ! 0) hsh blockSig then True
        else signature_loop K hsh blockSig txouts)"

definition CheckBlockSignature :: "block_env \<Rightarrow> CBlock \<Rightarrow> bool" where
  "CheckBlockSignature N b =
     (let hsh = Block_GetHash (be_hash9 N) b
      in if u_eq hsh (be_genesis N) then vchBlockSig b = []
         else if Block_IsProofOfStake b
         then case Solver (scriptPubKey (vout (vtx b ! 1) ! 1)) of (ok, whichType, vSolutions) \<Rightarrow>
                if \<not> ok then False
                else if whichType = TX_PUBKEY
                then vchBlockSig b \<noteq> [] \<and> cr_verify (be_crypto N) (vSolutions ! 0) hsh (vchBlockSig b)
                else False
         else signature_loop (be_crypto N) hsh (vchBlockSig b) (vout (vtx b ! 0)))"

text \<open>
  SignBlock with its store; \<open>pub\<close> is the public key of a key. Sign clears the signature when it fails. The
  success and the block signature.
\<close>

fun sign_block_loop ::
  "crypto \<Rightarrow> (CKey \<Rightarrow> byte list) \<Rightarrow> sign_fun \<Rightarrow> keystore \<Rightarrow> base_uint \<Rightarrow> CTxOut list \<Rightarrow> byte list \<Rightarrow> bool \<times> byte list" where
  "sign_block_loop K pub sign ks hsh [] blockSig = (False, blockSig)"
| "sign_block_loop K pub sign ks hsh (txout # txouts) blockSig =
     (case Solver (scriptPubKey txout) of (ok, whichType, vSolutions) \<Rightarrow>
        if \<not> ok then sign_block_loop K pub sign ks hsh txouts blockSig
        else if whichType = TX_PUBKEY
        then (case ks_GetKey ks (CPubKey_GetID K (vSolutions ! 0)) of
                None \<Rightarrow> sign_block_loop K pub sign ks hsh txouts blockSig
              | Some key \<Rightarrow>
                  if pub key \<noteq> vSolutions ! 0 then sign_block_loop K pub sign ks hsh txouts blockSig
                  else case sign key hsh of None \<Rightarrow> sign_block_loop K pub sign ks hsh txouts [] | Some sg \<Rightarrow> (True, sg))
        else sign_block_loop K pub sign ks hsh txouts blockSig)"

definition SignBlock ::
  "block_env \<Rightarrow> (CKey \<Rightarrow> byte list) \<Rightarrow> sign_fun \<Rightarrow> keystore \<Rightarrow> CBlock \<Rightarrow> bool \<times> CBlock" where
  "SignBlock N pub sign ks b =
     (let hsh = Block_GetHash (be_hash9 N) b; K = be_crypto N
      in if \<not> Block_IsProofOfStake b
         then (case sign_block_loop K pub sign ks hsh (vout (vtx b ! 0)) (vchBlockSig b) of
                 (ok, sg) \<Rightarrow> (ok, b\<lparr>vchBlockSig := sg\<rparr>))
         else case Solver (scriptPubKey (vout (vtx b ! 1) ! 1)) of (ok, whichType, vSolutions) \<Rightarrow>
                if \<not> ok then (False, b)
                else if whichType = TX_PUBKEY
                then (case ks_GetKey ks (CPubKey_GetID K (vSolutions ! 0)) of
                        None \<Rightarrow> (False, b)
                      | Some key \<Rightarrow>
                          if pub key \<noteq> vSolutions ! 0 then (False, b)
                          else case sign key hsh of
                                 None \<Rightarrow> (False, b\<lparr>vchBlockSig := []\<rparr>)
                               | Some sg \<Rightarrow> (True, b\<lparr>vchBlockSig := sg\<rparr>))
                else (False, b))"

subsection \<open>The context-free checks of a block\<close>

definition GetSerializeSize_CBlock :: "u32 \<Rightarrow> CBlock \<Rightarrow> u32" where
  "GetSerializeSize_CBlock nType b =
     (let hdr = (nType AND (SER_GETHASH OR SER_BLOCKHEADERONLY) \<noteq> 0); nVersion = b_nVersion b
      in GetSerializeSize_uint (b_nVersion b) + 32 + 32 + GetSerializeSize_uint (b_nTime b) +
         GetSerializeSize_uint (b_nBits b) + GetSerializeSize_uint (b_nNonce b) +
         (if \<not> hdr then GetSerializeSize_vector (GetSerializeSize_CTransaction nType nVersion) (vtx b) +
                        GetSerializeSize_vch (vchBlockSig b) else 0) +
         (if 5 \<le>s nVersion
          then (if \<not> hdr then GetSerializeSize_uint (nBitsMSHA b) + GetSerializeSize_string (msha3 b) +
                             GetSerializeSize_string (b_message b) else 0)
          else 0))"

fun CheckBlock_txs :: "int \<Rightarrow> CTransaction list \<Rightarrow> reject + unit" where
  "CheckBlock_txs blockTime [] = Inr ()"
| "CheckBlock_txs blockTime (tx # txs) =
     (case CheckTransaction tx of (ok, tx') \<Rightarrow>
        if \<not> ok then Inl (DoS (tx_nDoS tx'))
        else if blockTime < uint (tx_nTime tx) then Inl (DoS 50)
        else CheckBlock_txs blockTime txs)"

definition block_sigops :: "CBlock \<Rightarrow> u32" where
  "block_sigops b = foldl (\<lambda>n tx. n + GetLegacySigOpCount tx) 0 (vtx b)"

definition CheckBlock :: "block_env \<Rightarrow> int \<Rightarrow> bool \<Rightarrow> bool \<Rightarrow> CBlock \<Rightarrow> reject + unit" where \<comment> \<open>now is GetAdjustedTime()\<close>
  "CheckBlock N now fCheckPOW fCheckMerkleRoot b =
     (let blockTime = uint (b_nTime b)
      in if vtx b = [] \<or> length (vtx b) > unat MAX_BLOCK_SIZE \<or> GetSerializeSize_CBlock SER_NETWORK b > MAX_BLOCK_SIZE
         then Inl (DoS 100)
         else if fCheckPOW \<and> Block_IsProofOfWork b \<and> \<not> CheckProofOfWork (be_limits N) (Block_GetHash (be_hash9 N) b) (b_nBits b)
         then Inl (DoS 50)
         else if blockTime > now + nMaxClockDrift then Inl Refused
         else if \<not> Tx_IsCoinBase (vtx b ! 0) then Inl (DoS 100)
         else if list_ex Tx_IsCoinBase (drop 1 (vtx b)) then Inl (DoS 100)
         else if list_ex Tx_IsCoinStake (drop 2 (vtx b)) then Inl (DoS 100)
         else if Block_IsProofOfStake b \<and> (length (vout (vtx b ! 0)) \<noteq> 1 \<or> \<not> TxOut_IsEmpty (vout (vtx b ! 0) ! 0)) then Inl Refused
         else if blockTime > uint (tx_nTime (vtx b ! 0)) + nMaxClockDrift then Inl (DoS 50)
         else if Block_IsProofOfStake b \<and> \<not> CheckCoinStakeTimestamp blockTime (uint (tx_nTime (vtx b ! 1))) then Inl (DoS 50)
         else case CheckBlock_txs blockTime (vtx b) of Inl e \<Rightarrow> Inl e
              | Inr _ \<Rightarrow>
                  if length (remdups (map (Tx_GetHash (be_sha N)) (vtx b))) \<noteq> length (vtx b) then Inl (DoS 100)
                  else if block_sigops b > MAX_BLOCK_SIGOPS then Inl (DoS 100)
                  else if fCheckMerkleRoot \<and> \<not> u_eq (hashMerkleRoot b) (fst (BuildMerkleTree (be_sha N) b)) then Inl (DoS 100)
                  else if \<not> CheckBlockSignature N b then Inl (DoS 100)
                  else Inr ())"

subsection \<open>Reading transactions\<close>

record CTxIndex =
  ti_pos :: CDiskTxPos
  vSpent :: "CDiskTxPos list"

definition TxIndex_null :: CTxIndex where "TxIndex_null = \<lparr> ti_pos = DiskTxPos_null, vSpent = [] \<rparr>"

definition TxIndex_new :: "CDiskTxPos \<Rightarrow> nat \<Rightarrow> CTxIndex" where
  "TxIndex_new posIn nOutputs = \<lparr> ti_pos = posIn, vSpent = replicate nOutputs DiskTxPos_null \<rparr>"

definition TxIndex_IsNull :: "CTxIndex \<Rightarrow> bool" where "TxIndex_IsNull t = DiskTxPos_IsNull (ti_pos t)"

text \<open>The records of the transaction database and the block files; the files are only read.\<close>

type_synonym txdb = "base_uint \<rightharpoonup> CTxIndex"

record block_files =
  bf_tx :: "CDiskTxPos \<Rightarrow> CTransaction option"
  bf_header :: "u32 \<Rightarrow> u32 \<Rightarrow> CBlock option"

definition ReadFromDisk_prevout :: "block_files \<Rightarrow> txdb \<Rightarrow> COutPoint \<Rightarrow> (CTransaction \<times> CTxIndex) option" where
  "ReadFromDisk_prevout F db p =
     do { txindex \<leftarrow> db (o_hash p);
          tx \<leftarrow> bf_tx F (ti_pos txindex);
          if unat (o_n p) \<ge> length (vout tx) then None else Some (tx, txindex) }"

subsection \<open>The coinstake\<close>

text \<open>CheckProofOfStake: hashProofOfStake, when it accepts.\<close>

definition CheckProofOfStake ::
  "stake_params \<Rightarrow> block_env \<Rightarrow> bheap \<Rightarrow> (base_uint \<Rightarrow> nat option) \<Rightarrow> block_files \<Rightarrow> txdb \<Rightarrow> CTransaction \<Rightarrow> u32 \<Rightarrow>
   reject + base_uint" where
  "CheckProofOfStake P N h mapBlockIndex F db tx nBits =
     (if \<not> Tx_IsCoinStake tx then Inl Refused
      else let p = prevout (vin tx ! 0)
           in case ReadFromDisk_prevout F db p of None \<Rightarrow> Inl (DoS 1)
              | Some (txPrev, txindex) \<Rightarrow>
                  (case VerifySignature (be_crypto N) txPrev tx 0 True 0 of
                     None \<Rightarrow> Inl Asserted
                   | Some verified \<Rightarrow>
                       if \<not> verified then Inl (DoS 100)
                       else case bf_header F (nFile (ti_pos txindex)) (nBlockPos (ti_pos txindex)) of None \<Rightarrow> Inl Refused
                            | Some block \<Rightarrow>
                                (case CheckStakeKernelHash P (be_sha N) (be_hash9 N) h mapBlockIndex nBits block
                                        (nTxPos (ti_pos txindex) - nBlockPos (ti_pos txindex)) txPrev p (tx_nTime tx) of
                                   None \<Rightarrow> Inl Stuck
                                 | Some (ok, hashProof) \<Rightarrow>
                                     if \<not> ok then Inl (DoS 1)
                                     else Inr (case hashProof of Some hsh \<Rightarrow> hsh | None \<Rightarrow> u_of_uint64 8 0))))"

end
