(* ===== verification/Connect.thy ===== *)
theory Connect
  imports CheckBlock
begin

text \<open>
  Connecting and disconnecting transactions and blocks, from src/main.cpp: DisconnectInputs, FetchInputs,
  GetOutputFor, GetValueIn, GetP2SHSigOpCount, ConnectInputs, ClientConnectInputs, DisconnectBlock and
  ConnectBlock. The transaction database is a map; its writes succeed. The map of proposed changes that
  a block accumulates is mapTestPool.
\<close>

type_synonym MapPrevTx = "base_uint \<rightharpoonup> CTxIndex \<times> CTransaction"

text \<open>What the functions read besides their arguments: the block tree, the memory pool, the checkpoint estimate.\<close>

record chain_env =
  ch_params :: stake_params
  ch_block :: block_env
  ch_consts :: constants
  ch_heap :: bheap
  ch_files :: block_files
  ch_mempool :: "base_uint \<rightharpoonup> CTransaction"
  ch_nBestHeight :: int
  ch_estimate :: int \<comment> \<open>Checkpoints::GetTotalBlocksEstimate()\<close>

abbreviation ch_crypto :: "chain_env \<Rightarrow> crypto" where "ch_crypto V \<equiv> be_crypto (ch_block V)"
abbreviation ch_sha :: "chain_env \<Rightarrow> sha256" where "ch_sha V \<equiv> cr_sha256 (ch_crypto V)"

subsection \<open>Disconnecting\<close>

fun disconnect_loop :: "txdb \<Rightarrow> CTxIn list \<Rightarrow> bool \<times> txdb" where
  "disconnect_loop db [] = (True, db)"
| "disconnect_loop db (txin # ins) =
     (let p = prevout txin
      in case db (o_hash p) of None \<Rightarrow> (False, db)
         | Some txindex \<Rightarrow>
             if unat (o_n p) \<ge> length (vSpent txindex) then (False, db)
             else disconnect_loop
                    (db(o_hash p \<mapsto> txindex\<lparr>vSpent := (vSpent txindex)[unat (o_n p) := DiskTxPos_null]\<rparr>)) ins)"

definition DisconnectInputs :: "sha256 \<Rightarrow> txdb \<Rightarrow> CTransaction \<Rightarrow> bool \<times> txdb" where
  "DisconnectInputs sha db tx =
     (case (if \<not> Tx_IsCoinBase tx then disconnect_loop db (vin tx) else (True, db)) of (ok, db) \<Rightarrow>
        if \<not> ok then (False, db) else (True, db(Tx_GetHash sha tx := None)))"

subsection \<open>Fetching inputs\<close>

definition mempool_pos :: CDiskTxPos where "mempool_pos = \<lparr> nFile = 1, nBlockPos = 1, nTxPos = 1 \<rparr>"

text \<open>fInvalid is set exactly when the failure carries a score.\<close>

fun fetch_loop ::
  "chain_env \<Rightarrow> txdb \<Rightarrow> txdb \<Rightarrow> bool \<Rightarrow> bool \<Rightarrow> MapPrevTx \<Rightarrow> CTxIn list \<Rightarrow> reject + MapPrevTx" where
  "fetch_loop V db mapTestPool fBlock fMiner inputs [] = Inr inputs"
| "fetch_loop V db mapTestPool fBlock fMiner inputs (txin # ins) =
     (let hsh = o_hash (prevout txin)
      in if inputs hsh \<noteq> None then fetch_loop V db mapTestPool fBlock fMiner inputs ins
         else let found = (if (fBlock \<or> fMiner) \<and> mapTestPool hsh \<noteq> None then mapTestPool hsh else db hsh);
                  txindex = (case found of Some t \<Rightarrow> t | None \<Rightarrow> TxIndex_null)
              in if found = None \<and> (fBlock \<or> fMiner) then Inl Refused
                 else if found = None \<or> ti_pos txindex = mempool_pos
                 then (case ch_mempool V hsh of
                         None \<Rightarrow> Inl Refused
                       | Some txPrev \<Rightarrow>
                           let txindex = (if found = None
                                 then txindex\<lparr>vSpent := replicate (length (vout txPrev)) DiskTxPos_null\<rparr> else txindex)
                           in fetch_loop V db mapTestPool fBlock fMiner (inputs(hsh \<mapsto> (txindex, txPrev))) ins)
                 else (case bf_tx (ch_files V) (ti_pos txindex) of
                         None \<Rightarrow> Inl Refused
                       | Some txPrev \<Rightarrow> fetch_loop V db mapTestPool fBlock fMiner (inputs(hsh \<mapsto> (txindex, txPrev))) ins))"

definition prevout_in_range :: "MapPrevTx \<Rightarrow> CTxIn \<Rightarrow> bool" where
  "prevout_in_range inputs txin \<longleftrightarrow>
     (case inputs (o_hash (prevout txin)) of None \<Rightarrow> False
      | Some (txindex, txPrev) \<Rightarrow>
          unat (o_n (prevout txin)) < length (vout txPrev) \<and> unat (o_n (prevout txin)) < length (vSpent txindex))"

definition FetchInputs ::
  "chain_env \<Rightarrow> txdb \<Rightarrow> txdb \<Rightarrow> bool \<Rightarrow> bool \<Rightarrow> CTransaction \<Rightarrow> reject + MapPrevTx" where
  "FetchInputs V db mapTestPool fBlock fMiner tx =
     (if Tx_IsCoinBase tx then Inr Map.empty
      else case fetch_loop V db mapTestPool fBlock fMiner Map.empty (vin tx) of Inl e \<Rightarrow> Inl e
           | Inr inputs \<Rightarrow> if \<not> list_all (prevout_in_range inputs) (vin tx) then Inl (DoS 100) else Inr inputs)"

subsection \<open>Values of inputs\<close>

definition GetOutputFor :: "CTxIn \<Rightarrow> MapPrevTx \<Rightarrow> reject + CTxOut" where
  "GetOutputFor txin inputs =
     (case inputs (o_hash (prevout txin)) of None \<Rightarrow> Inl Thrown
      | Some (_, txPrev) \<Rightarrow>
          if unat (o_n (prevout txin)) \<ge> length (vout txPrev) then Inl Thrown
          else Inr (vout txPrev ! unat (o_n (prevout txin))))"

fun value_in_loop :: "MapPrevTx \<Rightarrow> u64 \<Rightarrow> CTxIn list \<Rightarrow> reject + u64" where
  "value_in_loop inputs nResult [] = Inr nResult"
| "value_in_loop inputs nResult (txin # ins) =
     (case GetOutputFor txin inputs of Inl e \<Rightarrow> Inl e | Inr t \<Rightarrow> value_in_loop inputs (nResult + nValue t) ins)"

definition GetValueIn :: "MapPrevTx \<Rightarrow> CTransaction \<Rightarrow> reject + u64" where
  "GetValueIn inputs tx = (if Tx_IsCoinBase tx then Inr 0 else value_in_loop inputs 0 (vin tx))"

fun p2sh_sigops_loop :: "MapPrevTx \<Rightarrow> u32 \<Rightarrow> CTxIn list \<Rightarrow> reject + u32" where
  "p2sh_sigops_loop inputs nSigOps [] = Inr nSigOps"
| "p2sh_sigops_loop inputs nSigOps (txin # ins) =
     (case GetOutputFor txin inputs of Inl e \<Rightarrow> Inl e
      | Inr t \<Rightarrow> p2sh_sigops_loop inputs
          (if IsPayToScriptHash (scriptPubKey t) then nSigOps + GetSigOpCount_P2SH (scriptPubKey t) (scriptSig txin)
           else nSigOps) ins)"

definition GetP2SHSigOpCount :: "MapPrevTx \<Rightarrow> CTransaction \<Rightarrow> reject + u32" where
  "GetP2SHSigOpCount inputs tx = (if Tx_IsCoinBase tx then Inr 0 else p2sh_sigops_loop inputs 0 (vin tx))"

subsection \<open>Connecting a transaction\<close>

text \<open>Whether the block of the previous transaction is among the blocks that are too recent; None: the walk does not end.\<close>

partial_function (option) immature :: "bheap \<Rightarrow> CTxIndex \<Rightarrow> int \<Rightarrow> nat option \<Rightarrow> bool option" where
  "immature h txindex nHeightBlock pindex =
     (if pindex = None then Some False
      else if \<not> nHeightBlock - nHeight (h (the pindex)) < nCoinbaseMaturity then Some False
      else if bi_nBlockPos (h (the pindex)) = nBlockPos (ti_pos txindex) \<and> bi_nFile (h (the pindex)) = nFile (ti_pos txindex)
      then Some True
      else immature h txindex nHeightBlock (pprev (h (the pindex))))"

text \<open>The first loop: the inexpensive checks, with the value of the inputs so far.\<close>

fun connect_check ::
  "bheap \<Rightarrow> nat option \<Rightarrow> MapPrevTx \<Rightarrow> u32 \<Rightarrow> u64 \<Rightarrow> CTxIn list \<Rightarrow> reject + u64" where
  "connect_check h pindexBlock inputs nTime nValueIn [] = Inr nValueIn"
| "connect_check h pindexBlock inputs nTime nValueIn (txin # ins) =
     (let n = unat (o_n (prevout txin))
      in case inputs (o_hash (prevout txin)) of None \<Rightarrow> Inl Asserted
         | Some (txindex, txPrev) \<Rightarrow>
             if n \<ge> length (vout txPrev) \<or> n \<ge> length (vSpent txindex) then Inl (DoS 100)
             else case (if Tx_IsCoinBase txPrev \<or> Tx_IsCoinStake txPrev
                        then immature h txindex (case pindexBlock of Some p \<Rightarrow> nHeight (h p) | None \<Rightarrow> 0) pindexBlock
                        else Some False) of
                    None \<Rightarrow> Inl Stuck
                  | Some early \<Rightarrow>
                      if early then Inl Refused
                      else if tx_nTime txPrev > nTime then Inl (DoS 100)
                      else let nValueIn = nValueIn + nValue (vout txPrev ! n)
                           in if \<not> MoneyRange (nValue (vout txPrev ! n)) \<or> \<not> MoneyRange nValueIn then Inl (DoS 100)
                              else connect_check h pindexBlock inputs nTime nValueIn ins)"

text \<open>The second loop: double spends, signatures, and marking the outputs as spent. i is the index of the input.\<close>

fun connect_spend ::
  "chain_env \<Rightarrow> CTransaction \<Rightarrow> CDiskTxPos \<Rightarrow> bool \<Rightarrow> bool \<Rightarrow> bool \<Rightarrow> MapPrevTx \<Rightarrow> txdb \<Rightarrow> nat \<Rightarrow> CTxIn list \<Rightarrow>
   reject + (MapPrevTx \<times> txdb)" where
  "connect_spend V tx posThisTx fBlock fMiner fStrict inputs mapTestPool i [] = Inr (inputs, mapTestPool)"
| "connect_spend V tx posThisTx fBlock fMiner fStrict inputs mapTestPool i (txin # ins) =
     (let hsh = o_hash (prevout txin); n = unat (o_n (prevout txin))
      in case inputs hsh of None \<Rightarrow> Inl Asserted
         | Some (txindex, txPrev) \<Rightarrow>
             if \<not> DiskTxPos_IsNull (vSpent txindex ! n) then Inl Refused
             else if \<not> (fBlock \<and> ch_nBestHeight V < ch_estimate V) \<and>
                     VerifySignature (ch_crypto V) txPrev tx i fStrict 0 \<noteq> Some True
             then (if fStrict \<and> VerifySignature (ch_crypto V) txPrev tx i False 0 = Some True
                   then Inl Refused else Inl (DoS 100))
             else let txindex = txindex\<lparr>vSpent := (vSpent txindex)[n := posThisTx]\<rparr>
                  in connect_spend V tx posThisTx fBlock fMiner fStrict (inputs(hsh \<mapsto> (txindex, txPrev)))
                       (if fBlock \<or> fMiner then mapTestPool(hsh \<mapsto> txindex) else mapTestPool) (i + 1) ins)"

text \<open>What the database and the files yield for the coin age of an input.\<close>

definition coin_age_reader :: "block_files \<Rightarrow> txdb \<Rightarrow> COutPoint \<Rightarrow> (CTransaction \<times> CBlock option) option" where
  "coin_age_reader F db p =
     map_option (\<lambda>(tx, txindex). (tx, bf_header F (nFile (ti_pos txindex)) (nBlockPos (ti_pos txindex)))) (ReadFromDisk_prevout F db p)"

definition GetMinFee :: "CTransaction \<Rightarrow> u64" where \<comment> \<open>GetMinFee() with its default arguments\<close>
  "GetMinFee tx = word_of_int (Tx_GetMinFee tx 1 GMF_BLOCK 0 0)"

definition connect_fees ::
  "chain_env \<Rightarrow> txdb \<Rightarrow> CTransaction \<Rightarrow> bool \<Rightarrow> u64 \<Rightarrow> reject + unit" where
  "connect_fees V db tx fBlock nValueIn =
     (if Tx_IsCoinStake tx
      then (case GetCoinAge (ch_params V) (coin_age_reader (ch_files V) db) tx of
              None \<Rightarrow> Inl Stuck
            | Some None \<Rightarrow> Inl Refused
            | Some (Some nCoinAge) \<Rightarrow>
                (case Tx_GetValueOut tx of None \<Rightarrow> Inl Thrown
                 | Some nValueOut \<Rightarrow>
                     let nStakeReward = nValueOut - nValueIn
                     in if GetProofOfStakeReward nCoinAge - GetMinFee tx + MIN_TX_FEE <s nStakeReward then Inl (DoS 100)
                        else Inr ()))
      else (case Tx_GetValueOut tx of None \<Rightarrow> Inl Thrown
            | Some nValueOut \<Rightarrow>
                if nValueIn <s nValueOut then Inl (DoS 100)
                else let nTxFee = nValueIn - nValueOut
                     in if nTxFee <s 0 then Inl (DoS 100)
                        else if nTxFee <s GetMinFee tx then (if fBlock then Inl (DoS 100) else Inl Refused)
                        else if \<not> MoneyRange nTxFee then Inl (DoS 100)
                        else Inr ()))"

text \<open>ConnectInputs: the new mapTestPool. The copy of the inputs is dropped.\<close>

definition ConnectInputs ::
  "chain_env \<Rightarrow> txdb \<Rightarrow> MapPrevTx \<Rightarrow> txdb \<Rightarrow> CDiskTxPos \<Rightarrow> nat option \<Rightarrow> bool \<Rightarrow> bool \<Rightarrow> bool \<Rightarrow> CTransaction \<Rightarrow>
   reject + txdb" where
  "ConnectInputs V db inputs mapTestPool posThisTx pindexBlock fBlock fMiner fStrict tx =
     (if Tx_IsCoinBase tx then Inr mapTestPool
      else case connect_check (ch_heap V) pindexBlock inputs (tx_nTime tx) 0 (vin tx) of Inl e \<Rightarrow> Inl e
           | Inr nValueIn \<Rightarrow>
               (case connect_spend V tx posThisTx fBlock fMiner fStrict inputs mapTestPool 0 (vin tx) of Inl e \<Rightarrow> Inl e
                | Inr (_, mapTestPool) \<Rightarrow>
                    (case connect_fees V db tx fBlock nValueIn of Inl e \<Rightarrow> Inl e | Inr _ \<Rightarrow> Inr mapTestPool)))"

text \<open>ClientConnectInputs, which looks at the memory pool only.\<close>

fun client_loop :: "chain_env \<Rightarrow> CTransaction \<Rightarrow> nat \<Rightarrow> u64 \<Rightarrow> CTxIn list \<Rightarrow> u64 option" where
  "client_loop V tx i nValueIn [] = Some nValueIn"
| "client_loop V tx i nValueIn (txin # ins) =
     (case ch_mempool V (o_hash (prevout txin)) of None \<Rightarrow> None
      | Some txPrev \<Rightarrow>
          let n = unat (o_n (prevout txin))
          in if n \<ge> length (vout txPrev) then None
             else if VerifySignature (ch_crypto V) txPrev tx i True 0 \<noteq> Some True then None
             else let nValueIn = nValueIn + nValue (vout txPrev ! n)
                  in if \<not> MoneyRange (nValue (vout txPrev ! n)) \<or> \<not> MoneyRange nValueIn then None
                     else client_loop V tx (i + 1) nValueIn ins)"

definition ClientConnectInputs :: "chain_env \<Rightarrow> CTransaction \<Rightarrow> reject + unit" where
  "ClientConnectInputs V tx =
     (if Tx_IsCoinBase tx then Inl Refused
      else case client_loop V tx 0 0 (vin tx) of None \<Rightarrow> Inl Refused
           | Some nValueIn \<Rightarrow>
               (case Tx_GetValueOut tx of None \<Rightarrow> Inl Thrown
                | Some nValueOut \<Rightarrow> if nValueIn <s nValueOut then Inl Refused else Inr ()))"

subsection \<open>Connecting and disconnecting blocks\<close>

fun disconnect_txs :: "sha256 \<Rightarrow> txdb \<Rightarrow> CTransaction list \<Rightarrow> bool \<times> txdb" where
  "disconnect_txs sha db [] = (True, db)"
| "disconnect_txs sha db (tx # txs) =
     (case DisconnectInputs sha db tx of (ok, db) \<Rightarrow> if \<not> ok then (False, db) else disconnect_txs sha db txs)"

text \<open>DisconnectBlock, without the block index record it rewrites on disk and the notice to the wallets.\<close>

definition DisconnectBlock :: "sha256 \<Rightarrow> txdb \<Rightarrow> CBlock \<Rightarrow> bool \<times> txdb" where
  "DisconnectBlock sha db b = disconnect_txs sha db (rev (vtx b))"

record block_acc =
  ac_nTxPos :: u32
  ac_queued :: txdb
  ac_nFees :: u64
  ac_nValueIn :: u64
  ac_nValueOut :: u64
  ac_nSigOps :: u32

text \<open>A false of a called function that the caller turns into a false of its own; exceptions pass through.\<close>

fun plain_false :: "reject \<Rightarrow> reject" where
  "plain_false (DoS n) = Refused"
| "plain_false e = e"

text \<open>One round of the loop of ConnectBlock over the transactions.\<close>

definition connect_block_tx ::
  "chain_env \<Rightarrow> txdb \<Rightarrow> nat \<Rightarrow> bool \<Rightarrow> CTransaction \<Rightarrow> block_acc \<Rightarrow> reject + block_acc" where
  "connect_block_tx V db p fJustCheck tx a =
     (let hashTx = Tx_GetHash (ch_sha V) tx; pindex = ch_heap V p
      in if (case db hashTx of None \<Rightarrow> False | Some txindexOld \<Rightarrow> list_ex DiskTxPos_IsNull (vSpent txindexOld)) then Inl Refused
         else let a = a\<lparr>ac_nSigOps := ac_nSigOps a + GetLegacySigOpCount tx\<rparr>
         in if ac_nSigOps a > MAX_BLOCK_SIGOPS then Inl (DoS 100)
         else let posThisTx = \<lparr> nFile = bi_nFile pindex, nBlockPos = bi_nBlockPos pindex, nTxPos = ac_nTxPos a \<rparr>;
                  a = (if \<not> fJustCheck then a\<lparr>ac_nTxPos := ac_nTxPos a + GetSerializeSize_CTransaction SER_DISK CLIENT_VERSION tx\<rparr> else a);
                  done = (\<lambda>a. Inr (a\<lparr>ac_queued := (ac_queued a)(hashTx \<mapsto> TxIndex_new posThisTx (length (vout tx)))\<rparr>))
         in if Tx_IsCoinBase tx
            then (case Tx_GetValueOut tx of None \<Rightarrow> Inl Thrown
                  | Some nValueOut \<Rightarrow> done (a\<lparr>ac_nValueOut := ac_nValueOut a + nValueOut\<rparr>))
            else case FetchInputs V db (ac_queued a) True False tx of Inl e \<Rightarrow> Inl (plain_false e)
                 | Inr inputs \<Rightarrow>
                     (case GetP2SHSigOpCount inputs tx of Inl e \<Rightarrow> Inl e
                      | Inr nP2SH \<Rightarrow>
                          let a = a\<lparr>ac_nSigOps := ac_nSigOps a + nP2SH\<rparr>
                          in if ac_nSigOps a > MAX_BLOCK_SIGOPS then Inl (DoS 100)
                             else (case GetValueIn inputs tx of Inl e \<Rightarrow> Inl e
                                   | Inr nTxValueIn \<Rightarrow>
                                       (case Tx_GetValueOut tx of None \<Rightarrow> Inl Thrown
                                        | Some nTxValueOut \<Rightarrow>
                                            let a = a\<lparr>ac_nValueIn := ac_nValueIn a + nTxValueIn,
                                                      ac_nValueOut := ac_nValueOut a + nTxValueOut\<rparr>;
                                                a = (if \<not> Tx_IsCoinStake tx
                                                     then a\<lparr>ac_nFees := ac_nFees a + (nTxValueIn - nTxValueOut)\<rparr> else a)
                                            in (case ConnectInputs V db inputs (ac_queued a) posThisTx (Some p) True False True tx of
                                                  Inl e \<Rightarrow> Inl (plain_false e)
                                                | Inr queued \<Rightarrow> done (a\<lparr>ac_queued := queued\<rparr>))))))"

fun connect_block_loop ::
  "chain_env \<Rightarrow> txdb \<Rightarrow> nat \<Rightarrow> bool \<Rightarrow> CTransaction list \<Rightarrow> block_acc \<Rightarrow> reject + block_acc" where
  "connect_block_loop V db p fJustCheck [] a = Inr a"
| "connect_block_loop V db p fJustCheck (tx # txs) a =
     (case connect_block_tx V db p fJustCheck tx a of Inl e \<Rightarrow> Inl e | Inr a \<Rightarrow> connect_block_loop V db p fJustCheck txs a)"

definition first_tx_pos :: "CBlockIndex \<Rightarrow> CBlock \<Rightarrow> u32" where
  "first_tx_pos pindex b =
     bi_nBlockPos pindex + GetSerializeSize_CBlock SER_DISK Block_SetNull - 2 * GetSizeOfCompactSize 0 +
     GetSizeOfCompactSize (word_of_nat (length (vtx b)))"

text \<open>
  ConnectBlock: the verdict, the block tree with the mint and money supply of the block, and the
  database. The block index records it writes and the notice to the wallets are left out.
\<close>

definition ConnectBlock ::
  "chain_env \<Rightarrow> int \<Rightarrow> txdb \<Rightarrow> nat \<Rightarrow> bool \<Rightarrow> CBlock \<Rightarrow> (reject + unit) \<times> bheap \<times> txdb" where
  "ConnectBlock V now db p fJustCheck b =
     (let h = ch_heap V; pindex = h p
      in case CheckBlock (ch_block V) now (\<not> fJustCheck) (\<not> fJustCheck) b of Inl e \<Rightarrow> (Inl e, h, db)
         | Inr _ \<Rightarrow>
             (case connect_block_loop V db p fJustCheck (vtx b)
                     \<lparr> ac_nTxPos = (if fJustCheck then 1 else first_tx_pos pindex b), ac_queued = Map.empty, ac_nFees = 0,
                       ac_nValueIn = 0, ac_nValueOut = 0, ac_nSigOps = 0 \<rparr> of
                Inl e \<Rightarrow> (Inl e, h, db)
              | Inr a \<Rightarrow>
                  let supply = (case pprev pindex of Some q \<Rightarrow> nMoneySupply (h q) | None \<Rightarrow> 0);
                      h = h(p := pindex\<lparr>nMint := ac_nValueOut a - ac_nValueIn a + ac_nFees a,
                                        nMoneySupply := supply + ac_nValueOut a - ac_nValueIn a\<rparr>)
                  in if fJustCheck then (Inr (), h, db)
                     else let db = db ++ ac_queued a
                          in case (Tx_GetValueOut (vtx b ! 0), GetProofOfWorkReward (ch_consts V) (nHeight pindex) (ac_nFees a) False) of
                               (Some nValueOut, Some reward) \<Rightarrow>
                                 if reward <s nValueOut then (Inl Refused, h, db) else (Inr (), h, db)
                             | (None, _) \<Rightarrow> (Inl Thrown, h, db)
                             | (_, None) \<Rightarrow> (Inl Stuck, h, db)))"

subsection \<open>Marking outputs\<close>

text \<open>\<open>mark db S pos\<close> is the database with the spent position of the outputs in \<open>S\<close> set to \<open>pos\<close>.\<close>

definition mark_index :: "nat set \<Rightarrow> CDiskTxPos \<Rightarrow> CTxIndex \<Rightarrow> CTxIndex" where
  "mark_index ns pos ti = ti\<lparr>vSpent := map (\<lambda>n. if n \<in> ns then pos else vSpent ti ! n) [0..<length (vSpent ti)]\<rparr>"

type_synonym outref = "base_uint \<times> nat"

definition mark :: "txdb \<Rightarrow> outref set \<Rightarrow> CDiskTxPos \<Rightarrow> txdb" where
  "mark db S pos = (\<lambda>h. map_option (mark_index {n. (h, n) \<in> S} pos) (db h))"

definition output_of :: "CTxIn \<Rightarrow> outref" where
  "output_of txin = (o_hash (prevout txin), unat (o_n (prevout txin)))"

definition in_range :: "txdb \<Rightarrow> outref \<Rightarrow> bool" where
  "in_range db out \<longleftrightarrow> (\<exists>ti. db (fst out) = Some ti \<and> snd out < length (vSpent ti))"

definition unspent :: "txdb \<Rightarrow> outref \<Rightarrow> bool" where
  "unspent db out \<longleftrightarrow> (\<exists>ti. db (fst out) = Some ti \<and> snd out < length (vSpent ti) \<and> DiskTxPos_IsNull (vSpent ti ! snd out))"

text \<open>Free outputs carry the null position as SetNull writes it.\<close>

definition db_wf :: "txdb \<Rightarrow> bool" where
  "db_wf db \<longleftrightarrow> (\<forall>h ti. db h = Some ti \<longrightarrow> (\<forall>p\<in>set (vSpent ti). DiskTxPos_IsNull p \<longrightarrow> p = DiskTxPos_null))"

lemma length_mark_index [simp]: "length (vSpent (mark_index ns pos ti)) = length (vSpent ti)"
  by (simp add: mark_index_def)

lemma ti_pos_mark_index [simp]: "ti_pos (mark_index ns pos ti) = ti_pos ti"
  by (simp add: mark_index_def)

lemma nth_mark_index: "n < length (vSpent ti) \<Longrightarrow> vSpent (mark_index ns pos ti) ! n = (if n \<in> ns then pos else vSpent ti ! n)"
  by (simp add: mark_index_def)

lemma index_eqI:
  "ti_pos a = ti_pos b \<Longrightarrow> length (vSpent a) = length (vSpent b) \<Longrightarrow>
   (\<And>n. n < length (vSpent a) \<Longrightarrow> vSpent a ! n = vSpent b ! n) \<Longrightarrow> a = (b :: CTxIndex)"
  by (cases a; cases b) (auto intro: nth_equalityI)

lemma mark_index_empty [simp]: "mark_index {} pos ti = ti"
  by (rule index_eqI) (simp_all add: nth_mark_index)

lemma mark_index_single: "n < length (vSpent ti) \<Longrightarrow> mark_index {n} pos ti = ti\<lparr>vSpent := (vSpent ti)[n := pos]\<rparr>"
  by (rule index_eqI) (auto simp: nth_mark_index nth_list_update)

lemma map_mark_empty [simp]: "map_option (mark_index {} pos) x = x"
  by (cases x) simp_all

lemma mark_empty [simp]: "mark db {} pos = db"
  by (simp add: mark_def)

lemma mark_mark: "mark (mark db S pos) T pos = mark db (S \<union> T) pos"
proof
  fix h
  show "mark (mark db S pos) T pos h = mark db (S \<union> T) pos h"
    by (cases "db h") (auto simp: mark_def intro!: index_eqI simp: nth_mark_index)
qed

lemma mark_single:
  assumes "db h = Some ti" "n < length (vSpent ti)"
  shows "mark db {(h, n)} pos = db(h \<mapsto> ti\<lparr>vSpent := (vSpent ti)[n := pos]\<rparr>)"
proof
  fix h'
  show "mark db {(h, n)} pos h' = (db(h \<mapsto> ti\<lparr>vSpent := (vSpent ti)[n := pos]\<rparr>)) h'"
    using assms by (cases "h' = h") (auto simp: mark_def mark_index_single)
qed

lemma dom_mark [simp]: "dom (mark db S pos) = dom db"
  by (auto simp: mark_def)

lemma in_range_mark [simp]: "in_range (mark db S pos) = in_range db"
  by (rule ext) (auto simp: in_range_def mark_def)

lemma unspent_in_range: "unspent db out \<Longrightarrow> in_range db out"
  by (auto simp: unspent_def in_range_def)

lemma unspent_mark:
  assumes "\<not> DiskTxPos_IsNull pos"
  shows "unspent (mark db S pos) out \<longleftrightarrow> unspent db out \<and> out \<notin> S"
  using assms by (cases out) (auto simp: unspent_def mark_def nth_mark_index split: if_splits)

lemma unmark:
  assumes "db_wf db" "\<forall>out\<in>S. unspent db out"
  shows "mark (mark db S pos) S DiskTxPos_null = db"
proof
  fix h
  show "mark (mark db S pos) S DiskTxPos_null h = db h"
  proof (cases "db h")
    case (Some ti)
    have "vSpent ti ! n = DiskTxPos_null" if "(h, n) \<in> S" "n < length (vSpent ti)" for n
      using assms that Some by (auto simp: db_wf_def unspent_def)
    then have "mark_index {n. (h, n) \<in> S} DiskTxPos_null (mark_index {n. (h, n) \<in> S} pos ti) = ti"
      by (intro index_eqI) (simp_all add: nth_mark_index)
    then show ?thesis using Some by (simp add: mark_def)
  qed (simp add: mark_def)
qed

lemma db_wf_mark: "db_wf db \<Longrightarrow> \<not> DiskTxPos_IsNull pos \<Longrightarrow> db_wf (mark db S pos)"
  by (auto simp: db_wf_def mark_def in_set_conv_nth nth_mark_index split: if_splits) (metis nth_mem)

lemma db_wf_new: "db_wf db \<Longrightarrow> db_wf (db(h \<mapsto> TxIndex_new pos n))"
  by (auto simp: db_wf_def TxIndex_new_def)

lemma disconnect_loop_mark:
  "\<forall>txin\<in>set ins. in_range db (output_of txin) \<Longrightarrow>
   disconnect_loop db ins = (True, mark db (output_of ` set ins) DiskTxPos_null)"
proof (induction ins arbitrary: db)
  case (Cons txin ins)
  obtain ti where ti: "db (o_hash (prevout txin)) = Some ti" "unat (o_n (prevout txin)) < length (vSpent ti)"
    using Cons.prems by (auto simp: in_range_def output_of_def)
  let ?db = "mark db {output_of txin} DiskTxPos_null"
  have "disconnect_loop ?db ins = (True, mark ?db (output_of ` set ins) DiskTxPos_null)"
    by (rule Cons.IH) (use Cons.prems in simp)
  moreover have "?db = db(o_hash (prevout txin) \<mapsto> ti\<lparr>vSpent := (vSpent ti)[unat (o_n (prevout txin)) := DiskTxPos_null]\<rparr>)"
    using mark_single [of db, OF ti] by (simp add: output_of_def)
  moreover have "mark ?db (output_of ` set ins) DiskTxPos_null = mark db (output_of ` set (txin # ins)) DiskTxPos_null"
    by (simp add: mark_mark)
  ultimately show ?case using ti by (simp add: Let_def)
qed simp

subsection \<open>What connecting a transaction does to the database\<close>

text \<open>The inputs fetched for a block agree with the database under the proposed changes.\<close>

definition fetched :: "txdb \<Rightarrow> MapPrevTx \<Rightarrow> bool" where
  "fetched db inputs \<longleftrightarrow> (\<forall>h txindex txPrev. inputs h = Some (txindex, txPrev) \<longrightarrow> db h = Some txindex)"

lemma fetch_loop_fetched:
  "fetch_loop V db pool True False inputs ins = Inr inputs' \<Longrightarrow> fetched (db ++ pool) inputs \<Longrightarrow> fetched (db ++ pool) inputs'"
proof (induction ins arbitrary: inputs)
  case (Cons txin ins)
  let ?h = "o_hash (prevout txin)"
  show ?case
  proof (cases "inputs ?h")
    case None
    let ?found = "if pool ?h \<noteq> None then pool ?h else db ?h"
    have f: "?found = (db ++ pool) ?h" by (cases "pool ?h") (auto simp: map_add_def)
    obtain ti txPrev where ti: "?found = Some ti" "fetch_loop V db pool True False (inputs(?h \<mapsto> (ti, txPrev))) ins = Inr inputs'"
      using Cons.prems(1) None by (auto simp: Let_def split: if_splits option.splits)
    have "fetched (db ++ pool) (inputs(?h \<mapsto> (ti, txPrev)))" using Cons.prems(2) ti(1) f by (auto simp: fetched_def)
    then show ?thesis using Cons.IH ti(2) by blast
  qed (use Cons in \<open>simp add: Let_def\<close>)
qed simp

lemma FetchInputs_fetched:
  assumes "FetchInputs V db pool True False tx = Inr inputs" "\<not> Tx_IsCoinBase tx"
  shows "fetched (db ++ pool) inputs \<and> (\<forall>txin\<in>set (vin tx). in_range (db ++ pool) (output_of txin))"
proof -
  have *: "fetch_loop V db pool True False Map.empty (vin tx) = Inr inputs" "list_all (prevout_in_range inputs) (vin tx)"
    using assms by (auto simp: FetchInputs_def split: sum.splits if_splits)
  have f: "fetched (db ++ pool) inputs" using fetch_loop_fetched [OF *(1)] by (simp add: fetched_def)
  moreover have "in_range (db ++ pool) (output_of txin)" if "txin \<in> set (vin tx)" for txin
    using that *(2) f unfolding list_all_iff
    by (fastforce simp: prevout_in_range_def fetched_def in_range_def output_of_def split: option.splits prod.splits)
  ultimately show ?thesis by blast
qed

lemma connect_spend_mark:
  assumes "connect_spend V tx pos True False fStrict inputs pool i ins = Inr (inputs', pool')"
    "fetched (db ++ pool) inputs" "\<forall>txin\<in>set ins. in_range (db ++ pool) (output_of txin)" "\<not> DiskTxPos_IsNull pos"
  shows "db ++ pool' = mark (db ++ pool) (output_of ` set ins) pos \<and>
    (\<forall>txin\<in>set ins. unspent (db ++ pool) (output_of txin)) \<and> distinct (map output_of ins)"
  using assms
proof (induction ins arbitrary: inputs pool i)
  case (Cons txin ins)
  let ?h = "o_hash (prevout txin)" and ?n = "unat (o_n (prevout txin))"
  obtain ti txPrev where ti: "inputs ?h = Some (ti, txPrev)"
    using Cons.prems(1) by (auto simp: Let_def split: option.splits)
  let ?ti = "ti\<lparr>vSpent := (vSpent ti)[?n := pos]\<rparr>"
  have db: "(db ++ pool) ?h = Some ti" using Cons.prems(2) ti by (auto simp: fetched_def)
  have n: "?n < length (vSpent ti)" using Cons.prems(3) db by (auto simp: in_range_def output_of_def)
  have free: "DiskTxPos_IsNull (vSpent ti ! ?n)"
    and rec: "connect_spend V tx pos True False fStrict (inputs(?h \<mapsto> (?ti, txPrev))) (pool(?h \<mapsto> ?ti)) (i + 1) ins = Inr (inputs', pool')"
    using Cons.prems(1) ti by (auto simp: Let_def split: if_splits)
  let ?db = "mark (db ++ pool) {output_of txin} pos"
  have upd: "db ++ pool(?h \<mapsto> ?ti) = ?db"
    using mark_single [where db = "db ++ pool" and pos = pos, OF db n] by (simp add: output_of_def)
  have "db ++ pool' = mark ?db (output_of ` set ins) pos \<and> (\<forall>txin\<in>set ins. unspent ?db (output_of txin)) \<and> distinct (map output_of ins)"
  proof -
    have f: "fetched ?db (inputs(?h \<mapsto> (?ti, txPrev)))"
      using Cons.prems(2) unfolding upd [symmetric] by (auto simp: fetched_def)
    have r: "\<forall>txin\<in>set ins. in_range ?db (output_of txin)" using Cons.prems(3) by simp
    show ?thesis by (rule Cons.IH [OF rec, unfolded upd, OF f r Cons.prems(4)])
  qed
  moreover have "unspent (db ++ pool) (output_of txin)" using db n free by (auto simp: unspent_def output_of_def)
  ultimately show ?case using unspent_mark [OF Cons.prems(4)] by (auto simp: mark_mark)
qed simp

lemma ConnectInputs_mark:
  assumes "FetchInputs V db pool True False tx = Inr inputs" "\<not> Tx_IsCoinBase tx" "\<not> DiskTxPos_IsNull pos"
    "ConnectInputs V db inputs pool pos pindex True False fStrict tx = Inr pool'"
  shows "db ++ pool' = mark (db ++ pool) (output_of ` set (vin tx)) pos \<and>
    (\<forall>txin\<in>set (vin tx). unspent (db ++ pool) (output_of txin)) \<and> distinct (map output_of (vin tx))"
proof -
  obtain inputs' where "connect_spend V tx pos True False fStrict inputs pool 0 (vin tx) = Inr (inputs', pool')"
    using assms(2,4) by (auto simp: ConnectInputs_def split: sum.splits)
  then show ?thesis using connect_spend_mark FetchInputs_fetched [OF assms(1,2)] assms(3) by blast
qed

subsection \<open>What connecting a block does to the database\<close>

definition spent_by :: "CTransaction \<Rightarrow> outref list" where
  "spent_by tx = (if Tx_IsCoinBase tx then [] else map output_of (vin tx))"

abbreviation tx_hash :: "chain_env \<Rightarrow> CTransaction \<Rightarrow> base_uint" where "tx_hash V tx \<equiv> Tx_GetHash (ch_sha V) tx"

text \<open>The effect of one transaction at a position.\<close>

definition apply_tx :: "chain_env \<Rightarrow> CDiskTxPos \<Rightarrow> CTransaction \<Rightarrow> txdb \<Rightarrow> txdb" where
  "apply_tx V pos tx db = (mark db (set (spent_by tx)) pos)(tx_hash V tx \<mapsto> TxIndex_new pos (length (vout tx)))"

definition pos_of :: "chain_env \<Rightarrow> nat \<Rightarrow> block_acc \<Rightarrow> CDiskTxPos" where
  "pos_of V p a = \<lparr> nFile = bi_nFile (ch_heap V p), nBlockPos = bi_nBlockPos (ch_heap V p), nTxPos = ac_nTxPos a \<rparr>"

lemma connect_block_tx_db:
  assumes "connect_block_tx V db p fJustCheck tx a = Inr a'" "bi_nFile (ch_heap V p) \<noteq> - 1"
  shows "db ++ ac_queued a' = apply_tx V (pos_of V p a) tx (db ++ ac_queued a) \<and>
    (\<forall>out\<in>set (spent_by tx). unspent (db ++ ac_queued a) out) \<and> distinct (spent_by tx)"
proof (cases "Tx_IsCoinBase tx")
  case True
  then show ?thesis using assms(1)
    by (auto simp: connect_block_tx_def Let_def spent_by_def apply_tx_def pos_of_def split: if_splits option.splits)
next
  case False
  let ?pos = "pos_of V p a"
  have pos: "\<not> DiskTxPos_IsNull ?pos" using assms(2) by (simp add: pos_of_def DiskTxPos_IsNull_def)
  obtain inputs queued where f: "FetchInputs V db (ac_queued a) True False tx = Inr inputs"
      "ConnectInputs V db inputs (ac_queued a) ?pos (Some p) True False True tx = Inr queued"
      "ac_queued a' = queued(tx_hash V tx \<mapsto> TxIndex_new ?pos (length (vout tx)))"
    using assms(1) False unfolding connect_block_tx_def pos_of_def
    by (auto simp: Let_def split: if_splits option.splits sum.splits)
  note m = ConnectInputs_mark [OF f(1) False pos f(2)]
  have "db ++ ac_queued a' = (db ++ queued)(tx_hash V tx \<mapsto> TxIndex_new ?pos (length (vout tx)))" using f(3) by simp
  then show ?thesis using m False by (simp add: apply_tx_def spent_by_def)
qed

lemma unspent_apply:
  assumes "\<not> DiskTxPos_IsNull pos" "fst out \<noteq> tx_hash V tx"
  shows "unspent (apply_tx V pos tx db) out \<longleftrightarrow> unspent db out \<and> out \<notin> set (spent_by tx)"
proof -
  have "unspent (apply_tx V pos tx db) out \<longleftrightarrow> unspent (mark db (set (spent_by tx)) pos) out"
    using assms(2) by (simp add: apply_tx_def unspent_def)
  then show ?thesis using unspent_mark [OF assms(1)] by simp
qed

lemma dom_apply [simp]: "dom (apply_tx V pos tx db) = insert (tx_hash V tx) (dom db)"
  by (simp add: apply_tx_def)

lemma db_wf_apply: "db_wf db \<Longrightarrow> \<not> DiskTxPos_IsNull pos \<Longrightarrow> db_wf (apply_tx V pos tx db)"
  unfolding apply_tx_def by (intro db_wf_new db_wf_mark)

lemma unspent_dom: "unspent db out \<Longrightarrow> fst out \<in> dom db"
  by (auto simp: unspent_def)

text \<open>Disconnecting a transaction restores the database.\<close>

lemma DisconnectInputs_apply:
  assumes "db_wf db" "tx_hash V tx \<notin> dom db" "\<forall>out\<in>set (spent_by tx). unspent db out"
  shows "DisconnectInputs (ch_sha V) (apply_tx V pos tx db) tx = (True, db)"
proof -
  let ?h = "tx_hash V tx" and ?S = "set (spent_by tx)"
  have range: "in_range (apply_tx V pos tx db) out" if "out \<in> ?S" for out
  proof -
    have "fst out \<noteq> ?h" using unspent_dom [of db out] assms(2,3) that by auto
    moreover have "in_range (mark db ?S pos) out" using assms(3) that by (simp add: unspent_in_range)
    ultimately show ?thesis by (auto simp: apply_tx_def in_range_def mark_def)
  qed
  have loop: "(if \<not> Tx_IsCoinBase tx then disconnect_loop (apply_tx V pos tx db) (vin tx) else (True, apply_tx V pos tx db)) =
      (True, mark (apply_tx V pos tx db) ?S DiskTxPos_null)"
  proof (cases "Tx_IsCoinBase tx")
    case False
    then have "\<forall>txin\<in>set (vin tx). in_range (apply_tx V pos tx db) (output_of txin)" using range by (simp add: spent_by_def)
    from disconnect_loop_mark [OF this] show ?thesis using False by (simp add: spent_by_def)
  qed (simp add: spent_by_def)
  have "(mark (apply_tx V pos tx db) ?S DiskTxPos_null)(?h := None) = db"
  proof
    fix h
    show "((mark (apply_tx V pos tx db) ?S DiskTxPos_null)(?h := None)) h = db h"
    proof (cases "h = ?h")
      case True
      then show ?thesis using assms(2) by (auto simp: domIff)
    next
      case False
      then have "mark (apply_tx V pos tx db) ?S DiskTxPos_null h = mark (mark db ?S pos) ?S DiskTxPos_null h"
        by (simp add: mark_def apply_tx_def)
      then show ?thesis using False unmark [OF assms(1,3)] by simp
    qed
  qed
  then show ?thesis using loop by (simp add: DisconnectInputs_def)
qed

lemma disconnect_txs_append:
  "disconnect_txs sha db (xs @ ys) =
     (case disconnect_txs sha db xs of (ok, db) \<Rightarrow> if ok then disconnect_txs sha db ys else (False, db))"
  by (induction xs arbitrary: db) (auto split: prod.splits)

lemma connect_block_loop_db:
  assumes "connect_block_loop V db p fJustCheck txs a = Inr a'" "bi_nFile (ch_heap V p) \<noteq> - 1"
    "db_wf (db ++ ac_queued a)" "distinct (map (tx_hash V) txs)" "\<forall>tx\<in>set txs. tx_hash V tx \<notin> dom (db ++ ac_queued a)"
  shows "disconnect_txs (ch_sha V) (db ++ ac_queued a') (rev txs) = (True, db ++ ac_queued a) \<and>
    distinct (concat (map spent_by txs)) \<and>
    (\<forall>out\<in>set (concat (map spent_by txs)). unspent (db ++ ac_queued a) out \<or> fst out \<in> tx_hash V ` set txs)"
  using assms(1,3-5)
proof (induction txs arbitrary: a)
  case (Cons tx txs)
  obtain a1 where a1: "connect_block_tx V db p fJustCheck tx a = Inr a1" "connect_block_loop V db p fJustCheck txs a1 = Inr a'"
    using Cons.prems(1) by (auto split: sum.splits)
  let ?D = "db ++ ac_queued a" and ?D1 = "db ++ ac_queued a1" and ?pos = "pos_of V p a"
  have pos: "\<not> DiskTxPos_IsNull ?pos" using assms(2) by (simp add: pos_of_def DiskTxPos_IsNull_def)
  note t = connect_block_tx_db [OF a1(1) assms(2)]
  have D1: "?D1 = apply_tx V ?pos tx ?D" using t by simp
  have "tx_hash V tx \<notin> tx_hash V ` set txs" using Cons.prems(3) by simp
  then have other: "tx_hash V tx' \<noteq> tx_hash V tx" if "tx' \<in> set txs" for tx' using that by (metis imageI)
  have fresh: "tx_hash V tx \<notin> dom ?D" "\<forall>tx'\<in>set txs. tx_hash V tx' \<notin> dom ?D1"
    using Cons.prems(4) other unfolding D1 dom_apply by (simp_all del: dom_map_add)
  have ih: "disconnect_txs (ch_sha V) (db ++ ac_queued a') (rev txs) = (True, ?D1) \<and>
    distinct (concat (map spent_by txs)) \<and>
    (\<forall>out\<in>set (concat (map spent_by txs)). unspent ?D1 out \<or> fst out \<in> tx_hash V ` set txs)"
    using Cons.IH [OF a1(2)] db_wf_apply [OF Cons.prems(2) pos] Cons.prems(3) fresh(2) unfolding D1 by simp
  have un: "DisconnectInputs (ch_sha V) ?D1 tx = (True, ?D)"
    unfolding D1 using DisconnectInputs_apply [OF Cons.prems(2) fresh(1)] t by blast
  have later: "(unspent ?D out \<and> out \<notin> set (spent_by tx)) \<or> fst out \<in> tx_hash V ` set (tx # txs)"
    if "out \<in> set (concat (map spent_by txs))" for out
    using ih that unspent_apply [OF pos, of out V tx ?D] unfolding D1 by (cases "fst out = tx_hash V tx") auto
  have "out \<notin> set (concat (map spent_by txs))" if "out \<in> set (spent_by tx)" for out
  proof
    assume a: "out \<in> set (concat (map spent_by txs))"
    have "unspent ?D out" using t that by blast
    then have "fst out \<in> dom ?D" by (rule unspent_dom)
    then have "fst out \<notin> tx_hash V ` set (tx # txs)" using Cons.prems(4) by auto
    then show False using later [OF a] that by blast
  qed
  then have disj: "set (spent_by tx) \<inter> set (concat (map spent_by txs)) = {}" by blast
  show ?case
  proof (intro conjI ballI)
    show "disconnect_txs (ch_sha V) (db ++ ac_queued a') (rev (tx # txs)) = (True, ?D)"
      using ih un by (simp add: disconnect_txs_append)
    show "distinct (concat (map spent_by (tx # txs)))" using ih t disj by simp
  next
    fix out assume "out \<in> set (concat (map spent_by (tx # txs)))"
    then consider "out \<in> set (spent_by tx)" | "out \<in> set (concat (map spent_by txs))" by auto
    then show "unspent ?D out \<or> fst out \<in> tx_hash V ` set (tx # txs)" using t later by cases blast+
  qed
qed simp

lemma ConnectBlock_loop:
  assumes "ConnectBlock V now db p fJustCheck b = (Inr (), h', db')"
  shows "\<exists>a. connect_block_loop V db p fJustCheck (vtx b)
      \<lparr> ac_nTxPos = (if fJustCheck then 1 else first_tx_pos (ch_heap V p) b), ac_queued = Map.empty, ac_nFees = 0,
        ac_nValueIn = 0, ac_nValueOut = 0, ac_nSigOps = 0 \<rparr> = Inr a \<and> (\<not> fJustCheck \<longrightarrow> db' = db ++ ac_queued a) \<and>
      h' = (ch_heap V)(p := (ch_heap V p)\<lparr>nMint := ac_nValueOut a - ac_nValueIn a + ac_nFees a,
        nMoneySupply := (case pprev (ch_heap V p) of Some q \<Rightarrow> nMoneySupply (ch_heap V q) | None \<Rightarrow> 0) + ac_nValueOut a - ac_nValueIn a\<rparr>) \<and>
      CheckBlock (ch_block V) now (\<not> fJustCheck) (\<not> fJustCheck) b = Inr () \<and>
      (\<not> fJustCheck \<longrightarrow> (\<exists>nValueOut reward. Tx_GetValueOut (vtx b ! 0) = Some nValueOut \<and>
         GetProofOfWorkReward (ch_consts V) (nHeight (ch_heap V p)) (ac_nFees a) False = Some reward \<and> \<not> reward <s nValueOut))"
  using assms unfolding ConnectBlock_def
  by (auto simp: Let_def split: sum.splits if_splits option.splits)

lemma CheckBlock_distinct:
  assumes "CheckBlock N now fPOW fMerkle b = Inr ()"
  shows "distinct (map (Tx_GetHash (be_sha N)) (vtx b))"
proof -
  have "length (remdups (map (Tx_GetHash (be_sha N)) (vtx b))) = length (vtx b)"
    using assms by (auto simp: CheckBlock_def Let_def split: if_splits sum.splits)
  then have "card (set (map (Tx_GetHash (be_sha N)) (vtx b))) = length (map (Tx_GetHash (be_sha N)) (vtx b))"
    by (simp add: length_remdups_card_conv)
  then show ?thesis by (rule card_distinct)
qed

lemma ConnectBlock_undo:
  assumes "ConnectBlock V now db p False b = (Inr (), h', db')" "db_wf db" "bi_nFile (ch_heap V p) \<noteq> - 1"
    "\<forall>tx\<in>set (vtx b). Tx_GetHash (ch_sha V) tx \<notin> dom db"
  shows "DisconnectBlock (ch_sha V) db' b = (True, db)"
proof -
  obtain a where a: "connect_block_loop V db p False (vtx b)
      \<lparr> ac_nTxPos = first_tx_pos (ch_heap V p) b, ac_queued = Map.empty, ac_nFees = 0,
        ac_nValueIn = 0, ac_nValueOut = 0, ac_nSigOps = 0 \<rparr> = Inr a" "db' = db ++ ac_queued a"
      "CheckBlock (ch_block V) now True True b = Inr ()"
    using ConnectBlock_loop [OF assms(1)] by auto
  show ?thesis
    using connect_block_loop_db [OF a(1) assms(3)] assms(2,4) a(2) CheckBlock_distinct [OF a(3)]
    by (simp add: DisconnectBlock_def)
qed

text \<open>C3. Disconnecting undoes connecting: after ConnectBlock has accepted a block of new transactions,
  DisconnectBlock succeeds and restores the transaction database.\<close>

theorem disconnect_undoes_connect:
  assumes "ConnectBlock V now db p False b = (Inr (), h', db')" "db_wf db" "bi_nFile (ch_heap V p) \<noteq> - 1"
    "\<forall>tx\<in>set (vtx b). Tx_GetHash (ch_sha V) tx \<notin> dom db"
  shows "DisconnectBlock (ch_sha V) db' b = (True, db)"
  using assms by (rule ConnectBlock_undo)

text \<open>C5. No double spends: the outputs spent by the transactions of a connected block are all different, and each
  was unspent before or is created in the block.\<close>

theorem block_spends_once:
  assumes "ConnectBlock V now db p fJustCheck b = (Inr (), h', db')" "db_wf db" "bi_nFile (ch_heap V p) \<noteq> - 1"
    "\<forall>tx\<in>set (vtx b). Tx_GetHash (ch_sha V) tx \<notin> dom db"
  shows "distinct (concat (map spent_by (vtx b))) \<and>
    (\<forall>out\<in>set (concat (map spent_by (vtx b))). unspent db out \<or> fst out \<in> Tx_GetHash (ch_sha V) ` set (vtx b))"
proof -
  obtain a a0 where a: "connect_block_loop V db p fJustCheck (vtx b) a0 = Inr a" "ac_queued a0 = Map.empty"
      "CheckBlock (ch_block V) now (\<not> fJustCheck) (\<not> fJustCheck) b = Inr ()"
    using ConnectBlock_loop [OF assms(1)] by fastforce
  show ?thesis
    using connect_block_loop_db [OF a(1) assms(3)] assms(2,4) a(2) CheckBlock_distinct [OF a(3)] by simp
qed

subsection \<open>A block that connects\<close>

text \<open>A coinbase and one spending transaction, on a database with one unspent output.\<close>


definition w_coinbase :: CTransaction where
  "w_coinbase = \<lparr>tx_nVersion = 1, tx_nVersionCompat = 1, tx_nTime = 10,
     vin = [\<lparr>prevout = OutPoint_null, scriptSig = [1, 1], nSequence = 0\<rparr>],
     vout = [\<lparr>nValue = 1000, scriptPubKey = []\<rparr>], tx_nLockTime = 0, tx_message = [], tx_nDoS = 0\<rparr>"

definition w_prev_hash :: base_uint where "w_prev_hash = [9, 0, 0, 0, 0, 0, 0, 0]"

definition w_spend :: CTransaction where
  "w_spend = \<lparr>tx_nVersion = 1, tx_nVersionCompat = 1, tx_nTime = 9,
     vin = [\<lparr>prevout = COutPoint w_prev_hash 0, scriptSig = [], nSequence = 0\<rparr>],
     vout = [\<lparr>nValue = 3000, scriptPubKey = []\<rparr>], tx_nLockTime = 0, tx_message = [], tx_nDoS = 0\<rparr>"

definition w_prev :: CTransaction where
  "w_prev = w_spend\<lparr>tx_nTime := 8, vout := [\<lparr>nValue = 5000, scriptPubKey = []\<rparr>]\<rparr>"

definition w_sha :: sha256 where "w_sha bs = replicate 4 0 @ [bs ! 4] @ replicate 27 0"

lemma w_hash: "Tx_GetHash w_sha tx = [0, word_of_nat (unat (ucast (tx_nTime tx) :: byte)), 0, 0, 0, 0, 0, 0]"
proof -
  have z: "replicate 4 (0 :: byte) = [0, 0, 0, 0]" "replicate 27 (0 :: byte) = [0,0,0,0,0,0,0,0,0,0,0,0,0,0,0,0,0,0,0,0,0,0,0,0,0,0,0]"
    by (simp_all add: numeral_eq_Suc)
  have "ser_CTransaction SER_GETHASH PROTOCOL_VERSION tx ! 4 = ucast (tx_nTime tx)"
    by (simp add: ser_CTransaction_def SER_GETHASH_def WRITEDATA_def words_of_4)
  then show ?thesis
    by (simp add: Tx_GetHash_def SerializeHash_def Hash_def w_sha_def z)
qed

definition w_env :: chain_env where
  "w_env = \<lparr> ch_params = main_params,
     ch_block = \<lparr> be_crypto = \<lparr> cr_ripemd160 = id, cr_sha1 = id, cr_sha256 = w_sha, cr_verify = (\<lambda>k h s. False) \<rparr>,
       be_hash9 = (\<lambda>bs. u_of_uint64 8 0), be_limits = main_limits, be_genesis = u_of_uint64 8 0 \<rparr>,
     ch_consts = \<lparr> x13CutoffHeight = [100], x13CutoffReward = [2000], mSHACutoffHeight = [], mSHACutoffReward = [] \<rparr>,
     ch_heap = (\<lambda>p. BlockIndex_default\<lparr>bi_nFile := 1, bi_nBlockPos := 8\<rparr>), ch_files = \<lparr> bf_tx = (\<lambda>pos. Some w_prev), bf_header = (\<lambda>f p. None) \<rparr>,
     ch_mempool = Map.empty, ch_nBestHeight = 0, ch_estimate = 100 \<rparr>"

definition w_block :: CBlock where
  "w_block = Block_SetNull\<lparr>vtx := [w_coinbase, w_spend], b_nTime := 10, b_nBits := 0x03000004,
     hashMerkleRoot := fst (BuildMerkleTree w_sha (Block_SetNull\<lparr>vtx := [w_coinbase, w_spend]\<rparr>))\<rparr>"

definition w_db :: txdb where
  "w_db = [w_prev_hash \<mapsto> TxIndex_new \<lparr> nFile = 2, nBlockPos = 2, nTxPos = 2 \<rparr> 1]"

lemmas w_defs = w_coinbase_def w_spend_def w_prev_def w_prev_hash_def

lemmas size_defs = GetSerializeSize_CTransaction_def SER_NETWORK_def SER_DISK_def SER_GETHASH_def SER_BLOCKHEADERONLY_def
  GetSerializeSize_uint_def GetSerializeSize_vector_def GetSerializeSize_CTxIn_def GetSerializeSize_CTxOut_def
  GetSerializeSize_COutPoint_def GetSerializeSize_vch_def GetSerializeSize_string_def GetSizeOfCompactSize_def

lemma u_zero8: "u_of_uint64 8 0 = [0, 0, 0, 0, 0, 0, 0, 0]"
  by (simp add: u_of_uint64_def numeral_eq_Suc)

lemma w_kinds:
  "Tx_IsCoinBase w_coinbase" "\<not> Tx_IsCoinBase w_spend" "\<not> Tx_IsCoinStake w_spend" "\<not> Tx_IsCoinBase w_prev" "\<not> Tx_IsCoinStake w_prev"
  by (simp_all add: w_defs Tx_IsCoinBase_def Tx_IsCoinStake_def OutPoint_IsNull_def OutPoint_null_def u_eq64_def u_zero8)

lemma w_sizes:
  "GetSerializeSize_CTransaction SER_NETWORK v w_coinbase = 66" "GetSerializeSize_CTransaction SER_NETWORK v w_spend = 64"
  "GetSerializeSize_CTransaction SER_DISK v w_coinbase = 66" "GetSerializeSize_CTransaction SER_DISK v w_spend = 64"
  by (simp_all add: w_defs size_defs Let_def word_sle_eq)

lemma w_check_tx: "CheckTransaction w_coinbase = (True, w_coinbase)" "CheckTransaction w_spend = (True, w_spend)"
proof -
  have o: "CheckTransaction_outputs w_coinbase 0 (vout w_coinbase) = (True, 0)" "CheckTransaction_outputs w_spend 0 (vout w_spend) = (True, 0)"
    by (simp_all add: w_defs TxOut_IsEmpty_def MIN_TXOUT_AMOUNT_def MIN_TX_FEE_def CENT_def MAX_MONEY_def COIN_def MoneyRange_iff money_max_def word_sless_alt)
  show "CheckTransaction w_coinbase = (True, w_coinbase)"
    using o w_kinds w_sizes by (simp add: CheckTransaction_def MAX_BLOCK_SIZE_def OutPoint_count_def) (simp add: w_defs OutPoint_count_def)
  show "CheckTransaction w_spend = (True, w_spend)"
    using o w_kinds w_sizes by (simp add: CheckTransaction_def MAX_BLOCK_SIZE_def) (simp add: w_defs OutPoint_count_def OutPoint_IsNull_def u_eq64_def)
qed

lemma w_pow: "CheckProofOfWork main_limits (u_of_uint64 8 0) (b_nBits w_block)"
proof -
  have "compact_val 0x03000004 = 4" by (simp add: compact_val_def Let_def)
  moreover have "\<not> u_gt (u_of_uint64 8 0) (getuint256 int_openssl 4)"
    using u_compare(3) [of "u_of_uint64 8 0" "getuint256 int_openssl 4"] wval_getuint256 [OF int_openssl_ok, of 4] by (simp add: u_zero8)
  ultimately show ?thesis by (simp add: CheckProofOfWork_def w_block_def main_limits_values)
qed

lemma w_check: "CheckBlock (ch_block w_env) 0 True True w_block = Inr ()"
proof -
  have hs: "length (remdups (map (Tx_GetHash w_sha) (vtx w_block))) = length (vtx w_block)"
    by (simp add: w_block_def w_hash w_coinbase_def w_spend_def)
  have root: "u_eq (hashMerkleRoot w_block) (fst (BuildMerkleTree w_sha w_block))"
    by (simp add: w_block_def BuildMerkleTree_def Let_def u_eq_iff)
  have ps: "\<not> Block_IsProofOfStake w_block" using w_kinds by (simp add: Block_IsProofOfStake_def w_block_def)
  have sz: "\<not> GetSerializeSize_CBlock SER_NETWORK w_block > MAX_BLOCK_SIZE"
    by (simp add: GetSerializeSize_CBlock_def w_block_def Block_SetNull_def w_sizes(1,2) [unfolded SER_NETWORK_def] SER_NETWORK_def SER_GETHASH_def SER_BLOCKHEADERONLY_def
      GetSerializeSize_uint_def GetSerializeSize_vector_def GetSerializeSize_vch_def GetSizeOfCompactSize_def Let_def word_sle_eq MAX_BLOCK_SIZE_def)
  have tx: "CheckBlock_txs 10 (vtx w_block) = Inr ()"
    using w_check_tx by (simp add: w_block_def) (simp add: w_defs)
  have so: "\<not> block_sigops w_block > MAX_BLOCK_SIGOPS"
    by (simp add: block_sigops_def w_block_def w_defs GetLegacySigOpCount_def GetSigOpCount_def GetSigOpCount_loop.simps GetOp2_def MAX_BLOCK_SIGOPS_def MAX_BLOCK_SIZE_def)
  have sg: "CheckBlockSignature (ch_block w_env) w_block"
    by (simp add: CheckBlockSignature_def w_env_def Block_GetHash_def u_eq_iff w_block_def Block_SetNull_def)
  have f: "vtx w_block = [w_coinbase, w_spend]" "b_nTime w_block = 10" "tx_nTime w_coinbase = 10"
    "unat MAX_BLOCK_SIZE = 2097152" "be_limits (ch_block w_env) = main_limits" "be_sha (ch_block w_env) = w_sha"
    "Block_GetHash (be_hash9 (ch_block w_env)) w_block = u_of_uint64 8 0"
    by (simp_all add: w_block_def w_coinbase_def MAX_BLOCK_SIZE_def w_env_def Block_GetHash_def)
  show ?thesis
    using hs root ps sz w_pow tx so sg w_kinds unfolding CheckBlock_def Let_def f
    by (simp add: nMaxClockDrift_def f)
qed


lemma w_facts:
  "GetLegacySigOpCount w_coinbase = 0" "GetLegacySigOpCount w_spend = 0"
  "Tx_GetValueOut w_coinbase = Some 1000" "Tx_GetValueOut w_spend = Some 3000"
  "w_db (Tx_GetHash w_sha w_coinbase) = None" "w_db (Tx_GetHash w_sha w_spend) = None" "Tx_GetHash w_sha w_coinbase \<noteq> w_prev_hash"
  "length (vout w_coinbase) = 1" "length (vout w_spend) = 1"
  "w_db w_prev_hash = Some (TxIndex_new \<lparr> nFile = 2, nBlockPos = 2, nTxPos = 2 \<rparr> 1)"
  "ch_sha w_env = w_sha" "bi_nFile (ch_heap w_env p) = 1" "bi_nBlockPos (ch_heap w_env p) = 8"
  by (simp_all add: w_hash w_defs GetLegacySigOpCount_def GetSigOpCount_def GetSigOpCount_loop.simps GetOp2_def
      Tx_GetValueOut_def MoneyRange_iff money_max_def Let_def w_db_def w_env_def BlockIndex_default_def)

definition w_pos :: "u32 \<Rightarrow> CDiskTxPos" where "w_pos n = \<lparr> nFile = 1, nBlockPos = 8, nTxPos = n \<rparr>"

lemma w_tx1:
  assumes "ac_nSigOps a = 0"
  shows "connect_block_tx w_env w_db 0 False w_coinbase a = Inr (a\<lparr>ac_nTxPos := ac_nTxPos a + 66, ac_nValueOut := ac_nValueOut a + 1000,
    ac_queued := (ac_queued a)(Tx_GetHash w_sha w_coinbase \<mapsto> TxIndex_new (w_pos (ac_nTxPos a)) 1)\<rparr>)"
  using assms w_kinds unfolding connect_block_tx_def Let_def w_facts w_sizes
  by (simp add: w_pos_def w_sizes MAX_BLOCK_SIGOPS_def MAX_BLOCK_SIZE_def)

abbreviation w_txindex :: CTxIndex where "w_txindex \<equiv> TxIndex_new \<lparr> nFile = 2, nBlockPos = 2, nTxPos = 2 \<rparr> 1"

lemma w_fetch:
  assumes "q w_prev_hash = None"
  shows "FetchInputs w_env w_db q True False w_spend = Inr [w_prev_hash \<mapsto> (w_txindex, w_prev)]"
proof -
  have v: "vin w_spend = [\<lparr>prevout = COutPoint w_prev_hash 0, scriptSig = [], nSequence = 0\<rparr>]" by (simp add: w_spend_def)
  have t: "ti_pos w_txindex \<noteq> mempool_pos" by (simp add: TxIndex_new_def mempool_pos_def)
  have "bf_tx (ch_files w_env) p = Some w_prev" for p by (simp add: w_env_def)
  then have "fetch_loop w_env w_db q True False Map.empty (vin w_spend) = Inr [w_prev_hash \<mapsto> (w_txindex, w_prev)]"
    using assms t by (simp add: v w_facts Let_def)
  moreover have "list_all (prevout_in_range [w_prev_hash \<mapsto> (w_txindex, w_prev)]) (vin w_spend)"
    by (simp add: v prevout_in_range_def TxIndex_new_def w_prev_def)
  ultimately show ?thesis using w_kinds by (simp add: FetchInputs_def)
qed

lemma w_fee: "Tx_GetMinFee w_spend 1 GMF_BLOCK 0 0 = 1000"
  by (simp add: Tx_GetMinFee_def MIN_TX_FEE_def MAX_MONEY_def CENT_def COIN_def)

lemma w_connect_inputs:
  "\<exists>q'. ConnectInputs w_env w_db [w_prev_hash \<mapsto> (w_txindex, w_prev)] q pos (Some 0) True False True w_spend = Inr q'"
proof -
  have v: "vin w_spend = [\<lparr>prevout = COutPoint w_prev_hash 0, scriptSig = [], nSequence = 0\<rparr>]" by (simp add: w_spend_def)
  have p: "vout w_prev = [\<lparr>nValue = 5000, scriptPubKey = []\<rparr>]" "tx_nTime w_prev = 8" "tx_nTime w_spend = 9" by (simp_all add: w_prev_def w_spend_def)
  have "connect_check (ch_heap w_env) (Some 0) [w_prev_hash \<mapsto> (w_txindex, w_prev)] (tx_nTime w_spend) 0 (vin w_spend) = Inr 5000"
    using w_kinds by (simp add: v p TxIndex_new_def MoneyRange_iff money_max_def Let_def)
  moreover have "ch_nBestHeight w_env < ch_estimate w_env" by (simp add: w_env_def)
  then have "\<exists>i' q'. connect_spend w_env w_spend pos True False True [w_prev_hash \<mapsto> (w_txindex, w_prev)] q 0 (vin w_spend) = Inr (i', q')"
    by (simp add: v TxIndex_new_def DiskTxPos_null_def DiskTxPos_IsNull_def Let_def)
  moreover have "connect_fees w_env w_db w_spend True 5000 = Inr ()"
    using w_kinds w_facts by (simp add: connect_fees_def GetMinFee_def w_fee MoneyRange_iff money_max_def Let_def word_sless_alt)
  ultimately show ?thesis using w_kinds by (auto simp: ConnectInputs_def)
qed

lemma w_tx2:
  assumes "ac_nSigOps a = 0" "ac_queued a w_prev_hash = None"
  shows "\<exists>a'. connect_block_tx w_env w_db 0 False w_spend a = Inr a' \<and> ac_nFees a' = ac_nFees a + 2000"
proof -
  let ?in = "[w_prev_hash \<mapsto> (w_txindex, w_prev)]"
  have v: "vin w_spend = [\<lparr>prevout = COutPoint w_prev_hash 0, scriptSig = [], nSequence = 0\<rparr>]" by (simp add: w_spend_def)
  have p: "vout w_prev = [\<lparr>nValue = 5000, scriptPubKey = []\<rparr>]" by (simp add: w_prev_def)
  have "GetP2SHSigOpCount ?in w_spend = Inr 0" "GetValueIn ?in w_spend = Inr 5000"
    using w_kinds by (simp_all add: GetP2SHSigOpCount_def GetValueIn_def v p GetOutputFor_def IsPayToScriptHash_def)
  moreover obtain q' where "ConnectInputs w_env w_db ?in (ac_queued a) \<lparr> nFile = 1, nBlockPos = 8, nTxPos = ac_nTxPos a \<rparr> (Some 0) True False True w_spend = Inr q'"
    using w_connect_inputs by blast
  ultimately show ?thesis
    using assms w_kinds w_facts w_fetch [where q = "ac_queued a", OF assms(2)] unfolding connect_block_tx_def Let_def
    by (simp add: w_facts MAX_BLOCK_SIGOPS_def MAX_BLOCK_SIZE_def)
qed

lemma w_connect: "\<exists>h' db'. ConnectBlock w_env 0 w_db 0 False w_block = (Inr (), h', db')"
proof -
  let ?p = "first_tx_pos (ch_heap w_env 0) w_block"
  let ?a = "\<lparr> ac_nTxPos = ?p, ac_queued = Map.empty, ac_nFees = 0, ac_nValueIn = 0, ac_nValueOut = 0, ac_nSigOps = 0 \<rparr>"
  let ?a1 = "?a\<lparr>ac_nTxPos := ?p + 66, ac_nValueOut := 1000, ac_queued := [Tx_GetHash w_sha w_coinbase \<mapsto> TxIndex_new (w_pos ?p) 1]\<rparr>"
  have 1: "connect_block_tx w_env w_db 0 False w_coinbase ?a = Inr ?a1" using w_tx1 [of ?a] by simp
  obtain a' where 2: "connect_block_tx w_env w_db 0 False w_spend ?a1 = Inr a'" "ac_nFees a' = 2000"
    using w_tx2 [of ?a1] w_facts(7) by auto
  have l: "connect_block_loop w_env w_db 0 False (vtx w_block) ?a = Inr a'"
    using 1 2 by (simp add: w_block_def)
  have r: "GetProofOfWorkReward (ch_consts w_env) (nHeight (ch_heap w_env 0)) 2000 False = Some 4000"
    by (simp add: w_env_def GetProofOfWorkReward_def BlockIndex_default_def int32_ok_def)
  show ?thesis
    using l r w_facts(3) unfolding ConnectBlock_def Let_def
    by (simp add: w_check 2 w_block_def [THEN arg_cong [where f = vtx]] Let_def word_sless_alt)
qed

lemma w_wf: "db_wf w_db" by (simp add: db_wf_def w_db_def TxIndex_new_def)

lemma w_file: "bi_nFile (ch_heap w_env 0) \<noteq> - 1" by (simp add: w_facts)

lemma w_fresh: "\<forall>tx\<in>set (vtx w_block). Tx_GetHash (ch_sha w_env) tx \<notin> dom w_db"
  using w_facts(5,6) by (simp add: w_block_def w_facts(11) domIff)

theorem disconnect_undoes_connect_witness:
  "\<exists>h' db'. ConnectBlock w_env 0 w_db 0 False w_block = (Inr (), h', db') \<and> DisconnectBlock w_sha db' w_block = (True, w_db)"
proof -
  obtain h' db' where c: "ConnectBlock w_env 0 w_db 0 False w_block = (Inr (), h', db')" using w_connect by blast
  have "DisconnectBlock (ch_sha w_env) db' w_block = (True, w_db)"
    by (rule disconnect_undoes_connect [OF c w_wf w_file w_fresh])
  then show ?thesis using c w_facts(11) by auto
qed

theorem block_spends_once_witness:
  "concat (map spent_by (vtx w_block)) = [(w_prev_hash, 0)] \<and> distinct (concat (map spent_by (vtx w_block)))"
proof -
  obtain h' db' where c: "ConnectBlock w_env 0 w_db 0 False w_block = (Inr (), h', db')" using w_connect by blast
  have "concat (map spent_by (vtx w_block)) = [(w_prev_hash, 0)]"
    using w_kinds by (simp add: w_block_def spent_by_def) (simp add: w_spend_def output_of_def)
  then show ?thesis using block_spends_once [OF c w_wf w_file w_fresh] by blast
qed

end
