(* ===== verification/Supply.thy ===== *)
theory Supply
  imports Connect
begin

text \<open>
  Value and maturity in connected blocks: the inputs of a transaction cover its outputs and the fee, a
  proof-of-work block issues at most its subsidy, and generated coins rest for the maturity period.
\<close>

subsection \<open>Values\<close>

text \<open>The exact value of the inputs, and the exact fee of a transaction.\<close>

definition input_value :: "MapPrevTx \<Rightarrow> CTxIn \<Rightarrow> nat" where
  "input_value inputs txin =
     (case inputs (o_hash (prevout txin)) of None \<Rightarrow> 0
      | Some (_, txPrev) \<Rightarrow> unat (nValue (vout txPrev ! unat (o_n (prevout txin)))))"

definition input_sum :: "MapPrevTx \<Rightarrow> CTxIn list \<Rightarrow> nat" where
  "input_sum inputs ins = sum_list (map (input_value inputs) ins)"

lemma connect_check_sum:
  "connect_check h pindex inputs nTime acc ins = Inr v \<Longrightarrow> unat acc \<le> money_max \<Longrightarrow>
   unat v = unat acc + input_sum inputs ins \<and> unat v \<le> money_max \<and>
   value_in_loop inputs acc ins = Inr v"
proof (induction ins arbitrary: acc)
  case (Cons txin ins)
  let ?n = "unat (o_n (prevout txin))"
  obtain ti txPrev where ti: "inputs (o_hash (prevout txin)) = Some (ti, txPrev)"
    using Cons.prems(1) by (auto simp: Let_def split: option.splits)
  let ?v = "nValue (vout txPrev ! ?n)"
  have c: "?n < length (vout txPrev)" "MoneyRange ?v" "MoneyRange (acc + ?v)"
    "connect_check h pindex inputs nTime (acc + ?v) ins = Inr v"
    using Cons.prems(1) ti by (auto simp: Let_def split: option.splits if_splits)
  then have m: "unat ?v \<le> money_max" "unat (acc + ?v) \<le> money_max" by (simp_all add: MoneyRange_iff)
  then have s: "unat (acc + ?v) = unat acc + unat ?v" using Cons.prems(2) by (simp add: unat_add_money)
  have "input_sum inputs (txin # ins) = unat ?v + input_sum inputs ins" using ti by (simp add: input_sum_def input_value_def)
  moreover have "value_in_loop inputs acc (txin # ins) = value_in_loop inputs (acc + ?v) ins"
    using c(1) ti by (simp add: GetOutputFor_def)
  ultimately show ?case using Cons.IH [OF c(4) m(2)] s by simp
qed (simp add: input_sum_def)

lemma GetMinFee_block: "GetMinFee tx = 1000"
  by (simp add: GetMinFee_def Tx_GetMinFee_def MIN_TX_FEE_def MAX_MONEY_def CENT_def COIN_def)

lemma connect_fees_plain:
  assumes "connect_fees V db tx fBlock v = Inr ()" "\<not> Tx_IsCoinStake tx" "unat v \<le> money_max"
  shows "value_sum (vout tx) + 1000 \<le> unat v \<and> Tx_GetValueOut tx = Some (word_of_nat (value_sum (vout tx)))"
proof -
  obtain out where o: "Tx_GetValueOut tx = Some out" "\<not> v <s out" "\<not> v - out <s 1000"
    using assms(1,2) by (auto simp: connect_fees_def GetMinFee_block Let_def split: option.splits if_splits)
  have s: "value_sum (vout tx) \<le> money_max" "out = word_of_nat (value_sum (vout tx))"
    using o(1) by (auto simp: Tx_GetValueOut_spec split: if_splits)
  have u: "unat out = value_sum (vout tx)" using s by (simp add: unat_of_nat money_max_def)
  have i: "sint v = int (unat v)" "sint out = int (unat out)"
    using assms(3) s u by (simp_all add: sint_small money_max_def)
  have le: "unat out \<le> unat v" using o(2) i unfolding word_sless_alt by linarith
  have d: "unat (v - out) = unat v - unat out" using le by (simp add: unat_sub word_le_nat_alt)
  have "sint (v - out) = int (unat (v - out))" using assms(3) unfolding d [symmetric] money_max_def
    by (intro sint_small) (use d in simp)
  moreover have "sint (1000 :: u64) = 1000" by simp
  ultimately have "1000 \<le> unat (v - out)" using o(3) unfolding word_sless_alt by linarith
  then show ?thesis using d u le o(1) s(2) by simp
qed

lemma ConnectInputs_value:
  assumes "ConnectInputs V db inputs pool pos pindex fBlock fMiner fStrict tx = Inr pool'" "\<not> Tx_IsCoinBase tx"
  shows "\<exists>v. unat v = input_sum inputs (vin tx) \<and> unat v \<le> money_max \<and> value_in_loop inputs 0 (vin tx) = Inr v \<and>
    connect_fees V db tx fBlock v = Inr ()"
proof -
  obtain v where v: "connect_check (ch_heap V) pindex inputs (tx_nTime tx) 0 (vin tx) = Inr v" "connect_fees V db tx fBlock v = Inr ()"
    using assms by (auto simp: ConnectInputs_def split: sum.splits)
  show ?thesis using connect_check_sum [OF v(1)] v(2) by (auto simp: money_max_def)
qed

text \<open>C6. No value is created by a transaction: whenever ConnectInputs accepts one that is neither a coinbase nor a
  coinstake, the exact sum of its inputs is within the money range and covers the exact sum of its
  outputs and the minimum fee.\<close>

theorem inputs_pay_outputs:
  assumes "ConnectInputs V db inputs pool pos pindex fBlock fMiner fStrict tx = Inr pool'"
    "\<not> Tx_IsCoinBase tx" "\<not> Tx_IsCoinStake tx"
  shows "value_sum (vout tx) + 1000 \<le> input_sum inputs (vin tx) \<and> input_sum inputs (vin tx) \<le> money_max"
  using ConnectInputs_value [OF assms(1,2)] connect_fees_plain [OF _ assms(3)] by force

theorem inputs_pay_outputs_witness:
  "value_sum (vout w_spend) + 1000 \<le> input_sum [w_prev_hash \<mapsto> (w_txindex, w_prev)] (vin w_spend) \<and>
   input_sum [w_prev_hash \<mapsto> (w_txindex, w_prev)] (vin w_spend) = 5000"
proof -
  obtain q' where c: "ConnectInputs w_env w_db [w_prev_hash \<mapsto> (w_txindex, w_prev)] Map.empty mempool_pos (Some 0) True False True w_spend = Inr q'"
    using w_connect_inputs by blast
  have "input_sum [w_prev_hash \<mapsto> (w_txindex, w_prev)] (vin w_spend) = 5000"
    by (simp add: input_sum_def input_value_def w_spend_def w_prev_def)
  then show ?thesis using inputs_pay_outputs [OF c w_kinds(2,3)] by blast
qed

subsection \<open>The money supply\<close>

text \<open>What a round of the loop adds to the totals: the fee of a plain transaction leaves the supply.\<close>

lemma connect_block_tx_totals:
  assumes "connect_block_tx V db p fJustCheck tx a = Inr a'" "\<not> Tx_IsCoinStake tx"
  shows "\<exists>coin fee. ac_nFees a' = ac_nFees a + fee \<and> unat fee \<le> money_max \<and>
    ac_nValueOut a' - ac_nValueIn a' = ac_nValueOut a - ac_nValueIn a + coin - fee \<and>
    (if Tx_IsCoinBase tx then Tx_GetValueOut tx = Some coin \<and> fee = 0 else coin = 0)"
proof (cases "Tx_IsCoinBase tx")
  case True
  then obtain out where "Tx_GetValueOut tx = Some out" "ac_nValueOut a' = ac_nValueOut a + out"
      "ac_nValueIn a' = ac_nValueIn a" "ac_nFees a' = ac_nFees a"
    using assms(1) by (auto simp: connect_block_tx_def Let_def split: if_splits option.splits)
  then show ?thesis using True by (intro exI [of _ out] exI [of _ 0]) simp
next
  case False
  obtain inputs q q' pos vi vo where f: "ConnectInputs V db inputs q pos (Some p) True False True tx = Inr q'"
      "GetValueIn inputs tx = Inr vi" "Tx_GetValueOut tx = Some vo"
      "ac_nFees a' = ac_nFees a + (vi - vo)" "ac_nValueIn a' = ac_nValueIn a + vi" "ac_nValueOut a' = ac_nValueOut a + vo"
    using assms False by (auto simp: connect_block_tx_def Let_def split: if_splits option.splits sum.splits)
  obtain v where v: "value_in_loop inputs 0 (vin tx) = Inr v" "connect_fees V db tx True v = Inr ()" "unat v \<le> money_max"
    using ConnectInputs_value [OF f(1) False] by blast
  have vi: "vi = v" using v(1) f(2) False by (simp add: GetValueIn_def)
  note o = connect_fees_plain [OF v(2) assms(2) v(3)]
  have "unat vo = value_sum (vout tx)" using o f(3) v(3) by (simp add: unat_of_nat money_max_def)
  then have "unat (vi - vo) \<le> money_max" using o v(3) vi by (simp add: unat_sub word_le_nat_alt)
  then show ?thesis using False f by (intro exI [of _ 0] exI [of _ "vi - vo"]) simp
qed

text \<open>The totals of the transactions after the coinbase.\<close>

lemma connect_block_loop_totals:
  assumes "connect_block_loop V db p fJustCheck txs a = Inr a'" "\<forall>tx\<in>set txs. \<not> Tx_IsCoinStake tx \<and> \<not> Tx_IsCoinBase tx"
    "unat (ac_nFees a) + length txs * money_max < 2 ^ 63"
  shows "unat (ac_nFees a') \<le> unat (ac_nFees a) + length txs * money_max \<and>
    ac_nValueOut a' - ac_nValueIn a' + ac_nFees a' = ac_nValueOut a - ac_nValueIn a + ac_nFees a"
  using assms
proof (induction txs arbitrary: a)
  case (Cons tx txs)
  obtain a1 where a1: "connect_block_tx V db p fJustCheck tx a = Inr a1" "connect_block_loop V db p fJustCheck txs a1 = Inr a'"
    using Cons.prems(1) by (auto split: sum.splits)
  obtain fee where f: "ac_nFees a1 = ac_nFees a + fee" "unat fee \<le> money_max"
      "ac_nValueOut a1 - ac_nValueIn a1 = ac_nValueOut a - ac_nValueIn a - fee"
    using connect_block_tx_totals [OF a1(1)] Cons.prems(2) by auto
  have u: "unat (ac_nFees a1) = unat (ac_nFees a) + unat fee"
    unfolding f(1) by (rule unat_plus_simple [THEN iffD1, OF no_olen_add_nat [THEN iffD2]]) (use f(2) Cons.prems(3) in simp)
  have "unat (ac_nFees a') \<le> unat (ac_nFees a1) + length txs * money_max \<and>
    ac_nValueOut a' - ac_nValueIn a' + ac_nFees a' = ac_nValueOut a1 - ac_nValueIn a1 + ac_nFees a1"
    by (rule Cons.IH [OF a1(2)]) (use Cons.prems u f(2) in simp_all)
  then show ?case using f u by simp
qed simp

lemma cutoff_reward_range:
  "cutoff_reward height cs rs result = Some r \<Longrightarrow> - (2 ^ 31) \<le> result \<Longrightarrow> result < 2 ^ 31 \<Longrightarrow> - (2 ^ 31) \<le> r \<and> r < 2 ^ 31"
  by (induction height cs rs result rule: cutoff_reward.induct) (auto simp: int32_ok_def split: if_splits)

lemma reward_and_fees:
  assumes "GetProofOfWorkReward C height 0 False = Some subsidy"
  shows "GetProofOfWorkReward C height nFees False = Some (subsidy + nFees)" "- (2 ^ 31) \<le> sint subsidy" "sint subsidy < 2 ^ 31"
proof -
  obtain r where r: "cutoff_reward height (x13CutoffHeight C) (x13CutoffReward C) 0 = Some r" "subsidy = word_of_int r"
    using assms by (auto simp: GetProofOfWorkReward_def split: bind_splits)
  then show "GetProofOfWorkReward C height nFees False = Some (subsidy + nFees)" by (simp add: GetProofOfWorkReward_def)
  have "- (2 ^ 31) \<le> r \<and> r < 2 ^ 31" using cutoff_reward_range [OF r(1)] by simp
  moreover from this have "sint subsidy = r" unfolding r(2) sint_sbintrunc' by (intro signed_take_bit_int_eq_self) auto
  ultimately show "- (2 ^ 31) \<le> sint subsidy" "sint subsidy < 2 ^ 31" by simp_all
qed

text \<open>Signed arithmetic of amounts below \<open>2 ^ 62\<close>.\<close>

lemma sint_add_small:
  "- (2 ^ 62) \<le> sint x \<Longrightarrow> sint x < 2 ^ 62 \<Longrightarrow> - (2 ^ 62) \<le> sint y \<Longrightarrow> sint y < 2 ^ 62 \<Longrightarrow> sint (x + y :: u64) = sint x + sint y"
  unfolding sint_word_ariths by (intro signed_take_bit_int_eq_self) simp_all

lemma sint_diff_small:
  "- (2 ^ 62) \<le> sint x \<Longrightarrow> sint x < 2 ^ 62 \<Longrightarrow> - (2 ^ 62) \<le> sint y \<Longrightarrow> sint y < 2 ^ 62 \<Longrightarrow> sint (x - y :: u64) = sint x - sint y"
  unfolding sint_word_ariths by (intro signed_take_bit_int_eq_self) simp_all

lemma money_sint:
  assumes "unat (v :: u64) \<le> money_max"
  shows "0 \<le> sint v" "sint v \<le> int money_max"
proof -
  show "0 \<le> sint v" using assms by (subst sint_small) (simp_all add: money_max_def)
  then show "sint v \<le> int money_max" using sint_le_iff assms by blast
qed

lemma CheckBlock_kinds:
  assumes "CheckBlock N now fPOW fMerkle b = Inr ()"
  shows "vtx b \<noteq> []" "Tx_IsCoinBase (vtx b ! 0)" "\<forall>tx\<in>set (drop 1 (vtx b)). \<not> Tx_IsCoinBase tx"
    "\<forall>tx\<in>set (drop 2 (vtx b)). \<not> Tx_IsCoinStake tx" "length (vtx b) \<le> 2097152"
  using assms by (auto simp: CheckBlock_def Let_def MAX_BLOCK_SIZE_def list_ex_iff split: if_splits)

lemma coinbase_not_coinstake: "Tx_IsCoinBase tx \<Longrightarrow> \<not> Tx_IsCoinStake tx"
  by (auto simp: Tx_IsCoinBase_def Tx_IsCoinStake_def)

lemma proof_of_work_kinds:
  assumes "CheckBlock N now fPOW fMerkle b = Inr ()" "\<not> Block_IsProofOfStake b"
  obtains cb txs where "vtx b = cb # txs" "Tx_IsCoinBase cb" "\<forall>tx\<in>set txs. \<not> Tx_IsCoinStake tx \<and> \<not> Tx_IsCoinBase tx"
    "length txs < 2097152"
proof -
  note k = CheckBlock_kinds [OF assms(1)]
  obtain cb txs where v: "vtx b = cb # txs" using k(1) by (cases "vtx b") auto
  have "\<not> Tx_IsCoinStake tx" if "tx \<in> set txs" for tx
  proof (cases txs)
    case (Cons tx1 txs1)
    then have "\<not> Tx_IsCoinStake tx1" using assms(2) v by (simp add: Block_IsProofOfStake_def)
    then show ?thesis using that k(4) v Cons by auto
  qed (use that in simp)
  then show thesis using that v k by simp
qed

text \<open>C15. Issue by proof of work: a connected proof-of-work block records its coinbase value as the minted amount, and
  raises the recorded money supply by at most the subsidy of its height; the fees its coinbase collects
  have left the supply with the inputs that paid them.\<close>

theorem proof_of_work_issue:
  assumes "ConnectBlock V now db p False b = (Inr (), h', db')" "\<not> Block_IsProofOfStake b"
    "GetProofOfWorkReward (ch_consts V) (nHeight (ch_heap V p)) 0 False = Some subsidy"
  shows "nMint (h' p) = word_of_nat (value_sum (vout (vtx b ! 0))) \<and>
    sint (nMoneySupply (h' p) - (case pprev (ch_heap V p) of Some q \<Rightarrow> nMoneySupply (ch_heap V q) | None \<Rightarrow> 0)) \<le> sint subsidy"
proof -
  let ?a0 = "\<lparr> ac_nTxPos = first_tx_pos (ch_heap V p) b, ac_queued = Map.empty, ac_nFees = 0, ac_nValueIn = 0, ac_nValueOut = 0, ac_nSigOps = 0 \<rparr>"
  obtain a coin where a: "connect_block_loop V db p False (vtx b) ?a0 = Inr a"
      "nMint (h' p) = ac_nValueOut a - ac_nValueIn a + ac_nFees a"
      "nMoneySupply (h' p) - (case pprev (ch_heap V p) of Some q \<Rightarrow> nMoneySupply (ch_heap V q) | None \<Rightarrow> 0) = ac_nValueOut a - ac_nValueIn a"
      "CheckBlock (ch_block V) now True True b = Inr ()"
      "Tx_GetValueOut (vtx b ! 0) = Some coin" "\<not> subsidy + ac_nFees a <s coin"
    using ConnectBlock_loop [OF assms(1)] reward_and_fees(1) [OF assms(3)] by auto
  obtain cb txs where v: "vtx b = cb # txs" "Tx_IsCoinBase cb" "\<forall>tx\<in>set txs. \<not> Tx_IsCoinStake tx \<and> \<not> Tx_IsCoinBase tx"
      "length txs < 2097152"
    by (rule proof_of_work_kinds [OF a(4) assms(2)])
  obtain a1 where a1: "connect_block_tx V db p False cb ?a0 = Inr a1" "connect_block_loop V db p False txs a1 = Inr a"
    using a(1) v(1) by (auto split: sum.splits)
  have c: "ac_nFees a1 = 0" "ac_nValueOut a1 - ac_nValueIn a1 = coin"
    using connect_block_tx_totals [OF a1(1) coinbase_not_coinstake [OF v(2)]] v(1,2) a(5) by auto
  have t: "unat (ac_nFees a) \<le> length txs * money_max" "ac_nValueOut a - ac_nValueIn a + ac_nFees a = coin"
    using connect_block_loop_totals [OF a1(2) v(3)] v(4) c by (simp_all add: money_max_def)
  have s: "coin = word_of_nat (value_sum (vout cb))" "unat coin \<le> money_max"
    using a(5) v(1) by (auto simp: Tx_GetValueOut_spec unat_of_nat money_max_def split: if_splits)
  have u: "unat (ac_nFees a) < 2 ^ 60" using t(1) v(4) by (simp add: money_max_def)
  have "int (unat (ac_nFees a)) < int (2 ^ 60)" using u by (simp only: of_nat_less_iff)
  moreover from u have "sint (ac_nFees a) = int (unat (ac_nFees a))" by (intro sint_small) simp
  ultimately have f: "0 \<le> sint (ac_nFees a)" "sint (ac_nFees a) < 2 ^ 60" by simp_all
  have "sint (subsidy + ac_nFees a) = sint subsidy + sint (ac_nFees a)"
    using reward_and_fees(2,3) [OF assms(3)] f by (intro sint_add_small) simp_all
  then have le: "sint coin \<le> sint subsidy + sint (ac_nFees a)" using a(6) by (simp add: word_sless_alt del: sint_uint)
  have "ac_nValueOut a - ac_nValueIn a = coin - ac_nFees a" using t(2) by (simp add: eq_diff_eq)
  moreover have "sint (coin - ac_nFees a) = sint coin - sint (ac_nFees a)"
    using money_sint [OF s(2)] f by (intro sint_diff_small) (simp_all add: money_max_def)
  ultimately show ?thesis using a(2,3) t(2) s(1) v(1) le by simp
qed

theorem proof_of_work_issue_witness:
  "\<exists>h' db'. ConnectBlock w_env 0 w_db 0 False w_block = (Inr (), h', db') \<and> nMint (h' 0) = 1000 \<and> sint (nMoneySupply (h' 0)) \<le> 2000"
proof -
  obtain h' db' where c: "ConnectBlock w_env 0 w_db 0 False w_block = (Inr (), h', db')" using w_connect by blast
  have k: "\<not> Block_IsProofOfStake w_block" using w_kinds by (simp add: Block_IsProofOfStake_def w_block_def)
  have r: "GetProofOfWorkReward (ch_consts w_env) (nHeight (ch_heap w_env 0)) 0 False = Some 2000"
    by (simp add: w_env_def GetProofOfWorkReward_def BlockIndex_default_def int32_ok_def)
  have p: "pprev (ch_heap w_env 0) = None" "value_sum (vout (vtx w_block ! 0)) = 1000"
    by (simp_all add: w_env_def BlockIndex_default_def w_block_def w_coinbase_def value_sum_def)
  show ?thesis using proof_of_work_issue [OF c k r] c unfolding p by simp
qed

subsection \<open>Maturity\<close>

definition in_block_of :: "CBlockIndex \<Rightarrow> CTxIndex \<Rightarrow> bool" where
  "in_block_of pindex txindex \<longleftrightarrow> bi_nBlockPos pindex = nBlockPos (ti_pos txindex) \<and> bi_nFile pindex = nFile (ti_pos txindex)"

text \<open>The walk ends, and finds the block among the ancestors of the last 40 heights if it is there.\<close>

lemma immature_spec:
  assumes "tree_ok h"
  shows "immature h txindex H (Some p) =
    Some (\<exists>k q. anc h k p = Some q \<and> H - nHeight (h q) < nCoinbaseMaturity \<and> in_block_of (h q) txindex)"
proof (induction p rule: tree_induct [OF assms])
  case (1 p)
  let ?near = "\<lambda>q. H - nHeight (h q) < nCoinbaseMaturity \<and> in_block_of (h q) txindex"
  have split: "(\<exists>k q. anc h k p = Some q \<and> ?near q) \<longleftrightarrow> ?near p \<or> (\<exists>r. pprev (h p) = Some r \<and> (\<exists>k q. anc h k r = Some q \<and> ?near q))"
  proof
    assume "\<exists>k q. anc h k p = Some q \<and> ?near q"
    then obtain k q where k: "anc h k p = Some q" "?near q" by blast
    show "?near p \<or> (\<exists>r. pprev (h p) = Some r \<and> (\<exists>k q. anc h k r = Some q \<and> ?near q))"
      using k by (cases k) (auto split: option.splits)
  next
    assume "?near p \<or> (\<exists>r. pprev (h p) = Some r \<and> (\<exists>k q. anc h k r = Some q \<and> ?near q))"
    then consider "?near p" | r k q where "pprev (h p) = Some r" "anc h k r = Some q" "?near q" by blast
    then show "\<exists>k q. anc h k p = Some q \<and> ?near q"
    proof cases
      case 1
      then show ?thesis by (intro exI [of _ 0] exI [of _ p]) simp
    next
      case 2
      then show ?thesis by (intro exI [of _ "Suc k"] exI [of _ q]) simp
    qed
  qed
  show ?case
  proof (cases "H - nHeight (h p) < nCoinbaseMaturity")
    case False
    have "\<not> (\<exists>k q. anc h k p = Some q \<and> ?near q)" using False by (auto dest: anc_height [OF assms])
    then show ?thesis using False by (subst immature.simps) simp
  next
    case True
    show ?thesis
    proof (cases "pprev (h p)")
      case None
      then show ?thesis using True unfolding split by (subst immature.simps) (simp add: in_block_of_def immature.simps)
    next
      case (Some r)
      then show ?thesis using True 1 [OF Some] unfolding split by (subst immature.simps) (auto simp: in_block_of_def)
    qed
  qed
qed

lemma connect_check_mature:
  "connect_check h (Some p) inputs nTime acc ins = Inr v \<Longrightarrow> tree_ok h \<Longrightarrow> txin \<in> set ins \<Longrightarrow>
   inputs (o_hash (prevout txin)) = Some (txindex, txPrev) \<Longrightarrow> Tx_IsCoinBase txPrev \<or> Tx_IsCoinStake txPrev \<Longrightarrow>
   immature h txindex (nHeight (h p)) (Some p) = Some False"
  by (induction ins arbitrary: acc) (auto simp: Let_def immature_spec split: option.splits if_splits prod.splits)

lemma connect_check_ends:
  "tree_ok h \<Longrightarrow> connect_check h pindex inputs nTime acc ins \<noteq> Inl Stuck"
proof (induction ins arbitrary: acc)
  case (Cons txin ins)
  have w: "immature h txindex H pindex = None \<Longrightarrow> False" for txindex H
    using immature_spec [OF Cons.prems] by (cases pindex) (simp_all add: immature.simps)
  show ?case using Cons w by (cases pindex) (auto simp: Let_def split: option.splits if_splits)
qed simp

lemma connect_spend_ends: "connect_spend V tx pos fBlock fMiner fStrict inputs pool i ins \<noteq> Inl Stuck"
  by (induction ins arbitrary: inputs pool i) (auto simp: Let_def split: option.splits if_splits)

lemma ConnectInputs_ends:
  assumes "tree_ok (ch_heap V)" "\<not> Tx_IsCoinStake tx"
  shows "ConnectInputs V db inputs pool pos pindex fBlock fMiner fStrict tx \<noteq> Inl Stuck"
  using connect_check_ends [OF assms(1), of pindex inputs "tx_nTime tx" 0 "vin tx"] connect_spend_ends [of V tx pos fBlock fMiner fStrict inputs pool 0 "vin tx"]
    assms(2) by (auto simp: ConnectInputs_def connect_fees_def Let_def split: sum.split option.split)

text \<open>C16. Maturity: for a block of a well-formed tree, the walk that looks for the block of a generated output among the
  ancestors ends, and the checks of the inputs end with it; when ConnectInputs accepts the transaction, every generated
  output it spends lies, if its block is an ancestor, at least 40 blocks deep.\<close>

theorem generated_coins_mature:
  assumes "tree_ok (ch_heap V)" "\<not> Tx_IsCoinBase tx"
  shows "(\<exists>early. immature (ch_heap V) ti H (Some p) = Some early) \<and>
    connect_check (ch_heap V) (Some p) inputs (tx_nTime tx) 0 (vin tx) \<noteq> Inl Stuck \<and>
    (\<forall>pool'. ConnectInputs V db inputs pool pos (Some p) fBlock fMiner fStrict tx = Inr pool' \<longrightarrow>
      (\<forall>txin\<in>set (vin tx). \<forall>txindex txPrev depth q. inputs (o_hash (prevout txin)) = Some (txindex, txPrev) \<longrightarrow>
         Tx_IsCoinBase txPrev \<or> Tx_IsCoinStake txPrev \<longrightarrow> anc (ch_heap V) depth p = Some q \<longrightarrow>
         bi_nBlockPos (ch_heap V q) = nBlockPos (ti_pos txindex) \<longrightarrow> bi_nFile (ch_heap V q) = nFile (ti_pos txindex) \<longrightarrow> 40 \<le> depth))"
proof (intro conjI allI ballI impI)
  show "\<exists>early. immature (ch_heap V) ti H (Some p) = Some early" using immature_spec [OF assms(1)] by blast
  show "connect_check (ch_heap V) (Some p) inputs (tx_nTime tx) 0 (vin tx) \<noteq> Inl Stuck" by (rule connect_check_ends [OF assms(1)])
next
  fix pool' txin txindex txPrev depth q
  assume c: "ConnectInputs V db inputs pool pos (Some p) fBlock fMiner fStrict tx = Inr pool'"
    and i: "txin \<in> set (vin tx)" "inputs (o_hash (prevout txin)) = Some (txindex, txPrev)" "Tx_IsCoinBase txPrev \<or> Tx_IsCoinStake txPrev"
    and q: "anc (ch_heap V) depth p = Some q" "bi_nBlockPos (ch_heap V q) = nBlockPos (ti_pos txindex)" "bi_nFile (ch_heap V q) = nFile (ti_pos txindex)"
  obtain v where "connect_check (ch_heap V) (Some p) inputs (tx_nTime tx) 0 (vin tx) = Inr v"
    using c assms(2) by (auto simp: ConnectInputs_def split: sum.splits)
  then have "immature (ch_heap V) txindex (nHeight (ch_heap V p)) (Some p) = Some False"
    using connect_check_mature [of "ch_heap V" p inputs "tx_nTime tx" 0 "vin tx" v txin txindex txPrev] assms(1) i by blast
  then have "\<not> nHeight (ch_heap V p) - nHeight (ch_heap V q) < nCoinbaseMaturity"
    unfolding immature_spec [OF assms(1)] using q by (auto simp: in_block_of_def)
  then show "40 \<le> depth" using anc_height [OF assms(1) q(1)] by (simp add: nCoinbaseMaturity_def)
qed

text \<open>A straight chain, and a coinbase in its first block, spent in a block at height 40.\<close>

definition w_chain :: bheap where
  "w_chain n = BlockIndex_default\<lparr>nHeight := int n, pprev := (if n = 0 then None else Some (n - 1)), bi_nBlockPos := word_of_nat n, bi_nFile := 1\<rparr>"

definition w_mint :: CTransaction where "w_mint = w_coinbase\<lparr>vout := [\<lparr>nValue = 5000, scriptPubKey = []\<rparr>], tx_nTime := 8\<rparr>"

abbreviation w_mint_index :: CTxIndex where "w_mint_index \<equiv> TxIndex_new \<lparr> nFile = 1, nBlockPos = 0, nTxPos = 81 \<rparr> 1"

lemma w_chain_ok: "tree_ok w_chain"
  by (auto simp: tree_ok_def w_chain_def)

lemma w_chain_anc: "k \<le> n \<Longrightarrow> anc w_chain k n = Some (n - k)"
  by (induction k arbitrary: n) (auto simp: w_chain_def)

lemma w_mature: "immature w_chain w_mint_index 40 (Some 40) = Some False"
proof -
  have "\<not> in_block_of (w_chain q) w_mint_index" if "anc w_chain k 40 = Some q" "40 - nHeight (w_chain q) < nCoinbaseMaturity" for k q
  proof -
    have "q \<le> 40" using anc_height [OF w_chain_ok that(1)] by (simp add: w_chain_def)
    moreover have "0 < q" using that(2) by (simp add: w_chain_def nCoinbaseMaturity_def)
    ultimately have "(word_of_nat q :: u32) \<noteq> 0" by (intro word_of_nat_neq_0) simp_all
    then show ?thesis by (simp add: in_block_of_def w_chain_def TxIndex_new_def)
  qed
  then show ?thesis unfolding immature_spec [OF w_chain_ok] by blast
qed

lemma w_spend_mint:
  "\<exists>q'. ConnectInputs (w_env\<lparr>ch_heap := w_chain\<rparr>) w_db [w_prev_hash \<mapsto> (w_mint_index, w_mint)] q pos (Some 40) True False True w_spend = Inr q'"
proof -
  have v: "vin w_spend = [\<lparr>prevout = COutPoint w_prev_hash 0, scriptSig = [], nSequence = 0\<rparr>]" by (simp add: w_spend_def)
  have p: "vout w_mint = [\<lparr>nValue = 5000, scriptPubKey = []\<rparr>]" "tx_nTime w_mint = 8" "tx_nTime w_spend = 9"
    "nHeight (w_chain 40) = 40" "vSpent (TxIndex_new \<lparr> nFile = 1, nBlockPos = 0, nTxPos = 81 \<rparr> (Suc 0)) = [DiskTxPos_null]"
    by (simp_all add: w_mint_def w_spend_def w_chain_def TxIndex_new_def)
  have "connect_check w_chain (Some 40) [w_prev_hash \<mapsto> (w_mint_index, w_mint)] (tx_nTime w_spend) 0 (vin w_spend) = Inr 5000"
    using w_mature by (simp add: v p MoneyRange_iff money_max_def Let_def)
  moreover have "ch_nBestHeight w_env < ch_estimate w_env" by (simp add: w_env_def)
  then have "\<exists>i' q'. connect_spend (w_env\<lparr>ch_heap := w_chain\<rparr>) w_spend pos True False True [w_prev_hash \<mapsto> (w_mint_index, w_mint)] q 0 (vin w_spend) = Inr (i', q')"
    by (simp add: v p DiskTxPos_null_def DiskTxPos_IsNull_def Let_def)
  moreover have "connect_fees (w_env\<lparr>ch_heap := w_chain\<rparr>) w_db w_spend True 5000 = Inr ()"
    using w_kinds w_facts by (simp add: connect_fees_def GetMinFee_block MoneyRange_iff money_max_def Let_def word_sless_alt)
  ultimately show ?thesis using w_kinds by (auto simp: ConnectInputs_def)
qed

theorem generated_coins_mature_witness: "anc w_chain 40 40 = Some 0 \<and> 40 \<le> (40 :: nat) \<and> (\<exists>early. immature w_chain w_mint_index 39 (Some 40) = Some early)"
proof -
  let ?V = "w_env\<lparr>ch_heap := w_chain\<rparr>"
  obtain q' where c: "ConnectInputs ?V w_db [w_prev_hash \<mapsto> (w_mint_index, w_mint)] Map.empty mempool_pos (Some 40) True False True w_spend = Inr q'"
    using w_spend_mint by blast
  have a: "anc w_chain 40 40 = Some 0" by (simp add: w_chain_anc del: anc.simps)
  have m: "Tx_IsCoinBase w_mint" using w_kinds(1) by (simp add: Tx_IsCoinBase_def w_mint_def w_coinbase_def)
  have t: "tree_ok (ch_heap ?V)" using w_chain_ok by simp
  from generated_coins_mature [OF t w_kinds(2), of w_mint_index 39 40 "[w_prev_hash \<mapsto> (w_mint_index, w_mint)]" w_db Map.empty mempool_pos True False True]
  show ?thesis using a m c by (simp add: w_spend_def w_chain_def del: anc.simps)
qed

end
