(* ===== verification/Mempool.thy ===== *)
theory Mempool
  imports Supply
begin

text \<open>
  The memory pool, from src/main.cpp and src/main.h: CTransaction::IsStandard, CTransaction::AreInputsStandard and
  CTxMemPool with accept, addUnchecked, remove, clear, exists, lookup, size and queryHashes. A pointer to a
  pooled transaction is the hash it is stored under. The floating-point state of the limiter of free
  transactions is an argument of accept, its verdict on the transaction.
\<close>

subsection \<open>Standard transactions\<close>

definition Tx_IsStandard :: "CTransaction \<Rightarrow> bool" where
  "Tx_IsStandard tx =
     (if 2 <s tx_nVersion tx then False
      else if list_ex (\<lambda>txin. length (scriptSig txin) > 500 \<or> \<not> IsPushOnly (scriptSig txin)) (vin tx) then False
      else if list_ex (\<lambda>txout. \<not> IsStandard (scriptPubKey txout) \<or> nValue txout = 0) (vout tx) then False
      else True)"

text \<open>The loop of AreInputsStandard; i is the index of the input.\<close>

fun inputs_standard_loop :: "crypto \<Rightarrow> CTransaction \<Rightarrow> MapPrevTx \<Rightarrow> nat \<Rightarrow> CTxIn list \<Rightarrow> reject + bool" where
  "inputs_standard_loop K tx mapInputs i [] = Inr True"
| "inputs_standard_loop K tx mapInputs i (txin # ins) =
     (case GetOutputFor txin mapInputs of Inl e \<Rightarrow> Inl e
      | Inr prev \<Rightarrow>
          (case Solver (scriptPubKey prev) of (ok, whichType, vSolutions) \<Rightarrow>
             let nArgsExpected = ScriptSigArgsExpected whichType vSolutions
             in if \<not> ok then Inr False
                else if nArgsExpected < 0 then Inr False
                else case EvalScript (env_of K tx i 0) [] (scriptSig txin) of None \<Rightarrow> Inr False
                     | Some st \<Rightarrow>
                         if whichType = TX_SCRIPTHASH
                         then (case st of [] \<Rightarrow> Inr False
                               | subscript # _ \<Rightarrow>
                                   (case Solver subscript of (ok2, whichType2, vSolutions2) \<Rightarrow>
                                      let tmpExpected = ScriptSigArgsExpected whichType2 vSolutions2
                                      in if \<not> ok2 then Inr False
                                         else if whichType2 = TX_SCRIPTHASH then Inr False
                                         else if tmpExpected < 0 then Inr False
                                         else if int (length st) \<noteq> nArgsExpected + tmpExpected then Inr False
                                         else inputs_standard_loop K tx mapInputs (i + 1) ins))
                         else if int (length st) \<noteq> nArgsExpected then Inr False
                         else inputs_standard_loop K tx mapInputs (i + 1) ins))"

definition AreInputsStandard :: "crypto \<Rightarrow> CTransaction \<Rightarrow> MapPrevTx \<Rightarrow> reject + bool" where
  "AreInputsStandard K tx mapInputs = (if Tx_IsCoinBase tx then Inr True else inputs_standard_loop K tx mapInputs 0 (vin tx))"

subsection \<open>CTxMemPool\<close>

record mempool =
  mapTx :: "base_uint \<rightharpoonup> CTransaction"
  mapNextTx :: "COutPoint \<rightharpoonup> base_uint \<times> nat" \<comment> \<open>CInPoint\<close>
  nTransactionsUpdated :: u32

definition mempool_empty :: mempool where "mempool_empty = \<lparr> mapTx = Map.empty, mapNextTx = Map.empty, nTransactionsUpdated = 0 \<rparr>"

definition mempool_exists :: "mempool \<Rightarrow> base_uint \<Rightarrow> bool" where "mempool_exists m hsh \<longleftrightarrow> mapTx m hsh \<noteq> None"

fun next_tx_loop :: "base_uint \<Rightarrow> nat \<Rightarrow> CTxIn list \<Rightarrow> (COutPoint \<rightharpoonup> base_uint \<times> nat) \<Rightarrow> (COutPoint \<rightharpoonup> base_uint \<times> nat)" where
  "next_tx_loop hsh i [] nexts = nexts"
| "next_tx_loop hsh i (txin # ins) nexts = next_tx_loop hsh (i + 1) ins (nexts(prevout txin \<mapsto> (hsh, i)))"

definition addUnchecked :: "base_uint \<Rightarrow> CTransaction \<Rightarrow> mempool \<Rightarrow> mempool" where
  "addUnchecked hsh tx m =
     m\<lparr>mapTx := (mapTx m)(hsh \<mapsto> tx), mapNextTx := next_tx_loop hsh 0 (vin tx) (mapNextTx m),
       nTransactionsUpdated := nTransactionsUpdated m + 1\<rparr>"

definition mempool_remove :: "sha256 \<Rightarrow> CTransaction \<Rightarrow> mempool \<Rightarrow> mempool" where
  "mempool_remove sha tx m =
     (let hsh = Tx_GetHash sha tx
      in if mapTx m hsh \<noteq> None
         then m\<lparr>mapNextTx := foldl (\<lambda>nexts txin. nexts(prevout txin := None)) (mapNextTx m) (vin tx),
                mapTx := (mapTx m)(hsh := None), nTransactionsUpdated := nTransactionsUpdated m + 1\<rparr>
         else m)"

definition mempool_clear :: "mempool \<Rightarrow> mempool" where
  "mempool_clear m = m\<lparr>mapTx := Map.empty, mapNextTx := Map.empty, nTransactionsUpdated := nTransactionsUpdated m + 1\<rparr>"

text \<open>
  The checks of accept against the database and the previous transactions. limited: the transaction is
  free, and the limiter of free transactions refuses it. The flag: inputs are missing.
\<close>

definition accept_inputs ::
  "chain_env \<Rightarrow> bool \<Rightarrow> nat option \<Rightarrow> txdb \<Rightarrow> bool \<Rightarrow> CTransaction \<Rightarrow> (reject + unit) \<times> bool" where
  "accept_inputs V fTestNet pindexBest db limited tx =
     (case FetchInputs V db Map.empty False False tx of
        Inl Refused \<Rightarrow> (Inl Refused, True)
      | Inl e \<Rightarrow> (Inl e, False)
      | Inr mapInputs \<Rightarrow>
          (case AreInputsStandard (ch_crypto V) tx mapInputs of Inl e \<Rightarrow> (Inl e, False)
           | Inr standard \<Rightarrow>
               if \<not> standard \<and> \<not> fTestNet then (Inl Refused, False)
               else case GetValueIn mapInputs tx of Inl e \<Rightarrow> (Inl e, False)
                    | Inr nValueIn \<Rightarrow>
                        (case Tx_GetValueOut tx of None \<Rightarrow> (Inl Thrown, False)
                         | Some nValueOut \<Rightarrow>
                             let nFees = nValueIn - nValueOut;
                                 nSize = GetSerializeSize_CTransaction SER_NETWORK PROTOCOL_VERSION tx;
                                 txMinFee = word_of_int (Tx_GetMinFee tx 1000 GMF_RELAY nSize 0)
                             in if nFees <s txMinFee then (Inl Refused, False)
                                else if nFees <s MIN_RELAY_TX_FEE \<and> limited then (Inl Refused, False)
                                else (case ConnectInputs V db mapInputs Map.empty mempool_pos pindexBest False False True tx of
                                        Inl e \<Rightarrow> (Inl e, False) | Inr _ \<Rightarrow> (Inr (), False)))))"

text \<open>CTxMemPool::accept: the verdict, the pool and the flag of missing inputs.\<close>

definition accept ::
  "chain_env \<Rightarrow> bool \<Rightarrow> nat option \<Rightarrow> txdb \<Rightarrow> bool \<Rightarrow> CTransaction \<Rightarrow> bool \<Rightarrow> mempool \<Rightarrow> (reject + unit) \<times> mempool \<times> bool" where
  "accept V fTestNet pindexBest db limited tx fCheckInputs m =
     (case CheckTransaction tx of (ok, tx') \<Rightarrow>
        if \<not> ok then (Inl (if tx_nDoS tx' = tx_nDoS tx then Refused else DoS (tx_nDoS tx' - tx_nDoS tx)), m, False)
        else if Tx_IsCoinBase tx then (Inl (DoS 100), m, False)
        else if Tx_IsCoinStake tx then (Inl (DoS 100), m, False)
        else if uint (tx_nLockTime tx) > 2 ^ 31 - 1 then (Inl Refused, m, False)
        else if \<not> fTestNet \<and> \<not> Tx_IsStandard tx then (Inl Refused, m, False)
        else let hsh = Tx_GetHash (ch_sha V) tx
             in if mapTx m hsh \<noteq> None then (Inl Refused, m, False)
                else if fCheckInputs \<and> db hsh \<noteq> None then (Inl Refused, m, False)
                else if list_ex (\<lambda>txin. mapNextTx m (prevout txin) \<noteq> None) (vin tx) then (Inl Refused, m, False)
                else case (if fCheckInputs then accept_inputs (V\<lparr>ch_mempool := mapTx m\<rparr>) fTestNet pindexBest db limited tx
                           else (Inr (), False)) of
                       (Inl e, missing) \<Rightarrow> (Inl e, m, missing)
                     | (Inr _, _) \<Rightarrow> (Inr (), addUnchecked hsh tx m, False))"

subsection \<open>The pool is free of conflicts\<close>

text \<open>The index of spent outputs is exact: it lists the inputs of the pooled transactions, and nothing else.\<close>

definition pool_ok :: "sha256 \<Rightarrow> mempool \<Rightarrow> bool" where
  "pool_ok sha m \<longleftrightarrow>
     (\<forall>h tx. mapTx m h = Some tx \<longrightarrow> Tx_GetHash sha tx = h \<and>
        (\<forall>i<length (vin tx). mapNextTx m (prevout (vin tx ! i)) = Some (h, i))) \<and>
     (\<forall>out h i. mapNextTx m out = Some (h, i) \<longrightarrow>
        (\<exists>tx. mapTx m h = Some tx \<and> i < length (vin tx) \<and> prevout (vin tx ! i) = out))"

lemma pool_okD:
  assumes "pool_ok sha m"
  shows "mapTx m h = Some tx \<Longrightarrow> Tx_GetHash sha tx = h"
    "mapTx m h = Some tx \<Longrightarrow> i < length (vin tx) \<Longrightarrow> mapNextTx m (prevout (vin tx ! i)) = Some (h, i)"
    "mapNextTx m out = Some (h, i) \<Longrightarrow> \<exists>tx. mapTx m h = Some tx \<and> i < length (vin tx) \<and> prevout (vin tx ! i) = out"
  using assms unfolding pool_ok_def by blast+

lemma next_tx_loop_out: "out \<notin> prevout ` set ins \<Longrightarrow> next_tx_loop h k ins nexts out = nexts out"
  by (induction ins arbitrary: k nexts) auto

lemma next_tx_loop_in:
  "distinct (map prevout ins) \<Longrightarrow> i < length ins \<Longrightarrow> next_tx_loop h k ins nexts (prevout (ins ! i)) = Some (h, k + i)"
proof (induction ins arbitrary: k nexts i)
  case (Cons txin ins)
  show ?case
  proof (cases i)
    case 0
    then show ?thesis using Cons.prems(1) by (simp add: next_tx_loop_out)
  next
    case (Suc j)
    then show ?thesis using Cons by simp
  qed
qed simp

lemma pool_ok_add:
  assumes "pool_ok sha m" "mapTx m h = None" "Tx_GetHash sha tx = h" "distinct (map prevout (vin tx))"
    "\<forall>txin\<in>set (vin tx). mapNextTx m (prevout txin) = None"
  shows "pool_ok sha (addUnchecked h tx m)"
proof -
  have inn: "next_tx_loop h 0 (vin tx) (mapNextTx m) (prevout (vin tx ! i)) = Some (h, i)" if "i < length (vin tx)" for i
    using next_tx_loop_in [OF assms(4) that, of h 0] by simp
  have old: "prevout (vin tx' ! i) \<notin> prevout ` set (vin tx)" if "mapTx m h' = Some tx'" "i < length (vin tx')" for h' tx' i
    using assms(1,5) that by (force simp: pool_ok_def)
  show ?thesis unfolding pool_ok_def
  proof (intro conjI allI impI)
    fix h' tx' i
    assume a: "mapTx (addUnchecked h tx m) h' = Some tx'"
    show "Tx_GetHash sha tx' = h'" using a assms(1,3) by (auto simp: addUnchecked_def pool_ok_def split: if_splits)
    assume i: "i < length (vin tx')"
    show "mapNextTx (addUnchecked h tx m) (prevout (vin tx' ! i)) = Some (h', i)"
    proof (cases "h' = h")
      case True
      then show ?thesis using a i inn by (simp add: addUnchecked_def)
    next
      case False
      then have "mapTx m h' = Some tx'" using a by (simp add: addUnchecked_def)
      then show ?thesis using old i assms(1) by (simp add: addUnchecked_def next_tx_loop_out pool_ok_def)
    qed
  next
    fix out h' i
    assume a: "mapNextTx (addUnchecked h tx m) out = Some (h', i)"
    show "\<exists>tx'. mapTx (addUnchecked h tx m) h' = Some tx' \<and> i < length (vin tx') \<and> prevout (vin tx' ! i) = out"
    proof (cases "out \<in> prevout ` set (vin tx)")
      case True
      then obtain j where j: "j < length (vin tx)" "out = prevout (vin tx ! j)" by (auto simp: in_set_conv_nth)
      then have "h' = h" "i = j" using a inn by (simp_all add: addUnchecked_def)
      then show ?thesis using j by (simp add: addUnchecked_def)
    next
      case False
      then have "mapNextTx m out = Some (h', i)" using a by (simp add: addUnchecked_def next_tx_loop_out)
      then obtain tx' where "mapTx m h' = Some tx'" "i < length (vin tx')" "prevout (vin tx' ! i) = out"
        using pool_okD(3) [OF assms(1)] by blast
      moreover from this have "h' \<noteq> h" using assms(2) by auto
      ultimately show ?thesis by (simp add: addUnchecked_def)
    qed
  qed
qed

lemma foldl_erase: "foldl (\<lambda>nexts txin. nexts(prevout txin := None)) nexts ins = (\<lambda>out. if out \<in> prevout ` set ins then None else nexts out)"
  by (induction ins arbitrary: nexts) auto

lemma pool_ok_remove:
  assumes "pool_ok sha m" "\<forall>tx'. mapTx m (Tx_GetHash sha tx) = Some tx' \<longrightarrow> vin tx' = vin tx"
  shows "pool_ok sha (mempool_remove sha tx m)"
proof (cases "mapTx m (Tx_GetHash sha tx)")
  case (Some tx0)
  let ?h = "Tx_GetHash sha tx" and ?m = "mempool_remove sha tx m"
  have v: "vin tx0 = vin tx" using assms(2) Some by simp
  have m: "mapTx ?m = (mapTx m)(?h := None)" "mapNextTx ?m = (\<lambda>out. if out \<in> prevout ` set (vin tx) then None else mapNextTx m out)"
    using Some by (simp_all add: mempool_remove_def Let_def foldl_erase)
  have mine: "mapNextTx m out = Some (?h, i) \<longrightarrow> out \<in> prevout ` set (vin tx)" for out i
    using pool_okD(3) [OF assms(1), of out ?h i] Some v by auto
  have other: "prevout (vin tx' ! i) \<notin> prevout ` set (vin tx)" if t: "mapTx m h' = Some tx'" "h' \<noteq> ?h" "i < length (vin tx')" for h' tx' i
  proof
    assume "prevout (vin tx' ! i) \<in> prevout ` set (vin tx)"
    then obtain j where "j < length (vin tx0)" "prevout (vin tx' ! i) = prevout (vin tx0 ! j)" unfolding v by (auto simp: in_set_conv_nth)
    then have "Some (h', i) = Some (?h, j)" using pool_okD(2) [OF assms(1)] Some t by metis
    then show False using t(2) by simp
  qed
  show ?thesis unfolding pool_ok_def
  proof (intro conjI allI impI)
    fix h' tx' i
    assume a: "mapTx ?m h' = Some tx'"
    then have t: "mapTx m h' = Some tx'" "h' \<noteq> ?h" by (simp_all add: m split: if_splits)
    show "Tx_GetHash sha tx' = h'" by (rule pool_okD(1) [OF assms(1) t(1)])
    assume "i < length (vin tx')"
    then show "mapNextTx ?m (prevout (vin tx' ! i)) = Some (h', i)" using other t pool_okD(2) [OF assms(1) t(1)] by (simp add: m)
  next
    fix out h' i
    assume a: "mapNextTx ?m out = Some (h', i)"
    then have n: "mapNextTx m out = Some (h', i)" "out \<notin> prevout ` set (vin tx)" by (simp_all add: m split: if_splits)
    then have "h' \<noteq> ?h" using mine by blast
    then show "\<exists>tx'. mapTx ?m h' = Some tx' \<and> i < length (vin tx') \<and> prevout (vin tx' ! i) = out"
      using pool_okD(3) [OF assms(1) n(1)] by (simp add: m)
  qed
qed (use assms(1) in \<open>simp add: mempool_remove_def Let_def\<close>)

lemma pool_ok_empty: "mapTx m = Map.empty \<Longrightarrow> mapNextTx m = Map.empty \<Longrightarrow> pool_ok sha m"
  by (simp add: pool_ok_def)

lemma CheckTransaction_distinct: "fst (CheckTransaction tx) \<Longrightarrow> distinct (map prevout (vin tx))"
proof -
  assume "fst (CheckTransaction tx)"
  then have "CheckTransaction_inputs [] (vin tx)"
    by (auto simp: CheckTransaction_def Let_def Tx_DoS_def split: if_splits prod.splits)
  moreover have "CheckTransaction_inputs s ins \<Longrightarrow> distinct (map prevout ins) \<and> set (map prevout ins) \<inter> set s = {}" for s ins
  proof (induction ins arbitrary: s)
    case (Cons txin ins)
    have "\<not> OutPoint_lt p p" for p by (simp add: OutPoint_lt_def u_compare)
    then have "prevout txin \<notin> set s" using Cons.prems by (auto simp: OutPoint_count_def list_ex_iff split: if_splits)
    moreover have "distinct (map prevout ins) \<and> set (map prevout ins) \<inter> set (prevout txin # s) = {}"
      by (rule Cons.IH) (use Cons.prems in \<open>simp split: if_splits\<close>)
    ultimately show ?case by auto
  qed simp
  ultimately show ?thesis by blast
qed

lemma accept_cases:
  assumes "accept V fTestNet best db limited tx fCheckInputs m = (r, m', missing)"
  obtains e where "r = Inl e" "m' = m"
  | "r = Inr ()" "m' = addUnchecked (Tx_GetHash (ch_sha V) tx) tx m" "fst (CheckTransaction tx)" "\<not> Tx_IsCoinBase tx" "\<not> Tx_IsCoinStake tx"
    "mapTx m (Tx_GetHash (ch_sha V) tx) = None" "\<forall>txin\<in>set (vin tx). mapNextTx m (prevout txin) = None"
    "fCheckInputs \<Longrightarrow> fst (accept_inputs (V\<lparr>ch_mempool := mapTx m\<rparr>) fTestNet best db limited tx) = Inr ()"
  using assms unfolding accept_def
  by (auto simp: Let_def list_ex_iff simp del: not_None_eq split: prod.splits if_splits sum.splits)

lemma pool_ok_accept:
  assumes "pool_ok (ch_sha V) m" "accept V fTestNet best db limited tx fCheckInputs m = (r, m', missing)"
  shows "pool_ok (ch_sha V) m'"
  using assms(2)
proof (cases rule: accept_cases)
  case 2
  then show ?thesis using pool_ok_add [OF assms(1)] CheckTransaction_distinct by simp
qed (use assms(1) in simp)

text \<open>
  The pool as a state machine. A removed transaction has the inputs of the pooled transaction of the same hash.
\<close>

inductive pool_run :: "sha256 \<Rightarrow> mempool \<Rightarrow> bool" for sha where
  pool_start: "pool_run sha mempool_empty"
| pool_accept: "pool_run sha m \<Longrightarrow> ch_sha V = sha \<Longrightarrow> accept V fTestNet best db limited tx fCheckInputs m = (r, m', missing) \<Longrightarrow> pool_run sha m'"
| pool_remove: "pool_run sha m \<Longrightarrow> \<forall>tx'. mapTx m (Tx_GetHash sha tx) = Some tx' \<longrightarrow> vin tx' = vin tx \<Longrightarrow> pool_run sha (mempool_remove sha tx m)"
| pool_clear: "pool_run sha m \<Longrightarrow> pool_run sha (mempool_clear m)"

lemma pool_run_ok: "pool_run sha m \<Longrightarrow> pool_ok sha m"
  by (induction rule: pool_run.induct)
    (auto simp: mempool_empty_def mempool_clear_def intro: pool_ok_empty pool_ok_remove dest: pool_ok_accept)

text \<open>C7. No two inputs of pooled transactions spend the same output, in every state the memory pool can reach, and
  a transaction is pooled under its own hash.\<close>

theorem mempool_conflict_free:
  assumes "pool_run sha m" "mapTx m h1 = Some tx1" "mapTx m h2 = Some tx2" "i1 < length (vin tx1)" "i2 < length (vin tx2)"
    "prevout (vin tx1 ! i1) = prevout (vin tx2 ! i2)"
  shows "h1 = h2 \<and> i1 = i2 \<and> Tx_GetHash sha tx1 = h1"
proof -
  note ok = pool_okD [OF pool_run_ok [OF assms(1)]]
  have "Some (h1, i1) = Some (h2, i2)" using ok(2) assms(2-6) by metis
  then show ?thesis using ok(1) [OF assms(2)] by simp
qed

theorem mempool_conflict_free_witness:
  "\<exists>m. pool_run w_sha m \<and> mapTx m (Tx_GetHash w_sha w_spend) = Some w_spend \<and> Tx_GetHash w_sha w_spend = [0, 9, 0, 0, 0, 0, 0, 0]"
proof -
  obtain r m missing where a: "accept w_env True None Map.empty False w_spend False mempool_empty = (r, m, missing)"
    by (cases "accept w_env True None Map.empty False w_spend False mempool_empty") auto
  have m: "mapTx m (Tx_GetHash w_sha w_spend) = Some w_spend"
  proof -
    have "tx_nLockTime w_spend = 0" by (simp add: w_spend_def)
    then have "m = addUnchecked (Tx_GetHash w_sha w_spend) w_spend mempool_empty"
      using a w_check_tx(2) w_kinds by (simp add: accept_def mempool_empty_def Let_def w_facts list_ex_iff)
    then show ?thesis by (simp add: addUnchecked_def)
  qed
  have run: "pool_run w_sha m" by (rule pool_accept [OF pool_start _ a]) (simp add: w_facts)
  have l: "0 < length (vin w_spend)" by (simp add: w_spend_def)
  have "Tx_GetHash w_sha w_spend = Tx_GetHash w_sha w_spend"
    using mempool_conflict_free [OF run m m l l refl] by blast
  moreover have "Tx_GetHash w_sha w_spend = [0, 9, 0, 0, 0, 0, 0, 0]" by (simp add: w_hash) (simp add: w_spend_def)
  ultimately show ?thesis using run m by blast
qed

subsection \<open>Relay fees\<close>

lemma relay_fee_bound: "1000 \<le> Tx_GetMinFee tx 1000 GMF_RELAY nBytes 0"
proof -
  let ?fee = "(1 + uint nBytes div 1000) * 1000" and ?new = "1000 + nBytes"
  have f: "1000 \<le> ?fee" by (simp add: pos_imp_zdiv_nonneg_iff)
  have k: "1000 \<le> ?fee * uint (MAX_BLOCK_SIZE_GEN div (MAX_BLOCK_SIZE_GEN - ?new))" if n: "\<not> MAX_BLOCK_SIZE_GEN \<le> ?new"
  proof -
    have "0 < unat (MAX_BLOCK_SIZE_GEN - ?new)" "unat (MAX_BLOCK_SIZE_GEN - ?new) \<le> unat MAX_BLOCK_SIZE_GEN"
      using n by (simp_all add: unat_sub word_le_nat_alt)
    then have "1 \<le> unat MAX_BLOCK_SIZE_GEN div unat (MAX_BLOCK_SIZE_GEN - ?new)"
      using div_le_mono [of "unat (MAX_BLOCK_SIZE_GEN - ?new)" "unat MAX_BLOCK_SIZE_GEN" "unat (MAX_BLOCK_SIZE_GEN - ?new)"] by simp
    then have "1 \<le> unat (MAX_BLOCK_SIZE_GEN div (MAX_BLOCK_SIZE_GEN - ?new))" by (simp add: unat_div)
    then have "1 \<le> uint (MAX_BLOCK_SIZE_GEN div (MAX_BLOCK_SIZE_GEN - ?new))" by (metis of_nat_1 of_nat_le_iff uint_nat)
    then show ?thesis using f mult_mono [of 1000 ?fee 1 "uint (MAX_BLOCK_SIZE_GEN div (MAX_BLOCK_SIZE_GEN - ?new))"] by simp
  qed
  have b: "sint MIN_RELAY_TX_FEE = 1000" "1000 \<le> sint MAX_MONEY"
    by (simp_all add: MIN_RELAY_TX_FEE_def MIN_TX_FEE_def CENT_def MAX_MONEY_def COIN_def)
  show ?thesis unfolding Tx_GetMinFee_def Let_def b(1) using f k b(2) by (auto simp: not_le)
qed

lemma Tx_GetMinFee_max: "Tx_GetMinFee tx nBlockSize mode nBytes mb \<le> sint MAX_MONEY \<and> 0 \<le> Tx_GetMinFee tx nBlockSize mode nBytes mb"
  unfolding Tx_GetMinFee_def Let_def by (simp add: unat_MAX_MONEY)

lemma sint_min_fee: "sint (word_of_int (Tx_GetMinFee tx nBlockSize mode nBytes mb) :: u64) = Tx_GetMinFee tx nBlockSize mode nBytes mb"
  using Tx_GetMinFee_max [of tx nBlockSize mode nBytes mb] unfolding sint_sbintrunc'
  by (intro signed_take_bit_int_eq_self) (auto simp: MAX_MONEY_def COIN_def)

text \<open>A transaction that passes the fee check pays the relay fee, so it is never free.\<close>

lemma accept_inputs_limiter: "accept_inputs V fTestNet best db limited tx = accept_inputs V fTestNet best db False tx"
proof -
  have "\<not> nFees <s MIN_RELAY_TX_FEE"
    if "\<not> nFees <s word_of_int (Tx_GetMinFee tx 1000 GMF_RELAY nBytes 0)" for nFees nBytes
  proof -
    have "sint MIN_RELAY_TX_FEE = 1000" by (simp add: MIN_RELAY_TX_FEE_def MIN_TX_FEE_def CENT_def)
    then show ?thesis using that relay_fee_bound [of tx nBytes] unfolding word_sless_alt sint_min_fee by linarith
  qed
  then show ?thesis unfolding accept_inputs_def Let_def by (simp split: sum.splits option.splits reject.splits)
qed

lemma accept_limiter: "accept V fTestNet best db limited tx fCheckInputs m = accept V fTestNet best db False tx fCheckInputs m"
  unfolding accept_def accept_inputs_limiter [of _ fTestNet best db limited] ..

lemma accept_inputs_fee:
  assumes "fst (accept_inputs V fTestNet best db limited tx) = Inr ()" "\<not> Tx_IsCoinBase tx" "\<not> Tx_IsCoinStake tx"
  shows "\<exists>inputs. FetchInputs V db Map.empty False False tx = Inr inputs \<and> input_sum inputs (vin tx) \<le> money_max \<and>
    int (value_sum (vout tx)) + Tx_GetMinFee tx 1000 GMF_RELAY (GetSerializeSize_CTransaction SER_NETWORK PROTOCOL_VERSION tx) 0
      \<le> int (input_sum inputs (vin tx))"
proof -
  let ?size = "GetSerializeSize_CTransaction SER_NETWORK PROTOCOL_VERSION tx"
  obtain inputs vi vo pool where c: "FetchInputs V db Map.empty False False tx = Inr inputs" "GetValueIn inputs tx = Inr vi"
      "Tx_GetValueOut tx = Some vo" "\<not> vi - vo <s word_of_int (Tx_GetMinFee tx 1000 GMF_RELAY ?size 0)"
      "ConnectInputs V db inputs Map.empty mempool_pos best False False True tx = Inr pool"
    using assms(1) by (auto simp: accept_inputs_def Let_def split: sum.splits option.splits if_splits reject.splits)
  obtain v where v: "unat v = input_sum inputs (vin tx)" "unat v \<le> money_max" "value_in_loop inputs 0 (vin tx) = Inr v"
      "connect_fees V db tx False v = Inr ()"
    using ConnectInputs_value [OF c(5) assms(2)] by blast
  note o = connect_fees_plain [OF v(4) assms(3) v(2)]
  have vi: "vi = v" using c(2) v(3) assms(2) by (simp add: GetValueIn_def)
  have vo: "unat vo = value_sum (vout tx)" using o c(3) v(2) by (simp add: unat_of_nat money_max_def)
  have d: "unat (vi - vo) = unat v - value_sum (vout tx)" using o vi vo by (simp add: unat_sub word_le_nat_alt)
  then have "sint (vi - vo) = int (unat (vi - vo))" using v(2) by (intro sint_small) (simp add: money_max_def)
  then have "Tx_GetMinFee tx 1000 GMF_RELAY ?size 0 \<le> int (unat v) - int (value_sum (vout tx))"
    using c(4) d o unfolding word_sless_alt sint_min_fee by simp
  then show ?thesis using c(1) v(1,2) by auto
qed

text \<open>Relaying costs the fee: a transaction that enters the pool with its inputs checked pays, exactly, at least the
  relay fee of its size; and the limiter of free transactions is never consulted to any effect.\<close>

theorem relay_fee_enforced:
  assumes "accept V fTestNet best db limited tx True m = (Inr (), m', missing)"
  shows "(\<exists>inputs. FetchInputs (V\<lparr>ch_mempool := mapTx m\<rparr>) db Map.empty False False tx = Inr inputs \<and>
      int (value_sum (vout tx)) + Tx_GetMinFee tx 1000 GMF_RELAY (GetSerializeSize_CTransaction SER_NETWORK PROTOCOL_VERSION tx) 0
        \<le> int (input_sum inputs (vin tx))) \<and>
    1000 \<le> Tx_GetMinFee tx 1000 GMF_RELAY (GetSerializeSize_CTransaction SER_NETWORK PROTOCOL_VERSION tx) 0 \<and>
    accept V fTestNet best db limited' tx True m = (Inr (), m', missing)"
proof -
  have "fst (accept_inputs (V\<lparr>ch_mempool := mapTx m\<rparr>) fTestNet best db limited tx) = Inr ()" "\<not> Tx_IsCoinBase tx" "\<not> Tx_IsCoinStake tx"
    using assms by (cases rule: accept_cases; simp)+
  from accept_inputs_fee [OF this] show ?thesis
    using relay_fee_bound assms accept_limiter [of V fTestNet best db limited] accept_limiter [of V fTestNet best db limited'] by auto
qed

text \<open>A transaction that spends an output anyone can spend.\<close>

definition w_open :: CTransaction where "w_open = w_prev\<lparr>vout := [\<lparr>nValue = 5000, scriptPubKey = [1, 1]\<rparr>]\<rparr>"

definition w_relay :: CTransaction where
  "w_relay = w_spend\<lparr>vin := [\<lparr>prevout = COutPoint (Tx_GetHash w_sha w_open) 0, scriptSig = [], nSequence = 0\<rparr>]\<rparr>"

definition w_relay_env :: chain_env where
  "w_relay_env = w_env\<lparr>ch_files := \<lparr> bf_tx = (\<lambda>pos. Some w_open), bf_header = (\<lambda>f p. None) \<rparr>\<rparr>"

definition w_relay_db :: txdb where "w_relay_db = [Tx_GetHash w_sha w_open \<mapsto> w_txindex]"

lemma w_relay_facts:
  "vin w_relay = [\<lparr>prevout = COutPoint (Tx_GetHash w_sha w_open) 0, scriptSig = [], nSequence = 0\<rparr>]" "value_sum (vout w_relay) = 3000"
  "tx_nTime w_relay = 9" "tx_nTime w_open = 8" "vout w_open = [\<lparr>nValue = 5000, scriptPubKey = [1, 1]\<rparr>]" "tx_nLockTime w_relay = 0"
  "Tx_GetValueOut w_relay = Some 3000" "vSpent (TxIndex_new p (Suc 0)) = [DiskTxPos_null]"
  "\<not> Tx_IsCoinBase w_relay" "\<not> Tx_IsCoinStake w_relay" "\<not> Tx_IsCoinBase w_open" "\<not> Tx_IsCoinStake w_open"
  by (simp_all add: w_relay_def w_open_def w_spend_def w_prev_def value_sum_def Tx_GetValueOut_def MoneyRange_iff money_max_def Let_def TxIndex_new_def
      Tx_IsCoinBase_def Tx_IsCoinStake_def OutPoint_IsNull_def u_eq_iff w_hash)

lemma w_relay_size: "GetSerializeSize_CTransaction SER_NETWORK v w_relay = 64"
  by (simp add: w_relay_def w_spend_def size_defs Let_def word_sle_eq)

lemma w_relay_check: "CheckTransaction w_relay = (True, w_relay)"
proof -
  have "CheckTransaction_outputs w_relay 0 (vout w_relay) = (True, 0)"
    by (simp add: w_relay_def w_spend_def TxOut_IsEmpty_def MIN_TXOUT_AMOUNT_def MIN_TX_FEE_def CENT_def MAX_MONEY_def COIN_def MoneyRange_iff money_max_def word_sless_alt)
  moreover have "vout w_relay \<noteq> []" by (simp add: w_relay_def w_spend_def)
  ultimately show ?thesis
    by (simp add: CheckTransaction_def w_relay_size w_relay_facts MAX_BLOCK_SIZE_def OutPoint_count_def OutPoint_IsNull_def u_eq_iff w_hash)
qed

lemma w_relay_verify: "VerifySignature K w_open w_relay 0 True 0 = Some True" if "cr_sha256 K = w_sha"
proof -
  have "VerifyScript E [] [1, 1] True" for E
    by (simp add: VerifyScript_def EvalScript_def EvalScript_loop.simps GetOp2_def eval_step_def eval_op_def disabled_def IsPayToScriptHash_def)
  then show ?thesis using that by (simp add: VerifySignature_def w_relay_facts Let_def)
qed

lemma standard_one:
  assumes "GetOutputFor txin inputs = Inr prev"
  shows "inputs_standard_loop K tx inputs i [txin] \<noteq> Inl e"
proof -
  obtain ok t v where s: "Solver (scriptPubKey prev) = (ok, t, v)" by (cases "Solver (scriptPubKey prev)")
  note simps = inputs_standard_loop.simps assms s sum.case prod.case option.case list.case Let_def if_True if_False
  consider "\<not> ok \<or> ScriptSigArgsExpected t v < 0" | "ok" "\<not> ScriptSigArgsExpected t v < 0" "EvalScript (env_of K tx i 0) [] (scriptSig txin) = None"
    | st where "ok" "\<not> ScriptSigArgsExpected t v < 0" "EvalScript (env_of K tx i 0) [] (scriptSig txin) = Some st" by blast
  then show ?thesis
  proof cases
    case 3
    show ?thesis
    proof (cases st)
      case (Cons sub rest)
      obtain ok2 t2 v2 where "Solver sub = (ok2, t2, v2)" by (cases "Solver sub")
      then show ?thesis using 3 Cons by (simp only: simps) (simp split: if_split)
    qed (use 3 in \<open>simp only: simps; simp split: if_split\<close>)
  qed (auto simp only: simps split: if_split)
qed

lemma w_relay_inputs: "fst (accept_inputs (w_relay_env\<lparr>ch_mempool := pool\<rparr>) True (Some 0) w_relay_db False w_relay) = Inr ()"
proof -
  let ?V = "w_relay_env\<lparr>ch_mempool := pool\<rparr>" and ?h = "Tx_GetHash w_sha w_open"
  let ?in = "[?h \<mapsto> (w_txindex, w_open)]"
  have "ti_pos w_txindex \<noteq> mempool_pos" by (simp add: TxIndex_new_def mempool_pos_def)
  moreover have "bf_tx (ch_files ?V) pos = Some w_open" for pos by (simp add: w_relay_env_def)
  ultimately have f: "FetchInputs ?V w_relay_db Map.empty False False w_relay = Inr ?in"
    by (simp add: FetchInputs_def w_relay_facts w_relay_db_def prevout_in_range_def Let_def)
  have "AreInputsStandard (ch_crypto ?V) w_relay ?in \<noteq> Inl e" for e
    unfolding AreInputsStandard_def using w_relay_facts(9)
    by (simp only: w_relay_facts(1) if_False) (rule standard_one, simp add: GetOutputFor_def w_relay_facts(5))
  then have s: "\<exists>b. AreInputsStandard (ch_crypto ?V) w_relay ?in = Inr b" by (cases "AreInputsStandard (ch_crypto ?V) w_relay ?in") auto
  have v: "GetValueIn ?in w_relay = Inr 5000"
    by (simp add: GetValueIn_def w_relay_facts GetOutputFor_def)
  have m: "Tx_GetMinFee w_relay 1000 GMF_RELAY 64 0 = 1000"
    by (simp add: Tx_GetMinFee_def MIN_RELAY_TX_FEE_def MIN_TX_FEE_def MAX_MONEY_def CENT_def COIN_def MAX_BLOCK_SIZE_GEN_def MAX_BLOCK_SIZE_def Let_def)
  have c: "\<exists>q. ConnectInputs ?V w_relay_db ?in Map.empty mempool_pos (Some 0) False False True w_relay = Inr q"
  proof -
    have "connect_check (ch_heap ?V) (Some 0) ?in (tx_nTime w_relay) 0 (vin w_relay) = Inr 5000"
      by (simp add: w_relay_facts MoneyRange_iff money_max_def Let_def)
    moreover have "cr_sha256 (ch_crypto ?V) = w_sha" by (simp add: w_relay_env_def w_facts)
    then have "\<exists>i' q'. connect_spend ?V w_relay mempool_pos False False True ?in Map.empty 0 (vin w_relay) = Inr (i', q')"
      using w_relay_verify by (simp add: w_relay_facts DiskTxPos_null_def DiskTxPos_IsNull_def Let_def)
    moreover have "connect_fees ?V w_relay_db w_relay False 5000 = Inr ()"
      by (simp add: connect_fees_def GetMinFee_block w_relay_facts MoneyRange_iff money_max_def Let_def word_sless_alt)
    ultimately show ?thesis using w_relay_facts(9) by (auto simp: ConnectInputs_def)
  qed
  show ?thesis using f s v m c
    by (auto simp: accept_inputs_def w_relay_facts w_relay_size Let_def word_sless_alt MIN_RELAY_TX_FEE_def MIN_TX_FEE_def CENT_def)
qed

lemma w_relay_accepted: "\<exists>m missing. accept w_relay_env True (Some 0) w_relay_db False w_relay True mempool_empty = (Inr (), m, missing)"
proof -
  have sha: "ch_sha w_relay_env = w_sha" by (simp add: w_relay_env_def w_facts)
  have "w_relay_db (Tx_GetHash w_sha w_relay) = None"
    by (simp add: w_relay_db_def w_hash w_relay_facts)
  then show ?thesis
    using w_relay_inputs [of Map.empty] w_relay_check w_relay_facts
    by (cases "accept_inputs (w_relay_env\<lparr>ch_mempool := Map.empty\<rparr>) True (Some 0) w_relay_db False w_relay")
      (auto simp: accept_def sha Let_def mempool_empty_def)
qed

theorem relay_fee_enforced_witness:
  "\<exists>m missing. accept w_relay_env True (Some 0) w_relay_db True w_relay True mempool_empty = (Inr (), m, missing) \<and>
    value_sum (vout w_relay) = 3000 \<and> 1000 \<le> Tx_GetMinFee w_relay 1000 GMF_RELAY (GetSerializeSize_CTransaction SER_NETWORK PROTOCOL_VERSION w_relay) 0"
proof -
  obtain m missing where a: "accept w_relay_env True (Some 0) w_relay_db False w_relay True mempool_empty = (Inr (), m, missing)"
    using w_relay_accepted by blast
  from relay_fee_enforced [OF a, of True] show ?thesis using w_relay_facts(2) by blast
qed

end
