(* ===== verification/Disk.thy ===== *)
theory Disk
  imports Connect
begin

text \<open>
  The block files, from src/main.cpp and src/main.h: OpenBlockFile, AppendBlockFile, CBlock::WriteToDisk,
  CBlock::ReadFromDisk and CTransaction::ReadFromDisk. A file is its bytes; a write comes up short, and
  throws, when the file may not grow any further. What the rest of the development reads from the
  block files are the functions of this theory.
\<close>

subsection \<open>Files\<close>

record disk =
  d_blk :: "u32 \<rightharpoonup> byte list" \<comment> \<open>the contents of blk%04u.dat\<close>
  d_current :: u32 \<comment> \<open>nCurrentBlockFile\<close>
  d_limit :: nat \<comment> \<open>the size no file can exceed\<close>

definition pchMessageStart :: "byte list" where "pchMessageStart = [0x70, 0x35, 0x22, 0x05]"

text \<open>OpenBlockFile for reading.\<close>

definition OpenBlockFile :: "disk \<Rightarrow> u32 \<Rightarrow> u32 \<Rightarrow> cfile option" where
  "OpenBlockFile d fileno blockpos =
     (if fileno < 1 \<or> fileno = - 1 then None
      else map_option (\<lambda>bs. \<lparr> f_data = bs, f_pos = unat blockpos, f_limit = d_limit d \<rparr>) (d_blk d fileno))"

text \<open>AppendBlockFile: the number of the file, which opening creates, and the disk.\<close>

function AppendBlockFile :: "disk \<Rightarrow> u32 option \<times> disk" where
  "AppendBlockFile d =
     (let cur = d_current d
      in if cur < 1 \<or> cur = - 1 then (None, d)
         else let bs = (case d_blk d cur of None \<Rightarrow> [] | Some bs \<Rightarrow> bs);
                  d = d\<lparr>d_blk := (d_blk d)(cur \<mapsto> bs)\<rparr>
              in if length bs < 0x7F000000 - unat MAX_SIZE then (Some cur, d)
                 else AppendBlockFile (d\<lparr>d_current := cur + 1\<rparr>))"
  by pat_completeness auto

termination
proof (relation "measure (\<lambda>d. 2 ^ 32 - unat (d_current d))")
  fix d :: disk and cur bs d'
  assume a: "cur = d_current d" "\<not> (cur < 1 \<or> cur = - 1)" "d' = d\<lparr>d_blk := (d_blk d)(cur \<mapsto> bs)\<rparr>"
  have "unat (d_current d + 1) = unat (d_current d) + 1"
    using a(1,2) by (intro unat_plus_1) (metis add_eq_0_iff2)
  then show "(d'\<lparr>d_current := cur + 1\<rparr>, d) \<in> measure (\<lambda>d. 2 ^ 32 - unat (d_current d))"
    using a(1,3) unat_lt_2p [of "d_current d"] by simp
qed simp

declare AppendBlockFile.simps [simp del]

text \<open>A series of writes at the end of a file: whether all bytes were written, and the file.\<close>

definition file_put :: "byte list \<Rightarrow> cfile \<Rightarrow> bool \<times> cfile" where
  "file_put bs f = (let (n, f) = c_fwrite bs f in (n = length bs, f))"

text \<open>CBlock::WriteToDisk: nFileRet and nBlockPosRet.\<close>

definition WriteToDisk :: "disk \<Rightarrow> CBlock \<Rightarrow> (reject + u32 \<times> u32) \<times> disk" where
  "WriteToDisk d b =
     (case AppendBlockFile d of
        (None, d) \<Rightarrow> (Inl Refused, d)
      | (Some fileno, d) \<Rightarrow>
          let bs = (case d_blk d fileno of None \<Rightarrow> [] | Some bs \<Rightarrow> bs);
              close = (\<lambda>f. d\<lparr>d_blk := (d_blk d)(fileno \<mapsto> f_data f)\<rparr>);
              nSize = GetSerializeSize_CBlock SER_DISK b;
              (ok, f) = file_put (pchMessageStart @ WRITEDATA nSize) \<lparr> f_data = bs, f_pos = length bs, f_limit = d_limit d \<rparr>
          in if \<not> ok then (Inl Thrown, close f)
             else let blockpos = word_of_nat (f_pos f); (ok, f) = file_put (ser_CBlock SER_DISK b) f
                  in if \<not> ok then (Inl Thrown, close f) else (Inr (fileno, blockpos), close f))"

text \<open>CBlock::ReadFromDisk at a position; now is the adjusted time a fresh transaction carries.\<close>

definition Block_ReadFromDisk ::
  "limits \<Rightarrow> (byte list \<Rightarrow> base_uint) \<Rightarrow> disk \<Rightarrow> u32 \<Rightarrow> u32 \<Rightarrow> u32 \<Rightarrow> bool \<Rightarrow> CBlock option" where
  "Block_ReadFromDisk L hash9 d now fileno blockpos fReadTransactions =
     do { f \<leftarrow> OpenBlockFile d fileno blockpos;
          (b, _) \<leftarrow> unser_CBlock af_read (if \<not> fReadTransactions then SER_DISK OR SER_BLOCKHEADERONLY else SER_DISK)
                     now Block_SetNull (af_init (Some f));
          if fReadTransactions \<and> Block_IsProofOfWork b \<and> \<not> CheckProofOfWork L (Block_GetHash hash9 b) (b_nBits b)
          then None else Some b }"

text \<open>CBlock::ReadFromDisk of the block of an index.\<close>

definition ReadFromDisk_index ::
  "limits \<Rightarrow> (byte list \<Rightarrow> base_uint) \<Rightarrow> disk \<Rightarrow> u32 \<Rightarrow> bheap \<Rightarrow> nat \<Rightarrow> bool \<Rightarrow> CBlock option" where
  "ReadFromDisk_index L hash9 d now h p fReadTransactions =
     (if \<not> fReadTransactions then Some (GetBlockHeader h (h p))
      else do { b \<leftarrow> Block_ReadFromDisk L hash9 d now (bi_nFile (h p)) (bi_nBlockPos (h p)) fReadTransactions;
                if \<not> u_eq (Block_GetHash hash9 b) (phashBlock (h p)) then None else Some b })"

text \<open>CTransaction::ReadFromDisk at a position, into a fresh transaction.\<close>

definition Tx_ReadFromDisk :: "disk \<Rightarrow> u32 \<Rightarrow> CDiskTxPos \<Rightarrow> CTransaction option" where
  "Tx_ReadFromDisk d now pos =
     do { f \<leftarrow> OpenBlockFile d (nFile pos) 0;
          (tx, _) \<leftarrow> unser_CTransaction af_read SER_DISK CLIENT_VERSION (Tx_SetNull now)
                      (af_init (Some (f\<lparr>f_pos := unat (nTxPos pos)\<rparr>)));
          Some tx }"

text \<open>What connecting blocks and the kernel check read from the disk.\<close>

definition files_of :: "limits \<Rightarrow> (byte list \<Rightarrow> base_uint) \<Rightarrow> disk \<Rightarrow> u32 \<Rightarrow> block_files" where
  "files_of L hash9 d now =
     \<lparr> bf_tx = Tx_ReadFromDisk d now,
       bf_header = (\<lambda>fileno blockpos. Block_ReadFromDisk L hash9 d now fileno blockpos False) \<rparr>"

subsection \<open>What is on the disk\<close>

definition stored :: "disk \<Rightarrow> u32 \<Rightarrow> u32 \<Rightarrow> CBlock \<Rightarrow> bool" where
  "stored d fileno blockpos b \<longleftrightarrow> \<not> (fileno < 1 \<or> fileno = - 1) \<and>
     (\<exists>bs r. d_blk d fileno = Some bs \<and> unat blockpos \<le> length bs \<and> drop (unat blockpos) bs = ser_CBlock SER_DISK b @ r)"

text \<open>Files only grow.\<close>

definition grows :: "disk \<Rightarrow> disk \<Rightarrow> bool" where
  "grows d d' \<longleftrightarrow> (\<forall>fileno bs. d_blk d fileno = Some bs \<longrightarrow> (\<exists>r. d_blk d' fileno = Some (bs @ r)))"

lemma grows_current: "grows (d\<lparr>d_current := n\<rparr>) d' = grows d d'"
  by (simp add: grows_def)

lemma grows_trans: "grows d d' \<Longrightarrow> grows d' d'' \<Longrightarrow> grows d d''"
  unfolding grows_def by (metis append_assoc)

lemma stored_grows:
  assumes "stored d fileno blockpos b" "grows d d'"
  shows "stored d' fileno blockpos b"
proof -
  obtain bs r where "d_blk d fileno = Some bs" "unat blockpos \<le> length bs" "drop (unat blockpos) bs = ser_CBlock SER_DISK b @ r"
      "\<not> (fileno < 1 \<or> fileno = - 1)"
    using assms(1) by (auto simp: stored_def)
  moreover from this obtain r' where "d_blk d' fileno = Some (bs @ r')" using assms(2) by (auto simp: grows_def)
  ultimately show ?thesis unfolding stored_def by (intro conjI exI [of _ "bs @ r'"] exI [of _ "r @ r'"]) simp_all
qed

abbreviation file_bytes :: "disk \<Rightarrow> u32 \<Rightarrow> byte list" where
  "file_bytes d fileno \<equiv> case d_blk d fileno of None \<Rightarrow> [] | Some bs \<Rightarrow> bs"

lemma AppendBlockFile_steps:
  "d_current d < 1 \<or> d_current d = - 1 \<Longrightarrow> AppendBlockFile d = (None, d)"
  "\<not> (d_current d < 1 \<or> d_current d = - 1) \<Longrightarrow> length (file_bytes d (d_current d)) < 0x7F000000 - unat MAX_SIZE \<Longrightarrow>
   AppendBlockFile d = (Some (d_current d), d\<lparr>d_blk := (d_blk d)(d_current d \<mapsto> file_bytes d (d_current d))\<rparr>)"
  "\<not> (d_current d < 1 \<or> d_current d = - 1) \<Longrightarrow> \<not> length (file_bytes d (d_current d)) < 0x7F000000 - unat MAX_SIZE \<Longrightarrow>
   AppendBlockFile d = AppendBlockFile (d\<lparr>d_blk := (d_blk d)(d_current d \<mapsto> file_bytes d (d_current d)), d_current := d_current d + 1\<rparr>)"
  unfolding AppendBlockFile.simps [of d] Let_def by (simp_all only: if_True if_False)

lemma AppendBlockFile_spec:
  assumes "AppendBlockFile d = (r, d')"
  shows "grows d d' \<and> d_limit d' = d_limit d \<and>
    (\<forall>fileno. r = Some fileno \<longrightarrow> \<not> (fileno < 1 \<or> fileno = - 1) \<and> (\<exists>bs. d_blk d' fileno = Some bs \<and> length bs < 0x7D000000))"
  using assms
proof (induction d rule: AppendBlockFile.induct)
  case (1 d)
  let ?cur = "d_current d" and ?bs = "file_bytes d (d_current d)"
  let ?d = "d\<lparr>d_blk := (d_blk d)(?cur \<mapsto> ?bs)\<rparr>"
  have g: "grows d ?d" by (auto simp: grows_def)
  show ?case
  proof (cases "?cur < 1 \<or> ?cur = - 1")
    case True
    have r: "r = None" "d' = d" using 1(2) unfolding AppendBlockFile_steps(1) [OF True] prod.inject by metis+
    show ?thesis unfolding r by (simp add: grows_def)
  next
    case ok: False
    show ?thesis
    proof (cases "length ?bs < 0x7F000000 - unat MAX_SIZE")
      case True
      then have r: "r = Some ?cur" "d' = ?d" using 1(2) unfolding AppendBlockFile_steps(2) [OF ok True] prod.inject by metis+
      have "length ?bs < 0x7D000000" using True by (simp add: MAX_SIZE_def)
      then show ?thesis using g ok unfolding r by simp
    next
      case big: False
      have "AppendBlockFile (?d\<lparr>d_current := ?cur + 1\<rparr>) = (r, d')"
        using 1(2) unfolding AppendBlockFile_steps(3) [OF ok big] by simp
      from 1(1) [OF refl ok refl refl big this] have ih: "grows (?d\<lparr>d_current := ?cur + 1\<rparr>) d'" "d_limit d' = d_limit d"
        "\<forall>fileno. r = Some fileno \<longrightarrow> \<not> (fileno < 1 \<or> fileno = - 1) \<and> (\<exists>bs. d_blk d' fileno = Some bs \<and> length bs < 0x7D000000)"
        by simp_all
      have "grows ?d d'" using ih(1) by (simp only: grows_current)
      then have "grows d d'" by (rule grows_trans [OF g])
      then show ?thesis using ih(2,3) by blast
    qed
  qed
qed

lemma file_put_append:
  assumes "f_pos f = length (f_data f)" "file_put bs f = (ok, f')"
  shows "\<exists>r. f_data f' = f_data f @ r" "ok \<Longrightarrow> f_data f' = f_data f @ bs \<and> f_pos f' = length (f_data f')"
proof -
  show "\<exists>r. f_data f' = f_data f @ r" using assms by (auto simp: file_put_def c_fwrite_def Let_def)
  assume ok
  then have "take (f_limit f - f_pos f) bs = bs"
    using assms(2) by (auto simp: file_put_def c_fwrite_def Let_def min_def split: if_splits)
  then show "f_data f' = f_data f @ bs \<and> f_pos f' = length (f_data f')"
    using assms by (auto simp: file_put_def c_fwrite_def Let_def)
qed

lemma WriteToDisk_spec:
  assumes "WriteToDisk d b = (r, d')"
  shows "grows d d'" "r = Inr (fileno, blockpos) \<Longrightarrow> stored d' fileno blockpos b"
proof -
  obtain a d1 where a: "AppendBlockFile d = (a, d1)" by (cases "AppendBlockFile d")
  note s = AppendBlockFile_spec [OF a]
  have "grows d d' \<and> (r = Inr (fileno, blockpos) \<longrightarrow> stored d' fileno blockpos b)"
  proof (cases a)
    case None
    then show ?thesis using assms a s by (auto simp: WriteToDisk_def)
  next
    case (Some n)
    then obtain bs where n: "\<not> (n < 1 \<or> n = - 1)" "d_blk d1 n = Some bs" "length bs < 0x7D000000" using s by auto
    let ?f0 = "\<lparr> f_data = bs, f_pos = length bs, f_limit = d_limit d1 \<rparr>"
    let ?hdr = "pchMessageStart @ WRITEDATA (GetSerializeSize_CBlock SER_DISK b)"
    obtain ok1 f1 where p1: "file_put ?hdr ?f0 = (ok1, f1)" by (cases "file_put ?hdr ?f0")
    obtain ok2 f2 where p2: "file_put (ser_CBlock SER_DISK b) f1 = (ok2, f2)" by (cases "file_put (ser_CBlock SER_DISK b) f1")
    obtain r1 where r1: "f_data f1 = bs @ r1" using file_put_append(1) [OF _ p1] by auto
    have g: "grows d1 (d1\<lparr>d_blk := (d_blk d1)(n \<mapsto> bs @ x)\<rparr>)" for x using n(2) by (auto simp: grows_def)
    show ?thesis
    proof (cases ok1)
      case False
      then have "r = Inl Thrown" "d' = d1\<lparr>d_blk := (d_blk d1)(n \<mapsto> f_data f1)\<rparr>"
        using assms a Some n(2) p1 by (auto simp: WriteToDisk_def Let_def)
      then show ?thesis using r1 g grows_trans s by auto
    next
      case True
      have f1: "f_data f1 = bs @ ?hdr" "f_pos f1 = length (f_data f1)" using file_put_append(2) [OF _ p1 True] by auto
      obtain r2 where r2: "f_data f2 = f_data f1 @ r2" using file_put_append(1) [OF f1(2) p2] by auto
      have d': "d' = d1\<lparr>d_blk := (d_blk d1)(n \<mapsto> f_data f2)\<rparr>"
        "r = (if ok2 then Inr (n, word_of_nat (f_pos f1)) else Inl Thrown)"
        using assms a Some n(2) p1 p2 True by (auto simp: WriteToDisk_def Let_def split: if_splits)
      have gr: "grows d d'" using d'(1) r2 r1 g grows_trans s by auto
      have "length (f_data f1) < 2 ^ 32" using f1(1) n(3) by (simp add: pchMessageStart_def)
      then have u: "unat (word_of_nat (f_pos f1) :: u32) = length (f_data f1)" using f1(2) by (simp add: unat_of_nat)
      have "stored d' n (word_of_nat (f_pos f1)) b" if ok2
        using file_put_append(2) [OF f1(2) p2 that] n(1) unfolding stored_def d'(1) u
        by (intro conjI exI [of _ "f_data f2"] exI [of _ "[]"]) simp_all
      then show ?thesis using gr d'(2) by (auto split: if_splits)
    qed
  qed
  then show "grows d d'" "r = Inr (fileno, blockpos) \<Longrightarrow> stored d' fileno blockpos b" by auto
qed

text \<open>What is read from a stored block.\<close>

definition block_on_disk :: "CBlock \<Rightarrow> CBlock" where
  "block_on_disk b = b\<lparr>vtx := map tx_on_wire (vtx b), vMerkleTree := [], b_nDoS := 0,
     msha3 := if 5 \<le>s b_nVersion b then msha3 b else [], b_message := if 5 \<le>s b_nVersion b then b_message b else [],
     nBitsMSHA := if 5 \<le>s b_nVersion b then nBitsMSHA b else 0\<rparr>"

lemma af_at: "af_inv (af_init (Some \<lparr> f_data = bs, f_pos = n, f_limit = l \<rparr>))"
  "af_rest (af_init (Some \<lparr> f_data = bs, f_pos = n, f_limit = l \<rparr>)) = drop n bs"
  by (simp_all add: af_inv_def af_init_def af_rest_def)

lemma ser_disk_flags: "SER_DISK AND (SER_GETHASH OR SER_BLOCKHEADERONLY) = 0" "SER_DISK AND SER_GETHASH = 0"
  by (simp_all add: SER_DISK_def SER_GETHASH_def SER_BLOCKHEADERONLY_def)

lemma Block_SetNull_fields: "vMerkleTree Block_SetNull = []" "b_nDoS Block_SetNull = 0" "msha3 Block_SetNull = []"
  "b_message Block_SetNull = []" "nBitsMSHA Block_SetNull = 0"
  by (simp_all add: Block_SetNull_def)

lemma stored_read:
  assumes "stored d fileno blockpos b" "wf_block b"
  shows "Block_ReadFromDisk L hash9 d now fileno blockpos True =
    (if Block_IsProofOfWork b \<and> \<not> CheckProofOfWork L (Block_GetHash hash9 b) (b_nBits b) then None else Some (block_on_disk b))"
proof -
  obtain bs r where s: "\<not> (fileno < 1 \<or> fileno = - 1)" "d_blk d fileno = Some bs" "drop (unat blockpos) bs = ser_CBlock SER_DISK b @ r"
    using assms(1) by (auto simp: stored_def)
  let ?f = "\<lparr> f_data = bs, f_pos = unat blockpos, f_limit = d_limit d \<rparr>"
  have f: "OpenBlockFile d fileno blockpos = Some ?f" using s(1,2) unfolding OpenBlockFile_def by simp
  have "af_rest (af_init (Some ?f)) = ser_CBlock SER_DISK b @ r" using s(3) by (simp add: af_at)
  from readsE [OF af.reads_CBlock [OF assms(2) ser_disk_flags(1), of now Block_SetNull] af_at(1) this]
  obtain s' where r: "unser_CBlock af_read SER_DISK now Block_SetNull (af_init (Some ?f)) = Some (block_on_disk b, s')"
    unfolding block_on_disk_def Block_SetNull_fields by blast
  have h: "Block_GetHash hash9 (block_on_disk b) = Block_GetHash hash9 b" "b_nBits (block_on_disk b) = b_nBits b"
    by (simp_all add: block_on_disk_def Block_GetHash_def)
  have k: "Block_IsProofOfWork (block_on_disk b) = Block_IsProofOfWork b"
    by (auto simp: Block_IsProofOfWork_def Block_IsProofOfStake_def block_on_disk_def Tx_IsCoinStake_def tx_on_wire_def)
  show ?thesis using f r by (simp add: Block_ReadFromDisk_def h k)
qed

lemma Tx_SetNull_fields: "tx_nVersionCompat (Tx_SetNull now) = 1" "tx_nDoS (Tx_SetNull now) = 0"
  by (simp_all add: Tx_SetNull_def)

lemma stored_read_tx:
  assumes "stored d fileno blockpos b" "wf_block b" "i < length (vtx b)"
    "unat (nTxPos pos) = unat blockpos + 80 + unat (GetSizeOfCompactSize (word_of_nat (length (vtx b)))) +
       length (concat (map (ser_CTransaction SER_DISK (b_nVersion b)) (take i (vtx b))))" "nFile pos = fileno"
  shows "Tx_ReadFromDisk d now pos = Some (tx_on_wire (vtx b ! i))"
proof -
  obtain bs r where s: "\<not> (fileno < 1 \<or> fileno = - 1)" "d_blk d fileno = Some bs" "drop (unat blockpos) bs = ser_CBlock SER_DISK b @ r"
    using assms(1) by (auto simp: stored_def)
  let ?ser = "ser_CTransaction SER_DISK (b_nVersion b)" and ?f = "\<lparr> f_data = bs, f_pos = unat (nTxPos pos), f_limit = d_limit d \<rparr>"
  have f: "OpenBlockFile d (nFile pos) 0 = Some \<lparr> f_data = bs, f_pos = 0, f_limit = d_limit d \<rparr>"
    using s(1,2) assms(5) unfolding OpenBlockFile_def by simp
  have len: "length (vtx b) \<le> unat MAX_SIZE" "wf_tx (vtx b ! i)" "length (ser_CBlock_header b) = 80"
    using assms(2,3) by (auto simp: wf_block_def list_all_iff ser_CBlock_header_def ser_uint256_def)
  let ?pre = "ser_CBlock_header b @ WriteCompactSize (word_of_nat (length (vtx b)))"
  have "ser_CBlock SER_DISK b = ?pre @ concat (map ?ser (vtx b)) @ (ser_vch (vchBlockSig b) @
      (if 5 \<le>s b_nVersion b then WRITEDATA (nBitsMSHA b) @ ser_string (msha3 b) @ ser_string (b_message b) else []))"
    using ser_disk_flags by (simp add: ser_CBlock_def ser_vector_def Let_def)
  moreover have "concat (map ?ser (vtx b)) = concat (map ?ser (take i (vtx b))) @ ?ser (vtx b ! i) @ concat (map ?ser (drop (Suc i) (vtx b)))"
    using id_take_nth_drop [OF assms(3)] by (metis concat_append concat.simps(2) list.simps(9) map_append)
  ultimately obtain r' where r': "drop (unat blockpos) bs = (?pre @ concat (map ?ser (take i (vtx b)))) @ ?ser (vtx b ! i) @ r'"
    using s(3) by simp
  have "drop (unat (nTxPos pos)) bs = drop (length (?pre @ concat (map ?ser (take i (vtx b))))) (drop (unat blockpos) bs)"
    unfolding assms(4) drop_drop by (simp add: len(3) length_WriteCompactSize add.commute add.left_commute)
  then have "drop (unat (nTxPos pos)) bs = ?ser (vtx b ! i) @ r'" unfolding r' by simp
  then have "af_rest (af_init (Some ?f)) = ?ser (vtx b ! i) @ r'" by (simp add: af_at)
  from readsE [OF af.reads_CTransaction [OF len(2) ser_disk_flags(2), of CLIENT_VERSION "Tx_SetNull now" "b_nVersion b"] af_at(1) this]
  obtain s' where "unser_CTransaction af_read SER_DISK CLIENT_VERSION (Tx_SetNull now) (af_init (Some ?f)) = Some (tx_on_wire (vtx b ! i), s')"
    unfolding tx_on_wire_def Tx_SetNull_fields by blast
  then show ?thesis using f by (simp add: Tx_ReadFromDisk_def)
qed

subsection \<open>The positions ConnectBlock records\<close>

lemma connect_block_tx_pos:
  "connect_block_tx V db p False tx a = Inr a' \<Longrightarrow> ac_nTxPos a' = ac_nTxPos a + GetSerializeSize_CTransaction SER_DISK CLIENT_VERSION tx"
  by (auto simp: connect_block_tx_def Let_def split: if_splits option.splits sum.splits)

lemma apply_tx_pos:
  "h \<noteq> tx_hash V tx \<Longrightarrow> map_option ti_pos (apply_tx V pos tx db h) = map_option ti_pos (db h)"
  by (cases "db h") (simp_all add: apply_tx_def mark_def)

lemma connect_block_loop_keeps_pos:
  "connect_block_loop V db p False txs a = Inr a' \<Longrightarrow> bi_nFile (ch_heap V p) \<noteq> - 1 \<Longrightarrow> h \<notin> tx_hash V ` set txs \<Longrightarrow>
   map_option ti_pos ((db ++ ac_queued a') h) = map_option ti_pos ((db ++ ac_queued a) h)"
proof (induction txs arbitrary: a)
  case (Cons tx txs)
  obtain a1 where a1: "connect_block_tx V db p False tx a = Inr a1" "connect_block_loop V db p False txs a1 = Inr a'"
    using Cons.prems(1) by (auto split: sum.splits)
  have "map_option ti_pos ((db ++ ac_queued a') h) = map_option ti_pos ((db ++ ac_queued a1) h)"
    using Cons.IH [OF a1(2) Cons.prems(2)] Cons.prems(3) by simp
  also have "\<dots> = map_option ti_pos (apply_tx V (pos_of V p a) tx (db ++ ac_queued a) h)"
    using connect_block_tx_db [OF a1(1) Cons.prems(2)] by simp
  finally show ?case using apply_tx_pos Cons.prems(3) by simp
qed simp

definition tx_sizes :: "CTransaction list \<Rightarrow> u32" where
  "tx_sizes txs = sum_list (map (GetSerializeSize_CTransaction SER_DISK CLIENT_VERSION) txs)"

lemma connect_block_loop_positions:
  "connect_block_loop V db p False txs a = Inr a' \<Longrightarrow> bi_nFile (ch_heap V p) \<noteq> - 1 \<Longrightarrow> distinct (map (tx_hash V) txs) \<Longrightarrow>
   i < length txs \<Longrightarrow>
   map_option ti_pos ((db ++ ac_queued a') (tx_hash V (txs ! i))) =
     Some ((pos_of V p a)\<lparr>nTxPos := ac_nTxPos a + tx_sizes (take i txs)\<rparr>)"
proof (induction txs arbitrary: a i)
  case (Cons tx txs)
  obtain a1 where a1: "connect_block_tx V db p False tx a = Inr a1" "connect_block_loop V db p False txs a1 = Inr a'"
    using Cons.prems(1) by (auto split: sum.splits)
  show ?case
  proof (cases i)
    case 0
    have "tx_hash V tx \<notin> tx_hash V ` set txs" using Cons.prems(3) by simp
    then have "map_option ti_pos ((db ++ ac_queued a') (tx_hash V tx)) = map_option ti_pos ((db ++ ac_queued a1) (tx_hash V tx))"
      by (rule connect_block_loop_keeps_pos [OF a1(2) Cons.prems(2)])
    also have "\<dots> = Some (pos_of V p a)"
      using connect_block_tx_db [OF a1(1) Cons.prems(2)] by (simp add: apply_tx_def TxIndex_new_def)
    finally show ?thesis using 0 by (simp add: tx_sizes_def pos_of_def)
  next
    case (Suc j)
    have "map_option ti_pos ((db ++ ac_queued a') (tx_hash V (txs ! j))) =
        Some ((pos_of V p a1)\<lparr>nTxPos := ac_nTxPos a1 + tx_sizes (take j txs)\<rparr>)"
      by (rule Cons.IH [OF a1(2) Cons.prems(2)]) (use Cons.prems(3,4) Suc in simp_all)
    then show ?thesis using Suc connect_block_tx_pos [OF a1(1)] by (simp add: tx_sizes_def pos_of_def add.assoc)
  qed
qed simp

lemma ser_CTransaction_version: "ser_CTransaction nType v tx = ser_CTransaction nType v' tx"
  by (simp add: ser_CTransaction_def)

lemma tx_sizes_bytes:
  "list_all wf_tx txs \<Longrightarrow> tx_sizes txs = word_of_nat (length (concat (map (ser_CTransaction SER_DISK v) txs)))"
proof (induction txs)
  case (Cons tx txs)
  have "GetSerializeSize_CTransaction SER_DISK CLIENT_VERSION tx = word_of_nat (length (ser_CTransaction SER_DISK v tx))"
    using sized_CTransaction [of tx SER_DISK CLIENT_VERSION] ser_CTransaction_version [of SER_DISK CLIENT_VERSION tx v] Cons.prems by simp
  then show ?case using Cons by (simp add: tx_sizes_def)
qed (simp add: tx_sizes_def)

lemma first_tx_pos_offset: "first_tx_pos pindex b = bi_nBlockPos pindex + 80 + GetSizeOfCompactSize (word_of_nat (length (vtx b)))"
  by (simp add: first_tx_pos_def GetSerializeSize_CBlock_def Block_SetNull_def SER_DISK_def SER_GETHASH_def SER_BLOCKHEADERONLY_def
      GetSerializeSize_uint_def GetSerializeSize_vector_def GetSerializeSize_vch_def GetSizeOfCompactSize_def Let_def word_sle_eq)

lemma block_prefix_size:
  assumes "wf_block b"
  shows "80 + unat (GetSizeOfCompactSize (word_of_nat (length (vtx b)))) +
    length (concat (map (ser_CTransaction SER_DISK (b_nVersion b)) (take i (vtx b)))) \<le> length (ser_CBlock SER_DISK b)"
proof -
  let ?ser = "ser_CTransaction SER_DISK (b_nVersion b)"
  have "length (ser_CBlock_header b) = 80" using assms by (simp add: wf_block_def ser_CBlock_header_def ser_uint256_def)
  moreover have "length (concat (map ?ser (vtx b))) = length (concat (map ?ser (take i (vtx b)))) + length (concat (map ?ser (drop i (vtx b))))"
    by (metis append_take_drop_id concat_append length_append map_append)
  ultimately show ?thesis
    using ser_disk_flags by (simp add: ser_CBlock_def ser_vector_def Let_def length_WriteCompactSize)
qed

lemma stored_file: "stored d fileno blockpos b \<Longrightarrow> fileno \<noteq> - 1"
  by (simp add: stored_def)

text \<open>C25. A block that WriteToDisk has stored is read back from the position it returned, as long as only further
  writes have changed the disk, provided it passes the proof-of-work check that reading repeats.\<close>

theorem block_file_roundtrip:
  assumes "WriteToDisk d b = (Inr (fileno, blockpos), d1)" "WriteToDisk d1 c = (r, d2)" "wf_block b"
    "Block_IsProofOfWork b \<longrightarrow> CheckProofOfWork L (Block_GetHash hash9 b) (b_nBits b)"
  shows "Block_ReadFromDisk L hash9 d2 now fileno blockpos True = Some (block_on_disk b)"
proof -
  have "stored d2 fileno blockpos b"
    using WriteToDisk_spec(2) [OF assms(1) refl] WriteToDisk_spec(1) [OF assms(2)] stored_grows by blast
  then show ?thesis using stored_read [OF _ assms(3)] assms(4) by simp
qed

text \<open>The transaction index points into the block files: for a stored block that ConnectBlock has accepted, the
  position recorded for each of its transactions is where reading yields that transaction.\<close>

theorem recorded_position_reads_back:
  assumes "ConnectBlock V now db p False b = (Inr (), h', db')" "stored d (bi_nFile (ch_heap V p)) (bi_nBlockPos (ch_heap V p)) b"
    "wf_block b" "unat (bi_nBlockPos (ch_heap V p)) + length (ser_CBlock SER_DISK b) < 2 ^ 32" "i < length (vtx b)"
  shows "\<exists>txindex. db' (Tx_GetHash (ch_sha V) (vtx b ! i)) = Some txindex \<and>
    Tx_ReadFromDisk d now' (ti_pos txindex) = Some (tx_on_wire (vtx b ! i))"
proof -
  let ?a = "\<lparr> ac_nTxPos = first_tx_pos (ch_heap V p) b, ac_queued = Map.empty, ac_nFees = 0, ac_nValueIn = 0, ac_nValueOut = 0, ac_nSigOps = 0 \<rparr>"
  let ?n = "unat (GetSizeOfCompactSize (word_of_nat (length (vtx b))))"
  let ?bytes = "length (concat (map (ser_CTransaction SER_DISK (b_nVersion b)) (take i (vtx b))))"
  obtain a where a: "connect_block_loop V db p False (vtx b) ?a = Inr a" "db' = db ++ ac_queued a" "CheckBlock (ch_block V) now True True b = Inr ()"
    using ConnectBlock_loop [OF assms(1)] by auto
  have "map_option ti_pos (db' (tx_hash V (vtx b ! i))) =
      Some ((pos_of V p ?a)\<lparr>nTxPos := first_tx_pos (ch_heap V p) b + tx_sizes (take i (vtx b))\<rparr>)"
    unfolding a(2) connect_block_loop_positions [OF a(1) stored_file [OF assms(2)] CheckBlock_distinct [OF a(3)] assms(5)] by simp
  then obtain ti where ti: "db' (tx_hash V (vtx b ! i)) = Some ti"
      "ti_pos ti = (pos_of V p ?a)\<lparr>nTxPos := first_tx_pos (ch_heap V p) b + tx_sizes (take i (vtx b))\<rparr>"
    by (cases "db' (tx_hash V (vtx b ! i))") auto
  have "list_all wf_tx (take i (vtx b))" using assms(3) by (auto simp: wf_block_def list_all_iff dest: in_set_takeD)
  then have "nTxPos (ti_pos ti) = word_of_nat (unat (bi_nBlockPos (ch_heap V p)) + 80 + ?n + ?bytes)"
    unfolding ti(2) first_tx_pos_offset using tx_sizes_bytes [of "take i (vtx b)" "b_nVersion b"] by simp
  moreover have "unat (bi_nBlockPos (ch_heap V p)) + 80 + ?n + ?bytes < 2 ^ 32"
    using block_prefix_size [OF assms(3), of i] assms(4) by simp
  ultimately have "unat (nTxPos (ti_pos ti)) = unat (bi_nBlockPos (ch_heap V p)) + 80 + ?n + ?bytes"
    by (simp add: unat_of_nat del: of_nat_add)
  then have "Tx_ReadFromDisk d now' (ti_pos ti) = Some (tx_on_wire (vtx b ! i))"
    by (rule stored_read_tx [OF assms(2,3,5)]) (simp add: ti(2) pos_of_def)
  then show ?thesis using ti(1) by blast
qed

text \<open>The sample block on a disk.\<close>

definition w_disk :: disk where "w_disk = \<lparr> d_blk = Map.empty, d_current = 1, d_limit = 10000 \<rparr>"

lemma w_block_fields: "vtx w_block = [w_coinbase, w_spend]" "vchBlockSig w_block = []" "b_nVersion w_block = 4"
  "length (hashPrevBlock w_block) = 8" "length (hashMerkleRoot w_block) = 8"
  by (simp_all add: w_block_def Block_SetNull_def u_zero8 BuildMerkleTree_def merkle_rows.simps merkle_row.simps merkle_node_def w_sha_def Hash2_def Let_def)

lemma w_block_wf: "wf_block w_block"
proof -
  have "msha3 w_block = []" "b_message w_block = []" by (simp_all add: w_block_def Block_SetNull_def)
  then show ?thesis using w_block_fields
    by (simp add: wf_block_def) (simp add: w_defs wf_tx_def wf_txin_def wf_txout_def wf_outpoint_def OutPoint_null_def u_zero8 MAX_SIZE_def)
qed

lemma w_block_length: "length (ser_CBlock SER_DISK w_block) < 1000"
proof -
  have "length (ser_CBlock_header w_block) = 80" using w_block_fields by (simp add: ser_CBlock_header_def ser_uint256_def)
  then show ?thesis using w_block_fields ser_disk_flags
    by (simp add: ser_CBlock_def ser_vector_def ser_vch_def length_WriteCompactSize Let_def word_sle_eq)
      (simp add: w_defs ser_CTransaction_def ser_vector_def ser_CTxIn_def ser_CTxOut_def ser_COutPoint_def ser_vch_def OutPoint_null_def u_zero8
        length_WriteCompactSize GetSizeOfCompactSize_def Let_def word_sle_eq ser_uint256_def)
qed

lemma w_write_any:
  assumes "length (ser_CBlock SER_DISK b) < 1000"
  shows "\<exists>d1. WriteToDisk w_disk b = (Inr (1, 8), d1)"
proof -
  let ?d = "w_disk\<lparr>d_blk := [1 \<mapsto> []]\<rparr>"
  have a: "AppendBlockFile w_disk = (Some 1, ?d)"
    by (subst AppendBlockFile_steps(2)) (simp_all add: w_disk_def MAX_SIZE_def)
  have p: "file_put bs \<lparr> f_data = cs, f_pos = length cs, f_limit = l \<rparr> = (True, \<lparr> f_data = cs @ bs, f_pos = length cs + length bs, f_limit = l \<rparr>)"
    if "length cs + length bs \<le> l" for bs cs l
    using that by (simp add: file_put_def c_fwrite_def)
  have 1: "file_put (pchMessageStart @ WRITEDATA (n :: u32)) \<lparr> f_data = [], f_pos = 0, f_limit = 10000 \<rparr> =
      (True, \<lparr> f_data = pchMessageStart @ WRITEDATA n, f_pos = 8, f_limit = 10000 \<rparr>)" for n
    using p [of "[]" "pchMessageStart @ WRITEDATA n" 10000] by (simp add: pchMessageStart_def)
  have 2: "\<exists>f. file_put (ser_CBlock SER_DISK b) \<lparr> f_data = pchMessageStart @ WRITEDATA (n :: u32), f_pos = 8, f_limit = 10000 \<rparr> = (True, f)" for n
    using p [of "pchMessageStart @ WRITEDATA n" "ser_CBlock SER_DISK b" 10000] assms by (simp add: pchMessageStart_def)
  obtain f where f: "file_put (ser_CBlock SER_DISK b) \<lparr> f_data = pchMessageStart @ WRITEDATA (GetSerializeSize_CBlock SER_DISK b),
      f_pos = 8, f_limit = 10000 \<rparr> = (True, f)" using 2 by blast
  have l: "d_limit ?d = 10000" "file_bytes ?d 1 = []" by (simp_all add: w_disk_def)
  show ?thesis by (simp add: WriteToDisk_def a Let_def 1 f l)
qed

lemma w_write: "\<exists>d1. WriteToDisk w_disk w_block = (Inr (1, 8), d1)"
  by (rule w_write_any [OF w_block_length])

theorem block_file_roundtrip_witness:
  "\<exists>d1. WriteToDisk w_disk w_block = (Inr (1, 8), d1) \<and>
    Block_ReadFromDisk main_limits (\<lambda>bs. u_of_uint64 8 0) (snd (WriteToDisk d1 Block_SetNull)) 5 1 8 True = Some (block_on_disk w_block)"
proof -
  obtain d1 where 1: "WriteToDisk w_disk w_block = (Inr (1, 8), d1)" using w_write by blast
  obtain r d2 where 2: "WriteToDisk d1 Block_SetNull = (r, d2)" by (cases "WriteToDisk d1 Block_SetNull")
  have "Block_ReadFromDisk main_limits (\<lambda>bs. u_of_uint64 8 0) d2 5 1 8 True = Some (block_on_disk w_block)"
    by (rule block_file_roundtrip [OF 1 2 w_block_wf]) (simp add: Block_GetHash_def w_pow)
  then show ?thesis using 1 2 by auto
qed

theorem recorded_position_reads_back_witness:
  "\<exists>d1 h' db' txindex. WriteToDisk w_disk w_block = (Inr (1, 8), d1) \<and> ConnectBlock w_env 0 w_db 0 False w_block = (Inr (), h', db') \<and>
    db' (Tx_GetHash w_sha w_spend) = Some txindex \<and> Tx_ReadFromDisk d1 5 (ti_pos txindex) = Some (tx_on_wire w_spend)"
proof -
  obtain d1 where 1: "WriteToDisk w_disk w_block = (Inr (1, 8), d1)" using w_write by blast
  obtain h' db' where c: "ConnectBlock w_env 0 w_db 0 False w_block = (Inr (), h', db')" using w_connect by blast
  have s: "stored d1 (bi_nFile (ch_heap w_env 0)) (bi_nBlockPos (ch_heap w_env 0)) w_block"
    using WriteToDisk_spec(2) [OF 1 refl] by (simp add: w_facts)
  have "unat (bi_nBlockPos (ch_heap w_env 0)) + length (ser_CBlock SER_DISK w_block) < 2 ^ 32"
    using w_block_length by (simp add: w_facts)
  from recorded_position_reads_back [OF c s w_block_wf this, of 1 5]
  show ?thesis using 1 c by (auto simp: w_block_fields w_facts)
qed

end
