(* ===== verification/Checkpoints.thy ===== *)
theory Checkpoints
  imports BlockIndex
begin

text \<open>
  The hardened checkpoints of src/checkpoints.cpp: the table of heights and block hashes of each network, and the
  functions that consult it. The tables are in the order of their heights.
\<close>

type_synonym MapCheckpoints = "(int \<times> base_uint) list"

definition hashGenesisBlockOfficial :: base_uint where
  "hashGenesisBlockOfficial = u_SetHex 8 ''0x7e1060b413b00461d5d01fc9ab00adc82079152e894977868b7d15cf8175eefc''"

definition hashGenesisBlockTestNet :: base_uint where "hashGenesisBlockTestNet = hashGenesisBlockOfficial"

definition mapCheckpoints :: MapCheckpoints where
  "mapCheckpoints =
    [(0, hashGenesisBlockOfficial),
     (1, u_SetHex 8 ''0x998b002f9b228fb8fd93861470e3a8019b0a0f40c53d92b239649038f79b9ab6''),
     (50, u_SetHex 8 ''0x03fbc229265edfc27b5a4e781aa08c96a890b0f8c4ccb7d88bceee0d5b4ca16c''),
     (1000, u_SetHex 8 ''0x000007c48b33be20faaf4a491d4233d338de7755d769c68a592de56022317e27''),
     (1202, u_SetHex 8 ''0x0000000005ac13ed01272bc29cfa2f9c7b859fb43aef040779fa2fa24835fc0c''),
     (3743, u_SetHex 8 ''0x00000000a2cc7916d2c5eb1edc528e9410b86c4623061ea1d3c4e521d2dde9bb''),
     (13213, u_SetHex 8 ''0x000000000539ce55efb086ea2a8ad3e98491c134e42ad8b98d2302a106d02777''),
     (18317, u_SetHex 8 ''0x000000010afd851eae6b80ebd9f5ff7b56fcac6d977ae2e21ef6d7199a36c5cc''),
     (25609, u_SetHex 8 ''0x00000000ba4a732ee10b7ad0247833824f42e6f4c1fc99823dd898048aff825d''),
     (43961, u_SetHex 8 ''0x0000031b3b4acc1cd9b16a17f9f327cc6c5d6e2e77797148ac11a6cb88c89e4b''),
     (48874, u_SetHex 8 ''0x0000006bb9505c269042377a0f4057addc7230bcd03a167ada9e4f16141abc2d''),
     (65536, u_SetHex 8 ''0x00000010cd4e9d12c7983ac8a848b7beaf742514f92fdef8b7fcf18f5dbc6bfb''),
     (68577, u_SetHex 8 ''0x000000003bd59e80dc83b6789337c4dadd47f702fbcb559a9c3e76ae281b1f9d''),
     (137767, u_SetHex 8 ''0x000000000007b69d833fc8d24253660502b56df385286d9405fcd14c1fa82b27''),
     (142100, u_SetHex 8 ''0x000000000011767b7c39767a933161cf3eeef762437144afb33e3c1410af3414'')]"

definition mapCheckpointsTestnet :: MapCheckpoints where
  "mapCheckpointsTestnet = [(0, hashGenesisBlockTestNet)]"

definition checkpoints :: "bool \<Rightarrow> MapCheckpoints" where
  "checkpoints fTestNet = (if fTestNet then mapCheckpointsTestnet else mapCheckpoints)"

definition CheckHardened :: "MapCheckpoints \<Rightarrow> int \<Rightarrow> base_uint \<Rightarrow> bool" where
  "CheckHardened table height hsh = (case map_of table height of None \<Rightarrow> True | Some h \<Rightarrow> u_eq hsh h)"

definition GetTotalBlocksEstimate :: "MapCheckpoints \<Rightarrow> int" where
  "GetTotalBlocksEstimate table = fst (last table)"

fun GetLastCheckpoint_loop :: "MapCheckpoints \<Rightarrow> (base_uint \<rightharpoonup> nat) \<Rightarrow> nat option" where
  "GetLastCheckpoint_loop [] mapBlockIndex = None"
| "GetLastCheckpoint_loop (i # is) mapBlockIndex =
     (case mapBlockIndex (snd i) of Some t \<Rightarrow> Some t | None \<Rightarrow> GetLastCheckpoint_loop is mapBlockIndex)"

definition GetLastCheckpoint :: "MapCheckpoints \<Rightarrow> (base_uint \<rightharpoonup> nat) \<Rightarrow> nat option" where
  "GetLastCheckpoint table mapBlockIndex = GetLastCheckpoint_loop (rev table) mapBlockIndex"

end
