(* ===== verification/Chain.thy ===== *)
theory Chain
  imports Mempool Disk Checkpoints
begin

text \<open>
  The best chain, from src/main.cpp: InvalidChainFound, Reorganize, SetBestChainInner, SetBestChain and
  AddToBlockIndex, over the state they share: the block tree and its index, the best block, the
  transaction database, the block files and the memory pool. A database transaction that is
  aborted, or left behind by an exception, leaves the database as it was.
\<close>

subsection \<open>State\<close>

text \<open>What does not change while the node runs.\<close>

record node =
  nd_params :: stake_params
  nd_block :: block_env
  nd_consts :: constants
  nd_testnet :: bool

record chain_state =
  cs_heap :: bheap
  cs_next :: nat \<comment> \<open>the next free place of the heap\<close>
  mapBlockIndex :: "base_uint \<rightharpoonup> nat"
  pindexGenesisBlock :: "nat option"
  pindexBest :: "nat option"
  hashBestChain :: base_uint
  nBestHeight :: int
  bnBestChainTrust :: int
  bnBestInvalidTrust :: int
  cs_db :: txdb
  cs_disk :: disk
  cs_pool :: mempool
  setStakeSeen :: "(COutPoint \<times> u32) set"
  mapProofOfStake :: "base_uint \<rightharpoonup> base_uint"

abbreviation nd_sha :: "node \<Rightarrow> sha256" where "nd_sha N \<equiv> be_sha (nd_block N)"

definition nd_read :: "node \<Rightarrow> int \<Rightarrow> disk \<Rightarrow> bheap \<Rightarrow> nat \<Rightarrow> CBlock option" where \<comment> \<open>block.ReadFromDisk(pindex)\<close>
  "nd_read N now d h p = ReadFromDisk_index (be_limits (nd_block N)) (be_hash9 (nd_block N)) d (word_of_int now) h p True"

text \<open>The environment of ConnectBlock in a state.\<close>

definition env_in :: "node \<Rightarrow> int \<Rightarrow> chain_state \<Rightarrow> chain_env" where
  "env_in N now s =
     \<lparr> ch_params = nd_params N, ch_block = nd_block N, ch_consts = nd_consts N, ch_heap = cs_heap s,
       ch_files = files_of (be_limits (nd_block N)) (be_hash9 (nd_block N)) (cs_disk s) (word_of_int now),
       ch_mempool = mapTx (cs_pool s), ch_nBestHeight = nBestHeight s,
       ch_estimate = GetTotalBlocksEstimate (checkpoints (nd_testnet N)) \<rparr>"

definition InvalidChainFound :: "nat \<Rightarrow> chain_state \<Rightarrow> chain_state" where
  "InvalidChainFound p s =
     (if bnChainTrust (cs_heap s p) > bnBestInvalidTrust s
      then s\<lparr>bnBestInvalidTrust := bnChainTrust (cs_heap s p)\<rparr> else s)"

subsection \<open>Reorganize\<close>

text \<open>The inner loop of the search for the fork. None: it does not end; Some None: there is no ancestor left.\<close>

partial_function (option) lower_to :: "bheap \<Rightarrow> int \<Rightarrow> nat \<Rightarrow> nat option option" where
  "lower_to h height plonger =
     (if nHeight (h plonger) > height
      then (case pprev (h plonger) of None \<Rightarrow> Some None | Some q \<Rightarrow> lower_to h height q)
      else Some (Some plonger))"

partial_function (option) find_fork :: "bheap \<Rightarrow> nat \<Rightarrow> nat \<Rightarrow> nat option option" where
  "find_fork h pfork plonger =
     (if pfork = plonger then Some (Some pfork)
      else case lower_to h (nHeight (h pfork)) plonger of
             None \<Rightarrow> None
           | Some None \<Rightarrow> Some None
           | Some (Some plonger) \<Rightarrow>
               if pfork = plonger then Some (Some pfork)
               else (case pprev (h pfork) of None \<Rightarrow> Some None | Some pfork \<Rightarrow> find_fork h pfork plonger))"

text \<open>The blocks from \<open>p\<close> down to the fork, without the fork; None: the fork is not reached.\<close>

partial_function (option) blocks_above :: "bheap \<Rightarrow> nat \<Rightarrow> nat \<Rightarrow> nat list option" where
  "blocks_above h pfork p =
     (if p = pfork then Some []
      else case pprev (h p) of None \<Rightarrow> None
           | Some q \<Rightarrow> do { ps \<leftarrow> blocks_above h pfork q; Some (p # ps) })"

text \<open>Disconnecting the shorter branch: the transactions to resurrect, and the database.\<close>

fun disconnect_branch :: "sha256 \<Rightarrow> (nat \<Rightarrow> CBlock option) \<Rightarrow> txdb \<Rightarrow> nat list \<Rightarrow> (reject + CTransaction list) \<times> txdb" where
  "disconnect_branch sha read db [] = (Inr [], db)"
| "disconnect_branch sha read db (p # ps) =
     (case read p of None \<Rightarrow> (Inl Refused, db)
      | Some b \<Rightarrow>
          (case DisconnectBlock sha db b of (ok, db) \<Rightarrow>
             if \<not> ok then (Inl Refused, db)
             else (case disconnect_branch sha read db ps of
                     (Inl e, db) \<Rightarrow> (Inl e, db)
                   | (Inr txs, db) \<Rightarrow> (Inr (filter (\<lambda>tx. \<not> (Tx_IsCoinBase tx \<or> Tx_IsCoinStake tx)) (vtx b) @ txs), db))))"

text \<open>Connecting the longer branch: the transactions to delete, the block tree and the database.\<close>

fun connect_branch ::
  "chain_env \<Rightarrow> (nat \<Rightarrow> CBlock option) \<Rightarrow> int \<Rightarrow> bheap \<Rightarrow> txdb \<Rightarrow> nat list \<Rightarrow> (reject + CTransaction list) \<times> bheap \<times> txdb" where
  "connect_branch V read now h db [] = (Inr [], h, db)"
| "connect_branch V read now h db (p # ps) =
     (case read p of None \<Rightarrow> (Inl Refused, h, db)
      | Some b \<Rightarrow>
          (case ConnectBlock (V\<lparr>ch_heap := h\<rparr>) now db p False b of
             (Inl e, h, db) \<Rightarrow> (Inl (plain_false e), h, db)
           | (Inr _, h, db) \<Rightarrow>
               (case connect_branch V read now h db ps of
                  (Inl e, h, db) \<Rightarrow> (Inl e, h, db)
                | (Inr txs, h, db) \<Rightarrow> (Inr (vtx b @ txs), h, db))))"

definition set_next :: "bheap \<Rightarrow> nat option \<Rightarrow> nat option \<Rightarrow> bheap" where
  "set_next h prev q = (case prev of None \<Rightarrow> h | Some r \<Rightarrow> h(r := (h r)\<lparr>pnext := q\<rparr>))"

definition Reorganize :: "node \<Rightarrow> int \<Rightarrow> chain_state \<Rightarrow> nat \<Rightarrow> (reject + unit) \<times> chain_state" where
  "Reorganize N now s pindexNew =
     (case pindexBest s of None \<Rightarrow> (Inl Stuck, s)
      | Some best \<Rightarrow>
          let h = cs_heap s; sha = nd_sha N; read = nd_read N now (cs_disk s) h
          in case find_fork h best pindexNew of
               None \<Rightarrow> (Inl Stuck, s)
             | Some None \<Rightarrow> (Inl Refused, s)
             | Some (Some pfork) \<Rightarrow>
                 (case (blocks_above h pfork best, blocks_above h pfork pindexNew) of
                    (Some vDisconnect, Some vAbove) \<Rightarrow>
                      let vConnect = rev vAbove
                      in (case disconnect_branch sha read (cs_db s) vDisconnect of
                            (Inl e, _) \<Rightarrow> (Inl e, s)
                          | (Inr vResurrect, db) \<Rightarrow>
                              (case connect_branch (env_in N now s) read now h db vConnect of
                                 (Inl e, h, _) \<Rightarrow> (Inl e, s\<lparr>cs_heap := h\<rparr>)
                               | (Inr vDelete, h, db) \<Rightarrow>
                                   let h = foldl (\<lambda>h p. set_next h (pprev (h p)) None) h vDisconnect;
                                       h = foldl (\<lambda>h p. set_next h (pprev (h p)) (Some p)) h vConnect;
                                       pool = foldl (\<lambda>m tx. fst (snd (accept (env_in N now s) (nd_testnet N) (pindexBest s) db False tx False m)))
                                                (cs_pool s) vResurrect;
                                       pool = foldl (\<lambda>m tx. mempool_remove sha tx m) pool vDelete
                                   in (Inr (), s\<lparr>cs_heap := h, cs_db := db, cs_pool := pool\<rparr>)))
                  | _ \<Rightarrow> (Inl Stuck, s)))"

subsection \<open>SetBestChain\<close>

text \<open>A plain false, as opposed to an exception, a failed assertion or an undefined step.\<close>

fun is_false :: "reject \<Rightarrow> bool" where
  "is_false Refused = True" | "is_false (DoS n) = True" | "is_false _ = False"

definition SetBestChainInner :: "node \<Rightarrow> int \<Rightarrow> chain_state \<Rightarrow> CBlock \<Rightarrow> nat \<Rightarrow> (reject + unit) \<times> chain_state" where
  "SetBestChainInner N now s b pindexNew =
     (case ConnectBlock (env_in N now s) now (cs_db s) pindexNew False b of
        (Inl e, h, _) \<Rightarrow>
          if is_false e then (Inl Refused, InvalidChainFound pindexNew (s\<lparr>cs_heap := h\<rparr>))
          else (Inl e, s\<lparr>cs_heap := h\<rparr>)
      | (Inr _, h, db) \<Rightarrow>
          (case pprev (h pindexNew) of None \<Rightarrow> (Inl Stuck, s\<lparr>cs_heap := h, cs_db := db\<rparr>)
           | Some prev \<Rightarrow>
               (Inr (), s\<lparr>cs_heap := set_next h (Some prev) (Some pindexNew), cs_db := db,
                          cs_pool := foldl (\<lambda>m tx. mempool_remove (nd_sha N) tx m) (cs_pool s) (vtx b)\<rparr>)))"

text \<open>The blocks to connect after the reorganisation, in the order of the vector, and the block to reorganise to.\<close>

partial_function (option) postpone :: "bheap \<Rightarrow> int \<Rightarrow> nat \<Rightarrow> (nat list \<times> nat) option" where
  "postpone h trust p =
     (case pprev (h p) of None \<Rightarrow> Some ([], p)
      | Some q \<Rightarrow>
          if bnChainTrust (h q) > trust
          then do { r \<leftarrow> postpone h trust q; Some (p # fst r, snd r) }
          else Some ([], p))"

text \<open>The blocks connected one by one; a failure ends the loop, but only an exception ends SetBestChain.\<close>

fun connect_further :: "node \<Rightarrow> int \<Rightarrow> chain_state \<Rightarrow> nat list \<Rightarrow> (reject + unit) \<times> chain_state" where
  "connect_further N now s [] = (Inr (), s)"
| "connect_further N now s (p # ps) =
     (case nd_read N now (cs_disk s) (cs_heap s) p of None \<Rightarrow> (Inr (), s)
      | Some b \<Rightarrow>
          (case SetBestChainInner N now s b p of
             (Inl e, s) \<Rightarrow> if is_false e then (Inr (), s) else (Inl e, s)
           | (Inr _, s) \<Rightarrow> connect_further N now s ps))"

definition SetBestChain :: "node \<Rightarrow> int \<Rightarrow> chain_state \<Rightarrow> CBlock \<Rightarrow> nat \<Rightarrow> (reject + unit) \<times> chain_state" where
  "SetBestChain N now s b pindexNew =
     (let hsh = Block_GetHash (be_hash9 (nd_block N)) b;
          switched =
            (if pindexGenesisBlock s = None \<and> u_eq hsh (be_genesis (nd_block N))
             then (Inr (), s\<lparr>pindexGenesisBlock := Some pindexNew\<rparr>)
             else if u_eq (hashPrevBlock b) (hashBestChain s) then SetBestChainInner N now s b pindexNew
             else case pindexBest s of None \<Rightarrow> (Inl Stuck, s)
                  | Some best \<Rightarrow>
                      (case postpone (cs_heap s) (bnChainTrust (cs_heap s best)) pindexNew of None \<Rightarrow> (Inl Stuck, s)
                       | Some (vpindexSecondary, pindexIntermediate) \<Rightarrow>
                           (case Reorganize N now s pindexIntermediate of
                              (Inl e, s) \<Rightarrow>
                                if is_false e then (Inl Refused, InvalidChainFound pindexNew s) else (Inl e, s)
                            | (Inr _, s) \<Rightarrow> connect_further N now s (rev vpindexSecondary))))
      in case switched of
           (Inl e, s) \<Rightarrow> (Inl e, s)
         | (Inr _, s) \<Rightarrow>
             (Inr (), s\<lparr>hashBestChain := hsh, pindexBest := Some pindexNew, nBestHeight := nHeight (cs_heap s pindexNew),
                        bnBestChainTrust := bnChainTrust (cs_heap s pindexNew),
                        cs_pool := (cs_pool s)\<lparr>nTransactionsUpdated := nTransactionsUpdated (cs_pool s) + 1\<rparr>\<rparr>))"

subsection \<open>AddToBlockIndex\<close>

text \<open>The new index object, linked to its parent.\<close>

definition linked_index :: "node \<Rightarrow> chain_state \<Rightarrow> CBlock \<Rightarrow> u32 \<Rightarrow> u32 \<Rightarrow> CBlockIndex" where
  "linked_index N s b fileno blockpos =
     (let idx = (BlockIndex_of_block fileno blockpos b)\<lparr>phashBlock := Block_GetHash (be_hash9 (nd_block N)) b\<rparr>;
          idx = (case mapBlockIndex s (hashPrevBlock b) of None \<Rightarrow> idx
                 | Some prev \<Rightarrow> idx\<lparr>pprev := Some prev, nHeight := nHeight (cs_heap s prev) + 1\<rparr>)
      in idx\<lparr>bnChainTrust := (case pprev idx of Some q \<Rightarrow> bnChainTrust (cs_heap s q) | None \<Rightarrow> 0) +
                              GetBlockTrust (be_limits (nd_block N)) idx\<rparr>)"

text \<open>The block tree with the new object, before it enters the index: Stuck and Asserted for the kernel functions that do not return.\<close>

definition new_index ::
  "node \<Rightarrow> chain_state \<Rightarrow> CBlock \<Rightarrow> u32 \<Rightarrow> u32 \<Rightarrow> reject + bheap" where
  "new_index N s b fileno blockpos =
     (let hsh = Block_GetHash (be_hash9 (nd_block N)) b; p = cs_next s
      in case SetStakeEntropyBit (GetStakeEntropyBit (be_hash9 (nd_block N)) b) (linked_index N s b fileno blockpos) of (ok, idx) \<Rightarrow>
           if \<not> ok then Inl Refused
           else if IsProofOfStake idx \<and> mapProofOfStake s hsh = None then Inl Refused
           else let idx = (if IsProofOfStake idx
                           then idx\<lparr>hashProofOfStake := (case mapProofOfStake s hsh of Some x \<Rightarrow> x | None \<Rightarrow> hashProofOfStake idx)\<rparr>
                           else idx)
                in case ComputeNextStakeModifier (nd_params N) (nd_sha N) (cs_heap s) (mapBlockIndex s) (pprev idx) of
                     None \<Rightarrow> Inl Stuck
                   | Some (ok, nModifier, fGenerated) \<Rightarrow>
                       if \<not> ok then Inl Refused
                       else let h = (cs_heap s)(p := SetStakeModifier nModifier fGenerated idx)
                            in case GetStakeModifierChecksum (nd_sha N) h (be_genesis (nd_block N)) p of
                                 None \<Rightarrow> Inl Asserted
                               | Some checksum \<Rightarrow>
                                   let h = h(p := (h p)\<lparr>nStakeModifierChecksum := checksum\<rparr>)
                                   in if \<not> CheckStakeModifierCheckpoints (nd_testnet N) (nHeight (h p)) checksum then Inl Refused
                                      else Inr h)"

definition AddToBlockIndex :: "node \<Rightarrow> int \<Rightarrow> chain_state \<Rightarrow> CBlock \<Rightarrow> u32 \<Rightarrow> u32 \<Rightarrow> (reject + unit) \<times> chain_state" where
  "AddToBlockIndex N now s b fileno blockpos =
     (let hsh = Block_GetHash (be_hash9 (nd_block N)) b; p = cs_next s
      in if mapBlockIndex s hsh \<noteq> None then (Inl Refused, s)
         else case new_index N s b fileno blockpos of Inl e \<Rightarrow> (Inl e, s)
              | Inr h \<Rightarrow>
                  let s = s\<lparr>cs_heap := h, cs_next := p + 1, mapBlockIndex := (mapBlockIndex s)(hsh \<mapsto> p),
                            setStakeSeen := (if IsProofOfStake (h p)
                                             then insert (prevoutStake (h p), nStakeTime (h p)) (setStakeSeen s) else setStakeSeen s)\<rparr>
                  in if bnChainTrust (h p) > bnBestChainTrust s then SetBestChain N now s b p else (Inr (), s))"

end
