(* ===== verification/Ledger.thy ===== *)
theory Ledger
  imports Chain
begin

text \<open>
  The specification of the transaction database: a chain of blocks amounts to a ledger, the effects of its
  blocks one after the other, from nothing. The lemmas show that connecting and disconnecting blocks
  implement this specification, and that the best chain, across reorganisations, is the chain
  the database is the ledger of.
\<close>

subsection \<open>The path to a block\<close>

text \<open>The blocks above the root, up to \<open>p\<close>.\<close>

definition chain_to :: "bheap \<Rightarrow> nat \<Rightarrow> nat list" where
  "chain_to h p = rev (map (\<lambda>k. the (anc h k p)) [0..<nat (nHeight (h p))])"

lemma chain_to_root: "tree_ok h \<Longrightarrow> pprev (h p) = None \<Longrightarrow> chain_to h p = []"
  using tree_okD(2) [of h p] by (simp add: chain_to_def)

lemma chain_to_step:
  assumes "tree_ok h" "pprev (h p) = Some q"
  shows "chain_to h p = chain_to h q @ [p]"
proof -
  have "nat (nHeight (h p)) = Suc (nat (nHeight (h q)))" using tree_okD(1,3) [OF assms(1)] assms(2) by (simp add: nat_add_distrib)
  then have "map (\<lambda>k. the (anc h k p)) [0..<nat (nHeight (h p))] = p # map (\<lambda>k. the (anc h k q)) [0..<nat (nHeight (h q))]"
    using assms(2) by (simp add: upt_conv_Cons map_Suc_upt [symmetric] del: upt_Suc) 
  then show ?thesis by (simp add: chain_to_def)
qed

lemma blocks_above_chain:
  assumes "tree_ok h"
  shows "blocks_above h f p = Some ps \<Longrightarrow> chain_to h p = chain_to h f @ rev ps"
proof (induction p arbitrary: ps rule: tree_induct [OF assms])
  case (1 p)
  show ?case
  proof (cases "p = f")
    case True
    then show ?thesis using 1(2) by (subst (asm) blocks_above.simps) simp
  next
    case False
    then obtain q qs where "pprev (h p) = Some q" "blocks_above h f q = Some qs" "ps = p # qs"
      using 1(2) by (subst (asm) blocks_above.simps) (auto split: option.splits bind_splits)
    then show ?thesis using 1(1) chain_to_step [OF assms] by simp
  qed
qed

subsection \<open>What the block tree keeps\<close>

text \<open>Connecting blocks changes only amounts and forward links.\<close>

definition same_tree :: "bheap \<Rightarrow> bheap \<Rightarrow> bool" where
  "same_tree h h' \<longleftrightarrow>
     (\<forall>p. pprev (h' p) = pprev (h p) \<and> nHeight (h' p) = nHeight (h p) \<and> bi_nFile (h' p) = bi_nFile (h p) \<and>
          bi_nBlockPos (h' p) = bi_nBlockPos (h p) \<and> phashBlock (h' p) = phashBlock (h p) \<and> bnChainTrust (h' p) = bnChainTrust (h p))"

lemma same_tree_refl: "same_tree h h"
  by (simp add: same_tree_def)

lemma same_tree_trans: "same_tree h h' \<Longrightarrow> same_tree h' h'' \<Longrightarrow> same_tree h h''"
  by (simp add: same_tree_def)

lemma same_tree_anc: "same_tree h h' \<Longrightarrow> anc h' k p = anc h k p"
  by (induction k arbitrary: p) (simp_all add: same_tree_def split: option.split)

lemma same_tree_chain_to: "same_tree h h' \<Longrightarrow> chain_to h' p = chain_to h p"
  using same_tree_anc by (simp add: chain_to_def) (simp add: same_tree_def)

lemma same_tree_ok: "same_tree h h' \<Longrightarrow> tree_ok h' = tree_ok h"
  by (simp add: same_tree_def tree_ok_def cong: option.case_cong)

lemma same_tree_read: "same_tree h h' \<Longrightarrow> nd_read N now d h' = nd_read N now d h"
  by (rule ext) (simp add: same_tree_def nd_read_def ReadFromDisk_index_def)

lemma same_tree_set_next: "same_tree h (set_next h r q)"
  by (simp add: same_tree_def set_next_def split: option.split)

lemma same_tree_foldl_set_next: "same_tree h (foldl (\<lambda>h p. set_next h (g h p) (k p)) h ps)"
proof (induction ps arbitrary: h)
  case (Cons p ps)
  show ?case using same_tree_trans [OF same_tree_set_next Cons.IH [of "set_next h (g h p) (k p)"]] by simp
qed (simp add: same_tree_refl)

lemma same_tree_next: "same_tree h h' \<Longrightarrow> pprev (h' p) = pprev (h p)"
  by (simp add: same_tree_def)

lemma nd_read_file: "nd_read N now d h p = Some b \<Longrightarrow> bi_nFile (h p) \<noteq> - 1"
  by (auto simp: nd_read_def ReadFromDisk_index_def Block_ReadFromDisk_def OpenBlockFile_def split: bind_splits if_splits)

subsection \<open>The ledger of a chain\<close>

text \<open>The effect of the transactions of a block, the first of them at \<open>pos\<close>, on the database.\<close>

fun tx_effects :: "sha256 \<Rightarrow> CDiskTxPos \<Rightarrow> CTransaction list \<Rightarrow> txdb \<Rightarrow> txdb" where
  "tx_effects sha pos [] db = db"
| "tx_effects sha pos (tx # txs) db =
     tx_effects sha (pos\<lparr>nTxPos := nTxPos pos + GetSerializeSize_CTransaction SER_DISK CLIENT_VERSION tx\<rparr>) txs
       ((mark db (set (spent_by tx)) pos)(Tx_GetHash sha tx \<mapsto> TxIndex_new pos (length (vout tx))))"

definition block_effect :: "sha256 \<Rightarrow> CBlockIndex \<Rightarrow> CBlock \<Rightarrow> txdb \<Rightarrow> txdb" where
  "block_effect sha pindex b db =
     tx_effects sha \<lparr> nFile = bi_nFile pindex, nBlockPos = bi_nBlockPos pindex, nTxPos = first_tx_pos pindex b \<rparr> (vtx b) db"

text \<open>The database a chain of blocks amounts to: the effects of its blocks, in order, from nothing.\<close>

definition ledger :: "sha256 \<Rightarrow> bheap \<Rightarrow> (nat \<Rightarrow> CBlock option) \<Rightarrow> nat list \<Rightarrow> txdb" where
  "ledger sha h read ps =
     foldl (\<lambda>db p. case read p of Some b \<Rightarrow> block_effect sha (h p) b db | None \<Rightarrow> db) Map.empty ps"

text \<open>Every block of the chain can be taken off again.\<close>

definition undoable :: "sha256 \<Rightarrow> bheap \<Rightarrow> (nat \<Rightarrow> CBlock option) \<Rightarrow> nat list \<Rightarrow> bool" where
  "undoable sha h read ps \<longleftrightarrow>
     (\<forall>qs p rs. ps = qs @ p # rs \<longrightarrow>
        (\<exists>b. read p = Some b \<and> DisconnectBlock sha (ledger sha h read (qs @ [p])) b = (True, ledger sha h read qs)))"

lemma block_effect_same: "same_tree h h' \<Longrightarrow> block_effect sha (h' p) = block_effect sha (h p)"
  by (intro ext) (simp add: same_tree_def block_effect_def first_tx_pos_def)

lemma ledger_same:
  assumes "same_tree h h'"
  shows "ledger sha h' read ps = ledger sha h read ps"
  unfolding ledger_def block_effect_same [OF assms] ..

lemma undoable_same: "same_tree h h' \<Longrightarrow> undoable sha h' read ps = undoable sha h read ps"
  unfolding undoable_def by (simp add: ledger_same)

lemma ledger_Nil: "ledger sha h read [] = Map.empty"
  by (simp add: ledger_def)

lemma ledger_snoc: "ledger sha h read (ps @ [p]) = (case read p of Some b \<Rightarrow> block_effect sha (h p) b (ledger sha h read ps) | None \<Rightarrow> ledger sha h read ps)"
  by (simp add: ledger_def split: option.split)

lemma undoable_prefix: "undoable sha h read (ps @ rs) \<Longrightarrow> undoable sha h read ps"
  unfolding undoable_def by simp

lemma undoable_snoc:
  "undoable sha h read (ps @ [p]) \<longleftrightarrow> undoable sha h read ps \<and>
     (\<exists>b. read p = Some b \<and> DisconnectBlock sha (ledger sha h read (ps @ [p])) b = (True, ledger sha h read ps))"
proof
  assume a: "undoable sha h read (ps @ [p])"
  then show "undoable sha h read ps \<and> (\<exists>b. read p = Some b \<and> DisconnectBlock sha (ledger sha h read (ps @ [p])) b = (True, ledger sha h read ps))"
    using undoable_prefix [OF a] unfolding undoable_def by simp
next
  assume a: "undoable sha h read ps \<and> (\<exists>b. read p = Some b \<and> DisconnectBlock sha (ledger sha h read (ps @ [p])) b = (True, ledger sha h read ps))"
  show "undoable sha h read (ps @ [p])" unfolding undoable_def
  proof (intro allI impI)
    fix qs q rs assume e: "ps @ [p] = qs @ q # rs"
    show "\<exists>b. read q = Some b \<and> DisconnectBlock sha (ledger sha h read (qs @ [q])) b = (True, ledger sha h read qs)"
    proof (cases rs rule: rev_cases)
      case Nil
      then show ?thesis using e a by simp
    next
      case (snoc rs' r)
      then have "ps = qs @ q # rs'" using e by simp
      then show ?thesis using a unfolding undoable_def by blast
    qed
  qed
qed

subsection \<open>Connecting and disconnecting implement the ledger\<close>

lemma connect_block_loop_effects:
  "connect_block_loop V db p False txs a = Inr a' \<Longrightarrow> bi_nFile (ch_heap V p) \<noteq> - 1 \<Longrightarrow>
   db ++ ac_queued a' = tx_effects (ch_sha V) (pos_of V p a) txs (db ++ ac_queued a)"
proof (induction txs arbitrary: a)
  case (Cons tx txs)
  obtain a1 where a1: "connect_block_tx V db p False tx a = Inr a1" "connect_block_loop V db p False txs a1 = Inr a'"
    using Cons.prems(1) by (auto split: sum.splits)
  have 1: "pos_of V p a1 = (pos_of V p a)\<lparr>nTxPos := nTxPos (pos_of V p a) + GetSerializeSize_CTransaction SER_DISK CLIENT_VERSION tx\<rparr>"
    using connect_block_tx_pos [OF a1(1)] by (simp add: pos_of_def)
  have 2: "db ++ ac_queued a1 = apply_tx V (pos_of V p a) tx (db ++ ac_queued a)"
    using connect_block_tx_db [OF a1(1) Cons.prems(2)] by simp
  show ?case unfolding tx_effects.simps Cons.IH [OF a1(2) Cons.prems(2)] 1 2 apply_tx_def ..
qed simp

lemma ConnectBlock_effect:
  assumes "ConnectBlock V now db p False b = (Inr (), h', db')" "bi_nFile (ch_heap V p) \<noteq> - 1"
  shows "db' = block_effect (ch_sha V) (ch_heap V p) b db"
proof -
  obtain a where "connect_block_loop V db p False (vtx b)
      \<lparr> ac_nTxPos = first_tx_pos (ch_heap V p) b, ac_queued = Map.empty, ac_nFees = 0,
        ac_nValueIn = 0, ac_nValueOut = 0, ac_nSigOps = 0 \<rparr> = Inr a" "db' = db ++ ac_queued a"
    using ConnectBlock_loop [OF assms(1)] by auto
  then show ?thesis using connect_block_loop_effects assms(2) by (fastforce simp: block_effect_def pos_of_def)
qed

lemma ConnectBlock_tree:
  assumes "ConnectBlock V now db p f b = (r, h', db')"
  shows "same_tree (ch_heap V) h'"
proof -
  have "h' = ch_heap V \<or> (\<exists>x y. h' = (ch_heap V)(p := (ch_heap V p)\<lparr>nMint := x, nMoneySupply := y\<rparr>))"
    using assms unfolding ConnectBlock_def Let_def by (auto split: sum.splits if_splits option.splits)
  then show ?thesis by (auto simp: same_tree_def)
qed

lemma ConnectBlock_next:
  assumes "ConnectBlock V now db p f b = (r, h', db')"
  shows "pnext (h' q) = pnext (ch_heap V q)"
proof -
  have "h' = ch_heap V \<or> (\<exists>x y. h' = (ch_heap V)(p := (ch_heap V p)\<lparr>nMint := x, nMoneySupply := y\<rparr>))"
    using assms unfolding ConnectBlock_def Let_def by (auto split: sum.splits if_splits option.splits)
  then show ?thesis by auto
qed

lemma db_wf_effects: "db_wf db \<Longrightarrow> nFile pos \<noteq> - 1 \<Longrightarrow> db_wf (tx_effects sha pos txs db)"
proof (induction txs arbitrary: pos db)
  case (Cons tx txs)
  have "\<not> DiskTxPos_IsNull pos" using Cons.prems(2) by (simp add: DiskTxPos_IsNull_def)
  then have "db_wf ((mark db (set (spent_by tx)) pos)(Tx_GetHash sha tx \<mapsto> TxIndex_new pos (length (vout tx))))"
    using Cons.prems(1) by (intro db_wf_new db_wf_mark)
  then show ?case unfolding tx_effects.simps by (rule Cons.IH) (use Cons.prems(2) in simp)
qed simp

lemma dom_effects: "dom (tx_effects sha pos txs db) = Tx_GetHash sha ` set txs \<union> dom db"
  by (induction txs arbitrary: pos db) auto

definition ids_of :: "sha256 \<Rightarrow> (nat \<Rightarrow> CBlock option) \<Rightarrow> nat list \<Rightarrow> base_uint list" where
  "ids_of sha read ps = concat (map (\<lambda>p. case read p of Some b \<Rightarrow> map (Tx_GetHash sha) (vtx b) | None \<Rightarrow> []) ps)"

lemma ids_of_Cons: "read p = Some b \<Longrightarrow> ids_of sha read (p # ps) = map (Tx_GetHash sha) (vtx b) @ ids_of sha read ps"
  by (simp add: ids_of_def)

lemma ids_of_append [simp]: "ids_of sha read (ps @ qs) = ids_of sha read ps @ ids_of sha read qs"
  by (simp add: ids_of_def)

lemma dom_ledger: "dom (ledger sha h read ps) = set (ids_of sha read ps)"
  by (induction ps rule: rev_induct)
    (auto simp: ledger_Nil ledger_snoc block_effect_def dom_effects ids_of_def split: option.splits)

text \<open>All blocks of the chain can be read.\<close>

definition readable :: "bheap \<Rightarrow> (nat \<Rightarrow> CBlock option) \<Rightarrow> bool" where
  "readable h read \<longleftrightarrow> (\<forall>p b. read p = Some b \<longrightarrow> bi_nFile (h p) \<noteq> - 1)"

lemma readable_nd: "readable h (nd_read N now d h)"
  by (simp add: readable_def nd_read_file)

lemma readable_same: "same_tree h h' \<Longrightarrow> readable h' read = readable h read"
  by (simp add: readable_def same_tree_def)

lemma db_wf_ledger: "readable h read \<Longrightarrow> db_wf (ledger sha h read ps)"
  by (induction ps rule: rev_induct)
    (auto simp: ledger_Nil ledger_snoc db_wf_def [of Map.empty] block_effect_def readable_def intro!: db_wf_effects split: option.splits)

text \<open>Only the transactions of a block matter.\<close>

lemma block_effect_vtx: "vtx b = vtx b' \<Longrightarrow> block_effect sha i b = block_effect sha i b'"
  by (intro ext) (simp add: block_effect_def first_tx_pos_def)

lemma DisconnectBlock_vtx: "vtx b = vtx b' \<Longrightarrow> DisconnectBlock sha db b = DisconnectBlock sha db b'"
  by (simp add: DisconnectBlock_def)

text \<open>One block more on a chain.\<close>

lemma ConnectBlock_ledger:
  assumes "ConnectBlock V now (ledger sha h read ps) p False b = (Inr (), h', db')" "read p = Some b'" "same_tree h (ch_heap V)"
    "readable h read" "sha = ch_sha V" "undoable sha h read ps" "set (map (Tx_GetHash sha) (vtx b)) \<inter> set (ids_of sha read ps) = {}"
    "vtx b = vtx b'"
  shows "db' = ledger sha h read (ps @ [p])" "undoable sha h read (ps @ [p])"
proof -
  have nfile: "bi_nFile (ch_heap V p) \<noteq> - 1" using assms(2-4) by (auto simp: readable_def same_tree_def)
  show db': "db' = ledger sha h read (ps @ [p])"
    using ConnectBlock_effect [OF assms(1) nfile] assms(2,5) block_effect_same [OF assms(3)] block_effect_vtx [OF assms(8)]
    by (simp add: ledger_snoc)
  have "\<forall>tx\<in>set (vtx b). Tx_GetHash (ch_sha V) tx \<notin> dom (ledger sha h read ps)"
    using assms(5,7) unfolding dom_ledger by auto
  from ConnectBlock_undo [OF assms(1) db_wf_ledger [OF assms(4)] nfile this]
  show "undoable sha h read (ps @ [p])" using assms(2,5,6) db' DisconnectBlock_vtx [OF assms(8)] by (simp add: undoable_snoc)
qed

lemma connect_branch_ledger:
  assumes "connect_branch V read now h1 (ledger sha h read qs) ps = (Inr txs, h', db')" "same_tree h h1" "readable h read"
    "sha = ch_sha V" "undoable sha h read qs" "distinct (ids_of sha read (qs @ ps))"
  shows "db' = ledger sha h read (qs @ ps) \<and> undoable sha h read (qs @ ps) \<and> same_tree h h' \<and> (\<forall>q. pnext (h' q) = pnext (h1 q))"
  using assms
proof (induction ps arbitrary: qs h1 txs)
  case (Cons p ps)
  obtain b h2 db2 txs2 where b: "read p = Some b" "ConnectBlock (V\<lparr>ch_heap := h1\<rparr>) now (ledger sha h read qs) p False b = (Inr (), h2, db2)"
      "connect_branch V read now h2 db2 ps = (Inr txs2, h', db')"
    using Cons.prems(1) by (auto split: option.splits prod.splits sum.splits)
  have "set (map (Tx_GetHash sha) (vtx b)) \<inter> set (ids_of sha read qs) = {}"
    using Cons.prems(6) unfolding ids_of_append ids_of_Cons [of read, OF b(1)] distinct_append by auto
  then have 2: "db2 = ledger sha h read (qs @ [p])" "undoable sha h read (qs @ [p])"
    using ConnectBlock_ledger [OF b(2,1) _ Cons.prems(3)] Cons.prems(2,4,5) by simp_all
  have "same_tree h h2" using same_tree_trans [OF Cons.prems(2)] ConnectBlock_tree [OF b(2)] by simp
  from Cons.IH [OF b(3) [unfolded 2(1)] this Cons.prems(3,4) 2(2)] Cons.prems(6)
  show ?case using ConnectBlock_next [OF b(2)] by simp
qed simp

text \<open>Disconnecting an undoable chain never fails.\<close>

lemma disconnect_branch_ledger:
  "undoable sha h read (qs @ rev ps) \<Longrightarrow>
   \<exists>txs. disconnect_branch sha read (ledger sha h read (qs @ rev ps)) ps = (Inr txs, ledger sha h read qs)"
proof (induction ps)
  case (Cons p ps)
  have u: "undoable sha h read ((qs @ rev ps) @ [p])" using Cons.prems by simp
  then obtain b where b: "read p = Some b" "DisconnectBlock sha (ledger sha h read ((qs @ rev ps) @ [p])) b = (True, ledger sha h read (qs @ rev ps))"
    unfolding undoable_snoc by blast
  obtain txs where "disconnect_branch sha read (ledger sha h read (qs @ rev ps)) ps = (Inr txs, ledger sha h read qs)"
    using Cons.IH u unfolding undoable_snoc by blast
  then show ?case using b by simp
qed simp

subsection \<open>The state and its best chain\<close>

text \<open>The database is the ledger of the chain up to \<open>p\<close>, which can be taken off block by block.\<close>

definition ledger_at :: "node \<Rightarrow> int \<Rightarrow> chain_state \<Rightarrow> nat \<Rightarrow> bool" where
  "ledger_at N now s p \<longleftrightarrow>
     (let read = nd_read N now (cs_disk s) (cs_heap s); ps = chain_to (cs_heap s) p
      in cs_db s = ledger (nd_sha N) (cs_heap s) read ps \<and> undoable (nd_sha N) (cs_heap s) read ps)"

text \<open>No transaction occurs twice on the chain up to \<open>p\<close>.\<close>

definition ids_distinct :: "node \<Rightarrow> int \<Rightarrow> chain_state \<Rightarrow> nat \<Rightarrow> bool" where
  "ids_distinct N now s p \<longleftrightarrow>
     distinct (ids_of (nd_sha N) (nd_read N now (cs_disk s) (cs_heap s)) (chain_to (cs_heap s) p))"

lemma env_in_simps [simp]:
  "ch_sha (env_in N now s) = nd_sha N" "ch_heap (env_in N now s) = cs_heap s" "ch_block (env_in N now s) = nd_block N"
  by (simp_all add: env_in_def)

lemma ledger_at_same:
  assumes "same_tree (cs_heap s) (cs_heap s')" "cs_db s' = cs_db s" "cs_disk s' = cs_disk s"
  shows "ledger_at N now s' p = ledger_at N now s p"
  unfolding ledger_at_def same_tree_read [OF assms(1)] same_tree_chain_to [OF assms(1)] ledger_same [OF assms(1)]
    undoable_same [OF assms(1)] assms(2,3) ..

text \<open>The steps of a reorganisation that succeeds.\<close>

lemma Reorganize_cases:
  assumes "Reorganize N now s p = (Inr (), s')" "pindexBest s = Some best"
  obtains f ps qs vR db vD h db' pool where
    "find_fork (cs_heap s) best p = Some (Some f)" "blocks_above (cs_heap s) f best = Some ps"
    "blocks_above (cs_heap s) f p = Some qs"
    "disconnect_branch (nd_sha N) (nd_read N now (cs_disk s) (cs_heap s)) (cs_db s) ps = (Inr vR, db)"
    "connect_branch (env_in N now s) (nd_read N now (cs_disk s) (cs_heap s)) now (cs_heap s) db (rev qs) = (Inr vD, h, db')"
    "s' = s\<lparr>cs_heap := foldl (\<lambda>h p. set_next h (pprev (h p)) (Some p)) (foldl (\<lambda>h p. set_next h (pprev (h p)) None) h ps) (rev qs),
            cs_db := db', cs_pool := pool\<rparr>"
  using assms unfolding Reorganize_def Let_def by (auto split: option.splits prod.splits sum.splits)

lemma Reorganize_ledger:
  assumes r: "Reorganize N now s p = (Inr (), s')" and ok: "tree_ok (cs_heap s)" and best: "pindexBest s = Some best"
    and l: "ledger_at N now s best" and d: "ids_distinct N now s p"
  shows "ledger_at N now s' p \<and> same_tree (cs_heap s) (cs_heap s')"
proof -
  let ?h = "cs_heap s" and ?sha = "nd_sha N" and ?read = "nd_read N now (cs_disk s) (cs_heap s)"
  obtain f ps qs vR db vD h db' pool where c: "blocks_above ?h f best = Some ps" "blocks_above ?h f p = Some qs"
      "disconnect_branch ?sha ?read (cs_db s) ps = (Inr vR, db)"
      "connect_branch (env_in N now s) ?read now ?h db (rev qs) = (Inr vD, h, db')"
      "s' = s\<lparr>cs_heap := foldl (\<lambda>h p. set_next h (pprev (h p)) (Some p)) (foldl (\<lambda>h p. set_next h (pprev (h p)) None) h ps) (rev qs),
            cs_db := db', cs_pool := pool\<rparr>"
    by (rule Reorganize_cases [OF r best])
  note cb = blocks_above_chain [OF ok c(1)] and cp = blocks_above_chain [OF ok c(2)]
  have db: "cs_db s = ledger ?sha ?h ?read (chain_to ?h f @ rev ps)" and u: "undoable ?sha ?h ?read (chain_to ?h f @ rev ps)"
    using l unfolding ledger_at_def Let_def cb by blast+
  have "db = ledger ?sha ?h ?read (chain_to ?h f)" using disconnect_branch_ledger [OF u] c(3) unfolding db by auto
  from connect_branch_ledger [OF c(4) [unfolded this] same_tree_refl readable_nd _ undoable_prefix [OF u]] d
  have 2: "db' = ledger ?sha ?h ?read (chain_to ?h p)" "undoable ?sha ?h ?read (chain_to ?h p)" "same_tree ?h h"
    unfolding cp ids_distinct_def by simp_all
  have "cs_heap s' = foldl (\<lambda>h p. set_next h (pprev (h p)) (Some p)) (foldl (\<lambda>h p. set_next h (pprev (h p)) None) h ps) (rev qs)"
    by (simp add: c(5))
  then have t: "same_tree ?h (cs_heap s')"
    by (simp only:) (rule same_tree_trans [OF 2(3) same_tree_trans [OF same_tree_foldl_set_next same_tree_foldl_set_next]])
  have e: "cs_disk s' = cs_disk s" "cs_db s' = db'" unfolding c(5) by simp_all
  show ?thesis unfolding ledger_at_def Let_def same_tree_read [OF t] same_tree_chain_to [OF t] ledger_same [OF t] undoable_same [OF t] e
    using 2 t by simp
qed

lemma SetBestChainInner_cases:
  assumes "SetBestChainInner N now s b p = (Inr (), s')" "pprev (cs_heap s p) = Some q"
  obtains h db where "ConnectBlock (env_in N now s) now (cs_db s) p False b = (Inr (), h, db)"
    "s' = s\<lparr>cs_heap := set_next h (Some q) (Some p), cs_db := db, cs_pool := foldl (\<lambda>m tx. mempool_remove (nd_sha N) tx m) (cs_pool s) (vtx b)\<rparr>"
proof -
  obtain h db q' where c: "ConnectBlock (env_in N now s) now (cs_db s) p False b = (Inr (), h, db)" "pprev (h p) = Some q'"
    "s' = s\<lparr>cs_heap := set_next h (Some q') (Some p), cs_db := db, cs_pool := foldl (\<lambda>m tx. mempool_remove (nd_sha N) tx m) (cs_pool s) (vtx b)\<rparr>"
    using assms(1) unfolding SetBestChainInner_def by (auto split: sum.splits prod.splits option.splits if_splits)
  have "q' = q" using ConnectBlock_tree [OF c(1)] c(2) assms(2) by (simp add: same_tree_def)
  then show thesis using c that by blast
qed

lemma SetBestChainInner_ledger:
  assumes r: "SetBestChainInner N now s b p = (Inr (), s')" and ok: "tree_ok (cs_heap s)" and q: "pprev (cs_heap s p) = Some q"
    and b: "nd_read N now (cs_disk s) (cs_heap s) p = Some b'" "vtx b = vtx b'" and l: "ledger_at N now s q" and d: "ids_distinct N now s p"
  shows "ledger_at N now s' p \<and> same_tree (cs_heap s) (cs_heap s')"
proof -
  let ?h = "cs_heap s" and ?sha = "nd_sha N" and ?read = "nd_read N now (cs_disk s) (cs_heap s)"
  obtain h db where c: "ConnectBlock (env_in N now s) now (cs_db s) p False b = (Inr (), h, db)"
    "s' = s\<lparr>cs_heap := set_next h (Some q) (Some p), cs_db := db, cs_pool := foldl (\<lambda>m tx. mempool_remove (nd_sha N) tx m) (cs_pool s) (vtx b)\<rparr>"
    by (rule SetBestChainInner_cases [OF r q])
  note cp = chain_to_step [OF ok q]
  have u: "undoable ?sha ?h ?read (chain_to ?h q)" and db: "cs_db s = ledger ?sha ?h ?read (chain_to ?h q)"
    using l unfolding ledger_at_def Let_def by blast+
  have "set (map (Tx_GetHash ?sha) (vtx b)) \<inter> set (ids_of ?sha ?read (chain_to ?h q)) = {}"
    using d unfolding ids_distinct_def cp ids_of_append ids_of_Cons [of ?read, OF b(1)] distinct_append b(2) by auto
  from ConnectBlock_ledger [OF c(1) [unfolded db] b(1) _ readable_nd _ u this b(2)]
  have 2: "db = ledger ?sha ?h ?read (chain_to ?h p)" "undoable ?sha ?h ?read (chain_to ?h p)" unfolding cp by (simp_all add: same_tree_refl)
  have t: "same_tree ?h (cs_heap s')" using same_tree_trans [OF _ same_tree_set_next] ConnectBlock_tree [OF c(1)] by (simp add: c(2))
  have e: "cs_disk s' = cs_disk s" "cs_db s' = db" unfolding c(2) by simp_all
  show ?thesis unfolding ledger_at_def Let_def same_tree_read [OF t] same_tree_chain_to [OF t] ledger_same [OF t] undoable_same [OF t] e
    using 2 t by simp
qed

subsection \<open>The forward links\<close>

lemma chain_to_anc: "q \<in> set (chain_to h p) \<longleftrightarrow> (\<exists>k<nat (nHeight (h p)). q = the (anc h k p))"
  unfolding chain_to_def by auto

lemma chain_to_height:
  assumes "tree_ok h" "k < nat (nHeight (h p))"
  shows "nHeight (h (the (anc h k p))) = nHeight (h p) - int k"
proof -
  have "int k \<le> nHeight (h p)" using assms(2) by linarith
  then obtain q where "anc h k p = Some q" using anc_exists [OF assms(1)] by blast
  then show ?thesis using anc_height [OF assms(1)] by simp
qed

lemma chain_to_distinct: "tree_ok h \<Longrightarrow> distinct (chain_to h p)"
  unfolding chain_to_def distinct_rev distinct_map
  using chain_to_height [of h _ p] by (auto intro!: inj_onI) (metis of_nat_eq_iff diff_left_imp_eq)

text \<open>Two blocks of one chain with the same parent are the same.\<close>

lemma chain_to_inj:
  assumes "tree_ok h" "q \<in> set (chain_to h p)" "r \<in> set (chain_to h p)" "pprev (h q) = Some x" "pprev (h r) = Some x"
  shows "q = r"
proof -
  obtain k l where k: "k < nat (nHeight (h p))" "q = the (anc h k p)" "l < nat (nHeight (h p))" "r = the (anc h l p)"
    using assms(2,3) unfolding chain_to_anc by blast
  have "nHeight (h q) = nHeight (h r)" using tree_okD(3) [OF assms(1)] assms(4,5) by metis
  then have "k = l" using chain_to_height [OF assms(1) k(1)] chain_to_height [OF assms(1) k(3)] k(2,4) by simp
  then show ?thesis using k by simp
qed

text \<open>A block has a successor exactly when it is below the best block on its chain.\<close>

definition links_ok :: "bheap \<Rightarrow> nat \<Rightarrow> bool" where
  "links_ok h best \<longleftrightarrow> (\<forall>p q. pnext (h p) = Some q \<longleftrightarrow> q \<in> set (chain_to h best) \<and> pprev (h q) = Some p)"

lemma set_next_fields [simp]: "pprev (set_next h r q p) = pprev (h p)" "nHeight (set_next h r q p) = nHeight (h p)"
  using same_tree_set_next [of h r q] unfolding same_tree_def by blast+

lemma pnext_set_next: "pnext (set_next h r q p) = (if r = Some p then q else pnext (h p))"
  by (auto simp: set_next_def split: option.split)

lemma unlink_all:
  "pnext (foldl (\<lambda>h p. set_next h (pprev (h p)) None) h ps x) = (if \<exists>p\<in>set ps. pprev (h p) = Some x then None else pnext (h x))"
  by (induction ps arbitrary: h) (auto simp: pnext_set_next)

lemma link_all:
  "(\<And>p q. p \<in> set ps \<Longrightarrow> q \<in> set ps \<Longrightarrow> pprev (h p) = Some x \<Longrightarrow> pprev (h q) = Some x \<Longrightarrow> p = q) \<Longrightarrow>
   pnext (foldl (\<lambda>h p. set_next h (pprev (h p)) (Some p)) h ps x) = Some y \<longleftrightarrow>
     (if \<exists>p\<in>set ps. pprev (h p) = Some x then y \<in> set ps \<and> pprev (h y) = Some x else pnext (h x) = Some y)"
proof (induction ps arbitrary: h)
  case (Cons p ps)
  have IH: "pnext (foldl (\<lambda>h p. set_next h (pprev (h p)) (Some p)) (set_next h (pprev (h p)) (Some p)) ps x) = Some y \<longleftrightarrow>
     (if \<exists>p\<in>set ps. pprev (h p) = Some x then y \<in> set ps \<and> pprev (h y) = Some x
      else pnext (set_next h (pprev (h p)) (Some p) x) = Some y)"
    using Cons.IH [of "set_next h (pprev (h p)) (Some p)"] Cons.prems by simp
  show ?case
  proof (cases "pprev (h p) = Some x")
    case True
    have "q = p" if "q \<in> set ps" "pprev (h q) = Some x" for q using Cons.prems [of q p] that True by simp
    then show ?thesis using IH True by (auto simp: pnext_set_next)
  next
    case False
    then show ?thesis using IH by (auto simp: pnext_set_next)
  qed
qed simp

lemma links_switch:
  assumes ok: "tree_ok h" and l: "links_ok h best" and b: "blocks_above h f best = Some ps" and p: "blocks_above h f p = Some qs"
    and t: "same_tree h h1" and n: "\<And>x. pnext (h1 x) = pnext (h x)"
  shows "links_ok (foldl (\<lambda>h p. set_next h (pprev (h p)) (Some p)) (foldl (\<lambda>h p. set_next h (pprev (h p)) None) h1 ps) (rev qs)) p"
    (is "links_ok ?h3 p")
proof -
  let ?h2 = "foldl (\<lambda>h p. set_next h (pprev (h p)) None) h1 ps"
  have t2: "same_tree h ?h2" by (rule same_tree_trans [OF t same_tree_foldl_set_next])
  have t3: "same_tree h ?h3" by (rule same_tree_trans [OF t2 same_tree_foldl_set_next])
  note cb = blocks_above_chain [OF ok b] and cp = blocks_above_chain [OF ok p]
  note prev = same_tree_next [OF t] same_tree_next [OF t2] same_tree_next [OF t3]
  have new: "pnext (?h3 x) = Some y \<longleftrightarrow>
      (if \<exists>q\<in>set qs. pprev (h q) = Some x then y \<in> set qs \<and> pprev (h y) = Some x else pnext (?h2 x) = Some y)" for x y
    using link_all [of "rev qs" ?h2 x y] chain_to_inj [OF ok, of _ p _ x] unfolding cp prev by auto
  have old: "pnext (?h2 x) = Some y \<longleftrightarrow> \<not> (\<exists>q\<in>set ps. pprev (h q) = Some x) \<and> y \<in> set (chain_to h f @ rev ps) \<and> pprev (h y) = Some x" for x y
    using l unfolding unlink_all prev n links_ok_def cb by auto
  have d: "distinct (chain_to h f @ rev ps)" "distinct (chain_to h f @ rev qs)"
    using chain_to_distinct [OF ok] unfolding cb [symmetric] cp [symmetric] by blast+
  have ib: "q = r" if "q \<in> set (chain_to h f @ rev ps)" "r \<in> set (chain_to h f @ rev ps)" "pprev (h q) = Some x" "pprev (h r) = Some x" for q r x
    using chain_to_inj [OF ok] that unfolding cb [symmetric] by blast
  have ip: "q = r" if "q \<in> set (chain_to h f @ rev qs)" "r \<in> set (chain_to h f @ rev qs)" "pprev (h q) = Some x" "pprev (h r) = Some x" for q r x
    using chain_to_inj [OF ok] that unfolding cp [symmetric] by blast
  have "pnext (?h3 x) = Some y \<longleftrightarrow> y \<in> set (chain_to h f @ rev qs) \<and> pprev (h y) = Some x" for x y
  proof (cases "\<exists>q\<in>set qs. pprev (h q) = Some x")
    case True
    then obtain q where q: "q \<in> set qs" "pprev (h q) = Some x" by blast
    then show ?thesis using new [of x y] ip [of q y x] by auto
  next
    case False
    then have "pnext (?h3 x) = Some y \<longleftrightarrow> pnext (?h2 x) = Some y" using new by simp
    moreover have "\<not> (\<exists>q\<in>set ps. pprev (h q) = Some x)" if "y \<in> set (chain_to h f)" "pprev (h y) = Some x"
      using ib [of y _ x] that d(1) by auto
    ultimately show ?thesis using False unfolding old by auto
  qed
  then show ?thesis unfolding links_ok_def same_tree_chain_to [OF t3] prev cp by blast
qed

subsection \<open>Setting the best chain\<close>

text \<open>The index leads from a hash to the block with that hash, and holds the parents of the blocks in it.\<close>

definition hash_index :: "bheap \<Rightarrow> (base_uint \<rightharpoonup> nat) \<Rightarrow> bool" where
  "hash_index h m \<longleftrightarrow>
     (\<forall>hsh q. m hsh = Some q \<longrightarrow> length hsh = 8 \<and> phashBlock (h q) = hsh \<and> (\<forall>r. pprev (h q) = Some r \<longrightarrow> r \<in> ran m))"

text \<open>It leads to allocated objects only, and to the best block under its hash.\<close>

definition index_ok :: "chain_state \<Rightarrow> nat \<Rightarrow> bool" where
  "index_ok s best \<longleftrightarrow>
     hash_index (cs_heap s) (mapBlockIndex s) \<and> (\<forall>hsh q. mapBlockIndex s hsh = Some q \<longrightarrow> q < cs_next s) \<and>
     (\<forall>q r. pprev (cs_heap s q) = Some r \<longrightarrow> r < cs_next s) \<and> mapBlockIndex s (hashBestChain s) = Some best"

text \<open>
  What the state keeps of its best block: the block tree is well formed, the database is the ledger of
  the best chain, the forward links follow it, and the globals describe its last block.
\<close>

definition chain_inv :: "node \<Rightarrow> int \<Rightarrow> chain_state \<Rightarrow> nat \<Rightarrow> bool" where
  "chain_inv N now s best \<longleftrightarrow>
     tree_ok (cs_heap s) \<and> pindexGenesisBlock s \<noteq> None \<and> pindexBest s = Some best \<and> ledger_at N now s best \<and>
     links_ok (cs_heap s) best \<and> nBestHeight s = nHeight (cs_heap s best) \<and> bnBestChainTrust s = bnChainTrust (cs_heap s best) \<and>
     index_ok s best"

lemma same_tree_index: "same_tree h h' \<Longrightarrow> hash_index h' m = hash_index h m"
  by (simp add: hash_index_def same_tree_def)

lemma links_same:
  assumes "same_tree h h'" "\<And>x. pnext (h' x) = pnext (h x)"
  shows "links_ok h' best = links_ok h best"
  unfolding links_ok_def same_tree_chain_to [OF assms(1)] same_tree_next [OF assms(1)] assms(2) ..

lemma connect_branch_tree:
  "connect_branch V read now h db ps = (r, h', db') \<Longrightarrow> same_tree h h' \<and> (\<forall>q. pnext (h' q) = pnext (h q))"
proof (induction ps arbitrary: h db r h' db')
  case (Cons p ps)
  show ?case
  proof (cases "read p")
    case (Some b)
    obtain r2 h2 db2 where c: "ConnectBlock (V\<lparr>ch_heap := h\<rparr>) now db p False b = (r2, h2, db2)" by (metis prod_cases3)
    have t: "same_tree h h2" "\<And>q. pnext (h2 q) = pnext (h q)" using ConnectBlock_tree [OF c] ConnectBlock_next [OF c] by simp_all
    show ?thesis
    proof (cases r2)
      case (Inr u)
      obtain r3 h3 db3 where c3: "connect_branch V read now h2 db2 ps = (r3, h3, db3)" by (metis prod_cases3)
      have "h' = h3" using Cons.prems Some c Inr c3 by (auto split: sum.splits)
      then show ?thesis using Cons.IH [OF c3] t same_tree_trans [OF t(1)] by simp
    qed (use Cons.prems Some c t in simp)
  qed (use Cons.prems in \<open>simp add: same_tree_refl\<close>)
qed (simp add: same_tree_refl)

text \<open>A switch that fails changes neither the tree nor the database.\<close>

definition chain_kept :: "chain_state \<Rightarrow> chain_state \<Rightarrow> bool" where
  "chain_kept s s' \<longleftrightarrow> same_tree (cs_heap s) (cs_heap s') \<and> (\<forall>q. pnext (cs_heap s' q) = pnext (cs_heap s q)) \<and>
     cs_db s' = cs_db s \<and> cs_disk s' = cs_disk s \<and> pindexGenesisBlock s' = pindexGenesisBlock s \<and> pindexBest s' = pindexBest s \<and>
     nBestHeight s' = nBestHeight s \<and> bnBestChainTrust s' = bnBestChainTrust s \<and> cs_pool s' = cs_pool s \<and> hashBestChain s' = hashBestChain s \<and>
     mapBlockIndex s' = mapBlockIndex s \<and> cs_next s' = cs_next s"

lemma chain_kept_inv:
  assumes k: "chain_kept s s'" and i: "chain_inv N now s best"
  shows "chain_inv N now s' best"
proof -
  have t: "same_tree (cs_heap s) (cs_heap s')" and n: "\<And>x. pnext (cs_heap s' x) = pnext (cs_heap s x)" using k unfolding chain_kept_def by blast+
  have "nHeight (cs_heap s' best) = nHeight (cs_heap s best)" "bnChainTrust (cs_heap s' best) = bnChainTrust (cs_heap s best)"
    using t unfolding same_tree_def by blast+
  then show ?thesis using k i unfolding chain_inv_def chain_kept_def
    by (simp add: same_tree_ok [OF t] links_same [OF t n] ledger_at_same [OF t] index_ok_def same_tree_next [OF t] same_tree_index [OF t])
qed

lemma InvalidChainFound_kept: "chain_kept s (InvalidChainFound p s') = chain_kept s s'"
  by (simp add: InvalidChainFound_def chain_kept_def)

lemma Reorganize_kept:
  assumes "Reorganize N now s p = (Inl e, s')"
  shows "chain_kept s s'"
proof (cases "s' = s")
  case True
  then show ?thesis by (simp add: chain_kept_def same_tree_refl)
next
  case False
  then obtain e' h db db0 qs where "connect_branch (env_in N now s) (nd_read N now (cs_disk s) (cs_heap s)) now (cs_heap s) db qs = (Inl e', h, db0)"
      "s' = s\<lparr>cs_heap := h\<rparr>"
    using assms unfolding Reorganize_def Let_def by (auto split: option.splits prod.splits sum.splits)
  then show ?thesis using connect_branch_tree by (fastforce simp: chain_kept_def)
qed

lemma SetBestChainInner_kept:
  assumes "SetBestChainInner N now s b p = (Inl e, s')" "pprev (cs_heap s p) = Some q"
  shows "chain_kept s s'"
proof -
  obtain r h db where c: "ConnectBlock (env_in N now s) now (cs_db s) p False b = (r, h, db)" by (metis prod_cases3)
  have t: "same_tree (cs_heap s) h" "\<And>q. pnext (h q) = pnext (cs_heap s q)" using ConnectBlock_tree [OF c] ConnectBlock_next [OF c] by simp_all
  have k: "chain_kept s (s\<lparr>cs_heap := h\<rparr>)" using t by (simp add: chain_kept_def)
  have "pprev (h p) = Some q" using t(1) assms(2) by (simp add: same_tree_def)
  then have "s' = InvalidChainFound p (s\<lparr>cs_heap := h\<rparr>) \<or> s' = s\<lparr>cs_heap := h\<rparr>"
    using assms(1) c unfolding SetBestChainInner_def by (auto split: sum.splits if_splits)
  then show ?thesis using k InvalidChainFound_kept by metis
qed

lemma Reorganize_links:
  assumes r: "Reorganize N now s p = (Inr (), s')" and ok: "tree_ok (cs_heap s)" and best: "pindexBest s = Some best"
    and l: "links_ok (cs_heap s) best"
  shows "links_ok (cs_heap s') p"
proof (rule Reorganize_cases [OF r best])
  fix f ps qs vR db vD h db' pool
  assume c: "blocks_above (cs_heap s) f best = Some ps" "blocks_above (cs_heap s) f p = Some qs"
    "connect_branch (env_in N now s) (nd_read N now (cs_disk s) (cs_heap s)) now (cs_heap s) db (rev qs) = (Inr vD, h, db')"
    "s' = s\<lparr>cs_heap := foldl (\<lambda>h p. set_next h (pprev (h p)) (Some p)) (foldl (\<lambda>h p. set_next h (pprev (h p)) None) h ps) (rev qs),
            cs_db := db', cs_pool := pool\<rparr>"
  have t: "same_tree (cs_heap s) h" "\<And>q. pnext (h q) = pnext (cs_heap s q)" using connect_branch_tree [OF c(3)] by blast+
  have "cs_heap s' = foldl (\<lambda>h p. set_next h (pprev (h p)) (Some p)) (foldl (\<lambda>h p. set_next h (pprev (h p)) None) h ps) (rev qs)"
    by (simp add: c(4))
  then show ?thesis using links_switch [OF ok l c(1,2) t] by simp
qed

lemma SetBestChainInner_links:
  assumes r: "SetBestChainInner N now s b p = (Inr (), s')" and ok: "tree_ok (cs_heap s)" and q: "pprev (cs_heap s p) = Some best"
    and l: "links_ok (cs_heap s) best"
  shows "links_ok (cs_heap s') p"
proof (rule SetBestChainInner_cases [OF r q])
  fix h db
  assume c: "ConnectBlock (env_in N now s) now (cs_db s) p False b = (Inr (), h, db)"
    "s' = s\<lparr>cs_heap := set_next h (Some best) (Some p), cs_db := db, cs_pool := foldl (\<lambda>m tx. mempool_remove (nd_sha N) tx m) (cs_pool s) (vtx b)\<rparr>"
  have t: "same_tree (cs_heap s) h" "\<And>q. pnext (h q) = pnext (cs_heap s q)" using ConnectBlock_tree [OF c(1)] ConnectBlock_next [OF c(1)] by simp_all
  have np: "p \<noteq> best" using tree_okD(3) [OF ok q] by auto
  have a: "blocks_above (cs_heap s) best best = Some []" by (subst blocks_above.simps) simp
  have a2: "blocks_above (cs_heap s) best p = Some [p]" by (subst blocks_above.simps) (use np q a in simp)
  have hp: "pprev (h p) = Some best" using t(1) q by (simp add: same_tree_def)
  have "links_ok (set_next h (Some best) (Some p)) p" using links_switch [OF ok l a a2 t] hp by simp
  then show ?thesis by (simp add: c(2))
qed

lemma postpone_none:
  assumes "\<And>q. pprev (h p) = Some q \<Longrightarrow> bnChainTrust (h q) \<le> t"
  shows "postpone h t p = Some ([], p)"
proof (cases "pprev (h p)")
  case None
  then show ?thesis by (subst postpone.simps) simp
next
  case (Some q)
  then show ?thesis using assms [OF Some] by (subst postpone.simps) simp
qed

lemma inv_switched:
  assumes "tree_ok (cs_heap s)" "ledger_at N now s p" "links_ok (cs_heap s) p" "pindexGenesisBlock s \<noteq> None"
    "index_ok (s\<lparr>hashBestChain := x\<rparr>) p"
  shows "chain_inv N now (s\<lparr>hashBestChain := x, pindexBest := Some p, nBestHeight := nHeight (cs_heap s p),
           bnBestChainTrust := bnChainTrust (cs_heap s p), cs_pool := m\<rparr>) p"
proof -
  let ?s = "s\<lparr>hashBestChain := x, pindexBest := Some p, nBestHeight := nHeight (cs_heap s p), bnBestChainTrust := bnChainTrust (cs_heap s p), cs_pool := m\<rparr>"
  have "ledger_at N now ?s p = ledger_at N now s p" by (rule ledger_at_same) (simp_all add: same_tree_refl)
  then show ?thesis using assms by (simp add: chain_inv_def index_ok_def)
qed

lemma index_switched:
  assumes "index_ok s best" "same_tree (cs_heap s) (cs_heap s2)" "mapBlockIndex s2 = mapBlockIndex s" "cs_next s2 = cs_next s"
    "mapBlockIndex s x = Some p"
  shows "index_ok (s2\<lparr>hashBestChain := x\<rparr>) p"
  using assms(1,5) by (simp add: index_ok_def assms(3,4) same_tree_next [OF assms(2)] same_tree_index [OF assms(2)])

lemma SetBestChain_inv:
  assumes i: "chain_inv N now s best" and b: "nd_read N now (cs_disk s) (cs_heap s) p = Some b'" "vtx b = vtx b'"
    and linked: "pprev (cs_heap s p) = mapBlockIndex s (hashPrevBlock b)" "length (hashPrevBlock b) = 8"
    and indexed: "mapBlockIndex s (Block_GetHash (be_hash9 (nd_block N)) b) = Some p"
    and trust: "\<And>q. pprev (cs_heap s p) = Some q \<Longrightarrow> bnChainTrust (cs_heap s q) \<le> bnBestChainTrust s"
    and d: "ids_distinct N now s p" and r: "SetBestChain N now s b p = (r, s')"
  shows "chain_inv N now s' (case r of Inl e \<Rightarrow> best | Inr u \<Rightarrow> p)"
proof -
  have ok: "tree_ok (cs_heap s)" and g: "pindexGenesisBlock s \<noteq> None" and best: "pindexBest s = Some best"
    and l: "ledger_at N now s best" and k: "links_ok (cs_heap s) best" and t: "bnBestChainTrust s = bnChainTrust (cs_heap s best)"
    and ix: "index_ok s best"
    using i unfolding chain_inv_def by blast+
  let ?x = "Block_GetHash (be_hash9 (nd_block N)) b"
  have fin: "chain_inv N now (s2\<lparr>hashBestChain := ?x, pindexBest := Some p, nBestHeight := nHeight (cs_heap s2 p),
        bnBestChainTrust := bnChainTrust (cs_heap s2 p), cs_pool := m\<rparr>) p"
    if "ledger_at N now s2 p \<and> same_tree (cs_heap s) (cs_heap s2)" "links_ok (cs_heap s2) p"
      "pindexGenesisBlock s2 = pindexGenesisBlock s \<and> mapBlockIndex s2 = mapBlockIndex s \<and> cs_next s2 = cs_next s" for s2 m
    using that ok g same_tree_ok index_switched [OF ix _ _ _ indexed] by (intro inv_switched) auto
  show ?thesis
  proof (cases "u_eq (hashPrevBlock b) (hashBestChain s)")
    case True
    have "length (hashBestChain s) = 8" using ix unfolding index_ok_def hash_index_def by blast
    then have "hashPrevBlock b = hashBestChain s" using True linked(2) by (simp add: u_eq_iff)
    then have q: "pprev (cs_heap s p) = Some best" using linked(1) ix unfolding index_ok_def by simp
    obtain r2 s2 where s2: "SetBestChainInner N now s b p = (r2, s2)" by fastforce
    show ?thesis
    proof (cases r2)
      case (Inl e)
      then have "r = Inl e" "s' = s2" using r s2 True g by (auto simp: SetBestChain_def Let_def)
      then show ?thesis using chain_kept_inv [OF SetBestChainInner_kept [OF s2 [unfolded Inl] q] i] by simp
    next
      case (Inr u)
      have s2': "SetBestChainInner N now s b p = (Inr (), s2)" using s2 Inr by simp
      have g2: "pindexGenesisBlock s2 = pindexGenesisBlock s \<and> mapBlockIndex s2 = mapBlockIndex s \<and> cs_next s2 = cs_next s"
        by (rule SetBestChainInner_cases [OF s2' q]) simp
      show ?thesis using fin [OF SetBestChainInner_ledger [OF s2' ok q b l d] SetBestChainInner_links [OF s2' ok q k] g2] r s2' True g
        by (auto simp: SetBestChain_def Let_def)
    qed
  next
    case False
    have pp: "postpone (cs_heap s) (bnChainTrust (cs_heap s best)) p = Some ([], p)"
      using postpone_none trust unfolding t by blast
    obtain r2 s2 where s2: "Reorganize N now s p = (r2, s2)" by fastforce
    show ?thesis
    proof (cases r2)
      case (Inl e)
      then have "\<exists>e'. r = Inl e' \<and> (s' = s2 \<or> s' = InvalidChainFound p s2)"
        using r s2 False g best pp by (auto simp: SetBestChain_def Let_def split: if_splits)
      moreover have "chain_kept s s2" using Reorganize_kept s2 Inl by simp
      ultimately show ?thesis using chain_kept_inv [OF _ i] InvalidChainFound_kept by auto
    next
      case (Inr u)
      have s2': "Reorganize N now s p = (Inr (), s2)" using s2 Inr by simp
      have g2: "pindexGenesisBlock s2 = pindexGenesisBlock s \<and> mapBlockIndex s2 = mapBlockIndex s \<and> cs_next s2 = cs_next s"
        by (rule Reorganize_cases [OF s2' best]) simp
      show ?thesis using fin [OF Reorganize_ledger [OF s2' ok best l d] Reorganize_links [OF s2' ok best k] g2] r s2' False g best pp
        by (auto simp: SetBestChain_def Let_def)
    qed
  qed
qed

subsection \<open>The search for the fork\<close>

definition is_anc :: "bheap \<Rightarrow> nat \<Rightarrow> nat \<Rightarrow> bool" where
  "is_anc h f p \<longleftrightarrow> (\<exists>k. anc h k p = Some f)"

lemma is_anc_refl: "is_anc h p p"
  unfolding is_anc_def by (rule exI [of _ 0]) simp

lemma is_anc_step: "is_anc h f p \<longleftrightarrow> f = p \<or> (\<exists>q. pprev (h p) = Some q \<and> is_anc h f q)"
proof
  assume "is_anc h f p"
  then obtain k where "anc h k p = Some f" unfolding is_anc_def by blast
  then show "f = p \<or> (\<exists>q. pprev (h p) = Some q \<and> is_anc h f q)"
    by (cases k) (auto simp: is_anc_def split: option.splits)
next
  assume "f = p \<or> (\<exists>q. pprev (h p) = Some q \<and> is_anc h f q)"
  then show "is_anc h f p"
  proof
    assume "\<exists>q. pprev (h p) = Some q \<and> is_anc h f q"
    then obtain q k where "pprev (h p) = Some q" "anc h k q = Some f" unfolding is_anc_def by blast
    then have "anc h (Suc k) p = Some f" by simp
    then show ?thesis unfolding is_anc_def by blast
  qed (simp add: is_anc_refl)
qed

lemma is_anc_height:
  assumes "tree_ok h" "is_anc h f p"
  shows "nHeight (h f) < nHeight (h p) \<or> f = p"
proof -
  obtain k where "anc h k p = Some f" using assms(2) unfolding is_anc_def by blast
  then show ?thesis using anc_height [OF assms(1)] by (cases k) fastforce+
qed

lemma lower_to_spec:
  assumes "tree_ok h" "0 \<le> k"
  shows "\<exists>q. lower_to h k p = Some (Some q) \<and> nHeight (h q) \<le> k \<and> (\<forall>c. nHeight (h c) \<le> k \<longrightarrow> is_anc h c q = is_anc h c p)"
proof (induction p rule: tree_induct [OF assms(1)])
  case (1 p)
  show ?case
  proof (cases "nHeight (h p) > k")
    case True
    then obtain q where q: "pprev (h p) = Some q" using tree_okD(2) [OF assms(1), of p] assms(2) by (cases "pprev (h p)") auto
    have "is_anc h c p = is_anc h c q" if "nHeight (h c) \<le> k" for c
      using is_anc_step [of h c p] q True that by auto
    then show ?thesis using 1 [OF q] True q by (subst lower_to.simps) auto
  next
    case False
    then show ?thesis by (subst lower_to.simps) simp
  qed
qed

lemma find_fork_spec:
  assumes ok: "tree_ok h"
  shows "is_anc h r a \<Longrightarrow> is_anc h r b \<Longrightarrow> \<exists>f. find_fork h a b = Some (Some f) \<and>
    (\<forall>c. is_anc h c a \<and> is_anc h c b \<longleftrightarrow> is_anc h c f)"
proof (induction a arbitrary: b rule: tree_induct [OF ok])
  case (1 a)
  show ?case
  proof (cases "a = b")
    case True
    then show ?thesis by (subst find_fork.simps) simp
  next
    case False
    obtain b' where b': "lower_to h (nHeight (h a)) b = Some (Some b')" "nHeight (h b') \<le> nHeight (h a)"
        "\<And>c. nHeight (h c) \<le> nHeight (h a) \<Longrightarrow> is_anc h c b' = is_anc h c b"
      using lower_to_spec [OF ok tree_okD(1) [OF ok]] by blast
    have common: "is_anc h c a \<and> is_anc h c b \<longleftrightarrow> is_anc h c a \<and> is_anc h c b'" for c
      using is_anc_height [OF ok, of c a] b'(3) [of c] by auto
    show ?thesis
    proof (cases "a = b'")
      case True
      have "find_fork h a b = Some (Some a)" by (subst find_fork.simps) (simp add: False b'(1) True [symmetric])
      then show ?thesis using common True by auto
    next
      case ab: False
      have na: "\<not> is_anc h a b'" using is_anc_height [OF ok, of a b'] b'(2) ab by linarith
      then have "r \<noteq> a" using 1(2,3) common by blast
      then obtain q where q: "pprev (h a) = Some q" "is_anc h r q" using 1(2) is_anc_step [of h r a] by blast
      have "is_anc h c a \<and> is_anc h c b \<longleftrightarrow> is_anc h c q \<and> is_anc h c b'" for c
        using common [of c] is_anc_step [of h c a] q(1) na by auto
      moreover have "is_anc h r b'" using 1(2,3) common by blast
      moreover have "find_fork h a b = find_fork h q b'" by (subst find_fork.simps) (simp add: False b'(1) ab q(1))
      ultimately show ?thesis using 1(1) [OF q] by simp
    qed
  qed
qed

lemma blocks_above_total:
  assumes "tree_ok h"
  shows "is_anc h f p \<Longrightarrow> \<exists>ps. blocks_above h f p = Some ps"
proof (induction p rule: tree_induct [OF assms])
  case (1 p)
  show ?case
  proof (cases "p = f")
    case True
    then show ?thesis by (subst blocks_above.simps) simp
  next
    case False
    then obtain q where q: "pprev (h p) = Some q" "is_anc h f q" using 1(2) is_anc_step [of h f p] by blast
    then show ?thesis using 1(1) [OF q] False by (subst blocks_above.simps) auto
  qed
qed

subsection \<open>Adding a block to the index\<close>

lemma new_index_fields:
  assumes "new_index N s b fileno blockpos = Inr h"
  shows "q \<noteq> cs_next s \<Longrightarrow> h q = cs_heap s q" "pprev (h (cs_next s)) = mapBlockIndex s (hashPrevBlock b)" "pnext (h (cs_next s)) = None"
    "nHeight (h (cs_next s)) = (case mapBlockIndex s (hashPrevBlock b) of None \<Rightarrow> 0 | Some r \<Rightarrow> nHeight (cs_heap s r) + 1)"
    "bi_nFile (h (cs_next s)) = fileno" "bi_nBlockPos (h (cs_next s)) = blockpos"
    "phashBlock (h (cs_next s)) = Block_GetHash (be_hash9 (nd_block N)) b"
proof -
  let ?p = "cs_next s" and ?F = "\<lambda>x. pprev x = mapBlockIndex s (hashPrevBlock b) \<and> pnext x = None \<and>
    nHeight x = (case mapBlockIndex s (hashPrevBlock b) of None \<Rightarrow> 0 | Some r \<Rightarrow> nHeight (cs_heap s r) + 1) \<and>
    bi_nFile x = fileno \<and> bi_nBlockPos x = blockpos \<and> phashBlock x = Block_GetHash (be_hash9 (nd_block N)) b"
  let ?i = "linked_index N s b fileno blockpos"
  have i: "?F ?i" by (simp add: linked_index_def BlockIndex_of_block_def Let_def BlockIndex_default_def SetProofOfStake_def split: option.split)
  have m: "?F x \<Longrightarrow> ?F (SetStakeModifier k g x)" for k g x by (simp add: SetStakeModifier_def Let_def)
  obtain ok i2 where e: "SetStakeEntropyBit (GetStakeEntropyBit (be_hash9 (nd_block N)) b) ?i = (ok, i2)" by fastforce
  have i2: "?F i2" using i e by (auto simp: SetStakeEntropyBit_def split: if_splits)
  define i3 where "i3 = (if IsProofOfStake i2 then i2\<lparr>hashProofOfStake := (case mapProofOfStake s (Block_GetHash (be_hash9 (nd_block N)) b) of
      Some x \<Rightarrow> x | None \<Rightarrow> hashProofOfStake i2)\<rparr> else i2)"
  have i3: "?F i3" using i2 unfolding i3_def by simp
  note n = assms [unfolded new_index_def Let_def e prod.case, folded i3_def]
  have "\<exists>k g c. h = (cs_heap s)(?p := (SetStakeModifier k g i3)\<lparr>nStakeModifierChecksum := c\<rparr>)"
    using n by (simp split: prod.splits if_split_asm option.splits) blast
  then obtain k g c where h: "h = (cs_heap s)(?p := (SetStakeModifier k g i3)\<lparr>nStakeModifierChecksum := c\<rparr>)" by blast
  then show "q \<noteq> cs_next s \<Longrightarrow> h q = cs_heap s q" by simp
  have F: "?F (h ?p)" using m [OF i3, of k g] unfolding h by simp
  then show "pprev (h ?p) = mapBlockIndex s (hashPrevBlock b)" "pnext (h ?p) = None"
    "nHeight (h ?p) = (case mapBlockIndex s (hashPrevBlock b) of None \<Rightarrow> 0 | Some r \<Rightarrow> nHeight (cs_heap s r) + 1)"
    "bi_nFile (h ?p) = fileno" "bi_nBlockPos (h ?p) = blockpos" "phashBlock (h ?p) = Block_GetHash (be_hash9 (nd_block N)) b" by blast+
qed

text \<open>A place no block points to can be filled.\<close>

lemma fresh_anc:
  assumes "\<And>q. q \<noteq> p \<Longrightarrow> h' q = h q" "\<And>q. pprev (h q) \<noteq> Some p"
  shows "x \<noteq> p \<Longrightarrow> anc h' k x = anc h k x"
proof (induction k arbitrary: x)
  case (Suc k)
  show ?case using Suc.IH assms(2) [of x] by (auto simp: assms(1) [OF Suc.prems] split: option.split)
qed simp

lemma fresh_chain_to:
  assumes "\<And>q. q \<noteq> p \<Longrightarrow> h' q = h q" "\<And>q. pprev (h q) \<noteq> Some p" "x \<noteq> p"
  shows "chain_to h' x = chain_to h x"
  using fresh_anc [OF assms] by (simp add: chain_to_def assms(1) [OF assms(3)])

lemma fresh_not_in_chain:
  assumes "tree_ok h" "\<And>q. pprev (h q) \<noteq> Some p" 
  shows "x \<noteq> p \<Longrightarrow> p \<notin> set (chain_to h x)"
proof (induction x rule: tree_induct [OF assms(1)])
  case (1 x)
  show ?case
  proof (cases "pprev (h x)")
    case None
    then show ?thesis using chain_to_root [OF assms(1)] by simp
  next
    case (Some q)
    then show ?thesis using 1 assms(2) [of x] chain_to_step [OF assms(1) Some] by auto
  qed
qed

lemma ledger_cong:
  assumes "\<And>q. q \<in> set ps \<Longrightarrow> h' q = h q \<and> read' q = read q"
  shows "ledger sha h' read' ps = ledger sha h read ps"
  unfolding ledger_def using assms by (intro foldl_cong) (simp_all split: option.split)

lemma undoable_cong:
  assumes "\<And>q. q \<in> set ps \<Longrightarrow> h' q = h q \<and> read' q = read q"
  shows "undoable sha h read ps \<Longrightarrow> undoable sha h' read' ps"
  using assms
proof (induction ps rule: rev_induct)
  case (snoc p ps)
  have "ledger sha h' read' (ps @ [p]) = ledger sha h read (ps @ [p])" "ledger sha h' read' ps = ledger sha h read ps"
    using snoc.prems(2) by (intro ledger_cong; simp)+
  then show ?case using snoc unfolding undoable_snoc by simp
qed (simp add: undoable_def)

lemma add_block_inv:
  assumes i: "chain_inv N now s best" and n: "new_index N s b fileno blockpos = Inr h"
    and x: "length x = 8" "mapBlockIndex s x = None" "x = Block_GetHash (be_hash9 (nd_block N)) b"
  shows "chain_inv N now (s\<lparr>cs_heap := h, cs_next := cs_next s + 1, mapBlockIndex := (mapBlockIndex s)(x \<mapsto> cs_next s), setStakeSeen := st\<rparr>) best"
    (is "chain_inv N now ?s best")
proof -
  let ?p = "cs_next s" and ?h = "cs_heap s"
  have ok: "tree_ok ?h" and l: "ledger_at N now s best" and k: "links_ok ?h best" and ix: "index_ok s best"
    using i unfolding chain_inv_def by blast+
  have old: "\<And>q. q \<noteq> ?p \<Longrightarrow> h q = ?h q" using new_index_fields(1) [OF n] .
  note new = new_index_fields(2-) [OF n]
  have fr: "\<And>q. pprev (?h q) \<noteq> Some ?p" using ix unfolding index_ok_def by fastforce
  have bp: "best \<noteq> ?p" using ix unfolding index_ok_def by fastforce
  note ch = fresh_chain_to [of ?p h ?h, OF old fr bp]
  have np: "?p \<notin> set (chain_to ?h best)" by (rule fresh_not_in_chain [OF ok fr bp])
  have rd: "\<And>q. q \<noteq> ?p \<Longrightarrow> nd_read N now (cs_disk s) h q = nd_read N now (cs_disk s) ?h q"
    using old by (simp add: nd_read_def ReadFromDisk_index_def)
  have tok: "tree_ok h" unfolding tree_ok_def
  proof
    fix q
    show "0 \<le> nHeight (h q) \<and> (case pprev (h q) of None \<Rightarrow> nHeight (h q) = 0 | Some r \<Rightarrow> nHeight (h q) = nHeight (h r) + 1)"
    proof (cases "q = ?p")
      case True
      have "r \<noteq> ?p" if "mapBlockIndex s (hashPrevBlock b) = Some r" for r using ix that unfolding index_ok_def by fastforce
      then show ?thesis using tree_okD(1) [OF ok] old by (auto simp: True new split: option.split)
    next
      case False
      show ?thesis
      proof (cases "pprev (?h q)")
        case None
        then show ?thesis using tree_okD(1,2) [OF ok, of q] old [OF False] by simp
      next
        case (Some r)
        then have "h r = ?h r" using fr [of q] by (intro old) auto
        then show ?thesis using tree_okD(1) [OF ok, of q] tree_okD(3) [OF ok Some] Some old [OF False] by simp
      qed
    qed
  qed
  have "h q = ?h q \<and> nd_read N now (cs_disk s) h q = nd_read N now (cs_disk s) ?h q" if "q \<in> set (chain_to ?h best)" for q
    using that np old rd by (cases "q = ?p") auto
  then have "ledger_at N now ?s best"
    using l ledger_cong [of "chain_to ?h best" h ?h] undoable_cong [of "chain_to ?h best" h ?h]
    unfolding ledger_at_def Let_def by (simp add: ch)
  moreover have "links_ok h best" unfolding links_ok_def
  proof (intro allI)
    fix a c
    show "(pnext (h a) = Some c) = (c \<in> set (chain_to h best) \<and> pprev (h c) = Some a)"
    proof (cases "a = ?p")
      case True
      have "\<not> (c \<in> set (chain_to ?h best) \<and> pprev (h c) = Some ?p)" using np fr [of c] old [of c] by (cases "c = ?p") auto
      then show ?thesis using True new by (simp add: ch)
    next
      case False
      have "(c \<in> set (chain_to ?h best) \<and> pprev (h c) = Some a) = (c \<in> set (chain_to ?h best) \<and> pprev (?h c) = Some a)"
        using np old [of c] by (cases "c = ?p") auto
      then show ?thesis using k False old [of a] unfolding links_ok_def by (simp add: ch)
    qed
  qed
  moreover have "index_ok ?s best" 
  proof -
    have bounded: "\<And>y r. mapBlockIndex s y = Some r \<Longrightarrow> r < ?p" "\<And>q r. pprev (?h q) = Some r \<Longrightarrow> r < ?p"
      using ix unfolding index_ok_def by blast+
    have "r < cs_next s + 1" if "pprev (h q) = Some r" for q r
    proof (cases "q = ?p")
      case True
      then show ?thesis using that bounded(1) new(1) by (simp add: less_Suc_eq)
    next
      case False
      then show ?thesis using that bounded(2) [of q r] old [OF False] by simp
    qed
    moreover have "hashBestChain s \<noteq> x" using ix x(2) unfolding index_ok_def by auto
    moreover have "hash_index h ((mapBlockIndex s)(x \<mapsto> ?p))" unfolding hash_index_def
    proof (intro allI impI)
      fix y q assume y: "((mapBlockIndex s)(x \<mapsto> ?p)) y = Some q"
      have rn: "ran ((mapBlockIndex s)(x \<mapsto> ?p)) = insert ?p (ran (mapBlockIndex s))" using x(2) by simp
      show "length y = 8 \<and> phashBlock (h q) = y \<and> (\<forall>r. pprev (h q) = Some r \<longrightarrow> r \<in> ran ((mapBlockIndex s)(x \<mapsto> ?p)))"
      proof (cases "y = x")
        case True
        then show ?thesis using x y new(1,6) unfolding rn by (auto intro: ranI)
      next
        case False
        then have q: "mapBlockIndex s y = Some q" using y by simp
        then have "h q = ?h q" using bounded(1) [OF q] by (intro old) simp
        then show ?thesis using ix q unfolding index_ok_def hash_index_def rn by simp
      qed
    qed
    ultimately show ?thesis using ix bounded(1) unfolding index_ok_def by (auto simp: less_Suc_eq)
  qed
  ultimately show ?thesis using i tok old [OF bp] by (simp add: chain_inv_def)
qed

text \<open>Adding a block, whether or not it becomes the best one, and whether or not that succeeds.\<close>

lemma AddToBlockIndex_inv:
  assumes i: "chain_inv N now s best" and r: "AddToBlockIndex N now s b fileno blockpos = (r, s')"
    and st: "stored (cs_disk s) fileno blockpos b" "wf_block b" "map tx_on_wire (vtx b) = vtx b"
    and pow: "Block_IsProofOfWork b \<Longrightarrow> CheckProofOfWork (be_limits (nd_block N)) (Block_GetHash (be_hash9 (nd_block N)) b) (b_nBits b)"
    and hl: "length (Block_GetHash (be_hash9 (nd_block N)) b) = 8"
    and trust: "\<And>q. mapBlockIndex s (hashPrevBlock b) = Some q \<Longrightarrow> bnChainTrust (cs_heap s q) \<le> bnBestChainTrust s"
    and d: "\<And>q. mapBlockIndex s (hashPrevBlock b) = Some q \<Longrightarrow>
      distinct (ids_of (nd_sha N) (nd_read N now (cs_disk s) (cs_heap s)) (chain_to (cs_heap s) q) @ map (Tx_GetHash (nd_sha N)) (vtx b))"
    and parent: "mapBlockIndex s (hashPrevBlock b) \<noteq> None"
  shows "chain_inv N now s' best \<or> chain_inv N now s' (cs_next s)"
proof (cases "mapBlockIndex s (Block_GetHash (be_hash9 (nd_block N)) b)")
  case (Some q)
  then show ?thesis using i r by (simp add: AddToBlockIndex_def)
next
  case None
  let ?x = "Block_GetHash (be_hash9 (nd_block N)) b" and ?p = "cs_next s"
  obtain q where q: "mapBlockIndex s (hashPrevBlock b) = Some q" using parent by blast
  have ix: "index_ok s best" and ok: "tree_ok (cs_heap s)" using i unfolding chain_inv_def by blast+
  show ?thesis
  proof (cases "new_index N s b fileno blockpos")
    case (Inl e)
    then show ?thesis using i r None by (simp add: AddToBlockIndex_def)
  next
    case (Inr h)
    note new = new_index_fields [OF Inr]
    define s1 where "s1 = s\<lparr>cs_heap := h, cs_next := ?p + 1, mapBlockIndex := (mapBlockIndex s)(?x \<mapsto> ?p),
        setStakeSeen := (if IsProofOfStake (h ?p) then insert (prevoutStake (h ?p), nStakeTime (h ?p)) (setStakeSeen s) else setStakeSeen s)\<rparr>"
    have i1: "chain_inv N now s1 best" unfolding s1_def by (rule add_block_inv [OF i Inr hl None refl])
    have s1: "cs_heap s1 = h" "cs_disk s1 = cs_disk s" "bnBestChainTrust s1 = bnBestChainTrust s" "mapBlockIndex s1 = (mapBlockIndex s)(?x \<mapsto> ?p)"
      unfolding s1_def by simp_all
    have r1: "r = Inr () \<and> s' = s1 \<or> SetBestChain N now s1 b ?p = (r, s')"
      using r None Inr unfolding AddToBlockIndex_def Let_def s1_def by (auto split: if_split_asm)
    have qp: "q \<noteq> ?p" using ix q unfolding index_ok_def by fastforce
    have read: "nd_read N now (cs_disk s) h ?p = Some (block_on_disk b)"
      using stored_read [OF st(1,2)] pow by (simp add: nd_read_def ReadFromDisk_index_def new block_on_disk_def Block_GetHash_def u_eq_iff)
    have v: "vtx b = vtx (block_on_disk b)" using st(3) by (simp add: block_on_disk_def)
    have hq: "hashPrevBlock b \<noteq> ?x" using q None by auto
    have fr: "\<And>r. pprev (cs_heap s r) \<noteq> Some ?p" using ix unfolding index_ok_def by fastforce
    have tok: "tree_ok h" using i1 unfolding chain_inv_def s1(1) by blast
    have old: "nd_read N now (cs_disk s) h r = nd_read N now (cs_disk s) (cs_heap s) r" if "r \<in> set (chain_to (cs_heap s) q)" for r
    proof -
      have "r \<noteq> ?p" using fresh_not_in_chain [OF ok fr qp] that by auto
      then show ?thesis using new(1) by (simp add: nd_read_def ReadFromDisk_index_def)
    qed
    have ids: "ids_of (nd_sha N) (nd_read N now (cs_disk s) h) (chain_to (cs_heap s) q) =
        ids_of (nd_sha N) (nd_read N now (cs_disk s) (cs_heap s)) (chain_to (cs_heap s) q)"
      unfolding ids_of_def using old by (metis (no_types, lifting) map_cong)
    have ch: "chain_to h ?p = chain_to (cs_heap s) q @ [?p]"
      using chain_to_step [OF tok new(2) [unfolded q]] fresh_chain_to [of ?p h "cs_heap s", OF new(1) fr qp] by simp
    have dd: "ids_distinct N now s1 ?p"
      using d [OF q] ids_of_Cons [of "nd_read N now (cs_disk s) h", OF read, of "nd_sha N" "[]"] v unfolding ids_distinct_def s1 ch ids_of_append ids by (simp add: ids_of_def)
    have "chain_inv N now s' (case r of Inl e \<Rightarrow> best | Inr u \<Rightarrow> ?p)" if "SetBestChain N now s1 b ?p = (r, s')"
    proof (rule SetBestChain_inv [OF i1 _ v _ _ _ _ dd that])
      show "nd_read N now (cs_disk s1) (cs_heap s1) ?p = Some (block_on_disk b)" using read by (simp add: s1)
      show "pprev (cs_heap s1 ?p) = mapBlockIndex s1 (hashPrevBlock b)" using hq by (simp add: s1 new(2))
      show "length (hashPrevBlock b) = 8" using st(2) by (simp add: wf_block_def)
      show "mapBlockIndex s1 ?x = Some ?p" by (simp add: s1)
      show "bnChainTrust (cs_heap s1 r) \<le> bnBestChainTrust s1" if "pprev (cs_heap s1 ?p) = Some r" for r
        using that trust [OF q] new(1) [OF qp] by (simp add: s1 new(2) q)
    qed
    then show ?thesis using r1 i1 by (cases r) auto
  qed
qed

text \<open>C1. A reorganisation is all or nothing. Let the database be the ledger of the chain up to the best block,
  and the forward links those of that chain. If Reorganize to a block \<open>p\<close> succeeds, the database is the ledger of the
  chain up to \<open>p\<close> (every block of it applied in order, from nothing; each of them can be disconnected
  again), and the forward links follow that chain; if it fails, for any reason, both are still those of the old chain.
\<close>

theorem reorganize_follows_ledger:
  assumes "tree_ok (cs_heap s)" "pindexBest s = Some best" "ledger_at N now s best" "links_ok (cs_heap s) best" "ids_distinct N now s p"
    and "Reorganize N now s p = (r, s')"
  shows "case r of Inr _ \<Rightarrow> ledger_at N now s' p \<and> links_ok (cs_heap s') p
    | Inl e \<Rightarrow> ledger_at N now s' best \<and> links_ok (cs_heap s') best"
proof (cases r)
  case (Inl e)
  note k = Reorganize_kept [OF assms(6) [unfolded Inl]]
  have t: "same_tree (cs_heap s) (cs_heap s')" "\<And>q. pnext (cs_heap s' q) = pnext (cs_heap s q)"
    using k unfolding chain_kept_def by blast+
  show ?thesis using k assms(3,4) unfolding Inl chain_kept_def by (simp add: ledger_at_same [OF t(1)] links_same [OF t])
next
  case (Inr u)
  then have "Reorganize N now s p = (Inr (), s')" using assms(6) by simp
  then show ?thesis using Reorganize_ledger Reorganize_links assms(1-5) unfolding Inr by simp
qed

text \<open>C12. The search for the fork ends: two blocks of a well-formed tree that have some ancestor in common have
  a last one, every common ancestor being an ancestor of it, and find_fork returns it; from both
  blocks the walk back reaches it.
\<close>

theorem fork_is_last_common_ancestor:
  assumes "tree_ok h" "is_anc h r a" "is_anc h r b"
  shows "\<exists>f ps qs. find_fork h a b = Some (Some f) \<and> blocks_above h f a = Some ps \<and> blocks_above h f b = Some qs \<and>
    (\<forall>c. is_anc h c a \<and> is_anc h c b \<longleftrightarrow> is_anc h c f)"
proof -
  obtain f where f: "find_fork h a b = Some (Some f)" "\<forall>c. is_anc h c a \<and> is_anc h c b \<longleftrightarrow> is_anc h c f"
    using find_fork_spec [OF assms] by blast
  then have "is_anc h f a" "is_anc h f b" using is_anc_refl by blast+
  then show ?thesis using f blocks_above_total [OF assms(1)] by blast
qed

text \<open>C2. AddToBlockIndex keeps the invariant of the chain state, whatever it returns: the block tree stays well formed, the
  database is the ledger of the chain up to pindexBest, the forward links follow that chain, and
  the best hash, height and trust are those of pindexBest, which is the old best block or the new one. The new block is
  one stored on disk whose parent is in the index and has no more trust than the best block, and
  whose chain holds no transaction twice.
\<close>

theorem add_to_block_index_keeps_chain:
  assumes "chain_inv N now s best" "AddToBlockIndex N now s b fileno blockpos = (r, s')"
    and "stored (cs_disk s) fileno blockpos b" "wf_block b" "map tx_on_wire (vtx b) = vtx b"
    and "Block_IsProofOfWork b \<longrightarrow> CheckProofOfWork (be_limits (nd_block N)) (Block_GetHash (be_hash9 (nd_block N)) b) (b_nBits b)"
    and "length (Block_GetHash (be_hash9 (nd_block N)) b) = 8"
    and "mapBlockIndex s (hashPrevBlock b) = Some q" "bnChainTrust (cs_heap s q) \<le> bnBestChainTrust s"
    and "distinct (ids_of (nd_sha N) (nd_read N now (cs_disk s) (cs_heap s)) (chain_to (cs_heap s) q) @ map (Tx_GetHash (nd_sha N)) (vtx b))"
  shows "chain_inv N now s' best \<or> chain_inv N now s' (cs_next s)"
  by (rule AddToBlockIndex_inv [OF assms(1-5)]) (use assms(6-) in simp_all)

text \<open>A tree of two rival blocks, each with a single transaction, above one root.\<close>

definition w_mint_block :: CBlock where
  "w_mint_block = Block_SetNull\<lparr>vtx := [w_coinbase], b_nTime := 10, b_nBits := 0x03000004, hashPrevBlock := [1, 0, 0, 0, 0, 0, 0, 0]\<rparr>"

definition w_node :: node where
  "w_node = \<lparr> nd_params = main_params, nd_block = ch_block w_env, nd_consts = ch_consts w_env, nd_testnet = False \<rparr>"

definition w_fork :: bheap where
  "w_fork = (\<lambda>p. if p = 0 then BlockIndex_default\<lparr>pnext := Some 1\<rparr>
     else if p \<le> 2 then BlockIndex_default\<lparr>pprev := Some 0, nHeight := 1, bi_nFile := 1, bi_nBlockPos := 8, phashBlock := u_of_uint64 8 0\<rparr>
     else BlockIndex_default)"

definition w_mint_disk :: disk where
  "w_mint_disk = \<lparr> d_blk = [1 \<mapsto> replicate 8 0 @ ser_CBlock SER_DISK w_mint_block], d_current = 1, d_limit = 10000 \<rparr>"

definition w_state :: chain_state where
  "w_state = \<lparr> cs_heap = w_fork, cs_next = 3, mapBlockIndex = Map.empty, pindexGenesisBlock = Some 0, pindexBest = Some 1,
     hashBestChain = u_of_uint64 8 0, nBestHeight = 1, bnBestChainTrust = 0, bnBestInvalidTrust = 0,
     cs_db = block_effect w_sha (w_fork 1) w_mint_block Map.empty, cs_disk = w_mint_disk, cs_pool = mempool_empty,
     setStakeSeen = {}, mapProofOfStake = Map.empty \<rparr>"

lemma w_mint_fields: "vtx w_mint_block = [w_coinbase]" "vchBlockSig w_mint_block = []" "b_nVersion w_mint_block = 4"
  "length (hashPrevBlock w_mint_block) = 8" "length (hashMerkleRoot w_mint_block) = 8" "b_nBits w_mint_block = b_nBits w_block"
  by (simp_all add: w_mint_block_def w_block_def Block_SetNull_def u_zero8)

lemma w_mint_wf: "wf_block w_mint_block"
proof -
  have "msha3 w_mint_block = []" "b_message w_mint_block = []" by (simp_all add: w_mint_block_def Block_SetNull_def)
  then show ?thesis using w_mint_fields
    by (simp add: wf_block_def) (simp add: w_defs wf_tx_def wf_txin_def wf_txout_def wf_outpoint_def OutPoint_null_def u_zero8 MAX_SIZE_def)
qed

lemma w_mint_stored: "stored w_mint_disk 1 8 w_mint_block"
  by (simp add: stored_def w_mint_disk_def)

lemma w_node_facts: "nd_sha w_node = w_sha" "be_limits (nd_block w_node) = main_limits" "Block_GetHash (be_hash9 (nd_block w_node)) b = u_of_uint64 8 0"
  by (simp_all add: w_node_def w_env_def Block_GetHash_def)

lemma w_mint_read:
  assumes "bi_nFile (h p) = 1" "bi_nBlockPos (h p) = 8" "phashBlock (h p) = u_of_uint64 8 0"
  shows "nd_read w_node now w_mint_disk h p = Some (block_on_disk w_mint_block)"
  unfolding nd_read_def ReadFromDisk_index_def assms stored_read [OF w_mint_stored w_mint_wf]
  using w_pow by (simp add: w_node_facts w_mint_fields u_eq_iff)

lemma w_mint_vtx: "vtx (block_on_disk w_mint_block) = vtx w_mint_block"
  by (simp add: block_on_disk_def w_mint_fields) (simp add: tx_on_wire_def w_defs)

lemma w_fork_ok: "tree_ok w_fork"
  unfolding tree_ok_def w_fork_def by (auto simp: BlockIndex_default_def)

lemma w_fork_chain: "chain_to w_fork 0 = []" "chain_to w_fork 1 = [1]" "chain_to w_fork 2 = [2]"
  by (simp_all add: chain_to_def w_fork_def BlockIndex_default_def)

lemma w_mint_undo: "DisconnectBlock w_sha (block_effect w_sha i w_mint_block Map.empty) w_mint_block = (True, Map.empty)"
  using w_kinds(1) by (simp add: DisconnectBlock_def DisconnectInputs_def block_effect_def w_mint_fields spent_by_def mark_def)

lemma w_state_ledger: "ledger_at w_node 0 w_state 1"
proof -
  have read: "nd_read w_node 0 w_mint_disk w_fork (Suc 0) = Some (block_on_disk w_mint_block)"
    by (rule w_mint_read) (simp_all add: w_fork_def)
  have l: "ledger w_sha w_fork (nd_read w_node 0 w_mint_disk w_fork) [Suc 0] = block_effect w_sha (w_fork 1) w_mint_block Map.empty"
    using ledger_snoc [of w_sha w_fork "nd_read w_node 0 w_mint_disk w_fork" "[]" "Suc 0"] read block_effect_vtx [OF w_mint_vtx]
    by (simp add: ledger_Nil)
  have "undoable w_sha w_fork (nd_read w_node 0 w_mint_disk w_fork) ([] @ [Suc 0])"
    unfolding undoable_snoc using read l w_mint_undo DisconnectBlock_vtx [OF w_mint_vtx] by (simp add: undoable_def ledger_Nil)
  then show ?thesis using l w_fork_chain(2) unfolding ledger_at_def w_node_facts by (simp add: w_state_def)
qed

lemma w_fork_links: "links_ok w_fork 1"
  unfolding links_ok_def w_fork_chain by (auto simp: w_fork_def BlockIndex_default_def split: if_splits)

theorem reorganize_follows_ledger_witness:
  "case Reorganize w_node 0 w_state 2 of
     (Inr _, s') \<Rightarrow> ledger_at w_node 0 s' 2 \<and> links_ok (cs_heap s') 2
   | (Inl e, s') \<Rightarrow> ledger_at w_node 0 s' 1 \<and> links_ok (cs_heap s') 1"
proof -
  obtain r s' where r: "Reorganize w_node 0 w_state 2 = (r, s')" by fastforce
  have s: "cs_heap w_state = w_fork" "pindexBest w_state = Some 1" "cs_disk w_state = w_mint_disk" by (simp_all add: w_state_def)
  have "nd_read w_node 0 w_mint_disk w_fork 2 = Some (block_on_disk w_mint_block)"
    by (rule w_mint_read) (simp_all add: w_fork_def)
  then have "ids_distinct w_node 0 w_state 2"
    by (simp add: ids_distinct_def s w_fork_chain ids_of_def w_mint_vtx w_mint_fields)
  from reorganize_follows_ledger [OF _ s(2) w_state_ledger _ this r] show ?thesis
    using w_fork_ok w_fork_links by (cases r) (simp_all add: s r)
qed

theorem fork_is_last_common_ancestor_witness:
  "\<exists>f ps qs. find_fork w_fork 1 2 = Some (Some f) \<and> blocks_above w_fork f 1 = Some ps \<and> blocks_above w_fork f 2 = Some qs \<and>
    (\<forall>c. is_anc w_fork c 1 \<and> is_anc w_fork c 2 \<longleftrightarrow> is_anc w_fork c f)"
proof (rule fork_is_last_common_ancestor [OF w_fork_ok])
  have "anc w_fork 1 1 = Some 0" "anc w_fork 1 2 = Some 0" by (simp_all add: w_fork_def)
  then show "is_anc w_fork 0 1" "is_anc w_fork 0 2" unfolding is_anc_def by blast+
qed

definition w_start :: chain_state where
  "w_start = w_state\<lparr>cs_heap := \<lambda>p. BlockIndex_default\<lparr>phashBlock := [1, 0, 0, 0, 0, 0, 0, 0]\<rparr>, cs_next := 1, mapBlockIndex := [[1, 0, 0, 0, 0, 0, 0, 0] \<mapsto> 0], pindexBest := Some 0,
     hashBestChain := [1, 0, 0, 0, 0, 0, 0, 0], nBestHeight := 0, bnBestChainTrust := 0, cs_db := Map.empty\<rparr>"

lemma w_start_inv: "chain_inv w_node 0 w_start 0"
  by (simp add: chain_inv_def w_start_def w_state_def tree_ok_def BlockIndex_default_def ledger_at_def chain_to_def ledger_Nil undoable_def
    links_ok_def index_ok_def hash_index_def)

theorem add_to_block_index_keeps_chain_witness:
  "let s' = snd (AddToBlockIndex w_node 0 w_start w_mint_block 1 8) in chain_inv w_node 0 s' 0 \<or> chain_inv w_node 0 s' 1"
proof -
  obtain r s' where r: "AddToBlockIndex w_node 0 w_start w_mint_block 1 8 = (r, s')" by fastforce
  have h: "hashPrevBlock w_mint_block = [1, 0, 0, 0, 0, 0, 0, 0]" by (simp add: w_mint_block_def)
  have s: "cs_disk w_start = w_mint_disk" "cs_next w_start = 1" "mapBlockIndex w_start (hashPrevBlock w_mint_block) = Some 0"
      "chain_to (cs_heap w_start) 0 = []" "bnChainTrust (cs_heap w_start 0) \<le> bnBestChainTrust w_start"
    by (simp_all add: w_start_def w_state_def h chain_to_def BlockIndex_default_def)
  have "chain_inv w_node 0 s' 0 \<or> chain_inv w_node 0 s' (cs_next w_start)"
    by (rule add_to_block_index_keeps_chain [OF w_start_inv r _ w_mint_wf _ _ _ s(3,5)])
      (use w_mint_stored w_mint_vtx w_pow in \<open>simp_all add: s w_node_facts w_mint_fields ids_of_def block_on_disk_def\<close>)
  then show ?thesis by (simp add: r s)
qed

end
