(* ===== verification/Encodings.thy ===== *)
theory Encodings
  imports BigNum
begin

text \<open>
  The text encodings of src/util.cpp and src/util.h: hexadecimal (ParseHex, HexStr, IsHex), Base64,
  Base32 and amounts of money. A C string is the list of its characters before the NUL; reading the
  NUL is \<open>char_at\<close> past the last character.
\<close>

definition char_at :: "string \<Rightarrow> nat \<Rightarrow> char" where
  "char_at p i = (if i < length p then p ! i else CHR 0x00)"

definition c_str :: "string \<Rightarrow> string" where \<comment> \<open>what a reader of str.c_str() sees\<close>
  "c_str str = takeWhile (\<lambda>c. c \<noteq> CHR 0x00) str"

subsection \<open>Hexadecimal\<close>

definition hexdigit :: "char \<Rightarrow> byte option" where \<comment> \<open>phexdigit, None for its - 1\<close>
  "hexdigit c =
     (let n = of_char c :: nat
      in if 0x30 \<le> n \<and> n \<le> 0x39 then Some (word_of_nat (n - 0x30))
         else if 0x41 \<le> n \<and> n \<le> 0x46 then Some (word_of_nat (n - 0x41 + 10))
         else if 0x61 \<le> n \<and> n \<le> 0x66 then Some (word_of_nat (n - 0x61 + 10))
         else None)"

fun ParseHex :: "string \<Rightarrow> byte list" where
  "ParseHex [] = []"
| "ParseHex [c] = []"
| "ParseHex (c # d # cs) =
     (if c_isspace c then ParseHex (d # cs)
      else case hexdigit c of None \<Rightarrow> []
           | Some hi \<Rightarrow> (case hexdigit d of None \<Rightarrow> [] | Some lo \<Rightarrow> (push_bit 4 hi OR lo) # ParseHex cs))"

definition IsHex :: "string \<Rightarrow> bool" where
  "IsHex str \<longleftrightarrow> (\<forall>c\<in>set str. hexdigit c \<noteq> None) \<and> length str > 0 \<and> length str mod 2 = 0"

fun HexStr_loop :: "bool \<Rightarrow> bool \<Rightarrow> byte list \<Rightarrow> string" where \<comment> \<open>the second flag: it != itbegin\<close>
  "HexStr_loop fSpaces inner [] = []"
| "HexStr_loop fSpaces inner (val # vs) =
     (if fSpaces \<and> inner then '' '' else []) @
     [''0123456789abcdef'' ! unat (drop_bit 4 val), ''0123456789abcdef'' ! unat (val AND 15)] @
     HexStr_loop fSpaces True vs"

definition HexStr :: "byte list \<Rightarrow> bool \<Rightarrow> string" where
  "HexStr vch fSpaces = HexStr_loop fSpaces False vch"

subsection \<open>Base64\<close>

definition pbase64 :: string where
  "pbase64 = ''ABCDEFGHIJKLMNOPQRSTUVWXYZabcdefghijklmnopqrstuvwxyz0123456789+/''"

fun EncodeBase64_loop :: "nat \<Rightarrow> nat \<Rightarrow> byte list \<Rightarrow> string" where \<comment> \<open>mode and left; the padding at the end\<close>
  "EncodeBase64_loop mode left [] =
     (if mode \<noteq> 0 then [pbase64 ! left] @ ''='' @ (if mode = 1 then ''='' else []) else [])"
| "EncodeBase64_loop mode left (c # pch) =
     (let enc = unat c
      in if mode = 0 then pbase64 ! (drop_bit 2 enc) # EncodeBase64_loop 1 (push_bit 4 (enc AND 3)) pch
         else if mode = 1 then pbase64 ! (left OR drop_bit 4 enc) # EncodeBase64_loop 2 (push_bit 2 (enc AND 15)) pch
         else pbase64 ! (left OR drop_bit 6 enc) # pbase64 ! (enc AND 63) # EncodeBase64_loop 0 left pch)"

definition EncodeBase64 :: "byte list \<Rightarrow> string" where
  "EncodeBase64 pch = EncodeBase64_loop 0 0 pch"

definition decode64_table :: "int list" where
  "decode64_table = [
      - 1, - 1, - 1, - 1, - 1, - 1, - 1, - 1, - 1, - 1, - 1, - 1, - 1, - 1, - 1, - 1, - 1, - 1, - 1, - 1,
      - 1, - 1, - 1, - 1, - 1, - 1, - 1, - 1, - 1, - 1, - 1, - 1, - 1, - 1, - 1, - 1, - 1, - 1, - 1, - 1,
      - 1, - 1, - 1, 62, - 1, - 1, - 1, 63, 52, 53, 54, 55, 56, 57, 58, 59, 60, 61, - 1, - 1,
      - 1, - 1, - 1, - 1, - 1, 0, 1, 2, 3, 4, 5, 6, 7, 8, 9, 10, 11, 12, 13, 14,
      15, 16, 17, 18, 19, 20, 21, 22, 23, 24, 25, - 1, - 1, - 1, - 1, - 1, - 1, 26, 27, 28,
      29, 30, 31, 32, 33, 34, 35, 36, 37, 38, 39, 40, 41, 42, 43, 44, 45, 46, 47, 48,
      49, 50, 51, - 1, - 1, - 1, - 1, - 1, - 1, - 1, - 1, - 1, - 1, - 1, - 1, - 1, - 1, - 1, - 1, - 1,
      - 1, - 1, - 1, - 1, - 1, - 1, - 1, - 1, - 1, - 1, - 1, - 1, - 1, - 1, - 1, - 1, - 1, - 1, - 1, - 1,
      - 1, - 1, - 1, - 1, - 1, - 1, - 1, - 1, - 1, - 1, - 1, - 1, - 1, - 1, - 1, - 1, - 1, - 1, - 1, - 1,
      - 1, - 1, - 1, - 1, - 1, - 1, - 1, - 1, - 1, - 1, - 1, - 1, - 1, - 1, - 1, - 1, - 1, - 1, - 1, - 1,
      - 1, - 1, - 1, - 1, - 1, - 1, - 1, - 1, - 1, - 1, - 1, - 1, - 1, - 1, - 1, - 1, - 1, - 1, - 1, - 1,
      - 1, - 1, - 1, - 1, - 1, - 1, - 1, - 1, - 1, - 1, - 1, - 1, - 1, - 1, - 1, - 1, - 1, - 1, - 1, - 1,
      - 1, - 1, - 1, - 1, - 1, - 1, - 1, - 1, - 1, - 1, - 1, - 1, - 1, - 1, - 1, - 1]"

definition dec64 :: "char \<Rightarrow> int" where "dec64 c = decode64_table ! of_char c"

text \<open>The loop's result: the bytes pushed, mode and left, and where p stopped.\<close>

fun DecodeBase64_loop :: "nat \<Rightarrow> nat \<Rightarrow> string \<Rightarrow> byte list \<times> nat \<times> nat \<times> string" where
  "DecodeBase64_loop mode left [] = ([], mode, left, [])"
| "DecodeBase64_loop mode left (c # p) =
     (if dec64 c = - 1 then ([], mode, left, c # p)
      else let dec = nat (dec64 c);
               push = (\<lambda>b (bs, r). (word_of_nat b # bs, r))
           in if mode = 0 then DecodeBase64_loop 1 dec p
              else if mode = 1 then push (push_bit 2 left OR drop_bit 4 dec) (DecodeBase64_loop 2 (dec AND 15) p)
              else if mode = 2 then push (push_bit 4 left OR drop_bit 2 dec) (DecodeBase64_loop 3 (dec AND 3) p)
              else push (push_bit 6 left OR dec) (DecodeBase64_loop 0 left p))"

definition DecodeBase64 :: "string \<Rightarrow> byte list \<times> bool" where \<comment> \<open>the bytes and *pfInvalid\<close>
  "DecodeBase64 p =
     (let (vchRet, mode, left, p) = DecodeBase64_loop 0 0 p;
          pfInvalid =
            (if mode = 0 then False
             else if mode = 1 then True
             else if mode = 2 then left \<noteq> 0 \<or> char_at p 0 \<noteq> CHR ''='' \<or> char_at p 1 \<noteq> CHR ''='' \<or> dec64 (char_at p 2) \<noteq> - 1
             else left \<noteq> 0 \<or> char_at p 0 \<noteq> CHR ''='' \<or> dec64 (char_at p 1) \<noteq> - 1)
      in (vchRet, pfInvalid))"

subsection \<open>Base32\<close>

definition pbase32 :: string where
  "pbase32 = ''abcdefghijklmnopqrstuvwxyz234567''"

definition nPadding :: "nat list" where "nPadding = [0, 6, 4, 3, 1]"

fun EncodeBase32_loop :: "nat \<Rightarrow> nat \<Rightarrow> byte list \<Rightarrow> string" where
  "EncodeBase32_loop mode left [] =
     (if mode \<noteq> 0 then [pbase32 ! left] @ replicate (nPadding ! mode) CHR ''='' else [])"
| "EncodeBase32_loop mode left (c # pch) =
     (let enc = unat c
      in if mode = 0 then pbase32 ! (drop_bit 3 enc) # EncodeBase32_loop 1 (push_bit 2 (enc AND 7)) pch
         else if mode = 1 then pbase32 ! (left OR drop_bit 6 enc) # pbase32 ! (drop_bit 1 enc AND 31) #
                               EncodeBase32_loop 2 (push_bit 4 (enc AND 1)) pch
         else if mode = 2 then pbase32 ! (left OR drop_bit 4 enc) # EncodeBase32_loop 3 (push_bit 1 (enc AND 15)) pch
         else if mode = 3 then pbase32 ! (left OR drop_bit 7 enc) # pbase32 ! (drop_bit 2 enc AND 31) #
                               EncodeBase32_loop 4 (push_bit 3 (enc AND 3)) pch
         else pbase32 ! (left OR drop_bit 5 enc) # pbase32 ! (enc AND 31) # EncodeBase32_loop 0 left pch)"

definition EncodeBase32 :: "byte list \<Rightarrow> string" where
  "EncodeBase32 pch = EncodeBase32_loop 0 0 pch"

definition decode32_table :: "int list" where
  "decode32_table = [
      - 1, - 1, - 1, - 1, - 1, - 1, - 1, - 1, - 1, - 1, - 1, - 1, - 1, - 1, - 1, - 1, - 1, - 1, - 1, - 1,
      - 1, - 1, - 1, - 1, - 1, - 1, - 1, - 1, - 1, - 1, - 1, - 1, - 1, - 1, - 1, - 1, - 1, - 1, - 1, - 1,
      - 1, - 1, - 1, - 1, - 1, - 1, - 1, - 1, - 1, - 1, 26, 27, 28, 29, 30, 31, - 1, - 1, - 1, - 1,
      - 1, - 1, - 1, - 1, - 1, 0, 1, 2, 3, 4, 5, 6, 7, 8, 9, 10, 11, 12, 13, 14,
      15, 16, 17, 18, 19, 20, 21, 22, 23, 24, 25, - 1, - 1, - 1, - 1, - 1, - 1, 0, 1, 2,
      3, 4, 5, 6, 7, 8, 9, 10, 11, 12, 13, 14, 15, 16, 17, 18, 19, 20, 21, 22,
      23, 24, 25, - 1, - 1, - 1, - 1, - 1, - 1, - 1, - 1, - 1, - 1, - 1, - 1, - 1, - 1, - 1, - 1, - 1,
      - 1, - 1, - 1, - 1, - 1, - 1, - 1, - 1, - 1, - 1, - 1, - 1, - 1, - 1, - 1, - 1, - 1, - 1, - 1, - 1,
      - 1, - 1, - 1, - 1, - 1, - 1, - 1, - 1, - 1, - 1, - 1, - 1, - 1, - 1, - 1, - 1, - 1, - 1, - 1, - 1,
      - 1, - 1, - 1, - 1, - 1, - 1, - 1, - 1, - 1, - 1, - 1, - 1, - 1, - 1, - 1, - 1, - 1, - 1, - 1, - 1,
      - 1, - 1, - 1, - 1, - 1, - 1, - 1, - 1, - 1, - 1, - 1, - 1, - 1, - 1, - 1, - 1, - 1, - 1, - 1, - 1,
      - 1, - 1, - 1, - 1, - 1, - 1, - 1, - 1, - 1, - 1, - 1, - 1, - 1, - 1, - 1, - 1, - 1, - 1, - 1, - 1,
      - 1, - 1, - 1, - 1, - 1, - 1, - 1, - 1, - 1, - 1, - 1, - 1, - 1, - 1, - 1, - 1]"

definition dec32 :: "char \<Rightarrow> int" where "dec32 c = decode32_table ! of_char c"

fun DecodeBase32_loop :: "nat \<Rightarrow> nat \<Rightarrow> string \<Rightarrow> byte list \<times> nat \<times> nat \<times> string" where
  "DecodeBase32_loop mode left [] = ([], mode, left, [])"
| "DecodeBase32_loop mode left (c # p) =
     (if dec32 c = - 1 then ([], mode, left, c # p)
      else let dec = nat (dec32 c);
               push = (\<lambda>b (bs, r). (word_of_nat b # bs, r))
           in if mode = 0 then DecodeBase32_loop 1 dec p
              else if mode = 1 then push (push_bit 3 left OR drop_bit 2 dec) (DecodeBase32_loop 2 (dec AND 3) p)
              else if mode = 2 then DecodeBase32_loop 3 (push_bit 5 left OR dec) p
              else if mode = 3 then push (push_bit 1 left OR drop_bit 4 dec) (DecodeBase32_loop 4 (dec AND 15) p)
              else if mode = 4 then push (push_bit 4 left OR drop_bit 1 dec) (DecodeBase32_loop 5 (dec AND 1) p)
              else if mode = 5 then DecodeBase32_loop 6 (push_bit 5 left OR dec) p
              else if mode = 6 then push (push_bit 2 left OR drop_bit 3 dec) (DecodeBase32_loop 7 (dec AND 7) p)
              else push (push_bit 5 left OR dec) (DecodeBase32_loop 0 left p))"

definition padding_ok :: "nat \<Rightarrow> string \<Rightarrow> bool" where \<comment> \<open>n '=' signs, then no digit\<close>
  "padding_ok n p \<longleftrightarrow> (\<forall>i<n. char_at p i = CHR ''='') \<and> dec32 (char_at p n) = - 1"

definition DecodeBase32 :: "string \<Rightarrow> byte list \<times> bool" where
  "DecodeBase32 p =
     (let (vchRet, mode, left, p) = DecodeBase32_loop 0 0 p;
          pfInvalid =
            (if mode = 0 then False
             else if mode = 1 \<or> mode = 3 \<or> mode = 6 then True
             else if mode = 2 then left \<noteq> 0 \<or> \<not> padding_ok 6 p
             else if mode = 4 then left \<noteq> 0 \<or> \<not> padding_ok 4 p
             else if mode = 5 then left \<noteq> 0 \<or> \<not> padding_ok 3 p
             else left \<noteq> 0 \<or> \<not> padding_ok 1 p)
      in (vchRet, pfInvalid))"

subsection \<open>The tables invert the alphabets\<close>

lemma dec64_digits: "map (\<lambda>i. dec64 (pbase64 ! i)) [0..<64] = map int [0..<64]"
  by (simp add: upt_rec dec64_def pbase64_def decode64_table_def)

lemma dec32_digits: "map (\<lambda>i. dec32 (pbase32 ! i)) [0..<32] = map int [0..<32]"
  by (simp add: upt_rec dec32_def pbase32_def decode32_table_def)

lemma dec64_digit [simp]: "i < 64 \<Longrightarrow> dec64 (pbase64 ! i) = int i"
  using arg_cong [OF dec64_digits, of "\<lambda>xs. xs ! i"] by simp

lemma dec32_digit [simp]: "i < 32 \<Longrightarrow> dec32 (pbase32 ! i) = int i"
  using arg_cong [OF dec32_digits, of "\<lambda>xs. xs ! i"] by simp

lemma dec_ends [simp]: "dec64 CHR ''='' = - 1" "dec64 CHR 0x00 = - 1" "dec32 CHR ''='' = - 1" "dec32 CHR 0x00 = - 1"
  by (simp_all add: dec64_def dec32_def decode64_table_def decode32_table_def)

subsection \<open>Bits of a byte as digits\<close>

lemma push_or: "y < 2 ^ k \<Longrightarrow> push_bit k x OR y = 2 ^ k * x + (y :: nat)"
proof -
  assume "y < 2 ^ k"
  then have t: "take_bit k y = y" by (simp add: take_bit_nat_eq_self)
  have "push_bit k x AND take_bit k y = 0" by (rule bit_eqI) (auto simp: bit_simps)
  then show ?thesis unfolding t using disjunctive_add_eq_or [of "push_bit k x" y]
    by (simp add: push_bit_eq_mult mult.commute)
qed

lemma and_mask_nat: "a AND (2 ^ k - 1) = a mod 2 ^ k" for a :: nat
  by (metis take_bit_eq_mask take_bit_eq_mod mask_eq_exp_minus_1)

lemmas and_masks = and_mask_nat [of _ 1, simplified] and_mask_nat [of _ 2, simplified] and_mask_nat [of _ 3, simplified]
  and_mask_nat [of _ 4, simplified] and_mask_nat [of _ 5, simplified] and_mask_nat [of _ 6, simplified]

lemmas bits_arith = drop_bit_eq_div and_masks push_or

fun groups3 :: "'a list \<Rightarrow> nat" where
  "groups3 (a # b # c # bs) = Suc (groups3 bs)"
| "groups3 [] = 0"
| "groups3 [a] = 0"
| "groups3 [a, b] = 0"

fun groups5 :: "'a list \<Rightarrow> nat" where
  "groups5 (a # b # c # d # e # bs) = Suc (groups5 bs)"
| "groups5 bs = 0"

lemma unat_byte_less: "unat (b :: byte) < 256"
  using unat_lt_2p [of b] by simp

lemma byte_parts [simp]:
  fixes a b :: byte
  shows "unat a div 4 < 64" "unat a mod 64 < 64"
    and "16 * (unat a mod 4) + unat b div 16 < 64" "4 * (unat a mod 16) + unat b div 64 < 64"
    and "16 * (unat a mod 4) < 64" "4 * (unat a mod 16) < 64"
    and "unat b div 16 < 16" "unat b div 64 < 4"
  using unat_byte_less [of a] unat_byte_less [of b] by (simp_all add: div_less_iff_less_mult)

lemma decode64_digit:
  assumes "i < 64"
  shows "DecodeBase64_loop 0 l (pbase64 ! i # p) = DecodeBase64_loop 1 i p"
    and "DecodeBase64_loop 1 l (pbase64 ! i # p) =
      (case DecodeBase64_loop 2 (i mod 16) p of (bs, r) \<Rightarrow> (word_of_nat (4 * l + i div 16) # bs, r))"
    and "DecodeBase64_loop 2 l (pbase64 ! i # p) =
      (case DecodeBase64_loop 3 (i mod 4) p of (bs, r) \<Rightarrow> (word_of_nat (16 * l + i div 4) # bs, r))"
    and "DecodeBase64_loop 3 l (pbase64 ! i # p) =
      (case DecodeBase64_loop 0 l p of (bs, r) \<Rightarrow> (word_of_nat (64 * l + i) # bs, r))"
  using assms by (simp_all add: bits_arith div_less_iff_less_mult)

lemma decode64_eq: "DecodeBase64_loop m l (CHR ''='' # p) = ([], m, l, CHR ''='' # p)"
  by simp

lemma encode64_byte:
  "EncodeBase64_loop 0 l (a # p) = pbase64 ! (unat a div 4) # EncodeBase64_loop 1 (16 * (unat a mod 4)) p"
  "EncodeBase64_loop 1 (16 * x) (b # p) = pbase64 ! (16 * x + unat b div 16) # EncodeBase64_loop 2 (4 * (unat b mod 16)) p"
  "EncodeBase64_loop 2 (4 * x) (c # p) = pbase64 ! (4 * x + unat c div 64) # pbase64 ! (unat c mod 64) # EncodeBase64_loop 0 (4 * x) p"
  using push_or [of "unat b div 16" 4 x] push_or [of "unat c div 64" 2 x]
  by (simp_all add: bits_arith push_bit_eq_mult mult.commute Let_def)

lemma encode64_group:
  "EncodeBase64_loop 0 l (a # b # c # bs) =
     pbase64 ! (unat a div 4) # pbase64 ! (16 * (unat a mod 4) + unat b div 16) #
     pbase64 ! (4 * (unat b mod 16) + unat c div 64) # pbase64 ! (unat c mod 64) #
     EncodeBase64_loop 0 (4 * (unat b mod 16)) bs"
  by (simp only: encode64_byte)

lemma decode64_group:
  "DecodeBase64_loop 0 l
    (pbase64 ! (unat a div 4) # pbase64 ! (16 * (unat a mod 4) + unat b div 16) #
     pbase64 ! (4 * (unat b mod 16) + unat c div 64) # pbase64 ! (unat c mod 64) # p) =
   (case DecodeBase64_loop 0 (unat c div 64) p of (bs, r) \<Rightarrow> (a # b # c # bs, r))"
  by (simp add: decode64_digit case_prod_unfold del: DecodeBase64_loop.simps One_nat_def)

lemma decode64_tail:
  "DecodeBase64_loop 0 l (pbase64 ! (unat a div 4) # pbase64 ! (16 * (unat a mod 4)) # ''=='') = ([a], 2, 0, ''=='')"
  "DecodeBase64_loop 0 l (pbase64 ! (unat a div 4) # pbase64 ! (16 * (unat a mod 4) + unat b div 16) #
     pbase64 ! (4 * (unat b mod 16)) # ''='') = ([a, b], 3, 0, ''='')"
  by (simp_all add: decode64_digit decode64_eq del: DecodeBase64_loop.simps One_nat_def)

lemma decode64_encode:
  "\<exists>l m q. DecodeBase64_loop 0 l0 (EncodeBase64_loop 0 l1 bs) = (bs, m, l, q) \<and>
    (m = 0 \<or> m = 2 \<and> l = 0 \<and> q = ''=='' \<or> m = 3 \<and> l = 0 \<and> q = ''='')"
proof (induction bs arbitrary: l0 l1 rule: groups3.induct)
  case (1 a b c bs)
  show ?case using 1 [of "unat c div 64" "4 * (unat b mod 16)"]
    unfolding encode64_group decode64_group by auto
next
  case (3 a)
  then show ?case using decode64_tail(1) [of l0 a]
    by (simp del: DecodeBase64_loop.simps EncodeBase64_loop.simps(2) One_nat_def add: encode64_byte)
next
  case (4 a b)
  then show ?case using decode64_tail(2) [of l0 a b]
    by (simp del: DecodeBase64_loop.simps EncodeBase64_loop.simps(2) One_nat_def add: encode64_byte)
qed simp

lemma Base64_roundtrip: "DecodeBase64 (EncodeBase64 bs) = (bs, False)"
  using decode64_encode [of 0 0 bs] by (auto simp: DecodeBase64_def EncodeBase64_def char_at_def)

lemma byte_parts32 [simp]:
  fixes a b :: byte
  shows "unat a div 8 < 32" "unat a mod 32 < 32"
    and "4 * (unat a mod 8) + unat b div 64 < 32" "16 * (unat a mod 2) + unat b div 16 < 32"
    and "2 * (unat a mod 16) + unat b div 128 < 32" "8 * (unat a mod 4) + unat b div 32 < 32"
    and "4 * (unat a mod 8) < 32" "16 * (unat a mod 2) < 32" "2 * (unat a mod 16) < 32" "8 * (unat a mod 4) < 32"
    and "unat b div 128 < 2" "unat b div 32 < 8"
  using unat_byte_less [of a] unat_byte_less [of b] by (simp_all add: div_less_iff_less_mult)

lemma middle_bits [simp]:
  "32 * (n div 64) + n div 2 mod 32 = n div 2" "32 * (n div 128) + n div 4 mod 32 = n div 4" for n :: nat
  using mult_div_mod_eq [of 32 "n div 2"] mult_div_mod_eq [of 32 "n div 4"] by (simp_all flip: div_mult2_eq)

lemma decode32_digit:
  assumes "i < 32"
  shows "DecodeBase32_loop 0 l (pbase32 ! i # p) = DecodeBase32_loop 1 i p"
    and "DecodeBase32_loop 1 l (pbase32 ! i # p) =
      (case DecodeBase32_loop 2 (i mod 4) p of (bs, r) \<Rightarrow> (word_of_nat (8 * l + i div 4) # bs, r))"
    and "DecodeBase32_loop 2 l (pbase32 ! i # p) = DecodeBase32_loop 3 (32 * l + i) p"
    and "DecodeBase32_loop 3 l (pbase32 ! i # p) =
      (case DecodeBase32_loop 4 (i mod 16) p of (bs, r) \<Rightarrow> (word_of_nat (2 * l + i div 16) # bs, r))"
    and "DecodeBase32_loop 4 l (pbase32 ! i # p) =
      (case DecodeBase32_loop 5 (i mod 2) p of (bs, r) \<Rightarrow> (word_of_nat (16 * l + i div 2) # bs, r))"
    and "DecodeBase32_loop 5 l (pbase32 ! i # p) = DecodeBase32_loop 6 (32 * l + i) p"
    and "DecodeBase32_loop 6 l (pbase32 ! i # p) =
      (case DecodeBase32_loop 7 (i mod 8) p of (bs, r) \<Rightarrow> (word_of_nat (4 * l + i div 8) # bs, r))"
    and "DecodeBase32_loop 7 l (pbase32 ! i # p) =
      (case DecodeBase32_loop 0 l p of (bs, r) \<Rightarrow> (word_of_nat (32 * l + i) # bs, r))"
  using assms push_or [of "i div 16" 1 l] by (simp_all add: bits_arith div_less_iff_less_mult)

lemma decode32_eq: "DecodeBase32_loop m l (CHR ''='' # p) = ([], m, l, CHR ''='' # p)"
  by simp

lemma encode32_byte:
  "EncodeBase32_loop 0 l (a # p) = pbase32 ! (unat a div 8) # EncodeBase32_loop 1 (4 * (unat a mod 8)) p"
  "EncodeBase32_loop 1 (4 * x) (b # p) =
     pbase32 ! (4 * x + unat b div 64) # pbase32 ! (unat b div 2 mod 32) # EncodeBase32_loop 2 (16 * (unat b mod 2)) p"
  "EncodeBase32_loop 2 (16 * x) (c # p) = pbase32 ! (16 * x + unat c div 16) # EncodeBase32_loop 3 (2 * (unat c mod 16)) p"
  "EncodeBase32_loop 3 (2 * x) (d # p) =
     pbase32 ! (2 * x + unat d div 128) # pbase32 ! (unat d div 4 mod 32) # EncodeBase32_loop 4 (8 * (unat d mod 4)) p"
  "EncodeBase32_loop 4 (8 * x) (e # p) =
     pbase32 ! (8 * x + unat e div 32) # pbase32 ! (unat e mod 32) # EncodeBase32_loop 0 (8 * x) p"
  using push_or [of "unat b div 64" 2 x] push_or [of "unat c div 16" 4 x] push_or [of "unat d div 128" 1 x]
    push_or [of "unat e div 32" 3 x]
  by (simp_all add: bits_arith push_bit_eq_mult mult.commute Let_def)

lemma decode32_bytes:
  "DecodeBase32_loop 0 l (pbase32 ! (unat a div 8) # p) = DecodeBase32_loop 1 (unat a div 8) p"
  "DecodeBase32_loop 1 (unat a div 8) (pbase32 ! (4 * (unat a mod 8) + unat b div 64) # pbase32 ! (unat b div 2 mod 32) # p) =
     (case DecodeBase32_loop 3 (unat b div 2) p of (bs, r) \<Rightarrow> (a # bs, r))"
  "DecodeBase32_loop 3 (unat b div 2) (pbase32 ! (16 * (unat b mod 2) + unat c div 16) # p) =
     (case DecodeBase32_loop 4 (unat c div 16) p of (bs, r) \<Rightarrow> (b # bs, r))"
  "DecodeBase32_loop 4 (unat c div 16) (pbase32 ! (2 * (unat c mod 16) + unat d div 128) # pbase32 ! (unat d div 4 mod 32) # p) =
     (case DecodeBase32_loop 6 (unat d div 4) p of (bs, r) \<Rightarrow> (c # bs, r))"
  "DecodeBase32_loop 6 (unat d div 4) (pbase32 ! (8 * (unat d mod 4) + unat e div 32) # pbase32 ! (unat e mod 32) # p) =
     (case DecodeBase32_loop 0 (unat e div 32) p of (bs, r) \<Rightarrow> (d # e # bs, r))"
  by (simp_all add: decode32_digit case_prod_unfold del: DecodeBase32_loop.simps One_nat_def)

lemma decode32_ends:
  "DecodeBase32_loop 1 (unat a div 8) (pbase32 ! (4 * (unat a mod 8)) # ''======'') = ([a], 2, 0, ''======'')"
  "DecodeBase32_loop 3 (unat b div 2) (pbase32 ! (16 * (unat b mod 2)) # ''===='') = ([b], 4, 0, ''===='')"
  "DecodeBase32_loop 4 (unat c div 16) (pbase32 ! (2 * (unat c mod 16)) # ''==='') = ([c], 5, 0, ''==='')"
  "DecodeBase32_loop 6 (unat d div 4) (pbase32 ! (8 * (unat d mod 4)) # ''='') = ([d], 7, 0, ''='')"
  by (simp_all add: decode32_digit decode32_eq del: DecodeBase32_loop.simps One_nat_def)

lemma encode32_end:
  "EncodeBase32_loop 1 l [] = pbase32 ! l # ''======''" "EncodeBase32_loop 2 l [] = pbase32 ! l # ''====''"
  "EncodeBase32_loop 0 l [] = []" "EncodeBase32_loop 3 l [] = pbase32 ! l # ''===''" "EncodeBase32_loop 4 l [] = pbase32 ! l # ''=''"
  by (simp_all add: nPadding_def numeral_eq_Suc)

lemma decode32_encode:
  "\<exists>l m q. DecodeBase32_loop 0 l0 (EncodeBase32_loop 0 l1 bs) = (bs, m, l, q) \<and>
    (m = 0 \<and> (q = [] \<or> dec32 (hd q) = - 1) \<or> l = 0 \<and> (m = 2 \<and> q = ''======'' \<or> m = 4 \<and> q = ''===='' \<or> m = 5 \<and> q = ''==='' \<or> m = 7 \<and> q = ''=''))"
proof (induction bs arbitrary: l0 l1 rule: groups5.induct)
  case (1 a b c d e bs)
  show ?case using 1 [of "unat e div 32" "8 * (unat d mod 4)"]
    unfolding encode32_byte decode32_bytes by auto
qed (simp_all only: encode32_byte encode32_end decode32_bytes decode32_ends DecodeBase32_loop.simps(1) case_prod_conv, simp_all)

lemma padding_replicate: "padding_ok n (replicate n CHR ''='')"
  by (simp add: padding_ok_def char_at_def)

lemma paddings: "padding_ok 6 ''======''" "padding_ok 4 ''====''" "padding_ok 3 ''===''" "padding_ok 1 ''=''"
  using padding_replicate [of 6] padding_replicate [of 4] padding_replicate [of 3] padding_replicate [of 1]
  by (simp_all add: numeral_eq_Suc)

lemma Base32_roundtrip: "DecodeBase32 (EncodeBase32 bs) = (bs, False)"
  using decode32_encode [of 0 0 bs] paddings by (auto simp: DecodeBase32_def EncodeBase32_def)

text \<open>Ten bytes make sixteen digits and no padding; a decoder stops at any other character.\<close>

lemma decode32_stops:
  assumes "length bs mod 5 = 0" "p = [] \<or> dec32 (hd p) = - 1"
  shows "\<exists>l. DecodeBase32_loop 0 l0 (EncodeBase32_loop 0 l1 bs @ p) = (bs, 0, l, p)"
  using assms(1)
proof (induction bs arbitrary: l0 l1 rule: groups5.induct)
  case (1 a b c d e bs)
  then have "length bs mod 5 = 0" by (simp add: mod_Suc split: if_splits)
  from 1(1) [OF this, of "unat e div 32" "8 * (unat d mod 4)"] show ?case
    unfolding encode32_byte append_Cons decode32_bytes by auto
next
  case "2_1"
  then show ?case using assms(2) by (cases p) auto
qed simp_all

subsection \<open>Hexadecimal\<close>

lemma hexdigit_hexmap: "n < 16 \<Longrightarrow> hexdigit (''0123456789abcdef'' ! n) = Some (word_of_nat n)"
proof -
  have "list_all (\<lambda>n. hexdigit (''0123456789abcdef'' ! n) = Some (word_of_nat n)) [0..<16]"
    by (simp add: upt_rec hexdigit_def)
  then show "n < 16 \<Longrightarrow> ?thesis" by (simp add: list_all_iff)
qed

lemma hexmap_nospace: "n < 16 \<Longrightarrow> \<not> c_isspace (''0123456789abcdef'' ! n)"
proof -
  have "list_all (\<lambda>n. \<not> c_isspace (''0123456789abcdef'' ! n)) [0..<16]"
    by (simp add: upt_rec c_isspace_def)
  then show "n < 16 \<Longrightarrow> ?thesis" by (simp add: list_all_iff)
qed

lemma nibbles: "unat (drop_bit 4 b) < 16" "unat (b AND 15) < 16"
  "push_bit 4 (word_of_nat (unat (drop_bit 4 b))) OR word_of_nat (unat (b AND 15)) = b" for b :: byte
proof -
  show "unat (drop_bit 4 b) < 16" using unat_byte_less [of b] by (simp add: unat_drop div_less_iff_less_mult)
  have m: "b AND 15 = take_bit 4 b" by (simp add: take_bit_eq_mask mask_eq_exp_minus_1)
  show "unat (b AND 15) < 16" unfolding m using take_bit_nat_less_exp [of 4 "unat b"] by (simp add: unsigned_take_bit_eq)
  show "push_bit 4 (word_of_nat (unat (drop_bit 4 b))) OR word_of_nat (unat (b AND 15)) = b"
    unfolding m by (simp add: word_of_nat_eq_iff) (rule bit_eqI, auto simp: bit_simps)
qed

lemma ParseHex_loop: "ParseHex (HexStr_loop fSpaces inner bs) = bs"
proof (induction bs arbitrary: inner)
  case (Cons b bs)
  note n = nibbles [of b]
  have sp: "c_isspace CHR '' ''" by (simp add: c_isspace_def)
  show ?case using Cons [of True] hexdigit_hexmap [OF n(1)] hexdigit_hexmap [OF n(2)] hexmap_nospace [OF n(1)] n(3)
    by (cases fSpaces) (simp_all add: sp)
qed simp

lemma HexStr_roundtrip: "ParseHex (HexStr bs fSpaces) = bs"
  by (simp add: HexStr_def ParseHex_loop)

lemma hexmap_hexdigit: "c \<in> set (HexStr_loop False inner bs) \<Longrightarrow> hexdigit c \<noteq> None"
  using hexdigit_hexmap nibbles(1,2) by (induction bs arbitrary: inner) auto

lemma IsHex_HexStr: "bs \<noteq> [] \<Longrightarrow> IsHex (HexStr bs False)"
proof -
  have "length (HexStr_loop False inner bs) = 2 * length bs" for inner by (induction bs arbitrary: inner) auto
  then show "bs \<noteq> [] \<Longrightarrow> ?thesis" using hexmap_hexdigit by (auto simp: IsHex_def HexStr_def)
qed

text \<open>Hexadecimal (with or without spaces between the bytes), Base64 and Base32 text decodes
  to the bytes it was made of, and neither padded form is reported as invalid.\<close>

theorem byte_text_roundtrips:
  "ParseHex (HexStr bs fSpaces) = bs \<and> DecodeBase64 (EncodeBase64 bs) = (bs, False) \<and>
   DecodeBase32 (EncodeBase32 bs) = (bs, False)"
  by (simp add: HexStr_roundtrip Base64_roundtrip Base32_roundtrip)

end
