(* ===== verification/SyncCheckpoint.thy ===== *)
theory SyncCheckpoint
  imports Ledger Encodings
begin

text \<open>
  The synchronized checkpoints of src/checkpoints.cpp: a block hash signed by the holder of a master key, which the
  node adopts once it has the block, moving its best chain to the block if need be. Sending messages to peers is
  not modelled; writes to the database succeed.
\<close>

subsection \<open>Messages and state\<close>

record CSyncCheckpoint =
  sc_nVersion :: u32
  sc_hashCheckpoint :: base_uint
  sc_vchMsg :: "byte list"
  sc_vchSig :: "byte list"

definition SyncCheckpoint_null :: CSyncCheckpoint where
  "SyncCheckpoint_null = \<lparr> sc_nVersion = 1, sc_hashCheckpoint = u_of_uint64 8 0, sc_vchMsg = [], sc_vchSig = [] \<rparr>"

definition SyncCheckpoint_IsNull :: "CSyncCheckpoint \<Rightarrow> bool" where
  "SyncCheckpoint_IsNull c \<longleftrightarrow> u_eq64 (sc_hashCheckpoint c) 0"

definition ser_unsigned_checkpoint :: "CSyncCheckpoint \<Rightarrow> byte list" where
  "ser_unsigned_checkpoint c = WRITEDATA (sc_nVersion c) @ ser_uint256 (sc_hashCheckpoint c)"

definition unser_unsigned_checkpoint :: "'s rd \<Rightarrow> CSyncCheckpoint \<Rightarrow> 's \<Rightarrow> (CSyncCheckpoint \<times> 's) option" where
  "unser_unsigned_checkpoint rd c s =
     do { (v, s) \<leftarrow> READDATA rd s; (hsh, s) \<leftarrow> unser_uint256 rd s; Some (c\<lparr>sc_nVersion := v, sc_hashCheckpoint := hsh\<rparr>, s) }"

definition ser_CSyncCheckpoint :: "CSyncCheckpoint \<Rightarrow> byte list" where
  "ser_CSyncCheckpoint c = ser_vch (sc_vchMsg c) @ ser_vch (sc_vchSig c)"

definition unser_CSyncCheckpoint :: "'s rd \<Rightarrow> CSyncCheckpoint \<Rightarrow> 's \<Rightarrow> (CSyncCheckpoint \<times> 's) option" where
  "unser_CSyncCheckpoint rd c s =
     do { (m, s) \<leftarrow> unser_vch rd s; (sig, s) \<leftarrow> unser_vch rd s; Some (c\<lparr>sc_vchMsg := m, sc_vchSig := sig\<rparr>, s) }"

record sync_state =
  hashSyncCheckpoint :: base_uint
  hashPendingCheckpoint :: base_uint
  hashInvalidCheckpoint :: base_uint
  checkpointMessage :: CSyncCheckpoint
  checkpointMessagePending :: CSyncCheckpoint

definition strMasterPubKey :: string where
  "strMasterPubKey = ''04f7588644485641221aa2e15e6dd11e1c75a1ced52e719b425e520e7f84e31bb0fc0a361fefa1fd423659fd8b204104dd046c2b3d60e42b0769ddd9fb0469ba91''"

subsection \<open>Validating a checkpoint\<close>

definition GetLastSyncCheckpoint :: "(base_uint \<rightharpoonup> nat) \<Rightarrow> sync_state \<Rightarrow> nat option" where
  "GetLastSyncCheckpoint m y = m (hashSyncCheckpoint y)"

text \<open>None: a walk back does not end.\<close>

definition ValidateSyncCheckpoint ::
  "bheap \<Rightarrow> (base_uint \<rightharpoonup> nat) \<Rightarrow> sync_state \<Rightarrow> base_uint \<Rightarrow> (bool \<times> sync_state) option" where
  "ValidateSyncCheckpoint h m y hashCheckpoint =
     (case (m (hashSyncCheckpoint y), m hashCheckpoint) of
        (Some sync, Some recv) \<Rightarrow>
          if nHeight (h recv) \<le> nHeight (h sync)
          then (case lower_to h (nHeight (h recv)) sync of None \<Rightarrow> None
                | Some None \<Rightarrow> Some (False, y)
                | Some (Some p) \<Rightarrow>
                    if \<not> u_eq (phashBlock (h p)) hashCheckpoint then Some (False, y\<lparr>hashInvalidCheckpoint := hashCheckpoint\<rparr>)
                    else Some (False, y))
          else (case lower_to h (nHeight (h sync)) recv of None \<Rightarrow> None
                | Some None \<Rightarrow> Some (False, y)
                | Some (Some p) \<Rightarrow>
                    if \<not> u_eq (phashBlock (h p)) (hashSyncCheckpoint y) then Some (False, y\<lparr>hashInvalidCheckpoint := hashCheckpoint\<rparr>)
                    else Some (True, y))
      | _ \<Rightarrow> Some (False, y))"

definition WriteSyncCheckpoint :: "base_uint \<Rightarrow> sync_state \<Rightarrow> sync_state" where
  "WriteSyncCheckpoint hashCheckpoint y = y\<lparr>hashSyncCheckpoint := hashCheckpoint\<rparr>"

text \<open>Moving the best chain to a block that is not on it: Inr False when the block cannot be read.\<close>

definition switch_to :: "node \<Rightarrow> int \<Rightarrow> chain_state \<Rightarrow> nat \<Rightarrow> (reject + bool) \<times> chain_state" where
  "switch_to N now s p =
     (if IsInMainChain (cs_heap s) (pindexBest s) p then (Inr True, s)
      else case nd_read N now (cs_disk s) (cs_heap s) p of None \<Rightarrow> (Inr False, s)
           | Some b \<Rightarrow> (case SetBestChain N now s b p of (Inl e, s) \<Rightarrow> (Inl e, s) | (Inr _, s) \<Rightarrow> (Inr True, s)))"

definition AcceptPendingSyncCheckpoint ::
  "node \<Rightarrow> int \<Rightarrow> chain_state \<Rightarrow> sync_state \<Rightarrow> (reject + bool) \<times> chain_state \<times> sync_state" where
  "AcceptPendingSyncCheckpoint N now s y =
     (let pending = hashPendingCheckpoint y
      in case (if u_eq64 pending 0 then None else mapBlockIndex s pending) of None \<Rightarrow> (Inr False, s, y)
         | Some p \<Rightarrow>
             (case ValidateSyncCheckpoint (cs_heap s) (mapBlockIndex s) y pending of None \<Rightarrow> (Inl Stuck, s, y)
              | Some (ok, y) \<Rightarrow>
                  if \<not> ok then (Inr False, s, y\<lparr>hashPendingCheckpoint := u_of_uint64 8 0, checkpointMessagePending := SyncCheckpoint_null\<rparr>)
                  else case switch_to N now s p of
                         (Inl e, s) \<Rightarrow> if is_false e then (Inr False, s, y\<lparr>hashInvalidCheckpoint := pending\<rparr>) else (Inl e, s, y)
                       | (Inr ok, s) \<Rightarrow>
                           if \<not> ok then (Inr False, s, y)
                           else (Inr True, s, (WriteSyncCheckpoint pending y)
                             \<lparr>hashPendingCheckpoint := u_of_uint64 8 0, checkpointMessage := checkpointMessagePending y,
                              checkpointMessagePending := SyncCheckpoint_null\<rparr>)))"

subsection \<open>Using the checkpoint\<close>

definition CHECKPOINT_MAX_SPAN :: int where "CHECKPOINT_MAX_SPAN = 60 * 60 * 4"

partial_function (option) auto_select_loop :: "bheap \<Rightarrow> nat \<Rightarrow> nat \<Rightarrow> nat option" where
  "auto_select_loop h best p =
     (case pnext (h p) of None \<Rightarrow> Some p
      | Some q \<Rightarrow> if GetBlockTime (h p) + CHECKPOINT_MAX_SPAN \<le> GetBlockTime (h best) \<or>
                     nHeight (h p) + min 6 (nCoinbaseMaturity - 20) \<le> nHeight (h best)
                  then auto_select_loop h best q else Some p)"

definition AutoSelectSyncCheckpoint :: "bheap \<Rightarrow> nat \<Rightarrow> base_uint option" where
  "AutoSelectSyncCheckpoint h best =
     do { p \<leftarrow> GetLastBlockIndex h best False; q \<leftarrow> auto_select_loop h best p; Some (phashBlock (h q)) }"

definition CheckSync ::
  "bool \<Rightarrow> bheap \<Rightarrow> (base_uint \<rightharpoonup> nat) \<Rightarrow> sync_state \<Rightarrow> base_uint \<Rightarrow> nat \<Rightarrow> reject + bool" where
  "CheckSync fTestNet h m y hashBlock pindexPrev =
     (if fTestNet then Inr True
      else case m (hashSyncCheckpoint y) of None \<Rightarrow> Inl Asserted
           | Some sync \<Rightarrow>
               let height = nHeight (h pindexPrev) + 1;
                   traced = (if height > nHeight (h sync)
                             then (case lower_to h (nHeight (h sync)) pindexPrev of None \<Rightarrow> Inl Stuck
                                   | Some None \<Rightarrow> Inr False
                                   | Some (Some p) \<Rightarrow>
                                       Inr (\<not> (nHeight (h p) < nHeight (h sync) \<or> \<not> u_eq (phashBlock (h p)) (hashSyncCheckpoint y))))
                             else Inr True)
               in case traced of Inl e \<Rightarrow> Inl e
                  | Inr ok \<Rightarrow>
                      Inr (if \<not> ok then False
                           else if height = nHeight (h sync) \<and> \<not> u_eq hashBlock (hashSyncCheckpoint y) then False
                           else if height < nHeight (h sync) \<and> m hashBlock = None then False
                           else True))"

text \<open>The walk along a chain of orphans; None: it does not end.\<close>

type_synonym orphan_map = "base_uint \<rightharpoonup> CBlock"

partial_function (option) orphan_base :: "orphan_map \<Rightarrow> CBlock \<Rightarrow> CBlock option" where
  "orphan_base m b = (case m (hashPrevBlock b) of None \<Rightarrow> Some b | Some c \<Rightarrow> orphan_base m c)"

definition GetOrphanRoot :: "(byte list \<Rightarrow> base_uint) \<Rightarrow> orphan_map \<Rightarrow> CBlock \<Rightarrow> base_uint option" where
  "GetOrphanRoot hash9 m b = do { c \<leftarrow> orphan_base m b; Some (Block_GetHash hash9 c) }"

definition WantedByOrphan :: "orphan_map \<Rightarrow> CBlock \<Rightarrow> base_uint option" where
  "WantedByOrphan m b = do { c \<leftarrow> orphan_base m b; Some (hashPrevBlock c) }"

definition WantedByPendingSyncCheckpoint :: "orphan_map \<Rightarrow> sync_state \<Rightarrow> base_uint \<Rightarrow> bool option" where
  "WantedByPendingSyncCheckpoint m y hashBlock =
     (if u_eq64 (hashPendingCheckpoint y) 0 then Some False
      else if u_eq hashBlock (hashPendingCheckpoint y) then Some True
      else case m (hashPendingCheckpoint y) of None \<Rightarrow> Some False
           | Some b \<Rightarrow> do { wanted \<leftarrow> WantedByOrphan m b; Some (u_eq hashBlock wanted) })"

fun reset_loop :: "bheap \<Rightarrow> nat option \<Rightarrow> (base_uint \<rightharpoonup> nat) \<Rightarrow> MapCheckpoints \<Rightarrow> sync_state \<Rightarrow> bool \<times> sync_state" where
  "reset_loop h best m [] y = (False, y)"
| "reset_loop h best m (i # is) y =
     (case m (snd i) of
        Some p \<Rightarrow> if IsInMainChain h best p then (True, WriteSyncCheckpoint (snd i) y) else reset_loop h best m is y
      | None \<Rightarrow> reset_loop h best m is y)"

definition ResetSyncCheckpoint :: "node \<Rightarrow> int \<Rightarrow> chain_state \<Rightarrow> sync_state \<Rightarrow> (reject + bool) \<times> chain_state \<times> sync_state" where
  "ResetSyncCheckpoint N now s y =
     (let hsh = snd (last mapCheckpoints);
          switched = (case mapBlockIndex s hsh of
                        None \<Rightarrow> (Inr True, s, y\<lparr>hashPendingCheckpoint := hsh, checkpointMessagePending := SyncCheckpoint_null\<rparr>)
                      | Some p \<Rightarrow> (case switch_to N now s p of (r, s) \<Rightarrow> (r, s, y)))
      in case switched of
           (Inl e, s, y) \<Rightarrow> if is_false e then (Inr False, s, y) else (Inl e, s, y)
         | (Inr ok, s, y) \<Rightarrow>
             if \<not> ok then (Inr False, s, y)
             else case reset_loop (cs_heap s) (pindexBest s) (mapBlockIndex s) (rev mapCheckpoints) y of (r, y) \<Rightarrow> (Inr r, s, y))"

text \<open>None: the assertion fails.\<close>

definition IsMatureSyncCheckpoint :: "stake_params \<Rightarrow> int \<Rightarrow> chain_state \<Rightarrow> sync_state \<Rightarrow> bool option" where
  "IsMatureSyncCheckpoint P now s y =
     do { sync \<leftarrow> mapBlockIndex s (hashSyncCheckpoint y);
          Some (nBestHeight s \<ge> nHeight (cs_heap s sync) + nCoinbaseMaturity \<or>
                GetBlockTime (cs_heap s sync) + uint (nStakeMinAge P) < now) }"

definition IsSyncCheckpointTooOld :: "int \<Rightarrow> chain_state \<Rightarrow> sync_state \<Rightarrow> u32 \<Rightarrow> bool option" where
  "IsSyncCheckpointTooOld now s y nSeconds =
     do { sync \<leftarrow> mapBlockIndex s (hashSyncCheckpoint y); Some (GetBlockTime (cs_heap s sync) + uint nSeconds < now) }"

subsection \<open>Checkpoints received and sent\<close>

definition CheckSignature :: "crypto \<Rightarrow> CSyncCheckpoint \<Rightarrow> reject + CSyncCheckpoint" where
  "CheckSignature K c =
     (if \<not> cr_verify K (ParseHex strMasterPubKey) (Hash (cr_sha256 K) (sc_vchMsg c)) (sc_vchSig c) then Inl Refused
      else case unser_unsigned_checkpoint ds_read c (ds_Init (sc_vchMsg c) (sint SER_NETWORK) (sint PROTOCOL_VERSION)) of
             None \<Rightarrow> Inl Thrown
           | Some (c, _) \<Rightarrow> Inr c)"

text \<open>What the node asks its peer for.\<close>

datatype request = PushGetBlocks base_uint | AskForBlock base_uint

definition ProcessSyncCheckpoint ::
  "node \<Rightarrow> int \<Rightarrow> bool \<Rightarrow> orphan_map \<Rightarrow> chain_state \<Rightarrow> sync_state \<Rightarrow> CSyncCheckpoint \<Rightarrow>
   (reject + bool) \<times> chain_state \<times> sync_state \<times> request list" where
  "ProcessSyncCheckpoint N now pfrom orphans s y c =
     (case CheckSignature (be_crypto (nd_block N)) c of
        Inl e \<Rightarrow> (if is_false e then Inr False else Inl e, s, y, [])
      | Inr c \<Rightarrow>
          let hashCheckpoint = sc_hashCheckpoint c
          in case mapBlockIndex s hashCheckpoint of
               None \<Rightarrow>
                 let y = y\<lparr>hashPendingCheckpoint := hashCheckpoint, checkpointMessagePending := c\<rparr>
                 in if \<not> pfrom then (Inr False, s, y, [])
                    else (case (case orphans hashCheckpoint of Some b \<Rightarrow> WantedByOrphan orphans b | None \<Rightarrow> Some hashCheckpoint) of
                            None \<Rightarrow> (Inl Stuck, s, y, [PushGetBlocks hashCheckpoint])
                          | Some wanted \<Rightarrow> (Inr False, s, y, [PushGetBlocks hashCheckpoint, AskForBlock wanted]))
             | Some p \<Rightarrow>
                 (case ValidateSyncCheckpoint (cs_heap s) (mapBlockIndex s) y hashCheckpoint of None \<Rightarrow> (Inl Stuck, s, y, [])
                  | Some (ok, y) \<Rightarrow>
                      if \<not> ok then (Inr False, s, y, [])
                      else case switch_to N now s p of
                             (Inl e, s) \<Rightarrow> if is_false e then (Inr False, s, y\<lparr>hashInvalidCheckpoint := hashCheckpoint\<rparr>, []) else (Inl e, s, y, [])
                           | (Inr ok, s) \<Rightarrow>
                               if \<not> ok then (Inr False, s, y, [])
                               else (Inr True, s, (WriteSyncCheckpoint hashCheckpoint y)
                                 \<lparr>checkpointMessage := c, hashPendingCheckpoint := u_of_uint64 8 0,
                                  checkpointMessagePending := SyncCheckpoint_null\<rparr>, [])))"

text \<open>The master key, if the node has it, as the function that signs with it.\<close>

type_synonym master_key = "(base_uint \<Rightarrow> byte list option) option"

definition SendSyncCheckpoint ::
  "node \<Rightarrow> int \<Rightarrow> master_key \<Rightarrow> orphan_map \<Rightarrow> chain_state \<Rightarrow> sync_state \<Rightarrow> base_uint \<Rightarrow> (reject + bool) \<times> chain_state \<times> sync_state" where
  "SendSyncCheckpoint N now key orphans s y hashCheckpoint =
     (let c = SyncCheckpoint_null\<lparr>sc_hashCheckpoint := hashCheckpoint\<rparr>;
          c = c\<lparr>sc_vchMsg := ser_unsigned_checkpoint c\<rparr>
      in case key of None \<Rightarrow> (Inr False, s, y)
         | Some sign \<Rightarrow>
             (case sign (Hash (nd_sha N) (sc_vchMsg c)) of None \<Rightarrow> (Inr False, s, y)
              | Some sig \<Rightarrow>
                  (case ProcessSyncCheckpoint N now False orphans s y (c\<lparr>sc_vchSig := sig\<rparr>) of (r, s, y, _) \<Rightarrow> (r, s, y))))"

end
