(* ===== verification/Accept.thy ===== *)
theory Accept
  imports SyncCheckpoint
begin

text \<open>
  Blocks from the network, from src/main.cpp: AcceptBlock, which checks a block against its parent, stores
  it and adds it to the index, and ProcessBlock, which keeps blocks without a known parent as orphans and accepts them when
  the parent arrives. The verdicts of the operating system and of the command line are arguments.
\<close>

subsection \<open>AcceptBlock\<close>

record accept_opts =
  ao_disk_space :: bool \<comment> \<open>CheckDiskSpace\<close>
  ao_nosynccheckpoints :: bool
  ao_initial_download :: bool \<comment> \<open>IsInitialBlockDownload\<close>

text \<open>std::equal: the second range has to be as long as the first; None: it is read past its end.\<close>

fun std_equal :: "'a list \<Rightarrow> 'a list \<Rightarrow> bool option" where
  "std_equal [] ys = Some True"
| "std_equal (x # xs) [] = None"
| "std_equal (x # xs) (y # ys) = (if x = y then std_equal xs ys else Some False)"

definition coinbase_height_ok :: "int \<Rightarrow> CBlock \<Rightarrow> bool option" where
  "coinbase_height_ok height b =
     (case vtx b of [] \<Rightarrow> None
      | tx # _ \<Rightarrow> (case vin tx of [] \<Rightarrow> None | i # _ \<Rightarrow> std_equal (push_int64 [] (word_of_int height)) (scriptSig i)))"

text \<open>The checks against the parent, in the order of the code.\<close>

definition accept_checks ::
  "node \<Rightarrow> int \<Rightarrow> accept_opts \<Rightarrow> chain_state \<Rightarrow> sync_state \<Rightarrow> CBlock \<Rightarrow> nat \<Rightarrow> reject + unit" where
  "accept_checks N now opts s y b prev =
     (let h = cs_heap s; hsh = Block_GetHash (be_hash9 (nd_block N)) b; height = nHeight (h prev) + 1; time = uint (b_nTime b);
          table = checkpoints (nd_testnet N)
      in case (if Block_IsProofOfWork b then GetProofOfWorkReward (nd_consts N) height 0 False else Some 1) of None \<Rightarrow> Inl Stuck
         | Some reward \<Rightarrow>
             if reward = 0 then Inl (DoS 100)
             else case GetNextTargetRequired (nd_params N) (be_limits (nd_block N)) h (Some prev) (Block_IsProofOfStake b) of None \<Rightarrow> Inl Stuck
             | Some bits \<Rightarrow>
                 if b_nBits b \<noteq> bits then Inl (DoS 100)
                 else if time \<le> GetMedianTimePast h prev \<or> time + nMaxClockDrift < GetBlockTime (h prev) then Inl Refused
                 else if \<not> list_all (\<lambda>tx. Tx_IsFinal (word_of_int (nBestHeight s)) (word_of_int now) tx (word_of_int height) (Block_GetBlockTime b)) (vtx b)
                 then Inl (DoS 10)
                 else if \<not> CheckHardened table height hsh then Inl (DoS 100)
                 else case CheckSync (nd_testnet N) h (mapBlockIndex s) y hsh prev of Inl e \<Rightarrow> Inl e
                 | Inr ok \<Rightarrow>
                     if \<not> ok \<and> \<not> ao_nosynccheckpoints opts then Inl Refused
                     else if b_nVersion b <s 3 \<and> ((\<not> nd_testnet N \<and> height > 14060) \<or> (nd_testnet N \<and> height > 0)) then Inl Refused
                     else case coinbase_height_ok height b of None \<Rightarrow> Inl Stuck
                          | Some ok \<Rightarrow> if \<not> ok then Inl (DoS 100) else Inr ())"

definition AcceptBlock ::
  "node \<Rightarrow> int \<Rightarrow> accept_opts \<Rightarrow> chain_state \<Rightarrow> sync_state \<Rightarrow> CBlock \<Rightarrow> (reject + unit) \<times> chain_state \<times> sync_state" where
  "AcceptBlock N now opts s y b =
     (if mapBlockIndex s (Block_GetHash (be_hash9 (nd_block N)) b) \<noteq> None then (Inl Refused, s, y)
      else case mapBlockIndex s (hashPrevBlock b) of None \<Rightarrow> (Inl (DoS 10), s, y)
      | Some prev \<Rightarrow>
          (case accept_checks N now opts s y b prev of Inl e \<Rightarrow> (Inl e, s, y)
           | Inr _ \<Rightarrow>
               if \<not> ao_disk_space opts then (Inl Refused, s, y)
               else case WriteToDisk (cs_disk s) b of
                      (Inl e, d) \<Rightarrow> (Inl e, s\<lparr>cs_disk := d\<rparr>, y)
                    | (Inr (fileno, blockpos), d) \<Rightarrow>
                        (case AddToBlockIndex N now (s\<lparr>cs_disk := d\<rparr>) b fileno blockpos of
                           (Inl e, s) \<Rightarrow> (Inl (plain_false e), s, y)
                         | (Inr _, s) \<Rightarrow>
                             (case AcceptPendingSyncCheckpoint N now s y of
                                (Inl e, s, y) \<Rightarrow> (Inl e, s, y)
                              | (Inr _, s, y) \<Rightarrow> (Inr (), s, y)))))"

subsection \<open>Orphans\<close>

record orphan_pool =
  mapOrphanBlocks :: orphan_map
  mapOrphanBlocksByPrev :: "(base_uint \<times> CBlock) list" \<comment> \<open>a multimap, equal keys in the order of insertion\<close>
  setStakeSeenOrphan :: "(COutPoint \<times> u32) set"

definition children_of :: "orphan_pool \<Rightarrow> base_uint \<Rightarrow> CBlock list" where
  "children_of orph hashParent = map snd (filter (\<lambda>e. fst e = hashParent) (mapOrphanBlocksByPrev orph))"

text \<open>The orphans of one parent: the hashes of those accepted.\<close>

fun accept_children ::
  "node \<Rightarrow> int \<Rightarrow> accept_opts \<Rightarrow> CBlock list \<Rightarrow> orphan_pool \<Rightarrow> chain_state \<Rightarrow> sync_state \<Rightarrow>
   (reject + base_uint list) \<times> orphan_pool \<times> chain_state \<times> sync_state" where
  "accept_children N now opts [] orph s y = (Inr [], orph, s, y)"
| "accept_children N now opts (c # cs) orph s y =
     (let hsh = Block_GetHash (be_hash9 (nd_block N)) c;
          dropped = orph\<lparr>mapOrphanBlocks := (mapOrphanBlocks orph)(hsh := None),
                      setStakeSeenOrphan := setStakeSeenOrphan orph - {Block_GetProofOfStake c}\<rparr>
      in case AcceptBlock N now opts s y c of (r, s, y) \<Rightarrow>
           (case r of
              Inl e \<Rightarrow> if is_false e then accept_children N now opts cs dropped s y else (Inl e, orph, s, y)
            | Inr _ \<Rightarrow>
                (case accept_children N now opts cs dropped s y of
                   (Inl e, orph, s, y) \<Rightarrow> (Inl e, orph, s, y)
                 | (Inr hs, orph, s, y) \<Rightarrow> (Inr (hsh # hs), orph, s, y))))"

lemma accept_children_prev: "accept_children N now opts cs orph s y = (r, orph1, s', y') \<Longrightarrow> mapOrphanBlocksByPrev orph1 = mapOrphanBlocksByPrev orph"
  by (induction N now opts cs orph s y arbitrary: r rule: accept_children.induct)
    (force simp: Let_def split: prod.splits sum.splits if_splits)+

lemma accept_children_length: "accept_children N now opts cs orph s y = (Inr hs, orph1, s', y') \<Longrightarrow> length hs \<le> length cs"
  by (induction N now opts cs orph s y arbitrary: hs rule: accept_children.induct)
    (fastforce simp: Let_def split: prod.splits sum.splits if_splits)+

lemma queue_measure:
  assumes "accept_children N now opts (children_of orph p) orph s y = (Inr hs, orph1, s1, y1)"
  shows "length (queue @ hs) + length (filter (\<lambda>e. fst e \<noteq> p) (mapOrphanBlocksByPrev orph1)) < Suc (length queue) + length (mapOrphanBlocksByPrev orph)"
  using accept_children_length [OF assms] accept_children_prev [OF assms]
    sum_length_filter_compl [of "\<lambda>e. fst e = p" "mapOrphanBlocksByPrev orph"] by (simp add: children_of_def)

function process_queue ::
  "node \<Rightarrow> int \<Rightarrow> accept_opts \<Rightarrow> base_uint list \<Rightarrow> orphan_pool \<Rightarrow> chain_state \<Rightarrow> sync_state \<Rightarrow>
   (reject + unit) \<times> orphan_pool \<times> chain_state \<times> sync_state" where
  "process_queue N now opts [] orph s y = (Inr (), orph, s, y)"
| "process_queue N now opts (hashParent # queue) orph s y =
     (case accept_children N now opts (children_of orph hashParent) orph s y of
        (Inl e, orph, s, y) \<Rightarrow> (Inl e, orph, s, y)
      | (Inr hs, orph, s, y) \<Rightarrow>
          process_queue N now opts (queue @ hs)
            (orph\<lparr>mapOrphanBlocksByPrev := filter (\<lambda>e. fst e \<noteq> hashParent) (mapOrphanBlocksByPrev orph)\<rparr>) s y)"
  by pat_completeness auto

text \<open>Every orphan enters the queue at most once.\<close>

termination
  by (relation "measure (\<lambda>(_, _, _, queue, orph, _, _). length queue + length (mapOrphanBlocksByPrev orph))")
    (auto dest!: queue_measure [OF sym, simplified])

subsection \<open>ProcessBlock\<close>

text \<open>
  The check of a block that does not extend the best chain: the target it claims against the least
  work or stake since the checkpoint. Inr False: too little. Only blocks without a peer are refused.
\<close>

definition enough_proof :: "node \<Rightarrow> bool \<Rightarrow> bheap \<Rightarrow> nat \<Rightarrow> CBlock \<Rightarrow> reject + bool" where
  "enough_proof N pfrom h pcheckpoint b =
     (let deltaTime = uint (b_nTime b) - uint (bi_nTime (h pcheckpoint)); bnNewBlock = compact_val (b_nBits b); L = be_limits (nd_block N);
          pos = Block_IsProofOfStake b
      in case GetLastBlockIndex h pcheckpoint pos of None \<Rightarrow> Inl Stuck
         | Some lastp \<Rightarrow>
             let bnRequired = compact_val (if pos then ComputeMinStake L (bi_nBits (h lastp)) deltaTime else ComputeMinWork L (bi_nBits (h lastp)) deltaTime)
             in Inr (\<not> (\<not> pfrom \<and> bnNewBlock > bnRequired)))"

definition wanted :: "orphan_pool \<Rightarrow> sync_state \<Rightarrow> base_uint \<Rightarrow> bool option" where
  "wanted orph y hsh = WantedByPendingSyncCheckpoint (mapOrphanBlocks orph) y hsh"

text \<open>The check of duplicate stake: seen before, no orphan waiting for the block, and the block not wanted.\<close>

definition duplicate_stake :: "(COutPoint \<times> u32) set \<Rightarrow> orphan_pool \<Rightarrow> sync_state \<Rightarrow> CBlock \<Rightarrow> base_uint \<Rightarrow> bool option" where
  "duplicate_stake seen orph y b hsh =
     (if Block_IsProofOfStake b \<and> Block_GetProofOfStake b \<in> seen \<and> children_of orph hsh = []
      then do { w \<leftarrow> wanted orph y hsh; Some (\<not> w) } else Some False)"

definition file_orphan :: "base_uint \<Rightarrow> CBlock \<Rightarrow> orphan_pool \<Rightarrow> orphan_pool" where
  "file_orphan hsh b orph =
     orph\<lparr>mapOrphanBlocks := (case mapOrphanBlocks orph hsh of None \<Rightarrow> (mapOrphanBlocks orph)(hsh \<mapsto> b) | Some _ \<Rightarrow> mapOrphanBlocks orph),
          mapOrphanBlocksByPrev := mapOrphanBlocksByPrev orph @ [(hashPrevBlock b, b)],
          setStakeSeenOrphan := (if Block_IsProofOfStake b then insert (Block_GetProofOfStake b) (setStakeSeenOrphan orph) else setStakeSeenOrphan orph)\<rparr>"

text \<open>A block whose parent is not known: it is kept, and the peer asked for what is missing.\<close>

definition hold_orphan ::
  "node \<Rightarrow> accept_opts \<Rightarrow> bool \<Rightarrow> orphan_pool \<Rightarrow> sync_state \<Rightarrow> CBlock \<Rightarrow> (reject + unit) \<times> orphan_pool \<times> request list" where
  "hold_orphan N opts pfrom orph y b =
     (let hash9 = be_hash9 (nd_block N); hsh = Block_GetHash hash9 b
      in case duplicate_stake (setStakeSeenOrphan orph) orph y b hsh of None \<Rightarrow> (Inl Stuck, orph, [])
         | Some dup \<Rightarrow>
             if dup then (Inl Refused, orph, [])
             else let orph = file_orphan hsh b orph
                  in if \<not> pfrom then (Inr (), orph, [])
                     else case (GetOrphanRoot hash9 (mapOrphanBlocks orph) b, WantedByOrphan (mapOrphanBlocks orph) b) of
                            (Some root, Some missing) \<Rightarrow>
                              (Inr (), orph, PushGetBlocks root # (if ao_initial_download opts then [] else [AskForBlock missing]))
                          | _ \<Rightarrow> (Inl Stuck, orph, []))"

text \<open>The checks of a block of its own, and its proof of stake.\<close>

definition preliminary_checks ::
  "node \<Rightarrow> int \<Rightarrow> orphan_pool \<Rightarrow> chain_state \<Rightarrow> sync_state \<Rightarrow> CBlock \<Rightarrow> base_uint \<Rightarrow> reject + chain_state" where
  "preliminary_checks N now orph s y b hsh =
     (if mapBlockIndex s hsh \<noteq> None \<or> mapOrphanBlocks orph hsh \<noteq> None then Inl Refused
      else case duplicate_stake (setStakeSeen s) orph y b hsh of None \<Rightarrow> Inl Stuck
      | Some dup \<Rightarrow>
          if dup then Inl Refused
          else case CheckBlock (nd_block N) now True True b of Inl e \<Rightarrow> Inl (plain_false e)
          | Inr _ \<Rightarrow>
              if \<not> Block_IsProofOfStake b then Inr s
              else case CheckProofOfStake (nd_params N) (nd_block N) (cs_heap s) (mapBlockIndex s) (ch_files (env_in N now s)) (cs_db s) (vtx b ! 1) (b_nBits b) of
                     Inl e \<Rightarrow> Inl (plain_false e)
                   | Inr proof_hash \<Rightarrow>
                       Inr (if mapProofOfStake s hsh = None then s\<lparr>mapProofOfStake := (mapProofOfStake s)(hsh \<mapsto> proof_hash)\<rparr> else s))"

definition spam_check :: "node \<Rightarrow> bool \<Rightarrow> orphan_pool \<Rightarrow> chain_state \<Rightarrow> sync_state \<Rightarrow> CBlock \<Rightarrow> base_uint \<Rightarrow> reject + unit" where
  "spam_check N pfrom orph s y b hsh =
     (case GetLastSyncCheckpoint (mapBlockIndex s) y of None \<Rightarrow> Inr ()
      | Some pcheckpoint \<Rightarrow>
          if u_eq (hashPrevBlock b) (hashBestChain s) then Inr ()
          else case wanted orph y hsh of None \<Rightarrow> Inl Stuck
               | Some w \<Rightarrow>
                   if w then Inr ()
                   else case enough_proof N pfrom (cs_heap s) pcheckpoint b of Inl e \<Rightarrow> Inl e
                        | Inr enough \<Rightarrow> if enough then Inr () else Inl Refused)"

definition ask_pending :: "accept_opts \<Rightarrow> bool \<Rightarrow> orphan_pool \<Rightarrow> chain_state \<Rightarrow> sync_state \<Rightarrow> request list" where \<comment> \<open>AskForPendingSyncCheckpoint\<close>
  "ask_pending opts pfrom orph s y =
     (if \<not> ao_initial_download opts \<and> pfrom \<and> \<not> u_eq64 (hashPendingCheckpoint y) 0 \<and> mapBlockIndex s (hashPendingCheckpoint y) = None \<and>
         mapOrphanBlocks orph (hashPendingCheckpoint y) = None
      then [AskForBlock (hashPendingCheckpoint y)] else [])"

text \<open>The holder of the master key signs a new checkpoint after every block from a peer.\<close>

definition send_checkpoint ::
  "node \<Rightarrow> int \<Rightarrow> master_key \<Rightarrow> bool \<Rightarrow> orphan_pool \<Rightarrow> chain_state \<Rightarrow> sync_state \<Rightarrow> (reject + unit) \<times> chain_state \<times> sync_state" where
  "send_checkpoint N now key pfrom orph s y =
     (if \<not> pfrom \<or> key = None then (Inr (), s, y)
      else case do { best \<leftarrow> pindexBest s; AutoSelectSyncCheckpoint (cs_heap s) best } of None \<Rightarrow> (Inl Stuck, s, y)
           | Some hsh \<Rightarrow>
               (case SendSyncCheckpoint N now key (mapOrphanBlocks orph) s y hsh of
                  (Inl e, s, y) \<Rightarrow> (Inl e, s, y) | (Inr _, s, y) \<Rightarrow> (Inr (), s, y)))"

definition ProcessBlock ::
  "node \<Rightarrow> int \<Rightarrow> accept_opts \<Rightarrow> master_key \<Rightarrow> bool \<Rightarrow> orphan_pool \<Rightarrow> chain_state \<Rightarrow> sync_state \<Rightarrow> CBlock \<Rightarrow>
   (reject + unit) \<times> orphan_pool \<times> chain_state \<times> sync_state \<times> request list" where
  "ProcessBlock N now opts key pfrom orph s y b =
     (let hsh = Block_GetHash (be_hash9 (nd_block N)) b
      in case preliminary_checks N now orph s y b hsh of Inl e \<Rightarrow> (Inl e, orph, s, y, [])
         | Inr s \<Rightarrow>
             (case spam_check N pfrom orph s y b hsh of Inl e \<Rightarrow> (Inl e, orph, s, y, [])
              | Inr _ \<Rightarrow>
                  let asked = ask_pending opts pfrom orph s y
                  in if mapBlockIndex s (hashPrevBlock b) = None
                     then (case hold_orphan N opts pfrom orph y b of (r, orph, asked2) \<Rightarrow> (r, orph, s, y, asked @ asked2))
                     else case AcceptBlock N now opts s y b of
                            (Inl e, s, y) \<Rightarrow> (Inl (plain_false e), orph, s, y, asked)
                          | (Inr _, s, y) \<Rightarrow>
                              (case process_queue N now opts [hsh] orph s y of
                                 (Inl e, orph, s, y) \<Rightarrow> (Inl e, orph, s, y, asked)
                               | (Inr _, orph, s, y) \<Rightarrow>
                                   (case send_checkpoint N now key pfrom orph s y of (r, s, y) \<Rightarrow> (r, orph, s, y, asked)))))"

subsection \<open>What changing the best chain leaves alone\<close>

definition index_kept :: "chain_state \<Rightarrow> chain_state \<Rightarrow> bool" where
  "index_kept s s' \<longleftrightarrow> mapBlockIndex s' = mapBlockIndex s \<and> cs_next s' = cs_next s \<and> cs_disk s' = cs_disk s \<and>
     setStakeSeen s' = setStakeSeen s \<and> mapProofOfStake s' = mapProofOfStake s"

lemma index_kept_refl: "index_kept s s"
  by (simp add: index_kept_def)

lemma index_kept_trans: "index_kept s s' \<Longrightarrow> index_kept s' s'' \<Longrightarrow> index_kept s s''"
  by (simp add: index_kept_def)

lemma Reorganize_index: "Reorganize N now s p = (r, s') \<Longrightarrow> index_kept s s'"
  unfolding Reorganize_def Let_def by (auto simp: index_kept_def split: option.splits prod.splits sum.splits)

lemma SetBestChainInner_index: "SetBestChainInner N now s b p = (r, s') \<Longrightarrow> index_kept s s'"
  unfolding SetBestChainInner_def by (auto simp: index_kept_def InvalidChainFound_def split: option.splits prod.splits sum.splits if_splits)

lemma connect_further_index: "connect_further N now s ps = (r, s') \<Longrightarrow> index_kept s s'"
proof (induction ps arbitrary: s)
  case (Cons p ps)
  show ?case
  proof (cases "nd_read N now (cs_disk s) (cs_heap s) p")
    case (Some b)
    obtain r1 s1 where 1: "SetBestChainInner N now s b p = (r1, s1)" by fastforce
    note k = SetBestChainInner_index [OF 1]
    show ?thesis
    proof (cases r1)
      case (Inr u)
      then show ?thesis using Cons Some 1 index_kept_trans [OF k] by auto
    qed (use Cons.prems Some 1 k in \<open>auto split: if_splits\<close>)
  qed (use Cons.prems in \<open>simp add: index_kept_refl\<close>)
qed (simp add: index_kept_refl)

lemma SetBestChain_index:
  assumes "SetBestChain N now s b p = (r, s')"
  shows "index_kept s s'"
proof -
  have i: "index_kept s (InvalidChainFound p s2)" if "index_kept s s2" for s2
    using that by (simp add: index_kept_def InvalidChainFound_def)
  have f: "index_kept s (s2\<lparr>hashBestChain := x, pindexBest := q, nBestHeight := n, bnBestChainTrust := t, cs_pool := m\<rparr>)" if "index_kept s s2" for s2 x q n t m
    using that by (simp add: index_kept_def)
  have g: "index_kept s (s\<lparr>pindexGenesisBlock := q\<rparr>)" for q by (simp add: index_kept_def)
  have r: "index_kept s s2" if "Reorganize N now s q = (r1, s1)" "connect_further N now s1 qs = (r2, s2)" for q r1 s1 qs r2 s2
    using index_kept_trans [OF Reorganize_index [OF that(1)] connect_further_index [OF that(2)]] .
  show ?thesis using assms unfolding SetBestChain_def Let_def
    by (auto split: if_splits option.splits prod.splits sum.splits
      intro: i f g r index_kept_refl SetBestChainInner_index Reorganize_index)
qed

lemma AddToBlockIndex_refused:
  assumes "AddToBlockIndex N now s b fileno blockpos = (Inl e, s')" "mapBlockIndex s' (Block_GetHash (be_hash9 (nd_block N)) b) = None"
  shows "s' = s"
proof (cases "new_index N s b fileno blockpos")
  case (Inl e')
  then show ?thesis using assms by (auto simp: AddToBlockIndex_def Let_def split: if_splits)
next
  case (Inr h)
  let ?x = "Block_GetHash (be_hash9 (nd_block N)) b"
  show ?thesis
  proof (cases "mapBlockIndex s ?x")
    case None
    have "mapBlockIndex s' ?x = Some (cs_next s)"
      using assms(1) None Inr unfolding AddToBlockIndex_def Let_def
      by (auto split: if_split_asm dest!: SetBestChain_index simp: index_kept_def)
    then show ?thesis using assms(2) by simp
  next
    case (Some q)
    then show ?thesis using assms(1) by (simp add: AddToBlockIndex_def)
  qed
qed

lemma switch_to_index: "switch_to N now s p = (r, s') \<Longrightarrow> index_kept s s'"
  unfolding switch_to_def by (auto split: if_splits option.splits prod.splits sum.splits intro: index_kept_refl SetBestChain_index)

lemma AcceptPending_index: "AcceptPendingSyncCheckpoint N now s y = (r, s', y') \<Longrightarrow> index_kept s s'"
  unfolding AcceptPendingSyncCheckpoint_def Let_def
  by (auto split: if_splits option.splits prod.splits sum.splits intro: index_kept_refl switch_to_index)

subsection \<open>Accepted blocks descend from the checkpoint\<close>

lemma hash_index_anc:
  assumes "tree_ok h" "hash_index h m"
  shows "q \<in> ran m \<Longrightarrow> is_anc h p q \<Longrightarrow> p \<in> ran m"
proof (induction q rule: tree_induct [OF assms(1)])
  case (1 q)
  obtain x where "m x = Some q" using 1(2) by (auto simp: ran_def)
  then have "r \<in> ran m" if "pprev (h q) = Some r" for r using assms(2) that unfolding hash_index_def by blast
  then show ?case using 1 is_anc_step [of h p q] by blast
qed

lemma hash_index_eq:
  assumes "hash_index h m" "m hsh = Some q" "p \<in> ran m" "u_eq (phashBlock (h p)) hsh"
  shows "p = q"
proof -
  obtain x where x: "m x = Some p" using assms(3) by (auto simp: ran_def)
  have "length hsh = 8" "length x = 8" "phashBlock (h p) = x" using assms(1,2) x unfolding hash_index_def by blast+
  then have "x = hsh" using assms(4) by (simp add: u_eq_iff)
  then show ?thesis using x assms(2) by simp
qed

lemma lower_to_anc:
  assumes "tree_ok h"
  shows "lower_to h k p = Some (Some q) \<Longrightarrow> is_anc h q p"
proof (induction p rule: tree_induct [OF assms])
  case (1 p)
  show ?case
  proof (cases "nHeight (h p) > k")
    case True
    then obtain r where r: "pprev (h p) = Some r" "lower_to h k r = Some (Some q)"
      using 1(2) by (subst (asm) lower_to.simps) (auto split: option.splits)
    then show ?thesis using 1(1) is_anc_step [of h q p] by blast
  next
    case False
    then show ?thesis using 1(2) by (subst (asm) lower_to.simps) (simp add: is_anc_refl)
  qed
qed

lemma CheckSync_new:
  assumes ok: "tree_ok h" "hash_index h m" and c: "CheckSync False h m y hsh prev = Inr True" and new: "m hsh = None" "length hsh = 8"
    and prev: "prev \<in> ran m"
  shows "\<exists>sync. m (hashSyncCheckpoint y) = Some sync \<and> is_anc h sync prev"
proof -
  obtain sync where s: "m (hashSyncCheckpoint y) = Some sync" using c by (auto simp: CheckSync_def split: option.splits)
  have "length (hashSyncCheckpoint y) = 8" using ok(2) s unfolding hash_index_def by blast
  then have ne: "\<not> u_eq hsh (hashSyncCheckpoint y)" using new s by (auto simp: u_eq_iff)
  have "nHeight (h prev) + 1 > nHeight (h sync)"
    using c s new ne unfolding CheckSync_def Let_def by (auto split: if_splits sum.splits option.splits)
  then obtain p where "lower_to h (nHeight (h sync)) prev = Some (Some p)" "u_eq (phashBlock (h p)) (hashSyncCheckpoint y)"
    using c s unfolding CheckSync_def Let_def by (auto split: if_splits sum.splits option.splits)
  then show ?thesis using lower_to_anc [OF ok(1)] hash_index_eq [OF ok(2) s] hash_index_anc [OF ok prev] s by blast
qed

lemma std_equal_prefix: "std_equal xs ys = Some True \<longleftrightarrow> (\<exists>zs. ys = xs @ zs)"
  by (induction xs ys rule: std_equal.induct) auto

lemma AcceptBlock_cases:
  assumes "AcceptBlock N now opts s y b = (Inr (), s', y')"
  obtains prev fileno blockpos d s2 where "mapBlockIndex s (Block_GetHash (be_hash9 (nd_block N)) b) = None"
    "mapBlockIndex s (hashPrevBlock b) = Some prev" "accept_checks N now opts s y b prev = Inr ()"
    "WriteToDisk (cs_disk s) b = (Inr (fileno, blockpos), d)"
    "AddToBlockIndex N now (s\<lparr>cs_disk := d\<rparr>) b fileno blockpos = (Inr (), s2)"
    "\<exists>r. AcceptPendingSyncCheckpoint N now s2 y = (r, s', y')"
  using assms unfolding AcceptBlock_def Let_def by (auto split: if_splits option.splits prod.splits sum.splits)

lemma accept_checks_ok:
  assumes "accept_checks N now opts s y b prev = Inr ()"
  shows "GetNextTargetRequired (nd_params N) (be_limits (nd_block N)) (cs_heap s) (Some prev) (Block_IsProofOfStake b) = Some (b_nBits b)"
    "GetMedianTimePast (cs_heap s) prev < uint (b_nTime b)" "GetBlockTime (cs_heap s prev) \<le> uint (b_nTime b) + nMaxClockDrift"
    "CheckHardened (checkpoints (nd_testnet N)) (nHeight (cs_heap s prev) + 1) (Block_GetHash (be_hash9 (nd_block N)) b)"
    "\<not> ao_nosynccheckpoints opts \<Longrightarrow>
       CheckSync (nd_testnet N) (cs_heap s) (mapBlockIndex s) y (Block_GetHash (be_hash9 (nd_block N)) b) prev = Inr True"
    "\<exists>sig. scriptSig (vin (vtx b ! 0) ! 0) = push_int64 [] (word_of_int (nHeight (cs_heap s prev) + 1)) @ sig"
proof -
  note a = assms [unfolded accept_checks_def Let_def]
  show "GetNextTargetRequired (nd_params N) (be_limits (nd_block N)) (cs_heap s) (Some prev) (Block_IsProofOfStake b) = Some (b_nBits b)"
    "GetMedianTimePast (cs_heap s) prev < uint (b_nTime b)" "GetBlockTime (cs_heap s prev) \<le> uint (b_nTime b) + nMaxClockDrift"
    "CheckHardened (checkpoints (nd_testnet N)) (nHeight (cs_heap s prev) + 1) (Block_GetHash (be_hash9 (nd_block N)) b)"
    using a by (auto split: option.splits if_split_asm)
  show "\<not> ao_nosynccheckpoints opts \<Longrightarrow>
       CheckSync (nd_testnet N) (cs_heap s) (mapBlockIndex s) y (Block_GetHash (be_hash9 (nd_block N)) b) prev = Inr True"
    using a by (auto split: option.splits if_split_asm sum.splits)
  have "coinbase_height_ok (nHeight (cs_heap s prev) + 1) b = Some True"
    using a by (auto split: option.splits if_split_asm sum.splits)
  then show "\<exists>sig. scriptSig (vin (vtx b ! 0) ! 0) = push_int64 [] (word_of_int (nHeight (cs_heap s prev) + 1)) @ sig"
    by (auto simp: coinbase_height_ok_def std_equal_prefix split: list.splits)
qed

text \<open>C4. What AcceptBlock guarantees of a block it accepts: its target is the one required after its parent, its time is
  later than the median of its ancestors, it agrees with the hardened checkpoints, its coinbase begins with its
  height, and, on the main network and unless the command line turns the check off, the
  synchronized checkpoint is an ancestor of its parent, or the parent itself.
\<close>

theorem accepted_block_rules:
  assumes "AcceptBlock N now opts s y b = (Inr (), s', y')" "tree_ok (cs_heap s)" "hash_index (cs_heap s) (mapBlockIndex s)"
    "length (Block_GetHash (be_hash9 (nd_block N)) b) = 8" "\<not> nd_testnet N" "\<not> ao_nosynccheckpoints opts"
  shows "\<exists>prev sync. mapBlockIndex s (hashPrevBlock b) = Some prev \<and>
    GetNextTargetRequired (nd_params N) (be_limits (nd_block N)) (cs_heap s) (Some prev) (Block_IsProofOfStake b) = Some (b_nBits b) \<and>
    GetMedianTimePast (cs_heap s) prev < uint (b_nTime b) \<and>
    CheckHardened mapCheckpoints (nHeight (cs_heap s prev) + 1) (Block_GetHash (be_hash9 (nd_block N)) b) \<and>
    (\<exists>sig. scriptSig (vin (vtx b ! 0) ! 0) = push_int64 [] (word_of_int (nHeight (cs_heap s prev) + 1)) @ sig) \<and>
    mapBlockIndex s (hashSyncCheckpoint y) = Some sync \<and> is_anc (cs_heap s) sync prev"
proof -
  obtain prev where c: "mapBlockIndex s (Block_GetHash (be_hash9 (nd_block N)) b) = None"
    "mapBlockIndex s (hashPrevBlock b) = Some prev" "accept_checks N now opts s y b prev = Inr ()"
    using AcceptBlock_cases [OF assms(1)] by metis
  note k = accept_checks_ok [OF c(3)]
  show ?thesis using c(2) k(1-4,6) CheckSync_new [OF assms(2,3) _ c(1) assms(4) ranI [of "mapBlockIndex s", OF c(2)]] k(5) [OF assms(6)] assms(5)
    by (auto simp: checkpoints_def)
qed

subsection \<open>Refused blocks\<close>

lemma AddToBlockIndex_indexed:
  assumes "AddToBlockIndex N now s b fileno blockpos = (Inr u, s')"
  shows "mapBlockIndex s' (Block_GetHash (be_hash9 (nd_block N)) b) \<noteq> None"
proof -
  obtain h where h: "mapBlockIndex s (Block_GetHash (be_hash9 (nd_block N)) b) = None" "new_index N s b fileno blockpos = Inr h"
    using assms unfolding AddToBlockIndex_def Let_def by (auto split: if_split_asm sum.splits)
  show ?thesis using assms h unfolding AddToBlockIndex_def Let_def
    by (auto split: if_split_asm dest!: SetBestChain_index simp: index_kept_def)
qed

text \<open>C9. A block AcceptBlock refuses leaves no trace but bytes at the end of the block files: whatever the reason, if the
  block is not in the index afterwards, the block tree, the best chain, the transaction database, the memory
  pool and the checkpoints are as before, and all stored blocks can still be read.
\<close>

theorem refused_block_changes_nothing:
  assumes "AcceptBlock N now opts s y b = (Inl e, s', y')" "mapBlockIndex s' (Block_GetHash (be_hash9 (nd_block N)) b) = None"
  shows "s' = s\<lparr>cs_disk := cs_disk s'\<rparr> \<and> y' = y \<and> grows (cs_disk s) (cs_disk s')"
proof -
  let ?x = "Block_GetHash (be_hash9 (nd_block N)) b"
  have g: "grows d d" for d by (simp add: grows_def)
  have same: ?thesis if "s' = s \<and> y' = y" using that g by simp
  show ?thesis
  proof (cases "mapBlockIndex s ?x = None")
    case False
    then show ?thesis using assms(1) same by (simp add: AcceptBlock_def)
  next
    case True
    show ?thesis
    proof (cases "\<exists>prev. mapBlockIndex s (hashPrevBlock b) = Some prev \<and> accept_checks N now opts s y b prev = Inr () \<and> ao_disk_space opts")
      case False
      then have "s' = s \<and> y' = y" using assms(1) True unfolding AcceptBlock_def by (auto split: option.splits sum.splits if_splits)
      then show ?thesis by (rule same)
    next
      case go: True
      then obtain prev where p: "mapBlockIndex s (hashPrevBlock b) = Some prev" "accept_checks N now opts s y b prev = Inr ()" "ao_disk_space opts" by blast
      obtain r d where w: "WriteToDisk (cs_disk s) b = (r, d)" by fastforce
      note wg = WriteToDisk_spec(1) [OF w]
      show ?thesis
      proof (cases r)
        case (Inl e2)
        then have "s' = s\<lparr>cs_disk := d\<rparr>" "y' = y" using assms(1) True p w by (auto simp: AcceptBlock_def)
        then show ?thesis using wg by simp
      next
        case (Inr fp)
        obtain fileno blockpos where fp: "fp = (fileno, blockpos)" by fastforce
        obtain r2 s2 where a: "AddToBlockIndex N now (s\<lparr>cs_disk := d\<rparr>) b fileno blockpos = (r2, s2)" by fastforce
        show ?thesis
        proof (cases r2)
          case (Inl e2)
          then have r: "s' = s2" "y' = y" using assms(1) True p w Inr fp a by (simp_all add: AcceptBlock_def)
          then have "s2 = s\<lparr>cs_disk := d\<rparr>" using AddToBlockIndex_refused a Inl assms(2) by blast
          then show ?thesis using r wg by simp
        next
          case r2: (Inr u)
          have i: "mapBlockIndex s2 ?x \<noteq> None" using AddToBlockIndex_indexed a r2 by blast
          obtain r3 where "AcceptPendingSyncCheckpoint N now s2 y = (r3, s', y')"
            using assms(1) True p w Inr fp a r2 by (auto simp: AcceptBlock_def split: prod.splits sum.splits)
          from AcceptPending_index [OF this] show ?thesis using i assms(2) by (simp add: index_kept_def)
        qed
      qed
    qed
  qed
qed

text \<open>A block of height two, accepted.\<close>

definition w_two :: bheap where
  "w_two = (\<lambda>p. if p = 0 then BlockIndex_default\<lparr>phashBlock := [1, 0, 0, 0, 0, 0, 0, 0], nFlags := BLOCK_STAKE_MODIFIER\<rparr>
     else if p = 1 then BlockIndex_default\<lparr>phashBlock := [2, 0, 0, 0, 0, 0, 0, 0], pprev := Some 0, nHeight := 1\<rparr>
     else BlockIndex_default)"

definition w_two_state :: chain_state where
  "w_two_state = w_state\<lparr>cs_heap := w_two, cs_next := 2, pindexBest := Some 1, nBestHeight := 1, bnBestChainTrust := 2 ^ 256, cs_disk := w_disk,
     mapBlockIndex := [[1, 0, 0, 0, 0, 0, 0, 0] \<mapsto> 0, [2, 0, 0, 0, 0, 0, 0, 0] \<mapsto> 1]\<rparr>"

definition w_sync :: sync_state where
  "w_sync = \<lparr> hashSyncCheckpoint = [1, 0, 0, 0, 0, 0, 0, 0], hashPendingCheckpoint = u_of_uint64 8 0, hashInvalidCheckpoint = u_of_uint64 8 0,
     checkpointMessage = SyncCheckpoint_null, checkpointMessagePending = SyncCheckpoint_null \<rparr>"

definition w_opts :: accept_opts where
  "w_opts = \<lparr> ao_disk_space = True, ao_nosynccheckpoints = False, ao_initial_download = False \<rparr>"

definition w_third :: CBlock where
  "w_third = Block_SetNull\<lparr>vtx := [w_coinbase\<lparr>vin := [\<lparr>prevout = OutPoint_null, scriptSig = [0x52, 1], nSequence = 0\<rparr>]\<rparr>],
     b_nTime := 10, b_nBits := bnGetCompact (2 ^ 256 - 1), hashPrevBlock := [2, 0, 0, 0, 0, 0, 0, 0],
     hashMerkleRoot := [0, 10, 0, 0, 0, 0, 0, 0]\<rparr>"

lemma w_two_at: "w_two 0 = BlockIndex_default\<lparr>phashBlock := [1, 0, 0, 0, 0, 0, 0, 0], nFlags := BLOCK_STAKE_MODIFIER\<rparr>"
  "w_two (Suc 0) = BlockIndex_default\<lparr>phashBlock := [2, 0, 0, 0, 0, 0, 0, 0], pprev := Some 0, nHeight := 1\<rparr>"
  by (simp_all add: w_two_def)

lemma w_third_fields: "\<not> Block_IsProofOfStake w_third" "b_nVersion w_third = 4" "hashPrevBlock w_third = [2, 0, 0, 0, 0, 0, 0, 0]"
  "b_nTime w_third = 10" "b_nBits w_third = bnGetCompact (2 ^ 256 - 1)" "vchBlockSig w_third = []" "length (hashMerkleRoot w_third) = 8"
  "vtx w_third = [w_coinbase\<lparr>vin := [\<lparr>prevout = OutPoint_null, scriptSig = [0x52, 1], nSequence = 0\<rparr>]\<rparr>]"
  by (simp_all add: w_third_def Block_IsProofOfStake_def Block_SetNull_def u_zero8)

lemma w_two_sync: "CheckSync False w_two [[1, 0, 0, 0, 0, 0, 0, 0] \<mapsto> 0, [2, 0, 0, 0, 0, 0, 0, 0] \<mapsto> 1] w_sync hsh 1 = Inr True"
proof -
  have "lower_to w_two 0 0 = Some (Some 0)" by (subst lower_to.simps) (simp add: w_two_at BlockIndex_default_def)
  then have "lower_to w_two 0 (Suc 0) = Some (Some 0)" by (subst lower_to.simps) (simp add: w_two_at BlockIndex_default_def)
  then show ?thesis by (simp add: CheckSync_def Let_def w_sync_def w_two_at BlockIndex_default_def u_eq_iff)
qed

lemma w_third_checks: "accept_checks w_node 5 w_opts w_two_state w_sync w_third 1 = Inr ()"
proof -
  have l0: "GetLastBlockIndex w_two 0 False = Some 0" by (subst GetLastBlockIndex.simps) (simp add: w_two_at BlockIndex_default_def)
  have l1: "GetLastBlockIndex w_two (Suc 0) False = Some (Suc 0)"
    by (subst GetLastBlockIndex.simps) (simp add: w_two_at BlockIndex_default_def IsProofOfStake_def)
  have t: "GetNextTargetRequired main_params main_limits w_two (Some (Suc 0)) False = Some (bnGetCompact (2 ^ 256 - 1))"
    by (simp add: GetNextTargetRequired_def l0 l1 main_limits_values Let_def) (simp add: w_two_at BlockIndex_default_def l0)
  have m: "GetMedianTimePast w_two (Suc 0) = 0"
    by (simp add: GetMedianTimePast_def nMedianTimeSpan_def numeral_eq_Suc w_two_at BlockIndex_default_def GetBlockTime_def Let_def)
  have r: "GetProofOfWorkReward (ch_consts w_env) 2 0 False = Some 2000"
    by (simp add: w_env_def GetProofOfWorkReward_def int32_ok_def)
  have f: "Tx_IsFinal a c (w_coinbase\<lparr>vin := js\<rparr>) d e" for a c d e js
    by (simp add: w_coinbase_def Tx_IsFinal_def)
  have ch: "CheckHardened mapCheckpoints 2 x" for x
    by (simp add: CheckHardened_def mapCheckpoints_def)
  have cb: "coinbase_height_ok 2 w_third = Some True"
    by (simp add: coinbase_height_ok_def w_third_fields push_int64_def word_sless_alt word_sle_eq)
  have h: "nHeight (w_two (Suc 0)) = 1" "GetBlockTime (w_two (Suc 0)) = 0" by (simp_all add: w_two_at BlockIndex_default_def GetBlockTime_def)
  have s: "cs_heap w_two_state = w_two" "mapBlockIndex w_two_state = [[1, 0, 0, 0, 0, 0, 0, 0] \<mapsto> 0, [2, 0, 0, 0, 0, 0, 0, 0] \<mapsto> 1]"
    by (simp_all add: w_two_state_def)
  have n: "nd_params w_node = main_params" "be_limits (nd_block w_node) = main_limits" "nd_consts w_node = ch_consts w_env" "nd_testnet w_node = False"
    by (simp_all add: w_node_def w_env_def)
  show ?thesis unfolding accept_checks_def Let_def s n
    using w_two_sync [of "Block_GetHash (be_hash9 (nd_block w_node)) w_third"]
    by (simp add: w_third_fields r t m f ch cb h checkpoints_def Block_IsProofOfWork_def nMaxClockDrift_def word_sless_alt w_opts_def)
qed

lemma w_third_write: "\<exists>d1. WriteToDisk w_disk w_third = (Inr (1, 8), d1)"
proof (rule w_write_any)
  have "length (ser_CBlock_header w_third) = 80" using w_third_fields by (simp add: ser_CBlock_header_def ser_uint256_def)
  then show "length (ser_CBlock SER_DISK w_third) < 1000" using ser_disk_flags
    by (simp add: ser_CBlock_def ser_vector_def ser_vch_def length_WriteCompactSize Let_def word_sle_eq w_third_fields)
      (simp add: w_defs ser_CTransaction_def ser_vector_def ser_CTxIn_def ser_CTxOut_def ser_COutPoint_def ser_vch_def OutPoint_null_def u_zero8
        length_WriteCompactSize GetSizeOfCompactSize_def Let_def word_sle_eq ser_uint256_def)
qed

lemma w_third_trust: "bi_nBits i = bnGetCompact (2 ^ 256 - 1) \<Longrightarrow> GetBlockTrust main_limits i \<le> 2 ^ 256"
proof -
  assume "bi_nBits i = bnGetCompact (2 ^ 256 - 1)"
  then have "compact_val (bi_nBits i) < 2 ^ 256" using bnGetCompact_val [of "2 ^ 256 - 1"] by simp
  then show ?thesis using block_trust_monotone by blast
qed

lemma w_third_add: "\<exists>s'. AddToBlockIndex w_node 5 (w_two_state\<lparr>cs_disk := d\<rparr>) w_third 1 8 = (Inr (), s') \<and> mapBlockIndex s' (u_of_uint64 8 0) = Some 2"
proof -
  let ?s = "w_two_state\<lparr>cs_disk := d\<rparr>"
  let ?i = "linked_index w_node ?s w_third 1 8"
  have hs: "Block_GetHash (be_hash9 (nd_block w_node)) w_third = u_of_uint64 8 0" by (rule w_node_facts(3))
  have s: "cs_next w_two_state = 2" "cs_heap w_two_state = w_two" "mapBlockIndex w_two_state (hashPrevBlock w_third) = Some 1"
    "mapBlockIndex w_two_state (u_of_uint64 8 0) = None" "bnBestChainTrust w_two_state = 2 ^ 256"
    by (simp_all add: w_two_state_def w_third_fields u_zero8)
  have b: "BlockIndex_of_block 1 8 w_third = BlockIndex_default\<lparr>bi_nFile := 1, bi_nBlockPos := 8, prevoutStake := OutPoint_null, nStakeTime := 0,
      bi_nVersion := b_nVersion w_third, bi_hashMerkleRoot := hashMerkleRoot w_third, bi_nTime := b_nTime w_third, bi_nBits := b_nBits w_third,
      bi_nNonce := b_nNonce w_third\<rparr>"
    by (simp add: BlockIndex_of_block_def w_third_fields Let_def)
  have i: "pprev ?i = Some 1" "nHeight ?i = 2" "nFlags ?i = 0" "phashBlock ?i = u_of_uint64 8 0"
    "bnChainTrust ?i \<le> 2 ^ 256"
    using w_third_trust
    by (simp_all add: linked_index_def Let_def b s hs) (simp_all add: BlockIndex_default_def w_two_at w_third_fields w_node_facts)
  have e: "GetStakeEntropyBit (be_hash9 (nd_block w_node)) w_third = 0"
    by (simp add: GetStakeEntropyBit_def hs u_Get64_def u_zero8)
  have "LastStakeModifier_walk w_two 0 = Some 0" by (subst LastStakeModifier_walk.simps) (simp add: w_two_at BlockIndex_default_def)
  then have lw: "LastStakeModifier_walk w_two (Suc 0) = Some 0"
    by (subst LastStakeModifier_walk.simps) (simp add: w_two_at BlockIndex_default_def GeneratedStakeModifier_def)
  have lm: "GetLastStakeModifier w_two (Some (Suc 0)) = Some (Some (0, 0))"
    by (simp add: GetLastStakeModifier_def lw w_two_at GeneratedStakeModifier_def BLOCK_STAKE_MODIFIER_def BlockIndex_default_def GetBlockTime_def)
  have cm: "ComputeNextStakeModifier (nd_params w_node) (nd_sha w_node) w_two m (Some (Suc 0)) = Some (True, 0, False)" for m
    by (simp add: ComputeNextStakeModifier_def lm w_node_def w_env_def main_params_def MODIFIER_INTERVAL_def Let_def)
      (simp add: w_two_at BlockIndex_default_def GetBlockTime_def)
  have nt: "nd_testnet w_node = False" "mapStakeModifierCheckpoints 2 = None"
    by (simp_all add: w_node_def mapStakeModifierCheckpoints_def)
  obtain h where h: "new_index w_node ?s w_third 1 8 = Inr h" "bnChainTrust (h 2) \<le> 2 ^ 256"
    using i by (simp add: new_index_def Let_def e SetStakeEntropyBit_def IsProofOfStake_def s cm SetStakeModifier_def GetStakeModifierChecksum_def
      CheckStakeModifierCheckpoints_def nt)
  have "\<not> bnChainTrust (h 2) > 2 ^ 256" using h(2) by simp
  then show ?thesis using h(1) s hs by (simp add: AddToBlockIndex_def Let_def)
qed

lemma w_third_accept: "\<exists>s'. AcceptBlock w_node 5 w_opts w_two_state w_sync w_third = (Inr (), s', w_sync)"
proof -
  obtain d where d: "WriteToDisk w_disk w_third = (Inr (1, 8), d)" using w_third_write by blast
  obtain s' where a: "AddToBlockIndex w_node 5 (w_two_state\<lparr>cs_disk := d\<rparr>) w_third 1 8 = (Inr (), s')" using w_third_add by blast
  have s: "mapBlockIndex w_two_state (hashPrevBlock w_third) = Some 1" "mapBlockIndex w_two_state (u_of_uint64 8 0) = None" "cs_disk w_two_state = w_disk"
    by (simp_all add: w_two_state_def w_third_fields u_zero8)
  have p: "AcceptPendingSyncCheckpoint w_node 5 s' w_sync = (Inr False, s', w_sync)"
    by (simp add: AcceptPendingSyncCheckpoint_def w_sync_def u_zero8 u_eq64_def Let_def)
  show ?thesis using w_third_checks d a p s w_node_facts(3) by (simp add: AcceptBlock_def w_opts_def)
qed

theorem accepted_block_rules_witness:
  "\<exists>s' y' prev sync. AcceptBlock w_node 5 w_opts w_two_state w_sync w_third = (Inr (), s', y') \<and>
    mapBlockIndex w_two_state (hashSyncCheckpoint w_sync) = Some sync \<and> is_anc w_two sync prev"
proof -
  obtain s' where a: "AcceptBlock w_node 5 w_opts w_two_state w_sync w_third = (Inr (), s', w_sync)" using w_third_accept by blast
  have s: "cs_heap w_two_state = w_two" by (simp add: w_two_state_def)
  have "tree_ok w_two" unfolding tree_ok_def by (auto simp: w_two_def BlockIndex_default_def)
  moreover have "hash_index w_two (mapBlockIndex w_two_state)"
    by (auto simp: hash_index_def w_two_state_def w_two_def BlockIndex_default_def ran_def split: if_splits)
  ultimately show ?thesis
    using accepted_block_rules [OF a] a w_node_facts(3) by (auto simp: s w_node_def w_opts_def)
qed

theorem refused_block_changes_nothing_witness:
  "\<exists>s' y'. AcceptBlock w_node 5 w_opts w_start w_sync w_third = (Inl (DoS 10), s', y') \<and>
    s' = w_start\<lparr>cs_disk := cs_disk s'\<rparr> \<and> y' = w_sync \<and> grows (cs_disk w_start) (cs_disk s')"
proof -
  have m: "mapBlockIndex w_start (u_of_uint64 8 0) = None" "mapBlockIndex w_start (hashPrevBlock w_third) = None"
    by (simp_all add: w_start_def u_zero8 w_third_fields)
  then have a: "AcceptBlock w_node 5 w_opts w_start w_sync w_third = (Inl (DoS 10), w_start, w_sync)"
    by (simp add: AcceptBlock_def w_node_facts)
  from refused_block_changes_nothing [OF a] show ?thesis using a m by (simp add: w_node_facts)
qed

subsection \<open>The synchronized checkpoint moves forward\<close>

lemma ValidateSyncCheckpoint_descendant:
  assumes ok: "tree_ok h" "hash_index h m" and v: "ValidateSyncCheckpoint h m y hsh = Some (True, y')"
  shows "y' = y \<and> (\<exists>p q. m (hashSyncCheckpoint y) = Some p \<and> m hsh = Some q \<and> is_anc h p q \<and> nHeight (h p) < nHeight (h q))"
proof -
  obtain p q r where pq: "m (hashSyncCheckpoint y) = Some p" "m hsh = Some q" "y' = y" "nHeight (h p) < nHeight (h q)"
      "lower_to h (nHeight (h p)) q = Some (Some r)" "u_eq (phashBlock (h r)) (hashSyncCheckpoint y)"
    using v unfolding ValidateSyncCheckpoint_def by (auto split: option.splits if_splits)
  have "is_anc h r q" using lower_to_anc [OF ok(1) pq(5)] .
  moreover have "r = p" using hash_index_eq [OF ok(2) pq(1) _ pq(6)] hash_index_anc [OF ok _ \<open>is_anc h r q\<close>] ranI [of m, OF pq(2)] by blast
  ultimately show ?thesis using pq by blast
qed

lemma switch_to_main:
  assumes "switch_to N now s p = (Inr True, s')"
  shows "IsInMainChain (cs_heap s') (pindexBest s') p"
proof (cases "IsInMainChain (cs_heap s) (pindexBest s) p")
  case True
  then show ?thesis using assms by (simp add: switch_to_def)
next
  case False
  then obtain b where "SetBestChain N now s b p = (Inr (), s')"
    using assms by (auto simp: switch_to_def split: option.splits prod.splits sum.splits)
  then have "pindexBest s' = Some p" unfolding SetBestChain_def Let_def
    by (auto split: if_splits prod.splits sum.splits option.splits)
  then show ?thesis by (simp add: IsInMainChain_def)
qed

text \<open>What happens to the checkpoint in one step.\<close>

definition checkpoint_step :: "chain_state \<Rightarrow> sync_state \<Rightarrow> chain_state \<Rightarrow> sync_state \<Rightarrow> bool" where
  "checkpoint_step s y s' y' \<longleftrightarrow>
     (\<exists>p q. mapBlockIndex s (hashSyncCheckpoint y) = Some p \<and> mapBlockIndex s' (hashSyncCheckpoint y') = Some q \<and>
        is_anc (cs_heap s) p q \<and> nHeight (cs_heap s p) < nHeight (cs_heap s q) \<and> IsInMainChain (cs_heap s') (pindexBest s') q)"

lemma checkpoint_moved:
  assumes "tree_ok (cs_heap s)" "hash_index (cs_heap s) (mapBlockIndex s)" "mapBlockIndex s hsh = Some q"
    "ValidateSyncCheckpoint (cs_heap s) (mapBlockIndex s) y hsh = Some (True, y1)" "switch_to N now s q = (Inr True, s')"
    "hashSyncCheckpoint y' = hsh"
  shows "checkpoint_step s y s' y'"
  using ValidateSyncCheckpoint_descendant [OF assms(1,2,4)] switch_to_main [OF assms(5)] switch_to_index [OF assms(5)] assms(3,6)
  unfolding checkpoint_step_def index_kept_def by auto

lemma Validate_sync: "ValidateSyncCheckpoint h m y hsh = Some (ok, y1) \<Longrightarrow> hashSyncCheckpoint y1 = hashSyncCheckpoint y"
  unfolding ValidateSyncCheckpoint_def by (auto split: option.splits if_splits)

lemma AcceptPending_forward:
  assumes ok: "tree_ok (cs_heap s)" "hash_index (cs_heap s) (mapBlockIndex s)" and a: "AcceptPendingSyncCheckpoint N now s y = (r, s', y')"
  shows "if r = Inr True then checkpoint_step s y s' y' else hashSyncCheckpoint y' = hashSyncCheckpoint y"
proof (cases "r = Inr True")
  case True
  let ?x = "hashPendingCheckpoint y"
  obtain p y1 where "mapBlockIndex s ?x = Some p" "ValidateSyncCheckpoint (cs_heap s) (mapBlockIndex s) y ?x = Some (True, y1)"
      "switch_to N now s p = (Inr True, s')" "hashSyncCheckpoint y' = ?x"
    using a True unfolding AcceptPendingSyncCheckpoint_def Let_def
    by (auto simp: WriteSyncCheckpoint_def split: option.splits if_splits prod.splits sum.splits)
  then show ?thesis using checkpoint_moved [OF ok] True by simp
next
  case False
  then have "hashSyncCheckpoint y' = hashSyncCheckpoint y"
    using a unfolding AcceptPendingSyncCheckpoint_def Let_def
    by (auto dest!: Validate_sync split: option.splits if_splits prod.splits sum.splits)
  then show ?thesis using False by simp
qed

lemma ProcessSync_forward:
  assumes ok: "tree_ok (cs_heap s)" "hash_index (cs_heap s) (mapBlockIndex s)"
    and a: "ProcessSyncCheckpoint N now pfrom orphans s y c = (r, s', y', asked)"
  shows "if r = Inr True then checkpoint_step s y s' y' else hashSyncCheckpoint y' = hashSyncCheckpoint y"
proof (cases "CheckSignature (be_crypto (nd_block N)) c")
  case (Inl e)
  then have "r \<noteq> Inr True" "y' = y" using a unfolding ProcessSyncCheckpoint_def by (auto split: if_splits)
  then show ?thesis by simp
next
  case c: (Inr c1)
  let ?x = "sc_hashCheckpoint c1"
  note a = a [unfolded ProcessSyncCheckpoint_def c sum.case Let_def]
  show ?thesis
  proof (cases "mapBlockIndex s ?x")
    case None
    then have "r \<noteq> Inr True \<and> hashSyncCheckpoint y' = hashSyncCheckpoint y" using a by (auto split: if_splits option.splits)
    then show ?thesis by simp
  next
    case (Some p)
    note a = a [unfolded Some option.case]
    show ?thesis
    proof (cases "r = Inr True")
      case True
      obtain y1 where "ValidateSyncCheckpoint (cs_heap s) (mapBlockIndex s) y ?x = Some (True, y1)"
          "switch_to N now s p = (Inr True, s')" "hashSyncCheckpoint y' = ?x"
        using a True by (auto simp: WriteSyncCheckpoint_def split: option.splits if_splits prod.splits sum.splits)
      then show ?thesis using checkpoint_moved [OF ok Some] True by simp
    next
      case False
      then have "hashSyncCheckpoint y' = hashSyncCheckpoint y"
        using a by (auto dest!: Validate_sync split: option.splits if_splits prod.splits sum.splits)
      then show ?thesis using False by simp
    qed
  qed
qed

text \<open>C8. The synchronized checkpoint only moves forward. When a received checkpoint is processed, or a pending one
  accepted, either the checkpoint stays where it is, or the call returns true and the new checkpoint is a proper descendant of the
  old one and lies on the best chain, to which the node has switched if it had to.
\<close>

theorem checkpoint_moves_forward:
  assumes "tree_ok (cs_heap s)" "hash_index (cs_heap s) (mapBlockIndex s)"
    "ProcessSyncCheckpoint N now pfrom orphans s y c = (r, s', y', asked)"
    "AcceptPendingSyncCheckpoint N now s y = (r2, s2, y2)"
  shows "(if r = Inr True then checkpoint_step s y s' y' else hashSyncCheckpoint y' = hashSyncCheckpoint y) \<and>
    (if r2 = Inr True then checkpoint_step s y s2 y2 else hashSyncCheckpoint y2 = hashSyncCheckpoint y)"
  using ProcessSync_forward [OF assms(1,2,3)] AcceptPending_forward [OF assms(1,2,4)] by simp

text \<open>On the sample tree the block of height one is pending, a child of the checkpoint on the best chain.\<close>

theorem checkpoint_moves_forward_witness:
  "\<exists>y'. AcceptPendingSyncCheckpoint w_node 5 w_two_state (w_sync\<lparr>hashPendingCheckpoint := [2, 0, 0, 0, 0, 0, 0, 0]\<rparr>) = (Inr True, w_two_state, y') \<and>
    checkpoint_step w_two_state (w_sync\<lparr>hashPendingCheckpoint := [2, 0, 0, 0, 0, 0, 0, 0]\<rparr>) w_two_state y'"
proof -
  let ?y = "w_sync\<lparr>hashPendingCheckpoint := [2, 0, 0, 0, 0, 0, 0, 0]\<rparr>"
  have s: "cs_heap w_two_state = w_two" "mapBlockIndex w_two_state = [[1, 0, 0, 0, 0, 0, 0, 0] \<mapsto> 0, [2, 0, 0, 0, 0, 0, 0, 0] \<mapsto> 1]"
    "pindexBest w_two_state = Some 1" by (simp_all add: w_two_state_def)
  have "lower_to w_two 0 0 = Some (Some 0)" by (subst lower_to.simps) (simp add: w_two_at BlockIndex_default_def)
  then have l: "lower_to w_two 0 (Suc 0) = Some (Some 0)" by (subst lower_to.simps) (simp add: w_two_at BlockIndex_default_def)
  have v: "ValidateSyncCheckpoint w_two [[1, 0, 0, 0, 0, 0, 0, 0] \<mapsto> 0, [2, 0, 0, 0, 0, 0, 0, 0] \<mapsto> 1] ?y [2, 0, 0, 0, 0, 0, 0, 0] = Some (True, ?y)"
    using l by (simp add: ValidateSyncCheckpoint_def w_sync_def w_two_at BlockIndex_default_def u_eq_iff)
  have w: "switch_to w_node 5 w_two_state 1 = (Inr True, w_two_state)" by (simp add: switch_to_def IsInMainChain_def s)
  obtain y' where a: "AcceptPendingSyncCheckpoint w_node 5 w_two_state ?y = (Inr True, w_two_state, y')"
    using v w by (simp add: AcceptPendingSyncCheckpoint_def Let_def s u_eq64_def)
  obtain r s' y2 asked where p: "ProcessSyncCheckpoint w_node 5 True Map.empty w_two_state ?y SyncCheckpoint_null = (r, s', y2, asked)"
    using prod_cases4 by blast
  have "tree_ok w_two" unfolding tree_ok_def by (auto simp: w_two_def BlockIndex_default_def)
  moreover have "hash_index w_two (mapBlockIndex w_two_state)"
    by (auto simp: hash_index_def w_two_state_def w_two_def BlockIndex_default_def ran_def split: if_splits)
  ultimately show ?thesis using checkpoint_moves_forward [OF _ _ p a] a by (simp add: s)
qed

subsection \<open>The two maps of orphans\<close>

text \<open>Every orphan is in both maps: under its own hash and, once, under the hash of its parent.\<close>

definition orphans_ok :: "(byte list \<Rightarrow> base_uint) \<Rightarrow> orphan_pool \<Rightarrow> bool" where
  "orphans_ok hash9 orph \<longleftrightarrow>
     (\<forall>hsh b. mapOrphanBlocks orph hsh = Some b \<longrightarrow> Block_GetHash hash9 b = hsh \<and> (hashPrevBlock b, b) \<in> set (mapOrphanBlocksByPrev orph)) \<and>
     (\<forall>p b. (p, b) \<in> set (mapOrphanBlocksByPrev orph) \<longrightarrow> p = hashPrevBlock b \<and> mapOrphanBlocks orph (Block_GetHash hash9 b) = Some b) \<and>
     distinct (map snd (mapOrphanBlocksByPrev orph))"

lemma orphans_ok_file:
  assumes "orphans_ok (be_hash9 (nd_block N)) orph" "mapOrphanBlocks orph (Block_GetHash (be_hash9 (nd_block N)) b) = None"
  shows "orphans_ok (be_hash9 (nd_block N)) (file_orphan (Block_GetHash (be_hash9 (nd_block N)) b) b orph)"
proof -
  let ?x = "Block_GetHash (be_hash9 (nd_block N))"
  have k: "\<And>h c. mapOrphanBlocks orph h = Some c \<Longrightarrow> ?x c = h \<and> (hashPrevBlock c, c) \<in> set (mapOrphanBlocksByPrev orph)"
    "\<And>p c. (p, c) \<in> set (mapOrphanBlocksByPrev orph) \<Longrightarrow> p = hashPrevBlock c \<and> mapOrphanBlocks orph (?x c) = Some c"
    "distinct (map snd (mapOrphanBlocksByPrev orph))"
    using assms(1) unfolding orphans_ok_def by blast+
  have ne: "?x c \<noteq> ?x b" if "(p, c) \<in> set (mapOrphanBlocksByPrev orph)" for p c using k(2) [OF that] assms(2) by auto
  then have "b \<notin> snd ` set (mapOrphanBlocksByPrev orph)" by force
  then show ?thesis using k assms(2) unfolding orphans_ok_def file_orphan_def by (auto dest: ne)
qed

lemma accept_children_map:
  "accept_children N now opts cs orph s y = (Inr hs, orph', s', y') \<Longrightarrow>
   mapOrphanBlocks orph' = mapOrphanBlocks orph |` (- Block_GetHash (be_hash9 (nd_block N)) ` set cs)"
proof (induction cs arbitrary: orph s y hs)
  case (Cons c cs)
  let ?x = "Block_GetHash (be_hash9 (nd_block N))"
  let ?d = "orph\<lparr>mapOrphanBlocks := (mapOrphanBlocks orph)(?x c := None), setStakeSeenOrphan := setStakeSeenOrphan orph - {Block_GetProofOfStake c}\<rparr>"
  obtain r s1 y1 where a: "AcceptBlock N now opts s y c = (r, s1, y1)" by (metis prod_cases3)
  obtain hs' where "accept_children N now opts cs ?d s1 y1 = (Inr hs', orph', s', y')"
    using Cons.prems a by (auto simp: Let_def split: sum.splits prod.splits if_splits)
  then have "mapOrphanBlocks orph' = (mapOrphanBlocks orph)(?x c := None) |` (- ?x ` set cs)" using Cons.IH by fastforce
  then show ?case by (simp only: restrict_map_def fun_eq_iff) auto
qed (simp add: restrict_map_def fun_eq_iff)

lemma orphans_ok_drop:
  assumes "orphans_ok hash9 orph" "mapOrphanBlocks orph' = mapOrphanBlocks orph |` (- Block_GetHash hash9 ` set (children_of orph p))"
    "mapOrphanBlocksByPrev orph' = filter (\<lambda>e. fst e \<noteq> p) (mapOrphanBlocksByPrev orph)"
  shows "orphans_ok hash9 orph'"
proof -
  have k: "\<And>h c. mapOrphanBlocks orph h = Some c \<Longrightarrow> Block_GetHash hash9 c = h \<and> (hashPrevBlock c, c) \<in> set (mapOrphanBlocksByPrev orph)"
    "\<And>q c. (q, c) \<in> set (mapOrphanBlocksByPrev orph) \<Longrightarrow> q = hashPrevBlock c \<and> mapOrphanBlocks orph (Block_GetHash hash9 c) = Some c"
    "distinct (map snd (mapOrphanBlocksByPrev orph))"
    using assms(1) unfolding orphans_ok_def by blast+
  have ch: "c \<in> set (children_of orph p) \<longleftrightarrow> (p, c) \<in> set (mapOrphanBlocksByPrev orph)" for c
    unfolding children_of_def by force
  have "Block_GetHash hash9 c \<notin> Block_GetHash hash9 ` set (children_of orph p)" if "(q, c) \<in> set (mapOrphanBlocksByPrev orph)" "q \<noteq> p" for q c
  proof
    assume "Block_GetHash hash9 c \<in> Block_GetHash hash9 ` set (children_of orph p)"
    then obtain d where d: "(p, d) \<in> set (mapOrphanBlocksByPrev orph)" "Block_GetHash hash9 d = Block_GetHash hash9 c" using ch by auto
    then have "c = d" using k(2) [OF that(1)] k(2) [OF d(1)] by simp
    then show False using k(2) [OF that(1)] k(2) [OF d(1)] that(2) by simp
  qed
  moreover have "hashPrevBlock c \<noteq> p" if "mapOrphanBlocks orph h = Some c" "h \<notin> Block_GetHash hash9 ` set (children_of orph p)" for h c
  proof
    assume "hashPrevBlock c = p"
    then have "c \<in> set (children_of orph p)" using k(1) [OF that(1)] ch by simp
    then show False using k(1) [OF that(1)] that(2) by auto
  qed
  ultimately show ?thesis using k distinct_map_filter [OF k(3)] unfolding orphans_ok_def assms(2,3)
    by (auto simp: restrict_map_def split: if_splits)
qed

lemma process_queue_ok:
  "process_queue N now opts queue orph s y = (Inr (), orph', s', y') \<Longrightarrow> orphans_ok (be_hash9 (nd_block N)) orph \<Longrightarrow>
   orphans_ok (be_hash9 (nd_block N)) orph' \<and> set (mapOrphanBlocksByPrev orph') \<subseteq> set (mapOrphanBlocksByPrev orph) \<and>
   (\<forall>p\<in>set queue. children_of orph' p = []) \<and> (\<forall>h. mapOrphanBlocks orph h = None \<longrightarrow> mapOrphanBlocks orph' h = None)"
proof (induction N now opts queue orph s y rule: process_queue.induct)
  case (2 N now opts p queue orph s y)
  obtain r o1 s1 y1 where a: "accept_children N now opts (children_of orph p) orph s y = (r, o1, s1, y1)" by (metis prod_cases4)
  then obtain hs where r: "r = Inr hs" using 2(2) by (cases r) simp_all
  let ?o = "o1\<lparr>mapOrphanBlocksByPrev := filter (\<lambda>e. fst e \<noteq> p) (mapOrphanBlocksByPrev o1)\<rparr>"
  note m = accept_children_map [OF a [unfolded r]] and bp = accept_children_prev [OF a]
  have ok: "orphans_ok (be_hash9 (nd_block N)) ?o" by (rule orphans_ok_drop [OF 2(3)]) (simp_all add: m bp)
  have q: "process_queue N now opts (queue @ hs) ?o s1 y1 = (Inr (), orph', s', y')" using 2(2) a r by simp
  from 2(1) [OF a [symmetric] r refl refl q ok]
  have IH: "orphans_ok (be_hash9 (nd_block N)) orph'" "set (mapOrphanBlocksByPrev orph') \<subseteq> set (mapOrphanBlocksByPrev ?o)"
    "\<And>x. x \<in> set (queue @ hs) \<Longrightarrow> children_of orph' x = []" "\<And>h. mapOrphanBlocks ?o h = None \<Longrightarrow> mapOrphanBlocks orph' h = None" by blast+
  have "children_of orph' p = []" using IH(2) unfolding children_of_def by (auto simp: filter_empty_conv)
  then show ?case using IH bp by (auto simp: m restrict_map_def)
qed simp

lemma accept_children_exception: "accept_children N now opts cs orph s y = (Inl e, orph', s', y') \<Longrightarrow> \<not> is_false e"
proof (induction N now opts cs orph s y rule: accept_children.induct)
  case (2 N now opts c cs orph s y)
  obtain r s1 y1 where a: "AcceptBlock N now opts s y c = (r, s1, y1)" by (metis prod_cases3)
  show ?case
  proof (cases r)
    case (Inl e1)
    then show ?thesis using 2 a by (cases "is_false e1") (auto simp: Let_def)
  next
    case (Inr u)
    then show ?thesis using 2 a by (auto simp: Let_def split: sum.splits prod.splits)
  qed
qed simp

lemma process_queue_exception: "process_queue N now opts queue orph s y = (Inl e, orph', s', y') \<Longrightarrow> \<not> is_false e"
  by (induction N now opts queue orph s y rule: process_queue.induct)
    (auto dest: accept_children_exception split: sum.splits prod.splits)

lemma hold_orphan_ok:
  assumes "hold_orphan N opts pfrom orph y b = (r, orph', asked)" "orphans_ok (be_hash9 (nd_block N)) orph"
    "mapOrphanBlocks orph (Block_GetHash (be_hash9 (nd_block N)) b) = None"
  shows "orphans_ok (be_hash9 (nd_block N)) orph' \<and> (r = Inr () \<longrightarrow> mapOrphanBlocks orph' (Block_GetHash (be_hash9 (nd_block N)) b) = Some b)"
proof -
  have "orph' = orph \<and> r \<noteq> Inr () \<or> orph' = file_orphan (Block_GetHash (be_hash9 (nd_block N)) b) b orph"
    using assms(1) unfolding hold_orphan_def Let_def by (auto split: option.splits if_splits)
  moreover have "mapOrphanBlocks (file_orphan (Block_GetHash (be_hash9 (nd_block N)) b) b orph) (Block_GetHash (be_hash9 (nd_block N)) b) = Some b"
    using assms(3) by (simp add: file_orphan_def)
  ultimately show ?thesis using orphans_ok_file [OF assms(2,3)] assms(2) by auto
qed

text \<open>The blocks of a list given to AcceptBlock in turn: the verdicts and the state at the end.\<close>

fun try_blocks ::
  "node \<Rightarrow> int \<Rightarrow> accept_opts \<Rightarrow> CBlock list \<Rightarrow> chain_state \<Rightarrow> sync_state \<Rightarrow> (reject + unit) list \<times> chain_state \<times> sync_state" where
  "try_blocks N now opts [] s y = ([], s, y)"
| "try_blocks N now opts (b # bs) s y =
     (case AcceptBlock N now opts s y b of (r, s, y) \<Rightarrow> (case try_blocks N now opts bs s y of (rs, s, y) \<Rightarrow> (r # rs, s, y)))"

definition accepted :: "(byte list \<Rightarrow> base_uint) \<Rightarrow> CBlock list \<Rightarrow> (reject + unit) list \<Rightarrow> base_uint list" where
  "accepted hash9 bs rs = map (\<lambda>(b, r). Block_GetHash hash9 b) (filter (\<lambda>(b, r). r = Inr ()) (zip bs rs))"

text \<open>A round of orphans: those whose parent was accepted, each once and after its parent, and no other. The hashes \<open>ps\<close>
  are of blocks accepted before.\<close>

definition orphan_round :: "(byte list \<Rightarrow> base_uint) \<Rightarrow> base_uint set \<Rightarrow> orphan_pool \<Rightarrow> CBlock list \<Rightarrow> (reject + unit) list \<Rightarrow> orphan_pool \<Rightarrow> bool" where
  "orphan_round hash9 ps orph cs rs orph' \<longleftrightarrow>
     (let acc = ps \<union> set (accepted hash9 cs rs) in
        distinct cs \<and> length rs = length cs \<and>
        (\<forall>c. c \<in> set cs \<longleftrightarrow> (hashPrevBlock c, c) \<in> set (mapOrphanBlocksByPrev orph) \<and> hashPrevBlock c \<in> acc) \<and>
        (\<forall>i<length cs. hashPrevBlock (cs ! i) \<in> ps \<union> set (accepted hash9 (take i cs) (take i rs))) \<and>
        mapOrphanBlocks orph' = mapOrphanBlocks orph |` (- Block_GetHash hash9 ` set cs) \<and>
        mapOrphanBlocksByPrev orph' = filter (\<lambda>e. fst e \<notin> acc) (mapOrphanBlocksByPrev orph))"

lemma try_blocks_append:
  assumes "try_blocks N now opts cs s y = (rs, s1, y1)" "try_blocks N now opts cs' s1 y1 = (rs', s2, y2)"
  shows "try_blocks N now opts (cs @ cs') s y = (rs @ rs', s2, y2)"
  using assms(1)
proof (induction cs arbitrary: s y rs)
  case (Cons c cs)
  then show ?case using assms(2) by (auto split: prod.splits)
qed (use assms(2) in simp)

lemma accepted_append: "length rs = length cs \<Longrightarrow> accepted hash9 (cs @ cs') (rs @ rs') = accepted hash9 cs rs @ accepted hash9 cs' rs'"
  by (simp add: accepted_def)

lemma accepted_simps: "accepted hash9 [] rs = []"
  "accepted hash9 (c # cs) (r # rs) = (if r = Inr () then [Block_GetHash hash9 c] else []) @ accepted hash9 cs rs"
  by (simp_all add: accepted_def)

lemma accept_children_tries:
  "accept_children N now opts cs orph s y = (Inr hs, orph', s', y') \<Longrightarrow>
   \<exists>rs. try_blocks N now opts cs s y = (rs, s', y') \<and> length rs = length cs \<and> hs = accepted (be_hash9 (nd_block N)) cs rs \<and>
     (\<forall>r\<in>set rs. r = Inr () \<or> (\<exists>e. r = Inl e \<and> is_false e))"
proof (induction cs arbitrary: orph s y hs)
  case (Cons c cs)
  let ?x = "Block_GetHash (be_hash9 (nd_block N))"
  let ?d = "orph\<lparr>mapOrphanBlocks := (mapOrphanBlocks orph)(?x c := None), setStakeSeenOrphan := setStakeSeenOrphan orph - {Block_GetProofOfStake c}\<rparr>"
  obtain r s1 y1 where a: "AcceptBlock N now opts s y c = (r, s1, y1)" by (metis prod_cases3)
  obtain hs' where h: "accept_children N now opts cs ?d s1 y1 = (Inr hs', orph', s', y')"
    "hs = (if r = Inr () then ?x c # hs' else hs')" "r = Inr () \<or> (\<exists>e. r = Inl e \<and> is_false e)"
    using Cons.prems a by (auto simp: Let_def split: sum.splits prod.splits if_splits)
  from Cons.IH [OF h(1)] obtain rs where "try_blocks N now opts cs s1 y1 = (rs, s', y')" "length rs = length cs"
    "hs' = accepted (be_hash9 (nd_block N)) cs rs" "\<forall>r\<in>set rs. r = Inr () \<or> (\<exists>e. r = Inl e \<and> is_false e)" by blast
  then show ?case using a h(2,3) by (intro exI [of _ "r # rs"]) (auto simp: accepted_simps)
qed (simp add: accepted_simps)

lemma round_step:
  assumes ok: "orphans_ok hash9 orph" and r1: "length rs1 = length (children_of orph p)"
    and o1: "mapOrphanBlocks o1 = mapOrphanBlocks orph |` (- Block_GetHash hash9 ` set (children_of orph p))"
      "mapOrphanBlocksByPrev o1 = filter (\<lambda>e. fst e \<noteq> p) (mapOrphanBlocksByPrev orph)"
    and r: "orphan_round hash9 (set (queue @ accepted hash9 (children_of orph p) rs1)) o1 cs rs orph'"
  shows "orphan_round hash9 (set (p # queue)) orph (children_of orph p @ cs) (rs1 @ rs) orph'"
proof -
  let ?ch = "children_of orph p" and ?hs = "accepted hash9 (children_of orph p) rs1"
  have k: "\<And>q c. (q, c) \<in> set (mapOrphanBlocksByPrev orph) \<Longrightarrow> q = hashPrevBlock c" "distinct (map snd (mapOrphanBlocksByPrev orph))"
    using ok unfolding orphans_ok_def by (blast, blast)
  have ch: "c \<in> set ?ch \<longleftrightarrow> (hashPrevBlock c, c) \<in> set (mapOrphanBlocksByPrev orph) \<and> hashPrevBlock c = p" for c
  proof -
    have "c \<in> set ?ch \<longleftrightarrow> (p, c) \<in> set (mapOrphanBlocksByPrev orph)" unfolding children_of_def by force
    then show ?thesis using k(1) by blast
  qed
  have "distinct ?ch" unfolding children_of_def by (rule distinct_map_filter [OF k(2)])
  note R = r [unfolded orphan_round_def Let_def]
  have acc: "set (p # queue) \<union> set (accepted hash9 (?ch @ cs) (rs1 @ rs)) = insert p (set (queue @ ?hs) \<union> set (accepted hash9 cs rs))"
    unfolding accepted_append [OF r1] by (simp only: list.set set_append) blast
  have ne: "hashPrevBlock c \<noteq> p" if "c \<in> set cs" for c using R that o1(2) by auto
  have mem: "c \<in> set (?ch @ cs) \<longleftrightarrow> (hashPrevBlock c, c) \<in> set (mapOrphanBlocksByPrev orph) \<and>
      hashPrevBlock c \<in> insert p (set (queue @ ?hs) \<union> set (accepted hash9 cs rs))" for c
    using ch [of c] R o1(2) by auto
  have ord: "hashPrevBlock ((?ch @ cs) ! i) \<in> set (p # queue) \<union> set (accepted hash9 (take i (?ch @ cs)) (take i (rs1 @ rs)))"
    if i: "i < length (?ch @ cs)" for i
  proof (cases "i < length ?ch")
    case True
    then show ?thesis using ch [of "?ch ! i"] nth_mem [of i ?ch] by (simp add: nth_append)
  next
    case False
    then have "i - length ?ch < length cs" using i by simp
    then have "hashPrevBlock (cs ! (i - length ?ch)) \<in> set (queue @ ?hs) \<union> set (accepted hash9 (take (i - length ?ch) cs) (take (i - length ?ch) rs))"
      using R by blast
    then show ?thesis using False r1 by (auto simp: nth_append accepted_append)
  qed
  show ?thesis unfolding orphan_round_def Let_def acc
  proof (intro conjI allI impI)
    show "distinct (?ch @ cs)" using \<open>distinct ?ch\<close> R ch ne by auto
    show "length (rs1 @ rs) = length (?ch @ cs)" using r1 R by simp
    show "mapOrphanBlocks orph' = mapOrphanBlocks orph |` (- Block_GetHash hash9 ` set (?ch @ cs))"
      using R by (simp add: o1(1) image_Un Compl_Un)
    show "mapOrphanBlocksByPrev orph' = filter (\<lambda>e. fst e \<notin> insert p (set (queue @ ?hs) \<union> set (accepted hash9 cs rs))) (mapOrphanBlocksByPrev orph)"
      using R by (simp add: o1(2))
  qed (use mem ord in blast)+
qed

lemma process_queue_round:
  "process_queue N now opts queue orph s y = (Inr (), orph', s', y') \<Longrightarrow> orphans_ok (be_hash9 (nd_block N)) orph \<Longrightarrow>
   \<exists>cs rs. try_blocks N now opts cs s y = (rs, s', y') \<and> (\<forall>r\<in>set rs. r = Inr () \<or> (\<exists>e. r = Inl e \<and> is_false e)) \<and>
     orphan_round (be_hash9 (nd_block N)) (set queue) orph cs rs orph'"
proof (induction N now opts queue orph s y rule: process_queue.induct)
  case (1 N now opts orph s y)
  then show ?case
    by (intro exI [of _ "[]"]) (auto simp: orphan_round_def accepted_simps)
next
  case (2 N now opts p queue orph s y)
  let ?x = "be_hash9 (nd_block N)" and ?ch = "children_of orph p"
  obtain r o1 s1 y1 where a: "accept_children N now opts ?ch orph s y = (r, o1, s1, y1)" by (metis prod_cases4)
  then obtain hs where r: "r = Inr hs" using 2(2) by (cases r) simp_all
  let ?o = "o1\<lparr>mapOrphanBlocksByPrev := filter (\<lambda>e. fst e \<noteq> p) (mapOrphanBlocksByPrev o1)\<rparr>"
  note m = accept_children_map [OF a [unfolded r]] and bp = accept_children_prev [OF a]
  have o: "mapOrphanBlocks ?o = mapOrphanBlocks orph |` (- Block_GetHash ?x ` set ?ch)"
    "mapOrphanBlocksByPrev ?o = filter (\<lambda>e. fst e \<noteq> p) (mapOrphanBlocksByPrev orph)" by (simp_all add: m bp)
  have q: "process_queue N now opts (queue @ hs) ?o s1 y1 = (Inr (), orph', s', y')" using 2(2) a r by simp
  obtain rs1 where t1: "try_blocks N now opts ?ch s y = (rs1, s1, y1)" "length rs1 = length ?ch" "hs = accepted ?x ?ch rs1"
    "\<forall>r\<in>set rs1. r = Inr () \<or> (\<exists>e. r = Inl e \<and> is_false e)" using accept_children_tries [OF a [unfolded r]] by blast
  obtain cs rs where t2: "try_blocks N now opts cs s1 y1 = (rs, s', y')" "\<forall>r\<in>set rs. r = Inr () \<or> (\<exists>e. r = Inl e \<and> is_false e)"
    "orphan_round ?x (set (queue @ hs)) ?o cs rs orph'"
    using 2(1) [OF a [symmetric] r refl refl q orphans_ok_drop [OF 2(3) o]] by blast
  show ?case
  proof (intro exI conjI)
    show "try_blocks N now opts (?ch @ cs) s y = (rs1 @ rs, s', y')" by (rule try_blocks_append [OF t1(1) t2(1)])
    show "\<forall>r\<in>set (rs1 @ rs). r = Inr () \<or> (\<exists>e. r = Inl e \<and> is_false e)" using t1(4) t2(2) by auto
    show "orphan_round ?x (set (p # queue)) orph (?ch @ cs) (rs1 @ rs) orph'"
      by (rule round_step [OF 2(3) t1(2) o]) (use t2(3) t1(3) in simp)
  qed
qed


lemma orphan_round_children:
  assumes "orphan_round hash9 ps orph cs rs orph'" "h \<in> ps \<union> set (accepted hash9 cs rs)"
  shows "children_of orph' h = []"
  using assms by (auto simp: orphan_round_def children_of_def Let_def filter_empty_conv)

text \<open>C10. ProcessBlock keeps the two maps of orphans consistent: unless it ends in an exception, every orphan is afterwards,
  as before, filed under its own hash and exactly once under that of its parent. When the block is accepted, AcceptBlock
  was given the block and then, each once and after its parent, exactly the orphans whose parent was accepted, through all
  descendants; exactly those are no longer orphans, whether accepted or refused, and no orphan waits for any of the blocks accepted.
\<close>

theorem orphans_consistent:
  assumes "ProcessBlock N now opts key pfrom orph s y b = (r, orph', s', y', asked)" "orphans_ok (be_hash9 (nd_block N)) orph"
    "\<And>e. r = Inl e \<Longrightarrow> is_false e"
  shows "orphans_ok (be_hash9 (nd_block N)) orph' \<and>
    (r = Inr () \<and> mapOrphanBlocks orph' (Block_GetHash (be_hash9 (nd_block N)) b) = None \<longrightarrow>
     (\<exists>s1 cs rs s2 y2. preliminary_checks N now orph s y b (Block_GetHash (be_hash9 (nd_block N)) b) = Inr s1 \<and>
        try_blocks N now opts (b # cs) s1 y = (Inr () # rs, s2, y2) \<and> (\<forall>v\<in>set rs. v = Inr () \<or> (\<exists>e. v = Inl e \<and> is_false e)) \<and>
        orphan_round (be_hash9 (nd_block N)) {Block_GetHash (be_hash9 (nd_block N)) b} orph cs rs orph' \<and>
        (\<forall>h\<in>set (accepted (be_hash9 (nd_block N)) (b # cs) (Inr () # rs)). children_of orph' h = [])))"
proof -
  let ?x = "Block_GetHash (be_hash9 (nd_block N)) b"
  show ?thesis
  proof (cases "preliminary_checks N now orph s y b ?x")
    case (Inl e)
    then show ?thesis using assms by (auto simp: ProcessBlock_def)
  next
    case (Inr s1)
    have fresh: "mapOrphanBlocks orph ?x = None" using Inr unfolding preliminary_checks_def by (auto split: if_splits)
    show ?thesis
    proof (cases "spam_check N pfrom orph s1 y b ?x")
      case (Inl e)
      then show ?thesis using assms Inr by (auto simp: ProcessBlock_def)
    next
      case spam: (Inr u)
      show ?thesis
      proof (cases "mapBlockIndex s1 (hashPrevBlock b)")
        case None
        then obtain asked2 where "hold_orphan N opts pfrom orph y b = (r, orph', asked2)"
          using assms(1) Inr spam by (auto simp: ProcessBlock_def Let_def split: prod.splits)
        from hold_orphan_ok [OF this assms(2) fresh] show ?thesis by auto
      next
        case (Some prev)
        obtain r2 s2 y2 where a: "AcceptBlock N now opts s1 y b = (r2, s2, y2)" by (metis prod_cases3)
        show ?thesis
        proof (cases r2)
          case (Inl e)
          then show ?thesis using assms Inr spam Some a by (auto simp: ProcessBlock_def Let_def)
        next
          case r2: (Inr u2)
          obtain r3 o3 s3 y3 where q: "process_queue N now opts [?x] orph s2 y2 = (r3, o3, s3, y3)" by (metis prod_cases4)
          show ?thesis
          proof (cases r3)
            case (Inl e)
            then have "r = Inl e" using assms(1) \<open>preliminary_checks N now orph s y b ?x = Inr s1\<close> spam Some a r2 q
              by (simp add: ProcessBlock_def Let_def)
            then have "is_false e" using assms(3) by blast
            moreover have "\<not> is_false e" using process_queue_exception q Inl by blast
            ultimately show ?thesis by blast
          next
            case r3: (Inr u3)
            then have "orph' = o3" using assms(1) \<open>preliminary_checks N now orph s y b ?x = Inr s1\<close> spam Some a r2 q
              by (auto simp: ProcessBlock_def Let_def split: prod.splits)
            moreover have "process_queue N now opts [?x] orph s2 y2 = (Inr (), o3, s3, y3)" using q r3 by simp
            note ok = process_queue_ok [OF this assms(2)] and process_queue_round [OF this assms(2)]
            then obtain cs rs where c: "try_blocks N now opts cs s2 y2 = (rs, s3, y3)" "\<forall>v\<in>set rs. v = Inr () \<or> (\<exists>e. v = Inl e \<and> is_false e)"
              "orphan_round (be_hash9 (nd_block N)) {?x} orph cs rs o3" by auto
            have "try_blocks N now opts (b # cs) s1 y = (Inr () # rs, s3, y3)" using a r2 c(1) by simp
            moreover have "\<forall>h\<in>set (accepted (be_hash9 (nd_block N)) (b # cs) (Inr () # rs)). children_of o3 h = []"
              using orphan_round_children [OF c(3)] by (simp add: accepted_simps)
            ultimately show ?thesis using ok c(2,3) Inr by blast
          qed
        qed
      qed
    qed
  qed
qed

definition w_no_orphans :: orphan_pool where
  "w_no_orphans = \<lparr> mapOrphanBlocks = Map.empty, mapOrphanBlocksByPrev = [], setStakeSeenOrphan = {} \<rparr>"

text \<open>Example: a block that is accepted, and for which no orphan waits.\<close>

lemma w_third_block: "CheckBlock (nd_block w_node) 5 True True w_third = Inr ()"
proof -
  let ?tx = "w_coinbase\<lparr>vin := [\<lparr>prevout = OutPoint_null, scriptSig = [0x52, 1], nSequence = 0\<rparr>]\<rparr>"
  have v: "vtx w_third = [?tx]" "\<not> Block_IsProofOfStake w_third" using w_third_fields by (simp_all add: Block_IsProofOfStake_def)
  have h: "Tx_GetHash w_sha ?tx = [0, 10, 0, 0, 0, 0, 0, 0]" by (simp add: w_hash w_coinbase_def)
  have root: "u_eq (hashMerkleRoot w_third) (fst (BuildMerkleTree w_sha w_third))"
    by (simp add: v BuildMerkleTree_def merkle_rows.simps h Let_def) (simp add: w_third_def u_eq_iff)
  have k: "Tx_IsCoinBase ?tx" using w_kinds(1) by (simp add: w_coinbase_def Tx_IsCoinBase_def)
  have size: "GetSerializeSize_CTransaction SER_NETWORK ver ?tx = 66" for ver by (simp add: w_defs size_defs Let_def word_sle_eq)
  have o: "CheckTransaction_outputs ?tx 0 (vout ?tx) = (True, 0)"
    by (simp add: w_defs TxOut_IsEmpty_def MIN_TXOUT_AMOUNT_def MIN_TX_FEE_def CENT_def MAX_MONEY_def COIN_def MoneyRange_iff money_max_def word_sless_alt)
  have "CheckTransaction ?tx = (True, ?tx)"
    using o k size by (simp add: CheckTransaction_def MAX_BLOCK_SIZE_def OutPoint_count_def) (simp add: w_defs OutPoint_count_def)
  then have tx: "CheckBlock_txs 10 (vtx w_third) = Inr ()" by (simp add: v) (simp add: w_defs)
  have sz: "\<not> GetSerializeSize_CBlock SER_NETWORK w_third > MAX_BLOCK_SIZE"
    by (simp add: GetSerializeSize_CBlock_def v w_third_def Block_SetNull_def size [unfolded SER_NETWORK_def] SER_NETWORK_def SER_GETHASH_def SER_BLOCKHEADERONLY_def
      GetSerializeSize_uint_def GetSerializeSize_vector_def GetSerializeSize_vch_def GetSizeOfCompactSize_def Let_def word_sle_eq MAX_BLOCK_SIZE_def)
  have so: "\<not> block_sigops w_third > MAX_BLOCK_SIGOPS"
    by (simp add: block_sigops_def v w_defs GetLegacySigOpCount_def GetSigOpCount_def GetSigOpCount_loop.simps GetOp2_def MAX_BLOCK_SIGOPS_def MAX_BLOCK_SIZE_def)
  have sg: "CheckBlockSignature (nd_block w_node) w_third"
    by (simp add: CheckBlockSignature_def w_node_def w_env_def Block_GetHash_def u_eq_iff w_third_def Block_SetNull_def)
  have pow: "CheckProofOfWork main_limits (u_of_uint64 8 0) (b_nBits w_third)"
  proof -
    let ?k = "length (mpi_body (2 ^ 256 - 1)) - 3"
    have "length (mpi_body (2 ^ 256 - 1)) \<le> Suc 32" by (rule length_mpi_body) simp
    then have "(256 :: int) ^ ?k \<le> 256 ^ 30" by (intro power_increasing) simp_all
    then have "256 ^ ?k \<le> (2 ^ 256 - 1 :: int)" by simp
    then have "0 < (2 ^ 256 - 1 :: int) div 256 ^ ?k" by (simp add: pos_imp_zdiv_pos_iff)
    then have "0 < compact_trunc (2 ^ 256 - 1)" unfolding compact_trunc_def Let_def by (simp add: zero_less_mult_iff)
    moreover have "compact_val (b_nBits w_third) = compact_trunc (2 ^ 256 - 1)" "compact_trunc (2 ^ 256 - 1) \<le> 2 ^ 256 - 1"
      using bnGetCompact_val [of "2 ^ 256 - 1"] w_third_fields(5) by (simp_all add: w_third_def)
    ultimately show ?thesis
      using u_compare(3) [of "u_of_uint64 8 0" "getuint256 int_openssl (compact_trunc (2 ^ 256 - 1))"] wval_getuint256 [OF int_openssl_ok, of "compact_trunc (2 ^ 256 - 1)"]
      by (simp add: CheckProofOfWork_def main_limits_values u_zero8)
  qed
  have f: "b_nTime w_third = 10" "tx_nTime ?tx = 10" "unat MAX_BLOCK_SIZE = 2097152"
    by (simp_all add: w_third_fields w_coinbase_def MAX_BLOCK_SIZE_def)
  show ?thesis
    using root sz pow tx so sg v k unfolding CheckBlock_def Let_def
    by (simp add: nMaxClockDrift_def f w_node_facts)
qed

theorem orphans_consistent_witness:
  "\<exists>s' y'. ProcessBlock w_node 5 w_opts None True w_no_orphans w_two_state w_sync w_third = (Inr (), w_no_orphans, s', y', []) \<and>
    (\<exists>s1 rs s2 y2. preliminary_checks w_node 5 w_no_orphans w_two_state w_sync w_third (u_of_uint64 8 0) = Inr s1 \<and>
      try_blocks w_node 5 w_opts [w_third] s1 w_sync = (Inr () # rs, s2, y2))"
proof -
  obtain s' where a: "AcceptBlock w_node 5 w_opts w_two_state w_sync w_third = (Inr (), s', w_sync)" using w_third_accept by blast
  have m: "mapBlockIndex w_two_state (u_of_uint64 8 0) = None" "mapBlockIndex w_two_state [1, 0, 0, 0, 0, 0, 0, 0] = Some 0"
      "mapBlockIndex w_two_state (hashPrevBlock w_third) = Some 1" "cs_heap w_two_state = w_two"
    by (simp_all add: w_two_state_def w_third_fields u_zero8)
  have y: "hashSyncCheckpoint w_sync = [1, 0, 0, 0, 0, 0, 0, 0]" "u_eq64 (hashPendingCheckpoint w_sync) 0"
    by (simp_all add: w_sync_def u_zero8 u_eq64_def)
  have p: "preliminary_checks w_node 5 w_no_orphans w_two_state w_sync w_third (u_of_uint64 8 0) = Inr w_two_state"
    using w_third_block by (simp add: preliminary_checks_def m w_third_fields duplicate_stake_def) (simp add: w_no_orphans_def)
  have "GetLastBlockIndex w_two 0 False = Some 0" by (subst GetLastBlockIndex.simps) (simp add: w_two_at BlockIndex_default_def)
  then have sp: "spam_check w_node True w_no_orphans w_two_state w_sync w_third (u_of_uint64 8 0) = Inr ()"
    by (simp add: spam_check_def GetLastSyncCheckpoint_def m y enough_proof_def w_third_fields wanted_def WantedByPendingSyncCheckpoint_def Let_def)
  have q: "process_queue w_node 5 w_opts [u_of_uint64 8 0] w_no_orphans s' w_sync = (Inr (), w_no_orphans, s', w_sync)"
    by (simp add: children_of_def w_no_orphans_def)
  have r: "ProcessBlock w_node 5 w_opts None True w_no_orphans w_two_state w_sync w_third = (Inr (), w_no_orphans, s', w_sync, [])"
    using p sp a q m y by (simp add: ProcessBlock_def w_node_facts Let_def ask_pending_def send_checkpoint_def)
  have "orphans_ok (be_hash9 (nd_block w_node)) w_no_orphans" "mapOrphanBlocks w_no_orphans h = None" "mapOrphanBlocksByPrev w_no_orphans = []" for h
    by (simp_all add: orphans_ok_def w_no_orphans_def)
  then obtain s1 cs rs s2 y2 where c: "preliminary_checks w_node 5 w_no_orphans w_two_state w_sync w_third (u_of_uint64 8 0) = Inr s1"
    "try_blocks w_node 5 w_opts (w_third # cs) s1 w_sync = (Inr () # rs, s2, y2)"
    "orphan_round (be_hash9 (nd_block w_node)) {u_of_uint64 8 0} w_no_orphans cs rs w_no_orphans" "mapOrphanBlocksByPrev w_no_orphans = []"
    using orphans_consistent [OF r] by (auto simp: w_node_facts)
  then have "cs = []" by (auto simp: orphan_round_def Let_def)
  then show ?thesis using r c(1,2) by blast
qed

end
