(* ===== verification/WellFormed.thy ===== *)
theory WellFormed
  imports Disk
begin

text \<open>
  What the parsers of src/serialize.h, src/main.h accept: every value they return is well formed, whatever the bytes. A
  value that was read is one that writing and reading again does not change.
\<close>

subsection \<open>Values a reader can return\<close>

definition yields :: "('s \<Rightarrow> bool) \<Rightarrow> ('s \<Rightarrow> ('a \<times> 's) option) \<Rightarrow> ('a \<Rightarrow> bool) \<Rightarrow> bool" where
  "yields ok un P \<longleftrightarrow> (\<forall>s x s'. ok s \<longrightarrow> un s = Some (x, s') \<longrightarrow> ok s' \<and> P x)"

lemma yieldsI: "(\<And>s x s'. ok s \<Longrightarrow> un s = Some (x, s') \<Longrightarrow> ok s' \<and> P x) \<Longrightarrow> yields ok un P"
  by (simp add: yields_def)

lemma yieldsD: "yields ok un P \<Longrightarrow> ok s \<Longrightarrow> un s = Some (x, s') \<Longrightarrow> ok s' \<and> P x"
  unfolding yields_def by blast

lemma yields_weaken: "yields ok un P \<Longrightarrow> (\<And>x. P x \<Longrightarrow> Q x) \<Longrightarrow> yields ok un Q"
  unfolding yields_def by blast

lemma yields_Some: "P x \<Longrightarrow> yields ok (\<lambda>s. Some (x, s)) P"
  by (simp add: yields_def)

lemma yields_bind:
  assumes "yields ok un P" "\<And>x. P x \<Longrightarrow> yields ok (g x) Q"
  shows "yields ok (\<lambda>s. do { (x, s) \<leftarrow> un s; g x s }) Q"
proof (rule yieldsI)
  fix s y s'
  assume ok: "ok s" and e: "(do { (x, s) \<leftarrow> un s; g x s }) = Some (y, s')"
  obtain x s1 where "un s = Some (x, s1)" "g x s1 = Some (y, s')" using e by (cases "un s") auto
  then show "ok s' \<and> Q y" using yieldsD [OF assms(1) ok] yieldsD [OF assms(2)] by blast
qed

lemma yields_if: "(c \<Longrightarrow> yields ok u P) \<Longrightarrow> (\<not> c \<Longrightarrow> yields ok v P) \<Longrightarrow> yields ok (\<lambda>s. if c then u s else v s) P"
  by (cases c) (simp_all add: yields_def)

lemma yields_unser_n: "yields ok un P \<Longrightarrow> yields ok (unser_n un k) (\<lambda>xs. list_all P xs \<and> length xs = k)"
proof (induction k)
  case (Suc k)
  have "yields ok (\<lambda>s. do { (x, s) \<leftarrow> un s; (xs, s) \<leftarrow> unser_n un k s; Some (x # xs, s) }) (\<lambda>xs. list_all P xs \<and> length xs = Suc k)"
    by (rule yields_bind [OF Suc.prems], rule yields_bind [OF Suc.IH [OF Suc.prems]], rule yields_Some) simp
  then show ?case by simp
qed (simp add: yields_def)

lemma yields_vector_loop:
  assumes "yields ok un P" "0 < 5000000 div sz"
  shows "list_all P v \<Longrightarrow> length v = nMid \<Longrightarrow> nMid \<le> nSize \<Longrightarrow>
    yields ok (unser_vector_loop un sz nSize nMid v) (\<lambda>xs. list_all P xs \<and> length xs = nSize)"
proof (induction "nSize - nMid" arbitrary: nMid v rule: less_induct)
  case less
  show ?case
  proof (cases "nMid < nSize")
    case True
    let ?m = "min nSize (nMid + 5000000 div sz)"
    have m: "nSize - ?m < nSize - nMid" "nMid \<le> ?m" "?m \<le> nSize" using True assms(2) by auto
    have "yields ok (\<lambda>s. do { (xs, s) \<leftarrow> unser_n un (?m - length v) s; unser_vector_loop un sz nSize ?m (v @ xs) s })
        (\<lambda>xs. list_all P xs \<and> length xs = nSize)"
      using less.prems m by (intro yields_bind [OF yields_unser_n [OF assms(1)]] less.hyps) auto
    then show ?thesis using True by (subst unser_vector_loop.simps [abs_def]) (simp add: Let_def case_prod_unfold)
  next
    case False
    then show ?thesis using less.prems by (subst unser_vector_loop.simps [abs_def]) (simp add: yields_def)
  qed
qed

context istream begin

lemma yields_rd: "yields ok (\<lambda>s. rd s n) (\<lambda>bs. length bs = n)"
proof (rule yieldsI)
  fix s bs s' assume "ok s" "rd s n = Some (bs, s')"
  then show "ok s' \<and> length bs = n" using rd_ok [of s n] rd_short [of s n] by (cases "n \<le> length (rest s)") auto
qed

lemma yields_READDATA: "yields ok (READDATA rd) (\<lambda>x. True)"
  unfolding READDATA_def by (rule yields_bind [OF yields_rd]) (rule yields_Some, simp)

lemma yields_uint256: "yields ok (unser_uint256 rd) (\<lambda>h. length h = 8)"
  unfolding unser_uint256_def by (rule yields_bind [OF yields_rd]) (rule yields_Some, simp add: length_u_of_bytes)

lemma yields_size: "yields ok (ReadCompactSize rd) (\<lambda>n. n \<le> MAX_SIZE)"
proof -
  show ?thesis unfolding ReadCompactSize_def
  proof (rule yields_bind [OF yields_READDATA])
    fix c :: byte
    have "yields ok (\<lambda>s. if c < 253 then Some (ucast c, s)
             else if c = 253 then do { (xSize :: u16, s) \<leftarrow> READDATA rd s; Some (ucast xSize, s) }
             else if c = 254 then do { (xSize :: u32, s) \<leftarrow> READDATA rd s; Some (ucast xSize, s) }
             else do { (xSize :: u64, s) \<leftarrow> READDATA rd s; Some (xSize, s) }) (\<lambda>n :: u64. True)"
      by (intro yields_if yields_bind [OF yields_READDATA] yields_Some) simp_all
    then show "yields ok (\<lambda>s. do { (n, s) \<leftarrow> (if c < 253 then Some (ucast c, s)
             else if c = 253 then do { (xSize :: u16, s) \<leftarrow> READDATA rd s; Some (ucast xSize, s) }
             else if c = 254 then do { (xSize :: u32, s) \<leftarrow> READDATA rd s; Some (ucast xSize, s) }
             else do { (xSize :: u64, s) \<leftarrow> READDATA rd s; Some (xSize, s) });
             if n > MAX_SIZE then None else Some (n, s) }) (\<lambda>n. n \<le> MAX_SIZE)"
      by (rule yields_bind) (auto simp: yields_def not_less)
  qed
qed

lemma lo32_size: "n \<le> MAX_SIZE \<Longrightarrow> unat (lo32 n) \<le> unat MAX_SIZE"
proof -
  assume "n \<le> MAX_SIZE"
  then have u: "unat n \<le> 0x02000000" unfolding word_le_nat_alt MAX_SIZE_def by simp
  then have "unat (lo32 n) = unat n" by (simp add: unat_lo32)
  then show ?thesis using u by (simp add: MAX_SIZE_def)
qed

lemma yields_string: "yields ok (unser_string rd) (\<lambda>bs. length bs \<le> unat MAX_SIZE)"
  unfolding unser_string_def Let_def
proof (rule yields_bind [OF yields_size])
  fix n :: u64 assume n: "n \<le> MAX_SIZE"
  show "yields ok (\<lambda>s. if lo32 n \<noteq> 0 then rd s (unat (lo32 n)) else Some ([], s)) (\<lambda>bs. length bs \<le> unat MAX_SIZE)"
    using lo32_size [OF n] by (intro yields_if yields_Some yields_weaken [OF yields_rd]) simp_all
qed

lemma yields_vch_loop:
  "length v = i \<Longrightarrow> i \<le> nSize \<Longrightarrow> yields ok (unser_vch_loop rd nSize i v) (\<lambda>bs. length bs = nSize)"
proof (induction "nSize - i" arbitrary: i v rule: less_induct)
  case less
  show ?case
  proof (cases "i < nSize")
    case True
    let ?b = "min (nSize - i) (1 + 4999999 div 1)"
    have b: "0 < ?b" "i + ?b \<le> nSize" using True by auto
    have "yields ok (\<lambda>s. do { (bs, s) \<leftarrow> rd s ?b; unser_vch_loop rd nSize (i + ?b) (v @ bs) s }) (\<lambda>bs. length bs = nSize)"
      using less.prems b True by (intro yields_bind [OF yields_rd] less.hyps) auto
    then show ?thesis using True by (subst unser_vch_loop.simps [abs_def]) (simp add: Let_def)
  next
    case False
    then show ?thesis using less.prems by (subst unser_vch_loop.simps [abs_def]) (simp add: yields_def)
  qed
qed

lemma yields_vch: "yields ok (unser_vch rd) (\<lambda>bs. length bs \<le> unat MAX_SIZE)"
  unfolding unser_vch_def
  by (rule yields_bind [OF yields_size], rule yields_weaken [OF yields_vch_loop]) (simp_all add: lo32_size)

lemma yields_vector:
  assumes "yields ok un P" "0 < 5000000 div sz"
  shows "yields ok (unser_vector rd un sz) (\<lambda>xs. list_all P xs \<and> length xs \<le> unat MAX_SIZE)"
  unfolding unser_vector_def
  by (rule yields_bind [OF yields_size], rule yields_weaken [OF yields_vector_loop [OF assms]]) (simp_all add: lo32_size)

subsection \<open>Transactions and blocks\<close>

lemma yields_CTxIn: "yields ok (unser_CTxIn rd) wf_txin"
proof -
  have "yields ok (unser_COutPoint rd) wf_outpoint" unfolding unser_COutPoint_def
    by (rule yields_bind [OF yields_rd], rule yields_Some) (simp add: wf_outpoint_def length_u_of_bytes)
  then show ?thesis unfolding unser_CTxIn_def
    by (rule yields_bind) (rule yields_bind [OF yields_vch], rule yields_bind [OF yields_READDATA], rule yields_Some, simp add: wf_txin_def)
qed

lemma yields_CTxOut: "yields ok (unser_CTxOut rd) wf_txout"
  unfolding unser_CTxOut_def
  by (rule yields_bind [OF yields_READDATA], rule yields_bind [OF yields_vch], rule yields_Some) (simp add: wf_txout_def)

lemma yields_CTransaction:
  assumes "nType AND SER_GETHASH = 0"
  shows "yields ok (unser_CTransaction rd nType nVersion (Tx_SetNull now)) (\<lambda>tx. wf_tx tx \<and> tx_on_wire tx = tx)"
proof -
  let ?P = "\<lambda>tx. wf_tx tx \<and> tx_on_wire tx = tx" and ?g = "nType AND SER_GETHASH \<noteq> 0"
  let ?tx = "\<lambda>ver t i out l. (Tx_SetNull now)\<lparr>tx_nVersion := ver, tx_nTime := t, vin := i, vout := out, tx_nLockTime := l\<rparr>"
  have w: "?P ((?tx ver t i out l)\<lparr>tx_message := m\<rparr>)"
    if "list_all wf_txin i" "length i \<le> unat MAX_SIZE" "list_all wf_txout out" "length out \<le> unat MAX_SIZE" "length m \<le> unat MAX_SIZE"
      "\<not> 2 \<le>s ver \<Longrightarrow> m = []" for ver t i out l m
    using that by (simp add: wf_tx_def tx_on_wire_def Tx_SetNull_def)
  have f: "yields ok (\<lambda>s. if 2 \<le>s ver
         then do { (m, s) \<leftarrow> unser_string rd s; Some ((?tx ver t i out l)\<lparr>tx_message := m\<rparr>, s) }
         else Some ((?tx ver t i out l)\<lparr>tx_message := []\<rparr>, s)) ?P"
    if "list_all wf_txin i \<and> length i \<le> unat MAX_SIZE" "list_all wf_txout out \<and> length out \<le> unat MAX_SIZE" for ver t i out l
    using that by (intro yields_if yields_bind [OF yields_string] yields_Some w) simp_all
  have sz: "0 < 5000000 div (72 :: nat)" "0 < 5000000 div (32 :: nat)" by simp_all
  have "yields ok (\<lambda>s. do { (ver, s) \<leftarrow> READDATA rd s; (t, s) \<leftarrow> READDATA rd s; (i, s) \<leftarrow> unser_vector rd (unser_CTxIn rd) 72 s;
      (out, s) \<leftarrow> unser_vector rd (unser_CTxOut rd) 32 s; (l, s) \<leftarrow> READDATA rd s;
      if 2 \<le>s ver then do { (m, s) \<leftarrow> unser_string rd s; Some ((?tx ver t i out l)\<lparr>tx_message := m\<rparr>, s) }
      else Some ((?tx ver t i out l)\<lparr>tx_message := []\<rparr>, s) }) ?P"
    by (rule yields_bind [OF yields_READDATA] yields_bind [OF yields_vector [OF yields_CTxIn sz(1)]]
      yields_bind [OF yields_vector [OF yields_CTxOut sz(2)]] f | assumption)+
  moreover have e: "(nType AND SER_GETHASH \<noteq> 0) = False" using assms by simp
  ultimately show ?thesis unfolding unser_CTransaction_def Let_def e not_False_eq_True if_True if_False by simp
qed

lemma yields_CBlock:
  assumes "nType AND (SER_GETHASH OR SER_BLOCKHEADERONLY) = 0" "nType AND SER_GETHASH = 0"
  shows "yields ok (unser_CBlock rd nType now Block_SetNull) (\<lambda>b. wf_block b \<and> block_on_disk b = b)"
proof -
  let ?P = "\<lambda>b. wf_block b \<and> block_on_disk b = b"
  let ?b = "\<lambda>ver prev root t bits nonce txs sig. Block_SetNull\<lparr>b_nVersion := ver, hashPrevBlock := prev, hashMerkleRoot := root, b_nTime := t,
      b_nBits := bits, b_nNonce := nonce, vtx := txs, vchBlockSig := sig\<rparr>"
  have w: "?P ((?b ver prev root t bits nonce txs sig)\<lparr>nBitsMSHA := bm, msha3 := ms, b_message := m\<rparr>)"
    if "length prev = 8" "length root = 8" "list_all (\<lambda>tx. wf_tx tx \<and> tx_on_wire tx = tx) txs" "length txs \<le> unat MAX_SIZE" "length sig \<le> unat MAX_SIZE"
      "length ms \<le> unat MAX_SIZE" "length m \<le> unat MAX_SIZE" "\<not> 5 \<le>s ver \<Longrightarrow> bm = 0 \<and> ms = [] \<and> m = []"
    for ver prev root t bits nonce txs sig bm ms m
    using that by (simp add: wf_block_def block_on_disk_def Block_SetNull_def list_all_iff map_idI)
  have n: "?b ver prev root t bits nonce txs sig = (?b ver prev root t bits nonce txs sig)\<lparr>nBitsMSHA := 0, msha3 := [], b_message := []\<rparr>"
    for ver prev root t bits nonce txs sig
    by (simp add: Block_SetNull_def)
  have f: "yields ok (\<lambda>s. if 5 \<le>s ver
         then do { (bm, s) \<leftarrow> READDATA rd s; (ms, s) \<leftarrow> unser_string rd s; (m, s) \<leftarrow> unser_string rd s;
                   Some ((?b ver prev root t bits nonce txs sig)\<lparr>nBitsMSHA := bm, msha3 := ms, b_message := m\<rparr>, s) }
         else Some ((?b ver prev root t bits nonce txs sig), s)) ?P"
    if "length prev = 8" "length root = 8" "list_all (\<lambda>tx. wf_tx tx \<and> tx_on_wire tx = tx) txs \<and> length txs \<le> unat MAX_SIZE" "length sig \<le> unat MAX_SIZE"
    for ver prev root t bits nonce txs sig
  proof (rule yields_if)
    show "yields ok (\<lambda>s. do { (bm, s) \<leftarrow> READDATA rd s; (ms, s) \<leftarrow> unser_string rd s; (m, s) \<leftarrow> unser_string rd s;
        Some ((?b ver prev root t bits nonce txs sig)\<lparr>nBitsMSHA := bm, msha3 := ms, b_message := m\<rparr>, s) }) ?P" if "5 \<le>s ver"
      by (rule yields_bind [OF yields_READDATA], rule yields_bind [OF yields_string], rule yields_bind [OF yields_string], rule yields_Some, rule w)
        (use \<open>length prev = 8\<close> \<open>length root = 8\<close> \<open>length sig \<le> unat MAX_SIZE\<close> \<open>list_all _ txs \<and> _\<close> that in simp_all)
    show "yields ok (\<lambda>s. Some (?b ver prev root t bits nonce txs sig, s)) ?P"
      by (rule yields_Some, subst (1 2 3) n, rule w) (use that in simp_all)
  qed
  have sz: "0 < 5000000 div (112 :: nat)" by simp
  have "yields ok (\<lambda>s. do { (ver, s) \<leftarrow> READDATA rd s; (prev, s) \<leftarrow> unser_uint256 rd s; (root, s) \<leftarrow> unser_uint256 rd s;
      (t, s) \<leftarrow> READDATA rd s; (bits, s) \<leftarrow> READDATA rd s; (nonce, s) \<leftarrow> READDATA rd s;
      (txs, s) \<leftarrow> unser_vector rd (unser_CTransaction rd nType ver (Tx_SetNull now)) 112 s; (sig, s) \<leftarrow> unser_vch rd s;
      if 5 \<le>s ver
      then do { (bm, s) \<leftarrow> READDATA rd s; (ms, s) \<leftarrow> unser_string rd s; (m, s) \<leftarrow> unser_string rd s;
                Some ((?b ver prev root t bits nonce txs sig)\<lparr>nBitsMSHA := bm, msha3 := ms, b_message := m\<rparr>, s) }
      else Some ((?b ver prev root t bits nonce txs sig), s) }) ?P"
    by (rule yields_bind [OF yields_READDATA] yields_bind [OF yields_uint256] yields_bind [OF yields_vector [OF yields_CTransaction [OF assms(2)] sz]]
      yields_bind [OF yields_vch] f | assumption)+
  moreover have e: "(nType AND (SER_GETHASH OR SER_BLOCKHEADERONLY) \<noteq> 0) = False" using assms by simp
  ultimately show ?thesis unfolding unser_CBlock_def Let_def e not_False_eq_True if_True if_False
    by (simp add: case_prod_unfold cong: if_cong)
qed

end

text \<open>C17. Whatever bytes a peer sends or a block file holds, the block read from them is well formed (32-byte hashes, every length within
  MAX_SIZE) and canonical: storing it and reading it back yields the same block. The same holds of a
  transaction.
\<close>

theorem parsed_values_well_formed:
  assumes "nType AND (SER_GETHASH OR SER_BLOCKHEADERONLY) = 0" "nType AND SER_GETHASH = 0"
  shows "(ds_inv s \<and> unser_CBlock ds_read nType now Block_SetNull s = Some (b, s') \<longrightarrow> wf_block b \<and> block_on_disk b = b) \<and>
    (af_inv f \<and> unser_CBlock af_read nType now Block_SetNull f = Some (b, f') \<longrightarrow> wf_block b \<and> block_on_disk b = b) \<and>
    (ds_inv s \<and> unser_CTransaction ds_read nType v (Tx_SetNull now) s = Some (tx, s') \<longrightarrow> wf_tx tx \<and> tx_on_wire tx = tx)"
  using yieldsD [OF ds.yields_CBlock [OF assms]] yieldsD [OF af.yields_CBlock [OF assms]] yieldsD [OF ds.yields_CTransaction [OF assms(2)]] by blast

theorem parsed_values_well_formed_witness:
  "wf_block (block_on_disk w_block) \<and> block_on_disk (block_on_disk w_block) = block_on_disk w_block"
proof -
  have s: "ds_inv (ds_Init (ser_CBlock SER_DISK w_block) 4 1)" "ds_rest (ds_Init (ser_CBlock SER_DISK w_block) 4 1) = ser_CBlock SER_DISK w_block @ []"
    using ds_inv_Init [of "ser_CBlock SER_DISK w_block" 4 1] w_block_length by simp_all
  from readsE [OF ds.reads_CBlock [OF w_block_wf ser_disk_flags(1), of 5 Block_SetNull] s]
  obtain s' where "unser_CBlock ds_read SER_DISK 5 Block_SetNull (ds_Init (ser_CBlock SER_DISK w_block) 4 1) = Some (block_on_disk w_block, s')"
    unfolding block_on_disk_def Block_SetNull_fields by blast
  then show ?thesis using parsed_values_well_formed [OF ser_disk_flags] s(1) by blast
qed

end
