(* ===== verification/Keystore.thy ===== *)
theory Keystore
  imports Standard
begin

text \<open>
  The key stores of src/keystore.h and src/keystore.cpp: the basic store and the store that can be
  encrypted. A std::map is its list of entries in key order. A key of the key library is its secret with the
  compression flag; \<open>kl_pub\<close> is its public key, and \<open>kl_encrypt\<close> and \<open>kl_decrypt\<close> are EncryptSecret and
  DecryptSecret of src/crypter.cpp, which call OpenSSL.
\<close>

record keylib =
  kl_pub :: "CKey \<Rightarrow> byte list"
  kl_encrypt :: "byte list \<Rightarrow> byte list \<Rightarrow> base_uint \<Rightarrow> byte list option"
  kl_decrypt :: "byte list \<Rightarrow> byte list \<Rightarrow> base_uint \<Rightarrow> byte list option"

subsection \<open>Maps in key order\<close>

fun map_put :: "base_uint \<Rightarrow> 'v \<Rightarrow> (base_uint \<times> 'v) list \<Rightarrow> (base_uint \<times> 'v) list" where
  "map_put k v [] = [(k, v)]"
| "map_put k v ((k', v') # m) =
     (if k = k' then (k, v) # m else if u_lt k k' then (k, v) # (k', v') # m else (k', v') # map_put k v m)"

lemma map_of_put [simp]: "map_of (map_put k v m) = (map_of m)(k \<mapsto> v)"
  by (induction k v m rule: map_put.induct) auto

subsection \<open>The basic store\<close>

record CBasicKeyStore =
  mapKeys :: "(base_uint \<times> CKey) list"
  mapScripts :: "(base_uint \<times> CScript) list"

definition Basic_AddKey :: "crypto \<Rightarrow> keylib \<Rightarrow> ('a CBasicKeyStore_scheme) \<Rightarrow> CKey \<Rightarrow> 'a CBasicKeyStore_scheme" where
  "Basic_AddKey K L s key = s\<lparr>mapKeys := map_put (CPubKey_GetID K (kl_pub L key)) key (mapKeys s)\<rparr>"

definition Basic_HaveKey :: "'a CBasicKeyStore_scheme \<Rightarrow> base_uint \<Rightarrow> bool" where
  "Basic_HaveKey s address \<longleftrightarrow> map_of (mapKeys s) address \<noteq> None"

definition Basic_GetKeys :: "'a CBasicKeyStore_scheme \<Rightarrow> base_uint set" where
  "Basic_GetKeys s = set (map fst (mapKeys s))"

definition Basic_GetKey :: "'a CBasicKeyStore_scheme \<Rightarrow> base_uint \<Rightarrow> CKey option" where
  "Basic_GetKey s address = map_of (mapKeys s) address"

definition GetPubKey :: "keylib \<Rightarrow> (base_uint \<Rightarrow> CKey option) \<Rightarrow> base_uint \<Rightarrow> byte list option" where \<comment> \<open>CKeyStore::GetPubKey\<close>
  "GetPubKey L getKey address = map_option (kl_pub L) (getKey address)"

definition AddCScript :: "crypto \<Rightarrow> 'a CBasicKeyStore_scheme \<Rightarrow> CScript \<Rightarrow> 'a CBasicKeyStore_scheme" where
  "AddCScript K s redeemScript = s\<lparr>mapScripts := map_put (CScript_GetID K redeemScript) redeemScript (mapScripts s)\<rparr>"

definition HaveCScript :: "'a CBasicKeyStore_scheme \<Rightarrow> base_uint \<Rightarrow> bool" where
  "HaveCScript s hsh \<longleftrightarrow> map_of (mapScripts s) hsh \<noteq> None"

definition GetCScript :: "'a CBasicKeyStore_scheme \<Rightarrow> base_uint \<Rightarrow> CScript option" where
  "GetCScript s hsh = map_of (mapScripts s) hsh"

definition basic_store :: "keylib \<Rightarrow> CBasicKeyStore \<Rightarrow> keystore" where
  "basic_store L s =
     \<lparr> ks_HaveKey = Basic_HaveKey s, ks_GetKey = Basic_GetKey s, ks_GetPubKey = GetPubKey L (Basic_GetKey s),
       ks_HaveCScript = HaveCScript s, ks_GetCScript = GetCScript s \<rparr>"

subsection \<open>The encrypted store\<close>

record CCryptoKeyStore = CBasicKeyStore +
  mapCryptedKeys :: "(base_uint \<times> byte list \<times> byte list) list" \<comment> \<open>public key and encrypted secret\<close>
  vMasterKey :: "byte list"
  fUseCrypto :: bool

text \<open>Every operation returns its success and the new state.\<close>

definition IsLocked :: "CCryptoKeyStore \<Rightarrow> bool" where
  "IsLocked s \<longleftrightarrow> fUseCrypto s \<and> vMasterKey s = []"

definition SetCrypted :: "CCryptoKeyStore \<Rightarrow> bool \<times> CCryptoKeyStore" where
  "SetCrypted s = (if fUseCrypto s then (True, s) else if mapKeys s \<noteq> [] then (False, s) else (True, s\<lparr>fUseCrypto := True\<rparr>))"

definition LockStore :: "CCryptoKeyStore \<Rightarrow> bool \<times> CCryptoKeyStore" where
  "LockStore s = (case SetCrypted s of (ok, s) \<Rightarrow> if \<not> ok then (False, s) else (True, s\<lparr>vMasterKey := []\<rparr>))"

text \<open>The key that GetKey and Unlock build from a public key and a secret: compressed if the public key is.\<close>

definition crypted_key :: "keylib \<Rightarrow> (byte list \<Rightarrow> base_uint) \<Rightarrow> byte list \<Rightarrow> byte list \<times> byte list \<Rightarrow> CKey option" where
  "crypted_key L hash master e =
     (case e of (vchPubKey, vchCryptedSecret) \<Rightarrow>
        (case kl_decrypt L master vchCryptedSecret (hash vchPubKey) of None \<Rightarrow> None
         | Some vchSecret \<Rightarrow> if length vchSecret \<noteq> 32 then None else Some (vchSecret, length vchPubKey = 33)))"

definition Unlock :: "crypto \<Rightarrow> keylib \<Rightarrow> byte list \<Rightarrow> CCryptoKeyStore \<Rightarrow> bool \<times> CCryptoKeyStore" where
  "Unlock K L master s =
     (case SetCrypted s of (ok, s) \<Rightarrow>
        if \<not> ok then (False, s)
        else case mapCryptedKeys s of
               [] \<Rightarrow> (True, s\<lparr>vMasterKey := master\<rparr>)
             | (address, vchPubKey, vchCryptedSecret) # _ \<Rightarrow>
                 (case crypted_key L (Hash (cr_sha256 K)) master (vchPubKey, vchCryptedSecret) of
                    None \<Rightarrow> (False, s)
                  | Some key \<Rightarrow> if kl_pub L key = vchPubKey then (True, s\<lparr>vMasterKey := master\<rparr>) else (False, s)))"

definition AddCryptedKey :: "crypto \<Rightarrow> byte list \<Rightarrow> byte list \<Rightarrow> CCryptoKeyStore \<Rightarrow> bool \<times> CCryptoKeyStore" where
  "AddCryptedKey K vchPubKey vchCryptedSecret s =
     (case SetCrypted s of (ok, s) \<Rightarrow>
        if \<not> ok then (False, s)
        else (True, s\<lparr>mapCryptedKeys := map_put (CPubKey_GetID K vchPubKey) (vchPubKey, vchCryptedSecret) (mapCryptedKeys s)\<rparr>))"

definition Crypto_AddKey :: "crypto \<Rightarrow> keylib \<Rightarrow> CCryptoKeyStore \<Rightarrow> CKey \<Rightarrow> bool \<times> CCryptoKeyStore" where
  "Crypto_AddKey K L s key =
     (if \<not> fUseCrypto s then (True, Basic_AddKey K L s key)
      else if IsLocked s then (False, s)
      else let vchPubKey = kl_pub L key
           in case kl_encrypt L (vMasterKey s) (fst key) (Hash (cr_sha256 K) vchPubKey) of
                None \<Rightarrow> (False, s)
              | Some vchCryptedSecret \<Rightarrow> AddCryptedKey K vchPubKey vchCryptedSecret s)"

definition Crypto_HaveKey :: "CCryptoKeyStore \<Rightarrow> base_uint \<Rightarrow> bool" where
  "Crypto_HaveKey s address \<longleftrightarrow>
     (if \<not> fUseCrypto s then Basic_HaveKey s address else map_of (mapCryptedKeys s) address \<noteq> None)"

definition Crypto_GetKeys :: "CCryptoKeyStore \<Rightarrow> base_uint set" where
  "Crypto_GetKeys s = (if \<not> fUseCrypto s then Basic_GetKeys s else set (map fst (mapCryptedKeys s)))"

definition Crypto_GetKey :: "crypto \<Rightarrow> keylib \<Rightarrow> CCryptoKeyStore \<Rightarrow> base_uint \<Rightarrow> CKey option" where
  "Crypto_GetKey K L s address =
     (if \<not> fUseCrypto s then Basic_GetKey s address
      else case map_of (mapCryptedKeys s) address of
             None \<Rightarrow> None | Some e \<Rightarrow> crypted_key L (Hash (cr_sha256 K)) (vMasterKey s) e)"

definition Crypto_GetPubKey :: "crypto \<Rightarrow> keylib \<Rightarrow> CCryptoKeyStore \<Rightarrow> base_uint \<Rightarrow> byte list option" where
  "Crypto_GetPubKey K L s address =
     (if \<not> fUseCrypto s then GetPubKey L (Crypto_GetKey K L s) address
      else map_option fst (map_of (mapCryptedKeys s) address))"

text \<open>The loop of EncryptKeys over mapKeys; it leaves its work so far behind when it fails.\<close>

fun EncryptKeys_loop ::
  "crypto \<Rightarrow> keylib \<Rightarrow> byte list \<Rightarrow> (base_uint \<times> CKey) list \<Rightarrow> CCryptoKeyStore \<Rightarrow> bool \<times> CCryptoKeyStore" where
  "EncryptKeys_loop K L master [] s = (True, s)"
| "EncryptKeys_loop K L master ((address, key) # keys) s =
     (let vchPubKey = kl_pub L key
      in case kl_encrypt L master (fst key) (Hash (cr_sha256 K) vchPubKey) of
           None \<Rightarrow> (False, s)
         | Some vchCryptedSecret \<Rightarrow>
             (case AddCryptedKey K vchPubKey vchCryptedSecret s of (ok, s) \<Rightarrow>
                if \<not> ok then (False, s) else EncryptKeys_loop K L master keys s))"

definition EncryptKeys :: "crypto \<Rightarrow> keylib \<Rightarrow> byte list \<Rightarrow> CCryptoKeyStore \<Rightarrow> bool \<times> CCryptoKeyStore" where
  "EncryptKeys K L master s =
     (if mapCryptedKeys s \<noteq> [] \<or> fUseCrypto s then (False, s)
      else case EncryptKeys_loop K L master (mapKeys s) (s\<lparr>fUseCrypto := True\<rparr>) of (ok, s) \<Rightarrow>
             if \<not> ok then (False, s) else (True, s\<lparr>mapKeys := []\<rparr>))"

definition crypto_store :: "crypto \<Rightarrow> keylib \<Rightarrow> CCryptoKeyStore \<Rightarrow> keystore" where
  "crypto_store K L s =
     \<lparr> ks_HaveKey = Crypto_HaveKey s, ks_GetKey = Crypto_GetKey K L s, ks_GetPubKey = Crypto_GetPubKey K L s,
       ks_HaveCScript = HaveCScript s, ks_GetCScript = GetCScript s \<rparr>"

subsection \<open>The contract of a key store\<close>

text \<open>What signing relies on: an added key is found, and a key that is found is present.\<close>

locale key_store =
  fixes K :: crypto
    and store :: "'s \<Rightarrow> keystore"
    and add :: "'s \<Rightarrow> CKey \<Rightarrow> bool \<times> 's"
    and pub :: "CKey \<Rightarrow> byte list"
    and usable :: "CKey \<Rightarrow> bool"
  assumes add_key: "add s key = (True, s') \<Longrightarrow> usable key \<Longrightarrow>
      ks_GetKey (store s') (CPubKey_GetID K (pub key)) = Some key \<and>
      ks_GetPubKey (store s') (CPubKey_GetID K (pub key)) = Some (pub key)"
    and have_key: "ks_GetKey (store s) address = Some key \<Longrightarrow> ks_HaveKey (store s) address"
begin

lemma added_key_signs:
  assumes "add s key = (True, s')" "usable key" "pubkey_format (pub key)" "length (CPubKey_GetID K (pub key)) = 5"
    "\<And>hsh. \<exists>sg. sign key hsh = Some sg \<and> cr_verify K (pub key) hsh sg \<and> signature_format sg"
  shows "signs K sign (store s') key (pub key)"
  using assms add_key [OF assms(1,2)] by (simp add: signs_def)

lemma added_key_mine:
  assumes "add s key = (True, s')" "usable key"
  shows "IsMine_dest (store s') (CKeyID (CPubKey_GetID K (pub key)))"
  using add_key [OF assms] have_key by fastforce

end

interpretation basic: key_store K "basic_store L" "\<lambda>s key. (True, Basic_AddKey K L s key)" "kl_pub L" "\<lambda>key. True"
  for K L
  by unfold_locales
    (auto simp: basic_store_def Basic_AddKey_def Basic_GetKey_def Basic_HaveKey_def GetPubKey_def)

text \<open>Encryption is documented to be undone by decryption with the same key and initialisation vector, a
  secret has 32 bytes, and a public key has 33 exactly if it is compressed.\<close>

definition key_ok :: "keylib \<Rightarrow> CKey \<Rightarrow> bool" where
  "key_ok L key \<longleftrightarrow> length (fst key) = 32 \<and> (length (kl_pub L key) = 33 \<longleftrightarrow> snd key) \<and>
     (\<forall>master iv c. kl_encrypt L master (fst key) iv = Some c \<longrightarrow> kl_decrypt L master c iv = Some (fst key))"

lemma crypted_key_encrypted:
  "key_ok L key \<Longrightarrow> kl_encrypt L master (fst key) (hash (kl_pub L key)) = Some c \<Longrightarrow>
   crypted_key L hash master (kl_pub L key, c) = Some key"
  by (cases key) (simp add: crypted_key_def key_ok_def)

interpretation crypted: key_store K "crypto_store K L" "Crypto_AddKey K L" "kl_pub L" "key_ok L"
  for K L
proof
  fix s key s'
  assume a: "Crypto_AddKey K L s key = (True, s')" "key_ok L key"
  let ?id = "CPubKey_GetID K (kl_pub L key)"
  show "ks_GetKey (crypto_store K L s') ?id = Some key \<and> ks_GetPubKey (crypto_store K L s') ?id = Some (kl_pub L key)"
  proof (cases "fUseCrypto s")
    case False
    then show ?thesis using a
      by (cases key) (auto simp: Crypto_AddKey_def crypto_store_def Crypto_GetKey_def Crypto_GetPubKey_def Basic_AddKey_def Basic_GetKey_def GetPubKey_def)
  next
    case True
    then obtain c where c: "kl_encrypt L (vMasterKey s) (fst key) (Hash (cr_sha256 K) (kl_pub L key)) = Some c"
        "s' = s\<lparr>mapCryptedKeys := map_put ?id (kl_pub L key, c) (mapCryptedKeys s)\<rparr>"
      using a(1) by (auto simp: Crypto_AddKey_def Let_def AddCryptedKey_def SetCrypted_def split: if_splits option.splits)
    then show ?thesis using True crypted_key_encrypted [OF a(2), where hash = "Hash (cr_sha256 K)", OF c(1)]
      by (simp add: crypto_store_def Crypto_GetKey_def Crypto_GetPubKey_def)
  qed
next
  fix s address key
  assume "ks_GetKey (crypto_store K L s) address = Some key"
  then show "ks_HaveKey (crypto_store K L s) address"
    by (auto simp: crypto_store_def Crypto_GetKey_def Crypto_HaveKey_def Basic_GetKey_def Basic_HaveKey_def split: if_splits option.splits)
qed

subsection \<open>Properties\<close>

text \<open>C31. A key added to a key store signs: with the store unencrypted or unlocked, SignSignature succeeds for the
  script that pays to the key and for the one that pays to its hash, unless there the signature with its hash type is the
  very 20 bytes of that hash, and the wallet considers the destination its own. Of the key library, its formats and that
  signatures verify are assumed: a public key is 33 to 65 bytes that begin with 2, 3 or 4, a signature a DER sequence
  of at most 72 bytes.\<close>

theorem added_key_can_spend:
  assumes "Crypto_AddKey K L s key = (True, s')" "key_ok L key" "pubkey_format (kl_pub L key)"
    "length (CPubKey_GetID K (kl_pub L key)) = 5" "nIn < length (vin tx)"
    "\<And>hsh. \<exists>sg. sign key hsh = Some sg \<and> cr_verify K (kl_pub L key) hsh sg \<and> signature_format sg"
  shows "((\<exists>tx1. SignSignature K sign (crypto_store K L s') (SetDestination (CKeyID (CPubKey_GetID K (kl_pub L key)))) tx nIn
        (ucast (b :: byte)) = Some (True, tx1)) \<or>
      (\<exists>sg. sign key (SignatureHash (cr_sha256 K) (SetDestination (CKeyID (CPubKey_GetID K (kl_pub L key)))) tx nIn (ucast b)) = Some sg \<and>
         sg @ [b] = u_bytes (CPubKey_GetID K (kl_pub L key)))) \<and>
    (\<exists>tx2. SignSignature K sign (crypto_store K L s') (push_opcode (push_vch [] (kl_pub L key)) OP_CHECKSIG) tx nIn
        (ucast b) = Some (True, tx2)) \<and>
    IsMine_dest (crypto_store K L s') (CKeyID (CPubKey_GetID K (kl_pub L key)))"
proof -
  have "signs K sign (crypto_store K L s') key (kl_pub L key)"
    using assms(6) by (intro crypted.added_key_signs [OF assms(1-4)]) blast
  then show ?thesis
    using sign_keyhash [OF _ assms(5)] sign_pubkey [OF _ assms(5)] crypted.added_key_mine [OF assms(1,2)] by blast
qed

definition toy_lib :: keylib where
  "toy_lib = \<lparr> kl_pub = (\<lambda>key. 2 # fst key), kl_encrypt = (\<lambda>m s iv. Some s), kl_decrypt = (\<lambda>m c iv. Some c) \<rparr>"

definition empty_store :: CCryptoKeyStore where
  "empty_store = \<lparr> mapKeys = [], mapScripts = [], mapCryptedKeys = [], vMasterKey = [], fUseCrypto = False \<rparr>"

definition toy_key :: CKey where "toy_key = (replicate 32 7, True)"

lemma toy_key_ok: "key_ok toy_lib toy_key" "length (kl_pub toy_lib toy_key) = 33"
  by (simp_all add: key_ok_def toy_lib_def toy_key_def)

lemma toy_crypto_id: "length (CPubKey_GetID toy_crypto vch) = 5"
  by (simp add: CPubKey_GetID_def Hash160_def env_of_def toy_crypto_def length_u_of_bytes min_def) arith

definition one_input_tx :: CTransaction where
  "one_input_tx = \<lparr>tx_nVersion = 1, tx_nVersionCompat = 1, tx_nTime = 0, vin = [TxIn_default], vout = [],
     tx_nLockTime = 0, tx_message = [], tx_nDoS = 0\<rparr>"

definition toy_sign :: sign_fun where "toy_sign key hsh = Some (0x30 # kl_pub toy_lib key)"

theorem added_key_can_spend_witness:
  "\<exists>tx1. SignSignature toy_crypto toy_sign
     (crypto_store toy_crypto toy_lib (snd (Crypto_AddKey toy_crypto toy_lib empty_store toy_key)))
     (SetDestination (CKeyID (CPubKey_GetID toy_crypto (kl_pub toy_lib toy_key)))) one_input_tx 0 (ucast (1 :: byte)) = Some (True, tx1)"
proof -
  have a: "Crypto_AddKey toy_crypto toy_lib empty_store toy_key =
      (True, snd (Crypto_AddKey toy_crypto toy_lib empty_store toy_key))"
    by (simp add: Crypto_AddKey_def empty_store_def)
  have n: "0 < length (vin one_input_tx)" by (simp add: one_input_tx_def)
  have v: "\<exists>sg. toy_sign toy_key hsh = Some sg \<and> cr_verify toy_crypto (kl_pub toy_lib toy_key) hsh sg \<and> signature_format sg" for hsh
    using toy_key_ok(2) by (simp add: toy_sign_def toy_crypto_def signature_format_def)
  have f: "pubkey_format (kl_pub toy_lib toy_key)" using toy_key_ok(2) by (simp add: pubkey_format_def) (simp add: toy_lib_def)
  have ne: "sg @ [1] \<noteq> u_bytes (CPubKey_GetID toy_crypto (kl_pub toy_lib toy_key))" if "toy_sign toy_key hsh = Some sg" for sg hsh
  proof
    assume "sg @ [1] = u_bytes (CPubKey_GetID toy_crypto (kl_pub toy_lib toy_key))"
    then have "length (sg @ [1]) = 20" using toy_crypto_id by (simp add: length_u_bytes)
    then show False using that toy_key_ok(2) by (auto simp: toy_sign_def)
  qed
  show ?thesis using added_key_can_spend [where sign = toy_sign and b = 1, OF a toy_key_ok(1) f toy_crypto_id n v] ne by blast
qed

definition store_wf :: "crypto \<Rightarrow> keylib \<Rightarrow> (base_uint \<times> CKey) list \<Rightarrow> bool" where
  "store_wf K L keys \<longleftrightarrow> distinct (map fst keys) \<and>
     (\<forall>(address, key) \<in> set keys. address = CPubKey_GetID K (kl_pub L key) \<and> key_ok L key)"

definition encrypted_as :: "crypto \<Rightarrow> keylib \<Rightarrow> byte list \<Rightarrow> CKey \<Rightarrow> byte list \<times> byte list \<Rightarrow> bool" where
  "encrypted_as K L master key e \<longleftrightarrow>
     fst e = kl_pub L key \<and> kl_encrypt L master (fst key) (Hash (cr_sha256 K) (kl_pub L key)) = Some (snd e)"

lemma EncryptKeys_loop_spec:
  assumes "EncryptKeys_loop K L master keys s = (True, s')" "fUseCrypto s" "store_wf K L keys"
  shows "fUseCrypto s' \<and> vMasterKey s' = vMasterKey s \<and> mapScripts s' = mapScripts s \<and>
    (\<forall>a. case map_of keys a of
       None \<Rightarrow> map_of (mapCryptedKeys s') a = map_of (mapCryptedKeys s) a
     | Some key \<Rightarrow> \<exists>e. map_of (mapCryptedKeys s') a = Some e \<and> encrypted_as K L master key e)"
  using assms
proof (induction keys arbitrary: s)
  case (Cons ak keys)
  obtain a0 key where ak: "ak = (a0, key)" by (cases ak)
  have wf: "store_wf K L keys" "a0 = CPubKey_GetID K (kl_pub L key)" "a0 \<notin> fst ` set keys" "map_of keys a0 = None"
    using Cons.prems(3) ak by (auto simp: store_wf_def map_of_eq_None_iff)
  obtain c where c: "kl_encrypt L master (fst key) (Hash (cr_sha256 K) (kl_pub L key)) = Some c"
      "EncryptKeys_loop K L master keys (s\<lparr>mapCryptedKeys := map_put a0 (kl_pub L key, c) (mapCryptedKeys s)\<rparr>) = (True, s')"
    using Cons.prems(1,2) wf(2) ak by (auto simp: AddCryptedKey_def SetCrypted_def Let_def split: option.splits)
  from Cons.IH [OF c(2) _ wf(1)] Cons.prems(2)
  have ih: "fUseCrypto s' \<and> vMasterKey s' = vMasterKey s \<and> mapScripts s' = mapScripts s \<and>
    (\<forall>a. case map_of keys a of
       None \<Rightarrow> map_of (mapCryptedKeys s') a = ((map_of (mapCryptedKeys s))(a0 \<mapsto> (kl_pub L key, c))) a
     | Some key \<Rightarrow> \<exists>e. map_of (mapCryptedKeys s') a = Some e \<and> encrypted_as K L master key e)" by (simp cong: option.case_cong)
  have "encrypted_as K L master key (kl_pub L key, c)" using c(1) by (simp add: encrypted_as_def)
  moreover have "map_of (mapCryptedKeys s') a0 = Some (kl_pub L key, c)" using ih wf(4) by (auto dest: spec [of _ a0])
  ultimately have "case map_of (ak # keys) a of
       None \<Rightarrow> map_of (mapCryptedKeys s') a = map_of (mapCryptedKeys s) a
     | Some key \<Rightarrow> \<exists>e. map_of (mapCryptedKeys s') a = Some e \<and> encrypted_as K L master key e" for a
  proof (cases "a = a0")
    case False
    then show ?thesis using ih ak by (auto dest!: spec [of _ a] split: option.splits)
  qed (auto simp: ak)
  then show ?case using ih by blast
qed simp

text \<open>C30. Encrypting the wallet loses no key: after EncryptKeys the plain keys are gone and the store is locked;
  unlocking it with the same master key succeeds, and then every address yields the key it had.\<close>

theorem encrypt_unlock_keeps_keys:
  assumes "EncryptKeys K L master s = (True, s')" "store_wf K L (mapKeys s)" "vMasterKey s = []"
  shows "mapKeys s' = [] \<and> IsLocked s' \<and> fst (Unlock K L master s') \<and>
    (\<forall>address. Crypto_GetKey K L (snd (Unlock K L master s')) address = Crypto_GetKey K L s address) \<and>
    (\<forall>address. Crypto_HaveKey s' address = Crypto_HaveKey s address)"
proof -
  obtain s1 where s1: "EncryptKeys_loop K L master (mapKeys s) (s\<lparr>fUseCrypto := True\<rparr>) = (True, s1)" "s' = s1\<lparr>mapKeys := []\<rparr>"
      "mapCryptedKeys s = []" "\<not> fUseCrypto s"
    using assms(1) by (auto simp: EncryptKeys_def split: if_splits prod.splits)
  have l: "fUseCrypto s'" "vMasterKey s' = []" and m: "\<And>a. case map_of (mapKeys s) a of
       None \<Rightarrow> map_of (mapCryptedKeys s') a = None
     | Some key \<Rightarrow> \<exists>e. map_of (mapCryptedKeys s') a = Some e \<and> encrypted_as K L master key e"
    using EncryptKeys_loop_spec [OF s1(1) _ assms(2)] s1(2-4) assms(3) by (simp_all cong: option.case_cong)
  have dec: "crypted_key L (Hash (cr_sha256 K)) master e = Some key"
    if "map_of (mapKeys s) a = Some key" "encrypted_as K L master key e" for a key e
  proof -
    have "key_ok L key" using map_of_SomeD [OF that(1)] assms(2) by (auto simp: store_wf_def)
    moreover have "e = (kl_pub L key, snd e)" using that(2) by (cases e) (simp add: encrypted_as_def)
    ultimately show ?thesis using crypted_key_encrypted that(2) by (metis encrypted_as_def)
  qed
  have un: "Unlock K L master s' = (True, s'\<lparr>vMasterKey := master\<rparr>)"
  proof (cases "mapCryptedKeys s'")
    case Nil
    then show ?thesis using l by (simp add: Unlock_def SetCrypted_def)
  next
    case (Cons e es)
    obtain a p c where e: "e = (a, p, c)" by (cases e)
    have "map_of (mapCryptedKeys s') a = Some (p, c)" using Cons e by simp
    then obtain key where "map_of (mapKeys s) a = Some key" "encrypted_as K L master key (p, c)"
      using m [of a] by (cases "map_of (mapKeys s) a") auto
    then show ?thesis using l Cons e dec by (auto simp: Unlock_def SetCrypted_def encrypted_as_def)
  qed
  have "Crypto_GetKey K L (s'\<lparr>vMasterKey := master\<rparr>) a = Crypto_GetKey K L s a" for a
    using m [of a] dec [of a] s1(4) l by (auto simp: Crypto_GetKey_def Basic_GetKey_def split: option.splits)
  moreover have "Crypto_HaveKey s' a = Crypto_HaveKey s a" for a
    using m [of a] s1(4) l by (auto simp: Crypto_HaveKey_def Basic_HaveKey_def split: option.splits)
  ultimately show ?thesis using un l s1(2) by (simp add: IsLocked_def)
qed

theorem encrypt_unlock_keeps_keys_witness:
  "\<exists>s'. EncryptKeys toy_crypto toy_lib [1] (Basic_AddKey toy_crypto toy_lib empty_store toy_key) = (True, s') \<and> IsLocked s'"
proof -
  let ?s = "Basic_AddKey toy_crypto toy_lib empty_store toy_key"
  have "\<exists>s'. EncryptKeys toy_crypto toy_lib [1] ?s = (True, s')"
    by (simp add: EncryptKeys_def Basic_AddKey_def empty_store_def toy_key_def toy_lib_def AddCryptedKey_def SetCrypted_def Let_def)
  moreover have "store_wf toy_crypto toy_lib (mapKeys ?s)" "vMasterKey ?s = []"
    using toy_key_ok by (simp_all add: store_wf_def Basic_AddKey_def empty_store_def)
  ultimately show ?thesis using encrypt_unlock_keeps_keys [of toy_crypto toy_lib "[1]" ?s] by blast
qed

end
