(* ===== verification/Base58.thy ===== *)
theory Base58
  imports Standard Encodings
begin

text \<open>
  src/base58.h: base-58 text of byte vectors (through OpenSSL's integers), the variant with a
  four-byte checksum, and the versioned data built on it: addresses and secret keys. A thrown
  bignum_error is None. A std::string handed over as a C string ends at its first NUL.
\<close>

subsection \<open>Base 58\<close>

definition pszBase58 :: string where
  "pszBase58 = ''123456789ABCDEFGHJKLMNPQRSTUVWXYZabcdefghijkmnopqrstuvwxyz''"

fun strchr :: "string \<Rightarrow> char \<Rightarrow> nat option" where \<comment> \<open>the offset of the character found\<close>
  "strchr [] c = None"
| "strchr (x # xs) c = (if x = c then Some 0 else map_option Suc (strchr xs c))"

text \<open>The digit pszBase58[c]; the index of the terminating NUL is the last one that may be read.\<close>

partial_function (option) EncodeBase58_loop ::
  "'bn openssl \<Rightarrow> 'bn \<Rightarrow> 'bn \<Rightarrow> 'bn \<Rightarrow> string \<Rightarrow> string option" where
  "EncodeBase58_loop B bn58 bn0 bn str =
     (if bn_gt B bn bn0
      then Option.bind (BN_div B bn bn58) (\<lambda>dr.
             let c = lo32 (getulong B (snd dr))
             in if unat c \<le> 58
                then EncodeBase58_loop B bn58 bn0 (fst dr) (str @ [(pszBase58 @ [CHR 0x00]) ! unat c])
                else None)
      else Some str)"

definition EncodeBase58 :: "'bn openssl \<Rightarrow> byte list \<Rightarrow> string option" where
  "EncodeBase58 B vch =
     do { bn58 \<leftarrow> bn_of_int32 B 58;
          bn0 \<leftarrow> bn_of_int32 B 0;
          let vchTmp = rev vch @ [0];
              bn = setvch B vchTmp
          in do { str \<leftarrow> EncodeBase58_loop B bn58 bn0 bn [];
                  let str = str @ map (\<lambda>_. pszBase58 ! 0) (takeWhile (\<lambda>p. p = 0) vch)
                  in Some (rev str) } }"

text \<open>The inner None is the early \<open>return false\<close>.\<close>

fun DecodeBase58_loop :: "'bn openssl \<Rightarrow> 'bn \<Rightarrow> 'bn \<Rightarrow> string \<Rightarrow> 'bn option option" where
  "DecodeBase58_loop B bn58 bn [] = Some (Some bn)"
| "DecodeBase58_loop B bn58 bn (c # p) =
     (case strchr pszBase58 c of
        None \<Rightarrow> (if dropWhile c_isspace (c # p) \<noteq> [] then Some None else Some (Some bn))
      | Some p1 \<Rightarrow>
          do { bnChar \<leftarrow> setulong B (word_of_nat p1);
               bn1 \<leftarrow> BN_mul B bn bn58;
               bn2 \<leftarrow> BN_add B bn1 bnChar;
               DecodeBase58_loop B bn58 bn2 p })"

definition trim_sign_byte :: "byte list \<Rightarrow> byte list" where
  "trim_sign_byte vchTmp =
     (if length vchTmp \<ge> 2 \<and> vchTmp ! (length vchTmp - 1) = 0 \<and> vchTmp ! (length vchTmp - 2) \<ge> 0x80
      then take (length vchTmp - 1) vchTmp else vchTmp)"

definition DecodeBase58 :: "'bn openssl \<Rightarrow> string \<Rightarrow> (bool \<times> byte list) option" where \<comment> \<open>psz without its NUL\<close>
  "DecodeBase58 B psz =
     do { bn58 \<leftarrow> bn_of_int32 B 58;
          bn \<leftarrow> bn_of_int32 B 0;
          let psz = dropWhile c_isspace psz
          in do { r \<leftarrow> DecodeBase58_loop B bn58 bn psz;
                  case r of
                    None \<Rightarrow> Some (False, [])
                  | Some bn \<Rightarrow>
                      let vchTmp = trim_sign_byte (getvch B bn);
                          nLeadingZeros = length (takeWhile (\<lambda>c. c = pszBase58 ! 0) psz)
                      in Some (True, replicate nLeadingZeros 0 @ rev vchTmp) } }"

definition DecodeBase58_string :: "'bn openssl \<Rightarrow> string \<Rightarrow> (bool \<times> byte list) option" where
  "DecodeBase58_string B str = DecodeBase58 B (c_str str)"

subsection \<open>With a checksum\<close>

definition EncodeBase58Check :: "'bn openssl \<Rightarrow> sha256 \<Rightarrow> byte list \<Rightarrow> string option" where
  "EncodeBase58Check B sha vchIn = EncodeBase58 B (vchIn @ take 4 (u_bytes (Hash sha vchIn)))"

definition DecodeBase58Check :: "'bn openssl \<Rightarrow> sha256 \<Rightarrow> string \<Rightarrow> (bool \<times> byte list) option" where
  "DecodeBase58Check B sha psz =
     do { r \<leftarrow> DecodeBase58 B psz;
          let vchRet = snd r
          in if \<not> fst r then Some (False, vchRet)
             else if length vchRet < 4 then Some (False, [])
             else let n = length vchRet - 4
                  in if take 4 (u_bytes (Hash sha (take n vchRet))) \<noteq> drop n vchRet then Some (False, [])
                     else Some (True, take n vchRet) }"

subsection \<open>Versioned data\<close>

record CBase58Data =
  d_nVersion :: byte
  vchData :: "byte list"

definition Base58Data_init :: CBase58Data where
  "Base58Data_init = \<lparr> d_nVersion = 0, vchData = [] \<rparr>"

definition SetData :: "CBase58Data \<Rightarrow> int \<Rightarrow> byte list \<Rightarrow> CBase58Data" where
  "SetData d nVersionIn pdata = d\<lparr> d_nVersion := word_of_int nVersionIn, vchData := pdata \<rparr>"

definition Data_SetString :: "'bn openssl \<Rightarrow> sha256 \<Rightarrow> CBase58Data \<Rightarrow> string \<Rightarrow> (bool \<times> CBase58Data) option" where
  "Data_SetString B sha d psz =
     do { r \<leftarrow> DecodeBase58Check B sha psz;
          case snd r of
            [] \<Rightarrow> Some (False, d\<lparr> vchData := [], d_nVersion := 0 \<rparr>)
          | v # vch \<Rightarrow> Some (True, d\<lparr> d_nVersion := v, vchData := vch \<rparr>) }"

definition Data_ToString :: "'bn openssl \<Rightarrow> sha256 \<Rightarrow> CBase58Data \<Rightarrow> string option" where
  "Data_ToString B sha d = EncodeBase58Check B sha (d_nVersion d # vchData d)"

definition CompareTo :: "CBase58Data \<Rightarrow> CBase58Data \<Rightarrow> int" where
  "CompareTo d b58 =
     (if d_nVersion d < d_nVersion b58 then - 1
      else if d_nVersion d > d_nVersion b58 then 1
      else if vchData d < vchData b58 then - 1
      else if vchData d > vchData b58 then 1
      else 0)"

definition Data_eq :: "CBase58Data \<Rightarrow> CBase58Data \<Rightarrow> bool" where "Data_eq a b \<longleftrightarrow> CompareTo a b = 0"
definition Data_le :: "CBase58Data \<Rightarrow> CBase58Data \<Rightarrow> bool" where "Data_le a b \<longleftrightarrow> CompareTo a b \<le> 0"
definition Data_ge :: "CBase58Data \<Rightarrow> CBase58Data \<Rightarrow> bool" where "Data_ge a b \<longleftrightarrow> CompareTo a b \<ge> 0"
definition Data_lt :: "CBase58Data \<Rightarrow> CBase58Data \<Rightarrow> bool" where "Data_lt a b \<longleftrightarrow> CompareTo a b < 0"
definition Data_gt :: "CBase58Data \<Rightarrow> CBase58Data \<Rightarrow> bool" where "Data_gt a b \<longleftrightarrow> CompareTo a b > 0"

subsection \<open>Addresses\<close>

definition PUBKEY_ADDRESS :: int where "PUBKEY_ADDRESS = 63"
definition SCRIPT_ADDRESS :: int where "SCRIPT_ADDRESS = 85"
definition PUBKEY_ADDRESS_TEST :: int where "PUBKEY_ADDRESS_TEST = 111"
definition SCRIPT_ADDRESS_TEST :: int where "SCRIPT_ADDRESS_TEST = 196"

fun Address_Set :: "bool \<Rightarrow> CBase58Data \<Rightarrow> CTxDestination \<Rightarrow> bool \<times> CBase58Data" where \<comment> \<open>fTestNet first\<close>
  "Address_Set fTestNet d (CKeyID keyID) =
     (True, SetData d (if fTestNet then PUBKEY_ADDRESS_TEST else PUBKEY_ADDRESS) (take 20 (u_bytes keyID)))"
| "Address_Set fTestNet d (CScriptID scriptID) =
     (True, SetData d (if fTestNet then SCRIPT_ADDRESS_TEST else SCRIPT_ADDRESS) (take 20 (u_bytes scriptID)))"
| "Address_Set fTestNet d CNoDestination = (False, d)"

definition Address_IsValid :: "bool \<Rightarrow> CBase58Data \<Rightarrow> bool" where
  "Address_IsValid fTestNet d =
     (let v = uint (d_nVersion d); nExpectedSize = 20
      in if v = PUBKEY_ADDRESS \<or> v = SCRIPT_ADDRESS
         then False = fTestNet \<and> length (vchData d) = nExpectedSize
         else if v = PUBKEY_ADDRESS_TEST \<or> v = SCRIPT_ADDRESS_TEST
         then True = fTestNet \<and> length (vchData d) = nExpectedSize
         else False)"

definition Address_Get :: "bool \<Rightarrow> CBase58Data \<Rightarrow> CTxDestination" where
  "Address_Get fTestNet d =
     (let v = uint (d_nVersion d)
      in if \<not> Address_IsValid fTestNet d then CNoDestination
         else if v = PUBKEY_ADDRESS \<or> v = PUBKEY_ADDRESS_TEST then CKeyID (u_of_bytes (take 20 (vchData d)))
         else if v = SCRIPT_ADDRESS \<or> v = SCRIPT_ADDRESS_TEST then CScriptID (u_of_bytes (take 20 (vchData d)))
         else CNoDestination)"

definition Address_GetKeyID :: "bool \<Rightarrow> CBase58Data \<Rightarrow> base_uint option" where
  "Address_GetKeyID fTestNet d =
     (let v = uint (d_nVersion d)
      in if \<not> Address_IsValid fTestNet d then None
         else if v = PUBKEY_ADDRESS \<or> v = PUBKEY_ADDRESS_TEST then Some (u_of_bytes (take 20 (vchData d)))
         else None)"

definition Address_IsScript :: "bool \<Rightarrow> CBase58Data \<Rightarrow> bool" where
  "Address_IsScript fTestNet d =
     (let v = uint (d_nVersion d)
      in if \<not> Address_IsValid fTestNet d then False
         else v = SCRIPT_ADDRESS \<or> v = SCRIPT_ADDRESS_TEST)"

subsection \<open>Secret keys\<close>

definition SetSecret :: "bool \<Rightarrow> CBase58Data \<Rightarrow> byte list \<Rightarrow> bool \<Rightarrow> CBase58Data option" where \<comment> \<open>None: the assert\<close>
  "SetSecret fTestNet d vchSecret fCompressed =
     (if length vchSecret \<noteq> 32 then None
      else let d = SetData d (128 + (if fTestNet then PUBKEY_ADDRESS_TEST else PUBKEY_ADDRESS)) vchSecret
           in Some (if fCompressed then d\<lparr> vchData := vchData d @ [1] \<rparr> else d))"

definition GetSecret :: "CBase58Data \<Rightarrow> (byte list \<times> bool) option" where \<comment> \<open>None: memcpy reads past the end\<close>
  "GetSecret d =
     (if length (vchData d) < 32 then None
      else Some (take 32 (vchData d), length (vchData d) = 33))"

definition Secret_IsValid :: "bool \<Rightarrow> CBase58Data \<Rightarrow> bool" where
  "Secret_IsValid fTestNet d =
     (let v = uint (d_nVersion d);
          sized = (length (vchData d) = 32 \<or> (length (vchData d) = 33 \<and> vchData d ! 32 = 1))
      in if v = 128 + PUBKEY_ADDRESS then False = fTestNet \<and> sized
         else if v = 128 + PUBKEY_ADDRESS_TEST then True = fTestNet \<and> sized
         else False)"

definition Secret_SetString :: "'bn openssl \<Rightarrow> sha256 \<Rightarrow> bool \<Rightarrow> CBase58Data \<Rightarrow> string \<Rightarrow> (bool \<times> CBase58Data) option" where
  "Secret_SetString B sha fTestNet d pszSecret =
     do { r \<leftarrow> Data_SetString B sha d pszSecret;
          Some (fst r \<and> Secret_IsValid fTestNet (snd r), snd r) }"

subsection \<open>Positional numbers\<close>

fun radix :: "nat \<Rightarrow> nat \<Rightarrow> nat list" where \<comment> \<open>least significant digit first\<close>
  "radix b n = (if n = 0 \<or> b < 2 then [] else n mod b # radix b (n div b))"

declare radix.simps [simp del]

fun radix_val :: "nat \<Rightarrow> nat list \<Rightarrow> nat" where
  "radix_val b [] = 0"
| "radix_val b (d # ds) = d + b * radix_val b ds"

lemma radix_0 [simp]: "radix b 0 = []"
  by (simp add: radix.simps)

lemma radix_step: "0 < n \<Longrightarrow> 2 \<le> b \<Longrightarrow> radix b n = n mod b # radix b (n div b)"
  by (subst radix.simps) simp

lemma radix_val_radix: "2 \<le> b \<Longrightarrow> radix_val b (radix b n) = n"
proof (induction b n rule: radix.induct)
  case (1 b n)
  then show ?case by (cases "n = 0") (simp_all add: radix_step)
qed

lemma radix_digits: "2 \<le> b \<Longrightarrow> d \<in> set (radix b n) \<Longrightarrow> d < b"
  by (induction b n rule: radix.induct) (subst (asm) (2) radix.simps, auto split: if_splits)

lemma radix_last: "2 \<le> b \<Longrightarrow> 0 < n \<Longrightarrow> radix b n \<noteq> [] \<and> last (radix b n) \<noteq> 0"
proof (induction b n rule: radix.induct)
  case (1 b n)
  show ?case
  proof (cases "n div b = 0")
    case True
    then show ?thesis using 1 by (simp add: radix_step div_eq_0_iff)
  next
    case False
    then show ?thesis using 1 by (simp add: radix_step)
  qed
qed

lemma radix_val_0: "radix_val b ds = 0 \<Longrightarrow> ds = [] \<or> last ds = 0 \<or> b = 0"
  by (induction ds) auto

lemma radix_radix_val:
  "2 \<le> b \<Longrightarrow> \<forall>d\<in>set ds. d < b \<Longrightarrow> (ds = [] \<or> last ds \<noteq> 0) \<Longrightarrow> radix b (radix_val b ds) = ds"
proof (induction ds)
  case (Cons d ds)
  have "ds = [] \<or> last ds \<noteq> 0" using Cons.prems(3) by (auto split: if_splits)
  then have ih: "radix b (radix_val b ds) = ds" using Cons by simp
  have pos: "0 < d + b * radix_val b ds"
    using Cons.prems radix_val_0 [of b ds] \<open>ds = [] \<or> last ds \<noteq> 0\<close> by (cases "ds = []") (auto split: if_splits)
  show ?case using pos Cons.prems ih by (simp add: radix_step)
qed simp

lemma radix_val_append: "radix_val b (xs @ ys) = radix_val b xs + b ^ length xs * radix_val b ys"
  by (induction xs) (simp_all add: algebra_simps)

lemma wval_radix: "wval bs = radix_val 256 (map unat (bs :: byte list))"
  by (induction bs) simp_all

lemma le_bytes_wval:
  assumes "bs = [] \<or> last bs \<noteq> 0"
  shows "le_bytes (wval bs) = bs"
  using assms
proof (induction bs)
  case (Cons b bs)
  have ih: "le_bytes (wval bs) = bs" using Cons by (cases "bs = []") auto
  have "wval bs = 0 \<Longrightarrow> bs = []" using ih by (metis le_bytes.simps)
  then have "0 < unat b + 256 * wval bs" using Cons.prems by (cases "bs = []") (auto simp: unat_gt_0)
  moreover have "unat b < 256" using unat_lt_2p [of b] by simp
  moreover have "word_of_nat (unat b + 256 * wval bs) = b"
    using word_of_nat_eq_iff [of "unat b + 256 * wval bs" "unat b", where ?'a = 8] by (simp add: take_bit_eq_mod mod_mult_self2)
  ultimately show ?case using ih by (subst le_bytes.simps) simp
qed (simp add: le_bytes.simps)

subsection \<open>The alphabet\<close>

lemma strchr_nth: "distinct xs \<Longrightarrow> i < length xs \<Longrightarrow> strchr xs (xs ! i) = Some i"
  by (induction xs arbitrary: i) (auto simp: nth_Cons split: nat.splits)

lemma strchr_Some: "strchr xs c = Some i \<Longrightarrow> i < length xs \<and> xs ! i = c"
  by (induction xs arbitrary: i) (auto split: if_splits)

lemma strchr_None: "strchr xs c = None \<longleftrightarrow> c \<notin> set xs"
  by (induction xs) auto

lemma alphabet: "distinct pszBase58" "length pszBase58 = 58"
  by (simp_all add: pszBase58_def)

lemma alphabet_nospace: "c \<in> set pszBase58 \<Longrightarrow> \<not> c_isspace c \<and> c \<noteq> CHR 0x00"
  by (auto simp: pszBase58_def c_isspace_def)


subsection \<open>What the codec computes\<close>

abbreviation b58_text :: "nat list \<Rightarrow> string" where
  "b58_text ds \<equiv> map (\<lambda>d. pszBase58 ! d) ds"

lemma EncodeBase58_loop_radix:
  assumes "openssl_ok B val" "val bn0 = 0" "val bn58 = 58" "val bn = int n"
  shows "EncodeBase58_loop B bn58 bn0 bn str = Some (str @ b58_text (radix 58 n))"
  using assms(4)
proof (induction n arbitrary: bn str rule: less_induct)
  case (less n)
  show ?case
  proof (cases "n = 0")
    case True
    then show ?thesis using less.prems assms(2)
      by (subst EncodeBase58_loop.simps) (simp add: bn_gt_def openssl_okD(7) [OF assms(1)])
  next
    case False
    have d: "trunc_div (int n) 58 = int (n div 58)" by (simp add: trunc_div_nonneg zdiv_int)
    obtain q r where qr: "BN_div B bn bn58 = Some (q, r)" "val q = int (n div 58)"
        "val r = int n - 58 * int (n div 58)"
    proof -
      have "val bn58 \<noteq> 0" using assms(3) by simp
      then show thesis using assms(1) that less.prems d assms(3) unfolding openssl_ok_def by metis
    qed
    have r: "val r = int (n mod 58)" using qr(3) by (simp add: zmod_int minus_mult_div_eq_mod [symmetric])
    have m: "n mod 58 < 58" by simp
    then have "getulong B r = word_of_nat (n mod 58)"
      by (simp add: getulong_def openssl_okD(6) [OF assms(1)] r)
    then have c: "unat (lo32 (getulong B r)) = n mod 58" using m by (simp add: unat_lo32 unat_of_nat)
    have "n div 58 < n" using False by simp
    note IH = less.IH [OF this qr(2), of "str @ [pszBase58 ! (n mod 58)]"]
    show ?thesis using False less.prems assms(2) m IH
      by (subst EncodeBase58_loop.simps)
        (simp add: bn_gt_def openssl_okD(7) [OF assms(1)] qr(1) c nth_append alphabet radix_step order_less_imp_le)
  qed
qed

lemma EncodeBase58_eq:
  assumes "openssl_ok B val" "length vch + 1 < 2 ^ 32"
  shows "EncodeBase58 B vch =
    Some (replicate (length (takeWhile (\<lambda>p. p = 0) vch)) CHR ''1'' @ rev (b58_text (radix 58 (wval (rev vch)))))"
proof -
  obtain b58 where b58: "bn_of_int32 B 58 = Some b58" "val b58 = 58"
    using val_bn_of_int32 [OF assms(1), of 58] by auto
  obtain b0 where b0: "bn_of_int32 B 0 = Some b0" "val b0 = 0"
    using bn_of_int32_0 [OF assms(1)] by blast
  have "val (setvch B (rev vch @ [0])) = int (wval (rev vch))"
    using assms by (simp add: val_setvch wval_append)
  note l = EncodeBase58_loop_radix [OF assms(1) b0(2) b58(2) this, of "[]"]
  have "map (\<lambda>_. pszBase58 ! 0) xs = replicate (length xs) CHR ''1''" for xs :: "byte list"
    by (induction xs) (simp_all add: pszBase58_def)
  then show ?thesis by (simp add: EncodeBase58_def b58 b0 l)
qed

lemma DecodeBase58_loop_digits:
  assumes "openssl_ok B val" "val bn58 = 58" "val bn = int n" "\<forall>d\<in>set ds. d < 58"
  shows "\<exists>bn'. DecodeBase58_loop B bn58 bn (b58_text ds @ p) = DecodeBase58_loop B bn58 bn' p \<and>
    val bn' = int (radix_val 58 (rev ds @ radix 58 n))"
  using assms(3,4)
proof (induction ds arbitrary: bn n)
  case Nil
  then show ?case by (auto simp: radix_val_radix)
next
  case (Cons d ds)
  have d: "strchr pszBase58 (pszBase58 ! d) = Some d" "uint (word_of_nat d :: u64) = int d"
    using Cons.prems(2) strchr_nth [OF alphabet(1), of d] by (simp_all add: alphabet uint_nat unat_of_nat)
  obtain bd where bd: "setulong B (word_of_nat d) = Some bd" "val bd = int d"
    using openssl_okE(1) [OF assms(1), of "word_of_nat d"] d(2) by (auto simp: setulong_def)
  obtain b1 where b1: "BN_mul B bn bn58 = Some b1" "val b1 = int n * 58"
    using openssl_okE(4) [OF assms(1), of bn bn58] Cons.prems(1) assms(2) by auto
  obtain b2 where b2: "BN_add B b1 bd = Some b2" "val b2 = int (n * 58 + d)"
    using openssl_okE(2) [OF assms(1), of b1 bd] b1(2) bd(2) by auto
  have v: "radix_val 58 (rev ds @ radix 58 (n * 58 + d)) = radix_val 58 (rev (d # ds) @ radix 58 n)"
    by (simp add: radix_val_append radix_val_radix algebra_simps)
  show ?case using Cons.IH [OF b2(2)] Cons.prems(2) unfolding v by (simp add: d(1) bd(1) b1(1) b2(1))
qed

lemma bit7_iff: "bit b 7 \<longleftrightarrow> 128 \<le> unat b" for b :: byte
proof -
  have "unat b < 256" using unat_lt_2p [of b] by simp
  then have "unat b div 128 = (if 128 \<le> unat b then 1 else 0)" by (auto intro!: div_nat_eqI)
  then have "odd (unat b div 128) \<longleftrightarrow> 128 \<le> unat b" by simp
  moreover have "bit b 7 \<longleftrightarrow> odd (unat b div 2 ^ 7)" unfolding bit_iff_odd [symmetric] by transfer (simp add: bit_take_bit_iff bit_nat_iff)
  ultimately show ?thesis by simp
qed

lemma trim_sign_byte_mpi: "trim_sign_byte (rev (mpi_body (int n))) = le_bytes n"
proof (cases "n = 0")
  case True
  then show ?thesis using mpi_body_Nil [of 0] by (simp add: trim_sign_byte_def le_bytes.simps)
next
  case False
  then obtain xs b where x: "le_bytes n = xs @ [b]" "b \<noteq> 0"
    using last_le_bytes [of n] by (metis append_butlast_last_id bot_nat_0.not_eq_extremum)
  have "bit b 7 \<longleftrightarrow> b \<ge> 0x80"
    by (simp add: bit7_iff word_le_nat_alt)
  then show ?thesis using x
    by (auto simp: mpi_body_def Let_def trim_sign_byte_def nth_append)
qed

lemma strip_zeros:
  fixes xs :: "'a::zero list"
  obtains z ys where "xs = replicate z 0 @ ys" "ys = [] \<or> hd ys \<noteq> 0"
    "length (takeWhile (\<lambda>x. x = 0) xs) = z"
proof
  let ?P = "\<lambda>x::'a. x = 0"
  have "takeWhile ?P xs = replicate (length (takeWhile ?P xs)) 0"
    by (rule replicate_length_same [symmetric]) (auto dest: set_takeWhileD)
  then show "xs = replicate (length (takeWhile ?P xs)) 0 @ dropWhile ?P xs"
    by (metis takeWhile_dropWhile_id)
  show "dropWhile ?P xs = [] \<or> hd (dropWhile ?P xs) \<noteq> 0" using hd_dropWhile by blast
qed simp

lemma takeWhile_zeros:
  "ys = [] \<or> hd ys \<noteq> 0 \<Longrightarrow> takeWhile (\<lambda>x. x = 0) (replicate z 0 @ ys) = replicate z (0 :: 'a::zero)"
  by (cases ys) (simp_all add: takeWhile_append)

lemma radix_val_replicate_0 [simp]: "radix_val b (replicate z 0) = 0"
  by (induction z) simp_all

lemma hd_rev_last: "xs = [] \<or> last xs \<noteq> 0 \<Longrightarrow> rev xs = [] \<or> hd (rev xs) \<noteq> 0"
  by (simp add: hd_rev)

lemma DecodeBase58_eq:
  assumes ok: "openssl_ok B val" and t: "dropWhile c_isspace psz = b58_text ds @ rest"
    and ds: "\<forall>d\<in>set ds. d < 58" and r: "rest = [] \<or> hd rest \<notin> set pszBase58"
  shows "DecodeBase58 B psz = Some
    (if dropWhile c_isspace rest \<noteq> [] then (False, [])
     else (True, replicate (length (takeWhile (\<lambda>d. d = 0) ds)) 0 @ rev (le_bytes (radix_val 58 (rev ds)))))"
proof -
  obtain b58 where b58: "bn_of_int32 B 58 = Some b58" "val b58 = 58"
    using val_bn_of_int32 [OF ok, of 58] by auto
  obtain b0 where b0: "bn_of_int32 B 0 = Some b0" "val b0 = int 0"
    using bn_of_int32_0 [OF ok] by auto
  obtain bn where bn: "DecodeBase58_loop B b58 b0 (b58_text ds @ rest) = DecodeBase58_loop B b58 bn rest"
      "val bn = int (radix_val 58 (rev ds))"
    using DecodeBase58_loop_digits [OF ok b58(2) b0(2) ds, of rest] by auto
  have end_: "DecodeBase58_loop B b58 bn rest = Some (if dropWhile c_isspace rest \<noteq> [] then None else Some bn)"
    using r by (cases rest) (auto simp: strchr_None [THEN iffD2])
  have one: "pszBase58 ! d = pszBase58 ! 0 \<longleftrightarrow> d = 0" if "d < 58" for d
    using that alphabet nth_eq_iff_index_eq [of pszBase58 d 0] by simp
  have z: "length (takeWhile (\<lambda>c. c = pszBase58 ! 0) (b58_text ds @ rest)) = length (takeWhile (\<lambda>d. d = 0) ds)"
  proof -
    have "rest = [] \<or> hd rest \<noteq> pszBase58 ! 0" using r nth_mem [of 0 pszBase58] by (auto simp: alphabet)
    then have "takeWhile (\<lambda>c. c = pszBase58 ! 0) rest = []" by (cases rest) auto
    with ds show ?thesis by (induction ds) (auto simp: one)
  qed
  show ?thesis
    by (simp add: DecodeBase58_def b58 b0(1) t bn(1) end_ z getvch_body [OF ok] bn(2) trim_sign_byte_mpi
          split: option.split cong: if_cong)
qed

lemma alphabet_digits:
  assumes "set xs \<subseteq> set pszBase58"
  obtains ds where "xs = b58_text ds" "\<forall>d\<in>set ds. d < 58"
proof -
  have "\<exists>ds. xs = b58_text ds \<and> (\<forall>d\<in>set ds. d < 58)"
    using assms
  proof (induction xs)
    case (Cons x xs)
    then obtain ds where ds: "xs = b58_text ds" "\<forall>d\<in>set ds. d < 58" by auto
    obtain i where "i < 58" "x = pszBase58 ! i" using Cons.prems by (auto simp: in_set_conv_nth alphabet)
    with ds show ?case by (intro exI [of _ "i # ds"]) simp
  qed simp
  then show thesis using that by blast
qed

lemma EncodeBase58_digits:
  assumes ok: "openssl_ok B val" and ds: "\<forall>d\<in>set ds. d < 58"
    and vch: "vch = replicate (length (takeWhile (\<lambda>d. d = 0) ds)) 0 @ rev (le_bytes (radix_val 58 (rev ds)))"
    and len: "length vch + 1 < 2 ^ 32"
  shows "EncodeBase58 B vch = Some (b58_text ds)"
proof -
  let ?N = "radix_val 58 (rev ds)"
  obtain z ys where ds': "ds = replicate z 0 @ ys" "ys = [] \<or> hd ys \<noteq> 0"
      "length (takeWhile (\<lambda>d. d = 0) ds) = z" by (rule strip_zeros)
  have N: "?N = radix_val 58 (rev ys)" by (simp add: ds'(1) radix_val_append)
  have y: "radix 58 ?N = rev ys" unfolding N
    using ds ds'(1,2) by (intro radix_radix_val) (auto simp: last_rev)
  have "le_bytes ?N = [] \<or> last (le_bytes ?N) \<noteq> 0"
    using last_le_bytes [of ?N] by (cases "?N = 0") (simp_all add: le_bytes.simps [of 0])
  then have "takeWhile (\<lambda>p. p = 0) vch = replicate z 0"
    unfolding vch ds'(3) by (intro takeWhile_zeros hd_rev_last)
  moreover have "wval (rev vch) = ?N" by (simp add: vch wval_append wval_le_bytes)
  moreover have "pszBase58 ! 0 = CHR ''1''" by (simp add: pszBase58_def)
  ultimately show ?thesis
    by (simp add: EncodeBase58_eq [OF ok len] y rev_map) (simp add: ds'(1) map_replicate_const)
qed

lemma decoded_digits:
  fixes vch :: "byte list"
  defines "N \<equiv> wval (rev vch)" and "z \<equiv> length (takeWhile (\<lambda>p. p = 0) vch)"
  shows "length (takeWhile (\<lambda>d. d = 0) (replicate z 0 @ rev (radix 58 N))) = z"
    and "radix_val 58 (rev (replicate z 0 @ rev (radix 58 N))) = N"
    and "replicate z 0 @ rev (le_bytes N) = vch"
proof -
  have "radix 58 N = [] \<or> last (radix 58 N) \<noteq> 0" using radix_last [of 58 N] by (cases "N = 0") auto
  then show "length (takeWhile (\<lambda>d. d = 0) (replicate z 0 @ rev (radix 58 N))) = z"
    by (subst takeWhile_zeros) (auto simp: hd_rev)
  show "radix_val 58 (rev (replicate z 0 @ rev (radix 58 N))) = N"
    by (simp add: radix_val_append radix_val_radix)
  obtain ys where v: "vch = replicate z 0 @ ys" "ys = [] \<or> hd ys \<noteq> 0"
    unfolding z_def by (rule strip_zeros [of vch]) auto
  have "N = wval (rev ys)" by (simp add: N_def v(1) wval_append)
  then show "replicate z 0 @ rev (le_bytes N) = vch"
    using v le_bytes_wval [of "rev ys"] by (simp add: last_rev)
qed

definition spaces :: "string \<Rightarrow> bool" where "spaces s \<longleftrightarrow> (\<forall>c\<in>set s. c_isspace c)"

lemma dropWhile_spaces [simp]: "spaces ws \<Longrightarrow> dropWhile c_isspace (ws @ t) = dropWhile c_isspace t"
  by (auto simp: spaces_def dropWhile_append3 intro: dropWhile_append2)

lemma spaces_iff: "spaces s \<longleftrightarrow> dropWhile c_isspace s = []"
  by (simp add: spaces_def dropWhile_eq_Nil_conv)

lemma base58_bijective:
  assumes ok: "openssl_ok B val" and len: "length vch + 1 < 2 ^ 32"
  shows "DecodeBase58 B psz = Some (True, vch) \<longleftrightarrow>
    (\<exists>ws core ws'. psz = ws @ core @ ws' \<and> spaces ws \<and> spaces ws' \<and> EncodeBase58 B vch = Some core)"
proof
  define t where "t = dropWhile c_isspace psz"
  define cs where "cs = takeWhile (\<lambda>c. c \<in> set pszBase58) t"
  define rest where "rest = dropWhile (\<lambda>c. c \<in> set pszBase58) t"
  have "set cs \<subseteq> set pszBase58" unfolding cs_def by (auto dest: set_takeWhileD)
  then obtain ds where ds: "cs = b58_text ds" "\<forall>d\<in>set ds. d < 58" by (rule alphabet_digits)
  have t: "dropWhile c_isspace psz = b58_text ds @ rest" "rest = [] \<or> hd rest \<notin> set pszBase58"
    using hd_dropWhile [of "\<lambda>c. c \<in> set pszBase58" t]
    unfolding ds(1) [symmetric] cs_def rest_def t_def by (simp, blast)
  assume d: "DecodeBase58 B psz = Some (True, vch)"
  then have "spaces rest" and
    vch: "vch = replicate (length (takeWhile (\<lambda>d. d = 0) ds)) 0 @ rev (le_bytes (radix_val 58 (rev ds)))"
    unfolding DecodeBase58_eq [OF ok t(1) ds(2) t(2)] spaces_iff by (auto split: if_splits)
  moreover have "psz = takeWhile c_isspace psz @ b58_text ds @ rest" by (simp flip: t(1))
  moreover have "spaces (takeWhile c_isspace psz)" by (auto simp: spaces_def dest: set_takeWhileD)
  ultimately show "\<exists>ws core ws'. psz = ws @ core @ ws' \<and> spaces ws \<and> spaces ws' \<and> EncodeBase58 B vch = Some core"
    using EncodeBase58_digits [OF ok ds(2) vch len] by blast
next
  assume "\<exists>ws core ws'. psz = ws @ core @ ws' \<and> spaces ws \<and> spaces ws' \<and> EncodeBase58 B vch = Some core"
  then obtain ws core ws' where p: "psz = ws @ core @ ws'" "spaces ws" "spaces ws'" "EncodeBase58 B vch = Some core"
    by blast
  define ds where "ds = replicate (length (takeWhile (\<lambda>p. p = 0) vch)) 0 @ rev (radix 58 (wval (rev vch)))"
  have ds: "\<forall>d\<in>set ds. d < 58" using radix_digits [of 58] by (auto simp: ds_def)
  have "pszBase58 ! 0 = CHR ''1''" by (simp add: pszBase58_def)
  then have core: "core = b58_text ds"
    using p(4) by (simp add: EncodeBase58_eq [OF ok len] ds_def rev_map map_replicate_const)
  define rest where "rest = (if ds = [] then [] else ws')"
  have "dropWhile c_isspace (b58_text ds @ ws') = b58_text ds @ rest"
  proof (cases ds)
    case Nil
    then show ?thesis using p(3) by (simp add: rest_def spaces_iff)
  next
    case (Cons d ds')
    then show ?thesis using ds alphabet_nospace nth_mem [of d pszBase58] by (simp add: rest_def alphabet)
  qed
  then have t: "dropWhile c_isspace psz = b58_text ds @ rest" using p(1,2) core by simp
  have r: "spaces rest" using p(3) by (simp add: rest_def spaces_def)
  then have "rest = [] \<or> hd rest \<notin> set pszBase58"
    using alphabet_nospace by (cases rest) (auto simp: spaces_def)
  note DecodeBase58_eq [OF ok t ds this]
  then show "DecodeBase58 B psz = Some (True, vch)"
    using r decoded_digits [of vch] by (simp add: ds_def spaces_iff)
qed

text \<open>C32. Base-58 decoding finds a byte vector in a text exactly when the text is, up to surrounding
  white space, the one the encoder writes for those bytes, leading zero bytes included: the codec is
  a bijection whatever digits the big-integer library is asked for.\<close>

theorem base58_is_bijective:
  assumes "openssl_ok B val" and "length vch + 1 < 2 ^ 32"
  shows "DecodeBase58 B psz = Some (True, vch) \<longleftrightarrow>
    (\<exists>ws core ws'. psz = ws @ core @ ws' \<and> spaces ws \<and> spaces ws' \<and> EncodeBase58 B vch = Some core)"
  by (rule base58_bijective [OF assms])

theorem base58_is_bijective_witness:
  "DecodeBase58 int_openssl ''  11233QC4 '' = Some (True, [0, 0, 0x28, 0x7f, 0xb4, 0xcd])"
proof -
  have "EncodeBase58 int_openssl [0, 0, 0x28, 0x7f, 0xb4, 0xcd] = Some ''11233QC4''"
    by (subst EncodeBase58_eq [OF int_openssl_ok]) (simp_all add: radix_step pszBase58_def)
  moreover have "''  11233QC4 '' = ''  '' @ ''11233QC4'' @ '' ''" "spaces ''  ''" "spaces '' ''"
    by (simp_all add: spaces_def c_isspace_def)
  ultimately show ?thesis
    using base58_is_bijective [OF int_openssl_ok, of "[0, 0, 0x28, 0x7f, 0xb4, 0xcd]"] by fastforce
qed

subsection \<open>The checksum\<close>

lemma DecodeBase58_Encode:
  assumes "openssl_ok B val" "length vch + 1 < 2 ^ 32" "EncodeBase58 B vch = Some core"
  shows "DecodeBase58 B core = Some (True, vch)"
proof -
  have "core = replicate (length (takeWhile (\<lambda>p. p = 0) vch)) CHR ''1'' @ rev (b58_text (radix 58 (wval (rev vch))))"
    using assms(3) unfolding EncodeBase58_eq [OF assms(1,2)] by simp
  moreover define ds where "ds = replicate (length (takeWhile (\<lambda>p. p = 0) vch)) 0 @ rev (radix 58 (wval (rev vch)))"
  moreover have "pszBase58 ! 0 = CHR ''1''" by (simp add: pszBase58_def)
  ultimately have t: "core = b58_text ds" by (simp add: rev_map map_replicate_const)
  have ds: "\<forall>d\<in>set ds. d < 58" using radix_digits [of 58] by (auto simp: ds_def)
  then have "set core \<subseteq> set pszBase58" unfolding t by (auto simp: alphabet)
  then have "dropWhile c_isspace core = b58_text ds @ []"
    using alphabet_nospace unfolding t by (cases ds) auto
  from DecodeBase58_eq [OF assms(1) this ds] show ?thesis
    using decoded_digits [of vch] by (simp add: ds_def)
qed

lemma EncodeBase58_total:
  assumes "openssl_ok B val" "length vch + 1 < 2 ^ 32"
  obtains core where "EncodeBase58 B vch = Some core" "CHR 0x00 \<notin> set core"
proof -
  have "CHR 0x00 \<notin> set (b58_text (radix 58 n))" for n
    using alphabet_nospace radix_digits [of 58 _ n] by (auto simp: in_set_conv_nth alphabet) (metis alphabet(2) nth_mem)
  then show thesis using that by (simp add: EncodeBase58_eq [OF assms])
qed

text \<open>Decoding with a checksum: exactly what decoding finds, when its last four bytes are the checksum.\<close>

lemma DecodeBase58Check_iff:
  assumes h: "length (u_bytes (Hash sha vch)) \<ge> 4"
  shows "DecodeBase58Check B sha psz = Some (True, vch) \<longleftrightarrow>
    DecodeBase58 B psz = Some (True, vch @ take 4 (u_bytes (Hash sha vch)))" (is "?l = ?r")
proof
  assume ?l
  then obtain r where r: "DecodeBase58 B psz = Some (True, r)" "4 \<le> length r" "vch = take (length r - 4) r"
      "take 4 (u_bytes (Hash sha vch)) = drop (length r - 4) r"
    by (auto simp: DecodeBase58Check_def Let_def bind_eq_Some_conv split: if_splits)
  then show ?r by simp
next
  assume ?r
  then show ?l using h by (simp add: DecodeBase58Check_def)
qed

lemma hash_length: "length (sha (sha p)) = 32 \<Longrightarrow> length (Hash sha p) = 8"
  by (simp add: Hash_def Let_def)

text \<open>CBase58Data::SetString accepts a text as a value exactly when the text is, up to
  surrounding white space, the one ToString prints for that value: a wrong checksum, another digit
  or a second spelling of the same data is never accepted.\<close>

theorem versioned_text_is_canonical:
  assumes ok: "openssl_ok B val" and sha: "\<forall>p. length (sha p) = 32"
    and len: "length (vchData d') + 6 < 2 ^ 32"
  shows "Data_SetString B sha d psz = Some (True, d') \<longleftrightarrow>
    (\<exists>ws core ws'. psz = ws @ core @ ws' \<and> spaces ws \<and> spaces ws' \<and> Data_ToString B sha d' = Some core)"
proof -
  let ?v = "d_nVersion d' # vchData d'"
  have "Data_SetString B sha d psz = Some (True, d') \<longleftrightarrow> DecodeBase58Check B sha psz = Some (True, ?v)"
  proof -
    have "fst r" if r: "DecodeBase58Check B sha psz = Some r" "snd r \<noteq> []" for r
    proof -
      obtain q where q: "DecodeBase58 B psz = Some q" using r(1) by (cases "DecodeBase58 B psz") (auto simp: DecodeBase58Check_def)
      then have "\<not> fst q \<Longrightarrow> snd q = []"
        by (auto simp: DecodeBase58_def Let_def bind_eq_Some_conv split: option.splits)
      then show ?thesis using r q by (auto simp: DecodeBase58Check_def Let_def split: if_splits)
    qed
    then show ?thesis
    proof (cases "DecodeBase58Check B sha psz")
      case (Some r)
      show ?thesis
      proof (cases "snd r")
        case (Cons v vch)
        with \<open>\<And>r. _ \<Longrightarrow> _ \<Longrightarrow> fst r\<close> Some have "r = (True, v # vch)" by (cases r) auto
        with Some show ?thesis by (cases d; cases d') (simp add: Data_SetString_def)
      qed (use Some in \<open>auto simp: Data_SetString_def\<close>)
    qed (simp add: Data_SetString_def)
  qed
  also have "\<dots> \<longleftrightarrow> DecodeBase58 B psz = Some (True, ?v @ take 4 (u_bytes (Hash sha ?v)))"
    using sha by (subst DecodeBase58Check_iff) (simp_all add: hash_length length_u_bytes)
  also have "\<dots> \<longleftrightarrow> (\<exists>ws core ws'. psz = ws @ core @ ws' \<and> spaces ws \<and> spaces ws' \<and>
      EncodeBase58 B (?v @ take 4 (u_bytes (Hash sha ?v))) = Some core)"
    by (rule base58_bijective [OF ok]) (use len in simp)
  finally show ?thesis by (simp add: Data_ToString_def EncodeBase58Check_def)
qed

theorem versioned_text_is_canonical_witness:
  "\<exists>core. Data_SetString int_openssl (\<lambda>p. replicate 32 (sum_list p)) Base58Data_init ('' '' @ core) =
     Some (True, \<lparr> d_nVersion = 63, vchData = replicate 20 7 \<rparr>)"
proof -
  let ?sha = "\<lambda>p :: byte list. replicate 32 (sum_list p)"
  let ?d = "\<lparr> d_nVersion = 63, vchData = replicate 20 7 \<rparr>"
  obtain core where c: "Data_ToString int_openssl ?sha ?d = Some core"
    using EncodeBase58_eq [OF int_openssl_ok]
    by (simp add: Data_ToString_def EncodeBase58Check_def hash_length length_u_bytes)
  have "spaces '' ''" "spaces []" by (simp_all add: spaces_def c_isspace_def)
  with c have "Data_SetString int_openssl ?sha Base58Data_init ('' '' @ core) = Some (True, ?d)"
    using versioned_text_is_canonical [OF int_openssl_ok, of ?sha ?d Base58Data_init "'' '' @ core"] by fastforce
  then show ?thesis by blast
qed

lemma Data_SetString_ToString:
  assumes "openssl_ok B val" "\<forall>p. length (sha p) = 32" "length (vchData d') + 6 < 2 ^ 32"
  obtains core where "Data_ToString B sha d' = Some core" "Data_SetString B sha d core = Some (True, d')"
proof -
  let ?v = "d_nVersion d' # vchData d'"
  let ?w = "?v @ take 4 (u_bytes (Hash sha ?v))"
  have h: "length (Hash sha ?v) = 8" using assms(2) by (simp add: hash_length)
  then have l: "length ?w + 1 < 2 ^ 32" using assms(3) by (simp add: length_u_bytes)
  then obtain core where c: "EncodeBase58 B ?w = Some core" by (rule EncodeBase58_total [OF assms(1)])
  note DecodeBase58_Encode [OF assms(1) l c]
  then have "DecodeBase58Check B sha core = Some (True, ?v)"
    by (subst DecodeBase58Check_iff) (simp_all add: h)
  then show thesis using that c by (simp add: Data_SetString_def Data_ToString_def EncodeBase58Check_def)
qed

text \<open>C33. An address built from a key or script id prints to a text that parses back to an
  address whose destination is that id on its own network, no destination on the other network, and
  never a secret key.\<close>

theorem address_names_destination:
  assumes "openssl_ok B val" "\<forall>p. length (sha p) = 32"
    and "dest = CKeyID i \<or> dest = CScriptID i" "length i = 5"
  shows "\<exists>core a. Data_ToString B sha (snd (Address_Set fTestNet Base58Data_init dest)) = Some core \<and>
    Data_SetString B sha d core = Some (True, a) \<and>
    Address_Get fTestNet a = dest \<and> Address_Get (\<not> fTestNet) a = CNoDestination \<and>
    (Address_IsScript fTestNet a \<longleftrightarrow> dest = CScriptID i) \<and> \<not> Secret_IsValid fTestNet a"
proof -
  define a where "a = snd (Address_Set fTestNet Base58Data_init dest)"
  have len: "length (u_bytes i) = 20" using assms(4) by (simp add: length_u_bytes)
  have v: "length (vchData a) = 20" using assms(3) len by (auto simp: a_def SetData_def)
  then obtain core where c: "Data_ToString B sha a = Some core" "Data_SetString B sha d core = Some (True, a)"
    using Data_SetString_ToString [OF assms(1,2), of a d] by auto
  note defs = a_def SetData_def Address_Get_def Address_IsValid_def Address_IsScript_def Secret_IsValid_def Let_def
    PUBKEY_ADDRESS_def SCRIPT_ADDRESS_def PUBKEY_ADDRESS_TEST_def SCRIPT_ADDRESS_TEST_def
  have "Address_Get fTestNet a = dest \<and> Address_Get (\<not> fTestNet) a = CNoDestination \<and>
    (Address_IsScript fTestNet a \<longleftrightarrow> dest = CScriptID i) \<and> \<not> Secret_IsValid fTestNet a"
    using assms(3) len by (elim disjE; cases fTestNet) (simp_all add: defs u_of_bytes_bytes)
  with c show ?thesis unfolding a_def by blast
qed

theorem address_names_destination_witness:
  "\<exists>core a. Data_ToString int_openssl (\<lambda>p. replicate 32 (sum_list p))
      (snd (Address_Set False Base58Data_init (CScriptID [1, 2, 3, 4, 5]))) = Some core \<and>
    Data_SetString int_openssl (\<lambda>p. replicate 32 (sum_list p)) Base58Data_init core = Some (True, a) \<and>
    Address_Get False a = CScriptID [1, 2, 3, 4, 5] \<and> Address_Get True a = CNoDestination \<and> Address_IsScript False a"
  using address_names_destination [of int_openssl _ "\<lambda>p. replicate 32 (sum_list p)" "CScriptID [1, 2, 3, 4, 5]"
      "[1, 2, 3, 4, 5]" False Base58Data_init, OF int_openssl_ok] by force

text \<open>A 32-byte secret key, compressed or not, prints to a text that parses back to the same
  key on its own network and is refused on the other one; it is never an address.\<close>

theorem secret_text_roundtrip:
  assumes "openssl_ok B val" "\<forall>p. length (sha p) = 32" "length vchSecret = 32"
  shows "\<exists>a core. SetSecret fTestNet Base58Data_init vchSecret fCompressed = Some a \<and>
    Data_ToString B sha a = Some core \<and>
    Secret_SetString B sha fTestNet d core = Some (True, a) \<and>
    Secret_SetString B sha (\<not> fTestNet) d core = Some (False, a) \<and>
    GetSecret a = Some (vchSecret, fCompressed) \<and> Address_Get fTestNet a = CNoDestination"
proof -
  define a where "a = the (SetSecret fTestNet Base58Data_init vchSecret fCompressed)"
  have s: "SetSecret fTestNet Base58Data_init vchSecret fCompressed = Some a"
    by (simp add: a_def SetSecret_def assms(3) Let_def)
  have v: "length (vchData a) \<le> 33" using assms(3) by (simp add: a_def SetSecret_def SetData_def Let_def)
  then obtain core where c: "Data_ToString B sha a = Some core" "Data_SetString B sha d core = Some (True, a)"
    using Data_SetString_ToString [OF assms(1,2), of a d] by auto
  have "GetSecret a = Some (vchSecret, fCompressed)" "Address_Get fTestNet a = CNoDestination"
      "Secret_IsValid fTestNet a" "\<not> Secret_IsValid (\<not> fTestNet) a"
    using assms(3) by (cases fTestNet; cases fCompressed; simp add: a_def SetSecret_def SetData_def GetSecret_def
        Secret_IsValid_def Address_Get_def Address_IsValid_def Let_def nth_append PUBKEY_ADDRESS_def SCRIPT_ADDRESS_def
        PUBKEY_ADDRESS_TEST_def SCRIPT_ADDRESS_TEST_def)+
  with c s show ?thesis by (auto simp: Secret_SetString_def)
qed

theorem secret_text_roundtrip_witness:
  "\<exists>a core. SetSecret True Base58Data_init (replicate 32 9) True = Some a \<and>
    Data_ToString int_openssl (\<lambda>p. replicate 32 (sum_list p)) a = Some core \<and>
    Secret_SetString int_openssl (\<lambda>p. replicate 32 (sum_list p)) True Base58Data_init core = Some (True, a) \<and>
    GetSecret a = Some (replicate 32 9, True)"
  using secret_text_roundtrip [OF int_openssl_ok, of "\<lambda>p. replicate 32 (sum_list p)" "replicate 32 9" True True Base58Data_init]
  by force

end
