(* ===== verification/Money.thy ===== *)
theory Money
  imports Encodings Transaction
begin

text \<open>FormatMoney and ParseMoney of src/util.cpp. An int64 amount is its value; FormatMoney is not
  called with the least int64, whose absolute value does not exist.\<close>


subsection \<open>Amounts of money\<close>

definition c_isdigit :: "char \<Rightarrow> bool" where \<comment> \<open>isdigit of the C locale\<close>
  "c_isdigit c = (let n = of_char c :: nat in 48 \<le> n \<and> n \<le> 57)"

definition dec_str :: "nat \<Rightarrow> string" where \<comment> \<open>printf's %d of a number that is not negative\<close>
  "dec_str n = (if n = 0 then ''0'' else rev (digits 10 n))"

definition dec_pad :: "nat \<Rightarrow> nat \<Rightarrow> string" where \<comment> \<open>with leading zeros up to a width\<close>
  "dec_pad k n = replicate (k - length (dec_str n)) CHR ''0'' @ dec_str n"

fun trim_zeros :: "string \<Rightarrow> string" where \<comment> \<open>on the reversed text\<close>
  "trim_zeros (c # d # e # cs) = (if c = CHR ''0'' \<and> c_isdigit e then trim_zeros (d # e # cs) else c # d # e # cs)"
| "trim_zeros cs = cs"

definition FormatMoney :: "int \<Rightarrow> bool \<Rightarrow> string" where
  "FormatMoney n fPlus =
     (let n_abs = (if n > 0 then n else - n);
          quotient = n_abs div sint COIN;
          remainder = n_abs mod sint COIN;
          str = dec_str (nat quotient) @ ''.'' @ dec_pad 6 (nat remainder);
          str = rev (trim_zeros (rev str))
      in if n < 0 then ''-'' @ str else if fPlus \<and> n > 0 then ''+'' @ str else str)"

definition c_digit :: "char \<Rightarrow> int" where "c_digit c = int (of_char c) - 48" \<comment> \<open>*p - '0'\<close>

fun parse_fraction :: "int \<Rightarrow> int \<Rightarrow> string \<Rightarrow> int \<times> string" where
  "parse_fraction nMult nUnits [] = (nUnits, [])"
| "parse_fraction nMult nUnits (c # p) =
     (if c_isdigit c \<and> nMult > 0 then parse_fraction (nMult div 10) (nUnits + nMult * c_digit c) p
      else (nUnits, c # p))"

fun parse_whole :: "string \<Rightarrow> string \<Rightarrow> (string \<times> int \<times> string) option" where \<comment> \<open>None: return false\<close>
  "parse_whole strWhole [] = Some (strWhole, 0, [])"
| "parse_whole strWhole (c # p) =
     (if c = CHR ''.'' then (case parse_fraction (sint CENT * 10) 0 p of (nUnits, p) \<Rightarrow> Some (strWhole, nUnits, p))
      else if c_isspace c then Some (strWhole, 0, c # p)
      else if \<not> c_isdigit c then None
      else parse_whole (strWhole @ [c]) p)"

definition atoi64 :: "string \<Rightarrow> int" where \<comment> \<open>strtoll of a string of digits\<close>
  "atoi64 str = min (2 ^ 63 - 1) (foldl (\<lambda>v c. v * 10 + c_digit c) 0 str)"

definition ParseMoney :: "string \<Rightarrow> int option" where
  "ParseMoney pszIn =
     (case parse_whole [] (dropWhile c_isspace pszIn) of
        None \<Rightarrow> None
      | Some (strWhole, nUnits, p) \<Rightarrow>
          if list_ex (\<lambda>c. \<not> c_isspace c) p then None
          else if length strWhole > 10 then None
          else if nUnits < 0 \<or> nUnits > sint COIN then None
          else let nWhole = atoi64 strWhole; nValue = nWhole * sint COIN + nUnits in Some nValue)"

subsection \<open>Printing and reading amounts\<close>

lemma coin_cent: "sint COIN = 1000000" "sint CENT = 10000"
  by (simp_all add: COIN_def CENT_def)

lemma dec_char:
  assumes "d < 10"
  shows "c_isdigit (hex_char d)" "c_digit (hex_char d) = int d" "\<not> c_isspace (hex_char d)"
    "hex_char d \<noteq> CHR ''.''" "hex_char d = CHR ''0'' \<longleftrightarrow> d = 0"
proof -
  have "list_all (\<lambda>d. c_isdigit (hex_char d) \<and> c_digit (hex_char d) = int d \<and> \<not> c_isspace (hex_char d) \<and>
      hex_char d \<noteq> CHR ''.'' \<and> (hex_char d = CHR ''0'' \<longleftrightarrow> d = 0)) [0..<10]"
    by (simp add: c_isdigit_def c_digit_def c_isspace_def hex_char_def upt_rec Let_def)
  with assms show "c_isdigit (hex_char d)" "c_digit (hex_char d) = int d" "\<not> c_isspace (hex_char d)"
    "hex_char d \<noteq> CHR ''.''" "hex_char d = CHR ''0'' \<longleftrightarrow> d = 0"
    by (simp_all add: list_all_iff)
qed

lemma digits_step: "0 < n \<Longrightarrow> digits 10 n = hex_char (n mod 10) # digits 10 (n div 10)"
  by (subst digits.simps) simp

lemma digits10_0 [simp]: "digits 10 0 = []"
  by (subst digits.simps) simp

lemma digits10_chars: "c \<in> set (digits 10 n) \<Longrightarrow> \<exists>d<10. c = hex_char d"
proof (induction n rule: less_induct)
  case (less n)
  then have "0 < n" by (cases "n = 0") simp_all
  then have "c = hex_char (n mod 10) \<or> c \<in> set (digits 10 (n div 10))"
    using less.prems by (simp add: digits_step)
  then show ?case
  proof
    assume "c = hex_char (n mod 10)"
    then show ?thesis by (intro exI [of _ "n mod 10"]) simp
  qed (use less.IH [of "n div 10"] \<open>0 < n\<close> in simp)
qed

lemma dec_str_chars: "c \<in> set (dec_str n) \<Longrightarrow> \<exists>d<10. c = hex_char d"
  using digits10_chars [of c n] by (cases "n = 0") (auto simp: dec_str_def hex_char_def intro!: exI [of _ 0])

lemma foldl_digits: "foldl (\<lambda>v c. v * 10 + c_digit c) 0 (rev (digits 10 n)) = int n"
proof (induction n rule: less_induct)
  case (less n)
  show ?case
  proof (cases "n = 0")
    case False
    then have "foldl (\<lambda>v c. v * 10 + c_digit c) 0 (rev (digits 10 (n div 10))) = int (n div 10)"
      by (intro less.IH) simp
    then show ?thesis using False by (simp add: digits_step dec_char mult.commute add: zdiv_int zmod_int)
  qed simp
qed

lemma length_digits10: "n < 10 ^ k \<Longrightarrow> length (digits 10 n) \<le> k"
proof (induction k arbitrary: n)
  case (Suc k)
  then have "length (digits 10 (n div 10)) \<le> k" by (intro Suc.IH) (simp add: div_less_iff_less_mult mult.commute)
  then show ?case by (cases "n = 0") (simp_all add: digits_step)
qed simp

lemma atoi64_dec_str: "n < 10 ^ 10 \<Longrightarrow> atoi64 (dec_str n) = int n \<and> length (dec_str n) \<le> 10"
  using foldl_digits [of n] length_digits10 [of n 10]
  by (auto simp: atoi64_def dec_str_def c_digit_def)

lemma parse_whole_digits:
  "(\<forall>c\<in>set s. \<exists>d<10. c = hex_char d) \<Longrightarrow> parse_whole w (s @ p) = parse_whole (w @ s) p"
  by (induction s arbitrary: w) (auto simp: dec_char)

lemma dec_str_step: "10 \<le> n \<Longrightarrow> dec_str n = dec_str (n div 10) @ [hex_char (n mod 10)]"
proof -
  assume "10 \<le> n"
  then have "0 < n div 10" "0 < n" by (simp_all add: div_greater_zero_iff)
  then show ?thesis by (simp add: dec_str_def digits_step)
qed

lemma dec_str_digit: "n < 10 \<Longrightarrow> dec_str n = [hex_char n]"
  by (cases "n = 0") (simp_all add: dec_str_def digits_step hex_char_def)

lemma dec_pad_step:
  assumes "2 \<le> k"
  shows "dec_pad k r = dec_pad (k - 1) (r div 10) @ [hex_char (r mod 10)]"
proof (cases "r < 10")
  case True
  obtain j where "k = Suc (Suc j)" using assms by (metis add_2_eq_Suc le_Suc_ex)
  with True show ?thesis by (simp add: dec_pad_def dec_str_digit hex_char_def replicate_append_same)
next
  case False
  then show ?thesis by (simp add: dec_pad_def dec_str_step)
qed

lemma dec_pad_1: "r < 10 \<Longrightarrow> dec_pad 1 r = [hex_char r]"
  by (simp add: dec_pad_def dec_str_digit)

lemma six_digits:
  assumes "r < 1000000"
  obtains a b c d e f where "a < 10" "b < 10" "c < 10" "d < 10" "e < 10" "f < 10"
    "dec_pad 6 r = map hex_char [a, b, c, d, e, f]"
    "int r = 100000 * int a + 10000 * int b + 1000 * int c + 100 * int d + 10 * int e + int f"
proof -
  define r1 where "r1 = r div 10"
  define r2 where "r2 = r1 div 10"
  define r3 where "r3 = r2 div 10"
  define r4 where "r4 = r3 div 10"
  define r5 where "r5 = r4 div 10"
  note rs = r5_def r4_def r3_def r2_def r1_def
  have l: "r1 < 100000" "r2 < 10000" "r3 < 1000" "r4 < 100" "r5 < 10"
    using assms unfolding rs by (simp_all add: div_less_iff_less_mult)
  have p: "dec_pad 6 r = map hex_char [r5, r4 mod 10, r3 mod 10, r2 mod 10, r1 mod 10, r mod 10]"
    using dec_pad_step [of 6 r] dec_pad_step [of 5 r1] dec_pad_step [of 4 r2] dec_pad_step [of 3 r3] dec_pad_step [of 2 r4]
      dec_pad_1 [of r5] l by (simp flip: rs)
  have s: "int x = 10 * int (x div 10) + int (x mod 10)" for x
    by (simp add: zdiv_int zmod_int)
  have e: "int r = 100000 * int r5 + 10000 * int (r4 mod 10) + 1000 * int (r3 mod 10) + 100 * int (r2 mod 10) +
      10 * int (r1 mod 10) + int (r mod 10)"
    using s [of r] s [of r1] s [of r2] s [of r3] s [of r4] unfolding r1_def [symmetric] r2_def [symmetric] r3_def [symmetric] r4_def [symmetric] r5_def [symmetric]
    by linarith
  show thesis by (rule that [OF _ _ _ _ _ _ p e]) (use l in simp_all)
qed

lemma trimmed_fraction:
  assumes "a < 10" "b < 10" "c < 10" "d < 10" "e < 10" "f < 10"
  shows "\<exists>p. rev (trim_zeros (rev (w @ ''.'' @ map hex_char [a, b, c, d, e, f]))) = w @ ''.'' @ p \<and>
    parse_fraction 100000 0 p =
      (100000 * int a + 10000 * int b + 1000 * int c + 100 * int d + 10 * int e + int f, [])"
proof -
  note digit = dec_char [OF assms(1)] dec_char [OF assms(2)] dec_char [OF assms(3)] dec_char [OF assms(4)]
    dec_char [OF assms(5)] dec_char [OF assms(6)]
  have dot: "\<not> c_isdigit CHR ''.''" by (simp add: c_isdigit_def)
  have z: "c_digit CHR ''0'' = 0" "c_isdigit CHR ''0''" by (simp_all add: c_digit_def c_isdigit_def)
  show ?thesis by (simp add: digit dot z)
qed

lemma ParseMoney_FormatMoney:
  assumes "0 \<le> n" "n < 10 ^ 16"
  shows "ParseMoney (FormatMoney n False) = Some n"
proof -
  define q r where qr: "q = nat (n div 1000000)" "r = nat (n mod 1000000)"
  have q: "q < 10 ^ 10" using assms by (simp add: qr nat_less_iff div_less_iff_less_mult)
  have r: "r < 1000000" using assms by (simp add: qr nat_less_iff)
  have "0 \<le> n div 1000000" using assms by (simp add: pos_imp_zdiv_nonneg_iff)
  then have n: "n = int q * 1000000 + int r" by (simp add: qr)
  obtain a b c d e f where f: "a < 10" "b < 10" "c < 10" "d < 10" "e < 10" "f < 10"
      "dec_pad 6 r = map hex_char [a, b, c, d, e, f]"
      "int r = 100000 * int a + 10000 * int b + 1000 * int c + 100 * int d + 10 * int e + int f"
    by (rule six_digits [OF r])
  obtain p where p: "rev (trim_zeros (rev (dec_str q @ ''.'' @ dec_pad 6 r))) = dec_str q @ ''.'' @ p"
      "parse_fraction 100000 0 p = (int r, [])"
    using trimmed_fraction [OF f(1-6), of "dec_str q"] unfolding f(7,8) by blast
  have "(if n > 0 then n else - n) = n" using assms(1) by auto
  then have s: "FormatMoney n False = dec_str q @ ''.'' @ p"
    using assms(1) p(1) by (simp add: FormatMoney_def coin_cent Let_def qr)
  have "\<not> c_isspace (hd (dec_str q @ ''.''))"
    using dec_str_chars [of "hd (dec_str q)" q] dec_char(3) by (cases "dec_str q") (auto simp: c_isspace_def)
  then have "dropWhile c_isspace (dec_str q @ ''.'' @ p) = dec_str q @ ''.'' @ p"
    by (cases "dec_str q") auto
  moreover have "parse_whole [] (dec_str q @ ''.'' @ p) = Some (dec_str q, int r, [])"
    using parse_whole_digits [of "dec_str q" "[]" "''.'' @ p"] dec_str_chars p(2) by (simp add: coin_cent)
  ultimately show ?thesis
    using atoi64_dec_str [OF q] r unfolding ParseMoney_def s by (simp add: coin_cent n)
qed

lemma FormatMoney_sign:
  assumes "n < 0 \<or> 0 < n \<and> fPlus"
  shows "ParseMoney (FormatMoney n fPlus) = None"
proof -
  have "\<not> c_isspace CHR ''-''" "\<not> c_isspace CHR ''+''" "\<not> c_isdigit CHR ''-''" "\<not> c_isdigit CHR ''+''"
    by (simp_all add: c_isspace_def c_isdigit_def)
  with assms show ?thesis by (auto simp: FormatMoney_def Let_def ParseMoney_def)
qed

lemma c_digit_range: "c_isdigit c \<Longrightarrow> 0 \<le> c_digit c \<and> c_digit c \<le> 9"
  by (simp add: c_isdigit_def c_digit_def Let_def)

lemma parse_whole_text:
  "parse_whole w s = Some (w', u, p) \<Longrightarrow> \<forall>c\<in>set w. c_isdigit c \<Longrightarrow> \<forall>c\<in>set w'. c_isdigit c"
  by (induction w s rule: parse_whole.induct) (auto split: if_splits prod.splits)

lemma foldl_digits_range:
  "\<forall>c\<in>set s. c_isdigit c \<Longrightarrow> 0 \<le> v \<Longrightarrow>
   v * 10 ^ length s \<le> foldl (\<lambda>v c. v * 10 + c_digit c) v s \<and>
   foldl (\<lambda>v c. v * 10 + c_digit c) v s < (v + 1) * 10 ^ length s"
proof (induction s arbitrary: v)
  case (Cons c s)
  have c: "0 \<le> c_digit c" "c_digit c \<le> 9" using Cons.prems c_digit_range by auto
  let ?p = "10 ^ length s :: int" and ?f = "foldl (\<lambda>v c. v * 10 + c_digit c) (v * 10 + c_digit c) s"
  have f: "(v * 10 + c_digit c) * ?p \<le> ?f" "?f < (v * 10 + c_digit c + 1) * ?p"
    using Cons.IH [of "v * 10 + c_digit c"] Cons.prems c by auto
  have "v * 10 * ?p \<le> (v * 10 + c_digit c) * ?p" "(v * 10 + c_digit c + 1) * ?p \<le> (v + 1) * 10 * ?p"
    using c by (intro mult_right_mono; simp)+
  then have "v * (10 * ?p) \<le> ?f" "?f < (v + 1) * (10 * ?p)" using f by (simp_all only: mult.assoc)
  then show ?case by simp
qed simp

lemma ParseMoney_range: "ParseMoney s = Some v \<Longrightarrow> 0 \<le> v \<and> v \<le> 10 ^ 16"
proof -
  assume "ParseMoney s = Some v"
  then obtain w u p where p: "parse_whole [] (dropWhile c_isspace s) = Some (w, u, p)" "length w \<le> 10"
      "0 \<le> u" "u \<le> 1000000" "v = atoi64 w * 1000000 + u"
    by (auto simp: ParseMoney_def Let_def coin_cent split: option.splits if_splits)
  have d: "\<forall>c\<in>set w. c_isdigit c" using parse_whole_text [OF p(1)] by simp
  have "(10 :: int) ^ length w \<le> 10 ^ 10" using p(2) by (intro power_increasing) simp_all
  then have "0 \<le> atoi64 w \<and> atoi64 w < 10 ^ 10" using foldl_digits_range [OF d, of 0] by (simp add: atoi64_def min_def)
  then show ?thesis using p(3-5) by simp
qed

text \<open>Every amount in the money range prints to a text ParseMoney reads back as the same
  amount, trailing zeros trimmed or not, a signed text is refused, and whatever text ParseMoney
  accepts denotes an amount from 0 to 10 billion coins, so its int64 arithmetic never overflows.\<close>

theorem money_text_roundtrip:
  assumes "MoneyRange n"
  shows "ParseMoney (FormatMoney (sint n) False) = Some (sint n) \<and>
    (n \<noteq> 0 \<longrightarrow> ParseMoney (FormatMoney (- sint n) fPlus) = None \<and> ParseMoney (FormatMoney (sint n) True) = None) \<and>
    (ParseMoney s = Some v \<longrightarrow> 0 \<le> v \<and> v \<le> 10 ^ 16)"
proof -
  have n: "0 \<le> sint n" "sint n \<le> 476918000000"
    using assms by (simp_all add: MoneyRange_def word_sle_eq MAX_MONEY_def COIN_def)
  moreover have "n \<noteq> 0 \<longrightarrow> sint n \<noteq> 0" by (metis signed_eq_0_iff)
  ultimately show ?thesis
    using ParseMoney_FormatMoney [of "sint n"] FormatMoney_sign [of "- sint n" fPlus] FormatMoney_sign [of "sint n" True]
      ParseMoney_range by force
qed

theorem money_text_roundtrip_witness:
  "MoneyRange 1230000 \<and> ParseMoney (FormatMoney 1230000 False) = Some 1230000 \<and>
   ParseMoney (FormatMoney (- 1230000) False) = None"
  using money_text_roundtrip [of 1230000 False "[]" 0]
  by (simp add: MoneyRange_def MAX_MONEY_def COIN_def word_sle_eq)

end
