(* ===== verification/NetAddr.thy ===== *)
theory NetAddr
  imports Money
begin

text \<open>
  src/netbase.cpp and src/netbase.h: network addresses, their classification, groups and
  reachability, services (address and port), the special names of hidden services, name lookup and
  the proxy settings. A CNetAddr is its 16 bytes in network order. The C library's getaddrinfo and
  getnameinfo are parameters; USE_IPV6 is defined, as in the default build.
\<close>

subsection \<open>Addresses\<close>

type_synonym CNetAddr = "byte list"

definition NetAddr_Init :: CNetAddr where "NetAddr_Init = replicate 16 0"

definition pchIPv4 :: "byte list" where "pchIPv4 = [0, 0, 0, 0, 0, 0, 0, 0, 0, 0, 0xff, 0xff]"
definition pchOnionCat :: "byte list" where "pchOnionCat = [0xFD, 0x87, 0xD8, 0x7E, 0xEB, 0x43]"
definition pchGarliCat :: "byte list" where "pchGarliCat = [0xFD, 0x60, 0xDB, 0x4D, 0xDD, 0xB5]"

definition starts_with :: "byte list \<Rightarrow> byte list \<Rightarrow> bool" where \<comment> \<open>memcmp with the array's size is 0\<close>
  "starts_with ip p \<longleftrightarrow> take (length p) ip = p"

definition NetAddr_of_in_addr :: "byte list \<Rightarrow> CNetAddr" where "NetAddr_of_in_addr ipv4 = pchIPv4 @ ipv4"
definition NetAddr_of_in6_addr :: "byte list \<Rightarrow> CNetAddr" where "NetAddr_of_in6_addr ipv6 = ipv6"

definition GetByte :: "CNetAddr \<Rightarrow> nat \<Rightarrow> nat" where "GetByte ip n = unat (ip ! (15 - n))"

definition IsIPv4 :: "CNetAddr \<Rightarrow> bool" where "IsIPv4 ip \<longleftrightarrow> starts_with ip pchIPv4"
definition IsTor :: "CNetAddr \<Rightarrow> bool" where "IsTor ip \<longleftrightarrow> starts_with ip pchOnionCat"
definition IsI2P :: "CNetAddr \<Rightarrow> bool" where "IsI2P ip \<longleftrightarrow> starts_with ip pchGarliCat"
definition IsIPv6 :: "CNetAddr \<Rightarrow> bool" where "IsIPv6 ip \<longleftrightarrow> \<not> IsIPv4 ip \<and> \<not> IsTor ip \<and> \<not> IsI2P ip"

definition IsRFC1918 :: "CNetAddr \<Rightarrow> bool" where
  "IsRFC1918 ip \<longleftrightarrow> IsIPv4 ip \<and>
     (GetByte ip 3 = 10 \<or>
      GetByte ip 3 = 192 \<and> GetByte ip 2 = 168 \<or>
      GetByte ip 3 = 172 \<and> (GetByte ip 2 \<ge> 16 \<and> GetByte ip 2 \<le> 31))"

definition IsRFC3927 :: "CNetAddr \<Rightarrow> bool" where
  "IsRFC3927 ip \<longleftrightarrow> IsIPv4 ip \<and> (GetByte ip 3 = 169 \<and> GetByte ip 2 = 254)"

definition IsRFC3849 :: "CNetAddr \<Rightarrow> bool" where
  "IsRFC3849 ip \<longleftrightarrow> GetByte ip 15 = 0x20 \<and> GetByte ip 14 = 0x01 \<and> GetByte ip 13 = 0x0D \<and> GetByte ip 12 = 0xB8"

definition IsRFC3964 :: "CNetAddr \<Rightarrow> bool" where
  "IsRFC3964 ip \<longleftrightarrow> GetByte ip 15 = 0x20 \<and> GetByte ip 14 = 0x02"

definition IsRFC6052 :: "CNetAddr \<Rightarrow> bool" where
  "IsRFC6052 ip \<longleftrightarrow> starts_with ip [0, 0x64, 0xFF, 0x9B, 0, 0, 0, 0, 0, 0, 0, 0]"

definition IsRFC4380 :: "CNetAddr \<Rightarrow> bool" where
  "IsRFC4380 ip \<longleftrightarrow> GetByte ip 15 = 0x20 \<and> GetByte ip 14 = 0x01 \<and> GetByte ip 13 = 0 \<and> GetByte ip 12 = 0"

definition IsRFC4862 :: "CNetAddr \<Rightarrow> bool" where
  "IsRFC4862 ip \<longleftrightarrow> starts_with ip [0xFE, 0x80, 0, 0, 0, 0, 0, 0]"

definition IsRFC4193 :: "CNetAddr \<Rightarrow> bool" where
  "IsRFC4193 ip \<longleftrightarrow> GetByte ip 15 AND 0xFE = 0xFC"

definition IsRFC6145 :: "CNetAddr \<Rightarrow> bool" where
  "IsRFC6145 ip \<longleftrightarrow> starts_with ip [0, 0, 0, 0, 0, 0, 0, 0, 0xFF, 0xFF, 0, 0]"

definition IsRFC4843 :: "CNetAddr \<Rightarrow> bool" where
  "IsRFC4843 ip \<longleftrightarrow> GetByte ip 15 = 0x20 \<and> GetByte ip 14 = 0x01 \<and> GetByte ip 13 = 0 \<and> GetByte ip 12 AND 0xF0 = 0x10"

definition IsLocal :: "CNetAddr \<Rightarrow> bool" where
  "IsLocal ip \<longleftrightarrow>
     (if IsIPv4 ip \<and> (GetByte ip 3 = 127 \<or> GetByte ip 3 = 0) then True
      else starts_with ip (replicate 15 0 @ [1]))"

definition IsMulticast :: "CNetAddr \<Rightarrow> bool" where
  "IsMulticast ip \<longleftrightarrow> IsIPv4 ip \<and> GetByte ip 3 AND 0xF0 = 0xE0 \<or> GetByte ip 15 = 0xFF"

definition NetAddr_IsValid :: "CNetAddr \<Rightarrow> bool" where
  "NetAddr_IsValid ip \<longleftrightarrow>
     (if starts_with ip (drop 3 pchIPv4) then False
      else if starts_with ip (replicate 16 0) then False
      else if IsRFC3849 ip then False
      else if IsIPv4 ip then
        if starts_with (drop 12 ip) [0xFF, 0xFF, 0xFF, 0xFF] then False \<comment> \<open>INADDR_NONE\<close>
        else if starts_with (drop 12 ip) [0, 0, 0, 0] then False
        else True
      else True)"

definition IsRoutable :: "CNetAddr \<Rightarrow> bool" where
  "IsRoutable ip \<longleftrightarrow> NetAddr_IsValid ip \<and>
     \<not> (IsRFC1918 ip \<or> IsRFC3927 ip \<or> IsRFC4862 ip \<or> (IsRFC4193 ip \<and> \<not> IsTor ip \<and> \<not> IsI2P ip) \<or> IsRFC4843 ip \<or> IsLocal ip)"

datatype Network = NET_UNROUTABLE | NET_IPV4 | NET_IPV6 | NET_TOR | NET_I2P

definition net_int :: "Network \<Rightarrow> nat" where \<comment> \<open>the enum's values\<close>
  "net_int n = (case n of NET_UNROUTABLE \<Rightarrow> 0 | NET_IPV4 \<Rightarrow> 1 | NET_IPV6 \<Rightarrow> 2 | NET_TOR \<Rightarrow> 3 | NET_I2P \<Rightarrow> 4)"

definition GetNetwork :: "CNetAddr \<Rightarrow> Network" where
  "GetNetwork ip =
     (if \<not> IsRoutable ip then NET_UNROUTABLE
      else if IsIPv4 ip then NET_IPV4
      else if IsTor ip then NET_TOR
      else if IsI2P ip then NET_I2P
      else NET_IPV6)"

definition NetAddr_eq :: "CNetAddr \<Rightarrow> CNetAddr \<Rightarrow> bool" where "NetAddr_eq a b \<longleftrightarrow> take 16 a = take 16 b"
definition NetAddr_neq :: "CNetAddr \<Rightarrow> CNetAddr \<Rightarrow> bool" where "NetAddr_neq a b \<longleftrightarrow> take 16 a \<noteq> take 16 b"
definition NetAddr_lt :: "CNetAddr \<Rightarrow> CNetAddr \<Rightarrow> bool" where "NetAddr_lt a b \<longleftrightarrow> lexordp (<) (take 16 a) (take 16 b)"

definition GetInAddr :: "CNetAddr \<Rightarrow> byte list option" where
  "GetInAddr ip = (if \<not> IsIPv4 ip then None else Some (take 4 (drop 12 ip)))"

definition GetIn6Addr :: "CNetAddr \<Rightarrow> byte list option" where
  "GetIn6Addr ip = Some (take 16 ip)"

subsection \<open>Groups\<close>

fun GetGroup_loop :: "CNetAddr \<Rightarrow> nat \<Rightarrow> nat \<Rightarrow> byte list" where \<comment> \<open>nStartByte, nBits\<close>
  "GetGroup_loop ip nStartByte nBits =
     (if nBits \<ge> 8 then word_of_nat (GetByte ip (15 - nStartByte)) # GetGroup_loop ip (nStartByte + 1) (nBits - 8)
      else if nBits > 0 then [word_of_nat (GetByte ip (15 - nStartByte) OR (push_bit nBits 1 - 1))]
      else [])"

declare GetGroup_loop.simps [simp del]

definition GetGroup :: "CNetAddr \<Rightarrow> byte list" where
  "GetGroup ip =
     (let nClass = net_int NET_IPV6; nStartByte = 0; nBits = 16;
          (nClass, nBits) = (if IsLocal ip then (255, 0) else (nClass, nBits));
          push = (\<lambda>nClass nStartByte nBits. word_of_nat nClass # GetGroup_loop ip nStartByte nBits)
      in if \<not> IsRoutable ip then push (net_int NET_UNROUTABLE) nStartByte 0
         else if IsIPv4 ip \<or> IsRFC6145 ip \<or> IsRFC6052 ip then push (net_int NET_IPV4) 12 nBits
         else if IsRFC3964 ip then push (net_int NET_IPV4) 2 nBits
         else if IsRFC4380 ip then
           [word_of_nat (net_int NET_IPV4), word_of_nat (GetByte ip 3 XOR 0xFF), word_of_nat (GetByte ip 2 XOR 0xFF)]
         else if IsTor ip then push (net_int NET_TOR) 6 4
         else if IsI2P ip then push (net_int NET_I2P) 6 4
         else if GetByte ip 15 = 0x20 \<and> GetByte ip 14 = 0x11 \<and> GetByte ip 13 = 0x04 \<and> GetByte ip 12 = 0x70
         then push nClass nStartByte 36
         else push nClass nStartByte 32)"

definition NetAddr_GetHash :: "sha256 \<Rightarrow> CNetAddr \<Rightarrow> u64" where
  "NetAddr_GetHash sha ip = word_of_nat (wval (take 8 (u_bytes (Hash sha ip))))"

subsection \<open>Reachability\<close>

datatype ExtNetwork = Net Network | NET_UNKNOWN | NET_TEREDO

definition GetExtNetwork :: "CNetAddr option \<Rightarrow> ExtNetwork" where
  "GetExtNetwork addr =
     (case addr of
        None \<Rightarrow> NET_UNKNOWN
      | Some a \<Rightarrow> if IsRFC4380 a then NET_TEREDO else Net (GetNetwork a))"

datatype Reachability =
  REACH_UNREACHABLE | REACH_DEFAULT | REACH_TEREDO | REACH_IPV6_WEAK | REACH_IPV4 | REACH_IPV6_STRONG | REACH_PRIVATE

definition GetReachabilityFrom :: "CNetAddr \<Rightarrow> CNetAddr option \<Rightarrow> Reachability" where
  "GetReachabilityFrom ip paddrPartner =
     (if \<not> IsRoutable ip then REACH_UNREACHABLE
      else
        let ourNet = GetExtNetwork (Some ip);
            theirNet = GetExtNetwork paddrPartner;
            fTunnel = (IsRFC3964 ip \<or> IsRFC6052 ip \<or> IsRFC6145 ip)
        in if theirNet = Net NET_IPV4 then
             if ourNet = Net NET_IPV4 then REACH_IPV4 else REACH_DEFAULT
           else if theirNet = Net NET_IPV6 then
             if ourNet = NET_TEREDO then REACH_TEREDO
             else if ourNet = Net NET_IPV4 then REACH_IPV4
             else if ourNet = Net NET_IPV6 then (if fTunnel then REACH_IPV6_WEAK else REACH_IPV6_STRONG)
             else REACH_DEFAULT
           else if theirNet = Net NET_TOR then
             if ourNet = Net NET_IPV4 then REACH_IPV4
             else if ourNet = Net NET_TOR then REACH_PRIVATE
             else REACH_DEFAULT
           else if theirNet = Net NET_I2P then
             if ourNet = Net NET_I2P then REACH_PRIVATE else REACH_DEFAULT
           else if theirNet = NET_TEREDO then
             if ourNet = NET_TEREDO then REACH_TEREDO
             else if ourNet = Net NET_IPV6 then REACH_IPV6_WEAK
             else if ourNet = Net NET_IPV4 then REACH_IPV4
             else REACH_DEFAULT
           else
             if ourNet = NET_TEREDO then REACH_TEREDO
             else if ourNet = Net NET_IPV6 then REACH_IPV6_WEAK
             else if ourNet = Net NET_IPV4 then REACH_IPV4
             else if ourNet = Net NET_I2P then REACH_PRIVATE
             else if ourNet = Net NET_TOR then REACH_PRIVATE
             else REACH_DEFAULT)"

subsection \<open>Services\<close>

record CService =
  svc_ip :: CNetAddr
  svc_port :: u16

definition Service_init :: CService where "Service_init = \<lparr> svc_ip = NetAddr_Init, svc_port = 0 \<rparr>"

definition Service_eq :: "('a CService_scheme) \<Rightarrow> ('b CService_scheme) \<Rightarrow> bool" where
  "Service_eq a b \<longleftrightarrow> NetAddr_eq (svc_ip a) (svc_ip b) \<and> svc_port a = svc_port b"

definition Service_neq :: "('a CService_scheme) \<Rightarrow> ('b CService_scheme) \<Rightarrow> bool" where
  "Service_neq a b \<longleftrightarrow> NetAddr_neq (svc_ip a) (svc_ip b) \<or> svc_port a \<noteq> svc_port b"

definition Service_lt :: "('a CService_scheme) \<Rightarrow> ('b CService_scheme) \<Rightarrow> bool" where
  "Service_lt a b \<longleftrightarrow> NetAddr_lt (svc_ip a) (svc_ip b) \<or> (NetAddr_eq (svc_ip a) (svc_ip b) \<and> svc_port a < svc_port b)"

definition GetKey :: "('a CService_scheme) \<Rightarrow> byte list" where
  "GetKey a = take 16 (svc_ip a) @ [word_of_nat (unat (svc_port a) div 0x100), ucast (svc_port a AND 0x0FF)]"

text \<open>htons and ntohs: the port's bytes in network order.\<close>

definition ser_CService :: "('a CService_scheme) \<Rightarrow> byte list" where
  "ser_CService a = take 16 (svc_ip a) @ rev (words_of 2 (unat (svc_port a)))"

definition unser_CService :: "'s rd \<Rightarrow> 's \<Rightarrow> (CService \<times> 's) option" where
  "unser_CService rd s =
     do { (addr, s) \<leftarrow> rd s 16;
          (portN, s) \<leftarrow> rd s 2;
          Some (\<lparr> svc_ip = addr, svc_port = word_of_nat (wval (rev portN)) \<rparr>, s) }"

text \<open>A socket address: its family, address bytes and port (host order).\<close>

datatype sockaddr = AF_INET "byte list" u16 | AF_INET6 "byte list" u16 | AF_OTHER

definition GetSockAddr :: "('a CService_scheme) \<Rightarrow> nat \<Rightarrow> (sockaddr \<times> nat) option" where \<comment> \<open>addrlen in and out\<close>
  "GetSockAddr a addrlen =
     (if IsIPv4 (svc_ip a) then
        if addrlen < 16 then None
        else (case GetInAddr (svc_ip a) of None \<Rightarrow> None | Some v4 \<Rightarrow> Some (AF_INET v4 (svc_port a), 16))
      else if IsIPv6 (svc_ip a) then
        if addrlen < 28 then None
        else (case GetIn6Addr (svc_ip a) of None \<Rightarrow> None | Some v6 \<Rightarrow> Some (AF_INET6 v6 (svc_port a), 28))
      else None)"

definition SetSockAddr :: "sockaddr \<Rightarrow> CService option" where \<comment> \<open>None: return false, the service is unchanged\<close>
  "SetSockAddr paddr =
     (case paddr of
        AF_INET v4 port \<Rightarrow> Some \<lparr> svc_ip = NetAddr_of_in_addr v4, svc_port = port \<rparr>
      | AF_INET6 v6 port \<Rightarrow> Some \<lparr> svc_ip = NetAddr_of_in6_addr v6, svc_port = port \<rparr>
      | AF_OTHER \<Rightarrow> None)"

subsection \<open>Names\<close>

definition ends_with :: "string \<Rightarrow> string \<Rightarrow> bool" where
  "ends_with strName suffix \<longleftrightarrow>
     length strName > length suffix \<and> drop (length strName - length suffix) strName = suffix"

definition SetSpecial :: "CNetAddr \<Rightarrow> string \<Rightarrow> bool \<times> CNetAddr" where
  "SetSpecial ip strName =
     (if ends_with strName ''.onion'' then
        let vchAddr = fst (DecodeBase32 (c_str (take (length strName - 6) strName)))
        in if length vchAddr \<noteq> 16 - length pchOnionCat then (False, ip)
           else (True, pchOnionCat @ vchAddr)
      else if ends_with strName ''.oc.b32.i2p'' then
        let vchAddr = fst (DecodeBase32 (c_str (take (length strName - 11) strName)))
        in if length vchAddr \<noteq> 16 - length pchGarliCat then (False, ip)
           else (True, take (length pchGarliCat) pchOnionCat @ vchAddr)
      else (False, ip))"

definition hex_str :: "nat \<Rightarrow> string" where \<comment> \<open>printf's %x\<close>
  "hex_str n = (if n = 0 then ''0'' else rev (digits 16 n))"

definition ToStringIP :: "(sockaddr \<Rightarrow> string option) \<Rightarrow> CNetAddr \<Rightarrow> string" where \<comment> \<open>getnameinfo first\<close>
  "ToStringIP getnameinfo ip =
     (if IsTor ip then EncodeBase32 (take 10 (drop 6 ip)) @ ''.onion''
      else if IsI2P ip then EncodeBase32 (take 10 (drop 6 ip)) @ ''.oc.b32.i2p''
      else
        let serv = \<lparr> svc_ip = ip, svc_port = 0 \<rparr>;
            plain =
              (if IsIPv4 ip then
                 dec_str (GetByte ip 3) @ ''.'' @ dec_str (GetByte ip 2) @ ''.'' @ dec_str (GetByte ip 1) @ ''.'' @ dec_str (GetByte ip 0)
               else
                 let g = (\<lambda>i. hex_str (push_bit 8 (GetByte ip (i + 1)) OR GetByte ip i))
                 in g 14 @ '':'' @ g 12 @ '':'' @ g 10 @ '':'' @ g 8 @ '':'' @ g 6 @ '':'' @ g 4 @ '':'' @ g 2 @ '':'' @ g 0)
        in case GetSockAddr serv 128 of
             Some (sa, _) \<Rightarrow> (case getnameinfo sa of Some name \<Rightarrow> name | None \<Rightarrow> plain)
           | None \<Rightarrow> plain)"

definition ToStringPort :: "('a CService_scheme) \<Rightarrow> string" where
  "ToStringPort a = dec_str (unat (svc_port a))"

definition ToStringIPPort :: "(sockaddr \<Rightarrow> string option) \<Rightarrow> ('a CService_scheme) \<Rightarrow> string" where
  "ToStringIPPort getnameinfo a =
     (if IsIPv4 (svc_ip a) \<or> IsTor (svc_ip a) \<or> IsI2P (svc_ip a)
      then ToStringIP getnameinfo (svc_ip a) @ '':'' @ ToStringPort a
      else ''['' @ ToStringIP getnameinfo (svc_ip a) @ '']:'' @ ToStringPort a)"

definition to_lower :: "string \<Rightarrow> string" where
  "to_lower s = map (\<lambda>c. let n = of_char c :: nat in if 65 \<le> n \<and> n \<le> 90 then char_of (n + 32) else c) s"

definition ParseNetwork :: "string \<Rightarrow> Network" where
  "ParseNetwork net =
     (let net = to_lower net
      in if net = ''ipv4'' then NET_IPV4
         else if net = ''ipv6'' then NET_IPV6
         else if net = ''tor'' then NET_TOR
         else if net = ''i2p'' then NET_I2P
         else NET_UNROUTABLE)"

subsection \<open>Lookup\<close>

text \<open>
  strtol with base 10: the value (clamped to a long) and what follows the number; with no digits
  the value is 0 and nothing is consumed.
\<close>

definition strtol :: "string \<Rightarrow> int \<times> string" where
  "strtol s =
     (let t = dropWhile c_isspace s;
          neg = (t \<noteq> [] \<and> hd t = CHR ''-'');
          u = (if t \<noteq> [] \<and> (hd t = CHR ''-'' \<or> hd t = CHR ''+'') then tl t else t);
          ds = takeWhile c_isdigit u;
          v = foldl (\<lambda>v c. v * 10 + c_digit c) 0 ds
      in if ds = [] then (0, s)
         else (if neg then max (- (2 ^ 63)) (- v) else min (2 ^ 63 - 1) v, dropWhile c_isdigit u))"

definition find_last_of :: "char \<Rightarrow> string \<Rightarrow> nat option" where
  "find_last_of c s =
     (let t = dropWhile (\<lambda>x. x \<noteq> c) (rev s) in if t = [] then None else Some (length t - 1))"

definition SplitHostPort :: "string \<Rightarrow> int \<Rightarrow> int \<times> string" where \<comment> \<open>portOut in and out, hostOut\<close>
  "SplitHostPort inp portOut =
     (let (inp, portOut) =
        (case find_last_of CHR '':'' inp of
           None \<Rightarrow> (inp, portOut)
         | Some colon \<Rightarrow>
             let fBracketed = (inp ! 0 = CHR ''['' \<and> inp ! (colon - 1) = CHR '']'');
                 fMultiColon = find_last_of CHR '':'' (take colon inp) \<noteq> None
             in if colon = 0 \<or> fBracketed \<or> \<not> fMultiColon
                then let (v, endp) = strtol (c_str (drop (colon + 1) inp));
                         n = sint (word_of_int v :: u32) \<comment> \<open>int n = strtol(...)\<close>
                     in if endp = [] \<and> n \<ge> 0
                        then (take colon inp, if n > 0 \<and> n < 0x10000 then n else portOut)
                        else (inp, portOut)
                else (inp, portOut))
      in (portOut,
          if length inp > 0 \<and> inp ! 0 = CHR ''['' \<and> inp ! (length inp - 1) = CHR '']''
          then take (length inp - 2) (drop 1 inp) else inp))"

text \<open>getaddrinfo: None is an error, otherwise the addresses of the list it returns.\<close>

type_synonym resolver = "string \<Rightarrow> bool \<Rightarrow> sockaddr list option" \<comment> \<open>name and fAllowLookup\<close>

definition addr_of :: "sockaddr \<Rightarrow> CNetAddr list" where
  "addr_of sa = (case sa of AF_INET v4 _ \<Rightarrow> [NetAddr_of_in_addr v4] | AF_INET6 v6 _ \<Rightarrow> [NetAddr_of_in6_addr v6] | AF_OTHER \<Rightarrow> [])"

fun LookupIntern_loop :: "nat \<Rightarrow> sockaddr list \<Rightarrow> CNetAddr list \<Rightarrow> CNetAddr list" where
  "LookupIntern_loop nMaxSolutions [] vIP = vIP"
| "LookupIntern_loop nMaxSolutions (ai # aiTrav) vIP =
     (if nMaxSolutions = 0 \<or> length vIP < nMaxSolutions
      then LookupIntern_loop nMaxSolutions aiTrav (vIP @ addr_of ai) else vIP)"

definition LookupIntern :: "resolver \<Rightarrow> string \<Rightarrow> nat \<Rightarrow> bool \<Rightarrow> bool \<times> CNetAddr list" where
  "LookupIntern getaddrinfo pszName nMaxSolutions fAllowLookup =
     (case SetSpecial NetAddr_Init pszName of
        (True, addr) \<Rightarrow> (True, [addr])
      | (False, _) \<Rightarrow>
          (case getaddrinfo pszName fAllowLookup of
             None \<Rightarrow> (False, [])
           | Some aiRes \<Rightarrow> let vIP = LookupIntern_loop nMaxSolutions aiRes [] in (length vIP > 0, vIP)))"

definition LookupHost :: "resolver \<Rightarrow> string \<Rightarrow> nat \<Rightarrow> bool \<Rightarrow> bool \<times> CNetAddr list" where
  "LookupHost getaddrinfo pszName nMaxSolutions fAllowLookup =
     (if pszName = [] then (False, [])
      else let psz = take 255 pszName; \<comment> \<open>strlcpy into a buffer of 256\<close>
               pszHost = (if psz ! 0 = CHR ''['' \<and> psz ! (length psz - 1) = CHR '']'' then butlast (drop 1 psz) else psz)
           in LookupIntern getaddrinfo pszHost nMaxSolutions fAllowLookup)"

definition LookupHostNumeric :: "resolver \<Rightarrow> string \<Rightarrow> nat \<Rightarrow> bool \<times> CNetAddr list" where
  "LookupHostNumeric getaddrinfo pszName nMaxSolutions = LookupHost getaddrinfo pszName nMaxSolutions False"

definition Lookup_all :: "resolver \<Rightarrow> string \<Rightarrow> int \<Rightarrow> bool \<Rightarrow> nat \<Rightarrow> CService list option" where \<comment> \<open>None: return false\<close>
  "Lookup_all getaddrinfo pszName portDefault fAllowLookup nMaxSolutions =
     (if pszName = [] then None
      else let (port, hostname) = SplitHostPort pszName portDefault;
               (fRet, vIP) = LookupIntern getaddrinfo (c_str hostname) nMaxSolutions fAllowLookup
           in if \<not> fRet then None else Some (map (\<lambda>a. \<lparr> svc_ip = a, svc_port = word_of_int port \<rparr>) vIP))"

definition Lookup :: "resolver \<Rightarrow> string \<Rightarrow> int \<Rightarrow> bool \<Rightarrow> CService option" where
  "Lookup getaddrinfo pszName portDefault fAllowLookup =
     (case Lookup_all getaddrinfo pszName portDefault fAllowLookup 1 of
        None \<Rightarrow> None
      | Some vService \<Rightarrow> Some (vService ! 0))"

definition LookupNumeric :: "resolver \<Rightarrow> string \<Rightarrow> int \<Rightarrow> CService option" where
  "LookupNumeric getaddrinfo pszName portDefault = Lookup getaddrinfo pszName portDefault False"

subsection \<open>Proxies\<close>

record proxy_state =
  proxyInfo :: "(CService \<times> int) list" \<comment> \<open>indexed by net_int, NET_MAX = 5 entries\<close>
  nameproxyInfo :: "CService \<times> int"

definition proxy_init :: proxy_state where
  "proxy_init = \<lparr> proxyInfo = replicate 5 (Service_init, 0), nameproxyInfo = (Service_init, 0) \<rparr>"

definition SetProxy :: "Network \<Rightarrow> CService \<Rightarrow> int \<Rightarrow> proxy_state \<Rightarrow> bool \<times> proxy_state" where
  "SetProxy net addrProxy nSocksVersion p =
     (if nSocksVersion \<noteq> 0 \<and> nSocksVersion \<noteq> 4 \<and> nSocksVersion \<noteq> 5 then (False, p)
      else if nSocksVersion \<noteq> 0 \<and> \<not> NetAddr_IsValid (svc_ip addrProxy) then (False, p)
      else (True, p\<lparr> proxyInfo := (proxyInfo p)[net_int net := (addrProxy, nSocksVersion)] \<rparr>))"

definition GetProxy :: "Network \<Rightarrow> proxy_state \<Rightarrow> (CService \<times> int) option" where
  "GetProxy net p = (if snd (proxyInfo p ! net_int net) = 0 then None else Some (proxyInfo p ! net_int net))"

definition SetNameProxy :: "CService \<Rightarrow> int \<Rightarrow> proxy_state \<Rightarrow> bool \<times> proxy_state" where
  "SetNameProxy addrProxy nSocksVersion p =
     (if nSocksVersion \<noteq> 0 \<and> nSocksVersion \<noteq> 5 then (False, p)
      else if nSocksVersion \<noteq> 0 \<and> \<not> NetAddr_IsValid (svc_ip addrProxy) then (False, p)
      else (True, p\<lparr> nameproxyInfo := (addrProxy, nSocksVersion) \<rparr>))"

definition GetNameProxy :: "proxy_state \<Rightarrow> (CService \<times> int) option" where
  "GetNameProxy p = (if snd (nameproxyInfo p) = 0 then None else Some (nameproxyInfo p))"

definition HaveNameProxy :: "proxy_state \<Rightarrow> bool" where
  "HaveNameProxy p \<longleftrightarrow> snd (nameproxyInfo p) \<noteq> 0"

definition IsProxy :: "proxy_state \<Rightarrow> CNetAddr \<Rightarrow> bool" where
  "IsProxy p addr \<longleftrightarrow> list_ex (\<lambda>pi. snd pi \<noteq> 0 \<and> NetAddr_eq addr (svc_ip (fst pi))) (take 5 (proxyInfo p))"

subsection \<open>Names of hidden services\<close>

lemma EncodeBase32_chars: "set (EncodeBase32_loop 0 l bs) \<subseteq> set pbase32 \<union> {CHR ''=''}"
proof -
  have "length pbase32 = 32" by (simp add: pbase32_def)
  then have d: "i < 32 \<Longrightarrow> pbase32 ! i \<in> set pbase32" for i by (metis nth_mem)
  show ?thesis
  proof (induction bs arbitrary: l rule: groups5.induct)
    case (1 a b c d e bs)
    then show ?case unfolding encode32_byte by (simp add: d)
  qed (simp_all only: encode32_byte encode32_end, simp_all add: d)
qed

lemma c_str_id: "CHR 0x00 \<notin> set s \<Longrightarrow> c_str s = s"
  by (simp add: c_str_def takeWhile_eq_all_conv) blast

lemma c_str_EncodeBase32 [simp]: "c_str (EncodeBase32 bs) = EncodeBase32 bs"
proof (rule c_str_id)
  have "CHR 0x00 \<notin> set pbase32" by (simp add: pbase32_def)
  then show "CHR 0x00 \<notin> set (EncodeBase32 bs)"
    using EncodeBase32_chars [of 0 bs] by (auto simp: EncodeBase32_def)
qed

lemma ends_with_append: "ends_with (s @ suffix) suffix \<longleftrightarrow> s \<noteq> []"
  by (auto simp: ends_with_def)

lemma EncodeBase32_Nil: "EncodeBase32 bs = [] \<longleftrightarrow> bs = []"
  by (cases bs) (simp_all add: EncodeBase32_def Let_def)

lemma SetSpecial_onion:
  assumes "length bs = 10"
  shows "SetSpecial a (EncodeBase32 bs @ ''.onion'') = (True, pchOnionCat @ bs)"
  using assms EncodeBase32_Nil [of bs] ends_with_append [of "EncodeBase32 bs" "''.onion''"]
  by (auto simp: SetSpecial_def Base32_roundtrip Let_def pchOnionCat_def)

lemma SetSpecial_i2p:
  assumes "length bs = 10"
  shows "SetSpecial a (EncodeBase32 bs @ ''.oc.b32.i2p'') = (True, pchOnionCat @ bs)"
proof -
  have "\<not> ends_with (EncodeBase32 bs @ ''.oc.b32.i2p'') ''.onion''" by (simp add: ends_with_def)
  then show ?thesis
    using assms EncodeBase32_Nil [of bs] ends_with_append [of "EncodeBase32 bs" "''.oc.b32.i2p''"]
    by (auto simp: SetSpecial_def Base32_roundtrip Let_def pchOnionCat_def pchGarliCat_def)
qed

lemma special_prefix:
  assumes "length a = 16"
  shows "IsTor a \<Longrightarrow> a = pchOnionCat @ drop 6 a" "IsI2P a \<Longrightarrow> a = pchGarliCat @ drop 6 a"
proof -
  have "length pchOnionCat = 6" "length pchGarliCat = 6" by (simp_all add: pchOnionCat_def pchGarliCat_def)
  then show "IsTor a \<Longrightarrow> a = pchOnionCat @ drop 6 a" "IsI2P a \<Longrightarrow> a = pchGarliCat @ drop 6 a"
    unfolding IsTor_def IsI2P_def starts_with_def by (metis append_take_drop_id)+
qed

text \<open>The name printed for a Tor address parses back to it. The name of an I2P address does
  not: SetSpecial accepts it but stores the Tor prefix, so every name it accepts, of either kind,
  becomes a Tor address and never an I2P one.\<close>

theorem special_names_become_tor:
  assumes "length a = 16"
  shows "(IsTor a \<longrightarrow> SetSpecial a0 (ToStringIP getnameinfo a) = (True, a)) \<and>
    (IsI2P a \<longrightarrow> SetSpecial a0 (ToStringIP getnameinfo a) = (True, pchOnionCat @ drop 6 a)) \<and>
    (SetSpecial a0 strName = (True, b) \<longrightarrow> length b = 16 \<and> IsTor b \<and> \<not> IsI2P b)"
proof (intro conjI impI)
  assume "IsTor a"
  then show "SetSpecial a0 (ToStringIP getnameinfo a) = (True, a)"
    using assms special_prefix(1) [OF assms] by (simp add: ToStringIP_def SetSpecial_onion)
next
  assume *: "IsI2P a"
  then have "\<not> IsTor a" by (auto simp: IsTor_def IsI2P_def starts_with_def pchOnionCat_def pchGarliCat_def)
  with * show "SetSpecial a0 (ToStringIP getnameinfo a) = (True, pchOnionCat @ drop 6 a)"
    using assms by (simp add: ToStringIP_def SetSpecial_i2p)
qed (auto simp: SetSpecial_def Let_def IsTor_def IsI2P_def starts_with_def pchOnionCat_def pchGarliCat_def split: if_splits)

theorem special_names_become_tor_witness:
  "SetSpecial NetAddr_Init (ToStringIP (\<lambda>_. None) (pchGarliCat @ [1, 2, 3, 4, 5, 6, 7, 8, 9, 10])) =
     (True, pchOnionCat @ [1, 2, 3, 4, 5, 6, 7, 8, 9, 10])"
  using special_names_become_tor [of "pchGarliCat @ [1, 2, 3, 4, 5, 6, 7, 8, 9, 10]" NetAddr_Init "\<lambda>_. None" "[]" "[]"]
  by (simp add: pchGarliCat_def IsI2P_def starts_with_def)

subsection \<open>Services as text and as bytes\<close>

lemma find_last_of_append: "c \<notin> set t \<Longrightarrow> find_last_of c (s @ c # t) = Some (length s)"
  by (auto simp: find_last_of_def dropWhile_append3 Let_def)

lemma find_last_of_None: "find_last_of c s = None \<longleftrightarrow> c \<notin> set s"
  by (auto simp: find_last_of_def Let_def dropWhile_eq_Nil_conv)

lemma dec_str_digits: "c \<in> set (dec_str n) \<Longrightarrow> c_isdigit c \<and> \<not> c_isspace c \<and> c \<noteq> CHR 0x00 \<and> c \<noteq> CHR '':''"
proof -
  assume "c \<in> set (dec_str n)"
  then obtain d where "d < 10" "c = hex_char d" using dec_str_chars by blast
  then show ?thesis using dec_char [of d] by (auto simp: c_isdigit_def)
qed

lemma dec_str_not_Nil [simp]: "dec_str n \<noteq> []"
  by (simp add: dec_str_def digits_step)

lemma strtol_dec_str:
  assumes "n < 2 ^ 63"
  shows "strtol (dec_str n) = (int n, [])"
proof -
  have a: "\<forall>c\<in>set (dec_str n). c_isdigit c" and b: "\<not> c_isspace (hd (dec_str n))" "c_isdigit (hd (dec_str n))"
    using dec_str_digits [of _ n] by simp_all
  have "foldl (\<lambda>v c. v * 10 + c_digit c) 0 (dec_str n) = int n"
    using foldl_digits [of n] by (simp add: dec_str_def c_digit_def)
  moreover have "hd (dec_str n) \<noteq> CHR ''-''" "hd (dec_str n) \<noteq> CHR ''+''" using b(2) by (auto simp: c_isdigit_def)
  moreover have "dropWhile c_isspace (dec_str n) = dec_str n" using b(1) by (cases "dec_str n") auto
  moreover have t: "takeWhile c_isdigit (dec_str n) = dec_str n" "dropWhile c_isdigit (dec_str n) = []"
    using a by (simp_all add: takeWhile_eq_all_conv)
  ultimately show ?thesis using assms unfolding strtol_def Let_def by (simp add: t)
qed

lemma SplitHostPort_port:
  assumes "CHR '':'' \<notin> set host \<or> host \<noteq> [] \<and> hd host = CHR ''['' \<and> last host = CHR '']''" "host \<noteq> []" "p < 2 ^ 16"
  shows "SplitHostPort (host @ '':'' @ dec_str p) portOut =
    (if p = 0 then portOut else int p,
     if hd host = CHR ''['' \<and> last host = CHR '']'' then butlast (tl host) else host)"
proof -
  have f: "find_last_of CHR '':'' (host @ CHR '':'' # dec_str p) = Some (length host)"
    using dec_str_digits by (intro find_last_of_append) blast
  have c: "c_str (dec_str p) = dec_str p" using dec_str_digits by (intro c_str_id) blast
  have st: "strtol (dec_str p) = (int p, [])" using assms(3) by (intro strtol_dec_str) simp
  have n: "sint (word_of_int (int p) :: u32) = int p"
    using assms(3) sint_small [of "word_of_nat p :: u32"] by (simp add: unat_of_nat)
  have h: "(host @ CHR '':'' # dec_str p) ! 0 = hd host" "(host @ CHR '':'' # dec_str p) ! (length host - 1) = last host"
      "host ! 0 = hd host" "host ! (length host - 1) = last host"
    using assms(2) by (simp_all add: nth_append hd_conv_nth last_conv_nth)
  have sep: "(hd host = CHR ''['' \<and> last host = CHR '']'') \<or> find_last_of CHR '':'' host = None"
    using assms(1) by (auto simp: find_last_of_None)
  have tb: "take (length host - 2) (drop 1 host) = butlast (tl host)"
    by (simp add: butlast_conv_take drop_Suc numeral_2_eq_2)
  have cond: "(length host = 0 \<or> (hd host = CHR ''['' \<and> last host = CHR '']'') \<or> \<not> find_last_of CHR '':'' host \<noteq> None) = True"
    using sep by auto
  have ap: "host @ '':'' @ dec_str p = host @ CHR '':'' # dec_str p"
      "drop (length host + 1) (host @ CHR '':'' # dec_str p) = dec_str p"
      "take (length host) (host @ CHR '':'' # dec_str p) = host" by simp_all
  have "SplitHostPort (host @ '':'' @ dec_str p) portOut =
      (let (inp, portOut) = (host, if int p > 0 \<and> int p < 0x10000 then int p else portOut)
       in (portOut, if length inp > 0 \<and> inp ! 0 = CHR ''['' \<and> inp ! (length inp - 1) = CHR '']''
                    then take (length inp - 2) (drop 1 inp) else inp))"
    unfolding SplitHostPort_def ap f option.case Let_def h(1,2) cond if_True c st case_prod_conv n by simp
  then show ?thesis using assms(2,3) unfolding Let_def case_prod_conv h(3,4) tb by simp
qed

lemma Lookup_Tor:
  assumes "length (svc_ip a) = 16" "IsTor (svc_ip a)"
  shows "Lookup getaddrinfo (ToStringIPPort g a) 0 fAllowLookup = Some \<lparr> svc_ip = svc_ip a, svc_port = svc_port a \<rparr>"
proof -
  define name where "name = ToStringIP g (svc_ip a)"
  have n: "name = EncodeBase32 (take 10 (drop 6 (svc_ip a))) @ ''.onion''" using assms(2) by (simp add: name_def ToStringIP_def)
  have sp: "SetSpecial NetAddr_Init name = (True, svc_ip a)"
    unfolding n using assms special_prefix(1) [OF assms] by (simp add: SetSpecial_onion)
  have "CHR '':'' \<notin> set pbase32" "CHR 0x00 \<notin> set pbase32" "CHR ''['' \<notin> set pbase32" by (simp_all add: pbase32_def)
  then have c: "CHR '':'' \<notin> set name" "CHR 0x00 \<notin> set name" "CHR ''['' \<notin> set name"
    using EncodeBase32_chars [of 0] by (auto simp: n EncodeBase32_def)
  then have h: "name \<noteq> []" "hd name \<noteq> CHR ''[''" by (simp add: n, metis hd_in_set append_is_Nil_conv list.distinct(1) n)
  have p: "unat (svc_port a) < 2 ^ 16" using unat_lt_2p [of "svc_port a"] by simp
  have t: "ToStringIPPort g a = name @ '':'' @ dec_str (unat (svc_port a))"
    using assms(2) by (simp add: ToStringIPPort_def ToStringPort_def name_def)
  have "SplitHostPort (ToStringIPPort g a) 0 = (int (unat (svc_port a)), name)"
    unfolding t using SplitHostPort_port [OF disjI1 [OF c(1)] h(1) p, of 0] h(2) by (simp add: unsigned_eq_0_iff)
  moreover have "ToStringIPPort g a \<noteq> []" by (simp add: t)
  ultimately show ?thesis
    using sp c_str_id [OF c(2)] by (simp add: Lookup_def Lookup_all_def LookupIntern_def)
qed

lemma SetSockAddr_Get:
  assumes "length (svc_ip a) = 16" "GetSockAddr a n = Some (sa, m)"
  shows "SetSockAddr sa = Some \<lparr> svc_ip = svc_ip a, svc_port = svc_port a \<rparr> \<and> m \<le> n \<and> \<not> IsTor (svc_ip a) \<and> \<not> IsI2P (svc_ip a)"
proof (cases "IsIPv4 (svc_ip a)")
  case True
  have "length pchIPv4 = 12" by (simp add: pchIPv4_def)
  then have e: "svc_ip a = pchIPv4 @ drop 12 (svc_ip a)"
    using True append_take_drop_id [of 12 "svc_ip a"] by (simp add: IsIPv4_def starts_with_def)
  have "take 4 (drop 12 (svc_ip a)) = drop 12 (svc_ip a)" using assms(1) by simp
  moreover have "\<not> IsTor (svc_ip a)" "\<not> IsI2P (svc_ip a)"
    by (subst e, simp add: IsTor_def IsI2P_def starts_with_def pchOnionCat_def pchGarliCat_def pchIPv4_def)+
  ultimately show ?thesis using True assms(2) e
    by (auto simp: GetSockAddr_def GetInAddr_def SetSockAddr_def NetAddr_of_in_addr_def split: if_splits)
next
  case False
  then show ?thesis using assms
    by (auto simp: GetSockAddr_def GetIn6Addr_def SetSockAddr_def NetAddr_of_in6_addr_def IsIPv6_def split: if_splits)
qed

context istream
begin

lemma reads_CService:
  assumes "length (svc_ip a) = 16"
  shows "reads ok rest (unser_CService rd) (ser_CService a) \<lparr> svc_ip = svc_ip a, svc_port = svc_port a \<rparr>"
proof -
  let ?p = "rev (words_of 2 (unat (svc_port a))) :: byte list"
  have v: "word_of_nat (wval (rev ?p)) = svc_port a"
    using unat_lt_2p [of "svc_port a"] by (simp add: wval_words_of)
  have l: "length (take 16 (svc_ip a)) = 16" "length ?p = 2" using assms by simp_all
  have r2: "reads ok rest (\<lambda>s. do { (portN, s) \<leftarrow> rd s 2;
      Some (\<lparr> svc_ip = b, svc_port = word_of_nat (wval (rev portN)) \<rparr>, s) }) ?p \<lparr> svc_ip = b, svc_port = svc_port a \<rparr>" for b
    using reads_map [OF reads_rd [of ?p], of "\<lambda>portN. \<lparr> svc_ip = b, svc_port = word_of_nat (wval (rev portN)) \<rparr>"]
    unfolding l v by simp
  have r1: "reads ok rest (\<lambda>s. rd s 16) (take 16 (svc_ip a)) (take 16 (svc_ip a))"
    using reads_rd [of "take 16 (svc_ip a)"] unfolding l .
  show ?thesis
    using reads_bind [OF r1 r2] assms by (simp add: unser_CService_def [abs_def] ser_CService_def)
qed

end

subsection \<open>Groups\<close>

lemma GetByte_word [simp]: "word_of_nat (GetByte a n) = a ! (15 - n)"
  by (simp add: GetByte_def)

lemma GetGroup_loop_prefix:
  "k < 8 \<Longrightarrow> n + m < 16 \<Longrightarrow> GetGroup_loop a n (8 * m + k) =
     map (\<lambda>i. a ! i) [n..<n + m] @ (if k = 0 then [] else [word_of_nat (GetByte a (15 - (n + m)) OR (push_bit k 1 - 1))])"
proof (induction m arbitrary: n)
  case (Suc m)
  have "[n..<n + Suc m] = n # [Suc n..<Suc n + m]" by (simp add: upt_conv_Cons)
  then show ?case using Suc.IH [of "Suc n"] Suc.prems
    by (subst GetGroup_loop.simps) simp
qed (subst GetGroup_loop.simps, simp)

lemma byte_or_nat: "word_of_nat (unat b OR n) = b OR word_of_nat n" for b :: byte
  by (rule bit_eqI) (auto simp: bit_simps)

text \<open>
  The group of an address is its network class and a prefix: 16 bits of the IPv4 address it is or
  embeds, 4 bits of a hidden service's key, 32 or (for he.net) 36 bits of an IPv6 address. An
  address that is not routable has the group 0, local ones too.
\<close>

lemma GetGroup_prefix:
  "GetGroup a =
    (if \<not> IsRoutable a then [0]
     else if IsIPv4 a \<or> IsRFC6145 a \<or> IsRFC6052 a then [1, a ! 12, a ! 13]
     else if IsRFC3964 a then [1, a ! 2, a ! 3]
     else if IsRFC4380 a then [1, NOT (a ! 12), NOT (a ! 13)]
     else if IsTor a then [3, a ! 6 OR 15]
     else if IsI2P a then [4, a ! 6 OR 15]
     else if GetByte a 15 = 0x20 \<and> GetByte a 14 = 0x11 \<and> GetByte a 13 = 0x04 \<and> GetByte a 12 = 0x70
     then [2, a ! 0, a ! 1, a ! 2, a ! 3, a ! 4 OR 15]
     else [2, a ! 0, a ! 1, a ! 2, a ! 3])"
proof -
  have l: "IsRoutable a \<Longrightarrow> \<not> IsLocal a" by (simp add: IsRoutable_def)
  have x: "word_of_nat (unat b XOR 255) = NOT b" for b :: byte
  proof -
    have m: "(255 :: nat) = mask 8" by (simp add: mask_eq_exp_minus_1)
    show ?thesis unfolding m by (rule bit_eqI) (auto simp: bit_simps)
  qed
  note p = GetGroup_loop_prefix [of 0 _ 2 a] GetGroup_loop_prefix [of 4 _ 0 a] GetGroup_loop_prefix [of 4 _ 4 a]
    GetGroup_loop_prefix [of 0 _ 4 a] GetGroup_loop_prefix [of 0 _ 0 a]
  show ?thesis
    using p by (simp add: GetGroup_def net_int_def l upt_rec) (simp add: GetByte_def x byte_or_nat push_bit_eq_mult numeral_2_eq_2 numeral_3_eq_3)
qed

lemma group_never_local: "hd (GetGroup a) \<noteq> 255"
  by (subst GetGroup_prefix) simp

end
