(* ===== verification/AddrMan.thy ===== *)
theory AddrMan
  imports NetAddr Complex_Main
begin

text \<open>
  src/addrman.h and src/addrman.cpp: the table of known peers (with CAddress of src/protocol.h).
  A pointer or reference into mapInfo is the id of its entry; a failed assert is None. GetRandInt
  takes its random number from the argument \<open>R\<close>, the draws of the call in the order the code makes
  them; int64 times are their values; the double of GetChance is a real number. The clock
  (GetAdjustedTime) is read once per call.
\<close>

subsection \<open>Addresses and entries\<close>

record CAddress = CService +
  nServices :: u64
  adr_nTime :: u32
  nLastTry :: int

definition NODE_NETWORK :: u64 where "NODE_NETWORK = 1"

definition Address_init :: CAddress where
  "Address_init = \<lparr> svc_ip = NetAddr_Init, svc_port = 0, nServices = NODE_NETWORK, adr_nTime = 100000000, nLastTry = 0 \<rparr>"

definition Address_of_service :: "CService \<Rightarrow> u64 \<Rightarrow> CAddress" where
  "Address_of_service ipIn nServicesIn =
     Address_init\<lparr> svc_ip := svc_ip ipIn, svc_port := svc_port ipIn, nServices := nServicesIn \<rparr>"

record CAddrInfo = CAddress +
  source :: CNetAddr
  nLastSuccess :: int
  nAttempts :: int
  nRefCount :: int
  fInTried :: bool
  nRandomPos :: int

definition AddrInfo_of :: "CAddress \<Rightarrow> CNetAddr \<Rightarrow> CAddrInfo" where \<comment> \<open>the constructor, with Init()\<close>
  "AddrInfo_of addrIn addrSource =
     \<lparr> svc_ip = svc_ip addrIn, svc_port = svc_port addrIn, nServices = nServices addrIn,
       adr_nTime = adr_nTime addrIn, nLastTry = 0, source = addrSource, nLastSuccess = 0, nAttempts = 0,
       nRefCount = 0, fInTried = False, nRandomPos = - 1 \<rparr>"

definition AddrInfo_init :: CAddrInfo where
  "AddrInfo_init = AddrInfo_of Address_init NetAddr_Init"

definition Address_of_info :: "CAddrInfo \<Rightarrow> CAddress" where \<comment> \<open>the base-class part of an entry\<close>
  "Address_of_info i =
     \<lparr> svc_ip = svc_ip i, svc_port = svc_port i, nServices = nServices i, adr_nTime = adr_nTime i, nLastTry = nLastTry i \<rparr>"

definition GetTriedBucket :: "sha256 \<Rightarrow> byte list \<Rightarrow> CAddrInfo \<Rightarrow> nat" where
  "GetTriedBucket sha nKey i =
     (let vchKey = GetKey i;
          hash1 = u_Get64 (Hash sha (ser_vch nKey @ ser_vch vchKey)) 0;
          vchGroupKey = GetGroup (svc_ip i);
          hash2 = u_Get64 (Hash sha (ser_vch nKey @ ser_vch vchGroupKey @ WRITEDATA (hash1 mod 4))) 0
      in unat (hash2 mod 64))"

definition GetNewBucket :: "sha256 \<Rightarrow> byte list \<Rightarrow> CNetAddr \<Rightarrow> CAddrInfo \<Rightarrow> nat" where
  "GetNewBucket sha nKey src i =
     (let vchGroupKey = GetGroup (svc_ip i);
          vchSourceGroupKey = GetGroup src;
          hash1 = u_Get64 (Hash sha (ser_vch nKey @ ser_vch vchGroupKey @ ser_vch vchSourceGroupKey)) 0;
          hash2 = u_Get64 (Hash sha (ser_vch nKey @ ser_vch vchSourceGroupKey @ WRITEDATA (hash1 mod 32))) 0
      in unat (hash2 mod 256))"

definition IsTerrible :: "int \<Rightarrow> CAddrInfo \<Rightarrow> bool" where
  "IsTerrible nNow i =
     (let nTime = uint (adr_nTime i)
      in if nLastTry i \<noteq> 0 \<and> nLastTry i \<ge> nNow - 60 then False
         else if nTime > nNow + 10 * 60 then True
         else if nTime = 0 \<or> nNow - nTime > 30 * 86400 then True
         else if nLastSuccess i = 0 \<and> nAttempts i \<ge> 3 then True
         else if nNow - nLastSuccess i > 7 * 86400 \<and> nAttempts i \<ge> 10 then True
         else False)"

definition GetChance :: "int \<Rightarrow> CAddrInfo \<Rightarrow> real" where
  "GetChance nNow i =
     (let nSinceLastSeen = max 0 (nNow - uint (adr_nTime i));
          nSinceLastTry = max 0 (nNow - nLastTry i);
          fChance = 1 * (600 / (600 + real_of_int nSinceLastSeen));
          fChance = (if nSinceLastTry < 60 * 10 then fChance * 0.01 else fChance)
      in fChance / 1.5 ^ nat (nAttempts i))"

subsection \<open>The manager\<close>

record CAddrMan =
  nKey :: "byte list"
  nIdCount :: int
  mapInfo :: "int \<rightharpoonup> CAddrInfo"
  mapAddr :: "CNetAddr \<rightharpoonup> int"
  vRandom :: "int list"
  nTried :: int
  vvTried :: "int list list"
  nNew :: int
  vvNew :: "int set list"

definition AddrMan_init :: "byte list \<Rightarrow> CAddrMan" where \<comment> \<open>the argument is the random key\<close>
  "AddrMan_init key =
     \<lparr> nKey = key, nIdCount = 0, mapInfo = Map.empty, mapAddr = Map.empty, vRandom = [], nTried = 0,
       vvTried = replicate 64 [], nNew = 0, vvNew = replicate 256 {} \<rparr>"

definition GetRandInt :: "nat \<Rightarrow> nat \<Rightarrow> nat" where \<comment> \<open>the accepted draw nRand, and nMax\<close>
  "GetRandInt nRand nMax = (if nMax = 0 then 0 else nRand mod nMax)"

text \<open>Writing through a reference to an entry, and mapInfo[n], which creates a missing entry.\<close>

definition upd :: "int \<Rightarrow> (CAddrInfo \<Rightarrow> CAddrInfo) \<Rightarrow> CAddrMan \<Rightarrow> CAddrMan" where
  "upd n f am = am\<lparr> mapInfo := (mapInfo am)(n := map_option f (mapInfo am n)) \<rparr>"

definition info_at :: "CAddrMan \<Rightarrow> int \<Rightarrow> CAddrInfo" where
  "info_at am n = (case mapInfo am n of Some i \<Rightarrow> i | None \<Rightarrow> AddrInfo_init)"

definition touch :: "int \<Rightarrow> CAddrMan \<Rightarrow> CAddrMan" where
  "touch n am = (if mapInfo am n = None then am\<lparr> mapInfo := (mapInfo am)(n \<mapsto> AddrInfo_init) \<rparr> else am)"

definition has_id :: "CAddrMan \<Rightarrow> int \<Rightarrow> bool" where "has_id am n \<longleftrightarrow> mapInfo am n \<noteq> None" \<comment> \<open>mapInfo.count\<close>

definition size_am :: "CAddrMan \<Rightarrow> nat" where "size_am am = length (vRandom am)"

definition Find :: "CNetAddr \<Rightarrow> CAddrMan \<Rightarrow> int option" where
  "Find addr am =
     (case mapAddr am addr of
        None \<Rightarrow> None
      | Some n \<Rightarrow> if has_id am n then Some n else None)"

definition Create :: "CAddress \<Rightarrow> CNetAddr \<Rightarrow> CAddrMan \<Rightarrow> int \<times> CAddrMan" where
  "Create addr addrSource am =
     (let nId = nIdCount am;
          info = (AddrInfo_of addr addrSource)\<lparr> nRandomPos := int (length (vRandom am)) \<rparr>
      in (nId, am\<lparr> nIdCount := nIdCount am + 1,
                   mapInfo := (mapInfo am)(nId \<mapsto> info),
                   mapAddr := (mapAddr am)(svc_ip addr \<mapsto> nId),
                   vRandom := vRandom am @ [nId] \<rparr>))"

definition SwapRandom :: "nat \<Rightarrow> nat \<Rightarrow> CAddrMan \<Rightarrow> CAddrMan option" where
  "SwapRandom nRndPos1 nRndPos2 am =
     (if nRndPos1 = nRndPos2 then Some am
      else if \<not> (nRndPos1 < length (vRandom am) \<and> nRndPos2 < length (vRandom am)) then None
      else let nId1 = vRandom am ! nRndPos1; nId2 = vRandom am ! nRndPos2
           in if \<not> has_id am nId1 then None
              else if \<not> has_id am nId2 then None
              else let am = upd nId1 (\<lambda>i. i\<lparr> nRandomPos := int nRndPos2 \<rparr>) am;
                       am = upd nId2 (\<lambda>i. i\<lparr> nRandomPos := int nRndPos1 \<rparr>) am
                   in Some (am\<lparr> vRandom := (vRandom am)[nRndPos1 := nId2, nRndPos2 := nId1] \<rparr>))"

subsection \<open>Evicting from a bucket\<close>

text \<open>The loop of SelectTried; the first argument counts the remaining iterations.\<close>

fun SelectTried_loop ::
  "nat \<Rightarrow> (nat \<Rightarrow> nat) \<Rightarrow> nat \<Rightarrow> nat \<Rightarrow> int \<Rightarrow> int \<Rightarrow> CAddrMan \<Rightarrow> (int \<times> CAddrMan) option" where
  "SelectTried_loop 0 R nKBucket i nOldest nOldestPos am = Some (nOldestPos, am)"
| "SelectTried_loop (Suc n) R nKBucket i nOldest nOldestPos am =
     (let vTried = vvTried am ! nKBucket;
          nPos = GetRandInt (R i) (length vTried - i) + i;
          nTemp = vTried ! nPos;
          vTried = (vTried[nPos := vTried ! i])[i := nTemp];
          am = am\<lparr> vvTried := (vvTried am)[nKBucket := vTried] \<rparr>
      in if \<not> (nOldest = - 1 \<or> has_id am nTemp) then None
         else let am = (if nOldest = - 1 then am else touch nOldest (touch nTemp am))
              in if nOldest = - 1 \<or> nLastSuccess (info_at am nTemp) < nLastSuccess (info_at am nOldest)
                 then SelectTried_loop n R nKBucket (i + 1) nTemp (int nPos) am
                 else SelectTried_loop n R nKBucket (i + 1) nOldest nOldestPos am)"

definition SelectTried :: "(nat \<Rightarrow> nat) \<Rightarrow> nat \<Rightarrow> CAddrMan \<Rightarrow> (int \<times> CAddrMan) option" where
  "SelectTried R nKBucket am =
     SelectTried_loop (min 4 (length (vvTried am ! nKBucket))) R nKBucket 0 (- 1) (- 1) am"

text \<open>Dropping one reference to an entry, as both halves of ShrinkNew do.\<close>

definition unref :: "int \<Rightarrow> CAddrMan \<Rightarrow> CAddrMan option" where
  "unref n am =
     (let am = upd n (\<lambda>i. i\<lparr> nRefCount := nRefCount i - 1 \<rparr>) am
      in if nRefCount (info_at am n) = 0 then
           do { am \<leftarrow> SwapRandom (nat (nRandomPos (info_at am n) mod 2 ^ 32))
                  (nat ((int (length (vRandom am)) - 1) mod 2 ^ 32)) am;
                let am = am\<lparr> vRandom := butlast (vRandom am) \<rparr>;
                    am = am\<lparr> mapAddr := (mapAddr am)(svc_ip (info_at am n) := None) \<rparr>;
                    am = am\<lparr> mapInfo := (mapInfo am)(n := None) \<rparr>
                in Some (am\<lparr> nNew := nNew am - 1 \<rparr>) }
         else Some am)"

definition erase_from_bucket :: "nat \<Rightarrow> int \<Rightarrow> CAddrMan \<Rightarrow> CAddrMan" where \<comment> \<open>vNew.erase\<close>
  "erase_from_bucket nUBucket n am = am\<lparr> vvNew := (vvNew am)[nUBucket := (vvNew am ! nUBucket) - {n}] \<rparr>"

fun ShrinkNew_terrible :: "int \<Rightarrow> CAddrMan \<Rightarrow> int list \<Rightarrow> int option option" where \<comment> \<open>outer None: the assert\<close>
  "ShrinkNew_terrible nNow am [] = Some None"
| "ShrinkNew_terrible nNow am (it # its) =
     (if \<not> has_id am it then None
      else if IsTerrible nNow (info_at am it) then Some (Some it)
      else ShrinkNew_terrible nNow am its)"

fun ShrinkNew_oldest :: "nat list \<Rightarrow> nat \<Rightarrow> int \<Rightarrow> int list \<Rightarrow> CAddrMan \<Rightarrow> (int \<times> CAddrMan) option" where
  "ShrinkNew_oldest n nI nOldest [] am = Some (nOldest, am)"
| "ShrinkNew_oldest n nI nOldest (it # its) am =
     (if nI \<in> set n then
        if \<not> (nOldest = - 1 \<or> has_id am it) then None
        else let am = (if nOldest = - 1 then am else touch nOldest (touch it am))
             in if nOldest = - 1 \<or> adr_nTime (info_at am it) < adr_nTime (info_at am nOldest)
                then ShrinkNew_oldest n (nI + 1) it its am
                else ShrinkNew_oldest n (nI + 1) nOldest its am
      else ShrinkNew_oldest n (nI + 1) nOldest its am)"

definition ShrinkNew :: "(nat \<Rightarrow> nat) \<Rightarrow> int \<Rightarrow> nat \<Rightarrow> CAddrMan \<Rightarrow> (int \<times> CAddrMan) option" where
  "ShrinkNew R nNow nUBucket am =
     (if \<not> nUBucket < length (vvNew am) then None
      else
        let vNew = vvNew am ! nUBucket; its = sorted_list_of_set vNew
        in do { t \<leftarrow> ShrinkNew_terrible nNow am its;
                case t of
                  Some it \<Rightarrow> do { am \<leftarrow> unref it am; Some (0, erase_from_bucket nUBucket it am) }
                | None \<Rightarrow>
                    let n = map (\<lambda>k. GetRandInt (R k) (card vNew)) [0, 1, 2, 3]
                    in do { (nOldest, am) \<leftarrow> ShrinkNew_oldest n 0 (- 1) its am;
                            if \<not> has_id am nOldest then None
                            else do { am \<leftarrow> unref nOldest am; Some (1, erase_from_bucket nUBucket nOldest am) } } })"

subsection \<open>Moving entries to the tried table\<close>

definition erase_from_new :: "int \<Rightarrow> CAddrMan \<Rightarrow> CAddrMan" where \<comment> \<open>out of every new bucket that holds it\<close>
  "erase_from_new nId am =
     (let k = length (filter (\<lambda>vNew. nId \<in> vNew) (vvNew am))
      in upd nId (\<lambda>i. i\<lparr> nRefCount := nRefCount i - int k \<rparr>)
           (am\<lparr> vvNew := map (\<lambda>vNew. vNew - {nId}) (vvNew am) \<rparr>))"

definition MakeTried :: "sha256 \<Rightarrow> (nat \<Rightarrow> nat) \<Rightarrow> int \<Rightarrow> nat \<Rightarrow> CAddrMan \<Rightarrow> CAddrMan option" where
  "MakeTried sha R nId nOrigin am =
     (if nId \<notin> vvNew am ! nOrigin then None
      else
        let am = erase_from_new nId am;
            am = am\<lparr> nNew := nNew am - 1 \<rparr>
        in if nRefCount (info_at am nId) \<noteq> 0 then None
           else
             let nKBucket = GetTriedBucket sha (nKey am) (info_at am nId);
                 vTried = vvTried am ! nKBucket
             in if length vTried < 64 then
                  Some (upd nId (\<lambda>i. i\<lparr> fInTried := True \<rparr>)
                          (am\<lparr> vvTried := (vvTried am)[nKBucket := vTried @ [nId]], nTried := nTried am + 1 \<rparr>))
                else do {
                  (p, am) \<leftarrow> SelectTried R nKBucket am;
                  let nPos = nat p; vTried = vvTried am ! nKBucket; nOld = vTried ! nPos
                  in if \<not> has_id am nOld then None
                     else
                       let nUBucket = GetNewBucket sha (nKey am) (source (info_at am nOld)) (info_at am nOld);
                           am = upd nOld (\<lambda>i. i\<lparr> fInTried := False, nRefCount := 1 \<rparr>) am;
                           b = (if card (vvNew am ! nUBucket) < 64 then nUBucket else nOrigin);
                           am = am\<lparr> vvNew := (vvNew am)[b := insert nOld (vvNew am ! b)], nNew := nNew am + 1 \<rparr>;
                           am = am\<lparr> vvTried := (vvTried am)[nKBucket := vTried[nPos := nId]] \<rparr>
                       in Some (upd nId (\<lambda>i. i\<lparr> fInTried := True \<rparr>) am) })"

subsection \<open>The operations\<close>

definition Good :: "sha256 \<Rightarrow> (nat \<Rightarrow> nat) \<Rightarrow> CService \<Rightarrow> int \<Rightarrow> CAddrMan \<Rightarrow> CAddrMan option" where
  "Good sha R addr nTime am =
     (case Find (svc_ip addr) am of
        None \<Rightarrow> Some am
      | Some nId \<Rightarrow>
          if Service_neq (info_at am nId) addr then Some am
          else
            let am = upd nId (\<lambda>i. i\<lparr> nLastSuccess := nTime, nLastTry := nTime, adr_nTime := word_of_int nTime, nAttempts := 0 \<rparr>) am
            in if fInTried (info_at am nId) then Some am
               else
                 let nRnd = GetRandInt (R 0) (length (vvNew am))
                 in case find (\<lambda>n. nId \<in> vvNew am ! ((n + nRnd) mod length (vvNew am))) [0..<length (vvNew am)] of
                      None \<Rightarrow> Some am
                    | Some n \<Rightarrow> MakeTried sha (\<lambda>k. R (k + 1)) nId ((n + nRnd) mod length (vvNew am)) am)"

definition Attempt :: "CService \<Rightarrow> int \<Rightarrow> CAddrMan \<Rightarrow> CAddrMan" where
  "Attempt addr nTime am =
     (case Find (svc_ip addr) am of
        None \<Rightarrow> am
      | Some nId \<Rightarrow>
          if Service_neq (info_at am nId) addr then am
          else upd nId (\<lambda>i. i\<lparr> nLastTry := nTime, nAttempts := nAttempts i + 1 \<rparr>) am)"

definition Connected :: "CService \<Rightarrow> int \<Rightarrow> CAddrMan \<Rightarrow> CAddrMan" where
  "Connected addr nTime am =
     (case Find (svc_ip addr) am of
        None \<Rightarrow> am
      | Some nId \<Rightarrow>
          if Service_neq (info_at am nId) addr then am
          else let nUpdateInterval = 20 * 60
               in if nTime - uint (adr_nTime (info_at am nId)) > nUpdateInterval
                  then upd nId (\<lambda>i. i\<lparr> adr_nTime := word_of_int nTime \<rparr>) am else am)"

text \<open>The entry's time and services refreshed by an announcement of an address already known.\<close>

definition refresh :: "int \<Rightarrow> CAddress \<Rightarrow> int \<Rightarrow> CAddrInfo \<Rightarrow> CAddrInfo" where
  "refresh now addr nTimePenalty i =
     (let t = uint (adr_nTime addr);
          fCurrentlyOnline = (now - t < 24 * 60 * 60);
          nUpdateInterval = (if fCurrentlyOnline then 60 * 60 else 24 * 60 * 60);
          i = (if t \<noteq> 0 \<and> (adr_nTime i = 0 \<or> uint (adr_nTime i) < t - nUpdateInterval - nTimePenalty)
               then i\<lparr> adr_nTime := word_of_int (max 0 (t - nTimePenalty)) \<rparr> else i)
      in i\<lparr> nServices := nServices i OR nServices addr \<rparr>)"

text \<open>The end of Add: put the entry into the new bucket of its source, making room there first.\<close>

definition add_to_bucket ::
  "sha256 \<Rightarrow> (nat \<Rightarrow> nat) \<Rightarrow> int \<Rightarrow> CNetAddr \<Rightarrow> int \<Rightarrow> CAddrMan \<Rightarrow> CAddrMan option" where
  "add_to_bucket sha R now src nId am =
     (let nUBucket = GetNewBucket sha (nKey am) src (info_at am nId); vNew = vvNew am ! nUBucket
      in if nId \<notin> vNew then
           do { let am = upd nId (\<lambda>i. i\<lparr> nRefCount := nRefCount i + 1 \<rparr>) am
                in do { am \<leftarrow> (if card vNew = 64 then do { (_, am) \<leftarrow> ShrinkNew R now nUBucket am; Some am } else Some am);
                        Some (am\<lparr> vvNew := (vvNew am)[nUBucket := insert nId (vvNew am ! nUBucket)] \<rparr>) } }
         else Some am)"

definition Add ::
  "sha256 \<Rightarrow> (nat \<Rightarrow> nat) \<Rightarrow> int \<Rightarrow> CAddress \<Rightarrow> CNetAddr \<Rightarrow> int \<Rightarrow> CAddrMan \<Rightarrow> (bool \<times> CAddrMan) option" where
  "Add sha R now addr src nTimePenalty am =
     (if \<not> IsRoutable (svc_ip addr) then Some (False, am)
      else
        let R' = (\<lambda>k. R (k + 1))
        in case Find (svc_ip addr) am of
             Some nId \<Rightarrow>
               let am = upd nId (refresh now addr nTimePenalty) am; i = info_at am nId
               in if adr_nTime addr = 0 \<or> (adr_nTime i \<noteq> 0 \<and> adr_nTime addr \<le> adr_nTime i) then Some (False, am)
                  else if fInTried i then Some (False, am)
                  else if nRefCount i = 4 then Some (False, am)
                  else
                    let nFactor = 2 ^ nat (nRefCount i)
                    in if nFactor > 1 \<and> GetRandInt (R 0) nFactor \<noteq> 0 then Some (False, am)
                       else do { am \<leftarrow> add_to_bucket sha R' now src nId am; Some (False, am) }
           | None \<Rightarrow>
               let (nId, am) = Create addr src am;
                   am = upd nId (\<lambda>i. i\<lparr> adr_nTime := word_of_int (max 0 (uint (adr_nTime i) - nTimePenalty)) \<rparr>) am;
                   am = am\<lparr> nNew := nNew am + 1 \<rparr>
               in do { am \<leftarrow> add_to_bucket sha R' now src nId am; Some (True, am) })"

text \<open>Add of a vector of addresses; address number j draws from \<open>R j\<close>.\<close>

fun Add_vector ::
  "sha256 \<Rightarrow> (nat \<Rightarrow> nat \<Rightarrow> nat) \<Rightarrow> int \<Rightarrow> CAddress list \<Rightarrow> CNetAddr \<Rightarrow> int \<Rightarrow> CAddrMan \<Rightarrow> (bool \<times> CAddrMan) option" where
  "Add_vector sha R now [] src nTimePenalty am = Some (False, am)"
| "Add_vector sha R now (it # vAddr) src nTimePenalty am =
     do { (b, am) \<leftarrow> Add sha (R 0) now it src nTimePenalty am;
          (c, am) \<leftarrow> Add_vector sha (\<lambda>j. R (j + 1)) now vAddr src nTimePenalty am;
          Some (b \<or> c, am) }"

fun GetAddr_loop :: "nat \<Rightarrow> (nat \<Rightarrow> nat) \<Rightarrow> nat \<Rightarrow> CAddrMan \<Rightarrow> (CAddress list \<times> CAddrMan) option" where
  "GetAddr_loop 0 R n am = Some ([], am)"
| "GetAddr_loop (Suc k) R n am =
     (let nRndPos = GetRandInt (R n) (length (vRandom am) - n) + n
      in do { am \<leftarrow> SwapRandom n nRndPos am;
              if \<not> has_id am (vRandom am ! n) then None
              else let a = Address_of_info (info_at am (vRandom am ! n))
                   in do { (vAddr, am) \<leftarrow> GetAddr_loop k R (n + 1) am; Some (a # vAddr, am) } })"

definition GetAddr :: "(nat \<Rightarrow> nat) \<Rightarrow> CAddrMan \<Rightarrow> (CAddress list \<times> CAddrMan) option" where
  "GetAddr R am =
     (let nNodes = 23 * length (vRandom am) div 100;
          nNodes = (if nNodes > 2500 then 2500 else nNodes)
      in GetAddr_loop nNodes R 0 am)"

text \<open>
  The two loops of Select; \<open>buckets\<close> lists the ids of every bucket of the table in the order an
  iterator visits them. The result is the selected entry's address; a failed assert is the inner
  None, a loop that draws for ever has no result. GetRandInt(1 << 30) is compared with a real.
\<close>

partial_function (option) Select_loop ::
  "int \<Rightarrow> int list list \<Rightarrow> CAddrMan \<Rightarrow> (nat \<Rightarrow> nat) \<Rightarrow> nat \<Rightarrow> real \<Rightarrow> CAddress option option" where
  "Select_loop nNow buckets am R k fChanceFactor =
     (let b = buckets ! GetRandInt (R k) (length buckets)
      in if b = [] then Select_loop nNow buckets am R (k + 1) fChanceFactor
         else let nId = b ! GetRandInt (R (k + 1)) (length b)
              in if \<not> has_id am nId then Some None
                 else if real (GetRandInt (R (k + 2)) (2 ^ 30)) < fChanceFactor * GetChance nNow (info_at am nId) * 2 ^ 30
                 then Some (Some (Address_of_info (info_at am nId)))
                 else Select_loop nNow buckets am R (k + 3) (fChanceFactor * 1.2))"

definition Select :: "(nat \<Rightarrow> nat) \<Rightarrow> int \<Rightarrow> int \<Rightarrow> CAddrMan \<Rightarrow> CAddress option option" where
  "Select R nNow nUnkBias am =
     (if size_am am = 0 then Some (Some Address_init)
      else
        let nCorTried = sqrt (real_of_int (nTried am)) * (100 - real_of_int nUnkBias);
            nCorNew = sqrt (real_of_int (nNew am)) * real_of_int nUnkBias
        in if (nCorTried + nCorNew) * real (GetRandInt (R 0) (2 ^ 30)) / 2 ^ 30 < nCorTried
           then Select_loop nNow (vvTried am) am R 1 1
           else Select_loop nNow (map sorted_list_of_set (vvNew am)) am R 1 1)"

subsection \<open>The consistency check\<close>

text \<open>
  Check_ of a DEBUG_ADDRMAN build. Inl is a return with that error code. setTried and mapNew are
  collected over the entries in the order of their ids; mapAddr[info] creates a missing entry 0.
\<close>

type_synonym check_state = "int set \<times> (int \<rightharpoonup> int) \<times> (CNetAddr \<rightharpoonup> int)"

definition Check_entry :: "CAddrMan \<Rightarrow> int \<Rightarrow> check_state \<Rightarrow> (int \<times> (CNetAddr \<rightharpoonup> int)) + check_state" where
  "Check_entry am n = (\<lambda>(setTried, mapNew, mA).
     (let info = info_at am n;
          rest = (\<lambda>setTried mapNew.
            let k = (case mA (svc_ip info) of Some k \<Rightarrow> k | None \<Rightarrow> 0);
                mA = mA(svc_ip info \<mapsto> k)
            in if k \<noteq> n then Inl (- 5, mA)
               else if nRandomPos info < 0 \<or> nRandomPos info \<ge> int (length (vRandom am)) \<or>
                       vRandom am ! nat (nRandomPos info) \<noteq> n then Inl (- 14, mA)
               else if nLastTry info < 0 then Inl (- 6, mA)
               else if nLastSuccess info < 0 then Inl (- 8, mA)
               else Inr (setTried, mapNew, mA))
      in if fInTried info then
           if nLastSuccess info = 0 then Inl (- 1, mA)
           else if nRefCount info \<noteq> 0 then Inl (- 2, mA)
           else rest (insert n setTried) mapNew
         else
           if nRefCount info < 0 \<or> nRefCount info > 4 then Inl (- 3, mA)
           else if nRefCount info = 0 then Inl (- 4, mA)
           else rest setTried (mapNew(n \<mapsto> nRefCount info))))"

fun Check_entries :: "CAddrMan \<Rightarrow> int list \<Rightarrow> check_state \<Rightarrow> (int \<times> (CNetAddr \<rightharpoonup> int)) + check_state" where
  "Check_entries am [] st = Inr st"
| "Check_entries am (n # ns) st =
     (case Check_entry am n st of Inl e \<Rightarrow> Inl e | Inr st \<Rightarrow> Check_entries am ns st)"

fun Check_tried :: "int list \<Rightarrow> int set \<Rightarrow> int set option" where \<comment> \<open>None: return -11\<close>
  "Check_tried [] setTried = Some setTried"
| "Check_tried (it # its) setTried = (if it \<notin> setTried then None else Check_tried its (setTried - {it}))"

fun Check_new :: "int list \<Rightarrow> (int \<rightharpoonup> int) \<Rightarrow> (int \<rightharpoonup> int) option" where \<comment> \<open>None: return -12\<close>
  "Check_new [] mapNew = Some mapNew"
| "Check_new (it # its) mapNew =
     (case mapNew it of
        None \<Rightarrow> None
      | Some c \<Rightarrow> Check_new its (if c - 1 = 0 then mapNew(it := None) else mapNew(it \<mapsto> c - 1)))"

definition Check :: "CAddrMan \<Rightarrow> int \<times> CAddrMan" where
  "Check am =
     (if int (length (vRandom am)) \<noteq> nTried am + nNew am then (- 7, am)
      else case Check_entries am (sorted_list_of_set (dom (mapInfo am))) ({}, Map.empty, mapAddr am) of
             Inl (e, mA) \<Rightarrow> (e, am\<lparr> mapAddr := mA \<rparr>)
           | Inr (setTried, mapNew, mA) \<Rightarrow>
               let am = am\<lparr> mapAddr := mA \<rparr>
               in if int (card setTried) \<noteq> nTried am then (- 9, am)
                  else if int (card (dom mapNew)) \<noteq> nNew am then (- 10, am)
                  else case Check_tried (concat (vvTried am)) setTried of
                         None \<Rightarrow> (- 11, am)
                       | Some setTried \<Rightarrow>
                           (case Check_new (concat (map sorted_list_of_set (vvNew am))) mapNew of
                              None \<Rightarrow> (- 12, am)
                            | Some mapNew \<Rightarrow>
                                if setTried \<noteq> {} then (- 13, am)
                                else if dom mapNew \<noteq> {} then (- 15, am)
                                else (0, am)))"

end
