(* ===== verification/AddrTable.thy ===== *)
theory AddrTable
  imports AddrMan "HOL-Library.Multiset"
begin

text \<open>
  The invariant of the address manager. It is stated on three views of the entries, so that an
  operation that leaves a view alone keeps that part for free: the index (address, position in
  vRandom), the tables (in tried?, reference count) and the statistics. \<open>e n\<close> counts the references
  to entry n that are taken but not yet stored in a bucket.
\<close>

subsection \<open>The views\<close>

definition view :: "(CAddrInfo \<Rightarrow> 'v) \<Rightarrow> CAddrMan \<Rightarrow> int \<rightharpoonup> 'v" where
  "view f am = (\<lambda>n. map_option f (mapInfo am n))"

abbreviation index_view :: "CAddrMan \<Rightarrow> int \<rightharpoonup> CNetAddr \<times> int" where
  "index_view \<equiv> view (\<lambda>i. (svc_ip i, nRandomPos i))"

abbreviation table_view :: "CAddrMan \<Rightarrow> int \<rightharpoonup> bool \<times> int" where
  "table_view \<equiv> view (\<lambda>i. (fInTried i, nRefCount i))"

abbreviation stat_view :: "CAddrMan \<Rightarrow> int \<rightharpoonup> bool \<times> int \<times> int" where
  "stat_view \<equiv> view (\<lambda>i. (fInTried i, nLastTry i, nLastSuccess i))"

definition index_ok :: "(int \<rightharpoonup> CNetAddr \<times> int) \<Rightarrow> (CNetAddr \<rightharpoonup> int) \<Rightarrow> int list \<Rightarrow> int \<Rightarrow> bool" where
  "index_ok p mA vR cnt \<longleftrightarrow>
     distinct vR \<and>
     (\<forall>k<length vR. \<exists>a. p (vR ! k) = Some (a, int k)) \<and>
     dom p = set vR \<and>
     (\<forall>n\<in>dom p. 0 \<le> n \<and> n < cnt) \<and>
     (\<forall>a n. mA a = Some n \<longleftrightarrow> (\<exists>k. p n = Some (a, k)))"

definition occ :: "int \<Rightarrow> int set list \<Rightarrow> nat" where \<comment> \<open>the buckets that hold n\<close>
  "occ n vN = length (filter (\<lambda>s. n \<in> s) vN)"

definition table_ok :: "(int \<Rightarrow> nat) \<Rightarrow> (int \<rightharpoonup> bool \<times> int) \<Rightarrow> int list list \<Rightarrow> int set list \<Rightarrow> bool" where
  "table_ok e t vT vN \<longleftrightarrow>
     length vN = 256 \<and> length vT = 64 \<and>
     (\<forall>s\<in>set vN. finite s \<and> card s \<le> 64) \<and>
     (\<forall>s\<in>set vN. \<forall>n\<in>s. \<exists>r. t n = Some (False, r)) \<and>
     (\<forall>b\<in>set vT. length b \<le> 64) \<and>
     distinct (concat vT) \<and>
     (\<forall>n. n \<in> set (concat vT) \<longleftrightarrow> (\<exists>r. t n = Some (True, r))) \<and>
     (\<forall>n tr r. t n = Some (tr, r) \<longrightarrow> r = int (occ n vN + e n) \<and> r \<le> 4 \<and> (tr \<longleftrightarrow> r = 0))"

definition stat_ok :: "(int \<rightharpoonup> bool \<times> int \<times> int) \<Rightarrow> bool" where
  "stat_ok m \<longleftrightarrow> (\<forall>n tr y s. m n = Some (tr, y, s) \<longrightarrow> 0 \<le> y \<and> 0 \<le> s \<and> (tr \<longrightarrow> s \<noteq> 0))"

definition am_ok :: "(int \<Rightarrow> nat) \<Rightarrow> CAddrMan \<Rightarrow> bool" where
  "am_ok e am \<longleftrightarrow>
     index_ok (index_view am) (mapAddr am) (vRandom am) (nIdCount am) \<and>
     table_ok e (table_view am) (vvTried am) (vvNew am) \<and>
     stat_ok (stat_view am) \<and>
     nTried am = int (length (concat (vvTried am))) \<and>
     nTried am + nNew am = int (length (vRandom am)) \<and>
     0 \<le> nIdCount am"

lemma view_Some: "mapInfo am n = Some i \<Longrightarrow> view f am n = Some (f i)"
  by (simp add: view_def)

lemma view_SomeE:
  assumes "view f am n = Some v"
  obtains i where "mapInfo am n = Some i" "f i = v"
  using assms by (auto simp: view_def)

lemma view_upd: "view f (upd n g am) = (view f am)(n := map_option (f \<circ> g) (mapInfo am n))"
  by (auto simp: view_def upd_def fun_eq_iff option.map_comp)

lemma view_upd_same: "(\<And>i. f (g i) = f i) \<Longrightarrow> view f (upd n g am) = view f am"
  by (auto simp: view_def upd_def fun_eq_iff option.map_comp comp_def)

lemma upd_fields [simp]:
  "nKey (upd n g am) = nKey am" "nIdCount (upd n g am) = nIdCount am" "mapAddr (upd n g am) = mapAddr am"
  "vRandom (upd n g am) = vRandom am" "nTried (upd n g am) = nTried am" "vvTried (upd n g am) = vvTried am"
  "nNew (upd n g am) = nNew am" "vvNew (upd n g am) = vvNew am"
  by (simp_all add: upd_def)

lemma view_fields [simp]:
  "view f (am\<lparr> nIdCount := c \<rparr>) = view f am" "view f (am\<lparr> mapAddr := mA \<rparr>) = view f am"
  "view f (am\<lparr> vRandom := vR \<rparr>) = view f am" "view f (am\<lparr> nTried := t \<rparr>) = view f am"
  "view f (am\<lparr> vvTried := vT \<rparr>) = view f am" "view f (am\<lparr> nNew := w \<rparr>) = view f am"
  "view f (am\<lparr> vvNew := vN \<rparr>) = view f am"
  by (simp_all add: view_def)

lemma info_at_Some [simp]: "mapInfo am n = Some i \<Longrightarrow> info_at am n = i"
  by (simp add: info_at_def)

lemma info_fields [simp]:
  "info_at (am\<lparr> vRandom := vR \<rparr>) = info_at am" "info_at (am\<lparr> vvTried := vT \<rparr>) = info_at am"
  "info_at (am\<lparr> vvNew := vN \<rparr>) = info_at am" "info_at (am\<lparr> nNew := w \<rparr>) = info_at am"
  "has_id (am\<lparr> vRandom := vR \<rparr>) = has_id am" "has_id (am\<lparr> vvTried := vT \<rparr>) = has_id am"
  "has_id (am\<lparr> vvNew := vN \<rparr>) = has_id am" "has_id (am\<lparr> nNew := w \<rparr>) = has_id am"
  by (simp_all add: info_at_def has_id_def fun_eq_iff)

lemma has_id_Some [simp]: "mapInfo am n = Some i \<Longrightarrow> has_id am n"
  by (simp add: has_id_def)

lemma touch_has [simp]: "has_id am n \<Longrightarrow> touch n am = am"
  by (auto simp: touch_def has_id_def)

lemma dom_view: "dom (view f am) = dom (mapInfo am)"
  by (auto simp: view_def dom_def)

subsection \<open>The index\<close>

lemma index_okD:
  assumes "index_ok p mA vR cnt"
  shows "distinct vR" "k < length vR \<Longrightarrow> \<exists>a. p (vR ! k) = Some (a, int k)" "dom p = set vR"
    "p n = Some x \<Longrightarrow> 0 \<le> n \<and> n < cnt" "mA a = Some n \<longleftrightarrow> (\<exists>k. p n = Some (a, k))"
  using assms by (auto simp: index_ok_def)

lemma index_pos:
  assumes "index_ok p mA vR cnt" "p n = Some (a, k)"
  shows "0 \<le> k" "nat k < length vR" "vR ! nat k = n"
proof -
  have "n \<in> set vR" using assms index_okD(3) [OF assms(1)] by auto
  then obtain j where j: "j < length vR" "vR ! j = n" by (auto simp: in_set_conv_nth)
  then have "k = int j" using index_okD(2) [OF assms(1) j(1)] assms(2) by auto
  then show "0 \<le> k" "nat k < length vR" "vR ! nat k = n" using j by auto
qed

lemma index_addr_unique:
  assumes "index_ok p mA vR cnt" "p n = Some (a, k)" "p m = Some (a, j)"
  shows "n = m"
  using index_okD(5) [OF assms(1), of a n] index_okD(5) [OF assms(1), of a m] assms(2,3) by auto

lemma index_push:
  assumes ok: "index_ok p mA vR cnt" and a: "mA a = None" and c: "0 \<le> cnt"
  shows "index_ok (p(cnt \<mapsto> (a, int (length vR)))) (mA(a \<mapsto> cnt)) (vR @ [cnt]) (cnt + 1)"
proof -
  have n: "p cnt = None" using index_okD(4) [OF ok, of cnt] by (cases "p cnt") auto
  then have nv: "cnt \<notin> set vR" using index_okD(3) [OF ok] by auto
  have na: "p m \<noteq> Some (a, k)" for m k using index_okD(5) [OF ok, of a m] a by auto
  have nm: "mA b = Some m \<Longrightarrow> m \<noteq> cnt" for b m using index_okD(5) [OF ok, of b m] n by auto
  show ?thesis unfolding index_ok_def
  proof (intro conjI allI impI ballI)
    show "distinct (vR @ [cnt])" using index_okD(1) [OF ok] nv by simp
    fix k assume "k < length (vR @ [cnt])"
    then show "\<exists>b. (p(cnt \<mapsto> (a, int (length vR)))) ((vR @ [cnt]) ! k) = Some (b, int k)"
      using index_okD(2) [OF ok, of k] nv nth_mem [of k vR] by (auto simp: nth_append less_Suc_eq)
  next
    show "dom (p(cnt \<mapsto> (a, int (length vR)))) = set (vR @ [cnt])" using index_okD(3) [OF ok] by auto
  next
    fix m assume "m \<in> dom (p(cnt \<mapsto> (a, int (length vR))))"
    then show "0 \<le> m" "m < cnt + 1" using index_okD(4) [OF ok, of m] c by (force split: if_splits)+
  next
    fix b m
    show "(mA(a \<mapsto> cnt)) b = Some m \<longleftrightarrow> (\<exists>k. (p(cnt \<mapsto> (a, int (length vR)))) m = Some (b, k))"
      using index_okD(5) [OF ok, of b m] na nm by auto
  qed
qed

lemma index_swap:
  assumes ok: "index_ok p mA vR cnt" and ij: "i < length vR" "j < length vR" "i \<noteq> j"
    and a: "p (vR ! i) = Some (a, int i)" and b: "p (vR ! j) = Some (b, int j)"
  shows "index_ok (p(vR ! i \<mapsto> (a, int j), vR ! j \<mapsto> (b, int i))) mA (vR[i := vR ! j, j := vR ! i]) cnt"
proof -
  have ne: "vR ! i \<noteq> vR ! j" using index_okD(1) [OF ok] ij nth_eq_iff_index_eq by blast
  have d: "dom p = set vR" by (rule index_okD(3) [OF ok])
  show ?thesis unfolding index_ok_def
  proof (intro conjI allI impI ballI)
    show "distinct (vR[i := vR ! j, j := vR ! i])" using index_okD(1) [OF ok] ij by (simp add: distinct_swap)
    fix k assume k: "k < length (vR[i := vR ! j, j := vR ! i])"
    have "vR ! k \<noteq> vR ! i" "vR ! k \<noteq> vR ! j" if "k \<noteq> i" "k \<noteq> j"
      using that k ij index_okD(1) [OF ok] nth_eq_iff_index_eq by auto
    then show "\<exists>c. (p(vR ! i \<mapsto> (a, int j), vR ! j \<mapsto> (b, int i))) (vR[i := vR ! j, j := vR ! i] ! k) = Some (c, int k)"
      using index_okD(2) [OF ok, of k] k ij ne by (auto simp: nth_list_update)
  next
    show "dom (p(vR ! i \<mapsto> (a, int j), vR ! j \<mapsto> (b, int i))) = set (vR[i := vR ! j, j := vR ! i])"
      using d ij by (auto simp: set_swap)
  next
    fix m assume "m \<in> dom (p(vR ! i \<mapsto> (a, int j), vR ! j \<mapsto> (b, int i)))"
    then show "0 \<le> m" "m < cnt" using index_okD(4) [OF ok] a b by (auto split: if_splits)
  next
    fix c m
    show "mA c = Some m \<longleftrightarrow> (\<exists>k. (p(vR ! i \<mapsto> (a, int j), vR ! j \<mapsto> (b, int i))) m = Some (c, k))"
      using index_okD(5) [OF ok, of c m] a b ne by auto
  qed
qed

lemma index_pop:
  assumes ok: "index_ok p mA vR cnt" and p: "p n = Some (a, int (length vR - 1))" and ne: "vR \<noteq> []"
  shows "index_ok (p(n := None)) (mA(a := None)) (butlast vR) cnt"
proof -
  have n: "last vR = n" using index_pos(3) [OF ok p] ne by (simp add: last_conv_nth)
  then have v: "vR = butlast vR @ [n]" using ne by (metis append_butlast_last_id)
  have d: "distinct (butlast vR @ [n])" using index_okD(1) [OF ok] v by simp
  show ?thesis unfolding index_ok_def
  proof (intro conjI allI impI ballI)
    show "distinct (butlast vR)" using d by simp
    fix k assume k: "k < length (butlast vR)"
    then have "butlast vR ! k = vR ! k" "vR ! k \<noteq> n"
      using d nth_mem [OF k] by (simp_all add: nth_butlast) auto
    then show "\<exists>c. (p(n := None)) (butlast vR ! k) = Some (c, int k)"
      using index_okD(2) [OF ok, of k] k by simp
  next
    have "set vR = insert n (set (butlast vR))" by (subst v) simp
    then show "dom (p(n := None)) = set (butlast vR)" using index_okD(3) [OF ok] d by auto
  next
    fix m assume "m \<in> dom (p(n := None))"
    then show "0 \<le> m" "m < cnt" using index_okD(4) [OF ok] by (auto split: if_splits)
  next
    fix b m
    show "(mA(a := None)) b = Some m \<longleftrightarrow> (\<exists>k. (p(n := None)) m = Some (b, k))"
    proof (cases "m = n")
      case True
      then show ?thesis using index_okD(5) [OF ok, of b n] p by auto
    next
      case False
      then have "\<not> (\<exists>k. p m = Some (a, k))" using index_addr_unique [OF ok p, of m] by auto
      then show ?thesis using index_okD(5) [OF ok, of b m] False by (cases "b = a") simp_all
    qed
  qed
qed

subsection \<open>The tables\<close>

lemma table_okD:
  assumes "table_ok e t vT vN"
  shows "length vN = 256" "length vT = 64" "s \<in> set vN \<Longrightarrow> finite s" "s \<in> set vN \<Longrightarrow> card s \<le> 64"
    "s \<in> set vN \<Longrightarrow> n \<in> s \<Longrightarrow> \<exists>r. t n = Some (False, r)" "b \<in> set vT \<Longrightarrow> length b \<le> 64"
    "distinct (concat vT)" "n \<in> set (concat vT) \<longleftrightarrow> (\<exists>r. t n = Some (True, r))"
    "t n = Some (tr, r) \<Longrightarrow> r = int (occ n vN + e n) \<and> r \<le> 4 \<and> (tr \<longleftrightarrow> r = 0)"
  using assms by (auto simp: table_ok_def)

lemma table_okI:
  assumes "length vN = 256" "length vT = 64" "\<And>s. s \<in> set vN \<Longrightarrow> finite s \<and> card s \<le> 64"
    "\<And>s n. s \<in> set vN \<Longrightarrow> n \<in> s \<Longrightarrow> \<exists>r. t n = Some (False, r)" "\<And>b. b \<in> set vT \<Longrightarrow> length b \<le> 64"
    "distinct (concat vT)" "\<And>n. n \<in> set (concat vT) \<longleftrightarrow> (\<exists>r. t n = Some (True, r))"
    "\<And>n tr r. t n = Some (tr, r) \<Longrightarrow> r = int (occ n vN + e n) \<and> r \<le> 4 \<and> (tr \<longleftrightarrow> r = 0)"
  shows "table_ok e t vT vN"
  using assms by (auto simp: table_ok_def)

lemma occ_0: "occ n vN = 0 \<longleftrightarrow> (\<forall>s\<in>set vN. n \<notin> s)"
  by (auto simp: occ_def filter_empty_conv)

lemma occ_update:
  "b < length vN \<Longrightarrow> occ n (vN[b := s]) + (if n \<in> vN ! b then 1 else 0) = occ n vN + (if n \<in> s then 1 else 0)"
proof -
  assume b: "b < length vN"
  have "vN = take b vN @ vN ! b # drop (Suc b) vN" using b by (rule id_take_nth_drop)
  then have "occ n vN = occ n (take b vN @ vN ! b # drop (Suc b) vN)" by simp
  moreover have "occ n (vN[b := s]) = occ n (take b vN @ s # drop (Suc b) vN)"
    using b by (simp add: upd_conv_take_nth_drop)
  ultimately show ?thesis by (simp add: occ_def)
qed

lemma in_set_update: "x \<in> set (xs[i := y]) \<Longrightarrow> x = y \<or> x \<in> set xs"
  using set_update_subset_insert by fastforce

text \<open>A new entry, whose first reference is pending; one more reference to an untried entry.\<close>

lemma table_create:
  assumes ok: "table_ok e t vT vN" and n: "t n = None" "e n = 0"
  shows "table_ok (e(n := 1)) (t(n \<mapsto> (False, 1))) vT vN"
proof -
  have o: "occ n vN = 0" using table_okD(5) [OF ok, of _ n] n(1) by (auto simp: occ_0)
  have c: "n \<notin> set (concat vT)" using table_okD(8) [OF ok, of n] n(1) by simp
  show ?thesis
  proof (rule table_okI)
    fix m show "m \<in> set (concat vT) \<longleftrightarrow> (\<exists>r. (t(n \<mapsto> (False, 1))) m = Some (True, r))"
      using table_okD(8) [OF ok, of m] c by (cases "m = n") auto
  next
    fix s m assume "s \<in> set vN" "m \<in> s"
    then show "\<exists>r. (t(n \<mapsto> (False, 1))) m = Some (False, r)" using table_okD(5) [OF ok] by auto
  next
    fix m tr r assume "(t(n \<mapsto> (False, 1))) m = Some (tr, r)"
    then show "r = int (occ m vN + (e(n := 1)) m) \<and> r \<le> 4 \<and> (tr \<longleftrightarrow> r = 0)"
      using table_okD(9) [OF ok, of m tr r] o by (auto split: if_splits)
  qed (use table_okD [OF ok] in auto)
qed

lemma table_incr:
  assumes ok: "table_ok e t vT vN" and n: "t n = Some (False, r)" "r \<noteq> 4"
  shows "table_ok (e(n := e n + 1)) (t(n \<mapsto> (False, r + 1))) vT vN"
proof (rule table_okI)
  fix m show "m \<in> set (concat vT) \<longleftrightarrow> (\<exists>r'. (t(n \<mapsto> (False, r + 1))) m = Some (True, r'))"
    using table_okD(8) [OF ok, of m] n by (cases "m = n") auto
next
  fix s m assume "s \<in> set vN" "m \<in> s"
  then show "\<exists>r'. (t(n \<mapsto> (False, r + 1))) m = Some (False, r')" using table_okD(5) [OF ok] by auto
next
  fix m tr r' assume "(t(n \<mapsto> (False, r + 1))) m = Some (tr, r')"
  then show "r' = int (occ m vN + (e(n := e n + 1)) m) \<and> r' \<le> 4 \<and> (tr \<longleftrightarrow> r' = 0)"
    using table_okD(9) [OF ok, of m tr r'] table_okD(9) [OF ok n(1)] n(2) by (auto split: if_splits)
qed (use table_okD [OF ok] in auto)

text \<open>Storing a pending reference in a bucket; taking a reference out of one.\<close>

lemma table_insert:
  assumes ok: "table_ok e t vT vN" and n: "t n = Some (False, r)" "e n = Suc k"
    and b: "b < 256" "n \<notin> vN ! b" "card (vN ! b) < 64"
  shows "table_ok (e(n := k)) t vT (vN[b := insert n (vN ! b)])"
proof (rule table_okI)
  have l: "b < length vN" using b(1) table_okD(1) [OF ok] by simp
  then have m: "vN ! b \<in> set vN" by simp
  fix s assume "s \<in> set (vN[b := insert n (vN ! b)])"
  then have s: "s = insert n (vN ! b) \<or> s \<in> set vN" by (rule in_set_update)
  then show "finite s \<and> card s \<le> 64" using table_okD(3,4) [OF ok] m b by auto
  show "\<exists>r'. t x = Some (False, r')" if "x \<in> s" for x
    using s that table_okD(5) [OF ok, of _ x] m n by auto
next
  have l: "b < length vN" using b(1) table_okD(1) [OF ok] by simp
  fix m tr r' assume "t m = Some (tr, r')"
  then show "r' = int (occ m (vN[b := insert n (vN ! b)]) + (e(n := k)) m) \<and> r' \<le> 4 \<and> (tr \<longleftrightarrow> r' = 0)"
    using table_okD(9) [OF ok, of m tr r'] occ_update [OF l, of m "insert n (vN ! b)"] b(2) n(2) by (auto split: if_splits)
qed (use table_okD [OF ok] in auto)

lemma table_remove:
  assumes ok: "table_ok e t vT vN" and n: "t n = Some (False, r)" and b: "b < 256" "n \<in> vN ! b"
  shows "table_ok e (t(n := if r - 1 = 0 then None else Some (False, r - 1))) vT (vN[b := vN ! b - {n}])"
    (is "table_ok e ?t vT ?vN")
proof -
  have l: "b < length vN" using b(1) table_okD(1) [OF ok] by simp
  then have m: "vN ! b \<in> set vN" by simp
  have o: "occ x ?vN + (if x = n then 1 else 0) = occ x vN" for x
    using occ_update [OF l, of x "vN ! b - {n}"] b(2) by (cases "x = n"; cases "x \<in> vN ! b") simp_all
  have r: "r = int (occ n vN + e n)" "r \<le> 4" using table_okD(9) [OF ok n] by auto
  have last: "r - 1 = 0 \<Longrightarrow> \<forall>s\<in>set ?vN. n \<notin> s" using r(1) o [of n] unfolding occ_0 [symmetric] by simp
  show ?thesis
  proof (rule table_okI)
    fix s assume s0: "s \<in> set ?vN"
    then have s: "s = vN ! b - {n} \<or> s \<in> set vN" by (rule in_set_update)
    have "card (vN ! b - {n}) \<le> card (vN ! b)" using table_okD(3) [OF ok m] by (simp add: card_Diff1_le)
    then show "finite s \<and> card s \<le> 64" using s table_okD(3,4) [OF ok] m by (auto intro: order_trans)
    show "\<exists>r'. ?t x = Some (False, r')" if "x \<in> s" for x
      using s that table_okD(5) [OF ok, of _ x] m last s0 by (cases "x = n") auto
  next
    fix m show "m \<in> set (concat vT) \<longleftrightarrow> (\<exists>r'. ?t m = Some (True, r'))"
      using table_okD(8) [OF ok, of m] n by (cases "m = n") auto
  next
    fix m tr r' assume "?t m = Some (tr, r')"
    then show "r' = int (occ m ?vN + e m) \<and> r' \<le> 4 \<and> (tr \<longleftrightarrow> r' = 0)"
    proof (cases "m = n")
      case True
      then show ?thesis using \<open>?t m = Some (tr, r')\<close> o [of n] r by (simp split: if_splits)
    next
      case False
      then have "t m = Some (tr, r')" "occ m ?vN = occ m vN" using \<open>?t m = Some (tr, r')\<close> o [of m] by simp_all
      then show ?thesis using table_okD(9) [OF ok, of m tr r'] by simp
    qed
  qed (use table_okD [OF ok] in auto)
qed

text \<open>An entry leaves every new bucket for a tried bucket, into a free slot or over another entry.\<close>

lemma occ_map_erase: "occ x (map (\<lambda>s. s - {n}) vN) = (if x = n then 0 else occ x vN)"
  by (induction vN) (auto simp: occ_def)

lemma concat_update:
  assumes "k < length vT"
  shows "mset (concat (vT[k := b])) + mset (vT ! k) = mset (concat vT) + mset b"
proof -
  have "vT = take k vT @ vT ! k # drop (Suc k) vT" using assms by (rule id_take_nth_drop)
  then have "mset (concat vT) = mset (concat (take k vT @ vT ! k # drop (Suc k) vT))" by simp
  then show ?thesis using assms by (simp add: upd_conv_take_nth_drop)
qed

lemma table_bucket_perm:
  assumes ok: "table_ok e t vT vN" and k: "k < 64" "mset b = mset (vT ! k)"
  shows "table_ok e t (vT[k := b]) vN"
proof (rule table_okI)
  have l: "k < length vT" using k(1) table_okD(2) [OF ok] by simp
  have m: "mset (concat (vT[k := b])) = mset (concat vT)" using concat_update [OF l, where b = b] k(2) by simp
  show "distinct (concat (vT[k := b]))" using table_okD(7) [OF ok] m by (metis distinct_count_atmost_1 set_mset_mset)
  show "n \<in> set (concat (vT[k := b])) \<longleftrightarrow> (\<exists>r. t n = Some (True, r))" for n
    using table_okD(8) [OF ok, of n] mset_eq_setD [OF m] by simp
  have "length b = length (vT ! k)" using k(2) by (rule mset_eq_length)
  then show "length c \<le> 64" if "c \<in> set (vT[k := b])" for c
    using in_set_update [OF that] table_okD(6) [OF ok] nth_mem [OF l] by auto
qed (use table_okD [OF ok] in auto)

lemma table_to_tried:
  assumes ok: "table_ok e t vT vN" and n: "t n = Some (False, r)" "e n = 0"
    and k: "k < 64" "length (vT ! k) < 64"
  shows "table_ok e (t(n \<mapsto> (True, 0))) (vT[k := vT ! k @ [n]]) (map (\<lambda>s. s - {n}) vN)"
proof (rule table_okI)
  have l: "k < length vT" using k(1) table_okD(2) [OF ok] by simp
  have m: "mset (concat (vT[k := vT ! k @ [n]])) = mset (concat vT @ [n])"
    using concat_update [OF l, where b = "vT ! k @ [n]"] by simp
  have nc: "n \<notin> set (concat vT)" using table_okD(8) [OF ok, of n] n(1) by simp
  show "distinct (concat (vT[k := vT ! k @ [n]]))"
    using table_okD(7) [OF ok] nc mset_eq_imp_distinct_iff [OF m] by simp
  show "x \<in> set (concat (vT[k := vT ! k @ [n]])) \<longleftrightarrow> (\<exists>r. (t(n \<mapsto> (True, 0))) x = Some (True, r))" for x
    using table_okD(8) [OF ok, of x] mset_eq_setD [OF m] by (cases "x = n") simp_all
  show "length c \<le> 64" if "c \<in> set (vT[k := vT ! k @ [n]])" for c
    using in_set_update [OF that] table_okD(6) [OF ok] k(2) by auto
  show "finite s \<and> card s \<le> 64" if s: "s \<in> set (map (\<lambda>s. s - {n}) vN)" for s
    using s table_okD(3,4) [OF ok] by (auto intro: order_trans [OF card_Diff1_le])
  show "\<exists>r. (t(n \<mapsto> (True, 0))) x = Some (False, r)" if "s \<in> set (map (\<lambda>s. s - {n}) vN)" "x \<in> s" for s x
    using that table_okD(5) [OF ok] by auto
  show "r' = int (occ x (map (\<lambda>s. s - {n}) vN) + e x) \<and> r' \<le> 4 \<and> (tr \<longleftrightarrow> r' = 0)"
    if "(t(n \<mapsto> (True, 0))) x = Some (tr, r')" for x tr r'
    using that table_okD(9) [OF ok, of x tr r'] n(2) by (cases "x = n") (auto simp: occ_map_erase)
qed (use table_okD(1,2) [OF ok] in simp_all)

lemma exchange: "A + V = C + B \<Longrightarrow> B + X = V + N \<Longrightarrow> A + X = C + (N :: 'a :: cancel_ab_semigroup_add)"
proof -
  assume a: "A + V = C + B" and b: "B + X = V + N"
  have "(A + X) + V = (A + V) + X" by (simp only: ac_simps)
  also have "\<dots> = C + (B + X)" unfolding a by (simp only: ac_simps)
  also have "\<dots> = (C + N) + V" unfolding b by (simp only: ac_simps)
  finally show ?thesis by (rule add_right_imp_eq)
qed

lemma swap_out:
  assumes "mset C + {#x#} = mset D + {#n#}" "distinct D" "n \<notin> set D" "x \<noteq> n"
  shows "distinct C" "set C = insert n (set D - {x})"
proof -
  have "x \<in># mset C + {#x#}" by simp
  then have "x \<in># mset D + {#n#}" unfolding assms(1) .
  then have "x \<in> set D" using assms(4) by simp
  then have d: "mset D = mset (remove1 x D) + {#x#}" using insert_DiffM2 [of x "mset D"] by (simp only: mset_remove1 set_mset_mset)
  have "mset C + {#x#} = mset (remove1 x D) + {#x#} + {#n#}" unfolding assms(1) by (subst d) (rule refl)
  also have "\<dots> = mset (remove1 x D) + {#n#} + {#x#}" by (simp add: add_mset_commute)
  finally have "mset C + {#x#} = mset (remove1 x D) + {#n#} + {#x#}" .
  then have "mset C = mset (remove1 x D) + {#n#}" by (rule add_right_imp_eq)
  then have "mset C = mset (n # remove1 x D)" by simp
  then show "distinct C" "set C = insert n (set D - {x})"
    using assms(2,3) mset_eq_imp_distinct_iff [of C "n # remove1 x D"] mset_eq_setD [of C "n # remove1 x D"]
    by (simp_all add: set_remove1_eq)
qed

lemma table_evict:
  assumes ok: "table_ok e t vT vN" and n: "t n = Some (False, r)" "e n = 0"
    and k: "k < 64" "p < length (vT ! k)" and x: "vT ! k ! p = x" "e x = 0"
    and b: "b < 256" "card (map (\<lambda>s. s - {n}) vN ! b) < 64"
  shows "table_ok e (t(x \<mapsto> (False, 1), n \<mapsto> (True, 0))) (vT[k := (vT ! k)[p := n]])
    ((map (\<lambda>s. s - {n}) vN)[b := insert x (map (\<lambda>s. s - {n}) vN ! b)])"
    (is "table_ok e ?t ?vT (?vM[b := insert x (?vM ! b)])")
proof -
  have l: "k < length vT" using k(1) table_okD(2) [OF ok] by simp
  have lb: "b < length ?vM" "b < length vN" using b(1) table_okD(1) [OF ok] by simp_all
  have xc: "x \<in> set (concat vT)" using x(1) k(2) nth_mem [OF l] nth_mem [OF k(2)] by auto
  then obtain rx where rx: "t x = Some (True, rx)" using table_okD(8) [OF ok, of x] by auto
  have xn: "x \<noteq> n" using rx n(1) by auto
  have xo: "occ x vN = 0" using table_okD(9) [OF ok rx] by simp
  then have xs: "s \<in> set vN \<Longrightarrow> x \<notin> s" for s by (simp add: occ_0)
  have nc: "n \<notin> set (concat vT)" using table_okD(8) [OF ok, of n] n(1) by simp
  have m: "mset (concat ?vT) + {#x#} = mset (concat vT) + {#n#}"
  proof -
    have "mset ((vT ! k)[p := n]) + {#x#} = mset (vT ! k) + {#n#}"
      using nth_mem [OF k(2)] k(2) x(1) by (simp add: mset_update)
    with concat_update [OF l, where b = "(vT ! k)[p := n]"] show ?thesis by (rule exchange)
  qed
  note out = swap_out [OF m table_okD(7) [OF ok] nc xn]
  show ?thesis
  proof (rule table_okI)
    show "distinct (concat ?vT)" by (rule out(1))
    have "y \<in> set (concat ?vT) \<longleftrightarrow> y = n \<or> y \<noteq> x \<and> y \<in> set (concat vT)" for y
      unfolding out(2) by auto
    then show "y \<in> set (concat ?vT) \<longleftrightarrow> (\<exists>r. ?t y = Some (True, r))" for y
      using table_okD(8) [OF ok, of y] xn by auto
    show "length c \<le> 64" if "c \<in> set ?vT" for c
      using in_set_update [OF that] table_okD(6) [OF ok] nth_mem [OF l] by auto
    show "finite s \<and> card s \<le> 64" if s: "s \<in> set (?vM[b := insert x (?vM ! b)])" for s
      using in_set_update [OF s] table_okD(3,4) [OF ok] b(2) lb nth_mem [OF lb(2)]
      by (auto intro: order_trans [OF card_Diff1_le] simp: card_insert_if)
    show "\<exists>r. ?t y = Some (False, r)" if s: "s \<in> set (?vM[b := insert x (?vM ! b)])" "y \<in> s" for s y
      using in_set_update [OF s(1)] s(2) table_okD(5) [OF ok, of _ y] table_okD(5) [OF ok nth_mem [OF lb(2)], of y] xn lb
      by auto
    show "r' = int (occ y (?vM[b := insert x (?vM ! b)]) + e y) \<and> r' \<le> 4 \<and> (tr \<longleftrightarrow> r' = 0)"
      if y: "?t y = Some (tr, r')" for y tr r'
    proof -
      have o: "occ y (?vM[b := insert x (?vM ! b)]) = (if y = x then 1 else if y = n then 0 else occ y vN)"
        using occ_update [OF lb(1), of y "insert x (?vM ! b)"] xn xo xs [OF nth_mem [OF lb(2)]] lb(2)
        by (simp only: occ_map_erase) (auto split: if_splits)
      then show ?thesis using y table_okD(9) [OF ok, of y tr r'] xn x(2) n(2) by (auto split: if_splits)
    qed
  qed (use table_okD(1,2) [OF ok] in simp_all)
qed

subsection \<open>How many entries there can be\<close>

lemma card_Union_buckets:
  "\<forall>s\<in>set vN. finite s \<and> card s \<le> c \<Longrightarrow> finite (\<Union>(set vN)) \<and> card (\<Union>(set vN)) \<le> length vN * c"
proof (induction vN)
  case (Cons s vN)
  then have "card (s \<union> \<Union>(set vN)) \<le> card s + card (\<Union>(set vN))" by (intro card_Un_le)
  with Cons show ?case by auto
qed simp

lemma length_concat_le: "\<forall>b\<in>set vT. length b \<le> c \<Longrightarrow> length (concat vT) \<le> length vT * c"
  by (induction vT) auto

lemma am_ok_size:
  assumes ok: "am_ok e am" and e: "{n. e n \<noteq> 0} \<subseteq> set xs"
  shows "length (vRandom am) \<le> 64 * 64 + 256 * 64 + length xs"
proof -
  let ?t = "table_view am" and ?U = "\<Union>(set (vvNew am))"
  have i: "index_ok (index_view am) (mapAddr am) (vRandom am) (nIdCount am)"
    and t: "table_ok e ?t (vvTried am) (vvNew am)" using ok by (simp_all add: am_ok_def)
  have "set (vRandom am) \<subseteq> set (concat (vvTried am)) \<union> ?U \<union> set xs"
  proof
    fix n assume "n \<in> set (vRandom am)"
    then have "n \<in> dom (mapInfo am)" using index_okD(3) [OF i] by (simp add: dom_view)
    then obtain tr r where n: "?t n = Some (tr, r)" by (auto simp: view_def)
    show "n \<in> set (concat (vvTried am)) \<union> ?U \<union> set xs"
    proof (cases tr)
      case True
      then show ?thesis using n table_okD(8) [OF t, of n] by simp
    next
      case False
      then have "occ n (vvNew am) \<noteq> 0 \<or> e n \<noteq> 0" using table_okD(9) [OF t n] by auto
      then show ?thesis using e by (auto simp: occ_0)
    qed
  qed
  moreover have u: "finite ?U" "card ?U \<le> 256 * 64"
    using card_Union_buckets [of "vvNew am" 64] table_okD(1,3,4) [OF t] by auto
  moreover have "card (set (concat (vvTried am)) \<union> ?U \<union> set xs) \<le> card (set (concat (vvTried am))) + card ?U + card (set xs)"
    using card_Un_le [of "set (concat (vvTried am)) \<union> ?U" "set xs"] card_Un_le [of "set (concat (vvTried am))" ?U] by linarith
  moreover have "card (set (concat (vvTried am))) \<le> 64 * 64"
    using card_length [of "concat (vvTried am)"] length_concat_le [of "vvTried am" 64] table_okD(2,6) [OF t] by auto
  ultimately have "card (set (vRandom am)) \<le> 64 * 64 + 256 * 64 + card (set xs)"
    using card_mono [of "set (concat (vvTried am)) \<union> ?U \<union> set xs" "set (vRandom am)"] by auto
  then show ?thesis using distinct_card [OF index_okD(1) [OF i]] card_length [of xs] by linarith
qed

subsection \<open>Swapping and deleting\<close>

definition same_but_pos :: "CAddrMan \<Rightarrow> CAddrMan \<Rightarrow> bool" where
  "same_but_pos am am' \<longleftrightarrow>
     nKey am' = nKey am \<and> nIdCount am' = nIdCount am \<and> mapAddr am' = mapAddr am \<and> nTried am' = nTried am \<and>
     vvTried am' = vvTried am \<and> nNew am' = nNew am \<and> vvNew am' = vvNew am \<and>
     length (vRandom am') = length (vRandom am) \<and>
     view (\<lambda>i. i\<lparr> nRandomPos := 0 \<rparr>) am' = view (\<lambda>i. i\<lparr> nRandomPos := 0 \<rparr>) am"

lemma same_but_pos_view:
  assumes "same_but_pos am am'" "\<And>i k. f (i\<lparr> nRandomPos := k \<rparr>) = f i"
  shows "view f am' = view f am"
proof -
  have "view f a = (\<lambda>n. map_option f (view (\<lambda>i. i\<lparr> nRandomPos := 0 \<rparr>) a n))" for a
    using assms(2) by (simp add: view_def option.map_comp comp_def)
  then show ?thesis using assms(1) by (metis same_but_pos_def)
qed

lemma SwapRandom_ok:
  assumes ok: "index_ok (index_view am) (mapAddr am) (vRandom am) (nIdCount am)"
    and ij: "i < length (vRandom am)" "j < length (vRandom am)"
  obtains am' where "SwapRandom i j am = Some am'" "same_but_pos am am'"
    "index_ok (index_view am') (mapAddr am') (vRandom am') (nIdCount am')" "vRandom am' ! j = vRandom am ! i"
    "mset (vRandom am') = mset (vRandom am)"
proof (cases "i = j")
  case True
  then show thesis using that [of am] ok by (simp add: SwapRandom_def same_but_pos_def)
next
  case False
  obtain a b where ab: "index_view am (vRandom am ! i) = Some (a, int i)" "index_view am (vRandom am ! j) = Some (b, int j)"
    using index_okD(2) [OF ok] ij by blast
  then have h: "has_id am (vRandom am ! i)" "has_id am (vRandom am ! j)" by (auto elim!: view_SomeE)
  have ne: "vRandom am ! i \<noteq> vRandom am ! j" using index_okD(1) [OF ok] ij False nth_eq_iff_index_eq by blast
  define am' where "am' = (upd (vRandom am ! j) (\<lambda>x. x\<lparr> nRandomPos := int i \<rparr>)
    (upd (vRandom am ! i) (\<lambda>x. x\<lparr> nRandomPos := int j \<rparr>) am))\<lparr> vRandom := (vRandom am)[i := vRandom am ! j, j := vRandom am ! i] \<rparr>"
  have "SwapRandom i j am = Some am'" using False ij h by (simp add: SwapRandom_def am'_def Let_def)
  moreover have "same_but_pos am am'" by (simp add: same_but_pos_def am'_def view_upd_same)
  moreover have "index_view am' = (index_view am)(vRandom am ! i \<mapsto> (a, int j), vRandom am ! j \<mapsto> (b, int i))"
  proof -
    obtain ia ib where "mapInfo am (vRandom am ! i) = Some ia" "svc_ip ia = a" "mapInfo am (vRandom am ! j) = Some ib" "svc_ip ib = b"
      using ab by (auto elim!: view_SomeE)
    then show ?thesis using ne by (auto simp: am'_def upd_def view_def fun_eq_iff)
  qed
  then have "index_ok (index_view am') (mapAddr am') (vRandom am') (nIdCount am')"
    using index_swap [OF ok ij False ab] by (simp add: am'_def)
  moreover have "mset (vRandom am') = mset (vRandom am)" using mset_swap [OF ij(2,1)] by (simp add: am'_def)
  ultimately show thesis using that ij by (simp add: am'_def)
qed

lemma view_delete [simp]: "view f (am\<lparr> mapInfo := (mapInfo am2)(n := None) \<rparr>) = (view f am2)(n := None)"
  by (auto simp: view_def fun_eq_iff)

lemma am_okD:
  assumes "am_ok e am"
  shows "index_ok (index_view am) (mapAddr am) (vRandom am) (nIdCount am)"
    "table_ok e (table_view am) (vvTried am) (vvNew am)" "stat_ok (stat_view am)"
    "nTried am = int (length (concat (vvTried am)))" "nTried am + nNew am = int (length (vRandom am))" "0 \<le> nIdCount am"
  using assms by (simp_all add: am_ok_def)

lemma am_okI:
  assumes "index_ok (index_view am) (mapAddr am) (vRandom am) (nIdCount am)"
    "table_ok e (table_view am) (vvTried am) (vvNew am)" "stat_ok (stat_view am)"
    "nTried am = int (length (concat (vvTried am)))" "nTried am + nNew am = int (length (vRandom am))" "0 \<le> nIdCount am"
  shows "am_ok e am"
  using assms by (simp add: am_ok_def)

lemma stat_ok_delete: "stat_ok m \<Longrightarrow> stat_ok (m(n := None))"
  by (simp add: stat_ok_def)

abbreviation entry_view :: "CAddrMan \<Rightarrow> int \<rightharpoonup> CAddrInfo" where \<comment> \<open>everything but the position in vRandom\<close>
  "entry_view \<equiv> view (\<lambda>i. i\<lparr> nRandomPos := 0 \<rparr>)"

lemma index_entry:
  assumes ok: "index_ok (index_view am) (mapAddr am) (vRandom am) (nIdCount am)" and i: "mapInfo am n = Some i"
  shows "index_view am n = Some (svc_ip i, nRandomPos i)" "mapAddr am (svc_ip i) = Some n"
    "0 \<le> nRandomPos i" "nat (nRandomPos i) < length (vRandom am)" "vRandom am ! nat (nRandomPos i) = n" "0 \<le> n" "n < nIdCount am"
proof -
  show v: "index_view am n = Some (svc_ip i, nRandomPos i)" using i by (rule view_Some)
  show "mapAddr am (svc_ip i) = Some n" using index_okD(5) [OF ok] v by blast
  show "0 \<le> nRandomPos i" "nat (nRandomPos i) < length (vRandom am)" "vRandom am ! nat (nRandomPos i) = n"
    by (rule index_pos [OF ok v])+
  show "0 \<le> n" "n < nIdCount am" using index_okD(4) [OF ok v] by simp_all
qed

text \<open>The last reference to an entry is dropped: it leaves the index.\<close>

lemma delete_entry:
  assumes ok: "index_ok (index_view am) (mapAddr am) (vRandom am) (nIdCount am)" and i: "mapInfo am n = Some i" and l: "length (vRandom am) < 2 ^ 32"
  obtains am2 where
    "SwapRandom (nat (nRandomPos i mod 2 ^ 32)) (nat ((int (length (vRandom am)) - 1) mod 2 ^ 32)) am = Some am2"
    "same_but_pos am am2" "has_id am2 n" "svc_ip (info_at am2 n) = svc_ip i"
    "index_ok ((index_view am2)(n := None)) ((mapAddr am)(svc_ip i := None)) (butlast (vRandom am2)) (nIdCount am)"
proof -
  let ?k = "nat (nRandomPos i)" and ?l = "length (vRandom am) - 1"
  note I = index_entry [OF ok i]
  have "0 < length (vRandom am)" using le_less_trans [OF le0 I(4)] .
  then have "0 \<le> int (length (vRandom am)) - 1" "int (length (vRandom am)) - 1 < 2 ^ 32" "nRandomPos i < 2 ^ 32"
    using I(3,4) l by simp_all
  then have r: "nat (nRandomPos i mod 2 ^ 32) = ?k" "nat ((int (length (vRandom am)) - 1) mod 2 ^ 32) = ?l"
    using I(3) by (simp_all only: mod_pos_pos_trivial)
  have lt: "?l < length (vRandom am)" using I(4) by simp
  obtain am2 where am2: "SwapRandom ?k ?l am = Some am2" "same_but_pos am am2"
    "index_ok (index_view am2) (mapAddr am2) (vRandom am2) (nIdCount am2)" "vRandom am2 ! ?l = vRandom am ! ?k"
    by (rule SwapRandom_ok [OF ok I(4) lt])
  have s: "mapAddr am2 = mapAddr am" "nIdCount am2 = nIdCount am" "length (vRandom am2) = length (vRandom am)"
    using am2(2) by (simp_all add: same_but_pos_def)
  have "view svc_ip am2 = view svc_ip am" by (rule same_but_pos_view [OF am2(2)]) simp
  then have "view svc_ip am2 n = Some (svc_ip i)" using view_Some [OF i, of svc_ip] by simp
  then obtain j where j: "mapInfo am2 n = Some j" "svc_ip j = svc_ip i" by (auto elim: view_SomeE)
  have "\<exists>a. index_view am2 (vRandom am2 ! ?l) = Some (a, int ?l)" using index_okD(2) [OF am2(3), of ?l] lt unfolding s(3) by blast
  then have "index_view am2 n = Some (svc_ip i, int (length (vRandom am2) - 1))"
    using am2(4) I(5) view_Some [OF j(1), of "\<lambda>i. (svc_ip i, nRandomPos i)"] j(2) s(3) by auto
  moreover have "vRandom am2 \<noteq> []" using s(3) I(4) by auto
  ultimately have "index_ok ((index_view am2)(n := None)) ((mapAddr am2)(svc_ip i := None)) (butlast (vRandom am2)) (nIdCount am2)"
    by (rule index_pop [OF am2(3)])
  then show thesis using that [of am2] am2(1,2) j s(1,2) r by simp
qed

lemma unref_erase_ok:
  assumes ok: "am_ok e am" and l: "length (vRandom am) < 2 ^ 32" and b: "b < 256" "n \<in> vvNew am ! b"
  obtains am' where "unref n am = Some am'" "am_ok e (erase_from_bucket b n am')" "vvNew am' = vvNew am"
    "nKey am' = nKey am" "nIdCount am' = nIdCount am" "\<And>m. m \<noteq> n \<Longrightarrow> entry_view am' m = entry_view am m"
proof -
  let ?am1 = "upd n (\<lambda>i. i\<lparr> nRefCount := nRefCount i - 1 \<rparr>) am"
  note T = am_okD(2) [OF ok]
  have "b < length (vvNew am)" using b(1) table_okD(1) [OF T] by simp
  then obtain r where r: "table_view am n = Some (False, r)" using table_okD(5) [OF T nth_mem b(2)] by auto
  then obtain i where i: "mapInfo am n = Some i" "fInTried i = False" "nRefCount i = r" by (auto elim: view_SomeE)
  have at1: "mapInfo ?am1 n = Some (i\<lparr> nRefCount := r - 1 \<rparr>)" using i by (simp add: upd_def)
  have same1: "index_view ?am1 = index_view am" "stat_view ?am1 = stat_view am" by (simp_all add: view_upd_same)
  have table1: "table_view ?am1 = (table_view am)(n \<mapsto> (False, r - 1))" using i by (auto simp: view_upd)
  have rest1: "entry_view ?am1 m = entry_view am m" if "m \<noteq> n" for m using that by (simp add: view_upd)
  have removed: "table_ok e ((table_view am)(n := if r - 1 = 0 then None else Some (False, r - 1))) (vvTried am)
      ((vvNew am)[b := vvNew am ! b - {n}])" by (rule table_remove [OF T r b])
  show thesis
  proof (cases "r - 1 = 0")
    case False
    then have "unref n am = Some ?am1" using at1 by (simp add: unref_def Let_def)
    moreover have "am_ok e (erase_from_bucket b n ?am1)"
      using am_okD [OF ok] same1 table1 removed False by (simp add: am_ok_def erase_from_bucket_def)
    ultimately show thesis using that [of ?am1] rest1 by simp
  next
    case True
    have ok1: "index_ok (index_view ?am1) (mapAddr ?am1) (vRandom ?am1) (nIdCount ?am1)" using am_okD(1) [OF ok] same1 by simp
    obtain am2 where am2:
      "SwapRandom (nat (nRandomPos i mod 2 ^ 32)) (nat ((int (length (vRandom am)) - 1) mod 2 ^ 32)) ?am1 = Some am2"
      "same_but_pos ?am1 am2" "has_id am2 n" "svc_ip (info_at am2 n) = svc_ip i"
      "index_ok ((index_view am2)(n := None)) ((mapAddr am)(svc_ip i := None)) (butlast (vRandom am2)) (nIdCount am)"
      using delete_entry [OF ok1 at1] l by auto
    let ?am3 = "am2\<lparr> vRandom := butlast (vRandom am2), mapAddr := (mapAddr am2)(svc_ip (info_at am2 n) := None),
                      mapInfo := (mapInfo am2)(n := None), nNew := nNew am2 - 1 \<rparr>"
    have s2: "nKey am2 = nKey am" "nIdCount am2 = nIdCount am" "mapAddr am2 = mapAddr am" "nTried am2 = nTried am"
      "vvTried am2 = vvTried am" "nNew am2 = nNew am" "vvNew am2 = vvNew am" "length (vRandom am2) = length (vRandom am)"
      using am2(2) by (simp_all add: same_but_pos_def)
    have v2: "table_view am2 = table_view ?am1" "stat_view am2 = stat_view am" "entry_view am2 = entry_view ?am1"
      by (rule same_but_pos_view [OF am2(2)], simp, subst same1(2) [symmetric], rule same_but_pos_view [OF am2(2)], simp,
          rule same_but_pos_view [OF am2(2)], simp)
    have "vRandom am \<noteq> []" using index_entry(4) [OF am_okD(1) [OF ok] i(1)] by auto
    then have len: "int (length (butlast (vRandom am2))) = int (length (vRandom am)) - 1"
      using s2(8) by (cases "vRandom am") simp_all
    have "unref n am = Some ?am3" using at1 True am2(1) i by (simp add: unref_def Let_def)
    moreover have "am_ok e (erase_from_bucket b n ?am3)"
    proof (rule am_okI)
      show "table_ok e (table_view (erase_from_bucket b n ?am3)) (vvTried (erase_from_bucket b n ?am3)) (vvNew (erase_from_bucket b n ?am3))"
        using removed True v2(1) table1 s2 by (simp add: erase_from_bucket_def)
      show "stat_ok (stat_view (erase_from_bucket b n ?am3))"
        using stat_ok_delete [OF am_okD(3) [OF ok]] v2(2) by (simp add: erase_from_bucket_def)
    qed (use am_okD(4-6) [OF ok] am2(4,5) s2 len in \<open>simp_all add: erase_from_bucket_def\<close>)
    moreover have "entry_view ?am3 m = entry_view am m" if "m \<noteq> n" for m using that v2(3) rest1 [OF that] by simp
    ultimately show thesis using that [of ?am3] s2 by simp
  qed
qed

subsection \<open>Evicting from a new bucket\<close>

lemma ShrinkNew_terrible_ok:
  "(\<And>x. x \<in> set its \<Longrightarrow> has_id am x) \<Longrightarrow>
   \<exists>t. ShrinkNew_terrible nNow am its = Some t \<and> (\<forall>x. t = Some x \<longrightarrow> x \<in> set its)"
  by (induction its) auto

lemma ShrinkNew_oldest_ok:
  assumes "\<And>x. x \<in> set its \<Longrightarrow> has_id am x \<and> x \<noteq> - 1" "nOldest = - 1 \<or> has_id am nOldest"
    "nOldest \<noteq> - 1 \<or> (\<exists>k<length its. i + k \<in> set n)"
  shows "\<exists>x. ShrinkNew_oldest n i nOldest its am = Some (x, am) \<and> (x = nOldest \<and> nOldest \<noteq> - 1 \<or> x \<in> set its)"
  using assms
proof (induction its arbitrary: i nOldest)
  case (Cons y its)
  have h: "has_id am x \<and> x \<noteq> - 1" if "x \<in> set its" for x using Cons.prems(1) that by simp
  have hy: "has_id am y" "y \<noteq> - 1" using Cons.prems(1) by simp_all
  show ?case
  proof (cases "i \<in> set n")
    case False
    have "\<exists>k<length its. i + 1 + k \<in> set n" if ex: "\<exists>k<length (y # its). i + k \<in> set n"
    proof -
      obtain k where k: "k < length (y # its)" "i + k \<in> set n" using ex by blast
      then obtain j where "k = Suc j" using False by (cases k) auto
      then show ?thesis using k by (intro exI [of _ j]) simp
    qed
    then show ?thesis using Cons.IH [of nOldest "i + 1", OF h] Cons.prems(2,3) False by auto
  next
    case True
    have step: "ShrinkNew_oldest n i nOldest (y # its) am =
        (if nOldest = - 1 \<or> adr_nTime (info_at am y) < adr_nTime (info_at am nOldest)
         then ShrinkNew_oldest n (i + 1) y its am else ShrinkNew_oldest n (i + 1) nOldest its am)"
      using True hy Cons.prems(2) by (auto simp: Let_def)
    show ?thesis
    proof (cases "nOldest = - 1 \<or> adr_nTime (info_at am y) < adr_nTime (info_at am nOldest)")
      case True
      then have new: "ShrinkNew_oldest n i nOldest (y # its) am = ShrinkNew_oldest n (i + 1) y its am" unfolding step by (rule if_P)
      show ?thesis unfolding new using Cons.IH [of y "i + 1", OF h] hy by auto
    next
      case False
      then have keep: "ShrinkNew_oldest n i nOldest (y # its) am = ShrinkNew_oldest n (i + 1) nOldest its am" "nOldest \<noteq> - 1"
        unfolding step by simp_all
      then show ?thesis unfolding keep(1) using Cons.IH [of nOldest "i + 1", OF h] Cons.prems(2) by auto
    qed
  qed
qed auto

lemma bucket_ids:
  assumes ok: "am_ok e am" and b: "b < 256" and n: "n \<in> vvNew am ! b"
  shows "has_id am n" "n \<noteq> - 1" "\<exists>i. mapInfo am n = Some i \<and> \<not> fInTried i"
proof -
  have "b < length (vvNew am)" using b table_okD(1) [OF am_okD(2) [OF ok]] by simp
  then obtain r where "table_view am n = Some (False, r)"
    using table_okD(5) [OF am_okD(2) [OF ok] nth_mem n] by auto
  then obtain i where i: "mapInfo am n = Some i" "\<not> fInTried i" by (auto elim: view_SomeE)
  then show "has_id am n" "\<exists>i. mapInfo am n = Some i \<and> \<not> fInTried i" by auto
  show "n \<noteq> - 1" using index_entry(6) [OF am_okD(1) [OF ok] i(1)] by simp
qed

lemma ShrinkNew_ok:
  assumes ok: "am_ok e am" and l: "length (vRandom am) < 2 ^ 32" and b: "b < 256" "vvNew am ! b \<noteq> {}"
  obtains r am' x where "ShrinkNew R nNow b am = Some (r, am')" "am_ok e am'" "x \<in> vvNew am ! b"
    "vvNew am' = (vvNew am)[b := vvNew am ! b - {x}]" "nKey am' = nKey am" "nIdCount am' = nIdCount am"
    "\<And>m. m \<noteq> x \<Longrightarrow> entry_view am' m = entry_view am m"
proof -
  let ?s = "vvNew am ! b"
  have lb: "b < length (vvNew am)" using b(1) table_okD(1) [OF am_okD(2) [OF ok]] by simp
  have fin: "finite ?s" using table_okD(3) [OF am_okD(2) [OF ok] nth_mem [OF lb]] .
  then have its: "set (sorted_list_of_set ?s) = ?s" "length (sorted_list_of_set ?s) = card ?s" by simp_all
  have ids: "has_id am x \<and> x \<noteq> - 1" if "x \<in> set (sorted_list_of_set ?s)" for x
    using bucket_ids(1,2) [OF ok b(1)] that its(1) by simp
  obtain t where t: "ShrinkNew_terrible nNow am (sorted_list_of_set ?s) = Some t" "t = Some x \<Longrightarrow> x \<in> ?s" for x
    using ShrinkNew_terrible_ok [of "sorted_list_of_set ?s" am nNow] ids its(1) by auto
  let ?n = "map (\<lambda>k. GetRandInt (R k) (card ?s)) [0, 1, 2, 3]"
  have "card ?s \<noteq> 0" using fin b(2) by simp
  then have "\<exists>k<length (sorted_list_of_set ?s). 0 + k \<in> set ?n"
    using its(2) by (intro exI [of _ "GetRandInt (R 0) (card ?s)"]) (simp add: GetRandInt_def)
  then obtain y where y: "ShrinkNew_oldest ?n 0 (- 1) (sorted_list_of_set ?s) am = Some (y, am)" "y \<in> ?s"
    using ShrinkNew_oldest_ok [of "sorted_list_of_set ?s" am "- 1" 0 ?n] ids its(1) by auto
  let ?x = "case t of Some x \<Rightarrow> x | None \<Rightarrow> y"
  have x: "?x \<in> ?s" using t(2) y(2) by (cases t) auto
  obtain am' where am': "unref ?x am = Some am'" "am_ok e (erase_from_bucket b ?x am')" "vvNew am' = vvNew am"
    "nKey am' = nKey am" "nIdCount am' = nIdCount am" "\<And>m. m \<noteq> ?x \<Longrightarrow> entry_view am' m = entry_view am m"
    using unref_erase_ok [OF ok l b(1) x] by blast
  have "\<exists>r. ShrinkNew R nNow b am = Some (r, erase_from_bucket b ?x am')"
    using lb t(1) y(1) am'(1) bucket_ids(1) [OF ok b(1) y(2)] by (cases t) (simp_all add: ShrinkNew_def Let_def)
  then show thesis
    using that [of _ "erase_from_bucket b ?x am'" ?x] am'(2-) x by (auto simp: erase_from_bucket_def)
qed

text \<open>Add's last step: a pending reference goes into its bucket, after room has been made.\<close>

lemma pending_to_bucket:
  assumes ok: "am_ok ((\<lambda>_. 0)(nId := 1)) am" and i: "mapInfo am nId = Some i"
    and b: "b < 256" "nId \<notin> vvNew am ! b"
  obtains am1 where
    "(if card (vvNew am ! b) = 64 then do { (_, am) \<leftarrow> ShrinkNew R nNow b am; Some am } else Some am) = Some am1"
    "am_ok (\<lambda>_. 0) (am1\<lparr> vvNew := (vvNew am1)[b := insert nId (vvNew am1 ! b)] \<rparr>)"
    "nKey am1 = nKey am" "nIdCount am1 = nIdCount am" "entry_view am1 nId = entry_view am nId"
proof -
  let ?e = "(\<lambda>_. 0)(nId := 1 :: nat)"
  have "{n. ?e n \<noteq> 0} \<subseteq> set [nId]" by auto
  then have l: "length (vRandom am) < 2 ^ 32" using am_ok_size [OF ok, of "[nId]"] by simp
  have lb: "b < length (vvNew am)" using b(1) table_okD(1) [OF am_okD(2) [OF ok]] by simp
  have card: "finite (vvNew am ! b)" "card (vvNew am ! b) \<le> 64"
    using table_okD(3,4) [OF am_okD(2) [OF ok] nth_mem [OF lb]] by simp_all
  obtain am1 where am1:
    "(if card (vvNew am ! b) = 64 then do { (_, am) \<leftarrow> ShrinkNew R nNow b am; Some am } else Some am) = Some am1"
    "am_ok ?e am1" "nId \<notin> vvNew am1 ! b" "card (vvNew am1 ! b) < 64" "nKey am1 = nKey am" "nIdCount am1 = nIdCount am"
    "entry_view am1 nId = entry_view am nId"
  proof (cases "card (vvNew am ! b) = 64")
    case True
    then have "vvNew am ! b \<noteq> {}" by auto
    then obtain r am' x where am': "ShrinkNew R nNow b am = Some (r, am')" "am_ok ?e am'" "x \<in> vvNew am ! b"
      "vvNew am' = (vvNew am)[b := vvNew am ! b - {x}]" "nKey am' = nKey am" "nIdCount am' = nIdCount am"
      "\<And>m. m \<noteq> x \<Longrightarrow> entry_view am' m = entry_view am m"
      using ShrinkNew_ok [OF ok l b(1)] by metis
    then have "x \<noteq> nId" using b(2) by auto
    then show ?thesis using that [of am'] am' True lb b(2) card by (simp add: card_Diff_singleton)
  next
    case False
    then show ?thesis using that [of am] ok b(2) card by simp
  qed
  have T: "table_ok ?e (table_view am1) (vvTried am1) (vvNew am1)" by (rule am_okD(2) [OF am1(2)])
  have "entry_view am1 nId = Some (i\<lparr> nRandomPos := 0 \<rparr>)" using am1(7) view_Some [OF i] by simp
  then obtain j where "mapInfo am1 nId = Some j" by (auto elim: view_SomeE)
  then obtain tr r where r: "table_view am1 nId = Some (tr, r)" using view_Some by blast
  then have "\<not> tr" using table_okD(9) [OF T r] by auto
  then have "table_ok (?e(nId := 0)) (table_view am1) (vvTried am1) ((vvNew am1)[b := insert nId (vvNew am1 ! b)])"
    using table_insert [OF T, of nId r 0 b] r b(1) am1(3,4) by simp
  moreover have "?e(nId := 0) = (\<lambda>_. 0)" by auto
  ultimately show thesis using that [OF am1(1) _ am1(5-7)] am_okD [OF am1(2)] by (simp add: am_ok_def)
qed

end
