(* ===== verification/AddrInv.thy ===== *)
theory AddrInv
  imports AddrTable
begin

text \<open>
  The operations of the address manager keep the invariant of AddrTable, no assertion of theirs
  fails, and the code's own consistency check passes in every state they reach.
\<close>

subsection \<open>Moving an entry to the tried table\<close>

lemma SelectTried_loop_ok:
  assumes "kb < length (vvTried am)" "\<And>x. x \<in> set (vvTried am ! kb) \<Longrightarrow> has_id am x \<and> x \<noteq> - 1"
    "i + n \<le> length (vvTried am ! kb)"
    "0 < n \<and> nOldest = - 1 \<or> 0 \<le> pos \<and> nat pos < length (vvTried am ! kb) \<and> (nOldest = - 1 \<or> has_id am nOldest)"
  shows "\<exists>pos' w. SelectTried_loop n R kb i nOldest pos am = Some (pos', am\<lparr> vvTried := (vvTried am)[kb := w] \<rparr>) \<and>
    mset w = mset (vvTried am ! kb) \<and> 0 \<le> pos' \<and> nat pos' < length w"
  using assms
proof (induction n arbitrary: i nOldest pos am)
  case 0
  then show ?case by (intro exI [of _ pos] exI [of _ "vvTried am ! kb"]) simp
next
  case (Suc n)
  let ?v = "vvTried am ! kb"
  let ?p = "GetRandInt (R i) (length ?v - i) + i"
  let ?t = "?v ! ?p"
  let ?w = "(?v[?p := ?v ! i])[i := ?t]"
  let ?am = "am\<lparr> vvTried := (vvTried am)[kb := ?w] \<rparr>"
  have i: "i < length ?v" using Suc.prems(3) by simp
  then have "R i mod (length ?v - i) < length ?v - i" by (intro mod_less_divisor) simp
  then have p: "?p < length ?v" by (simp add: GetRandInt_def less_diff_conv)
  have m: "mset ?w = mset ?v" using mset_swap [OF p i] by (cases "?p = i") (simp_all add: list_update_swap)
  have t: "has_id am ?t" "?t \<noteq> - 1" using Suc.prems(2) [of ?t] p by simp_all
  have old: "nOldest = - 1 \<or> has_id am nOldest" using Suc.prems(4) by auto
  have step: "SelectTried_loop (Suc n) R kb i nOldest pos am =
      (if nOldest = - 1 \<or> nLastSuccess (info_at am ?t) < nLastSuccess (info_at am nOldest)
       then SelectTried_loop n R kb (i + 1) ?t (int ?p) ?am else SelectTried_loop n R kb (i + 1) nOldest pos ?am)"
    using t old by (cases "nOldest = - 1") (simp_all add: Let_def)
  have rec: "\<exists>pos' w. SelectTried_loop n R kb (i + 1) nO po ?am = Some (pos', am\<lparr> vvTried := (vvTried am)[kb := w] \<rparr>) \<and>
      mset w = mset ?v \<and> 0 \<le> pos' \<and> nat pos' < length w"
    if "0 \<le> po" "nat po < length ?v" "nO = - 1 \<or> has_id am nO" for nO po
  proof -
    have "has_id ?am x \<and> x \<noteq> - 1" if "x \<in> set ?w" for x
      using Suc.prems(2) [of x] mset_eq_setD [OF m] that by simp
    then show ?thesis using Suc.IH [of ?am "i + 1" nO po] Suc.prems(1,3) that m by simp
  qed
  show ?case
  proof (cases "nOldest = - 1 \<or> nLastSuccess (info_at am ?t) < nLastSuccess (info_at am nOldest)")
    case True
    then show ?thesis unfolding step using rec [of "int ?p" ?t] p t by simp
  next
    case False
    then show ?thesis unfolding step using rec [of pos nOldest] Suc.prems(4) by simp
  qed
qed

lemma tried_ids:
  assumes ok: "am_ok e am" and k: "k < 64" and n: "n \<in> set (vvTried am ! k)"
  shows "has_id am n" "n \<noteq> - 1" "\<exists>i. mapInfo am n = Some i \<and> fInTried i"
proof -
  have "k < length (vvTried am)" using k table_okD(2) [OF am_okD(2) [OF ok]] by simp
  then have "n \<in> set (concat (vvTried am))" using n nth_mem by fastforce
  then obtain r where "table_view am n = Some (True, r)" using table_okD(8) [OF am_okD(2) [OF ok], of n] by auto
  then obtain i where i: "mapInfo am n = Some i" "fInTried i" by (auto elim: view_SomeE)
  then show "has_id am n" "\<exists>i. mapInfo am n = Some i \<and> fInTried i" by auto
  show "n \<noteq> - 1" using index_entry(6) [OF am_okD(1) [OF ok] i(1)] by simp
qed

lemma SelectTried_ok:
  assumes "k < length (vvTried am)" "\<And>x. x \<in> set (vvTried am ! k) \<Longrightarrow> has_id am x \<and> x \<noteq> - 1" "vvTried am ! k \<noteq> []"
  obtains pos w where "SelectTried R k am = Some (int pos, am\<lparr> vvTried := (vvTried am)[k := w] \<rparr>)"
    "mset w = mset (vvTried am ! k)" "pos < length w"
proof -
  have "\<exists>pos w. SelectTried R k am = Some (pos, am\<lparr> vvTried := (vvTried am)[k := w] \<rparr>) \<and>
      mset w = mset (vvTried am ! k) \<and> 0 \<le> pos \<and> nat pos < length w"
    unfolding SelectTried_def using assms by (intro SelectTried_loop_ok) auto
  then show thesis using that nat_0_le by metis
qed

lemma GetTriedBucket_less: "GetTriedBucket sha key i < 64"
  by (simp add: GetTriedBucket_def Let_def unat_mod)

lemma GetNewBucket_less: "GetNewBucket sha key src i < 256"
  by (simp add: GetNewBucket_def Let_def unat_mod)

lemma view_put [simp]:
  "view f (am\<lparr> mapInfo := m(n \<mapsto> i) \<rparr>) = (view f (am\<lparr> mapInfo := m \<rparr>))(n \<mapsto> f i)"
  "view f (am2\<lparr> mapInfo := mapInfo am \<rparr>) = view f am"
  by (auto simp: view_def fun_eq_iff)

lemma view_idem: "mapInfo am n = Some i \<Longrightarrow> f i' = f i \<Longrightarrow> (view f am)(n \<mapsto> f i') = view f am"
  by (simp add: fun_upd_idem view_def)

abbreviation tried_entry :: "CAddrInfo \<Rightarrow> CAddrInfo" where
  "tried_entry i \<equiv> i\<lparr> nRefCount := 0, fInTried := True \<rparr>"

lemma tried_room_ok:
  assumes ok: "am_ok (\<lambda>_. 0) am" and i: "mapInfo am n = Some i" "\<not> fInTried i" "nLastSuccess i \<noteq> 0"
    and k: "k < 64" "length (vvTried am ! k) < 64"
  shows "am_ok (\<lambda>_. 0) (am\<lparr> mapInfo := (mapInfo am)(n \<mapsto> tried_entry i), vvNew := map (\<lambda>s. s - {n}) (vvNew am),
    vvTried := (vvTried am)[k := vvTried am ! k @ [n]], nTried := nTried am + 1, nNew := nNew am - 1 \<rparr>)"
    (is "am_ok _ ?am'")
proof (rule am_okI)
  note T = am_okD(2) [OF ok]
  have l: "k < length (vvTried am)" using k(1) table_okD(2) [OF T] by simp
  show "index_ok (index_view ?am') (mapAddr ?am') (vRandom ?am') (nIdCount ?am')"
    using am_okD(1) [OF ok] by (simp add: view_idem [OF i(1), of "\<lambda>i. (svc_ip i, nRandomPos i)" "tried_entry i", simplified])
  have "table_view am n = Some (False, nRefCount i)" using i by (simp add: view_def)
  then show "table_ok (\<lambda>_. 0) (table_view ?am') (vvTried ?am') (vvNew ?am')"
    using table_to_tried [OF T _ refl k] by simp
  show "stat_ok (stat_view ?am')"
    using am_okD(3) [OF ok] i view_Some [OF i(1), of "\<lambda>i. (fInTried i, nLastTry i, nLastSuccess i)"] by (auto simp: stat_ok_def)
  have "length (concat ((vvTried am)[k := vvTried am ! k @ [n]])) = length (concat (vvTried am)) + 1"
    using arg_cong [OF concat_update [OF l, of "vvTried am ! k @ [n]"], of size] by simp
  then show "nTried ?am' = int (length (concat (vvTried ?am')))" using am_okD(4) [OF ok] by simp
qed (use am_okD(5,6) [OF ok] in simp_all)

lemma tried_evict_ok:
  assumes ok: "am_ok (\<lambda>_. 0) am" and i: "mapInfo am n = Some i" "\<not> fInTried i" "nLastSuccess i \<noteq> 0"
    and k: "k < 64" "mset w = mset (vvTried am ! k)" "p < length w" and j: "mapInfo am (w ! p) = Some j"
    and b: "b < 256" "card (map (\<lambda>s. s - {n}) (vvNew am) ! b) < 64"
  shows "am_ok (\<lambda>_. 0) (am\<lparr> vvNew := (map (\<lambda>s. s - {n}) (vvNew am))[b := insert (w ! p) (map (\<lambda>s. s - {n}) (vvNew am) ! b)],
    vvTried := (vvTried am)[k := w[p := n]],
    mapInfo := (mapInfo am)(w ! p \<mapsto> j\<lparr> fInTried := False, nRefCount := 1 \<rparr>, n \<mapsto> tried_entry i) \<rparr>)"
    (is "am_ok _ ?am'")
proof (rule am_okI)
  note T = am_okD(2) [OF ok]
  have l: "k < length (vvTried am)" using k(1) table_okD(2) [OF T] by simp
  have Tw: "table_ok (\<lambda>_. 0) (table_view am) ((vvTried am)[k := w]) (vvNew am)" by (rule table_bucket_perm [OF T k(1,2)])
  have "w ! p \<in> set (vvTried am ! k)" using mset_eq_setD [OF k(2)] k(3) nth_mem by blast
  then have tj: "fInTried j" using tried_ids(3) [OF ok k(1), of "w ! p"] j by auto
  then have ne: "w ! p \<noteq> n" using i(1,2) j by auto
  show "index_ok (index_view ?am') (mapAddr ?am') (vRandom ?am') (nIdCount ?am')"
    using am_okD(1) [OF ok] by (simp add: view_idem [OF i(1), of "\<lambda>i. (svc_ip i, nRandomPos i)" "tried_entry i", simplified]
      view_idem [OF j, of "\<lambda>i. (svc_ip i, nRandomPos i)" "j\<lparr> fInTried := False, nRefCount := 1 \<rparr>", simplified])
  have "table_view am n = Some (False, nRefCount i)" using i by (simp add: view_def)
  then show "table_ok (\<lambda>_. 0) (table_view ?am') (vvTried ?am') (vvNew ?am')"
    using table_evict [OF Tw _ refl k(1) _ _ refl b, of "nRefCount i" p "w ! p"] l k(3) by simp
  show "stat_ok (stat_view ?am')"
    using am_okD(3) [OF ok] i j tj view_Some [OF i(1), of "\<lambda>i. (fInTried i, nLastTry i, nLastSuccess i)"]
      view_Some [OF j, of "\<lambda>i. (fInTried i, nLastTry i, nLastSuccess i)"] by (auto simp: stat_ok_def)
  have "length (concat ((vvTried am)[k := w[p := n]])) = length (concat (vvTried am))"
    using arg_cong [OF concat_update [OF l, of "w[p := n]"], of size] mset_eq_length [OF k(2)] by simp
  then show "nTried ?am' = int (length (concat (vvTried ?am')))" using am_okD(4) [OF ok] by simp
qed (use am_okD(5,6) [OF ok] in simp_all)

lemma MakeTried_ok:
  assumes ok: "am_ok (\<lambda>_. 0) am" and o: "nOrigin < 256" "nId \<in> vvNew am ! nOrigin"
    and good: "mapInfo am nId = Some i" "nLastSuccess i \<noteq> 0"
  obtains am' where "MakeTried sha R nId nOrigin am = Some am'" "am_ok (\<lambda>_. 0) am'"
    "mapInfo am' nId = Some (i\<lparr> nRefCount := 0, fInTried := True \<rparr>)"
    "nId \<in> set (vvTried am' ! GetTriedBucket sha (nKey am) i)" "nKey am' = nKey am"
proof -
  let ?k = "GetTriedBucket sha (nKey am) i"
  note T = am_okD(2) [OF ok]
  have k: "?k < 64" by (rule GetTriedBucket_less)
  have lo: "nOrigin < length (vvNew am)" using o(1) table_okD(1) [OF T] by simp
  obtain r where r: "table_view am nId = Some (False, r)" using table_okD(5) [OF T nth_mem [OF lo] o(2)] by auto
  then have i: "fInTried i = False" "nRefCount i = r" using good(1) by (simp_all add: view_def)
  have rc: "r = int (length (filter (\<lambda>vNew. nId \<in> vNew) (vvNew am)))" using table_okD(9) [OF T r] by (simp add: occ_def)
  let ?am0 = "am\<lparr> mapInfo := (mapInfo am)(nId \<mapsto> i\<lparr> nRefCount := 0 \<rparr>), vvNew := map (\<lambda>s. s - {nId}) (vvNew am) \<rparr>"
  have am0: "erase_from_new nId am = ?am0" using good(1) rc i by (simp add: erase_from_new_def upd_def)
  have bucket: "GetTriedBucket sha (nKey am) (i\<lparr> nRefCount := 0 \<rparr>) = ?k" by (simp add: GetTriedBucket_def GetKey_def)
  have nt: "\<not> fInTried i" using i(1) by simp
  show thesis
  proof (cases "length (vvTried am ! ?k) < 64")
    case True
    have "MakeTried sha R nId nOrigin am = Some (am\<lparr> mapInfo := (mapInfo am)(nId \<mapsto> tried_entry i), vvNew := map (\<lambda>s. s - {nId}) (vvNew am),
      vvTried := (vvTried am)[?k := vvTried am ! ?k @ [nId]], nTried := nTried am + 1, nNew := nNew am - 1 \<rparr>)" (is "_ = Some ?am'")
      using o(2) True bucket by (simp add: MakeTried_def am0 info_at_def Let_def upd_def)
    moreover have "?k < length (vvTried am)" using k table_okD(2) [OF T] by simp
    ultimately show thesis using that [of ?am'] tried_room_ok [OF ok good(1) nt good(2) k True] by simp
  next
    case False
    then have ne: "vvTried am ! ?k \<noteq> []" by auto
    let ?am1 = "?am0\<lparr> nNew := nNew am - 1 \<rparr>"
    have l: "?k < length (vvTried am)" using k table_okD(2) [OF T] by simp
    have tried: "has_id am x \<and> x \<noteq> - 1" if "x \<in> set (vvTried am ! ?k)" for x
      using tried_ids(1,2) [OF ok k that] by simp
    then have "has_id ?am1 x \<and> x \<noteq> - 1" if "x \<in> set (vvTried ?am1 ! ?k)" for x
      using that by (simp add: has_id_def)
    then obtain p w where w: "SelectTried R ?k ?am1 = Some (int p, ?am1\<lparr> vvTried := (vvTried am)[?k := w] \<rparr>)"
      "mset w = mset (vvTried am ! ?k)" "p < length w"
      using SelectTried_ok [of ?k ?am1 R] l ne by auto
    have "w ! p \<in> set (vvTried am ! ?k)" using mset_eq_setD [OF w(2)] w(3) nth_mem by blast
    then obtain j where j: "mapInfo am (w ! p) = Some j" "fInTried j" using tried_ids(3) [OF ok k] by blast
    then have x: "w ! p \<noteq> nId" using good(1) nt by auto
    let ?u = "GetNewBucket sha (nKey am) (source j) j"
    let ?vN = "map (\<lambda>s. s - {nId}) (vvNew am)"
    let ?b = "if card (?vN ! ?u) < 64 then ?u else nOrigin"
    have "card (vvNew am ! nOrigin - {nId}) < 64"
      using table_okD(3,4) [OF T nth_mem [OF lo]] o(2) card_Diff1_less [of "vvNew am ! nOrigin" nId] by linarith
    then have b: "?b < 256" "card (?vN ! ?b) < 64" using o(1) lo GetNewBucket_less by auto
    have "MakeTried sha R nId nOrigin am =
      Some (am\<lparr> vvNew := ?vN[?b := insert (w ! p) (?vN ! ?b)], vvTried := (vvTried am)[?k := w[p := nId]],
        mapInfo := (mapInfo am)(w ! p \<mapsto> j\<lparr> fInTried := False, nRefCount := 1 \<rparr>, nId \<mapsto> tried_entry i) \<rparr>)" (is "_ = Some ?am'")
      using o(2) False bucket w(1,3) l j x by (simp add: MakeTried_def am0 info_at_def has_id_def Let_def upd_def)
    then show thesis using that [of ?am'] tried_evict_ok [OF ok good(1) nt good(2) k w(2,3) j(1) b] l w(3) x
      by (simp add: set_update_memI)
  qed
qed

subsection \<open>Good, Attempt and Connected\<close>

abbreviation tables_ok :: "CAddrMan \<Rightarrow> bool" where \<comment> \<open>no reference is pending\<close>
  "tables_ok \<equiv> am_ok (\<lambda>_. 0)"

lemma Find_eq:
  assumes "am_ok e am"
  shows "Find a am = mapAddr am a"
proof (cases "mapAddr am a")
  case (Some n)
  then obtain k where "index_view am n = Some (a, k)" using index_okD(5) [OF am_okD(1) [OF assms]] by blast
  then show ?thesis using Some by (auto simp: Find_def has_id_def view_def)
qed (simp add: Find_def)

lemma Find_Some:
  assumes "am_ok e am" "Find a am = Some n"
  obtains i where "mapInfo am n = Some i" "svc_ip i = a"
proof -
  have "mapAddr am a = Some n" using assms(2) unfolding Find_eq [OF assms(1)] .
  then obtain k where "index_view am n = Some (a, k)" using index_okD(5) [OF am_okD(1) [OF assms(1)]] by blast
  then show thesis using that by (auto elim: view_SomeE)
qed

lemma upd_put: "mapInfo am n = Some i \<Longrightarrow> upd n g am = am\<lparr> mapInfo := (mapInfo am)(n \<mapsto> g i) \<rparr>"
  by (simp add: upd_def)

lemma upd_ok:
  assumes ok: "am_ok e am" and i: "mapInfo am n = Some i"
    and g: "svc_ip (g i) = svc_ip i" "nRandomPos (g i) = nRandomPos i" "fInTried (g i) = fInTried i" "nRefCount (g i) = nRefCount i"
      "0 \<le> nLastTry (g i)" "0 \<le> nLastSuccess (g i)" "fInTried i \<Longrightarrow> nLastSuccess (g i) \<noteq> 0"
  shows "am_ok e (upd n g am)"
proof (rule am_okI)
  have v: "index_view (upd n g am) = index_view am" "table_view (upd n g am) = table_view am"
    using i g(1-4) by (auto simp: view_def upd_def fun_eq_iff)
  show "index_ok (index_view (upd n g am)) (mapAddr (upd n g am)) (vRandom (upd n g am)) (nIdCount (upd n g am))"
    using am_okD(1) [OF ok] v by simp
  show "table_ok e (table_view (upd n g am)) (vvTried (upd n g am)) (vvNew (upd n g am))" using am_okD(2) [OF ok] v by simp
  show "stat_ok (stat_view (upd n g am))" using am_okD(3) [OF ok] i g(3,5-7) by (auto simp: stat_ok_def view_upd)
qed (use am_okD(4-6) [OF ok] in simp_all)

lemma entry_stat:
  assumes "am_ok e am" "mapInfo am n = Some i"
  shows "0 \<le> nLastTry i" "0 \<le> nLastSuccess i" "fInTried i \<Longrightarrow> nLastSuccess i \<noteq> 0"
proof -
  have "stat_view am n = Some (fInTried i, nLastTry i, nLastSuccess i)" using assms(2) by (rule view_Some)
  then show "0 \<le> nLastTry i" "0 \<le> nLastSuccess i" "fInTried i \<Longrightarrow> nLastSuccess i \<noteq> 0"
    using am_okD(3) [OF assms(1)] unfolding stat_ok_def by blast+
qed

lemma entry_refs:
  assumes "am_ok e am" "mapInfo am n = Some i"
  shows "nRefCount i = int (occ n (vvNew am) + e n)" "nRefCount i \<le> 4" "fInTried i \<longleftrightarrow> nRefCount i = 0"
proof -
  have "table_view am n = Some (fInTried i, nRefCount i)" using assms(2) by (rule view_Some)
  then show "nRefCount i = int (occ n (vvNew am) + e n)" "nRefCount i \<le> 4" "fInTried i \<longleftrightarrow> nRefCount i = 0"
    using table_okD(9) [OF am_okD(2) [OF assms(1)]] by blast+
qed

text \<open>Attempt and Connected change the statistics of the entry they find, or nothing.\<close>

lemma found_upd_ok:
  assumes ok: "tables_ok am" and t: "\<And>i. 0 \<le> nLastTry i \<Longrightarrow> 0 \<le> nLastTry (g i)"
    and g: "\<And>i. svc_ip (g i) = svc_ip i \<and> nRandomPos (g i) = nRandomPos i \<and> fInTried (g i) = fInTried i \<and>
      nRefCount (g i) = nRefCount i \<and> nLastSuccess (g i) = nLastSuccess i"
  shows "Find a am = Some n \<Longrightarrow> tables_ok (upd n g am)"
proof -
  assume "Find a am = Some n"
  then obtain i where i: "mapInfo am n = Some i" using Find_Some [OF ok] by blast
  show ?thesis using upd_ok [OF ok i] g [of i] t [of i] entry_stat [OF ok i] by simp
qed

lemma Attempt_ok: "tables_ok am \<Longrightarrow> 0 \<le> nTime \<Longrightarrow> tables_ok (Attempt addr nTime am)"
  by (simp add: Attempt_def found_upd_ok split: option.split)

lemma Connected_ok: "tables_ok am \<Longrightarrow> tables_ok (Connected addr nTime am)"
  by (simp add: Connected_def found_upd_ok Let_def split: option.split)

lemma bucket_found:
  assumes ok: "tables_ok am" and i: "mapInfo am n = Some i" "\<not> fInTried i" and r: "nRnd < 256"
  obtains k where "find (\<lambda>k. n \<in> vvNew am ! ((k + nRnd) mod length (vvNew am))) [0..<length (vvNew am)] = Some k"
    "(k + nRnd) mod length (vvNew am) < 256" "n \<in> vvNew am ! ((k + nRnd) mod length (vvNew am))"
proof -
  have l: "length (vvNew am) = 256" by (rule table_okD(1) [OF am_okD(2) [OF ok]])
  have "occ n (vvNew am) \<noteq> 0" using entry_refs [OF ok i(1)] i(2) by auto
  then obtain b where b: "b < 256" "n \<in> vvNew am ! b" using l by (auto simp: occ_0 in_set_conv_nth)
  have "((b + (256 - nRnd)) mod 256 + nRnd) mod 256 = (b + (256 - nRnd) + nRnd) mod 256" by (rule mod_add_left_eq)
  also have "\<dots> = b" using b(1) r by simp
  finally have "\<exists>x\<in>set [0..<256]. n \<in> vvNew am ! ((x + nRnd) mod 256)"
    using b(2) by (intro bexI [of _ "(b + (256 - nRnd)) mod 256"]) simp_all
  then have "find (\<lambda>k. n \<in> vvNew am ! ((k + nRnd) mod length (vvNew am))) [0..<length (vvNew am)] \<noteq> None"
    unfolding find_None_iff l by blast
  then obtain k where k: "find (\<lambda>k. n \<in> vvNew am ! ((k + nRnd) mod length (vvNew am))) [0..<length (vvNew am)] = Some k" by blast
  then have "n \<in> vvNew am ! ((k + nRnd) mod length (vvNew am))" unfolding find_Some_iff by auto
  then show thesis using that [OF k] l by simp
qed

lemma Good_ok:
  assumes ok: "tables_ok am" and t: "0 < nTime"
  obtains am' where "Good sha R addr nTime am = Some am'" "tables_ok am'"
    "\<And>n i. mapInfo am n = Some i \<Longrightarrow> svc_ip i = svc_ip addr \<Longrightarrow> svc_port i = svc_port addr \<Longrightarrow>
      \<exists>j. mapInfo am' n = Some j \<and> svc_ip j = svc_ip addr \<and> svc_port j = svc_port addr \<and>
        fInTried j \<and> nLastSuccess j = nTime \<and> nAttempts j = 0"
proof (cases "Find (svc_ip addr) am")
  case None
  have "svc_ip i \<noteq> svc_ip addr" if "mapInfo am n = Some i" for n i
    using None index_entry(2) [OF am_okD(1) [OF ok] that] by (auto simp: Find_eq [OF ok])
  then show thesis using that [of am] ok None by (auto simp: Good_def)
next
  case (Some n)
  then obtain i where i: "mapInfo am n = Some i" "svc_ip i = svc_ip addr" by (rule Find_Some [OF ok])
  have only: "m = n" if "mapInfo am m = Some j" "svc_ip j = svc_ip addr" for m j
    using index_entry(2) [OF am_okD(1) [OF ok] that(1)] that(2) Some by (auto simp: Find_eq [OF ok])
  show thesis
  proof (cases "Service_neq i addr")
    case True
    then have "svc_port j \<noteq> svc_port addr" if "mapInfo am m = Some j" "svc_ip j = svc_ip addr" for m j
      using only [OF that] that i by (auto simp: Service_neq_def NetAddr_neq_def)
    then show thesis using that [of am] True Some i(1) ok by (auto simp: Good_def)
  next
    case False
    let ?g = "\<lambda>i. i\<lparr> nLastSuccess := nTime, nLastTry := nTime, adr_nTime := word_of_int nTime, nAttempts := 0 \<rparr>"
    let ?am = "upd n ?g am"
    have ok1: "tables_ok ?am" using upd_ok [OF ok i(1)] t by simp
    have at1: "mapInfo ?am n = Some (?g i)" using i(1) by (simp add: upd_def)
    note result = that
    have fin: thesis if am': "Good sha R addr nTime am = Some am'" "tables_ok am'"
      "mapInfo am' n = Some ((?g i)\<lparr> nRefCount := r, fInTried := True \<rparr>)" for am' r
    proof (rule result [OF am'(1,2)])
      fix m k assume k: "mapInfo am m = Some k" "svc_ip k = svc_ip addr" "svc_port k = svc_port addr"
      then have m: "m = n" by (intro only)
      then show "\<exists>j. mapInfo am' m = Some j \<and> svc_ip j = svc_ip addr \<and> svc_port j = svc_port addr \<and>
          fInTried j \<and> nLastSuccess j = nTime \<and> nAttempts j = 0"
        using am'(3) k i(1) by simp
    qed
    show thesis
    proof (cases "fInTried i")
      case True
      then have "Good sha R addr nTime am = Some ?am" using Some i(1) False at1 by (simp add: Good_def Let_def)
      moreover have "?g i = (?g i)\<lparr> nRefCount := nRefCount i, fInTried := True \<rparr>" using True by simp
      ultimately show thesis using fin ok1 at1 by metis
    next
      case nt: False
      let ?r = "GetRandInt (R 0) (length (vvNew ?am))"
      have "?r < 256" using table_okD(1) [OF am_okD(2) [OF ok]] by (simp add: GetRandInt_def)
      then obtain k where k: "find (\<lambda>k. n \<in> vvNew ?am ! ((k + ?r) mod length (vvNew ?am))) [0..<length (vvNew ?am)] = Some k"
        "(k + ?r) mod length (vvNew ?am) < 256" "n \<in> vvNew ?am ! ((k + ?r) mod length (vvNew ?am))"
        using bucket_found [OF ok1 at1, of ?r] nt by auto
      obtain am' where am': "MakeTried sha (\<lambda>k. R (k + 1)) n ((k + ?r) mod length (vvNew ?am)) ?am = Some am'"
        "tables_ok am'" "mapInfo am' n = Some (tried_entry (?g i))"
        by (rule MakeTried_ok [OF ok1 k(2,3) at1, of sha "\<lambda>k. R (k + 1)"]) (use t in auto)
      have "Good sha R addr nTime am = Some am'"
        using Some i(1) False at1 nt k(1) am'(1) by (simp add: Good_def Let_def)
      then show thesis using fin am'(2,3) by blast
    qed
  qed
qed

subsection \<open>Add\<close>

lemma add_to_bucket_ok:
  assumes ok: "am_ok ((\<lambda>_. 0)(n := 1)) (upd n (\<lambda>i. i\<lparr> nRefCount := nRefCount i + 1 \<rparr>) am)"
    and i: "mapInfo am n = Some i" and b: "n \<notin> vvNew am ! GetNewBucket sha (nKey am) src i"
  obtains am' j where "add_to_bucket sha R now src n am = Some am'" "tables_ok am'" "mapInfo am' n = Some j"
    "j\<lparr> nRandomPos := 0 \<rparr> = i\<lparr> nRefCount := nRefCount i + 1, nRandomPos := 0 \<rparr>"
proof -
  let ?b = "GetNewBucket sha (nKey am) src i"
  let ?am = "upd n (\<lambda>i. i\<lparr> nRefCount := nRefCount i + 1 \<rparr>) am"
  have at1: "mapInfo ?am n = Some (i\<lparr> nRefCount := nRefCount i + 1 \<rparr>)" using i by (simp add: upd_def)
  have b1: "n \<notin> vvNew ?am ! ?b" using b by simp
  obtain am1 where am1:
    "(if card (vvNew ?am ! ?b) = 64 then do { (_, am) \<leftarrow> ShrinkNew R now ?b ?am; Some am } else Some ?am) = Some am1"
    "tables_ok (am1\<lparr> vvNew := (vvNew am1)[?b := insert n (vvNew am1 ! ?b)] \<rparr>)"
    "entry_view am1 n = entry_view ?am n"
    by (rule pending_to_bucket [OF ok at1 GetNewBucket_less b1])
  have "entry_view am1 n = Some (i\<lparr> nRefCount := nRefCount i + 1, nRandomPos := 0 \<rparr>)" using am1(3) view_Some [OF at1] by simp
  then obtain j where j: "mapInfo am1 n = Some j" "j\<lparr> nRandomPos := 0 \<rparr> = i\<lparr> nRefCount := nRefCount i + 1, nRandomPos := 0 \<rparr>"
    by (auto elim: view_SomeE)
  have "add_to_bucket sha R now src n am = Some (am1\<lparr> vvNew := (vvNew am1)[?b := insert n (vvNew am1 ! ?b)] \<rparr>)"
    using am1(1) b i by (simp add: add_to_bucket_def Let_def)
  then show thesis using that am1(2) j by simp
qed

lemma incr_pending:
  assumes ok: "tables_ok am" and i: "mapInfo am n = Some i" "\<not> fInTried i" "nRefCount i \<noteq> 4"
  shows "am_ok ((\<lambda>_. 0)(n := 1)) (upd n (\<lambda>i. i\<lparr> nRefCount := nRefCount i + 1 \<rparr>) am)" (is "am_ok _ ?am")
proof (rule am_okI)
  have "table_view am n = Some (False, nRefCount i)" using i by (simp add: view_def)
  then have "table_ok ((\<lambda>_. 0)(n := 1)) ((table_view am)(n \<mapsto> (False, nRefCount i + 1))) (vvTried am) (vvNew am)"
    using table_incr [OF am_okD(2) [OF ok], of n "nRefCount i"] i(3) by simp
  moreover have "table_view ?am = (table_view am)(n \<mapsto> (False, nRefCount i + 1))" using i by (auto simp: view_upd)
  ultimately show "table_ok ((\<lambda>_. 0)(n := 1)) (table_view ?am) (vvTried ?am) (vvNew ?am)" by simp
qed (use am_okD [OF ok] in \<open>simp_all add: view_upd_same\<close>)

text \<open>The state before the end of Add of an unknown address; its new entry has no reference yet.\<close>

definition added_entry :: "CAddress \<Rightarrow> CNetAddr \<Rightarrow> int \<Rightarrow> int \<Rightarrow> CAddrInfo" where
  "added_entry addr src pen k =
     (AddrInfo_of addr src)\<lparr> adr_nTime := word_of_int (max 0 (uint (adr_nTime addr) - pen)), nRandomPos := k \<rparr>"

definition added :: "CAddress \<Rightarrow> CNetAddr \<Rightarrow> int \<Rightarrow> CAddrMan \<Rightarrow> CAddrMan" where
  "added addr src pen am =
     am\<lparr> nIdCount := nIdCount am + 1,
         mapInfo := (mapInfo am)(nIdCount am \<mapsto> added_entry addr src pen (int (length (vRandom am)))),
         mapAddr := (mapAddr am)(svc_ip addr \<mapsto> nIdCount am),
         vRandom := vRandom am @ [nIdCount am],
         nNew := nNew am + 1 \<rparr>"

lemma added_Create:
  "(case Create addr src am of (nId, am) \<Rightarrow>
      (nId, (upd nId (\<lambda>i. i\<lparr> adr_nTime := word_of_int (max 0 (uint (adr_nTime i) - pen)) \<rparr>) am)\<lparr> nNew := nNew am + 1 \<rparr>)) =
   (nIdCount am, added addr src pen am)"
  by (simp add: Create_def added_def added_entry_def upd_def AddrInfo_of_def Let_def)

lemma added_ok:
  assumes ok: "tables_ok am" and new: "mapAddr am (svc_ip addr) = None"
  shows "am_ok ((\<lambda>_. 0)(nIdCount am := 1)) (upd (nIdCount am) (\<lambda>i. i\<lparr> nRefCount := nRefCount i + 1 \<rparr>) (added addr src pen am))"
    (is "am_ok ?e ?am'")
proof (rule am_okI)
  let ?n = "nIdCount am"
  have v: "view f ?am' = (view f am)(?n \<mapsto> f ((added_entry addr src pen (int (length (vRandom am))))\<lparr> nRefCount := 1 \<rparr>))"
    for f :: "CAddrInfo \<Rightarrow> 'v"
    by (auto simp: view_def upd_def added_def added_entry_def AddrInfo_of_def fun_eq_iff)
  have none: "view f am ?n = None" for f :: "CAddrInfo \<Rightarrow> 'v"
    using index_entry(7) [OF am_okD(1) [OF ok], of ?n] by (cases "mapInfo am ?n") (auto simp: view_def)
  show "index_ok (index_view ?am') (mapAddr ?am') (vRandom ?am') (nIdCount ?am')"
    using index_push [OF am_okD(1) [OF ok] new am_okD(6) [OF ok]]
    by (simp add: v added_entry_def AddrInfo_of_def) (simp add: added_def)
  show "table_ok ?e (table_view ?am') (vvTried ?am') (vvNew ?am')"
    using table_create [OF am_okD(2) [OF ok] none]
    by (simp add: v added_entry_def AddrInfo_of_def) (simp add: added_def)
  show "stat_ok (stat_view ?am')" using am_okD(3) [OF ok] by (auto simp: v added_entry_def AddrInfo_of_def stat_ok_def)
qed (use am_okD [OF ok] in \<open>simp_all add: added_def\<close>)

lemma Add_new:
  assumes ok: "tables_ok am" and r: "IsRoutable (svc_ip addr)" and new: "mapAddr am (svc_ip addr) = None"
  obtains am' n j where "Add sha R now addr src pen am = Some (True, am')" "tables_ok am'" "mapInfo am' n = Some j"
    "j\<lparr> nRandomPos := 0 \<rparr> = (added_entry addr src pen 0)\<lparr> nRefCount := 1 \<rparr>"
proof -
  let ?n = "nIdCount am" and ?am = "added addr src pen am"
  let ?i = "added_entry addr src pen (int (length (vRandom am)))"
  have i: "mapInfo ?am ?n = Some ?i" by (simp add: added_def)
  have b: "?n \<notin> vvNew ?am ! GetNewBucket sha (nKey ?am) src ?i"
  proof
    assume "?n \<in> vvNew ?am ! GetNewBucket sha (nKey ?am) src ?i"
    then have "?n \<in> vvNew am ! GetNewBucket sha (nKey am) src ?i" by (simp add: added_def)
    then obtain x where "mapInfo am ?n = Some x" using bucket_ids(3) [OF ok GetNewBucket_less] by blast
    then show False using index_entry(7) [OF am_okD(1) [OF ok]] by blast
  qed
  obtain am' j where am': "add_to_bucket sha (\<lambda>k. R (k + 1)) now src ?n ?am = Some am'" "tables_ok am'" "mapInfo am' ?n = Some j"
    "j\<lparr> nRandomPos := 0 \<rparr> = ?i\<lparr> nRefCount := nRefCount ?i + 1, nRandomPos := 0 \<rparr>"
    by (rule add_to_bucket_ok [OF added_ok [OF ok new] i b])
  have "Add sha R now addr src pen am = Some (True, am')"
    using r new am'(1) added_Create [where addr = addr and src = src and am = am and pen = pen] by (cases "Create addr src am") (simp add: Add_def Find_eq [OF ok] Let_def)
  moreover have "j\<lparr> nRandomPos := 0 \<rparr> = (added_entry addr src pen 0)\<lparr> nRefCount := 1 \<rparr>"
    using am'(4) by (simp add: added_entry_def AddrInfo_of_def)
  ultimately show thesis using that am'(2,3) by blast
qed

lemma Add_ok:
  assumes ok: "tables_ok am"
  obtains b am' where "Add sha R now addr src pen am = Some (b, am')" "tables_ok am'"
    "b \<longleftrightarrow> IsRoutable (svc_ip addr) \<and> mapAddr am (svc_ip addr) = None"
proof (cases "IsRoutable (svc_ip addr)")
  case False
  then show thesis using that [of False am] ok by (simp add: Add_def)
next
  case r: True
  show thesis
  proof (cases "mapAddr am (svc_ip addr)")
    case None
    then show thesis using Add_new [OF ok r None, of sha R now src pen] that r by metis
  next
    case (Some n)
    then obtain i where i: "mapInfo am n = Some i" using Find_Some [OF ok, of "svc_ip addr" n] by (auto simp: Find_eq [OF ok])
    let ?am = "upd n (refresh now addr pen) am" and ?i = "refresh now addr pen i"
    have f: "svc_ip ?i = svc_ip i" "nRandomPos ?i = nRandomPos i" "fInTried ?i = fInTried i" "nRefCount ?i = nRefCount i"
      "nLastTry ?i = nLastTry i" "nLastSuccess ?i = nLastSuccess i" by (simp_all add: refresh_def Let_def)
    have ok1: "tables_ok ?am" using upd_ok [OF ok i] f entry_stat [OF ok i] by simp
    have at1: "mapInfo ?am n = Some ?i" using i by (simp add: upd_def)
    have "\<exists>am'. add_to_bucket sha (\<lambda>k. R (k + 1)) now src n ?am = Some am' \<and> tables_ok am'"
      if c: "\<not> fInTried ?i" "nRefCount ?i \<noteq> 4"
    proof (cases "n \<in> vvNew ?am ! GetNewBucket sha (nKey ?am) src ?i")
      case True
      then show ?thesis using ok1 at1 by (simp add: add_to_bucket_def Let_def)
    next
      case False
      show ?thesis by (rule add_to_bucket_ok [OF incr_pending [OF ok1 at1 c] at1 False, of "\<lambda>k. R (k + 1)" now]) blast
    qed
    then have "\<exists>am'. Add sha R now addr src pen am = Some (False, am') \<and> tables_ok am'"
      using r Some ok1 at1 by (auto simp: Add_def Find_eq [OF ok] Let_def)
    then show thesis using that Some by auto
  qed
qed

text \<open>A vector of addresses is added one by one.\<close>

lemma Add_vector_ok:
  "tables_ok am \<Longrightarrow> \<exists>b am'. Add_vector sha R now as src pen am = Some (b, am') \<and> tables_ok am'"
proof (induction as arbitrary: R am)
  case (Cons a as)
  obtain b am1 where a: "Add sha (R 0) now a src pen am = Some (b, am1)" "tables_ok am1"
    by (rule Add_ok [OF Cons.prems])
  show ?case using Cons.IH [OF a(2), of "\<lambda>j. R (j + 1)"] a(1) by auto
next
  case Nil
  then show ?case by (intro exI [of _ False]) simp
qed

subsection \<open>GetAddr\<close>

lemma same_but_pos_trans: "same_but_pos am am1 \<Longrightarrow> same_but_pos am1 am2 \<Longrightarrow> same_but_pos am am2"
  by (simp add: same_but_pos_def)

lemma same_but_pos_ok:
  assumes ok: "am_ok e am" and s: "same_but_pos am am'"
    and i: "index_ok (index_view am') (mapAddr am') (vRandom am') (nIdCount am')"
  shows "am_ok e am'"
proof (rule am_okI [OF i])
  have "table_view am' = table_view am" by (rule same_but_pos_view [OF s]) simp
  moreover have "stat_view am' = stat_view am" by (rule same_but_pos_view [OF s]) simp
  ultimately show "table_ok e (table_view am') (vvTried am') (vvNew am')" "stat_ok (stat_view am')"
    using s am_okD(2,3) [OF ok] by (simp_all add: same_but_pos_def)
qed (use s am_okD(4-6) [OF ok] in \<open>simp_all add: same_but_pos_def\<close>)

lemma same_address:
  assumes s: "same_but_pos am am'" and n: "has_id am n"
  shows "has_id am' n" "Address_of_info (info_at am' n) = Address_of_info (info_at am n)"
proof -
  have "view Address_of_info am' n = view Address_of_info am n"
    by (rule fun_cong [OF same_but_pos_view [OF s]]) (simp add: Address_of_info_def)
  then show "has_id am' n" "Address_of_info (info_at am' n) = Address_of_info (info_at am n)"
    using n by (auto simp: view_def has_id_def info_at_def split: option.splits)
qed

lemma SwapRandom_nth: "SwapRandom i j am = Some am' \<Longrightarrow> m \<noteq> i \<Longrightarrow> m \<noteq> j \<Longrightarrow> vRandom am' ! m = vRandom am ! m"
  by (auto simp: SwapRandom_def Let_def split: if_splits)

lemma vRandom_id:
  assumes "am_ok e am" "n \<in> set (vRandom am)"
  shows "has_id am n"
proof -
  have "n \<in> dom (mapInfo am)" using assms(2) index_okD(3) [OF am_okD(1) [OF assms(1)]] by (simp add: dom_view)
  then show ?thesis by (auto simp: has_id_def)
qed

lemma GetAddr_loop_ok:
  assumes "tables_ok am" "n + k \<le> length (vRandom am)"
  shows "\<exists>as am'. GetAddr_loop k R n am = Some (as, am') \<and> tables_ok am' \<and> same_but_pos am am' \<and>
    mset (vRandom am') = mset (vRandom am) \<and> take n (vRandom am') = take n (vRandom am) \<and>
    as = map (\<lambda>i. Address_of_info (info_at am i)) (take k (drop n (vRandom am')))"
  using assms
proof (induction k arbitrary: n am)
  case 0
  then show ?case by (simp add: same_but_pos_def)
next
  case (Suc k)
  let ?p = "GetRandInt (R n) (length (vRandom am) - n) + n"
  have n: "n < length (vRandom am)" using Suc.prems(2) by simp
  then have "R n mod (length (vRandom am) - n) < length (vRandom am) - n" by (intro mod_less_divisor) simp
  then have p: "?p < length (vRandom am)" "n \<le> ?p" by (simp_all add: GetRandInt_def less_diff_conv)
  obtain am1 where am1: "SwapRandom n ?p am = Some am1" "same_but_pos am am1"
    "index_ok (index_view am1) (mapAddr am1) (vRandom am1) (nIdCount am1)" "mset (vRandom am1) = mset (vRandom am)"
    by (rule SwapRandom_ok [OF am_okD(1) [OF Suc.prems(1)] n p(1)])
  have l1: "length (vRandom am1) = length (vRandom am)" using am1(2) by (simp add: same_but_pos_def)
  have ok1: "tables_ok am1" by (rule same_but_pos_ok [OF Suc.prems(1) am1(2,3)])
  have id1: "has_id am i" if "i \<in> set (vRandom am1)" for i
    using vRandom_id [OF Suc.prems(1)] mset_eq_setD [OF am1(4)] that by simp
  obtain as am2 where am2: "GetAddr_loop k R (n + 1) am1 = Some (as, am2)" "tables_ok am2" "same_but_pos am1 am2"
    "mset (vRandom am2) = mset (vRandom am1)" "take (n + 1) (vRandom am2) = take (n + 1) (vRandom am1)"
    "as = map (\<lambda>i. Address_of_info (info_at am1 i)) (take k (drop (n + 1) (vRandom am2)))"
    using Suc.IH [OF ok1, of "n + 1"] Suc.prems(2) l1 by auto
  have l2: "length (vRandom am2) = length (vRandom am)" using am2(3) l1 by (simp add: same_but_pos_def)
  have "vRandom am2 ! n = vRandom am1 ! n" using arg_cong [OF am2(5), of "\<lambda>xs. xs ! n"] n l1 l2 by simp
  then have d: "take (Suc k) (drop n (vRandom am2)) = vRandom am1 ! n # take k (drop (n + 1) (vRandom am2))"
    using n l2 by (simp add: Cons_nth_drop_Suc [symmetric])
  have t: "take n (vRandom am2) = take n (vRandom am)"
  proof (rule nth_equalityI)
    fix m assume "m < length (take n (vRandom am2))"
    then have m: "m < n" by simp
    then have "vRandom am2 ! m = vRandom am1 ! m" using arg_cong [OF am2(5), of "\<lambda>xs. xs ! m"] n l1 l2 by simp
    then show "take n (vRandom am2) ! m = take n (vRandom am) ! m" using m SwapRandom_nth [OF am1(1)] p(2) by simp
  qed (use l2 in simp)
  have a: "as = map (\<lambda>i. Address_of_info (info_at am i)) (take k (drop (n + 1) (vRandom am2)))"
    unfolding am2(6) using same_address(2) [OF am1(2) id1] mset_eq_setD [OF am2(4)]
    by (auto dest!: in_set_takeD in_set_dropD)
  have i1: "has_id am (vRandom am1 ! n)" using id1 n l1 by simp
  have "GetAddr_loop (Suc k) R n am = Some (Address_of_info (info_at am (vRandom am1 ! n)) # as, am2)"
    using am1(1) am2(1) same_address [OF am1(2) i1] by (simp add: Let_def)
  then show ?case using am2(2,4) am1(4) t a d same_but_pos_trans [OF am1(2) am2(3)] by simp
qed

lemma GetAddr_ok:
  assumes ok: "tables_ok am"
  obtains as am' where "GetAddr R am = Some (as, am')" "tables_ok am'" "entry_view am' = entry_view am"
    "length as = min 2500 (23 * length (vRandom am) div 100)" "distinct (map svc_ip as)"
    "\<And>a. a \<in> set as \<Longrightarrow> \<exists>n i. mapInfo am n = Some i \<and> a = Address_of_info i"
proof -
  let ?k = "min 2500 (23 * length (vRandom am) div 100)"
  have k: "0 + ?k \<le> length (vRandom am)" by auto
  obtain as am' where am': "GetAddr_loop ?k R 0 am = Some (as, am')" "tables_ok am'" "same_but_pos am am'"
    "mset (vRandom am') = mset (vRandom am)" "as = map (\<lambda>i. Address_of_info (info_at am i)) (take ?k (vRandom am'))"
    using GetAddr_loop_ok [OF ok k, of R] by auto
  have g: "GetAddr R am = Some (as, am')" 
  proof -
    have "(if x > 2500 then 2500 else x) = min 2500 x" for x :: nat by simp
    then show ?thesis using am'(1) unfolding GetAddr_def Let_def by simp
  qed
  have known: "\<exists>i. mapInfo am n = Some i" if "n \<in> set (take ?k (vRandom am'))" for n
    using vRandom_id [OF ok] mset_eq_setD [OF am'(4)] in_set_takeD [OF that] by (auto simp: has_id_def)
  have inj: "inj_on (\<lambda>n. svc_ip (Address_of_info (info_at am n))) (set (take ?k (vRandom am')))"
  proof (rule inj_onI)
    fix n m assume nm: "n \<in> set (take ?k (vRandom am'))" "m \<in> set (take ?k (vRandom am'))"
      "svc_ip (Address_of_info (info_at am n)) = svc_ip (Address_of_info (info_at am m))"
    obtain i j where ij: "mapInfo am n = Some i" "mapInfo am m = Some j" using known nm(1,2) by blast
    then have "svc_ip i = svc_ip j" using nm(3) by (simp add: Address_of_info_def)
    then show "n = m" using index_entry(2) [OF am_okD(1) [OF ok] ij(1)] index_entry(2) [OF am_okD(1) [OF ok] ij(2)] by simp
  qed
  have d: "distinct (map svc_ip as)"
    unfolding am'(5) using index_okD(1) [OF am_okD(1) [OF am'(2)]] inj by (simp add: distinct_map comp_def)
  have s: "\<exists>n i. mapInfo am n = Some i \<and> a = Address_of_info i" if "a \<in> set as" for a
    using that known unfolding am'(5) by fastforce
  have "length (vRandom am') = length (vRandom am)" using am'(3) by (simp add: same_but_pos_def)
  then have "length as = ?k" unfolding am'(5) by simp
  moreover have "entry_view am' = entry_view am" using am'(3) by (simp add: same_but_pos_def)
  ultimately show thesis using that g am'(2) d s by blast
qed

subsection \<open>The consistency check\<close>

lemma Check_entry_ok:
  assumes ok: "tables_ok am" and i: "mapInfo am n = Some i"
  shows "Check_entry am n (T, M, mapAddr am) =
    Inr (if fInTried i then insert n T else T, if fInTried i then M else M(n \<mapsto> nRefCount i), mapAddr am)"
proof -
  note I = index_entry [OF am_okD(1) [OF ok] i]
  have "(mapAddr am)(svc_ip i \<mapsto> n) = mapAddr am" using I(2) by (simp add: fun_upd_idem)
  then show ?thesis
    using i I entry_stat [OF ok i] entry_refs [OF ok i] by (simp add: Check_entry_def Let_def nat_less_iff)
qed

lemma Check_entries_ok:
  assumes ok: "tables_ok am"
  shows "set ns \<subseteq> dom (mapInfo am) \<Longrightarrow>
    Check_entries am ns (T, M, mapAddr am) =
      Inr (T \<union> {n \<in> set ns. fInTried (info_at am n)},
        (\<lambda>n. if n \<in> set ns \<and> \<not> fInTried (info_at am n) then Some (nRefCount (info_at am n)) else M n), mapAddr am)"
proof (induction ns arbitrary: T M)
  case (Cons n ns)
  then obtain i where i: "mapInfo am n = Some i" by auto
  show ?case using Cons.IH Cons.prems i by (auto simp: Check_entry_ok [OF ok i] fun_eq_iff)
qed (simp add: fun_eq_iff)

lemma Check_tried_all: "distinct xs \<Longrightarrow> set xs = T \<Longrightarrow> Check_tried xs T = Some {}"
  by (induction xs arbitrary: T) auto

lemma Check_new_all:
  "\<forall>n. M n = (if count_list xs n = 0 then None else Some (int (count_list xs n))) \<Longrightarrow> Check_new xs M = Some Map.empty"
proof (induction xs arbitrary: M)
  case (Cons x xs)
  have "Check_new (x # xs) M = Check_new xs (if count_list xs x = 0 then M(x := None) else M(x \<mapsto> int (count_list xs x)))"
    using Cons.prems [rule_format, of x] by simp
  also have "\<dots> = Some Map.empty" using Cons.prems by (intro Cons.IH) auto
  finally show ?case .
qed (simp add: fun_eq_iff)

lemma count_list_buckets:
  "\<forall>s\<in>set vN. finite s \<Longrightarrow> count_list (concat (map sorted_list_of_set vN)) n = occ n vN"
proof (induction vN)
  case (Cons s vN)
  have "count_list xs n = (if n \<in> set xs then 1 else 0)" if "distinct xs" for xs :: "int list"
    using that by (induction xs) auto
  then have "count_list (sorted_list_of_set s) n = (if n \<in> s then 1 else 0)" using Cons.prems by simp
  then show ?case using Cons by (simp add: occ_def)
qed (simp add: occ_def)

lemma Check_ok:
  assumes ok: "tables_ok am"
  shows "Check am = (0, am)"
proof -
  let ?ids = "sorted_list_of_set (dom (mapInfo am))"
  let ?T = "{n \<in> dom (mapInfo am). fInTried (info_at am n)}"
  let ?M = "\<lambda>n. if n \<in> dom (mapInfo am) \<and> \<not> fInTried (info_at am n) then Some (nRefCount (info_at am n)) else None"
  have dom: "dom (mapInfo am) = set (vRandom am)" using index_okD(3) [OF am_okD(1) [OF ok]] by (simp add: dom_view)
  then have ids: "set ?ids = dom (mapInfo am)" by simp
  have entries: "Check_entries am ?ids ({}, Map.empty, mapAddr am) = Inr (?T, ?M, mapAddr am)"
    using Check_entries_ok [OF ok, of ?ids "{}" Map.empty] ids by simp
  have "n \<in> ?T \<longleftrightarrow> n \<in> set (concat (vvTried am))" for n
    using table_okD(8) [OF am_okD(2) [OF ok], of n] by (auto simp: view_def info_at_def)
  then have T: "set (concat (vvTried am)) = ?T" by blast
  have d: "distinct (concat (vvTried am))" by (rule table_okD(7) [OF am_okD(2) [OF ok]])
  have cT: "int (card ?T) = nTried am" using distinct_card [OF d] T am_okD(4) [OF ok] by simp
  have dM: "dom ?M = dom (mapInfo am) - ?T" by (auto split: if_splits)
  have "card (dom (mapInfo am)) = length (vRandom am)"
    using distinct_card [OF index_okD(1) [OF am_okD(1) [OF ok]]] dom by simp
  moreover have "card (dom (mapInfo am) - ?T) + card ?T = card (dom (mapInfo am))"
    using dom card_mono [of "dom (mapInfo am)" ?T] by (subst card_Diff_subset) auto
  ultimately have cM: "int (card (dom ?M)) = nNew am" unfolding dM using cT am_okD(5) [OF ok] by linarith
  have "?M n = (if occ n (vvNew am) = 0 then None else Some (int (occ n (vvNew am))))" for n
  proof (cases "mapInfo am n")
    case None
    then have "\<And>b. b < 256 \<Longrightarrow> n \<notin> vvNew am ! b" using bucket_ids(3) [OF ok] by fastforce
    then have "occ n (vvNew am) = 0" using table_okD(1) [OF am_okD(2) [OF ok]] by (auto simp: occ_0 in_set_conv_nth)
    then show ?thesis using None by auto
  next
    case (Some i)
    then show ?thesis using entry_refs [OF ok Some] by auto
  qed
  then have N: "Check_new (concat (map sorted_list_of_set (vvNew am))) ?M = Some Map.empty"
    using count_list_buckets [of "vvNew am"] table_okD(3) [OF am_okD(2) [OF ok]] by (intro Check_new_all) simp
  show ?thesis
    using am_okD(5) [OF ok] cT cM Check_tried_all [OF d T] N by (simp add: Check_def entries)
qed

subsection \<open>Reachable states\<close>

text \<open>
  Every sequence of calls, with any draws and any arguments but negative times. Good is never called
  with time 0 (its default is the adjusted time), a time the table reads as never.
\<close>

inductive addr_step :: "sha256 \<Rightarrow> CAddrMan \<Rightarrow> CAddrMan \<Rightarrow> bool" for sha where
  "Add sha R now addr src pen am = Some (b, am') \<Longrightarrow> addr_step sha am am'"
| "Add_vector sha R2 now addrs src pen am = Some (b, am') \<Longrightarrow> addr_step sha am am'"
| "0 < nTime \<Longrightarrow> Good sha R svc nTime am = Some am' \<Longrightarrow> addr_step sha am am'"
| "0 \<le> nTime \<Longrightarrow> addr_step sha am (Attempt svc nTime am)"
| "addr_step sha am (Connected svc nTime am)"
| "GetAddr R am = Some (vAddr, am') \<Longrightarrow> addr_step sha am am'"

inductive addr_reachable :: "sha256 \<Rightarrow> byte list \<Rightarrow> CAddrMan \<Rightarrow> bool" for sha key where
  addr_start: "addr_reachable sha key (AddrMan_init key)"
| addr_more: "addr_reachable sha key am \<Longrightarrow> addr_step sha am am' \<Longrightarrow> addr_reachable sha key am'"

lemma AddrMan_init_ok: "tables_ok (AddrMan_init key)"
  by (simp add: AddrMan_init_def am_ok_def index_ok_def table_ok_def stat_ok_def view_def)

lemma addr_step_ok: "addr_step sha am am' \<Longrightarrow> tables_ok am \<Longrightarrow> tables_ok am'"
proof (induction rule: addr_step.induct)
  case (1 R now addr src pen am b am')
  then show ?case using Add_ok [of am sha R now addr src pen] by force
next
  case (2 R2 now addrs src pen am b am')
  then show ?case using Add_vector_ok [of am sha R2 now addrs src pen] by force
next
  case (3 nTime R svc am am')
  then show ?case using Good_ok [of am nTime sha R svc] by force
next
  case (6 R am vAddr am')
  then show ?case using GetAddr_ok [of am R] by force
qed (simp_all add: Attempt_ok Connected_ok)

lemma addr_reachable_ok: "addr_reachable sha key am \<Longrightarrow> tables_ok am"
  by (induction rule: addr_reachable.induct) (auto intro: AddrMan_init_ok addr_step_ok)

end
