(* ===== verification/AddrSpec.thy ===== *)
theory AddrSpec
  imports AddrInv
begin

subsection \<open>Select\<close>

lemma GetChance_pos: "0 < GetChance nNow i"
  by (simp add: GetChance_def Let_def add_pos_nonneg)

abbreviation drawn :: "int list list \<Rightarrow> (nat \<Rightarrow> nat) \<Rightarrow> nat \<Rightarrow> int list" where
  "drawn buckets R k \<equiv> buckets ! GetRandInt (R k) (length buckets)"

abbreviation selects :: "int \<Rightarrow> int list list \<Rightarrow> CAddrMan \<Rightarrow> (nat \<Rightarrow> nat) \<Rightarrow> nat \<Rightarrow> real \<Rightarrow> bool" where
  "selects nNow buckets am R k f \<equiv>
     \<exists>b\<in>set buckets. \<exists>n\<in>set b. Select_loop nNow buckets am R k f = Some (Some (Address_of_info (info_at am n)))"

lemma Select_loop_next:
  "j \<ge> k \<Longrightarrow> drawn buckets R j \<noteq> [] \<Longrightarrow>
   \<exists>k'. drawn buckets R k' \<noteq> [] \<and> Select_loop nNow buckets am R k f = Select_loop nNow buckets am R k' f"
proof (induction "j - k" arbitrary: k)
  case (Suc d)
  show ?case
  proof (cases "drawn buckets R k = []")
    case True
    then have "Select_loop nNow buckets am R k f = Select_loop nNow buckets am R (k + 1) f"
      by (subst Select_loop.simps) (simp add: Let_def)
    then show ?thesis using Suc.hyps(1) [of "k + 1"] Suc.hyps(2) Suc.prems by auto
  qed blast
qed auto

lemma Select_loop_draw:
  assumes b: "drawn buckets R k \<noteq> []" and ne: "buckets \<noteq> []"
    and ids: "\<And>b n. b \<in> set buckets \<Longrightarrow> n \<in> set b \<Longrightarrow> has_id am n \<and> c \<le> GetChance nNow (info_at am n)"
    and f: "0 < f"
  shows "selects nNow buckets am R k f \<or>
    f * c < 1 \<and> Select_loop nNow buckets am R k f = Select_loop nNow buckets am R (k + 3) (f * 1.2)"
proof -
  let ?b = "drawn buckets R k"
  let ?n = "?b ! GetRandInt (R (k + 1)) (length ?b)"
  have "?b \<in> set buckets" using ne by (simp add: GetRandInt_def)
  moreover have "?n \<in> set ?b" using b by (simp add: GetRandInt_def)
  ultimately have i: "has_id am ?n" "c \<le> GetChance nNow (info_at am ?n)" "?b \<in> set buckets" "?n \<in> set ?b"
    using ids by blast+
  show ?thesis
  proof (cases "real (GetRandInt (R (k + 2)) (2 ^ 30)) < f * GetChance nNow (info_at am ?n) * 2 ^ 30")
    case True
    then have "Select_loop nNow buckets am R k f = Some (Some (Address_of_info (info_at am ?n)))"
      using b i(1) by (subst Select_loop.simps) (simp add: Let_def)
    then show ?thesis using i(3,4) by blast
  next
    case False
    have "real (GetRandInt (R (k + 2)) (2 ^ 30)) < 2 ^ 30" by (simp add: GetRandInt_def)
    then have "f * GetChance nNow (info_at am ?n) < 1" using False by simp
    moreover have "f * c \<le> f * GetChance nNow (info_at am ?n)" using i(2) f by simp
    ultimately have "f * c < 1" by linarith
    moreover have "Select_loop nNow buckets am R k f = Select_loop nNow buckets am R (k + 3) (f * 1.2)"
      using b i(1) False by (subst Select_loop.simps) (simp add: Let_def)
    ultimately show ?thesis by blast
  qed
qed

text \<open>
  Every time a bucket with entries is drawn the chance of its entry grows by a fifth, so an entry is
  accepted after boundedly many such draws.
\<close>

lemma Select_loop_returns:
  assumes fair: "\<And>k. \<exists>j\<ge>k. drawn buckets R j \<noteq> []" and ne: "buckets \<noteq> []"
    and ids: "\<And>b n. b \<in> set buckets \<Longrightarrow> n \<in> set b \<Longrightarrow> has_id am n \<and> c \<le> GetChance nNow (info_at am n)"
  shows "0 < f \<Longrightarrow> 1 \<le> f * c * 1.2 ^ m \<Longrightarrow> selects nNow buckets am R k f"
proof (induction m arbitrary: f k)
  case 0
  obtain j where "j \<ge> k" "drawn buckets R j \<noteq> []" using fair by blast
  then obtain k' where k': "drawn buckets R k' \<noteq> []" "Select_loop nNow buckets am R k f = Select_loop nNow buckets am R k' f"
    using Select_loop_next by blast
  have "selects nNow buckets am R k' f \<or> f * c < 1 \<and> Select_loop nNow buckets am R k' f = Select_loop nNow buckets am R (k' + 3) (f * 1.2)"
    by (rule Select_loop_draw [rotated 3, where buckets = buckets and R = R and k = k', OF 0(1) k'(1) ne]) (rule ids)
  then show ?case unfolding k'(2) using 0(2) by auto
next
  case (Suc m)
  obtain j where "j \<ge> k" "drawn buckets R j \<noteq> []" using fair by blast
  then obtain k' where k': "drawn buckets R k' \<noteq> []" "Select_loop nNow buckets am R k f = Select_loop nNow buckets am R k' f"
    using Select_loop_next by blast
  have "f * c * 1.2 ^ Suc m = f * 1.2 * c * 1.2 ^ m" by simp
  then have "selects nNow buckets am R (k' + 3) (f * 1.2)" using Suc.IH [of "f * 1.2" "k' + 3"] Suc.prems by simp
  moreover have "selects nNow buckets am R k' f \<or> f * c < 1 \<and> Select_loop nNow buckets am R k' f = Select_loop nNow buckets am R (k' + 3) (f * 1.2)"
    by (rule Select_loop_draw [rotated 3, where buckets = buckets and R = R and k = k', OF Suc.prems(1) k'(1) ne]) (rule ids)
  ultimately have "selects nNow buckets am R k' f" by (elim disjE conjE) (simp_all only:)
  then show ?case unfolding k'(2) .
qed

lemma least_chance:
  assumes "finite S"
  obtains c where "0 < c" "\<And>n. n \<in> S \<Longrightarrow> c \<le> GetChance nNow (info_at am n)"
proof -
  let ?C = "insert 1 ((\<lambda>n. GetChance nNow (info_at am n)) ` S)"
  have "finite ?C" using assms by simp
  then have "0 < Min ?C" using GetChance_pos by (subst Min_gr_iff) auto
  moreover have "Min ?C \<le> GetChance nNow (info_at am n)" if "n \<in> S" for n using assms that by (intro Min_le) auto
  ultimately show thesis using that by blast
qed

lemma Select_table:
  assumes fair: "\<And>k. \<exists>j\<ge>k. drawn buckets R j \<noteq> []" and ne: "buckets \<noteq> []"
    and ids: "\<And>b n. b \<in> set buckets \<Longrightarrow> n \<in> set b \<Longrightarrow> has_id am n"
  shows "selects nNow buckets am R 1 1"
proof -
  obtain c where c: "0 < c" "\<And>n. n \<in> (\<Union>b\<in>set buckets. set b) \<Longrightarrow> c \<le> GetChance nNow (info_at am n)"
    using least_chance [of "\<Union>b\<in>set buckets. set b" nNow am] by auto
  obtain m where "1 / c < 1.2 ^ m" using real_arch_pow [of "1.2" "1 / c"] by auto
  then have "1 \<le> 1 * c * 1.2 ^ m" using c(1) by (simp add: field_simps)
  moreover have "has_id am n \<and> c \<le> GetChance nNow (info_at am n)" if "b \<in> set buckets" "n \<in> set b" for b n
    using ids c(2) that by blast
  ultimately show ?thesis using Select_loop_returns [where f = 1 and k = 1 and am = am and c = c and nNow = nNow and m = m, OF fair ne] by simp
qed

text \<open>Draws that take every residue of 256 again and again reach every bucket of both tables.\<close>

definition fair_draws :: "(nat \<Rightarrow> nat) \<Rightarrow> bool" where
  "fair_draws R \<longleftrightarrow> (\<forall>r<256. \<forall>k. \<exists>j\<ge>k. R j mod 256 = r)"

lemma fair_bucket:
  assumes R: "fair_draws R" and l: "length buckets = 64 \<or> length buckets = 256" and b: "b \<in> set buckets" "b \<noteq> []"
  shows "\<exists>j\<ge>k. drawn buckets R j \<noteq> []"
proof -
  obtain r where r: "r < length buckets" "buckets ! r = b" using b(1) by (auto simp: in_set_conv_nth)
  have "r < 256" using r(1) l by auto
  then obtain j where j: "j \<ge> k" "R j mod 256 = r" using R unfolding fair_draws_def by blast
  have "R j mod 64 = R j mod 256 mod 64" by (simp add: mod_mod_cancel)
  then have "GetRandInt (R j) (length buckets) = r" using j(2) l r(1) by (auto simp: GetRandInt_def)
  then show ?thesis using j(1) r(2) b(2) by auto
qed

lemma new_entries:
  assumes ok: "tables_ok am"
  shows "0 \<le> nNew am" "0 < nNew am \<Longrightarrow> \<exists>s\<in>set (vvNew am). s \<noteq> {}"
proof -
  let ?C = "set (concat (vvTried am))"
  have sub: "?C \<subseteq> set (vRandom am)"
  proof
    fix n assume "n \<in> ?C"
    then obtain r where "table_view am n = Some (True, r)" using table_okD(8) [OF am_okD(2) [OF ok], of n] by auto
    then show "n \<in> set (vRandom am)"
      using index_okD(3) [OF am_okD(1) [OF ok]] by (auto simp: dom_view elim: view_SomeE)
  qed
  have card: "int (card ?C) = nTried am" "int (card (set (vRandom am))) = nTried am + nNew am"
    using distinct_card [OF table_okD(7) [OF am_okD(2) [OF ok]]] distinct_card [OF index_okD(1) [OF am_okD(1) [OF ok]]]
      am_okD(4,5) [OF ok] by simp_all
  then show "0 \<le> nNew am" using card_mono [OF _ sub] by simp
  assume "0 < nNew am"
  then have "\<not> set (vRandom am) \<subseteq> ?C" using card card_mono [of ?C "set (vRandom am)"] by auto
  then obtain n where n: "n \<in> set (vRandom am)" "n \<notin> ?C" by blast
  then obtain i where i: "mapInfo am n = Some i" using vRandom_id [OF ok] by (auto simp: has_id_def)
  then have "\<not> fInTried i" using n(2) table_okD(8) [OF am_okD(2) [OF ok], of n] by (auto simp: view_def)
  then have "occ n (vvNew am) \<noteq> 0" using entry_refs [OF ok i] by auto
  then show "\<exists>s\<in>set (vvNew am). s \<noteq> {}" by (auto simp: occ_0)
qed

lemma Select_which:
  fixes T N r :: real
  assumes "0 \<le> r" "r < 1" "0 \<le> T" "0 \<le> N"
  shows "(T + N) * r < T \<Longrightarrow> 0 < T" "\<not> (T + N) * r < T \<Longrightarrow> N = 0 \<Longrightarrow> T = 0"
proof -
  show "(T + N) * r < T \<Longrightarrow> 0 < T" using assms by (smt (verit) mult_nonneg_nonneg)
  assume "\<not> (T + N) * r < T" "N = 0"
  then have "T * (1 - r) \<le> 0" by (simp add: algebra_simps)
  then show "T = 0" using assms by (simp add: mult_le_0_iff)
qed

lemma Select_ok:
  assumes ok: "tables_ok am" and ne: "vRandom am \<noteq> []" and bias: "0 \<le> bias" "bias < 100" and R: "fair_draws R"
  shows "\<exists>n i. mapInfo am n = Some i \<and> Select R nNow bias am = Some (Some (Address_of_info i))"
proof -
  let ?T = "sqrt (real_of_int (nTried am)) * (100 - real_of_int bias)"
  let ?N = "sqrt (real_of_int (nNew am)) * real_of_int bias"
  let ?r = "real (GetRandInt (R 0) (2 ^ 30)) / 2 ^ 30"
  let ?vN = "map sorted_list_of_set (vvNew am)"
  have fin: "finite s" if "s \<in> set (vvNew am)" for s using table_okD(3) [OF am_okD(2) [OF ok] that] .
  have l: "length (vvTried am) = 64" "length (vvNew am) = 256" using table_okD(1,2) [OF am_okD(2) [OF ok]] by simp_all
  have cT: "nTried am = int (length (concat (vvTried am)))" by (rule am_okD(4) [OF ok])
  have pos: "0 < nTried am + nNew am" using am_okD(5) [OF ok] ne by simp
  have r: "0 \<le> ?r" "?r < 1" by (simp_all add: GetRandInt_def)
  have nn: "0 \<le> ?T" "0 \<le> ?N" using cT new_entries(1) [OF ok] bias by simp_all
  note which = Select_which [OF r nn]
  have known: "\<exists>n i. mapInfo am n = Some i \<and> Select R nNow bias am = Some (Some (Address_of_info i))"
    if "selects nNow buckets am R 1 1" "Select R nNow bias am = Select_loop nNow buckets am R 1 1"
      "\<And>b n. b \<in> set buckets \<Longrightarrow> n \<in> set b \<Longrightarrow> has_id am n" for buckets
    using that by (fastforce simp: has_id_def info_at_def)
  show ?thesis
  proof (cases "(?T + ?N) * ?r < ?T")
    case True
    then have "nTried am \<noteq> 0" using which(1) by auto
    then obtain b where "b \<in> set (vvTried am)" "b \<noteq> []" using cT by (auto simp: concat_eq_Nil_conv)
    then have fair: "\<And>k. \<exists>j\<ge>k. drawn (vvTried am) R j \<noteq> []" using fair_bucket [OF R] l(1) by blast
    have ids: "has_id am n" if "b \<in> set (vvTried am)" "n \<in> set b" for b n
      using that tried_ids(1) [OF ok] l(1) by (auto simp: in_set_conv_nth)
    have "Select R nNow bias am = Select_loop nNow (vvTried am) am R 1 1"
      using True ne by (simp add: Select_def size_am_def Let_def)
    then show ?thesis using known [OF Select_table [OF fair _ ids]] ids l(1) by force
  next
    case False
    have "nNew am \<noteq> 0"
    proof
      assume "nNew am = 0"
      then have "?T = 0" using which(2) [OF False] by simp
      then show False using bias pos \<open>nNew am = 0\<close> by simp
    qed
    then obtain s where s: "s \<in> set (vvNew am)" "s \<noteq> {}" using new_entries [OF ok] by fastforce
    then have "sorted_list_of_set s \<in> set ?vN" "sorted_list_of_set s \<noteq> []" using fin by simp_all
    then have fair: "\<And>k. \<exists>j\<ge>k. drawn ?vN R j \<noteq> []" using fair_bucket [OF R] l(2) by fastforce
    have ids: "has_id am n" if b: "b \<in> set ?vN" "n \<in> set b" for b n
    proof -
      obtain s where "s \<in> set (vvNew am)" "b = sorted_list_of_set s" using b(1) by auto
      then have "s \<in> set (vvNew am)" "n \<in> s" using b(2) fin by simp_all
      then show ?thesis using bucket_ids(1) [OF ok] l(2) by (auto simp: in_set_conv_nth)
    qed
    have "Select R nNow bias am = Select_loop nNow ?vN am R 1 1"
      using False ne by (simp add: Select_def size_am_def Let_def)
    then show ?thesis using known [OF Select_table [OF fair _ ids]] ids l(2) by force
  qed
qed

lemma Select_loop_asserts:
  "Select_loop nNow buckets am R k f = Some y \<Longrightarrow>
   buckets \<noteq> [] \<and> (\<forall>b\<in>set buckets. \<forall>n\<in>set b. has_id am n) \<longrightarrow> y \<noteq> None"
proof (erule Select_loop.raw_induct [rotated])
  fix loop nNow buckets am R k f y
  assume ih: "\<And>nNow buckets am R k f y. loop nNow buckets am R k f = Some y \<Longrightarrow>
      buckets \<noteq> [] \<and> (\<forall>b\<in>set buckets. \<forall>n\<in>set b. has_id am n) \<longrightarrow> y \<noteq> None"
    and step: "(let b = drawn buckets R k
      in if b = [] then loop nNow buckets am R (k + 1) f
         else let nId = b ! GetRandInt (R (k + 1)) (length b)
              in if \<not> has_id am nId then Some None
                 else if real (GetRandInt (R (k + 2)) (2 ^ 30)) < f * GetChance nNow (info_at am nId) * 2 ^ 30
                 then Some (Some (Address_of_info (info_at am nId)))
                 else loop nNow buckets am R (k + 3) (f * 1.2)) = Some y"
  show "buckets \<noteq> [] \<and> (\<forall>b\<in>set buckets. \<forall>n\<in>set b. has_id am n) \<longrightarrow> y \<noteq> None"
  proof
    assume ids: "buckets \<noteq> [] \<and> (\<forall>b\<in>set buckets. \<forall>n\<in>set b. has_id am n)"
    let ?b = "drawn buckets R k"
    have b: "?b \<in> set buckets" using ids by (simp add: GetRandInt_def)
    have "has_id am (?b ! GetRandInt (R (k + 1)) (length ?b))" if "?b \<noteq> []"
    proof -
      have "?b ! GetRandInt (R (k + 1)) (length ?b) \<in> set ?b" using that by (simp add: GetRandInt_def)
      then show ?thesis using ids b by blast
    qed
    then show "y \<noteq> None" using step ih ids by (auto simp: Let_def split: if_splits)
  qed
qed

subsection \<open>The properties\<close>

text \<open>Example: one address is added to an empty table.\<close>

definition w_peer :: CAddress where
  "w_peer = Address_of_service \<lparr> svc_ip = pchIPv4 @ [8, 8, 8, 8], svc_port = 8333 \<rparr> 1"

definition w_peers :: CAddrMan where
  "w_peers = snd (the (Add (\<lambda>bs. bs) (\<lambda>_. 0) 0 w_peer (pchIPv4 @ [9, 9, 9, 9]) 0 (AddrMan_init [])))"

lemma w_peer_routable: "IsRoutable (svc_ip w_peer)"
  by code_simp

lemma w_peers_added:
  "Add (\<lambda>bs. bs) (\<lambda>_. 0) 0 w_peer (pchIPv4 @ [9, 9, 9, 9]) 0 (AddrMan_init []) = Some (True, w_peers)"
  "\<exists>n i. mapInfo w_peers n = Some i \<and> svc_ip i = svc_ip w_peer \<and> svc_port i = svc_port w_peer"
proof -
  obtain am n i where am: "Add (\<lambda>bs. bs) (\<lambda>_. 0) 0 w_peer (pchIPv4 @ [9, 9, 9, 9]) 0 (AddrMan_init []) = Some (True, am)"
    "mapInfo am n = Some i" "i\<lparr> nRandomPos := 0 \<rparr> = (added_entry w_peer (pchIPv4 @ [9, 9, 9, 9]) 0 0)\<lparr> nRefCount := 1 \<rparr>"
    by (rule Add_new [OF AddrMan_init_ok w_peer_routable]) (auto simp: AddrMan_init_def)
  then show "Add (\<lambda>bs. bs) (\<lambda>_. 0) 0 w_peer (pchIPv4 @ [9, 9, 9, 9]) 0 (AddrMan_init []) = Some (True, w_peers)"
    by (simp add: w_peers_def)
  have "svc_ip i = svc_ip w_peer \<and> svc_port i = svc_port w_peer"
    using arg_cong [OF am(3), of svc_ip] arg_cong [OF am(3), of svc_port] by (simp add: added_entry_def AddrInfo_of_def)
  then show "\<exists>n i. mapInfo w_peers n = Some i \<and> svc_ip i = svc_ip w_peer \<and> svc_port i = svc_port w_peer"
    using am(1,2) by (auto simp: w_peers_def)
qed

lemma w_peers_reachable: "addr_reachable (\<lambda>bs. bs) [] w_peers"
  by (rule addr_more [OF addr_start addr_step.intros(1) [OF w_peers_added(1)]])

text \<open>C11. In every state the address manager can reach, by any calls with any random draws, its
  own consistency check passes and changes nothing: the index, the tried and new tables, the
  reference counts and the counters agree. It never holds more than 64 * 64 + 256 * 64 addresses.\<close>

theorem address_tables_consistent:
  assumes "addr_reachable sha key am"
  shows "Check am = (0, am) \<and> size_am am \<le> 64 * 64 + 256 * 64"
  using Check_ok [OF addr_reachable_ok [OF assms]] am_ok_size [OF addr_reachable_ok [OF assms], of "[]"]
  by (simp add: size_am_def)

theorem address_tables_consistent_witness: "Check w_peers = (0, w_peers)"
  using address_tables_consistent [OF w_peers_reachable] by simp

text \<open>C13. In every reachable state no assertion of the address manager fails: Add (of one address
  or many), Good, GetAddr and Select return.\<close>

theorem address_asserts_hold:
  assumes "addr_reachable sha key am"
  shows "Add sha R now addr src pen am \<noteq> None \<and> Add_vector sha R2 now addrs src pen am \<noteq> None \<and>
    (0 < nTime \<longrightarrow> Good sha R svc nTime am \<noteq> None) \<and> GetAddr R am \<noteq> None \<and> Select R now bias am \<noteq> Some None"
proof -
  note ok = addr_reachable_ok [OF assms]
  have l: "length (vvTried am) = 64" "length (vvNew am) = 256" using table_okD(1,2) [OF am_okD(2) [OF ok]] by simp_all
  have "vvTried am \<noteq> []" "vvNew am \<noteq> []" using l by auto
  moreover have "\<forall>b\<in>set (vvTried am). \<forall>n\<in>set b. has_id am n"
    using tried_ids(1) [OF ok] l(1) by (auto simp: in_set_conv_nth [of _ "vvTried am"])
  moreover have "\<forall>s\<in>set (vvNew am). \<forall>n\<in>s. has_id am n" "\<forall>s\<in>set (vvNew am). finite s"
    using bucket_ids(1) [OF ok] l(2) table_okD(3) [OF am_okD(2) [OF ok]] by (auto simp: in_set_conv_nth [of _ "vvNew am"])
  ultimately have "Select R now bias am \<noteq> Some None"
    using Select_loop_asserts [of now "vvTried am" am R 1 1 None] Select_loop_asserts [of now "map sorted_list_of_set (vvNew am)" am R 1 1 None]
    by (auto simp: Select_def Let_def)
  moreover have "Add sha R now addr src pen am \<noteq> None" by (rule Add_ok [OF ok, of sha R now addr src pen]) simp
  moreover have "Add_vector sha R2 now addrs src pen am \<noteq> None" using Add_vector_ok [OF ok] by force
  moreover have "0 < nTime \<Longrightarrow> Good sha R svc nTime am \<noteq> None" by (rule Good_ok [OF ok, of nTime sha R svc]) simp_all
  moreover have "GetAddr R am \<noteq> None" by (rule GetAddr_ok [OF ok, of R]) simp
  ultimately show ?thesis by blast
qed

theorem address_asserts_hold_witness: "Good (\<lambda>bs. bs) (\<lambda>_. 0) (CService.truncate w_peer) 1 w_peers \<noteq> None"
  using address_asserts_hold [OF w_peers_reachable, where nTime = 1] by simp

text \<open>C14. Select returns an address of the table, whichever table it draws from and however unlikely
  the entries are: in every reachable state that is not empty, for a bias from 0 to 99 and for draws
  that take every residue modulo 256 again and again. (With bias 100 and an empty new table it would
  draw for ever.)\<close>

theorem select_returns_known:
  assumes "addr_reachable sha key am" "size_am am \<noteq> 0" "0 \<le> nUnkBias" "nUnkBias < 100" "fair_draws R"
  shows "\<exists>n i. mapInfo am n = Some i \<and> Select R nNow nUnkBias am = Some (Some (Address_of_info i))"
  using Select_ok [OF addr_reachable_ok [OF assms(1)] _ assms(3-5)] assms(2) by (simp add: size_am_def)

lemma fair_draws_id: "fair_draws (\<lambda>j. j)"
  unfolding fair_draws_def
proof (intro allI impI)
  fix r k :: nat assume "r < 256"
  then show "\<exists>j\<ge>k. j mod 256 = r" by (intro exI [of _ "256 * k + r"]) simp
qed

theorem select_returns_known_witness:
  "\<exists>n i. mapInfo w_peers n = Some i \<and> Select (\<lambda>j. j) 0 50 w_peers = Some (Some (Address_of_info i))"
proof -
  obtain n i where "mapInfo w_peers n = Some i" using w_peers_added(2) by blast
  then have "vRandom w_peers \<noteq> []" using index_entry(4) [OF am_okD(1) [OF addr_reachable_ok [OF w_peers_reachable]]] by fastforce
  then show ?thesis using select_returns_known [OF w_peers_reachable _ _ _ fair_draws_id, of 50 0] by (simp add: size_am_def)
qed

text \<open>Good moves a known peer to the tried table: afterwards its entry is marked tried with that
  time of success and no failed attempts, stands in a tried bucket and in no new one, even when the
  tried bucket was full and another entry had to make room; all other parts of the table agree.\<close>

theorem good_moves_to_tried:
  assumes "addr_reachable sha key am" "0 < nTime"
    and "mapInfo am n = Some i" "svc_ip i = svc_ip addr" "svc_port i = svc_port addr"
  shows "\<exists>am' j. Good sha R addr nTime am = Some am' \<and> mapInfo am' n = Some j \<and>
    svc_ip j = svc_ip addr \<and> svc_port j = svc_port addr \<and> nLastSuccess j = nTime \<and> nAttempts j = 0 \<and>
    n \<in> set (concat (vvTried am')) \<and> (\<forall>s\<in>set (vvNew am'). n \<notin> s) \<and> Check am' = (0, am')"
proof -
  note ok = addr_reachable_ok [OF assms(1)]
  obtain am' where am': "Good sha R addr nTime am = Some am'" "tables_ok am'"
    "\<exists>j. mapInfo am' n = Some j \<and> svc_ip j = svc_ip addr \<and> svc_port j = svc_port addr \<and>
        fInTried j \<and> nLastSuccess j = nTime \<and> nAttempts j = 0"
    by (rule Good_ok [OF ok assms(2), of sha R addr]) (use assms(3-5) in blast)
  then obtain j where j: "mapInfo am' n = Some j" "svc_ip j = svc_ip addr" "svc_port j = svc_port addr"
    "fInTried j" "nLastSuccess j = nTime" "nAttempts j = 0" by blast
  have "table_view am' n = Some (True, nRefCount j)" using j by (simp add: view_def)
  then have "n \<in> set (concat (vvTried am'))" using table_okD(8) [OF am_okD(2) [OF am'(2)], of n] by simp
  moreover have "\<forall>s\<in>set (vvNew am'). n \<notin> s" using entry_refs [OF am'(2) j(1)] j(4) by (simp add: occ_0 [symmetric])
  ultimately show ?thesis using am'(1) j Check_ok [OF am'(2)] by blast
qed

theorem good_moves_to_tried_witness:
  "\<exists>n am'. Good (\<lambda>bs. bs) (\<lambda>_. 0) (CService.truncate w_peer) 1 w_peers = Some am' \<and> n \<in> set (concat (vvTried am'))"
proof -
  obtain n i where "mapInfo w_peers n = Some i" "svc_ip i = svc_ip w_peer" "svc_port i = svc_port w_peer"
    using w_peers_added(2) by blast
  then show ?thesis
    using good_moves_to_tried [OF w_peers_reachable, where nTime = 1 and n = n and i = i and addr = "CService.truncate w_peer" and R = "\<lambda>_. 0"]
    by (auto simp: CService.truncate_def)
qed

lemma known_address:
  assumes "tables_ok am"
  shows "mapAddr am a = None \<longleftrightarrow> (\<forall>n i. mapInfo am n = Some i \<longrightarrow> svc_ip i \<noteq> a)"
proof
  show "\<forall>n i. mapInfo am n = Some i \<longrightarrow> svc_ip i \<noteq> a" if "mapAddr am a = None"
    using that index_entry(2) [OF am_okD(1) [OF assms]] by fastforce
  show "mapAddr am a = None" if "\<forall>n i. mapInfo am n = Some i \<longrightarrow> svc_ip i \<noteq> a"
    using that Find_Some [OF assms, of a] by (cases "mapAddr am a") (auto simp: Find_eq [OF assms])
qed

lemma one_bucket: "occ n vN = 1 \<Longrightarrow> \<exists>!k. k < length vN \<and> n \<in> vN ! k"
proof -
  assume "occ n vN = 1"
  then have "card {k. k < length vN \<and> n \<in> vN ! k} = 1" by (simp add: occ_def length_filter_conv_card)
  then obtain k where "{k. k < length vN \<and> n \<in> vN ! k} = {k}" by (rule card_1_singletonE)
  then show ?thesis by (intro ex1I [of _ k]) blast+
qed

text \<open>Add answers true exactly for a routable address not known before, which then has an entry
  with its source, its services, its time less the penalty, in exactly one new bucket.\<close>

theorem add_enters_new_peer:
  assumes "addr_reachable sha key am"
  shows "\<exists>b am'. Add sha R now addr src pen am = Some (b, am') \<and> Check am' = (0, am') \<and>
    (b \<longleftrightarrow> IsRoutable (svc_ip addr) \<and> (\<forall>n i. mapInfo am n = Some i \<longrightarrow> svc_ip i \<noteq> svc_ip addr)) \<and>
    (b \<longrightarrow> (\<exists>n i. mapInfo am' n = Some i \<and> svc_ip i = svc_ip addr \<and> svc_port i = svc_port addr \<and>
      source i = src \<and> nServices i = nServices addr \<and> adr_nTime i = word_of_int (max 0 (uint (adr_nTime addr) - pen)) \<and>
      \<not> fInTried i \<and> (\<exists>!k. k < 256 \<and> n \<in> vvNew am' ! k)))"
proof -
  note ok = addr_reachable_ok [OF assms]
  show ?thesis
  proof (cases "IsRoutable (svc_ip addr) \<and> mapAddr am (svc_ip addr) = None")
    case True
    obtain am' n i where am': "Add sha R now addr src pen am = Some (True, am')" "tables_ok am'" "mapInfo am' n = Some i"
      "i\<lparr> nRandomPos := 0 \<rparr> = (added_entry addr src pen 0)\<lparr> nRefCount := 1 \<rparr>"
      by (rule Add_new [OF ok, where sha = sha and R = R and now = now and addr = addr and src = src and pen = pen]) (use True in auto)
    let ?e = "added_entry addr src pen 0"
    have e: "svc_ip i = svc_ip addr" "svc_port i = svc_port addr" "source i = src" "nServices i = nServices addr"
      "adr_nTime i = word_of_int (max 0 (uint (adr_nTime addr) - pen))" "\<not> fInTried i" "nRefCount i = 1"
      using arg_cong [OF am'(4), of svc_ip] arg_cong [OF am'(4), of svc_port] arg_cong [OF am'(4), of source]
        arg_cong [OF am'(4), of nServices] arg_cong [OF am'(4), of adr_nTime] arg_cong [OF am'(4), of fInTried]
        arg_cong [OF am'(4), of nRefCount] by (simp_all add: added_entry_def AddrInfo_of_def)
    have "occ n (vvNew am') = 1" using entry_refs(1) [OF am'(2,3)] e(7) by simp
    then have "\<exists>!k. k < 256 \<and> n \<in> vvNew am' ! k" using one_bucket table_okD(1) [OF am_okD(2) [OF am'(2)]] by force
    then have "\<exists>n i. mapInfo am' n = Some i \<and> svc_ip i = svc_ip addr \<and> svc_port i = svc_port addr \<and>
      source i = src \<and> nServices i = nServices addr \<and> adr_nTime i = word_of_int (max 0 (uint (adr_nTime addr) - pen)) \<and>
      \<not> fInTried i \<and> (\<exists>!k. k < 256 \<and> n \<in> vvNew am' ! k)" using am'(3) e(1-6) by blast
    then show ?thesis
      by (intro exI [of _ True] exI [of _ am']) (use am'(1) Check_ok [OF am'(2)] True known_address [OF ok] in simp)
  next
    case False
    obtain b am' where am': "Add sha R now addr src pen am = Some (b, am')" "tables_ok am'"
      "b \<longleftrightarrow> IsRoutable (svc_ip addr) \<and> mapAddr am (svc_ip addr) = None"
      by (rule Add_ok [OF ok, of sha R now addr src pen])
    then have "Add sha R now addr src pen am = Some (False, am')" using False by simp
    then show ?thesis
      by (intro exI [of _ False] exI [of _ am']) (use Check_ok [OF am'(2)] False known_address [OF ok] in simp)
  qed
qed

theorem add_enters_new_peer_witness:
  "\<exists>am. Add (\<lambda>bs. bs) (\<lambda>_. 0) 0 w_peer (pchIPv4 @ [9, 9, 9, 9]) 0 (AddrMan_init []) = Some (True, am) \<and> Check am = (0, am)"
proof -
  have "\<forall>n i. mapInfo (AddrMan_init []) n = Some i \<longrightarrow> svc_ip i \<noteq> svc_ip w_peer" by (simp add: AddrMan_init_def)
  then show ?thesis
    using add_enters_new_peer [OF addr_start, where sha = "\<lambda>bs. bs" and R = "\<lambda>_. 0" and now = 0 and addr = w_peer
      and src = "pchIPv4 @ [9, 9, 9, 9]" and pen = 0 and key = "[]"] w_peer_routable by auto
qed

text \<open>GetAddr answers with 23 in 100 of the known addresses, 2500 at most, all different, and
  reorders the table only.\<close>

theorem get_addr_sample:
  assumes "addr_reachable sha key am"
  shows "\<exists>vAddr am'. GetAddr R am = Some (vAddr, am') \<and> length vAddr = min 2500 (23 * size_am am div 100) \<and>
    distinct (map svc_ip vAddr) \<and> (\<forall>a\<in>set vAddr. \<exists>n i. mapInfo am n = Some i \<and> a = Address_of_info i) \<and>
    (\<forall>n. map_option Address_of_info (mapInfo am' n) = map_option Address_of_info (mapInfo am n)) \<and> Check am' = (0, am')"
proof -
  obtain as am' where am': "GetAddr R am = Some (as, am')" "tables_ok am'" "entry_view am' = entry_view am"
    "length as = min 2500 (23 * length (vRandom am) div 100)" "distinct (map svc_ip as)"
    "\<forall>a\<in>set as. \<exists>n i. mapInfo am n = Some i \<and> a = Address_of_info i"
    by (rule GetAddr_ok [OF addr_reachable_ok [OF assms], of R]) blast
  have v: "map_option Address_of_info (mapInfo a n) = map_option Address_of_info (entry_view a n)" for a n
    by (cases "mapInfo a n") (simp_all add: view_def Address_of_info_def)
  show ?thesis
    by (rule exI [of _ as], rule exI [of _ am']) (use am'(1,4,5,6) Check_ok [OF am'(2)] in \<open>simp add: v am'(3) size_am_def\<close>)
qed

theorem get_addr_sample_witness: "\<exists>vAddr am'. GetAddr (\<lambda>_. 0) w_peers = Some (vAddr, am') \<and> Check am' = (0, am')"
  using get_addr_sample [OF w_peers_reachable, of "\<lambda>_. 0"] by blast

text \<open>The position drawn in round i of SelectTried, in a bucket of n entries.\<close>

definition drawn_pos :: "(nat \<Rightarrow> nat) \<Rightarrow> nat \<Rightarrow> nat \<Rightarrow> nat" where
  "drawn_pos R n i = i + GetRandInt (R i) (n - i)"

lemma drawn_less: "i < n \<Longrightarrow> drawn_pos R n i < n"
proof -
  assume "i < n"
  then have "R i mod (n - i) < n - i" by (intro mod_less_divisor) simp
  then show ?thesis by (simp add: drawn_pos_def GetRandInt_def less_diff_conv)
qed

definition last_success :: "CAddrMan \<Rightarrow> int \<Rightarrow> int" where "last_success am x = nLastSuccess (info_at am x)"

text \<open>The first of the oldest among the entries at the positions below n.\<close>

definition oldest_at :: "CAddrMan \<Rightarrow> int list \<Rightarrow> nat \<Rightarrow> nat \<Rightarrow> bool" where
  "oldest_at am v n i \<longleftrightarrow> i < n \<and> (\<forall>j<n. last_success am (v ! i) \<le> last_success am (v ! j)) \<and> (\<forall>j<i. last_success am (v ! i) < last_success am (v ! j))"

lemma SelectTried_loop_pos:
  assumes "kb < length (vvTried am)" "\<And>x. x \<in> set (vvTried am ! kb) \<Longrightarrow> has_id am x \<and> x \<noteq> - 1"
    "i + n \<le> length (vvTried am ! kb)" "oldest_at am (vvTried am ! kb) i m"
  shows "\<exists>m' w. SelectTried_loop n R kb i (vvTried am ! kb ! m) (int (drawn_pos R (length (vvTried am ! kb)) m)) am =
      Some (int (drawn_pos R (length (vvTried am ! kb)) m'), am\<lparr> vvTried := (vvTried am)[kb := w] \<rparr>) \<and>
    mset w = mset (vvTried am ! kb) \<and> oldest_at am w (i + n) m'"
  using assms
proof (induction n arbitrary: i m am)
  case 0
  then show ?case by (intro exI [of _ m] exI [of _ "vvTried am ! kb"]) simp
next
  case (Suc n)
  let ?v = "vvTried am ! kb"
  let ?p = "drawn_pos R (length ?v) i"
  let ?t = "?v ! ?p"
  let ?w = "(?v[?p := ?v ! i])[i := ?t]"
  let ?am = "am\<lparr> vvTried := (vvTried am)[kb := ?w] \<rparr>"
  have i: "i < length ?v" using Suc.prems(3) by simp
  then have p: "?p < length ?v" by (rule drawn_less)
  have ip: "i \<le> ?p" by (simp add: drawn_pos_def)
  have ms: "mset ?w = mset ?v" using mset_swap [OF p i] by (cases "?p = i") (simp_all add: list_update_swap)
  have t: "has_id am ?t" "?t \<noteq> - 1" using Suc.prems(2) [of ?t] p by simp_all
  have m: "m < i" using Suc.prems(4) by (simp add: oldest_at_def)
  then have old: "has_id am (?v ! m)" "?v ! m \<noteq> - 1" using Suc.prems(2) [of "?v ! m"] i by simp_all
  have keep: "?w ! j = ?v ! j" if "j < i" for j using that ip by simp
  have wi: "?w ! i = ?t" using i by simp
  have step: "SelectTried_loop (Suc n) R kb i (?v ! m) (int (drawn_pos R (length ?v) m)) am =
      (if last_success am ?t < last_success am (?v ! m)
       then SelectTried_loop n R kb (i + 1) ?t (int ?p) ?am else SelectTried_loop n R kb (i + 1) (?v ! m) (int (drawn_pos R (length ?v) m)) ?am)"
    using t old by (simp add: Let_def last_success_def drawn_pos_def add.commute)
  let ?m = "if last_success am ?t < last_success am (?v ! m) then i else m"
  have o1: "oldest_at ?am ?w (i + 1) ?m"
    using Suc.prems(4) keep wi m unfolding oldest_at_def
    by (auto simp: less_Suc_eq last_success_def info_at_def)
  have len: "length ?w = length ?v" by simp
  have at: "vvTried ?am ! kb = ?w" using Suc.prems(1) by simp
  have "has_id ?am x \<and> x \<noteq> - 1" if "x \<in> set (vvTried ?am ! kb)" for x
    using Suc.prems(2) [of x] mset_eq_setD [OF ms] that at by (simp only: has_id_def) simp
  then obtain m' w where r: "SelectTried_loop n R kb (i + 1) (?w ! ?m) (int (drawn_pos R (length ?v) ?m)) ?am =
      Some (int (drawn_pos R (length ?v) m'), ?am\<lparr> vvTried := (vvTried ?am)[kb := w] \<rparr>)" "mset w = mset ?w" "oldest_at ?am w (i + 1 + n) m'"
    using Suc.IH [of ?am "i + 1" ?m] Suc.prems(1,3) o1 unfolding at len by auto
  have "?w ! ?m = (if last_success am ?t < last_success am (?v ! m) then ?t else ?v ! m)" using keep [OF m] wi by simp
  then have "SelectTried_loop (Suc n) R kb i (?v ! m) (int (drawn_pos R (length ?v) m)) am =
      Some (int (drawn_pos R (length ?v) m'), am\<lparr> vvTried := (vvTried am)[kb := w] \<rparr>)"
    unfolding step using r(1) by (simp split: if_splits)
  moreover have "oldest_at am w (i + Suc n) m'" using r(3) by (simp add: oldest_at_def last_success_def info_at_def)
  ultimately show ?case using r(2) ms by auto
qed

text \<open>C34. Whatever the random draws, SelectTried finds the first of the least recently successful of the four entries it
  inspects (or of all, in a bucket of fewer), which it leaves, shuffled, at the front of the bucket; but it returns the position
  that entry was drawn from. That is where the entry now is only when the draw of its round was zero, and otherwise
  holds another entry, which is then evicted in its place.\<close>

theorem eviction_misses_oldest:
  assumes "k < length (vvTried am)" "vvTried am ! k \<noteq> []" "\<And>x. x \<in> set (vvTried am ! k) \<Longrightarrow> has_id am x \<and> x \<noteq> - 1"
    "distinct (vvTried am ! k)"
  shows "\<exists>w i. SelectTried R k am = Some (int (drawn_pos R (length w) i), am\<lparr> vvTried := (vvTried am)[k := w] \<rparr>) \<and>
    mset w = mset (vvTried am ! k) \<and> oldest_at am w (min 4 (length w)) i \<and> drawn_pos R (length w) i < length w \<and>
    (w ! drawn_pos R (length w) i = w ! i \<longleftrightarrow> R i mod (length w - i) = 0)"
proof -
  let ?v = "vvTried am ! k"
  let ?p = "drawn_pos R (length ?v) 0"
  let ?t = "?v ! ?p"
  let ?w = "(?v[?p := ?v ! 0])[0 := ?t]"
  let ?am = "am\<lparr> vvTried := (vvTried am)[k := ?w] \<rparr>"
  have i: "0 < length ?v" using assms(2) by simp
  then have p: "?p < length ?v" by (rule drawn_less)
  have ms: "mset ?w = mset ?v" using mset_swap [OF p i] by (cases "?p = 0") (simp_all add: list_update_swap)
  obtain n where n: "min 4 (length ?v) = Suc n" using i by (cases "length ?v") auto
  have "has_id ?am x \<and> x \<noteq> - 1" if "x \<in> set (vvTried ?am ! k)" for x
    using assms(1) assms(3) [of x] mset_eq_setD [OF ms] that by (simp add: has_id_def)
  moreover have "oldest_at ?am ?w 1 0" by (simp add: oldest_at_def)
  moreover have at: "vvTried ?am ! k = ?w" "?w ! 0 = ?t" using assms(1) i by simp_all
  moreover have "1 + n \<le> length ?w" using n by simp
  ultimately obtain i w where r: "SelectTried_loop n R k 1 ?t (int ?p) ?am =
      Some (int (drawn_pos R (length ?v) i), ?am\<lparr> vvTried := (vvTried ?am)[k := w] \<rparr>)" "mset w = mset ?w" "oldest_at ?am w (1 + n) i"
    using SelectTried_loop_pos [of k ?am 1 n 0 R] assms(1) by auto
  have "SelectTried R k am = SelectTried_loop n R k 1 ?t (int ?p) ?am"
    unfolding SelectTried_def n by (simp add: Let_def drawn_pos_def)
  then have s: "SelectTried R k am = Some (int (drawn_pos R (length ?v) i), am\<lparr> vvTried := (vvTried am)[k := w] \<rparr>)" using r(1) by simp
  have w: "mset w = mset ?v" "length w = length ?v" "distinct w"
    using r(2) ms assms(4) mset_eq_length [of w ?v] mset_eq_imp_distinct_iff [of w ?v] by simp_all
  have o: "oldest_at am w (min 4 (length w)) i" using r(3) n w(2) by (simp add: oldest_at_def last_success_def info_at_def)
  then have "i < length w" by (simp add: oldest_at_def)
  then have d: "drawn_pos R (length w) i < length w" by (rule drawn_less)
  have "drawn_pos R (length w) i = i \<longleftrightarrow> R i mod (length w - i) = 0" using \<open>i < length w\<close> by (simp add: drawn_pos_def GetRandInt_def)
  then have "w ! drawn_pos R (length w) i = w ! i \<longleftrightarrow> R i mod (length w - i) = 0" using nth_eq_iff_index_eq [OF w(3) d \<open>i < length w\<close>] by simp
  then show ?thesis using s unfolding w(2) [symmetric] by (intro exI [of _ w] exI [of _ i] conjI w(1) o d)
qed

text \<open>Example: five tried entries, of which entry 1 has the oldest success, and draws that all pass over one entry.\<close>

definition w_tried :: CAddrMan where
  "w_tried = (AddrMan_init [])\<lparr> vvTried := [0, 1, 2, 3, 4] # replicate 63 [],
     mapInfo := [0 \<mapsto> AddrInfo_init, 1 \<mapsto> AddrInfo_init\<lparr> nLastSuccess := 5 \<rparr>, 2 \<mapsto> AddrInfo_init\<lparr> nLastSuccess := 8 \<rparr>,
       3 \<mapsto> AddrInfo_init\<lparr> nLastSuccess := 7 \<rparr>, 4 \<mapsto> AddrInfo_init\<lparr> nLastSuccess := 6 \<rparr>] \<rparr>"

theorem eviction_misses_oldest_witness:
  "\<exists>w i. SelectTried (\<lambda>_. 1) 0 w_tried = Some (int (drawn_pos (\<lambda>_. 1) 5 i), w_tried\<lparr> vvTried := (vvTried w_tried)[0 := w] \<rparr>) \<and>
    oldest_at w_tried w 4 i \<and> w ! drawn_pos (\<lambda>_. 1) 5 i \<noteq> w ! i"
proof -
  have v: "vvTried w_tried ! 0 = [0, 1, 2, 3, 4]" "length (vvTried w_tried) = 64" by (simp_all add: w_tried_def)
  have x: "has_id w_tried x \<and> x \<noteq> - 1" if "x \<in> set (vvTried w_tried ! 0)" for x
    using that unfolding v by (auto simp: has_id_def w_tried_def)
  have "0 < length (vvTried w_tried)" "vvTried w_tried ! 0 \<noteq> []" "distinct (vvTried w_tried ! 0)" by (simp_all add: v)
  from eviction_misses_oldest [OF this(1,2) x this(3), of "\<lambda>_. 1"] obtain w i where
    r: "SelectTried (\<lambda>_. 1) 0 w_tried = Some (int (drawn_pos (\<lambda>_. 1) (length w) i), w_tried\<lparr> vvTried := (vvTried w_tried)[0 := w] \<rparr>)"
      "mset w = mset (vvTried w_tried ! 0)" "oldest_at w_tried w (min 4 (length w)) i"
      "w ! drawn_pos (\<lambda>_. 1) (length w) i = w ! i \<longleftrightarrow> 1 mod (length w - i) = 0" by auto
  have l: "length w = 5" using mset_eq_length [OF r(2)] v by simp
  then have "i < 4" using r(3) by (simp add: oldest_at_def)
  then have "1 mod (5 - i) \<noteq> 0" by simp
  then show ?thesis using r(1,3,4) l by auto
qed

end
