(* ===== verification/OrphanTx.thy ===== *)
theory OrphanTx
  imports Accept
begin

text \<open>
  src/main.cpp: orphan transactions (AddOrphanTx, EraseOrphanTx, LimitOrphanTxSize) and the handler of
  a "tx" message in ProcessMessage. The CDataStream of an orphan is its value; the two maps share it.
  Random hashes and the verdicts of the limiter of free transactions come from sequences. Inventories
  of peers and notices to wallets are left out; the messages relayed are recorded.
\<close>

subsection \<open>The maps\<close>

record orphan_txs =
  mapOrphanTransactions :: "base_uint \<rightharpoonup> cds"
  mapOrphanTransactionsByPrev :: "base_uint \<rightharpoonup> (base_uint \<rightharpoonup> cds)"

definition orphan_txs_init :: orphan_txs where
  "orphan_txs_init = \<lparr> mapOrphanTransactions = Map.empty, mapOrphanTransactionsByPrev = Map.empty \<rparr>"

definition MAX_ORPHAN_TRANSACTIONS :: u32 where "MAX_ORPHAN_TRANSACTIONS = MAX_BLOCK_SIZE div 100"

text \<open>The keys of a map from 256-bit numbers, in the order of the map; lower_bound.\<close>

definition map_keys :: "(base_uint \<rightharpoonup> 'v) \<Rightarrow> base_uint list" where
  "map_keys m = map (words_of 8) (sorted_list_of_set (wval ` dom m))"

definition lower_bound :: "(base_uint \<rightharpoonup> 'v) \<Rightarrow> base_uint \<Rightarrow> base_uint option" where
  "lower_bound m k = find (\<lambda>h. \<not> u_lt h k) (map_keys m)"

text \<open>CDataStream(vMsg) >> tx, reading from a copy; None is an exception.\<close>

definition read_tx :: "u32 \<Rightarrow> cds \<Rightarrow> CTransaction option" where
  "read_tx now vMsg =
     map_option fst (unser_CTransaction ds_read (word_of_int (ds_nType vMsg)) (word_of_int (ds_nVersion vMsg)) (Tx_SetNull now) vMsg)"

definition by_prev_insert :: "base_uint \<Rightarrow> cds \<Rightarrow> CTxIn \<Rightarrow> (base_uint \<rightharpoonup> (base_uint \<rightharpoonup> cds)) \<Rightarrow> (base_uint \<rightharpoonup> (base_uint \<rightharpoonup> cds))" where
  "by_prev_insert hsh pvMsg txin byPrev =
     (let p = o_hash (prevout txin); m = (case byPrev p of None \<Rightarrow> Map.empty | Some m \<Rightarrow> m)
      in byPrev(p \<mapsto> (case m hsh of None \<Rightarrow> m(hsh \<mapsto> pvMsg) | Some _ \<Rightarrow> m)))"

definition AddOrphanTx :: "sha256 \<Rightarrow> u32 \<Rightarrow> cds \<Rightarrow> orphan_txs \<Rightarrow> (bool \<times> orphan_txs) option" where
  "AddOrphanTx sha now vMsg orph =
     do { tx \<leftarrow> read_tx now vMsg;
          let hsh = Tx_GetHash sha tx
          in if mapOrphanTransactions orph hsh \<noteq> None then Some (False, orph)
             else if ds_size vMsg > 5000 then Some (False, orph)
             else Some (True, orph\<lparr>mapOrphanTransactions := (mapOrphanTransactions orph)(hsh \<mapsto> vMsg),
               mapOrphanTransactionsByPrev := fold (by_prev_insert hsh vMsg) (vin tx) (mapOrphanTransactionsByPrev orph)\<rparr>) }"

definition by_prev_erase :: "base_uint \<Rightarrow> CTxIn \<Rightarrow> (base_uint \<rightharpoonup> (base_uint \<rightharpoonup> cds)) \<Rightarrow> (base_uint \<rightharpoonup> (base_uint \<rightharpoonup> cds))" where
  "by_prev_erase hsh txin byPrev =
     (let p = o_hash (prevout txin); m = (case byPrev p of None \<Rightarrow> Map.empty | Some m \<Rightarrow> m)(hsh := None)
      in byPrev(p := (if dom m = {} then None else Some m)))"

definition EraseOrphanTx :: "u32 \<Rightarrow> base_uint \<Rightarrow> orphan_txs \<Rightarrow> orphan_txs option" where
  "EraseOrphanTx now hsh orph =
     (case mapOrphanTransactions orph hsh of
        None \<Rightarrow> Some orph
      | Some pvMsg \<Rightarrow>
          do { tx \<leftarrow> read_tx now pvMsg;
               Some (orph\<lparr>mapOrphanTransactionsByPrev := fold (by_prev_erase hsh) (vin tx) (mapOrphanTransactionsByPrev orph),
                          mapOrphanTransactions := (mapOrphanTransactions orph)(hsh := None)\<rparr>) })"

text \<open>The random hashes are \<open>R\<close>. No result: an exception, or the loop does not end.\<close>

partial_function (option) LimitOrphanTxSize ::
  "u32 \<Rightarrow> (nat \<Rightarrow> base_uint) \<Rightarrow> nat \<Rightarrow> nat \<Rightarrow> orphan_txs \<Rightarrow> (nat \<times> orphan_txs) option" where
  "LimitOrphanTxSize now R nMaxOrphans nEvicted orph =
     (if card (dom (mapOrphanTransactions orph)) > nMaxOrphans
      then do { orph \<leftarrow> EraseOrphanTx now
                  (case lower_bound (mapOrphanTransactions orph) (R nEvicted) of
                     Some h \<Rightarrow> h | None \<Rightarrow> hd (map_keys (mapOrphanTransactions orph))) orph;
                LimitOrphanTxSize now R nMaxOrphans (nEvicted + 1) orph }
      else Some (nEvicted, orph))"

subsection \<open>The handler of a transaction message\<close>

record tx_env =
  te_chain :: chain_env
  te_testnet :: bool
  te_best :: "nat option"
  te_db :: txdb
  te_now :: u32
  te_limited :: "nat \<Rightarrow> bool" \<comment> \<open>the limiter's verdict in call number n of accept\<close>
  te_random :: "nat \<Rightarrow> base_uint"

record tx_state =
  ts_pool :: mempool
  ts_orphans :: orphan_txs
  ts_relayed :: "(base_uint \<times> cds) list"
  ts_calls :: nat

definition AcceptToMemoryPool :: "tx_env \<Rightarrow> CTransaction \<Rightarrow> tx_state \<Rightarrow> (reject + unit) \<times> bool \<times> tx_state" where
  "AcceptToMemoryPool E tx st =
     (case accept (te_chain E) (te_testnet E) (te_best E) (te_db E) (te_limited E (ts_calls st)) tx True (ts_pool st) of
        (r, m, missing) \<Rightarrow> (r, missing, st\<lparr>ts_pool := m, ts_calls := ts_calls st + 1\<rparr>))"

text \<open>The orphans that spend outputs of one transaction: the hashes accepted, the hashes to erase.\<close>

fun try_orphans ::
  "tx_env \<Rightarrow> cds list \<Rightarrow> base_uint list \<Rightarrow> base_uint list \<Rightarrow> tx_state \<Rightarrow> (reject + base_uint list \<times> base_uint list) \<times> tx_state" where
  "try_orphans E [] vWork vErase st = (Inr (vWork, vErase), st)"
| "try_orphans E (vMsg # ms) vWork vErase st =
     (case read_tx (te_now E) vMsg of
        None \<Rightarrow> (Inl Thrown, st)
      | Some tx \<Rightarrow>
          let hsh = Tx_GetHash (ch_sha (te_chain E)) tx
          in case AcceptToMemoryPool E tx st of
               (Inr _, _, st) \<Rightarrow>
                 try_orphans E ms (vWork @ [hsh]) (vErase @ [hsh]) (st\<lparr>ts_relayed := ts_relayed st @ [(hsh, vMsg)]\<rparr>)
             | (Inl e, fMissingInputs2, st) \<Rightarrow>
                 if \<not> is_false e then (Inl e, st)
                 else if \<not> fMissingInputs2 then try_orphans E ms vWork (vErase @ [hsh]) st
                 else try_orphans E ms vWork vErase st)"

text \<open>mapOrphanTransactionsByPrev[hashPrev] makes an empty entry when there is none.\<close>

definition by_prev_at :: "base_uint \<Rightarrow> orphan_txs \<Rightarrow> (base_uint \<rightharpoonup> cds) \<times> orphan_txs" where
  "by_prev_at p orph =
     (case mapOrphanTransactionsByPrev orph p of
        Some m \<Rightarrow> (m, orph)
      | None \<Rightarrow> (Map.empty, orph\<lparr>mapOrphanTransactionsByPrev := (mapOrphanTransactionsByPrev orph)(p \<mapsto> Map.empty)\<rparr>))"

text \<open>The work queue from position i on.\<close>

partial_function (option) work_queue ::
  "tx_env \<Rightarrow> base_uint list \<Rightarrow> base_uint list \<Rightarrow> tx_state \<Rightarrow> ((reject + base_uint list) \<times> tx_state) option" where
  "work_queue E vWork vErase st =
     (case vWork of
        [] \<Rightarrow> Some (Inr vErase, st)
      | hPrev # rest \<Rightarrow>
          (case by_prev_at hPrev (ts_orphans st) of
             (m, orph) \<Rightarrow>
               (case try_orphans E (map (\<lambda>h. the (m h)) (map_keys m)) rest vErase (st\<lparr>ts_orphans := orph\<rparr>) of
                  (Inl e, st) \<Rightarrow> Some (Inl e, st)
                | (Inr (vWork, vErase), st) \<Rightarrow> work_queue E vWork vErase st)))"

fun erase_all :: "u32 \<Rightarrow> base_uint list \<Rightarrow> orphan_txs \<Rightarrow> orphan_txs option" where
  "erase_all now [] orph = Some orph"
| "erase_all now (h # hs) orph = do { orph \<leftarrow> EraseOrphanTx now h orph; erase_all now hs orph }"

text \<open>The verdict is the misbehaviour of the peer, or the exception.\<close>

definition misbehaviour :: "reject \<Rightarrow> int" where "misbehaviour e = (case e of DoS n \<Rightarrow> n | _ \<Rightarrow> 0)"

definition process_tx_message :: "tx_env \<Rightarrow> cds \<Rightarrow> tx_state \<Rightarrow> ((reject + int) \<times> tx_state) option" where
  "process_tx_message E vRecv st =
     (case read_tx (te_now E) vRecv of
        None \<Rightarrow> Some (Inl Thrown, st)
      | Some tx \<Rightarrow>
          let hsh = Tx_GetHash (ch_sha (te_chain E)) tx
          in case AcceptToMemoryPool E tx st of
               (Inr _, _, st) \<Rightarrow>
                 do { (r, st) \<leftarrow> work_queue E [hsh] [hsh] (st\<lparr>ts_relayed := ts_relayed st @ [(hsh, vRecv)]\<rparr>);
                      case r of
                        Inl e \<Rightarrow> Some (Inl e, st)
                      | Inr vErase \<Rightarrow>
                          (case erase_all (te_now E) vErase (ts_orphans st) of
                             None \<Rightarrow> Some (Inl Thrown, st)
                           | Some orph \<Rightarrow> Some (Inr 0, st\<lparr>ts_orphans := orph\<rparr>)) }
             | (Inl e, fMissingInputs, st) \<Rightarrow>
                 if \<not> is_false e then Some (Inl e, st)
                 else if \<not> fMissingInputs then Some (Inr (misbehaviour e), st)
                 else (case AddOrphanTx (ch_sha (te_chain E)) (te_now E) vRecv (ts_orphans st) of
                         None \<Rightarrow> Some (Inl Thrown, st)
                       | Some (_, orph) \<Rightarrow>
                           do { (nEvicted, orph) \<leftarrow> LimitOrphanTxSize (te_now E) (te_random E) (unat MAX_ORPHAN_TRANSACTIONS) 0 orph;
                                Some (Inr (misbehaviour e), st\<lparr>ts_orphans := orph\<rparr>) }))"

subsection \<open>The maps are consistent\<close>

text \<open>The time a reader starts from is overwritten, so what an orphan parses to does not depend on it.\<close>

lemma read_tx_now: "read_tx now vMsg = read_tx 0 vMsg"
  by (cases "word_of_int (ds_nType vMsg) AND SER_GETHASH = 0")
    (simp_all add: read_tx_def unser_CTransaction_def Tx_SetNull_def Let_def cong: if_cong)

definition spends :: "cds \<Rightarrow> base_uint \<Rightarrow> bool" where
  "spends vMsg p \<longleftrightarrow> (\<exists>tx. read_tx 0 vMsg = Some tx \<and> p \<in> (\<lambda>txin. o_hash (prevout txin)) ` set (vin tx))"

definition waiting :: "(base_uint \<rightharpoonup> cds) \<Rightarrow> base_uint \<Rightarrow> (base_uint \<rightharpoonup> cds)" where \<comment> \<open>the orphans that spend outputs of p\<close>
  "waiting orph p = (\<lambda>h. case orph h of Some vMsg \<Rightarrow> if spends vMsg p then Some vMsg else None | None \<Rightarrow> None)"

definition txs_ok :: "sha256 \<Rightarrow> orphan_txs \<Rightarrow> bool" where
  "txs_ok sha orph \<longleftrightarrow>
     finite (dom (mapOrphanTransactions orph)) \<and>
     (\<forall>h vMsg. mapOrphanTransactions orph h = Some vMsg \<longrightarrow>
        ds_size vMsg \<le> 5000 \<and> (\<exists>tx. read_tx 0 vMsg = Some tx \<and> Tx_GetHash sha tx = h)) \<and>
     (\<forall>p. (case mapOrphanTransactionsByPrev orph p of None \<Rightarrow> Map.empty | Some m \<Rightarrow> m) = waiting (mapOrphanTransactions orph) p)"

lemma txs_okD:
  assumes "txs_ok sha orph"
  shows "finite (dom (mapOrphanTransactions orph))"
    "mapOrphanTransactions orph h = Some vMsg \<Longrightarrow> ds_size vMsg \<le> 5000 \<and> (\<exists>tx. read_tx 0 vMsg = Some tx \<and> Tx_GetHash sha tx = h)"
    "(case mapOrphanTransactionsByPrev orph p of None \<Rightarrow> Map.empty | Some m \<Rightarrow> m) = waiting (mapOrphanTransactions orph) p"
  using assms by (auto simp: txs_ok_def)

lemma txs_okI:
  assumes "finite (dom (mapOrphanTransactions orph))"
    "\<And>h vMsg. mapOrphanTransactions orph h = Some vMsg \<Longrightarrow> ds_size vMsg \<le> 5000 \<and> (\<exists>tx. read_tx 0 vMsg = Some tx \<and> Tx_GetHash sha tx = h)"
    "\<And>p. (case mapOrphanTransactionsByPrev orph p of None \<Rightarrow> Map.empty | Some m \<Rightarrow> m) = waiting (mapOrphanTransactions orph) p"
  shows "txs_ok sha orph"
  using assms by (simp add: txs_ok_def)

lemma fold_by_prev_insert:
  "fold (by_prev_insert h vMsg) ins byPrev p =
     (if p \<in> (\<lambda>txin. o_hash (prevout txin)) ` set ins
      then let m = (case byPrev p of None \<Rightarrow> Map.empty | Some m \<Rightarrow> m) in Some (if m h = None then m(h \<mapsto> vMsg) else m)
      else byPrev p)"
  by (induction ins arbitrary: byPrev) (auto simp: by_prev_insert_def Let_def split: option.splits)

lemma fold_by_prev_erase:
  "(case fold (by_prev_erase h) ins byPrev p of None \<Rightarrow> Map.empty | Some m \<Rightarrow> m) =
     (if p \<in> (\<lambda>txin. o_hash (prevout txin)) ` set ins
      then (case byPrev p of None \<Rightarrow> Map.empty | Some m \<Rightarrow> m)(h := None)
      else (case byPrev p of None \<Rightarrow> Map.empty | Some m \<Rightarrow> m))"
  by (induction ins arbitrary: byPrev) (auto simp: by_prev_erase_def Let_def dom_eq_empty_conv split: option.splits)

lemma waiting_insert:
  "orph h = None \<Longrightarrow> waiting (orph(h \<mapsto> vMsg)) p = (if spends vMsg p then (waiting orph p)(h \<mapsto> vMsg) else waiting orph p)"
  by (auto simp: waiting_def fun_eq_iff)

lemma waiting_erase: "waiting (orph(h := None)) p = (waiting orph p)(h := None)"
  by (auto simp: waiting_def fun_eq_iff)

lemma AddOrphanTx_ok:
  assumes ok: "txs_ok sha orph" and tx: "read_tx 0 vMsg = Some tx"
  obtains b orph' where "AddOrphanTx sha now vMsg orph = Some (b, orph')" "txs_ok sha orph'"
    "b \<longleftrightarrow> mapOrphanTransactions orph (Tx_GetHash sha tx) = None \<and> ds_size vMsg \<le> 5000"
    "mapOrphanTransactions orph' = (if b then (mapOrphanTransactions orph)(Tx_GetHash sha tx \<mapsto> vMsg) else mapOrphanTransactions orph)"
proof -
  let ?h = "Tx_GetHash sha tx" and ?O = "mapOrphanTransactions orph"
  have r: "read_tx now vMsg = Some tx" using tx read_tx_now [of now] by simp
  show thesis
  proof (cases "?O ?h = None \<and> ds_size vMsg \<le> 5000")
    case False
    then show thesis using that [of False orph] ok r by (auto simp: AddOrphanTx_def Let_def)
  next
    case True
    let ?orph = "orph\<lparr>mapOrphanTransactions := ?O(?h \<mapsto> vMsg),
      mapOrphanTransactionsByPrev := fold (by_prev_insert ?h vMsg) (vin tx) (mapOrphanTransactionsByPrev orph)\<rparr>"
    have s: "spends vMsg p \<longleftrightarrow> p \<in> (\<lambda>txin. o_hash (prevout txin)) ` set (vin tx)" for p using tx by (simp add: spends_def)
    have "waiting ?O p ?h = None" for p using True by (simp add: waiting_def)
    then have "txs_ok sha ?orph"
      using True tx s txs_okD [OF ok] waiting_insert [of ?O ?h vMsg]
      by (intro txs_okI) (auto simp: fold_by_prev_insert Let_def split: if_splits)
    then show thesis using that [of True ?orph] True r by (simp add: AddOrphanTx_def Let_def)
  qed
qed

lemma EraseOrphanTx_ok:
  assumes ok: "txs_ok sha orph"
  obtains orph' where "EraseOrphanTx now h orph = Some orph'" "txs_ok sha orph'"
    "mapOrphanTransactions orph' = (mapOrphanTransactions orph)(h := None)"
proof (cases "mapOrphanTransactions orph h")
  case None
  then show thesis using that [of orph] ok by (auto simp: EraseOrphanTx_def fun_upd_idem)
next
  case (Some vMsg)
  let ?O = "mapOrphanTransactions orph"
  obtain tx where tx: "read_tx 0 vMsg = Some tx" "Tx_GetHash sha tx = h" using txs_okD(2) [OF ok Some] by blast
  let ?orph = "orph\<lparr>mapOrphanTransactionsByPrev := fold (by_prev_erase h) (vin tx) (mapOrphanTransactionsByPrev orph),
    mapOrphanTransactions := ?O(h := None)\<rparr>"
  have "(waiting ?O p)(h := None) = waiting ?O p" if "p \<notin> (\<lambda>txin. o_hash (prevout txin)) ` set (vin tx)" for p
    using that tx Some by (auto simp: waiting_def spends_def fun_eq_iff)
  then have "txs_ok sha ?orph"
    using txs_okD [OF ok] by (intro txs_okI) (auto simp: fold_by_prev_erase waiting_erase split: if_splits)
  then show thesis using that [of ?orph] tx(1) Some read_tx_now [of now] by (simp add: EraseOrphanTx_def)
qed

subsection \<open>The bound on the number of orphans\<close>

lemma hash_key: "sha_ok sha \<Longrightarrow> length (Tx_GetHash sha tx) = 8"
  by (simp add: Tx_GetHash_def SerializeHash_def length_Hash)

lemma map_keys_set:
  assumes "finite (dom m)" "\<And>h. h \<in> dom m \<Longrightarrow> length h = 8"
  shows "set (map_keys m) = dom m"
proof -
  have "words_of 8 (wval h) = h" if "h \<in> dom m" for h using assms(2) [OF that] words_of_wval [of h] by simp
  then show ?thesis using assms(1) by (force simp: map_keys_def)
qed

lemma txs_ok_keys: "sha_ok sha \<Longrightarrow> txs_ok sha orph \<Longrightarrow> h \<in> dom (mapOrphanTransactions orph) \<Longrightarrow> length h = 8"
  using txs_okD(2) hash_key by blast

lemma LimitOrphanTxSize_ok:
  assumes sha: "sha_ok sha" and ok: "txs_ok sha orph"
  obtains n orph' where "LimitOrphanTxSize now R nMax nEvicted orph = Some (n, orph')" "txs_ok sha orph'"
    "mapOrphanTransactions orph' \<subseteq>\<^sub>m mapOrphanTransactions orph"
    "card (dom (mapOrphanTransactions orph')) = min nMax (card (dom (mapOrphanTransactions orph)))"
proof -
  have "\<exists>n orph'. LimitOrphanTxSize now R nMax nEvicted orph = Some (n, orph') \<and> txs_ok sha orph' \<and>
    mapOrphanTransactions orph' \<subseteq>\<^sub>m mapOrphanTransactions orph \<and>
    card (dom (mapOrphanTransactions orph')) = min nMax (card (dom (mapOrphanTransactions orph)))"
    using ok
  proof (induction "card (dom (mapOrphanTransactions orph))" arbitrary: orph nEvicted rule: less_induct)
    case less
    let ?O = "mapOrphanTransactions orph"
    note ok = less.prems
    show ?case
    proof (cases "card (dom ?O) > nMax")
      case False
      then show ?thesis using ok by (subst LimitOrphanTxSize.simps) auto
    next
      case True
      let ?h = "case lower_bound ?O (R nEvicted) of Some h \<Rightarrow> h | None \<Rightarrow> hd (map_keys ?O)"
      have keys: "set (map_keys ?O) = dom ?O" using map_keys_set txs_okD(1) [OF ok] txs_ok_keys [OF sha ok] by blast
      have "map_keys ?O \<noteq> []" using True keys by auto
      then have "?h \<in> set (map_keys ?O)"
        by (auto simp: lower_bound_def find_Some_iff split: option.split)
      then have h: "?h \<in> dom ?O" using keys by simp
      obtain orph1 where e: "EraseOrphanTx now ?h orph = Some orph1" "txs_ok sha orph1" "mapOrphanTransactions orph1 = ?O(?h := None)"
        by (rule EraseOrphanTx_ok [OF ok])
      have c: "card (dom (mapOrphanTransactions orph1)) = card (dom ?O) - 1" "card (dom ?O) \<noteq> 0"
        using e(3) h txs_okD(1) [OF ok] by (auto simp: card_eq_0_iff)
      then obtain n orph' where r: "LimitOrphanTxSize now R nMax (nEvicted + 1) orph1 = Some (n, orph')" "txs_ok sha orph'"
        "mapOrphanTransactions orph' \<subseteq>\<^sub>m mapOrphanTransactions orph1"
        "card (dom (mapOrphanTransactions orph')) = min nMax (card (dom (mapOrphanTransactions orph1)))"
        using less.hyps [OF _ e(2), of "nEvicted + 1"] by fastforce
      have "mapOrphanTransactions orph1 \<subseteq>\<^sub>m ?O" unfolding e(3) by (auto simp: map_le_def)
      then have "mapOrphanTransactions orph' \<subseteq>\<^sub>m ?O" using map_le_trans [OF r(3)] by blast
      then show ?thesis using True e(1) r c by (subst LimitOrphanTxSize.simps) auto
    qed
  qed
  then show thesis using that by blast
qed

subsection \<open>The work queue\<close>

text \<open>The pool gained exactly the transactions hs, in that order, all orphans of O, each relayed as it was received.\<close>

definition pool_gain :: "(base_uint \<rightharpoonup> cds) \<Rightarrow> tx_state \<Rightarrow> tx_state \<Rightarrow> base_uint list \<Rightarrow> bool" where
  "pool_gain orphs st st' hs \<longleftrightarrow>
     dom (mapTx (ts_pool st')) = dom (mapTx (ts_pool st)) \<union> set hs \<and> distinct hs \<and>
     set hs \<inter> dom (mapTx (ts_pool st)) = {} \<and> set hs \<subseteq> dom orphs \<and>
     ts_relayed st' = ts_relayed st @ map (\<lambda>h. (h, the (orphs h))) hs"

lemma pool_gain_Nil: "ts_pool st' = ts_pool st \<Longrightarrow> ts_relayed st' = ts_relayed st \<Longrightarrow> pool_gain orphs st st' []"
  by (simp add: pool_gain_def)

lemma pool_gain_append: "pool_gain orphs st st1 hs \<Longrightarrow> pool_gain orphs st1 st2 ks \<Longrightarrow> pool_gain orphs st st2 (hs @ ks)"
  by (auto simp: pool_gain_def)

lemma pool_gain_card:
  assumes "pool_gain orphs st st' hs" "finite (dom orphs)"
  shows "length hs + card (dom orphs - dom (mapTx (ts_pool st'))) = card (dom orphs - dom (mapTx (ts_pool st)))"
proof -
  have "dom orphs - dom (mapTx (ts_pool st)) = set hs \<union> (dom orphs - dom (mapTx (ts_pool st')))"
    using assms(1) by (auto simp: pool_gain_def)
  moreover have "set hs \<inter> (dom orphs - dom (mapTx (ts_pool st'))) = {}" using assms(1) by (auto simp: pool_gain_def)
  ultimately have "card (dom orphs - dom (mapTx (ts_pool st))) = card (set hs) + card (dom orphs - dom (mapTx (ts_pool st')))"
    using assms(2) by (simp add: card_Un_disjoint)
  then show ?thesis using assms(1) by (simp add: pool_gain_def distinct_card)
qed

lemma AcceptToMemoryPool_cases:
  assumes "AcceptToMemoryPool E tx st = (r, missing, st')"
  obtains e where "r = Inl e" "ts_pool st' = ts_pool st" "ts_orphans st' = ts_orphans st" "ts_relayed st' = ts_relayed st"
  | "r = Inr ()" "ts_orphans st' = ts_orphans st" "ts_relayed st' = ts_relayed st"
    "mapTx (ts_pool st) (Tx_GetHash (ch_sha (te_chain E)) tx) = None"
    "mapTx (ts_pool st') = (mapTx (ts_pool st))(Tx_GetHash (ch_sha (te_chain E)) tx \<mapsto> tx)"
proof -
  obtain m where a: "accept (te_chain E) (te_testnet E) (te_best E) (te_db E) (te_limited E (ts_calls st)) tx True (ts_pool st) = (r, m, missing)"
    and st: "st' = st\<lparr>ts_pool := m, ts_calls := ts_calls st + 1\<rparr>"
    using assms by (auto simp: AcceptToMemoryPool_def split: prod.splits)
  from a show thesis
  proof (cases rule: accept_cases)
    case (1 e)
    then show ?thesis using that(1) st by simp
  next
    case 2
    then show ?thesis using that(2) st by (simp add: addUnchecked_def)
  qed
qed

lemma try_orphans_spec:
  assumes "\<And>vMsg. vMsg \<in> set ms \<Longrightarrow> \<exists>h tx. orphs h = Some vMsg \<and> read_tx 0 vMsg = Some tx \<and> Tx_GetHash (ch_sha (te_chain E)) tx = h"
    and "try_orphans E ms vWork vErase st = (r, st')"
  shows "ts_orphans st' = ts_orphans st \<and> (\<exists>hs. pool_gain orphs st st' hs \<and>
    (case r of Inl e \<Rightarrow> \<not> is_false e
     | Inr (w, er) \<Rightarrow> w = vWork @ hs \<and> (\<exists>ks. er = vErase @ ks \<and> set hs \<subseteq> set ks \<and> set ks \<subseteq> dom orphs)))"
  using assms
proof (induction ms arbitrary: vWork vErase st)
  case Nil
  then show ?case by (auto intro: pool_gain_Nil)
next
  case (Cons vMsg ms)
  let ?sha = "ch_sha (te_chain E)"
  obtain tx where tx: "orphs (Tx_GetHash ?sha tx) = Some vMsg" "read_tx (te_now E) vMsg = Some tx"
    using Cons.prems(1) [of vMsg] read_tx_now [of "te_now E" vMsg] by auto
  have ms: "\<exists>h tx. orphs h = Some m \<and> read_tx 0 m = Some tx \<and> Tx_GetHash ?sha tx = h" if "m \<in> set ms" for m
    using Cons.prems(1) that by simp
  obtain v missing st1 where a: "AcceptToMemoryPool E tx st = (v, missing, st1)" by (cases "AcceptToMemoryPool E tx st") auto
  from a show ?case
  proof (cases rule: AcceptToMemoryPool_cases)
    case (1 e)
    have g: "pool_gain orphs st st1 []" using 1 by (intro pool_gain_Nil)
    show ?thesis
    proof (cases "is_false e")
      case False
      then show ?thesis using Cons.prems(2) a tx 1 g by (auto simp: Let_def)
    next
      case True
      let ?ks = "if missing then [] else [Tx_GetHash ?sha tx]"
      have "try_orphans E ms vWork (vErase @ ?ks) st1 = (r, st')" "set ?ks \<subseteq> dom orphs"
        using Cons.prems(2) a tx 1 True by (cases missing; auto simp: Let_def)+
      then obtain ks where ks: "try_orphans E ms vWork (vErase @ ks) st1 = (r, st')" "set ks \<subseteq> dom orphs" by blast
      from Cons.IH [OF ms ks(1)] obtain hs where "ts_orphans st' = ts_orphans st1" "pool_gain orphs st1 st' hs"
        "case r of Inl e \<Rightarrow> \<not> is_false e
         | Inr (w, er) \<Rightarrow> w = vWork @ hs \<and> (\<exists>k. er = (vErase @ ks) @ k \<and> set hs \<subseteq> set k \<and> set k \<subseteq> dom orphs)" by auto
      then show ?thesis using 1 ks(2) pool_gain_append [OF g, of st' hs]
        by (intro conjI exI [of _ hs]) (auto split: sum.splits intro!: exI [of _ "ks @ _"])
    qed
  next
    case 2
    let ?h = "Tx_GetHash ?sha tx"
    let ?st1 = "st1\<lparr>ts_relayed := ts_relayed st1 @ [(?h, vMsg)]\<rparr>"
    have g: "pool_gain orphs st ?st1 [?h]" using 2 tx(1) by (auto simp: pool_gain_def)
    have t: "try_orphans E ms (vWork @ [?h]) (vErase @ [?h]) ?st1 = (r, st')"
      using Cons.prems(2) a tx 2 by (simp add: Let_def)
    from Cons.IH [OF ms t] obtain hs where "ts_orphans st' = ts_orphans ?st1" "pool_gain orphs ?st1 st' hs"
      "case r of Inl e \<Rightarrow> \<not> is_false e
       | Inr (w, er) \<Rightarrow> w = (vWork @ [?h]) @ hs \<and> (\<exists>k. er = (vErase @ [?h]) @ k \<and> set hs \<subseteq> set k \<and> set k \<subseteq> dom orphs)" by auto
    then show ?thesis using 2 tx(1) pool_gain_append [OF g, of st' hs]
      by (intro conjI exI [of _ "?h # hs"]) (auto split: sum.splits intro!: exI [of _ "?h # _"])
  qed
qed

lemma by_prev_at_ok:
  assumes ok: "txs_ok sha orph"
  obtains orph' where "by_prev_at p orph = (waiting (mapOrphanTransactions orph) p, orph')" "txs_ok sha orph'"
    "mapOrphanTransactions orph' = mapOrphanTransactions orph"
    "mapOrphanTransactionsByPrev orph' = (mapOrphanTransactionsByPrev orph)(p \<mapsto> waiting (mapOrphanTransactions orph) p)"
proof (cases "mapOrphanTransactionsByPrev orph p")
  case None
  let ?orph = "orph\<lparr>mapOrphanTransactionsByPrev := (mapOrphanTransactionsByPrev orph)(p \<mapsto> Map.empty)\<rparr>"
  have w: "waiting (mapOrphanTransactions orph) p = Map.empty" using txs_okD(3) [OF ok, of p] None by simp
  have "txs_ok sha ?orph" using txs_okD [OF ok] w by (intro txs_okI) auto
  then show thesis using that [of ?orph] None w by (simp add: by_prev_at_def)
next
  case (Some m)
  then have "m = waiting (mapOrphanTransactions orph) p" using txs_okD(3) [OF ok, of p] by simp
  then show thesis using that [of orph] Some ok by (simp add: by_prev_at_def fun_upd_idem)
qed

lemma waiting_listed:
  assumes sha: "sha_ok sha" and ok: "txs_ok sha orph" and v: "vMsg \<in> set (map (\<lambda>h. the (waiting (mapOrphanTransactions orph) p h)) (map_keys (waiting (mapOrphanTransactions orph) p)))"
  shows "\<exists>h tx. mapOrphanTransactions orph h = Some vMsg \<and> read_tx 0 vMsg = Some tx \<and> Tx_GetHash sha tx = h"
proof -
  let ?w = "waiting (mapOrphanTransactions orph) p"
  have sub: "dom ?w \<subseteq> dom (mapOrphanTransactions orph)" by (auto simp: waiting_def split: option.splits if_splits)
  then have "set (map_keys ?w) = dom ?w"
    using map_keys_set finite_subset [OF sub txs_okD(1) [OF ok]] txs_ok_keys [OF sha ok] by blast
  then obtain h where "?w h = Some vMsg" using v by auto
  then have "mapOrphanTransactions orph h = Some vMsg" by (auto simp: waiting_def split: option.splits if_splits)
  then show ?thesis using txs_okD(2) [OF ok] by blast
qed

text \<open>The queue is worked off: every round takes one transaction out and puts in those the pool gained.\<close>

lemma work_queue_ok:
  assumes sha: "sha_ok (ch_sha (te_chain E))" and ok: "txs_ok (ch_sha (te_chain E)) (ts_orphans st)"
  shows "\<exists>r st' hs. work_queue E vWork vErase st = Some (r, st') \<and> txs_ok (ch_sha (te_chain E)) (ts_orphans st') \<and>
    mapOrphanTransactions (ts_orphans st') = mapOrphanTransactions (ts_orphans st) \<and>
    pool_gain (mapOrphanTransactions (ts_orphans st)) st st' hs \<and>
    (case r of Inl e \<Rightarrow> \<not> is_false e
     | Inr er \<Rightarrow> \<exists>ks. er = vErase @ ks \<and> set hs \<subseteq> set ks \<and> set ks \<subseteq> dom (mapOrphanTransactions (ts_orphans st)))"
  using ok
proof (induction "length vWork + card (dom (mapOrphanTransactions (ts_orphans st)) - dom (mapTx (ts_pool st)))"
    arbitrary: vWork vErase st rule: less_induct)
  case less
  let ?O = "mapOrphanTransactions (ts_orphans st)"
  show ?case
  proof (cases vWork)
    case Nil
    then show ?thesis using less.prems by (subst work_queue.simps) (auto intro: exI [of _ "[]"] pool_gain_Nil)
  next
    case (Cons p rest)
    obtain orph where b: "by_prev_at p (ts_orphans st) = (waiting ?O p, orph)" "txs_ok (ch_sha (te_chain E)) orph"
      "mapOrphanTransactions orph = ?O" by (rule by_prev_at_ok [OF less.prems])
    let ?st = "st\<lparr>ts_orphans := orph\<rparr>"
    let ?ms = "map (\<lambda>h. the (waiting ?O p h)) (map_keys (waiting ?O p))"
    obtain r st1 where t: "try_orphans E ?ms rest vErase ?st = (r, st1)" by (cases "try_orphans E ?ms rest vErase ?st")
    obtain hs where s: "ts_orphans st1 = orph" "pool_gain ?O ?st st1 hs"
      "case r of Inl e \<Rightarrow> \<not> is_false e
       | Inr (w, er) \<Rightarrow> w = rest @ hs \<and> (\<exists>ks. er = vErase @ ks \<and> set hs \<subseteq> set ks \<and> set ks \<subseteq> dom ?O)"
      using try_orphans_spec [OF waiting_listed [OF sha less.prems, of _ p] t] by auto
    have g: "pool_gain ?O st st1 hs" using s(2) by (simp add: pool_gain_def)
    show ?thesis
    proof (cases r)
      case (Inl e)
      then have "work_queue E vWork vErase st = Some (Inl e, st1)" using Cons b(1) t by (subst work_queue.simps) simp
      then show ?thesis using Inl s b g by auto
    next
      case (Inr we)
      then obtain ks where w: "r = Inr (rest @ hs, vErase @ ks)" "set hs \<subseteq> set ks" "set ks \<subseteq> dom ?O" using s(3) by (cases we) auto
      have O1: "mapOrphanTransactions (ts_orphans st1) = ?O" "txs_ok (ch_sha (te_chain E)) (ts_orphans st1)" using s(1) b(2,3) by simp_all
      have "length (rest @ hs) + card (dom ?O - dom (mapTx (ts_pool st1))) < length vWork + card (dom ?O - dom (mapTx (ts_pool st)))"
        using pool_gain_card [OF g txs_okD(1) [OF less.prems]] Cons by simp
      then obtain r2 st2 hs2 where i: "work_queue E (rest @ hs) (vErase @ ks) st1 = Some (r2, st2)"
        "txs_ok (ch_sha (te_chain E)) (ts_orphans st2)" "mapOrphanTransactions (ts_orphans st2) = ?O" "pool_gain ?O st1 st2 hs2"
        "case r2 of Inl e \<Rightarrow> \<not> is_false e | Inr er \<Rightarrow> \<exists>k. er = (vErase @ ks) @ k \<and> set hs2 \<subseteq> set k \<and> set k \<subseteq> dom ?O"
        using less.hyps [of "rest @ hs" st1 "vErase @ ks", unfolded O1(1), OF _ O1(2)] by blast
      have "work_queue E vWork vErase st = Some (r2, st2)" using Cons b(1) t w(1) i(1) by (subst work_queue.simps) simp
      moreover have "pool_gain ?O st st2 (hs @ hs2)" by (rule pool_gain_append [OF g i(4)])
      moreover have "case r2 of Inl e \<Rightarrow> \<not> is_false e
          | Inr er \<Rightarrow> \<exists>k. er = vErase @ k \<and> set (hs @ hs2) \<subseteq> set k \<and> set k \<subseteq> dom ?O"
      proof (cases r2)
        case (Inr er)
        then obtain k where "er = vErase @ (ks @ k)" "set hs2 \<subseteq> set k" "set k \<subseteq> dom ?O" using i(5) by auto
        then show ?thesis unfolding Inr sum.case using w(2,3) by (intro exI [of _ "ks @ k"]) auto
      qed (use i(5) in simp)
      ultimately show ?thesis using i(2,3) by blast
    qed
  qed
qed

lemma erase_all_ok:
  "txs_ok sha orph \<Longrightarrow> \<exists>orph'. erase_all now hs orph = Some orph' \<and> txs_ok sha orph' \<and>
    mapOrphanTransactions orph' = (mapOrphanTransactions orph) |` (- set hs)"
proof (induction hs arbitrary: orph)
  case (Cons h hs)
  obtain orph1 where o: "EraseOrphanTx now h orph = Some orph1" "txs_ok sha orph1" "mapOrphanTransactions orph1 = (mapOrphanTransactions orph)(h := None)"
    by (rule EraseOrphanTx_ok [OF Cons.prems])
  then show ?case using Cons.IH [OF o(2)] by (auto simp: restrict_map_def fun_eq_iff)
qed (simp add: restrict_map_def)

subsection \<open>Transaction messages\<close>

text \<open>What handling one message does, whatever its bytes.\<close>

lemma process_tx_message_ok:
  assumes sha: "sha_ok (ch_sha (te_chain E))" and ok: "txs_ok (ch_sha (te_chain E)) (ts_orphans st)"
    and small: "card (dom (mapOrphanTransactions (ts_orphans st))) \<le> unat MAX_ORPHAN_TRANSACTIONS"
  obtains r st' where "process_tx_message E vRecv st = Some (r, st')" "txs_ok (ch_sha (te_chain E)) (ts_orphans st')"
    "card (dom (mapOrphanTransactions (ts_orphans st'))) \<le> unat MAX_ORPHAN_TRANSACTIONS"
    "\<forall>d. r = Inr d \<longrightarrow> (\<exists>new. ts_relayed st' = ts_relayed st @ new \<and>
      dom (mapTx (ts_pool st')) = dom (mapTx (ts_pool st)) \<union> fst ` set new \<and> fst ` set new \<inter> dom (mapTx (ts_pool st)) = {} \<and>
      fst ` set new \<inter> dom (mapOrphanTransactions (ts_orphans st')) = {} \<and>
      (\<forall>(h, vMsg)\<in>set new. mapOrphanTransactions (ts_orphans st) h = Some vMsg \<or>
        vMsg = vRecv \<and> (\<exists>tx. read_tx 0 vRecv = Some tx \<and> Tx_GetHash (ch_sha (te_chain E)) tx = h)))"
proof (cases "read_tx 0 vRecv")
  case None
  then show thesis using that [of "Inl Thrown" st] ok small read_tx_now [of "te_now E" vRecv] by (simp add: process_tx_message_def)
next
  case (Some tx)
  let ?sha = "ch_sha (te_chain E)" and ?O = "mapOrphanTransactions (ts_orphans st)"
  let ?h = "Tx_GetHash ?sha tx"
  have rd: "read_tx (te_now E) vRecv = Some tx" using Some read_tx_now [of "te_now E" vRecv] by simp
  obtain v missing st1 where a: "AcceptToMemoryPool E tx st = (v, missing, st1)" by (cases "AcceptToMemoryPool E tx st") auto
  from a show thesis
  proof (cases rule: AcceptToMemoryPool_cases)
    case (1 e)
    show thesis
    proof (cases "is_false e \<and> missing")
      case False
      then show thesis using that [of "if is_false e then Inr (misbehaviour e) else Inl e" st1] rd a 1 ok small
        by (auto simp: process_tx_message_def Let_def intro: exI [of _ "[]"])
    next
      case True
      obtain b o1 where o1: "AddOrphanTx ?sha (te_now E) vRecv (ts_orphans st) = Some (b, o1)" "txs_ok ?sha o1"
        by (rule AddOrphanTx_ok [OF ok Some])
      obtain n o2 where o2: "LimitOrphanTxSize (te_now E) (te_random E) (unat MAX_ORPHAN_TRANSACTIONS) 0 o1 = Some (n, o2)" "txs_ok ?sha o2"
        "card (dom (mapOrphanTransactions o2)) = min (unat MAX_ORPHAN_TRANSACTIONS) (card (dom (mapOrphanTransactions o1)))"
        by (rule LimitOrphanTxSize_ok [OF sha o1(2)])
      show thesis using that [of "Inr (misbehaviour e)" "st1\<lparr>ts_orphans := o2\<rparr>"] rd a 1 True o1(1) o2
        by (auto simp: process_tx_message_def Let_def intro: exI [of _ "[]"])
    qed
  next
    case 2
    let ?st = "st1\<lparr>ts_relayed := ts_relayed st1 @ [(?h, vRecv)]\<rparr>"
    have ok1: "txs_ok ?sha (ts_orphans ?st)" "mapOrphanTransactions (ts_orphans ?st) = ?O" using ok 2(2) by simp_all
    obtain r st2 hs where w: "work_queue E [?h] [?h] ?st = Some (r, st2)" "txs_ok ?sha (ts_orphans st2)"
      "mapOrphanTransactions (ts_orphans st2) = ?O" "pool_gain ?O ?st st2 hs"
      "case r of Inl e \<Rightarrow> \<not> is_false e | Inr er \<Rightarrow> \<exists>ks. er = [?h] @ ks \<and> set hs \<subseteq> set ks \<and> set ks \<subseteq> dom ?O"
      using work_queue_ok [OF sha ok1(1), unfolded ok1(2)] by blast
    show thesis
    proof (cases r)
      case (Inl e)
      then have "process_tx_message E vRecv st = Some (Inl e, st2)" using rd a 2(1) w(1) by (simp add: process_tx_message_def Let_def)
      then show thesis using that [of "Inl e" st2] w(2,3) small by simp
    next
      case (Inr er)
      obtain o3 where o3: "erase_all (te_now E) er (ts_orphans st2) = Some o3" "txs_ok ?sha o3"
        "mapOrphanTransactions o3 = ?O |` (- set er)"
        using erase_all_ok [OF w(2), of "te_now E" er] w(3) by auto
      have p: "process_tx_message E vRecv st = Some (Inr 0, st2\<lparr>ts_orphans := o3\<rparr>)"
        using rd a 2(1) w(1) Inr o3(1) by (simp add: process_tx_message_def Let_def)
      have "card (dom (mapOrphanTransactions o3)) \<le> card (dom ?O)"
        unfolding o3(3) using txs_okD(1) [OF ok] by (intro card_mono) auto
      then have c: "card (dom (mapOrphanTransactions o3)) \<le> unat MAX_ORPHAN_TRANSACTIONS" using small by simp
      have e: "set hs \<subseteq> set er" "?h \<in> set er" using w(5) Inr by auto
      let ?new = "(?h, vRecv) # map (\<lambda>h. (h, the (?O h))) hs"
      have g: "dom (mapTx (ts_pool st2)) = dom (mapTx (ts_pool st1)) \<union> set hs" "set hs \<inter> dom (mapTx (ts_pool st1)) = {}"
        "set hs \<subseteq> dom ?O" "ts_relayed st2 = ts_relayed st @ ?new"
        using w(4) 2(3) by (simp_all add: pool_gain_def)
      have f: "fst ` set ?new = insert ?h (set hs)" by force
      have n: "\<forall>(h, vMsg)\<in>set ?new. ?O h = Some vMsg \<or> vMsg = vRecv \<and> (\<exists>tx. read_tx 0 vRecv = Some tx \<and> Tx_GetHash ?sha tx = h)"
        using g(3) Some by auto
      have "dom (mapTx (ts_pool st2)) = dom (mapTx (ts_pool st)) \<union> insert ?h (set hs)"
        "insert ?h (set hs) \<inter> dom (mapTx (ts_pool st)) = {}" using g(1,2) 2(4,5) by auto
      moreover have "insert ?h (set hs) \<inter> dom (mapOrphanTransactions o3) = {}" unfolding o3(3) using e by auto
      ultimately show thesis
        using o3(2) c g(4) n unfolding f [symmetric] by (intro that [OF p] allI impI exI [of _ ?new] conjI) simp_all
    qed
  qed
qed

text \<open>Any sequence of messages, between which the memory pool may change in any way.\<close>

inductive tx_run :: "sha256 \<Rightarrow> tx_state \<Rightarrow> bool" for sha where
  tx_start: "ts_orphans st = orphan_txs_init \<Longrightarrow> tx_run sha st"
| tx_message: "tx_run sha st \<Longrightarrow> ch_sha (te_chain E) = sha \<Longrightarrow> process_tx_message E vRecv st = Some (r, st') \<Longrightarrow> tx_run sha st'"
| tx_other: "tx_run sha st \<Longrightarrow> ts_orphans st' = ts_orphans st \<Longrightarrow> tx_run sha st'"

lemma tx_run_ok:
  assumes sha: "sha_ok sha"
  shows "tx_run sha st \<Longrightarrow> txs_ok sha (ts_orphans st) \<and>
    card (dom (mapOrphanTransactions (ts_orphans st))) \<le> unat MAX_ORPHAN_TRANSACTIONS"
proof (induction rule: tx_run.induct)
  case (tx_start st)
  then show ?case by (simp add: orphan_txs_init_def txs_ok_def waiting_def)
next
  case (tx_message st E vRecv r st')
  then have s: "sha_ok (ch_sha (te_chain E))" "txs_ok (ch_sha (te_chain E)) (ts_orphans st)"
    "card (dom (mapOrphanTransactions (ts_orphans st))) \<le> unat MAX_ORPHAN_TRANSACTIONS" using sha by simp_all
  show ?case by (rule process_tx_message_ok [OF s, of vRecv]) (use tx_message in simp)
qed simp

text \<open>C21. However many transaction messages arrive, and whatever they hold, at most 20971 orphan
  transactions are kept, each of at most 5000 bytes (104,855,000 bytes in all) and under its own hash,
  and the index by previous transaction lists exactly the orphans that spend its outputs.\<close>

theorem orphan_transactions_bounded:
  assumes "sha_ok sha" "tx_run sha st"
  shows "card (dom (mapOrphanTransactions (ts_orphans st))) \<le> 20971 \<and>
    (\<Sum>h\<in>dom (mapOrphanTransactions (ts_orphans st)). ds_size (the (mapOrphanTransactions (ts_orphans st) h))) \<le> 104855000 \<and>
    (\<forall>h vMsg. mapOrphanTransactions (ts_orphans st) h = Some vMsg \<longrightarrow> (\<exists>tx. read_tx 0 vMsg = Some tx \<and> Tx_GetHash sha tx = h)) \<and>
    (\<forall>p m h. mapOrphanTransactionsByPrev (ts_orphans st) p = Some m \<longrightarrow>
      m h = (case mapOrphanTransactions (ts_orphans st) h of None \<Rightarrow> None | Some vMsg \<Rightarrow> if spends vMsg p then Some vMsg else None)) \<and>
    (\<forall>h vMsg p. mapOrphanTransactions (ts_orphans st) h = Some vMsg \<longrightarrow> spends vMsg p \<longrightarrow>
      (\<exists>m. mapOrphanTransactionsByPrev (ts_orphans st) p = Some m))"
proof -
  let ?O = "mapOrphanTransactions (ts_orphans st)"
  note ok = conjunct1 [OF tx_run_ok [OF assms]]
  have c: "card (dom ?O) \<le> 20971" using tx_run_ok [OF assms] by (simp add: MAX_ORPHAN_TRANSACTIONS_def MAX_BLOCK_SIZE_def unat_div)
  have "(\<Sum>h\<in>dom ?O. ds_size (the (?O h))) \<le> card (dom ?O) * 5000"
    using txs_okD(2) [OF ok] by (intro order_trans [OF sum_bounded_above [where K = 5000]]) auto
  then have "(\<Sum>h\<in>dom ?O. ds_size (the (?O h))) \<le> 104855000" using c by linarith
  moreover have "\<exists>m. mapOrphanTransactionsByPrev (ts_orphans st) p = Some m" if "?O h = Some vMsg" "spends vMsg p" for h vMsg p
  proof (cases "mapOrphanTransactionsByPrev (ts_orphans st) p")
    case None
    then have "waiting ?O p h = None" using txs_okD(3) [OF ok, of p] by (metis option.simps(4))
    then show ?thesis using that by (simp add: waiting_def)
  qed simp
  moreover have "m h = (case ?O h of None \<Rightarrow> None | Some vMsg \<Rightarrow> if spends vMsg p then Some vMsg else None)"
    if "mapOrphanTransactionsByPrev (ts_orphans st) p = Some m" for p m h
    using txs_okD(3) [OF ok, of p] that by (auto simp: waiting_def split: option.split)
  ultimately show ?thesis using c txs_okD(2) [OF ok] by blast
qed

subsection \<open>No endless walk\<close>

text \<open>The parts of accept that call ConnectInputs, and with it the walk through the ancestors of the best block, end on a well-formed tree.\<close>

lemma GetOutputFor_ends: "GetOutputFor txin inputs \<noteq> Inl Stuck"
  by (simp add: GetOutputFor_def split: option.split prod.split)

lemma accept_parts_end:
  "fetch_loop V db pool fBlock fMiner inputs ins \<noteq> Inl Stuck" "inputs_standard_loop K tx inputs i ins \<noteq> Inl Stuck"
  "value_in_loop inputs n ins \<noteq> Inl Stuck"
proof -
  show "fetch_loop V db pool fBlock fMiner inputs ins \<noteq> Inl Stuck"
    by (induction ins arbitrary: inputs) (auto simp: Let_def split: option.split)
  show "inputs_standard_loop K tx inputs i ins \<noteq> Inl Stuck"
    by (induction ins arbitrary: i)
      (auto simp: Let_def GetOutputFor_ends split: sum.split option.split prod.split list.split dest: arg_cong [where f = "\<lambda>r. r = Inl Stuck"])
  show "value_in_loop inputs n ins \<noteq> Inl Stuck"
    by (induction ins arbitrary: n) (auto split: sum.split dest: arg_cong [where f = "\<lambda>r. r = Inl Stuck"] simp: GetOutputFor_ends)
qed


lemma accept_ends:
  assumes "tree_ok (ch_heap V)" "accept V fTestNet best db limited tx fCheckInputs m = (r, m', missing)"
  shows "r \<noteq> Inl Stuck"
proof -
  have i: "fst (accept_inputs (V\<lparr>ch_mempool := mapTx m\<rparr>) fTestNet best db limited tx) \<noteq> Inl Stuck" if "\<not> Tx_IsCoinStake tx"
    unfolding accept_inputs_def FetchInputs_def AreInputsStandard_def GetValueIn_def Let_def
    using ConnectInputs_ends [of "V\<lparr>ch_mempool := mapTx m\<rparr>" tx] assms(1) that accept_parts_end
    by (auto split: sum.split option.split reject.split dest: arg_cong [where f = "\<lambda>r. r = Inl Stuck"])
  show ?thesis using assms(2) i unfolding accept_def Let_def
    by (auto split: prod.splits if_splits sum.splits)
qed

lemma AcceptToMemoryPool_ends:
  "tree_ok (ch_heap (te_chain E)) \<Longrightarrow> AcceptToMemoryPool E tx st = (r, missing, st') \<Longrightarrow> r \<noteq> Inl Stuck"
  unfolding AcceptToMemoryPool_def by (auto split: prod.splits dest: accept_ends)

lemma try_orphans_ends:
  "tree_ok (ch_heap (te_chain E)) \<Longrightarrow> try_orphans E ms vWork vErase st = (r, st') \<Longrightarrow> r \<noteq> Inl Stuck"
  by (induction ms arbitrary: vWork vErase st)
    (fastforce simp: Let_def split: option.splits prod.splits sum.splits if_splits dest: AcceptToMemoryPool_ends)+

lemma work_queue_ends:
  "work_queue E vWork vErase st = Some (r, st') \<Longrightarrow> tree_ok (ch_heap (te_chain E)) \<Longrightarrow> r \<noteq> Inl Stuck"
proof -
  assume w: "work_queue E vWork vErase st = Some (r, st')"
  have "tree_ok (ch_heap (te_chain E)) \<longrightarrow> fst (r, st') \<noteq> Inl Stuck"
    by (rule work_queue.raw_induct [OF _ w, where P = "\<lambda>E vWork vErase st res. tree_ok (ch_heap (te_chain E)) \<longrightarrow> fst res \<noteq> Inl Stuck"])
      (fastforce split: list.splits prod.splits sum.splits dest: try_orphans_ends)
  then show "tree_ok (ch_heap (te_chain E)) \<Longrightarrow> r \<noteq> Inl Stuck" by simp
qed

lemma process_tx_message_ends:
  assumes "tree_ok (ch_heap (te_chain E))" "process_tx_message E vRecv st = Some (r, st')"
  shows "r \<noteq> Inl Stuck"
  using assms(2) unfolding process_tx_message_def Let_def
  by (auto split: option.splits prod.splits sum.splits if_splits bind_splits dest: AcceptToMemoryPool_ends [OF assms(1)] work_queue_ends [OF _ assms(1)])

text \<open>C22. On a well-formed block tree, handling a transaction message ends, whatever its bytes: the loops end, and so
  does every walk through the block tree they start. Without an exception, the memory pool has gained exactly the
  transactions relayed: the message's own and orphans that waited, and none of them is kept as an orphan.\<close>

theorem tx_message_handled:
  assumes "sha_ok (ch_sha (te_chain E))" "tx_run (ch_sha (te_chain E)) st" "tree_ok (ch_heap (te_chain E))"
  shows "\<exists>r st'. process_tx_message E vRecv st = Some (r, st') \<and> r \<noteq> Inl Stuck \<and>
    (\<forall>d. r = Inr d \<longrightarrow> (\<exists>new. ts_relayed st' = ts_relayed st @ new \<and>
      dom (mapTx (ts_pool st')) = dom (mapTx (ts_pool st)) \<union> fst ` set new \<and> fst ` set new \<inter> dom (mapTx (ts_pool st)) = {} \<and>
      fst ` set new \<inter> dom (mapOrphanTransactions (ts_orphans st')) = {} \<and>
      (\<forall>(h, vMsg)\<in>set new. mapOrphanTransactions (ts_orphans st) h = Some vMsg \<or>
        vMsg = vRecv \<and> (\<exists>tx. read_tx 0 vRecv = Some tx \<and> Tx_GetHash (ch_sha (te_chain E)) tx = h))))"
proof -
  note ok = tx_run_ok [OF assms(1,2)]
  show ?thesis
    by (rule process_tx_message_ok [OF assms(1) conjunct1 [OF ok] conjunct2 [OF ok], of vRecv])
      (intro exI conjI, assumption, rule process_tx_message_ends [OF assms(3)], assumption+)
qed

text \<open>A transaction no orphan waits for leaves an empty entry in the index by previous transaction when
  it is accepted, which nothing removes afterwards: the entry is erased only with an orphan that spends
  an output of that transaction. The index grows with every accepted transaction.\<close>

theorem accepted_transaction_leaves_entry:
  assumes "read_tx 0 vRecv = Some tx" "AcceptToMemoryPool E tx st = (Inr (), missing, st1)"
    and "h = Tx_GetHash (ch_sha (te_chain E)) tx"
    and "mapOrphanTransactions (ts_orphans st) h = None" "mapOrphanTransactionsByPrev (ts_orphans st) h = None"
  shows "\<exists>st'. process_tx_message E vRecv st = Some (Inr 0, st') \<and>
    mapOrphanTransactionsByPrev (ts_orphans st') = (mapOrphanTransactionsByPrev (ts_orphans st))(h \<mapsto> Map.empty) \<and>
    mapOrphanTransactions (ts_orphans st') = mapOrphanTransactions (ts_orphans st)"
proof -
  have rd: "read_tx (te_now E) vRecv = Some tx" using assms(1) read_tx_now [of "te_now E" vRecv] by simp
  have o: "ts_orphans st1 = ts_orphans st" using assms(2) by (cases rule: AcceptToMemoryPool_cases) simp_all
  have k: "map_keys Map.empty = []" by (simp add: map_keys_def)
  have w0: "work_queue E [] er st = Some (Inr er, st)" for er st by (subst work_queue.simps) simp
  have w1: "work_queue E [h] er st = Some (Inr er, st\<lparr>ts_orphans := (ts_orphans st)
      \<lparr>mapOrphanTransactionsByPrev := (mapOrphanTransactionsByPrev (ts_orphans st))(h \<mapsto> Map.empty)\<rparr>\<rparr>)"
    if "mapOrphanTransactionsByPrev (ts_orphans st) h = None" for er st
    using that by (subst work_queue.simps) (simp add: by_prev_at_def k w0)
  show ?thesis using rd assms(2,4,5) o
    by (simp add: process_tx_message_def assms(3) [symmetric] w1 EraseOrphanTx_def)
qed

text \<open>Example: the message of the transaction w_relay, which the memory pool accepts.\<close>

definition w_tx_env :: tx_env where
  "w_tx_env = \<lparr> te_chain = w_relay_env, te_testnet = True, te_best = Some 0, te_db = w_relay_db, te_now = 0,
     te_limited = (\<lambda>_. False), te_random = (\<lambda>_. []) \<rparr>"

definition w_tx_state :: tx_state where
  "w_tx_state = \<lparr> ts_pool = mempool_empty, ts_orphans = orphan_txs_init, ts_relayed = [], ts_calls = 0 \<rparr>"

definition w_tx_message :: cds where
  "w_tx_message = ds_Init (ser_CTransaction SER_NETWORK PROTOCOL_VERSION w_relay) 1 1"

lemma w_tx_read: "read_tx 0 w_tx_message = Some w_relay"
proof -
  have h: "length (Tx_GetHash w_sha tx) = 8" for tx by (simp add: w_hash)
  then have wf: "wf_tx w_relay" by (simp add: w_relay_def w_spend_def wf_tx_def wf_txin_def wf_txout_def wf_outpoint_def MAX_SIZE_def)
  have "length (ser_CTransaction SER_NETWORK PROTOCOL_VERSION w_relay) = 64"
    by (simp add: ser_CTransaction_def ser_vector_def ser_CTxIn_def ser_CTxOut_def ser_COutPoint_def ser_vch_def length_WriteCompactSize
      GetSizeOfCompactSize_def ser_uint256_def
      w_relay_def w_spend_def h length_u_bytes SER_NETWORK_def SER_GETHASH_def word_sle_eq Let_def)
  then have s: "ds_inv w_tx_message" "ds_rest w_tx_message = ser_CTransaction SER_NETWORK PROTOCOL_VERSION w_relay @ []"
    using ds_inv_Init [of "ser_CTransaction SER_NETWORK PROTOCOL_VERSION w_relay" 1 1] by (simp_all add: w_tx_message_def)
  have ty: "word_of_int (ds_nType w_tx_message) = SER_NETWORK" "SER_NETWORK AND SER_GETHASH = 0"
    by (simp_all add: w_tx_message_def ds_Init_def SER_NETWORK_def SER_GETHASH_def)
  have "w_relay\<lparr>tx_nVersionCompat := tx_nVersionCompat (Tx_SetNull 0), tx_nDoS := tx_nDoS (Tx_SetNull 0),
      tx_message := if 2 \<le>s tx_nVersion w_relay then tx_message w_relay else []\<rparr> = w_relay"
    by (simp add: w_relay_def w_spend_def Tx_SetNull_def)
  then obtain s' where "unser_CTransaction ds_read SER_NETWORK (word_of_int (ds_nVersion w_tx_message)) (Tx_SetNull 0) w_tx_message = Some (w_relay, s')"
    using readsE [OF ds.reads_CTransaction [OF wf ty(2)] s] by metis
  then show ?thesis by (simp add: read_tx_def ty(1))
qed

lemma w_tx_accept: "\<exists>missing st1. AcceptToMemoryPool w_tx_env w_relay w_tx_state = (Inr (), missing, st1)"
proof -
  obtain m missing where "accept w_relay_env True (Some 0) w_relay_db False w_relay True mempool_empty = (Inr (), m, missing)"
    using w_relay_accepted by blast
  then show ?thesis by (simp add: AcceptToMemoryPool_def w_tx_env_def w_tx_state_def)
qed

theorem accepted_transaction_leaves_entry_witness:
  "\<exists>st'. process_tx_message w_tx_env w_tx_message w_tx_state = Some (Inr 0, st') \<and>
    mapOrphanTransactionsByPrev (ts_orphans st') (Tx_GetHash w_sha w_relay) = Some Map.empty"
proof -
  obtain missing st1 where a: "AcceptToMemoryPool w_tx_env w_relay w_tx_state = (Inr (), missing, st1)" using w_tx_accept by blast
  have "ch_sha (te_chain w_tx_env) = w_sha" by (simp add: w_tx_env_def w_relay_env_def w_facts)
  then show ?thesis
    using accepted_transaction_leaves_entry [OF w_tx_read a refl] by (auto simp: w_tx_state_def orphan_txs_init_def)
qed

lemma w_sha_ok: "sha_ok (ch_sha (te_chain w_tx_env))"
  by (simp add: w_tx_env_def w_relay_env_def w_facts) (simp add: sha_ok_def w_sha_def)

lemma w_tx_start: "tx_run sha w_tx_state"
  by (rule tx_start) (simp add: w_tx_state_def)

theorem tx_message_handled_witness:
  "\<exists>r st'. process_tx_message w_tx_env w_tx_message w_tx_state = Some (r, st') \<and> r \<noteq> Inl Stuck"
proof -
  have "tree_ok (ch_heap (te_chain w_tx_env))" by (simp add: w_tx_env_def w_relay_env_def w_env_def tree_ok_def BlockIndex_default_def)
  from tx_message_handled [OF w_sha_ok w_tx_start this, of w_tx_message] show ?thesis
    by (elim exE conjE) (intro exI conjI; assumption)
qed

theorem orphan_transactions_bounded_witness:
  "\<exists>r st'. process_tx_message w_tx_env w_tx_message w_tx_state = Some (r, st') \<and> card (dom (mapOrphanTransactions (ts_orphans st'))) \<le> 20971"
proof -
  have ok: "txs_ok (ch_sha (te_chain w_tx_env)) (ts_orphans w_tx_state)"
    "card (dom (mapOrphanTransactions (ts_orphans w_tx_state))) \<le> unat MAX_ORPHAN_TRANSACTIONS"
    using tx_run_ok [OF w_sha_ok w_tx_start] by simp_all
  obtain r st' where p: "process_tx_message w_tx_env w_tx_message w_tx_state = Some (r, st')"
    by (rule process_tx_message_ok [OF w_sha_ok ok, of w_tx_message], rule that)
  then have "tx_run (ch_sha (te_chain w_tx_env)) st'" by (intro tx_message [OF w_tx_start]) simp_all
  from orphan_transactions_bounded [OF w_sha_ok this] show ?thesis using p by blast
qed

end
