(* ===== verification/Messages.thy ===== *)
theory Messages
  imports Connect "HOL-Library.Sublist"
begin

text \<open>
  src/protocol.h, src/protocol.cpp (CMessageHeader), the sending of messages in src/net.h (BeginMessage,
  AbortMessage, EndMessage, PushMessage), the transfer of bytes by ThreadSocketHandler2 in src/net.cpp, and
  ProcessMessages in src/main.cpp. Commands are byte lists; arguments of PushMessage are the bytes they
  serialize to, with a flag for a serializer that throws. ProcessMessage is a parameter, a function of the
  command, the message and the state: the version of vRecv, which it may set, and anything else.
\<close>

subsection \<open>CMessageHeader\<close>

definition pchMessageStart :: "byte list" where "pchMessageStart = [0x70, 0x35, 0x22, 0x05]"

record CMessageHeader =
  mh_pchMessageStart :: "byte list"
  mh_pchCommand :: "byte list"
  mh_nMessageSize :: u32
  mh_nChecksum :: u32

definition COMMAND_SIZE :: nat where "COMMAND_SIZE = 12"
definition MESSAGE_SIZE_OFFSET :: nat where "MESSAGE_SIZE_OFFSET = 4 + COMMAND_SIZE"
definition CHECKSUM_OFFSET :: nat where "CHECKSUM_OFFSET = MESSAGE_SIZE_OFFSET + 4"

definition MessageHeader_init :: CMessageHeader where
  "MessageHeader_init = \<lparr> mh_pchMessageStart = pchMessageStart, mh_pchCommand = (replicate COMMAND_SIZE 0)[1 := 1],
     mh_nMessageSize = - 1, mh_nChecksum = 0 \<rparr>"

definition strncpy :: "byte list \<Rightarrow> nat \<Rightarrow> byte list" where \<comment> \<open>the n bytes strncpy writes\<close>
  "strncpy s n = (let c = takeWhile (\<lambda>b. b \<noteq> 0) s in take n c @ replicate (n - length c) 0)"

definition MessageHeader_of :: "byte list \<Rightarrow> u32 \<Rightarrow> CMessageHeader" where
  "MessageHeader_of pszCommand nMessageSizeIn =
     \<lparr> mh_pchMessageStart = pchMessageStart, mh_pchCommand = strncpy pszCommand COMMAND_SIZE,
       mh_nMessageSize = nMessageSizeIn, mh_nChecksum = 0 \<rparr>"

definition ser_CMessageHeader :: "CMessageHeader \<Rightarrow> byte list" where
  "ser_CMessageHeader h = mh_pchMessageStart h @ mh_pchCommand h @ WRITEDATA (mh_nMessageSize h) @ WRITEDATA (mh_nChecksum h)"

definition unser_CMessageHeader :: "'s rd \<Rightarrow> 's \<Rightarrow> (CMessageHeader \<times> 's) option" where
  "unser_CMessageHeader rd s =
     do { (st, s) \<leftarrow> rd s 4; (cmd, s) \<leftarrow> rd s COMMAND_SIZE; (n, s) \<leftarrow> READDATA rd s; (c, s) \<leftarrow> READDATA rd s;
          Some (\<lparr> mh_pchMessageStart = st, mh_pchCommand = cmd, mh_nMessageSize = n, mh_nChecksum = c \<rparr>, s) }"

definition Header_GetCommand :: "CMessageHeader \<Rightarrow> byte list" where
  "Header_GetCommand h =
     (if mh_pchCommand h ! (COMMAND_SIZE - 1) = 0 then takeWhile (\<lambda>b. b \<noteq> 0) (mh_pchCommand h) else take COMMAND_SIZE (mh_pchCommand h))"

fun command_ok :: "byte list \<Rightarrow> bool" where
  "command_ok [] = True"
| "command_ok (c # cs) =
     (if c = 0 then list_all (\<lambda>b. b = 0) (c # cs)
      else if c <s 0x20 \<or> 0x7E <s c then False
      else command_ok cs)"

definition Header_IsValid :: "CMessageHeader \<Rightarrow> bool" where
  "Header_IsValid h =
     (if mh_pchMessageStart h \<noteq> pchMessageStart then False
      else if \<not> command_ok (mh_pchCommand h) then False
      else if zext64 (mh_nMessageSize h) > MAX_SIZE then False
      else True)"

subsection \<open>Sending\<close>

definition MIN_PROTO_VERSION :: int where "MIN_PROTO_VERSION = 72400"

record send_state = \<comment> \<open>of a CNode\<close>
  vSend :: cds
  nHeaderStart :: u32 \<comment> \<open>int\<close>
  nMessageStart :: u32

definition send_init :: send_state where
  "send_init = \<lparr> vSend = ds_Init [] 1 MIN_PROTO_VERSION, nHeaderStart = - 1, nMessageStart = - 1 \<rparr>"

definition ds_put :: "byte list \<Rightarrow> cds \<Rightarrow> cds" where \<comment> \<open>operator<<, writing these bytes\<close>
  "ds_put bs s = s\<lparr>ds_vch := ds_vch s @ bs\<rparr>"

definition ds_overwrite :: "nat \<Rightarrow> byte list \<Rightarrow> cds \<Rightarrow> cds" where \<comment> \<open>memcpy to &s[i]\<close>
  "ds_overwrite i bs s =
     (let p = unat (ds_nReadPos s) + i in s\<lparr>ds_vch := take p (ds_vch s) @ bs @ drop (p + length bs) (ds_vch s)\<rparr>)"

definition AbortMessage :: "send_state \<Rightarrow> send_state" where
  "AbortMessage nd =
     (if nHeaderStart nd <s 0 then nd
      else nd\<lparr>vSend := ds_resize (vSend nd) (unat (nHeaderStart nd)) 0, nHeaderStart := - 1, nMessageStart := - 1\<rparr>)"

definition BeginMessage :: "byte list \<Rightarrow> send_state \<Rightarrow> send_state" where
  "BeginMessage pszCommand nd =
     (let nd = (if nHeaderStart nd \<noteq> - 1 then AbortMessage nd else nd);
          nd = nd\<lparr>nHeaderStart := word_of_nat (ds_size (vSend nd))\<rparr>;
          nd = nd\<lparr>vSend := ds_put (ser_CMessageHeader (MessageHeader_of pszCommand 0)) (vSend nd)\<rparr>
      in nd\<lparr>nMessageStart := word_of_nat (ds_size (vSend nd))\<rparr>)"

text \<open>The flag dropped is the verdict of -dropmessagestest. None is a failed assertion.\<close>

definition EndMessage :: "sha256 \<Rightarrow> bool \<Rightarrow> send_state \<Rightarrow> send_state option" where
  "EndMessage sha dropped nd =
     (if dropped then Some (AbortMessage nd)
      else if nHeaderStart nd <s 0 then Some nd
      else let nSize = word_of_nat (ds_size (vSend nd)) - nMessageStart nd;
               v = ds_overwrite (unat (nHeaderStart nd) + MESSAGE_SIZE_OFFSET) (WRITEDATA nSize) (vSend nd);
               hsh = Hash sha (drop (unat (nMessageStart nd)) (ds_rest v));
               nChecksum = hsh ! 0
           in if nMessageStart nd - nHeaderStart nd < word_of_nat (CHECKSUM_OFFSET + 4) then None
              else Some (nd\<lparr>vSend := ds_overwrite (unat (nHeaderStart nd) + CHECKSUM_OFFSET) (WRITEDATA nChecksum) v,
                            nHeaderStart := - 1, nMessageStart := - 1\<rparr>))"

definition EndMessageAbortIfEmpty :: "sha256 \<Rightarrow> bool \<Rightarrow> send_state \<Rightarrow> send_state option" where
  "EndMessageAbortIfEmpty sha dropped nd =
     (if nHeaderStart nd <s 0 then Some nd
      else let nSize = word_of_nat (ds_size (vSend nd)) - nMessageStart nd
           in if 0 <s nSize then EndMessage sha dropped nd else Some (AbortMessage nd))"

text \<open>The arguments in order, each its bytes and whether its serializer then throws.\<close>

fun put_args :: "(byte list \<times> bool) list \<Rightarrow> cds \<Rightarrow> bool \<times> cds" where
  "put_args [] v = (True, v)"
| "put_args ((bs, throws) # as) v = (if throws then (False, ds_put bs v) else put_args as (ds_put bs v))"

text \<open>The flag returned is false when the exception goes on.\<close>

definition PushMessage :: "sha256 \<Rightarrow> bool \<Rightarrow> byte list \<Rightarrow> (byte list \<times> bool) list \<Rightarrow> send_state \<Rightarrow> (bool \<times> send_state) option" where
  "PushMessage sha dropped pszCommand as nd =
     (let nd = BeginMessage pszCommand nd
      in case put_args as (vSend nd) of
           (True, v) \<Rightarrow> map_option (\<lambda>nd. (True, nd)) (EndMessage sha dropped (nd\<lparr>vSend := v\<rparr>))
         | (False, v) \<Rightarrow> Some (False, AbortMessage (nd\<lparr>vSend := v\<rparr>)))"

subsection \<open>The socket\<close>

text \<open>What send takes off vSend; what recv adds to vRecv, or None when the peer is disconnected for flooding.\<close>

definition socket_send :: "nat \<Rightarrow> cds \<Rightarrow> byte list \<times> cds" where
  "socket_send nBytes v =
     (if ds_empty v then ([], v)
      else if nBytes > 0 then (take nBytes (ds_rest v), ds_erase v (unat (ds_nReadPos v)) (unat (ds_nReadPos v) + nBytes))
      else ([], v))"

definition socket_recv :: "nat \<Rightarrow> byte list \<Rightarrow> cds \<Rightarrow> cds option" where
  "socket_recv ReceiveBufferSize pchBuf v =
     (let nPos = ds_size v
      in if nPos > ReceiveBufferSize then None
         else if pchBuf = [] then None
         else Some (ds_overwrite nPos pchBuf (ds_resize v (nPos + length pchBuf) 0)))"

subsection \<open>ProcessMessages\<close>

definition search :: "byte list \<Rightarrow> byte list \<Rightarrow> nat" where \<comment> \<open>std::search, as an offset\<close>
  "search xs ys = (case find (\<lambda>i. take (length ys) (drop i xs) = ys) [0..<length xs] of Some i \<Rightarrow> i | None \<Rightarrow> length xs)"

type_synonym 's handler = "byte list \<Rightarrow> cds \<Rightarrow> int \<times> 's \<Rightarrow> int \<times> 's"

text \<open>
  full: vSend is full; shut: the node shuts down; closed: the peer is disconnected. ProcessMessage may set the
  version of vRecv, and disconnect the peer, which clears vRecv.
\<close>

record 's node_env =
  full :: "'s \<Rightarrow> bool"
  shut :: "'s \<Rightarrow> bool"
  closed :: "'s \<Rightarrow> bool"
  ProcessMessage :: "'s handler"

definition handled :: "'s node_env \<Rightarrow> int \<Rightarrow> 's \<Rightarrow> cds \<Rightarrow> cds" where
  "handled N ver s v = (if closed N s then ds_clear v else v)\<lparr>ds_nVersion := ver\<rparr>"

text \<open>The first result is whether it returned inside the loop. No result: an exception, or the loop does not end.\<close>

partial_function (option) message_loop ::
  "sha256 \<Rightarrow> 's node_env \<Rightarrow> cds \<Rightarrow> 's \<Rightarrow> (bool \<times> cds \<times> 's) option" where
  "message_loop sha N vRecv s =
     (if full N s then Some (False, vRecv, s)
      else let begin = unat (ds_nReadPos vRecv);
               pstart = search (ds_rest vRecv) pchMessageStart;
               nHeaderSize = 24
      in if ds_size vRecv - pstart < nHeaderSize
         then Some (False, if word_of_nat nHeaderSize <s (word_of_nat (ds_size vRecv) :: u32)
                           then ds_erase vRecv begin (length (ds_vch vRecv) - nHeaderSize) else vRecv, s)
         else
           let vRecv = ds_erase vRecv begin (begin + pstart);
               vHeaderSave = take nHeaderSize (ds_rest vRecv)
           in do { (hdr, vRecv) \<leftarrow> unser_CMessageHeader ds_read vRecv;
                   if \<not> Header_IsValid hdr then message_loop sha N vRecv s
                   else let strCommand = Header_GetCommand hdr; nMessageSize = mh_nMessageSize hdr
                   in if zext64 nMessageSize > MAX_SIZE then message_loop sha N vRecv s
                   else if unat nMessageSize > ds_size vRecv
                   then Some (False, ds_insert vRecv (unat (ds_nReadPos vRecv)) vHeaderSave, s)
                   else let hsh = Hash sha (take (unat nMessageSize) (ds_rest vRecv)); nChecksum = hsh ! 0
                   in if nChecksum \<noteq> mh_nChecksum hdr then message_loop sha N vRecv s
                   else let vMsg = ds_Init (take (unat nMessageSize) (ds_rest vRecv)) (ds_nType vRecv) (ds_nVersion vRecv)
                   in do { vRecv \<leftarrow> ds_ignore vRecv (unat nMessageSize);
                           case ProcessMessage N strCommand vMsg (ds_nVersion vRecv, s) of
                             (ver, s) \<Rightarrow>
                               let vRecv = handled N ver s vRecv
                               in if shut N s then Some (True, vRecv, s)
                                  else message_loop sha N vRecv s } })"

definition ProcessMessages ::
  "sha256 \<Rightarrow> 's node_env \<Rightarrow> cds \<Rightarrow> 's \<Rightarrow> (cds \<times> 's) option" where
  "ProcessMessages sha N vRecv s =
     (if ds_empty vRecv then Some (vRecv, s)
      else do { (ret, vRecv, s) \<leftarrow> message_loop sha N vRecv s;
                Some (if ret then vRecv else ds_Compact vRecv, s) })"

subsection \<open>Messages and their frames\<close>

type_synonym message = "byte list \<times> byte list" \<comment> \<open>command and data\<close>

definition printable :: "byte list \<Rightarrow> bool" where
  "printable c \<longleftrightarrow> list_all (\<lambda>b. b \<noteq> 0 \<and> \<not> b <s 0x20 \<and> \<not> 0x7E <s b) c"

definition valid_message :: "message \<Rightarrow> bool" where
  "valid_message m \<longleftrightarrow> length (fst m) \<le> COMMAND_SIZE \<and> printable (fst m) \<and> length (snd m) \<le> unat MAX_SIZE"

definition header_of :: "sha256 \<Rightarrow> message \<Rightarrow> CMessageHeader" where
  "header_of sha m = \<lparr> mh_pchMessageStart = pchMessageStart, mh_pchCommand = strncpy (fst m) COMMAND_SIZE,
     mh_nMessageSize = word_of_nat (length (snd m)), mh_nChecksum = Hash sha (snd m) ! 0 \<rparr>"

definition frame :: "sha256 \<Rightarrow> message \<Rightarrow> byte list" where
  "frame sha m = ser_CMessageHeader (header_of sha m) @ snd m"

lemma length_strncpy [simp]: "length (strncpy s n) = n"
  by (simp add: strncpy_def Let_def)

lemma printable_takeWhile: "printable c \<Longrightarrow> takeWhile (\<lambda>b. b \<noteq> 0) (c @ replicate k 0) = c"
  by (induction c) (simp_all add: printable_def takeWhile_replicate)

lemma strncpy_printable:
  assumes "printable c" "length c \<le> n"
  shows "strncpy c n = c @ replicate (n - length c) 0"
proof -
  have "takeWhile (\<lambda>b. b \<noteq> 0) c = c" using printable_takeWhile [OF assms(1), of 0] by (simp only: replicate_0 append_Nil2)
  then show ?thesis using assms(2) by (simp only: strncpy_def Let_def) simp
qed

lemma command_ok_printable: "printable c \<Longrightarrow> command_ok (c @ replicate k 0)"
proof (induction c)
  case Nil
  show ?case by (cases k) (simp_all add: list_all_iff)
qed (simp add: printable_def)

lemma command_okE:
  assumes "command_ok cs"
  obtains c k where "cs = c @ replicate k 0" "printable c"
  using assms
proof (induction cs arbitrary: thesis)
  case Nil
  show ?case by (rule Nil.prems(1) [of "[]" 0]) (simp_all add: printable_def)
next
  case (Cons b bs)
  show ?case
  proof (cases "b = 0")
    case True
    then have "bs = replicate (length bs) 0" using Cons.prems(2) by (intro replicate_eqI) (auto simp: list_all_iff)
    then have "b # bs = [] @ replicate (Suc (length bs)) 0" using True by simp
    then show ?thesis by (rule Cons.prems(1)) (simp add: printable_def)
  next
    case False
    then have b: "\<not> b <s 0x20" "\<not> 0x7E <s b" "command_ok bs" using Cons.prems(2) by (auto split: if_splits)
    obtain c k where c: "bs = c @ replicate k 0" "printable c" using Cons.IH b(3) by blast
    then show ?thesis using False b by (intro Cons.prems(1) [of "b # c" k]) (simp_all add: printable_def)
  qed
qed

lemma length_ser_header: "length (mh_pchMessageStart h) = 4 \<Longrightarrow> length (mh_pchCommand h) = COMMAND_SIZE \<Longrightarrow> length (ser_CMessageHeader h) = 24"
  by (simp add: ser_CMessageHeader_def COMMAND_SIZE_def WRITEDATA_def)

lemma length_header_of [simp]: "length (ser_CMessageHeader (header_of sha m)) = 24"
  by (rule length_ser_header) (simp_all add: header_of_def pchMessageStart_def)

lemma header_of_valid:
  assumes "valid_message m"
  shows "Header_IsValid (header_of sha m)" "Header_GetCommand (header_of sha m) = fst m"
    "unat (mh_nMessageSize (header_of sha m)) = length (snd m)" "\<not> zext64 (mh_nMessageSize (header_of sha m)) > MAX_SIZE"
proof -
  let ?h = "header_of sha m" and ?k = "COMMAND_SIZE - length (fst m)"
  have c: "mh_pchCommand ?h = fst m @ replicate ?k 0" "length (fst m) \<le> COMMAND_SIZE" "printable (fst m)"
    using assms by (simp_all add: valid_message_def header_of_def strncpy_printable)
  have n: "length (snd m) \<le> 0x02000000" using assms by (simp add: valid_message_def MAX_SIZE_def)
  then show u: "unat (mh_nMessageSize ?h) = length (snd m)" by (simp add: header_of_def unat_of_nat)
  have "unat (zext64 (mh_nMessageSize ?h)) = length (snd m)" using u by (simp add: unat_zext64)
  then show s: "\<not> zext64 (mh_nMessageSize ?h) > MAX_SIZE" using n by (simp add: word_less_nat_alt MAX_SIZE_def)
  show "Header_IsValid ?h" using s c command_ok_printable [of "fst m" ?k] by (simp add: Header_IsValid_def header_of_def)
  show "Header_GetCommand ?h = fst m"
  proof (cases "length (fst m) = COMMAND_SIZE")
    case True
    then have "fst m ! (COMMAND_SIZE - 1) \<noteq> 0" using c(3) by (auto simp: printable_def list_all_length COMMAND_SIZE_def)
    with True show ?thesis using c(1) by (simp add: Header_GetCommand_def)
  next
    case False
    then have "mh_pchCommand ?h ! (COMMAND_SIZE - 1) = 0"
      using c(1,2) False by (auto simp: nth_append COMMAND_SIZE_def)
    then show ?thesis using c printable_takeWhile [OF c(3), of ?k] by (simp add: Header_GetCommand_def)
  qed
qed

lemma valid_header:
  assumes "Header_IsValid h" "length (mh_pchCommand h) = COMMAND_SIZE" "length d = unat (mh_nMessageSize h)" "mh_nChecksum h = Hash sha d ! 0"
  shows "valid_message (Header_GetCommand h, d)" "header_of sha (Header_GetCommand h, d) = h"
proof -
  from assms(1) have v: "mh_pchMessageStart h = pchMessageStart" "command_ok (mh_pchCommand h)" "\<not> zext64 (mh_nMessageSize h) > MAX_SIZE"
    by (auto simp: Header_IsValid_def split: if_splits)
  obtain c k where c: "mh_pchCommand h = c @ replicate k 0" "printable c" using v(2) by (rule command_okE)
  have g: "Header_GetCommand h = c"
  proof (cases k)
    case 0
    then have "c ! (COMMAND_SIZE - 1) \<noteq> 0" using c assms(2) by (auto simp: printable_def list_all_length COMMAND_SIZE_def)
    then show ?thesis using 0 c assms(2) by (simp add: Header_GetCommand_def)
  next
    case (Suc j)
    then have "mh_pchCommand h ! (COMMAND_SIZE - 1) = 0" using c assms(2) by (auto simp: nth_append COMMAND_SIZE_def simp del: replicate_Suc)
    then show ?thesis using c printable_takeWhile [OF c(2), of k] by (simp add: Header_GetCommand_def)
  qed
  have l: "length c \<le> COMMAND_SIZE" "k = COMMAND_SIZE - length c" using c(1) assms(2) by simp_all
  have "length d \<le> unat MAX_SIZE" using v(3) assms(3) by (simp add: word_less_nat_alt unat_zext64 not_less)
  then show "valid_message (Header_GetCommand h, d)" using g l c(2) by (simp add: valid_message_def)
  have "strncpy c COMMAND_SIZE = mh_pchCommand h" using strncpy_printable [OF c(2) l(1)] c(1) l(2) by simp
  then show "header_of sha (Header_GetCommand h, d) = h" using v(1) g assms(3,4) by (simp add: header_of_def)
qed


subsection \<open>Steps on the stream\<close>

text \<open>The part of the invariant of a stream that a step keeps, and what it leaves to read.\<close>

definition stream :: "cds \<Rightarrow> cds \<Rightarrow> byte list \<Rightarrow> bool" where \<comment> \<open>v' continues v and holds bs\<close>
  "stream v v' bs \<longleftrightarrow> ds_inv v' \<and> ds_rest v' = bs \<and> ds_nType v' = ds_nType v \<and> ds_nVersion v' = ds_nVersion v \<and>
     length (ds_vch v') \<le> length (ds_vch v)"

lemma stream_refl: "ds_inv v \<Longrightarrow> stream v v (ds_rest v)"
  by (simp add: stream_def)

lemma stream_trans: "stream v v1 b1 \<Longrightarrow> stream v1 v2 b2 \<Longrightarrow> stream v v2 b2"
  by (simp add: stream_def)

lemma ds_read_stream:
  assumes "ds_inv v" "n \<le> length (ds_rest v)"
  obtains v' where "ds_read v n = Some (take n (ds_rest v), v')" "stream v v' (drop n (ds_rest v))"
proof -
  obtain v' where v': "ds_read v n = Some (take n (ds_rest v), v')" "ds_inv v'" "ds_rest v' = drop n (ds_rest v)"
    "ds_nType v' = ds_nType v" "ds_nVersion v' = ds_nVersion v" using ds_read_ok [OF assms] by blast
  have "ds_state v = 0" using assms(1) by (simp add: ds_inv_def)
  then have "length (ds_vch v') \<le> length (ds_vch v)"
    using v'(1) by (auto simp: ds_read_def ds_setstate_def Let_def split: if_splits Option.bind_splits)
  then show thesis using that v' by (simp add: stream_def)
qed

lemma erase_front_stream:
  assumes "ds_inv v" "n \<le> length (ds_rest v)"
  shows "stream v (ds_erase v (unat (ds_nReadPos v)) (unat (ds_nReadPos v) + n)) (drop n (ds_rest v))"
proof -
  have n: "unat (ds_nReadPos v) + n \<le> length (ds_vch v)" "length (ds_vch v) < 2 ^ 31"
    using assms unfolding ds_inv_def ds_rest_def length_drop by linarith+
  then have "unat (ds_nReadPos v) + n < 2 ^ 32" by simp
  then have "unat (word_of_nat (unat (ds_nReadPos v) + n) :: u32) = unat (ds_nReadPos v) + n" by (simp only: unat_of_nat) simp
  moreover have "ds_rest (ds_erase v (unat (ds_nReadPos v)) (unat (ds_nReadPos v) + n)) = drop n (ds_rest v)"
    using ds_rest_erase [OF assms(1), of "unat (ds_nReadPos v)" "unat (ds_nReadPos v) + n"] n(1) by simp
  ultimately show ?thesis using n assms(1) by (auto simp: stream_def ds_erase_def ds_inv_def)
qed

lemma ignore_stream:
  assumes "ds_inv v" "n \<le> length (ds_rest v)"
  obtains v' where "ds_ignore v n = Some v'" "stream v v' (drop n (ds_rest v))"
proof -
  have n: "unat (ds_nReadPos v) + n \<le> length (ds_vch v)" "length (ds_vch v) < 2 ^ 31"
    using assms unfolding ds_inv_def ds_rest_def length_drop by linarith+
  then have "unat (ds_nReadPos v) + n < 2 ^ 32" by simp
  then have p: "unat (ds_nReadPos v + word_of_nat n) = unat (ds_nReadPos v) + n" by (rule unat_plus_of_nat32)
  show thesis
  proof (cases "unat (ds_nReadPos v) + n = length (ds_vch v)")
    case True
    show thesis by (rule that [of "v\<lparr>ds_nReadPos := 0, ds_vch := []\<rparr>"])
        (use n p True assms(1) in \<open>simp_all add: ds_ignore_def Let_def stream_def ds_inv_def ds_rest_def\<close>)
  next
    case False
    show thesis by (rule that [of "v\<lparr>ds_nReadPos := ds_nReadPos v + word_of_nat n\<rparr>"])
        (use n p False assms(1) in \<open>simp_all add: ds_ignore_def Let_def stream_def ds_inv_def ds_rest_def add.commute\<close>)
  qed
qed

text \<open>Reading the header; putting it back.\<close>

lemma unser_header_stream:
  assumes "ds_inv v" "24 \<le> length (ds_rest v)"
  obtains h v' where "unser_CMessageHeader ds_read v = Some (h, v')" "stream v v' (drop 24 (ds_rest v))"
    "ser_CMessageHeader h = take 24 (ds_rest v)" "length (mh_pchCommand h) = COMMAND_SIZE" "length (mh_pchMessageStart h) = 4"
proof -
  let ?r = "ds_rest v"
  have rd: "\<exists>v'. ds_read v1 n = Some (take n (drop i ?r), v') \<and> stream v v' (drop (i + n) ?r)"
    if "stream v v1 (drop i ?r)" "i + n \<le> 24" for v1 i n
  proof -
    have "ds_inv v1" "ds_rest v1 = drop i ?r" using that(1) by (simp_all add: stream_def)
    moreover have "n \<le> length (ds_rest v1)" using that(2) assms(2) \<open>ds_rest v1 = drop i ?r\<close> by simp
    ultimately obtain v' where "ds_read v1 n = Some (take n (drop i ?r), v')" "stream v1 v' (drop n (drop i ?r))"
      using ds_read_stream [of v1 n] by metis
    then show ?thesis using stream_trans [OF that(1)] by (simp add: add.commute)
  qed
  obtain v1 where v1: "ds_read v 4 = Some (take 4 ?r, v1)" "stream v v1 (drop 4 ?r)"
    using rd [of v 0 4] stream_refl [OF assms(1)] by auto
  obtain v2 where v2: "ds_read v1 12 = Some (take 12 (drop 4 ?r), v2)" "stream v v2 (drop 16 ?r)"
    using rd [OF v1(2), of 12] by auto
  obtain v3 where v3: "ds_read v2 4 = Some (take 4 (drop 16 ?r), v3)" "stream v v3 (drop 20 ?r)"
    using rd [OF v2(2), of 4] by auto
  obtain v4 where v4: "ds_read v3 4 = Some (take 4 (drop 20 ?r), v4)" "stream v v4 (drop 24 ?r)"
    using rd [OF v3(2), of 4] by auto
  have W: "WRITEDATA (word_of_nat (wval (take 4 (drop i ?r))) :: u32) = take 4 (drop i ?r)" if "i \<le> 20" for i
  proof -
    have l: "length (take 4 (drop i ?r)) = 4" using that assms(2) by simp
    have "wval (take 4 (drop i ?r)) < 2 ^ 32" using wval_bound [of "take 4 (drop i ?r)"] l by simp
    then have "unat (word_of_nat (wval (take 4 (drop i ?r))) :: u32) = wval (take 4 (drop i ?r))" by (simp add: unat_of_nat)
    then show ?thesis using words_of_wval [of "take 4 (drop i ?r)"] l by (simp add: WRITEDATA_def)
  qed
  let ?h = "\<lparr> mh_pchMessageStart = take 4 ?r, mh_pchCommand = take 12 (drop 4 ?r),
     mh_nMessageSize = word_of_nat (wval (take 4 (drop 16 ?r))), mh_nChecksum = word_of_nat (wval (take 4 (drop 20 ?r))) \<rparr>"
  have "take 4 ?r @ take 12 (drop 4 ?r) @ take 4 (drop 16 ?r) @ take 4 (drop 20 ?r) = take 24 ?r"
    using take_add [of 4 20 ?r] take_add [of 12 8 "drop 4 ?r"] take_add [of 4 4 "drop 16 ?r"] by simp
  moreover have "unser_CMessageHeader ds_read v = Some (?h, v4)"
    using v1(1) v2(1) v3(1) v4(1) by (simp add: unser_CMessageHeader_def READDATA_def COMMAND_SIZE_def)
  ultimately show thesis using that [of ?h v4] v4(2) assms(2) W [of 16] W [of 20]
    by (simp add: ser_CMessageHeader_def COMMAND_SIZE_def)
qed

lemma insert_front_stream:
  assumes "ds_inv v" "length (ds_vch v) + length xs < 2 ^ 31"
  shows "ds_inv (ds_insert v (unat (ds_nReadPos v)) xs)" "ds_rest (ds_insert v (unat (ds_nReadPos v)) xs) = xs @ ds_rest v"
    "ds_nType (ds_insert v (unat (ds_nReadPos v)) xs) = ds_nType v" "ds_nVersion (ds_insert v (unat (ds_nReadPos v)) xs) = ds_nVersion v"
proof -
  have p: "unat (ds_nReadPos v) \<le> length (ds_vch v)" using assms(1) by (simp add: ds_inv_def)
  show "ds_rest (ds_insert v (unat (ds_nReadPos v)) xs) = xs @ ds_rest v"
    using ds_rest_insert [OF assms(1) order_refl p, of xs] assms(2) by simp
  have u: "unat (word_of_nat (length xs) :: u32) = length xs" using assms(2) by (simp add: unat_of_nat)
  have "unat (ds_nReadPos v - word_of_nat (length xs)) + length xs = unat (ds_nReadPos v)" if "word_of_nat (length xs) \<le> ds_nReadPos v"
    using that u by (simp add: unat_sub word_le_nat_alt)
  then show "ds_inv (ds_insert v (unat (ds_nReadPos v)) xs)"
    using assms p by (auto simp: ds_inv_def ds_insert_def Let_def)
qed (simp_all add: ds_insert_def Let_def)

lemma search_le: "search xs ys \<le> length xs"
  by (auto simp: search_def find_Some_iff split: option.split)

lemma search_found:
  assumes "search xs ys < length xs"
  shows "take (length ys) (drop (search xs ys) xs) = ys"
proof (cases "find (\<lambda>i. take (length ys) (drop i xs) = ys) [0..<length xs]")
  case None
  then show ?thesis using assms by (simp add: search_def)
next
  case (Some i)
  then show ?thesis by (simp add: search_def) (auto simp: find_Some_iff)
qed

lemma search_here: "ys \<noteq> [] \<Longrightarrow> search (ys @ r) ys = 0"
  by (cases ys) (simp_all add: search_def upt_rec)

subsection \<open>One round of the loop\<close>

lemma WRITEDATA_inj:
  assumes "WRITEDATA (x :: u32) = WRITEDATA y"
  shows "x = y"
proof -
  have "wval (WRITEDATA z) = unat z" for z :: u32
    using unat_lt_2p [of z] by (simp add: WRITEDATA_def wval_words_of)
  then show ?thesis using assms by (metis word_unat_eq_iff)
qed

lemma ser_header_inj:
  assumes "ser_CMessageHeader h = ser_CMessageHeader k" "length (mh_pchMessageStart h) = 4" "length (mh_pchMessageStart k) = 4"
    "length (mh_pchCommand h) = COMMAND_SIZE" "length (mh_pchCommand k) = COMMAND_SIZE"
  shows "h = k"
  using assms WRITEDATA_inj [of "mh_nMessageSize h" "mh_nMessageSize k"] WRITEDATA_inj [of "mh_nChecksum h" "mh_nChecksum k"]
  by (cases h, cases k) (simp add: ser_CMessageHeader_def WRITEDATA_def)

lemma frame_start: "frame sha m = pchMessageStart @ drop 4 (frame sha m)" "24 \<le> length (frame sha m)"
  by (simp_all add: frame_def ser_CMessageHeader_def header_of_def pchMessageStart_def WRITEDATA_def COMMAND_SIZE_def)

lemma frame_prefix_header:
  assumes "prefix r (frame sha m) \<or> prefix (frame sha m) r" "24 \<le> length r" "ser_CMessageHeader h = take 24 r"
    "length (mh_pchMessageStart h) = 4" "length (mh_pchCommand h) = COMMAND_SIZE"
  shows "h = header_of sha m"
proof (rule ser_header_inj)
  have "take 24 r = take 24 (frame sha m)" using assms(1,2) frame_start(2) [of sha m] by (auto simp: prefix_def)
  then show "ser_CMessageHeader h = ser_CMessageHeader (header_of sha m)" using assms(3) by (simp add: frame_def)
qed (use assms in \<open>simp_all add: header_of_def pchMessageStart_def\<close>)

lemma loop_full: "full N s \<Longrightarrow> message_loop sha N v s = Some (False, v, s)"
  by (subst message_loop.simps) simp

lemma loop_short:
  assumes "ds_inv v" "\<not> full N s" "length (ds_rest v) - search (ds_rest v) pchMessageStart < 24"
  obtains v' where "message_loop sha N v s = Some (False, v', s)" "stream v v' (drop (length (ds_rest v) - 24) (ds_rest v))"
proof -
  let ?n = "length (ds_rest v)"
  have n: "length (ds_vch v) = unat (ds_nReadPos v) + ?n" "?n < 2 ^ 31" using assms(1) by (auto simp: ds_inv_def ds_rest_def)
  have c: "word_of_nat 24 <s (word_of_nat ?n :: u32) \<longleftrightarrow> 24 < ?n"
  proof -
    have "sint (word_of_nat ?n :: u32) = int ?n" using n(2) by (simp add: signed_of_nat signed_take_bit_int_eq_self)
    then show ?thesis by (simp add: word_sless_alt)
  qed
  have e: "length (ds_vch v) - 24 = unat (ds_nReadPos v) + (?n - 24)" if "24 < ?n" using that n(1) by simp
  show thesis
    by (rule that, subst message_loop.simps, use assms in \<open>simp add: ds_size_rest Let_def\<close>)
      (use e c erase_front_stream [OF assms(1), of "?n - 24"] stream_refl [OF assms(1)] in \<open>auto split: if_splits\<close>)
qed

lemma loop_header:
  assumes "ds_inv v" "\<not> full N s" and i: "24 \<le> length (ds_rest v) - search (ds_rest v) pchMessageStart"
    and r: "r = drop (search (ds_rest v) pchMessageStart) (ds_rest v)"
  obtains h v1 where "stream v v1 (drop 24 r)" "ser_CMessageHeader h = take 24 r"
    "length (mh_pchMessageStart h) = 4" "length (mh_pchCommand h) = COMMAND_SIZE"
    "message_loop sha N v s =
      (if \<not> Header_IsValid h then message_loop sha N v1 s
       else if unat (mh_nMessageSize h) > ds_size v1 then Some (False, ds_insert v1 (unat (ds_nReadPos v1)) (take 24 r), s)
       else if Hash sha (take (unat (mh_nMessageSize h)) (ds_rest v1)) ! 0 \<noteq> mh_nChecksum h then message_loop sha N v1 s
       else do { v2 \<leftarrow> ds_ignore v1 (unat (mh_nMessageSize h));
                 case ProcessMessage N (Header_GetCommand h) (ds_Init (take (unat (mh_nMessageSize h)) (ds_rest v1)) (ds_nType v1) (ds_nVersion v1))
                     (ds_nVersion v2, s) of
                   (ver, s) \<Rightarrow> if shut N s then Some (True, handled N ver s v2, s) else message_loop sha N (handled N ver s v2) s })"
proof -
  let ?i = "search (ds_rest v) pchMessageStart"
  let ?v = "ds_erase v (unat (ds_nReadPos v)) (unat (ds_nReadPos v) + ?i)"
  have v: "stream v ?v r" using erase_front_stream [OF assms(1) search_le] r by simp
  then have "ds_inv ?v" "ds_rest ?v = r" by (simp_all add: stream_def)
  moreover have "24 \<le> length r" using i r by simp
  ultimately obtain h v1 where h: "unser_CMessageHeader ds_read ?v = Some (h, v1)" "stream ?v v1 (drop 24 r)"
    "ser_CMessageHeader h = take 24 r" "length (mh_pchCommand h) = COMMAND_SIZE" "length (mh_pchMessageStart h) = 4"
    using unser_header_stream [of ?v] by metis
  have "Header_IsValid h \<Longrightarrow> \<not> zext64 (mh_nMessageSize h) > MAX_SIZE" by (auto simp: Header_IsValid_def split: if_splits)
  then show thesis
    by (intro that [of v1 h] stream_trans [OF v h(2)] h, subst message_loop.simps)
      (use assms(2) i h(1) \<open>ds_rest ?v = r\<close> in \<open>simp add: ds_size_rest Let_def cong: if_cong\<close>)
qed

text \<open>
  A round stops short of a header, skips bytes that do not start a frame, waits for the rest of a
  frame, or delivers a message.
\<close>

definition deliver :: "'s node_env \<Rightarrow> int \<Rightarrow> message \<Rightarrow> int \<times> 's \<Rightarrow> int \<times> 's" where
  "deliver N nType m vs = ProcessMessage N (fst m) (ds_Init (snd m) nType (fst vs)) vs"

lemma frame_of_header:
  assumes "ser_CMessageHeader h = take 24 r" "length (mh_pchCommand h) = COMMAND_SIZE"
    "Header_IsValid h" "unat (mh_nMessageSize h) \<le> length (drop 24 r)"
    "Hash sha (take (unat (mh_nMessageSize h)) (drop 24 r)) ! 0 = mh_nChecksum h"
  shows "valid_message (Header_GetCommand h, take (unat (mh_nMessageSize h)) (drop 24 r))"
    "r = frame sha (Header_GetCommand h, take (unat (mh_nMessageSize h)) (drop 24 r)) @ drop (unat (mh_nMessageSize h)) (drop 24 r)"
proof -
  let ?n = "unat (mh_nMessageSize h)"
  have l: "length (take ?n (drop 24 r)) = ?n" using assms(4) by simp
  note v = valid_header [OF assms(3,2) l assms(5) [symmetric]]
  show "valid_message (Header_GetCommand h, take ?n (drop 24 r))" by (rule v(1))
  have "frame sha (Header_GetCommand h, take ?n (drop 24 r)) = take 24 r @ take ?n (drop 24 r)"
    using v(2) assms(1) by (simp only: frame_def snd_conv)
  then show "r = frame sha (Header_GetCommand h, take ?n (drop 24 r)) @ drop ?n (drop 24 r)"
    by (simp only: append_assoc append_take_drop_id)
qed

lemma frame_size:
  assumes h: "24 \<le> length r" "ser_CMessageHeader h = take 24 r" "length (mh_pchMessageStart h) = 4" "length (mh_pchCommand h) = COMMAND_SIZE"
    and "valid_message m" "prefix r (frame sha m) \<or> prefix (frame sha m) r"
  shows "length (snd m) = unat (mh_nMessageSize h)"
  using header_of_valid(3) [OF assms(5), of sha] frame_prefix_header [OF assms(6) h] by simp

lemma incomplete_frame:
  assumes h: "24 \<le> length r" "ser_CMessageHeader h = take 24 r" "length (mh_pchMessageStart h) = 4" "length (mh_pchCommand h) = COMMAND_SIZE"
    and n: "unat (mh_nMessageSize h) > length (drop 24 r)" and m: "valid_message m"
  shows "\<not> prefix (frame sha m) r"
proof
  assume p: "prefix (frame sha m) r"
  then have "length (frame sha m) \<le> length r" by (rule prefix_length_le)
  then show False using frame_size [OF h m disjI2 [OF p]] n h(1) by (simp add: frame_def)
qed

lemma checksum_mismatch:
  assumes h: "24 \<le> length r" "ser_CMessageHeader h = take 24 r" "length (mh_pchMessageStart h) = 4" "length (mh_pchCommand h) = COMMAND_SIZE"
    and n: "unat (mh_nMessageSize h) \<le> length (drop 24 r)" "Hash sha (take (unat (mh_nMessageSize h)) (drop 24 r)) ! 0 \<noteq> mh_nChecksum h"
    and m: "valid_message m"
  shows "\<not> prefix r (frame sha m)" "\<not> prefix (frame sha m) r"
proof -
  have False if pr: "prefix r (frame sha m) \<or> prefix (frame sha m) r"
  proof -
    note l = frame_size [OF h m pr]
    then have "length (frame sha m) \<le> length r" using n(1) h(1) by (simp add: frame_def)
    then have "prefix (frame sha m) r" using pr prefix_length_prefix by blast
    then have "take (unat (mh_nMessageSize h)) (drop 24 r) = snd m" using l by (auto simp: prefix_def frame_def)
    then show False using n(2) frame_prefix_header [OF pr h] by (simp add: header_of_def)
  qed
  then show "\<not> prefix r (frame sha m)" "\<not> prefix (frame sha m) r" by blast+
qed

lemma loop_step:
  fixes v and s :: 's
  assumes "ds_inv v" "\<not> full N s" "length (ds_vch v) + 24 < 2 ^ 31"
    and r: "r = drop (search (ds_rest v) pchMessageStart) (ds_rest v)"
  obtains (short) v' where "length r < 24" "message_loop sha N v s = Some (False, v', s)"
      "stream v v' (drop (length (ds_rest v) - 24) (ds_rest v))"
  | (skip) v1 where "24 \<le> length r" "message_loop sha N v s = message_loop sha N v1 s" "stream v v1 (drop 24 r)"
      "\<forall>m. valid_message m \<longrightarrow> \<not> prefix r (frame sha m) \<and> \<not> prefix (frame sha m) r"
  | (wait) v' where "24 \<le> length r" "message_loop sha N v s = Some (False, v', s)" "ds_inv v'" "ds_rest v' = r"
      "ds_nType v' = ds_nType v" "ds_nVersion v' = ds_nVersion v"
      "\<forall>m. valid_message m \<longrightarrow> \<not> prefix (frame sha m) r"
  | (deliver) m v1 where "valid_message m" "r = frame sha m @ ds_rest v1" "stream v v1 (ds_rest v1)"
      "message_loop sha N v s =
         (case deliver N (ds_nType v) m (ds_nVersion v, s) of
            (ver, s) \<Rightarrow> if shut N s then Some (True, handled N ver s v1, s) else message_loop sha N (handled N ver s v1) s)"
proof (cases "length (ds_rest v) - search (ds_rest v) pchMessageStart < 24")
  case True
  show thesis by (rule loop_short [where N = N and s = s, OF assms(1,2) True, of sha]) (use True r in \<open>intro short; simp\<close>)
next
  case False
  then have i: "24 \<le> length (ds_rest v) - search (ds_rest v) pchMessageStart" and lr: "24 \<le> length r" using r by simp_all
  obtain h v1 where v1: "stream v v1 (drop 24 r)" and ser: "ser_CMessageHeader h = take 24 r"
    and lh: "length (mh_pchMessageStart h) = 4" "length (mh_pchCommand h) = COMMAND_SIZE" and
    L: "message_loop sha N v s =
      (if \<not> Header_IsValid h then message_loop sha N v1 s
       else if unat (mh_nMessageSize h) > ds_size v1 then Some (False, ds_insert v1 (unat (ds_nReadPos v1)) (take 24 r), s)
       else if Hash sha (take (unat (mh_nMessageSize h)) (ds_rest v1)) ! 0 \<noteq> mh_nChecksum h then message_loop sha N v1 s
       else do { v2 \<leftarrow> ds_ignore v1 (unat (mh_nMessageSize h));
                 case ProcessMessage N (Header_GetCommand h) (ds_Init (take (unat (mh_nMessageSize h)) (ds_rest v1)) (ds_nType v1) (ds_nVersion v1))
                     (ds_nVersion v2, s) of
                   (ver, s) \<Rightarrow> if shut N s then Some (True, handled N ver s v2, s) else message_loop sha N (handled N ver s v2) s })"
    by (rule loop_header [where N = N and s = s, OF assms(1,2) i r, of sha])
  have v1r: "ds_rest v1 = drop 24 r" "ds_inv v1" "ds_nType v1 = ds_nType v" "ds_nVersion v1 = ds_nVersion v" "length (ds_vch v1) \<le> length (ds_vch v)"
    using v1 by (simp_all add: stream_def)
  let ?n = "unat (mh_nMessageSize h)"
  consider "\<not> Header_IsValid h" | "Header_IsValid h" "?n > length (drop 24 r)"
    | "Header_IsValid h" "?n \<le> length (drop 24 r)" "Hash sha (take ?n (drop 24 r)) ! 0 \<noteq> mh_nChecksum h"
    | "Header_IsValid h" "?n \<le> length (drop 24 r)" "Hash sha (take ?n (drop 24 r)) ! 0 = mh_nChecksum h" by linarith
  then show thesis
  proof cases
    case 1
    show thesis
      by (rule skip [OF lr _ v1]) (use L 1 frame_prefix_header [OF _ lr ser lh, of sha] header_of_valid(1) [of _ sha] in \<open>simp, blast\<close>)
  next
    case 2
    have *: "length (ds_vch v1) + length (take 24 r) < 2 ^ 31" using assms(3) v1r(5) lr by simp
    note ins = insert_front_stream [OF v1r(2) *]
    show thesis
    proof (rule wait [OF lr])
      show "message_loop sha N v s = Some (False, ds_insert v1 (unat (ds_nReadPos v1)) (take 24 r), s)"
        using L 2 v1r(1) by (simp add: ds_size_rest)
      show "\<forall>m. valid_message m \<longrightarrow> \<not> prefix (frame sha m) r" using incomplete_frame [OF lr ser lh 2(2)] by blast
    qed (use ins v1r in simp_all)
  next
    case 3
    show thesis
      by (rule skip [OF lr _ v1]) (use L 3 v1r(1) checksum_mismatch [OF lr ser lh] in \<open>auto simp: ds_size_rest\<close>)
  next
    case 4
    have n: "?n \<le> length (ds_rest v1)" using 4(2) v1r(1) by simp
    obtain v2 where v2: "ds_ignore v1 ?n = Some v2" "stream v1 v2 (drop ?n (drop 24 r))"
      using ignore_stream [OF v1r(2) n] v1r(1) by metis
    have v2r: "ds_rest v2 = drop ?n (drop 24 r)" "ds_nVersion v2 = ds_nVersion v" using v2(2) v1r by (simp_all add: stream_def)
    note fr = frame_of_header [OF ser lh(2) 4]
    show thesis
    proof (rule deliver [OF fr(1)])
      show "r = frame sha (Header_GetCommand h, take ?n (drop 24 r)) @ ds_rest v2" using fr(2) v2r(1) by simp
      show "stream v v2 (ds_rest v2)" using stream_trans [OF v1 v2(2)] v2r(1) by simp
    qed (use L 4 n v1r v2(1) v2r in \<open>simp add: ds_size_rest deliver_def\<close>)
  qed
qed

subsection \<open>Any bytes\<close>

text \<open>The frames of the messages occur in the bytes, in order and disjoint; the last bytes are left.\<close>

inductive received :: "sha256 \<Rightarrow> byte list \<Rightarrow> message list \<Rightarrow> byte list \<Rightarrow> bool" for sha where
  rest: "received sha (skipped @ r) [] r"
| next_frame: "valid_message m \<Longrightarrow> received sha bs ms r \<Longrightarrow> received sha (skipped @ frame sha m @ bs) (m # ms) r"

lemma received_skip: "received sha bs ms r \<Longrightarrow> received sha (g @ bs) ms r"
proof (induction rule: received.induct)
  case (rest skipped r)
  then show ?case using received.rest [of sha "g @ skipped" r] by simp
next
  case (next_frame m bs ms r skipped)
  then show ?case using received.next_frame [of m sha bs ms r "g @ skipped"] by simp
qed

lemma received_drop: "received sha (drop n bs) ms r \<Longrightarrow> received sha bs ms r"
  using received_skip [of sha "drop n bs" ms r "take n bs"] by simp

lemma received_end: "received sha bs [] (drop n bs)"
  using received.rest [of sha "take n bs" "drop n bs"] by simp

lemma stream_handled:
  assumes "stream v v' bs"
  shows "ds_inv (handled N ver s v')" "ds_rest (handled N ver s v') = (if closed N s then [] else bs)"
    "length (ds_vch (handled N ver s v')) \<le> length (ds_vch v)" "ds_nType (handled N ver s v') = ds_nType v"
    "ds_nVersion (handled N ver s v') = ver"
  using assms by (auto simp: handled_def stream_def ds_inv_def ds_rest_def ds_clear_def)

lemma loop_empty:
  assumes "ds_inv v" "ds_rest v = []"
  obtains v' where "message_loop sha N v s = Some (False, v', s)" "ds_inv v'" "ds_rest v' = []"
    "ds_nType v' = ds_nType v" "ds_nVersion v' = ds_nVersion v"
proof (cases "full N s")
  case True
  then show thesis using that loop_full [of N s sha v] assms by blast
next
  case False
  obtain v' where "message_loop sha N v s = Some (False, v', s)" "stream v v' (drop (length (ds_rest v) - 24) (ds_rest v))"
    by (rule loop_short [where N = N and s = s, OF assms(1) False, of sha]) (simp_all add: assms(2))
  then show thesis using that assms(2) by (simp add: stream_def)
qed

lemma loop_received:
  assumes "ds_inv v" "length (ds_vch v) + 24 < 2 ^ 31"
  shows "\<exists>ret v' s' ms. message_loop sha N v s = Some (ret, v', s') \<and> ds_inv v' \<and> ds_nType v' = ds_nType v \<and>
    received sha (ds_rest v) ms (ds_rest v') \<and> (ds_nVersion v', s') = fold (deliver N (ds_nType v)) ms (ds_nVersion v, s)"
  using assms
proof (induction "length (ds_rest v)" arbitrary: v s rule: less_induct)
  case less
  note inv = less.prems
  let ?r = "drop (search (ds_rest v) pchMessageStart) (ds_rest v)"
  show ?case
  proof (cases "full N s")
    case True
    then show ?thesis using loop_full [of N s sha v] inv(1) received_end [of sha "ds_rest v" 0] by fastforce
  next
    case False
    show ?thesis
    proof (rule loop_step [where sha = sha and N = N and s = s, OF inv(1) False inv(2) refl], goal_cases)
      case short: (1 v')
      then show ?thesis using received_end [of sha "ds_rest v" "length (ds_rest v) - 24"]
        by (intro exI [of _ False] exI [of _ v'] exI [of _ s] exI [of _ "[]"]) (simp add: stream_def)
    next
      case skip: (2 v1)
      have v1: "ds_inv v1" "length (ds_vch v1) + 24 < 2 ^ 31" "ds_rest v1 = drop 24 ?r" "ds_nType v1 = ds_nType v" "ds_nVersion v1 = ds_nVersion v"
        using skip(3) inv(2) by (auto simp: stream_def)
      have "length (ds_rest v1) < length (ds_rest v)" using skip(1) v1(3) by simp
      from less.hyps [OF this v1(1,2), of s] show ?thesis
        unfolding skip(2) v1(3,4,5) by (elim exE conjE) (intro exI conjI; (assumption | rule received_drop received_drop [OF received_drop]); assumption)
    next
      case wait: (3 v')
      then show ?thesis using received_end [of sha "ds_rest v" "search (ds_rest v) pchMessageStart"]
        by (intro exI [of _ False] exI [of _ v'] exI [of _ s] exI [of _ "[]"]) simp
    next
      case deliver: (4 m v1)
      obtain ver s1 where d: "deliver N (ds_nType v) m (ds_nVersion v, s) = (ver, s1)" by fastforce
      let ?v1 = "handled N ver s1 v1"
      note v1 = stream_handled [OF deliver(3), of N ver s1]
      have len: "length (ds_rest ?v1) < length (ds_rest v)"
      proof -
        have "length (frame sha m) + length (ds_rest v1) = length ?r" using deliver(2) by (metis length_append)
        moreover have "length ?r \<le> length (ds_rest v)" by simp
        moreover have "length (ds_rest ?v1) \<le> length (ds_rest v1)" using v1(2) by simp
        ultimately show ?thesis using frame_start(2) [of sha m] by linarith
      qed
      have rec: "received sha (ds_rest v) (m # ms) r" if "received sha (ds_rest ?v1) ms r" for ms r
      proof -
        have "received sha (ds_rest v1) ms r" using that v1(2) received_skip [of sha "[]" ms r "ds_rest v1"] by (simp split: if_splits)
        then show ?thesis using received.next_frame [OF deliver(1), of sha "ds_rest v1" ms r "[]"]
            received_drop [of sha "search (ds_rest v) pchMessageStart" "ds_rest v"] deliver(2) by simp
      qed
      show ?thesis
      proof (cases "shut N s1")
        case True
        show ?thesis by (intro exI [of _ True] exI [of _ ?v1] exI [of _ s1] exI [of _ "[m]"])
            (use True v1 deliver(4) d rec [OF received_end [of sha "ds_rest ?v1" 0]] in simp)
      next
        case False
        have "ds_inv ?v1" "length (ds_vch ?v1) + 24 < 2 ^ 31" using v1 inv(2) by simp_all
        from less.hyps [OF len this, of s1] obtain ret v' s' ms where ih:
          "message_loop sha N ?v1 s1 = Some (ret, v', s')" "ds_inv v'" "ds_nType v' = ds_nType ?v1"
          "received sha (ds_rest ?v1) ms (ds_rest v')" "(ds_nVersion v', s') = fold (deliver N (ds_nType ?v1)) ms (ds_nVersion ?v1, s1)"
          by blast
        then show ?thesis
          by (intro exI [of _ ret] exI [of _ v'] exI [of _ s'] exI [of _ "m # ms"]) (use False v1 deliver(4) d rec [of ms "ds_rest v'"] in simp)
      qed
    qed
  qed
qed

subsection \<open>The bytes of a sender\<close>

lemma frame_unique:
  assumes "valid_message m" "valid_message m'" "prefix (frame sha m') bs" "prefix bs (frame sha m) \<or> prefix (frame sha m) bs"
  shows "m' = m"
proof -
  have l: "24 \<le> length bs" using prefix_length_le [OF assms(3)] frame_start(2) [of sha m'] by linarith
  obtain t where t: "bs = frame sha m' @ t" using assms(3) by (rule prefixE)
  have h: "header_of sha m' = header_of sha m"
  proof (rule frame_prefix_header [OF _ l])
    show "prefix bs (frame sha m) \<or> prefix (frame sha m) bs" by (rule assms(4))
    show "ser_CMessageHeader (header_of sha m') = take 24 bs" by (simp add: t frame_def)
  qed (simp_all add: header_of_def pchMessageStart_def)
  then have n: "fst m' = fst m" "length (snd m') = length (snd m)"
    using header_of_valid(2,3) [OF assms(1), of sha] header_of_valid(2,3) [OF assms(2), of sha] by simp_all
  then have "length (frame sha m) \<le> length bs" using h by (simp add: t frame_def)
  then have "prefix (frame sha m) bs" using assms(4) prefix_length_prefix by blast
  then have "snd m' = snd m" using h n(2) by (auto simp: t frame_def prefix_def)
  with n(1) show ?thesis by (simp add: prod_eq_iff)
qed

definition sent :: "sha256 \<Rightarrow> message list \<Rightarrow> byte list" where "sent sha ms = concat (map (frame sha) ms)"

lemma sent_simps [simp]: "sent sha [] = []" "sent sha (m # ms) = frame sha m @ sent sha ms" "sent sha (ms @ ms') = sent sha ms @ sent sha ms'"
  by (simp_all add: sent_def)

text \<open>No whole frame is left unless vSend is full.\<close>

definition waits :: "sha256 \<Rightarrow> message list \<Rightarrow> byte list \<Rightarrow> bool" where
  "waits sha ms bs \<longleftrightarrow> (case ms of [] \<Rightarrow> bs = [] | m # _ \<Rightarrow> \<not> prefix (frame sha m) bs)"

lemma search_frame_prefix:
  assumes "prefix bs (frame sha m @ t)" "4 \<le> length bs"
  shows "search bs pchMessageStart = 0"
proof -
  have l: "length (drop 4 (frame sha m @ t)) + 4 = length (frame sha m @ t)" using frame_start(2) [of sha m] by simp
  obtain u where "frame sha m @ t = bs @ u" using assms(1) by (rule prefixE)
  then have "take 4 bs = take 4 (frame sha m @ t)" using assms(2) by simp
  also have "\<dots> = pchMessageStart" by (subst frame_start(1)) (simp add: pchMessageStart_def)
  finally have "bs = pchMessageStart @ drop 4 bs" by (metis append_take_drop_id)
  then show ?thesis using search_here [of pchMessageStart "drop 4 bs"] by (simp add: pchMessageStart_def)
qed

lemma loop_sent:
  assumes "ds_inv v" "length (ds_vch v) + 24 < 2 ^ 31" "list_all valid_message ms" "prefix (ds_rest v) (sent sha ms)" "\<not> closed N s" "\<And>s. \<not> shut N s"
  shows "\<exists>v' s' ms1 ms2. message_loop sha N v s = Some (False, v', s') \<and> ds_inv v' \<and> ds_nType v' = ds_nType v \<and>
    length (ds_rest v') \<le> length (ds_rest v) \<and> (closed N s' \<longrightarrow> ds_rest v' = []) \<and> (\<not> closed N s' \<longrightarrow>
    ms = ms1 @ ms2 \<and> ds_rest v = sent sha ms1 @ ds_rest v' \<and> (ds_nVersion v', s') = fold (deliver N (ds_nType v)) ms1 (ds_nVersion v, s) \<and>
    (\<not> full N s' \<longrightarrow> waits sha ms2 (ds_rest v')))"
  using assms(1-5)
proof (induction ms arbitrary: v s)
  case Nil
  then have r: "ds_rest v = []" by simp
  obtain v' where "message_loop sha N v s = Some (False, v', s)" "ds_inv v'" "ds_rest v' = []"
    "ds_nType v' = ds_nType v" "ds_nVersion v' = ds_nVersion v" by (rule loop_empty [OF Nil.prems(1) r, of sha N s])
  then show ?case using r Nil.prems(5) by (intro exI [of _ v'] exI [of _ s] exI [of _ "[]"]) (simp add: waits_def)
next
  case (Cons m ms)
  note inv = Cons.prems(1,2)
  have m: "valid_message m" "list_all valid_message ms" using Cons.prems(3) by simp_all
  have pre: "prefix (ds_rest v) (frame sha m @ sent sha ms)" using Cons.prems(4) by simp
  then have cmp: "prefix (ds_rest v) (frame sha m) \<or> prefix (frame sha m) (ds_rest v)"
    by (meson prefix_same_cases prefixI)
  let ?r = "drop (search (ds_rest v) pchMessageStart) (ds_rest v)"
  have r: "?r = ds_rest v" if "4 \<le> length (ds_rest v)" using search_frame_prefix [OF pre that] by simp
  have big: "4 \<le> length (ds_rest v)" if "24 \<le> length ?r" using that by simp
  show ?case
  proof (cases "full N s")
    case True
    then show ?thesis using loop_full [of N s sha v] inv(1) Cons.prems(5)
      by (intro exI [of _ v] exI [of _ s] exI [of _ "[]"] exI [of _ "m # ms"]) (simp)
  next
    case False
    show ?thesis
    proof (rule loop_step [where sha = sha and N = N and s = s, OF inv(1) False inv(2) refl], goal_cases)
      case short: (1 v')
      then have "length (ds_rest v) < 24" using r by fastforce
      then have "\<not> prefix (frame sha m) (ds_rest v)" using frame_start(2) [of sha m] prefix_length_le by fastforce
      then show ?thesis using short \<open>length (ds_rest v) < 24\<close> Cons.prems(5)
        by (intro exI [of _ v'] exI [of _ s] exI [of _ "[]"] exI [of _ "m # ms"]) (simp add: stream_def waits_def)
    next
      case skip: (2 v1)
      then show ?thesis using m(1) cmp r [OF big [OF skip(1)]] by metis
    next
      case wait: (3 v')
      then have "\<not> prefix (frame sha m) (ds_rest v)" using m(1) r [OF big [OF wait(1)]] by metis
      then show ?thesis using wait r [OF big [OF wait(1)]] Cons.prems(5)
        by (intro exI [of _ v'] exI [of _ s] exI [of _ "[]"] exI [of _ "m # ms"]) (simp add: waits_def)
    next
      case deliver: (4 m' v1)
      obtain ver s1 where d: "deliver N (ds_nType v) m' (ds_nVersion v, s) = (ver, s1)" by fastforce
      let ?v1 = "handled N ver s1 v1"
      note v1 = stream_handled [OF deliver(3), of N ver s1]
      have "24 \<le> length ?r" using deliver(2) frame_start(2) [of sha m'] by (metis length_append trans_le_add1)
      then have rest: "ds_rest v = frame sha m' @ ds_rest v1" using r [OF big] deliver(2) by simp
      then have eq: "m' = m" by (intro frame_unique [OF m(1) deliver(1) _ cmp]) simp
      show ?thesis
      proof (cases "closed N s1")
        case True
        then have "ds_rest ?v1 = []" using v1(2) by simp
        from loop_empty [OF v1(1) this, of sha N s1] obtain v' where
          "message_loop sha N ?v1 s1 = Some (False, v', s1)" "ds_inv v'" "ds_rest v' = []" "ds_nType v' = ds_nType ?v1" by metis
        then show ?thesis using True deliver(4) d assms(6) [of s1] eq v1(4)
          by (intro exI [of _ v'] exI [of _ s1]) simp
      next
        case False
        have "prefix (ds_rest ?v1) (sent sha ms)" using pre rest eq v1(2) False by simp
        with Cons.IH [of ?v1 s1] obtain v' s' ms1 ms2 where ih: "message_loop sha N ?v1 s1 = Some (False, v', s')" "ds_inv v'"
          "ds_nType v' = ds_nType ?v1" "length (ds_rest v') \<le> length (ds_rest ?v1)" "closed N s' \<longrightarrow> ds_rest v' = []"
          "\<not> closed N s' \<longrightarrow> ms = ms1 @ ms2 \<and> ds_rest ?v1 = sent sha ms1 @ ds_rest v' \<and>
             (ds_nVersion v', s') = fold (deliver N (ds_nType ?v1)) ms1 (ds_nVersion ?v1, s1) \<and> (\<not> full N s' \<longrightarrow> waits sha ms2 (ds_rest v'))"
          using v1 inv(2) m(2) False by auto
        show ?thesis by (rule exI [of _ v'], rule exI [of _ s'], rule exI [of _ "m # ms1"], rule exI [of _ ms2])
            (use ih v1 rest eq deliver(4) d False assms(6) [of s1] in simp)
      qed
    qed
  qed
qed

subsection \<open>Sending a message\<close>

definition idle :: "send_state \<Rightarrow> bool" where "idle nd \<longleftrightarrow> nHeaderStart nd = - 1 \<and> nMessageStart nd = - 1"

lemma small_word:
  assumes "n < 2 ^ 31"
  shows "unat (word_of_nat n :: u32) = n" "\<not> (word_of_nat n :: u32) <s 0" "(word_of_nat n :: u32) \<noteq> - 1"
proof -
  show u: "unat (word_of_nat n :: u32) = n" using assms by (simp add: unat_of_nat)
  have "sint (word_of_nat n :: u32) = int n" using assms by (simp add: signed_of_nat signed_take_bit_int_eq_self)
  then show "\<not> (word_of_nat n :: u32) <s 0" by (simp add: word_sless_alt)
  show "(word_of_nat n :: u32) \<noteq> - 1" using u assms by (auto simp: unat_neg_1)
qed

definition open_header :: "byte list \<Rightarrow> byte list" where
  "open_header cmd = ser_CMessageHeader (MessageHeader_of cmd 0)"

lemma length_open_header [simp]: "length (open_header cmd) = 24"
  unfolding open_header_def by (rule length_ser_header) (simp_all add: MessageHeader_of_def pchMessageStart_def)

lemma BeginMessage_idle:
  assumes "idle nd"
  shows "BeginMessage cmd nd = nd\<lparr>vSend := ds_put (open_header cmd) (vSend nd), nHeaderStart := word_of_nat (ds_size (vSend nd)),
    nMessageStart := word_of_nat (ds_size (ds_put (open_header cmd) (vSend nd)))\<rparr>"
  using assms by (simp add: BeginMessage_def idle_def open_header_def Let_def)

lemma put_args_bytes:
  assumes "put_args as v = (ok, v')"
  obtains bs where "v' = ds_put bs v" "ok \<Longrightarrow> bs = concat (map fst as)" "ok \<longleftrightarrow> \<not> list_ex snd as"
  using assms
proof (induction as arbitrary: v thesis)
  case Nil
  show ?case by (rule Nil.prems(1) [of "[]"]) (use Nil.prems(2) in \<open>auto simp: ds_put_def\<close>)
next
  case (Cons a as)
  obtain bs throws where a: "a = (bs, throws)" by fastforce
  show ?case
  proof (cases throws)
    case True
    then show ?thesis using Cons.prems a by auto
  next
    case False
    obtain bs' where "v' = ds_put bs' (ds_put bs v)" "ok \<Longrightarrow> bs' = concat (map fst as)" "ok \<longleftrightarrow> \<not> list_ex snd as"
      using Cons.IH [of "ds_put bs v"] Cons.prems(2) a False by auto
    then show ?thesis using a False by (intro Cons.prems(1) [of "bs @ bs'"]) (auto simp: ds_put_def)
  qed
qed

lemma ds_size_put: "ds_inv v \<Longrightarrow> ds_size (ds_put bs v) = ds_size v + length bs"
  by (simp add: ds_size_def ds_put_def ds_inv_def)

lemma abort_restores:
  assumes "idle nd" "ds_inv (vSend nd)"
  shows "AbortMessage (nd\<lparr>nHeaderStart := word_of_nat (ds_size (vSend nd)), nMessageStart := k, vSend := ds_put bs (vSend nd)\<rparr>) = nd"
proof -
  have p: "unat (ds_nReadPos (vSend nd)) \<le> length (ds_vch (vSend nd))" "length (ds_vch (vSend nd)) < 2 ^ 31"
    using assms(2) by (simp_all add: ds_inv_def)
  then have "ds_size (vSend nd) < 2 ^ 31" "ds_size (vSend nd) + unat (ds_nReadPos (vSend nd)) = length (ds_vch (vSend nd))"
    by (simp_all add: ds_size_def)
  then have "ds_resize (ds_put bs (vSend nd)) (ds_size (vSend nd)) 0 = vSend nd"
    by (simp add: ds_resize_def ds_put_def Let_def)
  then show ?thesis using assms(1) small_word [OF \<open>ds_size (vSend nd) < 2 ^ 31\<close>] by (simp add: AbortMessage_def idle_def)
qed

lemma overwrite_middle:
  assumes "ds_vch v = xs @ ys @ zs" "length xs = unat (ds_nReadPos v) + i" "length ys = length bs"
  shows "ds_overwrite i bs v = v\<lparr>ds_vch := xs @ bs @ zs\<rparr>"
  using assms by (simp add: ds_overwrite_def Let_def)

lemma EndMessage_open:
  assumes "ds_inv v" "ds_vch w = ds_vch v @ open_header cmd @ data" "ds_nReadPos w = ds_nReadPos v" "length (ds_vch w) < 2 ^ 31"
    "vSend nd = w" "nHeaderStart nd = word_of_nat (ds_size v)" "nMessageStart nd = word_of_nat (ds_size v + 24)"
  shows "EndMessage sha False nd = Some (nd\<lparr>vSend := w\<lparr>ds_vch := ds_vch v @ frame sha (cmd, data)\<rparr>, nHeaderStart := - 1, nMessageStart := - 1\<rparr>)"
proof -
  let ?n = "ds_size v" and ?A = "pchMessageStart @ strncpy cmd COMMAND_SIZE" and ?d = "word_of_nat (length data) :: u32"
  have p: "unat (ds_nReadPos v) + ?n = length (ds_vch v)" using assms(1) by (simp add: ds_inv_def ds_size_def)
  have lw: "length (ds_vch w) = length (ds_vch v) + 24 + length data" using assms(2) by simp
  then have n: "?n + 24 + length data < 2 ^ 31" using assms(4) p by linarith
  have A: "length ?A = 16" by (simp add: pchMessageStart_def COMMAND_SIZE_def)
  have H: "open_header cmd = ?A @ WRITEDATA (0 :: u32) @ WRITEDATA (0 :: u32)"
    by (simp add: open_header_def ser_CMessageHeader_def MessageHeader_of_def)
  let ?w1 = "w\<lparr>ds_vch := (ds_vch v @ ?A) @ WRITEDATA ?d @ WRITEDATA (0 :: u32) @ data\<rparr>"
  have w1: "ds_overwrite (?n + MESSAGE_SIZE_OFFSET) (WRITEDATA ?d) w = ?w1"
    by (rule overwrite_middle [of _ _ "WRITEDATA (0 :: u32)"])
      (use assms(2,3) H A p in \<open>simp_all add: MESSAGE_SIZE_OFFSET_def COMMAND_SIZE_def WRITEDATA_def\<close>)
  have w2: "ds_overwrite (?n + CHECKSUM_OFFSET) (WRITEDATA (Hash sha data ! 0)) ?w1 =
      ?w1\<lparr>ds_vch := (ds_vch v @ ?A @ WRITEDATA ?d) @ WRITEDATA (Hash sha data ! 0) @ data\<rparr>"
    by (rule overwrite_middle [of _ _ "WRITEDATA (0 :: u32)"])
      (use assms(3) A p in \<open>simp_all add: MESSAGE_SIZE_OFFSET_def CHECKSUM_OFFSET_def COMMAND_SIZE_def WRITEDATA_def\<close>)
  have size: "word_of_nat (ds_size w) - nMessageStart nd = ?d"
  proof -
    have "ds_size w = (?n + 24) + length data" using p lw assms(3) by (simp add: ds_size_def)
    then show ?thesis using assms(7) by simp
  qed
  have hs: "unat (nHeaderStart nd) = ?n" "\<not> nHeaderStart nd <s 0" "unat (nMessageStart nd) = ?n + 24"
    using small_word [of ?n] small_word(1) [of "?n + 24"] n assms(6,7) by simp_all
  have off: "\<not> nMessageStart nd - nHeaderStart nd < word_of_nat (CHECKSUM_OFFSET + 4)"
    using assms(6,7) by (simp add: CHECKSUM_OFFSET_def MESSAGE_SIZE_OFFSET_def COMMAND_SIZE_def)
  have dat: "drop (?n + 24) (ds_rest ?w1) = data"
  proof -
    have "drop (?n + 24) (ds_rest ?w1) = drop (length (ds_vch v) + 24) (ds_vch ?w1)"
      unfolding ds_rest_def drop_drop using p assms(3) by (intro arg_cong2 [where f = drop]) simp_all
    then show ?thesis using A by (simp add: WRITEDATA_def)
  qed
  have "frame sha (cmd, data) = ?A @ WRITEDATA ?d @ WRITEDATA (Hash sha data ! 0) @ data"
    by (simp add: frame_def ser_CMessageHeader_def header_of_def)
  then show ?thesis using hs off size
    by (simp add: EndMessage_def Let_def assms(5) w1 w2 dat del: append_assoc)
qed

lemma PushMessage_sends:
  assumes nd: "idle nd" "ds_inv (vSend nd)" and len: "length (ds_vch (vSend nd)) + 24 + length (concat (map fst as)) < 2 ^ 31"
    and args: "\<not> list_ex snd as"
  obtains nd' where "PushMessage sha False cmd as nd = Some (True, nd')" "idle nd'" "ds_inv (vSend nd')"
    "ds_rest (vSend nd') = ds_rest (vSend nd) @ frame sha (cmd, concat (map fst as))"
    "length (ds_vch (vSend nd')) = length (ds_vch (vSend nd)) + 24 + length (concat (map fst as))"
proof -
  let ?v = "vSend nd" and ?data = "concat (map fst as)"
  obtain ok w where w: "put_args as (ds_put (open_header cmd) ?v) = (ok, w)" by fastforce
  then obtain bs where "w = ds_put bs (ds_put (open_header cmd) ?v)" "ok \<Longrightarrow> bs = ?data" "ok \<longleftrightarrow> \<not> list_ex snd as" by (rule put_args_bytes) blast
  then have ok: "ok" and w': "w = ds_put ?data (ds_put (open_header cmd) ?v)" using args by simp_all
  let ?nd = "nd\<lparr>nHeaderStart := word_of_nat (ds_size ?v), nMessageStart := word_of_nat (ds_size ?v + 24), vSend := w\<rparr>"
  let ?v' = "w\<lparr>ds_vch := ds_vch ?v @ frame sha (cmd, ?data)\<rparr>"
  have e: "EndMessage sha False ?nd = Some (?nd\<lparr>vSend := ?v', nHeaderStart := - 1, nMessageStart := - 1\<rparr>)"
    by (rule EndMessage_open [OF nd(2)]) (use len in \<open>simp_all add: w' ds_put_def\<close>)
  have lf: "length (frame sha (cmd, ?data)) = 24 + length ?data" by (simp add: frame_def)
  have "PushMessage sha False cmd as nd = Some (True, ?nd\<lparr>vSend := ?v', nHeaderStart := - 1, nMessageStart := - 1\<rparr>)"
    using w ok e by (simp add: PushMessage_def BeginMessage_idle [OF nd(1)] Let_def ds_size_put [OF nd(2)])
  then show thesis
    by (rule that) (use nd(2) len lf in \<open>simp_all add: idle_def ds_inv_def ds_rest_def w' ds_put_def\<close>)
qed

lemma PushMessage_undone:
  assumes "idle nd" "ds_inv (vSend nd)" "list_ex snd as \<or> dropped"
  shows "\<exists>ok. PushMessage sha dropped cmd as nd = Some (ok, nd)"
proof -
  let ?v = "vSend nd"
  obtain ok w where w: "put_args as (ds_put (open_header cmd) ?v) = (ok, w)" by fastforce
  then obtain bs where bs: "w = ds_put bs (ds_put (open_header cmd) ?v)" "ok \<longleftrightarrow> \<not> list_ex snd as" by (rule put_args_bytes)
  then have "w = ds_put (open_header cmd @ bs) ?v" by (simp add: ds_put_def)
  then have "AbortMessage (nd\<lparr>nHeaderStart := word_of_nat (ds_size ?v), nMessageStart := k, vSend := w\<rparr>) = nd" for k
    using abort_restores [OF assms(1,2)] by simp
  then show ?thesis using w assms(3) bs(2)
    by (intro exI [of _ ok], cases ok) (simp_all add: PushMessage_def BeginMessage_idle [OF assms(1)] Let_def EndMessage_def)
qed

end
