(* ===== verification/MessageLink.thy ===== *)
theory MessageLink
  imports Messages
begin

text \<open>
  What ProcessMessages hands to ProcessMessage: on any bytes, messages whose frames were received; from a
  peer that runs this code, exactly its messages, in order, however the bytes are split.
\<close>

subsection \<open>The link between two nodes\<close>

lemma socket_send_stream:
  assumes "ds_inv v" "nBytes \<le> ds_size v" "socket_send nBytes v = (bs, v')"
  shows "ds_inv v'" "ds_rest v = bs @ ds_rest v'" "length (ds_vch v') \<le> length (ds_vch v)"
proof -
  have "nBytes \<le> length (ds_rest v)" using assms(2) by (simp add: ds_size_rest)
  note e = erase_front_stream [OF assms(1) this]
  show "ds_inv v'" "ds_rest v = bs @ ds_rest v'" "length (ds_vch v') \<le> length (ds_vch v)"
    using assms(1,3) e by (auto simp: socket_send_def stream_def split: if_splits)
qed

lemma socket_recv_stream:
  assumes "ds_inv v" "socket_recv limit bs v = Some v'" "length (ds_vch v) + length bs < 2 ^ 31"
  shows "ds_inv v'" "ds_rest v' = ds_rest v @ bs" "ds_nType v' = ds_nType v" "ds_nVersion v' = ds_nVersion v"
    "ds_nReadPos v' = ds_nReadPos v" "ds_size v \<le> limit"
proof -
  have p: "unat (ds_nReadPos v) + ds_size v = length (ds_vch v)" using assms(1) by (simp add: ds_inv_def ds_size_def)
  have "ds_overwrite (ds_size v) bs (ds_resize v (ds_size v + length bs) 0) = v\<lparr>ds_vch := ds_vch v @ bs\<rparr>"
  proof -
    have "ds_resize v (ds_size v + length bs) 0 = v\<lparr>ds_vch := ds_vch v @ replicate (length bs) 0\<rparr>"
      using p by (simp add: ds_resize_def Let_def)
    then show ?thesis using p by (simp add: ds_overwrite_def Let_def)
  qed
  then have v': "v' = v\<lparr>ds_vch := ds_vch v @ bs\<rparr>" "ds_size v \<le> limit"
    using assms(2) by (auto simp: socket_recv_def Let_def split: if_splits)
  show "ds_inv v'" "ds_rest v' = ds_rest v @ bs" "ds_nType v' = ds_nType v" "ds_nVersion v' = ds_nVersion v"
    "ds_nReadPos v' = ds_nReadPos v" "ds_size v \<le> limit"
    using v' assms(1,3) by (simp_all add: ds_inv_def ds_rest_def)
qed

lemma ds_Compact_stream:
  assumes "ds_inv v"
  shows "ds_inv (ds_Compact v)" "ds_rest (ds_Compact v) = ds_rest v" "ds_nReadPos (ds_Compact v) = 0"
    "ds_nType (ds_Compact v) = ds_nType v" "ds_nVersion (ds_Compact v) = ds_nVersion v"
  using assms by (auto simp: ds_Compact_def ds_inv_def ds_rest_def)

text \<open>
  One direction of a connection: the sender's side of its CNode, the bytes on the way, the receiver's
  vRecv and the state ProcessMessage works on. The list holds the messages pushed. A message may be dropped for testing or
  its serializer may throw; sockets take and give any number of bytes, recv at most 65536.
\<close>

record 's link =
  lk_send :: send_state
  lk_wire :: "byte list"
  lk_vRecv :: cds
  lk_state :: 's

inductive link_run :: "sha256 \<Rightarrow> nat \<Rightarrow> 's node_env \<Rightarrow> 's \<Rightarrow> message list \<Rightarrow> 's link \<Rightarrow> bool" for sha limit N s0 where
  connect: "link_run sha limit N s0 [] \<lparr> lk_send = send_init, lk_wire = [], lk_vRecv = ds_Init [] 1 MIN_PROTO_VERSION, lk_state = s0 \<rparr>"
| push: "link_run sha limit N s0 ms k \<Longrightarrow> valid_message (cmd, concat (map fst as)) \<Longrightarrow> \<not> list_ex snd as \<Longrightarrow>
    length (ds_vch (vSend (lk_send k))) + 24 + length (concat (map fst as)) < 2 ^ 31 \<Longrightarrow>
    PushMessage sha False cmd as (lk_send k) = Some (ok, nd) \<Longrightarrow>
    link_run sha limit N s0 (ms @ [(cmd, concat (map fst as))]) (k\<lparr>lk_send := nd\<rparr>)"
| undone: "link_run sha limit N s0 ms k \<Longrightarrow> list_ex snd as \<or> dropped \<Longrightarrow>
    PushMessage sha dropped cmd as (lk_send k) = Some (ok, nd) \<Longrightarrow> link_run sha limit N s0 ms (k\<lparr>lk_send := nd\<rparr>)"
| take_off: "link_run sha limit N s0 ms k \<Longrightarrow> nBytes \<le> ds_size (vSend (lk_send k)) \<Longrightarrow>
    socket_send nBytes (vSend (lk_send k)) = (bs, v) \<Longrightarrow>
    link_run sha limit N s0 ms (k\<lparr>lk_send := (lk_send k)\<lparr>vSend := v\<rparr>, lk_wire := lk_wire k @ bs\<rparr>)"
| arrive: "link_run sha limit N s0 ms k \<Longrightarrow> \<not> closed N (lk_state k) \<Longrightarrow> lk_wire k = bs @ wire \<Longrightarrow> length bs \<le> 0x10000 \<Longrightarrow>
    socket_recv limit bs (lk_vRecv k) = Some v \<Longrightarrow> link_run sha limit N s0 ms (k\<lparr>lk_wire := wire, lk_vRecv := v\<rparr>)"
| process: "link_run sha limit N s0 ms k \<Longrightarrow> ProcessMessages sha N (lk_vRecv k) (lk_state k) = Some (v, s) \<Longrightarrow>
    link_run sha limit N s0 ms (k\<lparr>lk_vRecv := v, lk_state := s\<rparr>)"

text \<open>The messages handled come first; the bytes of the others are in vRecv, on the way, and in vSend.\<close>

definition in_transit :: "sha256 \<Rightarrow> 's node_env \<Rightarrow> 's \<Rightarrow> message list \<Rightarrow> 's link \<Rightarrow> bool" where
  "in_transit sha N s0 ms k \<longleftrightarrow>
     (\<exists>ms1 ms2. ms = ms1 @ ms2 \<and> (ds_nVersion (lk_vRecv k), lk_state k) = fold (deliver N 1) ms1 (MIN_PROTO_VERSION, s0) \<and>
        sent sha ms2 = ds_rest (lk_vRecv k) @ lk_wire k @ ds_rest (vSend (lk_send k)))"

definition buffers_ok :: "nat \<Rightarrow> 's link \<Rightarrow> bool" where
  "buffers_ok limit k \<longleftrightarrow>
     idle (lk_send k) \<and> ds_inv (vSend (lk_send k)) \<and> ds_inv (lk_vRecv k) \<and> ds_nReadPos (lk_vRecv k) = 0 \<and>
     length (ds_vch (lk_vRecv k)) \<le> limit + 0x10000 \<and> ds_nType (lk_vRecv k) = 1"

definition link_ok :: "sha256 \<Rightarrow> nat \<Rightarrow> 's node_env \<Rightarrow> 's \<Rightarrow> message list \<Rightarrow> 's link \<Rightarrow> bool" where
  "link_ok sha limit N s0 ms k \<longleftrightarrow> buffers_ok limit k \<and> list_all valid_message ms \<and>
     (if closed N (lk_state k) then ds_rest (lk_vRecv k) = [] else in_transit sha N s0 ms k)"

lemma in_transit_move:
  assumes "in_transit sha N s0 ms k" "ds_nVersion (lk_vRecv k') = ds_nVersion (lk_vRecv k)" "lk_state k' = lk_state k"
    "ds_rest (lk_vRecv k') @ lk_wire k' @ ds_rest (vSend (lk_send k')) = ds_rest (lk_vRecv k) @ lk_wire k @ ds_rest (vSend (lk_send k))"
  shows "in_transit sha N s0 ms k'"
  using assms by (simp add: in_transit_def)

lemma ProcessMessages_sent:
  assumes "ds_inv v" "length (ds_vch v) + 24 < 2 ^ 31" "list_all valid_message ms" "prefix (ds_rest v) (sent sha ms)" "\<not> closed N s"
    "ds_nReadPos v = 0" "\<And>s. \<not> shut N s"
  obtains v' s' ms1 ms2 where "ProcessMessages sha N v s = Some (v', s')" "ds_inv v'" "ds_nReadPos v' = 0"
    "ds_nType v' = ds_nType v" "length (ds_rest v') \<le> length (ds_rest v)" "closed N s' \<Longrightarrow> ds_rest v' = []"
    "\<not> closed N s' \<Longrightarrow> ms = ms1 @ ms2 \<and> ds_rest v = sent sha ms1 @ ds_rest v' \<and>
       (ds_nVersion v', s') = fold (deliver N (ds_nType v)) ms1 (ds_nVersion v, s) \<and> (\<not> full N s' \<longrightarrow> waits sha ms2 (ds_rest v'))"
proof (cases "ds_empty v")
  case True
  then have "ds_rest v = []" using ds_empty_rest [OF assms(1)] by simp
  moreover have "frame sha m \<noteq> []" for m using frame_start(2) [of sha m] by auto
  then have "waits sha ms []" by (simp add: waits_def split: list.split)
  ultimately show thesis using that [of v s "[]" ms] True assms(1,5,6) by (simp add: ProcessMessages_def)
next
  case False
  obtain v1 s' ms1 ms2 where l: "message_loop sha N v s = Some (False, v1, s')" "ds_inv v1" "ds_nType v1 = ds_nType v"
    "length (ds_rest v1) \<le> length (ds_rest v)" "closed N s' \<longrightarrow> ds_rest v1 = []"
    "\<not> closed N s' \<longrightarrow> ms = ms1 @ ms2 \<and> ds_rest v = sent sha ms1 @ ds_rest v1 \<and>
       (ds_nVersion v1, s') = fold (deliver N (ds_nType v)) ms1 (ds_nVersion v, s) \<and> (\<not> full N s' \<longrightarrow> waits sha ms2 (ds_rest v1))"
    using loop_sent [OF assms(1-5,7)] by blast
  show thesis using that [of "ds_Compact v1" s' ms1 ms2] l ds_Compact_stream [OF l(2)] False by (simp add: ProcessMessages_def)
qed

lemma link_process:
  assumes k: "link_ok sha limit N s0 ms k" and limit: "limit + 0x10000 + 24 < 2 ^ 31" and shut: "\<And>s. \<not> shut N s"
  obtains v s where "ProcessMessages sha N (lk_vRecv k) (lk_state k) = Some (v, s)"
    "link_ok sha limit N s0 ms (k\<lparr>lk_vRecv := v, lk_state := s\<rparr>)"
    "\<lbrakk> \<not> closed N s; \<not> full N s; lk_wire k = []; ds_rest (vSend (lk_send k)) = [] \<rbrakk> \<Longrightarrow>
      (ds_nVersion v, s) = fold (deliver N 1) ms (MIN_PROTO_VERSION, s0)"
proof -
  let ?v = "lk_vRecv k" and ?rest = "lk_wire k @ ds_rest (vSend (lk_send k))"
  have buf: "ds_inv ?v" "ds_nReadPos ?v = 0" "length (ds_vch ?v) \<le> limit + 0x10000" "ds_nType ?v = 1" and valid: "list_all valid_message ms"
    using k by (simp_all add: link_ok_def buffers_ok_def)
  show thesis
  proof (cases "closed N (lk_state k)")
    case True
    then have "ds_empty ?v" using k ds_empty_rest [OF buf(1)] by (simp add: link_ok_def)
    then show thesis using that [of ?v "lk_state k"] True k by (simp add: ProcessMessages_def)
  next
    case False
    then obtain ms1 ms2 where ok: "ms = ms1 @ ms2" "(ds_nVersion ?v, lk_state k) = fold (deliver N 1) ms1 (MIN_PROTO_VERSION, s0)"
      "sent sha ms2 = ds_rest ?v @ ?rest" using k by (auto simp: link_ok_def in_transit_def)
    have "length (ds_vch ?v) + 24 < 2 ^ 31" "list_all valid_message ms2" "prefix (ds_rest ?v) (sent sha ms2)"
      using buf(3) valid ok(1,3) limit by simp_all
    from ProcessMessages_sent [OF buf(1) this False buf(2) shut] obtain v' s' ms3 ms4 where
      p: "ProcessMessages sha N ?v (lk_state k) = Some (v', s')" and v': "ds_inv v'" "ds_nReadPos v' = 0" "ds_nType v' = ds_nType ?v"
        "length (ds_rest v') \<le> length (ds_rest ?v)" "closed N s' \<Longrightarrow> ds_rest v' = []"
        "\<not> closed N s' \<Longrightarrow> ms2 = ms3 @ ms4 \<and> ds_rest ?v = sent sha ms3 @ ds_rest v' \<and>
          (ds_nVersion v', s') = fold (deliver N (ds_nType ?v)) ms3 (ds_nVersion ?v, lk_state k) \<and> (\<not> full N s' \<longrightarrow> waits sha ms4 (ds_rest v'))"
      by metis
    have f: "(ds_nVersion v', s') = fold (deliver N 1) (ms1 @ ms3) (MIN_PROTO_VERSION, s0)"
      "ms2 = ms3 @ ms4" "sent sha ms4 = ds_rest v' @ ?rest" if "\<not> closed N s'" using v'(6) [OF that] buf(4) ok(2,3) by auto
    have "ds_vch v' = ds_rest v'" "ds_vch ?v = ds_rest ?v" using v'(2) buf(2) by (simp_all add: ds_rest_def)
    then have "buffers_ok limit (k\<lparr>lk_vRecv := v', lk_state := s'\<rparr>)"
      using k v' by (simp add: link_ok_def buffers_ok_def)
    moreover have "in_transit sha N s0 ms (k\<lparr>lk_vRecv := v', lk_state := s'\<rparr>)" if "\<not> closed N s'"
      unfolding in_transit_def by (rule exI [of _ "ms1 @ ms3"], rule exI [of _ ms4]) (use f [OF that] ok(1) in simp)
    ultimately have ok': "link_ok sha limit N s0 ms (k\<lparr>lk_vRecv := v', lk_state := s'\<rparr>)"
      using valid v'(5) by (simp add: link_ok_def)
    have "(ds_nVersion v', s') = fold (deliver N 1) ms (MIN_PROTO_VERSION, s0)"
      if c: "\<not> closed N s'" "\<not> full N s'" and e: "?rest = []"
    proof -
      have "ms4 = []"
      proof (cases ms4)
        case (Cons m t)
        then have "prefix (frame sha m) (ds_rest v')" using f(3) [OF c(1)] e by (intro prefixI [of _ _ "sent sha t"]) simp
        then show ?thesis using v'(6) [OF c(1)] c(2) Cons by (simp add: waits_def)
      qed
      then show ?thesis using f(1,2) [OF c(1)] ok(1) by simp
    qed
    then show thesis using that [OF p ok'] by simp
  qed
qed

lemma link_run_ok:
  assumes "link_run sha limit N s0 ms k" "limit + 0x10000 + 24 < 2 ^ 31" "\<And>s. \<not> shut N s"
  shows "link_ok sha limit N s0 ms k"
  using assms(1)
proof induction
  case connect
  have "ds_inv (ds_Init [] 1 MIN_PROTO_VERSION)" "ds_rest (ds_Init [] 1 MIN_PROTO_VERSION) = []"
    using ds_inv_Init [of "[]"] by simp_all
  then show ?case by (simp add: link_ok_def buffers_ok_def in_transit_def send_init_def idle_def) (simp add: ds_Init_def)
next
  case (push ms k cmd as ok nd)
  have k: "idle (lk_send k)" "ds_inv (vSend (lk_send k))" using push.IH by (simp_all add: link_ok_def buffers_ok_def)
  obtain nd' where nd': "PushMessage sha False cmd as (lk_send k) = Some (True, nd')" "idle nd'" "ds_inv (vSend nd')"
    "ds_rest (vSend nd') = ds_rest (vSend (lk_send k)) @ frame sha (cmd, concat (map fst as))"
    using PushMessage_sends [OF k push.hyps(4,3), of sha cmd] by metis
  have "in_transit sha N s0 (ms @ [(cmd, concat (map fst as))]) (k\<lparr>lk_send := nd'\<rparr>)" if t: "in_transit sha N s0 ms k"
  proof -
    obtain ms1 ms2 where "ms = ms1 @ ms2" "(ds_nVersion (lk_vRecv k), lk_state k) = fold (deliver N 1) ms1 (MIN_PROTO_VERSION, s0)"
      "sent sha ms2 = ds_rest (lk_vRecv k) @ lk_wire k @ ds_rest (vSend (lk_send k))" using t by (auto simp: in_transit_def)
    then show ?thesis unfolding in_transit_def
      by (intro exI [of _ ms1] exI [of _ "ms2 @ [(cmd, concat (map fst as))]"]) (simp add: nd'(4))
  qed
  then show ?case using push.IH push.hyps(2,5) nd' by (simp add: link_ok_def buffers_ok_def)
next
  case (undone ms k as dropped cmd ok nd)
  have "idle (lk_send k)" "ds_inv (vSend (lk_send k))" using undone.IH by (simp_all add: link_ok_def buffers_ok_def)
  from PushMessage_undone [OF this undone.hyps(2), of sha cmd] have "nd = lk_send k" using undone.hyps(3) by auto
  then show ?case using undone.IH by simp
next
  case (take_off ms k nBytes bs v)
  have "ds_inv (vSend (lk_send k))" using take_off.IH by (simp add: link_ok_def buffers_ok_def)
  note v = socket_send_stream [OF this take_off.hyps(2,3)]
  let ?k = "k\<lparr>lk_send := (lk_send k)\<lparr>vSend := v\<rparr>, lk_wire := lk_wire k @ bs\<rparr>"
  have "buffers_ok limit ?k" using take_off.IH v by (simp add: link_ok_def buffers_ok_def idle_def)
  moreover have "in_transit sha N s0 ms ?k" if "in_transit sha N s0 ms k" by (rule in_transit_move [OF that]) (simp_all add: v(2))
  ultimately show ?case using take_off.IH by (simp add: link_ok_def)
next
  case (arrive ms k bs wire v)
  have k: "ds_inv (lk_vRecv k)" "ds_nReadPos (lk_vRecv k) = 0" using arrive.IH by (simp_all add: link_ok_def buffers_ok_def)
  have size: "ds_size (lk_vRecv k) = length (ds_vch (lk_vRecv k))" using k(2) by (simp add: ds_size_def)
  have "ds_size (lk_vRecv k) \<le> limit" using arrive.hyps(5) by (auto simp: socket_recv_def Let_def split: if_splits)
  then have len: "length (ds_vch (lk_vRecv k)) + length bs \<le> limit + 0x10000" using size arrive.hyps(4) by simp
  then have "length (ds_vch (lk_vRecv k)) + length bs < 2 ^ 31" using assms(2) by simp
  note v = socket_recv_stream [OF k(1) arrive.hyps(5) this]
  have "ds_vch v = ds_vch (lk_vRecv k) @ bs" using v(2,5) k(2) by (simp add: ds_rest_def)
  then have "buffers_ok limit (k\<lparr>lk_wire := wire, lk_vRecv := v\<rparr>)"
    using arrive.IH v len k(2) by (simp add: link_ok_def buffers_ok_def)
  moreover have "in_transit sha N s0 ms (k\<lparr>lk_wire := wire, lk_vRecv := v\<rparr>)"
    by (rule in_transit_move [of _ _ _ _ k]) (use arrive.IH arrive.hyps(2,3) v in \<open>simp_all add: link_ok_def\<close>)
  ultimately show ?case using arrive.IH arrive.hyps(2) by (simp add: link_ok_def)
next
  case (process ms k v s)
  show ?case by (rule link_process [OF process.IH assms(2,3)]) (use process.hyps(2) in simp)
qed

text \<open>vSend is never compacted: the bytes sent stay in memory until it is empty.\<close>

lemma partly_sent_keeps_bytes:
  assumes "ds_inv v" "nBytes < ds_size v"
  shows "ds_vch (snd (socket_send nBytes v)) = ds_vch v"
  using assms by (auto simp: socket_send_def ds_erase_def ds_size_def)

subsection \<open>Properties\<close>

text \<open>C18. Messages pushed on one node and received in any portions by another that runs this code reach
  its ProcessMessage in order, each once and as it was pushed; the bytes of the others are still under
  way. When nothing is under way, the next ProcessMessages hands over the last of them, unless its
  own send buffer is full. This holds until the receiver disconnects. Messages that are dropped
  or whose serializer throws leave no trace.\<close>

theorem messages_delivered_in_order:
  assumes "link_run sha limit N s0 ms k" "limit + 0x10000 + 24 < 2 ^ 31" "\<And>s. \<not> shut N s"
  shows "(\<not> closed N (lk_state k) \<longrightarrow>
      (\<exists>ms1 ms2. ms = ms1 @ ms2 \<and> (ds_nVersion (lk_vRecv k), lk_state k) = fold (deliver N 1) ms1 (MIN_PROTO_VERSION, s0) \<and>
        sent sha ms2 = ds_rest (lk_vRecv k) @ lk_wire k @ ds_rest (vSend (lk_send k)))) \<and>
    (\<exists>v s. ProcessMessages sha N (lk_vRecv k) (lk_state k) = Some (v, s) \<and>
      (\<not> closed N s \<longrightarrow> \<not> full N s \<longrightarrow> lk_wire k = [] \<longrightarrow> ds_rest (vSend (lk_send k)) = [] \<longrightarrow>
        (ds_nVersion v, s) = fold (deliver N 1) ms (MIN_PROTO_VERSION, s0)))"
proof -
  note ok = link_run_ok [OF assms]
  have t: "\<not> closed N (lk_state k) \<longrightarrow> in_transit sha N s0 ms k" using ok by (simp add: link_ok_def)
  show ?thesis
    by (intro conjI, rule t [unfolded in_transit_def], rule link_process [OF ok assms(2,3)]) blast
qed

text \<open>C19. Whatever bytes a peer sends, ProcessMessages ends, without an exception of its own. What it hands over are
  messages with a printable command and data of at most 32 MB whose frames, checksums included, occur in the
  bytes in order and without overlap; what stays in vRecv is the end of the bytes.\<close>

theorem only_received_frames_handled:
  assumes "ds_inv vRecv" "length (ds_vch vRecv) + 24 < 2 ^ 31"
  shows "\<exists>v s' ms. ProcessMessages sha N vRecv s = Some (v, s') \<and> received sha (ds_rest vRecv) ms (ds_rest v) \<and>
    list_all (\<lambda>m. printable (fst m) \<and> length (fst m) \<le> 12 \<and> length (snd m) \<le> 0x2000000) ms \<and>
    (ds_nVersion v, s') = fold (deliver N (ds_nType vRecv)) ms (ds_nVersion vRecv, s)"
proof -
  have valid: "list_all (\<lambda>m. printable (fst m) \<and> length (fst m) \<le> 12 \<and> length (snd m) \<le> 0x2000000) ms"
    if "received sha bs ms r" for bs ms r
    using that by induction (simp_all add: valid_message_def COMMAND_SIZE_def MAX_SIZE_def)
  show ?thesis
  proof (cases "ds_empty vRecv")
    case True
    then show ?thesis using received_end [of sha "ds_rest vRecv" 0]
      by (intro exI [of _ vRecv] exI [of _ s] exI [of _ "[]"]) (simp add: ProcessMessages_def)
  next
    case False
    obtain ret v s' ms where l: "message_loop sha N vRecv s = Some (ret, v, s')" "ds_inv v" "received sha (ds_rest vRecv) ms (ds_rest v)"
      "(ds_nVersion v, s') = fold (deliver N (ds_nType vRecv)) ms (ds_nVersion vRecv, s)"
      using loop_received [OF assms, of sha N s] by blast
    then show ?thesis using False ds_Compact_stream [OF l(2)] valid [OF l(3)]
      by (intro exI [of _ "if ret then v else ds_Compact v"] exI [of _ s'] exI [of _ ms]) (simp add: ProcessMessages_def)
  qed
qed

text \<open>Example: one message, sent at once; the handler keeps a list of what it gets.\<close>

definition w_log :: "message list node_env" where
  "w_log = \<lparr> full = (\<lambda>_. False), shut = (\<lambda>_. False), closed = (\<lambda>_. False),
     ProcessMessage = (\<lambda>cmd vMsg vs. (fst vs, snd vs @ [(cmd, ds_rest vMsg)])) \<rparr>"

theorem messages_delivered_in_order_witness:
  "\<exists>k v. link_run w_sha 5000000 w_log [] [([112, 105], [7, 8])] k \<and>
     ProcessMessages w_sha w_log (lk_vRecv k) (lk_state k) = Some (v, [([112, 105], [7, 8])])"
proof -
  let ?run = "link_run w_sha 5000000 w_log []" and ?m = "([112, 105], [7, 8]) :: message"
  let ?start = "\<lparr> lk_send = send_init, lk_wire = [], lk_vRecv = ds_Init [] 1 MIN_PROTO_VERSION, lk_state = [] :: message list \<rparr>"
  have i: "idle send_init" "ds_inv (vSend send_init)" "ds_rest (vSend send_init) = []" "ds_vch (vSend send_init) = []"
    using ds_inv_Init [of "[]"] by (simp_all add: send_init_def idle_def) (simp add: ds_Init_def)
  then obtain nd where nd: "PushMessage w_sha False [112, 105] [([7, 8], False)] send_init = Some (True, nd)" "idle nd" "ds_inv (vSend nd)"
    "ds_rest (vSend nd) = frame w_sha ?m"
    using PushMessage_sends [OF i(1,2), of "[([7, 8], False)]" w_sha "[112, 105]"] by auto
  have v: "valid_message ?m" by (simp add: valid_message_def printable_def COMMAND_SIZE_def MAX_SIZE_def word_sless_alt)
  let ?v = "snd (socket_send (ds_size (vSend nd)) (vSend nd))"
  have S: "socket_send (ds_size (vSend nd)) (vSend nd) = (frame w_sha ?m, ?v)"
    using nd(3,4) frame_start(2) [of w_sha ?m] ds_empty_rest [OF nd(3)] by (auto simp: socket_send_def ds_size_rest)
  have "?run [?m] (?start\<lparr>lk_send := nd\<rparr>)"
    using link_run.push [OF link_run.connect [of w_sha 5000000 w_log "[]"], of "[112, 105]" "[([7, 8], False)]" True nd] nd(1) v i(4) by simp
  then have r1: "?run [?m] (?start\<lparr>lk_send := nd\<lparr>vSend := ?v\<rparr>, lk_wire := frame w_sha ?m\<rparr>)"
    using link_run.take_off [of w_sha 5000000 w_log "[]" "[?m]" "?start\<lparr>lk_send := nd\<rparr>" "ds_size (vSend nd)"] S by simp
  obtain w where w: "socket_recv 5000000 (frame w_sha ?m) (ds_Init [] 1 MIN_PROTO_VERSION) = Some w"
  proof -
    have "frame w_sha ?m \<noteq> []" using frame_start(2) [of w_sha ?m] by auto
    then show thesis using that by (simp add: socket_recv_def ds_size_def ds_Init_def Let_def)
  qed
  let ?k = "?start\<lparr>lk_send := nd\<lparr>vSend := ?v\<rparr>, lk_wire := [], lk_vRecv := w\<rparr>"
  have never: "\<not> shut w_log s" "\<not> closed w_log s" "\<not> full w_log s" for s by (simp_all add: w_log_def)
  have run: "?run [?m] ?k"
    using link_run.arrive [OF r1 never(2), of "frame w_sha ?m" "[]" w] w by (simp add: frame_def)
  have "ds_rest ?v = []" using socket_send_stream(2) [OF nd(3) order_refl S] nd(4) by simp
  then obtain v s where p: "ProcessMessages w_sha w_log (lk_vRecv ?k) (lk_state ?k) = Some (v, s)"
    "(ds_nVersion v, s) = fold (deliver w_log 1) [?m] (MIN_PROTO_VERSION, [])"
    using conjunct2 [OF messages_delivered_in_order [OF run _ never(1)]] never by auto
  have "ds_rest (ds_Init bs t n) = bs" for bs t n by (simp add: ds_rest_def ds_Init_def)
  then have "s = [?m]" using p(2) by (simp add: deliver_def w_log_def)
  then show ?thesis using run p(1) by blast
qed

theorem only_received_frames_handled_witness:
  "\<exists>v s'. ProcessMessages w_sha w_log (ds_Init (replicate 40 7) 1 0) [] = Some (v, s')"
proof -
  have i: "ds_inv (ds_Init (replicate 40 7) 1 0)" "length (ds_vch (ds_Init (replicate 40 7) 1 0)) + 24 < 2 ^ 31"
    using ds_inv_Init [of "replicate 40 7" 1 0] by (simp_all add: ds_Init_def)
  show ?thesis using only_received_frames_handled [OF i, of w_sha w_log "[]"] by blast
qed

end
