(* ===== verification/NetTime.thy ===== *)
theory NetTime
  imports NetAddr BigNum
begin

text \<open>
  src/util.h: CMedianFilter, a median over the last values of a machine integer type. src/util.cpp: the offset
  of the clock from the clocks of other nodes (GetAdjustedTime, AddTimeData). Sums and negations wrap.
\<close>

subsection \<open>CMedianFilter\<close>

record 'w CMedianFilter =
  vValues :: "'w list"
  vSorted :: "'w list"
  nSize :: nat
  tInitial :: 'w

definition Median_init :: "nat \<Rightarrow> 'w::len word \<Rightarrow> 'w word CMedianFilter" where
  "Median_init sz initial_value = \<lparr> vValues = [initial_value], vSorted = [initial_value], nSize = sz, tInitial = initial_value \<rparr>"

definition Median_input :: "'w::len word \<Rightarrow> 'w word CMedianFilter \<Rightarrow> 'w word CMedianFilter" where
  "Median_input val f =
     (let vs = (if length (vValues f) = nSize f then tl (vValues f) else vValues f) @ [val]
      in f\<lparr>vValues := vs, vSorted := sort_key sint vs\<rparr>)"

definition removeLast :: "'w::len word \<Rightarrow> 'w word CMedianFilter \<Rightarrow> 'w word CMedianFilter" where
  "removeLast val f =
     (let vs = rev (remove1 val (rev (vValues f)));
          vs = (if vs = [] then [tInitial f] else vs)
      in f\<lparr>vValues := vs, vSorted := sort_key sint vs\<rparr>)"

text \<open>None is a failed assertion. The division rounds towards 0.\<close>

definition median :: "'w::len word CMedianFilter \<Rightarrow> 'w word option" where
  "median f =
     (let sz = length (vSorted f)
      in if sz = 0 then None
         else if odd sz then Some (vSorted f ! (sz div 2))
         else Some (word_of_int (trunc_div (sint (vSorted f ! (sz div 2 - 1) + vSorted f ! (sz div 2))) 2)))"

definition Median_size :: "'w::len word CMedianFilter \<Rightarrow> nat" where "Median_size f = length (vValues f)"

definition sorted_values :: "'w::len word CMedianFilter \<Rightarrow> 'w word list" where "sorted_values f = vSorted f"

subsection \<open>The clock\<close>

text \<open>The negation of the smallest 64-bit number, undefined in C++, is modelled as it is on two's complement machines:
  the number itself.\<close>

definition abs64 :: "u64 \<Rightarrow> u64" where "abs64 n = (if 0 \<le>s n then n else - n)"

record time_state =
  vTimeOffsets :: "u64 CMedianFilter"
  nTimeOffset :: u64
  time_setKnown :: "CNetAddr set"
  time_fDone :: bool \<comment> \<open>the warning about the clock was given\<close>

definition time_init :: time_state where
  "time_init = \<lparr> vTimeOffsets = Median_init 200 0, nTimeOffset = 0, time_setKnown = {}, time_fDone = False \<rparr>"

definition GetAdjustedTime :: "u64 \<Rightarrow> time_state \<Rightarrow> u64" where
  "GetAdjustedTime GetTime st = GetTime + nTimeOffset st"

definition AddTimeData :: "u64 \<Rightarrow> CNetAddr \<Rightarrow> u64 \<Rightarrow> time_state \<Rightarrow> time_state option" where
  "AddTimeData GetTime ip nTime st =
     (let nOffsetSample = nTime - GetTime
      in if ip \<in> time_setKnown st then Some st
         else let st = st\<lparr>time_setKnown := insert ip (time_setKnown st), vTimeOffsets := Median_input nOffsetSample (vTimeOffsets st)\<rparr>
         in if Median_size (vTimeOffsets st) \<ge> 5 \<and> Median_size (vTimeOffsets st) mod 2 = 1
            then do { nMedian \<leftarrow> median (vTimeOffsets st);
                      Some (if abs64 nMedian <s 70 * 60 then st\<lparr>nTimeOffset := nMedian\<rparr>
                            else let st = st\<lparr>nTimeOffset := 0\<rparr>
                            in if \<not> time_fDone st \<and>
                                  \<not> list_ex (\<lambda>nOffset. nOffset \<noteq> 0 \<and> abs64 nOffset <s 5 * 60) (sorted_values (vTimeOffsets st))
                               then st\<lparr>time_fDone := True\<rparr> else st) }
            else Some st)"

inductive time_run :: "time_state \<Rightarrow> bool" where
  start: "time_run time_init"
| add: "time_run st \<Longrightarrow> AddTimeData GetTime ip nTime st = Some st' \<Longrightarrow> time_run st'"

subsection \<open>The filter\<close>

definition filter_ok :: "'w::len word CMedianFilter \<Rightarrow> bool" where
  "filter_ok f \<longleftrightarrow> vSorted f = sort_key sint (vValues f) \<and> vValues f \<noteq> [] \<and> length (vValues f) \<le> nSize f"

lemma filter_ok_init: "0 < n \<Longrightarrow> filter_ok (Median_init n v)"
  by (simp add: filter_ok_def Median_init_def)

lemma filter_ok_input: "filter_ok f \<Longrightarrow> filter_ok (Median_input v f)"
  by (cases "vValues f") (auto simp: filter_ok_def Median_input_def Let_def)

lemma filter_ok_removeLast: "filter_ok f \<Longrightarrow> filter_ok (removeLast v f)"
  using length_remove1 [of v "rev (vValues f)"] length_greater_0_conv [of "vValues f"]
  by (auto simp: filter_ok_def removeLast_def Let_def Suc_le_eq simp del: length_greater_0_conv split: if_splits)

lemma median_ok: "filter_ok f \<Longrightarrow> \<exists>m. median f = Some m"
  by (simp add: filter_ok_def median_def Let_def)

text \<open>The median of an odd number of values lies where most of them do.\<close>

lemma sorted_middle:
  assumes "sorted (map k xs)" "2 * length (filter P xs) > length xs" "\<And>x y z. k x \<le> k y \<Longrightarrow> k y \<le> k z \<Longrightarrow> P x \<Longrightarrow> P z \<Longrightarrow> P y"
  shows "P (xs ! (length xs div 2))"
proof (rule ccontr)
  let ?n = "length xs" and ?m = "length xs div 2"
  assume not: "\<not> P (xs ! ?m)"
  have n: "?m < ?n" using assms(2) by (cases xs) auto
  have ord: "k (xs ! i) \<le> k (xs ! j)" if "i \<le> j" "j < ?n" for i j
    using sorted_nth_mono [OF assms(1), of i j] that by simp
  have side: "(\<forall>i\<le>?m. \<not> P (xs ! i)) \<or> (\<forall>i. ?m \<le> i \<and> i < ?n \<longrightarrow> \<not> P (xs ! i))"
  proof (rule ccontr)
    assume "\<not> ?thesis"
    then obtain i j where "i \<le> ?m" "P (xs ! i)" "?m \<le> j" "j < ?n" "P (xs ! j)" by blast
    then show False using assms(3) [of "xs ! i" "xs ! ?m" "xs ! j"] ord [of i ?m] ord [of ?m j] n not by blast
  qed
  have len: "length (filter P xs) = card {i. i < ?n \<and> P (xs ! i)}" by (rule length_filter_conv_card)
  show False
  proof (cases "\<forall>i\<le>?m. \<not> P (xs ! i)")
    case True
    then have "{i. i < ?n \<and> P (xs ! i)} \<subseteq> {?m <..< ?n}" by (auto simp flip: not_le)
    then have "card {i. i < ?n \<and> P (xs ! i)} \<le> card {?m <..< ?n}" by (intro card_mono) simp_all
    then show False using assms(2) len by simp
  next
    case False
    then have "{i. i < ?n \<and> P (xs ! i)} \<subseteq> {..< ?m}" using side by (auto simp flip: not_le)
    then have "card {i. i < ?n \<and> P (xs ! i)} \<le> card {..< ?m}" by (intro card_mono) simp_all
    then show False using assms(2) len by simp
  qed
qed

lemma median_of_majority:
  assumes "filter_ok f" "odd (length (vValues f))" "median f = Some m"
    "2 * length (filter (\<lambda>v. a \<le> sint v \<and> sint v \<le> b) (vValues f)) > length (vValues f)"
  shows "a \<le> sint m \<and> sint m \<le> b"
proof -
  let ?P = "\<lambda>v. a \<le> sint v \<and> sint v \<le> b"
  have s: "vSorted f = sort_key sint (vValues f)" using assms(1) by (simp add: filter_ok_def)
  have "length (filter ?P (vSorted f)) = length (filter ?P (vValues f))"
    using s by (simp add: filter_sort)
  moreover have "sorted (map sint (vSorted f))" "length (vSorted f) = length (vValues f)" using s by simp_all
  ultimately have "?P (vSorted f ! (length (vSorted f) div 2))"
    using assms(4) by (intro sorted_middle [where k = sint and xs = "vSorted f" and P = ?P]) (assumption, simp, linarith)
  then show ?thesis using assms(2,3) s by (auto simp: median_def Let_def split: if_splits)
qed

subsection \<open>The offset\<close>

definition offset_ok :: "u64 \<Rightarrow> bool" where
  "offset_ok n \<longleftrightarrow> \<bar>sint n\<bar> < 70 * 60 \<or> n = 2 ^ 63"

lemma abs64_small:
  assumes "abs64 m <s 70 * 60"
  shows "offset_ok m"
proof (cases "0 \<le> sint m \<or> sint m = - (2 ^ 63)")
  case True
  have "m = 2 ^ 63" if "sint m = - (2 ^ 63)"
  proof -
    have "sint m = sint (2 ^ 63 :: u64)" using that by simp
    then show ?thesis by (simp only: signed_word_eqI)
  qed
  then show ?thesis using assms True by (auto simp: offset_ok_def abs64_def word_sle_eq word_sless_alt)
next
  case False
  moreover have "- (2 ^ 63) \<le> sint m" "sint m < 2 ^ 63" using sint_range_size [of m] by (simp_all add: word_size)
  ultimately have "sint (- m) = - sint m"
    by (simp add: sint_word_ariths signed_take_bit_int_eq_self)
  then show ?thesis using assms False by (simp add: offset_ok_def abs64_def word_sle_eq word_sless_alt)
qed

definition time_ok :: "time_state \<Rightarrow> bool" where
  "time_ok st \<longleftrightarrow> filter_ok (vTimeOffsets st) \<and> nSize (vTimeOffsets st) = 200 \<and> finite (time_setKnown st) \<and>
     length (vValues (vTimeOffsets st)) = min 200 (card (time_setKnown st) + 1) \<and> offset_ok (nTimeOffset st)"

lemma time_ok_init: "time_ok time_init"
  using filter_ok_init [of 200 "0 :: u64"] by (simp add: time_ok_def time_init_def offset_ok_def) (simp add: Median_init_def)

lemma input_length:
  assumes "filter_ok f"
  shows "length (vValues (Median_input v f)) = min (nSize f) (length (vValues f) + 1)" "nSize (Median_input v f) = nSize f"
proof -
  have "0 < length (vValues f)" "length (vValues f) \<le> nSize f" using assms by (simp_all add: filter_ok_def)
  then show "length (vValues (Median_input v f)) = min (nSize f) (length (vValues f) + 1)" "nSize (Median_input v f) = nSize f"
    by (auto simp: Median_input_def Let_def simp del: length_greater_0_conv)
qed

lemma AddTimeData_ok:
  assumes ok: "time_ok st"
  obtains st' where "AddTimeData GetTime ip nTime st = Some st'" "time_ok st'"
    "199 \<le> card (time_setKnown st) \<Longrightarrow> nTimeOffset st' = nTimeOffset st"
    "ip \<in> time_setKnown st \<Longrightarrow> st' = st"
    "ip \<notin> time_setKnown st \<Longrightarrow> vTimeOffsets st' = Median_input (nTime - GetTime) (vTimeOffsets st)"
    "nTimeOffset st' \<noteq> nTimeOffset st \<Longrightarrow> odd (length (vValues (vTimeOffsets st'))) \<and>
       (\<exists>m. median (vTimeOffsets st') = Some m \<and> (nTimeOffset st' = m \<and> abs64 m <s 70 * 60 \<or> nTimeOffset st' = 0 \<and> \<not> abs64 m <s 70 * 60))"
proof (cases "ip \<in> time_setKnown st")
  case True
  then show thesis using ok by (intro that [of st]) (simp_all add: AddTimeData_def Let_def)
next
  case False
  let ?f = "Median_input (nTime - GetTime) (vTimeOffsets st)"
  have f: "filter_ok (vTimeOffsets st)" "nSize (vTimeOffsets st) = 200" "finite (time_setKnown st)"
    "length (vValues (vTimeOffsets st)) = min 200 (card (time_setKnown st) + 1)" "offset_ok (nTimeOffset st)"
    using ok by (simp_all add: time_ok_def)
  have f': "filter_ok ?f" "nSize ?f = 200" "length (vValues ?f) = min 200 (card (insert ip (time_setKnown st)) + 1)"
    using filter_ok_input [OF f(1)] input_length [OF f(1)] f False by simp_all
  obtain m where m: "median ?f = Some m" using median_ok [OF f'(1)] by blast
  let ?st = "st\<lparr>time_setKnown := insert ip (time_setKnown st), vTimeOffsets := ?f\<rparr>"
  have st: "time_ok (?st\<lparr>nTimeOffset := n, time_fDone := b\<rparr>)" if "offset_ok n" for n b
    using f f' that by (simp add: time_ok_def)
  have full: "Median_size ?f mod 2 = 0" if "199 \<le> card (time_setKnown st)"
    using f'(3) f(3) False that by (simp add: Median_size_def)
  show thesis
  proof (cases "Median_size ?f \<ge> 5 \<and> Median_size ?f mod 2 = 1")
    case False
    show thesis by (rule that [of ?st])
        (use False \<open>ip \<notin> time_setKnown st\<close> st [OF f(5), of "time_fDone st"] in \<open>auto simp: AddTimeData_def Let_def\<close>)
  next
    case True
    define n where "n = (if abs64 m <s 70 * 60 then m else 0)"
    have "offset_ok n" using abs64_small [of m] by (simp add: n_def offset_ok_def)
    define b where "b = (time_fDone st \<or> \<not> abs64 m <s 70 * 60 \<and> \<not> list_ex (\<lambda>v. v \<noteq> 0 \<and> abs64 v <s 5 * 60) (sorted_values ?f))"
    have "AddTimeData GetTime ip nTime st = Some (?st\<lparr>nTimeOffset := n, time_fDone := b\<rparr>)"
      using True \<open>ip \<notin> time_setKnown st\<close> m by (simp add: AddTimeData_def Let_def n_def b_def cong: if_cong)
    then show thesis
      by (rule that) (use True full st [OF \<open>offset_ok n\<close>] m n_def \<open>ip \<notin> time_setKnown st\<close> in
          \<open>auto simp: Median_size_def odd_iff_mod_2_eq_one\<close>)
  qed
qed

lemma time_run_ok: "time_run st \<Longrightarrow> time_ok st"
proof (induction rule: time_run.induct)
  case (add st GetTime ip nTime st')
  show ?case by (rule AddTimeData_ok [OF add.IH, of GetTime ip nTime]) (use add.hyps(2) in simp)
qed (rule time_ok_init)

subsection \<open>Properties\<close>

definition w_ip :: "byte \<Rightarrow> CNetAddr" where "w_ip n = replicate 15 0 @ [n]"

text \<open>C20. The offset of the clock stays below 70 minutes, but for one value: the smallest 64-bit number, whose
  absolute value wraps to itself. When a sample changes the offset, the new one is 0 or lies where most of
  the samples lie. After 199 nodes were heard the offset never changes again: the filter is full, its
  size is even, and the code looks at the median of odd sizes only.\<close>

theorem clock_offset_limits:
  assumes "time_run st" "AddTimeData GetTime ip nTime st = Some st'"
  shows "(\<bar>sint (nTimeOffset st)\<bar> < 70 * 60 \<or> nTimeOffset st = 2 ^ 63) \<and>
    (199 \<le> card (time_setKnown st) \<longrightarrow> nTimeOffset st' = nTimeOffset st) \<and>
    (nTimeOffset st' \<noteq> nTimeOffset st \<longrightarrow> nTimeOffset st' \<noteq> 0 \<longrightarrow>
      2 * length (filter (\<lambda>v. a \<le> sint v \<and> sint v \<le> b) (vValues (vTimeOffsets st'))) > length (vValues (vTimeOffsets st')) \<longrightarrow>
      a \<le> sint (nTimeOffset st') \<and> sint (nTimeOffset st') \<le> b)"
proof -
  note ok = time_run_ok [OF assms(1)]
  obtain st1 where st1: "AddTimeData GetTime ip nTime st = Some st1" "time_ok st1"
    "199 \<le> card (time_setKnown st) \<Longrightarrow> nTimeOffset st1 = nTimeOffset st"
    "nTimeOffset st1 \<noteq> nTimeOffset st \<Longrightarrow> odd (length (vValues (vTimeOffsets st1))) \<and>
       (\<exists>m. median (vTimeOffsets st1) = Some m \<and> (nTimeOffset st1 = m \<and> abs64 m <s 70 * 60 \<or> nTimeOffset st1 = 0 \<and> \<not> abs64 m <s 70 * 60))"
    by (rule AddTimeData_ok [OF ok, of GetTime ip nTime]) (rule that)
  have "filter_ok (vTimeOffsets st1)" using st1(2) by (simp add: time_ok_def)
  then show ?thesis
    using ok st1 assms(2) median_of_majority [of "vTimeOffsets st1" "nTimeOffset st1" a b] by (auto simp: time_ok_def offset_ok_def)
qed

theorem clock_offset_limits_witness:
  "\<exists>st'. AddTimeData 5 (w_ip 1) 9 time_init = Some st' \<and> \<bar>sint (nTimeOffset time_init)\<bar> < 70 * 60"
proof -
  obtain st' where "AddTimeData 5 (w_ip 1) 9 time_init = Some st'" by (rule AddTimeData_ok [OF time_ok_init])
  then show ?thesis using clock_offset_limits [OF time_run.start, of 5 "w_ip 1" 9 st' 0 0] by (auto simp: time_init_def)
qed

end
