(* ===== verification/Peers.thy ===== *)
theory Peers
  imports AddrMan BlockIndex Messages NetTime
begin

text \<open>
  src/mruset.h; CInv and CAddress of src/protocol.h and src/protocol.cpp; of src/net.h and src/net.cpp: the state
  of a peer (CNode) and what the node shares between peers: inventory, requests, relayed messages, bans, and
  its own addresses; of src/main.cpp: AlreadyHave, the sending of requests in SendMessages and the answer to a request for an
  item in ProcessMessage. Times are integers. A set or map keyed by CAddress or CService compares services only.
\<close>

subsection \<open>mruset\<close>

record 'a mruset =
  mru_set :: "'a set"
  mru_queue :: "'a list"
  mru_nMaxSize :: nat

definition mru_init :: "nat \<Rightarrow> 'a mruset" where
  "mru_init nMaxSizeIn = \<lparr> mru_set = {}, mru_queue = [], mru_nMaxSize = nMaxSizeIn \<rparr>"

definition mru_size :: "'a mruset \<Rightarrow> nat" where "mru_size m = card (mru_set m)"
definition mru_empty :: "'a mruset \<Rightarrow> bool" where "mru_empty m \<longleftrightarrow> mru_set m = {}"
definition mru_count :: "'a \<Rightarrow> 'a mruset \<Rightarrow> nat" where "mru_count k m = (if k \<in> mru_set m then 1 else 0)"
definition mru_eq :: "'a mruset \<Rightarrow> 'a mruset \<Rightarrow> bool" where "mru_eq a b \<longleftrightarrow> mru_set a = mru_set b"

definition mru_insert :: "'a \<Rightarrow> 'a mruset \<Rightarrow> bool \<times> 'a mruset" where \<comment> \<open>whether x was new\<close>
  "mru_insert x m =
     (if x \<in> mru_set m then (False, m)
      else let m = m\<lparr>mru_set := insert x (mru_set m)\<rparr>;
               m = (if mru_nMaxSize m \<noteq> 0 \<and> length (mru_queue m) = mru_nMaxSize m
                    then m\<lparr>mru_set := mru_set m - {hd (mru_queue m)}, mru_queue := tl (mru_queue m)\<rparr>
                    else m)
           in (True, m\<lparr>mru_queue := mru_queue m @ [x]\<rparr>))"

fun mru_shrink :: "nat \<Rightarrow> 'a list \<Rightarrow> 'a set \<Rightarrow> 'a list \<times> 'a set" where
  "mru_shrink s [] X = ([], X)"
| "mru_shrink s (x # xs) X = (if length (x # xs) > s then mru_shrink s xs (X - {x}) else (x # xs, X))"

definition mru_max_size :: "nat \<Rightarrow> 'a mruset \<Rightarrow> 'a mruset" where
  "mru_max_size s m =
     (let m = (if s \<noteq> 0 then case mru_shrink s (mru_queue m) (mru_set m) of (q, X) \<Rightarrow> m\<lparr>mru_queue := q, mru_set := X\<rparr> else m)
      in m\<lparr>mru_nMaxSize := s\<rparr>)"

subsection \<open>CInv\<close>

record CInv =
  inv_type :: u32 \<comment> \<open>int\<close>
  inv_hash :: base_uint

definition ppszTypeName :: "string list" where "ppszTypeName = [''ERROR'', ''tx'', ''block'']"
definition MSG_TX :: u32 where "MSG_TX = 1"
definition MSG_BLOCK :: u32 where "MSG_BLOCK = 2"

definition Inv_init :: CInv where "Inv_init = \<lparr> inv_type = 0, inv_hash = replicate 8 0 \<rparr>"
definition Inv_of :: "u32 \<Rightarrow> base_uint \<Rightarrow> CInv" where "Inv_of typeIn hashIn = \<lparr> inv_type = typeIn, inv_hash = hashIn \<rparr>"

definition Inv_of_string :: "string \<Rightarrow> base_uint \<Rightarrow> CInv option" where \<comment> \<open>None is an exception\<close>
  "Inv_of_string strType hashIn =
     map_option (\<lambda>i. \<lparr> inv_type = word_of_nat i, inv_hash = hashIn \<rparr>) (find (\<lambda>i. strType = ppszTypeName ! i) [1..<length ppszTypeName])"

definition ser_CInv :: "CInv \<Rightarrow> byte list" where "ser_CInv i = WRITEDATA (inv_type i) @ u_bytes (inv_hash i)"

definition unser_CInv :: "'s rd \<Rightarrow> 's \<Rightarrow> (CInv \<times> 's) option" where
  "unser_CInv rd s = do { (t, s) \<leftarrow> READDATA rd s; (bs, s) \<leftarrow> rd s 32; Some (\<lparr> inv_type = t, inv_hash = u_of_bytes bs \<rparr>, s) }"

definition Inv_lt :: "CInv \<Rightarrow> CInv \<Rightarrow> bool" where
  "Inv_lt a b \<longleftrightarrow> inv_type a <s inv_type b \<or> (inv_type a = inv_type b \<and> u_lt (inv_hash a) (inv_hash b))"

definition IsKnownType :: "CInv \<Rightarrow> bool" where
  "IsKnownType i \<longleftrightarrow> 1 \<le>s inv_type i \<and> inv_type i <s word_of_nat (length ppszTypeName)"

definition Inv_GetCommand :: "CInv \<Rightarrow> string option" where
  "Inv_GetCommand i = (if \<not> IsKnownType i then None else Some (ppszTypeName ! unat (inv_type i)))"

definition Inv_ToString :: "CInv \<Rightarrow> string option" where
  "Inv_ToString i = do { c \<leftarrow> Inv_GetCommand i; Some (c @ '' '' @ u_GetHex (inv_hash i)) }"

subsection \<open>CAddress on the network and on disk\<close>

definition CADDR_TIME_VERSION :: int where "CADDR_TIME_VERSION = 7000"

definition ser_CAddress :: "u32 \<Rightarrow> int \<Rightarrow> 'a CAddress_scheme \<Rightarrow> byte list" where
  "ser_CAddress nType nVersion a =
     (if nType AND SER_DISK \<noteq> 0 then WRITEDATA (word_of_int nVersion :: u32) else []) @
     (if nType AND SER_DISK \<noteq> 0 \<or> nVersion \<ge> CADDR_TIME_VERSION \<and> nType AND SER_GETHASH = 0 then WRITEDATA (adr_nTime a) else []) @
     WRITEDATA (nServices a) @ ser_CService a"

definition unser_CAddress :: "'s rd \<Rightarrow> u32 \<Rightarrow> int \<Rightarrow> 's \<Rightarrow> (CAddress \<times> 's) option" where
  "unser_CAddress rd nType nVersion s =
     do { (v, s) \<leftarrow> (if nType AND SER_DISK \<noteq> 0 then do { (v, s) \<leftarrow> READDATA rd s; Some (sint (v :: u32), s) } else Some (nVersion, s));
          (t, s) \<leftarrow> (if nType AND SER_DISK \<noteq> 0 \<or> v \<ge> CADDR_TIME_VERSION \<and> nType AND SER_GETHASH = 0
                     then READDATA rd s else Some (adr_nTime Address_init, s));
          (n, s) \<leftarrow> READDATA rd s;
          (ip, s) \<leftarrow> unser_CService rd s;
          Some (\<lparr> svc_ip = svc_ip ip, svc_port = svc_port ip, nServices = n, adr_nTime = t, nLastTry = nLastTry Address_init \<rparr>, s) }"

subsection \<open>Peers\<close>

record CNode =
  nd_send :: send_state \<comment> \<open>vSend, nHeaderStart, nMessageStart\<close>
  nd_vRecv :: cds
  nd_hSocket :: bool \<comment> \<open>is open\<close>
  nd_addr :: CAddress
  nd_addrName :: string
  nd_addrLocal :: CService
  nd_nVersion :: u32
  nd_fInbound :: bool
  nd_fSuccessfullyConnected :: bool
  nd_fDisconnect :: bool
  nd_nRecv104Erorrs :: int
  nd_nRefCount :: int
  nd_nMisbehavior :: u32
  nd_nReleaseTime :: int
  nd_pindexLastGetBlocksBegin :: "nat option"
  nd_hashLastGetBlocksEnd :: base_uint
  nd_nStartingHeight :: u32
  nd_vAddrToSend :: "CAddress list"
  nd_setAddrKnown :: "CService set"
  nd_setInventoryKnown :: "CInv mruset"
  nd_vInventoryToSend :: "CInv list"
  nd_mapAskFor :: "(int \<times> CInv) list" \<comment> \<open>a multimap, in order\<close>

definition service_of :: "'a CService_scheme \<Rightarrow> CService" where
  "service_of a = \<lparr> svc_ip = svc_ip a, svc_port = svc_port a \<rparr>"

definition CNode_init :: "(sockaddr \<Rightarrow> string option) \<Rightarrow> nat \<Rightarrow> bool \<Rightarrow> CAddress \<Rightarrow> string \<Rightarrow> bool \<Rightarrow> CNode" where
  "CNode_init getnameinfo SendBufferSize hSocketIn addrIn addrNameIn fInboundIn =
     \<lparr> nd_send = send_init, nd_vRecv = ds_Init [] 1 MIN_PROTO_VERSION, nd_hSocket = hSocketIn, nd_addr = addrIn,
       nd_addrName = (if addrNameIn = [] then ToStringIPPort getnameinfo addrIn else addrNameIn),
       nd_addrLocal = Service_init, nd_nVersion = 0, nd_fInbound = fInboundIn, nd_fSuccessfullyConnected = False,
       nd_fDisconnect = False, nd_nRecv104Erorrs = 0, nd_nRefCount = 0, nd_nMisbehavior = 0, nd_nReleaseTime = 0,
       nd_pindexLastGetBlocksBegin = None, nd_hashLastGetBlocksEnd = replicate 8 0, nd_nStartingHeight = - 1,
       nd_vAddrToSend = [], nd_setAddrKnown = {}, nd_setInventoryKnown = mru_max_size (SendBufferSize div 1000) (mru_init 0),
       nd_vInventoryToSend = [], nd_mapAskFor = [] \<rparr>"

definition GetRefCount :: "int \<Rightarrow> CNode \<Rightarrow> int" where
  "GetRefCount GetTime n = max (nd_nRefCount n) 0 + (if GetTime < nd_nReleaseTime n then 1 else 0)"

definition AddRef :: "int \<Rightarrow> int \<Rightarrow> CNode \<Rightarrow> CNode" where
  "AddRef GetTime nTimeout n =
     (if nTimeout \<noteq> 0 then n\<lparr>nd_nReleaseTime := max (nd_nReleaseTime n) (GetTime + nTimeout)\<rparr>
      else n\<lparr>nd_nRefCount := nd_nRefCount n + 1\<rparr>)"

definition Release :: "CNode \<Rightarrow> CNode" where "Release n = n\<lparr>nd_nRefCount := nd_nRefCount n - 1\<rparr>"

definition AddAddressKnown :: "'a CService_scheme \<Rightarrow> CNode \<Rightarrow> CNode" where
  "AddAddressKnown addr n = n\<lparr>nd_setAddrKnown := insert (service_of addr) (nd_setAddrKnown n)\<rparr>"

definition PushAddress :: "CAddress \<Rightarrow> CNode \<Rightarrow> CNode" where
  "PushAddress addr n =
     (if NetAddr_IsValid (svc_ip addr) \<and> service_of addr \<notin> nd_setAddrKnown n
      then n\<lparr>nd_vAddrToSend := nd_vAddrToSend n @ [addr]\<rparr> else n)"

definition AddInventoryKnown :: "CInv \<Rightarrow> CNode \<Rightarrow> CNode" where
  "AddInventoryKnown iv n = n\<lparr>nd_setInventoryKnown := snd (mru_insert iv (nd_setInventoryKnown n))\<rparr>"

definition PushInventory :: "CInv \<Rightarrow> CNode \<Rightarrow> CNode" where
  "PushInventory iv n =
     (if mru_count iv (nd_setInventoryKnown n) = 0 then n\<lparr>nd_vInventoryToSend := nd_vInventoryToSend n @ [iv]\<rparr> else n)"

definition CloseSocketDisconnect :: "int \<Rightarrow> CNode \<Rightarrow> CNode" where
  "CloseSocketDisconnect errCode n =
     (let n = n\<lparr>nd_fDisconnect := True\<rparr>
      in if nd_hSocket n
         then n\<lparr>nd_hSocket := False, nd_vRecv := ds_clear (nd_vRecv n),
                nd_nRecv104Erorrs := nd_nRecv104Erorrs n + (if errCode = 104 then 1 else 0)\<rparr>
         else n)"

text \<open>The locator is a parameter of its own theory; None is a failed assertion or an unset locator.\<close>

definition ser_CBlockLocator :: "u32 \<Rightarrow> u32 \<Rightarrow> base_uint list \<Rightarrow> byte list" where
  "ser_CBlockLocator nType nVersion vHave =
     (if nType AND SER_GETHASH = 0 then WRITEDATA nVersion else []) @ ser_vector u_bytes vHave"

definition PushGetBlocks ::
  "sha256 \<Rightarrow> bheap \<Rightarrow> base_uint \<Rightarrow> nat option \<Rightarrow> base_uint \<Rightarrow> bool \<Rightarrow> CNode \<Rightarrow> CNode option" where
  "PushGetBlocks sha h hashGenesis pindexBegin hashEnd force n =
     (if \<not> force \<and> pindexBegin = nd_pindexLastGetBlocksBegin n \<and> hashEnd = nd_hashLastGetBlocksEnd n then Some n
      else let n = n\<lparr>nd_pindexLastGetBlocksBegin := pindexBegin, nd_hashLastGetBlocksEnd := hashEnd\<rparr>
      in do { vHave \<leftarrow> Locator_Set h hashGenesis pindexBegin;
              (ok, nd) \<leftarrow> PushMessage sha False [103, 101, 116, 98, 108, 111, 99, 107, 115]
                 [(ser_CBlockLocator SER_NETWORK (word_of_int (ds_nVersion (vSend (nd_send n)))) vHave, False), (u_bytes hashEnd, False)] (nd_send n);
              Some (n\<lparr>nd_send := nd\<rparr>) })"

subsection \<open>Bans\<close>

type_synonym ban_set = "CNetAddr \<rightharpoonup> int" \<comment> \<open>banned until\<close>

definition IsBanned :: "int \<Rightarrow> CNetAddr \<Rightarrow> ban_set \<Rightarrow> bool" where
  "IsBanned GetTime ip setBanned = (case setBanned ip of None \<Rightarrow> False | Some t \<Rightarrow> GetTime < t)"

text \<open>-banscore and -bantime are arguments. The first result is true for a peer that is disconnected.\<close>

definition Misbehaving ::
  "u32 \<Rightarrow> int \<Rightarrow> int \<Rightarrow> u32 \<Rightarrow> CNode \<Rightarrow> ban_set \<Rightarrow> u32 CMedianFilter \<Rightarrow> bool \<times> CNode \<times> ban_set \<times> u32 CMedianFilter" where
  "Misbehaving banscore bantime GetTime howmuch n setBanned cPeerBlockCounts =
     (if IsLocal (svc_ip (nd_addr n)) then (False, n, setBanned, cPeerBlockCounts)
      else let n = n\<lparr>nd_nMisbehavior := nd_nMisbehavior n + howmuch\<rparr>
      in if banscore \<le>s nd_nMisbehavior n
         then let banTime = GetTime + bantime; ip = svc_ip (nd_addr n);
                  setBanned = setBanned(ip \<mapsto> max (case setBanned ip of None \<Rightarrow> 0 | Some t \<Rightarrow> t) banTime)
              in (True, CloseSocketDisconnect 0 n, setBanned, removeLast (nd_nStartingHeight n) cPeerBlockCounts)
         else (False, n, setBanned, cPeerBlockCounts))"

subsection \<open>Requests\<close>

text \<open>insert of a multimap: after the entries with keys up to k.\<close>

definition multimap_insert :: "int \<Rightarrow> 'v \<Rightarrow> (int \<times> 'v) list \<Rightarrow> (int \<times> 'v) list" where
  "multimap_insert k v m = takeWhile (\<lambda>e. fst e \<le> k) m @ (k, v) # dropWhile (\<lambda>e. fst e \<le> k) m"

record ask_state =
  mapAlreadyAskedFor :: "CInv \<rightharpoonup> int"
  ask_nLastTime :: int

text \<open>askBlockRetryTime is -askblockretrytime, an int; the product with a million is one too.\<close>

definition AskFor :: "u32 \<Rightarrow> int \<Rightarrow> CInv \<Rightarrow> CNode \<Rightarrow> ask_state \<Rightarrow> CNode \<times> ask_state" where
  "AskFor askBlockRetryTime GetTime iv n st =
     (let nRequestTime = (case mapAlreadyAskedFor st iv of None \<Rightarrow> 0 | Some t \<Rightarrow> t);
          nNow = (GetTime - 1) * 1000000;
          nLastTime = ask_nLastTime st + 1;
          nNow = max nNow nLastTime;
          nRequestTime = max (nRequestTime + sint (askBlockRetryTime * 1000000)) nNow
      in (n\<lparr>nd_mapAskFor := multimap_insert nRequestTime iv (nd_mapAskFor n)\<rparr>,
          st\<lparr>mapAlreadyAskedFor := (mapAlreadyAskedFor st)(iv \<mapsto> nRequestTime), ask_nLastTime := nNow\<rparr>))"

text \<open>An item that has arrived is no longer asked for.\<close>

definition erase_asked :: "CInv \<Rightarrow> ask_state \<Rightarrow> ask_state" where
  "erase_asked iv st = st\<lparr>mapAlreadyAskedFor := (mapAlreadyAskedFor st)(iv := None)\<rparr>"

text \<open>The memory pool, the orphan transactions, the transaction index, the block index and the orphan blocks are arguments.\<close>

definition AlreadyHave ::
  "(base_uint \<rightharpoonup> 't) \<Rightarrow> (base_uint \<rightharpoonup> 'o) \<Rightarrow> (base_uint \<rightharpoonup> 'd) \<Rightarrow> (base_uint \<rightharpoonup> 'i) \<Rightarrow> (base_uint \<rightharpoonup> 'b) \<Rightarrow> CInv \<Rightarrow> bool" where
  "AlreadyHave pool orphans txdb index orphanBlocks iv =
     (if inv_type iv = MSG_TX then pool (inv_hash iv) \<noteq> None \<or> orphans (inv_hash iv) \<noteq> None \<or> txdb (inv_hash iv) \<noteq> None
      else if inv_type iv = MSG_BLOCK then index (inv_hash iv) \<noteq> None \<or> orphanBlocks (inv_hash iv) \<noteq> None
      else True)"

text \<open>The part of SendMessages that sends the requests that are due: the "getdata" messages, the requests left, the
  items asked for. The third argument is vGetData, the fourth the messages sent so far; \<open>known\<close> is AlreadyHave.\<close>

fun send_getdata_loop ::
  "(CInv \<Rightarrow> bool) \<Rightarrow> int \<Rightarrow> CInv list \<Rightarrow> CInv list list \<Rightarrow> (int \<times> CInv) list \<Rightarrow> (CInv \<rightharpoonup> int) \<Rightarrow>
   CInv list \<times> CInv list list \<times> (int \<times> CInv) list \<times> (CInv \<rightharpoonup> int)" where
  "send_getdata_loop known nNow vGetData msgs [] asked = (vGetData, msgs, [], asked)"
| "send_getdata_loop known nNow vGetData msgs ((t, iv) # m) asked =
     (if \<not> t \<le> nNow then (vGetData, msgs, (t, iv) # m, asked)
      else if known iv then send_getdata_loop known nNow vGetData msgs m asked
      else let vGetData = vGetData @ [iv]; asked = asked(iv \<mapsto> nNow)
           in if length vGetData \<ge> 1000 then send_getdata_loop known nNow [] (msgs @ [vGetData]) m asked
              else send_getdata_loop known nNow vGetData msgs m asked)"

definition SendGetData :: "(CInv \<Rightarrow> bool) \<Rightarrow> int \<Rightarrow> CNode \<Rightarrow> ask_state \<Rightarrow> CInv list list \<times> CNode \<times> ask_state" where
  "SendGetData known GetTime pto st =
     (let nNow = GetTime * 1000000
      in case send_getdata_loop known nNow [] [] (nd_mapAskFor pto) (mapAlreadyAskedFor st) of
           (vGetData, msgs, m, asked) \<Rightarrow>
             (if vGetData \<noteq> [] then msgs @ [vGetData] else msgs, pto\<lparr>nd_mapAskFor := m\<rparr>, st\<lparr>mapAlreadyAskedFor := asked\<rparr>))"

subsection \<open>Relayed messages\<close>

record relay_state =
  mapRelay :: "CInv \<rightharpoonup> cds"
  vRelayExpiration :: "(int \<times> CInv) list"

definition RelayInventory :: "CInv \<Rightarrow> CNode list \<Rightarrow> CNode list" where
  "RelayInventory iv vNodes = map (PushInventory iv) vNodes"

fun relay_expire :: "int \<Rightarrow> (CInv \<rightharpoonup> cds) \<Rightarrow> (int \<times> CInv) list \<Rightarrow> (CInv \<rightharpoonup> cds) \<times> (int \<times> CInv) list" where
  "relay_expire GetTime m [] = (m, [])"
| "relay_expire GetTime m ((t, iv) # q) = (if t < GetTime then relay_expire GetTime (m(iv := None)) q else (m, (t, iv) # q))"

definition RelayMessage :: "int \<Rightarrow> CInv \<Rightarrow> cds \<Rightarrow> CNode list \<Rightarrow> relay_state \<Rightarrow> CNode list \<times> relay_state" where
  "RelayMessage GetTime iv ss vNodes st =
     (case relay_expire GetTime (mapRelay st) (vRelayExpiration st) of
        (m, q) \<Rightarrow>
          (RelayInventory iv vNodes,
           st\<lparr>mapRelay := (case m iv of None \<Rightarrow> m(iv \<mapsto> ss) | Some _ \<Rightarrow> m), vRelayExpiration := q @ [(GetTime + 15 * 60, iv)]\<rparr>))"

text \<open>The answer to one item of a "getdata" message that is not a block: the command and the stream sent, if any.\<close>

definition getdata_reply :: "(base_uint \<rightharpoonup> CTransaction) \<Rightarrow> relay_state \<Rightarrow> CInv \<Rightarrow> (string \<times> cds) option" where
  "getdata_reply mapTx st iv =
     (if \<not> IsKnownType iv then None
      else case mapRelay st iv of
             Some ss \<Rightarrow> map_option (\<lambda>c. (c, ss)) (Inv_GetCommand iv)
           | None \<Rightarrow>
               if inv_type iv = MSG_TX
               then map_option (\<lambda>tx. (''tx'', ds_Init (ser_CTransaction SER_NETWORK PROTOCOL_VERSION tx) (sint SER_NETWORK) (sint PROTOCOL_VERSION)))
                      (mapTx (inv_hash iv))
               else None)"

subsection \<open>The node's own addresses\<close>

definition LOCAL_NONE :: u32 where "LOCAL_NONE = 0"
definition LOCAL_MANUAL :: u32 where "LOCAL_MANUAL = 6"

record LocalServiceInfo =
  lsi_nScore :: u32 \<comment> \<open>int\<close>
  lsi_nPort :: u16

text \<open>mapLocalHost is a list in the order of its keys.\<close>

record local_state =
  mapLocalHost :: "(CNetAddr \<times> LocalServiceInfo) list"
  vfReachable :: "Network \<Rightarrow> bool"
  vfLimited :: "Network \<Rightarrow> bool"

definition local_init :: local_state where
  "local_init = \<lparr> mapLocalHost = [], vfReachable = (\<lambda>_. False), vfLimited = (\<lambda>_. False) \<rparr>"

definition local_put :: "CNetAddr \<Rightarrow> LocalServiceInfo \<Rightarrow> (CNetAddr \<times> LocalServiceInfo) list \<Rightarrow> (CNetAddr \<times> LocalServiceInfo) list" where
  "local_put a i m = takeWhile (\<lambda>e. NetAddr_lt (fst e) a) m @ (a, i) # dropWhile (\<lambda>e. NetAddr_lt (fst e) a \<or> NetAddr_eq (fst e) a) m"

definition local_get :: "CNetAddr \<Rightarrow> (CNetAddr \<times> LocalServiceInfo) list \<Rightarrow> LocalServiceInfo option" where
  "local_get a m = map_option snd (find (\<lambda>e. NetAddr_eq (fst e) a) m)"

definition reach_int :: "Reachability \<Rightarrow> int" where \<comment> \<open>the enum's values\<close>
  "reach_int r = (case r of REACH_UNREACHABLE \<Rightarrow> 0 | REACH_DEFAULT \<Rightarrow> 1 | REACH_TEREDO \<Rightarrow> 2 | REACH_IPV6_WEAK \<Rightarrow> 3
     | REACH_IPV4 \<Rightarrow> 4 | REACH_IPV6_STRONG \<Rightarrow> 5 | REACH_PRIVATE \<Rightarrow> 6)"

fun GetLocal_loop :: "CNetAddr option \<Rightarrow> (CNetAddr \<times> LocalServiceInfo) list \<Rightarrow> int \<Rightarrow> int \<Rightarrow> CService \<Rightarrow> int \<times> CService" where
  "GetLocal_loop paddrPeer [] nBestScore nBestReachability addr = (nBestScore, addr)"
| "GetLocal_loop paddrPeer ((a, i) # m) nBestScore nBestReachability addr =
     (let nScore = sint (lsi_nScore i); nReachability = reach_int (GetReachabilityFrom a paddrPeer)
      in if nReachability > nBestReachability \<or> (nReachability = nBestReachability \<and> nScore > nBestScore)
         then GetLocal_loop paddrPeer m nScore nReachability \<lparr> svc_ip = a, svc_port = lsi_nPort i \<rparr>
         else GetLocal_loop paddrPeer m nBestScore nBestReachability addr)"

definition GetLocal :: "bool \<Rightarrow> CNetAddr option \<Rightarrow> local_state \<Rightarrow> CService \<Rightarrow> bool \<times> CService" where
  "GetLocal fNoListen paddrPeer st addr =
     (if fNoListen then (False, addr)
      else case GetLocal_loop paddrPeer (mapLocalHost st) (- 1) (- 1) addr of
             (nBestScore, addr) \<Rightarrow> (nBestScore \<ge> 0, addr))"

record local_env =
  le_fNoListen :: bool
  le_fDiscover :: bool
  le_nLocalServices :: u64
  le_AdjustedTime :: u32 \<comment> \<open>GetAdjustedTime() as an unsigned int\<close>
  le_ListenPort :: u16

definition GetLocalAddress :: "local_env \<Rightarrow> CNetAddr option \<Rightarrow> local_state \<Rightarrow> CAddress" where
  "GetLocalAddress e paddrPeer st =
     (case GetLocal (le_fNoListen e) paddrPeer st Service_init of
        (True, addr) \<Rightarrow> (Address_of_service addr NODE_NETWORK)\<lparr>nServices := le_nLocalServices e, adr_nTime := le_AdjustedTime e\<rparr>
      | (False, _) \<Rightarrow> Address_of_service \<lparr> svc_ip = NetAddr_of_in_addr [0, 0, 0, 0], svc_port = 0 \<rparr> 0)"

definition AdvertizeLocal :: "local_env \<Rightarrow> local_state \<Rightarrow> CNode list \<Rightarrow> CNode list" where
  "AdvertizeLocal e st vNodes =
     map (\<lambda>n. if nd_fSuccessfullyConnected n
              then let addrLocal = GetLocalAddress e (Some (svc_ip (nd_addr n))) st
                   in if IsRoutable (svc_ip addrLocal) \<and> Service_neq addrLocal (nd_addrLocal n)
                      then (PushAddress addrLocal n)\<lparr>nd_addrLocal := service_of addrLocal\<rparr> else n
              else n) vNodes"

definition SetReachable :: "Network \<Rightarrow> bool \<Rightarrow> local_state \<Rightarrow> local_state" where
  "SetReachable net fFlag st =
     (let st = st\<lparr>vfReachable := (vfReachable st)(net := fFlag)\<rparr>
      in if net = NET_IPV6 \<and> fFlag then st\<lparr>vfReachable := (vfReachable st)(NET_IPV4 := True)\<rparr> else st)"

definition IsLimited :: "Network \<Rightarrow> local_state \<Rightarrow> bool" where "IsLimited net st = vfLimited st net"

definition IsLimited_addr :: "CNetAddr \<Rightarrow> local_state \<Rightarrow> bool" where "IsLimited_addr addr st = IsLimited (GetNetwork addr) st"

definition SetLimited :: "Network \<Rightarrow> bool \<Rightarrow> local_state \<Rightarrow> local_state" where
  "SetLimited net fLimited st = (if net = NET_UNROUTABLE then st else st\<lparr>vfLimited := (vfLimited st)(net := fLimited)\<rparr>)"

definition AddLocal :: "local_env \<Rightarrow> CService \<Rightarrow> u32 \<Rightarrow> local_state \<Rightarrow> CNode list \<Rightarrow> bool \<times> local_state \<times> CNode list" where
  "AddLocal e addr nScore st vNodes =
     (let ip = svc_ip addr
      in if \<not> IsRoutable ip then (False, st, vNodes)
         else if \<not> le_fDiscover e \<and> nScore <s LOCAL_MANUAL then (False, st, vNodes)
         else if IsLimited_addr ip st then (False, st, vNodes)
         else let info = (case local_get ip (mapLocalHost st) of
                            None \<Rightarrow> \<lparr> lsi_nScore = nScore, lsi_nPort = svc_port addr \<rparr>
                          | Some i \<Rightarrow> if lsi_nScore i \<le>s nScore then \<lparr> lsi_nScore = nScore + 1, lsi_nPort = svc_port addr \<rparr> else i);
                  st = SetReachable (GetNetwork ip) True (st\<lparr>mapLocalHost := local_put ip info (mapLocalHost st)\<rparr>)
              in (True, st, AdvertizeLocal e st vNodes))"

definition AddLocal_addr :: "local_env \<Rightarrow> CNetAddr \<Rightarrow> u32 \<Rightarrow> local_state \<Rightarrow> CNode list \<Rightarrow> bool \<times> local_state \<times> CNode list" where
  "AddLocal_addr e addr nScore st vNodes = AddLocal e \<lparr> svc_ip = addr, svc_port = le_ListenPort e \<rparr> nScore st vNodes"

definition SeenLocal :: "local_env \<Rightarrow> CService \<Rightarrow> local_state \<Rightarrow> CNode list \<Rightarrow> bool \<times> local_state \<times> CNode list" where
  "SeenLocal e addr st vNodes =
     (case local_get (svc_ip addr) (mapLocalHost st) of
        None \<Rightarrow> (False, st, vNodes)
      | Some i \<Rightarrow>
          let st = st\<lparr>mapLocalHost := local_put (svc_ip addr) (i\<lparr>lsi_nScore := lsi_nScore i + 1\<rparr>) (mapLocalHost st)\<rparr>
          in (True, st, AdvertizeLocal e st vNodes))"

definition IsLocal_service :: "CService \<Rightarrow> local_state \<Rightarrow> bool" where
  "IsLocal_service addr st \<longleftrightarrow> local_get (svc_ip addr) (mapLocalHost st) \<noteq> None"

definition IsReachable :: "CNetAddr \<Rightarrow> local_state \<Rightarrow> bool" where
  "IsReachable addr st = (let net = GetNetwork addr in vfReachable st net \<and> \<not> vfLimited st net)"

text \<open>FindNode: the position of the first node with that address or name.\<close>

definition FindNode_ip :: "CNetAddr \<Rightarrow> CNode list \<Rightarrow> nat option" where
  "FindNode_ip ip vNodes = find (\<lambda>i. NetAddr_eq (svc_ip (nd_addr (vNodes ! i))) ip) [0..<length vNodes]"

definition FindNode_name :: "string \<Rightarrow> CNode list \<Rightarrow> nat option" where
  "FindNode_name addrName vNodes = find (\<lambda>i. nd_addrName (vNodes ! i) = addrName) [0..<length vNodes]"

definition FindNode :: "CService \<Rightarrow> CNode list \<Rightarrow> nat option" where
  "FindNode addr vNodes = find (\<lambda>i. Service_eq (nd_addr (vNodes ! i)) addr) [0..<length vNodes]"

end
