(* ===== verification/PeerSpec.thy ===== *)
theory PeerSpec
  imports Peers "HOL-Library.Multiset"
begin

text \<open>What holds of the inventory a peer is known to have, of requests, of relayed messages, and of bans.\<close>

subsection \<open>mruset\<close>

definition mru_ok :: "'a mruset \<Rightarrow> bool" where
  "mru_ok m \<longleftrightarrow> mru_set m = set (mru_queue m) \<and> distinct (mru_queue m) \<and> (mru_nMaxSize m \<noteq> 0 \<longrightarrow> length (mru_queue m) \<le> mru_nMaxSize m)"

lemma mru_ok_init: "mru_ok (mru_init n)"
  by (simp add: mru_ok_def mru_init_def)

lemma mru_insert_queue:
  assumes "mru_ok m"
  shows "mru_queue (snd (mru_insert x m)) =
      (if x \<in> mru_set m then mru_queue m
       else (if mru_nMaxSize m \<noteq> 0 \<and> length (mru_queue m) = mru_nMaxSize m then tl (mru_queue m) else mru_queue m) @ [x])"
    "mru_nMaxSize (snd (mru_insert x m)) = mru_nMaxSize m"
  by (simp_all add: mru_insert_def Let_def)

lemma mru_ok_insert:
  assumes "mru_ok m"
  shows "mru_ok (snd (mru_insert x m))"
proof (cases "x \<in> mru_set m")
  case False
  have m: "mru_set m = set (mru_queue m)" "distinct (mru_queue m)" "mru_nMaxSize m \<noteq> 0 \<longrightarrow> length (mru_queue m) \<le> mru_nMaxSize m"
    using assms by (simp_all add: mru_ok_def)
  show ?thesis
  proof (cases "mru_nMaxSize m \<noteq> 0 \<and> length (mru_queue m) = mru_nMaxSize m")
    case True
    then obtain y q where "mru_queue m = y # q" by (cases "mru_queue m") auto
    then show ?thesis using True False m by (auto simp: mru_ok_def mru_insert_def Let_def)
  next
    case no: False
    then have "snd (mru_insert x m) = m\<lparr>mru_set := insert x (mru_set m), mru_queue := mru_queue m @ [x]\<rparr>"
      using False no by (auto simp: mru_insert_def Let_def)
    moreover have "mru_nMaxSize m \<noteq> 0 \<longrightarrow> Suc (length (mru_queue m)) \<le> mru_nMaxSize m" using m(3) no by linarith
    ultimately show ?thesis using m(1,2) False by (simp add: mru_ok_def)
  qed
qed (use assms in \<open>simp add: mru_insert_def\<close>)

lemma mru_shrink_eq: "X = set q \<Longrightarrow> distinct q \<Longrightarrow> mru_shrink s q X = (drop (length q - s) q, set (drop (length q - s) q))"
proof (induction q arbitrary: X)
  case (Cons x xs)
  show ?case
  proof (cases "length (x # xs) > s")
    case True
    then have "drop (length (x # xs) - s) (x # xs) = drop (length xs - s) xs" by (simp add: Suc_diff_le)
    then show ?thesis using True Cons.IH [of "X - {x}"] Cons.prems by auto
  qed (use Cons.prems in simp)
qed simp

lemma mru_ok_max_size: "mru_ok m \<Longrightarrow> mru_ok (mru_max_size s m)"
  by (auto simp: mru_ok_def mru_max_size_def Let_def mru_shrink_eq split: prod.split dest: in_set_dropD)

text \<open>An element that was new stays until as many others were inserted as fit.\<close>

definition inserts :: "'a list \<Rightarrow> 'a mruset \<Rightarrow> 'a mruset" where
  "inserts xs m = fold (\<lambda>x m. snd (mru_insert x m)) xs m"

lemma inserts_simps [simp]: "inserts [] m = m" "inserts (x # xs) m = inserts xs (snd (mru_insert x m))"
  by (simp_all add: inserts_def)

lemma mru_ok_inserts: "mru_ok m \<Longrightarrow> mru_ok (inserts xs m) \<and> mru_nMaxSize (inserts xs m) = mru_nMaxSize m"
  by (induction xs arbitrary: m) (simp_all add: mru_ok_insert mru_insert_queue)

lemma mru_stays:
  assumes "mru_ok m" "mru_queue m = as @ x # bs" "mru_nMaxSize m \<noteq> 0 \<longrightarrow> length bs + length ys < mru_nMaxSize m"
  shows "x \<in> mru_set (inserts ys m)"
  using assms
proof (induction ys arbitrary: m as bs)
  case Nil
  then show ?case by (simp add: mru_ok_def)
next
  case (Cons y ys)
  let ?m = "snd (mru_insert y m)"
  note q = mru_insert_queue [OF Cons.prems(1), of y]
  have "\<exists>as' bs'. mru_queue ?m = as' @ x # bs' \<and> length bs' \<le> Suc (length bs)"
  proof (cases "y \<in> mru_set m")
    case True
    then have "mru_queue ?m = as @ x # bs" using q Cons.prems(2) by simp
    then show ?thesis by (intro exI conjI, assumption) simp
  next
    case new: False
    show ?thesis
    proof (cases "mru_nMaxSize m \<noteq> 0 \<and> length (mru_queue m) = mru_nMaxSize m")
      case True
      then have "as \<noteq> []" using Cons.prems(2,3) by auto
      then have "mru_queue ?m = tl as @ x # (bs @ [y])" using q new True Cons.prems(2) by simp
      then show ?thesis by (intro exI conjI, assumption) simp
    next
      case False
      then have "mru_queue ?m = as @ x # (bs @ [y])" using q new Cons.prems(2) by auto
      then show ?thesis by (intro exI conjI, assumption) simp
    qed
  qed
  then obtain as' bs' where "mru_queue ?m = as' @ x # bs'" "length bs' \<le> Suc (length bs)" by blast
  moreover have "mru_nMaxSize ?m \<noteq> 0 \<longrightarrow> length bs' + length ys < mru_nMaxSize ?m"
    using calculation(2) Cons.prems(3) q(2) by auto
  ultimately show ?case using Cons.IH [OF mru_ok_insert [OF Cons.prems(1)]] by simp
qed

subsection \<open>Requests\<close>

definition due_items :: "(CInv \<Rightarrow> bool) \<Rightarrow> int \<Rightarrow> (int \<times> CInv) list \<Rightarrow> CInv list" where
  "due_items known nNow m = map snd (filter (\<lambda>e. \<not> known (snd e)) (takeWhile (\<lambda>e. fst e \<le> nNow) m))"

lemma due_items_simps [simp]:
  "due_items known nNow [] = []"
  "due_items known nNow ((t, iv) # m) = (if t \<le> nNow then (if known iv then [] else [iv]) @ due_items known nNow m else [])"
  by (simp_all add: due_items_def)

lemma send_getdata_loop_spec:
  "send_getdata_loop known nNow v msgs m asked = (v', msgs', m', asked') \<Longrightarrow> length v < 1000 \<Longrightarrow> \<forall>x\<in>set msgs. length x = 1000 \<Longrightarrow>
   concat msgs' @ v' = concat msgs @ v @ due_items known nNow m \<and>
   m' = dropWhile (\<lambda>e. fst e \<le> nNow) m \<and> length v' < 1000 \<and> (\<forall>x\<in>set msgs'. length x = 1000) \<and>
   (\<forall>iv. asked' iv = (if iv \<in> set (due_items known nNow m) then Some nNow else asked iv))"
proof (induction known nNow v msgs m asked rule: send_getdata_loop.induct)
  case (2 known nNow v msgs t iv m asked)
  consider "\<not> t \<le> nNow" | "t \<le> nNow" "known iv" | "t \<le> nNow" "\<not> known iv" "length (v @ [iv]) \<ge> 1000" | "t \<le> nNow" "\<not> known iv" "\<not> length (v @ [iv]) \<ge> 1000"
    by blast
  then show ?case
  proof cases
    case 1
    then show ?thesis using 2(4-6) by auto
  next
    case b: 2
    have "send_getdata_loop known nNow v msgs m asked = (v', msgs', m', asked')" using 2(4) b by simp
    from 2(1) [OF _ b(2) this 2(5,6)] show ?thesis using b by simp
  next
    case c: 3
    have l: "length (v @ [iv]) = 1000" using c(3) 2(5) by simp
    have "send_getdata_loop known nNow [] (msgs @ [v @ [iv]]) m (asked(iv \<mapsto> nNow)) = (v', msgs', m', asked')"
      using 2(4) c by (simp add: Let_def)
    from 2(2) [OF _ c(2) refl refl c(3) this] show ?thesis using c(1,2) l 2(6) by simp
  next
    case d: 4
    have "send_getdata_loop known nNow (v @ [iv]) msgs m (asked(iv \<mapsto> nNow)) = (v', msgs', m', asked')"
      using 2(4) d by (simp add: Let_def)
    from 2(3) [OF _ d(2) refl refl d(3) this] show ?thesis using d 2(6) by simp
  qed
qed auto

lemma sorted_due:
  "sorted (map fst m) \<Longrightarrow> takeWhile (\<lambda>e. fst e \<le> n) m = filter (\<lambda>e. fst e \<le> n) m \<and> dropWhile (\<lambda>e. fst e \<le> n) m = filter (\<lambda>e. \<not> fst e \<le> n) m"
  for n :: int
proof (induction m)
  case (Cons e m)
  show ?case
  proof (cases "fst e \<le> n")
    case False
    then have "\<forall>x\<in>set m. \<not> fst x \<le> n" using Cons.prems by fastforce
    then show ?thesis using False by (simp add: filter_id_conv)
  qed (use Cons in simp)
qed simp

lemma SendGetData_spec:
  assumes "SendGetData known now n st = (msgs, n', st')"
  shows "concat msgs = due_items known (now * 1000000) (nd_mapAskFor n)"
    "nd_mapAskFor n' = dropWhile (\<lambda>e. fst e \<le> now * 1000000) (nd_mapAskFor n)"
    "mapAlreadyAskedFor st' iv = (if iv \<in> set (concat msgs) then Some (now * 1000000) else mapAlreadyAskedFor st iv)"
    "ask_nLastTime st' = ask_nLastTime st" "\<forall>x\<in>set msgs. x \<noteq> [] \<and> length x \<le> 1000" "\<forall>x\<in>set (butlast msgs). length x = 1000"
proof -
  obtain v ms m asked where l: "send_getdata_loop known (now * 1000000) [] [] (nd_mapAskFor n) (mapAlreadyAskedFor st) = (v, ms, m, asked)"
    by (metis prod_cases4)
  have sp: "concat ms @ v = due_items known (now * 1000000) (nd_mapAskFor n)" "m = dropWhile (\<lambda>e. fst e \<le> now * 1000000) (nd_mapAskFor n)"
    "length v < 1000" "\<forall>x\<in>set ms. length x = 1000"
    "asked iv = (if iv \<in> set (due_items known (now * 1000000) (nd_mapAskFor n)) then Some (now * 1000000) else mapAlreadyAskedFor st iv)" for iv
    using send_getdata_loop_spec [OF l] by simp_all
  have r: "msgs = (if v \<noteq> [] then ms @ [v] else ms)" "n' = n\<lparr>nd_mapAskFor := m\<rparr>" "st' = st\<lparr>mapAlreadyAskedFor := asked\<rparr>"
    using assms l by (simp_all add: SendGetData_def Let_def)
  show c: "concat msgs = due_items known (now * 1000000) (nd_mapAskFor n)" using r(1) sp(1) by (cases "v = []") simp_all
  show "nd_mapAskFor n' = dropWhile (\<lambda>e. fst e \<le> now * 1000000) (nd_mapAskFor n)" using sp(2) r(2) by simp
  show "mapAlreadyAskedFor st' iv = (if iv \<in> set (concat msgs) then Some (now * 1000000) else mapAlreadyAskedFor st iv)"
    unfolding c using sp(5) r(3) by simp
  show "ask_nLastTime st' = ask_nLastTime st" using r(3) by simp
  show "\<forall>x\<in>set msgs. x \<noteq> [] \<and> length x \<le> 1000" using sp(3,4) r(1) by (auto split: if_splits)
  show "\<forall>x\<in>set (butlast msgs). length x = 1000" using sp(4) r(1) by (auto split: if_splits dest: in_set_butlastD)
qed

text \<open>AskFor, the sending of requests and the arrival of items, with any peer, in any order. For each item the log holds the time
  at which a request for it was last sent, and the times set for the requests queued since then; it is empty once the
  item has arrived.\<close>

inductive ask_run :: "u32 \<Rightarrow> (CInv \<Rightarrow> int list) \<Rightarrow> ask_state \<Rightarrow> bool" for retry where
  ask_start: "ask_run retry (\<lambda>_. []) \<lparr> mapAlreadyAskedFor = Map.empty, ask_nLastTime = t0 \<rparr>"
| ask_queued: "ask_run retry lg st \<Longrightarrow> AskFor retry GetTime iv n st = (n', st') \<Longrightarrow> mapAlreadyAskedFor st' iv = Some t \<Longrightarrow>
    ask_run retry (lg(iv := lg iv @ [t])) st'"
| ask_sent: "ask_run retry lg st \<Longrightarrow> SendGetData known GetTime n st = (msgs, n', st') \<Longrightarrow>
    ask_run retry (\<lambda>iv. if iv \<in> set (concat msgs) then [GetTime * 1000000] else lg iv) st'"
| ask_arrived: "ask_run retry lg st \<Longrightarrow> ask_run retry (lg(iv := [])) (erase_asked iv st)"

lemma AskFor_time:
  assumes "AskFor retry GetTime iv n st = (n', st')" "mapAlreadyAskedFor st' iv = Some t"
  shows "t \<ge> (GetTime - 1) * 1000000"
    "mapAlreadyAskedFor st iv = Some t0 \<Longrightarrow> t \<ge> t0 + sint (retry * 1000000)"
    "mapAlreadyAskedFor st' = (mapAlreadyAskedFor st)(iv \<mapsto> t)" "nd_mapAskFor n' = multimap_insert t iv (nd_mapAskFor n)"
  using assms by (auto simp: AskFor_def Let_def)

abbreviation spaced :: "u32 \<Rightarrow> int list \<Rightarrow> bool" where
  "spaced retry \<equiv> sorted_wrt (\<lambda>t1 t2. t1 + sint (retry * 1000000) \<le> t2)"

lemma spaced_snoc:
  assumes "spaced retry ts" "0 \<le> sint (retry * 1000000)" "ts \<noteq> [] \<Longrightarrow> last ts + sint (retry * 1000000) \<le> t"
  shows "spaced retry (ts @ [t])"
proof (cases ts rule: rev_cases)
  case (snoc ys y)
  then show ?thesis using assms by (fastforce simp: sorted_wrt_append)
qed simp

lemma ask_run_spaced:
  assumes "ask_run retry lg st" "0 \<le> sint (retry * 1000000)"
  shows "mapAlreadyAskedFor st iv = (if lg iv = [] then None else Some (last (lg iv))) \<and> spaced retry (lg iv)"
  using assms(1)
proof (induction arbitrary: iv)
  case (ask_queued lg st GetTime iv' n n' st' t)
  have "last (lg iv') + sint (retry * 1000000) \<le> t" if "lg iv' \<noteq> []"
    using AskFor_time(2) [OF ask_queued.hyps(2,3)] ask_queued.IH [of iv'] that by simp
  then show ?case using spaced_snoc [OF _ assms(2)] AskFor_time(3) [OF ask_queued.hyps(2,3)] ask_queued.IH by simp
next
  case (ask_sent lg st known GetTime n msgs n' st')
  then show ?case using SendGetData_spec(3) [OF ask_sent.hyps(2), of iv] by simp
qed (simp_all add: erase_asked_def)

lemma sorted_multimap_insert:
  assumes "sorted (map fst m)"
  shows "sorted (map fst (multimap_insert k v m))" "mset (multimap_insert k v m) = add_mset (k, v) (mset m)"
proof -
  have s: "sorted (map fst (takeWhile (\<lambda>e. fst e \<le> k) m @ dropWhile (\<lambda>e. fst e \<le> k) m))" using assms by simp
  then have sd: "sorted (map fst (dropWhile (\<lambda>e. fst e \<le> k) m))" by (simp only: map_append sorted_append)
  have "\<forall>e\<in>set (dropWhile (\<lambda>e. fst e \<le> k) m). k \<le> fst e"
  proof (cases "dropWhile (\<lambda>e. fst e \<le> k) m")
    case (Cons d ds)
    then have "\<not> fst d \<le> k" using hd_dropWhile [of "\<lambda>e. fst e \<le> k" m] by simp
    then show ?thesis using Cons sd by auto
  next
    case Nil
    then show ?thesis by (simp only: list.set ball_empty)
  qed
  moreover have "\<forall>e\<in>set (takeWhile (\<lambda>e. fst e \<le> k) m). fst e \<le> k" using set_takeWhileD by fastforce
  ultimately show "sorted (map fst (multimap_insert k v m))" using s
    by (auto simp: multimap_insert_def sorted_append simp del: takeWhile_dropWhile_id intro: order_trans)
  show "mset (multimap_insert k v m) = add_mset (k, v) (mset m)"
    by (simp add: multimap_insert_def) (simp flip: mset_append)
qed

subsection \<open>Relayed messages\<close>

text \<open>Messages relayed at times that do not go back; the log holds the time, the inventory and the bytes of each.\<close>

inductive relay_run :: "(int \<times> CInv \<times> cds) list \<Rightarrow> relay_state \<Rightarrow> bool" where
  start: "relay_run [] \<lparr> mapRelay = Map.empty, vRelayExpiration = [] \<rparr>"
| relay: "relay_run lg st \<Longrightarrow> \<forall>e\<in>set lg. fst e \<le> GetTime \<Longrightarrow> RelayMessage GetTime iv ss vNodes st = (vNodes', st') \<Longrightarrow>
    relay_run (lg @ [(GetTime, iv, ss)]) st'"







subsection \<open>Bans and the node's own addresses\<close>

lemma Misbehaving_bans:
  assumes "\<not> IsLocal (svc_ip (nd_addr n))" "banscore \<le>s nd_nMisbehavior n + howmuch"
    and "Misbehaving banscore bantime GetTime howmuch n bans f = (b, n', bans', f')"
  shows "b" "nd_fDisconnect n'" "\<not> nd_hSocket n'" "t < GetTime + bantime \<Longrightarrow> IsBanned t (svc_ip (nd_addr n)) bans'"
    "ip \<noteq> svc_ip (nd_addr n) \<Longrightarrow> IsBanned t ip bans' = IsBanned t ip bans" "IsBanned t ip bans \<Longrightarrow> IsBanned t ip bans'"
  using assms by (auto simp: Misbehaving_def CloseSocketDisconnect_def IsBanned_def Let_def split: if_splits option.splits)

text \<open>GetLocal finds an address of the best reachability, and of the best score among those.\<close>

definition better :: "CNetAddr option \<Rightarrow> CNetAddr \<times> LocalServiceInfo \<Rightarrow> int \<Rightarrow> int \<Rightarrow> bool" where
  "better p e r sc \<longleftrightarrow> r < reach_int (GetReachabilityFrom (fst e) p) \<or>
     r = reach_int (GetReachabilityFrom (fst e) p) \<and> sc < sint (lsi_nScore (snd e))"

lemma GetLocal_loop_best:
  "GetLocal_loop p m sc r addr = (sc', addr') \<Longrightarrow>
     (sc' = sc \<and> addr' = addr \<and> (\<forall>e\<in>set m. \<not> better p e r sc)) \<or>
     (\<exists>e\<in>set m. sc' = sint (lsi_nScore (snd e)) \<and> addr' = \<lparr> svc_ip = fst e, svc_port = lsi_nPort (snd e) \<rparr> \<and> better p e r sc \<and>
        (\<forall>e'\<in>set m. \<not> better p e' (reach_int (GetReachabilityFrom (fst e) p)) sc'))"
proof (induction m arbitrary: sc r addr)
  case (Cons e m)
  obtain a i where e: "e = (a, i)" by fastforce
  let ?r = "reach_int (GetReachabilityFrom a p)" and ?s = "sint (lsi_nScore i)"
  show ?case
  proof (cases "better p e r sc")
    case True
    then have "GetLocal_loop p m ?s ?r \<lparr> svc_ip = a, svc_port = lsi_nPort i \<rparr> = (sc', addr')"
      using Cons.prems by (auto simp: e better_def Let_def)
    from Cons.IH [OF this] show ?thesis
    proof (elim disjE)
      assume "sc' = ?s \<and> addr' = \<lparr> svc_ip = a, svc_port = lsi_nPort i \<rparr> \<and> (\<forall>e\<in>set m. \<not> better p e ?r ?s)"
      then show ?thesis using True by (intro disjI2 bexI [of _ e]) (auto simp: e better_def)
    next
      assume "\<exists>e\<in>set m. sc' = sint (lsi_nScore (snd e)) \<and> addr' = \<lparr> svc_ip = fst e, svc_port = lsi_nPort (snd e) \<rparr> \<and> better p e ?r ?s \<and>
        (\<forall>e'\<in>set m. \<not> better p e' (reach_int (GetReachabilityFrom (fst e) p)) sc')"
      then obtain d where "d \<in> set m" "sc' = sint (lsi_nScore (snd d))" "addr' = \<lparr> svc_ip = fst d, svc_port = lsi_nPort (snd d) \<rparr>" "better p d ?r ?s"
        "\<forall>e'\<in>set m. \<not> better p e' (reach_int (GetReachabilityFrom (fst d) p)) sc'" by blast
      then show ?thesis using True by (intro disjI2 bexI [of _ d]) (auto simp: e better_def)
    qed
  next
    case False
    then have "GetLocal_loop p m sc r addr = (sc', addr')" using Cons.prems by (auto simp: e better_def Let_def)
    from Cons.IH [OF this] show ?thesis
    proof (elim disjE bexE)
      fix d assume "d \<in> set m" "sc' = sint (lsi_nScore (snd d)) \<and> addr' = \<lparr> svc_ip = fst d, svc_port = lsi_nPort (snd d) \<rparr> \<and> better p d r sc \<and>
        (\<forall>e'\<in>set m. \<not> better p e' (reach_int (GetReachabilityFrom (fst d) p)) sc')"
      then show ?thesis using False by (intro disjI2 bexI [of _ d]) (auto simp: better_def)
    qed (use False in simp)
  qed
qed simp

subsection \<open>Properties\<close>

text \<open>The inventory a peer is known to have is a set of bounded size; an item that was new to it stays there
  until as many others were inserted as it has places.\<close>

theorem known_inventory_recent:
  "let m = inserts xs (mru_max_size n (mru_init k)) in
     mru_set m = set (mru_queue m) \<and> mru_size m = length (mru_queue m) \<and> (n \<noteq> 0 \<longrightarrow> mru_size m \<le> n) \<and>
     (n \<noteq> 0 \<longrightarrow> length ys < n \<longrightarrow> mru_count x m = 0 \<longrightarrow> mru_count x (inserts ys (snd (mru_insert x m))) = 1) \<and>
     (n = 0 \<longrightarrow> mru_count x (inserts ys (snd (mru_insert x m))) = 1)"
proof -
  define m where "m = inserts xs (mru_max_size n (mru_init k))"
  have "mru_nMaxSize (mru_max_size n (mru_init k)) = n" by (simp add: mru_max_size_def Let_def)
  then have n: "mru_ok m" "mru_nMaxSize m = n"
    using mru_ok_inserts [OF mru_ok_max_size [OF mru_ok_init], of xs n k] by (simp_all add: m_def)
  have i: "mru_ok (snd (mru_insert x m))" "mru_nMaxSize (snd (mru_insert x m)) = n"
    using mru_ok_insert [OF n(1)] mru_insert_queue(2) [OF n(1)] n(2) by simp_all
  have "x \<in> mru_set (inserts ys (snd (mru_insert x m)))" if "n \<noteq> 0 \<longrightarrow> length ys < n \<and> x \<notin> mru_set m"
  proof -
    have "\<exists>as bs. mru_queue (snd (mru_insert x m)) = as @ x # bs \<and> (n \<noteq> 0 \<longrightarrow> bs = [])"
    proof (cases "x \<in> mru_set m")
      case True
      then have "x \<in> set (mru_queue m)" using n(1) by (simp add: mru_ok_def)
      then obtain as bs where "mru_queue m = as @ x # bs" using split_list by fastforce
      then show ?thesis using True that mru_insert_queue(1) [OF n(1), of x] by auto
    next
      case False
      then show ?thesis unfolding mru_insert_queue(1) [OF n(1), of x] by auto
    qed
    then obtain as bs where q: "mru_queue (snd (mru_insert x m)) = as @ x # bs" "n \<noteq> 0 \<longrightarrow> bs = []" by blast
    show ?thesis by (rule mru_stays [OF i(1) q(1)]) (use q(2) i(2) that in auto)
  qed
  note stays = this
  have ok: "mru_set m = set (mru_queue m)" "distinct (mru_queue m)" "n \<noteq> 0 \<longrightarrow> length (mru_queue m) \<le> n"
    using n by (simp_all add: mru_ok_def)
  then have "mru_size m = length (mru_queue m)" by (simp add: mru_size_def distinct_card)
  then show ?thesis unfolding m_def [symmetric] Let_def
    by (intro conjI impI) (use ok stays in \<open>auto simp: mru_count_def split: if_splits\<close>)
qed

text \<open>C37. The requests queued for an item, to whatever peers, since a request for it was last sent or the item arrived are at
  least the retry time apart, and all of them at least the retry time after that sending; the next one AskFor queues keeps
  to that, is not before the second it is asked for, and stands in the peer's queue in the order of times. A request that is
  sent resets the time of its item to the present.\<close>

theorem requests_spaced:
  assumes "ask_run retry lg st" "0 \<le> sint (retry * 1000000)"
    and "AskFor retry GetTime iv n st = (n', st')" "sorted (map fst (nd_mapAskFor n))"
  shows "spaced retry (lg iv) \<and>
    (\<exists>t. mapAlreadyAskedFor st' iv = Some t \<and> (\<forall>t1\<in>set (lg iv). t1 + sint (retry * 1000000) \<le> t) \<and> (GetTime - 1) * 1000000 \<le> t \<and>
       sorted (map fst (nd_mapAskFor n')) \<and> mset (nd_mapAskFor n') = add_mset (t, iv) (mset (nd_mapAskFor n)))"
proof -
  obtain t where t: "mapAlreadyAskedFor st' iv = Some t" using assms(3) by (auto simp: AskFor_def Let_def)
  have "spaced retry (lg iv @ [t])" using ask_run_spaced [OF ask_queued [OF assms(1,3) t] assms(2), of iv] by simp
  then show ?thesis using t AskFor_time(1,4) [OF assms(3) t] sorted_multimap_insert [OF assms(4)] by (auto simp: sorted_wrt_append)
qed

text \<open>C36. SendMessages sends the requests that are due, in the order of their times, for the items the node does not have yet,
  in "getdata" messages of 1000 items and one of the rest; it keeps exactly the requests that are not due, and the time
  of an item asked for becomes the present.\<close>

theorem due_requests_sent:
  assumes "sorted (map fst (nd_mapAskFor n))" "SendGetData known GetTime n st = (msgs, n', st')"
  shows "concat msgs = map snd (filter (\<lambda>(t, iv). t \<le> GetTime * 1000000 \<and> \<not> known iv) (nd_mapAskFor n)) \<and>
    nd_mapAskFor n' = filter (\<lambda>(t, iv). GetTime * 1000000 < t) (nd_mapAskFor n) \<and>
    (\<forall>x\<in>set msgs. x \<noteq> [] \<and> length x \<le> 1000) \<and> (\<forall>x\<in>set (butlast msgs). length x = 1000) \<and>
    (\<forall>iv. mapAlreadyAskedFor st' iv = (if iv \<in> set (concat msgs) then Some (GetTime * 1000000) else mapAlreadyAskedFor st iv))"
proof -
  have "takeWhile (\<lambda>e. fst e \<le> k) m = filter (\<lambda>e. fst e \<le> k) m \<and> dropWhile (\<lambda>e. fst e \<le> k) m = filter (\<lambda>e. k < fst e) m"
    if "sorted (map fst m)" for k :: int and m :: "(int \<times> CInv) list"
    using that
  proof (induction m)
    case (Cons e m)
    show ?case
    proof (cases "fst e \<le> k")
      case False
      then have "\<forall>x\<in>set m. k < fst x" using Cons.prems by fastforce
      then have "filter (\<lambda>e. k < fst e) m = m" "filter (\<lambda>e. fst e \<le> k) m = []" by (fastforce simp: filter_id_conv filter_empty_conv)+
      then show ?thesis using False by simp
    qed (use Cons in simp)
  qed simp
  note s = this [OF assms(1), of "GetTime * 1000000"] and sp = SendGetData_spec [OF assms(2)]
  have "concat msgs = map snd (filter (\<lambda>(t, iv). t \<le> GetTime * 1000000 \<and> \<not> known iv) (nd_mapAskFor n))"
    unfolding sp(1) due_items_def conjunct1 [OF s] by (simp add: case_prod_unfold)
  moreover have "nd_mapAskFor n' = filter (\<lambda>(t, iv). GetTime * 1000000 < t) (nd_mapAskFor n)"
    unfolding sp(2) conjunct2 [OF s] by (simp add: case_prod_unfold)
  ultimately show ?thesis using sp(3,5,6) by blast
qed


text \<open>A message relayed a second time is no longer offered once 15 minutes have passed since the first time.\<close>

theorem relayed_again_expires_early:
  assumes "iv \<noteq> other"
  shows "\<exists>st. relay_run [(0, iv, ss), (600, iv, ss), (901, other, ss)] st \<and> mapRelay st iv = None"
proof -
  let ?s0 = "\<lparr> mapRelay = Map.empty, vRelayExpiration = [] \<rparr>"
  define s1 where "s1 = snd (RelayMessage 0 iv ss [] ?s0)"
  define s2 where "s2 = snd (RelayMessage 600 iv ss [] s1)"
  define s3 where "s3 = snd (RelayMessage 901 other ss [] s2)"
  have r1: "relay_run [(0, iv, ss)] s1" using relay_run.relay [OF relay_run.start, of 0 iv ss "[]" "[]" s1]
    by (simp add: s1_def RelayMessage_def RelayInventory_def)
  have "RelayMessage 600 iv ss [] s1 = ([], s2)" by (simp add: s2_def RelayMessage_def RelayInventory_def s1_def)
  then have r2: "relay_run [(0, iv, ss), (600, iv, ss)] s2" using relay_run.relay [OF r1, of 600 iv] by simp
  have "RelayMessage 901 other ss [] s2 = ([], s3)" by (simp add: s3_def s2_def RelayMessage_def RelayInventory_def s1_def)
  then have r3: "relay_run [(0, iv, ss), (600, iv, ss), (901, other, ss)] s3" using relay_run.relay [OF r2, of 901 other] by simp
  have "mapRelay s3 iv = None" using assms by (simp add: s3_def s2_def s1_def RelayMessage_def)
  with r3 show ?thesis by blast
qed

text \<open>Examples.\<close>

theorem known_inventory_recent_witness:
  "let m = inserts [1, 2, 3] (mru_max_size 2 (mru_init 0)) in mru_size m = 2 \<and> mru_count (4 :: nat) (inserts [5] (snd (mru_insert 4 m))) = 1"
proof -
  let ?m = "inserts [1, 2, 3 :: nat] (mru_max_size 2 (mru_init 0))"
  have "mru_size ?m = 2 \<and> mru_count 4 ?m = 0"
    by (simp add: mru_size_def mru_count_def mru_insert_def mru_max_size_def mru_init_def Let_def)
  then show ?thesis using known_inventory_recent [of "[1, 2, 3]" 2 0 "[5 :: nat]" 4] by (simp only: Let_def) simp
qed

definition w_inv :: CInv where "w_inv = Inv_of MSG_TX (replicate 8 0)"

lemma w_ask: "\<exists>n' st' t. AskFor 10 100 w_inv n st = (n', st') \<and> mapAlreadyAskedFor st' w_inv = Some t"
  by (simp add: AskFor_def Let_def)

theorem requests_spaced_witness:
  "\<exists>lg t1 t2 st. ask_run 10 lg st \<and> lg w_inv = [t1, t2] \<and> t1 + 10000000 \<le> t2"
proof -
  let ?n = "CNode_init (\<lambda>_. None) 0 True Address_init [] False"
  obtain n1 s1 t1 where a1: "AskFor 10 100 w_inv ?n \<lparr> mapAlreadyAskedFor = Map.empty, ask_nLastTime = 0 \<rparr> = (n1, s1)"
    "mapAlreadyAskedFor s1 w_inv = Some t1" using w_ask by blast
  note r1 = ask_queued [OF ask_start a1]
  obtain n2 s2 t2 where a2: "AskFor 10 100 w_inv ?n s1 = (n2, s2)" "mapAlreadyAskedFor s2 w_inv = Some t2" using w_ask by blast
  note r2 = ask_queued [OF r1 a2]
  obtain n3 s3 t3 where a3: "AskFor 10 100 w_inv ?n s2 = (n3, s3)" using w_ask by blast
  have "0 \<le> sint (10 * 1000000 :: u32)" "sorted (map fst (nd_mapAskFor ?n))" by (simp_all add: CNode_init_def)
  from requests_spaced [OF r2 this(1) a3 this(2)] have "t1 + 10000000 \<le> t2" by simp
  moreover have "((\<lambda>_. [])(w_inv := [] @ [t1], w_inv := ((\<lambda>_. [])(w_inv := [] @ [t1])) w_inv @ [t2])) w_inv = [t1, t2]" by simp
  ultimately show ?thesis using r2 by blast
qed

theorem due_requests_sent_witness:
  "\<exists>n' st'. SendGetData (\<lambda>iv. inv_type iv = MSG_BLOCK) 1
      ((CNode_init (\<lambda>_. None) 0 True Address_init [] False)\<lparr>nd_mapAskFor := [(5, w_inv), (7, Inv_of MSG_BLOCK []), (2000000, Inv_init)]\<rparr>)
      \<lparr> mapAlreadyAskedFor = Map.empty, ask_nLastTime = 0 \<rparr> = ([[w_inv]], n', st') \<and> nd_mapAskFor n' = [(2000000, Inv_init)]"
proof -
  let ?n = "(CNode_init (\<lambda>_. None) 0 True Address_init [] False)\<lparr>nd_mapAskFor := [(5, w_inv), (7, Inv_of MSG_BLOCK []), (2000000, Inv_init)]\<rparr>"
  let ?st = "\<lparr> mapAlreadyAskedFor = Map.empty, ask_nLastTime = 0 \<rparr>" and ?known = "\<lambda>iv. inv_type iv = MSG_BLOCK"
  obtain msgs n' st' where g: "SendGetData ?known 1 ?n ?st = (msgs, n', st')" by (metis prod_cases3)
  have "msgs = [[w_inv]]" using g by (simp add: SendGetData_def w_inv_def Inv_of_def Inv_init_def MSG_TX_def MSG_BLOCK_def Let_def)
  moreover have "sorted (map fst (nd_mapAskFor ?n))" by simp
  ultimately show ?thesis using due_requests_sent [OF _ g] g by simp
qed


theorem relayed_again_expires_early_witness:
  "\<exists>ss st. relay_run [(0, w_inv, ss), (600, w_inv, ss), (901, Inv_init, ss)] st \<and> mapRelay st w_inv = None"
proof -
  have "w_inv \<noteq> Inv_init" by (simp add: w_inv_def Inv_of_def Inv_init_def MSG_TX_def)
  from relayed_again_expires_early [OF this, of "ds_Init [] 1 0"] show ?thesis by blast
qed

end
