(* ===== verification/KeyPool.thy ===== *)
theory KeyPool
  imports Keystore
begin

text \<open>
  Keys of the wallet, from src/wallet.h and src/wallet.cpp: the wallet's version, new keys, and the pool of
  reserved keys. The key pool is the list of its indices; of the wallet's database the model keeps the entries of the
  pool. What the program draws or asks the system for (keys, times, whether a write succeeds) comes from
  sequences read at a clock that ticks with every use. A result of None is an exception or a failed
  assertion; the state is the one it leaves.
\<close>

subsection \<open>State\<close>

record CKeyPool =
  kp_nTime :: u64
  kp_vchPubKey :: "byte list"

record key_wallet =
  kw_store :: CCryptoKeyStore
  nWalletVersion :: int
  nWalletMaxVersion :: int
  fFileBacked :: bool
  vchDefaultKey :: "byte list"
  setKeyPool :: "int list"
  kw_pool :: "int \<rightharpoonup> CKeyPool" \<comment> \<open>the "pool" records of the database\<close>
  kw_clock :: nat

record key_env =
  ke_crypto :: crypto
  ke_lib :: keylib
  ke_io :: "nat \<Rightarrow> bool" \<comment> \<open>the verdict of a write\<close>
  ke_newkey :: "nat \<Rightarrow> bool \<Rightarrow> CKey" \<comment> \<open>CKey::MakeNewKey\<close>
  ke_time :: "nat \<Rightarrow> u64" \<comment> \<open>GetTime\<close>
  ke_keypool :: int \<comment> \<open>GetArg("-keypool", 100)\<close>

definition FEATURE_BASE :: int where "FEATURE_BASE = 10500"
definition FEATURE_WALLETCRYPT :: int where "FEATURE_WALLETCRYPT = 40000"
definition FEATURE_COMPRPUBKEY :: int where "FEATURE_COMPRPUBKEY = 60000"
definition FEATURE_LATEST :: int where "FEATURE_LATEST = 60000"

definition kw_tick :: "key_wallet \<Rightarrow> key_wallet" where "kw_tick w = w\<lparr>kw_clock := kw_clock w + 1\<rparr>"

definition CPubKey_IsValid :: "byte list \<Rightarrow> bool" where
  "CPubKey_IsValid vch \<longleftrightarrow> length vch = 33 \<or> length vch = 65"

subsection \<open>Versions\<close>

definition CanSupportFeature :: "key_wallet \<Rightarrow> int \<Rightarrow> bool" where
  "CanSupportFeature w feature \<longleftrightarrow> feature \<le> nWalletMaxVersion w"

definition LoadMinVersion :: "key_wallet \<Rightarrow> int \<Rightarrow> bool \<times> key_wallet" where
  "LoadMinVersion w nVersion =
     (True, w\<lparr>nWalletVersion := nVersion, nWalletMaxVersion := max (nWalletMaxVersion w) nVersion\<rparr>)"

definition SetMinVersion :: "key_wallet \<Rightarrow> int \<Rightarrow> bool \<Rightarrow> bool \<times> key_wallet" where
  "SetMinVersion w nVersion fExplicit =
     (if nVersion \<le> nWalletVersion w then (True, w)
      else let nVersion = (if fExplicit \<and> nWalletMaxVersion w < nVersion then FEATURE_LATEST else nVersion);
               w = w\<lparr>nWalletVersion := nVersion\<rparr>
           in (True, if nWalletMaxVersion w < nVersion then w\<lparr>nWalletMaxVersion := nVersion\<rparr> else w))"

definition SetMaxVersion :: "key_wallet \<Rightarrow> int \<Rightarrow> bool \<times> key_wallet" where
  "SetMaxVersion w nVersion =
     (if nVersion < nWalletVersion w then (False, w) else (True, w\<lparr>nWalletMaxVersion := nVersion\<rparr>))"

subsection \<open>Adding keys\<close>

definition db_write :: "key_env \<Rightarrow> key_wallet \<Rightarrow> bool \<times> key_wallet" where
  "db_write E w = (ke_io E (kw_clock w), kw_tick w)"

definition CWallet_AddCryptedKey :: "key_env \<Rightarrow> byte list \<Rightarrow> byte list \<Rightarrow> key_wallet \<Rightarrow> bool \<times> key_wallet" where
  "CWallet_AddCryptedKey E vchPubKey vchCryptedSecret w =
     (case AddCryptedKey (ke_crypto E) vchPubKey vchCryptedSecret (kw_store w) of (ok, s) \<Rightarrow>
        let w = w\<lparr>kw_store := s\<rparr>
        in if \<not> ok then (False, w) else if \<not> fFileBacked w then (True, w) else db_write E w)"

text \<open>CCryptoKeyStore::AddKey with the call of the virtual AddCryptedKey.\<close>

definition CWallet_AddKey :: "key_env \<Rightarrow> CKey \<Rightarrow> key_wallet \<Rightarrow> bool \<times> key_wallet" where
  "CWallet_AddKey E key w =
     (let s = kw_store w; vchPubKey = kl_pub (ke_lib E) key
      in if \<not> fUseCrypto s
         then let w = w\<lparr>kw_store := Basic_AddKey (ke_crypto E) (ke_lib E) s key\<rparr>
              in if \<not> fFileBacked w then (True, w) else db_write E w
         else if IsLocked s then (False, w)
         else case kl_encrypt (ke_lib E) (vMasterKey s) (fst key) (Hash (cr_sha256 (ke_crypto E)) vchPubKey) of
                None \<Rightarrow> (False, w)
              | Some vchCryptedSecret \<Rightarrow> CWallet_AddCryptedKey E vchPubKey vchCryptedSecret w)"

definition CWallet_AddCScript :: "key_env \<Rightarrow> CScript \<Rightarrow> key_wallet \<Rightarrow> bool \<times> key_wallet" where
  "CWallet_AddCScript E redeemScript w =
     (let w = w\<lparr>kw_store := AddCScript (ke_crypto E) (kw_store w) redeemScript\<rparr>
      in if \<not> fFileBacked w then (True, w) else db_write E w)"

definition GenerateNewKey :: "key_env \<Rightarrow> key_wallet \<Rightarrow> byte list option \<times> key_wallet" where
  "GenerateNewKey E w =
     (let fCompressed = CanSupportFeature w FEATURE_COMPRPUBKEY;
          key = ke_newkey E (kw_clock w) fCompressed;
          w = kw_tick w;
          w = (if fCompressed then snd (SetMinVersion w FEATURE_COMPRPUBKEY False) else w)
      in case CWallet_AddKey E key w of (ok, w) \<Rightarrow>
           if \<not> ok then (None, w) else (Some (kl_pub (ke_lib E) key), w))"

definition SetDefaultKey :: "key_env \<Rightarrow> byte list \<Rightarrow> key_wallet \<Rightarrow> bool \<times> key_wallet" where
  "SetDefaultKey E vchPubKey w =
     (let (ok, w) = (if fFileBacked w then db_write E w else (True, w))
      in if \<not> ok then (False, w) else (True, w\<lparr>vchDefaultKey := vchPubKey\<rparr>))"

subsection \<open>The key pool\<close>

definition WritePool :: "key_env \<Rightarrow> int \<Rightarrow> CKeyPool \<Rightarrow> key_wallet \<Rightarrow> bool \<times> key_wallet" where
  "WritePool E nIndex keypool w =
     (case db_write E w of (ok, w) \<Rightarrow> (ok, if ok then w\<lparr>kw_pool := (kw_pool w)(nIndex \<mapsto> keypool)\<rparr> else w))"

definition ErasePool :: "key_env \<Rightarrow> int \<Rightarrow> key_wallet \<Rightarrow> bool \<times> key_wallet" where
  "ErasePool E nIndex w =
     (case db_write E w of (ok, w) \<Rightarrow> (ok, if ok then w\<lparr>kw_pool := (kw_pool w)(nIndex := None)\<rparr> else w))"

definition pool_insert :: "int \<Rightarrow> key_wallet \<Rightarrow> key_wallet" where
  "pool_insert nIndex w = w\<lparr>setKeyPool := List.insert nIndex (setKeyPool w)\<rparr>"

text \<open>CKeyPool(GenerateNewKey()) and its time.\<close>

definition new_pool_key :: "key_env \<Rightarrow> key_wallet \<Rightarrow> CKeyPool option \<times> key_wallet" where
  "new_pool_key E w =
     (case GenerateNewKey E w of
        (None, w) \<Rightarrow> (None, w)
      | (Some vch, w) \<Rightarrow> (Some \<lparr> kp_nTime = ke_time E (kw_clock w), kp_vchPubKey = vch \<rparr>, kw_tick w))"

fun NewKeyPool_loop :: "key_env \<Rightarrow> nat \<Rightarrow> nat \<Rightarrow> key_wallet \<Rightarrow> unit option \<times> key_wallet" where
  "NewKeyPool_loop E i 0 w = (Some (), w)"
| "NewKeyPool_loop E i (Suc n) w =
     (let nIndex = int i + 1
      in case new_pool_key E w of
           (None, w) \<Rightarrow> (None, w)
         | (Some kp, w) \<Rightarrow> NewKeyPool_loop E (i + 1) n (pool_insert nIndex (snd (WritePool E nIndex kp w))))"

definition NewKeyPool :: "key_env \<Rightarrow> key_wallet \<Rightarrow> bool option \<times> key_wallet" where
  "NewKeyPool E w =
     (let w = fold (\<lambda>nIndex w. snd (ErasePool E nIndex w)) (sort (setKeyPool w)) w;
          w = w\<lparr>setKeyPool := []\<rparr>
      in if IsLocked (kw_store w) then (Some False, w)
         else case NewKeyPool_loop E 0 (nat (max (ke_keypool E) 0)) w of
                (None, w) \<Rightarrow> (None, w) | (Some _, w) \<Rightarrow> (Some True, w))"

definition pool_end :: "int list \<Rightarrow> int" where \<comment> \<open>the index after the last one\<close>
  "pool_end s = (if s = [] then 1 else Max (set s) + 1)"

lemma pool_end_fresh: "pool_end s \<notin> set s"
  using Max_ge [of "set s" "Max (set s) + 1"] by (auto simp: pool_end_def)

definition pool_add :: "key_env \<Rightarrow> key_wallet \<Rightarrow> unit option \<times> key_wallet" where \<comment> \<open>one turn of the loop of TopUpKeyPool\<close>
  "pool_add E w =
     (let nEnd = pool_end (setKeyPool w)
      in case new_pool_key E w of
           (None, w) \<Rightarrow> (None, w)
         | (Some kp, w) \<Rightarrow> (case WritePool E nEnd kp w of (ok, w) \<Rightarrow>
             if \<not> ok then (None, w) else (Some (), pool_insert nEnd w)))"

lemma snd_SetMinVersion [simp]:
  "setKeyPool (snd (SetMinVersion w v e)) = setKeyPool w"
  "kw_store (snd (SetMinVersion w v e)) = kw_store w"
  "kw_pool (snd (SetMinVersion w v e)) = kw_pool w"
  "fFileBacked (snd (SetMinVersion w v e)) = fFileBacked w"
  "vchDefaultKey (snd (SetMinVersion w v e)) = vchDefaultKey w"
  by (auto simp: SetMinVersion_def Let_def)

lemma AddKey_keeps:
  "CWallet_AddKey E key w = (ok, w') \<Longrightarrow>
     setKeyPool w' = setKeyPool w \<and> kw_pool w' = kw_pool w \<and> vchDefaultKey w' = vchDefaultKey w"
  by (auto simp: CWallet_AddKey_def CWallet_AddCryptedKey_def db_write_def kw_tick_def Let_def
      split: if_splits option.splits prod.splits)

lemma new_pool_key_keeps:
  "new_pool_key E w = (r, w') \<Longrightarrow>
     setKeyPool w' = setKeyPool w \<and> kw_pool w' = kw_pool w \<and> vchDefaultKey w' = vchDefaultKey w"
  by (auto simp: new_pool_key_def GenerateNewKey_def kw_tick_def Let_def split: if_splits option.splits prod.splits dest!: AddKey_keeps)

lemma pool_add_grows:
  assumes "pool_add E w = (Some (), w')"
  shows "setKeyPool w' = pool_end (setKeyPool w) # setKeyPool w"
proof -
  obtain kp w1 where n: "new_pool_key E w = (Some kp, w1)"
    using assms by (auto simp: pool_add_def Let_def split: option.splits prod.splits)
  then have "setKeyPool w1 = setKeyPool w" using new_pool_key_keeps by blast
  then show ?thesis using assms n pool_end_fresh [of "setKeyPool w"]
    by (auto simp: pool_add_def WritePool_def db_write_def kw_tick_def pool_insert_def List.insert_def Let_def split: if_splits)
qed

function TopUp_loop :: "key_env \<Rightarrow> nat \<Rightarrow> key_wallet \<Rightarrow> unit option \<times> key_wallet" where
  "TopUp_loop E size_wanted w =
     (if length (setKeyPool w) < size_wanted
      then case pool_add E w of (None, w) \<Rightarrow> (None, w) | (Some _, w) \<Rightarrow> TopUp_loop E size_wanted w
      else (Some (), w))"
  by pat_completeness auto
termination
  by (relation "measure (\<lambda>(E, n, w). n - length (setKeyPool w))") (auto dest!: pool_add_grows [OF sym])

declare TopUp_loop.simps [simp del]

text \<open>The target is an unsigned int, and so is the sum in the loop's condition.\<close>

definition TopUpKeyPool :: "key_env \<Rightarrow> key_wallet \<Rightarrow> bool option \<times> key_wallet" where
  "TopUpKeyPool E w =
     (if IsLocked (kw_store w) then (Some False, w)
      else let nTargetSize = word_of_int (max (ke_keypool E) 0) :: u32
           in case TopUp_loop E (unat (nTargetSize + 1)) w of (None, w) \<Rightarrow> (None, w) | (Some _, w) \<Rightarrow> (Some True, w))"

subsection \<open>Reserving, keeping and returning keys\<close>

text \<open>
  The first value is nIndex, set before anything is thrown; then the key, None for an exception and Some None for an
  empty pool, where nIndex is - 1 and the key invalid.
\<close>

definition ReserveKeyFromKeyPool :: "key_env \<Rightarrow> key_wallet \<Rightarrow> int \<times> CKeyPool option option \<times> key_wallet" where
  "ReserveKeyFromKeyPool E w =
     (case (if \<not> IsLocked (kw_store w) then TopUpKeyPool E w else (Some True, w)) of
        (None, w) \<Rightarrow> (- 1, None, w)
      | (Some _, w) \<Rightarrow>
          if setKeyPool w = [] then (- 1, Some None, w)
          else let nIndex = Min (set (setKeyPool w));
                   w = w\<lparr>setKeyPool := remove1 nIndex (setKeyPool w)\<rparr>
               in case kw_pool w nIndex of
                    None \<Rightarrow> (nIndex, None, w)
                  | Some keypool \<Rightarrow>
                      if \<not> Crypto_HaveKey (kw_store w) (CPubKey_GetID (ke_crypto E) (kp_vchPubKey keypool)) then (nIndex, None, w)
                      else if \<not> CPubKey_IsValid (kp_vchPubKey keypool) then (nIndex, None, w)
                      else (nIndex, Some (Some keypool), w))"

text \<open>For an empty set the decrement of its end is undefined; the value is that of the model.\<close>

definition AddReserveKey :: "key_env \<Rightarrow> CKeyPool \<Rightarrow> key_wallet \<Rightarrow> int option \<times> key_wallet" where
  "AddReserveKey E keypool w =
     (if setKeyPool w = [] then (None, w)
      else let nIndex = 1 + Max (set (setKeyPool w))
           in case WritePool E nIndex keypool w of (ok, w) \<Rightarrow>
                if \<not> ok then (None, w) else (Some nIndex, pool_insert nIndex w))"

definition KeepKey :: "key_env \<Rightarrow> int \<Rightarrow> key_wallet \<Rightarrow> key_wallet" where
  "KeepKey E nIndex w = (if fFileBacked w then snd (ErasePool E nIndex w) else w)"

definition ReturnKey :: "int \<Rightarrow> key_wallet \<Rightarrow> key_wallet" where
  "ReturnKey nIndex w = pool_insert nIndex w"

definition GetKeyFromPool :: "key_env \<Rightarrow> bool \<Rightarrow> key_wallet \<Rightarrow> byte list option option \<times> key_wallet" where
  "GetKeyFromPool E fAllowReuse w =
     (case ReserveKeyFromKeyPool E w of
        (nIndex, None, w) \<Rightarrow> (None, w)
      | (nIndex, Some keypool, w) \<Rightarrow>
          if nIndex = - 1
          then if fAllowReuse \<and> CPubKey_IsValid (vchDefaultKey w) then (Some (Some (vchDefaultKey w)), w)
               else if IsLocked (kw_store w) then (Some None, w)
               else (case GenerateNewKey E w of (None, w) \<Rightarrow> (None, w) | (Some vch, w) \<Rightarrow> (Some (Some vch), w))
          else (Some (map_option kp_vchPubKey keypool), KeepKey E nIndex w))"

definition GetOldestKeyPoolTime :: "key_env \<Rightarrow> key_wallet \<Rightarrow> u64 option \<times> key_wallet" where
  "GetOldestKeyPoolTime E w =
     (case ReserveKeyFromKeyPool E w of
        (nIndex, None, w) \<Rightarrow> (None, w)
      | (nIndex, Some keypool, w) \<Rightarrow>
          if nIndex = - 1 then (Some (ke_time E (kw_clock w)), kw_tick w)
          else (map_option kp_nTime keypool, ReturnKey nIndex w))"

fun GetAllReserveKeys_loop :: "key_env \<Rightarrow> key_wallet \<Rightarrow> int list \<Rightarrow> base_uint list \<Rightarrow> base_uint list option" where
  "GetAllReserveKeys_loop E w [] setAddress = Some setAddress"
| "GetAllReserveKeys_loop E w (nIndex # is) setAddress =
     (case kw_pool w nIndex of
        None \<Rightarrow> None
      | Some keypool \<Rightarrow>
          let keyID = CPubKey_GetID (ke_crypto E) (kp_vchPubKey keypool)
          in if \<not> CPubKey_IsValid (kp_vchPubKey keypool) then None
             else if \<not> Crypto_HaveKey (kw_store w) keyID then None
             else GetAllReserveKeys_loop E w is (List.insert keyID setAddress))"

definition GetAllReserveKeys :: "key_env \<Rightarrow> key_wallet \<Rightarrow> base_uint list option" where
  "GetAllReserveKeys E w = GetAllReserveKeys_loop E w (sort (setKeyPool w)) []"

subsection \<open>CReserveKey\<close>

record CReserveKey =
  rk_nIndex :: int
  rk_vchPubKey :: "byte list"

definition ReserveKey_init :: CReserveKey where "ReserveKey_init = \<lparr> rk_nIndex = - 1, rk_vchPubKey = [] \<rparr>"

text \<open>CReserveKey::GetReservedKey: the key, the object and the wallet; None also if the assertion on the key fails.\<close>

definition GetReservedKey :: "key_env \<Rightarrow> CReserveKey \<Rightarrow> key_wallet \<Rightarrow> byte list option \<times> CReserveKey \<times> key_wallet" where
  "GetReservedKey E r w =
     (case (if rk_nIndex r = - 1
            then (case ReserveKeyFromKeyPool E w of
                    (nIndex, None, w) \<Rightarrow> (False, r\<lparr>rk_nIndex := nIndex\<rparr>, w)
                  | (nIndex, Some (Some keypool), w) \<Rightarrow> (True, \<lparr> rk_nIndex = nIndex, rk_vchPubKey = kp_vchPubKey keypool \<rparr>, w)
                  | (nIndex, Some None, w) \<Rightarrow> (True, \<lparr> rk_nIndex = nIndex, rk_vchPubKey = vchDefaultKey w \<rparr>, w))
            else (True, r, w)) of
        (ok, r, w) \<Rightarrow> (if ok \<and> CPubKey_IsValid (rk_vchPubKey r) then Some (rk_vchPubKey r) else None, r, w))"

definition ReserveKey_KeepKey :: "key_env \<Rightarrow> CReserveKey \<Rightarrow> key_wallet \<Rightarrow> CReserveKey \<times> key_wallet" where
  "ReserveKey_KeepKey E r w =
     (ReserveKey_init, if rk_nIndex r \<noteq> - 1 then KeepKey E (rk_nIndex r) w else w)"

definition ReserveKey_ReturnKey :: "CReserveKey \<Rightarrow> key_wallet \<Rightarrow> CReserveKey \<times> key_wallet" where
  "ReserveKey_ReturnKey r w =
     (ReserveKey_init, if rk_nIndex r \<noteq> - 1 then ReturnKey (rk_nIndex r) w else w)"

end
