(* ===== verification/Wallet.thy ===== *)
theory Wallet
  imports KeyPool OrphanTx
begin

text \<open>
  Transactions of the wallet, from src/wallet.h and src/wallet.cpp: which outputs are its own, what a transaction
  takes and gives, the flags of spent outputs, caches, how transactions enter the wallet, and balances. None is an exception,
  or IsMine or IsConfirmed not returning. Outside fMerkleVerified of supporting transactions, which saves a check of
  a Merkle branch, the caches of the code are kept. Texts attached to a transaction are left out.
\<close>

subsection \<open>State\<close>

record CWalletTx =
  wt_merkle :: CMerkleTx
  vtxPrev :: "CMerkleTx list"
  fTimeReceivedIsTxTime :: u32
  nTimeReceived :: u32
  nTimeSmart :: u32
  fFromMe :: bool
  strFromAccount :: "byte list"
  vfSpent :: "bool list"
  nOrderPos :: u64
  fDebitCached :: bool
  fCreditCached :: bool
  fAvailableCreditCached :: bool
  fChangeCached :: bool
  nDebitCached :: u64
  nCreditCached :: u64
  nAvailableCreditCached :: u64
  nChangeCached :: u64

abbreviation wt_tx :: "CWalletTx \<Rightarrow> CTransaction" where "wt_tx x \<equiv> mt_tx (wt_merkle x)"

definition WTx_Init :: "CMerkleTx \<Rightarrow> CWalletTx" where
  "WTx_Init m =
     \<lparr> wt_merkle = m, vtxPrev = [], fTimeReceivedIsTxTime = 0, nTimeReceived = 0, nTimeSmart = 0, fFromMe = False,
       strFromAccount = [], vfSpent = [], nOrderPos = - 1, fDebitCached = False, fCreditCached = False,
       fAvailableCreditCached = False, fChangeCached = False, nDebitCached = 0, nCreditCached = 0,
       nAvailableCreditCached = 0, nChangeCached = 0 \<rparr>"

record CWallet =
  w_keys :: key_wallet
  mapWallet :: "base_uint \<rightharpoonup> CWalletTx"
  nOrderPosNext :: u64
  mapRequestCount :: "base_uint \<rightharpoonup> int"
  mapAddressBook :: "CTxDestination \<rightharpoonup> byte list"

text \<open>The block tree, the height and time IsFinal uses, and the accounting entries of the database as pairs of order and time.\<close>

record wallet_env =
  we_keys :: key_env
  we_heap :: bheap
  we_best :: "nat option"
  we_index :: "base_uint \<Rightarrow> nat option"
  we_height :: u32
  we_now :: u64 \<comment> \<open>GetAdjustedTime()\<close>
  we_entries :: "(u64 \<times> u64) list"

abbreviation we_crypto :: "wallet_env \<Rightarrow> crypto" where "we_crypto E \<equiv> ke_crypto (we_keys E)"
abbreviation we_sha :: "wallet_env \<Rightarrow> sha256" where "we_sha E \<equiv> cr_sha256 (we_crypto E)"

definition w_store :: "wallet_env \<Rightarrow> CWallet \<Rightarrow> keystore" where
  "w_store E w = crypto_store (we_crypto E) (ke_lib (we_keys E)) (kw_store (w_keys w))"

definition WTx_write :: "wallet_env \<Rightarrow> CWallet \<Rightarrow> bool \<times> CWallet" where \<comment> \<open>CWalletTx::WriteToDisk\<close>
  "WTx_write E w = (case db_write (we_keys E) (w_keys w) of (ok, k) \<Rightarrow> (ok, w\<lparr>w_keys := k\<rparr>))"

subsection \<open>Own outputs, debit, credit and change\<close>

definition TxOut_IsMine :: "wallet_env \<Rightarrow> CWallet \<Rightarrow> CTxOut \<Rightarrow> bool option" where
  "TxOut_IsMine E w txout = IsMine (we_crypto E) (w_store E w) (scriptPubKey txout)"

definition TxOut_GetCredit :: "wallet_env \<Rightarrow> CWallet \<Rightarrow> CTxOut \<Rightarrow> u64 option" where
  "TxOut_GetCredit E w txout =
     (if \<not> MoneyRange (nValue txout) then None
      else do { b \<leftarrow> TxOut_IsMine E w txout; Some (if b then nValue txout else 0) })"

definition TxOut_IsChange :: "wallet_env \<Rightarrow> CWallet \<Rightarrow> CTxOut \<Rightarrow> bool" where
  "TxOut_IsChange E w txout =
     (case ExtractDestination (we_crypto E) (scriptPubKey txout) of
        None \<Rightarrow> False
      | Some address \<Rightarrow> IsMine_dest (w_store E w) address \<and> mapAddressBook w address = None)"

definition TxOut_GetChange :: "wallet_env \<Rightarrow> CWallet \<Rightarrow> CTxOut \<Rightarrow> u64 option" where
  "TxOut_GetChange E w txout =
     (if \<not> MoneyRange (nValue txout) then None else Some (if TxOut_IsChange E w txout then nValue txout else 0))"

text \<open>The output an input spends, if the wallet has its transaction.\<close>

definition TxIn_prev :: "CWallet \<Rightarrow> CTxIn \<Rightarrow> CTxOut option" where
  "TxIn_prev w txin =
     (case mapWallet w (o_hash (prevout txin)) of
        None \<Rightarrow> None
      | Some prev \<Rightarrow> if unat (o_n (prevout txin)) < length (vout (wt_tx prev)) then Some (vout (wt_tx prev) ! unat (o_n (prevout txin))) else None)"

definition TxIn_IsMine :: "wallet_env \<Rightarrow> CWallet \<Rightarrow> CTxIn \<Rightarrow> bool option" where
  "TxIn_IsMine E w txin = (case TxIn_prev w txin of None \<Rightarrow> Some False | Some txout \<Rightarrow> TxOut_IsMine E w txout)"

definition TxIn_GetDebit :: "wallet_env \<Rightarrow> CWallet \<Rightarrow> CTxIn \<Rightarrow> u64 option" where
  "TxIn_GetDebit E w txin =
     (case TxIn_prev w txin of
        None \<Rightarrow> Some 0
      | Some txout \<Rightarrow> do { b \<leftarrow> TxOut_IsMine E w txout; Some (if b then nValue txout else 0) })"

text \<open>The loops that add up amounts, and that look for an own output.\<close>

fun sum_money :: "('a \<Rightarrow> u64 option) \<Rightarrow> u64 \<Rightarrow> 'a list \<Rightarrow> u64 option" where
  "sum_money f n [] = Some n"
| "sum_money f n (x # xs) = do { v \<leftarrow> f x; if \<not> MoneyRange (n + v) then None else sum_money f (n + v) xs }"

fun any_mine :: "('a \<Rightarrow> bool option) \<Rightarrow> 'a list \<Rightarrow> bool option" where
  "any_mine f [] = Some False"
| "any_mine f (x # xs) = do { b \<leftarrow> f x; if b then Some True else any_mine f xs }"

definition Wallet_IsMine :: "wallet_env \<Rightarrow> CWallet \<Rightarrow> CTransaction \<Rightarrow> bool option" where
  "Wallet_IsMine E w tx = any_mine (TxOut_IsMine E w) (vout tx)"

definition Wallet_GetDebit :: "wallet_env \<Rightarrow> CWallet \<Rightarrow> CTransaction \<Rightarrow> u64 option" where
  "Wallet_GetDebit E w tx = sum_money (TxIn_GetDebit E w) 0 (vin tx)"

definition Wallet_GetCredit :: "wallet_env \<Rightarrow> CWallet \<Rightarrow> CTransaction \<Rightarrow> u64 option" where
  "Wallet_GetCredit E w tx = sum_money (TxOut_GetCredit E w) 0 (vout tx)"

definition Wallet_GetChange :: "wallet_env \<Rightarrow> CWallet \<Rightarrow> CTransaction \<Rightarrow> u64 option" where
  "Wallet_GetChange E w tx = sum_money (TxOut_GetChange E w) 0 (vout tx)"

definition Wallet_IsFromMe :: "wallet_env \<Rightarrow> CWallet \<Rightarrow> CTransaction \<Rightarrow> bool option" where
  "Wallet_IsFromMe E w tx = do { d \<leftarrow> Wallet_GetDebit E w tx; Some (0 <s d) }"

subsection \<open>Spent flags\<close>

fun UpdateSpent_loop :: "bool list \<Rightarrow> bool list \<Rightarrow> bool \<times> bool list" where
  "UpdateSpent_loop (n # ns) (s # ss) = (case UpdateSpent_loop ns ss of (r, ss) \<Rightarrow> ((n \<and> \<not> s) \<or> r, (n \<or> s) # ss))"
| "UpdateSpent_loop _ ss = (False, ss)"

definition UpdateSpent :: "bool list \<Rightarrow> CWalletTx \<Rightarrow> bool \<times> CWalletTx" where
  "UpdateSpent vfNewSpent x =
     (case UpdateSpent_loop vfNewSpent (vfSpent x) of (fReturn, ss) \<Rightarrow>
        (fReturn, x\<lparr>vfSpent := ss, fAvailableCreditCached := (fAvailableCreditCached x \<and> \<not> fReturn)\<rparr>))"

definition WTx_MarkDirty :: "CWalletTx \<Rightarrow> CWalletTx" where
  "WTx_MarkDirty x = x\<lparr>fCreditCached := False, fAvailableCreditCached := False, fDebitCached := False, fChangeCached := False\<rparr>"

definition BindWallet :: "CWalletTx \<Rightarrow> CWalletTx" where "BindWallet x = WTx_MarkDirty x"

definition resized :: "nat \<Rightarrow> bool list \<Rightarrow> bool list" where \<comment> \<open>vector::resize\<close>
  "resized n s = take n s @ replicate (n - length s) False"

definition set_spent :: "bool \<Rightarrow> u32 \<Rightarrow> CWalletTx \<Rightarrow> CWalletTx option" where \<comment> \<open>the common shape of the next two\<close>
  "set_spent b nOut x =
     (if unat nOut \<ge> length (vout (wt_tx x)) then None
      else let s = resized (length (vout (wt_tx x))) (vfSpent x); x = x\<lparr>vfSpent := s\<rparr>
           in Some (if s ! unat nOut \<noteq> b then x\<lparr>vfSpent := s[unat nOut := b], fAvailableCreditCached := False\<rparr> else x))"

definition MarkSpent :: "u32 \<Rightarrow> CWalletTx \<Rightarrow> CWalletTx option" where "MarkSpent nOut x = set_spent True nOut x"
definition MarkUnspent :: "u32 \<Rightarrow> CWalletTx \<Rightarrow> CWalletTx option" where "MarkUnspent nOut x = set_spent False nOut x"

definition WTx_IsSpent :: "u32 \<Rightarrow> CWalletTx \<Rightarrow> bool option" where
  "WTx_IsSpent nOut x =
     (if unat nOut \<ge> length (vout (wt_tx x)) then None
      else if unat nOut \<ge> length (vfSpent x) then Some False else Some (vfSpent x ! unat nOut))"

subsection \<open>Cached amounts\<close>

definition WTx_GetDepth :: "wallet_env \<Rightarrow> CWalletTx \<Rightarrow> int \<times> CWalletTx" where
  "WTx_GetDepth E x =
     (case MerkleTx_GetDepth (we_sha E) (we_heap E) (we_best E) (we_index E) (wt_merkle x) of (d, _, m) \<Rightarrow> (d, x\<lparr>wt_merkle := m\<rparr>))"

definition WTx_GetBlocksToMaturity :: "wallet_env \<Rightarrow> CWalletTx \<Rightarrow> int \<times> CWalletTx" where
  "WTx_GetBlocksToMaturity E x =
     (if \<not> (Tx_IsCoinBase (wt_tx x) \<or> Tx_IsCoinStake (wt_tx x)) then (0, x)
      else case WTx_GetDepth E x of (d, x) \<Rightarrow> (max 0 (nCoinbaseMaturity + COINBASE_MATURITY_SAFE_GAP - d), x))"

text \<open>\<open>(IsCoinBase() || IsCoinStake()) && GetBlocksToMaturity() > 0\<close>\<close>

definition not_yet_mature :: "wallet_env \<Rightarrow> CWalletTx \<Rightarrow> bool \<times> CWalletTx" where
  "not_yet_mature E x =
     (if Tx_IsCoinBase (wt_tx x) \<or> Tx_IsCoinStake (wt_tx x)
      then case WTx_GetBlocksToMaturity E x of (n, x) \<Rightarrow> (n > 0, x) else (False, x))"

definition WTx_GetDebit :: "wallet_env \<Rightarrow> CWallet \<Rightarrow> CWalletTx \<Rightarrow> (u64 \<times> CWalletTx) option" where
  "WTx_GetDebit E w x =
     (if vin (wt_tx x) = [] then Some (0, x)
      else if fDebitCached x then Some (nDebitCached x, x)
      else do { d \<leftarrow> Wallet_GetDebit E w (wt_tx x); Some (d, x\<lparr>nDebitCached := d, fDebitCached := True\<rparr>) })"

definition WTx_GetCredit :: "wallet_env \<Rightarrow> CWallet \<Rightarrow> bool \<Rightarrow> CWalletTx \<Rightarrow> (u64 \<times> CWalletTx) option" where
  "WTx_GetCredit E w fUseCache x =
     (case not_yet_mature E x of (wait, x) \<Rightarrow>
        if wait then Some (0, x)
        else if fUseCache \<and> fCreditCached x then Some (nCreditCached x, x)
        else do { c \<leftarrow> Wallet_GetCredit E w (wt_tx x); Some (c, x\<lparr>nCreditCached := c, fCreditCached := True\<rparr>) })"

definition unspent_credit :: "wallet_env \<Rightarrow> CWallet \<Rightarrow> CWalletTx \<Rightarrow> nat \<Rightarrow> u64 option" where
  "unspent_credit E w x i =
     do { s \<leftarrow> WTx_IsSpent (word_of_nat i) x; if s then Some 0 else TxOut_GetCredit E w (vout (wt_tx x) ! i) }"

text \<open>For a spent output the loop adds nothing and does not check the range, which holds for the sum so far.\<close>

definition WTx_GetAvailableCredit :: "wallet_env \<Rightarrow> CWallet \<Rightarrow> bool \<Rightarrow> CWalletTx \<Rightarrow> (u64 \<times> CWalletTx) option" where
  "WTx_GetAvailableCredit E w fUseCache x =
     (case not_yet_mature E x of (wait, x) \<Rightarrow>
        if wait then Some (0, x)
        else if fUseCache \<and> fAvailableCreditCached x then Some (nAvailableCreditCached x, x)
        else do { c \<leftarrow> sum_money (unspent_credit E w x) 0 [0..<length (vout (wt_tx x))];
                  Some (c, x\<lparr>nAvailableCreditCached := c, fAvailableCreditCached := True\<rparr>) })"

definition WTx_GetChange :: "wallet_env \<Rightarrow> CWallet \<Rightarrow> CWalletTx \<Rightarrow> (u64 \<times> CWalletTx) option" where
  "WTx_GetChange E w x =
     (if fChangeCached x then Some (nChangeCached x, x)
      else do { c \<leftarrow> Wallet_GetChange E w (wt_tx x); Some (c, x\<lparr>nChangeCached := c, fChangeCached := True\<rparr>) })"

definition WTx_IsFromMe :: "wallet_env \<Rightarrow> CWallet \<Rightarrow> CWalletTx \<Rightarrow> (bool \<times> CWalletTx) option" where
  "WTx_IsFromMe E w x = do { (d, x) \<leftarrow> WTx_GetDebit E w x; Some (0 <s d, x) }"

subsection \<open>Confirmation\<close>

definition WTx_IsFinal :: "wallet_env \<Rightarrow> CTransaction \<Rightarrow> bool" where
  "WTx_IsFinal E tx = Tx_IsFinal (we_height E) (we_now E) tx 0 0"

text \<open>mapPrev: of supporting transactions with one hash the last one counts.\<close>

definition find_prev :: "wallet_env \<Rightarrow> CMerkleTx list \<Rightarrow> base_uint \<Rightarrow> CMerkleTx option" where
  "find_prev E prevs hsh = find (\<lambda>m. Tx_GetHash (we_sha E) (mt_tx m) = hsh) (rev prevs)"

text \<open>One turn of the loop over the work queue, whose list is what is still to be visited: the answer, or the new list.\<close>

definition confirm_step :: "wallet_env \<Rightarrow> CWallet \<Rightarrow> CMerkleTx list \<Rightarrow> CMerkleTx list \<Rightarrow> (bool + CMerkleTx list) option" where
  "confirm_step E w prevs queue =
     (case queue of
        [] \<Rightarrow> Some (Inl True)
      | m # queue \<Rightarrow>
          if \<not> WTx_IsFinal E (mt_tx m) then Some (Inl False)
          else if fst (MerkleTx_GetDepth (we_sha E) (we_heap E) (we_best E) (we_index E) m) \<ge> 1 then Some (Inr queue)
          else do { mine \<leftarrow> Wallet_IsFromMe E w (mt_tx m);
                    if \<not> mine then Some (Inl False)
                    else let ms = map (\<lambda>txin. find_prev E prevs (o_hash (prevout txin))) (vin (mt_tx m))
                         in if None \<in> set ms then Some (Inl False) else Some (Inr (queue @ map the ms)) })"

partial_function (option) confirm_loop :: "wallet_env \<Rightarrow> CWallet \<Rightarrow> CMerkleTx list \<Rightarrow> CMerkleTx list \<Rightarrow> bool option" where
  "confirm_loop E w prevs queue =
     do { r \<leftarrow> confirm_step E w prevs queue; if isl r then Some (projl r) else confirm_loop E w prevs (projr r) }"

definition WTx_IsConfirmed :: "wallet_env \<Rightarrow> CWallet \<Rightarrow> CWalletTx \<Rightarrow> (bool \<times> CWalletTx) option" where
  "WTx_IsConfirmed E w x =
     (if \<not> WTx_IsFinal E (wt_tx x) then Some (False, x)
      else case WTx_GetDepth E x of (d, x) \<Rightarrow>
        if d \<ge> 1 then Some (True, x)
        else do { (mine, x) \<leftarrow> WTx_IsFromMe E w x;
                  if \<not> mine then Some (False, x)
                  else do { b \<leftarrow> confirm_loop E w (vtxPrev x) [wt_merkle x]; Some (b, x) } })"

subsection \<open>Transactions entering the wallet\<close>

text \<open>The turn of WalletUpdateSpent for one input. The amount it prints is computed, and cached, on the way.\<close>

definition update_spent_input :: "wallet_env \<Rightarrow> CTxIn \<Rightarrow> CWallet \<Rightarrow> CWallet option" where
  "update_spent_input E txin w =
     (let hsh = o_hash (prevout txin); n = o_n (prevout txin)
      in case mapWallet w hsh of
           None \<Rightarrow> Some w
         | Some x \<Rightarrow>
             if unat n \<ge> length (vout (wt_tx x)) then Some w
             else do { s \<leftarrow> WTx_IsSpent n x;
                       if s then Some w
                       else do { mine \<leftarrow> TxOut_IsMine E w (vout (wt_tx x) ! unat n);
                                 if \<not> mine then Some w
                                 else do { (_, x) \<leftarrow> WTx_GetCredit E w True x;
                                           x \<leftarrow> MarkSpent n x;
                                           Some (snd (WTx_write E (w\<lparr>mapWallet := (mapWallet w)(hsh \<mapsto> x)\<rparr>))) } } })"

fun WalletUpdateSpent :: "wallet_env \<Rightarrow> CTxIn list \<Rightarrow> CWallet \<Rightarrow> CWallet option" where \<comment> \<open>of the inputs of a transaction\<close>
  "WalletUpdateSpent E [] w = Some w"
| "WalletUpdateSpent E (txin # is) w = do { w \<leftarrow> update_spent_input E txin w; WalletUpdateSpent E is w }"

definition IncOrderPosNext :: "wallet_env \<Rightarrow> CWallet \<Rightarrow> u64 \<times> CWallet" where
  "IncOrderPosNext E w =
     (nOrderPosNext w, snd (WTx_write E (w\<lparr>nOrderPosNext := nOrderPosNext w + 1\<rparr>)))"

text \<open>
  OrderedTxItems as a list: the key of a transaction or the time of an accounting entry, by order position; equal
  positions in the order of insertion.
\<close>

definition OrderedTxItems :: "wallet_env \<Rightarrow> CWallet \<Rightarrow> (base_uint + u64) list" where
  "OrderedTxItems E w =
     map snd (sort_key (\<lambda>i. sint (fst i))
       (map (\<lambda>k. (nOrderPos (the (mapWallet w k)), Inl k)) (map_keys (mapWallet w)) @ map (\<lambda>(p, t). (p, Inr t)) (we_entries E)))"

fun latest_entry :: "CWallet \<Rightarrow> base_uint \<Rightarrow> u64 \<Rightarrow> (base_uint + u64) list \<Rightarrow> u64 option" where \<comment> \<open>the first smart time that is tolerated\<close>
  "latest_entry w this latestTolerated [] = None"
| "latest_entry w this latestTolerated (item # items) =
     (if item = Inl this then latest_entry w this latestTolerated items
      else let nSmartTime = (case item of
                 Inl k \<Rightarrow> (let x = the (mapWallet w k) in if nTimeSmart x \<noteq> 0 then ucast (nTimeSmart x) else ucast (nTimeReceived x))
               | Inr t \<Rightarrow> t)
           in if nSmartTime \<le>s latestTolerated then Some nSmartTime else latest_entry w this latestTolerated items)"

text \<open>nTimeSmart of a new transaction; \<open>w\<close> holds it already. The sum of time and tolerance is an unsigned int.\<close>

definition smart_time :: "wallet_env \<Rightarrow> CWallet \<Rightarrow> base_uint \<Rightarrow> base_uint \<Rightarrow> u32 \<Rightarrow> u32" where
  "smart_time E w hsh hashBlock received =
     (if u_eq64 hashBlock 0 then received
      else case we_index E hashBlock of
             None \<Rightarrow> received
           | Some p \<Rightarrow>
               let (latestEntry, latestNow) =
                     (case latest_entry w hsh (ucast (received + 300)) (rev (OrderedTxItems E w)) of
                        None \<Rightarrow> (0, received)
                      | Some t \<Rightarrow> (ucast t, if ucast received <s t then ucast t else received));
                   blocktime = bi_nTime (we_heap E p)
               in max latestEntry (min blocktime latestNow))"

text \<open>The merge of a transaction the wallet already has: whether it changed, and the entry.\<close>

definition merge_wtx :: "CWalletTx \<Rightarrow> CWalletTx \<Rightarrow> bool \<times> CWalletTx" where
  "merge_wtx wtxIn x =
     (let mIn = wt_merkle wtxIn; m = wt_merkle x;
          fBlock = (\<not> u_eq64 (mt_hashBlock mIn) 0 \<and> mt_hashBlock mIn \<noteq> mt_hashBlock m);
          m = (if fBlock then m\<lparr>mt_hashBlock := mt_hashBlock mIn\<rparr> else m);
          fBranch = (mt_nIndex mIn \<noteq> - 1 \<and> (vMerkleBranch mIn \<noteq> vMerkleBranch m \<or> mt_nIndex mIn \<noteq> mt_nIndex m));
          m = (if fBranch then m\<lparr>vMerkleBranch := vMerkleBranch mIn, mt_nIndex := mt_nIndex mIn\<rparr> else m);
          fMe = (fFromMe wtxIn \<and> \<not> fFromMe x);
          x = x\<lparr>wt_merkle := m, fFromMe := (fFromMe x \<or> fMe)\<rparr>;
          (fSpent, x) = UpdateSpent (vfSpent wtxIn) x
      in (fBlock \<or> fBranch \<or> fMe \<or> fSpent, x))"

text \<open>
  A used default key is replaced, as in the daemon. The flag GetKeyFromPool returns is false only for a locked
  wallet with an empty pool.
\<close>

definition SetAddressBookName :: "wallet_env \<Rightarrow> CTxDestination \<Rightarrow> byte list \<Rightarrow> CWallet \<Rightarrow> bool \<times> CWallet" where
  "SetAddressBookName E address strName w =
     (let w = w\<lparr>mapAddressBook := (mapAddressBook w)(address \<mapsto> strName)\<rparr>
      in if \<not> fFileBacked (w_keys w) then (False, w) else WTx_write E w)"

definition DelAddressBookName :: "wallet_env \<Rightarrow> CTxDestination \<Rightarrow> CWallet \<Rightarrow> bool \<times> CWallet" where
  "DelAddressBookName E address w =
     (let w = w\<lparr>mapAddressBook := (mapAddressBook w)(address := None)\<rparr>
      in if \<not> fFileBacked (w_keys w) then (False, w) else WTx_write E w)"

fun replace_default_key :: "wallet_env \<Rightarrow> CScript \<Rightarrow> CTxOut list \<Rightarrow> CWallet \<Rightarrow> CWallet option" where
  "replace_default_key E scriptDefaultKey [] w = Some w"
| "replace_default_key E scriptDefaultKey (txout # ts) w =
     (if scriptPubKey txout \<noteq> scriptDefaultKey then replace_default_key E scriptDefaultKey ts w
      else case GetKeyFromPool (we_keys E) False (w_keys w) of
             (None, k) \<Rightarrow> None
           | (Some None, k) \<Rightarrow> replace_default_key E scriptDefaultKey ts (w\<lparr>w_keys := k\<rparr>)
           | (Some (Some newDefaultKey), k) \<Rightarrow>
               let k = snd (SetDefaultKey (we_keys E) newDefaultKey k);
                   w = w\<lparr>w_keys := k\<rparr>
               in replace_default_key E scriptDefaultKey ts
                    (snd (SetAddressBookName E (CKeyID (CPubKey_GetID (we_crypto E) (vchDefaultKey k))) [] w)))"

definition new_wtx :: "wallet_env \<Rightarrow> base_uint \<Rightarrow> CWalletTx \<Rightarrow> CWallet \<Rightarrow> CWallet" where \<comment> \<open>the branch of AddToWallet for a new transaction\<close>
  "new_wtx E hsh wtxIn w =
     (let received = ucast (we_now E);
          (pos, w) = IncOrderPosNext E w;
          x = (BindWallet wtxIn)\<lparr>nTimeReceived := received, nOrderPos := pos, nTimeSmart := received\<rparr>;
          w = w\<lparr>mapWallet := (mapWallet w)(hsh \<mapsto> x)\<rparr>
      in w\<lparr>mapWallet := (mapWallet w)(hsh \<mapsto> x\<lparr>nTimeSmart := smart_time E w hsh (mt_hashBlock (wt_merkle wtxIn)) received\<rparr>)\<rparr>)"

definition AddToWallet :: "wallet_env \<Rightarrow> CWalletTx \<Rightarrow> CWallet \<Rightarrow> (bool \<times> CWallet) option" where
  "AddToWallet E wtxIn w =
     (let hsh = Tx_GetHash (we_sha E) (wt_tx wtxIn);
          (fChanged, w) = (case mapWallet w hsh of
              None \<Rightarrow> (True, new_wtx E hsh wtxIn w)
            | Some x \<Rightarrow> (case merge_wtx wtxIn (BindWallet x) of (fUpdated, x) \<Rightarrow>
                (fUpdated, w\<lparr>mapWallet := (mapWallet w)(hsh \<mapsto> x)\<rparr>)));
          (ok, w) = (if fChanged then WTx_write E w else (True, w));
          tx = wt_tx (the (mapWallet w hsh))
      in if \<not> ok then Some (False, w)
         else do { w \<leftarrow> replace_default_key E (SetDestination (CKeyID (CPubKey_GetID (we_crypto E) (vchDefaultKey (w_keys w))))) (vout tx) w;
                   w \<leftarrow> WalletUpdateSpent E (vin tx) w;
                   Some (True, w) })"

definition AddToWalletIfInvolvingMe ::
  "wallet_env \<Rightarrow> (byte list \<Rightarrow> base_uint) \<Rightarrow> CTransaction \<Rightarrow> CBlock option \<Rightarrow> bool \<Rightarrow> CWallet \<Rightarrow> (bool \<times> CWallet) option" where
  "AddToWalletIfInvolvingMe E hash9 tx pblock fUpdate w =
     (let fExisted = mapWallet w (Tx_GetHash (we_sha E) tx) \<noteq> None
      in if fExisted \<and> \<not> fUpdate then Some (False, w)
         else do { mine \<leftarrow> (if fExisted then Some True else Wallet_IsMine E w tx);
                   mine \<leftarrow> (if mine then Some True else Wallet_IsFromMe E w tx);
                   if mine
                   then let m = MerkleTx_Init tx;
                            m = (case pblock of None \<Rightarrow> m
                                 | Some b \<Rightarrow> snd (SetMerkleBranch (we_sha E) hash9 (we_heap E) (we_best E) (we_index E) None (Some b) m))
                        in AddToWallet E (WTx_Init m) w
                   else do { w \<leftarrow> WalletUpdateSpent E (vin tx) w; Some (False, w) } })"

definition EraseFromWallet :: "base_uint \<Rightarrow> CWallet \<Rightarrow> bool \<times> CWallet" where
  "EraseFromWallet hsh w =
     (if \<not> fFileBacked (w_keys w) then (False, w) else (True, w\<lparr>mapWallet := (mapWallet w)(hsh := None)\<rparr>))"

definition Wallet_MarkDirty :: "CWallet \<Rightarrow> CWallet" where
  "Wallet_MarkDirty w = w\<lparr>mapWallet := (\<lambda>k. map_option WTx_MarkDirty (mapWallet w k))\<rparr>"

definition Wallet_GetTransaction :: "base_uint \<Rightarrow> CWallet \<Rightarrow> CWalletTx option" where
  "Wallet_GetTransaction hsh w = mapWallet w hsh"

definition Inventory :: "base_uint \<Rightarrow> CWallet \<Rightarrow> CWallet" where
  "Inventory hsh w =
     (case mapRequestCount w hsh of None \<Rightarrow> w | Some n \<Rightarrow> w\<lparr>mapRequestCount := (mapRequestCount w)(hsh \<mapsto> n + 1)\<rparr>)"

subsection \<open>Balances\<close>

text \<open>A loop over mapWallet in the order of its keys.\<close>

fun each_wtx :: "(CWallet \<Rightarrow> base_uint \<Rightarrow> CWalletTx \<Rightarrow> 'a \<Rightarrow> ('a \<times> CWalletTx) option) \<Rightarrow> base_uint list \<Rightarrow> 'a \<Rightarrow> CWallet \<Rightarrow> ('a \<times> CWallet) option" where
  "each_wtx f [] a w = Some (a, w)"
| "each_wtx f (k # ks) a w =
     (case mapWallet w k of
        None \<Rightarrow> each_wtx f ks a w
      | Some x \<Rightarrow> do { (a, x) \<leftarrow> f w k x a; each_wtx f ks a (w\<lparr>mapWallet := (mapWallet w)(k \<mapsto> x)\<rparr>) })"

definition spendable :: "wallet_env \<Rightarrow> CWallet \<Rightarrow> CWalletTx \<Rightarrow> (bool \<times> CWalletTx) option" where \<comment> \<open>IsFinal() && IsConfirmed()\<close>
  "spendable E w x = (if \<not> WTx_IsFinal E (wt_tx x) then Some (False, x) else WTx_IsConfirmed E w x)"

definition GetBalance :: "wallet_env \<Rightarrow> CWallet \<Rightarrow> (u64 \<times> CWallet) option" where
  "GetBalance E w =
     each_wtx (\<lambda>w k x n. do { (b, x) \<leftarrow> spendable E w x;
                            if b then do { (c, x) \<leftarrow> WTx_GetAvailableCredit E w True x; Some (n + c, x) } else Some (n, x) })
       (map_keys (mapWallet w)) 0 w"

definition GetUnconfirmedBalance :: "wallet_env \<Rightarrow> CWallet \<Rightarrow> (u64 \<times> CWallet) option" where
  "GetUnconfirmedBalance E w =
     each_wtx (\<lambda>w k x n. do { (b, x) \<leftarrow> spendable E w x;
                            if \<not> b then do { (c, x) \<leftarrow> WTx_GetAvailableCredit E w True x; Some (n + c, x) } else Some (n, x) })
       (map_keys (mapWallet w)) 0 w"

text \<open>The three balances of generated coins that are not mature yet.\<close>

definition immature_sum :: "wallet_env \<Rightarrow> (CTransaction \<Rightarrow> bool) \<Rightarrow> CWallet \<Rightarrow> (u64 \<times> CWallet) option" where
  "immature_sum E kind w =
     each_wtx (\<lambda>w k x n.
         if \<not> kind (wt_tx x) then Some (n, x)
         else case WTx_GetBlocksToMaturity E x of (b, x) \<Rightarrow>
           if \<not> b > 0 then Some (n, x)
           else case WTx_GetDepth E x of (d, x) \<Rightarrow>
             if d > 0 then do { c \<leftarrow> Wallet_GetCredit E w (wt_tx x); Some (n + c, x) } else Some (n, x))
       (map_keys (mapWallet w)) 0 w"

definition GetImmatureBalance :: "wallet_env \<Rightarrow> CWallet \<Rightarrow> (u64 \<times> CWallet) option" where
  "GetImmatureBalance E w = immature_sum E Tx_IsCoinBase w"

definition GetStake :: "wallet_env \<Rightarrow> CWallet \<Rightarrow> (u64 \<times> CWallet) option" where
  "GetStake E w = immature_sum E Tx_IsCoinStake w"

definition GetNewMint :: "wallet_env \<Rightarrow> CWallet \<Rightarrow> (u64 \<times> CWallet) option" where
  "GetNewMint E w = immature_sum E Tx_IsCoinBase w"

subsection \<open>Accounts\<close>

definition WTx_GetTxTime :: "CWalletTx \<Rightarrow> u64" where
  "WTx_GetTxTime x = (let n = ucast (nTimeSmart x) in if n \<noteq> 0 then n else ucast (nTimeReceived x))"

definition WTx_GetRequestCount :: "wallet_env \<Rightarrow> CWallet \<Rightarrow> CWalletTx \<Rightarrow> int" where
  "WTx_GetRequestCount E w x =
     (let hashBlock = mt_hashBlock (wt_merkle x); block = (if u_eq64 hashBlock 0 then None else mapRequestCount w hashBlock)
      in if Tx_IsCoinBase (wt_tx x) \<or> Tx_IsCoinStake (wt_tx x)
         then (case block of None \<Rightarrow> - 1 | Some n \<Rightarrow> n)
         else case mapRequestCount w (Tx_GetHash (we_sha E) (wt_tx x)) of
                None \<Rightarrow> - 1
              | Some n \<Rightarrow> if n = 0 \<and> \<not> u_eq64 hashBlock 0 then (case block of Some n \<Rightarrow> n | None \<Rightarrow> 1) else n)"

record amounts =
  am_immature :: u64
  am_mature :: u64
  am_received :: "(CTxDestination \<times> u64) list"
  am_sent :: "(CTxDestination \<times> u64) list"
  am_fee :: u64
  am_account :: "byte list"

text \<open>The loop of GetAmounts over the outputs.\<close>

fun amounts_loop :: "wallet_env \<Rightarrow> CWallet \<Rightarrow> u64 \<Rightarrow> CTxOut list \<Rightarrow> amounts \<Rightarrow> CWalletTx \<Rightarrow> (amounts \<times> CWalletTx) option" where
  "amounts_loop E w nDebit [] a x = Some (a, x)"
| "amounts_loop E w nDebit (txout # ts) a x =
     (case ExtractDestination (we_crypto E) (scriptPubKey txout) of
        None \<Rightarrow> amounts_loop E w nDebit ts a x
      | Some address \<Rightarrow>
          if 0 <s nDebit \<and> TxOut_IsChange E w txout then amounts_loop E w nDebit ts a x
          else let a = (if 0 <s nDebit then a\<lparr>am_sent := am_sent a @ [(address, nValue txout)]\<rparr> else a)
               in do { mine \<leftarrow> TxOut_IsMine E w txout;
                       if \<not> mine then amounts_loop E w nDebit ts a x
                       else if Tx_IsCoinBase (wt_tx x) \<or> Tx_IsCoinStake (wt_tx x)
                       then (case WTx_GetBlocksToMaturity E x of (b, x) \<Rightarrow>
                               amounts_loop E w nDebit ts
                                 (if b > 0 then a\<lparr>am_immature := am_immature a + nValue txout\<rparr>
                                  else a\<lparr>am_mature := am_mature a + nValue txout\<rparr>) x)
                       else amounts_loop E w nDebit ts (a\<lparr>am_received := am_received a @ [(address, nValue txout)]\<rparr>) x })"

definition GetAmounts :: "wallet_env \<Rightarrow> CWallet \<Rightarrow> CWalletTx \<Rightarrow> (amounts \<times> CWalletTx) option" where
  "GetAmounts E w x =
     do { (nDebit, x) \<leftarrow> WTx_GetDebit E w x;
          nFee \<leftarrow> (if 0 <s nDebit then do { nValueOut \<leftarrow> Tx_GetValueOut (wt_tx x); Some (nDebit - nValueOut) } else Some 0);
          amounts_loop E w nDebit (vout (wt_tx x))
            \<lparr> am_immature = 0, am_mature = 0, am_received = [], am_sent = [], am_fee = nFee, am_account = strFromAccount x \<rparr> x }"

record account_amounts =
  aa_immature :: u64
  aa_mature :: u64
  aa_received :: u64
  aa_sent :: u64
  aa_fee :: u64

definition GetAccountAmounts :: "wallet_env \<Rightarrow> CWallet \<Rightarrow> byte list \<Rightarrow> CWalletTx \<Rightarrow> (account_amounts \<times> CWalletTx) option" where
  "GetAccountAmounts E w strAccount x =
     do { (a, x) \<leftarrow> GetAmounts E w x;
          let own = (strAccount = am_account a);
              counted = filter (\<lambda>(address, v). case mapAddressBook w address of
                 Some name \<Rightarrow> name = strAccount | None \<Rightarrow> strAccount = []) (am_received a)
          in Some (\<lparr> aa_immature = (if own then am_immature a else 0), aa_mature = (if own then am_mature a else 0),
                     aa_received = sum_list (map snd counted), aa_sent = (if own then sum_list (map snd (am_sent a)) else 0),
                     aa_fee = (if own then am_fee a else 0) \<rparr>, x) }"

subsection \<open>Repair\<close>

definition set_wtx :: "wallet_env \<Rightarrow> base_uint \<Rightarrow> CWalletTx \<Rightarrow> CWallet \<Rightarrow> CWallet" where \<comment> \<open>a changed entry, written to disk\<close>
  "set_wtx E k x w = snd (WTx_write E (w\<lparr>mapWallet := (mapWallet w)(k \<mapsto> x)\<rparr>))"

record mismatches =
  nMismatchFound :: int
  nBalanceInQuestion :: u64

text \<open>FixSpentCoins: the loop over the outputs of one transaction, and the loop over the wallet.\<close>

fun fix_outputs ::
  "wallet_env \<Rightarrow> bool \<Rightarrow> CTxIndex \<Rightarrow> base_uint \<Rightarrow> nat list \<Rightarrow> mismatches \<Rightarrow> CWallet \<Rightarrow> (mismatches \<times> CWallet) option" where
  "fix_outputs E fCheckOnly txindex k [] r w = Some (r, w)"
| "fix_outputs E fCheckOnly txindex k (n # ns) r w =
     (case mapWallet w k of
        None \<Rightarrow> Some (r, w)
      | Some x \<Rightarrow>
          do { mine \<leftarrow> TxOut_IsMine E w (vout (wt_tx x) ! n);
               s \<leftarrow> WTx_IsSpent (word_of_nat n) x;
               let unused = (length (vSpent txindex) \<le> n \<or> DiskTxPos_IsNull (vSpent txindex ! n))
               in if mine \<and> s = unused
                  then let r = r\<lparr>nMismatchFound := nMismatchFound r + 1, nBalanceInQuestion := nBalanceInQuestion r + nValue (vout (wt_tx x) ! n)\<rparr>
                       in if fCheckOnly then fix_outputs E fCheckOnly txindex k ns r w
                          else do { x \<leftarrow> set_spent (\<not> unused) (word_of_nat n) x; fix_outputs E fCheckOnly txindex k ns r (set_wtx E k x w) }
                  else fix_outputs E fCheckOnly txindex k ns r w })"

fun fix_loop :: "wallet_env \<Rightarrow> bool \<Rightarrow> (base_uint \<rightharpoonup> CTxIndex) \<Rightarrow> base_uint list \<Rightarrow> mismatches \<Rightarrow> CWallet \<Rightarrow> (mismatches \<times> CWallet) option" where
  "fix_loop E fCheckOnly db [] r w = Some (r, w)"
| "fix_loop E fCheckOnly db (k # ks) r w =
     (case mapWallet w k of
        None \<Rightarrow> fix_loop E fCheckOnly db ks r w
      | Some x \<Rightarrow>
          (case db (Tx_GetHash (we_sha E) (wt_tx x)) of
             None \<Rightarrow> fix_loop E fCheckOnly db ks r w
           | Some txindex \<Rightarrow>
               do { (r, w) \<leftarrow> fix_outputs E fCheckOnly txindex k [0..<length (vout (wt_tx x))] r w;
                    fix_loop E fCheckOnly db ks r w }))"

definition FixSpentCoins :: "wallet_env \<Rightarrow> bool \<Rightarrow> (base_uint \<rightharpoonup> CTxIndex) \<Rightarrow> CWallet \<Rightarrow> (mismatches \<times> CWallet) option" where
  "FixSpentCoins E fCheckOnly db w =
     fix_loop E fCheckOnly db (map_keys (mapWallet w)) \<lparr> nMismatchFound = 0, nBalanceInQuestion = 0 \<rparr> w"

fun disable_loop :: "wallet_env \<Rightarrow> CTxIn list \<Rightarrow> CWallet \<Rightarrow> CWallet option" where
  "disable_loop E [] w = Some w"
| "disable_loop E (txin # is) w =
     (case mapWallet w (o_hash (prevout txin)) of
        None \<Rightarrow> disable_loop E is w
      | Some prev \<Rightarrow>
          do { mine \<leftarrow> TxIn_IsMine E w txin;
               if \<not> mine then disable_loop E is w
               else do { prev \<leftarrow> MarkUnspent (o_n (prevout txin)) prev; disable_loop E is (set_wtx E (o_hash (prevout txin)) prev w) } })"

definition DisableTransaction :: "wallet_env \<Rightarrow> CTransaction \<Rightarrow> CWallet \<Rightarrow> CWallet option" where
  "DisableTransaction E tx w =
     (if \<not> Tx_IsCoinStake tx then Some w
      else do { mine \<leftarrow> Wallet_IsFromMe E w tx; if \<not> mine then Some w else disable_loop E (vin tx) w })"

end
