(* ===== verification/CoinSelect.thy ===== *)
theory CoinSelect
  imports Wallet
begin

text \<open>
  The choice of coins to spend, from src/coincontrol.h and src/wallet.cpp: coin control, the spendable
  outputs, the approximate solution of the subset sum problem and SelectCoins. A coin is the key of its transaction in mapWallet,
  which stands for the pointer, with the index of the output. Random numbers are those of \<open>se_rand\<close> at the
  wallet's clock, reduced to the range asked for.
\<close>

subsection \<open>Coin control\<close>

record CCoinControl =
  destChange :: CTxDestination
  setSelected :: "COutPoint set"

definition CoinControl_SetNull :: CCoinControl where
  "CoinControl_SetNull = \<lparr> destChange = CNoDestination, setSelected = {} \<rparr>"

definition HasSelected :: "CCoinControl \<Rightarrow> bool" where "HasSelected c \<longleftrightarrow> setSelected c \<noteq> {}"

definition IsSelected :: "CCoinControl \<Rightarrow> base_uint \<Rightarrow> nat \<Rightarrow> bool" where
  "IsSelected c hsh n \<longleftrightarrow> COutPoint hsh (word_of_nat n) \<in> setSelected c"

definition Select_coin :: "CCoinControl \<Rightarrow> COutPoint \<Rightarrow> CCoinControl" where
  "Select_coin c output = c\<lparr>setSelected := insert output (setSelected c)\<rparr>"

definition UnSelect :: "CCoinControl \<Rightarrow> COutPoint \<Rightarrow> CCoinControl" where
  "UnSelect c output = c\<lparr>setSelected := setSelected c - {output}\<rparr>"

definition UnSelectAll :: "CCoinControl \<Rightarrow> CCoinControl" where "UnSelectAll c = c\<lparr>setSelected := {}\<rparr>"

definition ListSelected :: "CCoinControl \<Rightarrow> COutPoint list" where "ListSelected c = sorted_list_of_set (setSelected c)"

subsection \<open>Spendable outputs\<close>

type_synonym coin = "base_uint \<times> nat"

record COutput =
  out_coin :: coin
  out_nDepth :: int

definition coin_out :: "CWallet \<Rightarrow> coin \<Rightarrow> CTxOut" where
  "coin_out w c = vout (wt_tx (the (mapWallet w (fst c)))) ! snd c"

definition coin_value :: "CWallet \<Rightarrow> coin \<Rightarrow> u64" where "coin_value w c = nValue (coin_out w c)"

text \<open>The loop of AvailableCoins over the outputs of one transaction.\<close>

fun avail_outputs ::
  "wallet_env \<Rightarrow> CWallet \<Rightarrow> CCoinControl option \<Rightarrow> base_uint \<Rightarrow> nat list \<Rightarrow> CWalletTx \<Rightarrow> COutput list \<Rightarrow> (COutput list \<times> CWalletTx) option" where
  "avail_outputs E w cc k [] x vCoins = Some (vCoins, x)"
| "avail_outputs E w cc k (i # is) x vCoins =
     do { spent \<leftarrow> WTx_IsSpent (word_of_nat i) x;
          mine \<leftarrow> (if spent then Some False else TxOut_IsMine E w (vout (wt_tx x) ! i));
          if mine \<and> 0 <s nValue (vout (wt_tx x) ! i) \<and>
             (case cc of None \<Rightarrow> True | Some c \<Rightarrow> \<not> HasSelected c \<or> IsSelected c k i)
          then (case WTx_GetDepth E x of (d, x) \<Rightarrow>
                  avail_outputs E w cc k is x (vCoins @ [\<lparr> out_coin = (k, i), out_nDepth = d \<rparr>]))
          else avail_outputs E w cc k is x vCoins }"

definition avail_wtx ::
  "wallet_env \<Rightarrow> bool \<Rightarrow> CCoinControl option \<Rightarrow> CWallet \<Rightarrow> base_uint \<Rightarrow> CWalletTx \<Rightarrow> COutput list \<Rightarrow> (COutput list \<times> CWalletTx) option" where
  "avail_wtx E fOnlyConfirmed cc w k x vCoins =
     (if \<not> WTx_IsFinal E (wt_tx x) then Some (vCoins, x)
      else do { (ok, x) \<leftarrow> (if fOnlyConfirmed then WTx_IsConfirmed E w x else Some (True, x));
                if \<not> ok then Some (vCoins, x)
                else case not_yet_mature E x of (wait, x) \<Rightarrow>
                  if wait then Some (vCoins, x) else avail_outputs E w cc k [0..<length (vout (wt_tx x))] x vCoins })"

definition AvailableCoins :: "wallet_env \<Rightarrow> bool \<Rightarrow> CCoinControl option \<Rightarrow> CWallet \<Rightarrow> (COutput list \<times> CWallet) option" where
  "AvailableCoins E fOnlyConfirmed cc w = each_wtx (avail_wtx E fOnlyConfirmed cc) (map_keys (mapWallet w)) [] w"

subsection \<open>The subset sum problem\<close>

record subset_state =
  ss_total :: u64 \<comment> \<open>nTotal\<close>
  vfIncluded :: "bool list"
  fReachedTarget :: bool
  nBest :: u64
  vfBest :: "bool list"
  ss_draws :: nat \<comment> \<open>how often rand() was called\<close>

definition subset_item :: "(nat \<Rightarrow> bool) \<Rightarrow> u64 list \<Rightarrow> u64 \<Rightarrow> nat \<Rightarrow> nat \<Rightarrow> subset_state \<Rightarrow> subset_state" where
  "subset_item rnd vs nTargetValue nPass i st =
     (let pick = (if nPass = 0 then rnd (ss_draws st) else \<not> vfIncluded st ! i);
          st = (if nPass = 0 then st\<lparr>ss_draws := ss_draws st + 1\<rparr> else st)
      in if \<not> pick then st
         else let nTotal = ss_total st + vs ! i; inc = (vfIncluded st)[i := True]
              in if nTargetValue \<le>s nTotal
                 then let st = (if nTotal <s nBest st then st\<lparr>nBest := nTotal, vfBest := inc\<rparr> else st)
                      in st\<lparr>fReachedTarget := True, ss_total := nTotal - vs ! i, vfIncluded := inc[i := False]\<rparr>
                 else st\<lparr>ss_total := nTotal, vfIncluded := inc\<rparr>)"

definition subset_pass :: "(nat \<Rightarrow> bool) \<Rightarrow> u64 list \<Rightarrow> u64 \<Rightarrow> nat \<Rightarrow> subset_state \<Rightarrow> subset_state" where
  "subset_pass rnd vs nTargetValue nPass st = fold (subset_item rnd vs nTargetValue nPass) [0..<length vs] st"

definition subset_rep :: "(nat \<Rightarrow> bool) \<Rightarrow> u64 list \<Rightarrow> u64 \<Rightarrow> subset_state \<Rightarrow> subset_state" where
  "subset_rep rnd vs nTargetValue st =
     (let st = st\<lparr>vfIncluded := replicate (length vs) False, ss_total := 0, fReachedTarget := False\<rparr>;
          st = subset_pass rnd vs nTargetValue 0 st
      in if fReachedTarget st then st else subset_pass rnd vs nTargetValue 1 st)"

fun subset_reps :: "(nat \<Rightarrow> bool) \<Rightarrow> u64 list \<Rightarrow> u64 \<Rightarrow> nat \<Rightarrow> subset_state \<Rightarrow> subset_state" where
  "subset_reps rnd vs nTargetValue 0 st = st"
| "subset_reps rnd vs nTargetValue (Suc n) st =
     (if nBest st = nTargetValue then st else subset_reps rnd vs nTargetValue n (subset_rep rnd vs nTargetValue st))"

definition ApproximateBestSubset :: "(nat \<Rightarrow> bool) \<Rightarrow> nat \<Rightarrow> u64 list \<Rightarrow> u64 \<Rightarrow> u64 \<Rightarrow> nat \<Rightarrow> subset_state" where
  "ApproximateBestSubset rnd draws vs nTotalLower nTargetValue iterations =
     subset_reps rnd vs nTargetValue iterations
       \<lparr> ss_total = 0, vfIncluded = [], fReachedTarget = False, nBest = nTotalLower, vfBest = replicate (length vs) True, ss_draws = draws \<rparr>"

subsection \<open>Selecting coins\<close>

record select_env =
  se_wallet :: wallet_env
  se_rand :: "nat \<Rightarrow> nat"

definition w_clock :: "CWallet \<Rightarrow> nat" where "w_clock w = kw_clock (w_keys w)"
definition set_clock :: "nat \<Rightarrow> CWallet \<Rightarrow> CWallet" where "set_clock n w = w\<lparr>w_keys := (w_keys w)\<lparr>kw_clock := n\<rparr>\<rparr>"

definition Wallet_GetRandInt :: "select_env \<Rightarrow> nat \<Rightarrow> CWallet \<Rightarrow> nat \<times> CWallet" where
  "Wallet_GetRandInt S nMax w = (if nMax = 0 then (0, w) else (se_rand S (w_clock w) mod nMax, set_clock (w_clock w + 1) w))"

text \<open>std::random_shuffle as the GNU library has it: each place is swapped with a random one up to it.\<close>

definition swap_at :: "nat \<Rightarrow> nat \<Rightarrow> 'a list \<Rightarrow> 'a list" where
  "swap_at i j xs = (if i < length xs \<and> j < length xs then xs[i := xs ! j, j := xs ! i] else xs)"

fun shuffle_loop :: "select_env \<Rightarrow> nat list \<Rightarrow> 'a list \<Rightarrow> CWallet \<Rightarrow> 'a list \<times> CWallet" where
  "shuffle_loop S [] xs w = (xs, w)"
| "shuffle_loop S (i # is) xs w = (case Wallet_GetRandInt S (i + 1) w of (j, w) \<Rightarrow> shuffle_loop S is (swap_at i j xs) w)"

definition random_shuffle :: "select_env \<Rightarrow> 'a list \<Rightarrow> CWallet \<Rightarrow> 'a list \<times> CWallet" where
  "random_shuffle S xs w = shuffle_loop S [1..<length xs] xs w"

definition MAX_INT64 :: u64 where "MAX_INT64 = 0x7fffffffffffffff"

text \<open>The lists the loop over the outputs builds; coinLowestLarger without a transaction is None.\<close>

record coin_lists =
  vValue :: "(u64 \<times> coin) list"
  nTotalLower :: u64
  coinLowestLarger :: "(u64 \<times> coin) option"

definition lowest_larger :: "coin_lists \<Rightarrow> u64" where
  "lowest_larger l = (case coinLowestLarger l of None \<Rightarrow> MAX_INT64 | Some c \<Rightarrow> fst c)"

record select_args =
  sa_nTargetValue :: u64
  sa_nSpendTime :: u32
  sa_nConfMine :: int
  sa_nConfTheirs :: int

text \<open>The loop: a coin of exactly the target ends it.\<close>

fun minconf_loop ::
  "wallet_env \<Rightarrow> select_args \<Rightarrow> COutput list \<Rightarrow> coin_lists \<Rightarrow> CWallet \<Rightarrow> (((u64 \<times> coin) + coin_lists) \<times> CWallet) option" where
  "minconf_loop E a [] l w = Some (Inr l, w)"
| "minconf_loop E a (out # outs) l w =
     (let k = fst (out_coin out)
      in do { (mine, x) \<leftarrow> WTx_IsFromMe E w (the (mapWallet w k));
              let w = w\<lparr>mapWallet := (mapWallet w)(k \<mapsto> x)\<rparr>; n = coin_value w (out_coin out); c = (n, out_coin out)
              in if out_nDepth out < (if mine then sa_nConfMine a else sa_nConfTheirs a) then minconf_loop E a outs l w
                 else if tx_nTime (wt_tx x) > sa_nSpendTime a then minconf_loop E a outs l w
                 else if n = sa_nTargetValue a then Some (Inl c, w)
                 else if n <s sa_nTargetValue a + CENT
                 then minconf_loop E a outs (l\<lparr>vValue := vValue l @ [c], nTotalLower := nTotalLower l + n\<rparr>) w
                 else if n <s lowest_larger l then minconf_loop E a outs (l\<lparr>coinLowestLarger := Some c\<rparr>) w
                 else minconf_loop E a outs l w })"

text \<open>std::set insertion; the set is the list of its elements.\<close>

definition add_coin :: "(u64 \<times> coin) \<Rightarrow> coin list \<times> u64 \<Rightarrow> coin list \<times> u64" where
  "add_coin c r = (List.insert (snd c) (fst r), snd r + fst c)"

definition by_value :: "(u64 \<times> coin) list \<Rightarrow> (u64 \<times> coin) list" where \<comment> \<open>std::sort from the end by value\<close>
  "by_value cs = rev (sort_key (\<lambda>c. sint (fst c)) (rev cs))"

definition chosen :: "bool list \<Rightarrow> (u64 \<times> coin) list \<Rightarrow> (u64 \<times> coin) list" where
  "chosen flags cs = map snd (filter fst (zip flags cs))"

text \<open>The second half of SelectCoinsMinConf, with the result (success, set, sum) and the clock.\<close>

definition choose_coins :: "select_env \<Rightarrow> u64 \<Rightarrow> coin_lists \<Rightarrow> nat \<Rightarrow> (bool \<times> coin list \<times> u64) \<times> nat" where
  "choose_coins S nTargetValue l clk =
     (if nTotalLower l = nTargetValue then ((True, fold add_coin (vValue l) ([], 0)), clk)
      else if nTotalLower l <s nTargetValue
      then (case coinLowestLarger l of None \<Rightarrow> ((False, [], 0), clk) | Some c \<Rightarrow> ((True, add_coin c ([], 0)), clk))
      else let vs = by_value (vValue l); rnd = (\<lambda>n. odd (se_rand S n));
               st = ApproximateBestSubset rnd clk (map fst vs) (nTotalLower l) nTargetValue 1000;
               st = (if nBest st \<noteq> nTargetValue \<and> nTargetValue + CENT \<le>s nTotalLower l
                     then ApproximateBestSubset rnd (ss_draws st) (map fst vs) (nTotalLower l) (nTargetValue + CENT) 1000 else st)
           in (case coinLowestLarger l of
                 Some c \<Rightarrow>
                   if (nBest st \<noteq> nTargetValue \<and> nBest st <s nTargetValue + CENT) \<or> fst c \<le>s nBest st
                   then ((True, add_coin c ([], 0)), ss_draws st)
                   else ((True, fold add_coin (chosen (vfBest st) vs) ([], 0)), ss_draws st)
               | None \<Rightarrow> ((True, fold add_coin (chosen (vfBest st) vs) ([], 0)), ss_draws st)))"

definition SelectCoinsMinConf ::
  "select_env \<Rightarrow> select_args \<Rightarrow> COutput list \<Rightarrow> CWallet \<Rightarrow> ((bool \<times> coin list \<times> u64) \<times> CWallet) option" where
  "SelectCoinsMinConf S a vCoins w =
     (case random_shuffle S vCoins w of (vCoins, w) \<Rightarrow>
        do { (r, w) \<leftarrow> minconf_loop (se_wallet S) a vCoins \<lparr> vValue = [], nTotalLower = 0, coinLowestLarger = None \<rparr> w;
             case r of Inl c \<Rightarrow> Some ((True, add_coin c ([], 0)), w)
             | Inr l \<Rightarrow> (case choose_coins S (sa_nTargetValue a) l (w_clock w) of (r, clk) \<Rightarrow> Some (r, set_clock clk w)) })"

text \<open>With coin control every selected output is taken; printing the debit of its transaction caches it.\<close>

fun take_selected :: "wallet_env \<Rightarrow> COutput list \<Rightarrow> coin list \<times> u64 \<Rightarrow> CWallet \<Rightarrow> ((coin list \<times> u64) \<times> CWallet) option" where
  "take_selected E [] r w = Some (r, w)"
| "take_selected E (out # outs) r w =
     (let k = fst (out_coin out)
      in do { (_, x) \<leftarrow> WTx_GetDebit E w (the (mapWallet w k));
              take_selected E outs (add_coin (coin_value w (out_coin out), out_coin out) r) (w\<lparr>mapWallet := (mapWallet w)(k \<mapsto> x)\<rparr>) })"

definition SelectCoins ::
  "select_env \<Rightarrow> u64 \<Rightarrow> u32 \<Rightarrow> CCoinControl option \<Rightarrow> CWallet \<Rightarrow> ((bool \<times> coin list \<times> u64) \<times> CWallet) option" where
  "SelectCoins S nTargetValue nSpendTime cc w =
     do { (vCoins, w) \<leftarrow> AvailableCoins (se_wallet S) True cc w;
          if (case cc of None \<Rightarrow> False | Some c \<Rightarrow> HasSelected c)
          then do { ((cs, v), w) \<leftarrow> take_selected (se_wallet S) vCoins ([], 0) w; Some ((nTargetValue \<le>s v, cs, v), w) }
          else let try = (\<lambda>mine theirs. SelectCoinsMinConf S
                     \<lparr> sa_nTargetValue = nTargetValue, sa_nSpendTime = nSpendTime, sa_nConfMine = mine, sa_nConfTheirs = theirs \<rparr> vCoins)
               in do { (r, w) \<leftarrow> try 1 6 w;
                       if fst r then Some (r, w)
                       else do { (r, w) \<leftarrow> try 1 1 w;
                                 if fst r then Some (r, w) else try 0 1 w } } }"

end
