(* ===== verification/KeyPoolSpec.thy ===== *)
theory KeyPoolSpec
  imports KeyPool "HOL-Library.Multiset"
begin

text \<open>
  The promise of the key pool: while the wallet is unlocked, the keys it reserves and hands out are keys of the
  wallet and pairwise different, whatever the order in which reservations are made, kept and returned. A pool drained while
  the wallet was locked breaks it.
\<close>

subsection \<open>What is assumed of the surroundings\<close>

text \<open>Writes succeed, new keys are valid and, up to time \<open>N\<close>, not repeated, and encryption does not fail.\<close>

definition keys_fresh :: "nat \<Rightarrow> key_env \<Rightarrow> bool" where
  "keys_fresh N E \<longleftrightarrow>
     (\<forall>n. ke_io E n) \<and>
     (\<forall>n c. CPubKey_IsValid (kl_pub (ke_lib E) (ke_newkey E n c))) \<and>
     (\<forall>n<N. \<forall>m<n. \<forall>c d. kl_pub (ke_lib E) (ke_newkey E n c) \<noteq> kl_pub (ke_lib E) (ke_newkey E m d)) \<and>
     (\<forall>master s iv. kl_encrypt (ke_lib E) master s iv \<noteq> None)"

definition in_wallet :: "key_env \<Rightarrow> key_wallet \<Rightarrow> byte list \<Rightarrow> bool" where
  "in_wallet E w k \<longleftrightarrow> Crypto_HaveKey (kw_store w) (CPubKey_GetID (ke_crypto E) k)"

text \<open>The keys a wallet can have seen: drawn before its clock and stored.\<close>

definition known_key :: "key_env \<Rightarrow> key_wallet \<Rightarrow> byte list \<Rightarrow> bool" where
  "known_key E w k \<longleftrightarrow> in_wallet E w k \<and> (\<exists>m c. m < kw_clock w \<and> k = kl_pub (ke_lib E) (ke_newkey E m c))"

definition kw_grows :: "key_env \<Rightarrow> key_wallet \<Rightarrow> key_wallet \<Rightarrow> bool" where
  "kw_grows E w w' \<longleftrightarrow> (\<not> IsLocked (kw_store w) \<longrightarrow> \<not> IsLocked (kw_store w')) \<and> kw_clock w \<le> kw_clock w' \<and>
     (\<forall>k. in_wallet E w k \<longrightarrow> in_wallet E w' k)"

lemma kw_grows_refl [simp]: "kw_grows E w w"
  by (simp add: kw_grows_def)

lemma kw_grows_trans: "kw_grows E w1 w2 \<Longrightarrow> kw_grows E w2 w3 \<Longrightarrow> kw_grows E w1 w3"
  by (auto simp: kw_grows_def)

lemma kw_grows_fields [simp]:
  "kw_grows E w (w'\<lparr>setKeyPool := s\<rparr>) = kw_grows E w w'" "kw_grows E w (w'\<lparr>kw_pool := p\<rparr>) = kw_grows E w w'"
  "kw_grows E w (pool_insert i w') = kw_grows E w w'"
  by (simp_all add: kw_grows_def in_wallet_def pool_insert_def)

lemma kw_grows_tick [intro]: "kw_grows E w w' \<Longrightarrow> kw_grows E w (kw_tick w')"
  by (auto simp: kw_grows_def in_wallet_def kw_tick_def)

lemma known_key_grows: "kw_grows E w w' \<Longrightarrow> known_key E w k \<Longrightarrow> known_key E w' k"
proof -
  assume g: "kw_grows E w w'" and k: "known_key E w k"
  obtain m c where m: "m < kw_clock w" "k = kl_pub (ke_lib E) (ke_newkey E m c)" using k by (auto simp: known_key_def)
  have "m < kw_clock w'" using g m(1) by (auto simp: kw_grows_def)
  then show ?thesis using g k m(2) unfolding known_key_def kw_grows_def by blast
qed

text \<open>Every draw and every write is one tick.\<close>

lemma AddKey_clock: "CWallet_AddKey E key w = (ok, w') \<Longrightarrow> kw_clock w \<le> kw_clock w' \<and> kw_clock w' \<le> kw_clock w + 1"
  by (auto simp: CWallet_AddKey_def CWallet_AddCryptedKey_def db_write_def kw_tick_def Let_def
      split: if_splits option.splits prod.splits)

lemma snd_SetMinVersion_clock [simp]: "kw_clock (snd (SetMinVersion w v e)) = kw_clock w"
  by (simp add: SetMinVersion_def Let_def)

lemma GenerateNewKey_clock: "GenerateNewKey E w = (r, w') \<Longrightarrow> kw_clock w < kw_clock w' \<and> kw_clock w' \<le> kw_clock w + 2"
  by (auto simp: GenerateNewKey_def kw_tick_def Let_def split: if_splits option.splits prod.splits dest!: AddKey_clock)

lemma pool_add_clock: "pool_add E w = (r, w') \<Longrightarrow> kw_clock w < kw_clock w' \<and> kw_clock w' \<le> kw_clock w + 4"
  by (auto simp: pool_add_def new_pool_key_def WritePool_def db_write_def kw_tick_def pool_insert_def Let_def
      split: if_splits option.splits prod.splits dest!: GenerateNewKey_clock)

lemma TopUp_loop_clock:
  "kw_clock w \<le> kw_clock (snd (TopUp_loop E n w)) \<and>
   kw_clock (snd (TopUp_loop E n w)) \<le> kw_clock w + 4 * (n - length (setKeyPool w))"
proof (induction E n w rule: TopUp_loop.induct)
  case (1 E n w)
  obtain r w1 where a: "pool_add E w = (r, w1)" by fastforce
  note c = pool_add_clock [OF a]
  show ?case
  proof (cases "length (setKeyPool w) < n \<and> r \<noteq> None")
    case True
    then obtain l where r: "r = Some l" "length (setKeyPool w) < n" by auto
    have "length (setKeyPool w1) = Suc (length (setKeyPool w))" using pool_add_grows [of E w w1] a r by simp
    moreover from r(2) have "n - length (setKeyPool w) = Suc (n - Suc (length (setKeyPool w)))" by linarith
    ultimately show ?thesis using 1 [OF r(2) a [symmetric] r(1)] c r a by (subst (1 2) TopUp_loop.simps) simp
  next
    case False
    then show ?thesis using c a by (cases r; subst (1 2) TopUp_loop.simps) auto
  qed
qed

lemma TopUpKeyPool_clock: "TopUpKeyPool E w = (r, w') \<Longrightarrow> kw_clock w \<le> kw_clock w'"
  using TopUp_loop_clock [of w E "unat ((word_of_int (max (ke_keypool E) 0) :: u32) + 1)"]
  by (auto simp: TopUpKeyPool_def Let_def split: if_splits option.splits prod.splits)

lemma ReserveKeyFromKeyPool_clock: "ReserveKeyFromKeyPool E w = (i, r, w') \<Longrightarrow> kw_clock w \<le> kw_clock w'"
  by (auto simp: ReserveKeyFromKeyPool_def Let_def split: if_splits option.splits prod.splits dest!: TopUpKeyPool_clock)

lemma ReserveKeyFromKeyPool_end:
  "ReserveKeyFromKeyPool E w = (i, r, w') \<Longrightarrow> kw_clock w' \<le> kw_clock w + 4 * unat ((word_of_int (max (ke_keypool E) 0) :: u32) + 1)"
  using TopUp_loop_clock [of w E "unat ((word_of_int (max (ke_keypool E) 0) :: u32) + 1)"]
  by (auto simp: ReserveKeyFromKeyPool_def TopUpKeyPool_def Let_def split: if_splits option.splits prod.splits)

lemma KeepKey_clock: "kw_clock w \<le> kw_clock (KeepKey E i w)"
  by (simp add: KeepKey_def ErasePool_def db_write_def kw_tick_def)

lemma pool_add_file: "pool_add E w = (r, w') \<Longrightarrow> fFileBacked w' = fFileBacked w"
  by (auto simp: pool_add_def new_pool_key_def GenerateNewKey_def CWallet_AddKey_def CWallet_AddCryptedKey_def WritePool_def
      db_write_def kw_tick_def pool_insert_def Let_def split: if_splits option.splits prod.splits)

lemma AddCryptedKey_store:
  assumes "fUseCrypto s"
  shows "AddCryptedKey K vch c s =
    (True, s\<lparr>mapCryptedKeys := map_put (CPubKey_GetID K vch) (vch, c) (mapCryptedKeys s)\<rparr>)"
  using assms by (simp add: AddCryptedKey_def SetCrypted_def)

lemma AddKey_ok:
  assumes "keys_fresh N E" "\<not> IsLocked (kw_store w)"
  shows "\<exists>w'. CWallet_AddKey E key w = (True, w') \<and> kw_grows E w w' \<and> in_wallet E w' (kl_pub (ke_lib E) key)"
proof (cases "fUseCrypto (kw_store w)")
  case False
  then show ?thesis using assms
    by (auto simp: CWallet_AddKey_def db_write_def kw_tick_def keys_fresh_def kw_grows_def in_wallet_def Basic_AddKey_def
        Crypto_HaveKey_def Basic_HaveKey_def IsLocked_def Let_def)
next
  case True
  then obtain c where "kl_encrypt (ke_lib E) (vMasterKey (kw_store w)) (fst key)
      (Hash (cr_sha256 (ke_crypto E)) (kl_pub (ke_lib E) key)) = Some c"
    using assms(1) unfolding keys_fresh_def by blast
  then show ?thesis using assms True
    by (auto simp: CWallet_AddKey_def CWallet_AddCryptedKey_def AddCryptedKey_store db_write_def kw_tick_def keys_fresh_def
        kw_grows_def in_wallet_def Crypto_HaveKey_def IsLocked_def Let_def)
qed

lemma GenerateNewKey_ok:
  assumes "keys_fresh N E" "\<not> IsLocked (kw_store w)"
  shows "\<exists>c w'. GenerateNewKey E w = (Some (kl_pub (ke_lib E) (ke_newkey E (kw_clock w) c)), w') \<and> kw_grows E w w' \<and>
    kw_clock w < kw_clock w' \<and> in_wallet E w' (kl_pub (ke_lib E) (ke_newkey E (kw_clock w) c)) \<and>
    setKeyPool w' = setKeyPool w \<and> kw_pool w' = kw_pool w \<and> vchDefaultKey w' = vchDefaultKey w"
proof -
  let ?c = "CanSupportFeature w FEATURE_COMPRPUBKEY"
  define w1 where "w1 = (if ?c then snd (SetMinVersion (kw_tick w) FEATURE_COMPRPUBKEY False) else kw_tick w)"
  have w1: "kw_store w1 = kw_store w" "kw_clock w1 = kw_clock w + 1" "setKeyPool w1 = setKeyPool w" "kw_pool w1 = kw_pool w"
    "vchDefaultKey w1 = vchDefaultKey w"
    by (simp_all add: w1_def kw_tick_def SetMinVersion_def Let_def)
  obtain w' where a: "CWallet_AddKey E (ke_newkey E (kw_clock w) ?c) w1 = (True, w')" "kw_grows E w1 w'"
      "in_wallet E w' (kl_pub (ke_lib E) (ke_newkey E (kw_clock w) ?c))"
    using AddKey_ok [of N E w1] assms w1(1) by metis
  show ?thesis
  proof (rule exI [of _ ?c], rule exI [of _ w'], intro conjI)
    show "GenerateNewKey E w = (Some (kl_pub (ke_lib E) (ke_newkey E (kw_clock w) ?c)), w')"
      unfolding GenerateNewKey_def Let_def w1_def [symmetric] a(1) by simp
    show "kw_grows E w w'" using a(2) w1 by (auto simp: kw_grows_def in_wallet_def)
    show "kw_clock w < kw_clock w'" using a(2) w1 by (simp add: kw_grows_def)
  qed (use a AddKey_keeps [OF a(1)] w1 in auto)
qed

lemma new_pool_key_ok:
  assumes "keys_fresh N E" "\<not> IsLocked (kw_store w)"
  shows "\<exists>c kp w'. new_pool_key E w = (Some kp, w') \<and> kp_vchPubKey kp = kl_pub (ke_lib E) (ke_newkey E (kw_clock w) c) \<and>
    kw_grows E w w' \<and> kw_clock w < kw_clock w' \<and> in_wallet E w' (kp_vchPubKey kp) \<and>
    setKeyPool w' = setKeyPool w \<and> kw_pool w' = kw_pool w"
proof -
  obtain c w1 where g: "GenerateNewKey E w = (Some (kl_pub (ke_lib E) (ke_newkey E (kw_clock w) c)), w1)" "kw_grows E w w1"
      "kw_clock w < kw_clock w1" "in_wallet E w1 (kl_pub (ke_lib E) (ke_newkey E (kw_clock w) c))"
      "setKeyPool w1 = setKeyPool w" "kw_pool w1 = kw_pool w"
    using GenerateNewKey_ok [OF assms] by metis
  show ?thesis
    by (rule exI [of _ c]) (use g in \<open>auto simp: new_pool_key_def kw_tick_def kw_grows_def in_wallet_def\<close>)
qed

subsection \<open>The entries of the pool\<close>

definition key_at :: "key_wallet \<Rightarrow> int \<Rightarrow> byte list" where
  "key_at w i = kp_vchPubKey (the (kw_pool w i))"

text \<open>Indices with their keys: those in the pool and those reserved. \<open>G\<close> are the keys handed out.\<close>

definition entries :: "key_wallet \<Rightarrow> (int \<times> byte list) list \<Rightarrow> (int \<times> byte list) list" where
  "entries w R = map (\<lambda>i. (i, key_at w i)) (setKeyPool w) @ R"

definition entries_ok :: "key_env \<Rightarrow> key_wallet \<Rightarrow> (int \<times> byte list) list \<Rightarrow> byte list list \<Rightarrow> bool" where
  "entries_ok E w L G \<longleftrightarrow>
     distinct (map fst L) \<and> distinct (map snd L @ G) \<and>
     (\<forall>e\<in>set L. 1 \<le> fst e \<and> kw_pool w (fst e) \<noteq> None \<and> key_at w (fst e) = snd e) \<and>
     (\<forall>k\<in>snd ` set L \<union> set G. known_key E w k)"

lemma entries_ok_mset:
  assumes "mset L = mset L'" "entries_ok E w L G"
  shows "entries_ok E w L' G"
proof -
  have s: "set L = set L'" using assms(1) by (metis set_mset_mset)
  have "mset (map fst L) = mset (map fst L')" "mset (map snd L @ G) = mset (map snd L' @ G)" using assms(1) by simp_all
  then have "distinct (map fst L) = distinct (map fst L')" "distinct (map snd L @ G) = distinct (map snd L' @ G)"
    by (simp_all only: mset_eq_imp_distinct_iff [of "map fst L"] mset_eq_imp_distinct_iff [of "map snd L @ G"])
  then show ?thesis using assms(2) s by (simp add: entries_ok_def)
qed

lemma entries_ok_grows:
  assumes "entries_ok E w L G" "kw_grows E w w'" "\<And>i. i \<in> fst ` set L \<Longrightarrow> kw_pool w' i = kw_pool w i"
  shows "entries_ok E w' L G"
  using assms by (auto simp: entries_ok_def key_at_def intro: known_key_grows)

lemma entries_ok_new:
  assumes "entries_ok E w L G" "keys_fresh N E" "kw_grows E w w'" "kw_clock w < kw_clock w'" "kw_clock w < N"
    "i \<notin> fst ` set L" "1 \<le> i" "kw_pool w' = (kw_pool w)(i \<mapsto> kp)"
    "kp_vchPubKey kp = kl_pub (ke_lib E) (ke_newkey E (kw_clock w) c)" "in_wallet E w' (kp_vchPubKey kp)"
  shows "entries_ok E w' ((i, kp_vchPubKey kp) # L) G"
proof -
  let ?k = "kp_vchPubKey kp"
  have "entries_ok E w' L G" using assms(6,8) by (intro entries_ok_grows [OF assms(1,3)]) auto
  moreover have "known_key E w' ?k" using assms(4,9,10) by (auto simp: known_key_def)
  moreover have "\<not> known_key E w ?k"
    using assms(2,5) unfolding known_key_def keys_fresh_def assms(9) by metis
  then have "?k \<notin> snd ` set L \<union> set G" using assms(1) by (auto simp: entries_ok_def)
  ultimately show ?thesis using assms(6-8) by (auto simp: entries_ok_def key_at_def)
qed

lemma entries_ok_given:
  assumes "entries_ok E w ((i, k) # L) G" "kw_grows E w w'" "kw_pool w' = (kw_pool w)(i := None) \<or> kw_pool w' = kw_pool w"
  shows "entries_ok E w' L (k # G)"
proof -
  have n: "i \<notin> fst ` set L" using assms(1) by (simp add: entries_ok_def)
  have "entries_ok E w L (k # G)" using assms(1) by (auto simp: entries_ok_def)
  then show ?thesis using assms(2)
  proof (rule entries_ok_grows)
    show "kw_pool w' j = kw_pool w j" if "j \<in> fst ` set L" for j
      using assms(3) n that by (cases "j = i") auto
  qed
qed

text \<open>While keys are reserved, the pool holds an index beyond theirs, so that new indices are new.\<close>

definition pool_inv :: "key_env \<Rightarrow> key_wallet \<Rightarrow> (int \<times> byte list) list \<Rightarrow> byte list list \<Rightarrow> bool" where
  "pool_inv E w R G \<longleftrightarrow>
     \<not> IsLocked (kw_store w) \<and> entries_ok E w (entries w R) G \<and>
     (\<forall>e\<in>set R. setKeyPool w \<noteq> [] \<and> fst e < Max (set (setKeyPool w)))"

lemma pool_add_ok:
  assumes "keys_fresh N E" "pool_inv E w R G" "kw_clock w < N"
  shows "\<exists>w'. pool_add E w = (Some (), w') \<and> pool_inv E w' R G \<and> length (setKeyPool w') = Suc (length (setKeyPool w))"
proof -
  let ?n = "pool_end (setKeyPool w)"
  have l: "\<not> IsLocked (kw_store w)" and ok: "entries_ok E w (entries w R) G" using assms(2) by (simp_all add: pool_inv_def)
  obtain c kp w1 where n: "new_pool_key E w = (Some kp, w1)" "kp_vchPubKey kp = kl_pub (ke_lib E) (ke_newkey E (kw_clock w) c)"
      "kw_grows E w w1" "kw_clock w < kw_clock w1" "in_wallet E w1 (kp_vchPubKey kp)"
      "setKeyPool w1 = setKeyPool w" "kw_pool w1 = kw_pool w"
    using new_pool_key_ok [OF assms(1) l] by metis
  define w' where "w' = pool_insert ?n ((kw_tick w1)\<lparr>kw_pool := (kw_pool w)(?n \<mapsto> kp)\<rparr>)"
  have p: "pool_add E w = (Some (), w')"
    using n(1,6,7) assms(1) by (simp add: pool_add_def WritePool_def db_write_def keys_fresh_def w'_def kw_tick_def Let_def)
  have s: "setKeyPool w' = ?n # setKeyPool w" by (rule pool_add_grows [OF p])
  have g: "kw_grows E w w'" using n(3) by (auto simp: w'_def)
  have ge: "1 \<le> ?n"
  proof (cases "setKeyPool w = []")
    case False
    then have "Max (set (setKeyPool w)) \<in> fst ` set (entries w R)" by (simp add: entries_def image_Un image_image)
    then have "1 \<le> Max (set (setKeyPool w))" using ok by (auto simp: entries_ok_def)
    then show ?thesis by (simp add: pool_end_def)
  qed (simp add: pool_end_def)
  have "?n \<notin> fst ` set R" using assms(2) by (fastforce simp: pool_inv_def pool_end_def)
  then have new: "?n \<notin> fst ` set (entries w R)" using pool_end_fresh by (auto simp: entries_def)
  have "entries_ok E w' ((?n, kp_vchPubKey kp) # entries w R) G"
    by (rule entries_ok_new [OF ok assms(1) g _ assms(3) new ge _ n(2)])
       (use n(4,5) in \<open>simp_all add: w'_def pool_insert_def kw_tick_def in_wallet_def\<close>)
  moreover have "entries w' R = (?n, kp_vchPubKey kp) # entries w R"
    using pool_end_fresh [of "setKeyPool w"] unfolding entries_def s by (auto simp: key_at_def w'_def pool_insert_def)
  moreover have "\<forall>e\<in>set R. fst e < Max (set (setKeyPool w'))"
    using assms(2) unfolding s pool_inv_def by (auto simp: less_max_iff_disj)
  ultimately show ?thesis using p s g l by (auto simp: pool_inv_def kw_grows_def)
qed

lemma TopUp_loop_ok:
  assumes "keys_fresh N E" "pool_inv E w R G" "kw_clock w + 4 * n \<le> N + 4 * length (setKeyPool w)"
  shows "\<exists>w'. TopUp_loop E n w = (Some (), w') \<and> pool_inv E w' R G \<and> n \<le> length (setKeyPool w')"
  using assms(2,3)
proof (induction "n - length (setKeyPool w)" arbitrary: w)
  case 0
  then show ?case by (subst TopUp_loop.simps) auto
next
  case (Suc m)
  have c: "kw_clock w < N" using Suc.hyps(2) Suc.prems(2) by linarith
  obtain w1 where a: "pool_add E w = (Some (), w1)" "pool_inv E w1 R G" "length (setKeyPool w1) = Suc (length (setKeyPool w))"
    using pool_add_ok [OF assms(1) Suc.prems(1)] c by blast
  have l: "length (setKeyPool w) < n" "m = n - length (setKeyPool w1)" using Suc.hyps(2) a(3) by simp_all
  have "kw_clock w1 + 4 * n \<le> N + 4 * length (setKeyPool w1)" using pool_add_clock [OF a(1)] a(3) Suc.prems(2) by linarith
  then show ?case using Suc.hyps(1) [OF l(2) a(2)] a(1) l(1) by (subst TopUp_loop.simps) simp
qed

lemma unat_of_int32:
  assumes "0 \<le> n" "n < 2 ^ 32"
  shows "unat (word_of_int n :: u32) = nat n"
  using assms by (simp add: unat_eq_nat_uint uint_word_of_int_eq take_bit_int_eq_self)

text \<open>The time by which the next call of TopUpKeyPool is over.\<close>

definition top_up_end :: "key_env \<Rightarrow> key_wallet \<Rightarrow> nat" where
  "top_up_end E w = kw_clock w + 4 * (nat (ke_keypool E) + 1)"

lemma TopUpKeyPool_ok:
  assumes "keys_fresh N E" "pool_inv E w R G" "0 \<le> ke_keypool E" "ke_keypool E < 2 ^ 32 - 1" "top_up_end E w \<le> N"
  shows "\<exists>w'. TopUpKeyPool E w = (Some True, w') \<and> pool_inv E w' R G \<and> nat (ke_keypool E) < length (setKeyPool w')"
proof -
  let ?t = "word_of_int (max (ke_keypool E) 0) :: u32"
  have "?t + 1 = word_of_int (ke_keypool E + 1)" using assms(3) by simp
  then have "unat (?t + 1) = nat (ke_keypool E + 1)" using unat_of_int32 [of "ke_keypool E + 1"] assms(3,4) by simp
  then have size: "unat (?t + 1) = nat (ke_keypool E) + 1" using assms(3) by (simp add: nat_add_distrib)
  have "kw_clock w + 4 * unat (?t + 1) \<le> N + 4 * length (setKeyPool w)" using assms(5) unfolding size top_up_end_def by linarith
  then obtain w' where t: "TopUp_loop E (unat (?t + 1)) w = (Some (), w')" "pool_inv E w' R G" "unat (?t + 1) \<le> length (setKeyPool w')"
    using TopUp_loop_ok [OF assms(1,2)] by blast
  have "nat (ke_keypool E) < length (setKeyPool w')" using t(3) unfolding size by linarith
  moreover have "TopUpKeyPool E w = (Some True, w')" using t(1) assms(2) by (simp add: TopUpKeyPool_def pool_inv_def)
  ultimately show ?thesis using t(2) by blast
qed

subsection \<open>Reservations\<close>

lemma entries_remove:
  assumes "i \<in> set (setKeyPool w)"
  shows "mset (entries (w\<lparr>setKeyPool := remove1 i (setKeyPool w)\<rparr>) ((i, key_at w i) # R)) = mset (entries w R)"
proof -
  let ?f = "\<lambda>i. (i, key_at w i)"
  have "mset (setKeyPool w) = add_mset i (mset (remove1 i (setKeyPool w)))" using assms by simp
  then have "image_mset ?f (mset (setKeyPool w)) = add_mset (?f i) (image_mset ?f (mset (remove1 i (setKeyPool w))))"
    by (simp del: mset_remove1)
  then show ?thesis by (simp add: entries_def key_at_def del: mset_remove1)
qed

lemma Max_remove1:
  assumes "distinct s" "2 \<le> length s"
  shows "remove1 (Min (set s)) s \<noteq> []" "Min (set s) < Max (set (remove1 (Min (set s)) s))"
    "Max (set (remove1 (Min (set s)) s)) = Max (set s)"
proof -
  let ?i = "Min (set s)" and ?s = "remove1 (Min (set s)) s"
  have ne: "s \<noteq> []" using assms(2) by auto
  have "length ?s = length s - 1" using ne by (simp add: length_remove1)
  then show nil: "?s \<noteq> []" using assms(2) by auto
  have set: "set ?s = set s - {?i}" using assms(1) by (simp add: set_remove1_eq)
  show lt: "?i < Max (set ?s)"
  proof -
    have "Max (set ?s) \<in> set ?s" using nil by simp
    then have "Max (set ?s) \<in> set s" "Max (set ?s) \<noteq> ?i" by (auto simp: set)
    moreover from this(1) have "?i \<le> Max (set ?s)" by (intro Min_le) simp_all
    ultimately show ?thesis by (metis order_le_imp_less_or_eq)
  qed
  have "set s = insert ?i (set ?s)" using ne by (auto simp: set)
  then have "Max (set s) = max ?i (Max (set ?s))" using nil by (metis List.finite_set Max_insert set_empty)
  then show "Max (set ?s) = Max (set s)" using lt by simp
qed

lemma map_fst_entries: "map fst (entries w R) = setKeyPool w @ map fst R"
  by (simp add: entries_def comp_def)

lemma reserved_not_pooled: "entries_ok E w (entries w R) G \<Longrightarrow> (i, k) \<in> set R \<Longrightarrow> i \<notin> set (setKeyPool w)"
  unfolding entries_ok_def map_fst_entries distinct_append by (metis IntI empty_iff fst_conv image_eqI set_map)

lemma pool_inv_distinct: "pool_inv E w R G \<Longrightarrow> distinct (setKeyPool w)"
  by (simp add: pool_inv_def entries_ok_def entries_def comp_def)

lemma pool_entry:
  assumes "pool_inv E w R G" "i \<in> set (setKeyPool w)"
  shows "1 \<le> i" "kw_pool w i \<noteq> None" "known_key E w (key_at w i)"
proof -
  have "(i, key_at w i) \<in> set (entries w R)" using assms(2) by (simp add: entries_def)
  then show "1 \<le> i" "kw_pool w i \<noteq> None" "known_key E w (key_at w i)"
    using assms(1) unfolding pool_inv_def entries_ok_def by (fastforce, fastforce, force)
qed

lemma ReserveKeyFromKeyPool_ok:
  assumes "keys_fresh N E" "pool_inv E w R G" "1 \<le> ke_keypool E" "ke_keypool E < 2 ^ 32 - 1" "top_up_end E w \<le> N"
  shows "\<exists>i kp w'. ReserveKeyFromKeyPool E w = (i, Some (Some kp), w') \<and> pool_inv E w' ((i, kp_vchPubKey kp) # R) G \<and> 1 \<le> i"
proof -
  obtain w1 where t: "TopUpKeyPool E w = (Some True, w1)" "pool_inv E w1 R G" "nat (ke_keypool E) < length (setKeyPool w1)"
    using TopUpKeyPool_ok [OF assms(1,2) _ assms(4,5)] assms(3) by auto
  let ?i = "Min (set (setKeyPool w1))"
  let ?w = "w1\<lparr>setKeyPool := remove1 ?i (setKeyPool w1)\<rparr>"
  have d: "distinct (setKeyPool w1)" by (rule pool_inv_distinct [OF t(2)])
  have len: "2 \<le> length (setKeyPool w1)" using t(3) assms(3) by simp
  then have ne: "setKeyPool w1 \<noteq> []" by auto
  have i: "?i \<in> set (setKeyPool w1)" using ne by simp
  note entry = pool_entry [OF t(2) i] and M = Max_remove1 [OF d len]
  obtain kp where kp: "kw_pool w1 ?i = Some kp" using entry(2) by auto
  have k: "key_at w1 ?i = kp_vchPubKey kp" by (simp add: key_at_def kp)
  have usable: "in_wallet E w1 (kp_vchPubKey kp)" "CPubKey_IsValid (kp_vchPubKey kp)"
    using entry(3) assms(1) unfolding k known_key_def keys_fresh_def by auto
  have "ReserveKeyFromKeyPool E w = (?i, Some (Some kp), ?w)"
    using assms(2) t(1) ne kp usable by (simp add: ReserveKeyFromKeyPool_def pool_inv_def in_wallet_def Let_def)
  moreover have "entries_ok E ?w (entries ?w ((?i, kp_vchPubKey kp) # R)) G"
  proof (rule entries_ok_mset [OF sym])
    show "mset (entries ?w ((?i, kp_vchPubKey kp) # R)) = mset (entries w1 R)"
      using entries_remove [OF i, of R] by (simp add: k)
    show "entries_ok E ?w (entries w1 R) G"
      by (rule entries_ok_grows [of E w1]) (use t(2) in \<open>simp_all add: pool_inv_def\<close>)
  qed
  then have "pool_inv E ?w ((?i, kp_vchPubKey kp) # R) G" using t(2) M by (auto simp: pool_inv_def)
  ultimately show ?thesis using entry(1) by blast
qed

lemma ReturnKey_ok:
  assumes "pool_inv E w R G" "(i, k) \<in> set R"
  shows "pool_inv E (ReturnKey i w) (remove1 (i, k) R) G"
proof -
  let ?R = "remove1 (i, k) R" and ?w = "ReturnKey i w"
  have m: "mset R = mset ((i, k) # ?R)" using assms(2) by simp
  have ok: "entries_ok E w (entries w R) G" using assms(1) by (simp add: pool_inv_def)
  have "(i, k) \<in> set (entries w R)" using assms(2) by (simp add: entries_def)
  then have key: "key_at w i = k" using ok unfolding entries_ok_def by fastforce
  have "i \<notin> set (setKeyPool w)" by (rule reserved_not_pooled [OF ok assms(2)])
  then have s: "setKeyPool ?w = i # setKeyPool w" by (simp add: ReturnKey_def pool_insert_def)
  have at: "key_at ?w = key_at w" by (simp add: fun_eq_iff key_at_def ReturnKey_def pool_insert_def)
  have "mset (entries ?w ?R) = mset (map (\<lambda>i. (i, key_at w i)) (setKeyPool w)) + mset ((i, k) # ?R)"
    unfolding entries_def s at by (simp add: key del: mset_remove1)
  then have "mset (entries ?w ?R) = mset (entries w R)" unfolding m [symmetric] entries_def by simp
  moreover have "entries_ok E ?w (entries w R) G"
    by (rule entries_ok_grows [OF ok]) (simp_all add: ReturnKey_def pool_insert_def)
  ultimately have "entries_ok E ?w (entries ?w ?R) G" by (metis entries_ok_mset)
  moreover have "\<not> IsLocked (kw_store ?w)" using assms(1) by (simp add: pool_inv_def ReturnKey_def pool_insert_def)
  moreover have "\<forall>e\<in>set ?R. fst e < Max (set (setKeyPool ?w))"
  proof
    fix e assume "e \<in> set ?R"
    then have "e \<in> set R" by (meson notin_set_remove1)
    then have "setKeyPool w \<noteq> []" "fst e < Max (set (setKeyPool w))" using assms(1) by (auto simp: pool_inv_def)
    then show "fst e < Max (set (setKeyPool ?w))" unfolding s by (simp add: less_max_iff_disj)
  qed
  ultimately show ?thesis using s by (simp add: pool_inv_def)
qed

lemma KeepKey_ok:
  assumes "keys_fresh N E" "pool_inv E w R G" "(i, k) \<in> set R"
  shows "pool_inv E (KeepKey E i w) (remove1 (i, k) R) (k # G)"
proof -
  let ?R = "remove1 (i, k) R" and ?w = "KeepKey E i w"
  have ok: "entries_ok E w (entries w R) G" using assms(2) by (simp add: pool_inv_def)
  have p: "setKeyPool ?w = setKeyPool w" "kw_store ?w = kw_store w"
      "kw_pool ?w = (kw_pool w)(i := None) \<or> kw_pool ?w = kw_pool w" and g: "kw_grows E w ?w"
    by (auto simp: KeepKey_def ErasePool_def db_write_def kw_tick_def kw_grows_def in_wallet_def)
  have "mset (entries w R) = mset ((i, k) # entries w ?R)" using assms(3) by (simp add: entries_def)
  then have "entries_ok E w ((i, k) # entries w ?R) G" using entries_ok_mset ok by metis
  then have e: "entries_ok E ?w (entries w ?R) (k # G)" using g p(3) by (rule entries_ok_given)
  have "i \<notin> set (setKeyPool w)" by (rule reserved_not_pooled [OF ok assms(3)])
  then have "entries ?w ?R = entries w ?R" using p(3) unfolding entries_def p(1) by (auto simp: key_at_def)
  then have "entries_ok E ?w (entries ?w ?R) (k # G)" using e by simp
  moreover have "set ?R \<subseteq> set R" by (rule set_remove1_subset)
  ultimately show ?thesis using assms(2) p(1,2) unfolding pool_inv_def by auto
qed

text \<open>What the wallet, its reservations and the keys handed out can do.\<close>

inductive kp_step :: "key_env \<Rightarrow> key_wallet \<Rightarrow> (int \<times> byte list) list \<Rightarrow> byte list list \<Rightarrow> key_wallet \<Rightarrow> (int \<times> byte list) list \<Rightarrow> byte list list \<Rightarrow> bool"
  for E where
  reserve: "ReserveKeyFromKeyPool E w = (i, Some (Some kp), w') \<Longrightarrow> kp_step E w R G w' ((i, kp_vchPubKey kp) # R) G"
| give_back: "(i, k) \<in> set R \<Longrightarrow> kp_step E w R G (ReturnKey i w) (remove1 (i, k) R) G"
| keep: "(i, k) \<in> set R \<Longrightarrow> kp_step E w R G (KeepKey E i w) (remove1 (i, k) R) (k # G)"
| take_key: "GetKeyFromPool E f w = (Some (Some k), w') \<Longrightarrow> kp_step E w R G w' R (k # G)"
| oldest: "GetOldestKeyPoolTime E w = (t, w') \<Longrightarrow> kp_step E w R G w' R G"
| top_up: "TopUpKeyPool E w = (r, w') \<Longrightarrow> kp_step E w R G w' R G"
| generate: "GenerateNewKey E w = (Some k, w') \<Longrightarrow> kp_step E w R G w' R (k # G)"

inductive kp_reach :: "key_env \<Rightarrow> key_wallet \<Rightarrow> key_wallet \<Rightarrow> (int \<times> byte list) list \<Rightarrow> byte list list \<Rightarrow> bool" for E w0 where
  start: "kp_reach E w0 w0 [] []"
| step: "kp_reach E w0 w R G \<Longrightarrow> kp_step E w R G w' R' G' \<Longrightarrow> kp_reach E w0 w' R' G'"


lemma pool_inv_generate:
  assumes "keys_fresh N E" "pool_inv E w R G" "GenerateNewKey E w = (Some k, w')" "kw_clock w < N"
  shows "pool_inv E w' R (k # G)"
proof -
  have ok: "entries_ok E w (entries w R) G" "\<not> IsLocked (kw_store w)" using assms(2) by (simp_all add: pool_inv_def)
  obtain c where g: "k = kl_pub (ke_lib E) (ke_newkey E (kw_clock w) c)" "kw_grows E w w'" "kw_clock w < kw_clock w'"
      "in_wallet E w' k" "setKeyPool w' = setKeyPool w" "kw_pool w' = kw_pool w"
    using GenerateNewKey_ok [OF assms(1) ok(2)] assms(3) by auto
  have "\<not> known_key E w k" using assms(1,4) unfolding known_key_def keys_fresh_def g(1) by metis
  then have "k \<notin> snd ` set (entries w R) \<union> set G" using ok(1) by (auto simp: entries_ok_def)
  moreover have "known_key E w' k" using g(1,3,4) by (auto simp: known_key_def)
  moreover have "entries_ok E w' (entries w R) G" by (rule entries_ok_grows [OF ok(1) g(2)]) (simp add: g(6))
  moreover have "entries w' R = entries w R" by (simp add: entries_def key_at_def g(5,6))
  ultimately show ?thesis using assms(2) g(2,5) unfolding pool_inv_def entries_ok_def by (auto simp: kw_grows_def)
qed

lemma kp_step_inv:
  assumes "keys_fresh N E" "1 \<le> ke_keypool E" "ke_keypool E < 2 ^ 32 - 1" "kp_step E w R G w' R' G'" "pool_inv E w R G"
    "top_up_end E w \<le> N"
  shows "pool_inv E w' R' G'"
proof -
  note res = ReserveKeyFromKeyPool_ok [OF assms(1,5,2,3,6)]
  show ?thesis using assms(4)
  proof cases
    case (take_key f k)
    obtain i kp w1 where r: "ReserveKeyFromKeyPool E w = (i, Some (Some kp), w1)" "pool_inv E w1 ((i, kp_vchPubKey kp) # R) G" "1 \<le> i"
      using res by blast
    then have "k = kp_vchPubKey kp" "w' = KeepKey E i w1" using take_key(3) by (auto simp: GetKeyFromPool_def)
    then show ?thesis using KeepKey_ok [OF assms(1) r(2), of i "kp_vchPubKey kp"] take_key(1,2) by simp
  next
    case (oldest t)
    obtain i kp w1 where r: "ReserveKeyFromKeyPool E w = (i, Some (Some kp), w1)" "pool_inv E w1 ((i, kp_vchPubKey kp) # R) G" "1 \<le> i"
      using res by blast
    then have "w' = ReturnKey i w1" using oldest(3) by (auto simp: GetOldestKeyPoolTime_def)
    then show ?thesis using ReturnKey_ok [OF r(2), of i "kp_vchPubKey kp"] oldest(1,2) by simp
  next
    case (top_up r)
    then show ?thesis using TopUpKeyPool_ok [OF assms(1,5) _ assms(3,6)] assms(2) by auto
  next
    case (generate k)
    then show ?thesis using pool_inv_generate [OF assms(1,5)] assms(6) by (simp add: top_up_end_def)
  qed (use res assms(5) ReturnKey_ok [OF assms(5)] KeepKey_ok [OF assms(1,5)] in auto)
qed

lemma kp_step_clock: "kp_step E w R G w' R' G' \<Longrightarrow> kw_clock w \<le> kw_clock w'"
proof (induction rule: kp_step.induct)
  case (take_key f w k w' R G)
  then show ?case
    by (auto simp: GetKeyFromPool_def split: prod.splits option.splits if_splits
        dest!: ReserveKeyFromKeyPool_clock GenerateNewKey_clock intro: order_trans [OF _ KeepKey_clock])
next
  case (oldest w t w' R G)
  then show ?case
    by (auto simp: GetOldestKeyPoolTime_def ReturnKey_def pool_insert_def kw_tick_def split: prod.splits option.splits if_splits
        dest!: ReserveKeyFromKeyPool_clock)
qed (auto simp: ReturnKey_def pool_insert_def KeepKey_clock dest: ReserveKeyFromKeyPool_clock TopUpKeyPool_clock GenerateNewKey_clock)

lemma kp_reach_inv:
  assumes "kp_reach E w0 w R G" "keys_fresh N E" "1 \<le> ke_keypool E" "ke_keypool E < 2 ^ 32 - 1"
    "\<not> IsLocked (kw_store w0)" "setKeyPool w0 = []" "top_up_end E w \<le> N"
  shows "pool_inv E w R G"
  using assms(1,7)
proof induction
  case start
  show ?case using assms(5,6) by (simp add: pool_inv_def entries_ok_def entries_def)
next
  case (step w R G w' R' G')
  have "top_up_end E w \<le> N" using kp_step_clock [OF step.hyps(2)] step.prems by (simp add: top_up_end_def)
  then show ?case using kp_step_inv [OF assms(2-4) step.hyps(2)] step.IH by blast
qed

text \<open>C23. Keys from the key pool are used once: in every state an unlocked wallet reaches, however
  reservations are made, returned and kept, the keys handed out and those reserved are pairwise different and belong to the wallet;
  the next reservation succeeds, with yet another key; and one more key can be taken for good.\<close>
theorem pool_keys_used_once:
  assumes "kp_reach E w0 w R G" "keys_fresh N E" "1 \<le> ke_keypool E" "ke_keypool E < 2 ^ 32 - 1"
    "\<not> IsLocked (kw_store w0)" "setKeyPool w0 = []" "top_up_end E w \<le> N"
  shows "distinct (map snd R @ G) \<and> distinct (map fst R) \<and> (\<forall>k\<in>snd ` set R \<union> set G. in_wallet E w k) \<and>
    (\<exists>i kp w'. ReserveKeyFromKeyPool E w = (i, Some (Some kp), w') \<and> i \<notin> fst ` set R \<and>
       in_wallet E w' (kp_vchPubKey kp) \<and> kp_vchPubKey kp \<notin> snd ` set R \<union> set G) \<and>
    (\<exists>k w'. GetKeyFromPool E fAllowReuse w = (Some (Some k), w') \<and> in_wallet E w' k \<and> k \<notin> snd ` set R \<union> set G)"
proof -
  have I: "pool_inv E w R G" by (rule kp_reach_inv [OF assms])
  obtain i kp w' where r: "ReserveKeyFromKeyPool E w = (i, Some (Some kp), w')" "pool_inv E w' ((i, kp_vchPubKey kp) # R) G" "1 \<le> i"
    using ReserveKeyFromKeyPool_ok [OF assms(2) I assms(3,4,7)] by blast
  have new: "i \<notin> fst ` set R" "kp_vchPubKey kp \<notin> snd ` set R \<union> set G" "in_wallet E w' (kp_vchPubKey kp)"
    using r(2) by (auto simp: pool_inv_def entries_ok_def entries_def known_key_def)
  moreover have "GetKeyFromPool E fAllowReuse w = (Some (Some (kp_vchPubKey kp)), KeepKey E i w')"
    using r(1,3) by (simp add: GetKeyFromPool_def)
  moreover have "in_wallet E (KeepKey E i w') (kp_vchPubKey kp)"
    using new(3) by (simp add: in_wallet_def KeepKey_def ErasePool_def db_write_def kw_tick_def)
  ultimately show ?thesis using I r(1)
    unfolding pool_inv_def entries_ok_def entries_def known_key_def by (auto simp: comp_def)
qed

text \<open>A toy library whose keys end with the clock, and an empty wallet.\<close>

definition toy_key_env :: "int \<Rightarrow> key_env" where
  "toy_key_env k =
     \<lparr> ke_crypto = \<lparr> cr_ripemd160 = \<lambda>b. b, cr_sha1 = \<lambda>b. b, cr_sha256 = \<lambda>b. b, cr_verify = \<lambda>k h s. True \<rparr>,
       ke_lib = \<lparr> kl_pub = \<lambda>key. replicate 32 2 @ take 1 (fst key @ [0]), kl_encrypt = \<lambda>m s iv. Some s, kl_decrypt = \<lambda>m s iv. Some s \<rparr>,
       ke_io = \<lambda>n. True, ke_newkey = \<lambda>n c. ([word_of_nat n], c), ke_time = \<lambda>n. 0, ke_keypool = k \<rparr>"

definition toy_wallet :: key_wallet where
  "toy_wallet =
     \<lparr> kw_store = \<lparr> mapKeys = [], mapScripts = [], mapCryptedKeys = [], vMasterKey = [], fUseCrypto = False \<rparr>,
       nWalletVersion = FEATURE_BASE, nWalletMaxVersion = FEATURE_BASE, fFileBacked = True, vchDefaultKey = [],
       setKeyPool = [], kw_pool = Map.empty, kw_clock = 0 \<rparr>"

lemma toy_keys_fresh: "keys_fresh 256 (toy_key_env k)"
proof -
  have "(word_of_nat n :: byte) \<noteq> word_of_nat m" if "n < 256" "m < n" for n m
  proof
    assume "(word_of_nat n :: byte) = word_of_nat m"
    then have "unat (word_of_nat n :: byte) = unat (word_of_nat m :: byte)" by simp
    then show False using that by (simp add: unat_of_nat take_bit_nat_eq_self_iff)
  qed
  then show ?thesis by (simp add: keys_fresh_def toy_key_env_def CPubKey_IsValid_def)
qed

lemma toy_wallet_start: "\<not> IsLocked (kw_store toy_wallet)" "setKeyPool toy_wallet = []" "kw_clock toy_wallet = 0"
  by (simp_all add: toy_wallet_def IsLocked_def)

theorem pool_keys_used_once_witness:
  "\<exists>w i k. kp_reach (toy_key_env 1) toy_wallet w [(i, k)] [] \<and>
     (\<exists>k' w'. GetKeyFromPool (toy_key_env 1) True w = (Some (Some k'), w') \<and> k' \<noteq> k)"
proof -
  let ?E = "toy_key_env 1"
  have "pool_inv ?E toy_wallet [] []" using toy_wallet_start by (simp add: pool_inv_def entries_ok_def entries_def)
  moreover have k: "ke_keypool ?E = 1" by (simp add: toy_key_env_def)
  ultimately obtain i kp w where r: "ReserveKeyFromKeyPool ?E toy_wallet = (i, Some (Some kp), w)"
    using ReserveKeyFromKeyPool_ok [OF toy_keys_fresh [of 1], of toy_wallet "[]" "[]"] toy_wallet_start(3)
    unfolding top_up_end_def k by auto
  have reach: "kp_reach ?E toy_wallet w [(i, kp_vchPubKey kp)] []"
    by (rule kp_reach.step [OF kp_reach.start kp_step.reserve [OF r]])
  have "top_up_end ?E w \<le> 256"
    using ReserveKeyFromKeyPool_end [OF r] toy_wallet_start(3) by (simp add: top_up_end_def k)
  then have "\<exists>k' w'. GetKeyFromPool ?E True w = (Some (Some k'), w') \<and> in_wallet ?E w' k' \<and>
      k' \<notin> snd ` set [(i, kp_vchPubKey kp)] \<union> set []"
    using pool_keys_used_once [OF reach toy_keys_fresh, where fAllowReuse = True] toy_wallet_start(1,2) unfolding k by simp
  then show ?thesis using reach by fastforce
qed

lemma TopUp_done:
  assumes "\<not> IsLocked (kw_store w)" "ke_keypool E = 0" "setKeyPool w \<noteq> []"
  shows "TopUpKeyPool E w = (Some True, w)"
  using assms by (cases "setKeyPool w") (simp_all add: TopUpKeyPool_def TopUp_loop.simps [of E _ w])

lemma reserve_from_empty:
  assumes "keys_fresh N E" "pool_inv E w [] G" "setKeyPool w = []" "ke_keypool E = 0" "kw_clock w + 4 \<le> N"
  shows "\<exists>kp w'. ReserveKeyFromKeyPool E w = (1, Some (Some kp), w') \<and> pool_inv E w' [] (kp_vchPubKey kp # G) \<and>
    setKeyPool w' = [] \<and> kw_clock w' \<le> kw_clock w + 4 \<and> fFileBacked w' = fFileBacked w"
proof -
  have unlocked: "\<not> IsLocked (kw_store w)" using assms(2) by (simp add: pool_inv_def)
  obtain w1 where a: "pool_add E w = (Some (), w1)" "pool_inv E w1 [] G"
    using pool_add_ok [OF assms(1,2)] assms(5) by auto
  have s: "setKeyPool w1 = [1]" using pool_add_grows [OF a(1)] assms(3) by (simp add: pool_end_def)
  have t: "TopUpKeyPool E w = (Some True, w1)"
    using unlocked assms(3,4) a(1) s by (simp add: TopUpKeyPool_def TopUp_loop.simps [of E _ w] TopUp_loop.simps [of E _ w1])
  have e: "kw_pool w1 1 \<noteq> None" "known_key E w1 (key_at w1 1)" using pool_entry [OF a(2), of 1] by (simp_all add: s)
  then obtain kp where kp: "kw_pool w1 1 = Some kp" "in_wallet E w1 (kp_vchPubKey kp)" "CPubKey_IsValid (kp_vchPubKey kp)"
    using assms(1) by (auto simp: key_at_def known_key_def keys_fresh_def)
  let ?w = "w1\<lparr>setKeyPool := []\<rparr>"
  have "entries_ok E w1 [(1, kp_vchPubKey kp)] G" using a(2) kp(1) by (simp add: pool_inv_def entries_def s key_at_def)
  then have "entries_ok E ?w [] (kp_vchPubKey kp # G)" by (rule entries_ok_given) simp_all
  then have "pool_inv E ?w [] (kp_vchPubKey kp # G)" using a(2) by (simp add: pool_inv_def entries_def)
  moreover have "ReserveKeyFromKeyPool E w = (1, Some (Some kp), ?w)"
    using unlocked t s kp by (simp add: ReserveKeyFromKeyPool_def in_wallet_def)
  ultimately show ?thesis using pool_add_clock [OF a(1)] pool_add_file [OF a(1)] by auto
qed

text \<open>C35. A key pool of size zero hands out an index twice: with -keypool=0, a key reserved from an empty pool and one
  taken after it have the same index 1; keeping the second erases the record of the first, so that
  after the first is returned the next reservation throws.\<close>
theorem empty_pool_reuses_index:
  assumes "keys_fresh N E" "\<not> IsLocked (kw_store w)" "setKeyPool w = []" "ke_keypool E = 0" "kw_clock w + 8 \<le> N" "fFileBacked w"
  shows "\<exists>kp w1 k w2 w3. ReserveKeyFromKeyPool E w = (1, Some (Some kp), w1) \<and>
    GetKeyFromPool E fAllowReuse w1 = (Some (Some k), w2) \<and> k \<noteq> kp_vchPubKey kp \<and>
    ReserveKeyFromKeyPool E (ReturnKey 1 w2) = (1, None, w3)"
proof -
  have "pool_inv E w [] []" using assms(2,3) by (simp add: pool_inv_def entries_ok_def entries_def)
  then obtain kp w1 where 1: "ReserveKeyFromKeyPool E w = (1, Some (Some kp), w1)" "pool_inv E w1 [] [kp_vchPubKey kp]"
      "setKeyPool w1 = []" "kw_clock w1 \<le> kw_clock w + 4" "fFileBacked w1 = fFileBacked w"
    using reserve_from_empty [OF assms(1) _ assms(3,4)] assms(5) by fastforce
  obtain kp2 w2 where 2: "ReserveKeyFromKeyPool E w1 = (1, Some (Some kp2), w2)"
      "pool_inv E w2 [] [kp_vchPubKey kp2, kp_vchPubKey kp]" "setKeyPool w2 = []" "fFileBacked w2 = fFileBacked w1"
    using reserve_from_empty [OF assms(1) 1(2,3) assms(4)] 1(4) assms(5) by auto
  let ?w = "KeepKey E 1 w2"
  have k: "kw_pool ?w 1 = None" "setKeyPool ?w = []" "kw_store ?w = kw_store w2"
    using assms(1,6) 1(5) 2(3,4) by (simp_all add: KeepKey_def ErasePool_def db_write_def kw_tick_def keys_fresh_def)
  have "GetKeyFromPool E fAllowReuse w1 = (Some (Some (kp_vchPubKey kp2)), ?w)" using 2(1) by (simp add: GetKeyFromPool_def)
  moreover have "kp_vchPubKey kp2 \<noteq> kp_vchPubKey kp" using 2(2) by (simp add: pool_inv_def entries_ok_def entries_def)
  moreover have "ReserveKeyFromKeyPool E (ReturnKey 1 ?w) = (1, None, (ReturnKey 1 ?w)\<lparr>setKeyPool := []\<rparr>)"
    using k 2(2) TopUp_done [of "ReturnKey 1 ?w" E] assms(4)
    by (simp add: ReserveKeyFromKeyPool_def ReturnKey_def pool_insert_def pool_inv_def)
  ultimately show ?thesis using 1(1) by blast
qed

theorem empty_pool_reuses_index_witness:
  "\<exists>k1 k2 w1 w2 w3. ReserveKeyFromKeyPool (toy_key_env 0) toy_wallet = (1, Some (Some k1), w1) \<and>
     GetKeyFromPool (toy_key_env 0) True w1 = (Some (Some k2), w2) \<and>
     ReserveKeyFromKeyPool (toy_key_env 0) (ReturnKey 1 w2) = (1, None, w3)"
  using empty_pool_reuses_index [OF toy_keys_fresh [of 0] toy_wallet_start(1,2), of True] toy_wallet_start(3)
  by (fastforce simp: toy_key_env_def toy_wallet_def)

end
