(* ===== verification/CoinSpec.thy ===== *)
theory CoinSpec
  imports CoinSelect KeyPoolSpec "HOL-Library.Multiset"
begin

text \<open>
  What the selection of coins promises. Amounts are assumed to add up to less than 2 to the 62, so that the machine
  arithmetic is exact; 476,918 coins of a million units are far below.
\<close>

subsection \<open>Amounts without wrap-around\<close>

definition fits :: "u64 \<Rightarrow> bool" where "fits v \<longleftrightarrow> uint v < 2 ^ 62"

lemma fits_sint: "fits v \<Longrightarrow> sint v = uint v"
proof -
  assume "fits v"
  moreover have "- (2 ^ 63) \<le> uint v" by (rule order_trans [OF _ uint_ge_0]) simp
  ultimately show ?thesis unfolding fits_def sint_uint by (intro signed_take_bit_int_eq_self) simp_all
qed

lemma fits_less: "fits a \<Longrightarrow> fits b \<Longrightarrow> a <s b \<longleftrightarrow> uint a < uint b"
  by (simp add: word_sless_alt fits_sint)

lemma fits_le: "fits a \<Longrightarrow> fits b \<Longrightarrow> a \<le>s b \<longleftrightarrow> uint a \<le> uint b"
  by (simp add: word_sle_eq fits_sint)

lemma uint_add_fits: "uint a + uint b < 2 ^ 62 \<Longrightarrow> uint (a + b) = uint (a :: u64) + uint b"
  by (rule uint_add_lem [THEN iffD1]) simp

lemma uint_CENT_eq: "uint CENT = 10000" by (simp add: CENT_def)

definition amount :: "u64 list \<Rightarrow> int" where "amount vs = sum_list (map uint vs)"

lemma amount_simps [simp]: "amount [] = 0" "amount (v # vs) = uint v + amount vs" "amount (vs @ us) = amount vs + amount us"
  by (simp_all add: amount_def)

lemma amount_nonneg: "0 \<le> amount vs"
  by (induction vs) simp_all

subsection \<open>The subset sum\<close>

definition picked :: "bool list \<Rightarrow> u64 list \<Rightarrow> int" where
  "picked fs vs = amount (map snd (filter fst (zip fs vs)))"

lemma picked_Cons [simp]: "picked (f # fs) (v # vs) = (if f then uint v else 0) + picked fs vs" "picked [] vs = 0"
  by (simp_all add: picked_def)

lemma picked_nonneg: "0 \<le> picked fs vs"
  by (simp add: picked_def amount_nonneg)

lemma picked_le: "picked fs vs \<le> amount vs"
proof (induction fs arbitrary: vs)
  case (Cons f fs)
  show ?case
  proof (cases vs)
    case (Cons v us)
    then show ?thesis using \<open>\<And>vs. picked fs vs \<le> amount vs\<close> [of us] by (auto intro: add_increasing)
  qed (simp add: picked_def)
qed (simp add: amount_nonneg)

lemma picked_all: "picked (replicate (length vs) True) vs = amount vs"
  by (induction vs) simp_all

lemma picked_none: "picked (replicate n False) vs = 0"
proof (induction n arbitrary: vs)
  case (Suc n)
  then show ?case by (cases vs) (simp_all add: picked_def)
qed simp

lemma picked_update:
  "length fs = length vs \<Longrightarrow> i < length vs \<Longrightarrow> \<not> fs ! i \<Longrightarrow> picked (fs[i := True]) vs = picked fs vs + uint (vs ! i)"
proof (induction fs vs arbitrary: i rule: list_induct2)
  case (Cons f fs v vs)
  then show ?case by (cases i) simp_all
qed simp

text \<open>What holds between two items: the running sum is that of the included items and below the target, the best is that of its flags.\<close>

definition subset_inv :: "u64 list \<Rightarrow> u64 \<Rightarrow> subset_state \<Rightarrow> bool" where
  "subset_inv vs t st \<longleftrightarrow>
     length (vfIncluded st) = length vs \<and> uint (ss_total st) = picked (vfIncluded st) vs \<and> uint (ss_total st) < uint t"

definition best_inv :: "u64 list \<Rightarrow> u64 \<Rightarrow> subset_state \<Rightarrow> bool" where
  "best_inv vs t st \<longleftrightarrow>
     length (vfBest st) = length vs \<and> uint (nBest st) = picked (vfBest st) vs \<and> uint t \<le> uint (nBest st)"

lemma subset_item_inv:
  fixes rnd :: "nat \<Rightarrow> bool"
  assumes "amount vs < 2 ^ 62" "fits t" "subset_inv vs t st" "best_inv vs t st" "i < length vs" "nPass = 0 \<longrightarrow> \<not> vfIncluded st ! i"
  defines "st' \<equiv> subset_item rnd vs t nPass i st"
  shows "subset_inv vs t st' \<and> best_inv vs t st' \<and> (\<forall>j. j \<noteq> i \<longrightarrow> vfIncluded st' ! j = vfIncluded st ! j)"
proof (cases "if nPass = 0 then rnd (ss_draws st) else \<not> vfIncluded st ! i")
  case False
  then show ?thesis using assms(3,4) by (auto simp: st'_def subset_item_def subset_inv_def best_inv_def)
next
  case True
  then have i: "\<not> vfIncluded st ! i" using assms(6) by (auto split: if_splits)
  let ?inc = "(vfIncluded st)[i := True]" and ?n = "ss_total st + vs ! i"
  have len: "length (vfIncluded st) = length vs" and s: "uint (ss_total st) = picked (vfIncluded st) vs"
    using assms(3) by (simp_all add: subset_inv_def)
  have p: "picked ?inc vs = uint (ss_total st) + uint (vs ! i)" using picked_update [OF len assms(5) i] s by simp
  then have n: "uint ?n = picked ?inc vs" using picked_le [of ?inc vs] assms(1) by (subst uint_add_fits) simp_all
  have fn: "fits ?n" using n picked_le [of ?inc vs] assms(1) by (simp add: fits_def)
  have fb: "fits (nBest st)" using assms(1,4) picked_le [of "vfBest st" vs] by (simp add: best_inv_def fits_def)
  have same: "?inc[i := False] = vfIncluded st" using i by (metis list_update_id list_update_overwrite)
  show ?thesis using True assms(3,4) len n p i same fits_le [OF assms(2) fn] fits_less [OF fn fb]
    unfolding st'_def subset_item_def Let_def
    by (auto simp: subset_inv_def best_inv_def not_le)
qed

lemma subset_pass0_inv:
  fixes rnd :: "nat \<Rightarrow> bool"
  assumes "amount vs < 2 ^ 62" "fits t" "subset_inv vs t st" "best_inv vs t st" "m \<le> length vs" "\<forall>j<length vs. \<not> vfIncluded st ! j"
  defines "st' \<equiv> fold (subset_item rnd vs t 0) [0..<m] st"
  shows "subset_inv vs t st' \<and> best_inv vs t st' \<and> (\<forall>j. m \<le> j \<and> j < length vs \<longrightarrow> \<not> vfIncluded st' ! j)"
  using assms(5) unfolding st'_def
proof (induction m)
  case (Suc m)
  let ?s = "fold (subset_item rnd vs t 0) [0..<m] st"
  have IH: "subset_inv vs t ?s" "best_inv vs t ?s" "\<forall>j. m \<le> j \<and> j < length vs \<longrightarrow> \<not> vfIncluded ?s ! j" using Suc by simp_all
  have "m < length vs" using Suc.prems by simp
  then show ?case using subset_item_inv [OF assms(1,2) IH(1,2), of m 0 rnd] IH(3) by simp
qed (use assms in simp)

lemma subset_pass1_inv:
  fixes rnd :: "nat \<Rightarrow> bool"
  assumes "amount vs < 2 ^ 62" "fits t" "subset_inv vs t st" "best_inv vs t st" "m \<le> length vs" "0 < nPass"
  defines "st' \<equiv> fold (subset_item rnd vs t nPass) [0..<m] st"
  shows "subset_inv vs t st' \<and> best_inv vs t st'"
  using assms(5) unfolding st'_def
proof (induction m)
  case (Suc m)
  then show ?case using subset_item_inv [OF assms(1,2), of _ m nPass rnd] assms(6) by simp
qed (use assms in simp)

lemma subset_rep_inv:
  assumes "amount vs < 2 ^ 62" "fits t" "0 < uint t" "best_inv vs t st"
  shows "best_inv vs t (subset_rep rnd vs t st)"
proof -
  let ?st = "st\<lparr>vfIncluded := replicate (length vs) False, ss_total := 0, fReachedTarget := False\<rparr>"
  have i: "subset_inv vs t ?st" "best_inv vs t ?st" "\<forall>j<length vs. \<not> vfIncluded ?st ! j"
    using assms(3,4) by (simp_all add: subset_inv_def best_inv_def picked_none)
  note p = subset_pass0_inv [OF assms(1,2) i(1,2) order_refl i(3), of rnd]
  then show ?thesis using subset_pass1_inv [OF assms(1,2), of _ "length vs" 1 rnd]
    unfolding subset_rep_def subset_pass_def Let_def by simp
qed

lemma ApproximateBestSubset_best:
  assumes "amount vs < 2 ^ 62" "fits t" "0 < uint t" "uint low = amount vs" "uint t \<le> uint low"
  shows "best_inv vs t (ApproximateBestSubset rnd draws vs low t iterations)"
proof -
  have "best_inv vs t (subset_reps rnd vs t n st)" if "best_inv vs t st" for n st
    using that by (induction n arbitrary: st) (use subset_rep_inv [OF assms(1-3)] in simp_all)
  then show ?thesis unfolding ApproximateBestSubset_def
    by this (use assms(4,5) in \<open>simp add: best_inv_def picked_all\<close>)
qed

subsection \<open>The loop over the outputs\<close>

lemma map_filter_cong:
  assumes "\<And>x. x \<in> set xs \<Longrightarrow> P x = Q x" "\<And>x. x \<in> set xs \<Longrightarrow> f x = g x"
  shows "map f (filter P xs) = map g (filter Q xs)"
  using assms by (induction xs) auto

text \<open>Two wallets with the same transactions and keys; they agree on own outputs and debits.\<close>

definition same_txs :: "CWallet \<Rightarrow> CWallet \<Rightarrow> bool" where
  "same_txs w w' \<longleftrightarrow> (\<forall>k. map_option wt_tx (mapWallet w' k) = map_option wt_tx (mapWallet w k)) \<and>
     kw_store (w_keys w') = kw_store (w_keys w)"

lemma same_txs_refl [simp]: "same_txs w w"
  by (simp add: same_txs_def)

lemma same_txs_trans: "same_txs w1 w2 \<Longrightarrow> same_txs w2 w3 \<Longrightarrow> same_txs w1 w3"
  by (simp add: same_txs_def)

lemma same_txs_dom: "same_txs w w' \<Longrightarrow> mapWallet w' k = None \<longleftrightarrow> mapWallet w k = None"
  unfolding same_txs_def by (metis map_option_is_None)

lemma same_txs_tx: "same_txs w w' \<Longrightarrow> mapWallet w k \<noteq> None \<Longrightarrow> wt_tx (the (mapWallet w' k)) = wt_tx (the (mapWallet w k))"
  unfolding same_txs_def by (metis map_option_is_None option.map_sel)

lemma same_txs_prev: "same_txs w w' \<Longrightarrow> TxIn_prev w' txin = TxIn_prev w txin"
  using same_txs_dom [of w w' "o_hash (prevout txin)"] same_txs_tx [of w w' "o_hash (prevout txin)"]
  by (cases "mapWallet w (o_hash (prevout txin))"; cases "mapWallet w' (o_hash (prevout txin))") (auto simp: TxIn_prev_def)

lemma same_txs_mine: "same_txs w w' \<Longrightarrow> TxOut_IsMine E w' = TxOut_IsMine E w"
  by (simp add: fun_eq_iff TxOut_IsMine_def w_store_def same_txs_def)

lemma same_txs_debit: "same_txs w w' \<Longrightarrow> Wallet_GetDebit E w' tx = Wallet_GetDebit E w tx"
proof -
  assume s: "same_txs w w'"
  have "TxIn_GetDebit E w' = TxIn_GetDebit E w"
    unfolding TxIn_GetDebit_def same_txs_prev [OF s] same_txs_mine [OF s] ..
  then show ?thesis by (simp add: Wallet_GetDebit_def)
qed

lemma same_txs_value: "same_txs w w' \<Longrightarrow> mapWallet w (fst c) \<noteq> None \<Longrightarrow> coin_value w' c = coin_value w c"
  using same_txs_tx by (simp add: coin_value_def coin_out_def)

lemma same_txs_clock [simp]: "same_txs w (set_clock n w)" "mapWallet (set_clock n w) = mapWallet w"
  by (simp_all add: same_txs_def set_clock_def)

lemma same_txs_put: "mapWallet w k = Some x \<Longrightarrow> wt_tx y = wt_tx x \<Longrightarrow> same_txs w (w\<lparr>mapWallet := (mapWallet w)(k \<mapsto> y)\<rparr>)"
  by (auto simp: same_txs_def)

lemma WTx_GetDebit_tx: "WTx_GetDebit E w x = Some (d, y) \<Longrightarrow> wt_tx y = wt_tx x \<and> WTx_GetDebit E w' y = Some (d, y)"
  by (cases "vin (wt_tx x) = []"; cases "fDebitCached x"; cases "Wallet_GetDebit E w (wt_tx x)") (auto simp: WTx_GetDebit_def)

lemma WTx_GetDebit_same: "same_txs w w' \<Longrightarrow> WTx_GetDebit E w' x = WTx_GetDebit E w x"
  by (simp add: WTx_GetDebit_def same_txs_debit)

definition from_me :: "wallet_env \<Rightarrow> CWallet \<Rightarrow> base_uint \<Rightarrow> bool option" where
  "from_me E w k = map_option fst (WTx_IsFromMe E w (the (mapWallet w k)))"

lemma from_me_step:
  assumes "WTx_IsFromMe E w x = Some (b, y)" "mapWallet w k = Some x"
  defines "w' \<equiv> w\<lparr>mapWallet := (mapWallet w)(k \<mapsto> y)\<rparr>"
  shows "same_txs w w'" "from_me E w' = from_me E w" "from_me E w k = Some b" "wt_tx y = wt_tx x"
proof -
  obtain d where d: "WTx_GetDebit E w x = Some (d, y)" "b = (0 <s d)" using assms(1) by (auto simp: WTx_IsFromMe_def split: bind_splits)
  note t = WTx_GetDebit_tx [OF d(1)]
  show s: "same_txs w w'" unfolding w'_def using t by (intro same_txs_put [OF assms(2)]) simp
  show "from_me E w k = Some b" "wt_tx y = wt_tx x" using assms(1,2) t by (simp_all add: from_me_def)
  show "from_me E w' = from_me E w"
  proof
    fix k'
    show "from_me E w' k' = from_me E w k'"
      using WTx_GetDebit_same [OF s] t d assms(1,2)
      by (cases "k' = k") (simp_all add: from_me_def WTx_IsFromMe_def w'_def)
  qed
qed

definition eligible :: "wallet_env \<Rightarrow> select_args \<Rightarrow> CWallet \<Rightarrow> COutput \<Rightarrow> bool" where
  "eligible E a w out \<longleftrightarrow>
     (case from_me E w (fst (out_coin out)) of None \<Rightarrow> False
      | Some mine \<Rightarrow> (if mine then sa_nConfMine a else sa_nConfTheirs a) \<le> out_nDepth out) \<and>
     tx_nTime (wt_tx (the (mapWallet w (fst (out_coin out))))) \<le> sa_nSpendTime a"

definition valued :: "CWallet \<Rightarrow> COutput \<Rightarrow> u64 \<times> coin" where
  "valued w out = (coin_value w (out_coin out), out_coin out)"

definition note_coin :: "u64 \<Rightarrow> u64 \<times> coin \<Rightarrow> coin_lists \<Rightarrow> coin_lists" where
  "note_coin t c l =
     (if fst c <s t + CENT then l\<lparr>vValue := vValue l @ [c], nTotalLower := nTotalLower l + fst c\<rparr>
      else if fst c <s lowest_larger l then l\<lparr>coinLowestLarger := Some c\<rparr> else l)"

lemma minconf_loop_spec:
  assumes "minconf_loop E a outs l w = Some (r, w')" "\<forall>out\<in>set outs. mapWallet w (fst (out_coin out)) \<noteq> None"
  shows "same_txs w w' \<and> from_me E w' = from_me E w \<and>
    (case r of Inl c \<Rightarrow> c \<in> set (map (valued w) (filter (eligible E a w) outs)) \<and> fst c = sa_nTargetValue a
     | Inr l' \<Rightarrow> l' = fold (note_coin (sa_nTargetValue a)) (map (valued w) (filter (eligible E a w) outs)) l \<and>
         (\<forall>c\<in>set (map (valued w) (filter (eligible E a w) outs)). fst c \<noteq> sa_nTargetValue a))"
  using assms
proof (induction outs arbitrary: l w)
  case (Cons out outs)
  let ?k = "fst (out_coin out)"
  obtain x where x: "mapWallet w ?k = Some x" using Cons.prems(2) by auto
  obtain b y where y: "WTx_IsFromMe E w x = Some (b, y)" using Cons.prems(1) x by (auto split: bind_splits)
  let ?w = "w\<lparr>mapWallet := (mapWallet w)(?k \<mapsto> y)\<rparr>"
  note st = from_me_step [OF y x]
  have v: "coin_value ?w (out_coin out) = coin_value w (out_coin out)" by (rule same_txs_value [OF st(1)]) (simp add: x)
  have el: "eligible E a w out \<longleftrightarrow> \<not> out_nDepth out < (if b then sa_nConfMine a else sa_nConfTheirs a) \<and> \<not> sa_nSpendTime a < tx_nTime (wt_tx y)"
    using st(3,4) x by (simp add: eligible_def not_less)
  have rest: "\<forall>p\<in>set outs. mapWallet ?w (fst (out_coin p)) \<noteq> None" using Cons.prems(2) by auto
  have same: "map (valued ?w) (filter (eligible E a ?w) outs) = map (valued w) (filter (eligible E a w) outs)"
  proof (rule map_filter_cong)
    fix p assume p: "p \<in> set outs"
    then have d: "mapWallet w (fst (out_coin p)) \<noteq> None" using Cons.prems(2) p by auto
    show "eligible E a ?w p = eligible E a w p" using same_txs_tx [OF st(1) d] st(2) by (simp add: eligible_def)
    show "valued ?w p = valued w p" using same_txs_value [OF st(1) d] by (simp add: valued_def)
  qed
  have IH: "same_txs ?w w' \<and> from_me E w' = from_me E ?w \<and>
    (case r of Inl c \<Rightarrow> c \<in> set (map (valued w) (filter (eligible E a w) outs)) \<and> fst c = sa_nTargetValue a
     | Inr l' \<Rightarrow> l' = fold (note_coin (sa_nTargetValue a)) (map (valued w) (filter (eligible E a w) outs)) l2 \<and>
         (\<forall>c\<in>set (map (valued w) (filter (eligible E a w) outs)). fst c \<noteq> sa_nTargetValue a))"
    if "minconf_loop E a outs l2 ?w = Some (r, w')" for l2
    using Cons.IH [OF that rest] unfolding same .
  have step: "minconf_loop E a (out # outs) l w =
      (if \<not> eligible E a w out then minconf_loop E a outs l ?w
       else if fst (valued w out) = sa_nTargetValue a then Some (Inl (valued w out), ?w)
       else minconf_loop E a outs (note_coin (sa_nTargetValue a) (valued w out) l) ?w)"
    using x y by (simp add: v el Let_def note_coin_def valued_def)
  show ?case
  proof (cases "eligible E a w out")
    case False
    then have "minconf_loop E a outs l ?w = Some (r, w')" using Cons.prems(1) step by simp
    from IH [OF this] show ?thesis using False st(2) same_txs_trans [OF st(1)] by (cases r) simp_all
  next
    case True
    let ?c = "valued w out"
    show ?thesis
    proof (cases "fst ?c = sa_nTargetValue a")
      case t: True
      then have "r = Inl ?c" "w' = ?w" using Cons.prems(1) True step by auto
      then show ?thesis using True st(1,2) t by simp
    next
      case f: False
      then have "minconf_loop E a outs (note_coin (sa_nTargetValue a) ?c l) ?w = Some (r, w')"
        using Cons.prems(1) True step by simp
      from IH [OF this] show ?thesis using True f st(2) same_txs_trans [OF st(1)] by (cases r) simp_all
    qed
  qed
qed (auto split: sum.split)

subsection \<open>The lists and the choice\<close>

definition amounts_of :: "(u64 \<times> coin) list \<Rightarrow> int" where "amounts_of cs = amount (map fst cs)"

lemma amounts_of_simps [simp]: "amounts_of [] = 0" "amounts_of (c # cs) = uint (fst c) + amounts_of cs"
  "amounts_of (cs @ ds) = amounts_of cs + amounts_of ds"
  by (simp_all add: amounts_of_def)

lemma amounts_of_nonneg: "0 \<le> amounts_of cs"
  by (simp add: amounts_of_def amount_nonneg)

lemma amounts_of_mem: "c \<in> set cs \<Longrightarrow> uint (fst c) \<le> amounts_of cs"
proof (induction cs)
  case (Cons d cs)
  then show ?case using amounts_of_nonneg [of cs] by (auto intro: add_increasing)
qed simp

lemma amounts_of_mset: "mset cs = mset ds \<Longrightarrow> amounts_of cs = amounts_of ds"
  unfolding amounts_of_def amount_def by (metis mset_map sum_mset_sum_list)

text \<open>What the loop leaves, for coins that are not exactly the target.\<close>

definition lists_ok :: "u64 \<Rightarrow> (u64 \<times> coin) list \<Rightarrow> coin_lists \<Rightarrow> bool" where
  "lists_ok t cs l \<longleftrightarrow>
     vValue l = filter (\<lambda>c. uint (fst c) < uint t + 10000) cs \<and> uint (nTotalLower l) = amounts_of (vValue l) \<and>
     (case coinLowestLarger l of
        None \<Rightarrow> \<forall>c\<in>set cs. uint (fst c) < uint t + 10000
      | Some c \<Rightarrow> c \<in> set cs \<and> uint t + 10000 \<le> uint (fst c))"

lemma amounts_of_filter: "amounts_of (filter P cs) \<le> amounts_of cs"
  by (induction cs) (auto intro: add_increasing)

lemma note_coin_ok:
  assumes "lists_ok t cs l" "amounts_of (cs @ [c]) < 2 ^ 62" "uint t + 10000 < 2 ^ 62"
  shows "lists_ok t (cs @ [c]) (note_coin t c l)"
proof -
  have ft: "fits (t + CENT)" "uint (t + CENT) = uint t + 10000"
    using assms(3) by (simp_all add: fits_def uint_add_fits uint_CENT_eq)
  have fc: "fits (fst c)" using assms(2) amounts_of_nonneg [of cs] by (simp add: fits_def)
  have cmp: "fst c <s t + CENT \<longleftrightarrow> uint (fst c) < uint t + 10000" using fits_less [OF fc ft(1)] ft(2) by simp
  have low: "uint (nTotalLower l + fst c) = amounts_of (vValue l) + uint (fst c)"
    using assms(1,2) amounts_of_filter [of "\<lambda>c. uint (fst c) < uint t + 10000" cs]
    by (subst uint_add_fits) (simp_all add: lists_ok_def)
  have larger: "coinLowestLarger l = None \<Longrightarrow> fst c <s lowest_larger l"
  proof -
    assume "coinLowestLarger l = None"
    then have "sint (lowest_larger l) = 2 ^ 63 - 1" by (simp add: lowest_larger_def MAX_INT64_def)
    then show ?thesis using fc fits_sint [OF fc] by (simp add: word_sless_alt fits_def)
  qed
  show ?thesis
  proof (cases "fst c <s t + CENT")
    case True
    then show ?thesis using assms(1) cmp low by (auto simp: note_coin_def lists_ok_def split: option.splits)
  next
    case False
    then show ?thesis using assms(1) cmp larger by (auto simp: note_coin_def lists_ok_def split: option.splits)
  qed
qed

lemma fold_note_coin_ok:
  assumes "lists_ok t cs l" "amounts_of (cs @ ds) < 2 ^ 62" "uint t + 10000 < 2 ^ 62"
  shows "lists_ok t (cs @ ds) (fold (note_coin t) ds l)"
  using assms(1,2)
proof (induction ds arbitrary: cs l)
  case (Cons d ds)
  have "lists_ok t (cs @ [d]) (note_coin t d l)"
    using Cons.prems amounts_of_nonneg [of ds] by (intro note_coin_ok [OF _ _ assms(3)]) simp_all
  then show ?case using Cons.IH [of "cs @ [d]"] Cons.prems(2) by simp
qed simp

lemma fold_add_coin:
  assumes "distinct (map snd cs)" "snd ` set cs \<inter> set (fst r) = {}" "amounts_of cs + uint (snd r) < 2 ^ 62"
  shows "fst (fold add_coin cs r) = rev (map snd cs) @ fst r \<and> uint (snd (fold add_coin cs r)) = uint (snd r) + amounts_of cs"
  using assms
proof (induction cs arbitrary: r)
  case (Cons c cs)
  have u: "uint (snd r + fst c) = uint (snd r) + uint (fst c)"
    using Cons.prems(3) amounts_of_nonneg [of cs] by (intro uint_add_fits) simp
  have "fst (add_coin c r) = snd c # fst r" using Cons.prems(2) by (auto simp: add_coin_def)
  moreover have "snd (add_coin c r) = snd r + fst c" by (simp add: add_coin_def)
  ultimately show ?case using Cons.IH [of "add_coin c r"] Cons.prems u by (auto simp: add.assoc)
qed simp

lemma mset_by_value: "mset (by_value cs) = mset cs"
  by (simp add: by_value_def)

lemma set_chosen: "set (chosen fs cs) \<subseteq> set cs"
  by (auto simp: chosen_def dest: set_zip_rightD)

lemma distinct_chosen: "distinct (map snd cs) \<Longrightarrow> distinct (map snd (chosen fs cs))"
proof (induction cs arbitrary: fs)
  case (Cons c cs)
  have "snd c \<notin> set (map snd (chosen gs cs))" for gs using Cons.prems set_chosen [of gs cs] by auto
  then show ?case using Cons by (cases fs) (auto simp: chosen_def)
qed (simp add: chosen_def)

lemma amounts_of_chosen: "amounts_of (chosen fs cs) = picked fs (map fst cs)"
proof (induction cs arbitrary: fs)
  case (Cons c cs)
  then show ?case by (cases fs) (simp_all add: chosen_def picked_def)
qed (simp add: chosen_def picked_def)

text \<open>A choice of coins out of \<open>cs\<close>: their set, their sum, and that it reaches the target.\<close>

definition choice_ok :: "u64 \<Rightarrow> (u64 \<times> coin) list \<Rightarrow> coin list \<times> u64 \<Rightarrow> bool" where
  "choice_ok t cs r \<longleftrightarrow>
     (\<exists>xs. set xs \<subseteq> set cs \<and> distinct (map snd xs) \<and> fst r = rev (map snd xs) \<and> uint (snd r) = amounts_of xs \<and> uint t \<le> uint (snd r))"

lemma choice_one: "c \<in> set cs \<Longrightarrow> uint t \<le> uint (fst c) \<Longrightarrow> choice_ok t cs (add_coin c ([], 0))"
  unfolding choice_ok_def by (rule exI [of _ "[c]"]) (simp add: add_coin_def)

lemma choice_many:
  assumes "set xs \<subseteq> set cs" "distinct (map snd xs)" "uint t \<le> amounts_of xs" "amounts_of xs < 2 ^ 62"
  shows "choice_ok t cs (fold add_coin xs ([], 0))"
  using fold_add_coin [OF assms(2), of "([], 0)"] assms unfolding choice_ok_def by (intro exI [of _ xs]) simp

lemma best_choice:
  assumes "best_inv (map fst vs) t st" "distinct (map snd vs)" "set vs \<subseteq> set cs" "amounts_of vs < 2 ^ 62"
  shows "choice_ok t cs (fold add_coin (chosen (vfBest st) vs) ([], 0))"
proof (rule choice_many)
  show "set (chosen (vfBest st) vs) \<subseteq> set cs" using set_chosen assms(3) by blast
  show "distinct (map snd (chosen (vfBest st) vs))" by (rule distinct_chosen [OF assms(2)])
  show "uint t \<le> amounts_of (chosen (vfBest st) vs)" using assms(1) by (simp add: amounts_of_chosen best_inv_def)
  show "amounts_of (chosen (vfBest st) vs) < 2 ^ 62"
    unfolding amounts_of_chosen using picked_le [of "vfBest st" "map fst vs"] assms(4) by (simp add: amounts_of_def)
qed

lemma choice_mono: "choice_ok u cs r \<Longrightarrow> uint t \<le> uint u \<Longrightarrow> choice_ok t cs r"
  unfolding choice_ok_def by (meson order_trans)

lemma choose_coins_ok:
  assumes "lists_ok t cs l" "amounts_of cs < 2 ^ 62" "uint t + 10000 < 2 ^ 62" "distinct (map snd cs)" "0 < uint t"
    "choose_coins S t l clk = ((ok, r), clk')"
  shows "(ok \<longleftrightarrow> uint t \<le> amounts_of (vValue l) \<or> coinLowestLarger l \<noteq> None) \<and> (if ok then choice_ok t cs r else r = ([], 0))"
proof -
  let ?vs = "by_value (vValue l)"
  have low: "uint (nTotalLower l) = amounts_of (vValue l)" and v: "set (vValue l) \<subseteq> set cs" "distinct (map snd (vValue l))"
      "amounts_of (vValue l) < 2 ^ 62"
    using assms(1,2,4) amounts_of_filter [of "\<lambda>c. uint (fst c) < uint t + 10000" cs]
    by (auto simp: lists_ok_def distinct_map_filter)
  have vs: "set ?vs \<subseteq> set cs" "distinct (map snd ?vs)" "amounts_of ?vs = amounts_of (vValue l)"
    using v mset_by_value [of "vValue l"] mset_eq_setD [OF mset_by_value]
      mset_eq_imp_distinct_iff [of "map snd ?vs" "map snd (vValue l)"] amounts_of_mset [of ?vs "vValue l"]
    by simp_all
  have f: "fits t" "fits (nTotalLower l)" "fits (t + CENT)" "uint (t + CENT) = uint t + 10000"
    using assms(3) v(3) low by (simp_all add: fits_def uint_add_fits uint_CENT_eq)
  have one: "choice_ok t cs (add_coin c ([], 0))" if "coinLowestLarger l = Some c" for c
    using that assms(1) by (intro choice_one) (auto simp: lists_ok_def)
  have best: "best_inv (map fst ?vs) u (ApproximateBestSubset rnd d (map fst ?vs) (nTotalLower l) u n)"
    if "fits u" "0 < uint u" "uint u \<le> uint (nTotalLower l)" for rnd d u n
    using that vs(3) v(3) low by (intro ApproximateBestSubset_best) (simp_all add: amounts_of_def)
  show ?thesis
  proof (cases "nTotalLower l = t \<or> nTotalLower l <s t")
    case True
    then show ?thesis
    proof
      assume e: "nTotalLower l = t"
      have "choice_ok t cs (fold add_coin (vValue l) ([], 0))" using v low e by (intro choice_many) simp_all
      then show ?thesis using assms(6) e low by (auto simp: choose_coins_def)
    next
      assume lt: "nTotalLower l <s t"
      then have "uint (nTotalLower l) < uint t" using fits_less [OF f(2,1)] by simp
      moreover from this have "nTotalLower l \<noteq> t" by auto
      ultimately show ?thesis using assms(6) lt low one by (auto simp: choose_coins_def split: option.splits)
    qed
  next
    case False
    then have ge: "uint t < uint (nTotalLower l)" 
    proof -
      have "\<not> uint (nTotalLower l) < uint t" using False fits_less [OF f(2,1)] by simp
      moreover have "uint (nTotalLower l) \<noteq> uint t" using False by (simp add: word_uint_eq_iff)
      ultimately show ?thesis by linarith
    qed
    define rnd where "rnd = (\<lambda>n. odd (se_rand S n))"
    define st1 where "st1 = ApproximateBestSubset rnd clk (map fst ?vs) (nTotalLower l) t 1000"
    define st where "st = (if nBest st1 \<noteq> t \<and> t + CENT \<le>s nTotalLower l
        then ApproximateBestSubset rnd (ss_draws st1) (map fst ?vs) (nTotalLower l) (t + CENT) 1000 else st1)"
    have "choice_ok t cs (fold add_coin (chosen (vfBest st) ?vs) ([], 0))"
    proof (cases "nBest st1 \<noteq> t \<and> t + CENT \<le>s nTotalLower l")
      case True
      then have le: "uint (t + CENT) \<le> uint (nTotalLower l)" using fits_le [OF f(3,2)] by simp
      have pos: "0 < uint (t + CENT)" unfolding f(4) using assms(5) by linarith
      have "best_inv (map fst ?vs) (t + CENT) st" unfolding st_def if_P [OF True] by (rule best [OF f(3) pos le])
      from best_choice [OF this vs(2,1)] vs(3) v(3) have "choice_ok (t + CENT) cs (fold add_coin (chosen (vfBest st) ?vs) ([], 0))"
        by (simp only:)
      then show ?thesis by (rule choice_mono) (simp add: f(4))
    next
      case False
      then have "st = st1" by (simp only: st_def if_False)
      then have "best_inv (map fst ?vs) t st" using best [OF f(1) assms(5) less_imp_le [OF ge]] by (simp only: st1_def)
      from best_choice [OF this vs(2,1)] vs(3) v(3) show ?thesis by (simp only:)
    qed
    moreover have "choose_coins S t l clk = (case coinLowestLarger l of
          Some c \<Rightarrow> if (nBest st \<noteq> t \<and> nBest st <s t + CENT) \<or> fst c \<le>s nBest st
                    then ((True, add_coin c ([], 0)), ss_draws st)
                    else ((True, fold add_coin (chosen (vfBest st) ?vs) ([], 0)), ss_draws st)
        | None \<Rightarrow> ((True, fold add_coin (chosen (vfBest st) ?vs) ([], 0)), ss_draws st))"
      using False unfolding choose_coins_def Let_def st_def st1_def rnd_def by simp
    ultimately show ?thesis using assms(6) ge low one by (auto split: option.splits if_splits)
  qed
qed

subsection \<open>The selection\<close>

lemma mset_swap_at: "mset (swap_at i j xs) = mset xs"
  by (simp add: swap_at_def mset_swap)

lemma shuffle_loop_mset: "shuffle_loop S js xs w = (ys, w') \<Longrightarrow> mset ys = mset xs \<and> (\<exists>n. w' = set_clock n w)"
proof (induction js arbitrary: xs w)
  case Nil
  then show ?case by (auto simp: set_clock_def intro!: exI [of _ "w_clock w"] simp: w_clock_def)
next
  case (Cons i js)
  obtain j w1 where g: "Wallet_GetRandInt S (i + 1) w = (j, w1)" by fastforce
  then obtain n where n: "w1 = set_clock n w" by (auto simp: Wallet_GetRandInt_def)
  have "mset ys = mset (swap_at i j xs) \<and> (\<exists>n. w' = set_clock n w1)" using Cons.IH Cons.prems g by simp
  then show ?case by (auto simp: mset_swap_at n set_clock_def)
qed

lemma from_me_clock [simp]: "from_me E (set_clock n w) = from_me E w"
  using WTx_GetDebit_same [OF same_txs_clock(1) [of w n], of E] by (simp add: fun_eq_iff from_me_def WTx_IsFromMe_def)

lemma valued_clock [simp]: "valued (set_clock n w) = valued w" "eligible E a (set_clock n w) = eligible E a w"
  by (simp_all add: fun_eq_iff valued_def coin_value_def coin_out_def eligible_def)

text \<open>The values and coins of outputs, in whatever order.\<close>

lemma amounts_of_valued: "amounts_of (map (valued w) outs) = (\<Sum>out\<leftarrow>outs. uint (coin_value w (out_coin out)))"
  by (induction outs) (simp_all add: valued_def)

lemma valued_outputs:
  fixes w :: CWallet and P :: "COutput \<Rightarrow> bool"
  assumes "mset ys = mset vCoins" "distinct (map out_coin vCoins)"
  defines "ds \<equiv> map (valued w) (filter P ys)"
  shows "amounts_of ds = (\<Sum>out\<leftarrow>filter P vCoins. uint (coin_value w (out_coin out)))"
    "amounts_of ds \<le> (\<Sum>out\<leftarrow>vCoins. uint (coin_value w (out_coin out)))"
    "distinct (map snd ds)" "snd ` set ds = out_coin ` set (filter P vCoins)"
    "d \<in> set ds \<Longrightarrow> fst d = coin_value w (snd d)"
proof -
  have s: "set ys = set vCoins" using assms(1) by (metis set_mset_mset)
  have "mset ds = mset (map (valued w) (filter P vCoins))" using assms(1) by (simp add: ds_def)
  then show sum: "amounts_of ds = (\<Sum>out\<leftarrow>filter P vCoins. uint (coin_value w (out_coin out)))"
    unfolding amounts_of_valued [symmetric] by (rule amounts_of_mset)
  have "(\<Sum>out\<leftarrow>filter P xs. uint (coin_value w (out_coin out))) \<le> (\<Sum>out\<leftarrow>xs. uint (coin_value w (out_coin out)))" for xs
    by (induction xs) (auto intro: add_increasing)
  then show "amounts_of ds \<le> (\<Sum>out\<leftarrow>vCoins. uint (coin_value w (out_coin out)))" unfolding sum .
  have "distinct (map out_coin ys)"
    using assms(1,2) mset_eq_imp_distinct_iff [of "map out_coin ys" "map out_coin vCoins"] by simp
  then show "distinct (map snd ds)" by (simp add: ds_def valued_def comp_def distinct_map_filter)
  show "snd ` set ds = out_coin ` set (filter P vCoins)" by (auto simp: ds_def valued_def s image_image)
  show "d \<in> set ds \<Longrightarrow> fst d = coin_value w (snd d)" by (auto simp: ds_def valued_def)
qed

text \<open>The result in terms of the list of eligible coins.\<close>

lemma SelectCoinsMinConf_result:
  assumes "SelectCoinsMinConf S a vCoins w = Some ((ok, cs, v), w')" "random_shuffle S vCoins w = (ys, w1)"
    "\<forall>out\<in>set ys. mapWallet w1 (fst (out_coin out)) \<noteq> None"
    "0 < uint (sa_nTargetValue a)" "uint (sa_nTargetValue a) + 10000 < 2 ^ 62"
  defines "ds \<equiv> map (valued w1) (filter (eligible (se_wallet S) a w1) ys)"
  assumes "amounts_of ds < 2 ^ 62" "distinct (map snd ds)"
  shows "(ok \<longleftrightarrow> uint (sa_nTargetValue a) \<le> amounts_of ds) \<and>
    (if ok then choice_ok (sa_nTargetValue a) ds (cs, v) else (cs, v) = ([], 0))"
proof -
  let ?t = "sa_nTargetValue a" and ?l = "\<lparr> vValue = [], nTotalLower = 0, coinLowestLarger = None \<rparr>"
  obtain r w2 where lp: "minconf_loop (se_wallet S) a ys ?l w1 = Some (r, w2)"
    using assms(1,2) by (auto simp: SelectCoinsMinConf_def split: bind_splits)
  note spec = minconf_loop_spec [OF lp assms(3), folded ds_def]
  show ?thesis
  proof (cases r)
    case (Inl c)
    then have "ok" "(cs, v) = add_coin c ([], 0)" using assms(1,2) lp by (auto simp: SelectCoinsMinConf_def)
    then show ?thesis using spec Inl choice_one [of c ds ?t] amounts_of_mem [of c ds] by simp
  next
    case (Inr l)
    obtain clk where c: "choose_coins S ?t l (w_clock w2) = ((ok, cs, v), clk)"
      using assms(1,2) lp Inr by (auto simp: SelectCoinsMinConf_def split: prod.splits)
    have l: "lists_ok ?t ds l"
      using spec Inr fold_note_coin_ok [of ?t "[]" ?l ds] assms(5,7) by (simp add: lists_ok_def)
    note ch = choose_coins_ok [OF l assms(7,5,8,4) c]
    have "uint ?t \<le> amounts_of ds \<longleftrightarrow> uint ?t \<le> amounts_of (vValue l) \<or> coinLowestLarger l \<noteq> None"
    proof (cases "coinLowestLarger l")
      case None
      then have "vValue l = ds" using l by (simp add: lists_ok_def filter_True)
      then show ?thesis using None by simp
    next
      case (Some c)
      then have "c \<in> set ds" "uint ?t + 10000 \<le> uint (fst c)" using l by (simp_all add: lists_ok_def)
      then show ?thesis using Some amounts_of_mem [of c ds] by simp
    qed
    then show ?thesis using ch by simp
  qed
qed

text \<open>C24. SelectCoinsMinConf, for a positive target and amounts that do not overflow: it succeeds exactly if the outputs with
  enough confirmations and an early enough time reach the target; then the coins it returns are some of these outputs, none
  twice, the sum it returns is theirs and reaches the target; and when it fails it returns nothing. This holds for every
  sequence of random numbers.\<close>
theorem select_coins_exact:
  assumes "SelectCoinsMinConf S a vCoins w = Some ((ok, cs, v), w')"
    "distinct (map out_coin vCoins)" "\<forall>out\<in>set vCoins. mapWallet w (fst (out_coin out)) \<noteq> None"
    "(\<Sum>out\<leftarrow>vCoins. uint (coin_value w (out_coin out))) < 2 ^ 62" "0 < uint (sa_nTargetValue a)" "uint (sa_nTargetValue a) + 10000 < 2 ^ 62"
  shows "let es = filter (eligible (se_wallet S) a w) vCoins in
    (ok \<longleftrightarrow> uint (sa_nTargetValue a) \<le> (\<Sum>out\<leftarrow>es. uint (coin_value w (out_coin out)))) \<and>
    (if ok then distinct cs \<and> set cs \<subseteq> out_coin ` set es \<and> uint v = (\<Sum>c\<leftarrow>cs. uint (coin_value w c)) \<and> uint (sa_nTargetValue a) \<le> uint v
     else cs = [] \<and> v = 0)"
proof -
  let ?t = "sa_nTargetValue a" and ?E = "se_wallet S"
  obtain ys w1 where sh: "random_shuffle S vCoins w = (ys, w1)" by fastforce
  then obtain n where m: "mset ys = mset vCoins" "w1 = set_clock n w"
    using shuffle_loop_mset unfolding random_shuffle_def by blast
  define ds where "ds = map (valued w) (filter (eligible ?E a w) ys)"
  note vo = valued_outputs [OF m(1) assms(2), where w = w and P = "eligible ?E a w", folded ds_def]
  have "set ys = set vCoins" using m(1) by (metis set_mset_mset)
  then have "\<forall>out\<in>set ys. mapWallet w1 (fst (out_coin out)) \<noteq> None" using assms(3) by (simp add: m(2))
  moreover have bound: "amounts_of ds < 2 ^ 62" using vo(2) assms(4) by linarith
  ultimately have res: "(ok \<longleftrightarrow> uint ?t \<le> amounts_of ds) \<and> (if ok then choice_ok ?t ds (cs, v) else (cs, v) = ([], 0))"
    using SelectCoinsMinConf_result [OF assms(1) sh _ assms(5,6)] vo(3) unfolding m(2) valued_clock ds_def [symmetric] by blast
  show ?thesis
  proof (cases ok)
    case True
    then obtain xs where xs: "set xs \<subseteq> set ds" "distinct (map snd xs)" "cs = rev (map snd xs)" "uint v = amounts_of xs" "uint ?t \<le> uint v"
      using res by (auto simp: choice_ok_def)
    have "map fst xs = map (coin_value w) (map snd xs)" using xs(1) vo(5) by auto
    then have "amounts_of xs = sum_list (map uint (map (coin_value w) (map snd xs)))" by (simp only: amounts_of_def amount_def)
    then have "amounts_of xs = (\<Sum>c\<leftarrow>map snd xs. uint (coin_value w c))" by (simp add: comp_def)
    then have "uint v = (\<Sum>c\<leftarrow>cs. uint (coin_value w c))" using xs(3,4) by (simp add: rev_map [symmetric] sum_list_rev)
    moreover have "set cs \<subseteq> out_coin ` set (filter (eligible ?E a w) vCoins)" using xs(1,3) vo(4) by auto
    ultimately show ?thesis using True res xs vo(1) by (simp add: Let_def)
  qed (use res vo(1) in \<open>auto simp: Let_def\<close>)
qed

text \<open>A wallet with three transactions of one output, of 1, 2 and 9 million, the last of them late.\<close>

definition toy_wallet_env :: wallet_env where
  "toy_wallet_env =
     \<lparr> we_keys = toy_key_env 1, we_heap = (\<lambda>p. undefined), we_best = None, we_index = Map.empty, we_height = 0, we_now = 0, we_entries = [] \<rparr>"

definition toy_id :: "u32 \<Rightarrow> base_uint" where "toy_id k = k # replicate 7 0"

definition toy_coin :: "u64 \<Rightarrow> u32 \<Rightarrow> CWalletTx" where
  "toy_coin v time = WTx_Init (MerkleTx_Init ((Tx_SetNull time)\<lparr>vout := [\<lparr> nValue = v, scriptPubKey = [] \<rparr>]\<rparr>))"

definition toy_coins :: CWallet where
  "toy_coins =
     \<lparr> w_keys = toy_wallet, mapWallet = [toy_id 1 \<mapsto> toy_coin 1000000 10, toy_id 2 \<mapsto> toy_coin 2000000 10, toy_id 3 \<mapsto> toy_coin 9000000 99],
       nOrderPosNext = 0, mapRequestCount = Map.empty, mapAddressBook = Map.empty \<rparr>"

definition toy_outputs :: "COutput list" where
  "toy_outputs = map (\<lambda>k. \<lparr> out_coin = (toy_id k, 0), out_nDepth = 6 \<rparr>) [1, 2, 3]"

definition toy_args :: select_args where
  "toy_args = \<lparr> sa_nTargetValue = 3000000, sa_nSpendTime = 50, sa_nConfMine = 1, sa_nConfTheirs = 6 \<rparr>"

lemma toy_selected:
  "map_option fst (SelectCoinsMinConf \<lparr> se_wallet = toy_wallet_env, se_rand = \<lambda>n. n \<rparr> toy_args toy_outputs toy_coins) =
   Some (True, [(toy_id 1, 0), (toy_id 2, 0)], 3000000)"
  by code_simp

lemma toy_amounts:
  "(\<Sum>out\<leftarrow>toy_outputs. uint (coin_value toy_coins (out_coin out))) = 12000000"
  "uint (sa_nTargetValue toy_args) = 3000000" "distinct (map out_coin toy_outputs)"
  "\<forall>out\<in>set toy_outputs. mapWallet toy_coins (fst (out_coin out)) \<noteq> None"
  by code_simp+

theorem select_coins_exact_witness:
  "\<exists>w'. SelectCoinsMinConf \<lparr> se_wallet = toy_wallet_env, se_rand = \<lambda>n. n \<rparr> toy_args toy_outputs toy_coins =
      Some ((True, [(toy_id 1, 0), (toy_id 2, 0)], 3000000), w') \<and>
    uint (3000000 :: u64) = (\<Sum>c\<leftarrow>[(toy_id 1, 0), (toy_id 2, 0)]. uint (coin_value toy_coins c))"
proof -
  obtain w' where r: "SelectCoinsMinConf \<lparr> se_wallet = toy_wallet_env, se_rand = \<lambda>n. n \<rparr> toy_args toy_outputs toy_coins =
      Some ((True, [(toy_id 1, 0), (toy_id 2, 0)], 3000000), w')"
    using toy_selected by auto
  show ?thesis using select_coins_exact [OF r toy_amounts(3,4)] r unfolding toy_amounts(1,2) by (simp add: Let_def)
qed

end
