(* ===== verification/Spec2Isabelle.thy ===== *)
theory Spec2Isabelle
  imports Accept WellFormed Keystore Base58 AddrSpec OrphanTx MessageLink PeerSpec CoinSpec
begin

text \<open>
  A verification library for scash, a proof-of-work and proof-of-stake node in C++ (sources under src/src).

  \<^bold>\<open>The program and the theories.\<close> The node receives blocks and transactions as bytes, checks them against consensus
  rules, keeps a tree of blocks in memory and the transactions of the best chain in a database, and follows
  the chain with the most trust. One theory models one part, in the order of the dependencies:

  \<^item> Prelude: types of machine words, lists of words as numbers, lemma collections.
  \<^item> Uint256 (uint256.h): base_uint, a list of 32-bit words. BigNum (bignum.h): CBigNum over the OpenSSL interface, whose
    documented behaviour is the hypothesis openssl_ok, satisfied by the integers.
  \<^item> Serialize (serialize.h): CDataStream, CAutoFile and the templates. What a template needs of a stream is the locale istream;
    both streams are interpretations. WellFormed: what the parsers can return.
  \<^item> Transaction, Block, BlockIndex (main.h, main.cpp): the data, their hashes, the Merkle tree, the
    block tree as a heap of index objects, locators, median time.
  \<^item> Kernel (kernel.cpp): stake modifiers and the kernel hash. Consensus (main.cpp): rewards, targets, trust, coin age.
  \<^item> Script, Eval, Standard (script.h, script.cpp): scripts, the interpreter, signature hashes, templates, signing.
    Keystore (keystore.h, keystore.cpp): plain and encrypted key stores, interpretations of the locale key_store.
    KeyPool (wallet.h, wallet.cpp): the wallet's new keys and its pool of reserved keys. KeyPoolSpec: its lemmas.
    Wallet (wallet.h, wallet.cpp): the wallet's transactions, spent flags, balances and accounts. CoinSelect (coincontrol.h,
    wallet.cpp): spendable outputs and the choice of coins. CoinSpec: its lemmas.
  \<^item> CheckBlock, Connect, Supply (main.cpp): checks of a block, connecting and disconnecting, what follows for the money supply.
  \<^item> Disk (main.h, main.cpp): block files. Mempool (main.cpp): the memory pool. Checkpoints, SyncCheckpoint (checkpoints.cpp).
  \<^item> Chain (main.cpp): Reorganize, SetBestChain, AddToBlockIndex over the shared state chain_state. Ledger: its
    specification. Accept (main.cpp): AcceptBlock and ProcessBlock with the orphan maps. OrphanTx (main.cpp): orphan
    transactions and the handler of a transaction message.
  \<^item> Encodings, Money (util.h, util.cpp): hexadecimal, Base64 and Base32 text, amounts of money. Base58 (base58.h): base-58 text,
    addresses, secret keys.
  \<^item> NetAddr (netbase.h, netbase.cpp): network addresses, their classes and groups, names, lookup, proxies. AddrMan (addrman.h,
    addrman.cpp): the table of known peers. AddrTable: its invariant and the steps on its two tables. AddrInv: every operation keeps
    it. AddrSpec: what follows for reachable states.
  \<^item> Messages (protocol.h, protocol.cpp, net.h, net.cpp, main.cpp): message headers, PushMessage, the socket buffers,
    ProcessMessages. MessageLink: a link between two nodes. Peers (net.h, net.cpp, mruset.h, protocol.h): the state of a peer, relayed
    messages and their service, requests and their sending, bans, the node's own addresses. PeerSpec: its lemmas. NetTime (util.h, util.cpp): median filter, clock offset.

  \<^bold>\<open>Interaction.\<close> ProcessBlock checks a block on its own (CheckBlock, CheckProofOfStake), holds it as an orphan or
  passes it to AcceptBlock, which checks it against its parent (targets, median time, checkpoints), writes it to a block file and calls
  AddToBlockIndex. That extends the block tree (with the stake modifier) and, for a block with more trust
  than the best one, calls SetBestChain, which connects the block or reorganises; connecting runs ConnectInputs
  and the script interpreter on every transaction and updates the database and the memory pool. After an accepted block a pending
  synchronized checkpoint may move the best chain again. A transaction message is offered to the memory pool; accepted, it may
  bring in orphan transactions that waited for it, and refused for missing inputs it waits itself. Beside the chain, the address manager keeps the peers to connect to: Add
  enters announced addresses into buckets of the new table chosen by the groups NetAddr computes, Good moves an entry to the tried
  table and may send another back, Select draws one. A peer's bytes go from its socket to vRecv, where ProcessMessages finds
  messages and hands them to ProcessMessage (a parameter here, except for its transaction branch in OrphanTx).

  \<^bold>\<open>Conventions.\<close> Objects reached by pointers live in a heap from numbers to records; a null pointer is None. Functions that change
  state return it; errors are values of type reject (a plain false, a misbehaviour score, an exception, a
  failed assertion, and Stuck for undefined behaviour and endless loops). The negation of the smallest 64-bit number in the
  clock is undefined too, and wraps around here. Machine words keep their width. Loops along pointers are
  partial functions with value None when they do not end; that they end on well-formed trees is proved. Random draws are an argument,
  a sequence of numbers; for Select, which draws until it accepts, it is proved that it ends when every bucket is drawn again and
  again. No fuel is used.
  Hash functions, signatures, encryption and key derivation are parameters, and so are the verdicts of the operating
  system (disk space, time) and of the command line.

  \<^bold>\<open>What the lemmas show.\<close>
  \<^item> The chain: a reorganisation leaves the database as the ledger of the new chain or of the old one; the
    search for the fork ends at the last common ancestor; AddToBlockIndex keeps the invariant of the chain state, on every outcome;
    a refused block leaves no trace; orphan maps stay consistent, and an accepted block
    brings in the orphans that waited for it, through all descendants; checkpoints move to descendants only.
  \<^item> Blocks: disconnecting undoes connecting; no output is spent twice; inputs pay for outputs and fees; issue and maturity of
    generated coins; files give back what was stored and the recorded positions.
  \<^item> Orphan transactions: in every reachable state the two maps agree and are bounded; on a well-formed block tree handling a message ends, and the
    pool gains exactly what is relayed; the index by previous transaction keeps empty entries.
  \<^item> Transactions and scripts: the limits of the interpreter, the matching of multi-signatures, that standard
    outputs are unlocked by the signing functions, that the signature cache is invisible, that encryption of a key store keeps its keys.
  \<^item> Key pool: keys reserved and handed out are used once, unless the pool has run empty.
    Coins: the selection succeeds exactly if the eligible outputs suffice, and its sums are right, whatever the random numbers.
  \<^item> Consensus arithmetic: stake modifiers and kernel, targets, emission, coin age.
  \<^item> Peers: in every reachable state of the address manager its index, tables and counters agree (its own consistency check passes),
    its size is bounded, no assertion fails, and Add, Good, GetAddr and Select do what they are for.
    SelectTried finds the entry to evict but returns another position. Messages cross a link in order and once, and no bytes make
    ProcessMessages fail or loop. Requests for an item are spaced from one sending to the next, and sent when due; getdata
    is answered with what was relayed in the 15 minutes before the last relay. The clock offset is limited, but for an overflow, and ends
    up frozen.
  \<^item> Text: the encodings are read back; base-58 text is in bijection with bytes; addresses name their destinations.
  \<^item> Data: big integers, compact targets, streams, hashes, Merkle branches, locators, and that parsers return well-formed values.

  \<^bold>\<open>Limits.\<close> The invariant of the chain state is proved for a block whose parent has no more trust than the best block; with
  a heavier parent SetBestChain postpones blocks, and when one of those then fails to connect it goes on as if it had
  not, so the invariant does not hold. Chains are assumed to hold no transaction hash twice, which the code
  enforces only for unspent ones. Times given to the address manager are not negative; its counters are unbounded integers.

  \<^bold>\<open>Not modelled.\<close> Opening sockets, SOCKS proxies, the threads, the other handlers of messages, the file of known peers, serialization, rescanning and staking of the wallet, the database library, RPC, the graphical interface, start-up and reporting,
  vendored libraries, hash functions (parameters), OpenSSL (parameters), the tools. Of the modelled parts: debug output, locks,
  statistics, notices to wallets, the block index records on disk, and the other values of constants on the test network.
\<close>

end
